(* ===== verification/Prelude.thy ===== *)
theory Prelude
  imports Main "HOL-Library.AList" "HOL-Library.Sublist"
begin

text \<open>
  Shared vocabulary of the development: the type synonyms that name the model's types, the
  JavaScript containers the code uses (an insertion-ordered Map as an association list), the
  generic lemmas about them, and the \<^theory_text>\<open>named_theorems\<close> collections the component proofs
  draw on.
\<close>

section \<open>Collections\<close>

named_theorems fsm_simps \<open>evaluation rules of the job state machine\<close>
named_theorems map_simps \<open>lookup, insertion and deletion in insertion-ordered maps\<close>
named_theorems lock_simps \<open>field-wise effect of the lock operations\<close>
named_theorems guard_simps \<open>field-wise effect of the read/write guard operations\<close>
named_theorems causal_simps \<open>evaluation rules of the causal reducer\<close>

section \<open>Types\<close>

text \<open>Timestamps are JavaScript numbers holding integral milliseconds (\<^verbatim>\<open>Date.now()\<close>).\<close>

type_synonym time = int

text \<open>A JavaScript \<^verbatim>\<open>Map\<close> or plain object, in enumeration (insertion) order.\<close>

type_synonym ('k, 'v) jsmap = "('k \<times> 'v) list"

abbreviation js_keys :: "('k, 'v) jsmap \<Rightarrow> 'k list" where
  "js_keys m \<equiv> map fst m"

abbreviation js_get :: "('k, 'v) jsmap \<Rightarrow> 'k \<Rightarrow> 'v option" where
  "js_get m k \<equiv> map_of m k"

text \<open>Replaces the value of an existing key in place and appends a new key at the end.\<close>

abbreviation js_set :: "'k \<Rightarrow> 'v \<Rightarrow> ('k, 'v) jsmap \<Rightarrow> ('k, 'v) jsmap" where
  "js_set k v m \<equiv> AList.update k v m"

abbreviation js_del :: "'k \<Rightarrow> ('k, 'v) jsmap \<Rightarrow> ('k, 'v) jsmap" where
  "js_del k m \<equiv> AList.delete k m"

abbreviation js_has :: "('k, 'v) jsmap \<Rightarrow> 'k \<Rightarrow> bool" where
  "js_has m k \<equiv> map_of m k \<noteq> None"

section \<open>Insertion-ordered maps\<close>

text \<open>Lookups stay lookups: they are not turned into membership of the association list.\<close>

declare map_of_eq_Some_iff [simp del] and Some_eq_map_of_iff [simp del]

lemma js_get_set [map_simps]: "js_get (js_set k v m) k' = (if k' = k then Some v else js_get m k')"
  by (simp add: update_conv')

lemma js_get_del [map_simps]: "js_get (js_del k m) k' = (if k' = k then None else js_get m k')"
  by (simp add: delete_conv')

lemma js_has_iff_key: "js_has m k \<longleftrightarrow> k \<in> set (js_keys m)"
  by (simp add: map_of_eq_None_iff)

lemma distinct_js_set [intro]: "distinct (js_keys m) \<Longrightarrow> distinct (js_keys (js_set k v m))"
  by (rule distinct_update)

lemma distinct_js_del [intro]: "distinct (js_keys m) \<Longrightarrow> distinct (js_keys (js_del k m))"
  by (rule distinct_delete)

lemma set_keys_js_set [simp]: "set (js_keys (js_set k v m)) = insert k (set (js_keys m))"
  by (induction m) auto

lemma set_keys_js_del [simp]: "set (js_keys (js_del k m)) = set (js_keys m) - {k}"
  by (induction m) auto

lemma keys_js_del: "js_keys (js_del k m) = filter (\<lambda>x. x \<noteq> k) (js_keys m)"
  by (induction m) auto

text \<open>Setting or deleting several keys, as \<^verbatim>\<open>storage.set(items)\<close> and \<^verbatim>\<open>storage.remove(keys)\<close> do.\<close>

definition js_sets :: "('k, 'v) jsmap \<Rightarrow> ('k, 'v) jsmap \<Rightarrow> ('k, 'v) jsmap" where
  "js_sets items m = fold (\<lambda>(k, v). js_set k v) items m"

definition js_dels :: "'k list \<Rightarrow> ('k, 'v) jsmap \<Rightarrow> ('k, 'v) jsmap" where
  "js_dels ks m = fold js_del ks m"

lemma js_sets_Nil [simp]: "js_sets [] m = m"
  by (simp add: js_sets_def)

lemma js_sets_Cons [simp]: "js_sets ((k, v) # items) m = js_sets items (js_set k v m)"
  by (simp add: js_sets_def)

lemma js_dels_Nil [simp]: "js_dels [] m = m"
  by (simp add: js_dels_def)

lemma js_dels_Cons [simp]: "js_dels (k # ks) m = js_dels ks (js_del k m)"
  by (simp add: js_dels_def)

lemma js_get_sets_notin: "k \<notin> set (js_keys items) \<Longrightarrow> js_get (js_sets items m) k = js_get m k"
  by (induction items arbitrary: m) (auto simp: map_simps)

lemma js_get_sets [map_simps]:
  assumes "distinct (js_keys items)"
  shows "js_get (js_sets items m) k = (case js_get items k of None \<Rightarrow> js_get m k | Some v \<Rightarrow> Some v)"
  using assms
proof (induction items arbitrary: m)
  case (Cons p items)
  obtain k' v where p: "p = (k', v)" by force
  show ?case
  proof (cases "k = k'")
    case True
    with Cons.prems p have "k \<notin> set (js_keys items)" by simp
    with True p show ?thesis by (simp add: js_get_sets_notin js_get_set)
  next
    case False
    with Cons p show ?thesis by (simp add: js_get_set split: option.split)
  qed
qed simp

lemma js_get_dels [map_simps]: "js_get (js_dels ks m) k = (if k \<in> set ks then None else js_get m k)"
  by (induction ks arbitrary: m) (auto simp: map_simps)

lemma distinct_js_sets [intro]: "distinct (js_keys m) \<Longrightarrow> distinct (js_keys (js_sets items m))"
proof (induction items arbitrary: m)
  case (Cons p items)
  then show ?case by (cases p) (simp add: distinct_update)
qed simp

lemma distinct_js_dels [intro]: "distinct (js_keys m) \<Longrightarrow> distinct (js_keys (js_dels ks m))"
  by (induction ks arbitrary: m) (auto simp: distinct_delete)

text \<open>\<^verbatim>\<open>storage.get(keys)\<close>: the part of a store under the given keys, or all of it.\<close>

definition js_pick :: "'k list option \<Rightarrow> ('k, 'v) jsmap \<Rightarrow> ('k, 'v) jsmap" where
  "js_pick keys m =
     (case keys of
        None \<Rightarrow> m
      | Some ks \<Rightarrow> fold (\<lambda>k out. case js_get m k of None \<Rightarrow> out | Some v \<Rightarrow> js_set k v out) ks [])"

lemma js_pick_None [simp]: "js_pick None m = m"
  by (simp add: js_pick_def)

lemma js_get_pick_acc:
  "js_get (fold (\<lambda>k out. case js_get m k of None \<Rightarrow> out | Some v \<Rightarrow> js_set k v out) ks acc) k =
     (if k \<in> set ks \<and> js_has m k then js_get m k else js_get acc k)"
proof (induction ks arbitrary: acc)
  case (Cons a ks)
  then show ?case by (cases "js_get m a") (auto simp: js_get_set)
qed simp

lemma js_get_pick: "js_get (js_pick (Some ks) m) k = (if k \<in> set ks then js_get m k else None)"
  by (cases "js_get m k") (auto simp: js_pick_def js_get_pick_acc)

section \<open>Options and lists\<close>

text \<open>JavaScript's \<^verbatim>\<open>a ?? b\<close>.\<close>

definition or_else :: "'a option \<Rightarrow> 'a \<Rightarrow> 'a" where
  "or_else x d = (case x of None \<Rightarrow> d | Some y \<Rightarrow> y)"

lemma or_else_simps [simp]: "or_else None d = d" "or_else (Some y) d = y"
  by (simp_all add: or_else_def)

text \<open>\<^verbatim>\<open>filter === undefined || value === filter\<close>: an optional filter field.\<close>

definition matches_opt :: "'a option \<Rightarrow> 'a \<Rightarrow> bool" where
  "matches_opt f x = (case f of None \<Rightarrow> True | Some y \<Rightarrow> x = y)"

lemma matches_opt_simps [simp]: "matches_opt None x" "matches_opt (Some y) x \<longleftrightarrow> x = y"
  by (simp_all add: matches_opt_def)

lemma distinct_map_filter: "distinct (map f xs) \<Longrightarrow> distinct (map f (filter P xs))"
  by (induction xs) auto

lemma set_map_filter_iff: "y \<in> set (List.map_filter f xs) \<longleftrightarrow> (\<exists>x\<in>set xs. f x = Some y)"
  by (induction xs) (auto simp: map_filter_simps split: option.split)

lemma append_split_notin:
  "as @ bs = xs @ x # ys \<Longrightarrow> x \<notin> set as \<Longrightarrow> \<exists>zs. xs = as @ zs \<and> bs = zs @ x # ys"
proof (induction as arbitrary: xs)
  case (Cons a as)
  then show ?case by (cases xs) auto
qed simp

lemma js_get_filter:
  "distinct (js_keys m) \<Longrightarrow>
     js_get (filter P m) k = (case js_get m k of None \<Rightarrow> None | Some v \<Rightarrow> if P (k, v) then Some v else None)"
proof (induction m)
  case (Cons p m)
  obtain k' v where p: "p = (k', v)" by force
  show ?case
  proof (cases "k = k'")
    case True
    with Cons.prems p have "js_get m k = None" by (simp add: map_of_eq_None_iff)
    with Cons p True show ?thesis by simp
  qed (use Cons p in simp)
qed simp

lemma distinct_filter_keys: "distinct (js_keys m) \<Longrightarrow> distinct (js_keys (filter P m))"
  by (rule distinct_map_filter)

lemma js_get_filter_key: "js_get (filter (\<lambda>(k, v). P k) m) k = (if P k then js_get m k else None)"
  by (induction m) auto

lemma distinct_fold_js_set:
  "distinct (js_keys m) \<Longrightarrow> distinct (js_keys (fold (\<lambda>x. js_set (g x) (h x)) xs m))"
  by (induction xs arbitrary: m) (simp_all add: distinct_update)

section \<open>Counting entries\<close>

text \<open>How many entries of a map satisfy a predicate, under the writes of a map.\<close>

definition js_count :: "('k \<times> 'v \<Rightarrow> bool) \<Rightarrow> ('k, 'v) jsmap \<Rightarrow> nat" where
  "js_count P m = length (filter P m)"

lemma js_set_new: "\<not> js_has m k \<Longrightarrow> js_set k v m = m @ [(k, v)]"
  by (induction m) auto

lemma js_count_new: "\<not> js_has m k \<Longrightarrow> js_count P (js_set k v m) = js_count P m + (if P (k, v) then 1 else 0)"
  by (simp add: js_set_new js_count_def)

lemma js_count_old:
  "js_get m k = Some w \<Longrightarrow> js_count P (js_set k v m) + (if P (k, w) then 1 else 0) = js_count P m + (if P (k, v) then 1 else 0)"
  by (induction m) (auto simp: js_count_def)

lemma js_count_del:
  "distinct (js_keys m) \<Longrightarrow> js_get m k = Some w \<Longrightarrow> js_count P (js_del k m) + (if P (k, w) then 1 else 0) = js_count P m"
proof (induction m)
  case (Cons p m)
  obtain k' w' where p: "p = (k', w')" by force
  show ?case
  proof (cases "k' = k")
    case True
    then have "k \<notin> set (js_keys m)" using Cons.prems p by simp
    then have "js_del k m = m" by (simp add: delete_idem)
    then show ?thesis using True p Cons.prems by (simp add: js_count_def)
  next
    case False
    then show ?thesis using Cons p by (auto simp: js_count_def)
  qed
qed simp

lemma js_count_filter: "js_count P (filter Q m) \<le> js_count P m"
  by (induction m) (auto simp: js_count_def)

lemma js_count_del_le: "js_count P (js_del k m) \<le> js_count P m"
  by (simp add: AList.delete_eq js_count_filter)

lemma js_del_absent: "\<not> js_has m k \<Longrightarrow> js_del k m = m"
  by (simp add: delete_idem map_of_eq_None_iff)

lemma js_get_mem: "js_get m k = Some v \<Longrightarrow> (k, v) \<in> set m"
  by (rule map_of_SomeD)

lemma js_mem_get: "distinct (js_keys m) \<Longrightarrow> (k, v) \<in> set m \<Longrightarrow> js_get m k = Some v"
  by (simp add: map_of_is_SomeI)

lemma set_js_del: "set (js_del k m) = {(k', v) \<in> set m. k' \<noteq> k}"
  by (auto simp: AList.delete_eq)

lemma set_js_set: "distinct (js_keys m) \<Longrightarrow> set (js_set k v m) = insert (k, v) {(k', v) \<in> set m. k' \<noteq> k}"
proof (induction m)
  case (Cons p m)
  obtain k' w where p: "p = (k', w)" by force
  show ?case
  proof (cases "k' = k")
    case True
    then have "k \<notin> fst ` set m" using Cons.prems p by simp
    then show ?thesis using True p by force
  next
    case False
    then show ?thesis using Cons p by auto
  qed
qed simp

text \<open>A present key splits its map, and the writes under it act at the split.\<close>

lemma js_split:
  assumes "js_get m k = Some v"
  obtains xs ys where "m = xs @ (k, v) # ys" "k \<notin> set (js_keys xs)" "\<And>v'. js_set k v' m = xs @ (k, v') # ys"
    "distinct (js_keys m) \<Longrightarrow> js_del k m = xs @ ys"
proof -
  have "\<exists>xs ys. m = xs @ (k, v) # ys \<and> k \<notin> set (js_keys xs)"
    using assms
  proof (induction m)
    case (Cons p m)
    obtain k' w where p: "p = (k', w)" by force
    show ?case
    proof (cases "k' = k")
      case True
      then show ?thesis using Cons p by (intro exI [of _ "[]"] exI [of _ m]) simp
    next
      case False
      then obtain xs ys where "m = xs @ (k, v) # ys" "k \<notin> set (js_keys xs)"
        using Cons p by auto
      then show ?thesis using False p by (intro exI [of _ "p # xs"] exI [of _ ys]) simp
    qed
  qed simp
  then obtain xs ys where m: "m = xs @ (k, v) # ys" "k \<notin> set (js_keys xs)" by blast
  have set: "js_set k v' m = xs @ (k, v') # ys" for v'
    unfolding m(1) using m(2) by (induction xs) auto
  have del: "js_del k m = xs @ ys" if "distinct (js_keys m)"
  proof -
    have "filter (\<lambda>(k', _). k \<noteq> k') zs = zs" if "k \<notin> set (js_keys zs)" for zs :: "('b, 'a) jsmap"
      using that by (induction zs) auto
    then show ?thesis using that m by (simp add: AList.delete_eq)
  qed
  show thesis using that [OF m set del] .
qed

end
