(* ===== verification/Job_Fsm.thy ===== *)
theory Job_Fsm
  imports Prelude
begin

text \<open>
  The durable-job state machine of \<^verbatim>\<open>packages/wallet-core/src/jobs\<close>: the stages, the progress
  payload of each stage, the error envelope, the table of legal transitions and the two guards
  built on it. The lemmas describe every path through the table: an order on the stages that each
  step increases, so that paths are finite, terminal stages are final, and the point of no return.
\<close>

section \<open>Stages and payloads (types.ts)\<close>

datatype job_stage =
    Queued | Pending | Simulating | Proving | Submitting | Succeeded | Failed | Cancelled

definition TERMINAL_STAGES :: "job_stage list" where
  "TERMINAL_STAGES = [Succeeded, Failed, Cancelled]"

definition isTerminal :: "job_stage \<Rightarrow> bool" where
  "isTerminal s = (s \<in> set TERMINAL_STAGES)"

datatype send_check_outcome = CheckSent | CheckReverted | CheckUnconfirmed

datatype prove_backend = Presto | Browser

text \<open>\<^verbatim>\<open>JobProgress\<close>, discriminated by the stage; an absent optional field is \<^term>\<open>None\<close>.\<close>

datatype job_progress =
    PQueued
  | PPending
  | PSimulating
  | PProving (enteredProveAt: time) (backend: "prove_backend option")
  | PSubmitting (subTxHash: "string option") (subEndpoint: "string option")
  | PSucceeded (okTxHash: "string option")
  | PFailed (failFrom: "job_stage option") (failTxHash: "string option")
      (failEndpoint: "string option") (failCheck: "send_check_outcome option")
  | PCancelled

fun stage_of :: "job_progress \<Rightarrow> job_stage" where
  "stage_of PQueued = Queued"
| "stage_of PPending = Pending"
| "stage_of PSimulating = Simulating"
| "stage_of (PProving _ _) = Proving"
| "stage_of (PSubmitting _ _) = Submitting"
| "stage_of (PSucceeded _) = Succeeded"
| "stage_of (PFailed _ _ _ _) = Failed"
| "stage_of PCancelled = Cancelled"

text \<open>\<^verbatim>\<open>JobError\<close>: the category is an open union of strings.\<close>

record job_error =
  je_kind :: string
  je_message :: string
  je_normalizedRaw :: "string option"

definition NORMALIZED_RAW_MAX_CHARS :: nat where
  "NORMALIZED_RAW_MAX_CHARS = 4096"

section \<open>The transition table (fsm.ts)\<close>

fun LEGAL_TRANSITIONS :: "job_stage \<Rightarrow> job_stage list" where
  "LEGAL_TRANSITIONS Queued = [Pending, Failed, Cancelled]"
| "LEGAL_TRANSITIONS Pending = [Simulating, Failed, Cancelled]"
| "LEGAL_TRANSITIONS Simulating = [Proving, Succeeded, Failed, Cancelled]"
| "LEGAL_TRANSITIONS Proving = [Submitting, Failed, Cancelled]"
| "LEGAL_TRANSITIONS Submitting = [Succeeded, Failed]"
| "LEGAL_TRANSITIONS Succeeded = []"
| "LEGAL_TRANSITIONS Failed = []"
| "LEGAL_TRANSITIONS Cancelled = []"

definition canTransition :: "job_stage \<Rightarrow> job_stage \<Rightarrow> bool" where
  "canTransition from to = (to \<in> set (LEGAL_TRANSITIONS from))"

datatype illegal_reason = IsTerminal | NotInTable

datatype illegal_transition = IllegalTransitionError (it_from: job_stage) (it_to: job_stage)
    (it_reason: illegal_reason)

definition illegal_error :: "job_stage \<Rightarrow> job_stage \<Rightarrow> illegal_transition" where
  "illegal_error from to =
     IllegalTransitionError from to (if isTerminal from then IsTerminal else NotInTable)"

definition assertCanTransition :: "job_stage \<Rightarrow> job_stage \<Rightarrow> illegal_transition + unit" where
  "assertCanTransition from to =
     (if \<not> canTransition from to then Inl (illegal_error from to) else Inr ())"

section \<open>Lemmas\<close>

lemma isTerminal_simps [simp, fsm_simps]:
  "\<not> isTerminal Queued" "\<not> isTerminal Pending" "\<not> isTerminal Simulating" "\<not> isTerminal Proving"
  "\<not> isTerminal Submitting" "isTerminal Succeeded" "isTerminal Failed" "isTerminal Cancelled"
  by (simp_all add: isTerminal_def TERMINAL_STAGES_def)

lemma isTerminal_iff: "isTerminal s \<longleftrightarrow> s = Succeeded \<or> s = Failed \<or> s = Cancelled"
  by (cases s) simp_all

lemma canTransition_iff [fsm_simps]:
  "canTransition Queued t \<longleftrightarrow> t \<in> {Pending, Failed, Cancelled}"
  "canTransition Pending t \<longleftrightarrow> t \<in> {Simulating, Failed, Cancelled}"
  "canTransition Simulating t \<longleftrightarrow> t \<in> {Proving, Succeeded, Failed, Cancelled}"
  "canTransition Proving t \<longleftrightarrow> t \<in> {Submitting, Failed, Cancelled}"
  "canTransition Submitting t \<longleftrightarrow> t \<in> {Succeeded, Failed}"
  "\<not> canTransition Succeeded t" "\<not> canTransition Failed t" "\<not> canTransition Cancelled t"
  by (simp_all add: canTransition_def)

lemma terminal_no_exit: "isTerminal s \<Longrightarrow> \<not> canTransition s t"
  by (cases s) (simp_all add: fsm_simps)

lemma active_can_fail: "\<not> isTerminal s \<Longrightarrow> canTransition s Failed"
  by (cases s) (simp_all add: fsm_simps)

lemma assertCanTransition_Inr [simp]: "assertCanTransition a b = Inr u \<longleftrightarrow> canTransition a b"
  by (simp add: assertCanTransition_def)

lemma assertCanTransition_Inl:
  "assertCanTransition a b = Inl e \<longleftrightarrow> \<not> canTransition a b \<and> e = illegal_error a b"
  by (auto simp: assertCanTransition_def)

text \<open>Progress rank: every legal step moves strictly forward.\<close>

fun stage_rank :: "job_stage \<Rightarrow> nat" where
  "stage_rank Queued = 0"
| "stage_rank Pending = 1"
| "stage_rank Simulating = 2"
| "stage_rank Proving = 3"
| "stage_rank Submitting = 4"
| "stage_rank Succeeded = 5"
| "stage_rank Failed = 5"
| "stage_rank Cancelled = 5"

lemma canTransition_rank: "canTransition a b \<Longrightarrow> stage_rank a < stage_rank b"
  by (cases a) (auto simp: fsm_simps)

text \<open>A path is a list of stages, each legally reached from the one before.\<close>

fun stage_path :: "job_stage \<Rightarrow> job_stage list \<Rightarrow> bool" where
  "stage_path s [] = True"
| "stage_path s (t # ts) = (canTransition s t \<and> stage_path t ts)"

lemma stage_path_append: "stage_path s (xs @ ys) \<longleftrightarrow> stage_path s xs \<and> stage_path (last (s # xs)) ys"
  by (induction xs arbitrary: s) auto

lemma stage_path_length: "stage_path s ts \<Longrightarrow> length ts + stage_rank s \<le> 5"
proof (induction ts arbitrary: s)
  case Nil
  then show ?case by (cases s) simp_all
next
  case (Cons t ts)
  then have "length ts + stage_rank t \<le> 5" "stage_rank s < stage_rank t"
    by (auto simp: canTransition_rank)
  then show ?case by simp
qed

lemma stage_path_sorted:
  "stage_path s ts \<Longrightarrow> sorted_wrt (\<lambda>a b. stage_rank a < stage_rank b) (s # ts)"
proof (induction ts arbitrary: s)
  case (Cons t ts)
  then have "sorted_wrt (\<lambda>a b. stage_rank a < stage_rank b) (t # ts)" and "stage_rank s < stage_rank t"
    by (auto simp: canTransition_rank)
  then show ?case by auto
qed simp

lemma stage_path_distinct: "stage_path s ts \<Longrightarrow> distinct (s # ts)"
  by (drule stage_path_sorted) (auto simp: distinct_conv_nth sorted_wrt_iff_nth_less nat_neq_iff, force+)

lemma stage_path_terminal: "isTerminal s \<Longrightarrow> stage_path s ts \<Longrightarrow> ts = []"
  by (cases ts) (auto simp: terminal_no_exit)

lemma stage_path_submitting_tail:
  "stage_path s ts \<Longrightarrow> Submitting \<in> set (s # ts) \<Longrightarrow> last (s # ts) \<in> {Submitting, Succeeded, Failed}"
proof (induction ts arbitrary: s)
  case (Cons t ts)
  show ?case
  proof (cases "s = Submitting")
    case True
    with Cons.prems have "isTerminal t" "t \<in> {Succeeded, Failed}" by (auto simp: fsm_simps)
    with Cons.prems show ?thesis by (auto dest: stage_path_terminal)
  next
    case False
    with Cons show ?thesis by auto
  qed
qed simp

section \<open>Properties\<close>

text \<open>
  Every path through the job table is finite and forward-moving: it has at most five steps,
  revisits no stage, and once it has touched \<^term>\<open>Submitting\<close> (the point of no return, where the
  transaction is handed to the network) it can no longer end in \<^term>\<open>Cancelled\<close>.
\<close>

theorem fsm_paths_forward:
  assumes "stage_path s ts"
  shows "length ts \<le> 5 \<and> distinct (s # ts)
    \<and> (Submitting \<in> set (s # ts) \<longrightarrow> last (s # ts) \<noteq> Cancelled)"
  using stage_path_length [OF assms] stage_path_distinct [OF assms]
    stage_path_submitting_tail [OF assms]
  by auto

text \<open>The hypothesis holds for a full on-chain run.\<close>

theorem fsm_paths_forward_witness:
  "stage_path Queued [Pending, Simulating, Proving, Submitting, Succeeded]
   \<and> length [Pending, Simulating, Proving, Submitting, Succeeded] \<le> 5
   \<and> last (Queued # [Pending, Simulating, Proving, Submitting, Succeeded]) \<noteq> Cancelled"
proof -
  have p: "stage_path Queued [Pending, Simulating, Proving, Submitting, Succeeded]"
    by (simp add: fsm_simps)
  show ?thesis using p fsm_paths_forward [OF p] by simp
qed

end
