(* ===== verification/Lock.thy ===== *)
theory Lock
  imports Prelude
begin

text \<open>
  The ownership-ticketed mutex of \<^verbatim>\<open>packages/wallet-core/src/utils/lock.ts\<close> and the per-key
  serialisation of \<^verbatim>\<open>keyed-lock.ts\<close>. The synchronous bodies of \<^verbatim>\<open>enter\<close>, \<^verbatim>\<open>leave\<close>, \<^verbatim>\<open>dispatch\<close> and the
  watchdog callback are functions on the lock object; a run is a list of events, in any order the
  callers and the event loop produce. Resolving a waiter's promise appends it, with the ticket it
  receives, to the list of grants. Logging never affects the state and is left out.
\<close>

section \<open>State\<close>

text \<open>
  Tickets (symbols in the code) are numbers drawn from \<open>lk_next\<close>. \<open>lk_pending\<close> holds the tickets of
  the watchdog callbacks that are scheduled and not yet cleared or fired; a timer handle is named by
  the ticket of the grant that armed it.
\<close>

record 'w lock =
  lk_queue :: "'w list"
  lk_locked :: bool
  lk_current :: "nat option"
  lk_maxHoldMs :: "nat option"
  lk_timer :: "nat option"
  lk_pending :: "nat list"
  lk_next :: nat
  lk_grants :: "('w \<times> nat) list"

definition MAX_HOLD_MS :: nat where
  "MAX_HOLD_MS = 5 * 60000"

definition new_lock :: "nat option \<Rightarrow> 'w lock" where
  "new_lock maxHoldMs = \<lparr>lk_queue = [], lk_locked = False, lk_current = None,
     lk_maxHoldMs = maxHoldMs, lk_timer = None, lk_pending = [], lk_next = 0, lk_grants = []\<rparr>"

section \<open>Operations\<close>

text \<open>\<open>arm\<close> tells whether \<^verbatim>\<open>setTimeout\<close> succeeded: a throw leaves the grant untimed.\<close>

definition arm_watchdog :: "bool \<Rightarrow> nat \<Rightarrow> 'w lock \<Rightarrow> 'w lock" where
  "arm_watchdog arm t l =
     (if lk_maxHoldMs l \<noteq> None \<and> arm
      then l\<lparr>lk_timer := Some t, lk_pending := lk_pending l @ [t]\<rparr> else l)"

definition lock_dispatch :: "bool \<Rightarrow> 'w lock \<Rightarrow> 'w lock" where
  "lock_dispatch arm l =
     (case lk_queue l of
        [] \<Rightarrow> l
      | w # ws \<Rightarrow>
          if lk_locked l then l
          else let t = lk_next l;
                   l' = arm_watchdog arm t
                     (l\<lparr>lk_locked := True, lk_current := Some t, lk_next := Suc t\<rparr>)
               in l'\<lparr>lk_queue := ws, lk_grants := lk_grants l' @ [(w, t)]\<rparr>)"

definition lock_enter :: "bool \<Rightarrow> 'w \<Rightarrow> 'w lock \<Rightarrow> 'w lock" where
  "lock_enter arm w l = lock_dispatch arm (l\<lparr>lk_queue := lk_queue l @ [w]\<rparr>)"

definition clear_timer :: "'w lock \<Rightarrow> 'w lock" where
  "clear_timer l =
     (case lk_timer l of
        None \<Rightarrow> l
      | Some h \<Rightarrow> l\<lparr>lk_pending := filter (\<lambda>x. x \<noteq> h) (lk_pending l), lk_timer := None\<rparr>)"

definition lock_leave :: "bool \<Rightarrow> nat \<Rightarrow> 'w lock \<Rightarrow> 'w lock" where
  "lock_leave arm t l =
     (if lk_current l \<noteq> Some t then l
      else lock_dispatch arm ((clear_timer l)\<lparr>lk_current := None, lk_locked := False\<rparr>))"

text \<open>The watchdog callback of ticket \<open>t\<close>; it acts only while its own grant is current.\<close>

definition lock_fire :: "bool \<Rightarrow> nat \<Rightarrow> 'w lock \<Rightarrow> 'w lock" where
  "lock_fire arm t l =
     (if t \<in> set (lk_pending l) then
        (let l' = l\<lparr>lk_pending := filter (\<lambda>x. x \<noteq> t) (lk_pending l)\<rparr>
         in if lk_current l' = Some t
            then lock_dispatch arm (l'\<lparr>lk_timer := None, lk_current := None, lk_locked := False\<rparr>)
            else l')
      else l)"

definition isCurrent :: "nat \<Rightarrow> 'w lock \<Rightarrow> bool" where
  "isCurrent t l = (lk_current l = Some t)"

section \<open>Runs\<close>

datatype 'w lock_event = Enter bool 'w | Leave bool nat | Fire bool nat

fun lock_step :: "'w lock \<Rightarrow> 'w lock_event \<Rightarrow> 'w lock" where
  "lock_step l (Enter a w) = lock_enter a w l"
| "lock_step l (Leave a t) = lock_leave a t l"
| "lock_step l (Fire a t) = lock_fire a t l"

fun lock_run :: "'w lock \<Rightarrow> 'w lock_event list \<Rightarrow> 'w lock" where
  "lock_run l [] = l"
| "lock_run l (e # es) = lock_run (lock_step l e) es"

fun entered :: "'w lock_event list \<Rightarrow> 'w list" where
  "entered [] = []"
| "entered (Enter _ w # es) = w # entered es"
| "entered (_ # es) = entered es"

section \<open>Field-wise effects and the invariant\<close>

lemma arm_watchdog_fields [lock_simps]:
  "lk_queue (arm_watchdog a t l) = lk_queue l" "lk_locked (arm_watchdog a t l) = lk_locked l"
  "lk_current (arm_watchdog a t l) = lk_current l" "lk_next (arm_watchdog a t l) = lk_next l"
  "lk_grants (arm_watchdog a t l) = lk_grants l" "lk_maxHoldMs (arm_watchdog a t l) = lk_maxHoldMs l"
  "lk_timer (arm_watchdog a t l) = (if lk_maxHoldMs l \<noteq> None \<and> a then Some t else lk_timer l)"
  "lk_pending (arm_watchdog a t l) = lk_pending l @ (if lk_maxHoldMs l \<noteq> None \<and> a then [t] else [])"
  by (simp_all add: arm_watchdog_def)

lemma clear_timer_fields [lock_simps]:
  "lk_queue (clear_timer l) = lk_queue l" "lk_locked (clear_timer l) = lk_locked l"
  "lk_current (clear_timer l) = lk_current l" "lk_next (clear_timer l) = lk_next l"
  "lk_grants (clear_timer l) = lk_grants l" "lk_maxHoldMs (clear_timer l) = lk_maxHoldMs l"
  "lk_timer (clear_timer l) = None"
  by (simp_all add: clear_timer_def split: option.split)

text \<open>
  A lock is locked exactly while a ticket is current, is never idle with waiters, its tickets are
  fresh and given once, the current ticket is the one granted last, and a watchdog is scheduled at
  most for the current grant (and never when the watchdog is disabled).
\<close>

definition lock_inv :: "'w lock \<Rightarrow> bool" where
  "lock_inv l \<longleftrightarrow>
     (lk_locked l \<longleftrightarrow> lk_current l \<noteq> None) \<and>
     (\<not> lk_locked l \<longrightarrow> lk_queue l = []) \<and>
     map snd (lk_grants l) = [0..<lk_next l] \<and>
     (\<forall>t. lk_current l = Some t \<longrightarrow> Suc t = lk_next l) \<and>
     lk_pending l = (case lk_timer l of None \<Rightarrow> [] | Some t \<Rightarrow> [t]) \<and>
     (\<forall>t. lk_timer l = Some t \<longrightarrow> lk_current l = Some t) \<and>
     (lk_maxHoldMs l = None \<longrightarrow> lk_timer l = None)"

text \<open>The state between a release and the dispatch that follows it.\<close>

definition lock_released :: "'w lock \<Rightarrow> bool" where
  "lock_released l \<longleftrightarrow> \<not> lk_locked l \<and> lk_current l = None \<and> lk_timer l = None \<and> lk_pending l = []
     \<and> map snd (lk_grants l) = [0..<lk_next l]"

lemma dispatch_locked: "lk_locked l \<Longrightarrow> lock_dispatch a l = l"
  by (simp add: lock_dispatch_def split: list.split)

lemma dispatch_released:
  assumes "lock_released l"
  shows "lock_inv (lock_dispatch a l)"
    and "map fst (lk_grants (lock_dispatch a l)) @ lk_queue (lock_dispatch a l) = map fst (lk_grants l) @ lk_queue l"
    and "lk_maxHoldMs (lock_dispatch a l) = lk_maxHoldMs l"
    and "lk_current (lock_dispatch a l) = (case lk_queue l of [] \<Rightarrow> None | _ # _ \<Rightarrow> Some (lk_next l))"
    and "lk_queue (lock_dispatch a l) = tl (lk_queue l)"
    and "lk_grants (lock_dispatch a l) = lk_grants l @ (case lk_queue l of [] \<Rightarrow> [] | w # _ \<Rightarrow> [(w, lk_next l)])"
  using assms
  by (auto simp: lock_dispatch_def lock_inv_def lock_released_def lock_simps Let_def split: list.split)

lemma new_lock_inv: "lock_inv (new_lock m)"
  by (simp add: new_lock_def lock_inv_def)

lemma lock_inv_free: "lock_inv l \<Longrightarrow> lk_current l = None \<Longrightarrow> lock_released (l\<lparr>lk_queue := ws\<rparr>)"
  by (auto simp: lock_inv_def lock_released_def split: option.splits)

lemma lock_inv_left:
  assumes "lock_inv l" and "lk_current l = Some t"
  shows "lock_released ((clear_timer l)\<lparr>lk_current := None, lk_locked := False\<rparr>)"
proof (cases "lk_timer l")
  case None
  with assms show ?thesis by (simp add: clear_timer_def lock_inv_def lock_released_def)
next
  case (Some h)
  with assms show ?thesis by (simp add: clear_timer_def lock_inv_def lock_released_def)
qed

lemma lock_inv_fired:
  assumes "lock_inv l" and "t \<in> set (lk_pending l)"
  shows "lk_current l = Some t"
    and "lock_released (l\<lparr>lk_pending := filter (\<lambda>x. x \<noteq> t) (lk_pending l), lk_timer := None,
           lk_current := None, lk_locked := False\<rparr>)"
  using assms by (auto simp: lock_inv_def lock_released_def split: option.splits)

lemma enter_busy:
  assumes "lock_inv l" and "lk_current l = Some t"
  shows "lock_enter a w l = l\<lparr>lk_queue := lk_queue l @ [w]\<rparr>"
  using assms by (simp add: lock_enter_def lock_inv_def dispatch_locked)

lemma leave_stale: "lk_current l \<noteq> Some t \<Longrightarrow> lock_leave a t l = l"
  by (simp add: lock_leave_def)

lemma leave_owner:
  "lk_current l = Some t \<Longrightarrow>
     lock_leave a t l = lock_dispatch a ((clear_timer l)\<lparr>lk_current := None, lk_locked := False\<rparr>)"
  by (simp add: lock_leave_def)

lemma fire_unscheduled: "t \<notin> set (lk_pending l) \<Longrightarrow> lock_fire a t l = l"
  by (simp add: lock_fire_def)

lemma fire_current:
  assumes "lock_inv l" and "t \<in> set (lk_pending l)"
  shows "lock_fire a t l = lock_dispatch a (l\<lparr>lk_pending := filter (\<lambda>x. x \<noteq> t) (lk_pending l),
           lk_timer := None, lk_current := None, lk_locked := False\<rparr>)"
  using assms lock_inv_fired(1) [OF assms] by (simp add: lock_fire_def Let_def)

lemma lock_enter_inv:
  assumes "lock_inv l"
  shows "lock_inv (lock_enter a w l)"
    and "map fst (lk_grants (lock_enter a w l)) @ lk_queue (lock_enter a w l)
         = map fst (lk_grants l) @ lk_queue l @ [w]"
    and "lk_maxHoldMs (lock_enter a w l) = lk_maxHoldMs l"
proof -
  consider (free) "lk_current l = None" | (busy) t where "lk_current l = Some t" by fastforce
  then have "lock_inv (lock_enter a w l) \<and>
      map fst (lk_grants (lock_enter a w l)) @ lk_queue (lock_enter a w l)
        = map fst (lk_grants l) @ lk_queue l @ [w] \<and> lk_maxHoldMs (lock_enter a w l) = lk_maxHoldMs l"
  proof cases
    case free
    from dispatch_released [OF lock_inv_free [OF assms free, of "lk_queue l @ [w]"], of a]
    show ?thesis by (simp add: lock_enter_def)
  next
    case busy
    with assms show ?thesis by (auto simp: enter_busy lock_inv_def)
  qed
  then show "lock_inv (lock_enter a w l)"
    and "map fst (lk_grants (lock_enter a w l)) @ lk_queue (lock_enter a w l)
         = map fst (lk_grants l) @ lk_queue l @ [w]"
    and "lk_maxHoldMs (lock_enter a w l) = lk_maxHoldMs l" by auto
qed

lemma lock_leave_inv:
  assumes "lock_inv l"
  shows "lock_inv (lock_leave a t l)"
    and "map fst (lk_grants (lock_leave a t l)) @ lk_queue (lock_leave a t l)
         = map fst (lk_grants l) @ lk_queue l"
    and "lk_maxHoldMs (lock_leave a t l) = lk_maxHoldMs l"
  using assms dispatch_released [OF lock_inv_left [OF assms], of t a]
  by (cases "lk_current l = Some t"; simp add: leave_owner leave_stale lock_simps)+

lemma lock_fire_inv:
  assumes "lock_inv l"
  shows "lock_inv (lock_fire a t l)"
    and "map fst (lk_grants (lock_fire a t l)) @ lk_queue (lock_fire a t l)
         = map fst (lk_grants l) @ lk_queue l"
    and "lk_maxHoldMs (lock_fire a t l) = lk_maxHoldMs l"
  using assms dispatch_released [OF lock_inv_fired(2) [OF assms], of t a]
  by (cases "t \<in> set (lk_pending l)"; simp add: fire_current fire_unscheduled)+

lemma lock_step_inv: "lock_inv l \<Longrightarrow> lock_inv (lock_step l e)"
  by (cases e) (auto intro: lock_enter_inv lock_leave_inv lock_fire_inv)

lemma lock_run_inv: "lock_inv l \<Longrightarrow> lock_inv (lock_run l es)"
  by (induction es arbitrary: l) (auto simp: lock_step_inv)

lemma lock_run_fifo:
  "lock_inv l \<Longrightarrow>
     map fst (lk_grants (lock_run l es)) @ lk_queue (lock_run l es)
       = map fst (lk_grants l) @ lk_queue l @ entered es"
proof (induction es arbitrary: l)
  case (Cons e es)
  then have "lock_inv (lock_step l e)" by (simp add: lock_step_inv)
  with Cons show ?case
    by (cases e) (simp_all add: lock_enter_inv lock_leave_inv lock_fire_inv)
qed simp

section \<open>The contract: a first-in first-out mutex\<close>

text \<open>
  What a client of a mutex relies on: who holds it, who waits, in which order. \<open>release\<close> is the
  current holder leaving.
\<close>

locale fifo_mutex =
  fixes enter :: "'w \<Rightarrow> 'l \<Rightarrow> 'l"
    and release :: "'l \<Rightarrow> 'l"
    and holder :: "'l \<Rightarrow> 'w option"
    and waiting :: "'l \<Rightarrow> 'w list"
    and inv :: "'l \<Rightarrow> bool"
  assumes idle: "inv l \<Longrightarrow> holder l = None \<Longrightarrow> waiting l = []"
    and inv_enter: "inv l \<Longrightarrow> inv (enter w l)"
    and inv_release: "inv l \<Longrightarrow> inv (release l)"
    and enter_idle: "inv l \<Longrightarrow> holder l = None \<Longrightarrow> holder (enter w l) = Some w \<and> waiting (enter w l) = []"
    and enter_held: "inv l \<Longrightarrow> holder l = Some h \<Longrightarrow>
      holder (enter w l) = Some h \<and> waiting (enter w l) = waiting l @ [w]"
    and release_next: "inv l \<Longrightarrow> holder l = Some h \<Longrightarrow>
      holder (release l) = (case waiting l of [] \<Rightarrow> None | w # _ \<Rightarrow> Some w) \<and>
      waiting (release l) = tl (waiting l)"
begin

lemma releases_waiting:
  "inv l \<Longrightarrow> holder l = Some h \<Longrightarrow> waiting l = xs @ w # ys \<Longrightarrow>
     holder ((release ^^ Suc (length xs)) l) = Some w \<and> waiting ((release ^^ Suc (length xs)) l) = ys"
proof (induction xs arbitrary: l h)
  case Nil
  then show ?case using release_next [of l h] by simp
next
  case (Cons x xs)
  then have "holder (release l) = Some x" "waiting (release l) = xs @ w # ys" "inv (release l)"
    using release_next [of l h] inv_release [of l] by auto
  from Cons.IH [OF this(3,1,2)] show ?case
    by (simp only: length_Cons funpow_Suc_right comp_apply)
qed

lemma enter_eventually_holds:
  assumes "inv l" and "holder l = Some h"
  shows "holder ((release ^^ Suc (length (waiting l))) (enter w l)) = Some w"
  using releases_waiting [of "enter w l" h "waiting l" w "[]"] assms
  by (simp add: inv_enter enter_held del: funpow.simps)

lemma drain_all:
  assumes "inv l" and "holder l = Some h"
  shows "holder ((release ^^ Suc (length (waiting l))) l) = None"
proof (cases "waiting l" rule: rev_cases)
  case Nil
  then show ?thesis using release_next [OF assms] by simp
next
  case (snoc xs w)
  let ?m = "(release ^^ Suc (length xs)) l"
  have inv_n: "inv ((release ^^ n) l)" for n
    using assms(1) by (induction n) (simp_all add: inv_release)
  from snoc releases_waiting [OF assms, of xs w "[]"] have "holder ?m = Some w" "waiting ?m = []"
    by (simp_all del: funpow.simps)
  with release_next [OF inv_n] have "holder (release ?m) = None" by (simp del: funpow.simps)
  then show ?thesis using snoc by simp
qed

end

section \<open>The lock meets the contract\<close>

definition lk_holder :: "'w lock \<Rightarrow> 'w option" where
  "lk_holder l = (case lk_current l of None \<Rightarrow> None | Some _ \<Rightarrow> Some (fst (last (lk_grants l))))"

definition lk_release :: "bool \<Rightarrow> 'w lock \<Rightarrow> 'w lock" where
  "lk_release a l = (case lk_current l of None \<Rightarrow> l | Some t \<Rightarrow> lock_leave a t l)"

lemma lk_release_inv: "lock_inv l \<Longrightarrow> lock_inv (lk_release a l)"
  by (simp add: lk_release_def lock_leave_inv split: option.split)

lemma lk_release_next:
  assumes "lock_inv l" and "lk_holder l = Some h"
  shows "lk_holder (lk_release a l) = (case lk_queue l of [] \<Rightarrow> None | w # _ \<Rightarrow> Some w) \<and>
         lk_queue (lk_release a l) = tl (lk_queue l)"
proof -
  from assms(2) obtain t where t: "lk_current l = Some t" by (auto simp: lk_holder_def split: option.splits)
  from dispatch_released(4-6) [OF lock_inv_left [OF assms(1) t], of a] t show ?thesis
    by (simp add: lk_release_def leave_owner lk_holder_def lock_simps split: list.splits)
qed

lemma lk_enter_idle:
  assumes "lock_inv l" and "lk_holder l = None"
  shows "lk_holder (lock_enter a w l) = Some w \<and> lk_queue (lock_enter a w l) = []"
proof -
  from assms have n: "lk_current l = None" "lk_queue l = []"
    by (auto simp: lk_holder_def lock_inv_def split: option.splits)
  from dispatch_released(4-6) [OF lock_inv_free [OF assms(1) n(1), of "[w]"], of a] n show ?thesis
    by (simp add: lock_enter_def lk_holder_def)
qed

interpretation wlock: fifo_mutex "lock_enter a" "lk_release a" lk_holder lk_queue lock_inv for a
proof (unfold_locales, goal_cases)
  case (1 l)
  then show ?case by (auto simp: lk_holder_def lock_inv_def split: option.splits)
next
  case (2 l w)
  then show ?case by (rule lock_enter_inv)
next
  case (3 l)
  then show ?case by (rule lk_release_inv)
next
  case (4 l w)
  then show ?case by (rule lk_enter_idle)
next
  case (5 l h w)
  then obtain t where "lk_current l = Some t" by (auto simp: lk_holder_def split: option.splits)
  with 5 show ?case by (simp add: enter_busy lk_holder_def)
next
  case (6 l h)
  then show ?case by (rule lk_release_next)
qed

section \<open>Keyed locks (keyed-lock.ts)\<close>

text \<open>
  One lazily created lock object per key. Objects live in a heap, so that an operation in flight
  keeps its reference when the key is dropped from the map. The options field distinguishes an
  omitted \<^verbatim>\<open>maxHoldMs\<close> (\<^term>\<open>None\<close>, the default watchdog) from an explicit one.
\<close>

record 'w keyed_lock =
  kl_locks :: "(string, nat) jsmap"
  kl_heap :: "'w lock list"
  kl_maxHoldMs :: "nat option option"

definition new_keyed_lock :: "nat option option \<Rightarrow> 'w keyed_lock" where
  "new_keyed_lock opts = \<lparr>kl_locks = [], kl_heap = [], kl_maxHoldMs = opts\<rparr>"

definition lockFor :: "string \<Rightarrow> 'w keyed_lock \<Rightarrow> nat \<times> 'w keyed_lock" where
  "lockFor key st =
     (case js_get (kl_locks st) key of
        Some i \<Rightarrow> (i, st)
      | None \<Rightarrow>
          (let i = length (kl_heap st)
           in (i, st\<lparr>kl_locks := js_set key i (kl_locks st),
                     kl_heap := kl_heap st @ [new_lock (or_else (kl_maxHoldMs st) (Some MAX_HOLD_MS))]\<rparr>)))"

definition update_lock :: "nat \<Rightarrow> ('w lock \<Rightarrow> 'w lock) \<Rightarrow> 'w keyed_lock \<Rightarrow> 'w keyed_lock" where
  "update_lock i f st =
     (if i < length (kl_heap st) then st\<lparr>kl_heap := (kl_heap st)[i := f (kl_heap st ! i)]\<rparr> else st)"

text \<open>\<^verbatim>\<open>withLock\<close> enters the key's lock; its \<^verbatim>\<open>finally\<close> leaves the same object, by reference.\<close>

definition keyed_enter :: "bool \<Rightarrow> string \<Rightarrow> 'w \<Rightarrow> 'w keyed_lock \<Rightarrow> 'w keyed_lock" where
  "keyed_enter arm key w st = (let (i, st') = lockFor key st in update_lock i (lock_enter arm w) st')"

definition keyed_leave :: "bool \<Rightarrow> nat \<Rightarrow> nat \<Rightarrow> 'w keyed_lock \<Rightarrow> 'w keyed_lock" where
  "keyed_leave arm i t st = update_lock i (lock_leave arm t) st"

definition keyed_fire :: "bool \<Rightarrow> nat \<Rightarrow> nat \<Rightarrow> 'w keyed_lock \<Rightarrow> 'w keyed_lock" where
  "keyed_fire arm i t st = update_lock i (lock_fire arm t) st"

definition keyed_delete :: "string \<Rightarrow> 'w keyed_lock \<Rightarrow> 'w keyed_lock" where
  "keyed_delete key st = st\<lparr>kl_locks := js_del key (kl_locks st)\<rparr>"

datatype 'w keyed_event =
  KEnter bool string 'w | KLeave bool nat nat | KFire bool nat nat | KDelete string

fun keyed_step :: "'w keyed_lock \<Rightarrow> 'w keyed_event \<Rightarrow> 'w keyed_lock" where
  "keyed_step st (KEnter a k w) = keyed_enter a k w st"
| "keyed_step st (KLeave a i t) = keyed_leave a i t st"
| "keyed_step st (KFire a i t) = keyed_fire a i t st"
| "keyed_step st (KDelete k) = keyed_delete k st"

fun keyed_run :: "'w keyed_lock \<Rightarrow> 'w keyed_event list \<Rightarrow> 'w keyed_lock" where
  "keyed_run st [] = st"
| "keyed_run st (e # es) = keyed_run (keyed_step st e) es"

fun kentered :: "string \<Rightarrow> 'w keyed_event list \<Rightarrow> 'w list" where
  "kentered k [] = []"
| "kentered k (KEnter _ k' w # es) = (if k' = k then w # kentered k es else kentered k es)"
| "kentered k (_ # es) = kentered k es"

fun is_delete :: "'w keyed_event \<Rightarrow> bool" where
  "is_delete (KDelete _) = True"
| "is_delete _ = False"

text \<open>The arrivals a key's lock has seen: those it granted, then those it queues.\<close>

definition arrivals :: "'w lock \<Rightarrow> 'w list" where
  "arrivals l = map fst (lk_grants l) @ lk_queue l"

definition key_arrivals :: "'w keyed_lock \<Rightarrow> string \<Rightarrow> 'w list" where
  "key_arrivals st k =
     (case js_get (kl_locks st) k of None \<Rightarrow> [] | Some i \<Rightarrow> arrivals (kl_heap st ! i))"

definition keyed_inv :: "'w keyed_lock \<Rightarrow> bool" where
  "keyed_inv st \<longleftrightarrow> (\<forall>l \<in> set (kl_heap st). lock_inv l) \<and>
     (\<forall>k i. js_get (kl_locks st) k = Some i \<longrightarrow> i < length (kl_heap st)) \<and>
     (\<forall>k k' i. js_get (kl_locks st) k = Some i \<longrightarrow> js_get (kl_locks st) k' = Some i \<longrightarrow> k = k')"

lemma new_keyed_lock_inv: "keyed_inv (new_keyed_lock opts)"
  by (simp add: new_keyed_lock_def keyed_inv_def)

lemma lockFor_spec:
  assumes "keyed_inv st" and "lockFor k st = (i, st')"
  shows "keyed_inv st'" and "js_get (kl_locks st') k = Some i" and "i < length (kl_heap st')"
    and "key_arrivals st' k' = key_arrivals st k'"
proof -
  have "keyed_inv st' \<and> js_get (kl_locks st') k = Some i \<and> i < length (kl_heap st')
      \<and> key_arrivals st' k' = key_arrivals st k'"
  proof (cases "js_get (kl_locks st) k")
    case (Some j)
    with assms show ?thesis by (auto simp: lockFor_def keyed_inv_def)
  next
    case None
    with assms(2) have st': "i = length (kl_heap st)"
      "st' = st\<lparr>kl_locks := js_set k i (kl_locks st),
         kl_heap := kl_heap st @ [new_lock (or_else (kl_maxHoldMs st) (Some MAX_HOLD_MS))]\<rparr>"
      by (auto simp: lockFor_def Let_def)
    from assms(1) st' have "keyed_inv st'"
      by (fastforce simp: keyed_inv_def js_get_set new_lock_inv split: if_splits)
    moreover have "key_arrivals st' k' = key_arrivals st k'"
      using assms(1) None st'
      by (auto simp: key_arrivals_def js_get_set keyed_inv_def arrivals_def new_lock_def nth_append
          split: option.splits)
    ultimately show ?thesis using st' by (simp add: js_get_set)
  qed
  then show "keyed_inv st'" and "js_get (kl_locks st') k = Some i" and "i < length (kl_heap st')"
    and "key_arrivals st' k' = key_arrivals st k'" by auto
qed

lemma update_lock_inv:
  assumes "keyed_inv st" and "\<And>l. lock_inv l \<Longrightarrow> lock_inv (f l)"
  shows "keyed_inv (update_lock i f st)"
proof (cases "i < length (kl_heap st)")
  case True
  with assms have "lock_inv (f (kl_heap st ! i))" by (auto simp: keyed_inv_def)
  with True assms(1) show ?thesis
    by (auto simp: keyed_inv_def update_lock_def dest!: set_update_subset_insert [THEN subsetD])
next
  case False
  with assms(1) show ?thesis by (simp add: update_lock_def)
qed

lemma update_lock_arrivals:
  assumes "keyed_inv st"
  shows "key_arrivals (update_lock i f st) k =
    (if js_get (kl_locks st) k = Some i then arrivals (f (kl_heap st ! i)) else key_arrivals st k)"
  using assms by (auto simp: key_arrivals_def update_lock_def keyed_inv_def split: option.splits)

lemma keyed_enter_spec:
  assumes "keyed_inv st"
  shows "keyed_inv (keyed_enter a k w st)"
    and "key_arrivals (keyed_enter a k w st) k' = key_arrivals st k' @ (if k' = k then [w] else [])"
proof -
  obtain i st' where l: "lockFor k st = (i, st')" by force
  note sp = lockFor_spec [OF assms l]
  have e: "keyed_enter a k w st = update_lock i (lock_enter a w) st'" by (simp add: keyed_enter_def l)
  show "keyed_inv (keyed_enter a k w st)"
    unfolding e by (rule update_lock_inv [OF sp(1)]) (rule lock_enter_inv)
  have li: "lock_inv (kl_heap st' ! i)" using sp(1,3) by (simp add: keyed_inv_def)
  have "key_arrivals st' k = arrivals (kl_heap st' ! i)" using sp(2) by (simp add: key_arrivals_def)
  then have "arrivals (lock_enter a w (kl_heap st' ! i)) = key_arrivals st k @ [w]"
    using lock_enter_inv(2) [OF li] sp(4) [of k] by (simp add: arrivals_def)
  moreover have "js_get (kl_locks st') k' = Some i \<longleftrightarrow> k' = k"
    using sp(1,2) by (auto simp: keyed_inv_def)
  ultimately show "key_arrivals (keyed_enter a k w st) k' = key_arrivals st k' @ (if k' = k then [w] else [])"
    unfolding e by (simp add: update_lock_arrivals [OF sp(1)] sp(4))
qed

lemma keyed_internal_spec:
  assumes "keyed_inv st" and f: "\<And>l. lock_inv l \<Longrightarrow> lock_inv (f l) \<and> arrivals (f l) = arrivals l"
  shows "keyed_inv (update_lock i f st)" and "key_arrivals (update_lock i f st) k = key_arrivals st k"
proof -
  show "keyed_inv (update_lock i f st)" using f by (intro update_lock_inv [OF assms(1)]) simp
  have "arrivals (f (kl_heap st ! i)) = key_arrivals st k" if "js_get (kl_locks st) k = Some i"
  proof -
    from that assms(1) have "i < length (kl_heap st)" and "lock_inv (kl_heap st ! i)"
      by (auto simp: keyed_inv_def)
    with that f show ?thesis by (simp add: key_arrivals_def)
  qed
  then show "key_arrivals (update_lock i f st) k = key_arrivals st k"
    by (simp add: update_lock_arrivals [OF assms(1)])
qed

lemma keyed_leave_spec:
  assumes "keyed_inv st"
  shows "keyed_inv (keyed_leave a i t st)" and "key_arrivals (keyed_leave a i t st) k = key_arrivals st k"
  unfolding keyed_leave_def
  by (intro keyed_internal_spec [OF assms]; simp add: arrivals_def lock_leave_inv)+

lemma keyed_fire_spec:
  assumes "keyed_inv st"
  shows "keyed_inv (keyed_fire a i t st)" and "key_arrivals (keyed_fire a i t st) k = key_arrivals st k"
  unfolding keyed_fire_def
  by (intro keyed_internal_spec [OF assms]; simp add: arrivals_def lock_fire_inv)+

lemma keyed_step_spec:
  assumes "keyed_inv st" and "\<not> is_delete e"
  shows "keyed_inv (keyed_step st e)" and "key_arrivals (keyed_step st e) k = key_arrivals st k @ kentered k [e]"
  using assms
  by (cases e; auto simp: keyed_enter_spec keyed_leave_spec keyed_fire_spec)+

lemma keyed_delete_inv: "keyed_inv st \<Longrightarrow> keyed_inv (keyed_delete k st)"
  by (auto simp: keyed_inv_def keyed_delete_def js_get_del split: if_splits)

lemma keyed_run_inv: "keyed_inv st \<Longrightarrow> keyed_inv (keyed_run st es)"
proof (induction es arbitrary: st)
  case (Cons e es)
  then have "keyed_inv (keyed_step st e)"
    by (cases e) (auto simp: keyed_delete_inv keyed_enter_spec keyed_leave_spec keyed_fire_spec)
  then show ?case by (simp add: Cons.IH)
qed simp

lemma kentered_Cons: "kentered k (e # es) = kentered k [e] @ kentered k es"
  by (cases e) auto

lemma keyed_run_arrivals:
  "keyed_inv st \<Longrightarrow> list_all (\<lambda>e. \<not> is_delete e) es \<Longrightarrow>
     key_arrivals (keyed_run st es) k = key_arrivals st k @ kentered k es"
proof (induction es arbitrary: st)
  case (Cons e es)
  then have "keyed_inv (keyed_step st e)" "\<not> is_delete e" by (auto intro: keyed_step_spec(1))
  with Cons show ?case by (subst kentered_Cons) (simp add: keyed_step_spec(2))
qed simp

section \<open>Properties\<close>


text \<open>
  Ownership: while a grant is current, the only events that end it are a \<^verbatim>\<open>leave()\<close> with that
  very ticket, or that grant's own watchdog, which exists only when \<^verbatim>\<open>maxHoldMs\<close> is not null. A late
  \<^verbatim>\<open>leave()\<close> of a displaced holder can never release its successor's turn.
\<close>

theorem lock_ownership:
  fixes es :: "'w lock_event list" and m :: "nat option"
  defines "l \<equiv> lock_run (new_lock m) es"
  assumes "isCurrent t l" and "\<not> isCurrent t (lock_step l e)"
  shows "(\<exists>a. e = Leave a t) \<or> (m \<noteq> None \<and> (\<exists>a. e = Fire a t))"
proof -
  have inv: "lock_inv l" unfolding l_def by (rule lock_run_inv [OF new_lock_inv])
  have mh: "lk_maxHoldMs (lock_run k es') = lk_maxHoldMs k" if "lock_inv k" for k :: "'w lock" and es'
    using that
  proof (induction es' arbitrary: k)
    case (Cons e es')
    then show ?case using lock_step_inv [of k e]
      by (cases e) (auto simp: lock_enter_inv lock_leave_inv lock_fire_inv)
  qed simp
  have m: "lk_maxHoldMs l = m" unfolding l_def using mh [OF new_lock_inv] by (simp add: new_lock_def)
  show ?thesis
  proof (cases e)
    case (Enter a w)
    with assms(2,3) inv show ?thesis by (simp add: isCurrent_def enter_busy)
  next
    case (Leave a t')
    with assms(2,3) show ?thesis by (cases "t' = t") (simp_all add: isCurrent_def leave_stale)
  next
    case (Fire a t')
    with assms(2,3) have "t' \<in> set (lk_pending l)"
      by (cases "t' \<in> set (lk_pending l)") (simp_all add: fire_unscheduled)
    with inv assms(2) have "t' = t" "lk_timer l \<noteq> None"
      using lock_inv_fired(1) [OF inv] by (auto simp: isCurrent_def lock_inv_def split: option.splits)
    with inv m Fire show ?thesis by (auto simp: lock_inv_def)
  qed
qed

text \<open>The hypotheses hold: two callers, and the holder leaves.\<close>

theorem lock_ownership_witness:
  "isCurrent 0 (lock_run (new_lock None) [Enter True ''a'', Enter True ''b''])
   \<and> \<not> isCurrent 0 (lock_step (lock_run (new_lock None) [Enter True ''a'', Enter True ''b'']) (Leave True 0))
   \<and> (\<exists>a. Leave True 0 = (Leave a 0 :: string lock_event))"
proof -
  let ?l = "lock_run (new_lock None) [Enter True ''a'', Enter True ''b'']"
  have h: "isCurrent 0 ?l" "\<not> isCurrent 0 (lock_step ?l (Leave True 0))"
    by (simp_all add: isCurrent_def lock_enter_def lock_leave_def lock_dispatch_def arm_watchdog_def
        clear_timer_def new_lock_def)
  show ?thesis using h lock_ownership [of 0 None "[Enter True ''a'', Enter True ''b'']" "Leave True 0", OF h]
    by blast
qed

text \<open>
  Liveness: after any run, a caller that enters while the lock is held obtains it after the
  present holder and the callers already queued have left, one leave each, and none of them can be
  skipped or starved.
\<close>

theorem lock_no_starvation:
  fixes es :: "'w lock_event list" and m :: "nat option"
  defines "l \<equiv> lock_run (new_lock m) es"
  assumes "lk_holder l = Some h"
  shows "lk_holder ((lk_release a ^^ Suc (length (lk_queue l))) (lock_enter a w l)) = Some w"
  unfolding l_def
  by (rule wlock.enter_eventually_holds [OF lock_run_inv [OF new_lock_inv] assms(2) [unfolded l_def]])

text \<open>The hypothesis holds with one holder and one caller already queued.\<close>

theorem lock_no_starvation_witness:
  "lk_holder (lock_run (new_lock None) [Enter True ''a'', Enter True ''b'']) = Some ''a''
   \<and> lk_holder ((lk_release True ^^ 2)
        (lock_enter True ''c'' (lock_run (new_lock None) [Enter True ''a'', Enter True ''b'']))) = Some ''c''"
proof -
  let ?l = "lock_run (new_lock None) [Enter True ''a'', Enter True ''b'']"
  have h: "lk_holder ?l = Some ''a''" and n: "Suc (length (lk_queue ?l)) = 2"
    by (simp_all add: lk_holder_def lock_enter_def lock_dispatch_def arm_watchdog_def new_lock_def)
  show ?thesis using h lock_no_starvation [OF h, of True "''c''"] unfolding n by blast
qed

text \<open>
  Per-key serialisation: in every run without \<^verbatim>\<open>delete\<close>, each key's lock has granted or queues
  exactly the operations issued for that key, in arrival order; operations of other keys never
  enter it, and two keys never share a lock object.
\<close>

theorem keyed_lock_per_key_fifo:
  fixes es :: "'w keyed_event list" and opts :: "nat option option"
  defines "st \<equiv> keyed_run (new_keyed_lock opts) es"
  assumes "list_all (\<lambda>e. \<not> is_delete e) es"
  shows "key_arrivals st k = kentered k es
    \<and> (js_get (kl_locks st) k \<noteq> None \<longrightarrow> k \<noteq> k' \<longrightarrow> js_get (kl_locks st) k \<noteq> js_get (kl_locks st) k')"
proof -
  have "key_arrivals st k = kentered k es"
    unfolding st_def using keyed_run_arrivals [OF new_keyed_lock_inv assms(2)]
    by (simp add: key_arrivals_def new_keyed_lock_def)
  moreover have "keyed_inv st" unfolding st_def by (rule keyed_run_inv [OF new_keyed_lock_inv])
  ultimately show ?thesis by (auto simp: keyed_inv_def)
qed

text \<open>The hypothesis holds for two operations of one key and one of another.\<close>

theorem keyed_lock_per_key_fifo_witness:
  "key_arrivals (keyed_run (new_keyed_lock (Some None))
     [KEnter True ''s1'' ''a'', KEnter True ''s2'' ''x'', KEnter True ''s1'' ''b'']) ''s1'' = [''a'', ''b'']"
proof -
  let ?es = "[KEnter True ''s1'' ''a'', KEnter True ''s2'' ''x'', KEnter True ''s1'' ''b'']"
  have h: "list_all (\<lambda>e. \<not> is_delete e) ?es" by simp
  show ?thesis using keyed_lock_per_key_fifo [OF h, of "Some None" "''s1''" "''s2''"] by simp
qed

end
