(* ===== verification/Rw_Guard.thy ===== *)
theory Rw_Guard
  imports Prelude
begin

text \<open>
  The multi-reader, single-writer guard of \<^verbatim>\<open>packages/wallet-core/src/utils/rw-guard.ts\<close>. Each
  synchronous segment of the class (between two awaits) is a function on the guard object; the
  interleavings of callers, promise wake-ups and the force-release timer are the steps of an
  inductive relation. The invariant gives mutual exclusion and the absence of lost wake-ups in
  every reachable state.
\<close>

section \<open>State\<close>

text \<open>
  Operations (calls of \<^verbatim>\<open>read\<close> and \<^verbatim>\<open>write\<close>) are numbered; the number stands for the reader's token
  and for the deferred a waiting operation holds. The first five fields are the object's own. The
  others record what the environment holds: \<open>rg_running\<close> the reader bodies in progress with their
  start time (a force-released reader stays here after its token is dropped), \<open>rg_writers\<close> the writers
  inside their critical section, \<open>rg_woken\<close> the readers whose deferred is resolved but which have not
  resumed yet, and the histories of writer calls and grants.
\<close>

record rw_guard =
  rg_tokens :: "(nat, time) jsmap"
  rg_writeActive :: bool
  rg_writeWaiters :: "nat list"
  rg_readWaiters :: "nat list"
  rg_timer :: "time option"
  rg_running :: "(nat, time) jsmap"
  rg_writers :: "nat list"
  rg_woken :: "nat list"
  rg_wcalls :: "nat list"
  rg_wgrants :: "nat list"
  rg_next :: nat
  rg_now :: time

definition MAX_READER_DRAIN_MS :: time where
  "MAX_READER_DRAIN_MS = 90 * 60000"

definition new_guard :: "time \<Rightarrow> rw_guard" where
  "new_guard t = \<lparr>rg_tokens = [], rg_writeActive = False, rg_writeWaiters = [], rg_readWaiters = [],
     rg_timer = None, rg_running = [], rg_writers = [], rg_woken = [], rg_wcalls = [],
     rg_wgrants = [], rg_next = 0, rg_now = t\<rparr>"

section \<open>Operations\<close>

definition startForceReleaseTimer :: "time \<Rightarrow> rw_guard \<Rightarrow> rw_guard" where
  "startForceReleaseTimer delay g = g\<lparr>rg_timer := Some (rg_now g + delay)\<rparr>"

definition stopForceReleaseTimer :: "rw_guard \<Rightarrow> rw_guard" where
  "stopForceReleaseTimer g = g\<lparr>rg_timer := None\<rparr>"

text \<open>Resolving a waiting writer's deferred: the writer is inside from here on.\<close>

definition grant_writer :: "nat \<Rightarrow> rw_guard \<Rightarrow> rw_guard" where
  "grant_writer w g = g\<lparr>rg_writers := rg_writers g @ [w], rg_wgrants := rg_wgrants g @ [w]\<rparr>"

definition drainWriteIfReady :: "rw_guard \<Rightarrow> rw_guard" where
  "drainWriteIfReady g =
     (case rg_writeWaiters g of
        [] \<Rightarrow> g
      | w # ws \<Rightarrow>
          if \<not> rg_writeActive g \<and> rg_tokens g = []
          then grant_writer w (g\<lparr>rg_writeActive := True, rg_writeWaiters := ws\<rparr>) else g)"

text \<open>One pass of the while loop of \<^verbatim>\<open>read\<close>: wait, or install the token and start the body.\<close>

definition read_attempt :: "nat \<Rightarrow> rw_guard \<Rightarrow> rw_guard" where
  "read_attempt r g =
     (if rg_writeActive g \<or> rg_writeWaiters g \<noteq> []
      then g\<lparr>rg_readWaiters := rg_readWaiters g @ [r]\<rparr>
      else let g' = (if rg_tokens g = [] then startForceReleaseTimer MAX_READER_DRAIN_MS g else g)
           in g'\<lparr>rg_tokens := js_set r (rg_now g) (rg_tokens g),
                 rg_running := js_set r (rg_now g) (rg_running g)\<rparr>)"

text \<open>The \<^verbatim>\<open>finally\<close> block of \<^verbatim>\<open>read\<close>.\<close>

definition read_finally :: "nat \<Rightarrow> rw_guard \<Rightarrow> rw_guard" where
  "read_finally r g =
     (let g' = g\<lparr>rg_tokens := js_del r (rg_tokens g), rg_running := js_del r (rg_running g)\<rparr>
      in if rg_tokens g' = [] then drainWriteIfReady (stopForceReleaseTimer g') else g')"

definition acquireWrite :: "nat \<Rightarrow> rw_guard \<Rightarrow> rw_guard" where
  "acquireWrite w g =
     (let g' = g\<lparr>rg_wcalls := rg_wcalls g @ [w]\<rparr>
      in if rg_writeActive g \<or> rg_writeWaiters g \<noteq> [] \<or> rg_tokens g \<noteq> []
         then g'\<lparr>rg_writeWaiters := rg_writeWaiters g @ [w]\<rparr>
         else grant_writer w (g'\<lparr>rg_writeActive := True\<rparr>))"

definition releaseWrite :: "nat \<Rightarrow> rw_guard \<Rightarrow> rw_guard" where
  "releaseWrite w g =
     (let g' = g\<lparr>rg_writers := remove1 w (rg_writers g)\<rparr>
      in case rg_writeWaiters g' of
           v # vs \<Rightarrow> grant_writer v (g'\<lparr>rg_writeWaiters := vs\<rparr>)
         | [] \<Rightarrow> g'\<lparr>rg_writeActive := False, rg_woken := rg_woken g' @ rg_readWaiters g',
                     rg_readWaiters := []\<rparr>)"

text \<open>The force-release callback: it drops only the tokens past the ceiling, and re-arms for the rest.\<close>

definition expired :: "time \<Rightarrow> nat \<times> time \<Rightarrow> bool" where
  "expired now p = (now - snd p \<ge> MAX_READER_DRAIN_MS)"

definition oldestRemaining :: "time \<Rightarrow> (nat, time) jsmap \<Rightarrow> time" where
  "oldestRemaining now toks = foldl (\<lambda>acc p. max acc (now - snd p)) 0 toks"

definition force_release :: "rw_guard \<Rightarrow> rw_guard" where
  "force_release g =
     (let g' = g\<lparr>rg_timer := None\<rparr>
      in if rg_tokens g' = [] then g'
         else let rest = filter (\<lambda>p. \<not> expired (rg_now g') p) (rg_tokens g');
                  g'' = g'\<lparr>rg_tokens := rest\<rparr>
              in if rest = [] then drainWriteIfReady g''
                 else startForceReleaseTimer
                        (max 1000 (MAX_READER_DRAIN_MS - oldestRemaining (rg_now g') rest)) g'')"

section \<open>Steps\<close>

inductive rw_step :: "rw_guard \<Rightarrow> rw_guard \<Rightarrow> bool" where
  read_call: "rw_step g (read_attempt (rg_next g) (g\<lparr>rg_next := Suc (rg_next g)\<rparr>))"
| read_wake: "r \<in> set (rg_woken g) \<Longrightarrow>
    rw_step g (read_attempt r (g\<lparr>rg_woken := remove1 r (rg_woken g)\<rparr>))"
| read_return: "js_has (rg_running g) r \<Longrightarrow> rw_step g (read_finally r g)"
| write_call: "rw_step g (acquireWrite (rg_next g) (g\<lparr>rg_next := Suc (rg_next g)\<rparr>))"
| write_return: "w \<in> set (rg_writers g) \<Longrightarrow> rw_step g (releaseWrite w g)"
| timer: "rg_timer g = Some due \<Longrightarrow> due \<le> rg_now g \<Longrightarrow> rw_step g (force_release g)"
| tick: "rg_now g \<le> t \<Longrightarrow> rw_step g (g\<lparr>rg_now := t\<rparr>)"

inductive rw_reachable :: "rw_guard \<Rightarrow> bool" where
  start: "rw_reachable (new_guard t)"
| step: "rw_reachable g \<Longrightarrow> rw_step g g' \<Longrightarrow> rw_reachable g'"

inductive_cases rw_stepE: "rw_step g g'"

section \<open>Invariant\<close>

definition excl_inv :: "rw_guard \<Rightarrow> bool" where
  "excl_inv g \<longleftrightarrow> (rg_writeActive g \<longleftrightarrow> rg_writers g \<noteq> []) \<and> length (rg_writers g) \<le> 1
     \<and> (rg_writeActive g \<longrightarrow> rg_tokens g = [])"

definition wake_inv :: "rw_guard \<Rightarrow> bool" where
  "wake_inv g \<longleftrightarrow> (rg_writeWaiters g \<noteq> [] \<longrightarrow> rg_writeActive g \<or> rg_tokens g \<noteq> [])
     \<and> (rg_readWaiters g \<noteq> [] \<longrightarrow> rg_writeActive g \<or> rg_writeWaiters g \<noteq> [])"

definition token_inv :: "rw_guard \<Rightarrow> bool" where
  "token_inv g \<longleftrightarrow> distinct (js_keys (rg_tokens g))
     \<and> (\<forall>r t0. js_get (rg_running g) r = Some t0 \<longrightarrow>
          js_get (rg_tokens g) r = Some t0 \<or>
          (js_get (rg_tokens g) r = None \<and> MAX_READER_DRAIN_MS \<le> rg_now g - t0))
     \<and> (\<forall>r. js_has (rg_tokens g) r \<longrightarrow> js_has (rg_running g) r)"

definition order_inv :: "rw_guard \<Rightarrow> bool" where
  "order_inv g \<longleftrightarrow> rg_wgrants g @ rg_writeWaiters g = rg_wcalls g \<and> (rg_timer g \<noteq> None \<longleftrightarrow> rg_tokens g \<noteq> [])"

lemmas rw_invs = excl_inv_def wake_inv_def token_inv_def order_inv_def

text \<open>Identifiers: those ahead of \<open>rg_next\<close> are unused, and a woken or waiting reader runs no body.\<close>

definition ids_inv :: "rw_guard \<Rightarrow> bool" where
  "ids_inv g \<longleftrightarrow> distinct (rg_woken g @ rg_readWaiters g)
     \<and> (\<forall>r \<in> set (rg_woken g @ rg_readWaiters g). r < rg_next g \<and> js_get (rg_running g) r = None)
     \<and> (\<forall>r. js_has (rg_running g) r \<longrightarrow> r < rg_next g)"

definition rw_inv :: "rw_guard \<Rightarrow> bool" where
  "rw_inv g \<longleftrightarrow> excl_inv g \<and> wake_inv g \<and> token_inv g \<and> order_inv g \<and> ids_inv g"

lemmas rw_ops = startForceReleaseTimer_def stopForceReleaseTimer_def grant_writer_def
  read_attempt_def read_finally_def acquireWrite_def releaseWrite_def Let_def

lemma new_guard_inv: "rw_inv (new_guard t)"
  by (simp add: rw_inv_def rw_invs ids_inv_def new_guard_def)

lemma drain_cases:
  obtains (idle) "drainWriteIfReady g = g" "rg_writeWaiters g = [] \<or> rg_writeActive g \<or> rg_tokens g \<noteq> []"
  | (grant) w ws where "rg_writeWaiters g = w # ws" "\<not> rg_writeActive g" "rg_tokens g = []"
      "drainWriteIfReady g = grant_writer w (g\<lparr>rg_writeActive := True, rg_writeWaiters := ws\<rparr>)"
proof (cases "rg_writeWaiters g")
  case Nil
  then show ?thesis by (intro idle) (simp_all add: drainWriteIfReady_def)
next
  case (Cons w ws)
  show ?thesis
  proof (cases "\<not> rg_writeActive g \<and> rg_tokens g = []")
    case True
    with Cons show ?thesis by (intro grant) (simp_all add: drainWriteIfReady_def)
  next
    case False
    with Cons show ?thesis by (intro idle) (auto simp: drainWriteIfReady_def)
  qed
qed

text \<open>Draining repairs a guard whose last token has just gone.\<close>

lemma drain_inv:
  assumes "excl_inv g" and "token_inv g" and "ids_inv g" and "rg_tokens g = []" and "rg_timer g = None"
    and "rg_wgrants g @ rg_writeWaiters g = rg_wcalls g"
    and "rg_readWaiters g \<noteq> [] \<longrightarrow> rg_writeActive g \<or> rg_writeWaiters g \<noteq> []"
  shows "rw_inv (drainWriteIfReady g)"
proof (cases g rule: drain_cases)
  case idle
  with assms show ?thesis by (auto simp: rw_inv_def wake_inv_def order_inv_def)
next
  case (grant w ws)
  with assms show ?thesis
    by (auto simp: rw_inv_def rw_invs ids_inv_def grant_writer_def)
qed

lemma read_attempt_inv:
  assumes "rw_inv g" and "r < rg_next g" and "js_get (rg_running g) r = None"
    and "r \<notin> set (rg_woken g @ rg_readWaiters g)"
  shows "rw_inv (read_attempt r g)"
proof (cases "rg_writeActive g \<or> rg_writeWaiters g \<noteq> []")
  case True
  with assms show ?thesis by (auto simp: rw_inv_def rw_invs ids_inv_def read_attempt_def)
next
  case False
  then have f: "\<not> rg_writeActive g" "rg_writeWaiters g = []" by auto
  have ne: "js_set r n m \<noteq> []" for n and m :: "(nat, time) jsmap" by (cases m) auto
  from assms f show ?thesis
    by (auto simp: rw_inv_def rw_invs ids_inv_def read_attempt_def startForceReleaseTimer_def Let_def
        js_get_set ne distinct_update split: if_splits)
qed


lemma read_finally_inv:
  assumes "rw_inv g" and "js_has (rg_running g) r"
  shows "rw_inv (read_finally r g)"
proof -
  let ?g = "g\<lparr>rg_tokens := js_del r (rg_tokens g), rg_running := js_del r (rg_running g)\<rparr>"
  have i: "excl_inv ?g" "token_inv ?g" "ids_inv ?g"
    using assms by (auto simp: rw_inv_def excl_inv_def token_inv_def ids_inv_def js_get_del distinct_delete)
  have o: "rg_wgrants g @ rg_writeWaiters g = rg_wcalls g"
    "rg_readWaiters g \<noteq> [] \<longrightarrow> rg_writeActive g \<or> rg_writeWaiters g \<noteq> []"
    using assms(1) by (auto simp: rw_inv_def order_inv_def wake_inv_def)
  show ?thesis
  proof (cases "js_del r (rg_tokens g) = []")
    case True
    have "rw_inv (drainWriteIfReady (stopForceReleaseTimer ?g))"
      by (rule drain_inv) (use i o True in \<open>auto simp: stopForceReleaseTimer_def excl_inv_def token_inv_def ids_inv_def\<close>)
    with True show ?thesis by (simp add: read_finally_def)
  next
    case False
    then have "rg_tokens g \<noteq> []" by auto
    with False i o assms(1) show ?thesis
      by (auto simp: read_finally_def rw_inv_def wake_inv_def order_inv_def)
  qed
qed

lemma acquireWrite_inv: "rw_inv g \<Longrightarrow> rw_inv (acquireWrite w g)"
  by (auto simp: rw_inv_def rw_invs ids_inv_def acquireWrite_def grant_writer_def Let_def)

lemma releaseWrite_inv:
  assumes "rw_inv g" and "w \<in> set (rg_writers g)"
  shows "rw_inv (releaseWrite w g)"
proof -
  from assms have w: "rg_writers g = [w]" and a: "rg_writeActive g" and t: "rg_tokens g = []"
    by (auto simp: rw_inv_def excl_inv_def length_Suc_conv le_Suc_eq)
  show ?thesis
  proof (cases "rg_writeWaiters g")
    case Nil
    with assms(1) w a t show ?thesis
      by (auto simp: rw_inv_def rw_invs ids_inv_def releaseWrite_def Let_def)
  next
    case (Cons v vs)
    with assms(1) w a t show ?thesis
      by (auto simp: rw_inv_def rw_invs ids_inv_def releaseWrite_def grant_writer_def Let_def)
  qed
qed

lemma filter_get_Some:
  "distinct (js_keys m) \<Longrightarrow>
     js_get (filter (\<lambda>p. P (snd p)) m) k = (case js_get m k of None \<Rightarrow> None | Some v \<Rightarrow> if P v then Some v else None)"
proof (induction m)
  case (Cons p m)
  then show ?case
    by (cases p) (auto simp: map_of_eq_None_iff image_iff split: option.splits)
qed simp

lemma force_release_inv:
  assumes "rw_inv g"
  shows "rw_inv (force_release g)"
proof (cases "rg_tokens g = []")
  case True
  with assms show ?thesis by (auto simp: force_release_def rw_inv_def rw_invs ids_inv_def)
next
  case False
  let ?rest = "filter (\<lambda>p. \<not> expired (rg_now g) p) (rg_tokens g)"
  let ?g = "g\<lparr>rg_timer := None, rg_tokens := ?rest\<rparr>"
  have d: "distinct (js_keys (rg_tokens g))" using assms by (simp add: rw_inv_def token_inv_def)
  have get: "js_get ?rest r = (case js_get (rg_tokens g) r of None \<Rightarrow> None
      | Some v \<Rightarrow> if rg_now g - v \<ge> MAX_READER_DRAIN_MS then None else Some v)" for r
    using filter_get_Some [OF d, of "\<lambda>t. \<not> rg_now g - t \<ge> MAX_READER_DRAIN_MS" r]
    by (simp add: expired_def split: option.splits if_splits)
  have na: "\<not> rg_writeActive g" using assms False by (auto simp: rw_inv_def excl_inv_def)
  have tok: "token_inv g" using assms by (simp add: rw_inv_def)
  have "token_inv ?g"
    unfolding token_inv_def
  proof (intro conjI allI impI, goal_cases)
    case 1
    then show ?case using d by (simp add: distinct_map_filter)
  next
    case (2 r t0)
    with tok have "js_get (rg_tokens g) r = Some t0 \<or>
        js_get (rg_tokens g) r = None \<and> MAX_READER_DRAIN_MS \<le> rg_now g - t0"
      by (simp add: token_inv_def)
    then show ?case by (auto simp: get split: if_splits)
  next
    case (3 r)
    then have "js_has (rg_tokens g) r" by (auto simp: get split: option.splits)
    with tok show ?case by (simp add: token_inv_def)
  qed
  moreover have "excl_inv ?g" "ids_inv ?g"
    using assms na by (auto simp: rw_inv_def excl_inv_def ids_inv_def)
  ultimately have i: "excl_inv ?g" "token_inv ?g" "ids_inv ?g" by auto
  have o: "rg_wgrants g @ rg_writeWaiters g = rg_wcalls g"
    "rg_readWaiters g \<noteq> [] \<longrightarrow> rg_writeActive g \<or> rg_writeWaiters g \<noteq> []"
    using assms by (auto simp: rw_inv_def order_inv_def wake_inv_def)
  show ?thesis
  proof (cases "?rest = []")
    case True
    have "rw_inv (drainWriteIfReady ?g)" by (rule drain_inv) (use i o True in auto)
    with False True show ?thesis by (simp add: force_release_def Let_def)
  next
    case rest: False
    with False i o na show ?thesis
      by (auto simp: force_release_def Let_def startForceReleaseTimer_def rw_inv_def wake_inv_def
          order_inv_def excl_inv_def token_inv_def ids_inv_def)
  qed
qed

lemma tick_inv: "rw_inv g \<Longrightarrow> rg_now g \<le> t \<Longrightarrow> rw_inv (g\<lparr>rg_now := t\<rparr>)"
  by (fastforce simp: rw_inv_def rw_invs ids_inv_def)

lemma rw_step_inv: "rw_step g g' \<Longrightarrow> rw_inv g \<Longrightarrow> rw_inv g'"
proof (induction rule: rw_step.induct)
  case (read_call g)
  have "js_get (rg_running g) (rg_next g) = None" "rg_next g \<notin> set (rg_woken g @ rg_readWaiters g)"
    using read_call by (fastforce simp: rw_inv_def ids_inv_def)+
  moreover have "rw_inv (g\<lparr>rg_next := Suc (rg_next g)\<rparr>)"
    using read_call by (auto simp: rw_inv_def rw_invs ids_inv_def less_Suc_eq)
  ultimately show ?case by (intro read_attempt_inv) auto
next
  case (read_wake r g)
  then have "rw_inv (g\<lparr>rg_woken := remove1 r (rg_woken g)\<rparr>)"
    by (auto simp: rw_inv_def rw_invs ids_inv_def dest: notin_set_remove1)
  with read_wake show ?case by (intro read_attempt_inv) (auto simp: rw_inv_def ids_inv_def)
next
  case (write_call g)
  then have "rw_inv (g\<lparr>rg_next := Suc (rg_next g)\<rparr>)"
    by (auto simp: rw_inv_def rw_invs ids_inv_def less_Suc_eq)
  then show ?case by (rule acquireWrite_inv)
qed (simp_all add: read_finally_inv releaseWrite_inv force_release_inv tick_inv)

lemma rw_reachable_inv: "rw_reachable g \<Longrightarrow> rw_inv g"
  by (induction rule: rw_reachable.induct) (auto simp: new_guard_inv intro: rw_step_inv)

section \<open>Properties\<close>

text \<open>
  C34. Mutual exclusion in every reachable state: at most one writer is inside its critical section,
  and while one is, no reader body is in progress other than a reader the guard force-released,
  which has then been running for at least \<^verbatim>\<open>MAX_READER_DRAIN_MS\<close>.
\<close>

theorem rw_guard_exclusion:
  assumes "rw_reachable g"
  shows "length (rg_writers g) \<le> 1
    \<and> (rg_writers g \<noteq> [] \<longrightarrow> js_get (rg_running g) r = Some t0 \<longrightarrow> MAX_READER_DRAIN_MS \<le> rg_now g - t0)"
proof -
  from assms have "rw_inv g" by (rule rw_reachable_inv)
  then show ?thesis by (force simp: rw_inv_def excl_inv_def token_inv_def)
qed

text \<open>A run with a writer inside: one writer call on a fresh guard.\<close>

definition writer_inside :: rw_guard where
  "writer_inside = acquireWrite 0 ((new_guard 0)\<lparr>rg_next := Suc 0\<rparr>)"

lemma writer_inside_reachable: "rw_reachable writer_inside"
  unfolding writer_inside_def
  using rw_reachable.step [OF rw_reachable.start rw_step.write_call, of 0] by (simp add: new_guard_def)

text \<open>A reader that never returns, a writer behind it, and the force release 90 minutes later.\<close>

definition stuck_reader :: rw_guard where
  "stuck_reader = read_attempt 0 ((new_guard 0)\<lparr>rg_next := Suc 0\<rparr>)"

definition writer_behind :: rw_guard where
  "writer_behind = acquireWrite 1 (stuck_reader\<lparr>rg_next := 2\<rparr>)"

definition forced :: rw_guard where
  "forced = force_release (writer_behind\<lparr>rg_now := 5400000\<rparr>)"

lemmas stuck_defs = stuck_reader_def writer_behind_def forced_def read_attempt_def acquireWrite_def force_release_def
  startForceReleaseTimer_def new_guard_def expired_def MAX_READER_DRAIN_MS_def drainWriteIfReady_def grant_writer_def

lemma forced_reachable: "rw_reachable forced"
proof -
  have "rw_reachable stuck_reader" unfolding stuck_reader_def
    using rw_reachable.step [OF rw_reachable.start rw_step.read_call, of 0] by (simp add: new_guard_def)
  from rw_reachable.step [OF this rw_step.write_call] have "rw_reachable writer_behind"
    by (simp add: writer_behind_def stuck_defs numeral_2_eq_2)
  from rw_reachable.step [OF this rw_step.tick, of 5400000] have "rw_reachable (writer_behind\<lparr>rg_now := 5400000\<rparr>)"
    by (simp add: stuck_defs)
  from rw_reachable.step [OF this rw_step.timer, of 5400000] show ?thesis
    by (simp add: stuck_defs)
qed

theorem rw_guard_exclusion_witness:
  "rw_reachable forced \<and> rg_writers forced = [1] \<and> js_get (rg_running forced) 0 = Some 0
   \<and> MAX_READER_DRAIN_MS \<le> rg_now forced - 0"
proof -
  have w: "rg_writers forced = [1]" and r: "js_get (rg_running forced) 0 = Some 0"
    by (simp_all add: stuck_defs)
  show ?thesis using forced_reachable w r rw_guard_exclusion [OF forced_reachable, of 0 0] by simp
qed

text \<open>
  No lost wake-up: in every reachable state in which nobody is inside the guard (no live reader
  token, no writer) and no woken reader is about to resume, nobody is left waiting. Equivalently, a
  waiting operation always has someone whose exit will wake it, and a stuck reader always has the
  force-release timer armed.
\<close>

theorem rw_guard_no_lost_wakeup:
  assumes "rw_reachable g" and "rg_tokens g = []" and "rg_writers g = []"
  shows "rg_writeWaiters g = [] \<and> rg_readWaiters g = [] \<and> rg_timer g = None"
proof -
  from assms(1) have "rw_inv g" by (rule rw_reachable_inv)
  with assms(2,3) show ?thesis by (auto simp: rw_inv_def rw_invs)
qed

theorem rw_guard_no_lost_wakeup_witness:
  "rw_reachable (releaseWrite 0 writer_inside) \<and> rg_writeWaiters (releaseWrite 0 writer_inside) = []"
proof -
  have w: "0 \<in> set (rg_writers writer_inside)"
    by (simp add: writer_inside_def acquireWrite_def grant_writer_def new_guard_def Let_def)
  have r: "rw_reachable (releaseWrite 0 writer_inside)"
    by (rule rw_reachable.step [OF writer_inside_reachable rw_step.write_return [OF w]])
  have "rg_tokens (releaseWrite 0 writer_inside) = []" "rg_writers (releaseWrite 0 writer_inside) = []"
    by (simp_all add: writer_inside_def acquireWrite_def releaseWrite_def grant_writer_def new_guard_def Let_def)
  from r rw_guard_no_lost_wakeup [OF r this] show ?thesis by blast
qed

text \<open>
  Writers are served first-in first-out and are never overtaken: in every reachable state the
  writers granted so far followed by those queued are the write calls in order, and a reader that
  arrives while a writer is queued or inside does not start its body.
\<close>

theorem rw_guard_writer_priority:
  assumes "rw_reachable g" and "rg_writeWaiters g \<noteq> [] \<or> rg_writers g \<noteq> []"
  shows "rg_wgrants g @ rg_writeWaiters g = rg_wcalls g \<and> rg_running (read_attempt r g) = rg_running g
    \<and> rg_tokens (read_attempt r g) = rg_tokens g"
proof -
  from assms(1) have "rw_inv g" by (rule rw_reachable_inv)
  with assms(2) show ?thesis by (auto simp: rw_inv_def rw_invs read_attempt_def)
qed

theorem rw_guard_writer_priority_witness:
  "rw_reachable writer_inside \<and> rg_writers writer_inside \<noteq> []
   \<and> rg_running (read_attempt 1 writer_inside) = rg_running writer_inside"
proof -
  have w: "rg_writeWaiters writer_inside \<noteq> [] \<or> rg_writers writer_inside \<noteq> []"
    by (simp add: writer_inside_def acquireWrite_def grant_writer_def new_guard_def Let_def)
  have n: "rg_writers writer_inside \<noteq> []"
    by (simp add: writer_inside_def acquireWrite_def grant_writer_def new_guard_def Let_def)
  show ?thesis
    using writer_inside_reachable n rw_guard_writer_priority [OF writer_inside_reachable w, of 1] by blast
qed

end
