(* ===== verification/Key_Queue.thy ===== *)
theory Key_Queue
  imports Prelude
begin

text \<open>
  The deduplicating queue of \<^verbatim>\<open>packages/wallet-core/src/utils/queue.ts\<close>: a list of items and the set
  of their keys, kept beside it so that membership is one lookup. The contract is a plain list on
  which every operation scans; the lemmas show that the pair of fields implements it.
\<close>

section \<open>Model\<close>

text \<open>The key set is a JavaScript \<^verbatim>\<open>Set\<close>: a list without duplicates, in insertion order.\<close>

definition set_add :: "'a \<Rightarrow> 'a list \<Rightarrow> 'a list" where
  "set_add x xs = (if x \<in> set xs then xs else xs @ [x])"

record ('k, 'v) key_queue =
  kq_items :: "'v list"
  kq_keys :: "'k list"

definition new_queue :: "('k, 'v) key_queue" where
  "new_queue = \<lparr>kq_items = [], kq_keys = []\<rparr>"

definition queue_clear :: "('k, 'v) key_queue \<Rightarrow> ('k, 'v) key_queue" where
  "queue_clear q = q\<lparr>kq_items := [], kq_keys := []\<rparr>"

definition enqueue :: "('v \<Rightarrow> 'k) \<Rightarrow> 'v \<Rightarrow> ('k, 'v) key_queue \<Rightarrow> ('k, 'v) key_queue" where
  "enqueue key item q =
     (if key item \<in> set (kq_keys q) then q
      else q\<lparr>kq_keys := set_add (key item) (kq_keys q), kq_items := kq_items q @ [item]\<rparr>)"

text \<open>
  \<^verbatim>\<open>items.splice(items.findIndex(p), 1)\<close>: \<^verbatim>\<open>findIndex\<close> answers -1 when nothing matches, and
  \<^verbatim>\<open>splice(-1, 1)\<close> then removes the last item.
\<close>

fun splice_first :: "('v \<Rightarrow> bool) \<Rightarrow> 'v list \<Rightarrow> 'v list" where
  "splice_first p [] = []"
| "splice_first p (x # xs) = (if p x then xs else x # splice_first p xs)"

definition splice_found :: "('v \<Rightarrow> bool) \<Rightarrow> 'v list \<Rightarrow> 'v list" where
  "splice_found p xs = (if list_ex p xs then splice_first p xs else butlast xs)"

definition priorityPass :: "('v \<Rightarrow> 'k) \<Rightarrow> 'v \<Rightarrow> ('k, 'v) key_queue \<Rightarrow> ('k, 'v) key_queue" where
  "priorityPass key item q =
     (let q' = (if key item \<in> set (kq_keys q)
                then q\<lparr>kq_items := splice_found (\<lambda>x. key x = key item) (kq_items q)\<rparr>
                else q\<lparr>kq_keys := set_add (key item) (kq_keys q)\<rparr>)
      in q'\<lparr>kq_items := item # kq_items q'\<rparr>)"

definition dequeue :: "('v \<Rightarrow> 'k) \<Rightarrow> ('k, 'v) key_queue \<Rightarrow> 'v option \<times> ('k, 'v) key_queue" where
  "dequeue key q =
     (case kq_items q of
        [] \<Rightarrow> (None, q)
      | x # xs \<Rightarrow> (Some x, q\<lparr>kq_items := xs, kq_keys := filter (\<lambda>k. k \<noteq> key x) (kq_keys q)\<rparr>))"

definition peek :: "('k, 'v) key_queue \<Rightarrow> 'v option" where
  "peek q = (case kq_items q of [] \<Rightarrow> None | x # _ \<Rightarrow> Some x)"

datatype 'v queue_op = Enqueue 'v | PriorityPass 'v | Dequeue | Clear

fun queue_step :: "('v \<Rightarrow> 'k) \<Rightarrow> ('k, 'v) key_queue \<Rightarrow> 'v queue_op \<Rightarrow> 'v option \<times> ('k, 'v) key_queue" where
  "queue_step key q (Enqueue v) = (None, enqueue key v q)"
| "queue_step key q (PriorityPass v) = (None, priorityPass key v q)"
| "queue_step key q Dequeue = dequeue key q"
| "queue_step key q Clear = (None, queue_clear q)"

fun queue_run :: "('v \<Rightarrow> 'k) \<Rightarrow> ('k, 'v) key_queue \<Rightarrow> 'v queue_op list \<Rightarrow> 'v option list \<times> ('k, 'v) key_queue" where
  "queue_run key q [] = ([], q)"
| "queue_run key q (x # xs) =
     (let (r, q') = queue_step key q x; (rs, q'') = queue_run key q' xs in (r # rs, q''))"

section \<open>Contract: a list that scans\<close>

fun spec_step :: "('v \<Rightarrow> 'k) \<Rightarrow> 'v list \<Rightarrow> 'v queue_op \<Rightarrow> 'v option \<times> 'v list" where
  "spec_step key xs (Enqueue v) = (None, if key v \<in> key ` set xs then xs else xs @ [v])"
| "spec_step key xs (PriorityPass v) = (None, v # filter (\<lambda>x. key x \<noteq> key v) xs)"
| "spec_step key [] Dequeue = (None, [])"
| "spec_step key (x # xs) Dequeue = (Some x, xs)"
| "spec_step key xs Clear = (None, [])"

fun spec_run :: "('v \<Rightarrow> 'k) \<Rightarrow> 'v list \<Rightarrow> 'v queue_op list \<Rightarrow> 'v option list \<times> 'v list" where
  "spec_run key xs [] = ([], xs)"
| "spec_run key xs (p # ps) =
     (let (r, ys) = spec_step key xs p; (rs, zs) = spec_run key ys ps in (r # rs, zs))"

section \<open>Refinement\<close>

definition queue_inv :: "('v \<Rightarrow> 'k) \<Rightarrow> ('k, 'v) key_queue \<Rightarrow> bool" where
  "queue_inv key q \<longleftrightarrow> distinct (map key (kq_items q)) \<and> set (kq_keys q) = key ` set (kq_items q)"

lemma set_set_add [simp]: "set (set_add x xs) = insert x (set xs)"
  by (auto simp: set_add_def)

lemma distinct_set_add [intro]: "distinct xs \<Longrightarrow> distinct (set_add x xs)"
  by (simp add: set_add_def)

lemma splice_first_distinct:
  "distinct (map key xs) \<Longrightarrow> splice_first (\<lambda>x. key x = k) xs = filter (\<lambda>x. key x \<noteq> k) xs"
  by (induction xs) (auto simp: image_iff intro!: filter_True [symmetric])

lemma new_queue_inv: "queue_inv key new_queue"
  by (simp add: queue_inv_def new_queue_def)

lemma queue_step_refines:
  assumes "queue_inv key q"
  shows "queue_inv key (snd (queue_step key q p)) \<and>
         map_prod id kq_items (queue_step key q p) = spec_step key (kq_items q) p"
proof (cases p)
  case (Enqueue v)
  with assms show ?thesis by (auto simp: queue_inv_def enqueue_def)
next
  case (PriorityPass v)
  show ?thesis
  proof (cases "key v \<in> set (kq_keys q)")
    case True
    with assms have "splice_found (\<lambda>x. key x = key v) (kq_items q) = filter (\<lambda>x. key x \<noteq> key v) (kq_items q)"
      by (auto simp: queue_inv_def splice_found_def splice_first_distinct list_ex_iff)
    with assms True PriorityPass show ?thesis
      by (auto simp: queue_inv_def priorityPass_def distinct_map_filter)
  next
    case False
    with assms have "\<forall>x \<in> set (kq_items q). key x \<noteq> key v" by (metis imageI queue_inv_def)
    with assms False PriorityPass show ?thesis
      by (auto simp: queue_inv_def priorityPass_def filter_id_conv)
  qed
next
  case Dequeue
  show ?thesis
  proof (cases "kq_items q")
    case Nil
    with assms Dequeue show ?thesis by (simp add: queue_inv_def dequeue_def)
  next
    case (Cons x xs)
    with assms have "set (filter (\<lambda>k. k \<noteq> key x) (kq_keys q)) = key ` set xs"
      unfolding queue_inv_def by (auto simp del: image_iff) (metis imageI)
    with assms Cons Dequeue show ?thesis by (simp add: queue_inv_def dequeue_def)
  qed
next
  case Clear
  with assms show ?thesis by (simp add: queue_inv_def queue_clear_def)
qed

lemma queue_run_refines:
  "queue_inv key q \<Longrightarrow>
     queue_inv key (snd (queue_run key q ps)) \<and>
     map_prod id kq_items (queue_run key q ps) = spec_run key (kq_items q) ps"
proof (induction ps arbitrary: q)
  case (Cons p ps)
  obtain r q' where s: "queue_step key q p = (r, q')" by force
  with queue_step_refines [OF Cons.prems, of p]
  have inv: "queue_inv key q'" and sp: "spec_step key (kq_items q) p = (r, kq_items q')" by auto
  obtain rs q'' where rn: "queue_run key q' ps = (rs, q'')" by force
  with Cons.IH [OF inv] have "queue_inv key q''" "spec_run key (kq_items q') ps = (rs, kq_items q'')" by auto
  with s sp rn show ?case by simp
qed simp

section \<open>Properties\<close>

text \<open>
  The keyed queue refines the scanning list: for every key function and every sequence of
  operations from an empty queue, the results returned and the items held are those of the plain
  list, no two items held share a key, and the key set is exactly the keys of the items (so the
  \<^verbatim>\<open>findIndex\<close> of \<^verbatim>\<open>priorityPass\<close> never misses).
\<close>

theorem key_queue_refines_list:
  "map_prod id kq_items (queue_run key new_queue ps) = spec_run key [] ps
   \<and> distinct (map key (kq_items (snd (queue_run key new_queue ps))))
   \<and> set (kq_keys (snd (queue_run key new_queue ps))) = key ` set (kq_items (snd (queue_run key new_queue ps)))"
  using queue_run_refines [OF new_queue_inv [of key], of ps]
  by (simp add: queue_inv_def new_queue_def)

end
