(* ===== verification/Topology.thy ===== *)
theory Topology
  imports Prelude Key_Queue
begin

text \<open>
  Service start-up order: \<^verbatim>\<open>packages/wallet-core/src/base/topology.ts\<close> (the layered form of Kahn's
  algorithm) and the service collection of \<^verbatim>\<open>base/index.ts\<close> that runs its phases.
\<close>

section \<open>Model of topologicalPhases\<close>

record service_node =
  sn_name :: string
  sn_dependencies :: "string list option"

definition deps :: "service_node \<Rightarrow> string list" where
  "deps n = or_else (sn_dependencies n) []"

datatype topo_error = UnknownDependencyError string string | DependencyCycleError "string list"

definition node_names :: "service_node list \<Rightarrow> string list" where
  "node_names nodes = map sn_name nodes"

text \<open>The first declared dependency, in registration order, that names no service.\<close>

definition find_unknown :: "service_node list \<Rightarrow> (string \<times> string) option" where
  "find_unknown nodes =
     List.find (\<lambda>(s, d). d \<notin> set (node_names nodes))
       (concat (map (\<lambda>n. map (\<lambda>d. (sn_name n, d)) (deps n)) nodes))"

definition initial_counts :: "service_node list \<Rightarrow> (string, int) jsmap" where
  "initial_counts nodes = fold (\<lambda>n. js_set (sn_name n) (int (length (deps n)))) nodes []"

definition dependents :: "service_node list \<Rightarrow> string \<Rightarrow> string list" where
  "dependents nodes d = fold set_add (map sn_name (filter (\<lambda>n. d \<in> set (deps n)) nodes)) []"

text \<open>\<^verbatim>\<open>unresolvedCount.set(dependent, unresolvedCount.get(dependent) - 1)\<close>; a dependent is always a registered name.\<close>

definition decrement :: "string \<Rightarrow> (string, int) jsmap \<Rightarrow> (string, int) jsmap" where
  "decrement d counts = (case js_get counts d of None \<Rightarrow> counts | Some c \<Rightarrow> js_set d (c - 1) counts)"

definition phase_of :: "service_node list \<Rightarrow> (string, int) jsmap \<Rightarrow> string list \<Rightarrow> service_node list" where
  "phase_of nodes counts resolved =
     filter (\<lambda>n. sn_name n \<notin> set resolved \<and> js_get counts (sn_name n) = Some 0) nodes"

definition resolve_node ::
  "service_node list \<Rightarrow> service_node \<Rightarrow> string list \<times> (string, int) jsmap \<Rightarrow> string list \<times> (string, int) jsmap" where
  "resolve_node nodes n = (\<lambda>(resolved, counts).
     (set_add (sn_name n) resolved, fold decrement (dependents nodes (sn_name n)) counts))"

lemma fst_fold_resolve:
  "fst (fold (resolve_node nodes) phase (resolved, counts)) = fold (\<lambda>n. set_add (sn_name n)) phase resolved"
  by (induction phase arbitrary: resolved counts) (simp_all add: resolve_node_def)

lemma set_fold_set_add: "set (fold (\<lambda>n. set_add (f n)) xs acc) = f ` set xs \<union> set acc"
  by (induction xs arbitrary: acc) auto

lemma length_fold_set_add: "length acc \<le> length (fold (\<lambda>n. set_add (f n)) xs acc)"
proof (induction xs arbitrary: acc)
  case (Cons x xs)
  have "length acc \<le> length (set_add (f x) acc)" by (simp add: set_add_def)
  with Cons.IH [of "set_add (f x) acc"] show ?case by simp
qed simp

lemma phase_of_grows:
  assumes "phase_of nodes counts resolved \<noteq> []"
  shows "length resolved < length (fst (fold (resolve_node nodes) (phase_of nodes counts resolved) (resolved, counts)))"
proof -
  obtain n ns where p: "phase_of nodes counts resolved = n # ns" using assms by (cases "phase_of nodes counts resolved") auto
  then have "n \<in> set (phase_of nodes counts resolved)" by simp
  then have "sn_name n \<notin> set resolved" by (simp add: phase_of_def)
  with p length_fold_set_add [of "set_add (sn_name n) resolved" sn_name ns] show ?thesis
    by (simp only: fst_fold_resolve) (simp add: set_add_def)
qed

function topo_loop ::
  "service_node list \<Rightarrow> (string, int) jsmap \<Rightarrow> string list \<Rightarrow> service_node list list \<Rightarrow> topo_error + service_node list list" where
  "topo_loop nodes counts resolved phases =
     (if length resolved < length nodes then
        (let phase = phase_of nodes counts resolved
         in if phase = [] then Inl (DependencyCycleError (filter (\<lambda>x. x \<notin> set resolved) (node_names nodes)))
            else topo_loop nodes (snd (fold (resolve_node nodes) phase (resolved, counts)))
                   (fst (fold (resolve_node nodes) phase (resolved, counts))) (phases @ [phase]))
      else Inr phases)"
  by pat_completeness auto
termination
proof (relation "measure (\<lambda>(nodes, counts, resolved, phases). length nodes - length resolved)", goal_cases)
  case 1
  then show ?case by simp
next
  case (2 nodes counts resolved phases phase)
  from 2 phase_of_grows [of nodes counts resolved] show ?case by (auto intro!: diff_less_mono2)
qed

declare topo_loop.simps [simp del]

definition topologicalPhases :: "service_node list \<Rightarrow> topo_error + service_node list list" where
  "topologicalPhases nodes =
     (case find_unknown nodes of
        Some (s, d) \<Rightarrow> Inl (UnknownDependencyError s d)
      | None \<Rightarrow> topo_loop nodes (initial_counts nodes) [] [])"

section \<open>Model of ServiceCollection\<close>

text \<open>A rejection reason, as \<^verbatim>\<open>errorMessageFromUnknown\<close> tells them apart; \<open>ROther\<close> carries \<^verbatim>\<open>String(raw)\<close>.\<close>

datatype raw_error = RError string | RString string | RNull | RUndefined | ROther string

fun errorMessageFromUnknown :: "raw_error \<Rightarrow> string" where
  "errorMessageFromUnknown (RError m) = m"
| "errorMessageFromUnknown (RString s) = s"
| "errorMessageFromUnknown RNull = ''null''"
| "errorMessageFromUnknown RUndefined = ''undefined''"
| "errorMessageFromUnknown (ROther s) = s"

datatype start_error = Topo topo_error | AggregateError "raw_error list" string

type_synonym service_collection = "(string, service_node) jsmap"

definition quoted :: "string \<Rightarrow> string" where
  "quoted s = [CHR 0x27] @ s @ [CHR 0x27]"

definition sc_add :: "service_node \<Rightarrow> service_collection \<Rightarrow> string + service_collection" where
  "sc_add s svcs =
     (if js_has svcs (sn_name s) then Inl (''Service '' @ quoted (sn_name s) @ '' has already been registered'')
      else Inr (js_set (sn_name s) s svcs))"

definition sc_get :: "service_collection \<Rightarrow> string \<Rightarrow> string + service_node" where
  "sc_get svcs name =
     (case js_get svcs name of
        None \<Rightarrow> Inl (''Service '' @ quoted name @ '' hasn'' @ [CHR 0x27] @ ''t been registered'')
      | Some s \<Rightarrow> Inr s)"

fun join :: "string \<Rightarrow> string list \<Rightarrow> string" where
  "join sep [] = []"
| "join sep [x] = x"
| "join sep (x # y # zs) = x @ sep @ join sep (y # zs)"

text \<open>
  The services of one phase that rejected, with their reasons, in phase order. How each start call
  settles is the parameter \<open>out\<close>: \<open>None\<close> fulfilled, \<open>Some reason\<close> rejected.
\<close>

definition phase_failures :: "(string \<Rightarrow> raw_error option) \<Rightarrow> service_node list \<Rightarrow> (string \<times> raw_error) list" where
  "phase_failures out phase =
     concat (map (\<lambda>n. case out (sn_name n) of None \<Rightarrow> [] | Some r \<Rightarrow> [(sn_name n, r)]) phase)"

text \<open>The aggregate's message; characters are bytes here, so the source's em dash is a hyphen.\<close>

definition aggregate :: "(string \<times> raw_error) list \<Rightarrow> start_error" where
  "aggregate failures = AggregateError (map snd failures)
     (''ServiceCollection.start failed in phase - '' @
      join ''; '' (map (\<lambda>(name, r). name @ '': '' @ errorMessageFromUnknown r) failures))"

text \<open>The phase loop of \<^verbatim>\<open>start\<close>; the first component is the log of start calls.\<close>

fun run_phases ::
  "(string \<Rightarrow> raw_error option) \<Rightarrow> service_node list list \<Rightarrow> string list \<times> (start_error + unit)" where
  "run_phases out [] = ([], Inr ())"
| "run_phases out (p # ps) =
     (if phase_failures out p \<noteq> [] then (map sn_name p, Inl (aggregate (phase_failures out p)))
      else (case run_phases out ps of (log, r) \<Rightarrow> (map sn_name p @ log, r)))"

definition sc_start ::
  "(string \<Rightarrow> raw_error option) \<Rightarrow> service_collection \<Rightarrow> string list \<times> (start_error + unit)" where
  "sc_start out svcs =
     (case topologicalPhases (map snd svcs) of
        Inl e \<Rightarrow> ([], Inl (Topo e))
      | Inr phases \<Rightarrow> run_phases out phases)"

section \<open>Specification\<close>

text \<open>
  The layering of a graph given the set \<open>R\<close> of names already started: each phase consists of all
  nodes, in registration order, whose dependencies are in \<open>R\<close> and that are not in \<open>R\<close> themselves;
  it ends when every node is in \<open>R\<close>.
\<close>

fun layered :: "service_node list \<Rightarrow> string set \<Rightarrow> service_node list list \<Rightarrow> bool" where
  "layered nodes R [] = (set (node_names nodes) \<subseteq> R)"
| "layered nodes R (p # ps) =
     (p \<noteq> [] \<and> p = filter (\<lambda>n. sn_name n \<notin> R \<and> set (deps n) \<subseteq> R) nodes
      \<and> layered nodes (R \<union> sn_name ` set p) ps)"

text \<open>What \<^verbatim>\<open>ServiceCollection\<close> registers: distinct names, and no dependency listed twice.\<close>

definition wf_nodes :: "service_node list \<Rightarrow> bool" where
  "wf_nodes nodes \<longleftrightarrow> distinct (node_names nodes) \<and> list_all (\<lambda>n. distinct (deps n)) nodes"

definition known_deps :: "service_node list \<Rightarrow> bool" where
  "known_deps nodes \<longleftrightarrow> list_all (\<lambda>n. set (deps n) \<subseteq> set (node_names nodes)) nodes"

section \<open>The counters\<close>

lemma find_unknown_None: "find_unknown nodes = None \<longleftrightarrow> known_deps nodes"
  by (auto simp: find_unknown_def find_None_iff known_deps_def list_all_iff)

lemma fold_set_notin: "k \<notin> f ` set ns \<Longrightarrow> js_get (fold (\<lambda>n. js_set (f n) (g n)) ns m) k = js_get m k"
  by (induction ns arbitrary: m) (auto simp: js_get_set)

lemma fold_set_get:
  "distinct (map f ns) \<Longrightarrow> n \<in> set ns \<Longrightarrow> js_get (fold (\<lambda>n. js_set (f n) (g n)) ns m) (f n) = Some (g n)"
  by (induction ns arbitrary: m) (auto simp: fold_set_notin js_get_set image_iff)

lemma initial_counts_get:
  "distinct (node_names nodes) \<Longrightarrow> n \<in> set nodes \<Longrightarrow>
     js_get (initial_counts nodes) (sn_name n) = Some (int (length (deps n)))"
  unfolding initial_counts_def node_names_def
  by (rule fold_set_get [where f = sn_name and g = "\<lambda>n. int (length (deps n))"])

lemma distinct_fold_set_add: "distinct acc \<Longrightarrow> distinct (fold set_add xs acc)"
  by (induction xs arbitrary: acc) auto

lemma distinct_fold_set_add_map: "distinct acc \<Longrightarrow> distinct (fold (\<lambda>n. set_add (f n)) xs acc)"
  by (induction xs arbitrary: acc) auto

lemma set_fold_set_add_id: "set (fold set_add xs acc) = set xs \<union> set acc"
  by (induction xs arbitrary: acc) auto

lemma dependents_spec:
  "distinct (dependents nodes d)" "set (dependents nodes d) = sn_name ` {n \<in> set nodes. d \<in> set (deps n)}"
  by (auto simp: dependents_def distinct_fold_set_add set_fold_set_add_id)

lemma node_by_name: "distinct (node_names nodes) \<Longrightarrow> n \<in> set nodes \<Longrightarrow> m \<in> set nodes \<Longrightarrow>
    sn_name n = sn_name m \<Longrightarrow> n = m"
  by (auto simp: node_names_def distinct_map inj_on_def)

lemma in_dependents:
  "distinct (node_names nodes) \<Longrightarrow> n \<in> set nodes \<Longrightarrow>
     sn_name n \<in> set (dependents nodes d) \<longleftrightarrow> d \<in> set (deps n)"
  by (auto simp: dependents_spec dest: node_by_name)

lemma decrement_get:
  "js_get (decrement d c) k = map_option (\<lambda>v. if k = d then v - 1 else v) (js_get c k)"
  by (cases "js_get c k"; cases "k = d") (auto simp: decrement_def js_get_set split: option.split)

lemma fold_decrement_get:
  "distinct ds \<Longrightarrow> js_get (fold decrement ds c) k = map_option (\<lambda>v. if k \<in> set ds then v - 1 else v) (js_get c k)"
proof (induction ds arbitrary: c)
  case (Cons d ds)
  then show ?case by (cases "js_get c k") (auto simp: decrement_get)
qed (simp add: option.map_ident)

lemma fold_resolve_get:
  "js_get (snd (fold (resolve_node nodes) ps (r, c))) k =
     map_option (\<lambda>v. v - int (length (filter (\<lambda>p. k \<in> set (dependents nodes (sn_name p))) ps))) (js_get c k)"
proof (induction ps arbitrary: r c)
  case (Cons p ps)
  then show ?case
    by (cases "js_get c k") (auto simp: resolve_node_def fold_decrement_get dependents_spec(1))
qed (simp add: option.map_ident)

section \<open>Loop invariant\<close>

definition loop_inv :: "service_node list \<Rightarrow> (string, int) jsmap \<Rightarrow> string list \<Rightarrow> bool" where
  "loop_inv nodes counts resolved \<longleftrightarrow> distinct resolved \<and> set resolved \<subseteq> set (node_names nodes) \<and>
     (\<forall>n \<in> set nodes. js_get counts (sn_name n) = Some (int (length (filter (\<lambda>d. d \<notin> set resolved) (deps n)))))"

lemma phase_of_layer:
  assumes "loop_inv nodes counts resolved"
  shows "phase_of nodes counts resolved =
    filter (\<lambda>n. sn_name n \<notin> set resolved \<and> set (deps n) \<subseteq> set resolved) nodes"
  unfolding phase_of_def
proof (rule filter_cong [OF refl])
  fix n
  assume "n \<in> set nodes"
  with assms have "js_get counts (sn_name n) = Some 0 \<longleftrightarrow> filter (\<lambda>d. d \<notin> set resolved) (deps n) = []"
    by (simp add: loop_inv_def)
  also have "\<dots> \<longleftrightarrow> set (deps n) \<subseteq> set resolved" by (auto simp: filter_empty_conv)
  finally show "(sn_name n \<notin> set resolved \<and> js_get counts (sn_name n) = Some 0)
      = (sn_name n \<notin> set resolved \<and> set (deps n) \<subseteq> set resolved)" by simp
qed

lemma phase_count:
  assumes "distinct (map f ps)" and "distinct ds"
  shows "length (filter (\<lambda>p. f p \<in> set ds) ps) = length (filter (\<lambda>d. d \<in> f ` set ps) ds)"
proof -
  have "length (filter (\<lambda>p. f p \<in> set ds) ps) = length (map f (filter (\<lambda>p. f p \<in> set ds) ps))" by simp
  also have "\<dots> = card (set (map f (filter (\<lambda>p. f p \<in> set ds) ps)))"
    by (rule distinct_card [OF distinct_map_filter [OF assms(1)], symmetric])
  also have "set (map f (filter (\<lambda>p. f p \<in> set ds) ps)) = set (filter (\<lambda>d. d \<in> f ` set ps) ds)" by auto
  also have "card \<dots> = length (filter (\<lambda>d. d \<in> f ` set ps) ds)"
    by (rule distinct_card) (simp add: assms(2))
  finally show ?thesis .
qed

lemma filter_split_length:
  "length (filter (\<lambda>d. d \<notin> R) ds) = length (filter (\<lambda>d. d \<notin> R \<union> P) ds) + length (filter (\<lambda>d. d \<in> P) ds)"
  if "P \<inter> R = {}"
  using that by (induction ds) auto

lemma loop_inv_next:
  assumes wf: "wf_nodes nodes" and inv: "loop_inv nodes counts resolved"
  defines "ph \<equiv> phase_of nodes counts resolved"
  shows "loop_inv nodes (snd (fold (resolve_node nodes) ph (resolved, counts)))
           (fst (fold (resolve_node nodes) ph (resolved, counts)))"
    and "set (fst (fold (resolve_node nodes) ph (resolved, counts))) = set resolved \<union> sn_name ` set ph"
proof -
  show res: "set (fst (fold (resolve_node nodes) ph (resolved, counts))) = set resolved \<union> sn_name ` set ph"
    by (simp add: fst_fold_resolve set_fold_set_add Un_commute)
  have ph: "set ph \<subseteq> set nodes" "sn_name ` set ph \<inter> set resolved = {}"
    by (auto simp: ph_def phase_of_def)
  have dn: "distinct (node_names nodes)" using wf by (simp add: wf_nodes_def)
  then have dp: "distinct (map sn_name ph)"
    by (simp add: ph_def phase_of_def node_names_def distinct_map_filter)
  have "distinct (fst (fold (resolve_node nodes) ph (resolved, counts)))"
    using inv by (simp add: fst_fold_resolve loop_inv_def distinct_fold_set_add_map)
  moreover have "js_get (snd (fold (resolve_node nodes) ph (resolved, counts))) (sn_name n) =
      Some (int (length (filter (\<lambda>d. d \<notin> set resolved \<union> sn_name ` set ph) (deps n))))"
    if n: "n \<in> set nodes" for n
  proof -
    have "filter (\<lambda>p. sn_name n \<in> set (dependents nodes (sn_name p))) ph = filter (\<lambda>p. sn_name p \<in> set (deps n)) ph"
      using in_dependents [OF dn n] by simp
    moreover have "length (filter (\<lambda>p. sn_name p \<in> set (deps n)) ph) = length (filter (\<lambda>d. d \<in> sn_name ` set ph) (deps n))"
      using wf n by (intro phase_count [OF dp]) (auto simp: wf_nodes_def list_all_iff)
    ultimately show ?thesis
      using inv n filter_split_length [OF ph(2), of "deps n"] by (simp add: fold_resolve_get loop_inv_def)
  qed
  ultimately show "loop_inv nodes (snd (fold (resolve_node nodes) ph (resolved, counts)))
      (fst (fold (resolve_node nodes) ph (resolved, counts)))"
    using inv ph res by (auto simp: loop_inv_def node_names_def)
qed

lemma resolved_complete:
  assumes "wf_nodes nodes" and "loop_inv nodes counts resolved"
  shows "length resolved < length nodes \<longleftrightarrow> \<not> set (node_names nodes) \<subseteq> set resolved"
proof -
  have l: "length resolved = card (set resolved)" "length (node_names nodes) = card (set (node_names nodes))"
    using assms distinct_card by (metis loop_inv_def, metis wf_nodes_def)
  then have l: "length resolved = card (set resolved)" "length nodes = card (set (node_names nodes))"
    by (simp_all add: node_names_def)
  have sub: "set resolved \<subseteq> set (node_names nodes)" using assms(2) by (simp add: loop_inv_def)
  show ?thesis
  proof
    assume "length resolved < length nodes"
    show "\<not> set (node_names nodes) \<subseteq> set resolved"
    proof
      assume "set (node_names nodes) \<subseteq> set resolved"
      from card_mono [OF finite_set this] l \<open>length resolved < length nodes\<close> show False by simp
    qed
  next
    assume "\<not> set (node_names nodes) \<subseteq> set resolved"
    with sub have "set resolved \<subset> set (node_names nodes)" by blast
    with l show "length resolved < length nodes" by (simp add: psubset_card_mono)
  qed
qed

section \<open>The result is the layering\<close>

definition truthful_cycle :: "service_node list \<Rightarrow> topo_error \<Rightarrow> bool" where
  "truthful_cycle nodes e =
     (case e of UnknownDependencyError _ _ \<Rightarrow> False
      | DependencyCycleError pending \<Rightarrow> pending \<noteq> [] \<and>
          (\<forall>x \<in> set pending. \<exists>n \<in> set nodes. sn_name n = x \<and> (\<exists>d \<in> set (deps n). d \<in> set pending)))"

lemma stuck_is_cycle:
  assumes "wf_nodes nodes" and "known_deps nodes" and inv: "loop_inv nodes counts resolved"
    and "length resolved < length nodes" and "phase_of nodes counts resolved = []"
  shows "truthful_cycle nodes (DependencyCycleError (filter (\<lambda>x. x \<notin> set resolved) (node_names nodes)))"
proof -
  from resolved_complete [OF assms(1) inv] assms(4)
  have "filter (\<lambda>x. x \<notin> set resolved) (node_names nodes) \<noteq> []" by (auto simp: filter_empty_conv)
  moreover have "\<exists>d \<in> set (deps n). d \<in> set (node_names nodes) \<and> d \<notin> set resolved"
    if "n \<in> set nodes" "sn_name n \<notin> set resolved" for n
  proof -
    from assms(5) phase_of_layer [OF inv] that have "\<not> set (deps n) \<subseteq> set resolved"
      by (auto simp: filter_empty_conv)
    with assms(2) that show ?thesis by (auto simp: known_deps_def list_all_iff)
  qed
  ultimately show ?thesis by (auto simp: truthful_cycle_def node_names_def)
qed

lemma topo_loop_spec:
  "wf_nodes nodes \<Longrightarrow> known_deps nodes \<Longrightarrow> loop_inv nodes counts resolved \<Longrightarrow>
     (case topo_loop nodes counts resolved phases of
        Inr ps \<Rightarrow> \<exists>qs. ps = phases @ qs \<and> layered nodes (set resolved) qs
      | Inl e \<Rightarrow> truthful_cycle nodes e)"
proof (induction nodes counts resolved phases rule: topo_loop.induct)
  case (1 nodes counts resolved phases)
  let ?ph = "phase_of nodes counts resolved"
  show ?case
  proof (cases "length resolved < length nodes")
    case False
    with resolved_complete [OF "1.prems"(1,3)] show ?thesis by (subst topo_loop.simps) simp
  next
    case more: True
    show ?thesis
    proof (cases "?ph = []")
      case True
      with more stuck_is_cycle [OF "1.prems" more True] show ?thesis by (subst topo_loop.simps) simp
    next
      case False
      note nxt = loop_inv_next [OF "1.prems"(1,3)]
      from "1.IH" [OF more refl False "1.prems"(1,2) nxt(1)] more False nxt(2) phase_of_layer [OF "1.prems"(3)]
      show ?thesis
        by (subst topo_loop.simps) (force split: sum.splits)
    qed
  qed
qed

lemma loop_inv_start: "wf_nodes nodes \<Longrightarrow> loop_inv nodes (initial_counts nodes) []"
  by (simp add: loop_inv_def initial_counts_get wf_nodes_def)

lemma topologicalPhases_layered:
  assumes "wf_nodes nodes" and "topologicalPhases nodes = Inr phases"
  shows "layered nodes {} phases"
proof -
  from assms(2) have k: "known_deps nodes" and l: "topo_loop nodes (initial_counts nodes) [] [] = Inr phases"
    by (auto simp: topologicalPhases_def find_unknown_None [symmetric] split: option.splits prod.splits)
  from topo_loop_spec [OF assms(1) k loop_inv_start [OF assms(1)], of "[]"] l show ?thesis by simp
qed

lemma topologicalPhases_error:
  assumes "wf_nodes nodes" and "topologicalPhases nodes = Inl e"
  shows "(\<exists>n \<in> set nodes. \<exists>d \<in> set (deps n). d \<notin> set (node_names nodes) \<and> e = UnknownDependencyError (sn_name n) d)
    \<or> truthful_cycle nodes e"
proof (cases "find_unknown nodes")
  case None
  then have "known_deps nodes" by (simp add: find_unknown_None)
  from topo_loop_spec [OF assms(1) this loop_inv_start [OF assms(1)], of "[]"] None assms(2)
  show ?thesis by (simp add: topologicalPhases_def)
next
  case (Some p)
  with assms(2) obtain s d where p: "p = (s, d)" "e = UnknownDependencyError s d"
    by (cases p) (simp add: topologicalPhases_def)
  from Some p(1) show ?thesis unfolding p(2)
    by (fastforce simp: find_unknown_def find_Some_iff in_set_conv_nth [symmetric] dest!: nth_mem)
qed

text \<open>A rank that every dependency edge decreases rules out the cycle error.\<close>

lemma ranked_not_cycle:
  fixes rank :: "string \<Rightarrow> nat"
  assumes "distinct (node_names nodes)"
    and "\<forall>n \<in> set nodes. \<forall>d \<in> set (deps n). rank d < rank (sn_name n)"
  shows "\<not> truthful_cycle nodes e"
proof
  assume "truthful_cycle nodes e"
  then obtain pending where p: "pending \<noteq> []"
    "\<forall>x \<in> set pending. \<exists>n \<in> set nodes. sn_name n = x \<and> (\<exists>d \<in> set (deps n). d \<in> set pending)"
    by (auto simp: truthful_cycle_def split: topo_error.splits)
  obtain x where x: "x \<in> set pending" "\<forall>y \<in> set pending. rank x \<le> rank y"
    using p(1) ex_min_if_finite [of "rank ` set pending"] by fastforce
  from p(2) x(1) obtain n d where "n \<in> set nodes" "sn_name n = x" "d \<in> set (deps n)" "d \<in> set pending"
    by blast
  with assms(2) x(2) show False by force
qed

section \<open>Reading a layering\<close>

lemma layered_ConsD:
  assumes "layered nodes R (p # ps)"
  shows "p = filter (\<lambda>n. sn_name n \<notin> R \<and> set (deps n) \<subseteq> R) nodes"
    and "layered nodes (R \<union> sn_name ` set p) ps"
  using assms unfolding layered.simps by blast+

lemma layered_names:
  assumes "layered nodes R ps" and "distinct (node_names nodes)"
  shows "distinct (concat (map (map sn_name) ps))" and "set (concat (map (map sn_name) ps)) \<inter> R = {}"
    and "set (node_names nodes) \<subseteq> R \<union> set (concat (map (map sn_name) ps))"
    and "set (concat ps) \<subseteq> set nodes"
  using assms
proof (induction ps arbitrary: R)
  case (Cons p ps)
  {
    case 1
    then have p: "p = filter (\<lambda>n. sn_name n \<notin> R \<and> set (deps n) \<subseteq> R) nodes"
      and l: "layered nodes (R \<union> sn_name ` set p) ps" by (blast dest: layered_ConsD)+
    have "distinct (map sn_name p)" unfolding p using 1(2) by (simp add: node_names_def distinct_map_filter)
    moreover have "set (map sn_name p) \<inter> set (concat (map (map sn_name) ps)) = {}"
      using Cons.IH(2) [OF l 1(2)] by auto
    ultimately show ?case using Cons.IH(1) [OF l 1(2)] by simp
  next
    case 2
    then have p: "p = filter (\<lambda>n. sn_name n \<notin> R \<and> set (deps n) \<subseteq> R) nodes"
      and l: "layered nodes (R \<union> sn_name ` set p) ps" by (blast dest: layered_ConsD)+
    have "sn_name ` set p \<inter> R = {}" unfolding p by auto
    moreover have "set (concat (map (map sn_name) ps)) \<inter> R = {}" using Cons.IH(2) [OF l 2(2)] by blast
    ultimately show ?case by (simp add: Int_Un_distrib2)
  next
    case 3
    then have l: "layered nodes (R \<union> sn_name ` set p) ps" by (blast dest: layered_ConsD)
    from Cons.IH(3) [OF l 3(2)] show ?case by (simp add: Un_assoc)
  next
    case 4
    then have p: "p = filter (\<lambda>n. sn_name n \<notin> R \<and> set (deps n) \<subseteq> R) nodes"
      and l: "layered nodes (R \<union> sn_name ` set p) ps" by (blast dest: layered_ConsD)+
    have "set p \<subseteq> set nodes" unfolding p by auto
    with Cons.IH(4) [OF l 4(2)] show ?case by simp
  }
qed auto

lemma phase_failures_Nil: "phase_failures out p = [] \<longleftrightarrow> (\<forall>n \<in> set p. out (sn_name n) = None)"
  by (auto simp: phase_failures_def split: option.splits)

lemma phase_failures_set:
  "set (phase_failures out p) = {(x, r). x \<in> sn_name ` set p \<and> out x = Some r}"
  by (force simp: phase_failures_def split: option.splits)

lemma run_phases_deps:
  assumes "layered nodes R ps" and "distinct (node_names nodes)" and "n \<in> set nodes"
    and "fst (run_phases out ps) = xs @ sn_name n # ys" and "d \<in> set (deps n)"
  shows "d \<in> R \<or> (d \<in> set xs \<and> out d = None)"
  using assms(1,4)
proof (induction ps arbitrary: R xs)
  case (Cons p ps)
  from Cons.prems have p: "p = filter (\<lambda>n. sn_name n \<notin> R \<and> set (deps n) \<subseteq> R) nodes"
    and l: "layered nodes (R \<union> sn_name ` set p) ps" by (blast dest: layered_ConsD)+
  have in_p: "d \<in> R" if "sn_name n \<in> sn_name ` set p"
  proof -
    from that obtain m where "m \<in> set p" "sn_name m = sn_name n" by auto
    moreover have "set p \<subseteq> set nodes" by (subst p) auto
    ultimately have "n \<in> set p" using node_by_name [OF assms(2)] assms(3) by (metis subsetD)
    then show ?thesis using assms(5) by (subst (asm) p) auto
  qed
  show ?case
  proof (cases "phase_failures out p = []")
    case False
    with Cons.prems(2) have "map sn_name p = xs @ sn_name n # ys" by simp
    then have "sn_name n \<in> set (map sn_name p)" by simp
    with in_p show ?thesis by simp
  next
    case True
    with Cons.prems(2) have eq: "map sn_name p @ fst (run_phases out ps) = xs @ sn_name n # ys"
      by (simp add: case_prod_beta)
    show ?thesis
    proof (cases "sn_name n \<in> set (map sn_name p)")
      case True
      with in_p show ?thesis by simp
    next
      case notin: False
      from append_split_notin [OF eq notin]
      obtain zs where z: "xs = map sn_name p @ zs" "fst (run_phases out ps) = zs @ sn_name n # ys" by blast
      from Cons.IH [OF l z(2)] True show ?thesis by (auto simp: z(1) phase_failures_Nil)
    qed
  qed
qed simp

lemma run_phases_log:
  "\<exists>ps'. fst (run_phases out ps) = concat (map (map sn_name) ps') \<and> (\<exists>qs. ps = ps' @ qs)"
proof (induction ps)
  case (Cons p ps)
  show ?case
  proof (cases "phase_failures out p = []")
    case True
    with Cons obtain ps' qs where "fst (run_phases out ps) = concat (map (map sn_name) ps')" "ps = ps' @ qs" by auto
    with True have "fst (run_phases out (p # ps)) = concat (map (map sn_name) (p # ps')) \<and> p # ps = (p # ps') @ qs"
      by (simp add: case_prod_beta)
    then show ?thesis by blast
  next
    case False
    then have "fst (run_phases out (p # ps)) = concat (map (map sn_name) [p]) \<and> p # ps = [p] @ ps" by simp
    then show ?thesis by blast
  qed
qed simp

lemma run_phases_result:
  "case run_phases out ps of
     (log, Inr _) \<Rightarrow> log = concat (map (map sn_name) ps) \<and> (\<forall>x \<in> set log. out x = None)
   | (log, Inl e) \<Rightarrow> \<exists>fs. fs \<noteq> [] \<and> e = aggregate fs \<and> set fs = {(x, r). x \<in> set log \<and> out x = Some r}"
proof (induction ps)
  case (Cons p ps)
  show ?case
  proof (cases "phase_failures out p = []")
    case True
    obtain log r where lr: "run_phases out ps = (log, r)" by force
    from True have ok: "\<forall>n \<in> set p. out (sn_name n) = None" by (simp add: phase_failures_Nil)
    show ?thesis
    proof (cases r)
      case (Inr u)
      with Cons lr True ok show ?thesis by auto
    next
      case (Inl e)
      with Cons lr obtain fs where "fs \<noteq> []" "e = aggregate fs" "set fs = {(x, r). x \<in> set log \<and> out x = Some r}"
        by auto
      moreover have "{(x, r). x \<in> set (map sn_name p @ log) \<and> out x = Some r} = {(x, r). x \<in> set log \<and> out x = Some r}"
        using ok by auto
      ultimately show ?thesis using True lr Inl by auto
    qed
  next
    case False
    then show ?thesis by (auto simp: phase_failures_set intro!: exI [of _ "phase_failures out p"])
  qed
qed simp

section \<open>The collection relies on a planner\<close>

text \<open>
  What \<^verbatim>\<open>ServiceCollection.start\<close> needs from the planner: a successful plan is a layering.
\<close>

locale phase_planner =
  fixes plan :: "service_node list \<Rightarrow> topo_error + service_node list list"
  assumes plan_layered: "wf_nodes nodes \<Longrightarrow> plan nodes = Inr phases \<Longrightarrow> layered nodes {} phases"
begin

lemma deps_started_first:
  assumes "wf_nodes nodes" and "plan nodes = Inr phases" and "n \<in> set nodes"
    and "fst (run_phases out phases) = xs @ sn_name n # ys" and "d \<in> set (deps n)"
  shows "d \<in> set xs \<and> out d = None"
  using run_phases_deps [OF plan_layered [OF assms(1,2)] _ assms(3,4,5)] assms(1)
  by (simp add: wf_nodes_def)

lemma started_once:
  assumes "wf_nodes nodes" and "plan nodes = Inr phases"
  shows "distinct (fst (run_phases out phases))" and "set (fst (run_phases out phases)) \<subseteq> set (node_names nodes)"
proof -
  have d: "distinct (node_names nodes)" using assms(1) by (simp add: wf_nodes_def)
  note lay = layered_names [OF plan_layered [OF assms] d]
  obtain ps qs where p: "fst (run_phases out phases) = concat (map (map sn_name) ps)" "phases = ps @ qs"
    using run_phases_log by blast
  from lay(1) p show "distinct (fst (run_phases out phases))" by simp
  from lay(4) p show "set (fst (run_phases out phases)) \<subseteq> set (node_names nodes)" by (auto simp: node_names_def)
qed

lemma all_started:
  assumes "wf_nodes nodes" and "plan nodes = Inr phases" and "snd (run_phases out phases) = Inr u"
  shows "set (fst (run_phases out phases)) = set (node_names nodes) \<and> (\<forall>x \<in> set (node_names nodes). out x = None)"
proof -
  have d: "distinct (node_names nodes)" using assms(1) by (simp add: wf_nodes_def)
  have lay: "set (node_names nodes) \<subseteq> set (concat (map (map sn_name) phases))"
    using layered_names(3) [OF plan_layered [OF assms(1,2)] d] by simp
  have r: "fst (run_phases out phases) = concat (map (map sn_name) phases)"
    "\<forall>x \<in> set (fst (run_phases out phases)). out x = None"
    using run_phases_result [of out phases] assms(3) by (auto split: prod.splits)
  from r lay started_once(2) [OF assms(1,2), of out] show ?thesis by auto
qed

end

interpretation kahn: phase_planner topologicalPhases
  by unfold_locales (rule topologicalPhases_layered)

section \<open>Properties\<close>

text \<open>
  C39. Whenever the planner succeeds on services with distinct names and no repeated dependency, its phases are exactly the layering of
  the dependency graph: every phase holds, in registration order, all the services not yet started
  whose dependencies all lie in earlier phases (so each service is in the earliest possible phase),
  and every service is in exactly one phase.
\<close>

theorem topological_phases_layering:
  assumes "wf_nodes nodes" and "topologicalPhases nodes = Inr phases"
  shows "layered nodes {} phases \<and> distinct (concat (map (map sn_name) phases))
    \<and> set (concat (map (map sn_name) phases)) = set (node_names nodes)"
proof -
  have d: "distinct (node_names nodes)" using assms(1) by (simp add: wf_nodes_def)
  note lay = layered_names [OF topologicalPhases_layered [OF assms] d]
  from lay(4) have "set (concat (map (map sn_name) phases)) \<subseteq> set (node_names nodes)"
    by (auto simp: node_names_def)
  with lay(1,3) topologicalPhases_layered [OF assms] show ?thesis by auto
qed

definition demo_nodes :: "service_node list" where
  "demo_nodes = [\<lparr>sn_name = ''j'', sn_dependencies = Some [''p'', ''n'']\<rparr>,
     \<lparr>sn_name = ''n'', sn_dependencies = Some [''p'']\<rparr>, \<lparr>sn_name = ''p'', sn_dependencies = None\<rparr>]"

lemma demo_nodes_phases:
  "topologicalPhases demo_nodes =
     Inr [[\<lparr>sn_name = ''p'', sn_dependencies = None\<rparr>],
          [\<lparr>sn_name = ''n'', sn_dependencies = Some [''p'']\<rparr>],
          [\<lparr>sn_name = ''j'', sn_dependencies = Some [''p'', ''n'']\<rparr>]]"
  by code_simp

theorem topological_phases_layering_witness:
  "wf_nodes demo_nodes \<and> layered demo_nodes {}
     [[demo_nodes ! 2], [demo_nodes ! 1], [demo_nodes ! 0]]"
proof -
  have wf: "wf_nodes demo_nodes" by code_simp
  have "topologicalPhases demo_nodes = Inr [[demo_nodes ! 2], [demo_nodes ! 1], [demo_nodes ! 0]]"
    by (simp add: demo_nodes_phases) (simp add: demo_nodes_def)
  from topological_phases_layering [OF wf this] wf show ?thesis by blast
qed

text \<open>
  The planner is complete and its errors are truthful. If every dependency names a registered
  service and some ranking strictly decreases along every dependency (the graph is acyclic), the
  planner succeeds; otherwise an unknown-dependency error names a service and a dependency of it that
  is not registered, and a cycle error lists a non-empty set of services each of which waits on
  another one of the list.
\<close>

theorem topological_phases_errors:
  fixes rank :: "string \<Rightarrow> nat"
  assumes "wf_nodes nodes"
  shows "(known_deps nodes \<and> (\<forall>n \<in> set nodes. \<forall>d \<in> set (deps n). rank d < rank (sn_name n))
            \<longrightarrow> (\<exists>phases. topologicalPhases nodes = Inr phases))
    \<and> (\<forall>e. topologicalPhases nodes = Inl e \<longrightarrow>
          (\<exists>n \<in> set nodes. \<exists>d \<in> set (deps n). d \<notin> set (node_names nodes) \<and> e = UnknownDependencyError (sn_name n) d)
          \<or> truthful_cycle nodes e)"
proof (intro conjI impI allI)
  assume a: "known_deps nodes \<and> (\<forall>n \<in> set nodes. \<forall>d \<in> set (deps n). rank d < rank (sn_name n))"
  show "\<exists>phases. topologicalPhases nodes = Inr phases"
  proof (cases "topologicalPhases nodes")
    case (Inl e)
    from topologicalPhases_error [OF assms this] have "truthful_cycle nodes e"
      using a by (auto simp: known_deps_def list_all_iff)
    with ranked_not_cycle [of nodes rank e] a assms show ?thesis by (simp add: wf_nodes_def)
  qed simp
qed (rule topologicalPhases_error [OF assms])

theorem topological_phases_errors_witness:
  "\<exists>phases. topologicalPhases demo_nodes = Inr phases"
proof -
  let ?rank = "\<lambda>x :: string. if x = ''j'' then 2 else if x = ''n'' then 1 else (0 :: nat)"
  have wf: "wf_nodes demo_nodes" and k: "known_deps demo_nodes" by code_simp+
  have "\<forall>n \<in> set demo_nodes. \<forall>d \<in> set (deps n). ?rank d < ?rank (sn_name n)"
    by (simp add: demo_nodes_def deps_def)
  with topological_phases_errors [OF wf, of ?rank] k show ?thesis by blast
qed

text \<open>
  Starting a collection calls each service's start at most once and only after every declared
  dependency was started and fulfilled; a successful start ran every service, and a failed one
  aggregates exactly the started services that rejected.
\<close>

theorem service_start_barrier:
  assumes "wf_nodes (map snd svcs)" and "sc_start out svcs = (log, r)"
  shows "distinct log \<and> set log \<subseteq> set (node_names (map snd svcs))
    \<and> (\<forall>n xs ys d. n \<in> snd ` set svcs \<and> log = xs @ sn_name n # ys \<and> d \<in> set (deps n) \<longrightarrow> d \<in> set xs \<and> out d = None)
    \<and> (case r of
         Inr _ \<Rightarrow> set log = set (node_names (map snd svcs)) \<and> (\<forall>x \<in> set log. out x = None)
       | Inl (Topo e) \<Rightarrow> log = [] \<and> topologicalPhases (map snd svcs) = Inl e
       | Inl e \<Rightarrow> \<exists>fs. fs \<noteq> [] \<and> e = aggregate fs \<and> set fs = {(x, r). x \<in> set log \<and> out x = Some r})"
proof (cases "topologicalPhases (map snd svcs)")
  case (Inl e)
  with assms(2) show ?thesis by (auto simp: sc_start_def)
next
  case (Inr phases)
  with assms(2) have run: "run_phases out phases = (log, r)" by (simp add: sc_start_def)
  note once = kahn.started_once [OF assms(1) Inr, of out]
  have dep: "d \<in> set xs \<and> out d = None"
    if "n \<in> snd ` set svcs" "log = xs @ sn_name n # ys" "d \<in> set (deps n)" for n xs ys d
    using kahn.deps_started_first [OF assms(1) Inr, of n out xs ys d] that run by simp
  have res: "case r of Inr _ \<Rightarrow> set log = set (node_names (map snd svcs)) \<and> (\<forall>x \<in> set log. out x = None)
       | Inl (Topo e) \<Rightarrow> log = [] \<and> topologicalPhases (map snd svcs) = Inl e
       | Inl e \<Rightarrow> \<exists>fs. fs \<noteq> [] \<and> e = aggregate fs \<and> set fs = {(x, r). x \<in> set log \<and> out x = Some r}"
  proof (cases r)
    case (Inr u)
    with kahn.all_started [OF assms(1) \<open>topologicalPhases _ = Inr phases\<close>, of out u] run show ?thesis by auto
  next
    case (Inl e)
    with run_phases_result [of out phases] run show ?thesis by (auto simp: aggregate_def)
  qed
  from once run have "distinct log" "set log \<subseteq> set (node_names (map snd svcs))" by simp_all
  with dep res show ?thesis by (intro conjI allI impI) blast+
qed

theorem service_start_barrier_witness:
  "sc_start (\<lambda>x. if x = ''n'' then Some RNull else None) (map (\<lambda>n. (sn_name n, n)) demo_nodes)
     = ([''p'', ''n''], Inl (aggregate [(''n'', RNull)]))
   \<and> distinct [''p'', ''n'']"
proof -
  let ?svcs = "map (\<lambda>n. (sn_name n, n)) demo_nodes"
  let ?out = "\<lambda>x. if x = ''n'' then Some RNull else None"
  have wf: "wf_nodes (map snd ?svcs)" by code_simp
  have st: "sc_start ?out ?svcs = ([''p'', ''n''], Inl (aggregate [(''n'', RNull)]))"
    by code_simp
  from service_start_barrier [OF wf st] st show ?thesis by blast
qed

text \<open>
  A dependency listed twice is counted twice but resolved once, so an acyclic graph is reported as
  a cycle.
\<close>

lemma duplicate_dependency_bogus_cycle:
  "topologicalPhases [\<lparr>sn_name = ''a'', sn_dependencies = None\<rparr>, \<lparr>sn_name = ''b'', sn_dependencies = Some [''a'', ''a'']\<rparr>]
     = Inl (DependencyCycleError [''b''])"
  by code_simp

end
