(* ===== verification/Js_Text.thy ===== *)
theory Js_Text
  imports Prelude
begin

text \<open>
  The pieces of the JavaScript standard library that build textual keys: \<^verbatim>\<open>String.trim\<close>,
  \<^verbatim>\<open>toLowerCase\<close>, decimal rendering of integers and \<^verbatim>\<open>JSON.stringify\<close> of strings, numbers and arrays
  of them. Characters are the code units up to 255 (Latin-1).
\<close>

section \<open>Trimming and lower case\<close>

definition code_of :: "char \<Rightarrow> nat" where
  "code_of c = of_char c"

definition js_ws :: "char \<Rightarrow> bool" where
  "js_ws c = (code_of c \<in> {9, 10, 11, 12, 13, 32, 160})"

definition js_trim :: "string \<Rightarrow> string" where
  "js_trim s = rev (dropWhile js_ws (rev (dropWhile js_ws s)))"

definition js_lower_char :: "char \<Rightarrow> char" where
  "js_lower_char c =
     (let n = code_of c
      in if (65 \<le> n \<and> n \<le> 90) \<or> (192 \<le> n \<and> n \<le> 222 \<and> n \<noteq> 215) then char_of (n + 32) else c)"

definition js_lower :: "string \<Rightarrow> string" where
  "js_lower = map js_lower_char"

section \<open>Decimal rendering\<close>

fun nat_dec :: "nat \<Rightarrow> string" where
  "nat_dec n = (if n < 10 then [char_of (48 + n)] else nat_dec (n div 10) @ [char_of (48 + n mod 10)])"

declare nat_dec.simps [simp del]

definition int_dec :: "int \<Rightarrow> string" where
  "int_dec i = (if i < 0 then CHR ''-'' # nat_dec (nat (- i)) else nat_dec (nat i))"

text \<open>\<^verbatim>\<open>Number.MAX_SAFE_INTEGER\<close>, the bound of \<^verbatim>\<open>Number.isSafeInteger\<close>.\<close>

definition MAX_SAFE_INTEGER :: int where
  "MAX_SAFE_INTEGER = 9007199254740991"

section \<open>JSON.stringify of a string\<close>

definition hex_digit :: "nat \<Rightarrow> char" where
  "hex_digit n = char_of (if n < 10 then 48 + n else 87 + n)"

definition json_escape :: "char \<Rightarrow> string" where
  "json_escape c =
     (let n = code_of c
      in if n = 34 then [CHR 0x5C, CHR 0x22]
         else if n = 92 then [CHR 0x5C, CHR 0x5C]
         else if n = 8 then [CHR 0x5C, CHR ''b'']
         else if n = 9 then [CHR 0x5C, CHR ''t'']
         else if n = 10 then [CHR 0x5C, CHR ''n'']
         else if n = 12 then [CHR 0x5C, CHR ''f'']
         else if n = 13 then [CHR 0x5C, CHR ''r'']
         else if n < 32 then [CHR 0x5C, CHR ''u'', CHR ''0'', CHR ''0'', hex_digit (n div 16), hex_digit (n mod 16)]
         else [c])"

definition json_string :: "string \<Rightarrow> string" where
  "json_string s = CHR 0x22 # concat (map json_escape s) @ [CHR 0x22]"

fun json_join :: "string list \<Rightarrow> string" where
  "json_join [] = []"
| "json_join [x] = x"
| "json_join (x # y # zs) = x @ CHR '','' # json_join (y # zs)"

definition json_array :: "string list \<Rightarrow> string" where
  "json_array parts = CHR ''['' # json_join parts @ [CHR '']'']"

section \<open>Reading a JSON string back\<close>

definition hex_value :: "char \<Rightarrow> nat option" where
  "hex_value c =
     (let n = code_of c
      in if 48 \<le> n \<and> n \<le> 57 then Some (n - 48) else if 97 \<le> n \<and> n \<le> 102 then Some (n - 87) else None)"

text \<open>One escape sequence after its backslash: the character and how much text it used.\<close>

fun read_escape :: "string \<Rightarrow> (char \<times> nat) option" where
  "read_escape [] = None"
| "read_escape (e # cs) =
     (if e = CHR 0x22 \<or> e = CHR 0x5C then Some (e, 1)
      else if e = CHR ''b'' then Some (char_of (8::nat), 1)
      else if e = CHR ''t'' then Some (char_of (9::nat), 1)
      else if e = CHR ''n'' then Some (char_of (10::nat), 1)
      else if e = CHR ''f'' then Some (char_of (12::nat), 1)
      else if e = CHR ''r'' then Some (char_of (13::nat), 1)
      else if e = CHR ''u'' then
        (case map hex_value (take 4 cs) of
           [Some a, Some b, Some c, Some d] \<Rightarrow> Some (char_of (((a * 16 + b) * 16 + c) * 16 + d), 5)
         | _ \<Rightarrow> None)
      else None)"

function read_string :: "string \<Rightarrow> (string \<times> string) option" where
  "read_string cs =
     (case cs of
        [] \<Rightarrow> None
      | c # rest \<Rightarrow>
          if c = CHR 0x22 then Some ([], rest)
          else if c = CHR 0x5C then
            (case read_escape rest of
               None \<Rightarrow> None
             | Some (x, n) \<Rightarrow> map_option (\<lambda>(s, r). (x # s, r)) (read_string (drop n rest)))
          else map_option (\<lambda>(s, r). (c # s, r)) (read_string rest))"
  by pat_completeness auto
termination by (relation "measure length") auto

declare read_string.simps [simp del]

section \<open>Injectivity\<close>

definition escape_ok :: "char \<Rightarrow> bool" where
  "escape_ok c =
     (case json_escape c of
        [x] \<Rightarrow> x = c \<and> c \<noteq> CHR 0x22 \<and> c \<noteq> CHR 0x5C
      | b # esc \<Rightarrow> b = CHR 0x5C \<and> (length esc = 1 \<or> length esc = 5) \<and> read_escape esc = Some (c, length esc)
      | [] \<Rightarrow> False)"

lemma char_of_code_of [simp]: "char_of (code_of c) = c"
  by (simp add: code_of_def)

lemma code_of_char_of [simp]: "n < 256 \<Longrightarrow> code_of (char_of n) = n"
  by (simp add: code_of_def)

lemma hex_value_digit: "n < 16 \<Longrightarrow> hex_value (hex_digit n) = Some n"
  by (auto simp: hex_value_def hex_digit_def Let_def)

lemma code_of_eq: "code_of c = n \<Longrightarrow> c = char_of n"
  by auto

lemma quote_codes: "code_of (CHR 0x22) = 34" "code_of (CHR 0x5C) = 92" "hex_value (CHR ''0'') = Some 0"
  by (simp_all add: code_of_def hex_value_def)

lemma escape_ok_quote: "code_of c = 34 \<or> code_of c = 92 \<Longrightarrow> escape_ok c"
proof -
  assume "code_of c = 34 \<or> code_of c = 92"
  then have "c = CHR 0x22 \<or> c = CHR 0x5C" using quote_codes char_of_code_of by metis
  then show ?thesis by (auto simp: escape_ok_def json_escape_def quote_codes Let_def)
qed

lemma escape_ok_short: "code_of c \<in> {8, 9, 10, 12, 13} \<Longrightarrow> escape_ok c"
  by (auto simp: escape_ok_def json_escape_def Let_def quote_codes dest!: code_of_eq)

lemma escape_ok_hex:
  assumes "code_of c < 32" and "code_of c \<notin> {8, 9, 10, 12, 13}"
  shows "escape_ok c"
proof -
  let ?n = "code_of c"
  have e: "json_escape c = [CHR 0x5C, CHR ''u'', CHR ''0'', CHR ''0'', hex_digit (?n div 16), hex_digit (?n mod 16)]"
    using assms by (simp add: json_escape_def Let_def)
  have "hex_value (hex_digit (?n div 16)) = Some (?n div 16)" "hex_value (hex_digit (?n mod 16)) = Some (?n mod 16)"
    using assms(1) by (auto intro!: hex_value_digit)
  then show ?thesis by (simp add: escape_ok_def e quote_codes)
qed

lemma escape_ok_plain:
  assumes "32 \<le> code_of c" and "code_of c \<noteq> 34" and "code_of c \<noteq> 92"
  shows "escape_ok c"
proof -
  from assms have "json_escape c = [c]" by (simp add: json_escape_def Let_def)
  moreover have "c \<noteq> CHR 0x22" "c \<noteq> CHR 0x5C" using assms quote_codes by auto
  ultimately show ?thesis by (simp add: escape_ok_def)
qed

lemma escape_ok_all: "escape_ok c"
  using escape_ok_quote escape_ok_short escape_ok_hex escape_ok_plain by (meson not_le)

lemma read_escape_append:
  "read_escape esc = Some (c, length esc) \<Longrightarrow> read_escape (esc @ r) = Some (c, length esc)"
  by (cases esc) (auto split: if_splits list.splits option.splits)

lemma read_string_escape:
  "read_string (json_escape c @ r) = map_option (\<lambda>(s, t). (c # s, t)) (read_string r)"
proof (cases "json_escape c")
  case Nil
  with escape_ok_all [of c] show ?thesis by (simp add: escape_ok_def)
next
  case (Cons b esc)
  note bc = this
  show ?thesis
  proof (cases esc)
    case Nil
    with escape_ok_all [of c] bc show ?thesis
      by (subst read_string.simps) (simp add: escape_ok_def)
  next
    case (Cons e es)
    with escape_ok_all [of c] bc have "b = CHR 0x5C" "read_escape esc = Some (c, length esc)"
      by (auto simp: escape_ok_def)
    with bc read_escape_append [of esc c r] show ?thesis
      by (subst read_string.simps) simp
  qed
qed

lemma read_string_json: "read_string (concat (map json_escape s) @ CHR 0x22 # r) = Some (s, r)"
proof (induction s)
  case Nil
  show ?case by (subst read_string.simps) simp
next
  case (Cons c s)
  then show ?case by (simp add: read_string_escape)
qed

lemma json_string_append_inj:
  assumes "json_string s @ r = json_string s' @ r'"
  shows "s = s' \<and> r = r'"
proof -
  from assms have "concat (map json_escape s) @ CHR 0x22 # r = concat (map json_escape s') @ CHR 0x22 # r'"
    by (simp add: json_string_def)
  with read_string_json [of s r] have "Some (s', r') = Some (s, r)" by (simp only: read_string_json)
  then show ?thesis by simp
qed

fun dec_value :: "nat \<Rightarrow> string \<Rightarrow> nat" where
  "dec_value acc [] = acc"
| "dec_value acc (c # cs) = dec_value (acc * 10 + (code_of c - 48)) cs"

lemma dec_value_snoc: "dec_value acc (cs @ [c]) = dec_value acc cs * 10 + (code_of c - 48)"
  by (induction cs arbitrary: acc) auto

lemma nat_dec_value: "dec_value 0 (nat_dec n) = n"
proof (induction n rule: nat_dec.induct)
  case (1 n)
  show ?case
  proof (cases "n < 10")
    case True
    then show ?thesis by (subst nat_dec.simps) simp
  next
    case False
    with 1 show ?thesis by (subst nat_dec.simps) (simp add: dec_value_snoc)
  qed
qed

lemma nat_dec_inj [simp]: "nat_dec n = nat_dec m \<longleftrightarrow> n = m"
  using nat_dec_value by metis

lemma nat_dec_digits: "c \<in> set (nat_dec n) \<Longrightarrow> 48 \<le> code_of c \<and> code_of c \<le> 57"
proof (induction n rule: nat_dec.induct)
  case (1 n)
  show ?case
  proof (cases "n < 10")
    case True
    with 1(2) show ?thesis by (subst (asm) nat_dec.simps) simp
  next
    case False
    with 1(2) have "c \<in> set (nat_dec (n div 10)) \<or> c = char_of (48 + n mod 10)"
      by (subst (asm) nat_dec.simps) auto
    then show ?thesis using 1(1) [OF False] by auto
  qed
qed

lemma nat_dec_nonempty [simp]: "nat_dec n \<noteq> []"
  by (subst nat_dec.simps) simp

lemma int_dec_inj [simp]: "int_dec a = int_dec b \<longleftrightarrow> a = b"
proof
  have no_sign: "nat_dec n \<noteq> CHR ''-'' # s" for n s
    using nat_dec_digits [of "CHR ''-''" n] by (auto simp: code_of_def)
  assume "int_dec a = int_dec b"
  then show "a = b"
    using no_sign by (auto simp: int_dec_def nat_eq_iff split: if_splits dest: sym)
qed simp

text \<open>A number followed by a character that is no digit is read back unambiguously.\<close>

lemma nat_dec_append_inj:
  assumes "nat_dec n @ c # r = nat_dec m @ c # r'" and "\<not> (48 \<le> code_of c \<and> code_of c \<le> 57)"
  shows "n = m \<and> r = r'"
proof -
  let ?P = "\<lambda>c. 48 \<le> code_of c \<and> code_of c \<le> 57"
  have "takeWhile ?P (nat_dec k @ c # t) = nat_dec k" for k t
    using assms(2) by (subst takeWhile_append2) (auto dest: nat_dec_digits)
  then have "nat_dec n = nat_dec m" using assms(1) by metis
  with assms(1) show ?thesis by simp
qed

end
