(* ===== verification/Activity_Causal.thy ===== *)
theory Activity_Causal
  imports Js_Text
begin

text \<open>
  The durable causal reducer of the activity feed
  (\<^verbatim>\<open>packages/wallet-core/src/activity/causal.ts\<close>, \<^verbatim>\<open>model.ts\<close>, \<^verbatim>\<open>scope.ts\<close>). Counters are decimal strings
  compared through \<^verbatim>\<open>BigInt\<close>; canonical decimals are in bijection with the naturals, which stand for
  them here.
\<close>

section \<open>Scopes\<close>

text \<open>A JavaScript number: an integer, or anything else with its rendering.\<close>

datatype js_number = Integral int | NotIntegral string

record activity_scope =
  profileId :: string
  networkId :: string
  chainId :: js_number
  accountAddress :: string

datatype invalid_scope = InvalidActivityScopeError string

definition canonicalizeAddress :: "string \<Rightarrow> string" where
  "canonicalizeAddress address = js_lower (js_trim address)"

definition activityScopeKey :: "activity_scope \<Rightarrow> invalid_scope + string" where
  "activityScopeKey scope =
     (if js_trim (profileId scope) = [] then Inl (InvalidActivityScopeError ''empty profileId'')
      else if js_trim (networkId scope) = [] then Inl (InvalidActivityScopeError ''empty networkId'')
      else (case chainId scope of
        NotIntegral s \<Rightarrow> Inl (InvalidActivityScopeError (''chainId must be a non-negative safe integer (got '' @ s @ '')''))
      | Integral c \<Rightarrow>
          if \<bar>c\<bar> > MAX_SAFE_INTEGER \<or> c < 0
          then Inl (InvalidActivityScopeError (''chainId must be a non-negative safe integer (got '' @ int_dec c @ '')''))
          else let address = canonicalizeAddress (accountAddress scope)
               in if address = [] then Inl (InvalidActivityScopeError ''empty accountAddress'')
                  else Inr (json_array [json_string (profileId scope), json_string (networkId scope), int_dec c,
                         json_string address])))"

text \<open>\<^verbatim>\<open>activityScopeKey(a) === activityScopeKey(b)\<close>, the first exception propagating.\<close>

definition scopesEqual :: "activity_scope \<Rightarrow> activity_scope \<Rightarrow> invalid_scope + bool" where
  "scopesEqual a b =
     (case activityScopeKey a of
        Inl e \<Rightarrow> Inl e
      | Inr ka \<Rightarrow> (case activityScopeKey b of Inl e \<Rightarrow> Inl e | Inr kb \<Rightarrow> Inr (ka = kb)))"

section \<open>Vocabulary\<close>

record incarnation =
  inc_generation :: nat
  inc_nonce :: string

record revision =
  rev_incarnation :: incarnation
  rev_seq :: nat

datatype activity_source = TransactionSource | JournalSource | IncomingSource

datatype mutation_kind = Upsert | Remove

record 'a mutation =
  mu_source :: activity_source
  mu_scope :: activity_scope
  mu_recordId :: string
  mu_revision :: revision
  mu_kind :: mutation_kind
  mu_record :: "'a option"

record 'a snapshot_record =
  sr_recordId :: string
  sr_revision :: revision
  sr_record :: 'a

record tombstone =
  tb_recordId :: string
  tb_revision :: revision

record 'a snapshot =
  sn_source :: activity_source
  sn_scope :: activity_scope
  sn_incarnation :: incarnation
  sn_watermark :: nat
  sn_records :: "'a snapshot_record list"
  sn_tombstones :: "tombstone list"

datatype apply_decision = Applied | Buffered | StaleIncarnation | Covered | StaleSeq | Tombstoned

record 'a source_state =
  ss_incarnation :: "incarnation option"
  ss_records :: "(string, 'a \<times> nat) jsmap"
  ss_tombstones :: "(string, nat) jsmap"
  ss_coverage :: nat
  ss_maxEventSeen :: nat
  ss_buffered :: "'a mutation list"

abbreviation mu_inc :: "'a mutation \<Rightarrow> incarnation" where
  "mu_inc m \<equiv> rev_incarnation (mu_revision m)"

abbreviation mu_seq :: "'a mutation \<Rightarrow> nat" where
  "mu_seq m \<equiv> rev_seq (mu_revision m)"

section \<open>The reducer\<close>

definition compareCounter :: "nat \<Rightarrow> nat \<Rightarrow> int" where
  "compareCounter a b = (if a < b then - 1 else if a > b then 1 else 0)"

definition compareIncarnation :: "incarnation \<Rightarrow> incarnation \<Rightarrow> int" where
  "compareIncarnation a b = compareCounter (inc_generation a) (inc_generation b)"

definition sameIncarnation :: "incarnation \<Rightarrow> incarnation \<Rightarrow> bool" where
  "sameIncarnation a b = (inc_generation a = inc_generation b \<and> inc_nonce a = inc_nonce b)"

definition emptySourceState :: "'a source_state" where
  "emptySourceState = \<lparr>ss_incarnation = None, ss_records = [], ss_tombstones = [], ss_coverage = 0,
     ss_maxEventSeen = 0, ss_buffered = []\<rparr>"

definition maxCounter :: "nat \<Rightarrow> nat \<Rightarrow> nat" where
  "maxCounter a b = (if compareCounter a b \<ge> 0 then a else b)"

definition see :: "nat \<Rightarrow> 'a source_state \<Rightarrow> 'a source_state" where
  "see seq s = s\<lparr>ss_maxEventSeen := maxCounter (ss_maxEventSeen s) seq\<rparr>"

definition hold :: "'a mutation \<Rightarrow> 'a source_state \<Rightarrow> 'a source_state" where
  "hold m s = see (mu_seq m) (s\<lparr>ss_buffered := ss_buffered s @ [m]\<rparr>)"

definition applyCurrent :: "'a source_state \<Rightarrow> 'a mutation \<Rightarrow> string + ('a source_state \<times> apply_decision)" where
  "applyCurrent s m =
     (let seq = mu_seq m; next = see seq s; i = mu_recordId m
      in if compareCounter seq (ss_coverage s) \<le> 0 then Inr (next, Covered)
         else if (case js_get (ss_records s) i of None \<Rightarrow> False | Some e \<Rightarrow> compareCounter seq (snd e) \<le> 0)
         then Inr (next, StaleSeq)
         else if (case js_get (ss_tombstones s) i of None \<Rightarrow> False | Some t \<Rightarrow> compareCounter seq t \<le> 0)
         then Inr (next, Tombstoned)
         else (case mu_kind m of
             Remove \<Rightarrow> Inr (next\<lparr>ss_records := js_del i (ss_records next),
                               ss_tombstones := js_set i seq (ss_tombstones next)\<rparr>, Applied)
           | Upsert \<Rightarrow>
               (case mu_record m of
                  None \<Rightarrow> Inl (''upsert mutation for '' @ i @ '' carries no record'')
                | Some r \<Rightarrow> Inr (next\<lparr>ss_records := js_set i (r, seq) (ss_records next),
                                    ss_tombstones := js_del i (ss_tombstones next)\<rparr>, Applied))))"

definition applyMutation :: "'a source_state \<Rightarrow> 'a mutation \<Rightarrow> string + ('a source_state \<times> apply_decision)" where
  "applyMutation s m =
     (case ss_incarnation s of
        None \<Rightarrow> Inr (hold m s, Buffered)
      | Some current \<Rightarrow>
          let order = compareIncarnation (mu_inc m) current
          in if order < 0 then Inr (see (mu_seq m) s, StaleIncarnation)
             else if order > 0 \<or> \<not> sameIncarnation (mu_inc m) current then Inr (hold m s, Buffered)
             else applyCurrent s m)"

fun replay_loop :: "incarnation \<Rightarrow> 'a mutation list \<Rightarrow> 'a source_state \<Rightarrow> string + 'a source_state" where
  "replay_loop current [] s = Inr s"
| "replay_loop current (m # ms) s =
     (let order = compareIncarnation (mu_inc m) current
      in if order < 0 then replay_loop current ms s
         else if order > 0 \<or> \<not> sameIncarnation (mu_inc m) current
         then replay_loop current ms (s\<lparr>ss_buffered := ss_buffered s @ [m]\<rparr>)
         else (case applyCurrent s m of
                 Inl e \<Rightarrow> Inl e
               | Inr (s', _) \<Rightarrow> replay_loop current ms s'))"

definition replayBuffered :: "'a source_state \<Rightarrow> string + 'a source_state" where
  "replayBuffered s =
     (case ss_incarnation s of
        None \<Rightarrow> Inr s
      | Some current \<Rightarrow>
          if ss_buffered s = [] then Inr s else replay_loop current (ss_buffered s) (s\<lparr>ss_buffered := []\<rparr>))"

definition snapshot_tombstone :: "tombstone \<Rightarrow> 'a source_state \<Rightarrow> 'a source_state" where
  "snapshot_tombstone t s =
     (let seq = rev_seq (tb_revision t); i = tb_recordId t
      in if (case js_get (ss_records s) i of None \<Rightarrow> False | Some e \<Rightarrow> compareCounter (snd e) seq > 0) then s
         else if (case js_get (ss_tombstones s) i of None \<Rightarrow> False | Some k \<Rightarrow> compareCounter k seq \<ge> 0) then s
         else s\<lparr>ss_records := js_del i (ss_records s), ss_tombstones := js_set i seq (ss_tombstones s)\<rparr>)"

definition applySnapshotTombstones :: "tombstone list \<Rightarrow> 'a source_state \<Rightarrow> 'a source_state" where
  "applySnapshotTombstones ts s = fold snapshot_tombstone ts s"

definition snapshot_row :: "'a snapshot_record \<Rightarrow> 'a source_state \<Rightarrow> 'a source_state" where
  "snapshot_row row s =
     (let seq = rev_seq (sr_revision row); i = sr_recordId row
      in if (case js_get (ss_records s) i of None \<Rightarrow> False | Some e \<Rightarrow> compareCounter (snd e) seq \<ge> 0) then s
         else if (case js_get (ss_tombstones s) i of None \<Rightarrow> False | Some t \<Rightarrow> compareCounter seq t \<le> 0) then s
         else s\<lparr>ss_records := js_set i (sr_record row, seq) (ss_records s),
                ss_tombstones := js_del i (ss_tombstones s)\<rparr>)"

definition applySnapshotRows :: "'a snapshot_record list \<Rightarrow> 'a source_state \<Rightarrow> 'a source_state" where
  "applySnapshotRows rows s = fold snapshot_row rows s"

definition installSnapshot :: "'a source_state \<Rightarrow> 'a snapshot \<Rightarrow> 'a source_state" where
  "installSnapshot base snap =
     (let watermark = sn_watermark snap;
          next = applySnapshotRows (sn_records snap) (applySnapshotTombstones (sn_tombstones snap) base);
          inSnapshot = map sr_recordId (sn_records snap)
      in next\<lparr>ss_records := filter (\<lambda>(i, held). i \<in> set inSnapshot \<or> \<not> compareCounter (snd held) watermark \<le> 0)
                             (ss_records next),
              ss_coverage := maxCounter (ss_coverage next) watermark\<rparr>)"

definition install_and_replay :: "'a source_state \<Rightarrow> 'a snapshot \<Rightarrow> string + ('a source_state \<times> bool)" where
  "install_and_replay base snap =
     (case replayBuffered (installSnapshot base snap) of Inl e \<Rightarrow> Inl e | Inr s \<Rightarrow> Inr (s, True))"

definition applySnapshot :: "'a source_state \<Rightarrow> 'a snapshot \<Rightarrow> string + ('a source_state \<times> bool)" where
  "applySnapshot s snap =
     (case ss_incarnation s of
        None \<Rightarrow> install_and_replay (emptySourceState\<lparr>ss_buffered := ss_buffered s,
                  ss_maxEventSeen := ss_maxEventSeen s, ss_incarnation := Some (sn_incarnation snap)\<rparr>) snap
      | Some current \<Rightarrow>
          let order = compareIncarnation (sn_incarnation snap) current
          in if order < 0 then Inr (s, False)
             else if order = 0 \<and> \<not> sameIncarnation (sn_incarnation snap) current then Inr (s, False)
             else if order > 0
             then install_and_replay (emptySourceState\<lparr>ss_incarnation := Some (sn_incarnation snap),
                    ss_buffered := ss_buffered s\<rparr>) snap
             else if compareCounter (sn_watermark snap) (ss_coverage s) < 0 then Inr (s, False)
             else install_and_replay (s\<lparr>ss_incarnation := Some (sn_incarnation snap)\<rparr>) snap)"

definition resetScope :: "'a source_state \<Rightarrow> incarnation \<Rightarrow> string + 'a source_state" where
  "resetScope s inc =
     (if (case ss_incarnation s of None \<Rightarrow> False | Some cur \<Rightarrow> compareIncarnation inc cur \<le> 0) then Inr s
      else replayBuffered (emptySourceState\<lparr>ss_incarnation := Some inc, ss_buffered := ss_buffered s\<rparr>))"

definition liveRecords :: "'a source_state \<Rightarrow> 'a list" where
  "liveRecords s = map (fst \<circ> snd) (ss_records s)"

section \<open>Runs\<close>

text \<open>What reaches one \<open>(source, scope)\<close>; a call that throws leaves the caller's reference unchanged.\<close>

datatype 'a src_event = EvMutation "'a mutation" | EvSnapshot "'a snapshot" | EvReset incarnation

fun src_step :: "'a source_state \<Rightarrow> 'a src_event \<Rightarrow> 'a source_state" where
  "src_step s (EvMutation m) = (case applyMutation s m of Inl _ \<Rightarrow> s | Inr (s', _) \<Rightarrow> s')"
| "src_step s (EvSnapshot snap) = (case applySnapshot s snap of Inl _ \<Rightarrow> s | Inr (s', _) \<Rightarrow> s')"
| "src_step s (EvReset inc) = (case resetScope s inc of Inl _ \<Rightarrow> s | Inr s' \<Rightarrow> s')"

definition src_run :: "'a src_event list \<Rightarrow> 'a source_state" where
  "src_run evs = foldl src_step emptySourceState evs"

section \<open>Specification: a last-writer-wins register per record\<close>

text \<open>What the state knows of one record: its latest revision, with the payload, or \<open>None\<close> when it was removed.\<close>

definition view :: "'a source_state \<Rightarrow> string \<Rightarrow> (nat \<times> 'a option) option" where
  "view s i =
     (case js_get (ss_records s) i of
        Some (p, q) \<Rightarrow> Some (q, Some p)
      | None \<Rightarrow> map_option (\<lambda>q. (q, None)) (js_get (ss_tombstones s) i))"

definition src_wf :: "'a source_state \<Rightarrow> bool" where
  "src_wf s \<longleftrightarrow> distinct (js_keys (ss_records s)) \<and> distinct (js_keys (ss_tombstones s))
     \<and> set (js_keys (ss_records s)) \<inter> set (js_keys (ss_tombstones s)) = {}"

text \<open>What a mutation writes: a removal carries nothing, an upsert its record.\<close>

definition content :: "'a mutation \<Rightarrow> 'a option" where
  "content m = (case mu_kind m of Remove \<Rightarrow> None | Upsert \<Rightarrow> mu_record m)"

definition wf_mutation :: "'a mutation \<Rightarrow> bool" where
  "wf_mutation m \<longleftrightarrow> (mu_kind m = Upsert \<longrightarrow> mu_record m \<noteq> None)"

locale lww_store =
  fixes apply_one :: "'s \<Rightarrow> 'm \<Rightarrow> 's" and key_of :: "'m \<Rightarrow> 'k" and seq_of :: "'m \<Rightarrow> nat" and val_of :: "'m \<Rightarrow> 'v"
    and look :: "'s \<Rightarrow> 'k \<Rightarrow> (nat \<times> 'v) option" and cov :: "'s \<Rightarrow> nat" and ok :: "'s \<Rightarrow> bool" and okm :: "'m \<Rightarrow> bool"
  assumes apply_ok: "ok s \<Longrightarrow> okm m \<Longrightarrow> ok (apply_one s m)"
    and apply_cov: "ok s \<Longrightarrow> okm m \<Longrightarrow> cov (apply_one s m) = cov s"
    and apply_look: "ok s \<Longrightarrow> okm m \<Longrightarrow> look (apply_one s m) k =
      (if k = key_of m \<and> cov s < seq_of m \<and> (\<forall>p. look s k = Some p \<longrightarrow> fst p < seq_of m)
       then Some (seq_of m, val_of m) else look s k)"
begin

lemma run_ok: "ok s \<Longrightarrow> \<forall>m \<in> set ms. okm m \<Longrightarrow> ok (foldl apply_one s ms) \<and> cov (foldl apply_one s ms) = cov s"
  by (induction ms rule: rev_induct) (auto simp: apply_ok apply_cov)

definition wins :: "'s \<Rightarrow> 'k \<Rightarrow> 'm list \<Rightarrow> (nat \<times> 'v) option \<Rightarrow> bool" where
  "wins s k ms v \<longleftrightarrow>
     (v = look s k \<and> (\<forall>m \<in> set ms. key_of m = k \<and> cov s < seq_of m \<longrightarrow> (\<exists>p. look s k = Some p \<and> seq_of m \<le> fst p)))
     \<or> (\<exists>m \<in> set ms. key_of m = k \<and> cov s < seq_of m \<and> v = Some (seq_of m, val_of m)
          \<and> (\<forall>p. look s k = Some p \<longrightarrow> fst p < seq_of m)
          \<and> (\<forall>m' \<in> set ms. key_of m' = k \<and> cov s < seq_of m' \<longrightarrow> seq_of m' \<le> seq_of m))"

lemma wins_snoc:
  assumes "wins s k ms v"
  shows "wins s k (ms @ [m]) (if k = key_of m \<and> cov s < seq_of m \<and> (\<forall>p. v = Some p \<longrightarrow> fst p < seq_of m)
     then Some (seq_of m, val_of m) else v)"
proof (cases "k = key_of m \<and> cov s < seq_of m \<and> (\<forall>p. v = Some p \<longrightarrow> fst p < seq_of m)")
  case True
  have "\<forall>p. look s k = Some p \<longrightarrow> fst p < seq_of m" using assms True unfolding wins_def by fastforce
  moreover have "\<forall>m' \<in> set ms. key_of m' = k \<and> cov s < seq_of m' \<longrightarrow> seq_of m' \<le> seq_of m"
    using assms True unfolding wins_def by fastforce
  ultimately show ?thesis using True unfolding wins_def by auto
next
  case False
  then have m: "\<exists>p. v = Some p \<and> seq_of m \<le> fst p" if "key_of m = k" "cov s < seq_of m"
    using that by (auto simp: not_less)
  have eq: "(if k = key_of m \<and> cov s < seq_of m \<and> (\<forall>p. v = Some p \<longrightarrow> fst p < seq_of m)
     then Some (seq_of m, val_of m) else v) = v" using False by argo
  from assms consider
    (kept) "v = look s k" "\<forall>m \<in> set ms. key_of m = k \<and> cov s < seq_of m \<longrightarrow> (\<exists>p. look s k = Some p \<and> seq_of m \<le> fst p)"
  | (won) w where "w \<in> set ms" "key_of w = k" "cov s < seq_of w" "v = Some (seq_of w, val_of w)"
      "\<forall>p. look s k = Some p \<longrightarrow> fst p < seq_of w"
      "\<forall>m' \<in> set ms. key_of m' = k \<and> cov s < seq_of m' \<longrightarrow> seq_of m' \<le> seq_of w"
    unfolding wins_def by blast
  then have "wins s k (ms @ [m]) v"
  proof cases
    case kept
    with m show ?thesis unfolding wins_def by auto
  next
    case (won w)
    with m have "\<forall>m' \<in> set (ms @ [m]). key_of m' = k \<and> cov s < seq_of m' \<longrightarrow> seq_of m' \<le> seq_of w" by auto
    with won show ?thesis unfolding wins_def by (intro disjI2 bexI [of _ w]) simp_all
  qed
  then show ?thesis unfolding eq .
qed

lemma run_wins:
  assumes "ok s" and "\<forall>m \<in> set ms. okm m"
  shows "wins s k ms (look (foldl apply_one s ms) k)"
  using assms(2)
proof (induction ms rule: rev_induct)
  case Nil
  then show ?case by (simp add: wins_def)
next
  case (snoc m ms)
  then have o: "ok (foldl apply_one s ms)" "cov (foldl apply_one s ms) = cov s" and m: "okm m"
    using run_ok [OF assms(1)] by auto
  from snoc wins_snoc [of s k ms "look (foldl apply_one s ms) k" m] show ?case
    by (simp add: apply_look [OF o(1) m] o(2))
qed

lemma wins_unique:
  assumes "wins s k ms v" and "wins s k ms' v'" and "set ms = set ms'"
    and "\<forall>m \<in> set ms. \<forall>m' \<in> set ms. key_of m = key_of m' \<and> seq_of m = seq_of m' \<longrightarrow> val_of m = val_of m'"
  shows "v = v'"
  using assms unfolding wins_def by (smt (verit) leD le_antisym)

lemma convergence:
  assumes "ok s" and "\<forall>m \<in> set ms. okm m" and "set ms = set ms'"
    and "\<forall>m \<in> set ms. \<forall>m' \<in> set ms. key_of m = key_of m' \<and> seq_of m = seq_of m' \<longrightarrow> val_of m = val_of m'"
  shows "look (foldl apply_one s ms) k = look (foldl apply_one s ms') k"
  using wins_unique [OF run_wins [OF assms(1,2)] run_wins [OF assms(1)] assms(3,4)] assms(2,3) by simp

end

section \<open>Comparisons\<close>

lemma compareCounter_iff [causal_simps]:
  "compareCounter a b \<le> 0 \<longleftrightarrow> a \<le> b" "0 \<le> compareCounter a b \<longleftrightarrow> b \<le> a"
  "compareCounter a b < 0 \<longleftrightarrow> a < b" "0 < compareCounter a b \<longleftrightarrow> b < a" "compareCounter a b = 0 \<longleftrightarrow> a = b"
  by (simp_all add: compareCounter_def)

lemma maxCounter_max [causal_simps]: "maxCounter a b = max a b"
  by (simp add: maxCounter_def causal_simps)

lemma sameIncarnation_eq [causal_simps]: "sameIncarnation a b \<longleftrightarrow> a = b"
  by (cases a; cases b) (simp add: sameIncarnation_def)

lemma see_simps [simp]:
  "ss_incarnation (see q s) = ss_incarnation s" "ss_records (see q s) = ss_records s"
  "ss_tombstones (see q s) = ss_tombstones s" "ss_coverage (see q s) = ss_coverage s"
  "ss_buffered (see q s) = ss_buffered s" "view (see q s) = view s" "src_wf (see q s) = src_wf s"
  by (simp_all add: see_def view_def src_wf_def fun_eq_iff cong: option.case_cong)

section \<open>Writes as register updates\<close>

definition lww_put :: "string \<Rightarrow> nat \<Rightarrow> 'a option \<Rightarrow> 'a source_state \<Rightarrow> 'a source_state" where
  "lww_put i q v s =
     (case v of
        Some r \<Rightarrow> s\<lparr>ss_records := js_set i (r, q) (ss_records s), ss_tombstones := js_del i (ss_tombstones s)\<rparr>
      | None \<Rightarrow> s\<lparr>ss_records := js_del i (ss_records s), ss_tombstones := js_set i q (ss_tombstones s)\<rparr>)"

lemma lww_put_simps [simp]:
  "ss_incarnation (lww_put i q v s) = ss_incarnation s" "ss_coverage (lww_put i q v s) = ss_coverage s"
  "ss_buffered (lww_put i q v s) = ss_buffered s"
  by (simp_all add: lww_put_def split: option.split)

lemma lww_put_records:
  "js_get (ss_records (lww_put i q v s)) k = (if k = i then map_option (\<lambda>r. (r, q)) v else js_get (ss_records s) k)"
  by (simp add: lww_put_def map_simps split: option.split)

lemma lww_put_view: "view (lww_put i q v s) k = (if k = i then Some (q, v) else view s k)"
  by (simp add: view_def lww_put_def map_simps split: option.split)

lemma lww_put_wf: "src_wf s \<Longrightarrow> src_wf (lww_put i q v s)"
  unfolding src_wf_def lww_put_def
  by (cases v) (auto simp: distinct_js_set distinct_js_del simp del: set_map simp flip: set_map)

definition newer :: "'a source_state \<Rightarrow> string \<Rightarrow> nat \<Rightarrow> bool" where
  "newer s i q \<longleftrightarrow> (\<forall>p. view s i = Some p \<longrightarrow> fst p < q)"

lemma tombstone_no_record: "src_wf s \<Longrightarrow> js_get (ss_records s) i = Some e \<Longrightarrow> js_get (ss_tombstones s) i = None"
  unfolding src_wf_def using js_has_iff_key by (metis disjoint_iff option.discI)

lemma newer_iff:
  "src_wf s \<Longrightarrow> newer s i q \<longleftrightarrow>
     \<not> (case js_get (ss_records s) i of None \<Rightarrow> False | Some e \<Rightarrow> q \<le> snd e)
     \<and> \<not> (case js_get (ss_tombstones s) i of None \<Rightarrow> False | Some t \<Rightarrow> q \<le> t)"
  by (auto simp: newer_def view_def not_le dest: tombstone_no_record split: option.splits)

lemma applyCurrent_cases:
  assumes "src_wf s"
  obtains (throws) e where "applyCurrent s m = Inl e" "\<not> wf_mutation m"
  | (put) "ss_coverage s < mu_seq m" "newer s (mu_recordId m) (mu_seq m)" "wf_mutation m"
      "applyCurrent s m = Inr (lww_put (mu_recordId m) (mu_seq m) (content m) (see (mu_seq m) s), Applied)"
  | (skip) d where "\<not> (ss_coverage s < mu_seq m \<and> newer s (mu_recordId m) (mu_seq m))" "d \<noteq> Applied"
      "applyCurrent s m = Inr (see (mu_seq m) s, d)"
proof (cases "ss_coverage s < mu_seq m \<and> newer s (mu_recordId m) (mu_seq m)")
  case True
  then show thesis using throws put
    by (cases "mu_kind m"; cases "mu_record m")
      (auto simp: applyCurrent_def Let_def causal_simps newer_iff [OF assms] lww_put_def wf_mutation_def
        content_def cong: option.case_cong)
next
  case False
  then have "\<exists>d. d \<noteq> Applied \<and> applyCurrent s m = Inr (see (mu_seq m) s, d)"
    by (auto simp: applyCurrent_def Let_def causal_simps newer_iff [OF assms] cong: option.case_cong)
  with skip [OF False] show thesis by blast
qed

lemma snapshot_tombstone_put:
  assumes "src_wf s"
  shows "snapshot_tombstone t s =
    (if \<forall>p. view s (tb_recordId t) = Some p \<longrightarrow>
          fst p < rev_seq (tb_revision t) \<or> fst p = rev_seq (tb_revision t) \<and> snd p \<noteq> None
     then lww_put (tb_recordId t) (rev_seq (tb_revision t)) None s else s)"
  by (cases "js_get (ss_records s) (tb_recordId t)"; cases "js_get (ss_tombstones s) (tb_recordId t)")
    (auto simp: snapshot_tombstone_def Let_def causal_simps view_def lww_put_def dest: tombstone_no_record [OF assms])

lemma snapshot_row_put:
  assumes "src_wf s"
  shows "snapshot_row row s =
    (if newer s (sr_recordId row) (rev_seq (sr_revision row))
     then lww_put (sr_recordId row) (rev_seq (sr_revision row)) (Some (sr_record row)) s else s)"
  by (auto simp: snapshot_row_def Let_def causal_simps newer_iff [OF assms] lww_put_def cong: option.case_cong)

section \<open>One incarnation is a last-writer-wins store\<close>

lemma applyMutation_current:
  "ss_incarnation s = Some (mu_inc m) \<Longrightarrow> applyMutation s m = applyCurrent s m"
  by (simp add: applyMutation_def causal_simps compareIncarnation_def)

lemma src_step_live:
  assumes "ss_incarnation s = Some (mu_inc m)" and "src_wf s" and "wf_mutation m"
  shows "src_step s (EvMutation m) =
    (if ss_coverage s < mu_seq m \<and> newer s (mu_recordId m) (mu_seq m)
     then lww_put (mu_recordId m) (mu_seq m) (content m) (see (mu_seq m) s) else see (mu_seq m) s)"
  using assms(2)
proof (cases rule: applyCurrent_cases [of s m])
  case (throws e)
  with assms(3) show ?thesis by simp
next
  case put
  then show ?thesis by (simp add: applyMutation_current [OF assms(1)])
next
  case (skip d)
  then show ?thesis by (simp only: if_False) (simp add: applyMutation_current [OF assms(1)])
qed

interpretation live: lww_store "\<lambda>s m. src_step s (EvMutation m)" mu_recordId mu_seq content view ss_coverage
  "\<lambda>s. ss_incarnation s = Some inc \<and> src_wf s" "\<lambda>m. mu_inc m = inc \<and> wf_mutation m" for inc
proof (unfold_locales, goal_cases)
  case (1 s m)
  then show ?case by (auto simp: src_step_live lww_put_wf simp del: src_step.simps)
next
  case (2 s m)
  then show ?case by (auto simp: src_step_live simp del: src_step.simps)
next
  case (3 s m k)
  then show ?case by (auto simp: src_step_live lww_put_view newer_def simp del: src_step.simps)
qed

section \<open>Invariants of every run\<close>

definition came_from :: "'a src_event list \<Rightarrow> incarnation \<Rightarrow> string \<Rightarrow> 'a \<Rightarrow> nat \<Rightarrow> bool" where
  "came_from evs cur i p q \<longleftrightarrow>
     (\<exists>m. EvMutation m \<in> set evs \<and> mu_inc m = cur \<and> mu_recordId m = i \<and> mu_seq m = q \<and> content m = Some p)
   \<or> (\<exists>snap row. EvSnapshot snap \<in> set evs \<and> sn_incarnation snap = cur \<and> row \<in> set (sn_records snap)
        \<and> sr_recordId row = i \<and> rev_seq (sr_revision row) = q \<and> sr_record row = p)"

definition recs_from :: "'a src_event list \<Rightarrow> incarnation \<Rightarrow> 'a source_state \<Rightarrow> bool" where
  "recs_from evs cur s \<longleftrightarrow> (\<forall>i p q. js_get (ss_records s) i = Some (p, q) \<longrightarrow> came_from evs cur i p q)"

definition ahead :: "incarnation \<Rightarrow> 'a mutation \<Rightarrow> bool" where
  "ahead cur m \<longleftrightarrow> mu_inc m \<noteq> cur \<and> inc_generation cur \<le> inc_generation (mu_inc m)"

definition src_inv :: "'a src_event list \<Rightarrow> 'a source_state \<Rightarrow> bool" where
  "src_inv evs s \<longleftrightarrow> src_wf s \<and> (\<forall>m \<in> set (ss_buffered s). EvMutation m \<in> set evs)
     \<and> (case ss_incarnation s of
          None \<Rightarrow> ss_records s = [] \<and> ss_tombstones s = []
        | Some cur \<Rightarrow> recs_from evs cur s \<and> (\<forall>m \<in> set (ss_buffered s). ahead cur m))"

lemma recs_from_put:
  "recs_from evs cur s \<Longrightarrow> (\<And>r. v = Some r \<Longrightarrow> came_from evs cur i r q) \<Longrightarrow> recs_from evs cur (lww_put i q v s)"
  by (auto simp: recs_from_def lww_put_records split: if_splits)

lemma recs_from_see [simp]: "recs_from evs cur (see q s) = recs_from evs cur s"
  by (simp add: recs_from_def)

lemma recs_from_buffered [simp]: "recs_from evs cur (s\<lparr>ss_buffered := b\<rparr>) = recs_from evs cur s"
  by (simp add: recs_from_def)

lemma src_wf_buffered [simp]: "src_wf (s\<lparr>ss_buffered := b\<rparr>) = src_wf s"
  by (simp add: src_wf_def)

lemma applyCurrent_inv:
  assumes "src_wf s" and "applyCurrent s m = Inr (s', d)"
  shows "src_wf s' \<and> ss_incarnation s' = ss_incarnation s \<and> ss_buffered s' = ss_buffered s \<and> ss_coverage s' = ss_coverage s
    \<and> (recs_from evs (mu_inc m) s \<longrightarrow> EvMutation m \<in> set evs \<longrightarrow> recs_from evs (mu_inc m) s')"
  using assms(1)
proof (cases rule: applyCurrent_cases [of s m])
  case put
  with assms show ?thesis by (auto simp: lww_put_wf came_from_def intro!: recs_from_put)
qed (use assms in auto)

text \<open>What the replay loop keeps, and which records it may add.\<close>

lemma replay_loop_inv:
  assumes "replay_loop cur ms s = Inr s'" and "src_wf s" and "ss_incarnation s = Some cur"
    and "recs_from evs cur s" and "\<forall>m \<in> set ms. EvMutation m \<in> set evs"
    and "\<forall>m \<in> set (ss_buffered s). EvMutation m \<in> set evs \<and> ahead cur m"
  shows "src_wf s' \<and> ss_incarnation s' = Some cur \<and> recs_from evs cur s' \<and> ss_coverage s' = ss_coverage s
    \<and> (\<forall>m \<in> set (ss_buffered s'). EvMutation m \<in> set evs \<and> ahead cur m)"
  using assms
proof (induction ms arbitrary: s)
  case (Cons m ms)
  consider (old) "inc_generation (mu_inc m) < inc_generation cur" | (ahead) "ahead cur m" | (now) "mu_inc m = cur"
    unfolding ahead_def by fastforce
  then show ?case
  proof cases
    case old
    then have "replay_loop cur ms s = Inr s'"
      using Cons.prems(1) by (simp add: causal_simps compareIncarnation_def)
    from Cons.IH [OF this Cons.prems(2-4) _ Cons.prems(6)] Cons.prems(5) show ?thesis by simp
  next
    case ahead
    then have "\<not> inc_generation (mu_inc m) < inc_generation cur" "mu_inc m \<noteq> cur" by (auto simp: ahead_def)
    then have "replay_loop cur ms (s\<lparr>ss_buffered := ss_buffered s @ [m]\<rparr>) = Inr s'"
      using Cons.prems(1) by (simp add: causal_simps compareIncarnation_def)
    from Cons.IH [OF this] Cons.prems(2-6) ahead show ?thesis by auto
  next
    case now
    with Cons.prems(1) obtain s1 d where a: "applyCurrent s m = Inr (s1, d)" "replay_loop cur ms s1 = Inr s'"
      by (auto simp: causal_simps compareIncarnation_def split: sum.splits)
    note i = applyCurrent_inv [OF Cons.prems(2) a(1), of evs]
    from Cons.IH [OF a(2)] i Cons.prems(2-6) now show ?thesis by auto
  qed
qed simp

lemma replayBuffered_inv:
  assumes "replayBuffered s = Inr s'" and "src_wf s" and "ss_incarnation s = Some cur" and "recs_from evs cur s"
    and "\<forall>m \<in> set (ss_buffered s). EvMutation m \<in> set evs"
  shows "src_inv evs s'" and "ss_incarnation s' = Some cur" and "ss_coverage s' = ss_coverage s"
proof -
  have "src_wf s' \<and> ss_incarnation s' = Some cur \<and> recs_from evs cur s' \<and> ss_coverage s' = ss_coverage s
    \<and> (\<forall>m \<in> set (ss_buffered s'). EvMutation m \<in> set evs \<and> ahead cur m)"
  proof (cases "ss_buffered s = []")
    case True
    with assms show ?thesis by (simp add: replayBuffered_def)
  next
    case False
    with assms(1,3) have "replay_loop cur (ss_buffered s) (s\<lparr>ss_buffered := []\<rparr>) = Inr s'"
      by (simp add: replayBuffered_def)
    from replay_loop_inv [OF this] assms show ?thesis by simp
  qed
  then show "src_inv evs s'" "ss_incarnation s' = Some cur" "ss_coverage s' = ss_coverage s"
    by (simp_all add: src_inv_def)
qed

section \<open>Snapshots\<close>

lemma fold_inv: "P s \<Longrightarrow> (\<And>x s. x \<in> set xs \<Longrightarrow> P s \<Longrightarrow> P (f x s)) \<Longrightarrow> P (fold f xs s)"
  by (induction xs arbitrary: s) auto

definition snap_keeps :: "'a source_state \<Rightarrow> 'a source_state \<Rightarrow> bool" where
  "snap_keeps s s' \<longleftrightarrow> src_wf s' \<and> ss_incarnation s' = ss_incarnation s \<and> ss_buffered s' = ss_buffered s
     \<and> ss_coverage s' = ss_coverage s"

lemma tombstones_keep: "src_wf s \<Longrightarrow> snap_keeps s (applySnapshotTombstones ts s)"
  unfolding applySnapshotTombstones_def
  by (rule fold_inv [where P = "snap_keeps s"]) (auto simp: snap_keeps_def snapshot_tombstone_put lww_put_wf)

lemma rows_keep: "src_wf s \<Longrightarrow> snap_keeps s (applySnapshotRows rows s)"
  unfolding applySnapshotRows_def
  by (rule fold_inv [where P = "snap_keeps s"]) (auto simp: snap_keeps_def snapshot_row_put lww_put_wf)

lemma tombstones_from: "src_wf s \<Longrightarrow> recs_from evs cur s \<Longrightarrow> recs_from evs cur (applySnapshotTombstones ts s)"
  unfolding applySnapshotTombstones_def
  by (rule conjunct2 [OF fold_inv [where P = "\<lambda>s. src_wf s \<and> recs_from evs cur s"]])
    (auto simp: snapshot_tombstone_put lww_put_wf intro!: recs_from_put)

lemma rows_from:
  assumes "src_wf s" and "recs_from evs cur s" and "EvSnapshot snap \<in> set evs" and "sn_incarnation snap = cur"
  shows "recs_from evs cur (applySnapshotRows (sn_records snap) s)"
  unfolding applySnapshotRows_def
proof (rule conjunct2 [OF fold_inv [where P = "\<lambda>s. src_wf s \<and> recs_from evs cur s"]])
  fix row and t :: "'a source_state"
  assume "row \<in> set (sn_records snap)" and t: "src_wf t \<and> recs_from evs cur t"
  then have "came_from evs cur (sr_recordId row) (sr_record row) (rev_seq (sr_revision row))"
    using assms(3,4) unfolding came_from_def by blast
  with t show "src_wf (snapshot_row row t) \<and> recs_from evs cur (snapshot_row row t)"
    by (auto simp: snapshot_row_put lww_put_wf intro!: recs_from_put)
qed (use assms in simp)

definition merged :: "'a source_state \<Rightarrow> 'a snapshot \<Rightarrow> 'a source_state" where
  "merged base snap = applySnapshotRows (sn_records snap) (applySnapshotTombstones (sn_tombstones snap) base)"

lemma merged_keep: "src_wf s \<Longrightarrow> snap_keeps s (merged s snap)"
  using tombstones_keep [of s "sn_tombstones snap"]
    rows_keep [of "applySnapshotTombstones (sn_tombstones snap) s" "sn_records snap"]
  by (simp add: merged_def snap_keeps_def)

lemma install_get:
  assumes "src_wf s"
  shows "js_get (ss_records (installSnapshot s snap)) i =
    (case js_get (ss_records (merged s snap)) i of
       None \<Rightarrow> None
     | Some h \<Rightarrow> if i \<in> sr_recordId ` set (sn_records snap) \<or> sn_watermark snap < snd h then Some h else None)"
  using merged_keep [OF assms, of snap]
  by (auto simp: installSnapshot_def Let_def js_get_filter snap_keeps_def src_wf_def causal_simps not_le
      simp flip: merged_def split: option.split)

lemma install_inv:
  assumes "src_wf s"
  shows "src_wf (installSnapshot s snap)" and "ss_incarnation (installSnapshot s snap) = ss_incarnation s"
    and "ss_buffered (installSnapshot s snap) = ss_buffered s"
    and "ss_coverage (installSnapshot s snap) = max (ss_coverage s) (sn_watermark snap)"
  using merged_keep [OF assms, of snap]
  by (auto simp: installSnapshot_def Let_def snap_keeps_def src_wf_def causal_simps distinct_filter_keys
      simp flip: merged_def)

lemma install_from:
  assumes "src_wf s" and "recs_from evs cur s" and "EvSnapshot snap \<in> set evs" and "sn_incarnation snap = cur"
  shows "recs_from evs cur (installSnapshot s snap)"
proof -
  have "recs_from evs cur (merged s snap)" unfolding merged_def
    using rows_from [OF _ tombstones_from [OF assms(1,2)] assms(3,4)] tombstones_keep [OF assms(1)]
    by (simp add: snap_keeps_def)
  then show ?thesis
    by (auto simp: recs_from_def install_get [OF assms(1)] split: option.splits if_splits)
qed

lemma install_and_replay_inv:
  assumes "install_and_replay base snap = Inr (s', acc)" and "src_wf base" and "ss_incarnation base = Some (sn_incarnation snap)"
    and "recs_from evs (sn_incarnation snap) base" and "\<forall>m \<in> set (ss_buffered base). EvMutation m \<in> set evs"
    and "EvSnapshot snap \<in> set evs"
  shows "acc \<and> src_inv evs s' \<and> ss_incarnation s' = Some (sn_incarnation snap)
    \<and> ss_coverage s' = max (ss_coverage base) (sn_watermark snap)"
proof -
  from assms(1) have r: "replayBuffered (installSnapshot base snap) = Inr s'" and "acc"
    by (auto simp: install_and_replay_def split: sum.splits)
  note i = install_inv [OF assms(2), of snap] install_from [OF assms(2,4,6) refl]
  from replayBuffered_inv [OF r i(1) _ i(5)] i assms(3,5) \<open>acc\<close> show ?thesis by simp
qed

lemma empty_state [simp]:
  "src_wf (emptySourceState\<lparr>ss_buffered := b, ss_maxEventSeen := n, ss_incarnation := x\<rparr>)"
  "src_wf (emptySourceState\<lparr>ss_incarnation := x, ss_buffered := b\<rparr>)"
  "recs_from evs cur (emptySourceState\<lparr>ss_buffered := b, ss_maxEventSeen := n, ss_incarnation := x\<rparr>)"
  "recs_from evs cur (emptySourceState\<lparr>ss_incarnation := x, ss_buffered := b\<rparr>)"
  "src_wf (emptySourceState\<lparr>ss_incarnation := x\<rparr>)" "recs_from evs cur (emptySourceState\<lparr>ss_incarnation := x\<rparr>)"
  by (simp_all add: src_wf_def emptySourceState_def recs_from_def)

section \<open>Every event keeps the invariant\<close>

definition advances :: "'a source_state \<Rightarrow> 'a source_state \<Rightarrow> bool" where
  "advances s s' \<longleftrightarrow> (\<forall>c. ss_incarnation s = Some c \<longrightarrow>
     (\<exists>c'. ss_incarnation s' = Some c' \<and> (c' = c \<or> inc_generation c < inc_generation c')))"

lemma advances_refl [simp]: "ss_incarnation s' = ss_incarnation s \<Longrightarrow> advances s s'"
  by (simp add: advances_def)

lemma advances_trans: "advances s t \<Longrightarrow> advances t u \<Longrightarrow> advances s u"
  unfolding advances_def by (metis order_less_trans)

lemma src_inv_see [simp]: "src_inv evs (see q s) = src_inv evs s"
  by (simp add: src_inv_def split: option.split)

lemma src_inv_hold:
  "src_inv evs s \<Longrightarrow> EvMutation m \<in> set evs \<Longrightarrow> (\<forall>cur. ss_incarnation s = Some cur \<longrightarrow> ahead cur m) \<Longrightarrow> src_inv evs (hold m s)"
  by (auto simp: src_inv_def hold_def split: option.split)

lemma mutation_step_inv:
  assumes "src_inv evs s" and "EvMutation m \<in> set evs"
  shows "src_inv evs (src_step s (EvMutation m)) \<and> advances s (src_step s (EvMutation m))"
proof (cases "ss_incarnation s")
  case None
  with assms show ?thesis by (simp add: applyMutation_def src_inv_hold) (simp add: hold_def)
next
  case (Some cur)
  consider (old) "inc_generation (mu_inc m) < inc_generation cur" | (ahead) "ahead cur m" | (now) "mu_inc m = cur"
    unfolding ahead_def by fastforce
  then show ?thesis
  proof cases
    case old
    with Some assms show ?thesis by (simp add: applyMutation_def causal_simps compareIncarnation_def)
  next
    case ahead
    then have "applyMutation s m = Inr (hold m s, Buffered)"
      using Some by (auto simp: applyMutation_def causal_simps compareIncarnation_def ahead_def)
    with Some ahead assms show ?thesis by (simp add: src_inv_hold) (simp add: hold_def)
  next
    case now
    show ?thesis
    proof (cases "applyCurrent s m")
      case (Inl e)
      with Some now assms show ?thesis by (simp add: applyMutation_current)
    next
      case (Inr p)
      obtain s' d where p: "applyCurrent s m = Inr (s', d)" using Inr by (cases p) auto
      from assms have "src_wf s" by (simp add: src_inv_def)
      from applyCurrent_inv [OF this p, of evs] Some now assms p show ?thesis
        by (simp add: applyMutation_current src_inv_def)
    qed
  qed
qed

lemma applySnapshot_some:
  "ss_incarnation s = Some cur \<Longrightarrow> applySnapshot s snap =
     (if inc_generation (sn_incarnation snap) < inc_generation cur then Inr (s, False)
      else if inc_generation cur < inc_generation (sn_incarnation snap)
      then install_and_replay (emptySourceState\<lparr>ss_incarnation := Some (sn_incarnation snap), ss_buffered := ss_buffered s\<rparr>) snap
      else if sn_incarnation snap \<noteq> cur \<or> sn_watermark snap < ss_coverage s then Inr (s, False)
      else install_and_replay (s\<lparr>ss_incarnation := Some (sn_incarnation snap)\<rparr>) snap)"
  by (simp add: applySnapshot_def causal_simps compareIncarnation_def)

lemma applySnapshot_accepted:
  assumes "src_wf s" and "applySnapshot s snap = Inr (s', True)"
  shows "\<exists>base. install_and_replay base snap = Inr (s', True) \<and> src_wf base
    \<and> (ss_incarnation s = Some (sn_incarnation snap) \<longrightarrow> base = s)"
proof (cases "ss_incarnation s")
  case None
  with assms(2) show ?thesis
    by (intro exI [of _ "emptySourceState\<lparr>ss_buffered := ss_buffered s, ss_maxEventSeen := ss_maxEventSeen s,
          ss_incarnation := Some (sn_incarnation snap)\<rparr>"]) (simp add: applySnapshot_def)
next
  case (Some cur)
  show ?thesis
  proof (cases "inc_generation cur < inc_generation (sn_incarnation snap)")
    case True
    with assms(2) Some show ?thesis
      by (intro exI [of _ "emptySourceState\<lparr>ss_incarnation := Some (sn_incarnation snap), ss_buffered := ss_buffered s\<rparr>"])
        (auto simp: applySnapshot_some [OF Some])
  next
    case False
    with assms(2) have "cur = sn_incarnation snap"
        "install_and_replay (s\<lparr>ss_incarnation := Some (sn_incarnation snap)\<rparr>) snap = Inr (s', True)"
      by (simp_all add: applySnapshot_some [OF Some] split: if_splits)
    moreover from this Some have "s\<lparr>ss_incarnation := Some (sn_incarnation snap)\<rparr> = s" by simp
    ultimately show ?thesis using assms(1) by auto
  qed
qed

lemma applySnapshot_inv:
  assumes "src_inv evs s" and "EvSnapshot snap \<in> set evs" and "applySnapshot s snap = Inr (s', acc)"
  shows "src_inv evs s' \<and> advances s s' \<and>
    (acc \<longrightarrow> ss_incarnation s' = Some (sn_incarnation snap) \<and> sn_watermark snap \<le> ss_coverage s')"
proof -
  have b: "\<forall>m \<in> set (ss_buffered s). EvMutation m \<in> set evs" and wf: "src_wf s" using assms(1) by (auto simp: src_inv_def)
  show ?thesis
  proof (cases "ss_incarnation s")
    case None
    with assms(3) have r: "install_and_replay (emptySourceState\<lparr>ss_buffered := ss_buffered s,
        ss_maxEventSeen := ss_maxEventSeen s, ss_incarnation := Some (sn_incarnation snap)\<rparr>) snap = Inr (s', acc)"
      by (simp add: applySnapshot_def)
    from install_and_replay_inv [OF r _ _ _ _ assms(2)] b None show ?thesis by (auto simp: advances_def)
  next
    case (Some cur)
    consider (refused) "s' = s" "\<not> acc"
      | (newer) "inc_generation cur < inc_generation (sn_incarnation snap)"
          "install_and_replay (emptySourceState\<lparr>ss_incarnation := Some (sn_incarnation snap), ss_buffered := ss_buffered s\<rparr>) snap
             = Inr (s', acc)"
      | (same) "sn_incarnation snap = cur" "install_and_replay (s\<lparr>ss_incarnation := Some (sn_incarnation snap)\<rparr>) snap = Inr (s', acc)"
      using assms(3) unfolding applySnapshot_some [OF Some] by (simp split: if_splits)
    then show ?thesis
    proof cases
      case refused
      with assms(1) show ?thesis by simp
    next
      case newer
      from install_and_replay_inv [OF newer(2) _ _ _ _ assms(2)] b Some newer(1) show ?thesis by (auto simp: advances_def)
    next
      case same
      have "s\<lparr>ss_incarnation := Some (sn_incarnation snap)\<rparr> = s" using Some same(1) by simp
      from install_and_replay_inv [OF same(2) [unfolded this] wf _ _ b assms(2)] assms(1) Some same(1) show ?thesis
        by (auto simp: src_inv_def advances_def)
    qed
  qed
qed

lemma resetScope_inv:
  assumes "src_inv evs s" and "resetScope s inc = Inr s'"
  shows "src_inv evs s' \<and> advances s s'"
proof (cases "case ss_incarnation s of None \<Rightarrow> False | Some cur \<Rightarrow> compareIncarnation inc cur \<le> 0")
  case True
  with assms show ?thesis by (simp add: resetScope_def)
next
  case False
  with assms(2) have r: "replayBuffered (emptySourceState\<lparr>ss_incarnation := Some inc, ss_buffered := ss_buffered s\<rparr>) = Inr s'"
    by (simp add: resetScope_def)
  have "\<forall>m \<in> set (ss_buffered s). EvMutation m \<in> set evs" using assms(1) by (simp add: src_inv_def)
  with replayBuffered_inv [OF r, of inc evs] False show ?thesis
    by (auto simp: advances_def compareIncarnation_def causal_simps)
qed

lemma src_step_inv:
  "src_inv evs s \<Longrightarrow> ev \<in> set evs \<Longrightarrow> src_inv evs (src_step s ev) \<and> advances s (src_step s ev)"
proof (cases ev)
  case (EvSnapshot snap)
  assume "src_inv evs s" "ev \<in> set evs"
  with EvSnapshot show ?thesis by (auto split: sum.split dest: applySnapshot_inv)
next
  case (EvReset inc)
  assume "src_inv evs s"
  with EvReset show ?thesis by (auto split: sum.split dest: resetScope_inv)
qed (use mutation_step_inv in blast)

lemma came_from_mono: "came_from evs cur i p q \<Longrightarrow> set evs \<subseteq> set evs' \<Longrightarrow> came_from evs' cur i p q"
  unfolding came_from_def by blast

lemma src_inv_mono:
  assumes "src_inv evs s" and "set evs \<subseteq> set evs'"
  shows "src_inv evs' s"
proof -
  have "recs_from evs cur s \<Longrightarrow> recs_from evs' cur s" for cur
    unfolding recs_from_def using came_from_mono [OF _ assms(2)] by blast
  with assms show ?thesis unfolding src_inv_def by (auto split: option.splits)
qed

lemma src_run_snoc: "src_run (evs @ [ev]) = src_step (src_run evs) ev"
  by (simp add: src_run_def)

lemma src_run_inv: "src_inv evs (src_run evs)"
proof (induction evs rule: rev_induct)
  case Nil
  show ?case by (simp add: src_run_def src_inv_def emptySourceState_def src_wf_def)
next
  case (snoc ev evs)
  have "src_inv (evs @ [ev]) (src_run evs)" by (rule src_inv_mono [OF snoc]) auto
  then show ?case using src_step_inv [of "evs @ [ev]" _ ev] by (simp add: src_run_snoc)
qed

lemma src_run_advances: "advances (src_run evs) (src_run (evs @ later))"
proof (induction later rule: rev_induct)
  case (snoc ev later)
  have "src_inv (evs @ later @ [ev]) (src_run (evs @ later))"
    by (rule src_inv_mono [OF src_run_inv]) auto
  then have "advances (src_run (evs @ later)) (src_step (src_run (evs @ later)) ev)"
    using src_step_inv [of _ _ ev] by auto
  with snoc show ?case using advances_trans src_run_snoc [of "evs @ later" ev] by (metis append_assoc)
qed simp

section \<open>What a snapshot adds and keeps\<close>

lemma replay_loop_records:
  assumes "replay_loop cur ms s = Inr s'" and "src_wf s" and "js_get (ss_records s') i = Some (p, q)"
  shows "js_get (ss_records s) i = Some (p, q) \<or> ss_coverage s < q"
  using assms(1,2)
proof (induction ms arbitrary: s)
  case Nil
  with assms(3) show ?case by simp
next
  case (Cons m ms)
  from Cons.prems(1) consider (old) "replay_loop cur ms s = Inr s'" | (ahead) "replay_loop cur ms (s\<lparr>ss_buffered := ss_buffered s @ [m]\<rparr>) = Inr s'"
    | (now) s1 d where "applyCurrent s m = Inr (s1, d)" "replay_loop cur ms s1 = Inr s'"
    by (auto simp: Let_def split: if_splits sum.splits)
  then show ?case
  proof cases
    case old
    from Cons.IH [OF old Cons.prems(2)] show ?thesis .
  next
    case ahead
    from Cons.IH [OF ahead] Cons.prems(2) show ?thesis by simp
  next
    case now
    from Cons.prems(2) show ?thesis
    proof (cases rule: applyCurrent_cases [of s m])
      case put
      with now Cons.IH [OF now(2)] Cons.prems(2) show ?thesis
        by (auto simp: lww_put_wf lww_put_records split: if_splits)
    next
      case (skip d)
      with now Cons.IH [OF now(2)] Cons.prems(2) show ?thesis by auto
    qed (use now in auto)
  qed
qed

lemma replayBuffered_records:
  assumes "replayBuffered s = Inr s'" and "src_wf s" and "js_get (ss_records s') i = Some (p, q)"
  shows "js_get (ss_records s) i = Some (p, q) \<or> ss_coverage s < q"
  using assms replay_loop_records [of _ "ss_buffered s" "s\<lparr>ss_buffered := []\<rparr>" s' i p q]
  by (auto simp: replayBuffered_def split: option.splits if_splits)

lemma replay_loop_ahead:
  "\<forall>m \<in> set ms. ahead cur m \<Longrightarrow> replay_loop cur ms s = Inr (s\<lparr>ss_buffered := ss_buffered s @ ms\<rparr>)"
proof (induction ms arbitrary: s)
  case (Cons m ms)
  then have "\<not> inc_generation (mu_inc m) < inc_generation cur" "mu_inc m \<noteq> cur" by (auto simp: ahead_def)
  with Cons show ?case by (auto simp: causal_simps compareIncarnation_def)
qed simp

lemma replayBuffered_ahead:
  "ss_incarnation s = Some cur \<Longrightarrow> \<forall>m \<in> set (ss_buffered s). ahead cur m \<Longrightarrow> replayBuffered s = Inr s"
  by (simp add: replayBuffered_def replay_loop_ahead)

lemma merged_survives:
  assumes "src_wf s" and "js_get (ss_records s) i = Some (p, q)" and "w < q"
    and "\<forall>t \<in> set (sn_tombstones snap). rev_seq (tb_revision t) \<le> w"
    and "\<forall>r \<in> set (sn_records snap). rev_seq (sr_revision r) \<le> w"
  shows "js_get (ss_records (merged s snap)) i = Some (p, q)"
proof -
  let ?P = "\<lambda>s. src_wf s \<and> js_get (ss_records s) i = Some (p, q)"
  have "?P (applySnapshotTombstones (sn_tombstones snap) s)" unfolding applySnapshotTombstones_def
  proof (rule fold_inv [where P = ?P])
    fix t and s :: "'a source_state"
    assume "t \<in> set (sn_tombstones snap)" and s: "?P s"
    with assms(3,4) have "rev_seq (tb_revision t) < q" by fastforce
    with s show "?P (snapshot_tombstone t s)"
      by (cases "tb_recordId t = i") (auto simp: snapshot_tombstone_put lww_put_wf lww_put_records view_def)
  qed (use assms in simp)
  then have "?P (merged s snap)" unfolding merged_def applySnapshotRows_def
  proof (rule fold_inv [where P = ?P])
    fix r and s :: "'a source_state"
    assume "r \<in> set (sn_records snap)" and s: "?P s"
    with assms(3,5) have "rev_seq (sr_revision r) < q" by fastforce
    with s show "?P (snapshot_row r s)"
      by (cases "sr_recordId r = i") (auto simp: snapshot_row_put lww_put_wf lww_put_records newer_def view_def)
  qed
  then show ?thesis by simp
qed

section \<open>Scope keys\<close>

lemma int_dec_nonneg: "0 \<le> c \<Longrightarrow> int_dec c = nat_dec (nat c)"
  by (simp add: int_dec_def)

lemma scope_key_shape:
  assumes "activityScopeKey a = Inr k"
  obtains c where "chainId a = Integral c" "0 \<le> c"
    "k = CHR ''['' # json_string (profileId a) @ CHR '','' # json_string (networkId a) @ CHR '','' # nat_dec (nat c)
       @ CHR '','' # json_string (canonicalizeAddress (accountAddress a)) @ CHR '']'' # []"
  using assms
  by (auto simp: activityScopeKey_def Let_def json_array_def int_dec_nonneg split: if_splits js_number.splits)

lemma scope_key_inj:
  assumes "activityScopeKey a = Inr k" and "activityScopeKey b = Inr k"
  shows "profileId a = profileId b \<and> networkId a = networkId b \<and> chainId a = chainId b
    \<and> canonicalizeAddress (accountAddress a) = canonicalizeAddress (accountAddress b)"
proof -
  from scope_key_shape [OF assms(1)] obtain c where c: "chainId a = Integral c" "0 \<le> c"
    "k = CHR ''['' # json_string (profileId a) @ CHR '','' # json_string (networkId a) @ CHR '','' # nat_dec (nat c)
       @ CHR '','' # json_string (canonicalizeAddress (accountAddress a)) @ CHR '']'' # []" .
  from scope_key_shape [OF assms(2)] obtain d where d: "chainId b = Integral d" "0 \<le> d"
    "k = CHR ''['' # json_string (profileId b) @ CHR '','' # json_string (networkId b) @ CHR '','' # nat_dec (nat d)
       @ CHR '','' # json_string (canonicalizeAddress (accountAddress b)) @ CHR '']'' # []" .
  from c(3) d(3) have "profileId a = profileId b \<and>
      CHR '','' # json_string (networkId a) @ CHR '','' # nat_dec (nat c)
       @ CHR '','' # json_string (canonicalizeAddress (accountAddress a)) @ CHR '']'' # []
    = CHR '','' # json_string (networkId b) @ CHR '','' # nat_dec (nat d)
       @ CHR '','' # json_string (canonicalizeAddress (accountAddress b)) @ CHR '']'' # []"
    by (intro json_string_append_inj) simp
  then have p: "profileId a = profileId b" and
    "networkId a = networkId b \<and> CHR '','' # nat_dec (nat c)
       @ CHR '','' # json_string (canonicalizeAddress (accountAddress a)) @ CHR '']'' # []
    = CHR '','' # nat_dec (nat d)
       @ CHR '','' # json_string (canonicalizeAddress (accountAddress b)) @ CHR '']'' # []"
    by (simp, intro json_string_append_inj) simp
  then have n: "networkId a = networkId b" and
    "nat c = nat d \<and> json_string (canonicalizeAddress (accountAddress a)) @ CHR '']'' # []
       = json_string (canonicalizeAddress (accountAddress b)) @ CHR '']'' # []"
    by (simp, intro nat_dec_append_inj [where c = "CHR '',''"]) (auto simp: code_of_def)
  then have "nat c = nat d" "canonicalizeAddress (accountAddress a) = canonicalizeAddress (accountAddress b)"
    using json_string_append_inj by blast+
  with p n c d show ?thesis by simp
qed

lemma scope_key_cong:
  assumes "profileId a = profileId b" "networkId a = networkId b" "chainId a = chainId b"
    "canonicalizeAddress (accountAddress a) = canonicalizeAddress (accountAddress b)"
  shows "activityScopeKey a = activityScopeKey b"
  by (simp only: activityScopeKey_def assms)

section \<open>Properties\<close>

text \<open>
  C21: deliveries within one incarnation converge. Once an incarnation is live, two delivery sequences
  of the same mutations (in any order, with any duplication) leave the same view of every record,
  provided no two different mutations of a record carry the same sequence number.
\<close>

theorem causal_convergence:
  assumes "ss_incarnation (src_run evs) = Some inc" and "\<forall>m \<in> set ms. mu_inc m = inc \<and> wf_mutation m"
    and "set ms = set ms'"
    and "\<forall>m \<in> set ms. \<forall>m' \<in> set ms. mu_recordId m = mu_recordId m' \<and> mu_seq m = mu_seq m' \<longrightarrow> content m = content m'"
  shows "view (src_run (evs @ map EvMutation ms)) i = view (src_run (evs @ map EvMutation ms')) i"
proof -
  have "src_wf (src_run evs)" using src_run_inv [of evs] by (simp add: src_inv_def)
  with assms(1) have ok: "ss_incarnation (src_run evs) = Some inc \<and> src_wf (src_run evs)" by simp
  have run: "src_run (evs @ map EvMutation xs) = foldl (\<lambda>s m. src_step s (EvMutation m)) (src_run evs) xs" for xs
    by (simp add: src_run_def foldl_map)
  from live.convergence [OF ok assms(2,3,4), of i] show ?thesis by (simp only: run)
qed

definition demo_mut :: "string \<Rightarrow> nat \<Rightarrow> nat \<Rightarrow> nat option \<Rightarrow> nat mutation" where
  "demo_mut i g q r = \<lparr>mu_source = JournalSource,
     mu_scope = \<lparr>profileId = ''p'', networkId = ''n'', chainId = Integral 1, accountAddress = ''a''\<rparr>, mu_recordId = i,
     mu_revision = \<lparr>rev_incarnation = \<lparr>inc_generation = g, inc_nonce = ''x''\<rparr>, rev_seq = q\<rparr>,
     mu_kind = (case r of None \<Rightarrow> Remove | Some _ \<Rightarrow> Upsert), mu_record = r\<rparr>"

definition demo_snap :: "nat \<Rightarrow> nat \<Rightarrow> nat snapshot" where
  "demo_snap g w = \<lparr>sn_source = JournalSource,
     sn_scope = \<lparr>profileId = ''p'', networkId = ''n'', chainId = Integral 1, accountAddress = ''a''\<rparr>,
     sn_incarnation = \<lparr>inc_generation = g, inc_nonce = ''x''\<rparr>, sn_watermark = w,
     sn_records = [\<lparr>sr_recordId = ''s'', sr_revision = \<lparr>rev_incarnation = \<lparr>inc_generation = g, inc_nonce = ''x''\<rparr>,
       rev_seq = w\<rparr>, sr_record = 7\<rparr>], sn_tombstones = []\<rparr>"

theorem causal_convergence_witness:
  "view (src_run ([EvSnapshot (demo_snap 1 3)] @ map EvMutation [demo_mut ''r'' 1 5 (Some 10), demo_mut ''r'' 1 6 None])) ''r''
   = view (src_run ([EvSnapshot (demo_snap 1 3)] @ map EvMutation
       [demo_mut ''r'' 1 6 None, demo_mut ''r'' 1 5 (Some 10), demo_mut ''r'' 1 6 None])) ''r''
   \<and> view (src_run ([EvSnapshot (demo_snap 1 3)] @ map EvMutation
       [demo_mut ''r'' 1 6 None, demo_mut ''r'' 1 5 (Some 10), demo_mut ''r'' 1 6 None])) ''r'' = Some (6, None)"
proof -
  let ?inc = "\<lparr>inc_generation = 1, inc_nonce = ''x''\<rparr>"
  have i: "ss_incarnation (src_run [EvSnapshot (demo_snap 1 3)]) = Some ?inc" by code_simp
  have m: "\<forall>m \<in> set [demo_mut ''r'' 1 5 (Some 10), demo_mut ''r'' 1 6 None]. mu_inc m = ?inc \<and> wf_mutation m"
    by (simp add: demo_mut_def wf_mutation_def)
  have e: "set [demo_mut ''r'' 1 5 (Some 10), demo_mut ''r'' 1 6 None] =
    set [demo_mut ''r'' 1 6 None, demo_mut ''r'' 1 5 (Some 10), demo_mut ''r'' 1 6 None]" by auto
  have v: "view (src_run ([EvSnapshot (demo_snap 1 3)] @ map EvMutation
       [demo_mut ''r'' 1 6 None, demo_mut ''r'' 1 5 (Some 10), demo_mut ''r'' 1 6 None])) ''r'' = Some (6, None)"
    by code_simp
  have c: "\<forall>m \<in> set [demo_mut ''r'' 1 5 (Some 10), demo_mut ''r'' 1 6 None].
      \<forall>m' \<in> set [demo_mut ''r'' 1 5 (Some 10), demo_mut ''r'' 1 6 None].
        mu_recordId m = mu_recordId m' \<and> mu_seq m = mu_seq m' \<longrightarrow> content m = content m'"
    by (simp add: demo_mut_def content_def)
  from causal_convergence [OF i m e c, of "''r''"] v show ?thesis by blast
qed

text \<open>
  A retired incarnation never lands. Over any run of mutations, snapshots and resets the live
  incarnation only moves to a strictly newer generation, and every visible record was written by a
  mutation or a snapshot of the incarnation that is live at the end.
\<close>

theorem incarnation_isolation:
  assumes "ss_incarnation (src_run evs) = Some c"
  shows "\<exists>c'. ss_incarnation (src_run (evs @ later)) = Some c' \<and> (c' = c \<or> inc_generation c < inc_generation c')
    \<and> (\<forall>i p q. js_get (ss_records (src_run (evs @ later))) i = Some (p, q) \<longrightarrow> came_from (evs @ later) c' i p q)"
proof -
  from src_run_advances [of evs later] assms obtain c' where
    c: "ss_incarnation (src_run (evs @ later)) = Some c'" "c' = c \<or> inc_generation c < inc_generation c'"
    by (auto simp: advances_def)
  with src_run_inv [of "evs @ later"] show ?thesis by (simp add: src_inv_def recs_from_def)
qed

theorem incarnation_isolation_witness:
  "ss_incarnation (src_run [EvSnapshot (demo_snap 1 3)]) = Some \<lparr>inc_generation = 1, inc_nonce = ''x''\<rparr>
   \<and> (\<exists>c'. ss_incarnation (src_run ([EvSnapshot (demo_snap 1 3)] @ [EvReset \<lparr>inc_generation = 2, inc_nonce = ''y''\<rparr>,
          EvMutation (demo_mut ''r'' 1 9 (Some 4))])) = Some c'
        \<and> (c' = \<lparr>inc_generation = 1, inc_nonce = ''x''\<rparr> \<or> 1 < inc_generation c'))"
proof -
  have i: "ss_incarnation (src_run [EvSnapshot (demo_snap 1 3)]) = Some \<lparr>inc_generation = 1, inc_nonce = ''x''\<rparr>"
    by code_simp
  from i incarnation_isolation [OF i, of "[EvReset \<lparr>inc_generation = 2, inc_nonce = ''y''\<rparr>,
      EvMutation (demo_mut ''r'' 1 9 (Some 4))]"] show ?thesis by auto
qed

text \<open>
  A snapshot is authority exactly up to its watermark. After an accepted snapshot the state is on
  the snapshot's incarnation and covers its watermark; a visible record at or below the watermark is
  one the snapshot lists; a record already held above the watermark of a snapshot of the same
  incarnation survives unchanged; and a later mutation of that incarnation at or below the watermark
  is reported as covered and changes no record.
\<close>

theorem snapshot_authority:
  assumes "applySnapshot (src_run evs) snap = Inr (s', True)"
  shows "ss_incarnation s' = Some (sn_incarnation snap) \<and> sn_watermark snap \<le> ss_coverage s'
    \<and> (js_get (ss_records s') i = Some (p, q) \<and> q \<le> sn_watermark snap \<longrightarrow> i \<in> sr_recordId ` set (sn_records snap))
    \<and> (ss_incarnation (src_run evs) = Some (sn_incarnation snap)
        \<and> (\<forall>t \<in> set (sn_tombstones snap). rev_seq (tb_revision t) \<le> sn_watermark snap)
        \<and> (\<forall>r \<in> set (sn_records snap). rev_seq (sr_revision r) \<le> sn_watermark snap)
        \<and> js_get (ss_records (src_run evs)) i = Some (p, q) \<and> sn_watermark snap < q
       \<longrightarrow> js_get (ss_records s') i = Some (p, q))
    \<and> (mu_inc m = sn_incarnation snap \<and> mu_seq m \<le> sn_watermark snap
       \<longrightarrow> applyMutation s' m = Inr (see (mu_seq m) s', Covered))"
proof -
  let ?s = "src_run evs"
  have inv: "src_inv (evs @ [EvSnapshot snap]) ?s" by (rule src_inv_mono [OF src_run_inv]) auto
  from applySnapshot_inv [OF inv _ assms] have
    c: "ss_incarnation s' = Some (sn_incarnation snap)" "sn_watermark snap \<le> ss_coverage s'" by auto
  have wf: "src_wf ?s" using inv by (simp add: src_inv_def)
  obtain base where b: "install_and_replay base snap = Inr (s', True)" "src_wf base"
    and same: "ss_incarnation ?s = Some (sn_incarnation snap) \<Longrightarrow> base = ?s"
    using applySnapshot_accepted [OF wf assms] by blast
  from b(1) have r: "replayBuffered (installSnapshot base snap) = Inr s'"
    by (auto simp: install_and_replay_def split: sum.splits)
  note ii = install_inv [OF b(2), of snap]
  have listed: "i \<in> sr_recordId ` set (sn_records snap)"
    if "js_get (ss_records s') i = Some (p, q)" "q \<le> sn_watermark snap"
    using replayBuffered_records [OF r ii(1) that(1)] that(2) ii(4)
    by (auto simp: install_get [OF b(2)] split: option.splits if_splits)
  have survives: "js_get (ss_records s') i = Some (p, q)"
    if "ss_incarnation ?s = Some (sn_incarnation snap)"
      "\<forall>t \<in> set (sn_tombstones snap). rev_seq (tb_revision t) \<le> sn_watermark snap"
      "\<forall>r \<in> set (sn_records snap). rev_seq (sr_revision r) \<le> sn_watermark snap"
      "js_get (ss_records ?s) i = Some (p, q)" "sn_watermark snap < q"
  proof -
    from same that(1) have b': "base = ?s" by simp
    have "replayBuffered (installSnapshot base snap) = Inr (installSnapshot base snap)"
      using ii(2,3) that(1) inv by (intro replayBuffered_ahead [of _ "sn_incarnation snap"]) (simp_all add: b' src_inv_def)
    with r have "s' = installSnapshot base snap" by simp
    with merged_survives [OF wf that(4,5,2,3)] that(5) show ?thesis by (simp add: b' install_get [OF wf])
  qed
  have "applyMutation s' m = Inr (see (mu_seq m) s', Covered)"
    if "mu_inc m = sn_incarnation snap" "mu_seq m \<le> sn_watermark snap"
    using that c by (simp add: applyMutation_current applyCurrent_def causal_simps)
  with c listed survives show ?thesis by blast
qed

theorem snapshot_authority_witness:
  "js_get (ss_records (src_run [EvSnapshot (demo_snap 1 3), EvMutation (demo_mut ''r'' 1 9 (Some 4))])) ''r'' = Some (4, 9)
   \<and> js_get (ss_records (src_step (src_run [EvSnapshot (demo_snap 1 3), EvMutation (demo_mut ''r'' 1 9 (Some 4))])
       (EvSnapshot (demo_snap 1 6)))) ''r'' = Some (4, 9)"
proof -
  let ?evs = "[EvSnapshot (demo_snap 1 3), EvMutation (demo_mut ''r'' 1 9 (Some 4))]"
  let ?s' = "src_step (src_run ?evs) (EvSnapshot (demo_snap 1 6))"
  have a: "applySnapshot (src_run ?evs) (demo_snap 1 6) = Inr (?s', True)" by code_simp
  have g: "js_get (ss_records (src_run ?evs)) ''r'' = Some (4, 9)" by code_simp
  have i: "ss_incarnation (src_run ?evs) = Some (sn_incarnation (demo_snap 1 6))" by code_simp
  have w: "sn_watermark (demo_snap 1 6) < 9" "sn_tombstones (demo_snap 1 6) = []"
    "\<forall>r \<in> set (sn_records (demo_snap 1 6)). rev_seq (sr_revision r) \<le> sn_watermark (demo_snap 1 6)"
    by (simp_all add: demo_snap_def)
  from snapshot_authority [OF a, of "''r''" 4 9] g i w show ?thesis by simp
qed

text \<open>
  Scope keys identify scopes. When both scopes are valid, \<^verbatim>\<open>scopesEqual\<close> holds exactly if the profile,
  network and chain agree and the addresses agree up to surrounding white space and letter case; no
  choice of identifiers, quotes, commas or control characters included, makes two scopes collide.
\<close>

theorem scope_key_identifies:
  assumes "scopesEqual a b = Inr eq"
  shows "eq \<longleftrightarrow> profileId a = profileId b \<and> networkId a = networkId b \<and> chainId a = chainId b
    \<and> canonicalizeAddress (accountAddress a) = canonicalizeAddress (accountAddress b)"
proof -
  from assms obtain ka kb where k: "activityScopeKey a = Inr ka" "activityScopeKey b = Inr kb" "eq = (ka = kb)"
    by (auto simp: scopesEqual_def split: sum.splits)
  have "eq \<longleftrightarrow> activityScopeKey a = activityScopeKey b" by (simp add: k)
  moreover have "profileId a = profileId b \<and> networkId a = networkId b \<and> chainId a = chainId b
      \<and> canonicalizeAddress (accountAddress a) = canonicalizeAddress (accountAddress b)"
    if "activityScopeKey a = activityScopeKey b"
    using that k(1) by (intro scope_key_inj [of a ka b]) simp_all
  ultimately show ?thesis using scope_key_cong [of a b] by blast
qed

theorem scope_key_identifies_witness:
  "scopesEqual \<lparr>profileId = ''p'', networkId = ''n'', chainId = Integral 1, accountAddress = '' A''\<rparr>
     \<lparr>profileId = ''p'', networkId = ''n'', chainId = Integral 1, accountAddress = ''a''\<rparr> = Inr True
   \<and> canonicalizeAddress '' A'' = canonicalizeAddress ''a''"
proof -
  have c: "js_trim ''p'' = ''p''" "js_trim ''n'' = ''n''" "canonicalizeAddress '' A'' = ''a''"
    "canonicalizeAddress ''a'' = ''a''"
    by (simp_all add: canonicalizeAddress_def js_trim_def js_ws_def js_lower_def js_lower_char_def code_of_def
        char_of_def bit_0)
  have e: "scopesEqual \<lparr>profileId = ''p'', networkId = ''n'', chainId = Integral 1, accountAddress = '' A''\<rparr>
     \<lparr>profileId = ''p'', networkId = ''n'', chainId = Integral 1, accountAddress = ''a''\<rparr> = Inr True"
    by (simp add: scopesEqual_def activityScopeKey_def c MAX_SAFE_INTEGER_def)
  from scope_key_identifies [OF e] e show ?thesis by simp
qed

end
