(* ===== verification/Entity_Storage.thy ===== *)
theory Entity_Storage
  imports Js_Text
begin

text \<open>
  Typed rows over a browser storage area: \<^verbatim>\<open>packages/wallet-core/src/storage/entity_storage.ts\<close>,
  \<^verbatim>\<open>prefixed-entries.ts\<close>, \<^verbatim>\<open>value-storage.ts\<close> and \<^verbatim>\<open>memory-storage-area.ts\<close>. The operations are modelled
  between two awaits of one caller, as functions of the whole area. The JSON value type is a
  parameter of the types; a stored text is told apart by what \<^verbatim>\<open>JSON.parse\<close> makes of it.
\<close>

section \<open>Stored values\<close>

text \<open>
  A JSON text: either exactly what \<^verbatim>\<open>JSON.stringify\<close> prints for a value, or some other text with the
  value it parses to, if any. A stored value is a string, or something else that \<^verbatim>\<open>JSON.parse\<close> coerces
  to a string first.
\<close>

datatype 'j json_text = Printed 'j | OtherText string "'j option"

datatype 'j raw = RawString "'j json_text" | RawOther "'j json_text"

type_synonym 'j area = "(string, 'j raw) jsmap"

fun text_parse :: "'j json_text \<Rightarrow> 'j option" where
  "text_parse (Printed j) = Some j"
| "text_parse (OtherText _ r) = r"

fun json_parse :: "'j raw \<Rightarrow> 'j option" where
  "json_parse (RawString t) = text_parse t"
| "json_parse (RawOther t) = text_parse t"

definition json_stringify :: "'j \<Rightarrow> 'j raw" where
  "json_stringify j = RawString (Printed j)"

section \<open>MemoryStorageArea\<close>

text \<open>The storage area's three calls; \<open>None\<close> for the keys asks for everything.\<close>

definition area_get :: "string list option \<Rightarrow> 'j area \<Rightarrow> 'j area" where
  "area_get keys a = js_pick keys a"

definition area_set :: "'j area \<Rightarrow> 'j area \<Rightarrow> 'j area" where
  "area_set items a = js_sets items a"

definition area_remove :: "string list \<Rightarrow> 'j area \<Rightarrow> 'j area" where
  "area_remove ks a = js_dels ks a"

definition starts_with :: "string \<Rightarrow> string \<Rightarrow> bool" where
  "starts_with p s = prefix p s"

definition prefixedEntries :: "'j area \<Rightarrow> string \<Rightarrow> (string \<times> string \<times> 'j raw) list" where
  "prefixedEntries a pre =
     map (\<lambda>(k, v). (k, drop (length pre) k, v)) (filter (\<lambda>(k, v). starts_with pre k) a)"

section \<open>EntityStorage\<close>

text \<open>What \<^verbatim>\<open>(entity as { id?: unknown }).id\<close> yields; reading it from \<^verbatim>\<open>null\<close> throws.\<close>

datatype embedded_id = IdString string | IdSafeInteger int | IdOther | IdNullEntity

datatype key_mode = StringKeys | NumericKeys

record 'j entity_storage =
  es_root :: string
  es_parse :: "('j \<Rightarrow> 'j option) option"
  es_requireKeyIdentityMatch :: bool
  es_keyIdentityMode :: key_mode

datatype storage_error = TypeError | JsonSyntaxError | CodecError

definition row_key :: "'j entity_storage \<Rightarrow> string \<Rightarrow> string" where
  "row_key es i = es_root es @ CHR ''@'' # i"

definition requireIdMatch ::
  "('j \<Rightarrow> embedded_id) \<Rightarrow> 'j entity_storage \<Rightarrow> string \<Rightarrow> 'j \<Rightarrow> storage_error + 'j option" where
  "requireIdMatch idof es fullKey entity =
     (if \<not> es_requireKeyIdentityMatch es then Inr (Some entity)
      else let suffix = drop (length (es_root es) + 1) fullKey
           in case idof entity of
                IdNullEntity \<Rightarrow> Inl TypeError
              | embedded \<Rightarrow>
                  (let ok = (case es_keyIdentityMode es of
                       NumericKeys \<Rightarrow> (case embedded of IdSafeInteger n \<Rightarrow> n \<ge> 1 \<and> int_dec n = suffix | _ \<Rightarrow> False)
                     | StringKeys \<Rightarrow> (case embedded of IdString s \<Rightarrow> s = suffix | _ \<Rightarrow> False))
                   in Inr (if ok then Some entity else None)))"

definition decodeRow ::
  "('j \<Rightarrow> embedded_id) \<Rightarrow> 'j entity_storage \<Rightarrow> string \<Rightarrow> 'j raw \<Rightarrow> storage_error + 'j option" where
  "decodeRow idof es fullKey r =
     (case json_parse r of
        None \<Rightarrow> Inr None
      | Some parsed \<Rightarrow>
          (case es_parse es of
             None \<Rightarrow> requireIdMatch idof es fullKey parsed
           | Some codec \<Rightarrow>
               (case codec parsed of
                  None \<Rightarrow> Inr None
                | Some validated \<Rightarrow> requireIdMatch idof es fullKey validated)))"

definition es_contains :: "'j entity_storage \<Rightarrow> 'j area \<Rightarrow> string \<Rightarrow> bool" where
  "es_contains es a i = js_has (area_get (Some [row_key es i]) a) (row_key es i)"

definition es_get ::
  "('j \<Rightarrow> embedded_id) \<Rightarrow> 'j entity_storage \<Rightarrow> 'j area \<Rightarrow> string \<Rightarrow> storage_error + 'j option" where
  "es_get idof es a i =
     (case js_get (area_get (Some [row_key es i]) a) (row_key es i) of
        None \<Rightarrow> Inr None
      | Some r \<Rightarrow> decodeRow idof es (row_key es i) r)"

definition es_set :: "'j entity_storage \<Rightarrow> string \<Rightarrow> 'j \<Rightarrow> 'j area \<Rightarrow> 'j area" where
  "es_set es i entity a = area_set [(row_key es i, json_stringify entity)] a"

definition es_delete :: "'j entity_storage \<Rightarrow> string \<Rightarrow> 'j area \<Rightarrow> 'j area" where
  "es_delete es i a = area_remove [row_key es i] a"

definition scopedRows :: "'j entity_storage \<Rightarrow> 'j area \<Rightarrow> (string \<times> string \<times> 'j raw) list" where
  "scopedRows es a = prefixedEntries (area_get None a) (es_root es @ ''@'')"

text \<open>The read loops: decode row by row, skipping the unreadable ones, an exception aborting the loop.\<close>

fun decode_rows ::
  "('j \<Rightarrow> embedded_id) \<Rightarrow> 'j entity_storage \<Rightarrow> (string \<times> string \<times> 'j raw) list \<Rightarrow> storage_error + (string \<times> 'j) list" where
  "decode_rows idof es [] = Inr []"
| "decode_rows idof es ((k, i, r) # rows) =
     (case decodeRow idof es k r of
        Inl e \<Rightarrow> Inl e
      | Inr d \<Rightarrow>
          (case decode_rows idof es rows of
             Inl e \<Rightarrow> Inl e
           | Inr out \<Rightarrow> Inr (case d of None \<Rightarrow> out | Some entity \<Rightarrow> (i, entity) # out)))"

definition es_getAll ::
  "('j \<Rightarrow> embedded_id) \<Rightarrow> 'j entity_storage \<Rightarrow> 'j area \<Rightarrow> storage_error + (string \<times> 'j) list" where
  "es_getAll idof es a = decode_rows idof es (scopedRows es a)"

definition es_getKeys :: "'j entity_storage \<Rightarrow> 'j area \<Rightarrow> string list" where
  "es_getKeys es a = map (fst \<circ> snd) (scopedRows es a)"

definition es_getValues ::
  "('j \<Rightarrow> embedded_id) \<Rightarrow> 'j entity_storage \<Rightarrow> 'j area \<Rightarrow> storage_error + 'j list" where
  "es_getValues idof es a = map_sum id (map snd) (es_getAll idof es a)"

definition es_rawEntries :: "'j entity_storage \<Rightarrow> 'j area \<Rightarrow> (string \<times> 'j) list" where
  "es_rawEntries es a =
     concat (map (\<lambda>(k, i, r). case json_parse r of None \<Rightarrow> [] | Some j \<Rightarrow> [(i, j)]) (scopedRows es a))"

definition es_rawStringEntries :: "'j entity_storage \<Rightarrow> 'j area \<Rightarrow> (string \<times> 'j json_text) list" where
  "es_rawStringEntries es a =
     concat (map (\<lambda>(k, i, r). case r of RawString t \<Rightarrow> [(i, t)] | RawOther _ \<Rightarrow> []) (scopedRows es a))"

definition es_rawValue :: "'j entity_storage \<Rightarrow> 'j area \<Rightarrow> string \<Rightarrow> 'j json_text option" where
  "es_rawValue es a i =
     (case js_get (area_get (Some [row_key es i]) a) (row_key es i) of
        Some (RawString t) \<Rightarrow> Some t
      | _ \<Rightarrow> None)"

section \<open>ValueStorage\<close>

record 'j value_storage =
  vs_root :: string
  vs_parse :: "('j \<Rightarrow> 'j option) option"

definition vs_get :: "'j value_storage \<Rightarrow> 'j area \<Rightarrow> storage_error + 'j option" where
  "vs_get vs a =
     (case js_get (area_get (Some [vs_root vs]) a) (vs_root vs) of
        None \<Rightarrow> Inr None
      | Some r \<Rightarrow>
          (case json_parse r of
             None \<Rightarrow> Inl JsonSyntaxError
           | Some parsed \<Rightarrow>
               (case vs_parse vs of
                  None \<Rightarrow> Inr (Some parsed)
                | Some codec \<Rightarrow> (case codec parsed of None \<Rightarrow> Inl CodecError | Some v \<Rightarrow> Inr (Some v)))))"

definition vs_set :: "'j value_storage \<Rightarrow> 'j \<Rightarrow> 'j area \<Rightarrow> 'j area" where
  "vs_set vs v a = area_set [(vs_root vs, json_stringify v)] a"

definition vs_delete :: "'j value_storage \<Rightarrow> 'j area \<Rightarrow> 'j area" where
  "vs_delete vs a = area_remove [vs_root vs] a"

section \<open>Lookups\<close>

lemma area_get_one [simp]: "js_get (area_get (Some [k]) a) k = js_get a k"
  by (simp add: area_get_def js_get_pick)

lemma area_set_one [simp]: "area_set [(k, v)] a = js_set k v a"
  by (simp add: area_set_def)

lemma area_remove_one [simp]: "area_remove [k] a = js_del k a"
  by (simp add: area_remove_def)

lemma row_key_inj [simp]: "row_key es i = row_key es j \<longleftrightarrow> i = j"
  by (simp add: row_key_def)

lemma row_key_suffix [simp]: "drop (length (es_root es) + 1) (row_key es i) = i"
  by (simp add: row_key_def)

lemma row_key_suffix' [simp]: "drop (Suc (length (es_root es))) (row_key es i) = i"
  by (simp add: row_key_def)

lemma scopedRows_member:
  assumes "distinct (js_keys a)"
  shows "(k, i, r) \<in> set (scopedRows es a) \<longleftrightarrow> k = row_key es i \<and> js_get a k = Some r"
proof -
  have "(k, i, r) \<in> set (scopedRows es a) \<longleftrightarrow>
      (k, r) \<in> set a \<and> prefix (es_root es @ ''@'') k \<and> i = drop (length (es_root es) + 1) k"
    by (auto simp: scopedRows_def prefixedEntries_def area_get_def starts_with_def image_iff split: prod.splits)
  also have "prefix (es_root es @ ''@'') k \<and> i = drop (length (es_root es) + 1) k \<longleftrightarrow> k = row_key es i"
    by (auto simp: prefix_def row_key_def)
  finally show ?thesis using assms by (auto simp: map_of_eq_Some_iff)
qed

lemma scopedRows_set:
  assumes "distinct (js_keys a)"
  shows "set (scopedRows es a) = {(k, i, r). k = row_key es i \<and> js_get a k = Some r}"
  using scopedRows_member [OF assms] by auto

lemma distinct_scoped_ids:
  assumes "distinct (js_keys a)"
  shows "distinct (map (fst \<circ> snd) (scopedRows es a))"
proof -
  let ?f = "filter (\<lambda>(k, v). starts_with (es_root es @ ''@'') k) a"
  have m: "map (fst \<circ> snd) (scopedRows es a) = map (\<lambda>k. drop (length (es_root es) + 1) k) (map fst ?f)"
    by (simp add: scopedRows_def prefixedEntries_def area_get_def comp_def split_beta)
  have "distinct (map fst ?f)" by (rule distinct_filter_keys [OF assms])
  moreover have "inj_on (\<lambda>k. drop (length (es_root es) + 1) k) (set (map fst ?f))"
    by (auto simp: inj_on_def starts_with_def prefix_def)
  ultimately show ?thesis unfolding m by (subst distinct_map) (rule conjI)
qed

text \<open>Listing agrees with looking up: the rows a listing returns are the rows a lookup finds.\<close>

lemma decode_rows_member:
  "decode_rows idof es rows = Inr out \<Longrightarrow>
     (i, entity) \<in> set out \<longleftrightarrow> (\<exists>k r. (k, i, r) \<in> set rows \<and> decodeRow idof es k r = Inr (Some entity))"
proof (induction rows arbitrary: out)
  case (Cons row rows)
  obtain k j r where row: "row = (k, j, r)" by (cases row)
  with Cons.prems obtain d out' where
    d: "decodeRow idof es k r = Inr d" "decode_rows idof es rows = Inr out'"
      "out = (case d of None \<Rightarrow> out' | Some entity \<Rightarrow> (j, entity) # out')"
    by (auto split: sum.splits)
  from Cons.IH [OF d(2)] d(1) show ?case unfolding row d(3) by (cases d) auto
qed simp

lemma decode_rows_ids:
  "decode_rows idof es rows = Inr out \<Longrightarrow>
     set (map fst out) \<subseteq> set (map (fst \<circ> snd) rows) \<and> (distinct (map (fst \<circ> snd) rows) \<longrightarrow> distinct (map fst out))"
proof (induction rows arbitrary: out)
  case (Cons row rows)
  obtain k j r where row: "row = (k, j, r)" by (cases row)
  with Cons.prems obtain d out' where
    d: "decode_rows idof es rows = Inr out'" "out = (case d of None \<Rightarrow> out' | Some entity \<Rightarrow> (j, entity) # out')"
    by (auto split: sum.splits)
  from Cons.IH [OF d(1)] show ?case unfolding row d(2) by (cases d) auto
qed simp

lemma es_get_eq: "es_get idof es a i = (case js_get a (row_key es i) of None \<Rightarrow> Inr None | Some r \<Rightarrow> decodeRow idof es (row_key es i) r)"
  by (simp add: es_get_def)

lemma es_getAll_get:
  assumes "distinct (js_keys a)" and "es_getAll idof es a = Inr out"
  shows "distinct (map fst out) \<and> ((i, entity) \<in> set out \<longleftrightarrow> es_get idof es a i = Inr (Some entity))"
proof -
  from assms(2) have d: "decode_rows idof es (scopedRows es a) = Inr out" by (simp add: es_getAll_def)
  from decode_rows_ids [OF d] distinct_scoped_ids [OF assms(1)] have "distinct (map fst out)" by blast
  moreover have "(i, entity) \<in> set out \<longleftrightarrow> es_get idof es a i = Inr (Some entity)"
    by (auto simp: decode_rows_member [OF d] scopedRows_set [OF assms(1)] es_get_eq split: option.splits)
  ultimately show ?thesis by simp
qed

section \<open>The contract of a keyed store\<close>

text \<open>
  What the services rely on: rows looked up by id, replaced, deleted and listed. Only \<open>valid\<close>
  entities are ever read.
\<close>

locale keyed_store =
  fixes lookup :: "'s \<Rightarrow> string \<Rightarrow> 'e option" and put :: "string \<Rightarrow> 'e \<Rightarrow> 's \<Rightarrow> 's" and del :: "string \<Rightarrow> 's \<Rightarrow> 's"
    and rows :: "'s \<Rightarrow> (string \<times> 'e) list" and valid :: "'e \<Rightarrow> bool" and ok :: "'s \<Rightarrow> bool"
  assumes put_ok: "ok s \<Longrightarrow> ok (put i e s)"
    and del_ok: "ok s \<Longrightarrow> ok (del i s)"
    and lookup_put: "valid e \<Longrightarrow> lookup (put i e s) j = (if j = i then Some e else lookup s j)"
    and lookup_del: "lookup (del i s) j = (if j = i then None else lookup s j)"
    and rows_lookup: "ok s \<Longrightarrow> (i, e) \<in> set (rows s) \<longleftrightarrow> lookup s i = Some e"
    and rows_distinct: "ok s \<Longrightarrow> distinct (map fst (rows s))"
    and lookup_valid: "lookup s i = Some e \<Longrightarrow> valid e"
begin

lemma dels_ok: "ok s \<Longrightarrow> ok (fold del ids s)"
  by (induction ids arbitrary: s) (auto intro: del_ok)

lemma lookup_dels: "lookup (fold del ids s) j = (if j \<in> set ids then None else lookup s j)"
  by (induction ids arbitrary: s) (auto simp: lookup_del)

text \<open>Deleting every listed row that satisfies a predicate leaves exactly the other rows.\<close>

definition purge :: "('e \<Rightarrow> bool) \<Rightarrow> 's \<Rightarrow> 's" where
  "purge P s = fold del (map fst (filter (P \<circ> snd) (rows s))) s"

lemma purge_ok: "ok s \<Longrightarrow> ok (purge P s)"
  by (simp add: purge_def dels_ok)

lemma purge_lookup:
  assumes "ok s"
  shows "lookup (purge P s) j = (case lookup s j of None \<Rightarrow> None | Some e \<Rightarrow> if P e then None else Some e)"
proof (cases "lookup s j")
  case None
  then show ?thesis by (simp add: purge_def lookup_dels)
next
  case (Some e)
  have "j \<in> set (map fst (filter (P \<circ> snd) (rows s))) \<longleftrightarrow> P e"
    using Some rows_lookup [OF assms] by (auto simp: image_iff Bex_def)
  with Some show ?thesis by (simp add: purge_def lookup_dels)
qed

lemma purge_rows: "ok s \<Longrightarrow> (i, e) \<in> set (rows (purge P s)) \<longleftrightarrow> (i, e) \<in> set (rows s) \<and> \<not> P e"
  by (auto simp: rows_lookup purge_ok purge_lookup split: option.splits if_splits)

lemma rows_put: "ok s \<Longrightarrow> valid e \<Longrightarrow> (j, d) \<in> set (rows (put i e s)) \<longleftrightarrow> (if j = i then d = e else (j, d) \<in> set (rows s))"
  by (auto simp: rows_lookup put_ok lookup_put)

end

text \<open>An entity storage whose codec accepts what it returns, without the identity guard.\<close>

definition plain_storage :: "string \<Rightarrow> ('j \<Rightarrow> 'j option) \<Rightarrow> 'j entity_storage" where
  "plain_storage root codec = \<lparr>es_root = root, es_parse = Some codec, es_requireKeyIdentityMatch = False,
     es_keyIdentityMode = StringKeys\<rparr>"

definition ps_get :: "'j entity_storage \<Rightarrow> 'j area \<Rightarrow> string \<Rightarrow> 'j option" where
  "ps_get es a i = (case es_get (\<lambda>_. IdOther) es a i of Inl _ \<Rightarrow> None | Inr r \<Rightarrow> r)"

definition ps_rows :: "'j entity_storage \<Rightarrow> 'j area \<Rightarrow> (string \<times> 'j) list" where
  "ps_rows es a = (case es_getAll (\<lambda>_. IdOther) es a of Inl _ \<Rightarrow> [] | Inr r \<Rightarrow> r)"

lemma ps_get_eq:
  "ps_get (plain_storage root codec) a i =
     (case js_get a (row_key (plain_storage root codec) i) of
        None \<Rightarrow> None
      | Some r \<Rightarrow> (case json_parse r of None \<Rightarrow> None | Some j \<Rightarrow> codec j))"
  by (simp add: ps_get_def es_get_eq decodeRow_def requireIdMatch_def plain_storage_def split: option.split)

lemma plain_total: "\<exists>out. decode_rows (\<lambda>_. IdOther) (plain_storage root codec) rows = Inr out"
proof (induction rows)
  case (Cons row rows)
  obtain k i r where "row = (k, i, r)" by (cases row)
  with Cons show ?case
    by (auto simp: decodeRow_def requireIdMatch_def plain_storage_def split: option.split)
qed simp

lemma ps_rows_getAll: "es_getAll (\<lambda>_. IdOther) (plain_storage root codec) a = Inr (ps_rows (plain_storage root codec) a)"
  using plain_total [of root codec "scopedRows (plain_storage root codec) a"]
  by (auto simp: ps_rows_def es_getAll_def)

locale codec_store =
  fixes codec :: "'j \<Rightarrow> 'j option" and root :: string
  assumes codec_idem: "codec j = Some e \<Longrightarrow> codec e = Some e"
begin

abbreviation "store \<equiv> plain_storage root codec"

lemma ps_rows_iff:
  assumes "distinct (js_keys a)"
  shows "distinct (map fst (ps_rows store a)) \<and> ((i, e) \<in> set (ps_rows store a) \<longleftrightarrow> ps_get store a i = Some e)"
  using es_getAll_get [OF assms ps_rows_getAll, of root codec i e]
  by (auto simp: ps_get_def split: sum.splits)

end

sublocale codec_store \<subseteq> keyed_store "ps_get (plain_storage root codec)" "es_set (plain_storage root codec)"
  "es_delete (plain_storage root codec)" "ps_rows (plain_storage root codec)" "\<lambda>e. codec e = Some e"
  "\<lambda>a. distinct (js_keys a)"
proof (unfold_locales, goal_cases)
  case (1 s i e)
  then show ?case by (simp add: es_set_def distinct_update)
next
  case (2 s i)
  then show ?case by (simp add: es_delete_def distinct_delete)
next
  case (3 e i s j)
  then show ?case by (simp add: ps_get_eq es_set_def map_simps json_stringify_def)
next
  case (4 i s j)
  then show ?case by (simp add: ps_get_eq es_delete_def map_simps)
next
  case (5 s i e)
  then show ?case using ps_rows_iff by blast
next
  case (6 s)
  then show ?case using ps_rows_iff by blast
next
  case (7 s i e)
  then show ?case by (auto simp: ps_get_eq split: option.splits intro: codec_idem)
qed

section \<open>Errors and isolation\<close>

lemma requireIdMatch_error: "requireIdMatch idof es k e = Inl err \<Longrightarrow> err = TypeError"
  by (auto simp: requireIdMatch_def Let_def split: if_splits embedded_id.splits)

lemma decodeRow_error: "decodeRow idof es k r = Inl err \<Longrightarrow> err = TypeError"
  by (auto simp: decodeRow_def split: option.splits dest: requireIdMatch_error)

lemma decode_rows_error:
  "(k, i, r) \<in> set rows \<Longrightarrow> decodeRow idof es k r = Inl err \<Longrightarrow> decode_rows idof es rows = Inl TypeError"
proof (induction rows)
  case (Cons row rows)
  obtain k' i' r' where row: "row = (k', i', r')" by (cases row)
  show ?case
  proof (cases "decodeRow idof es k' r'")
    case (Inl e)
    with decodeRow_error [OF Inl] show ?thesis by (simp add: row)
  next
    case (Inr d)
    with Cons row have "decode_rows idof es rows = Inl TypeError" by auto
    with Inr show ?thesis by (simp add: row)
  qed
qed simp

lemma root_prefix:
  assumes "CHR ''@'' \<notin> set (es_root es)" and "CHR ''@'' \<notin> set r"
  shows "prefix (r @ ''@'') (row_key es i) \<longleftrightarrow> r = es_root es"
proof
  assume "prefix (r @ ''@'') (row_key es i)"
  then obtain zs where "r @ CHR ''@'' # zs = es_root es @ CHR ''@'' # i" by (auto simp: prefix_def row_key_def)
  then have "takeWhile (\<lambda>c. c \<noteq> CHR ''@'') (r @ CHR ''@'' # zs) = takeWhile (\<lambda>c. c \<noteq> CHR ''@'') (es_root es @ CHR ''@'' # i)"
    by simp
  then show "r = es_root es" using assms by (auto simp: takeWhile_append split: if_splits)
qed (auto simp: row_key_def)

lemma filter_js_set: "\<not> P k \<Longrightarrow> filter (\<lambda>(k, v). P k) (js_set k v a) = filter (\<lambda>(k, v). P k) a"
  by (induction a) auto

lemma filter_js_del: "\<not> P k \<Longrightarrow> filter (\<lambda>(k, v). P k) (js_del k a) = filter (\<lambda>(k, v). P k) a"
  by (induction a) auto

section \<open>Properties\<close>

definition codec_accepts :: "'j entity_storage \<Rightarrow> 'j \<Rightarrow> bool" where
  "codec_accepts es e = (case es_parse es of None \<Rightarrow> True | Some codec \<Rightarrow> codec e = Some e)"

definition id_matches :: "('j \<Rightarrow> embedded_id) \<Rightarrow> 'j entity_storage \<Rightarrow> 'j \<Rightarrow> string \<Rightarrow> bool" where
  "id_matches idof es e i =
     (case es_keyIdentityMode es of
        NumericKeys \<Rightarrow> (\<exists>n. idof e = IdSafeInteger n \<and> n \<ge> 1 \<and> int_dec n = i)
      | StringKeys \<Rightarrow> idof e = IdString i)"

lemma requireIdMatch_iff:
  "requireIdMatch idof es (row_key es i) d = Inr (Some e) \<longleftrightarrow>
     d = e \<and> (es_requireKeyIdentityMatch es \<longrightarrow> id_matches idof es e i)"
  by (auto simp: requireIdMatch_def Let_def id_matches_def split: embedded_id.splits key_mode.splits)

text \<open>
  An entity storage is a keyed store. What was written under an id is what is read back, provided
  the codec accepts it and, for guarded roots, it embeds that id; a deleted id reads as absent; every
  other id of the root, and every row of another root, is untouched by either.
\<close>

theorem entity_storage_laws:
  assumes "codec_accepts es e" and "es_requireKeyIdentityMatch es \<longrightarrow> id_matches idof es e i"
    and "CHR ''@'' \<notin> set (es_root es)" and "CHR ''@'' \<notin> set (es_root es')" and "es_root es' \<noteq> es_root es" and "j \<noteq> i"
  shows "es_get idof es (es_set es i e a) i = Inr (Some e) \<and> es_get idof es (es_delete es i a) i = Inr None
    \<and> es_get idof es (es_set es i e a) j = es_get idof es a j \<and> es_get idof es (es_delete es i a) j = es_get idof es a j
    \<and> scopedRows es' (es_set es i e a) = scopedRows es' a \<and> scopedRows es' (es_delete es i a) = scopedRows es' a"
proof -
  have "\<not> starts_with (es_root es' @ ''@'') (row_key es i)"
    using root_prefix [OF assms(3,4), of i] assms(5) by (simp add: starts_with_def)
  then have "scopedRows es' (es_set es i e a) = scopedRows es' a" "scopedRows es' (es_delete es i a) = scopedRows es' a"
    by (simp_all add: scopedRows_def prefixedEntries_def area_get_def es_set_def es_delete_def filter_js_set filter_js_del)
  moreover have "es_get idof es (es_set es i e a) i = Inr (Some e)"
    using assms(1,2) by (auto simp: es_get_eq es_set_def map_simps decodeRow_def json_stringify_def codec_accepts_def
      requireIdMatch_iff split: option.splits)
  ultimately show ?thesis using assms(6) by (simp add: es_get_eq es_set_def es_delete_def map_simps)
qed

text \<open>
  On a guarded root no read serves an entity under an id it does not embed, whatever was written
  to the area by other means.
\<close>

theorem entity_identity_guard:
  assumes "es_requireKeyIdentityMatch es" and "distinct (js_keys a)" and "es_getAll idof es a = Inr out" and "(i, e) \<in> set out"
  shows "id_matches idof es e i \<and> es_get idof es a i = Inr (Some e)"
proof -
  from es_getAll_get [OF assms(2,3), of i e] assms(4) have g: "es_get idof es a i = Inr (Some e)" by simp
  then obtain d where "requireIdMatch idof es (row_key es i) d = Inr (Some e)"
    by (auto simp: es_get_eq decodeRow_def split: option.splits)
  with assms(1) g show ?thesis by (simp add: requireIdMatch_iff)
qed

text \<open>
  A row holding the JSON text of null is not hidden like other unreadable rows. On a guarded root
  without a codec, reading it and listing the whole root throw a type error.
\<close>

theorem null_row_blocks_listing:
  assumes "es_requireKeyIdentityMatch es" and "es_parse es = None" and "distinct (js_keys a)"
    and "js_get a (row_key es i) = Some r" and "json_parse r = Some nul" and "idof nul = IdNullEntity"
  shows "es_get idof es a i = Inl TypeError \<and> es_getAll idof es a = Inl TypeError"
proof -
  have d: "decodeRow idof es (row_key es i) r = Inl TypeError"
    using assms by (simp add: decodeRow_def requireIdMatch_def)
  moreover have "(row_key es i, i, r) \<in> set (scopedRows es a)" using assms(3,4) by (simp add: scopedRows_set)
  ultimately show ?thesis using assms(4) decode_rows_error by (simp add: es_get_eq es_getAll_def)
qed

text \<open>A guarded root holding one honest row, one transplanted row and one null row, ids as values.\<close>

definition demo_guarded :: "string option entity_storage" where
  "demo_guarded = \<lparr>es_root = ''p'', es_parse = None, es_requireKeyIdentityMatch = True, es_keyIdentityMode = StringKeys\<rparr>"

definition demo_id :: "string option \<Rightarrow> embedded_id" where
  "demo_id j = (case j of None \<Rightarrow> IdNullEntity | Some s \<Rightarrow> IdString s)"

theorem entity_storage_laws_witness:
  "es_get demo_id demo_guarded (es_set demo_guarded ''x'' (Some ''x'') []) ''x'' = Inr (Some (Some ''x''))"
  using entity_storage_laws [of demo_guarded "Some ''x''" demo_id "''x''" "demo_guarded\<lparr>es_root := ''q''\<rparr>" "''y''" "[]"]
  by (simp add: demo_guarded_def codec_accepts_def id_matches_def demo_id_def)

theorem entity_identity_guard_witness:
  "id_matches demo_id demo_guarded (Some ''x'') ''x''
   \<and> es_getAll demo_id demo_guarded [(''p@x'', json_stringify (Some ''x'')), (''p@y'', json_stringify (Some ''x''))]
       = Inr [(''x'', Some ''x'')]"
proof -
  let ?a = "[(''p@x'', json_stringify (Some ''x'')), (''p@y'', json_stringify (Some ''x''))]"
  have g: "es_getAll demo_id demo_guarded ?a = Inr [(''x'', Some ''x'')]" by code_simp
  have r: "es_requireKeyIdentityMatch demo_guarded" by (simp add: demo_guarded_def)
  have d: "distinct (js_keys ?a)" by simp
  from entity_identity_guard [OF r d g, of "''x''" "Some ''x''"] g show ?thesis by simp
qed

theorem null_row_blocks_listing_witness:
  "es_getAll demo_id demo_guarded [(''p@x'', json_stringify (Some ''x'')), (''p@y'', json_stringify None)] = Inl TypeError"
proof -
  let ?a = "[(''p@x'', json_stringify (Some ''x'')), (''p@y'', json_stringify None)]"
  have r: "es_requireKeyIdentityMatch demo_guarded" "es_parse demo_guarded = None" by (simp_all add: demo_guarded_def)
  have d: "distinct (js_keys ?a)" and g: "js_get ?a (row_key demo_guarded ''y'') = Some (json_stringify None)"
    by (simp_all add: demo_guarded_def row_key_def)
  have j: "json_parse (json_stringify (None :: string option)) = Some None" "demo_id None = IdNullEntity"
    by (simp_all add: json_stringify_def demo_id_def)
  from null_row_blocks_listing [where idof = demo_id, OF r d g j] show ?thesis by blast
qed

end
