(* ===== verification/Migrator.thy ===== *)
theory Migrator
  imports Entity_Storage
begin

text \<open>
  The crash-safe storage migration engine: \<^verbatim>\<open>packages/wallet-core/src/migration/migrator.ts\<close> with its
  staging buffer (\<^verbatim>\<open>staging.ts\<close>) and types (\<^verbatim>\<open>types.ts\<close>). Every storage call consumes one outcome of an
  adversarial script: it succeeds, is rejected, or the worker is killed during it, and a rejected or
  killed write of several keys may have landed for any subset of them.
\<close>

section \<open>Values, references, programs\<close>

datatype storage_ref = RootRef string | ValueRef string

datatype attempt_phase = PhaseUp | PhaseRestore

text \<open>
  What the store holds: user rows, the engine's integer marker, its journal backup (version, refs,
  entries, counted), its attempt record, or anything else.
\<close>

datatype 'j sval =
    SUser "'j raw"
  | SInt int
  | SBackup int "storage_ref list" "(string \<times> 'j sval) list" bool
  | SAttempt int attempt_phase int
  | SOther "'j raw"

type_synonym 'j store = "(string, 'j sval) jsmap"

text \<open>A migration's \<^verbatim>\<open>up\<close>, as the sequence of calls it makes on its staging area.\<close>

datatype 'j prog =
    PDone
  | PThrow string
  | PRows string "(string \<times> 'j) list \<Rightarrow> 'j prog"
  | PSetRows string "(string \<times> 'j) list" "string list" "'j prog"
  | PValue string "'j option \<Rightarrow> 'j prog"
  | PSetValue string 'j "'j prog"
  | PDeleteValue string "'j prog"

record 'j migration =
  mg_version :: int
  mg_breaking :: bool
  mg_reads :: "storage_ref list"
  mg_writes :: "storage_ref list"
  mg_up :: "'j prog"

definition defineMigration :: "bool option \<Rightarrow> int \<Rightarrow> storage_ref list \<Rightarrow> storage_ref list \<Rightarrow> 'j prog \<Rightarrow> 'j migration" where
  "defineMigration breaking v reads writes up =
     \<lparr>mg_version = v, mg_breaking = or_else breaking True, mg_reads = reads, mg_writes = writes, mg_up = up\<rparr>"

datatype recovery_reason =
    UnexpectedStorageFailure string
  | LegacyMarker
  | CorruptVersion
  | RestoreAfterFailure int string string
  | InvalidBackupPayload
  | JournalBadVersion
  | UnregisteredBackup int
  | RestoreInterrupted int string
  | InterruptedRestored int

datatype failure_reason = MigrationError string | Escalated string

datatype migration_result =
    Noop int
  | Migrated int int
  | Fresh int
  | Failed (f_version: int) (f_breaking: bool) (f_reason: failure_reason) (f_attempts: int) (f_terminal: bool)
  | NeedsRecovery recovery_reason (nr_retryable: bool) (nr_free: bool)

section \<open>Storage calls\<close>

datatype outcome = OpOk | OpThrow string "string list" | OpKill "string list"

record 'j mst =
  ms_store :: "'j store"
  ms_script :: "outcome list"
  ms_recorded :: bool

datatype 'a res = Done 'a | Thrown string | Killed

type_synonym ('j, 'a) comp = "'j mst \<Rightarrow> 'a res \<times> 'j mst"

definition ret :: "'a \<Rightarrow> ('j, 'a) comp" where
  "ret a s = (Done a, s)"

definition throw :: "string \<Rightarrow> ('j, 'a) comp" where
  "throw e s = (Thrown e, s)"

definition bind :: "('j, 'a) comp \<Rightarrow> ('a \<Rightarrow> ('j, 'b) comp) \<Rightarrow> ('j, 'b) comp" where
  "bind c f s = (case c s of (Done a, s') \<Rightarrow> f a s' | (Thrown e, s') \<Rightarrow> (Thrown e, s') | (Killed, s') \<Rightarrow> (Killed, s'))"

definition try_catch :: "('j, 'a) comp \<Rightarrow> (string \<Rightarrow> ('j, 'a) comp) \<Rightarrow> ('j, 'a) comp" where
  "try_catch c h s = (case c s of (Thrown e, s') \<Rightarrow> h e s' | r \<Rightarrow> r)"

definition next_outcome :: "'j mst \<Rightarrow> outcome \<times> 'j mst" where
  "next_outcome s = (case ms_script s of [] \<Rightarrow> (OpOk, s) | x # xs \<Rightarrow> (x, s\<lparr>ms_script := xs\<rparr>))"

definition st_get :: "string list option \<Rightarrow> ('j, 'j store) comp" where
  "st_get keys s =
     (case next_outcome s of
        (OpOk, s') \<Rightarrow> (Done (js_pick keys (ms_store s')), s')
      | (OpThrow e _, s') \<Rightarrow> (Thrown e, s')
      | (OpKill _, s') \<Rightarrow> (Killed, s'))"

text \<open>A rejected call on a single key has no effect.\<close>

definition st_set :: "'j store \<Rightarrow> ('j, unit) comp" where
  "st_set items s =
     (case next_outcome s of
        (OpOk, s') \<Rightarrow> (Done (), s'\<lparr>ms_store := js_sets items (ms_store s')\<rparr>)
      | (OpThrow e landed, s') \<Rightarrow>
          (Thrown e, s'\<lparr>ms_store := js_sets (filter (\<lambda>(k, v). length items > 1 \<and> k \<in> set landed) items) (ms_store s')\<rparr>)
      | (OpKill landed, s') \<Rightarrow> (Killed, s'\<lparr>ms_store := js_sets (filter (\<lambda>(k, v). k \<in> set landed) items) (ms_store s')\<rparr>))"

definition st_remove :: "string list \<Rightarrow> ('j, unit) comp" where
  "st_remove ks s =
     (case next_outcome s of
        (OpOk, s') \<Rightarrow> (Done (), s'\<lparr>ms_store := js_dels ks (ms_store s')\<rparr>)
      | (OpThrow e landed, s') \<Rightarrow>
          (Thrown e, s'\<lparr>ms_store := js_dels (filter (\<lambda>k. length ks > 1 \<and> k \<in> set landed) ks) (ms_store s')\<rparr>)
      | (OpKill landed, s') \<Rightarrow> (Killed, s'\<lparr>ms_store := js_dels (filter (\<lambda>k. k \<in> set landed) ks) (ms_store s')\<rparr>))"

section \<open>StagingArea\<close>

datatype 'j staged_op = StSet "'j raw" | StRemove

type_synonym 'j staged = "(string, 'j staged_op) jsmap"

text \<open>
  \<^verbatim>\<open>JSON.parse\<close> of a stored value; how the engine's own values would coerce is the parameter \<open>coerce\<close>,
  since a migration may ask for any key.
\<close>

definition sval_parse :: "('j sval \<Rightarrow> 'j option) \<Rightarrow> 'j sval \<Rightarrow> 'j option" where
  "sval_parse coerce v = (case v of SUser r \<Rightarrow> json_parse r | SOther r \<Rightarrow> json_parse r | _ \<Rightarrow> coerce v)"

definition staging_parse :: "('j sval \<Rightarrow> 'j option) \<Rightarrow> string \<Rightarrow> 'j sval \<Rightarrow> ('s, 'j) comp" where
  "staging_parse coerce k v =
     (case sval_parse coerce v of None \<Rightarrow> throw (''migration read: malformed row '' @ k) | Some j \<Rightarrow> ret j)"

fun parse_rows :: "('j sval \<Rightarrow> 'j option) \<Rightarrow> nat \<Rightarrow> 'j store \<Rightarrow> ('s, (string \<times> 'j) list) comp" where
  "parse_rows coerce n [] = ret []"
| "parse_rows coerce n ((k, v) # rest) =
     bind (staging_parse coerce k v) (\<lambda>j. bind (parse_rows coerce n rest) (\<lambda>out. ret ((drop n k, j) # out)))"

definition overlay :: "string \<Rightarrow> 'j staged \<Rightarrow> 'j store \<Rightarrow> 'j store" where
  "overlay pre st live =
     fold (\<lambda>(k, x) m. if prefix pre k then (case x of StRemove \<Rightarrow> js_del k m | StSet r \<Rightarrow> js_set k (SUser r) m) else m) st
       (filter (\<lambda>(k, v). prefix pre k) live)"

definition staging_rows :: "('j sval \<Rightarrow> 'j option) \<Rightarrow> string \<Rightarrow> 'j staged \<Rightarrow> ('j, (string \<times> 'j) list) comp" where
  "staging_rows coerce root st =
     bind (st_get None) (\<lambda>live. parse_rows coerce (length root + 1) (overlay (root @ ''@'') st live))"

definition staging_setRows :: "string \<Rightarrow> (string \<times> 'j) list \<Rightarrow> string list \<Rightarrow> 'j staged \<Rightarrow> 'j staged" where
  "staging_setRows root upserts deletes st =
     fold (\<lambda>i. js_set (root @ CHR ''@'' # i) StRemove) deletes
       (fold (\<lambda>(i, v). js_set (root @ CHR ''@'' # i) (StSet (json_stringify v))) upserts st)"

definition staging_value :: "('j sval \<Rightarrow> 'j option) \<Rightarrow> string \<Rightarrow> 'j staged \<Rightarrow> ('j, 'j option) comp" where
  "staging_value coerce key st =
     (case js_get st key of
        Some StRemove \<Rightarrow> ret None
      | Some (StSet r) \<Rightarrow> bind (staging_parse coerce key (SUser r)) (\<lambda>j. ret (Some j))
      | None \<Rightarrow> bind (st_get (Some [key])) (\<lambda>live.
          case js_get live key of
            None \<Rightarrow> ret None
          | Some v \<Rightarrow> bind (staging_parse coerce key v) (\<lambda>j. ret (Some j))))"

primrec run_up :: "'j prog \<Rightarrow> ('j sval \<Rightarrow> 'j option) \<Rightarrow> 'j staged \<Rightarrow> ('j, 'j staged) comp" where
  "run_up PDone = (\<lambda>coerce st. ret st)"
| "run_up (PThrow e) = (\<lambda>coerce st. throw e)"
| "run_up (PRows root f) = (\<lambda>coerce st. bind (staging_rows coerce root st) (\<lambda>rows. run_up (f rows) coerce st))"
| "run_up (PSetRows root ups dels p) = (\<lambda>coerce st. run_up p coerce (staging_setRows root ups dels st))"
| "run_up (PValue key f) = (\<lambda>coerce st. bind (staging_value coerce key st) (\<lambda>v. run_up (f v) coerce st))"
| "run_up (PSetValue key v p) = (\<lambda>coerce st. run_up p coerce (js_set key (StSet (json_stringify v)) st))"
| "run_up (PDeleteValue key p) = (\<lambda>coerce st. run_up p coerce (js_set key StRemove st))"

definition diff_sets :: "'j staged \<Rightarrow> 'j store" where
  "diff_sets st = concat (map (\<lambda>(k, x). case x of StSet r \<Rightarrow> [(k, SUser r)] | StRemove \<Rightarrow> []) st)"

definition diff_removes :: "'j staged \<Rightarrow> string list" where
  "diff_removes st = concat (map (\<lambda>(k, x). case x of StSet _ \<Rightarrow> [] | StRemove \<Rightarrow> [k]) st)"

section \<open>Migrator\<close>

definition SCHEMA_VERSION_KEY :: string where "SCHEMA_VERSION_KEY = ''nulo:schema:version''"
definition SCHEMA_RUNNING_KEY :: string where "SCHEMA_RUNNING_KEY = ''nulo:schema:running''"
definition SCHEMA_BACKUP_KEY :: string where "SCHEMA_BACKUP_KEY = ''nulo:schema:backup''"
definition SCHEMA_ATTEMPTS_KEY :: string where "SCHEMA_ATTEMPTS_KEY = ''nulo:schema:attempts''"
definition RESERVED_PREFIX :: string where "RESERVED_PREFIX = ''nulo:schema:''"
definition LEGACY_VERSION_KEY :: string where "LEGACY_VERSION_KEY = ''nulo:core:storage-version''"

definition reserved :: "string \<Rightarrow> bool" where
  "reserved k = prefix RESERVED_PREFIX k"

record 'j migrator =
  mi_migrations :: "'j migration list"
  mi_maxRetries :: int
  mi_maxVersion :: int
  mi_coerce :: "'j sval \<Rightarrow> 'j option"

fun version_error :: "'j migration list \<Rightarrow> int option \<Rightarrow> string option" where
  "version_error [] prev = None"
| "version_error (m # ms) prev =
     (if mg_version m < 1 then Some (''migration version must be a positive integer, got '' @ int_dec (mg_version m))
      else if prev = Some (mg_version m) then Some (''duplicate migration version '' @ int_dec (mg_version m))
      else version_error ms (Some (mg_version m)))"

definition new_migrator ::
  "('j sval \<Rightarrow> 'j option) \<Rightarrow> 'j migration list \<Rightarrow> int option \<Rightarrow> int option \<Rightarrow> string + 'j migrator" where
  "new_migrator coerce migrations maxRetries baseline =
     (let ms = sort_key mg_version migrations
      in case version_error ms None of
           Some e \<Rightarrow> Inl e
         | None \<Rightarrow> Inr \<lparr>mi_migrations = ms, mi_maxRetries = or_else maxRetries 3,
             mi_maxVersion = max (or_else baseline 0) (if ms = [] then 0 else mg_version (last ms)), mi_coerce = coerce\<rparr>)"

fun isValidRef :: "storage_ref \<Rightarrow> bool" where
  "isValidRef (RootRef r) = (r \<noteq> [])"
| "isValidRef (ValueRef k) = (k \<noteq> [])"

definition isValidBackup :: "'j sval \<Rightarrow> bool" where
  "isValidBackup v = (case v of SBackup _ refs _ _ \<Rightarrow> list_all isValidRef refs | _ \<Rightarrow> False)"

definition isValidMarker :: "'j migrator \<Rightarrow> 'j sval option \<Rightarrow> bool" where
  "isValidMarker M v = (case v of Some (SInt n) \<Rightarrow> 0 \<le> n \<and> n \<le> mi_maxVersion M | _ \<Rightarrow> False)"

definition covered :: "storage_ref list \<Rightarrow> string \<Rightarrow> bool" where
  "covered refs k = list_ex (\<lambda>r. case r of ValueRef key \<Rightarrow> key = k | RootRef root \<Rightarrow> prefix (root @ ''@'') k) refs"

definition footprintKeysFor :: "storage_ref list \<Rightarrow> ('j, string list) comp" where
  "footprintKeysFor refs =
     bind (st_get None) (\<lambda>all. ret (filter (\<lambda>k. \<not> reserved k \<and> covered refs k) (js_keys all)))"

definition snapshot :: "string list \<Rightarrow> ('j, 'j store) comp" where
  "snapshot keys =
     (if keys = [] then ret []
      else bind (st_get (Some keys)) (\<lambda>got.
        ret (fold (\<lambda>k out. case js_get got k of None \<Rightarrow> out | Some v \<Rightarrow> js_set k v out) keys [])))"

definition bumpAttempts :: "int \<Rightarrow> attempt_phase \<Rightarrow> ('j, int) comp" where
  "bumpAttempts version phase =
     bind (st_get (Some [SCHEMA_ATTEMPTS_KEY])) (\<lambda>got.
       let prior = (case js_get got SCHEMA_ATTEMPTS_KEY of
                      Some (SAttempt v _ c) \<Rightarrow> if v = version \<and> c \<ge> 0 then c else 0
                    | _ \<Rightarrow> 0);
           count = prior + 1
       in bind (st_set [(SCHEMA_ATTEMPTS_KEY, SAttempt version phase count)]) (\<lambda>_ s.
            (Done count, s\<lparr>ms_recorded := True\<rparr>)))"

definition markJournalCounted :: "int \<Rightarrow> storage_ref list \<Rightarrow> 'j store \<Rightarrow> ('j, unit) comp" where
  "markJournalCounted version refs entries = st_set [(SCHEMA_BACKUP_KEY, SBackup version refs entries True)]"

definition user_entries :: "'j store \<Rightarrow> 'j store" where
  "user_entries entries = filter (\<lambda>(k, v). \<not> (reserved k \<or> k = LEGACY_VERSION_KEY)) entries"

text \<open>\<^verbatim>\<open>if (keys.length) await store.set(...)\<close> and its removal counterpart.\<close>

definition set_if_any :: "'j store \<Rightarrow> ('j, unit) comp" where
  "set_if_any items = (if items = [] then ret () else st_set items)"

definition remove_if_any :: "string list \<Rightarrow> ('j, unit) comp" where
  "remove_if_any ks = (if ks = [] then ret () else st_remove ks)"

definition restore :: "storage_ref list \<Rightarrow> 'j store \<Rightarrow> ('j, unit) comp" where
  "restore refs backup_entries =
     (let entries = user_entries backup_entries
      in bind (footprintKeysFor refs) (\<lambda>nowKeys.
           bind (set_if_any entries) (\<lambda>_.
             remove_if_any (filter (\<lambda>k. k \<notin> set (js_keys entries)) nowKeys))))"

text \<open>The restore attempt of a catch block: \<open>None\<close> when it succeeded, otherwise its error.\<close>

definition try_restore :: "storage_ref list \<Rightarrow> 'j store \<Rightarrow> ('j, string option) comp" where
  "try_restore refs entries = try_catch (bind (restore refs entries) (\<lambda>_. ret None)) (\<lambda>e. ret (Some e))"

definition guardCommit :: "'j migration \<Rightarrow> string list \<Rightarrow> ('s, unit) comp" where
  "guardCommit m stagedKeys =
     (let offenders = filter (\<lambda>k. reserved k \<or> k = LEGACY_VERSION_KEY \<or> \<not> covered (mg_writes m) k) stagedKeys
      in if offenders \<noteq> [] then throw (''migration '' @ int_dec (mg_version m) @ '' staged writes outside its declared footprint'')
         else ret ())"

definition commit :: "'j migrator \<Rightarrow> 'j migration \<Rightarrow> ('j, unit) comp" where
  "commit M m =
     bind (run_up (mg_up m) (mi_coerce M) []) (\<lambda>st.
       bind (guardCommit m (js_keys (diff_sets st) @ diff_removes st)) (\<lambda>_.
         bind (set_if_any (diff_sets st)) (\<lambda>_.
           bind (remove_if_any (diff_removes st)) (\<lambda>_.
             st_set [(SCHEMA_VERSION_KEY, SInt (mg_version m))]))))"

definition apply_failed ::
  "'j migrator \<Rightarrow> 'j migration \<Rightarrow> 'j store \<Rightarrow> string \<Rightarrow> ('j, migration_result option) comp" where
  "apply_failed M m entries err =
     (let refs = mg_reads m @ mg_writes m
      in bind (try_restore refs entries) (\<lambda>r.
           case r of
             Some restoreErr \<Rightarrow>
               bind (markJournalCounted (mg_version m) refs entries) (\<lambda>_.
                 bind (bumpAttempts (mg_version m) PhaseRestore) (\<lambda>attempts.
                   ret (Some (NeedsRecovery (RestoreAfterFailure (mg_version m) restoreErr err)
                     (attempts < mi_maxRetries M) False))))
           | None \<Rightarrow>
               bind (markJournalCounted (mg_version m) refs entries) (\<lambda>_.
                 bind (bumpAttempts (mg_version m) PhaseUp) (\<lambda>attempts.
                   bind (st_remove [SCHEMA_BACKUP_KEY, SCHEMA_RUNNING_KEY]) (\<lambda>_.
                     ret (Some (Failed (mg_version m) (mg_breaking m) (MigrationError err) attempts
                       (attempts \<ge> mi_maxRetries M))))))))"

definition applyOne :: "'j migrator \<Rightarrow> 'j migration \<Rightarrow> ('j, migration_result option) comp" where
  "applyOne M m =
     (let refs = mg_reads m @ mg_writes m
      in bind (footprintKeysFor refs) (\<lambda>keys.
           bind (snapshot keys) (\<lambda>entries.
             bind (st_set [(SCHEMA_BACKUP_KEY, SBackup (mg_version m) refs entries False)]) (\<lambda>_.
               try_catch
                 (bind (commit M m) (\<lambda>_. bind (try_catch (st_remove [SCHEMA_BACKUP_KEY]) (\<lambda>_. ret ())) (\<lambda>_. ret None)))
                 (apply_failed M m entries)))))"

definition resume_armed ::
  "'j migrator \<Rightarrow> int \<Rightarrow> storage_ref list \<Rightarrow> 'j store \<Rightarrow> bool \<Rightarrow> ('j, migration_result option) comp" where
  "resume_armed M b refs entries counted =
     bind (try_restore refs entries) (\<lambda>r.
       case r of
         Some err \<Rightarrow>
           bind (markJournalCounted b refs entries) (\<lambda>_.
             bind (bumpAttempts b PhaseRestore) (\<lambda>attempts.
               ret (Some (NeedsRecovery (RestoreInterrupted b err) (attempts < mi_maxRetries M) False))))
       | None \<Rightarrow>
           if \<not> counted then
             bind (markJournalCounted b refs entries) (\<lambda>_.
               bind (bumpAttempts b PhaseUp) (\<lambda>attempts.
                 bind (st_remove [SCHEMA_BACKUP_KEY, SCHEMA_RUNNING_KEY]) (\<lambda>_.
                   ret (Some (NeedsRecovery (InterruptedRestored b) (attempts < mi_maxRetries M) False)))))
           else bind (st_remove [SCHEMA_BACKUP_KEY, SCHEMA_RUNNING_KEY]) (\<lambda>_. ret None))"

definition resumeIfInterrupted :: "'j migrator \<Rightarrow> ('j, migration_result option) comp" where
  "resumeIfInterrupted M =
     bind (st_get (Some [SCHEMA_RUNNING_KEY, SCHEMA_BACKUP_KEY, SCHEMA_VERSION_KEY])) (\<lambda>j.
       if \<not> js_has j SCHEMA_RUNNING_KEY then
         (if js_has j SCHEMA_BACKUP_KEY then bind (st_remove [SCHEMA_BACKUP_KEY]) (\<lambda>_. ret None) else ret None)
       else (case js_get j SCHEMA_BACKUP_KEY of
         None \<Rightarrow> bind (st_remove [SCHEMA_RUNNING_KEY]) (\<lambda>_. ret None)
       | Some backup \<Rightarrow>
           if \<not> isValidBackup backup then ret (Some (NeedsRecovery InvalidBackupPayload False False))
           else if \<not> isValidMarker M (js_get j SCHEMA_VERSION_KEY) then ret (Some (NeedsRecovery JournalBadVersion False False))
           else (case (backup, js_get j SCHEMA_VERSION_KEY) of
             (SBackup b refs entries counted, Some (SInt version)) \<Rightarrow>
               if b < 1 \<or> b > mi_maxVersion M then ret (Some (NeedsRecovery (UnregisteredBackup b) False False))
               else if version \<ge> b then bind (st_remove [SCHEMA_BACKUP_KEY, SCHEMA_RUNNING_KEY]) (\<lambda>_. ret None)
               else resume_armed M b refs entries counted
           | _ \<Rightarrow> ret None)))"

definition escalateIfLaterPending :: "'j migrator \<Rightarrow> migration_result \<Rightarrow> 'j migration \<Rightarrow> migration_result" where
  "escalateIfLaterPending M failure m =
     (case failure of
        Failed v False (MigrationError r) a t \<Rightarrow>
          if list_ex (\<lambda>x. mg_version x > mg_version m) (mi_migrations M) then Failed v True (Escalated r) a t else failure
      | _ \<Rightarrow> failure)"

fun apply_all :: "'j migrator \<Rightarrow> int \<Rightarrow> 'j migration list \<Rightarrow> ('j, migration_result option) comp" where
  "apply_all M from [] = ret None"
| "apply_all M from (m # ms) =
     (if mg_version m \<le> from then apply_all M from ms
      else bind (applyOne M m) (\<lambda>failure.
        case failure of
          Some f \<Rightarrow> ret (Some (escalateIfLaterPending M f m))
        | None \<Rightarrow> apply_all M from ms))"

definition run_pending :: "'j migrator \<Rightarrow> int \<Rightarrow> ('j, migration_result) comp" where
  "run_pending M from =
     bind (st_set [(SCHEMA_RUNNING_KEY, SInt (mi_maxVersion M))]) (\<lambda>_.
       bind (apply_all M from (mi_migrations M)) (\<lambda>failure.
         case failure of
           Some f \<Rightarrow> ret f
         | None \<Rightarrow>
             bind (st_set [(SCHEMA_VERSION_KEY, SInt (mi_maxVersion M))]) (\<lambda>_.
               bind (st_remove [SCHEMA_ATTEMPTS_KEY, SCHEMA_RUNNING_KEY]) (\<lambda>_.
                 ret (Migrated from (mi_maxVersion M))))))"

definition runInner :: "'j migrator \<Rightarrow> ('j, migration_result) comp" where
  "runInner M =
     bind (resumeIfInterrupted M) (\<lambda>resumed.
       case resumed of
         Some r \<Rightarrow> ret r
       | None \<Rightarrow>
           bind (st_get None) (\<lambda>all.
             case js_get all SCHEMA_VERSION_KEY of
               None \<Rightarrow>
                 if js_has all LEGACY_VERSION_KEY then ret (NeedsRecovery LegacyMarker False False)
                 else bind (st_set [(SCHEMA_VERSION_KEY, SInt (mi_maxVersion M))]) (\<lambda>_. ret (Fresh (mi_maxVersion M)))
             | Some raw \<Rightarrow>
                 if \<not> isValidMarker M (Some raw) then ret (NeedsRecovery CorruptVersion False False)
                 else (case raw of
                   SInt from \<Rightarrow> if from = mi_maxVersion M then ret (Noop from) else run_pending M from
                 | _ \<Rightarrow> ret (NeedsRecovery CorruptVersion False False))))"

definition run :: "'j migrator \<Rightarrow> ('j, migration_result) comp" where
  "run M s =
     try_catch (runInner M)
       (\<lambda>e s'. (Done (NeedsRecovery (UnexpectedStorageFailure e) True (\<not> ms_recorded s')), s'))
       (s\<lparr>ms_recorded := False\<rparr>)"

section \<open>Specification\<close>

text \<open>The user's data: everything outside the engine's namespace, as a map.\<close>

definition udata :: "'j store \<Rightarrow> string \<Rightarrow> 'j sval option" where
  "udata S k = (if reserved k then None else js_get S k)"

definition apply_diff :: "'j staged \<Rightarrow> (string \<Rightarrow> 'j sval option) \<Rightarrow> string \<Rightarrow> 'j sval option" where
  "apply_diff st d k = (case js_get st k of None \<Rightarrow> d k | Some StRemove \<Rightarrow> None | Some (StSet r) \<Rightarrow> Some (SUser r))"

text \<open>
  The versions and data a store may legitimately be at: reached from the start by whole migrations in
  version order, each applied to exactly the data of the version before it.
\<close>

inductive legit :: "'j migrator \<Rightarrow> int \<Rightarrow> (string \<Rightarrow> 'j sval option) \<Rightarrow> int \<Rightarrow> (string \<Rightarrow> 'j sval option) \<Rightarrow> bool"
  for M v0 d0 where
  legit_start: "legit M v0 d0 v0 d0"
| legit_step: "legit M v0 d0 v d \<Longrightarrow> m \<in> set (mi_migrations M) \<Longrightarrow> v < mg_version m \<Longrightarrow>
    \<forall>m' \<in> set (mi_migrations M). mg_version m' \<le> v \<or> mg_version m \<le> mg_version m' \<Longrightarrow>
    udata (ms_store s) = d \<Longrightarrow> fst (run_up (mg_up m) (mi_coerce M) [] s) = Done st \<Longrightarrow>
    \<forall>k \<in> set (js_keys st). covered (mg_writes m) k \<and> \<not> reserved k \<Longrightarrow>
    legit M v0 d0 (mg_version m) (apply_diff st d)"
| legit_floor: "legit M v0 d0 v d \<Longrightarrow> \<forall>m \<in> set (mi_migrations M). mg_version m \<le> v \<Longrightarrow> v \<le> mi_maxVersion M \<Longrightarrow>
    legit M v0 d0 (mi_maxVersion M) d"

text \<open>What restoring a backup would make of the store's user data.\<close>

definition restored :: "storage_ref list \<Rightarrow> 'j store \<Rightarrow> 'j store \<Rightarrow> string \<Rightarrow> 'j sval option" where
  "restored refs entries S k =
     (if reserved k then None
      else case js_get (user_entries entries) k of
             Some v \<Rightarrow> Some v
           | None \<Rightarrow> if covered refs k then None else js_get S k)"

text \<open>
  The logical content of a persisted store: while an armed journal is present, the data of the
  backup; otherwise the stored data.
\<close>

definition logical :: "'j store \<Rightarrow> string \<Rightarrow> 'j sval option" where
  "logical S =
     (case (js_get S SCHEMA_VERSION_KEY, js_get S SCHEMA_BACKUP_KEY) of
        (Some (SInt v), Some (SBackup b refs entries _)) \<Rightarrow>
          if js_has S SCHEMA_RUNNING_KEY \<and> v < b then restored refs entries S else udata S
      | _ \<Rightarrow> udata S)"

definition wf_migrator :: "'j migrator \<Rightarrow> bool" where
  "wf_migrator M \<longleftrightarrow> sorted (map mg_version (mi_migrations M)) \<and> distinct (map mg_version (mi_migrations M))
     \<and> (\<forall>m \<in> set (mi_migrations M). 1 \<le> mg_version m \<and> mg_version m \<le> mi_maxVersion M)"

text \<open>Every declared reference is usable, and none names the legacy marker.\<close>

definition refs_ok :: "storage_ref list \<Rightarrow> bool" where
  "refs_ok refs \<longleftrightarrow> list_all isValidRef refs \<and> \<not> covered refs LEGACY_VERSION_KEY"

definition wf_refs :: "'j migrator \<Rightarrow> bool" where
  "wf_refs M \<longleftrightarrow> list_all (\<lambda>m. refs_ok (mg_reads m @ mg_writes m)) (mi_migrations M)"

section \<open>Weakest preconditions over every script\<close>

definition wp ::
  "('j, 'a) comp \<Rightarrow> ('a \<Rightarrow> 'j store \<Rightarrow> bool \<Rightarrow> bool) \<Rightarrow> ('j store \<Rightarrow> bool \<Rightarrow> bool) \<Rightarrow> ('j store \<Rightarrow> bool) \<Rightarrow> 'j store \<Rightarrow> bool \<Rightarrow> bool" where
  "wp c Q E K S r \<longleftrightarrow> (\<forall>script. case c \<lparr>ms_store = S, ms_script = script, ms_recorded = r\<rparr> of
     (Done a, s) \<Rightarrow> Q a (ms_store s) (ms_recorded s)
   | (Thrown _, s) \<Rightarrow> E (ms_store s) (ms_recorded s)
   | (Killed, s) \<Rightarrow> K (ms_store s))"

lemma wp_ret [intro!]: "Q a S r \<Longrightarrow> wp (ret a) Q E K S r"
  by (simp add: wp_def ret_def)

lemma wp_throw [intro!]: "E S r \<Longrightarrow> wp (throw e) Q E K S r"
  by (simp add: wp_def throw_def)

lemma mst_eta: "\<lparr>ms_store = ms_store s, ms_script = ms_script s, ms_recorded = ms_recorded s\<rparr> = s"
  by simp

lemma wp_bind [intro!]: "wp c (\<lambda>a S r. wp (f a) Q E K S r) E K S r \<Longrightarrow> wp (bind c f) Q E K S r"
  unfolding wp_def
proof
  fix script
  let ?s = "\<lparr>ms_store = S, ms_script = script, ms_recorded = r\<rparr>"
  assume a: "\<forall>script. case c \<lparr>ms_store = S, ms_script = script, ms_recorded = r\<rparr> of
     (Done a, s) \<Rightarrow> \<forall>script. case f a \<lparr>ms_store = ms_store s, ms_script = script, ms_recorded = ms_recorded s\<rparr> of
          (Done a, s) \<Rightarrow> Q a (ms_store s) (ms_recorded s) | (Thrown _, s) \<Rightarrow> E (ms_store s) (ms_recorded s)
        | (Killed, s) \<Rightarrow> K (ms_store s)
   | (Thrown _, s) \<Rightarrow> E (ms_store s) (ms_recorded s) | (Killed, s) \<Rightarrow> K (ms_store s)"
  obtain x s where x: "c ?s = (x, s)" by force
  show "case bind c f ?s of (Done a, s) \<Rightarrow> Q a (ms_store s) (ms_recorded s)
     | (Thrown _, s) \<Rightarrow> E (ms_store s) (ms_recorded s) | (Killed, s) \<Rightarrow> K (ms_store s)"
  proof (cases x)
    case (Done b)
    with a [rule_format, of script] x
    have "case f b \<lparr>ms_store = ms_store s, ms_script = ms_script s, ms_recorded = ms_recorded s\<rparr> of
          (Done a, s) \<Rightarrow> Q a (ms_store s) (ms_recorded s) | (Thrown _, s) \<Rightarrow> E (ms_store s) (ms_recorded s)
        | (Killed, s) \<Rightarrow> K (ms_store s)" by simp
    with x Done show ?thesis by (simp add: bind_def mst_eta)
  qed (use a [rule_format, of script] x in \<open>simp_all add: bind_def\<close>)
qed

lemma wp_try [intro!]:
  "wp c Q (\<lambda>S r. \<forall>e. wp (h e) Q E K S r) K S r \<Longrightarrow> wp (try_catch c h) Q E K S r"
  unfolding wp_def
proof
  fix script
  let ?s = "\<lparr>ms_store = S, ms_script = script, ms_recorded = r\<rparr>"
  assume a: "\<forall>script. case c \<lparr>ms_store = S, ms_script = script, ms_recorded = r\<rparr> of
     (Done a, s) \<Rightarrow> Q a (ms_store s) (ms_recorded s)
   | (Thrown _, s) \<Rightarrow> \<forall>e script. case h e \<lparr>ms_store = ms_store s, ms_script = script, ms_recorded = ms_recorded s\<rparr> of
          (Done a, s) \<Rightarrow> Q a (ms_store s) (ms_recorded s) | (Thrown _, s) \<Rightarrow> E (ms_store s) (ms_recorded s)
        | (Killed, s) \<Rightarrow> K (ms_store s)
   | (Killed, s) \<Rightarrow> K (ms_store s)"
  obtain x s where x: "c ?s = (x, s)" by force
  show "case try_catch c h ?s of (Done a, s) \<Rightarrow> Q a (ms_store s) (ms_recorded s)
     | (Thrown _, s) \<Rightarrow> E (ms_store s) (ms_recorded s) | (Killed, s) \<Rightarrow> K (ms_store s)"
  proof (cases x)
    case (Thrown e)
    with a [rule_format, of script] x
    have "case h e \<lparr>ms_store = ms_store s, ms_script = ms_script s, ms_recorded = ms_recorded s\<rparr> of
          (Done a, s) \<Rightarrow> Q a (ms_store s) (ms_recorded s) | (Thrown _, s) \<Rightarrow> E (ms_store s) (ms_recorded s)
        | (Killed, s) \<Rightarrow> K (ms_store s)" by simp
    with x Thrown show ?thesis by (simp add: try_catch_def mst_eta)
  qed (use a [rule_format, of script] x in \<open>simp_all add: try_catch_def\<close>)
qed

lemma wp_mono:
  assumes "wp c Q E K S r" and "\<And>a S r. Q a S r \<Longrightarrow> Q' a S r" and "\<And>S r. E S r \<Longrightarrow> E' S r" and "\<And>S. K S \<Longrightarrow> K' S"
  shows "wp c Q' E' K' S r"
  unfolding wp_def
proof
  fix script
  show "case c \<lparr>ms_store = S, ms_script = script, ms_recorded = r\<rparr> of
     (Done a, s) \<Rightarrow> Q' a (ms_store s) (ms_recorded s)
   | (Thrown _, s) \<Rightarrow> E' (ms_store s) (ms_recorded s) | (Killed, s) \<Rightarrow> K' (ms_store s)"
    using assms(1) [unfolded wp_def, rule_format, of script] assms(2-4) by (auto split: res.splits)
qed

lemma wp_get [intro!]: "Q (js_pick ks S) S r \<Longrightarrow> E S r \<Longrightarrow> K S \<Longrightarrow> wp (st_get ks) Q E K S r"
  unfolding wp_def st_get_def next_outcome_def by (auto split: list.split outcome.split)

lemma wp_set:
  assumes "Q () (js_sets items S) r"
    and "\<And>P. (length items \<le> 1 \<Longrightarrow> \<forall>x. \<not> P x) \<Longrightarrow> E (js_sets (filter P items) S) r"
    and "\<And>P. K (js_sets (filter P items) S)"
  shows "wp (st_set items) Q E K S r"
  unfolding wp_def st_set_def next_outcome_def using assms
  by (auto split: list.split outcome.split)

lemma wp_set1:
  assumes "Q () (js_set k v S) r" and "E S r" and "K S" and "K (js_set k v S)"
  shows "wp (st_set [(k, v)]) Q E K S r"
proof (rule wp_set)
  show "K (js_sets (filter P [(k, v)]) S)" for P using assms(3,4) by simp
qed (use assms in auto)

lemma wp_remove:
  assumes "Q () (js_dels ks S) r"
    and "\<And>P. (length ks \<le> 1 \<Longrightarrow> \<forall>x. \<not> P x) \<Longrightarrow> E (js_dels (filter P ks) S) r"
    and "\<And>P. K (js_dels (filter P ks) S)"
  shows "wp (st_remove ks) Q E K S r"
  unfolding wp_def st_remove_def next_outcome_def using assms
  by (auto split: list.split outcome.split)

lemma wp_remove1:
  assumes "Q () (js_del k S) r" and "E S r" and "K S" and "K (js_del k S)"
  shows "wp (st_remove [k]) Q E K S r"
  by (rule wp_remove) (use assms in auto)

section \<open>Keys and partial writes\<close>

lemmas schema_keys = SCHEMA_VERSION_KEY_def SCHEMA_RUNNING_KEY_def SCHEMA_BACKUP_KEY_def SCHEMA_ATTEMPTS_KEY_def
  LEGACY_VERSION_KEY_def RESERVED_PREFIX_def

lemma reserved_keys [simp]:
  "reserved SCHEMA_VERSION_KEY" "reserved SCHEMA_RUNNING_KEY" "reserved SCHEMA_BACKUP_KEY" "reserved SCHEMA_ATTEMPTS_KEY"
  "\<not> reserved LEGACY_VERSION_KEY"
  by (simp_all add: reserved_def schema_keys)

lemma schema_keys_distinct [simp]:
  "SCHEMA_VERSION_KEY \<noteq> SCHEMA_RUNNING_KEY" "SCHEMA_VERSION_KEY \<noteq> SCHEMA_BACKUP_KEY" "SCHEMA_VERSION_KEY \<noteq> SCHEMA_ATTEMPTS_KEY"
  "SCHEMA_RUNNING_KEY \<noteq> SCHEMA_VERSION_KEY" "SCHEMA_RUNNING_KEY \<noteq> SCHEMA_BACKUP_KEY" "SCHEMA_RUNNING_KEY \<noteq> SCHEMA_ATTEMPTS_KEY"
  "SCHEMA_BACKUP_KEY \<noteq> SCHEMA_VERSION_KEY" "SCHEMA_BACKUP_KEY \<noteq> SCHEMA_RUNNING_KEY" "SCHEMA_BACKUP_KEY \<noteq> SCHEMA_ATTEMPTS_KEY"
  "SCHEMA_ATTEMPTS_KEY \<noteq> SCHEMA_VERSION_KEY" "SCHEMA_ATTEMPTS_KEY \<noteq> SCHEMA_RUNNING_KEY" "SCHEMA_ATTEMPTS_KEY \<noteq> SCHEMA_BACKUP_KEY"
  by (simp_all add: schema_keys)

lemma udata_set_reserved [simp]: "reserved k \<Longrightarrow> udata (js_set k v S) = udata S"
  by (rule ext) (auto simp: udata_def js_get_set)

lemma udata_del_reserved [simp]: "reserved k \<Longrightarrow> udata (js_del k S) = udata S"
  by (rule ext) (auto simp: udata_def js_get_del)

lemma restored_set_reserved [simp]: "reserved k \<Longrightarrow> restored refs es (js_set k v S) = restored refs es S"
  by (rule ext) (auto simp: restored_def js_get_set split: option.split)

lemma restored_del_reserved [simp]: "reserved k \<Longrightarrow> restored refs es (js_del k S) = restored refs es S"
  by (rule ext) (auto simp: restored_def js_get_del split: option.split)

text \<open>Stores that differ at most on covered user keys.\<close>

definition same_outside :: "storage_ref list \<Rightarrow> 'j store \<Rightarrow> 'j store \<Rightarrow> bool" where
  "same_outside refs S S' \<longleftrightarrow> (\<forall>k. reserved k \<or> \<not> covered refs k \<longrightarrow> js_get S' k = js_get S k)"

lemma same_outside_refl [simp]: "same_outside refs S S"
  by (simp add: same_outside_def)

lemma same_outside_trans: "same_outside refs S T \<Longrightarrow> same_outside refs T U \<Longrightarrow> same_outside refs S U"
  by (simp add: same_outside_def)

lemma same_outside_sets:
  assumes "\<forall>k \<in> set (js_keys items). covered refs k \<and> \<not> reserved k"
  shows "same_outside refs S (js_sets (filter P items) S)"
  unfolding same_outside_def
proof (intro allI impI)
  fix k
  assume "reserved k \<or> \<not> covered refs k"
  with assms have "k \<notin> set (js_keys (filter P items))" by auto
  then show "js_get (js_sets (filter P items) S) k = js_get S k" by (rule js_get_sets_notin)
qed

lemma same_outside_dels:
  assumes "\<forall>k \<in> set ks. covered refs k \<and> \<not> reserved k"
  shows "same_outside refs S (js_dels (filter P ks) S)"
  using assms by (auto simp: same_outside_def js_get_dels)

lemma same_outside_restored: "same_outside refs S S' \<Longrightarrow> restored refs es S' = restored refs es S"
  by (rule ext) (auto simp: same_outside_def restored_def split: option.split)

lemma same_outside_reserved: "same_outside refs S S' \<Longrightarrow> reserved k \<Longrightarrow> js_get S' k = js_get S k"
  by (simp add: same_outside_def)

section \<open>Safe stores\<close>

definition at_version ::
  "'j migrator \<Rightarrow> int \<Rightarrow> (string \<Rightarrow> 'j sval option) \<Rightarrow> int \<Rightarrow> (string \<Rightarrow> 'j sval option) \<Rightarrow> 'j store \<Rightarrow> bool" where
  "at_version M v0 d0 v d S \<longleftrightarrow> js_get S SCHEMA_VERSION_KEY = Some (SInt v) \<and> 0 \<le> v \<and> v \<le> mi_maxVersion M \<and> legit M v0 d0 v d"

definition plain :: "'j migrator \<Rightarrow> int \<Rightarrow> (string \<Rightarrow> 'j sval option) \<Rightarrow> int \<Rightarrow> 'j store \<Rightarrow> bool" where
  "plain M v0 d0 v S \<longleftrightarrow> at_version M v0 d0 v (udata S) S
     \<and> (\<forall>x. js_get S SCHEMA_BACKUP_KEY = Some x \<longrightarrow>
          (\<exists>b refs es c. x = SBackup b refs es c \<and> list_all isValidRef refs \<and> 1 \<le> b \<and> b \<le> mi_maxVersion M
             \<and> (js_has S SCHEMA_RUNNING_KEY \<longrightarrow> b \<le> v)))"

definition journal_entries :: "storage_ref list \<Rightarrow> 'j store \<Rightarrow> bool" where
  "journal_entries refs es \<longleftrightarrow> list_all isValidRef refs \<and> distinct (js_keys es)
     \<and> (\<forall>k \<in> set (js_keys es). covered refs k \<and> \<not> reserved k)"

definition armed ::
  "'j migrator \<Rightarrow> int \<Rightarrow> (string \<Rightarrow> 'j sval option) \<Rightarrow> int \<Rightarrow> int \<Rightarrow> storage_ref list \<Rightarrow> 'j store \<Rightarrow> 'j store \<Rightarrow> bool" where
  "armed M v0 d0 v b refs es S \<longleftrightarrow> at_version M v0 d0 v (restored refs es S) S \<and> js_has S SCHEMA_RUNNING_KEY
     \<and> (\<exists>c. js_get S SCHEMA_BACKUP_KEY = Some (SBackup b refs es c))
     \<and> v < b \<and> 1 \<le> b \<and> b \<le> mi_maxVersion M \<and> journal_entries refs es"

definition safe :: "'j migrator \<Rightarrow> int \<Rightarrow> (string \<Rightarrow> 'j sval option) \<Rightarrow> 'j store \<Rightarrow> bool" where
  "safe M v0 d0 S \<longleftrightarrow> (\<exists>v. plain M v0 d0 v S \<or> (\<exists>b refs es. armed M v0 d0 v b refs es S))"

lemma safe_plain [intro]: "plain M v0 d0 v S \<Longrightarrow> safe M v0 d0 S"
  by (auto simp: safe_def)

lemma safe_armed [intro]: "armed M v0 d0 v b refs es S \<Longrightarrow> safe M v0 d0 S"
  by (auto simp: safe_def)

lemma safe_logical:
  assumes "safe M v0 d0 S"
  shows "\<exists>v. js_get S SCHEMA_VERSION_KEY = Some (SInt v) \<and> v \<le> mi_maxVersion M \<and> legit M v0 d0 v (logical S)"
  using assms unfolding safe_def
proof (elim exE disjE)
  fix v
  assume p: "plain M v0 d0 v S"
  then have "logical S = udata S"
    by (cases "js_get S SCHEMA_BACKUP_KEY") (auto simp: plain_def at_version_def logical_def)
  with p show ?thesis by (auto simp: plain_def at_version_def)
next
  fix v b refs es
  assume "armed M v0 d0 v b refs es S"
  then show ?thesis by (auto simp: armed_def at_version_def logical_def)
qed

lemma armed_same: "armed M v0 d0 v b refs es S \<Longrightarrow> same_outside refs S S' \<Longrightarrow> armed M v0 d0 v b refs es S'"
  by (simp add: armed_def at_version_def same_outside_restored same_outside_reserved)

lemma armed_mark: "armed M v0 d0 v b refs es S \<Longrightarrow> armed M v0 d0 v b refs es (js_set SCHEMA_BACKUP_KEY (SBackup b refs es c) S)"
  by (auto simp: armed_def at_version_def js_get_set)

lemma armed_bump: "armed M v0 d0 v b refs es S \<Longrightarrow> armed M v0 d0 v b refs es (js_set SCHEMA_ATTEMPTS_KEY x S)"
  by (auto simp: armed_def at_version_def js_get_set)

text \<open>Once the data is restored, dropping any part of the journal leaves a safe store.\<close>

lemma armed_clear:
  assumes "armed M v0 d0 v b refs es S" and "udata S = restored refs es S"
  shows "safe M v0 d0 (js_dels (filter P [SCHEMA_BACKUP_KEY, SCHEMA_RUNNING_KEY]) S)"
proof -
  let ?S = "js_dels (filter P [SCHEMA_BACKUP_KEY, SCHEMA_RUNNING_KEY]) S"
  show ?thesis
  proof (cases "P SCHEMA_BACKUP_KEY \<or> P SCHEMA_RUNNING_KEY")
    case True
    with assms have "plain M v0 d0 v ?S"
      by (auto simp: armed_def plain_def at_version_def js_get_del journal_entries_def)
    then show ?thesis ..
  next
    case False
    with assms(1) show ?thesis by auto
  qed
qed

lemma armed_cleared:
  "armed M v0 d0 v b refs es S \<Longrightarrow> udata S = restored refs es S \<Longrightarrow>
     plain M v0 d0 v (js_del SCHEMA_RUNNING_KEY (js_del SCHEMA_BACKUP_KEY S))"
  by (auto simp: armed_def plain_def at_version_def js_get_del)

section \<open>Restoring\<close>

lemma user_entries_get:
  assumes "journal_entries refs es" and "\<not> covered refs LEGACY_VERSION_KEY"
  shows "js_get (user_entries es) k = js_get es k"
proof -
  have "js_has es k \<Longrightarrow> \<not> (reserved k \<or> k = LEGACY_VERSION_KEY)"
    using assms unfolding journal_entries_def js_has_iff_key by blast
  then show ?thesis unfolding user_entries_def by (cases "js_get es k") (auto simp: js_get_filter_key)
qed

lemma user_entries_keys: "set (js_keys (user_entries es)) \<subseteq> set (js_keys es)"
  by (auto simp: user_entries_def)

lemma distinct_user_entries: "distinct (js_keys es) \<Longrightarrow> distinct (js_keys (user_entries es))"
  unfolding user_entries_def by (rule distinct_filter_keys)

lemma wp_footprint [intro!]:
  "Q (filter (\<lambda>k. \<not> reserved k \<and> covered refs k) (js_keys S)) S r \<Longrightarrow> E S r \<Longrightarrow> K S \<Longrightarrow> wp (footprintKeysFor refs) Q E K S r"
  unfolding footprintKeysFor_def by auto

lemma wp_set_if_any:
  assumes "Q () (js_sets items S) r" and "\<And>P. E (js_sets (filter P items) S) r" and "\<And>P. K (js_sets (filter P items) S)"
  shows "wp (set_if_any items) Q E K S r"
  unfolding set_if_any_def using assms by (auto intro!: wp_set)

lemma wp_remove_if_any:
  assumes "Q () (js_dels ks S) r" and "\<And>P. E (js_dels (filter P ks) S) r" and "\<And>P. K (js_dels (filter P ks) S)"
  shows "wp (remove_if_any ks) Q E K S r"
  unfolding remove_if_any_def using assms by (auto intro!: wp_remove)

lemma restored_result:
  assumes "distinct (js_keys es)"
  shows "udata (js_dels (filter (\<lambda>k. k \<notin> set (js_keys (user_entries es))) (filter (\<lambda>k. \<not> reserved k \<and> covered refs k) (js_keys S)))
           (js_sets (user_entries es) S)) = restored refs es S"
proof
  fix k
  let ?R = "filter (\<lambda>k. k \<notin> set (js_keys (user_entries es))) (filter (\<lambda>k. \<not> reserved k \<and> covered refs k) (js_keys S))"
  have k: "js_get (user_entries es) k = None \<longleftrightarrow> k \<notin> set (js_keys (user_entries es))"
    using js_has_iff_key [of "user_entries es" k] by blast
  have s: "js_get S k = None \<longleftrightarrow> k \<notin> set (js_keys S)" using js_has_iff_key [of S k] by blast
  show "udata (js_dels ?R (js_sets (user_entries es) S)) k = restored refs es S k"
    using k s by (cases "js_get (user_entries es) k")
      (auto simp: udata_def restored_def js_get_dels js_get_sets [OF distinct_user_entries [OF assms]])
qed

lemma wp_restore:
  assumes a: "armed M v0 d0 v b refs es S"
    and Q: "\<And>S'. armed M v0 d0 v b refs es S' \<Longrightarrow> udata S' = restored refs es S' \<Longrightarrow> Q () S' r"
    and E: "\<And>S'. armed M v0 d0 v b refs es S' \<Longrightarrow> E S' r"
    and K: "\<And>S'. armed M v0 d0 v b refs es S' \<Longrightarrow> K S'"
  shows "wp (restore refs es) Q E K S r"
proof -
  have j: "journal_entries refs es" using a by (simp add: armed_def)
  let ?ue = "user_entries es"
  let ?R = "filter (\<lambda>k. k \<notin> set (js_keys ?ue)) (filter (\<lambda>k. \<not> reserved k \<and> covered refs k) (js_keys S))"
  have ue: "\<forall>k \<in> set (js_keys ?ue). covered refs k \<and> \<not> reserved k"
    using j user_entries_keys [of es] unfolding journal_entries_def by blast
  have R: "\<forall>k \<in> set ?R. covered refs k \<and> \<not> reserved k" by auto
  have s1: "same_outside refs S (js_sets (filter P ?ue) S)" for P by (rule same_outside_sets [OF ue])
  have s1': "same_outside refs S (js_sets ?ue S)" using s1 [of "\<lambda>_. True"] by simp
  have s2: "same_outside refs S (js_dels (filter P ?R) (js_sets ?ue S))" for P
    by (rule same_outside_trans [OF s1' same_outside_dels [OF R]])
  have s2': "same_outside refs S (js_dels ?R (js_sets ?ue S))" using s2 [of "\<lambda>_. True"] by simp
  have fin: "udata (js_dels ?R (js_sets ?ue S)) = restored refs es (js_dels ?R (js_sets ?ue S))"
    using restored_result [of es refs S] j same_outside_restored [OF s2', of es] by (simp add: journal_entries_def)
  show ?thesis
    unfolding restore_def Let_def
    by (intro wp_bind wp_footprint wp_set_if_any wp_remove_if_any)
      (use a s1 s2 s2' fin in \<open>auto intro!: Q E K intro: armed_same\<close>)
qed

lemma wp_try_restore:
  assumes "armed M v0 d0 v b refs es S"
    and "\<And>S'. armed M v0 d0 v b refs es S' \<Longrightarrow> udata S' = restored refs es S' \<Longrightarrow> Q None S' r"
    and "\<And>S' e. armed M v0 d0 v b refs es S' \<Longrightarrow> Q (Some e) S' r"
    and "\<And>S'. armed M v0 d0 v b refs es S' \<Longrightarrow> K S'"
  shows "wp (try_restore refs es) Q E K S r"
  unfolding try_restore_def
  by (intro wp_try wp_bind wp_restore [OF assms(1)]) (use assms in \<open>auto\<close>)

lemma wp_bump:
  assumes "\<And>n. Q n (js_set SCHEMA_ATTEMPTS_KEY (SAttempt v ph n) S) True" and "E S r" and "K S"
    and "\<And>n. K (js_set SCHEMA_ATTEMPTS_KEY (SAttempt v ph n) S)"
  shows "wp (bumpAttempts v ph) Q E K S r"
  unfolding bumpAttempts_def Let_def
  by (intro wp_bind wp_get wp_set1) (use assms in \<open>auto simp: wp_def\<close>)

lemma wp_mark:
  assumes "armed M v0 d0 v b refs es S"
    and "\<And>S'. armed M v0 d0 v b refs es S' \<Longrightarrow> udata S' = udata S \<Longrightarrow> restored refs es S' = restored refs es S
        \<Longrightarrow> js_get S' SCHEMA_BACKUP_KEY = Some (SBackup b refs es True) \<Longrightarrow> Q () S' r"
    and "\<And>S'. armed M v0 d0 v b refs es S' \<Longrightarrow> E S' r"
    and "\<And>S'. armed M v0 d0 v b refs es S' \<Longrightarrow> K S'"
  shows "wp (markJournalCounted b refs es) Q E K S r"
  unfolding markJournalCounted_def
  by (rule wp_set1) (use assms armed_mark [OF assms(1)] in \<open>auto simp: js_get_set\<close>)

section \<open>The migration itself\<close>

text \<open>Computations that only read.\<close>

definition keeps :: "('j, 'a) comp \<Rightarrow> bool" where
  "keeps c \<longleftrightarrow> (\<forall>s. ms_store (snd (c s)) = ms_store s \<and> ms_recorded (snd (c s)) = ms_recorded s)"

lemma keeps_ret [intro!]: "keeps (ret a)"
  by (simp add: keeps_def ret_def)

lemma keeps_throw [intro!]: "keeps (throw e)"
  by (simp add: keeps_def throw_def)

lemma keeps_bind [intro!]:
  assumes "keeps c" and "\<And>a. keeps (f a)"
  shows "keeps (bind c f)"
  unfolding keeps_def
proof
  fix s
  obtain x s' where x: "c s = (x, s')" by force
  with assms(1) have "ms_store s' = ms_store s" "ms_recorded s' = ms_recorded s" by (metis keeps_def snd_conv)+
  with x assms(2) show "ms_store (snd (bind c f s)) = ms_store s \<and> ms_recorded (snd (bind c f s)) = ms_recorded s"
    by (cases x) (auto simp: bind_def keeps_def)
qed

lemma keeps_get [intro!]: "keeps (st_get ks)"
  by (auto simp: keeps_def st_get_def next_outcome_def split: list.split outcome.split)

lemma keeps_parse [intro!]: "keeps (staging_parse coerce k v)"
  unfolding staging_parse_def by (auto split: option.split)

lemma keeps_parse_rows [intro!]: "keeps (parse_rows coerce n rows)"
proof (induction rows)
  case (Cons p rows)
  then show ?case by (cases p) auto
qed auto

lemma keeps_value [intro!]: "keeps (staging_value coerce k st)"
  unfolding staging_value_def by (auto split: option.split staged_op.split)

lemma keeps_run_up: "keeps (run_up p coerce st)"
proof (induction p arbitrary: st)
  case (PRows root f)
  then show ?case by (auto simp: staging_rows_def)
next
  case (PValue key f)
  then show ?case by auto
qed auto

lemma wp_keeps:
  assumes "keeps c" and "\<And>a s. ms_store s = S \<Longrightarrow> fst (c s) = Done a \<Longrightarrow> Q a S r" and "E S r" and "K S"
  shows "wp c Q E K S r"
  unfolding wp_def
proof
  fix script
  let ?s = "\<lparr>ms_store = S, ms_script = script, ms_recorded = r\<rparr>"
  obtain x s' where x: "c ?s = (x, s')" by force
  with assms(1) have "ms_store s' = S" "ms_recorded s' = r" unfolding keeps_def by (metis mst.select_convs(1,3) snd_conv)+
  with x assms(2) [of ?s] assms(3,4) show "case c ?s of (Done a, s) \<Rightarrow> Q a (ms_store s) (ms_recorded s)
      | (Thrown _, s) \<Rightarrow> E (ms_store s) (ms_recorded s) | (Killed, s) \<Rightarrow> K (ms_store s)"
    by (cases x) auto
qed

lemma distinct_setRows: "distinct (js_keys st) \<Longrightarrow> distinct (js_keys (staging_setRows root ups dels st))"
  by (simp add: staging_setRows_def case_prod_unfold distinct_fold_js_set)

lemma bind_Done: "fst (bind c f s) = Done b \<Longrightarrow> \<exists>a s'. c s = (Done a, s') \<and> fst (f a s') = Done b"
  by (auto simp: bind_def split: prod.splits res.splits)

lemma run_up_distinct:
  "distinct (js_keys st) \<Longrightarrow> fst (run_up p coerce st s) = Done st' \<Longrightarrow> distinct (js_keys st')"
proof (induction p arbitrary: st s)
  case (PRows root f)
  from PRows(3) obtain rows s' where "fst (run_up (f rows) coerce st s') = Done st'" by (auto dest!: bind_Done)
  from PRows(1) [OF rangeI PRows(2) this] show ?case .
next
  case (PValue key f)
  from PValue(3) obtain v s' where "fst (run_up (f v) coerce st s') = Done st'" by (auto dest!: bind_Done)
  from PValue(1) [OF rangeI PValue(2) this] show ?case .
next
  case (PSetRows root ups dels p)
  from PSetRows(1) [OF distinct_setRows [OF PSetRows(2)]] PSetRows(3) show ?case by simp
qed (auto simp: ret_def throw_def distinct_setRows distinct_update)

lemma diff_sets_get:
  "distinct (js_keys st) \<Longrightarrow> js_get (diff_sets st) k = (case js_get st k of Some (StSet r) \<Rightarrow> Some (SUser r) | _ \<Rightarrow> None)"
proof (induction st)
  case (Cons p st)
  obtain k' x where p: "p = (k', x)" by force
  with Cons.prems have n: "js_get st k' = None" by (simp add: map_of_eq_None_iff)
  have c: "diff_sets (p # st) = (case x of StSet r \<Rightarrow> [(k', SUser r)] | StRemove \<Rightarrow> []) @ diff_sets st"
    by (simp add: diff_sets_def p)
  from Cons p n show ?case unfolding c by (cases x) (auto split: option.split staged_op.split)
qed (simp add: diff_sets_def)

lemma diff_removes_set:
  "distinct (js_keys st) \<Longrightarrow> k \<in> set (diff_removes st) \<longleftrightarrow> js_get st k = Some StRemove"
proof (induction st)
  case (Cons p st)
  obtain k' x where p: "p = (k', x)" by force
  with Cons.prems have n: "js_get st k' = None" by (simp add: map_of_eq_None_iff)
  have c: "diff_removes (p # st) = (case x of StSet r \<Rightarrow> [] | StRemove \<Rightarrow> [k']) @ diff_removes st"
    by (simp add: diff_removes_def p)
  from Cons p n show ?case unfolding c by (cases x) auto
qed (simp add: diff_removes_def)

lemma diff_keys: "set (js_keys (diff_sets st)) \<union> set (diff_removes st) = set (js_keys st)"
proof (induction st)
  case (Cons p st)
  obtain k x where p: "p = (k, x)" by force
  with Cons show ?case by (cases x) (auto simp: diff_sets_def diff_removes_def)
qed (simp add: diff_sets_def diff_removes_def)

lemma distinct_diff_sets: "distinct (js_keys st) \<Longrightarrow> distinct (js_keys (diff_sets st))"
proof (induction st)
  case (Cons p st)
  obtain k x where p: "p = (k, x)" by force
  have c: "diff_sets (p # st) = (case x of StSet r \<Rightarrow> [(k, SUser r)] | StRemove \<Rightarrow> []) @ diff_sets st"
    by (simp add: diff_sets_def p)
  have "k \<notin> set (js_keys (diff_sets st))" using diff_keys [of st] Cons.prems p by auto
  with Cons p show ?case unfolding c by (cases x) auto
qed (simp add: diff_sets_def)

lemma commit_result:
  assumes "distinct (js_keys st)" and "\<forall>k \<in> set (js_keys st). \<not> reserved k"
  shows "udata (js_dels (diff_removes st) (js_sets (diff_sets st) S)) = apply_diff st (udata S)"
proof
  fix k
  have "js_has st k \<Longrightarrow> \<not> reserved k" using assms(2) js_has_iff_key by metis
  then show "udata (js_dels (diff_removes st) (js_sets (diff_sets st) S)) k = apply_diff st (udata S) k"
    using diff_removes_set [OF assms(1), of k] diff_sets_get [OF assms(1), of k]
    by (cases "js_get st k")
      (auto simp: udata_def apply_diff_def js_get_dels js_get_sets [OF distinct_diff_sets [OF assms(1)]]
        split: staged_op.split)
qed

lemma wp_guard:
  assumes "(\<forall>k \<in> set ks. \<not> reserved k \<and> k \<noteq> LEGACY_VERSION_KEY \<and> covered (mg_writes m) k) \<Longrightarrow> Q () S r" and "E S r"
  shows "wp (guardCommit m ks) Q E K S r"
  unfolding guardCommit_def Let_def using assms by (auto simp: filter_empty_conv)

lemma covered_append: "covered (xs @ ys) k \<longleftrightarrow> covered xs k \<or> covered ys k"
  by (simp add: covered_def)

text \<open>The migration that follows the store's version.\<close>

definition next_migration :: "'j migrator \<Rightarrow> int \<Rightarrow> 'j migration \<Rightarrow> bool" where
  "next_migration M v m \<longleftrightarrow> m \<in> set (mi_migrations M) \<and> v < mg_version m
     \<and> (\<forall>m' \<in> set (mi_migrations M). mg_version m' \<le> v \<or> mg_version m \<le> mg_version m')"

definition running :: "'j store \<Rightarrow> bool" where
  "running S \<longleftrightarrow> js_has S SCHEMA_RUNNING_KEY"

lemma armed_stamp:
  assumes "armed M v0 d0 v (mg_version m) refs es S" and "legit M v0 d0 (mg_version m) (udata S)"
  shows "plain M v0 d0 (mg_version m) (js_set SCHEMA_VERSION_KEY (SInt (mg_version m)) S) \<and>
    running (js_set SCHEMA_VERSION_KEY (SInt (mg_version m)) S)"
  using assms by (auto simp: armed_def plain_def at_version_def js_get_set running_def journal_entries_def)

lemma wp_commit:
  fixes m :: "'j migration"
  defines "refs \<equiv> mg_reads m @ mg_writes m"
  assumes a: "armed M v0 d0 v (mg_version m) refs es S" and u: "udata S = restored refs es S" and n: "next_migration M v m"
    and Q: "\<And>S'. plain M v0 d0 (mg_version m) S' \<Longrightarrow> running S' \<Longrightarrow> Q () S' r"
    and E: "\<And>S'. armed M v0 d0 v (mg_version m) refs es S' \<Longrightarrow> E S' r"
    and K: "\<And>S'. safe M v0 d0 S' \<Longrightarrow> K S'"
  shows "wp (commit M m) Q E K S r"
  unfolding commit_def
proof (rule wp_bind, rule wp_keeps [OF keeps_run_up])
  fix st s
  assume s: "ms_store s = S" and run: "fst (run_up (mg_up m) (mi_coerce M) [] s) = Done st"
  have d: "distinct (js_keys st)" using run_up_distinct [OF _ run] by simp
  let ?S1 = "js_sets (diff_sets st) S"
  let ?S2 = "js_dels (diff_removes st) ?S1"
  show "wp (bind (guardCommit m (js_keys (diff_sets st) @ diff_removes st)) (\<lambda>_. bind (set_if_any (diff_sets st))
      (\<lambda>_. bind (remove_if_any (diff_removes st)) (\<lambda>_. st_set [(SCHEMA_VERSION_KEY, SInt (mg_version m))])))) Q E K S r"
  proof (rule wp_bind, rule wp_guard)
    assume g: "\<forall>k \<in> set (js_keys (diff_sets st) @ diff_removes st).
      \<not> reserved k \<and> k \<noteq> LEGACY_VERSION_KEY \<and> covered (mg_writes m) k"
    then have keys: "\<forall>k \<in> set (js_keys st). covered (mg_writes m) k \<and> \<not> reserved k" using diff_keys [of st] by auto
    have ks: "\<forall>k \<in> set (js_keys (diff_sets st)). covered refs k \<and> \<not> reserved k"
      and kr: "\<forall>k \<in> set (diff_removes st). covered refs k \<and> \<not> reserved k"
      using g by (auto simp: refs_def covered_append)
    have s1: "same_outside refs S (js_sets (filter P (diff_sets st)) S)" for P by (rule same_outside_sets [OF ks])
    then have s1': "same_outside refs S ?S1" using s1 [of "\<lambda>_. True"] by simp
    have s2: "same_outside refs S (js_dels (filter P (diff_removes st)) ?S1)" for P
      by (rule same_outside_trans [OF s1' same_outside_dels [OF kr]])
    then have s2': "same_outside refs S ?S2" using s2 [of "\<lambda>_. True"] by simp
    have a1: "armed M v0 d0 v (mg_version m) refs es (js_sets (filter P (diff_sets st)) S)" for P
      by (rule armed_same [OF a s1])
    have a2: "armed M v0 d0 v (mg_version m) refs es (js_dels (filter P (diff_removes st)) ?S1)" for P
      by (rule armed_same [OF a s2])
    have a2': "armed M v0 d0 v (mg_version m) refs es ?S2" by (rule armed_same [OF a s2'])
    have "legit M v0 d0 v (udata S)" using a u by (simp add: armed_def at_version_def)
    then have "legit M v0 d0 (mg_version m) (apply_diff st (udata S))"
      using n s run keys by (intro legit_step [where s = s]) (auto simp: next_migration_def)
    moreover have "udata ?S2 = apply_diff st (udata S)" using keys by (intro commit_result [OF d]) blast
    ultimately have "legit M v0 d0 (mg_version m) (udata ?S2)" by simp
    from armed_stamp [OF a2' this] have p: "plain M v0 d0 (mg_version m) (js_set SCHEMA_VERSION_KEY (SInt (mg_version m)) ?S2)"
      "running (js_set SCHEMA_VERSION_KEY (SInt (mg_version m)) ?S2)" by auto
    show "wp (bind (set_if_any (diff_sets st)) (\<lambda>_. bind (remove_if_any (diff_removes st))
        (\<lambda>_. st_set [(SCHEMA_VERSION_KEY, SInt (mg_version m))]))) Q E K S r"
      by (intro wp_bind wp_set_if_any wp_remove_if_any wp_set1)
        (use a1 a2 a2' p Q in \<open>auto intro!: E K\<close>)
  qed (use a E in auto)
qed (use a E K in auto)

section \<open>One migration, then all of them\<close>

definition snap :: "string list \<Rightarrow> 'j store \<Rightarrow> 'j store" where
  "snap keys got = fold (\<lambda>k out. case js_get got k of None \<Rightarrow> out | Some v \<Rightarrow> js_set k v out) keys []"

lemma snap_get: "js_get (snap keys (js_pick (Some keys) S)) k = (if k \<in> set keys then js_get S k else None)"
  unfolding snap_def js_get_pick_acc by (simp add: js_get_pick)

lemma snap_distinct: "distinct (js_keys (snap keys (got :: 'j store)))"
proof -
  have "distinct (js_keys acc) \<Longrightarrow>
      distinct (js_keys (fold (\<lambda>k out. case js_get got k of None \<Rightarrow> out | Some v \<Rightarrow> js_set k v out) keys acc))" for acc :: "'j store"
    by (induction keys arbitrary: acc) (auto simp: distinct_update split: option.split)
  then show ?thesis by (simp add: snap_def)
qed

lemma wp_snapshot:
  assumes "\<And>es. distinct (js_keys es) \<Longrightarrow> (\<And>k. js_get es k = (if k \<in> set keys then js_get S k else None)) \<Longrightarrow> Q es S r"
    and "E S r" and "K S"
  shows "wp (snapshot keys) Q E K S r"
  unfolding snapshot_def snap_def [symmetric] using assms
  by (auto simp: snap_get snap_distinct)

lemma arm:
  assumes p: "plain M v0 d0 v S" and "running S" and m: "next_migration M v m" and wf: "wf_migrator M" "wf_refs M"
    and es: "distinct (js_keys es)"
      "\<And>k. js_get es k = (if k \<in> set (filter (\<lambda>k. \<not> reserved k \<and> covered refs k) (js_keys S)) then js_get S k else None)"
    and refs: "refs = mg_reads m @ mg_writes m"
  defines "S' \<equiv> js_set SCHEMA_BACKUP_KEY (SBackup (mg_version m) refs es False) S"
  shows "armed M v0 d0 v (mg_version m) refs es S' \<and> udata S' = restored refs es S'"
proof -
  have ok: "refs_ok refs" and b: "1 \<le> mg_version m" "mg_version m \<le> mi_maxVersion M" "v < mg_version m"
    using wf m by (auto simp: wf_refs_def wf_migrator_def next_migration_def list_all_iff refs)
  have j: "journal_entries refs es"
    unfolding journal_entries_def
  proof (intro conjI ballI)
    fix k
    assume "k \<in> set (js_keys es)"
    then have "js_has es k" by (simp only: js_has_iff_key)
    then show "covered refs k" "\<not> reserved k" unfolding es(2) by (auto split: if_splits)
  qed (use ok es in \<open>auto simp: refs_ok_def\<close>)
  have "restored refs es S = udata S"
  proof
    fix k
    have "js_has S k \<longleftrightarrow> k \<in> set (js_keys S)" by (rule js_has_iff_key)
    then show "restored refs es S k = udata S k"
      using ok user_entries_get [OF j, of k] unfolding es(2)
      by (auto simp: restored_def udata_def refs_ok_def split: option.split)
  qed
  then have r: "restored refs es S' = udata S'" "restored refs es S' = udata S" by (simp_all add: S'_def)
  from p have "at_version M v0 d0 v (restored refs es S') S'"
    unfolding r(2) by (simp add: plain_def at_version_def S'_def js_get_set)
  with r j b \<open>running S\<close> show ?thesis
    by (auto simp: armed_def running_def S'_def js_get_set)
qed

text \<open>
  What an answer says of the store it leaves. A store that could not be restored keeps its counted
  journal; one that was restored after an interruption has none.
\<close>

definition stuck :: "'j migrator \<Rightarrow> int \<Rightarrow> (string \<Rightarrow> 'j sval option) \<Rightarrow> int \<Rightarrow> bool \<Rightarrow> 'j store \<Rightarrow> bool" where
  "stuck M v0 d0 b retry S \<longleftrightarrow> (\<exists>v n refs es. armed M v0 d0 v b refs es S \<and> js_get S SCHEMA_BACKUP_KEY = Some (SBackup b refs es True)
     \<and> js_get S SCHEMA_ATTEMPTS_KEY = Some (SAttempt b PhaseRestore n) \<and> (retry \<longleftrightarrow> n < mi_maxRetries M))"

definition rolled_back :: "'j migrator \<Rightarrow> int \<Rightarrow> (string \<Rightarrow> 'j sval option) \<Rightarrow> int \<Rightarrow> int \<Rightarrow> 'j store \<Rightarrow> bool" where
  "rolled_back M v0 d0 b n S \<longleftrightarrow> js_get S SCHEMA_BACKUP_KEY = None \<and> js_get S SCHEMA_RUNNING_KEY = None
     \<and> (\<exists>v < b. plain M v0 d0 v S) \<and> js_get S SCHEMA_ATTEMPTS_KEY = Some (SAttempt b PhaseUp n)"

definition outcome_ok :: "'j migrator \<Rightarrow> int \<Rightarrow> (string \<Rightarrow> 'j sval option) \<Rightarrow> migration_result \<Rightarrow> 'j store \<Rightarrow> bool" where
  "outcome_ok M v0 d0 f S \<longleftrightarrow> safe M v0 d0 S \<and>
     (case f of
        Failed ver br rs a t \<Rightarrow> rolled_back M v0 d0 ver a S \<and> (t \<longleftrightarrow> mi_maxRetries M \<le> a)
          \<and> (\<exists>m \<in> set (mi_migrations M). mg_version m = ver \<and> (br \<longleftrightarrow> mg_breaking m \<or> (\<exists>x \<in> set (mi_migrations M). ver < mg_version x)))
      | Noop v \<Rightarrow> v = mi_maxVersion M \<and> plain M v0 d0 v S \<and> js_get S SCHEMA_RUNNING_KEY = None
      | Migrated from to \<Rightarrow> from < to \<and> to = mi_maxVersion M \<and> plain M v0 d0 to S \<and> js_get S SCHEMA_RUNNING_KEY = None
          \<and> js_get S SCHEMA_ATTEMPTS_KEY = None
      | Fresh _ \<Rightarrow> False
      | NeedsRecovery reason retry free \<Rightarrow>
          (case reason of
             UnexpectedStorageFailure _ \<Rightarrow> retry
           | RestoreAfterFailure b _ _ \<Rightarrow> \<not> free \<and> stuck M v0 d0 b retry S
           | RestoreInterrupted b _ \<Rightarrow> \<not> free \<and> stuck M v0 d0 b retry S
           | InterruptedRestored b \<Rightarrow> \<not> free \<and> (\<exists>n. rolled_back M v0 d0 b n S \<and> (retry \<longleftrightarrow> n < mi_maxRetries M))
           | _ \<Rightarrow> False))"

lemma escalated_simps [simp]:
  "escalateIfLaterPending M (NeedsRecovery r x y) m = NeedsRecovery r x y"
  "escalateIfLaterPending M (Failed ver True rs a t) m = Failed ver True rs a t"
  by (simp_all add: escalateIfLaterPending_def)

lemma failed_ok:
  assumes "m \<in> set (mi_migrations M)" "safe M v0 d0 S" "rolled_back M v0 d0 (mg_version m) a S"
  shows "outcome_ok M v0 d0 (escalateIfLaterPending M (Failed (mg_version m) (mg_breaking m) (MigrationError e) a (mi_maxRetries M \<le> a)) m) S"
proof -
  have "\<exists>br rs. escalateIfLaterPending M (Failed (mg_version m) (mg_breaking m) (MigrationError e) a (mi_maxRetries M \<le> a)) m
      = Failed (mg_version m) br rs a (mi_maxRetries M \<le> a)
      \<and> (br \<longleftrightarrow> mg_breaking m \<or> (\<exists>x \<in> set (mi_migrations M). mg_version m < mg_version x))"
    by (cases "mg_breaking m") (auto simp: escalateIfLaterPending_def list_ex_iff)
  then show ?thesis using assms by (auto simp: outcome_ok_def)
qed

lemma stuck_bump:
  "armed M v0 d0 v b refs es S \<Longrightarrow> js_get S SCHEMA_BACKUP_KEY = Some (SBackup b refs es True)
    \<Longrightarrow> stuck M v0 d0 b (n < mi_maxRetries M) (js_set SCHEMA_ATTEMPTS_KEY (SAttempt b PhaseRestore n) S)"
  unfolding stuck_def using armed_bump by (fastforce simp: js_get_set)

lemma rolled_back_cleared:
  "plain M v0 d0 v (js_dels [SCHEMA_BACKUP_KEY, SCHEMA_RUNNING_KEY] (js_set SCHEMA_ATTEMPTS_KEY (SAttempt b PhaseUp n) S)) \<Longrightarrow> v < b
    \<Longrightarrow> rolled_back M v0 d0 b n (js_dels [SCHEMA_BACKUP_KEY, SCHEMA_RUNNING_KEY] (js_set SCHEMA_ATTEMPTS_KEY (SAttempt b PhaseUp n) S))"
  by (auto simp: rolled_back_def js_get_del js_get_set)

lemma wp_clear_armed:
  assumes "armed M v0 d0 v b refs es S" and "udata S = restored refs es S"
    and "plain M v0 d0 v (js_dels [SCHEMA_BACKUP_KEY, SCHEMA_RUNNING_KEY] S) \<Longrightarrow> Q () (js_dels [SCHEMA_BACKUP_KEY, SCHEMA_RUNNING_KEY] S) r"
    and "\<And>S'. safe M v0 d0 S' \<Longrightarrow> E S' r" and "\<And>S'. safe M v0 d0 S' \<Longrightarrow> K S'"
  shows "wp (st_remove [SCHEMA_BACKUP_KEY, SCHEMA_RUNNING_KEY]) Q E K S r"
proof (rule wp_remove)
  show "Q () (js_dels [SCHEMA_BACKUP_KEY, SCHEMA_RUNNING_KEY] S) r"
    using assms(3) armed_cleared [OF assms(1,2)] by simp
  show "E (js_dels (filter P [SCHEMA_BACKUP_KEY, SCHEMA_RUNNING_KEY]) S) r" for P
    by (rule assms(4), rule armed_clear [OF assms(1,2)])
  show "K (js_dels (filter P [SCHEMA_BACKUP_KEY, SCHEMA_RUNNING_KEY]) S)" for P
    by (rule assms(5), rule armed_clear [OF assms(1,2)])
qed

lemma wp_apply_failed:
  fixes m :: "'j migration"
  defines "refs \<equiv> mg_reads m @ mg_writes m"
  assumes a: "armed M v0 d0 v (mg_version m) refs es S" and mem: "m \<in> set (mi_migrations M)"
  shows "wp (apply_failed M m es err)
    (\<lambda>res S' r'. case res of None \<Rightarrow> False | Some f \<Rightarrow> outcome_ok M v0 d0 (escalateIfLaterPending M f m) S')
    (\<lambda>S' r'. safe M v0 d0 S') (safe M v0 d0) S r"
proof -
  have lt: "v < mg_version m" using a by (simp add: armed_def)
  show ?thesis
    unfolding apply_failed_def Let_def refs_def [symmetric]
  proof (rule wp_bind, rule wp_try_restore [OF a], goal_cases)
    case (1 S1)
    show ?case
    proof (simp, rule wp_bind, rule wp_mark [OF 1(1)], goal_cases)
      case (1 S2)
      note S2 = this(1) and u2 = this(2,3)
      have b: "armed M v0 d0 v (mg_version m) refs es (js_set SCHEMA_ATTEMPTS_KEY (SAttempt (mg_version m) PhaseUp n) S2)" for n
        by (rule armed_bump [OF S2])
      have u: "udata (js_set SCHEMA_ATTEMPTS_KEY x S2) = restored refs es (js_set SCHEMA_ATTEMPTS_KEY x S2)" for x
        using u2 \<open>udata S1 = restored refs es S1\<close> by simp
      have "outcome_ok M v0 d0 (escalateIfLaterPending M (Failed (mg_version m) (mg_breaking m) (MigrationError err) n (mi_maxRetries M \<le> n)) m)
          (js_dels [SCHEMA_BACKUP_KEY, SCHEMA_RUNNING_KEY] (js_set SCHEMA_ATTEMPTS_KEY (SAttempt (mg_version m) PhaseUp n) S2))"
        if "plain M v0 d0 v (js_dels [SCHEMA_BACKUP_KEY, SCHEMA_RUNNING_KEY] (js_set SCHEMA_ATTEMPTS_KEY (SAttempt (mg_version m) PhaseUp n) S2))" for n
        by (rule failed_ok [OF mem safe_plain [OF that] rolled_back_cleared [OF that lt]])
      then show ?case
        by (intro wp_bind wp_bump wp_clear_armed [OF b u] wp_ret) (use S2 b in auto)
    qed auto
  next
    case (2 S1 e)
    show ?case
    proof (simp, rule wp_bind, rule wp_mark [OF 2(1)], goal_cases)
      case (1 S2)
      have "outcome_ok M v0 d0 (NeedsRecovery (RestoreAfterFailure (mg_version m) e err) (n < mi_maxRetries M) False)
          (js_set SCHEMA_ATTEMPTS_KEY (SAttempt (mg_version m) PhaseRestore n) S2)" for n
        using stuck_bump [OF 1(1,4)] safe_armed [OF armed_bump [OF 1(1)]] by (simp add: outcome_ok_def)
      with 1 show ?case
        by (intro wp_bind wp_bump wp_ret) (auto intro: armed_bump)
    qed auto
  qed auto
qed

lemma plain_del_backup: "plain M v0 d0 v S \<Longrightarrow> plain M v0 d0 v (js_del SCHEMA_BACKUP_KEY S)"
  by (simp add: plain_def at_version_def js_get_del)

lemma running_del_backup: "running (js_del SCHEMA_BACKUP_KEY S) = running S"
  by (simp add: running_def js_get_del)

lemma wp_applyOne:
  assumes p: "plain M v0 d0 v S" and run: "running S" and m: "next_migration M v m" and wf: "wf_migrator M" "wf_refs M"
  shows "wp (applyOne M m)
    (\<lambda>res S' r'. case res of None \<Rightarrow> plain M v0 d0 (mg_version m) S' \<and> running S'
      | Some f \<Rightarrow> outcome_ok M v0 d0 (escalateIfLaterPending M f m) S')
    (\<lambda>S' r'. safe M v0 d0 S') (safe M v0 d0) S r"
proof -
  let ?refs = "mg_reads m @ mg_writes m"
  have s: "safe M v0 d0 S" using p by auto
  have mem: "m \<in> set (mi_migrations M)" using m by (simp add: next_migration_def)
  show ?thesis
    unfolding applyOne_def Let_def
  proof (intro wp_bind wp_footprint wp_snapshot wp_set1 wp_try, goal_cases)
    case (1 es)
    let ?S = "js_set SCHEMA_BACKUP_KEY (SBackup (mg_version m) ?refs es False) S"
    have a: "armed M v0 d0 v (mg_version m) ?refs es ?S" "udata ?S = restored ?refs es ?S"
      using arm [OF p run m wf 1(1,2) refl] by auto
    show ?case
    proof (rule wp_commit [OF a m], goal_cases)
      case (1 S')
      note pr = plain_del_backup [OF 1(1)] 1(2)
      show ?case
        by (intro wp_bind wp_try wp_remove1 wp_ret allI) (use 1 pr running_del_backup [of S'] in auto)
    next
      case (2 S')
      show ?case
        by (intro allI, rule wp_mono [OF wp_apply_failed [OF 2 mem]]) (auto split: option.splits)
    qed auto
  next
    case (4 es)
    then show ?case using arm [OF p run m wf _ _ refl, of es] by blast
  qed (use s in auto)
qed

lemma sorted_next:
  assumes "wf_migrator M" and "mi_migrations M = pre @ m # post" and "\<forall>x \<in> set pre. mg_version x \<le> v" and "v < mg_version m"
  shows "next_migration M v m"
proof -
  have "\<forall>x \<in> set post. mg_version m \<le> mg_version x" using assms(1,2) by (auto simp: wf_migrator_def sorted_append)
  with assms show ?thesis by (auto simp: next_migration_def)
qed

lemma wp_apply_all:
  assumes wf: "wf_migrator M" "wf_refs M"
  shows "plain M v0 d0 v S \<Longrightarrow> running S \<Longrightarrow> from \<le> v \<Longrightarrow> mi_migrations M = pre @ ms \<Longrightarrow>
    \<forall>x \<in> set pre. mg_version x \<le> v \<Longrightarrow> \<forall>x \<in> set ms. from < mg_version x \<longrightarrow> v < mg_version x \<Longrightarrow>
    wp (apply_all M from ms)
      (\<lambda>res S' r'. case res of
         None \<Rightarrow> \<exists>v'. plain M v0 d0 v' S' \<and> (\<forall>x \<in> set (mi_migrations M). mg_version x \<le> v')
       | Some f \<Rightarrow> outcome_ok M v0 d0 f S')
      (\<lambda>S' r'. safe M v0 d0 S') (safe M v0 d0) S r"
proof (induction ms arbitrary: v S r pre)
  case Nil
  then show ?case by auto
next
  case (Cons m ms)
  show ?case
  proof (cases "mg_version m \<le> from")
    case True
    with Cons.prems(3,5) have "\<forall>x \<in> set (pre @ [m]). mg_version x \<le> v" by auto
    from Cons.IH [OF Cons.prems(1,2,3) _ this] Cons.prems(4,6) True show ?thesis by simp
  next
    case False
    with Cons.prems(6) have lt: "v < mg_version m" by simp
    have nx: "next_migration M v m" by (rule sorted_next [OF wf(1) Cons.prems(4,5) lt])
    have later: "\<forall>x \<in> set ms. mg_version m < mg_version x"
      using wf(1) Cons.prems(4) by (force simp: wf_migrator_def sorted_append)
    have "wp (bind (applyOne M m) (\<lambda>failure. case failure of Some f \<Rightarrow> ret (Some (escalateIfLaterPending M f m)) | None \<Rightarrow> apply_all M from ms))
      (\<lambda>res S' r'. case res of
         None \<Rightarrow> \<exists>v'. plain M v0 d0 v' S' \<and> (\<forall>x \<in> set (mi_migrations M). mg_version x \<le> v')
       | Some f \<Rightarrow> outcome_ok M v0 d0 f S')
      (\<lambda>S' r'. safe M v0 d0 S') (safe M v0 d0) S r"
    proof (rule wp_bind, rule wp_mono [OF wp_applyOne [OF Cons.prems(1,2) nx wf]], goal_cases)
      case (1 res S1 r1)
      show ?case
      proof (cases res)
        case None
        with 1 have pl: "plain M v0 d0 (mg_version m) S1" "running S1" by auto
        have "\<forall>x \<in> set (pre @ [m]). mg_version x \<le> mg_version m" using Cons.prems(5) lt by auto
        from Cons.IH [OF pl _ _ this] Cons.prems(3,4) lt later None show ?thesis by simp
      next
        case (Some f)
        with 1 show ?thesis by auto
      qed
    qed auto
    with False show ?thesis by simp
  qed
qed

section \<open>Resuming and running\<close>

lemma wp_resume_armed:
  assumes a: "armed M v0 d0 v b refs es S"
  shows "wp (resume_armed M b refs es c)
    (\<lambda>res S' r'. case res of
       None \<Rightarrow> plain M v0 d0 v S' \<and> js_get S' SCHEMA_BACKUP_KEY = None \<and> js_get S' SCHEMA_RUNNING_KEY = None
     | Some f \<Rightarrow> outcome_ok M v0 d0 f S')
    (\<lambda>S' r'. safe M v0 d0 S') (safe M v0 d0) S r"
  unfolding resume_armed_def
proof (rule wp_bind, rule wp_try_restore [OF a], goal_cases)
  case (1 S1)
  show ?case
  proof (cases c)
    case True
    then show ?thesis
      by (simp, intro wp_bind wp_clear_armed [OF 1] wp_ret) (auto simp: js_get_del)
  next
    case False
    show ?thesis
    proof (simp add: False, rule wp_bind, rule wp_mark [OF 1(1)], goal_cases)
      case (1 S2)
      note S2 = this(1) and u2 = this(2,3)
      have bb: "armed M v0 d0 v b refs es (js_set SCHEMA_ATTEMPTS_KEY (SAttempt b PhaseUp n) S2)" for n
        by (rule armed_bump [OF S2])
      have u: "udata (js_set SCHEMA_ATTEMPTS_KEY x S2) = restored refs es (js_set SCHEMA_ATTEMPTS_KEY x S2)" for x
        using u2 \<open>udata S1 = restored refs es S1\<close> by simp
      have lt: "v < b" using a by (simp add: armed_def)
      have "outcome_ok M v0 d0 (NeedsRecovery (InterruptedRestored b) (n < mi_maxRetries M) False)
          (js_dels [SCHEMA_BACKUP_KEY, SCHEMA_RUNNING_KEY] (js_set SCHEMA_ATTEMPTS_KEY (SAttempt b PhaseUp n) S2))"
        if "plain M v0 d0 v (js_dels [SCHEMA_BACKUP_KEY, SCHEMA_RUNNING_KEY] (js_set SCHEMA_ATTEMPTS_KEY (SAttempt b PhaseUp n) S2))" for n
        using rolled_back_cleared [OF that lt] safe_plain [OF that] by (auto simp: outcome_ok_def)
      then show ?case
        by (intro wp_bind wp_bump wp_clear_armed [OF bb u] wp_ret) (use S2 bb in auto)
    qed auto
  qed
next
  case (2 S1 e)
  show ?case
  proof (simp, rule wp_bind, rule wp_mark [OF 2(1)], goal_cases)
    case (1 S2)
    have "outcome_ok M v0 d0 (NeedsRecovery (RestoreInterrupted b e) (n < mi_maxRetries M) False)
        (js_set SCHEMA_ATTEMPTS_KEY (SAttempt b PhaseRestore n) S2)" for n
      using stuck_bump [OF 1(1,4)] safe_armed [OF armed_bump [OF 1(1)]] by (simp add: outcome_ok_def)
    with 1 show ?case
      by (intro wp_bind wp_bump wp_ret) (auto intro: armed_bump)
  qed auto
qed auto

lemma plain_dels:
  assumes "plain M v0 d0 v S" and "\<not> js_has S SCHEMA_BACKUP_KEY \<or> js_has S SCHEMA_RUNNING_KEY"
  shows "plain M v0 d0 v (js_dels (filter P [SCHEMA_BACKUP_KEY, SCHEMA_RUNNING_KEY]) S)"
  using assms by (auto simp: plain_def at_version_def js_get_del)

lemma plain_del_running: "plain M v0 d0 v S \<Longrightarrow> plain M v0 d0 v (js_del SCHEMA_RUNNING_KEY S)"
  by (auto simp: plain_def at_version_def js_get_del)

lemma wp_resume:
  assumes s: "safe M v0 d0 S"
  shows "wp (resumeIfInterrupted M)
    (\<lambda>res S' r'. case res of
       None \<Rightarrow> \<exists>v. plain M v0 d0 v S' \<and> js_get S' SCHEMA_BACKUP_KEY = None \<and> js_get S' SCHEMA_RUNNING_KEY = None
     | Some f \<Rightarrow> outcome_ok M v0 d0 f S')
    (\<lambda>S' r'. safe M v0 d0 S') (safe M v0 d0) S r"
  using s [unfolded safe_def]
proof (elim exE disjE)
  fix v b refs es
  assume a: "armed M v0 d0 v b refs es S"
  then obtain c where c: "js_get S SCHEMA_BACKUP_KEY = Some (SBackup b refs es c)" "js_get S SCHEMA_VERSION_KEY = Some (SInt v)"
    "js_has S SCHEMA_RUNNING_KEY" "isValidBackup (SBackup b refs es c)" "isValidMarker M (Some (SInt v))"
    "\<not> (b < 1 \<or> mi_maxVersion M < b)" "\<not> b \<le> v"
    by (auto simp: armed_def at_version_def isValidBackup_def isValidMarker_def journal_entries_def)
  have "wp (resume_armed M b refs es c)
    (\<lambda>res S' r'. case res of
       None \<Rightarrow> \<exists>v. plain M v0 d0 v S' \<and> js_get S' SCHEMA_BACKUP_KEY = None \<and> js_get S' SCHEMA_RUNNING_KEY = None
     | Some f \<Rightarrow> outcome_ok M v0 d0 f S')
    (\<lambda>S' r'. safe M v0 d0 S') (safe M v0 d0) S r"
    by (rule wp_mono [OF wp_resume_armed [OF a]]) (auto split: option.splits)
  then show ?thesis
    unfolding resumeIfInterrupted_def
    by (intro wp_bind wp_get) (use s c in \<open>auto simp: js_get_pick\<close>)
next
  fix v
  assume p: "plain M v0 d0 v S"
  have E: "safe M v0 d0 S" by fact
  show ?thesis
  proof (cases "js_has S SCHEMA_RUNNING_KEY")
    case False
    then show ?thesis
      unfolding resumeIfInterrupted_def
      by (intro wp_bind wp_get)
        (use p E plain_del_backup [OF p] in \<open>auto simp: js_get_pick js_get_del intro!: wp_remove1\<close>)
  next
    case run: True
    show ?thesis
    proof (cases "js_get S SCHEMA_BACKUP_KEY")
      case None
      with run show ?thesis
        unfolding resumeIfInterrupted_def
        by (intro wp_bind wp_get)
          (use p E plain_del_running [OF p] in \<open>auto simp: js_get_pick js_get_del intro!: wp_remove1\<close>)
    next
      case (Some x)
      with p run obtain b refs es c where x: "x = SBackup b refs es c" "list_all isValidRef refs" "1 \<le> b" "b \<le> mi_maxVersion M" "b \<le> v"
        and v: "js_get S SCHEMA_VERSION_KEY = Some (SInt v)" "isValidMarker M (Some (SInt v))"
        by (auto simp: plain_def at_version_def isValidMarker_def)
      have cl: "plain M v0 d0 v (js_dels (filter P [SCHEMA_BACKUP_KEY, SCHEMA_RUNNING_KEY]) S)" for P
        by (rule plain_dels [OF p]) (use run in simp)
      have cl': "plain M v0 d0 v (js_del SCHEMA_RUNNING_KEY (js_del SCHEMA_BACKUP_KEY S))"
        using cl [of "\<lambda>_. True"] by simp
      have "wp (bind (st_remove [SCHEMA_BACKUP_KEY, SCHEMA_RUNNING_KEY]) (\<lambda>_. ret None))
        (\<lambda>res S' r'. case res of
           None \<Rightarrow> \<exists>v. plain M v0 d0 v S' \<and> js_get S' SCHEMA_BACKUP_KEY = None \<and> js_get S' SCHEMA_RUNNING_KEY = None
         | Some f \<Rightarrow> outcome_ok M v0 d0 f S')
        (\<lambda>S' r'. safe M v0 d0 S') (safe M v0 d0) S r"
        by (intro wp_bind wp_remove wp_ret safe_plain [OF cl]) (use cl' in \<open>auto simp: js_get_del\<close>)
      with run Some x v E show ?thesis
        unfolding resumeIfInterrupted_def
        by (intro wp_bind wp_get) (auto simp: js_get_pick isValidBackup_def)
    qed
  qed
qed

lemma plain_barrier:
  "plain M v0 d0 v S \<Longrightarrow> js_get S SCHEMA_BACKUP_KEY = None \<Longrightarrow>
     plain M v0 d0 v (js_set SCHEMA_RUNNING_KEY x S) \<and> running (js_set SCHEMA_RUNNING_KEY x S)"
  by (simp add: plain_def at_version_def js_get_set running_def)

lemma plain_floor:
  assumes "plain M v0 d0 v S" and "\<forall>m \<in> set (mi_migrations M). mg_version m \<le> v"
  shows "plain M v0 d0 (mi_maxVersion M) (js_set SCHEMA_VERSION_KEY (SInt (mi_maxVersion M)) S)"
proof -
  have "legit M v0 d0 (mi_maxVersion M) (udata S)"
    using assms by (intro legit_floor [of M v0 d0 v]) (auto simp: plain_def at_version_def)
  with assms(1) show ?thesis by (fastforce simp: plain_def at_version_def js_get_set)
qed

lemma plain_finish:
  "plain M v0 d0 v S \<Longrightarrow> plain M v0 d0 v (js_dels (filter P [SCHEMA_ATTEMPTS_KEY, SCHEMA_RUNNING_KEY]) S)"
  by (auto simp: plain_def at_version_def js_get_del)

lemma wp_run_pending:
  assumes wf: "wf_migrator M" "wf_refs M" and p: "plain M v0 d0 from S" and b: "js_get S SCHEMA_BACKUP_KEY = None"
    and lt: "from < mi_maxVersion M"
  shows "wp (run_pending M from) (\<lambda>res S' r'. outcome_ok M v0 d0 res S') (\<lambda>S' r'. safe M v0 d0 S') (safe M v0 d0) S r"
proof -
  let ?S = "js_set SCHEMA_RUNNING_KEY (SInt (mi_maxVersion M)) S"
  note pb = plain_barrier [OF p b, of "SInt (mi_maxVersion M)"]
  have all: "wp (apply_all M from (mi_migrations M))
      (\<lambda>res S' r'. case res of
         None \<Rightarrow> \<exists>v'. plain M v0 d0 v' S' \<and> (\<forall>x \<in> set (mi_migrations M). mg_version x \<le> v')
       | Some f \<Rightarrow> outcome_ok M v0 d0 f S')
      (\<lambda>S' r'. safe M v0 d0 S') (safe M v0 d0) ?S r"
    using pb by (intro wp_apply_all [OF wf, where v = "from" and pre = "[]"]) auto
  show ?thesis
    unfolding run_pending_def
  proof (rule wp_bind, rule wp_set1, rule wp_bind, rule wp_mono [OF all], goal_cases)
    case (1 res S1 r1)
    show ?case
    proof (cases res)
      case (Some f)
      with 1 show ?thesis by auto
    next
      case None
      with 1 obtain v' where v': "plain M v0 d0 v' S1" "\<forall>x \<in> set (mi_migrations M). mg_version x \<le> v'" by auto
      let ?S2 = "js_set SCHEMA_VERSION_KEY (SInt (mi_maxVersion M)) S1"
      have p2: "plain M v0 d0 (mi_maxVersion M) ?S2" by (rule plain_floor [OF v'])
      have fin: "plain M v0 d0 (mi_maxVersion M) (js_del SCHEMA_RUNNING_KEY (js_del SCHEMA_ATTEMPTS_KEY ?S2))"
        using plain_finish [OF p2, of "\<lambda>_. True"] by simp
      have "wp (bind (st_set [(SCHEMA_VERSION_KEY, SInt (mi_maxVersion M))]) (\<lambda>_.
          bind (st_remove [SCHEMA_ATTEMPTS_KEY, SCHEMA_RUNNING_KEY]) (\<lambda>_. ret (Migrated from (mi_maxVersion M)))))
        (\<lambda>res S' r'. outcome_ok M v0 d0 res S') (\<lambda>S' r'. safe M v0 d0 S') (safe M v0 d0) S1 r1"
        by (intro wp_bind wp_set1 wp_remove wp_ret safe_plain [OF plain_finish [OF p2]])
          (use fin p2 v'(1) lt in \<open>auto simp: outcome_ok_def js_get_del\<close>)
      with None show ?thesis by simp
    qed
  qed (use p pb in auto)
qed

lemma wp_runInner:
  assumes wf: "wf_migrator M" "wf_refs M" and s: "safe M v0 d0 S"
  shows "wp (runInner M) (\<lambda>res S' r'. outcome_ok M v0 d0 res S') (\<lambda>S' r'. safe M v0 d0 S') (safe M v0 d0) S r"
  unfolding runInner_def
proof (rule wp_bind, rule wp_mono [OF wp_resume [OF s]], goal_cases)
  case (1 res S1 r1)
  show ?case
  proof (cases res)
    case (Some f)
    with 1 show ?thesis by auto
  next
    case None
    with 1 obtain v where p: "plain M v0 d0 v S1" "js_get S1 SCHEMA_BACKUP_KEY = None"
      and j: "js_get S1 SCHEMA_RUNNING_KEY = None" by auto
    then have v: "js_get S1 SCHEMA_VERSION_KEY = Some (SInt v)" "isValidMarker M (Some (SInt v))"
      by (auto simp: plain_def at_version_def isValidMarker_def)
    have "wp (run_pending M v) (\<lambda>res S' r'. outcome_ok M v0 d0 res S') (\<lambda>S' r'. safe M v0 d0 S') (safe M v0 d0) S1 r1"
      if "v \<noteq> mi_maxVersion M"
      using p(1) that by (intro wp_run_pending [OF wf p]) (auto simp: plain_def at_version_def)
    with p v j None show ?thesis
      by simp (intro wp_bind wp_get, auto simp: outcome_ok_def)
  qed
qed auto

text \<open>Booting: run once under a script; a kill ends the boot without a result.\<close>

definition boot :: "'j migrator \<Rightarrow> outcome list \<Rightarrow> 'j store \<Rightarrow> migration_result res \<times> 'j store" where
  "boot M script S =
     (case run M \<lparr>ms_store = S, ms_script = script, ms_recorded = False\<rparr> of (res, s) \<Rightarrow> (res, ms_store s))"

fun boots :: "'j migrator \<Rightarrow> outcome list list \<Rightarrow> 'j store \<Rightarrow> 'j store" where
  "boots M [] S = S"
| "boots M (script # scripts) S = boots M scripts (snd (boot M script S))"

lemma boot_ok:
  assumes "wf_migrator M" "wf_refs M" and "safe M v0 d0 S"
  shows "case boot M script S of
      (Done res, S') \<Rightarrow> outcome_ok M v0 d0 res S' | (Thrown _, S') \<Rightarrow> False | (Killed, S') \<Rightarrow> safe M v0 d0 S'"
proof -
  let ?s = "\<lparr>ms_store = S, ms_script = script, ms_recorded = False\<rparr>"
  obtain x s where x: "runInner M ?s = (x, s)" by force
  with wp_runInner [OF assms, of False] have
    "case x of Done a \<Rightarrow> outcome_ok M v0 d0 a (ms_store s) | Thrown _ \<Rightarrow> safe M v0 d0 (ms_store s) | Killed \<Rightarrow> safe M v0 d0 (ms_store s)"
    unfolding wp_def by (auto split: res.splits dest: spec [of _ script])
  with x show ?thesis by (cases x) (simp_all add: boot_def run_def try_catch_def outcome_ok_def)
qed

lemma boots_safe:
  assumes "wf_migrator M" "wf_refs M"
  shows "safe M v0 d0 S \<Longrightarrow> safe M v0 d0 (boots M scripts S)"
proof (induction scripts arbitrary: S)
  case (Cons script scripts)
  from boot_ok [OF assms Cons.prems, of script] have "safe M v0 d0 (snd (boot M script S))"
    by (auto simp: outcome_ok_def split: prod.splits res.splits)
  with Cons.IH show ?case by simp
qed simp

lemma version_error_None:
  assumes "version_error ms prev = None" and "sorted (map mg_version ms)" and "\<forall>m \<in> set ms. \<forall>p. prev = Some p \<longrightarrow> p \<le> mg_version m"
  shows "distinct (map mg_version ms) \<and> (\<forall>m \<in> set ms. 1 \<le> mg_version m \<and> prev \<noteq> Some (mg_version m))"
  using assms
proof (induction ms arbitrary: prev)
  case (Cons m ms)
  then have "distinct (map mg_version ms) \<and> (\<forall>x \<in> set ms. 1 \<le> mg_version x \<and> Some (mg_version m) \<noteq> Some (mg_version x))"
    by (intro Cons.IH) (auto split: if_splits)
  with Cons.prems show ?case by (fastforce split: if_splits)
qed simp

lemma new_migrator_wf:
  assumes "new_migrator coerce migrations retries baseline = Inr M"
  shows "wf_migrator M"
proof -
  let ?ms = "sort_key mg_version migrations"
  from assms have e: "version_error ?ms None = None" and M: "mi_migrations M = ?ms"
    "mi_maxVersion M = max (or_else baseline 0) (if ?ms = [] then 0 else mg_version (last ?ms))"
    by (auto simp: new_migrator_def Let_def split: option.splits)
  have s: "sorted (map mg_version ?ms)" by simp
  have "mg_version m \<le> mg_version (last ?ms)" if "m \<in> set ?ms" for m
  proof -
    from that obtain pre post where "?ms = pre @ m # post" by (metis split_list)
    with s show ?thesis by (auto simp: sorted_append last_append)
  qed
  then have "m \<in> set ?ms \<Longrightarrow> mg_version m \<le> mi_maxVersion M" for m unfolding M by (cases "?ms = []") fastforce+
  moreover have "distinct (map mg_version ?ms) \<and> (\<forall>m \<in> set ?ms. 1 \<le> mg_version m \<and> None \<noteq> Some (mg_version m))"
    by (rule version_error_None [OF e s]) simp
  ultimately show ?thesis unfolding wf_migrator_def M(1) using s by blast
qed

section \<open>Runs without faults\<close>

text \<open>With every storage call succeeding, a computation returns; what it returns satisfies \<open>Q\<close>.\<close>

definition wp0 :: "('j, 'a) comp \<Rightarrow> ('a \<Rightarrow> 'j store \<Rightarrow> bool) \<Rightarrow> 'j store \<Rightarrow> bool \<Rightarrow> bool" where
  "wp0 c Q S r \<longleftrightarrow> (\<exists>a s. c \<lparr>ms_store = S, ms_script = [], ms_recorded = r\<rparr> = (Done a, s) \<and> ms_script s = [] \<and> Q a (ms_store s))"

lemma wp0_ret [intro!]: "Q a S \<Longrightarrow> wp0 (ret a) Q S r"
  by (simp add: wp0_def ret_def)

lemma wp0_bind:
  assumes "wp0 c (\<lambda>a S. \<forall>r. wp0 (f a) Q S r) S r"
  shows "wp0 (bind c f) Q S r"
proof -
  from assms obtain a s where a: "c \<lparr>ms_store = S, ms_script = [], ms_recorded = r\<rparr> = (Done a, s)" "ms_script s = []"
    "\<forall>r. wp0 (f a) Q (ms_store s) r" unfolding wp0_def by blast
  have s: "s = \<lparr>ms_store = ms_store s, ms_script = [], ms_recorded = ms_recorded s\<rparr>" using a(2) by simp
  from a(3) have "wp0 (f a) Q (ms_store s) (ms_recorded s)" by blast
  then show ?thesis unfolding wp0_def bind_def a(1) using s by simp
qed

lemma wp0_try: "wp0 c Q S r \<Longrightarrow> wp0 (try_catch c h) Q S r"
  by (auto simp: wp0_def try_catch_def)

lemma wp0_get: "Q (js_pick ks S) S \<Longrightarrow> wp0 (st_get ks) Q S r"
  by (simp add: wp0_def st_get_def next_outcome_def)

lemma wp0_set: "Q () (js_sets items S) \<Longrightarrow> wp0 (st_set items) Q S r"
  by (simp add: wp0_def st_set_def next_outcome_def)

lemma wp0_remove: "Q () (js_dels ks S) \<Longrightarrow> wp0 (st_remove ks) Q S r"
  by (simp add: wp0_def st_remove_def next_outcome_def)

lemma wp0_mono: "wp0 c Q S r \<Longrightarrow> (\<And>a S. Q a S \<Longrightarrow> Q' a S) \<Longrightarrow> wp0 c Q' S r"
  by (auto simp: wp0_def)

lemmas wp0_intros = wp0_bind wp0_try wp0_get wp0_set wp0_remove

lemma wp0_set_if_any: "Q () (js_sets items S) \<Longrightarrow> wp0 (set_if_any items) Q S r"
  by (auto simp: set_if_any_def intro: wp0_intros)

lemma wp0_remove_if_any: "Q () (js_dels ks S) \<Longrightarrow> wp0 (remove_if_any ks) Q S r"
  by (auto simp: remove_if_any_def intro: wp0_intros)

lemma wp0_try_restore: "(\<And>S. Q None S) \<Longrightarrow> wp0 (try_restore refs es) Q S r"
  unfolding try_restore_def restore_def Let_def footprintKeysFor_def
  by (intro wp0_intros wp0_ret wp0_set_if_any wp0_remove_if_any allI) auto

lemma wp0_bump: "(\<And>n S. Q n S) \<Longrightarrow> wp0 (bumpAttempts v ph) Q S r"
  unfolding bumpAttempts_def Let_def
  by (intro wp0_intros allI) (simp add: wp0_def)

text \<open>A migration whose transform succeeds, within its declared footprint, on the given user data.\<close>

definition up_succeeds :: "'j migrator \<Rightarrow> 'j migration \<Rightarrow> (string \<Rightarrow> 'j sval option) \<Rightarrow> bool" where
  "up_succeeds M m d \<longleftrightarrow> (\<forall>S r. udata S = d \<longrightarrow> wp0 (run_up (mg_up m) (mi_coerce M) [])
     (\<lambda>st S'. \<forall>k \<in> set (js_keys st). \<not> reserved k \<and> k \<noteq> LEGACY_VERSION_KEY \<and> covered (mg_writes m) k) S r)"

text \<open>Every migration succeeds on the data it can be given: what whole migrations before it made of the starting data.\<close>

definition ups_succeed :: "'j migrator \<Rightarrow> int \<Rightarrow> (string \<Rightarrow> 'j sval option) \<Rightarrow> bool" where
  "ups_succeed M v0 d0 \<longleftrightarrow> (\<forall>m v d. legit M v0 d0 v d \<and> next_migration M v m \<longrightarrow> up_succeeds M m d)"

lemma wp0_commit:
  fixes M :: "'a migrator"
  assumes "up_succeeds M m (udata S)"
  shows "wp0 (commit M m) (\<lambda>_ _. True) S r"
  unfolding commit_def
proof (rule wp0_bind, rule wp0_mono, rule assms [unfolded up_succeeds_def, rule_format, OF refl], intro allI)
  fix st :: "'a staged" and S r
  assume k: "\<forall>k \<in> set (js_keys st). \<not> reserved k \<and> k \<noteq> LEGACY_VERSION_KEY \<and> covered (mg_writes m) k"
  have "set (js_keys (diff_sets st) @ diff_removes st) = set (js_keys st)"
    using diff_keys [of st] by (simp only: set_append)
  with k have g: "guardCommit m (js_keys (diff_sets st) @ diff_removes st) = ret ()"
    unfolding guardCommit_def Let_def filter_empty_conv by (intro if_not_P) blast
  show "wp0 (bind (guardCommit m (js_keys (diff_sets st) @ diff_removes st)) (\<lambda>_. bind (set_if_any (diff_sets st))
    (\<lambda>_. bind (remove_if_any (diff_removes st)) (\<lambda>_. st_set [(SCHEMA_VERSION_KEY, SInt (mg_version m))])))) (\<lambda>_ _. True) S r"
    unfolding g by (intro wp0_intros wp0_ret wp0_set_if_any wp0_remove_if_any allI TrueI)
qed

lemma wp0_applyOne:
  assumes "up_succeeds M m (udata S)"
  shows "wp0 (applyOne M m) (\<lambda>res S'. res = None) S r"
proof -
  have c: "wp0 (commit M m) (\<lambda>_ _. True) (js_set SCHEMA_BACKUP_KEY x S) r" for x r
    using assms by (intro wp0_commit) simp
  have r: "wp0 (bind (commit M m) (\<lambda>_. bind (try_catch (st_remove [SCHEMA_BACKUP_KEY]) (\<lambda>_. ret ())) (\<lambda>_. ret None)))
      (\<lambda>res S'. res = None) (js_set SCHEMA_BACKUP_KEY x S) r" for x r
    by (rule wp0_bind, rule wp0_mono [OF c]) (intro wp0_intros wp0_ret allI refl)
  have arm: "wp0 (bind (st_set [(SCHEMA_BACKUP_KEY, x)]) (\<lambda>_. try_catch
      (bind (commit M m) (\<lambda>_. bind (try_catch (st_remove [SCHEMA_BACKUP_KEY]) (\<lambda>_. ret ())) (\<lambda>_. ret None))) h)) (\<lambda>res S'. res = None) S r" for x h r
    by (rule wp0_bind, rule wp0_set, intro allI, rule wp0_try) (use r in simp)
  have keys: "wp0 (footprintKeysFor refs) (\<lambda>_ S'. S' = S) S r" for refs r
    unfolding footprintKeysFor_def by (auto intro!: wp0_intros)
  have snap: "wp0 (snapshot ks) (\<lambda>_ S'. S' = S) S r" for ks r
    unfolding snapshot_def by (auto intro!: wp0_intros)
  show ?thesis
    unfolding applyOne_def Let_def
    by (rule wp0_bind, rule wp0_mono [OF keys], clarify, rule wp0_bind, rule wp0_mono [OF snap], clarify, rule arm)
qed

lemma wp0_wp:
  assumes "wp0 c Q0 S r" and "wp c Q E K S r"
  shows "wp0 c (\<lambda>a S'. Q0 a S' \<and> (\<exists>r'. Q a S' r')) S r"
proof -
  from assms(1) obtain a s where a: "c \<lparr>ms_store = S, ms_script = [], ms_recorded = r\<rparr> = (Done a, s)" "ms_script s = []"
    "Q0 a (ms_store s)" unfolding wp0_def by blast
  from assms(2) [unfolded wp_def, rule_format, of "[]"] a(1) have "Q a (ms_store s) (ms_recorded s)" by simp
  with a show ?thesis unfolding wp0_def by blast
qed

lemma wp0_apply_all:
  assumes wf: "wf_migrator M" "wf_refs M" and up: "ups_succeed M v0 d0"
  shows "plain M v0 d0 v S \<Longrightarrow> running S \<Longrightarrow> from \<le> v \<Longrightarrow> mi_migrations M = pre @ ms \<Longrightarrow>
    \<forall>x \<in> set pre. mg_version x \<le> v \<Longrightarrow> \<forall>x \<in> set ms. from < mg_version x \<longrightarrow> v < mg_version x \<Longrightarrow>
    wp0 (apply_all M from ms) (\<lambda>res S'. res = None) S r"
proof (induction ms arbitrary: v S r pre)
  case (Cons m ms)
  show ?case
  proof (cases "mg_version m \<le> from")
    case True
    with Cons.prems(3,5) have "\<forall>x \<in> set (pre @ [m]). mg_version x \<le> v" by auto
    from Cons.IH [OF Cons.prems(1,2,3) _ this] Cons.prems(4,6) True show ?thesis by simp
  next
    case False
    with Cons.prems(6) have lt: "v < mg_version m" by simp
    have nx: "next_migration M v m" by (rule sorted_next [OF wf(1) Cons.prems(4,5) lt])
    have later: "\<forall>x \<in> set ms. mg_version m < mg_version x"
      using wf(1) Cons.prems(4) by (force simp: wf_migrator_def sorted_append)
    have ok: "up_succeeds M m (udata S)"
      using up nx Cons.prems(1) unfolding ups_succeed_def plain_def at_version_def by blast
    have rest: "wp0 (apply_all M from ms) (\<lambda>res S'. res = None) S1 r1" if "plain M v0 d0 (mg_version m) S1" "running S1" for S1 r1
    proof -
      have "\<forall>x \<in> set (pre @ [m]). mg_version x \<le> mg_version m" using Cons.prems(5) lt by auto
      from Cons.IH [OF that _ _ this] Cons.prems(3,4) lt later show ?thesis by simp
    qed
    have "wp0 (bind (applyOne M m) (\<lambda>failure. case failure of Some f \<Rightarrow> ret (Some (escalateIfLaterPending M f m)) | None \<Rightarrow> apply_all M from ms))
      (\<lambda>res S'. res = None) S r"
      by (rule wp0_bind, rule wp0_mono [OF wp0_wp [OF wp0_applyOne [OF ok] wp_applyOne [OF Cons.prems(1,2) nx wf]]]) (auto intro: rest)
    with False show ?thesis by simp
  qed
qed auto

lemma wp0_run_pending:
  assumes wf: "wf_migrator M" "wf_refs M" and up: "ups_succeed M v0 d0" and p: "plain M v0 d0 from S" and b: "js_get S SCHEMA_BACKUP_KEY = None"
  shows "wp0 (run_pending M from) (\<lambda>res S'. res = Migrated from (mi_maxVersion M)) S r"
proof -
  note pb = plain_barrier [OF p b, of "SInt (mi_maxVersion M)"]
  have "wp0 (apply_all M from (mi_migrations M)) (\<lambda>res S'. res = None) (js_set SCHEMA_RUNNING_KEY (SInt (mi_maxVersion M)) S) r" for r
    using pb by (intro wp0_apply_all [OF wf up, where v = "from" and pre = "[]"]) auto
  then have "wp0 (apply_all M from (mi_migrations M)) (\<lambda>res S'. res = None) (js_sets [(SCHEMA_RUNNING_KEY, SInt (mi_maxVersion M))] S) r" for r
    by simp
  then show ?thesis
    unfolding run_pending_def
    by (intro wp0_bind wp0_set allI, rule wp0_mono) (auto intro!: wp0_intros)
qed

text \<open>An interrupted journal is resolved by one clean boot: it either continues or stands down with the journal cleared.\<close>

definition journal_free :: "'j store \<Rightarrow> bool" where
  "journal_free S \<longleftrightarrow> js_get S SCHEMA_RUNNING_KEY = None"

lemma wp0_resume:
  assumes "safe M v0 d0 S"
  shows "wp0 (resumeIfInterrupted M) (\<lambda>res S'. (journal_free S \<longrightarrow> res = None) \<and> (res \<noteq> None \<longrightarrow> journal_free S')) S r"
proof (cases "journal_free S")
  case True
  then show ?thesis
    unfolding resumeIfInterrupted_def
    by (intro wp0_bind wp0_get allI) (auto simp: journal_free_def js_get_pick intro!: wp0_intros)
next
  case run: False
  then have r: "js_has S SCHEMA_RUNNING_KEY" by (simp add: journal_free_def)
  show ?thesis
  proof (cases "js_get S SCHEMA_BACKUP_KEY")
    case None
    with r show ?thesis
      unfolding resumeIfInterrupted_def
      by (intro wp0_bind wp0_get allI) (auto simp: journal_free_def js_get_pick intro!: wp0_intros)
  next
    case (Some x)
    with assms r obtain v b refs es c where x: "x = SBackup b refs es c" "isValidBackup x" "\<not> (b < 1 \<or> mi_maxVersion M < b)"
      and v: "js_get S SCHEMA_VERSION_KEY = Some (SInt v)" "isValidMarker M (Some (SInt v))"
      by (fastforce simp: safe_def plain_def armed_def at_version_def isValidMarker_def isValidBackup_def journal_entries_def)
    have "wp0 (resume_armed M b refs es c) (\<lambda>res S'. res \<noteq> None \<longrightarrow> journal_free S') S r" for r
      unfolding resume_armed_def markJournalCounted_def
      by (intro wp0_bind wp0_try_restore allI)
        (auto simp: journal_free_def js_get_del intro!: wp0_intros wp0_bump)
    with r Some x v run show ?thesis
      unfolding resumeIfInterrupted_def
      by (intro wp0_bind wp0_get allI) (auto simp: js_get_pick intro!: wp0_intros)
  qed
qed

lemma wp0_runInner:
  assumes wf: "wf_migrator M" "wf_refs M" and s: "safe M v0 d0 S" and up: "ups_succeed M v0 d0"
  shows "wp0 (runInner M) (\<lambda>res S'. res = Noop (mi_maxVersion M) \<or> (\<exists>from. res = Migrated from (mi_maxVersion M))
     \<or> \<not> journal_free S \<and> journal_free S') S r"
  unfolding runInner_def
proof (rule wp0_bind, rule wp0_mono [OF wp0_wp [OF wp0_resume [OF s] wp_resume [OF s]]], intro allI, goal_cases)
  case (1 res S1 r1)
  show ?case
  proof (cases res)
    case (Some f)
    with 1 show ?thesis by auto
  next
    case None
    with 1 obtain v where v: "plain M v0 d0 v S1" "js_get S1 SCHEMA_BACKUP_KEY = None" by auto
    then have m: "js_get S1 SCHEMA_VERSION_KEY = Some (SInt v)" "isValidMarker M (Some (SInt v))"
      by (auto simp: plain_def at_version_def isValidMarker_def)
    have "wp0 (run_pending M v) (\<lambda>res S'. res = Noop (mi_maxVersion M) \<or> (\<exists>from. res = Migrated from (mi_maxVersion M))
        \<or> \<not> journal_free S \<and> journal_free S') S1 r" for r
      by (rule wp0_mono [OF wp0_run_pending [OF wf up v]]) auto
    with None m show ?thesis by simp (intro wp0_bind wp0_get allI, auto)
  qed
qed

lemma boot_clean:
  assumes wf: "wf_migrator M" "wf_refs M" and s: "safe M v0 d0 S" and up: "ups_succeed M v0 d0"
  shows "\<exists>res S'. boot M [] S = (Done res, S') \<and> safe M v0 d0 S' \<and>
    (res = Noop (mi_maxVersion M) \<or> (\<exists>from. res = Migrated from (mi_maxVersion M))
     \<or> \<not> journal_free S \<and> journal_free S')"
proof -
  let ?Q = "\<lambda>res S'. res = Noop (mi_maxVersion M) \<or> (\<exists>from. res = Migrated from (mi_maxVersion M))
     \<or> \<not> journal_free S \<and> journal_free S'"
  have "wp0 (runInner M) ?Q S False" by (rule wp0_runInner [OF assms])
  then obtain res s where "runInner M \<lparr>ms_store = S, ms_script = [], ms_recorded = False\<rparr> = (Done res, s)" "?Q res (ms_store s)"
    by (auto simp: wp0_def)
  moreover from this have "boot M [] S = (Done res, ms_store s)" by (simp add: boot_def run_def try_catch_def)
  moreover from boot_ok [OF wf s, of "[]"] this have "safe M v0 d0 (ms_store s)" by (simp add: outcome_ok_def)
  ultimately show ?thesis by auto
qed

section \<open>Attempt accounting\<close>

definition attempts :: "'j store \<Rightarrow> 'j sval option" where
  "attempts S = js_get S SCHEMA_ATTEMPTS_KEY"

definition prior_count :: "int \<Rightarrow> 'j sval option \<Rightarrow> int" where
  "prior_count v a = (case a of Some (SAttempt w _ c) \<Rightarrow> if w = v \<and> c \<ge> 0 then c else 0 | _ \<Rightarrow> 0)"

text \<open>Nothing recorded yet, and exactly one attempt recorded, relative to the attempt record \<open>a\<close> at boot.\<close>

definition unspent :: "'j sval option \<Rightarrow> 'j store \<Rightarrow> bool \<Rightarrow> bool" where
  "unspent a S r \<longleftrightarrow> \<not> r \<and> attempts S = a"

definition spent :: "'j sval option \<Rightarrow> 'j store \<Rightarrow> bool" where
  "spent a S \<longleftrightarrow> (\<exists>v ph. attempts S = Some (SAttempt v ph (prior_count v a + 1)))"

definition counted_ok :: "'j sval option \<Rightarrow> 'j store \<Rightarrow> bool \<Rightarrow> bool" where
  "counted_ok a S r \<longleftrightarrow> (if r then spent a S else attempts S = a)"

definition killed_ok :: "'j sval option \<Rightarrow> 'j store \<Rightarrow> bool" where
  "killed_ok a S \<longleftrightarrow> attempts S = a \<or> attempts S = None \<or> spent a S"

lemma unspent_ok: "unspent a S r \<Longrightarrow> counted_ok a S r \<and> killed_ok a S"
  by (simp add: unspent_def counted_ok_def killed_ok_def)

text \<open>Calls that leave the attempt record alone.\<close>

definition frame :: "('j, 'a) comp \<Rightarrow> bool" where
  "frame c \<longleftrightarrow> (\<forall>S r. wp c (\<lambda>_ S' r'. attempts S' = attempts S \<and> r' = r)
     (\<lambda>S' r'. attempts S' = attempts S \<and> r' = r) (\<lambda>S'. attempts S' = attempts S) S r)"

lemma frame_wp:
  assumes "frame c" and "unspent a S r"
    and "\<And>x S'. unspent a S' r \<Longrightarrow> Q x S' r" and "\<And>S'. unspent a S' r \<Longrightarrow> E S' r" and "\<And>S'. unspent a S' r \<Longrightarrow> K S'"
  shows "wp c Q E K S r"
  by (rule wp_mono [OF assms(1) [unfolded frame_def, rule_format]]) (use assms(2-5) in \<open>auto simp: unspent_def\<close>)

lemma frame_keeps: "keeps c \<Longrightarrow> frame c"
  unfolding frame_def by (auto intro!: wp_keeps)

lemma frame_bind [intro!]:
  assumes "frame c" and "\<And>x. frame (f x)"
  shows "frame (bind c f)"
  unfolding frame_def
proof (intro allI, rule wp_bind, rule wp_mono [OF assms(1) [unfolded frame_def, rule_format]], goal_cases)
  case (1 S r x S1 r1)
  then show ?case using assms(2) [unfolded frame_def, rule_format, of x S1 r1] by simp
qed auto

lemma frame_ret [intro!]: "frame (ret x)" and frame_get [intro!]: "frame (st_get ks)"
  by (auto intro: frame_keeps)

lemma frame_try [intro!]:
  assumes "frame c" and "\<And>e. frame (h e)"
  shows "frame (try_catch c h)"
  unfolding frame_def
proof (intro allI, rule wp_try, rule wp_mono [OF assms(1) [unfolded frame_def, rule_format]], goal_cases)
  case (2 S r S1 r1)
  then show ?case using assms(2) [unfolded frame_def, rule_format, of _ S1 r1] by simp
qed auto

lemma attempts_sets: "SCHEMA_ATTEMPTS_KEY \<notin> set (js_keys items) \<Longrightarrow> attempts (js_sets (filter P items) S) = attempts S"
  unfolding attempts_def by (rule js_get_sets_notin) auto

lemma attempts_dels: "SCHEMA_ATTEMPTS_KEY \<notin> set ks \<Longrightarrow> attempts (js_dels (filter P ks) S) = attempts S"
  by (simp add: attempts_def js_get_dels)

lemma frame_set: "SCHEMA_ATTEMPTS_KEY \<notin> set (js_keys items) \<Longrightarrow> frame (st_set items)"
  unfolding frame_def using attempts_sets [of items "\<lambda>_. True"] by (auto intro!: wp_set simp: attempts_sets simp del: set_map)

lemma frame_remove: "SCHEMA_ATTEMPTS_KEY \<notin> set ks \<Longrightarrow> frame (st_remove ks)"
  unfolding frame_def using attempts_dels [of ks "\<lambda>_. True"] by (auto intro!: wp_remove simp: attempts_dels)

lemma frame_set_if_any: "SCHEMA_ATTEMPTS_KEY \<notin> set (js_keys items) \<Longrightarrow> frame (set_if_any items)"
  unfolding set_if_any_def by (auto intro: frame_set simp del: set_map)

lemma frame_remove_if_any: "SCHEMA_ATTEMPTS_KEY \<notin> set ks \<Longrightarrow> frame (remove_if_any ks)"
  unfolding remove_if_any_def by (auto intro: frame_remove)

lemma frame_footprint [intro!]: "frame (footprintKeysFor refs)" and frame_snapshot [intro!]: "frame (snapshot ks)"
  by (auto simp: footprintKeysFor_def snapshot_def)

lemma frame_mark [intro!]: "frame (markJournalCounted b refs es)"
  unfolding markJournalCounted_def by (rule frame_set) simp

lemma user_entries_no_attempts: "SCHEMA_ATTEMPTS_KEY \<notin> set (js_keys (user_entries es))"
proof
  assume "SCHEMA_ATTEMPTS_KEY \<in> set (js_keys (user_entries es))"
  then have "js_has (user_entries es) SCHEMA_ATTEMPTS_KEY" by (simp only: js_has_iff_key)
  then show False by (simp add: user_entries_def js_get_filter_key)
qed

lemma wp_restore_unspent:
  assumes "unspent a S r"
  shows "wp (restore refs es) (\<lambda>_ S' r'. unspent a S' r') (\<lambda>S' r'. unspent a S' r') (killed_ok a) S r"
proof -
  let ?R = "filter (\<lambda>k. k \<notin> set (js_keys (user_entries es))) (filter (\<lambda>k. \<not> reserved k \<and> covered refs k) (js_keys S))"
  have "SCHEMA_ATTEMPTS_KEY \<notin> set ?R" by simp
  then have "frame (bind (set_if_any (user_entries es)) (\<lambda>_. remove_if_any ?R))"
    using user_entries_no_attempts by (blast intro: frame_set_if_any frame_remove_if_any)
  then have "wp (bind (set_if_any (user_entries es)) (\<lambda>_. remove_if_any ?R))
      (\<lambda>_ S' r'. unspent a S' r') (\<lambda>S' r'. unspent a S' r') (killed_ok a) S r"
    by (rule frame_wp [OF _ assms]) (auto simp: unspent_ok)
  then show ?thesis
    unfolding restore_def Let_def by (intro wp_bind [of "footprintKeysFor refs"] wp_footprint) (use assms unspent_ok in auto)
qed

lemma wp_try_restore_unspent:
  "unspent a S r \<Longrightarrow> wp (try_restore refs es) (\<lambda>_ S' r'. unspent a S' r') E (killed_ok a) S r"
  unfolding try_restore_def
  by (intro wp_try wp_bind wp_mono [OF wp_restore_unspent]) auto

lemma wp_commit_unspent:
  assumes u: "unspent a S r"
  shows "wp (commit M m) (\<lambda>_ S' r'. unspent a S' r') (\<lambda>S' r'. unspent a S' r') (killed_ok a) S r"
  unfolding commit_def
proof (rule wp_bind, rule wp_keeps [OF keeps_run_up])
  fix st s
  show "wp (bind (guardCommit m (js_keys (diff_sets st) @ diff_removes st)) (\<lambda>_. bind (set_if_any (diff_sets st))
      (\<lambda>_. bind (remove_if_any (diff_removes st)) (\<lambda>_. st_set [(SCHEMA_VERSION_KEY, SInt (mg_version m))]))))
      (\<lambda>_ S' r'. unspent a S' r') (\<lambda>S' r'. unspent a S' r') (killed_ok a) S r"
  proof (rule wp_bind, rule wp_guard)
    assume "\<forall>k \<in> set (js_keys (diff_sets st) @ diff_removes st).
      \<not> reserved k \<and> k \<noteq> LEGACY_VERSION_KEY \<and> covered (mg_writes m) k"
    then have "SCHEMA_ATTEMPTS_KEY \<notin> set (js_keys (diff_sets st))" "SCHEMA_ATTEMPTS_KEY \<notin> set (diff_removes st)"
      using reserved_keys(4) by (metis UnCI set_append)+
    then have "frame (bind (set_if_any (diff_sets st)) (\<lambda>_. bind (remove_if_any (diff_removes st))
        (\<lambda>_. st_set [(SCHEMA_VERSION_KEY, SInt (mg_version m))])))"
      by (intro frame_bind frame_set_if_any frame_remove_if_any frame_set) auto
    then show "wp (bind (set_if_any (diff_sets st)) (\<lambda>_. bind (remove_if_any (diff_removes st))
        (\<lambda>_. st_set [(SCHEMA_VERSION_KEY, SInt (mg_version m))])))
        (\<lambda>_ S' r'. unspent a S' r') (\<lambda>S' r'. unspent a S' r') (killed_ok a) S r"
      by (rule frame_wp [OF _ u]) (auto simp: unspent_ok)
  qed (use u in auto)
qed (use u unspent_ok in auto)

lemma wp_bump_spent:
  assumes "unspent a S r"
  shows "wp (bumpAttempts v ph) (\<lambda>_ S' r'. r' \<and> spent a S') (\<lambda>S' r'. unspent a S' r') (killed_ok a) S r"
  unfolding bumpAttempts_def Let_def
  by (intro wp_bind wp_get wp_set1)
    (use assms in \<open>auto simp: wp_def unspent_def killed_ok_def spent_def attempts_def js_get_set js_get_pick prior_count_def\<close>)

lemma wp_spent_frame:
  assumes "frame c" and "r" and "spent a S"
  shows "wp c (\<lambda>_ S' r'. r' \<and> spent a S') (\<lambda>S' r'. r' \<and> spent a S') (killed_ok a) S r"
  by (rule wp_mono [OF assms(1) [unfolded frame_def, rule_format]])
    (use assms(2,3) in \<open>auto simp: spent_def killed_ok_def\<close>)

text \<open>Marking the journal, counting once, clearing or not, and answering.\<close>

text \<open>An answer that is not marked free.\<close>

definition charged :: "migration_result \<Rightarrow> bool" where
  "charged f = (case f of NeedsRecovery _ _ free \<Rightarrow> \<not> free | _ \<Rightarrow> True)"

definition charged_some :: "migration_result option \<Rightarrow> bool" where
  "charged_some x = (case x of None \<Rightarrow> False | Some f \<Rightarrow> charged f)"

lemma charged_simps [simp]:
  "charged_some (Some f) = charged f" "\<not> charged_some None" "charged (Failed v b rs n t)" "charged (Noop v)"
  "charged (Migrated v w)" "charged (Fresh v)" "charged (NeedsRecovery rr rt fr) = (\<not> fr)"
  "charged f \<Longrightarrow> charged (escalateIfLaterPending M f m)"
  by (auto simp: charged_def charged_some_def escalateIfLaterPending_def
      split: migration_result.splits bool.splits failure_reason.splits)

definition answers :: "'j sval option \<Rightarrow> ('j, migration_result option) comp \<Rightarrow> bool" where
  "answers a c \<longleftrightarrow> (\<forall>S. spent a S \<longrightarrow>
     wp c (\<lambda>x S' r'. charged_some x \<and> r' \<and> spent a S') (\<lambda>S' r'. r' \<and> spent a S') (killed_ok a) S True)"

lemma answers_ret: "charged f \<Longrightarrow> answers a (ret (Some f))"
  by (auto simp: answers_def)

lemma answers_clear: "charged f \<Longrightarrow> answers a (bind (st_remove [SCHEMA_BACKUP_KEY, SCHEMA_RUNNING_KEY]) (\<lambda>_. ret (Some f)))"
  unfolding answers_def
  by (intro allI impI wp_bind, rule wp_mono [OF wp_spent_frame [OF frame_remove]]) (auto simp: killed_ok_def)

lemma wp_count_once:
  assumes "unspent a S r" and "\<And>n. answers a (f n)"
  shows "wp (bind (markJournalCounted b refs es) (\<lambda>_. bind (bumpAttempts v ph) f))
    (\<lambda>x S' r'. charged_some x \<and> r' \<and> spent a S') (\<lambda>S' r'. counted_ok a S' r') (killed_ok a) S r"
proof (rule wp_bind, rule frame_wp [OF frame_mark assms(1)])
  fix S1
  assume u: "unspent a S1 r"
  show "wp (bind (bumpAttempts v ph) f) (\<lambda>x S' r'. charged_some x \<and> r' \<and> spent a S') (\<lambda>S' r'. counted_ok a S' r') (killed_ok a) S1 r"
  proof (intro wp_bind, rule wp_mono [OF wp_bump_spent [OF u]], goal_cases)
    case (1 n S2 r2)
    with assms(2) [of n] have "wp (f n) (\<lambda>x S' r'. charged_some x \<and> r' \<and> spent a S') (\<lambda>S' r'. r' \<and> spent a S') (killed_ok a) S2 r2"
      by (simp add: answers_def)
    then show ?case by (rule wp_mono) (auto simp: counted_ok_def)
  qed (auto simp: unspent_ok)
qed (auto simp: unspent_ok)

lemma wp_apply_failed_count:
  assumes "unspent a S r"
  shows "wp (apply_failed M m es err) (\<lambda>x S' r'. charged_some x \<and> r' \<and> spent a S') (\<lambda>S' r'. counted_ok a S' r') (killed_ok a) S r"
  unfolding apply_failed_def Let_def
proof (rule wp_bind, rule wp_mono [OF wp_try_restore_unspent [OF assms]], goal_cases)
  case (1 x S1 r1)
  show ?case
  proof (cases x)
    case None
    show ?thesis unfolding None option.case by (intro wp_count_once [OF 1] answers_clear) simp
  next
    case (Some e)
    show ?thesis unfolding Some option.case by (intro wp_count_once [OF 1] answers_ret) simp
  qed
qed auto

lemma unspent_reserved [simp]:
  "unspent a (js_del SCHEMA_BACKUP_KEY S) r = unspent a S r" "unspent a (js_del SCHEMA_RUNNING_KEY S) r = unspent a S r"
  "unspent a (js_set SCHEMA_BACKUP_KEY x S) r = unspent a S r" "unspent a (js_set SCHEMA_RUNNING_KEY x S) r = unspent a S r"
  "unspent a (js_set SCHEMA_VERSION_KEY x S) r = unspent a S r"
  by (simp_all add: unspent_def attempts_def map_simps)

lemma wp_applyOne_count:
  assumes u: "unspent a S r"
  shows "wp (applyOne M m) (\<lambda>res S' r'. if res = None then unspent a S' r' else charged_some res \<and> r' \<and> spent a S')
    (\<lambda>S' r'. counted_ok a S' r') (killed_ok a) S r"
proof -
  let ?Q = "\<lambda>res S' r'. if res = None then unspent a S' r' else charged_some res \<and> r' \<and> spent a S'"
  have body: "wp (try_catch
      (bind (commit M m) (\<lambda>_. bind (try_catch (st_remove [SCHEMA_BACKUP_KEY]) (\<lambda>_. ret ())) (\<lambda>_. ret None)))
      (apply_failed M m es)) ?Q (\<lambda>S' r'. counted_ok a S' r') (killed_ok a) S1 r1" if u1: "unspent a S1 r1" for es S1 r1
  proof (rule wp_try, rule wp_bind, rule wp_mono [OF wp_commit_unspent [OF u1]], goal_cases)
    case (1 x S2 r2)
    then have "killed_ok a S2" "killed_ok a (js_del SCHEMA_BACKUP_KEY S2)"
      using unspent_ok [of a S2 r2] unspent_ok [of a "js_del SCHEMA_BACKUP_KEY S2" r2] by auto
    with 1 show ?case by (auto intro!: wp_remove1)
  next
    case (2 S2 r2)
    then show ?case by (intro allI wp_mono [OF wp_apply_failed_count]) auto
  qed auto
  have b: "unspent a (js_set SCHEMA_BACKUP_KEY x S) r" for x using u by simp
  show ?thesis
    unfolding applyOne_def Let_def
    by (intro wp_bind wp_footprint wp_snapshot wp_set1 body b) (use u unspent_ok unspent_ok [OF b] in auto)
qed

lemma wp_apply_all_count:
  "unspent a S r \<Longrightarrow> wp (apply_all M from ms) (\<lambda>res S' r'. if res = None then unspent a S' r' else charged_some res \<and> r' \<and> spent a S')
    (\<lambda>S' r'. counted_ok a S' r') (killed_ok a) S r"
proof (induction ms arbitrary: S r)
  case (Cons m ms)
  have "wp (bind (applyOne M m) (\<lambda>failure. case failure of Some f \<Rightarrow> ret (Some (escalateIfLaterPending M f m)) | None \<Rightarrow> apply_all M from ms))
      (\<lambda>res S' r'. if res = None then unspent a S' r' else charged_some res \<and> r' \<and> spent a S') (\<lambda>S' r'. counted_ok a S' r') (killed_ok a) S r"
  proof (rule wp_bind, rule wp_mono [OF wp_applyOne_count [OF Cons.prems]], goal_cases)
    case (1 x S1 r1)
    show ?case
    proof (cases x)
      case None
      with 1 have "unspent a S1 r1" by simp
      from Cons.IH [OF this] None show ?thesis by (simp only: option.case)
    qed (use 1 in auto)
  qed auto
  with Cons.IH [OF Cons.prems] show ?case by (cases "mg_version m \<le> from") (simp_all only: apply_all.simps if_True if_False)
qed auto

text \<open>The final clear may drop the attempt record.\<close>

definition finished_ok :: "'j sval option \<Rightarrow> 'j store \<Rightarrow> bool \<Rightarrow> bool" where
  "finished_ok a S r \<longleftrightarrow> (if r then spent a S else attempts S = a \<or> attempts S = None)"

lemma counted_finished: "counted_ok a S r \<Longrightarrow> finished_ok a S r"
  by (auto simp: counted_ok_def finished_ok_def)

lemma wp_run_pending_count:
  assumes u: "unspent a S r"
  shows "wp (run_pending M from) (\<lambda>f S' r'. charged f \<and> finished_ok a S' r') (\<lambda>S' r'. finished_ok a S' r') (killed_ok a) S r"
proof -
  have b: "unspent a (js_set SCHEMA_RUNNING_KEY x S) r" for x using u by simp
  have fin: "wp (bind (st_set [(SCHEMA_VERSION_KEY, SInt (mi_maxVersion M))]) (\<lambda>_.
      bind (st_remove [SCHEMA_ATTEMPTS_KEY, SCHEMA_RUNNING_KEY]) (\<lambda>_. ret (Migrated from (mi_maxVersion M)))))
    (\<lambda>f S' r'. charged f \<and> finished_ok a S' r') (\<lambda>S' r'. finished_ok a S' r') (killed_ok a) S1 r1" if "unspent a S1 r1" for S1 r1
    by (intro wp_bind wp_set1 wp_remove wp_ret)
      (use that in \<open>auto simp: finished_ok_def killed_ok_def unspent_def attempts_def map_simps\<close>)
  show ?thesis
    unfolding run_pending_def
  proof (rule wp_bind, rule wp_set1, rule wp_bind, rule wp_mono [OF wp_apply_all_count [OF b]], goal_cases)
    case (1 res S1 r1)
    show ?case
    proof (cases res)
      case None
      with 1 have "unspent a S1 r1" by simp
      from fin [OF this] None show ?thesis by (simp only: option.case)
    qed (use 1 in \<open>auto simp: finished_ok_def\<close>)
  qed (use u unspent_ok [OF u] unspent_ok [OF b] in \<open>auto intro: counted_finished\<close>)
qed

definition resumed_ok :: "'j sval option \<Rightarrow> migration_result option \<Rightarrow> 'j store \<Rightarrow> bool \<Rightarrow> bool" where
  "resumed_ok a res S r \<longleftrightarrow> (if res = None then unspent a S r else charged_some res \<and> counted_ok a S r)"

lemma wp_resume_count:
  assumes u: "unspent a S r"
  shows "wp (resumeIfInterrupted M) (\<lambda>res S' r'. resumed_ok a res S' r')
    (\<lambda>S' r'. counted_ok a S' r') (killed_ok a) S r"
proof -
  note ok = unspent_ok [OF u]
  let ?Q = "\<lambda>res S' r'. resumed_ok a res S' r'"
  have clear: "wp (bind (st_remove ks) (\<lambda>_. ret None)) ?Q (\<lambda>S' r'. counted_ok a S' r') (killed_ok a) S1 r1"
    if "SCHEMA_ATTEMPTS_KEY \<notin> set ks" "unspent a S1 r1" for ks S1 r1
    by (rule wp_bind, rule frame_wp [OF frame_remove [OF that(1)] that(2)]) (auto simp: unspent_ok resumed_ok_def)
  have armed: "wp (resume_armed M b refs es c) ?Q (\<lambda>S' r'. counted_ok a S' r') (killed_ok a) S r" for b refs es c
    unfolding resume_armed_def
  proof (rule wp_bind, rule wp_mono [OF wp_try_restore_unspent [OF u]], goal_cases)
    case (1 x S1 r1)
    have w: "wp c' (\<lambda>x S' r'. charged_some x \<and> r' \<and> spent a S') (\<lambda>S' r'. counted_ok a S' r') (killed_ok a) S1 r1 \<Longrightarrow>
      wp c' ?Q (\<lambda>S' r'. counted_ok a S' r') (killed_ok a) S1 r1" for c'
      by (erule wp_mono) (auto simp: counted_ok_def resumed_ok_def)
    show ?case
    proof (cases x)
      case None
      have "wp (bind (st_remove [SCHEMA_BACKUP_KEY, SCHEMA_RUNNING_KEY]) (\<lambda>_. ret None)) ?Q
          (\<lambda>S' r'. counted_ok a S' r') (killed_ok a) S1 r1" by (rule clear [OF _ 1]) simp
      moreover have "wp (bind (markJournalCounted b refs es) (\<lambda>_. bind (bumpAttempts b PhaseUp) (\<lambda>attempts.
          bind (st_remove [SCHEMA_BACKUP_KEY, SCHEMA_RUNNING_KEY]) (\<lambda>_.
            ret (Some (NeedsRecovery (InterruptedRestored b) (attempts < mi_maxRetries M) False)))))) ?Q
          (\<lambda>S' r'. counted_ok a S' r') (killed_ok a) S1 r1"
        by (intro w wp_count_once [OF 1] answers_clear) simp
      ultimately show ?thesis unfolding None option.case
        by (cases c) (simp_all only: if_True if_False not_True_eq_False not_False_eq_True)
    next
      case (Some e)
      show ?thesis unfolding Some option.case by (intro w wp_count_once [OF 1] answers_ret) simp
    qed
  qed auto
  show ?thesis
    unfolding resumeIfInterrupted_def
  proof (rule wp_bind, rule wp_get)
    let ?j = "js_pick (Some [SCHEMA_RUNNING_KEY, SCHEMA_BACKUP_KEY, SCHEMA_VERSION_KEY]) S"
    have c: "wp (bind (st_remove [SCHEMA_BACKUP_KEY]) (\<lambda>_. ret None)) ?Q (\<lambda>S' r'. counted_ok a S' r') (killed_ok a) S r"
      "wp (bind (st_remove [SCHEMA_RUNNING_KEY]) (\<lambda>_. ret None)) ?Q (\<lambda>S' r'. counted_ok a S' r') (killed_ok a) S r"
      "wp (bind (st_remove [SCHEMA_BACKUP_KEY, SCHEMA_RUNNING_KEY]) (\<lambda>_. ret None)) ?Q (\<lambda>S' r'. counted_ok a S' r') (killed_ok a) S r"
      by (rule clear [OF _ u], simp)+
    have n: "wp (ret None) ?Q (\<lambda>S' r'. counted_ok a S' r') (killed_ok a) S r"
      using u ok by (auto simp: resumed_ok_def)
    have f: "wp (ret (Some f)) ?Q (\<lambda>S' r'. counted_ok a S' r') (killed_ok a) S r" if "charged f" for f
      using u ok that by (auto simp: resumed_ok_def)
    show "wp (if \<not> js_has ?j SCHEMA_RUNNING_KEY then
         (if js_has ?j SCHEMA_BACKUP_KEY then bind (st_remove [SCHEMA_BACKUP_KEY]) (\<lambda>_. ret None) else ret None)
       else (case js_get ?j SCHEMA_BACKUP_KEY of
         None \<Rightarrow> bind (st_remove [SCHEMA_RUNNING_KEY]) (\<lambda>_. ret None)
       | Some backup \<Rightarrow>
           if \<not> isValidBackup backup then ret (Some (NeedsRecovery InvalidBackupPayload False False))
           else if \<not> isValidMarker M (js_get ?j SCHEMA_VERSION_KEY) then ret (Some (NeedsRecovery JournalBadVersion False False))
           else (case (backup, js_get ?j SCHEMA_VERSION_KEY) of
             (SBackup b refs entries counted, Some (SInt version)) \<Rightarrow>
               if b < 1 \<or> b > mi_maxVersion M then ret (Some (NeedsRecovery (UnregisteredBackup b) False False))
               else if version \<ge> b then bind (st_remove [SCHEMA_BACKUP_KEY, SCHEMA_RUNNING_KEY]) (\<lambda>_. ret None)
               else resume_armed M b refs entries counted
           | _ \<Rightarrow> ret None))) ?Q (\<lambda>S' r'. counted_ok a S' r') (killed_ok a) S r"
      by (simp only: c n f armed charged_simps not_False_eq_True prod.case split: if_split option.split sval.split) simp
  qed (use ok in auto)
qed

lemma wp_runInner_count:
  assumes u: "unspent a S r"
  shows "wp (runInner M) (\<lambda>f S' r'. charged f \<and> finished_ok a S' r') (\<lambda>S' r'. finished_ok a S' r') (killed_ok a) S r"
  unfolding runInner_def
proof (rule wp_bind, rule wp_mono [OF wp_resume_count [OF u]], goal_cases)
  case (1 res S1 r1)
  show ?case
  proof (cases res)
    case (Some f)
    with 1 show ?thesis by (auto simp: resumed_ok_def intro: counted_finished)
  next
    case None
    with 1 have u1: "unspent a S1 r1" by (simp add: resumed_ok_def)
    note ok = unspent_ok [OF u1]
    have fr: "wp (bind (st_set [(SCHEMA_VERSION_KEY, x)]) (\<lambda>_. ret (Fresh y))) (\<lambda>f S' r'. charged f \<and> finished_ok a S' r')
        (\<lambda>S' r'. finished_ok a S' r') (killed_ok a) S1 r1" for x y
      by (rule wp_bind, rule frame_wp [OF frame_set u1]) (auto simp: unspent_ok counted_finished)
    have rt: "wp (ret x) (\<lambda>f S' r'. charged f \<and> finished_ok a S' r') (\<lambda>S' r'. finished_ok a S' r') (killed_ok a) S1 r1" if "charged x" for x
      using ok that by (auto intro: counted_finished)
    show ?thesis
      unfolding None option.case
    proof (rule wp_bind, rule wp_get)
      show "wp (case js_get (js_pick None S1) SCHEMA_VERSION_KEY of
          None \<Rightarrow> if js_has (js_pick None S1) LEGACY_VERSION_KEY then ret (NeedsRecovery LegacyMarker False False)
            else bind (st_set [(SCHEMA_VERSION_KEY, SInt (mi_maxVersion M))]) (\<lambda>_. ret (Fresh (mi_maxVersion M)))
        | Some raw \<Rightarrow>
            if \<not> isValidMarker M (Some raw) then ret (NeedsRecovery CorruptVersion False False)
            else (case raw of SInt from \<Rightarrow> if from = mi_maxVersion M then ret (Noop from) else run_pending M from
              | _ \<Rightarrow> ret (NeedsRecovery CorruptVersion False False)))
        (\<lambda>f S' r'. charged f \<and> finished_ok a S' r') (\<lambda>S' r'. finished_ok a S' r') (killed_ok a) S1 r1"
        by (simp only: fr rt charged_simps not_False_eq_True wp_run_pending_count [OF u1] split: if_split option.split sval.split) simp
    qed (use ok counted_finished in auto)
  qed
qed (auto intro: counted_finished)

section \<open>Properties\<close>

text \<open>A store at a valid version with no journal backup.\<close>

definition settled :: "'j migrator \<Rightarrow> int \<Rightarrow> 'j store \<Rightarrow> bool" where
  "settled M v S \<longleftrightarrow> js_get S SCHEMA_VERSION_KEY = Some (SInt v) \<and> 0 \<le> v \<and> v \<le> mi_maxVersion M
     \<and> js_get S SCHEMA_BACKUP_KEY = None"

lemma settled_safe: "settled M v S \<Longrightarrow> safe M v (udata S) S"
  by (intro safe_plain [of M v _ v]) (simp add: settled_def plain_def at_version_def legit_start)

text \<open>
  C20: crash safety. Start from any store at a valid version and boot the engine any number of times,
  each boot under an arbitrary script of succeeding, rejected and killed storage calls, killed and
  rejected multi-key writes landing for arbitrary subsets of their keys. The store's logical content
  (the journal's backup while it is armed, the stored data otherwise) is always exactly the data
  reached by whole migrations in version order, at the version the marker names.
\<close>

theorem migration_crash_safety:
  assumes "new_migrator coerce migrations retries baseline = Inr M" and "wf_refs M" and "settled M v0 S0"
  shows "\<exists>v. js_get (boots M scripts S0) SCHEMA_VERSION_KEY = Some (SInt v) \<and> v \<le> mi_maxVersion M
    \<and> legit M v0 (udata S0) v (logical (boots M scripts S0))"
  by (rule safe_logical [OF boots_safe [OF new_migrator_wf [OF assms(1)] assms(2) settled_safe [OF assms(3)]]])

text \<open>
  C35: the answer of a boot means what it says, whatever was interrupted before and whatever fails during it. A
  no-op or a migrated answer leaves the marker at the maximal version, data that whole migrations made, no run
  in progress and, once migrated, no attempts on record. A failed answer leaves no journal, the marker and
  the data of a version before the failed migration, its count of attempts on record; it is terminal
  exactly when the count reaches the retry bound, and breaking exactly when the migration is or a later
  one is pending. A recovery answer for a restore that did not succeed keeps the counted journal, whose
  backup still holds the data of a version before the migration; one for an interrupted migration has put that data
  back and cleared the journal; both have counted an attempt and are retryable exactly below the bound. Any
  other recovery answer is a storage failure and retryable: a corrupt marker or journal is never reported of a store
  the engine itself left.
\<close>

theorem migration_boot_outcome:
  assumes "new_migrator coerce migrations retries baseline = Inr M" and "wf_refs M" and "settled M v0 S0"
    and "boot M script (boots M scripts S0) = (Done res, S)"
  shows "case res of
      Noop v \<Rightarrow> v = mi_maxVersion M \<and> js_get S SCHEMA_VERSION_KEY = Some (SInt v) \<and> legit M v0 (udata S0) v (udata S)
        \<and> js_get S SCHEMA_RUNNING_KEY = None
    | Migrated from v \<Rightarrow> from < v \<and> v = mi_maxVersion M \<and> js_get S SCHEMA_VERSION_KEY = Some (SInt v) \<and> legit M v0 (udata S0) v (udata S)
        \<and> js_get S SCHEMA_RUNNING_KEY = None \<and> js_get S SCHEMA_ATTEMPTS_KEY = None
    | Fresh _ \<Rightarrow> False
    | Failed ver breaking _ a terminal \<Rightarrow> js_get S SCHEMA_BACKUP_KEY = None \<and> js_get S SCHEMA_RUNNING_KEY = None
        \<and> (\<exists>v < ver. js_get S SCHEMA_VERSION_KEY = Some (SInt v) \<and> legit M v0 (udata S0) v (udata S))
        \<and> js_get S SCHEMA_ATTEMPTS_KEY = Some (SAttempt ver PhaseUp a) \<and> (terminal \<longleftrightarrow> mi_maxRetries M \<le> a)
        \<and> (\<exists>m \<in> set (mi_migrations M). mg_version m = ver
             \<and> (breaking \<longleftrightarrow> mg_breaking m \<or> (\<exists>x \<in> set (mi_migrations M). ver < mg_version x)))
    | NeedsRecovery reason retryable _ \<Rightarrow>
        (\<exists>e. reason = UnexpectedStorageFailure e) \<and> retryable
        \<or> (\<exists>b e e' v n refs es. (reason = RestoreAfterFailure b e e' \<or> reason = RestoreInterrupted b e) \<and> v < b
             \<and> js_get S SCHEMA_VERSION_KEY = Some (SInt v) \<and> js_has S SCHEMA_RUNNING_KEY
             \<and> js_get S SCHEMA_BACKUP_KEY = Some (SBackup b refs es True) \<and> legit M v0 (udata S0) v (restored refs es S)
             \<and> js_get S SCHEMA_ATTEMPTS_KEY = Some (SAttempt b PhaseRestore n) \<and> (retryable \<longleftrightarrow> n < mi_maxRetries M))
        \<or> (\<exists>b v n. reason = InterruptedRestored b \<and> v < b
             \<and> js_get S SCHEMA_VERSION_KEY = Some (SInt v) \<and> js_get S SCHEMA_RUNNING_KEY = None \<and> js_get S SCHEMA_BACKUP_KEY = None
             \<and> legit M v0 (udata S0) v (udata S)
             \<and> js_get S SCHEMA_ATTEMPTS_KEY = Some (SAttempt b PhaseUp n) \<and> (retryable \<longleftrightarrow> n < mi_maxRetries M))"
proof -
  note wf = new_migrator_wf [OF assms(1)] assms(2)
  from boot_ok [OF wf boots_safe [OF wf settled_safe [OF assms(3)]], of script scripts] assms(4)
  have r: "outcome_ok M v0 (udata S0) res S" by simp
  show ?thesis
  proof (cases res)
    case (NeedsRecovery reason retryable free)
    with r show ?thesis
      by (cases reason) (auto simp: outcome_ok_def stuck_def rolled_back_def armed_def plain_def at_version_def)
  qed (use r in \<open>auto simp: outcome_ok_def rolled_back_def plain_def at_version_def\<close>)
qed

text \<open>
  Attempts are counted at most once per boot. Whatever the store and the script, a boot leaves
  the attempt record as it was, clears it, or records exactly one more attempt for one version; and
  an answer marked free (no attempt spent) recorded none.
\<close>

theorem migration_attempts_once:
  assumes "boot M script S = (res, S')"
  shows "(attempts S' = attempts S \<or> attempts S' = None
      \<or> (\<exists>v ph. attempts S' = Some (SAttempt v ph (prior_count v (attempts S) + 1))))
    \<and> (\<forall>reason retry. res = Done (NeedsRecovery reason retry True) \<longrightarrow> attempts S' = attempts S \<or> attempts S' = None)"
proof -
  let ?s = "\<lparr>ms_store = S, ms_script = script, ms_recorded = False\<rparr>"
  obtain x s where x: "runInner M ?s = (x, s)" by force
  have "unspent (attempts S) S False" by (simp add: unspent_def)
  from wp_runInner_count [OF this, of M] x have
    w: "case x of Done f \<Rightarrow> charged f \<and> finished_ok (attempts S) (ms_store s) (ms_recorded s)
      | Thrown _ \<Rightarrow> finished_ok (attempts S) (ms_store s) (ms_recorded s) | Killed \<Rightarrow> killed_ok (attempts S) (ms_store s)"
    unfolding wp_def by (auto split: res.splits dest: spec [of _ script])
  show ?thesis
  proof (cases x)
    case (Done f)
    with assms x w have "res = Done f" "S' = ms_store s" by (auto simp: boot_def run_def try_catch_def)
    with w Done show ?thesis by (auto simp: finished_ok_def spent_def split: if_splits)
  next
    case (Thrown e)
    with assms x have "res = Done (NeedsRecovery (UnexpectedStorageFailure e) True (\<not> ms_recorded s))" "S' = ms_store s"
      by (auto simp: boot_def run_def try_catch_def)
    with w Thrown show ?thesis by (auto simp: finished_ok_def spent_def split: if_splits)
  next
    case Killed
    with assms x w show ?thesis by (auto simp: boot_def run_def try_catch_def killed_ok_def spent_def)
  qed
qed

text \<open>
  C36: convergence. From every store the engine can have left behind, however its boots were
  interrupted, two boots without storage faults reach the maximal version: the marker names it, no run is in
  progress and the data is what whole migrations made of the starting data. Every migration is relied on to
  succeed within its declared footprint on the data it can be given, that is on what the migrations before
  it made of the starting data, and on no other.
\<close>

theorem migration_converges:
  assumes "new_migrator coerce migrations retries baseline = Inr M" and "wf_refs M" and "settled M v0 S0"
    and "ups_succeed M v0 (udata S0)"
  shows "\<exists>res S. boot M [] (snd (boot M [] (boots M scripts S0))) = (Done res, S)
    \<and> (res = Noop (mi_maxVersion M) \<or> (\<exists>from. res = Migrated from (mi_maxVersion M)))
    \<and> js_get S SCHEMA_VERSION_KEY = Some (SInt (mi_maxVersion M)) \<and> js_get S SCHEMA_RUNNING_KEY = None
    \<and> legit M v0 (udata S0) (mi_maxVersion M) (udata S)"
proof -
  note wf = new_migrator_wf [OF assms(1)] assms(2)
  let ?S = "boots M scripts S0"
  have s: "safe M v0 (udata S0) ?S" by (rule boots_safe [OF wf settled_safe [OF assms(3)]])
  from boot_clean [OF wf s assms(4)] obtain res1 S1 where
    b1: "boot M [] ?S = (Done res1, S1)" "safe M v0 (udata S0) S1" and
    or1: "res1 = Noop (mi_maxVersion M) \<or> (\<exists>from. res1 = Migrated from (mi_maxVersion M)) \<or> journal_free S1" by blast
  from boot_clean [OF wf b1(2) assms(4)] obtain res2 S2 where
    b2: "boot M [] S1 = (Done res2, S2)" "safe M v0 (udata S0) S2" and
    or2: "res2 = Noop (mi_maxVersion M) \<or> (\<exists>from. res2 = Migrated from (mi_maxVersion M)) \<or> \<not> journal_free S1" by blast
  have "res2 = Noop (mi_maxVersion M) \<or> (\<exists>from. res2 = Migrated from (mi_maxVersion M))"
  proof -
    from boot_ok [OF wf s, of "[]"] b1(1) have "outcome_ok M v0 (udata S0) res1 S1" by simp
    with or1 have "journal_free S1" by (auto simp: outcome_ok_def journal_free_def)
    with or2 show ?thesis by blast
  qed
  moreover from boot_ok [OF wf b1(2), of "[]"] b2(1) have "outcome_ok M v0 (udata S0) res2 S2" by simp
  ultimately show ?thesis using b1(1) b2(1) by (auto simp: outcome_ok_def plain_def at_version_def)
qed

section \<open>Witnesses\<close>

text \<open>One migration that renames a value and throws without it, on a store at version 0, with a kill during its commit.\<close>

definition demo_migration :: "string migration" where
  "demo_migration = defineMigration None 1 [ValueRef ''a''] [ValueRef ''a'', ValueRef ''b'']
     (PValue ''a'' (\<lambda>v. case v of None \<Rightarrow> PThrow ''missing'' | Some x \<Rightarrow> PSetValue ''b'' x (PDeleteValue ''a'' PDone)))"

definition demo_migrator :: "string migrator" where
  "demo_migrator = \<lparr>mi_migrations = [demo_migration], mi_maxRetries = 3, mi_maxVersion = 1, mi_coerce = (\<lambda>_. None)\<rparr>"

definition demo_store :: "string store" where
  "demo_store = [(SCHEMA_VERSION_KEY, SInt 0), (''a'', SUser (json_stringify ''x''))]"

lemma demo_new: "new_migrator (\<lambda>_. None) [demo_migration] None None = Inr demo_migrator"
  by (simp add: new_migrator_def demo_migrator_def demo_migration_def defineMigration_def)

lemma demo_refs: "wf_refs demo_migrator"
  by (simp add: wf_refs_def refs_ok_def demo_migrator_def demo_migration_def defineMigration_def covered_def LEGACY_VERSION_KEY_def)

lemma demo_settled: "settled demo_migrator 0 demo_store"
  by (simp add: settled_def demo_store_def demo_migrator_def) (simp add: schema_keys)

lemma demo_legit: "legit demo_migrator 0 d0 v d \<Longrightarrow> v < 1 \<Longrightarrow> d = d0"
  by (induction rule: legit.induct) (auto simp: demo_migrator_def demo_migration_def defineMigration_def)

lemma demo_ups: "ups_succeed demo_migrator 0 (udata demo_store)"
proof -
  have "up_succeeds demo_migrator demo_migration (udata demo_store)"
    unfolding up_succeeds_def
  proof (intro allI impI)
    fix S :: "string store" and r
    assume u: "udata S = udata demo_store"
    have "udata S ''a'' = Some (SUser (json_stringify ''x''))"
      unfolding u by (simp add: udata_def demo_store_def reserved_def) (simp add: schema_keys)
    then have a: "js_get S ''a'' = Some (SUser (json_stringify ''x''))" by (simp add: udata_def split: if_splits)
    have v: "wp0 (staging_value (mi_coerce demo_migrator) ''a'' []) (\<lambda>v S'. v = Some ''x'') S r"
      unfolding staging_value_def staging_parse_def sval_parse_def
      by (simp, intro wp0_bind wp0_get allI) (auto simp: js_get_pick a json_stringify_def intro!: wp0_bind)
    show "wp0 (run_up (mg_up demo_migration) (mi_coerce demo_migrator) [])
        (\<lambda>st S'. \<forall>k \<in> set (js_keys st). \<not> reserved k \<and> k \<noteq> LEGACY_VERSION_KEY \<and> covered (mg_writes demo_migration) k) S r"
      by (simp add: demo_migration_def defineMigration_def, rule wp0_bind, rule wp0_mono [OF v])
        (auto simp: covered_def reserved_def schema_keys)
  qed
  then show ?thesis
    unfolding ups_succeed_def next_migration_def
    using demo_legit by (fastforce simp: demo_migrator_def demo_migration_def defineMigration_def)
qed

definition demo_scripts :: "outcome list list" where
  "demo_scripts = [[OpOk, OpOk, OpOk, OpOk, OpOk, OpOk, OpOk, OpKill [''b'']]]"

theorem migration_crash_safety_witness:
  "\<exists>v. js_get (boots demo_migrator demo_scripts demo_store) SCHEMA_VERSION_KEY = Some (SInt v) \<and> v \<le> 1
    \<and> legit demo_migrator 0 (udata demo_store) v (logical (boots demo_migrator demo_scripts demo_store))"
  using migration_crash_safety [OF demo_new demo_refs demo_settled, of demo_scripts] by (simp add: demo_migrator_def)

theorem migration_boot_outcome_witness:
  "boot demo_migrator [] (boots demo_migrator [] demo_store)
     = (Done (Migrated 0 1), [(SCHEMA_VERSION_KEY, SInt 1), (''b'', SUser (json_stringify ''x''))])
   \<and> legit demo_migrator 0 (udata demo_store) 1 (udata [(SCHEMA_VERSION_KEY, SInt 1), (''b'', SUser (json_stringify ''x''))])"
proof -
  have b: "boot demo_migrator [] (boots demo_migrator [] demo_store)
     = (Done (Migrated 0 1), [(SCHEMA_VERSION_KEY, SInt 1), (''b'', SUser (json_stringify ''x''))])" by code_simp
  from migration_boot_outcome [OF demo_new demo_refs demo_settled b] b show ?thesis by (simp add: demo_migrator_def)
qed

theorem migration_attempts_once_witness:
  "attempts (snd (boot demo_migrator [OpOk, OpOk, OpOk, OpOk, OpOk, OpOk, OpOk, OpThrow ''quota'' []] demo_store))
     = Some (SAttempt 1 PhaseUp 1)
   \<and> (attempts (snd (boot demo_migrator [] demo_store)) = attempts demo_store
      \<or> attempts (snd (boot demo_migrator [] demo_store)) = None
      \<or> (\<exists>v ph. attempts (snd (boot demo_migrator [] demo_store)) = Some (SAttempt v ph (prior_count v (attempts demo_store) + 1))))"
proof -
  have "attempts (snd (boot demo_migrator [OpOk, OpOk, OpOk, OpOk, OpOk, OpOk, OpOk, OpThrow ''quota'' []] demo_store))
     = Some (SAttempt 1 PhaseUp 1)" by code_simp
  with migration_attempts_once [of demo_migrator "[]" demo_store "fst (boot demo_migrator [] demo_store)"
      "snd (boot demo_migrator [] demo_store)"] show ?thesis by simp
qed

theorem migration_converges_witness:
  "\<exists>res S. boot demo_migrator [] (snd (boot demo_migrator [] (boots demo_migrator demo_scripts demo_store))) = (Done res, S)
    \<and> (res = Noop 1 \<or> (\<exists>from. res = Migrated from 1)) \<and> js_get S SCHEMA_VERSION_KEY = Some (SInt 1)
    \<and> legit demo_migrator 0 (udata demo_store) 1 (udata S)"
  using migration_converges [OF demo_new demo_refs demo_settled demo_ups, of demo_scripts] by (auto simp: demo_migrator_def)

text \<open>
  A value reference naming the legacy marker is snapshotted but skipped on restore, so restoring its
  own backup deletes the key.
\<close>

lemma restore_drops_legacy:
  "restored [ValueRef LEGACY_VERSION_KEY] [(LEGACY_VERSION_KEY, v)] [(LEGACY_VERSION_KEY, v)] LEGACY_VERSION_KEY = None"
  by (simp add: restored_def user_entries_def covered_def)

end
