(* ===== verification/Id_Allocators.thy ===== *)
theory Id_Allocators
  imports Js_Text
begin

text \<open>
  The id allocation strategies of the entity stores
  (\<^verbatim>\<open>apps/extension/src/wallet/services/id-allocators.ts\<close>, with \<^verbatim>\<open>array_max\<close> of
  \<^verbatim>\<open>packages/wallet-core/src/utils/arrays.ts\<close>). Random hex comes from the platform, so a run takes the
  sequence of draws the generator makes as an argument; a loop that outlives the sequence given has
  no result. The lemmas show that every id handed out is free, and when each loop ends.
\<close>

section \<open>Random ids\<close>

fun randomIdNotIn :: "(string \<Rightarrow> bool) \<Rightarrow> string list \<Rightarrow> string option" where
  "randomIdNotIn taken [] = None"
| "randomIdNotIn taken (d # draws) = (if taken d then randomIdNotIn taken draws else Some d)"

definition nextRandomId :: "(string \<Rightarrow> bool) \<Rightarrow> string list \<Rightarrow> string option" where
  "nextRandomId contains draws = randomIdNotIn contains draws"

definition realloc_again :: "(string \<Rightarrow> bool) \<Rightarrow> string \<Rightarrow> string set option \<Rightarrow> string \<Rightarrow> bool" where
  "realloc_again contains sourceId avoid i =
     (contains i \<or> (case avoid of None \<Rightarrow> False | Some av \<Rightarrow> i \<noteq> sourceId \<and> i \<in> av))"

fun realloc_loop :: "(string \<Rightarrow> bool) \<Rightarrow> string \<Rightarrow> string set option \<Rightarrow> string list \<Rightarrow> string \<Rightarrow> string option" where
  "realloc_loop contains sourceId avoid [] i =
     (if realloc_again contains sourceId avoid i then None else Some i)"
| "realloc_loop contains sourceId avoid (d # draws) i =
     (if realloc_again contains sourceId avoid i then realloc_loop contains sourceId avoid draws d else Some i)"

definition preferOrReallocId ::
  "(string \<Rightarrow> bool) \<Rightarrow> string \<Rightarrow> string set option \<Rightarrow> string list \<Rightarrow> string option" where
  "preferOrReallocId contains sourceId avoid draws = realloc_loop contains sourceId avoid draws sourceId"

section \<open>Numeric ids\<close>

definition array_max :: "int list \<Rightarrow> int" where
  "array_max arr = fold (\<lambda>x res. if x > res then x else res) arr 0"

text \<open>
  The keys that survive \<^verbatim>\<open>canonicalNumericStorageId\<close> followed by \<^verbatim>\<open>Number.isSafeInteger\<close>: the canonical
  decimal forms of the safe naturals. Within the safe range \<^verbatim>\<open>Number\<close> and \<^verbatim>\<open>String\<close> are exact; a
  canonical form beyond it is dropped by the second filter.
\<close>

definition allocatable :: "string \<Rightarrow> int option" where
  "allocatable key =
     (let n = dec_value 0 key
      in if nat_dec n = key \<and> int n \<le> MAX_SAFE_INTEGER then Some (int n) else None)"

function walk_down :: "string list \<Rightarrow> int \<Rightarrow> int" where
  "walk_down occupied candidate =
     (if int_dec candidate \<in> set occupied then walk_down occupied (candidate - 1) else candidate)"
  by pat_completeness auto
termination
proof (relation "measure (\<lambda>(occ, c). card {k \<in> set occ. \<exists>m\<le>c. k = int_dec m})", simp, goal_cases)
  case (1 occ c)
  have "{k \<in> set occ. \<exists>m\<le>c - 1. k = int_dec m} \<subset> {k \<in> set occ. \<exists>m\<le>c. k = int_dec m}"
  proof
    show "{k \<in> set occ. \<exists>m\<le>c - 1. k = int_dec m} \<subseteq> {k \<in> set occ. \<exists>m\<le>c. k = int_dec m}"
      by (rule Collect_mono) (metis order.trans zle_diff1_eq less_imp_le)
    have "int_dec c \<notin> {k \<in> set occ. \<exists>m\<le>c - 1. k = int_dec m}" by auto
    with 1 show "{k \<in> set occ. \<exists>m\<le>c - 1. k = int_dec m} \<noteq> {k \<in> set occ. \<exists>m\<le>c. k = int_dec m}" by blast
  qed
  then show ?case by (simp add: psubset_card_mono)
qed

declare walk_down.simps [simp del]

definition nextNumericId :: "string list \<Rightarrow> int" where
  "nextNumericId keys =
     (let candidate = array_max (List.map_filter allocatable keys) + 1
      in walk_down keys (if \<not> candidate \<le> MAX_SAFE_INTEGER then MAX_SAFE_INTEGER else candidate))"

section \<open>Lemmas\<close>

lemma randomIdNotIn_Some: "randomIdNotIn taken draws = Some i \<Longrightarrow> i \<in> set draws \<and> \<not> taken i"
  by (induction draws) (auto split: if_splits)

lemma randomIdNotIn_None: "randomIdNotIn taken draws = None \<longleftrightarrow> (\<forall>d\<in>set draws. taken d)"
  by (induction draws) auto

lemma realloc_loop_Some:
  "realloc_loop contains s avoid draws i = Some r \<Longrightarrow>
     \<not> realloc_again contains s avoid r \<and> (r = i \<or> r \<in> set draws) \<and> (\<not> realloc_again contains s avoid i \<longrightarrow> r = i)"
  by (induction contains s avoid draws i rule: realloc_loop.induct) (auto split: if_splits)

lemma realloc_loop_None:
  "realloc_loop contains s avoid draws i = None \<longleftrightarrow>
     realloc_again contains s avoid i \<and> (\<forall>d\<in>set draws. realloc_again contains s avoid d)"
  by (induction contains s avoid draws i rule: realloc_loop.induct) auto

lemma array_max_acc:
  "fold (\<lambda>x res. if x > res then x else res) arr (r :: int) \<ge> r
   \<and> (\<forall>x\<in>set arr. x \<le> fold (\<lambda>x res. if x > res then x else res) arr r)
   \<and> fold (\<lambda>x res. if x > res then x else res) arr r \<in> insert r (set arr)"
proof (induction arr arbitrary: r)
  case (Cons a arr)
  show ?case
  proof (cases "a > r")
    case True
    with Cons.IH [of a] show ?thesis by auto
  next
    case False
    with Cons.IH [of r] show ?thesis by auto
  qed
qed simp

lemma array_max_ge: "0 \<le> array_max arr" "x \<in> set arr \<Longrightarrow> x \<le> array_max arr"
  using array_max_acc [of 0 arr] by (auto simp: array_max_def)

lemma array_max_in: "array_max arr \<in> insert 0 (set arr)"
  using array_max_acc [of 0 arr] by (simp add: array_max_def)

lemma walk_down_free: "int_dec (walk_down occ c) \<notin> set occ \<and> walk_down occ c \<le> c"
proof (induction occ c rule: walk_down.induct)
  case (1 occ c)
  show ?case
  proof (cases "int_dec c \<in> set occ")
    case True
    with 1 show ?thesis by (subst (1 2) walk_down.simps) simp
  next
    case False
    then show ?thesis by (subst (1 2) walk_down.simps) simp
  qed
qed

lemma walk_down_stay: "int_dec c \<notin> set occ \<Longrightarrow> walk_down occ c = c"
  by (subst walk_down.simps) simp

lemma allocatable_iff: "allocatable k = Some n \<longleftrightarrow> k = int_dec n \<and> 0 \<le> n \<and> n \<le> MAX_SAFE_INTEGER"
proof -
  have "dec_value 0 (int_dec n) = nat n" if "0 \<le> n" using that by (simp add: int_dec_def nat_dec_value)
  then show ?thesis by (auto simp: allocatable_def Let_def int_dec_def)
qed

lemma set_map_filter_allocatable:
  "n \<in> set (List.map_filter allocatable keys) \<longleftrightarrow> int_dec n \<in> set keys \<and> 0 \<le> n \<and> n \<le> MAX_SAFE_INTEGER"
  by (auto simp: set_map_filter_iff allocatable_iff)

section \<open>Properties\<close>

text \<open>
  A numeric id handed out is always a free key and a safe integer, whatever keys a store holds,
  hostile ones included; on a store whose largest canonical key is below the largest safe integer it
  is one more than that key, so above every id in use.
\<close>

theorem next_numeric_id_free:
  "int_dec (nextNumericId keys) \<notin> set keys \<and> nextNumericId keys \<le> MAX_SAFE_INTEGER
   \<and> (int_dec MAX_SAFE_INTEGER \<in> set keys
      \<or> (1 \<le> nextNumericId keys \<and> (\<forall>n. 0 \<le> n \<and> n \<le> MAX_SAFE_INTEGER \<and> int_dec n \<in> set keys \<longrightarrow> n < nextNumericId keys)))"
proof -
  let ?ids = "List.map_filter allocatable keys"
  let ?c = "array_max ?ids + 1"
  have bound: "array_max ?ids \<le> MAX_SAFE_INTEGER"
    using array_max_in [of ?ids] by (auto simp: set_map_filter_allocatable MAX_SAFE_INTEGER_def)
  have *: "nextNumericId keys = ?c" "?c \<le> MAX_SAFE_INTEGER" if "int_dec MAX_SAFE_INTEGER \<notin> set keys"
  proof -
    have "array_max ?ids \<noteq> MAX_SAFE_INTEGER"
      using that array_max_in [of ?ids] by (auto simp: set_map_filter_allocatable MAX_SAFE_INTEGER_def)
    with bound show le: "?c \<le> MAX_SAFE_INTEGER" by simp
    have "int_dec ?c \<notin> set keys"
    proof
      assume "int_dec ?c \<in> set keys"
      with le array_max_ge(1) [of ?ids] have "?c \<in> set ?ids" by (simp add: set_map_filter_allocatable)
      then show False using array_max_ge(2) by fastforce
    qed
    with le show "nextNumericId keys = ?c" by (simp add: nextNumericId_def walk_down_stay)
  qed
  have "1 \<le> nextNumericId keys \<and> (\<forall>n. 0 \<le> n \<and> n \<le> MAX_SAFE_INTEGER \<and> int_dec n \<in> set keys \<longrightarrow> n < nextNumericId keys)"
    if "int_dec MAX_SAFE_INTEGER \<notin> set keys"
    using array_max_ge [where arr = ?ids] by (auto simp: *(1) [OF that] set_map_filter_allocatable zle_add1_eq_le)
  moreover have "nextNumericId keys \<le> MAX_SAFE_INTEGER"
    using walk_down_free [of keys "if \<not> ?c \<le> MAX_SAFE_INTEGER then MAX_SAFE_INTEGER else ?c"]
    by (auto simp: nextNumericId_def Let_def split: if_splits)
  moreover have "int_dec (nextNumericId keys) \<notin> set keys"
    using walk_down_free by (simp add: nextNumericId_def Let_def)
  ultimately show ?thesis by blast
qed

text \<open>A store holding a hostile key, the largest safe integer, still gets a free id.\<close>

theorem next_numeric_id_free_witness:
  "int_dec (nextNumericId [''9007199254740991'', ''01'']) \<notin> set [''9007199254740991'', ''01'']
   \<and> nextNumericId [''9007199254740991'', ''01''] \<le> MAX_SAFE_INTEGER"
  using next_numeric_id_free [of "[''9007199254740991'', ''01'']"] by simp

end
