(* ===== verification/Profile_Deletion.thy ===== *)
theory Profile_Deletion
  imports Js_Text
begin

text \<open>
  The in-memory deletion state of profiles
  (\<^verbatim>\<open>apps/extension/src/wallet/services/profile/profile-deletion-state.ts\<close>): which profile ids are
  reserved by a tombstone, and the deletion epoch that fences writes prepared before a deletion. The
  lemmas show that epochs never fall, so a fence once stale stays stale.
\<close>

section \<open>State and operations\<close>

record deletion_state =
  ds_reserved :: "string set"
  ds_epochs :: "(string, int) jsmap"

record execution_fence =
  ef_profileId :: string
  ef_epoch :: int
  ef_session :: int

definition new_deletion_state :: deletion_state where
  "new_deletion_state = \<lparr>ds_reserved = {}, ds_epochs = []\<rparr>"

definition initReserved :: "string list \<Rightarrow> deletion_state \<Rightarrow> deletion_state" where
  "initReserved ids st = fold (\<lambda>i. ds_reserved_update (insert i)) ids st"

definition capture :: "deletion_state \<Rightarrow> string \<Rightarrow> int" where
  "capture st i = or_else (js_get (ds_epochs st) i) 0"

definition hydrateDeletion :: "string \<Rightarrow> int \<Rightarrow> deletion_state \<Rightarrow> deletion_state" where
  "hydrateDeletion i storedEpoch st =
     st\<lparr>ds_epochs := js_set i (max (capture st i) storedEpoch) (ds_epochs st), ds_reserved := insert i (ds_reserved st)\<rparr>"

definition isReserved :: "deletion_state \<Rightarrow> string \<Rightarrow> bool" where
  "isReserved st i = (i \<in> ds_reserved st)"

definition release :: "string \<Rightarrow> deletion_state \<Rightarrow> deletion_state" where
  "release i st = st\<lparr>ds_reserved := ds_reserved st - {i}\<rparr>"

definition beginDeletion :: "string \<Rightarrow> deletion_state \<Rightarrow> int \<times> deletion_state" where
  "beginDeletion i st =
     (let n = capture st i + 1
      in (n, st\<lparr>ds_epochs := js_set i n (ds_epochs st), ds_reserved := insert i (ds_reserved st)\<rparr>))"

datatype fence_error = StaleEpoch (fe_profile: string) (fe_captured: int) (fe_current: int)

definition assertCurrent :: "deletion_state \<Rightarrow> string \<Rightarrow> int \<Rightarrow> fence_error + unit" where
  "assertCurrent st i captured =
     (if capture st i \<noteq> captured then Inl (StaleEpoch i captured (capture st i)) else Inr ())"

definition isCurrent_epoch :: "deletion_state \<Rightarrow> string \<Rightarrow> int \<Rightarrow> bool" where
  "isCurrent_epoch st i captured = (capture st i = captured)"

text \<open>The state is changed by these calls only.\<close>

datatype deletion_op = InitReserved "string list" | Hydrate string int | Release string | Begin string

fun deletion_step :: "deletion_op \<Rightarrow> deletion_state \<Rightarrow> deletion_state" where
  "deletion_step (InitReserved ids) st = initReserved ids st"
| "deletion_step (Hydrate i e) st = hydrateDeletion i e st"
| "deletion_step (Release i) st = release i st"
| "deletion_step (Begin i) st = snd (beginDeletion i st)"

section \<open>Lemmas\<close>

lemma capture_initReserved [simp]: "capture (initReserved ids st) i = capture st i"
  unfolding initReserved_def by (induction ids arbitrary: st) (simp_all add: capture_def)

lemma capture_hydrate [simp]:
  "capture (hydrateDeletion j e st) i = (if i = j then max (capture st i) e else capture st i)"
  by (simp add: capture_def hydrateDeletion_def js_get_set)

lemma capture_release [simp]: "capture (release j st) i = capture st i"
  by (simp add: capture_def release_def)

lemma capture_begin [simp]:
  "capture (snd (beginDeletion j st)) i = (if i = j then capture st i + 1 else capture st i)"
  by (simp add: capture_def beginDeletion_def Let_def js_get_set)

lemma capture_step_mono: "capture st i \<le> capture (deletion_step d st) i"
  by (cases d) simp_all

lemma capture_run_mono: "capture st i \<le> capture (fold deletion_step ds st) i"
  by (induction ds arbitrary: st) (auto intro: order_trans [OF capture_step_mono])

lemma reserved_initReserved: "ds_reserved (initReserved ids st) = ds_reserved st \<union> set ids"
  unfolding initReserved_def by (induction ids arbitrary: st) auto

lemma reserved_step:
  "p \<in> ds_reserved st \<Longrightarrow> d \<noteq> Release p \<Longrightarrow> p \<in> ds_reserved (deletion_step d st)"
  by (cases d) (auto simp: reserved_initReserved hydrateDeletion_def release_def beginDeletion_def Let_def)

lemma reserved_run: "p \<in> ds_reserved st \<Longrightarrow> Release p \<notin> set ds \<Longrightarrow> p \<in> ds_reserved (fold deletion_step ds st)"
proof (induction ds arbitrary: st)
  case (Cons d ds)
  then have "p \<in> ds_reserved (deletion_step d st)" by (intro reserved_step) auto
  with Cons show ?case by simp
qed simp

section \<open>Properties\<close>

text \<open>
  Once a deletion of a profile has begun, an epoch captured before it (the current one or an
  older one) is never accepted again, through any further hydrations, releases and deletions; until
  the reservation is released the id stays reserved, and no other profile's fence is disturbed by
  the deletion.
\<close>

theorem deletion_fence_permanent:
  assumes "captured \<le> capture st p" and "q \<noteq> p"
  shows "\<not> isCurrent_epoch (fold deletion_step ds (snd (beginDeletion p st))) p captured
    \<and> (\<exists>e. assertCurrent (fold deletion_step ds (snd (beginDeletion p st))) p captured = Inl e)
    \<and> (Release p \<notin> set ds \<longrightarrow> isReserved (fold deletion_step ds (snd (beginDeletion p st))) p)
    \<and> isCurrent_epoch (snd (beginDeletion p st)) q (capture st q)"
proof -
  let ?st = "snd (beginDeletion p st)"
  have "captured < capture (fold deletion_step ds ?st) p"
    using assms(1) capture_run_mono [of ?st p ds] by simp
  moreover have "isReserved (fold deletion_step ds ?st) p" if "Release p \<notin> set ds"
    unfolding isReserved_def by (rule reserved_run [OF _ that]) (simp add: beginDeletion_def Let_def)
  ultimately show ?thesis using assms(2) by (auto simp: isCurrent_epoch_def assertCurrent_def)
qed

theorem deletion_fence_permanent_witness:
  "\<not> isCurrent_epoch (fold deletion_step [Release ''a'', Hydrate ''a'' 0] (snd (beginDeletion ''a'' new_deletion_state))) ''a'' 0"
  using deletion_fence_permanent [of 0 new_deletion_state "''a''" "''b''" "[Release ''a'', Hydrate ''a'' 0]"]
  by (simp add: new_deletion_state_def capture_def)

end
