(* ===== verification/Journal_Model.thy ===== *)
theory Journal_Model
  imports Job_Fsm Entity_Storage Id_Allocators Profile_Deletion
begin

text \<open>
  The durable operation journal (\<^verbatim>\<open>apps/extension/src/wallet/services/operation-journal/spec.ts\<close>,
  \<^verbatim>\<open>service.ts\<close>, with \<^verbatim>\<open>purge-rows.ts\<close>): the records, their schema, and every operation of the service
  as a function of the stored rows and the events emitted so far. Each locked operation is one step,
  since it runs in one hold of the transition lock; the clock, the random draws and the services it
  asks are arguments.
\<close>

section \<open>Records (spec.ts)\<close>

datatype operation_kind = Transfer | DappExecute | TokenImport

datatype operation_origin = Popup | Dapp | Seed

datatype operation_context = PopupContext | DappContext (dappOrigin: string) | SeedContext

datatype transfer_type = TPrivate | TPrivateToPublic | TPublic | TPublicToPrivate

record op_record =
  op_id :: string
  op_kind :: operation_kind
  op_origin :: operation_origin
  op_profileId :: string
  op_sessionId :: "string option"
  op_progress :: job_progress
  op_error :: "job_error option"
  op_terminalAt :: "time option"
  op_attempts :: int
  op_createdAt :: time
  op_updatedAt :: time
  op_accountAddress :: "string option"
  op_networkId :: "string option"
  op_tokenId :: "int option"
  op_title :: "string option"
  op_subtitle :: "string option"
  op_amountRaw :: "string option"
  op_recipientAddress :: "string option"
  op_contractAddress :: "string option"
  op_transferType :: "transfer_type option"

datatype initial_stage = InitQueued | InitPending

record op_input =
  in_kind :: operation_kind
  in_origin :: operation_origin
  in_profileId :: string
  in_sessionId :: "string option"
  in_profileEpoch :: "int option"
  in_accountAddress :: "string option"
  in_networkId :: "string option"
  in_tokenId :: "int option"
  in_title :: "string option"
  in_subtitle :: "string option"
  in_amountRaw :: "string option"
  in_recipientAddress :: "string option"
  in_contractAddress :: "string option"
  in_transferType :: "transfer_type option"
  in_initialStage :: "initial_stage option"

abbreviation op_stage :: "op_record \<Rightarrow> job_stage" where
  "op_stage r \<equiv> stage_of (op_progress r)"

text \<open>What the schemas demand beyond the types.\<close>

fun JobProgressSchema :: "job_progress \<Rightarrow> bool" where
  "JobProgressSchema (PFailed (Some s) _ _ _) = (\<not> isTerminal s)"
| "JobProgressSchema _ = True"

definition JobErrorSchema :: "job_error \<Rightarrow> bool" where
  "JobErrorSchema e =
     (je_kind e \<noteq> [] \<and> (case je_normalizedRaw e of None \<Rightarrow> True | Some s \<Rightarrow> length s \<le> NORMALIZED_RAW_MAX_CHARS))"

definition error_ok :: "job_error option \<Rightarrow> bool" where
  "error_ok e = (case e of None \<Rightarrow> True | Some err \<Rightarrow> JobErrorSchema err)"

definition OperationRecordSchema :: "op_record \<Rightarrow> bool" where
  "OperationRecordSchema r =
     (op_profileId r \<noteq> [] \<and> JobProgressSchema (op_progress r) \<and> error_ok (op_error r) \<and> op_attempts r \<ge> 0)"

definition NewOperationInputSchema :: "op_input \<Rightarrow> bool" where
  "NewOperationInputSchema v =
     (in_profileId v \<noteq> [] \<and> (case in_profileEpoch v of None \<Rightarrow> True | Some e \<Rightarrow> e \<ge> 0)
      \<and> (in_initialStage v \<noteq> Some InitQueued
         \<or> (in_kind v = DappExecute \<and> in_origin v = Dapp
            \<and> (case in_sessionId v of None \<Rightarrow> False | Some s \<Rightarrow> s \<noteq> []))))"

definition isSendCheckable :: "op_record \<Rightarrow> bool" where
  "isSendCheckable r =
     (case op_progress r of
        PFailed from (Some h) _ _ \<Rightarrow>
          from = Some Submitting \<and> h \<noteq> [] \<and> map_option je_kind (op_error r) \<noteq> Some ''session_ended''
      | _ \<Rightarrow> False)"

definition wasNeverSent :: "op_record \<Rightarrow> bool" where
  "wasNeverSent r =
     (case op_progress r of
        PFailed (Some from) _ _ _ \<Rightarrow> from \<noteq> Submitting \<or> map_option je_kind (op_error r) = Some ''session_ended''
      | _ \<Rightarrow> False)"

record operation_filter =
  of_accountAddress :: "string option"
  of_profileId :: "string option"
  of_stage :: "job_stage option"
  of_isTerminal :: "bool option"
  of_kind :: "operation_kind option"

record count_filter =
  cf_sessionId :: "string option"
  cf_stage :: "job_stage option"

section \<open>Stored rows and state\<close>

text \<open>
  A stored JSON value: one with the shape of a record (which the schema may still refuse), another
  object with the string its profileId holds, if any, or no object at all.
\<close>

datatype journal_json = JRow op_record | JObject "string option" | JScalar

fun record_codec :: "journal_json \<Rightarrow> journal_json option" where
  "record_codec (JRow r) = (if OperationRecordSchema r then Some (JRow r) else None)"
| "record_codec _ = None"

fun json_profileId :: "journal_json \<Rightarrow> string option" where
  "json_profileId (JRow r) = Some (op_profileId r)"
| "json_profileId (JObject p) = p"
| "json_profileId JScalar = None"

datatype journal_event = OperationAdded op_record | OperationUpdated op_record | OperationDeleted op_record

record journal =
  jl_area :: "journal_json area"
  jl_events :: "journal_event list"

definition journal_storage :: "journal_json entity_storage" where
  "journal_storage = plain_storage ''nulo:journal'' record_codec"

definition loadValidated :: "journal_json area \<Rightarrow> string \<Rightarrow> op_record option" where
  "loadValidated a i = (case ps_get journal_storage a i of Some (JRow r) \<Rightarrow> Some r | _ \<Rightarrow> None)"

definition row_record :: "string \<times> journal_json \<Rightarrow> (string \<times> op_record) option" where
  "row_record p = (case p of (i, JRow r) \<Rightarrow> Some (i, r) | _ \<Rightarrow> None)"

definition loadRows :: "journal_json area \<Rightarrow> (string \<times> op_record) list" where
  "loadRows a = List.map_filter row_record (ps_rows journal_storage a)"

definition loadAllValidated :: "journal_json area \<Rightarrow> op_record list" where
  "loadAllValidated a = map snd (loadRows a)"

definition put_row :: "string \<Rightarrow> op_record \<Rightarrow> journal_json area \<Rightarrow> journal_json area" where
  "put_row i r a = es_set journal_storage i (JRow r) a"

definition del_row :: "string \<Rightarrow> journal_json area \<Rightarrow> journal_json area" where
  "del_row i a = es_delete journal_storage i a"

definition emit :: "journal_event \<Rightarrow> journal \<Rightarrow> journal" where
  "emit e j = j\<lparr>jl_events := jl_events j @ [e]\<rparr>"

definition write_row :: "string \<Rightarrow> op_record \<Rightarrow> journal \<Rightarrow> journal" where
  "write_row i r j = emit (OperationUpdated r) (j\<lparr>jl_area := put_row i r (jl_area j)\<rparr>)"

datatype journal_error =
    InvalidParams
  | ProfileMissing string
  | ProfileDeleted string
  | NetworkNotLive string
  | StillDrawing
  | OperationNotFound string
  | IllegalTransition illegal_transition
  | ErrorRequired
  | ErrorForbidden job_stage
  | TxHashRequired operation_kind
  | ShortcutForbidden operation_kind
  | TxHashForbidden
  | HashDrift string string

section \<open>Bulk deletion (purge-rows.ts)\<close>

definition purgeRows :: "op_record list \<Rightarrow> journal \<Rightarrow> journal" where
  "purgeRows rows j =
     fold (\<lambda>r j. emit (OperationDeleted r) (j\<lparr>jl_area := del_row (op_id r) (jl_area j)\<rparr>)) rows j"

text \<open>Only the exact bytes the decision was made about are deleted.\<close>

definition purgeMalformedRows :: "(journal_json \<Rightarrow> bool) \<Rightarrow> journal_json area \<Rightarrow> nat \<times> journal_json area" where
  "purgeMalformedRows matchesRaw a =
     fold (\<lambda>(i, rawString) (purged, a).
         case text_parse rawString of
           None \<Rightarrow> (purged, a)
         | Some raw \<Rightarrow>
             if raw = JScalar then (purged, a)
             else if \<not> matchesRaw raw then (purged, a)
             else if es_rawValue journal_storage a i \<noteq> Some rawString then (purged, a)
             else (purged + 1, es_delete journal_storage i a))
       (es_rawStringEntries journal_storage a) (0, a)"

definition clearChainState :: "string \<Rightarrow> journal \<Rightarrow> journal" where
  "clearChainState networkId j =
     purgeRows (filter (\<lambda>r. op_networkId r = Some networkId) (loadAllValidated (jl_area j))) j"

definition purgeForProfile :: "string \<Rightarrow> journal \<Rightarrow> journal" where
  "purgeForProfile profileId j =
     (let j1 = purgeRows (filter (\<lambda>r. op_profileId r = profileId) (loadAllValidated (jl_area j))) j
      in j1\<lparr>jl_area := snd (purgeMalformedRows (\<lambda>raw. json_profileId raw = Some profileId) (jl_area j1))\<rparr>)"

section \<open>Creation\<close>

text \<open>The part of the network service the creation fence asks.\<close>

record network_rows =
  nr_rows :: "string set"
  nr_deleting :: "string set"

definition isNetworkLive :: "network_rows \<Rightarrow> string \<Rightarrow> bool" where
  "isNetworkLive n i = (if i \<in> nr_deleting n then False else i \<in> nr_rows n)"

text \<open>The services the journal is wired to; each may be absent.\<close>

record fences =
  fn_profiles :: "string list option"
  fn_deletion :: "deletion_state option"
  fn_networks :: "network_rows option"

definition create_fence :: "fences \<Rightarrow> op_input \<Rightarrow> journal_error option" where
  "create_fence f v =
     (case fn_profiles f of
        Some known \<Rightarrow>
          if in_profileId v \<notin> set known then Some (ProfileMissing (in_profileId v))
          else (case (in_profileEpoch v, fn_deletion f) of
                  (Some e, Some d) \<Rightarrow> if \<not> isCurrent_epoch d (in_profileId v) e then Some (ProfileDeleted (in_profileId v)) else None
                | _ \<Rightarrow> None)
      | None \<Rightarrow> None)"

definition network_fence :: "fences \<Rightarrow> op_input \<Rightarrow> journal_error option" where
  "network_fence f v =
     (case (fn_networks f, in_networkId v) of
        (Some n, Some i) \<Rightarrow> if \<not> isNetworkLive n i then Some (NetworkNotLive i) else None
      | _ \<Rightarrow> None)"

definition new_record :: "time \<Rightarrow> string \<Rightarrow> op_input \<Rightarrow> op_record" where
  "new_record now i v =
     \<lparr>op_id = i, op_kind = in_kind v, op_origin = in_origin v, op_profileId = in_profileId v,
      op_sessionId = in_sessionId v,
      op_progress = (case in_initialStage v of Some InitQueued \<Rightarrow> PQueued | _ \<Rightarrow> PPending),
      op_error = None, op_terminalAt = None, op_attempts = 0, op_createdAt = now, op_updatedAt = now,
      op_accountAddress = in_accountAddress v, op_networkId = in_networkId v, op_tokenId = in_tokenId v,
      op_title = in_title v, op_subtitle = in_subtitle v, op_amountRaw = in_amountRaw v,
      op_recipientAddress = in_recipientAddress v, op_contractAddress = in_contractAddress v,
      op_transferType = in_transferType v\<rparr>"

definition createOperationLocked ::
  "fences \<Rightarrow> time \<Rightarrow> string list \<Rightarrow> op_input \<Rightarrow> journal \<Rightarrow> (journal_error + op_record) \<times> journal" where
  "createOperationLocked f now draws v j =
     (case create_fence f v of
        Some e \<Rightarrow> (Inl e, j)
      | None \<Rightarrow>
          (case network_fence f v of
             Some e \<Rightarrow> (Inl e, j)
           | None \<Rightarrow>
               (case nextRandomId (es_contains journal_storage (jl_area j)) draws of
                  None \<Rightarrow> (Inl StillDrawing, j)
                | Some i \<Rightarrow>
                    (let r = new_record now i v
                     in (Inr r, emit (OperationAdded r) (j\<lparr>jl_area := put_row (op_id r) r (jl_area j)\<rparr>))))))"

definition createOperation ::
  "fences \<Rightarrow> time \<Rightarrow> string list \<Rightarrow> op_input \<Rightarrow> journal \<Rightarrow> (journal_error + op_record) \<times> journal" where
  "createOperation f now draws v j =
     (if \<not> NewOperationInputSchema v then (Inl InvalidParams, j) else createOperationLocked f now draws v j)"

section \<open>Transitions\<close>

fun failedFrom :: "job_progress \<Rightarrow> job_progress" where
  "failedFrom (PSubmitting h u) = PFailed (Some Submitting) h u None"
| "failedFrom prior = PFailed (if isTerminal (stage_of prior) then None else Some (stage_of prior)) None None None"

definition assertErrorInvariant :: "job_progress \<Rightarrow> job_error option \<Rightarrow> journal_error + unit" where
  "assertErrorInvariant progress err =
     (if stage_of progress = Failed then (if err = None then Inl ErrorRequired else Inr ())
      else if err \<noteq> None then Inl (ErrorForbidden (stage_of progress)) else Inr ())"

definition hasTxHash :: "string option \<Rightarrow> bool" where
  "hasTxHash h = (case h of None \<Rightarrow> False | Some s \<Rightarrow> s \<noteq> [])"

definition assertSucceededKindInvariant :: "op_record \<Rightarrow> string option \<Rightarrow> journal_error + unit" where
  "assertSucceededKindInvariant existing txHash =
     (case op_kind existing of
        TokenImport \<Rightarrow> if hasTxHash txHash then Inl TxHashForbidden else Inr ()
      | kind \<Rightarrow>
          if \<not> hasTxHash txHash then Inl (TxHashRequired kind)
          else if op_stage existing = Simulating then Inl (ShortcutForbidden kind) else Inr ())"

definition assertNoHashDrift :: "op_record \<Rightarrow> string option \<Rightarrow> journal_error + unit" where
  "assertNoHashDrift existing txHash =
     (case op_progress existing of
        PSubmitting (Some h) _ \<Rightarrow>
          if h \<noteq> [] \<and> hasTxHash txHash \<and> txHash \<noteq> Some h then Inl (HashDrift h (the txHash)) else Inr ()
      | _ \<Rightarrow> Inr ())"

definition transition_checks :: "op_record \<Rightarrow> job_progress \<Rightarrow> job_error option \<Rightarrow> journal_error + unit" where
  "transition_checks existing progress err =
     (case assertCanTransition (op_stage existing) (stage_of progress) of
        Inl e \<Rightarrow> Inl (IllegalTransition e)
      | Inr _ \<Rightarrow>
          (case assertErrorInvariant progress err of
             Inl e \<Rightarrow> Inl e
           | Inr _ \<Rightarrow>
               (case progress of
                  PSucceeded h \<Rightarrow>
                    (case assertSucceededKindInvariant existing h of Inl e \<Rightarrow> Inl e | Inr _ \<Rightarrow> assertNoHashDrift existing h)
                | _ \<Rightarrow> Inr ())))"

definition transitioned :: "time \<Rightarrow> op_record \<Rightarrow> job_progress \<Rightarrow> job_error option \<Rightarrow> op_record" where
  "transitioned now existing progress err =
     existing\<lparr>op_progress := (if stage_of progress = Failed then failedFrom (op_progress existing) else progress),
       op_error := err,
       op_terminalAt := (if isTerminal (stage_of progress) then Some now else op_terminalAt existing),
       op_updatedAt := now\<rparr>"

definition transitionLocked ::
  "time \<Rightarrow> string \<Rightarrow> job_progress \<Rightarrow> job_error option \<Rightarrow> journal \<Rightarrow> (journal_error + op_record) \<times> journal" where
  "transitionLocked now i progress err j =
     (case loadValidated (jl_area j) i of
        None \<Rightarrow> (Inl (OperationNotFound i), j)
      | Some existing \<Rightarrow>
          (case transition_checks existing progress err of
             Inl e \<Rightarrow> (Inl e, j)
           | Inr _ \<Rightarrow>
               (let updated = transitioned now existing progress err
                in (Inr updated, write_row i updated j))))"

definition transitionOperation ::
  "time \<Rightarrow> string \<Rightarrow> job_progress \<Rightarrow> job_error option \<Rightarrow> journal \<Rightarrow> (journal_error + op_record) \<times> journal" where
  "transitionOperation now i progress err j =
     (if \<not> (i \<noteq> [] \<and> JobProgressSchema progress \<and> error_ok err) then (Inl InvalidParams, j)
      else transitionLocked now i progress err j)"

datatype cas_outcome = Transitioned op_record | Missing | StageMoved job_stage | Touched

definition transitionIfStage ::
  "time \<Rightarrow> string \<Rightarrow> job_stage list \<Rightarrow> job_progress \<Rightarrow> job_error option \<Rightarrow> time option \<Rightarrow> journal
     \<Rightarrow> (journal_error + cas_outcome) \<times> journal" where
  "transitionIfStage now i allowedStages progress err ifUpdatedAtIs j =
     (case loadValidated (jl_area j) i of
        None \<Rightarrow> (Inr Missing, j)
      | Some existing \<Rightarrow>
          if op_stage existing \<notin> set allowedStages then (Inr (StageMoved (op_stage existing)), j)
          else if \<not> matches_opt ifUpdatedAtIs (op_updatedAt existing) then (Inr Touched, j)
          else (case transitionLocked now i progress err j of
                  (Inl e, j') \<Rightarrow> (Inl e, j')
                | (Inr r, j') \<Rightarrow> (Inr (Transitioned r), j')))"

section \<open>Updates in place\<close>

definition with_check :: "send_check_outcome \<Rightarrow> job_progress \<Rightarrow> job_progress" where
  "with_check c p = (case p of PFailed from h u _ \<Rightarrow> PFailed from h u (Some c) | _ \<Rightarrow> p)"

definition setSendCheck ::
  "time \<Rightarrow> string \<Rightarrow> string \<Rightarrow> send_check_outcome \<Rightarrow> bool \<Rightarrow> journal \<Rightarrow> bool \<times> journal" where
  "setSendCheck now i txHash check isLive j =
     (case loadValidated (jl_area j) i of
        None \<Rightarrow> (False, j)
      | Some existing \<Rightarrow>
          (case op_progress existing of
             PFailed from h u c \<Rightarrow>
               if h \<noteq> Some txHash \<or> c \<noteq> None \<or> \<not> isLive then (False, j)
               else (True, write_row i
                      (existing\<lparr>op_progress := with_check check (op_progress existing), op_updatedAt := now\<rparr>) j)
           | _ \<Rightarrow> (False, j)))"

definition setOperationMeta ::
  "time \<Rightarrow> string \<Rightarrow> string option \<Rightarrow> string option \<Rightarrow> journal \<Rightarrow> (journal_error + op_record) \<times> journal" where
  "setOperationMeta now i title subtitle j =
     (if i = [] then (Inl InvalidParams, j)
      else (case loadValidated (jl_area j) i of
              None \<Rightarrow> (Inl (OperationNotFound i), j)
            | Some existing \<Rightarrow>
                (let updated = existing\<lparr>op_title := (if title \<noteq> None then title else op_title existing),
                       op_subtitle := (if subtitle \<noteq> None then subtitle else op_subtitle existing),
                       op_updatedAt := now\<rparr>
                 in (Inr updated, write_row i updated j))))"

definition updateProvingBackend :: "time \<Rightarrow> string \<Rightarrow> prove_backend \<Rightarrow> journal \<Rightarrow> bool \<times> journal" where
  "updateProvingBackend now i b j =
     (case loadValidated (jl_area j) i of
        None \<Rightarrow> (False, j)
      | Some existing \<Rightarrow>
          (case op_progress existing of
             PProving t c \<Rightarrow>
               if c = Some b then (False, j)
               else (True, write_row i (existing\<lparr>op_progress := PProving t (Some b), op_updatedAt := now\<rparr>) j)
           | _ \<Rightarrow> (False, j)))"

text \<open>The heartbeat writes without emitting.\<close>

definition touchOperation :: "time \<Rightarrow> string \<Rightarrow> journal \<Rightarrow> journal" where
  "touchOperation now i j =
     (case loadValidated (jl_area j) i of
        None \<Rightarrow> j
      | Some existing \<Rightarrow>
          if isTerminal (op_stage existing) then j
          else j\<lparr>jl_area := put_row i (existing\<lparr>op_updatedAt := now\<rparr>) (jl_area j)\<rparr>)"

record refile_scope =
  rs_profileId :: "string option"
  rs_networkId :: string
  rs_accountAddress :: string

datatype refile_outcome = Refiled op_record | RefileMissing | RefileStage job_stage

definition refiled :: "time \<Rightarrow> refile_scope \<Rightarrow> op_record \<Rightarrow> op_record" where
  "refiled now s existing =
     existing\<lparr>op_profileId := or_else (rs_profileId s) (op_profileId existing),
       op_networkId := Some (rs_networkId s), op_accountAddress := Some (rs_accountAddress s), op_updatedAt := now\<rparr>"

definition refileOperationScope ::
  "time \<Rightarrow> string \<Rightarrow> refile_scope \<Rightarrow> job_stage list \<Rightarrow> journal \<Rightarrow> refile_outcome \<times> journal" where
  "refileOperationScope now i scope allowedStages j =
     (case loadValidated (jl_area j) i of
        None \<Rightarrow> (RefileMissing, j)
      | Some existing \<Rightarrow>
          if op_stage existing \<notin> set allowedStages then (RefileStage (op_stage existing), j)
          else (let updated = refiled now scope existing in (Refiled updated, write_row i updated j)))"

definition deleteOperation :: "string \<Rightarrow> journal \<Rightarrow> (journal_error + unit) \<times> journal" where
  "deleteOperation i j =
     (if i = [] then (Inl InvalidParams, j)
      else (case loadValidated (jl_area j) i of
              None \<Rightarrow> (Inr (), j)
            | Some existing \<Rightarrow> (Inr (), emit (OperationDeleted existing) (j\<lparr>jl_area := del_row i (jl_area j)\<rparr>))))"

section \<open>Reads and the RPC boundary\<close>

definition getOperation :: "string \<Rightarrow> journal \<Rightarrow> journal_error + op_record option" where
  "getOperation i j = (if i = [] then Inl InvalidParams else Inr (loadValidated (jl_area j) i))"

definition matches_filter :: "operation_filter \<Rightarrow> op_record \<Rightarrow> bool" where
  "matches_filter f r =
     ((of_accountAddress f = None \<or> op_accountAddress r = of_accountAddress f)
      \<and> matches_opt (of_profileId f) (op_profileId r)
      \<and> matches_opt (of_stage f) (op_stage r)
      \<and> matches_opt (of_isTerminal f) (op_terminalAt r \<noteq> None)
      \<and> matches_opt (of_kind f) (op_kind r))"

definition getOperations :: "operation_filter option \<Rightarrow> journal \<Rightarrow> op_record list" where
  "getOperations flt j =
     (case flt of
        None \<Rightarrow> loadAllValidated (jl_area j)
      | Some f \<Rightarrow> filter (matches_filter f) (loadAllValidated (jl_area j)))"

definition countOperations :: "count_filter \<Rightarrow> journal \<Rightarrow> nat" where
  "countOperations f j =
     fold (\<lambda>r n. if cf_sessionId f \<noteq> None \<and> op_sessionId r \<noteq> cf_sessionId f then n
                 else if \<not> matches_opt (cf_stage f) (op_stage r) then n else n + 1)
       (loadAllValidated (jl_area j)) 0"

text \<open>What asking the profile service for the active profile yields.\<close>

datatype active_read = NoProfileService | ReadThrows | ActiveProfile "string option"

fun activeProfileId :: "active_read \<Rightarrow> string option" where
  "activeProfileId NoProfileService = None"
| "activeProfileId ReadThrows = None"
| "activeProfileId (ActiveProfile p) = p"

definition truthy :: "string option \<Rightarrow> bool" where
  "truthy p = (p \<noteq> None \<and> p \<noteq> Some [])"

definition empty_filter :: operation_filter where
  "empty_filter = \<lparr>of_accountAddress = None, of_profileId = None, of_stage = None, of_isTerminal = None, of_kind = None\<rparr>"

definition invoke_getOperation :: "active_read \<Rightarrow> string \<Rightarrow> journal \<Rightarrow> journal_error + op_record option" where
  "invoke_getOperation act i j =
     (let active = activeProfileId act
      in if \<not> truthy active then Inr None
         else (case getOperation i j of
                 Inl e \<Rightarrow> Inl e
               | Inr rec \<Rightarrow> Inr (if map_option op_profileId rec = active then rec else None)))"

definition invoke_getOperations :: "active_read \<Rightarrow> operation_filter option \<Rightarrow> journal \<Rightarrow> op_record list" where
  "invoke_getOperations act flt j =
     (let active = activeProfileId act; f = or_else flt empty_filter
      in if \<not> truthy active then []
         else if of_profileId f \<noteq> None \<and> of_profileId f \<noteq> active then []
         else getOperations (Some (f\<lparr>of_profileId := active\<rparr>)) j)"

fun event_record :: "journal_event \<Rightarrow> op_record" where
  "event_record (OperationAdded r) = r"
| "event_record (OperationUpdated r) = r"
| "event_record (OperationDeleted r) = r"

text \<open>Whether an emitted event is sent to the connected popups.\<close>

definition sendEvent :: "active_read \<Rightarrow> journal_event \<Rightarrow> bool" where
  "sendEvent act e = (let active = activeProfileId act in truthy active \<and> Some (op_profileId (event_record e)) = active)"

end
