(* ===== verification/Operation_Journal.thy ===== *)
theory Operation_Journal
  imports Journal_Model
begin

text \<open>
  Correctness of the operation journal. The journal's storage is shown to be a keyed store of
  records; every operation of the service is shown to do to that store what an abstract step on a map
  from ids to records does; the invariants, the history of a row and the purges are proved on top.
\<close>

section \<open>The journal is a keyed store\<close>

interpretation journal_codec: codec_store record_codec "''nulo:journal''"
proof
  show "record_codec j = Some e \<Longrightarrow> record_codec e = Some e" for j e
    by (cases j) (auto split: if_splits)
qed

lemmas journal_store_defs = loadValidated_def loadRows_def put_row_def del_row_def journal_storage_def row_record_def

lemma ps_get_journal_JRow: "ps_get (plain_storage ''nulo:journal'' record_codec) a i = Some e \<Longrightarrow> \<exists>r. e = JRow r \<and> OperationRecordSchema r"
  using journal_codec.lookup_valid [of a i e] by (cases e) (auto split: if_splits)

interpretation jrows: keyed_store loadValidated put_row del_row loadRows OperationRecordSchema "\<lambda>a. distinct (js_keys a)"
proof (unfold_locales, goal_cases)
  case (1 s i e)
  then show ?case by (simp add: journal_store_defs journal_codec.put_ok)
next
  case (2 s i)
  then show ?case by (simp add: journal_store_defs journal_codec.del_ok)
next
  case (3 e i s j)
  then show ?case by (simp add: journal_store_defs journal_codec.lookup_put)
next
  case (4 i s j)
  then show ?case by (simp add: journal_store_defs journal_codec.lookup_del)
next
  case (5 s i e)
  have "(i, e) \<in> set (loadRows s) \<longleftrightarrow> (i, JRow e) \<in> set (ps_rows journal_storage s)"
    by (force simp: loadRows_def set_map_filter_iff row_record_def split: journal_json.splits)
  also have "\<dots> \<longleftrightarrow> ps_get journal_storage s i = Some (JRow e)"
    using journal_codec.rows_lookup [OF 5] by (simp add: journal_storage_def)
  also have "\<dots> \<longleftrightarrow> loadValidated s i = Some e"
    by (auto simp: loadValidated_def split: option.splits journal_json.splits)
  finally show ?case .
next
  case (6 s)
  have "distinct (map fst xs) \<Longrightarrow> distinct (map fst (List.map_filter row_record xs))
      \<and> set (map fst (List.map_filter row_record xs)) \<subseteq> set (map fst xs)" for xs
    by (induction xs) (force simp: map_filter_simps row_record_def split: journal_json.splits option.splits)+
  with journal_codec.rows_distinct [OF 6] show ?case by (simp add: loadRows_def journal_storage_def)
next
  case (7 s i e)
  then show ?case
    by (auto simp: loadValidated_def journal_storage_def split: option.splits journal_json.splits dest: ps_get_journal_JRow)
qed

abbreviation journal_rows :: "journal \<Rightarrow> string \<Rightarrow> op_record option" where
  "journal_rows j \<equiv> loadValidated (jl_area j)"

lemma load_put: "OperationRecordSchema r \<Longrightarrow> loadValidated (put_row i r a) = (loadValidated a)(i \<mapsto> r)"
  by (rule ext) (simp add: jrows.lookup_put)

lemma load_del: "loadValidated (del_row i a) = (loadValidated a)(i := None)"
  by (rule ext) (simp add: jrows.lookup_del)

lemma rows_write_row [simp]: "OperationRecordSchema r \<Longrightarrow> journal_rows (write_row i r j) = (journal_rows j)(i \<mapsto> r)"
  by (simp add: write_row_def emit_def load_put)

lemma es_contains_load: "\<not> es_contains journal_storage a i \<Longrightarrow> loadValidated a i = None"
  by (simp add: es_contains_def loadValidated_def journal_storage_def ps_get_eq)

section \<open>Steps of a row\<close>

text \<open>What may become of a stored record: the abstract specification of the update operations.\<close>

inductive row_step :: "op_record \<Rightarrow> op_record \<Rightarrow> bool" where
  Row_Transition: "transition_checks r p e = Inr () \<Longrightarrow> error_ok e \<Longrightarrow> JobProgressSchema p \<Longrightarrow> row_step r (transitioned now r p e)"
| Row_Check: "op_progress r = PFailed from (Some h) u None \<Longrightarrow>
    row_step r (r\<lparr>op_progress := PFailed from (Some h) u (Some c), op_updatedAt := now\<rparr>)"
| Row_Meta: "row_step r (r\<lparr>op_title := t, op_subtitle := s, op_updatedAt := now\<rparr>)"
| Row_Backend: "op_progress r = PProving t c \<Longrightarrow> row_step r (r\<lparr>op_progress := PProving t (Some b), op_updatedAt := now\<rparr>)"
| Row_Touch: "\<not> isTerminal (op_stage r) \<Longrightarrow> row_step r (r\<lparr>op_updatedAt := now\<rparr>)"
| Row_Refile: "rs_profileId s \<noteq> Some [] \<Longrightarrow> row_step r (refiled now s r)"

inductive_cases row_stepE: "row_step r r'"

text \<open>The steps of the whole journal, as a map from ids to records.\<close>

inductive journal_effect :: "(string \<Rightarrow> op_record option) \<Rightarrow> (string \<Rightarrow> op_record option) \<Rightarrow> bool" where
  Effect_None: "journal_effect m m"
| Effect_Create: "m i = None \<Longrightarrow> NewOperationInputSchema v \<Longrightarrow> journal_effect m (m(i \<mapsto> new_record now i v))"
| Effect_Update: "m i = Some r \<Longrightarrow> row_step r r' \<Longrightarrow> journal_effect m (m(i \<mapsto> r'))"
| Effect_Drop: "journal_effect m (m |` K)"

lemma JobProgressSchema_PFailed [simp]:
  "JobProgressSchema (PFailed from h u c) \<longleftrightarrow> (case from of None \<Rightarrow> True | Some s \<Rightarrow> \<not> isTerminal s)"
  by (cases "from") simp_all

lemma JobProgressSchema_failedFrom [simp]: "JobProgressSchema (failedFrom p)"
  by (cases p) simp_all

lemma stage_failedFrom [simp]: "stage_of (failedFrom p) = Failed"
  by (cases p) simp_all

lemma row_step_schema: "row_step r r' \<Longrightarrow> OperationRecordSchema r \<Longrightarrow> OperationRecordSchema r'"
  by (erule row_stepE) (auto simp: OperationRecordSchema_def transitioned_def refiled_def or_else_def split: option.split)

lemma new_record_schema: "NewOperationInputSchema v \<Longrightarrow> OperationRecordSchema (new_record now i v)"
  by (auto simp: NewOperationInputSchema_def OperationRecordSchema_def new_record_def error_ok_def
      split: option.split initial_stage.split)

section \<open>The service refines the steps\<close>

text \<open>Every call that may change the journal, with what the clock, the draws and the other services answer.\<close>

datatype journal_op =
    CreateOp fences time "string list" op_input
  | TransitionOp time string job_progress "job_error option"
  | TransitionIfOp time string "job_stage list" job_progress "job_error option" "time option"
  | SendCheckOp time string string send_check_outcome bool
  | MetaOp time string "string option" "string option"
  | BackendOp time string prove_backend
  | TouchOp time string
  | RefileOp time string refile_scope "job_stage list"
  | DeleteOp string
  | ClearChainOp string
  | PurgeProfileOp string

fun run_op :: "journal_op \<Rightarrow> journal \<Rightarrow> journal" where
  "run_op (CreateOp f now draws v) j = snd (createOperation f now draws v j)"
| "run_op (TransitionOp now i p e) j = snd (transitionOperation now i p e j)"
| "run_op (TransitionIfOp now i ss p e u) j = snd (transitionIfStage now i ss p e u j)"
| "run_op (SendCheckOp now i h c live) j = snd (setSendCheck now i h c live j)"
| "run_op (MetaOp now i t s) j = snd (setOperationMeta now i t s j)"
| "run_op (BackendOp now i b) j = snd (updateProvingBackend now i b j)"
| "run_op (TouchOp now i) j = touchOperation now i j"
| "run_op (RefileOp now i s ss) j = snd (refileOperationScope now i s ss j)"
| "run_op (DeleteOp i) j = snd (deleteOperation i j)"
| "run_op (ClearChainOp n) j = clearChainState n j"
| "run_op (PurgeProfileOp p) j = purgeForProfile p j"

text \<open>
  The two calls that do not validate their arguments, both made inside the service worker only, are
  assumed to be given well-typed ones.
\<close>

fun op_args_ok :: "journal_op \<Rightarrow> bool" where
  "op_args_ok (TransitionIfOp _ _ _ p e _) = (JobProgressSchema p \<and> error_ok e)"
| "op_args_ok (RefileOp _ _ s _) = (rs_profileId s \<noteq> Some [])"
| "op_args_ok _ = True"

definition keyed :: "journal \<Rightarrow> bool" where
  "keyed j = (distinct (js_keys (jl_area j)) \<and> (\<forall>i r. journal_rows j i = Some r \<longrightarrow> op_id r = i))"

lemma loaded_schema: "journal_rows j i = Some r \<Longrightarrow> OperationRecordSchema r"
  by (rule jrows.lookup_valid)

lemma effect_write:
  "journal_rows j i = Some r \<Longrightarrow> row_step r r' \<Longrightarrow> journal_effect (journal_rows j) (journal_rows (write_row i r' j))"
  using row_step_schema [OF _ loaded_schema] by (auto intro: Effect_Update)

lemma effect_create: "journal_effect (journal_rows j) (journal_rows (snd (createOperation f now draws v j)))"
proof (cases "NewOperationInputSchema v")
  case True
  show ?thesis
  proof (cases "nextRandomId (es_contains journal_storage (jl_area j)) draws")
    case (Some i)
    then have "journal_rows j i = None"
      using randomIdNotIn_Some by (auto simp: nextRandomId_def intro!: es_contains_load)
    from Effect_Create [of "journal_rows j", OF this True, of now] Some True show ?thesis
      by (auto simp: createOperation_def createOperationLocked_def emit_def Let_def load_put new_record_schema
          intro: Effect_None split: option.split) (simp add: new_record_def)
  qed (auto simp: createOperation_def createOperationLocked_def intro: Effect_None split: option.split)
qed (simp add: createOperation_def Effect_None)

lemma effect_transitionLocked:
  assumes "JobProgressSchema p" and "error_ok e"
  shows "journal_effect (journal_rows j) (journal_rows (snd (transitionLocked now i p e j)))"
  using assms
  by (auto simp: transitionLocked_def Let_def intro: Effect_None effect_write Row_Transition split: option.split sum.split)

lemma effect_transition: "journal_effect (journal_rows j) (journal_rows (snd (transitionOperation now i p e j)))"
  by (simp add: transitionOperation_def Effect_None effect_transitionLocked)

lemma snd_transitionIfStage:
  "snd (transitionIfStage now i ss p e u j) = j \<or>
   snd (transitionIfStage now i ss p e u j) = snd (transitionLocked now i p e j)"
  by (auto simp: transitionIfStage_def split: option.split prod.split sum.split)

lemma effect_sendCheck: "journal_effect (journal_rows j) (journal_rows (snd (setSendCheck now i h c live j)))"
proof (cases "journal_rows j i")
  case (Some r)
  then show ?thesis
    by (auto simp: setSendCheck_def with_check_def intro: Effect_None intro!: effect_write Row_Check split: job_progress.split)
qed (simp add: setSendCheck_def Effect_None)

lemma effect_backend: "journal_effect (journal_rows j) (journal_rows (snd (updateProvingBackend now i b j)))"
proof (cases "journal_rows j i")
  case (Some r)
  then show ?thesis
    by (auto simp: updateProvingBackend_def intro: Effect_None intro!: effect_write Row_Backend split: job_progress.split)
qed (simp add: updateProvingBackend_def Effect_None)

lemma effect_touch: "journal_effect (journal_rows j) (journal_rows (touchOperation now i j))"
proof (cases "journal_rows j i")
  case (Some r)
  show ?thesis
  proof (cases "isTerminal (op_stage r)")
    case False
    from row_step_schema [OF Row_Touch [OF False] loaded_schema [OF Some]] Effect_Update [of "journal_rows j", OF Some Row_Touch [OF False]]
    show ?thesis using Some False by (simp add: touchOperation_def load_put)
  qed (use Some in \<open>simp add: touchOperation_def Effect_None\<close>)
qed (simp add: touchOperation_def Effect_None)

lemma effect_meta: "journal_effect (journal_rows j) (journal_rows (snd (setOperationMeta now i t s j)))"
proof (cases "journal_rows j i")
  case (Some r)
  from effect_write [OF Some Row_Meta [where t = "if t \<noteq> None then t else op_title r"
        and s = "if s \<noteq> None then s else op_subtitle r" and now = now]] Some
  show ?thesis by (simp add: setOperationMeta_def Let_def Effect_None del: rows_write_row)
qed (simp add: setOperationMeta_def Effect_None)

lemma effect_refile:
  "rs_profileId s \<noteq> Some [] \<Longrightarrow> journal_effect (journal_rows j) (journal_rows (snd (refileOperationScope now i s ss j)))"
  by (auto simp: refileOperationScope_def Let_def simp del: rows_write_row
      intro: Effect_None effect_write Row_Refile split: option.split)

lemma drop_one: "m(i := None) = m |` (- {i})"
  by (rule ext) (simp add: restrict_map_def)

lemma effect_delete: "journal_effect (journal_rows j) (journal_rows (snd (deleteOperation i j)))"
  by (auto simp: deleteOperation_def emit_def load_del drop_one intro: Effect_None Effect_Drop split: option.split)

section \<open>Purges\<close>

lemma purgeRows_area: "jl_area (purgeRows rows j) = fold del_row (map op_id rows) (jl_area j)"
  unfolding purgeRows_def by (induction rows arbitrary: j) (simp_all add: emit_def)

lemma purgeRows_events: "jl_events (purgeRows rows j) = jl_events j @ map OperationDeleted rows"
  unfolding purgeRows_def by (induction rows arbitrary: j) (simp_all add: emit_def)

lemma keyed_ids:
  assumes "keyed j"
  shows "map op_id (filter P (loadAllValidated (jl_area j))) = map fst (filter (P \<circ> snd) (loadRows (jl_area j)))"
proof -
  have "op_id (snd p) = fst p" if "p \<in> set (loadRows (jl_area j))" for p
    using that assms jrows.rows_lookup [of "jl_area j" "fst p" "snd p"] by (auto simp: keyed_def)
  then have "map (op_id \<circ> snd) (filter (P \<circ> snd) (loadRows (jl_area j))) = map fst (filter (P \<circ> snd) (loadRows (jl_area j)))"
    by (intro map_cong) auto
  then show ?thesis by (simp add: loadAllValidated_def filter_map)
qed

lemma purge_filtered:
  "keyed j \<Longrightarrow> jl_area (purgeRows (filter P (loadAllValidated (jl_area j))) j) = jrows.purge P (jl_area j)"
  by (simp add: purgeRows_area keyed_ids jrows.purge_def)

lemma in_filtered_keys: "i \<in> set (map fst (filter (Q \<circ> snd) xs)) \<longleftrightarrow> (\<exists>t. (i, t) \<in> set xs \<and> Q t)"
  by force

definition row_matches :: "(journal_json \<Rightarrow> bool) \<Rightarrow> journal_json json_text \<Rightarrow> bool" where
  "row_matches P t = (case text_parse t of None \<Rightarrow> False | Some raw \<Rightarrow> raw \<noteq> JScalar \<and> P raw)"

lemma rawValue_delete:
  "i' \<noteq> i \<Longrightarrow> es_rawValue journal_storage (es_delete journal_storage i a) i' = es_rawValue journal_storage a i'"
  by (simp add: es_rawValue_def es_delete_def map_simps)

lemma purgeMalformed_loop:
  assumes "distinct (map fst es)" and "\<forall>(i, t) \<in> set es. es_rawValue journal_storage a i = Some t"
  shows "snd (fold (\<lambda>(i, rawString) (purged, a).
         case text_parse rawString of
           None \<Rightarrow> (purged, a)
         | Some raw \<Rightarrow>
             if raw = JScalar then (purged, a)
             else if \<not> P raw then (purged, a)
             else if es_rawValue journal_storage a i \<noteq> Some rawString then (purged, a)
             else (purged + 1, es_delete journal_storage i a)) es (n :: nat, a))
       = fold del_row (map fst (filter (row_matches P \<circ> snd) es)) a"
  using assms
proof (induction es arbitrary: n a)
  case (Cons e es)
  obtain i t where e: "e = (i, t)" by force
  with Cons.prems have v: "es_rawValue journal_storage a i = Some t" by simp
  show ?case
  proof (cases "row_matches P t")
    case True
    have "\<forall>(i', t') \<in> set es. es_rawValue journal_storage (es_delete journal_storage i a) i' = Some t'"
    proof clarify
      fix i' t' assume m: "(i', t') \<in> set es"
      with Cons.prems(1) e have "i' \<noteq> i" by force
      with Cons.prems(2) m show "es_rawValue journal_storage (es_delete journal_storage i a) i' = Some t'"
        by (auto simp: rawValue_delete)
    qed
    with Cons.IH [of "es_delete journal_storage i a" "Suc n"] Cons.prems e v True show ?thesis
      by (auto simp: row_matches_def del_row_def split: option.splits)
  next
    case False
    with Cons.IH [of a n] Cons.prems e v show ?thesis by (auto simp: row_matches_def split: option.splits)
  qed
qed simp

lemma rawStringEntries_member:
  assumes "distinct (js_keys a)"
  shows "(i, t) \<in> set (es_rawStringEntries es a) \<longleftrightarrow> js_get a (row_key es i) = Some (RawString t)"
  by (auto simp: es_rawStringEntries_def scopedRows_set [OF assms] split: raw.splits)

lemma rawStringEntries_distinct:
  assumes "distinct (js_keys a)"
  shows "distinct (map fst (es_rawStringEntries es a))"
proof -
  have "distinct (map (fst \<circ> snd) rows) \<Longrightarrow>
      distinct (map fst (concat (map (\<lambda>(k, i, r). case r of RawString t \<Rightarrow> [(i, t)] | RawOther _ \<Rightarrow> []) rows)))
      \<and> set (map fst (concat (map (\<lambda>(k, i, r). case r of RawString t \<Rightarrow> [(i, t)] | RawOther _ \<Rightarrow> []) rows)))
          \<subseteq> set (map (fst \<circ> snd) rows)" for rows :: "(string \<times> string \<times> 'a raw) list"
    by (induction rows) (force split: raw.splits)+
  with distinct_scoped_ids [OF assms] show ?thesis by (simp add: es_rawStringEntries_def)
qed

lemma purgeMalformed_area:
  assumes "distinct (js_keys a)"
  shows "snd (purgeMalformedRows P a) = fold del_row (map fst (filter (row_matches P \<circ> snd) (es_rawStringEntries journal_storage a))) a"
  unfolding purgeMalformedRows_def
  by (rule purgeMalformed_loop)
    (auto simp: rawStringEntries_distinct assms rawStringEntries_member es_rawValue_def)

lemma js_get_dels_rows:
  "js_get (fold del_row ids a) k = (if k \<in> row_key journal_storage ` set ids then None else js_get a k)"
  by (induction ids arbitrary: a) (auto simp: del_row_def es_delete_def map_simps)

lemma purgeMalformed_get:
  assumes "distinct (js_keys a)"
  shows "js_get (snd (purgeMalformedRows P a)) k =
    (if \<exists>i t. k = row_key journal_storage i \<and> js_get a k = Some (RawString t) \<and> row_matches P t then None else js_get a k)"
  by (auto simp: purgeMalformed_area [OF assms] js_get_dels_rows rawStringEntries_member [OF assms] image_iff)

lemma purgeMalformed_rows:
  assumes "distinct (js_keys a)"
  shows "loadValidated (snd (purgeMalformedRows P a)) i =
    (if \<exists>t. js_get a (row_key journal_storage i) = Some (RawString t) \<and> row_matches P t then None else loadValidated a i)"
proof -
  have "i \<in> set (map fst (filter (row_matches P \<circ> snd) (es_rawStringEntries journal_storage a))) \<longleftrightarrow>
      (\<exists>t. js_get a (row_key journal_storage i) = Some (RawString t) \<and> row_matches P t)"
    by (simp only: in_filtered_keys rawStringEntries_member [OF assms])
  then show ?thesis by (simp add: purgeMalformed_area [OF assms] jrows.lookup_dels)
qed

lemma effect_clearChain: "keyed j \<Longrightarrow> journal_effect (journal_rows j) (journal_rows (clearChainState n j))"
proof -
  assume k: "keyed j"
  have "journal_rows (clearChainState n j) = journal_rows j |` {i. \<forall>r. journal_rows j i = Some r \<longrightarrow> op_networkId r \<noteq> Some n}"
    using k by (auto simp: clearChainState_def purge_filtered jrows.purge_lookup keyed_def restrict_map_def split: option.split)
  then show ?thesis by (simp add: Effect_Drop)
qed

lemma purgeForProfile_rows:
  assumes "keyed j"
  shows "journal_rows (purgeForProfile p j) i =
    (case journal_rows j i of None \<Rightarrow> None | Some r \<Rightarrow> if op_profileId r = p then None else Some r)"
proof -
  let ?P = "\<lambda>raw. json_profileId raw = Some p"
  let ?a = "jrows.purge (\<lambda>r. op_profileId r = p) (jl_area j)"
  have d: "distinct (js_keys ?a)" using assms by (simp add: keyed_def jrows.purge_ok)
  have "\<not> (\<exists>t. js_get ?a (row_key journal_storage i) = Some (RawString t) \<and> row_matches ?P t)"
    if "loadValidated ?a i = Some r" for r
  proof -
    from that have "op_profileId r \<noteq> p" using assms
      by (auto simp: jrows.purge_lookup keyed_def split: option.splits if_splits)
    with that show ?thesis
      by (auto simp: loadValidated_def journal_storage_def ps_get_eq row_matches_def
          split: option.splits journal_json.splits if_splits elim!: record_codec.elims)
  qed
  then have "loadValidated (snd (purgeMalformedRows ?P ?a)) i = loadValidated ?a i"
    by (cases "loadValidated ?a i") (auto simp: purgeMalformed_rows [OF d])
  then show ?thesis using assms
    by (simp add: purgeForProfile_def Let_def purge_filtered jrows.purge_lookup keyed_def)
qed

lemma effect_purgeProfile: "keyed j \<Longrightarrow> journal_effect (journal_rows j) (journal_rows (purgeForProfile p j))"
proof -
  assume k: "keyed j"
  have "journal_rows (purgeForProfile p j) = journal_rows j |` {i. \<forall>r. journal_rows j i = Some r \<longrightarrow> op_profileId r \<noteq> p}"
    by (rule ext) (auto simp: purgeForProfile_rows [OF k] restrict_map_def split: option.split)
  then show ?thesis by (simp add: Effect_Drop)
qed

lemma run_op_effect:
  assumes "keyed j" and "op_args_ok c"
  shows "journal_effect (journal_rows j) (journal_rows (run_op c j))"
proof (cases c)
  case (TransitionIfOp now i ss p e u)
  with assms(2) snd_transitionIfStage [of now i ss p e u j] show ?thesis
    by (auto simp: Effect_None effect_transitionLocked)
next
  case (RefileOp now i s ss)
  with assms(2) show ?thesis by (simp add: effect_refile)
qed (simp_all add: assms effect_create effect_transition effect_sendCheck effect_meta effect_backend effect_touch
      effect_delete effect_clearChain effect_purgeProfile)

section \<open>Invariants\<close>

lemma distinct_write_row: "distinct (js_keys (jl_area j)) \<Longrightarrow> distinct (js_keys (jl_area (write_row i r j)))"
  by (simp add: write_row_def emit_def jrows.put_ok)

lemma distinct_transitionLocked:
  "distinct (js_keys (jl_area j)) \<Longrightarrow> distinct (js_keys (jl_area (snd (transitionLocked now i p e j))))"
  by (auto simp: transitionLocked_def Let_def distinct_write_row split: option.split sum.split)

lemma distinct_create:
  "distinct (js_keys (jl_area j)) \<Longrightarrow> distinct (js_keys (jl_area (snd (createOperation f now draws v j))))"
  by (auto simp: createOperation_def createOperationLocked_def Let_def emit_def jrows.put_ok split: option.split)

lemma distinct_dels: "distinct (js_keys a) \<Longrightarrow> distinct (js_keys (fold del_row ids a))"
  by (rule jrows.dels_ok)

lemma distinct_purgeProfile:
  "distinct (js_keys (jl_area j)) \<Longrightarrow> distinct (js_keys (jl_area (purgeForProfile p j)))"
  by (simp add: purgeForProfile_def Let_def purgeRows_area purgeMalformed_area distinct_dels)

lemma run_op_distinct: "distinct (js_keys (jl_area j)) \<Longrightarrow> distinct (js_keys (jl_area (run_op c j)))"
proof (cases c)
  case (TransitionIfOp now i ss p e u)
  assume "distinct (js_keys (jl_area j))"
  with TransitionIfOp snd_transitionIfStage [of now i ss p e u j] show ?thesis
    by (auto simp: distinct_transitionLocked)
qed (auto simp: distinct_transitionLocked transitionOperation_def distinct_write_row distinct_create distinct_dels
      distinct_purgeProfile setSendCheck_def setOperationMeta_def updateProvingBackend_def touchOperation_def
      refileOperationScope_def deleteOperation_def clearChainState_def purgeRows_area emit_def Let_def
      jrows.put_ok jrows.del_ok split: option.split job_progress.split)

lemma row_step_id: "row_step r r' \<Longrightarrow> op_id r' = op_id r"
  by (erule row_stepE) (auto simp: transitioned_def refiled_def)

lemma effect_keyed:
  assumes "journal_effect m m'" and "\<forall>i r. m i = Some r \<longrightarrow> op_id r = i"
  shows "\<forall>i r. m' i = Some r \<longrightarrow> op_id r = i"
  using assms by (induction rule: journal_effect.induct) (auto simp: restrict_map_def new_record_def row_step_id split: if_splits)

lemma run_op_keyed:
  assumes "keyed j" and "op_args_ok c"
  shows "keyed (run_op c j)"
proof -
  from assms(1) have "\<forall>i r. journal_rows j i = Some r \<longrightarrow> op_id r = i" by (simp add: keyed_def)
  from effect_keyed [OF run_op_effect [OF assms] this] show ?thesis
    unfolding keyed_def using assms(1) by (simp add: keyed_def run_op_distinct)
qed

text \<open>What holds of every record: the invariants the spec states for its fields.\<close>

fun progress_inv :: "operation_kind \<Rightarrow> job_progress \<Rightarrow> bool" where
  "progress_inv k (PSucceeded h) = (hasTxHash h = (k \<noteq> TokenImport))"
| "progress_inv k (PFailed from h u c) = ((h \<noteq> None \<or> u \<noteq> None \<longrightarrow> from = Some Submitting) \<and> (c \<noteq> None \<longrightarrow> h \<noteq> None))"
| "progress_inv k _ = True"

definition record_inv :: "op_record \<Rightarrow> bool" where
  "record_inv r =
     ((op_error r \<noteq> None) = (op_stage r = Failed)
      \<and> (op_terminalAt r \<noteq> None) = isTerminal (op_stage r)
      \<and> progress_inv (op_kind r) (op_progress r))"

lemma progress_inv_failedFrom [simp]: "progress_inv k (failedFrom p)"
  by (cases p) auto

lemma transition_checks_ok:
  "transition_checks r p e = Inr () \<longleftrightarrow>
     canTransition (op_stage r) (stage_of p) \<and> (e \<noteq> None) = (stage_of p = Failed)
     \<and> (\<forall>h. p = PSucceeded h \<longrightarrow> assertSucceededKindInvariant r h = Inr () \<and> assertNoHashDrift r h = Inr ())"
  by (cases p; cases "canTransition (op_stage r) (stage_of p)")
    (auto simp: transition_checks_def assertErrorInvariant_def assertCanTransition_def split: sum.splits)

text \<open>When a transition is allowed, as one condition.\<close>

definition transition_allowed :: "op_record \<Rightarrow> job_progress \<Rightarrow> job_error option \<Rightarrow> bool" where
  "transition_allowed r p e =
     (canTransition (op_stage r) (stage_of p) \<and> (e \<noteq> None) = (stage_of p = Failed)
      \<and> (case p of
            PSucceeded h \<Rightarrow>
              (if op_kind r = TokenImport then \<not> hasTxHash h else hasTxHash h \<and> op_stage r \<noteq> Simulating)
              \<and> (case op_progress r of PSubmitting (Some h') _ \<Rightarrow> h' \<noteq> [] \<and> hasTxHash h \<longrightarrow> h = Some h' | _ \<Rightarrow> True)
          | _ \<Rightarrow> True))"

lemma transition_checks_allowed: "transition_checks r p e = Inr () \<longleftrightarrow> transition_allowed r p e"
proof -
  have kind: "assertSucceededKindInvariant r h = Inr () \<longleftrightarrow>
      (if op_kind r = TokenImport then \<not> hasTxHash h else hasTxHash h \<and> op_stage r \<noteq> Simulating)" for h
    by (cases "op_kind r") (simp_all add: assertSucceededKindInvariant_def)
  have drift: "assertNoHashDrift r h = Inr () \<longleftrightarrow>
      (case op_progress r of PSubmitting (Some h') _ \<Rightarrow> h' \<noteq> [] \<and> hasTxHash h \<longrightarrow> h = Some h' | _ \<Rightarrow> True)" for h
    by (auto simp: assertNoHashDrift_def split: job_progress.split option.split)
  show ?thesis
    unfolding transition_checks_ok transition_allowed_def kind drift by (cases p) simp_all
qed

lemma kind_ok: "assertSucceededKindInvariant r h = Inr () \<Longrightarrow> hasTxHash h = (op_kind r \<noteq> TokenImport)"
  by (auto simp: assertSucceededKindInvariant_def split: operation_kind.splits if_splits)

lemma record_inv_new: "record_inv (new_record now i v)"
  by (simp add: record_inv_def new_record_def split: option.split initial_stage.split)

lemma record_inv_transition:
  assumes "record_inv r" and "transition_checks r p e = Inr ()"
  shows "record_inv (transitioned now r p e)"
proof -
  from assms(2) have t: "canTransition (op_stage r) (stage_of p)" and e: "(e \<noteq> None) = (stage_of p = Failed)"
    and s: "\<And>h. p = PSucceeded h \<Longrightarrow> hasTxHash h = (op_kind r \<noteq> TokenImport)"
    by (auto simp: transition_checks_ok kind_ok)
  from t have "\<not> isTerminal (op_stage r)" using terminal_no_exit by blast
  with assms(1) have n: "op_terminalAt r = None" by (simp add: record_inv_def)
  have "progress_inv (op_kind r) p" if "stage_of p \<noteq> Failed" using s that by (cases p) auto
  with n e show ?thesis by (simp add: record_inv_def transitioned_def)
qed

lemma record_inv_step: "row_step r r' \<Longrightarrow> record_inv r \<Longrightarrow> record_inv r'"
proof (induction rule: row_step.induct)
  case (Row_Transition r p e now)
  then show ?case by (simp add: record_inv_transition)
qed (auto simp: record_inv_def refiled_def)

lemma effect_record_inv:
  assumes "journal_effect m m'" and "\<forall>i r. m i = Some r \<longrightarrow> record_inv r"
  shows "\<forall>i r. m' i = Some r \<longrightarrow> record_inv r"
  using assms by (induction rule: journal_effect.induct)
    (auto simp: restrict_map_def record_inv_new intro: record_inv_step split: if_splits)

definition journal_inv :: "journal \<Rightarrow> bool" where
  "journal_inv j = (keyed j \<and> (\<forall>i r. journal_rows j i = Some r \<longrightarrow> record_inv r))"

lemma run_op_inv:
  assumes "journal_inv j" and "op_args_ok c"
  shows "journal_inv (run_op c j)"
proof -
  from assms(1) have k: "keyed j" and r: "\<forall>i r. journal_rows j i = Some r \<longrightarrow> record_inv r"
    by (simp_all add: journal_inv_def)
  show ?thesis
    unfolding journal_inv_def using run_op_keyed [OF k assms(2)] effect_record_inv [OF run_op_effect [OF k assms(2)] r] by blast
qed

lemma run_ops_inv: "journal_inv j \<Longrightarrow> \<forall>c\<in>set cs. op_args_ok c \<Longrightarrow> journal_inv (fold run_op cs j)"
proof (induction cs arbitrary: j)
  case (Cons c cs)
  then have "journal_inv (run_op c j)" by (simp add: run_op_inv)
  with Cons show ?case by simp
qed simp

section \<open>The history of a row\<close>

definition tx_hash_of :: "job_progress \<Rightarrow> string option" where
  "tx_hash_of p = (case p of PSubmitting h _ \<Rightarrow> h | PSucceeded h \<Rightarrow> h | PFailed _ h _ _ \<Rightarrow> h | _ \<Rightarrow> None)"

text \<open>One record is a later version of another.\<close>

definition stage_reaches :: "job_stage \<Rightarrow> job_stage \<Rightarrow> bool" where
  "stage_reaches s t = (\<exists>ts. stage_path s ts \<and> last (s # ts) = t)"

definition same_operation :: "op_record \<Rightarrow> op_record \<Rightarrow> bool" where
  "same_operation r r' =
     (op_id r' = op_id r \<and> op_kind r' = op_kind r \<and> op_origin r' = op_origin r \<and> op_sessionId r' = op_sessionId r
      \<and> op_attempts r' = op_attempts r \<and> op_createdAt r' = op_createdAt r \<and> op_tokenId r' = op_tokenId r
      \<and> op_amountRaw r' = op_amountRaw r \<and> op_recipientAddress r' = op_recipientAddress r
      \<and> op_contractAddress r' = op_contractAddress r \<and> op_transferType r' = op_transferType r)"

definition fate_kept :: "op_record \<Rightarrow> op_record \<Rightarrow> bool" where
  "fate_kept r r' =
     (op_error r' = op_error r \<and> op_terminalAt r' = op_terminalAt r
      \<and> (op_progress r' = op_progress r
         \<or> (\<exists>from h u c. op_progress r = PFailed from (Some h) u None \<and> op_progress r' = PFailed from (Some h) u (Some c))))"

definition row_evolves :: "op_record \<Rightarrow> op_record \<Rightarrow> bool" where
  "row_evolves r r' =
     (same_operation r r' \<and> stage_reaches (op_stage r) (op_stage r')
      \<and> (isTerminal (op_stage r) \<longrightarrow> fate_kept r r')
      \<and> (\<forall>h. op_kind r \<noteq> TokenImport \<and> tx_hash_of (op_progress r) = Some h \<and> h \<noteq> [] \<longrightarrow> tx_hash_of (op_progress r') = Some h))"

lemma stage_reaches_refl [simp]: "stage_reaches s s"
  unfolding stage_reaches_def by (rule exI [of _ "[]"]) simp

lemma stage_reaches_step: "canTransition s t \<Longrightarrow> stage_reaches s t"
  unfolding stage_reaches_def by (rule exI [of _ "[t]"]) simp

lemma stage_reaches_trans:
  assumes "stage_reaches s t" and "stage_reaches t u"
  shows "stage_reaches s u"
proof -
  from assms obtain ts us where p: "stage_path s ts" "last (s # ts) = t" "stage_path t us" "last (t # us) = u"
    by (auto simp: stage_reaches_def)
  then have "stage_path s (ts @ us)" by (simp add: stage_path_append)
  moreover have "last (s # ts @ us) = u" using p(2,4) by (cases us) (auto simp: last_append)
  ultimately show ?thesis unfolding stage_reaches_def by (intro exI [of _ "ts @ us"]) simp
qed

lemma stage_reaches_terminal: "stage_reaches s t \<Longrightarrow> isTerminal s \<Longrightarrow> t = s"
  by (auto simp: stage_reaches_def dest: stage_path_terminal)

lemma row_evolves_refl: "row_evolves r r"
  by (simp add: row_evolves_def same_operation_def fate_kept_def)

lemma row_evolves_trans:
  assumes "row_evolves r s" and "row_evolves s t"
  shows "row_evolves r t"
proof -
  have "fate_kept r t" if fin: "isTerminal (op_stage r)"
  proof -
    have "op_stage s = op_stage r" using assms(1) fin stage_reaches_terminal by (auto simp: row_evolves_def)
    with assms fin have "fate_kept r s" "fate_kept s t" by (simp_all add: row_evolves_def)
    then show ?thesis by (auto simp: fate_kept_def)
  qed
  with assms show ?thesis by (auto simp: row_evolves_def same_operation_def intro: stage_reaches_trans)
qed

lemma hash_transition:
  assumes "transition_checks r p e = Inr ()" and "op_kind r \<noteq> TokenImport"
    and "tx_hash_of (op_progress r) = Some h" and "h \<noteq> []"
  shows "tx_hash_of (op_progress (transitioned now r p e)) = Some h"
proof -
  from assms(1) have t: "canTransition (op_stage r) (stage_of p)" by (simp add: transition_checks_ok)
  then have "\<not> isTerminal (op_stage r)" using terminal_no_exit by blast
  with assms(3) obtain u where u: "op_progress r = PSubmitting (Some h) u"
    by (cases "op_progress r") (auto simp: tx_hash_of_def)
  with t consider "stage_of p = Succeeded" | "stage_of p = Failed" by (auto simp: fsm_simps)
  then show ?thesis
  proof cases
    case 1
    then obtain h' where p: "p = PSucceeded h'" by (cases p) auto
    with assms(1) have "hasTxHash h'" "assertNoHashDrift r h' = Inr ()"
      using kind_ok assms(2) by (auto simp: transition_checks_ok)
    then have "h' = Some h" using u assms(4) by (auto simp: assertNoHashDrift_def split: if_splits)
    with p show ?thesis by (simp add: transitioned_def tx_hash_of_def)
  next
    case 2
    then show ?thesis by (simp add: transitioned_def tx_hash_of_def u)
  qed
qed

lemma row_step_evolves: "row_step r r' \<Longrightarrow> row_evolves r r'"
proof (induction rule: row_step.induct)
  case (Row_Transition r p e now)
  then have t: "canTransition (op_stage r) (stage_of p)" by (simp add: transition_checks_ok)
  then have "\<not> isTerminal (op_stage r)" using terminal_no_exit by blast
  moreover have "op_stage (transitioned now r p e) = stage_of p" by (simp add: transitioned_def)
  ultimately show ?case
    using hash_transition [OF Row_Transition(1)] stage_reaches_step [OF t]
    by (simp add: row_evolves_def) (simp add: same_operation_def transitioned_def)
qed (auto simp: row_evolves_def same_operation_def fate_kept_def tx_hash_of_def refiled_def)

text \<open>The row of an id is present in every state a run passes through.\<close>

fun row_kept :: "string \<Rightarrow> journal_op list \<Rightarrow> journal \<Rightarrow> bool" where
  "row_kept i [] j = (journal_rows j i \<noteq> None)"
| "row_kept i (c # cs) j = (journal_rows j i \<noteq> None \<and> row_kept i cs (run_op c j))"

lemma row_kept_first: "row_kept i cs j \<Longrightarrow> journal_rows j i \<noteq> None"
  by (cases cs) auto

lemma effect_evolves:
  assumes "journal_effect m m'" and "m i = Some r" and "m' i \<noteq> None"
  shows "\<exists>r'. m' i = Some r' \<and> row_evolves r r'"
  using assms by (induction rule: journal_effect.induct)
    (auto simp: row_evolves_refl restrict_map_def row_step_evolves split: if_splits)

lemma run_evolves:
  "keyed j \<Longrightarrow> \<forall>c\<in>set cs. op_args_ok c \<Longrightarrow> row_kept i cs j \<Longrightarrow> journal_rows j i = Some r \<Longrightarrow>
     \<exists>r'. journal_rows (fold run_op cs j) i = Some r' \<and> row_evolves r r'"
proof (induction cs arbitrary: j r)
  case (Cons c cs)
  then have k: "keyed (run_op c j)" by (simp add: run_op_keyed)
  have "journal_rows (run_op c j) i \<noteq> None" using Cons.prems(3) row_kept_first by fastforce
  with effect_evolves [OF run_op_effect Cons.prems(4)] Cons.prems obtain s
    where s: "journal_rows (run_op c j) i = Some s" "row_evolves r s" by auto
  with Cons.IH [OF k _ _ s(1)] Cons.prems obtain r' where
    "journal_rows (fold run_op cs (run_op c j)) i = Some r'" "row_evolves s r'" by auto
  with s(2) show ?case using row_evolves_trans by (intro exI [of _ r']) simp
qed (simp add: row_evolves_refl)

section \<open>Creation\<close>

lemma create_refused: "create_fence f v \<noteq> None \<Longrightarrow> snd (createOperation f now draws v j) = j"
  by (auto simp: createOperation_def createOperationLocked_def)

lemma create_row:
  "journal_rows (snd (createOperation f now draws v j)) i = Some r \<Longrightarrow>
     journal_rows j i = Some r \<or> (create_fence f v = None \<and> r = new_record now i v)"
  by (auto simp: createOperation_def createOperationLocked_def Let_def emit_def load_put new_record_schema
      split: option.splits if_splits) (simp_all add: new_record_def split: if_splits)

text \<open>
  The calls that may file a row under a profile: a re-filing to it, which no fence guards, and a creation for it
  by a caller that is not wired to the profiles, or that finds the profile listed and presents no
  epoch, has no deletion service to ask, or presents the epoch current there.
\<close>

fun may_revive :: "string \<Rightarrow> journal_op \<Rightarrow> bool" where
  "may_revive p (CreateOp f _ _ v) =
     (in_profileId v = p
      \<and> (case fn_profiles f of
            None \<Rightarrow> True
          | Some known \<Rightarrow> p \<in> set known
              \<and> (case (in_profileEpoch v, fn_deletion f) of (Some e, Some d) \<Rightarrow> capture d p = e | _ \<Rightarrow> True)))"
| "may_revive p (RefileOp _ _ s _) = (rs_profileId s = Some p)"
| "may_revive p _ = False"

lemma may_reviveD:
  assumes "may_revive p c"
  shows "(\<exists>now i s ss. c = RefileOp now i s ss \<and> rs_profileId s = Some p)
    \<or> (\<exists>f now draws v. c = CreateOp f now draws v \<and> in_profileId v = p
         \<and> (fn_profiles f = None
            \<or> (\<exists>known. fn_profiles f = Some known \<and> p \<in> set known)
              \<and> (in_profileEpoch v = None \<or> fn_deletion f = None
                 \<or> (\<exists>d. fn_deletion f = Some d \<and> in_profileEpoch v = Some (capture d p)))))"
  using assms by (cases c) (auto split: option.splits)

lemma fence_revives: "create_fence f v = None \<Longrightarrow> may_revive (in_profileId v) (CreateOp f now draws v)"
  by (auto simp: create_fence_def isCurrent_epoch_def split: option.splits if_splits)

lemma stale_epoch_refused:
  "e \<le> capture st p \<Longrightarrow> capture (fold deletion_step ds (snd (beginDeletion p st))) p \<noteq> e"
  using capture_run_mono [of "snd (beginDeletion p st)" p ds] by simp

definition profile_absent :: "string \<Rightarrow> journal \<Rightarrow> bool" where
  "profile_absent p j = (\<forall>i r. journal_rows j i = Some r \<longrightarrow> op_profileId r \<noteq> p)"

text \<open>Every call but a creation and a re-file leaves the owner of each remaining row alone.\<close>

definition owners_kept :: "journal \<Rightarrow> journal \<Rightarrow> bool" where
  "owners_kept j j' = (\<forall>i r. journal_rows j' i = Some r \<longrightarrow> (\<exists>s. journal_rows j i = Some s \<and> op_profileId r = op_profileId s))"

lemma owners_refl [simp]: "owners_kept j j"
  by (simp add: owners_kept_def)

lemma owners_put:
  assumes "journal_rows j i = Some s" and "row_step s r" and "op_profileId r = op_profileId s"
    and "jl_area j' = put_row i r (jl_area j)"
  shows "owners_kept j j'"
  using assms row_step_schema [OF assms(2) loaded_schema [OF assms(1)]]
  by (auto simp: owners_kept_def load_put)

lemma owners_write:
  "journal_rows j i = Some s \<Longrightarrow> row_step s r \<Longrightarrow> op_profileId r = op_profileId s \<Longrightarrow> owners_kept j (write_row i r j)"
  by (erule (2) owners_put) (simp add: write_row_def emit_def)

lemma owners_transitionLocked:
  "JobProgressSchema p \<Longrightarrow> error_ok e \<Longrightarrow> owners_kept j (snd (transitionLocked now i p e j))"
  by (auto simp: transitionLocked_def Let_def simp del: rows_write_row intro!: owners_write Row_Transition split: option.split sum.split)
    (simp_all add: transitioned_def)

lemma owners_sendCheck: "owners_kept j (snd (setSendCheck now i h c live j))"
proof (cases "journal_rows j i")
  case (Some r)
  then show ?thesis
    by (auto simp: setSendCheck_def with_check_def simp del: rows_write_row intro!: owners_write Row_Check split: job_progress.split)
qed (simp add: setSendCheck_def)

lemma owners_meta: "owners_kept j (snd (setOperationMeta now i t s j))"
proof (cases "journal_rows j i")
  case (Some r)
  from owners_write [OF Some Row_Meta [where t = "if t \<noteq> None then t else op_title r"
        and s = "if s \<noteq> None then s else op_subtitle r" and now = now]] Some
  show ?thesis by (simp add: setOperationMeta_def Let_def del: rows_write_row)
qed (simp add: setOperationMeta_def)

lemma owners_backend: "owners_kept j (snd (updateProvingBackend now i b j))"
proof (cases "journal_rows j i")
  case (Some r)
  then show ?thesis
    by (auto simp: updateProvingBackend_def simp del: rows_write_row intro!: owners_write Row_Backend split: job_progress.split)
qed (simp add: updateProvingBackend_def)

lemma owners_touch: "owners_kept j (touchOperation now i j)"
proof (cases "journal_rows j i")
  case (Some r)
  then show ?thesis by (auto simp: touchOperation_def intro!: owners_put [OF Some Row_Touch])
qed (simp add: touchOperation_def)

lemma owners_delete: "owners_kept j (snd (deleteOperation i j))"
  by (auto simp: deleteOperation_def emit_def owners_kept_def load_del split: option.split)

lemma owners_purges: "keyed j \<Longrightarrow> owners_kept j (clearChainState n j)" "keyed j \<Longrightarrow> owners_kept j (purgeForProfile q j)"
  by (auto simp: owners_kept_def clearChainState_def purge_filtered jrows.purge_lookup keyed_def purgeForProfile_rows
      split: option.splits if_splits)

lemma absent_step:
  assumes "keyed j" and "op_args_ok c" and "\<not> may_revive p c" and "profile_absent p j"
  shows "profile_absent p (run_op c j)"
proof -
  have kept: "profile_absent p j'" if "owners_kept j j'" for j'
    using that assms(4) by (fastforce simp: owners_kept_def profile_absent_def)
  show ?thesis
  proof (cases c)
    case (CreateOp f now draws v)
    show ?thesis
    proof (cases "in_profileId v = p")
      case True
      with assms(3) CreateOp have "create_fence f v \<noteq> None" using fence_revives [of f v now draws] by auto
      with CreateOp assms(4) show ?thesis by (simp add: create_refused)
    next
      case False
      then show ?thesis using CreateOp assms(4) create_row
        by (fastforce simp: profile_absent_def new_record_def)
    qed
  next
    case (TransitionIfOp now i ss q e u)
    with assms(2) snd_transitionIfStage [of now i ss q e u j] show ?thesis
      by (auto intro!: kept owners_transitionLocked)
  next
    case (RefileOp now i s ss)
    with assms(2-4) row_step_schema [OF Row_Refile loaded_schema] show ?thesis
      by (auto simp: refileOperationScope_def Let_def profile_absent_def refiled_def or_else_def split: option.splits if_splits)
  qed (simp_all add: kept owners_transitionLocked transitionOperation_def owners_sendCheck owners_meta owners_backend
      owners_touch owners_delete owners_purges assms(1))
qed

lemma absent_run:
  "keyed j \<Longrightarrow> profile_absent p j \<Longrightarrow> \<forall>c\<in>set cs. op_args_ok c \<and> \<not> may_revive p c \<Longrightarrow>
     profile_absent p (fold run_op cs j)"
proof (induction cs arbitrary: j)
  case (Cons c cs)
  then have "profile_absent p (run_op c j)" by (auto intro: absent_step)
  with Cons show ?case by (simp add: run_op_keyed)
qed simp

section \<open>The map the service implements\<close>

text \<open>
  What each call does to the map from ids to records, call by call. A call on one id touches that id
  alone, and only when its guard holds of the row filed there; the two purges drop exactly the rows of
  their network or profile. A creation takes the first drawn id that is free in storage, where rows
  the journal cannot read count too.
\<close>

definition update_row :: "string \<Rightarrow> (op_record \<Rightarrow> bool) \<Rightarrow> (op_record \<Rightarrow> op_record) \<Rightarrow> (string \<Rightarrow> op_record option) \<Rightarrow> string \<Rightarrow> op_record option" where
  "update_row i guard f m = (case m i of None \<Rightarrow> m | Some r \<Rightarrow> if guard r then m(i \<mapsto> f r) else m)"

definition drop_rows :: "(op_record \<Rightarrow> bool) \<Rightarrow> (string \<Rightarrow> op_record option) \<Rightarrow> string \<Rightarrow> op_record option" where
  "drop_rows P m = (\<lambda>i. case m i of None \<Rightarrow> None | Some r \<Rightarrow> if P r then None else Some r)"

definition creation_admitted :: "fences \<Rightarrow> op_input \<Rightarrow> bool" where
  "creation_admitted f v \<longleftrightarrow> NewOperationInputSchema v
     \<and> (\<forall>known. fn_profiles f = Some known \<longrightarrow> in_profileId v \<in> set known
          \<and> (\<forall>e d. in_profileEpoch v = Some e \<and> fn_deletion f = Some d \<longrightarrow> isCurrent_epoch d (in_profileId v) e))
     \<and> (\<forall>n i. fn_networks f = Some n \<and> in_networkId v = Some i \<longrightarrow> i \<in> nr_rows n - nr_deleting n)"

text \<open>A row that fails keeps the stage it failed from and, when it was submitting, the hash and the endpoint it named.\<close>

definition moved :: "time \<Rightarrow> job_progress \<Rightarrow> job_error option \<Rightarrow> op_record \<Rightarrow> op_record" where
  "moved now p e r =
     r\<lparr>op_progress :=
         (if stage_of p \<noteq> Failed then p
          else case op_progress r of
                 PSubmitting h u \<Rightarrow> PFailed (Some Submitting) h u None
               | _ \<Rightarrow> PFailed (Some (op_stage r)) None None None),
       op_error := e,
       op_terminalAt := (if isTerminal (stage_of p) then Some now else op_terminalAt r),
       op_updatedAt := now\<rparr>"

fun spec_op :: "(string \<Rightarrow> bool) \<Rightarrow> journal_op \<Rightarrow> (string \<Rightarrow> op_record option) \<Rightarrow> string \<Rightarrow> op_record option" where
  "spec_op free (CreateOp f now draws v) m =
     (if creation_admitted f v then (case find free draws of Some i \<Rightarrow> m(i \<mapsto> new_record now i v) | None \<Rightarrow> m) else m)"
| "spec_op free (TransitionOp now i p e) m =
     update_row i (\<lambda>r. i \<noteq> [] \<and> JobProgressSchema p \<and> error_ok e \<and> transition_allowed r p e) (moved now p e) m"
| "spec_op free (TransitionIfOp now i ss p e u) m =
     update_row i (\<lambda>r. op_stage r \<in> set ss \<and> (\<forall>t. u = Some t \<longrightarrow> op_updatedAt r = t) \<and> transition_allowed r p e) (moved now p e) m"
| "spec_op free (SendCheckOp now i h c live) m =
     update_row i (\<lambda>r. live \<and> (\<exists>from u. op_progress r = PFailed from (Some h) u None))
       (\<lambda>r. r\<lparr>op_progress := with_check c (op_progress r), op_updatedAt := now\<rparr>) m"
| "spec_op free (MetaOp now i t s) m =
     update_row i (\<lambda>r. i \<noteq> [])
       (\<lambda>r. r\<lparr>op_title := (case t of None \<Rightarrow> op_title r | _ \<Rightarrow> t), op_subtitle := (case s of None \<Rightarrow> op_subtitle r | _ \<Rightarrow> s), op_updatedAt := now\<rparr>) m"
| "spec_op free (BackendOp now i b) m =
     update_row i (\<lambda>r. \<exists>t c. op_progress r = PProving t c \<and> c \<noteq> Some b)
       (\<lambda>r. case op_progress r of PProving t _ \<Rightarrow> r\<lparr>op_progress := PProving t (Some b), op_updatedAt := now\<rparr> | _ \<Rightarrow> r) m"
| "spec_op free (TouchOp now i) m = update_row i (\<lambda>r. \<not> isTerminal (op_stage r)) (\<lambda>r. r\<lparr>op_updatedAt := now\<rparr>) m"
| "spec_op free (RefileOp now i s ss) m =
     update_row i (\<lambda>r. op_stage r \<in> set ss)
       (\<lambda>r. r\<lparr>op_profileId := (case rs_profileId s of Some p \<Rightarrow> p | None \<Rightarrow> op_profileId r),
              op_networkId := Some (rs_networkId s), op_accountAddress := Some (rs_accountAddress s), op_updatedAt := now\<rparr>) m"
| "spec_op free (DeleteOp i) m = (if i = [] then m else m(i := None))"
| "spec_op free (ClearChainOp n) m = drop_rows (\<lambda>r. op_networkId r = Some n) m"
| "spec_op free (PurgeProfileOp p) m = drop_rows (\<lambda>r. op_profileId r = p) m"

text \<open>One lemma per call.\<close>

lemma creation_fences: "create_fence f v = None \<and> network_fence f v = None \<and> NewOperationInputSchema v \<longleftrightarrow> creation_admitted f v"
  by (auto simp: create_fence_def network_fence_def creation_admitted_def isNetworkLive_def split: option.splits if_splits)

lemma drawn_free: "randomIdNotIn taken draws = find (\<lambda>i. \<not> taken i) draws"
  by (induction draws) auto

lemma spec_create:
  "journal_rows (snd (createOperation f now draws v j)) =
     spec_op (\<lambda>i. \<not> es_contains journal_storage (jl_area j) i) (CreateOp f now draws v) (journal_rows j)"
proof (cases "creation_admitted f v")
  case True
  then have "create_fence f v = None" "network_fence f v = None" "NewOperationInputSchema v" by (simp_all add: creation_fences [symmetric])
  with True show ?thesis
    by (auto simp: createOperation_def createOperationLocked_def nextRandomId_def drawn_free emit_def Let_def
        load_put new_record_schema split: option.split) (simp add: new_record_def)
next
  case False
  then have "snd (createOperation f now draws v j) = j"
    using creation_fences [of f v] by (auto simp: createOperation_def createOperationLocked_def split: option.split)
  with False show ?thesis by simp
qed

lemma moved_transitioned: "transition_allowed r p e \<Longrightarrow> transitioned now r p e = moved now p e r"
  by (cases "op_progress r") (auto simp: transitioned_def moved_def transition_allowed_def terminal_no_exit)

lemma spec_transitionLocked:
  assumes "JobProgressSchema p" "error_ok e"
  shows "journal_rows (snd (transitionLocked now i p e j)) = update_row i (\<lambda>r. transition_allowed r p e) (moved now p e) (journal_rows j)"
proof (cases "journal_rows j i")
  case (Some r)
  show ?thesis
  proof (cases "transition_allowed r p e")
    case True
    then have c: "transition_checks r p e = Inr ()" by (simp add: transition_checks_allowed)
    from row_step_schema [OF Row_Transition [OF c assms(2,1)] loaded_schema [OF Some]] Some True c show ?thesis
      by (simp add: transitionLocked_def update_row_def moved_transitioned Let_def)
  next
    case False
    then have "transition_checks r p e \<noteq> Inr ()" by (simp add: transition_checks_allowed)
    with Some False show ?thesis by (cases "transition_checks r p e") (auto simp: transitionLocked_def update_row_def)
  qed
qed (simp add: transitionLocked_def update_row_def)

lemma spec_transitionIf:
  assumes "JobProgressSchema p" "error_ok e"
  shows "journal_rows (snd (transitionIfStage now i ss p e u j)) = spec_op free (TransitionIfOp now i ss p e u) (journal_rows j)"
proof (cases "journal_rows j i")
  case (Some r)
  have "snd (transitionIfStage now i ss p e u j) =
      (if op_stage r \<in> set ss \<and> (\<forall>t. u = Some t \<longrightarrow> op_updatedAt r = t) then snd (transitionLocked now i p e j) else j)"
    using Some by (auto simp: transitionIfStage_def matches_opt_def split: prod.split sum.split option.split)
  with Some show ?thesis by (auto simp: spec_transitionLocked [OF assms] update_row_def)
qed (simp add: transitionIfStage_def update_row_def)

lemma update_written:
  assumes "journal_rows j i = Some r" "row_step r r'"
  shows "journal_rows (write_row i r' j) = (journal_rows j)(i \<mapsto> r')"
  by (simp add: row_step_schema [OF assms(2) loaded_schema [OF assms(1)]])

lemma spec_sendCheck: "journal_rows (snd (setSendCheck now i h c live j)) = spec_op free (SendCheckOp now i h c live) (journal_rows j)"
proof (cases "journal_rows j i")
  case (Some r)
  show ?thesis
  proof (cases "live \<and> (\<exists>from u. op_progress r = PFailed from (Some h) u None)")
    case True
    then obtain "from" u where p: "op_progress r = PFailed from (Some h) u None" by blast
    from update_written [OF Some Row_Check [OF p, where c = c and now = now]] Some True p show ?thesis
      by (simp add: setSendCheck_def update_row_def with_check_def del: rows_write_row)
  next
    case False
    then show ?thesis using Some by (auto simp: setSendCheck_def update_row_def split: job_progress.split)
  qed
qed (simp add: setSendCheck_def update_row_def)

lemma spec_meta: "journal_rows (snd (setOperationMeta now i t s j)) = spec_op free (MetaOp now i t s) (journal_rows j)"
proof (cases "journal_rows j i")
  case (Some r)
  from update_written [OF Some Row_Meta [where t = "case t of None \<Rightarrow> op_title r | _ \<Rightarrow> t" and s = "case s of None \<Rightarrow> op_subtitle r | _ \<Rightarrow> s" and now = now]] Some
  show ?thesis by (cases t; cases s) (simp_all add: setOperationMeta_def update_row_def Let_def del: rows_write_row)
qed (simp add: setOperationMeta_def update_row_def)

lemma spec_backend: "journal_rows (snd (updateProvingBackend now i b j)) = spec_op free (BackendOp now i b) (journal_rows j)"
proof (cases "journal_rows j i")
  case (Some r)
  show ?thesis
  proof (cases "\<exists>t c. op_progress r = PProving t c \<and> c \<noteq> Some b")
    case True
    then obtain t c where p: "op_progress r = PProving t c" "c \<noteq> Some b" by blast
    from update_written [OF Some Row_Backend [OF p(1), where b = b and now = now]] Some p show ?thesis
      by (simp add: updateProvingBackend_def update_row_def del: rows_write_row)
  next
    case False
    with Some show ?thesis by (auto simp: updateProvingBackend_def update_row_def split: job_progress.split)
  qed
qed (simp add: updateProvingBackend_def update_row_def)

lemma spec_touch: "journal_rows (touchOperation now i j) = spec_op free (TouchOp now i) (journal_rows j)"
proof (cases "journal_rows j i")
  case (Some r)
  with row_step_schema [OF Row_Touch loaded_schema [OF Some], of now] show ?thesis
    by (simp add: touchOperation_def update_row_def load_put)
qed (simp add: touchOperation_def update_row_def)

lemma spec_refile:
  assumes "rs_profileId s \<noteq> Some []"
  shows "journal_rows (snd (refileOperationScope now i s ss j)) = spec_op free (RefileOp now i s ss) (journal_rows j)"
proof (cases "journal_rows j i")
  case (Some r)
  from update_written [OF Some Row_Refile [OF assms, where now = now]] Some show ?thesis
    by (cases "rs_profileId s") (simp_all add: refileOperationScope_def update_row_def refiled_def or_else_def Let_def del: rows_write_row)
qed (simp add: refileOperationScope_def update_row_def)

lemma spec_delete: "journal_rows (snd (deleteOperation i j)) = spec_op free (DeleteOp i) (journal_rows j)"
  by (auto simp: deleteOperation_def emit_def load_del split: option.split)

lemma spec_clearChain: "keyed j \<Longrightarrow> journal_rows (clearChainState n j) = spec_op free (ClearChainOp n) (journal_rows j)"
  by (rule ext) (simp add: clearChainState_def purge_filtered jrows.purge_lookup keyed_def drop_rows_def)

lemma spec_purgeProfile: "keyed j \<Longrightarrow> journal_rows (purgeForProfile p j) = spec_op free (PurgeProfileOp p) (journal_rows j)"
  by (rule ext) (simp add: purgeForProfile_rows drop_rows_def)

lemmas spec_calls = spec_create spec_sendCheck spec_meta spec_backend spec_touch spec_delete spec_clearChain spec_purgeProfile

section \<open>Properties\<close>

text \<open>
  C18: the service implements a map from ids to records, call by call. Whatever is stored beside the
  readable rows: a creation that the schema and the fences admit files the new record under the first
  drawn id free in storage, and a refused one changes nothing; a transition, guarded or not, takes
  exactly the row of its id, and only when the job table, the error rule, the kind of a success, the
  submitted hash and the caller's stages and time allow it; the answer of the network goes once to a
  failed send with that hash; labels, backend, heartbeat and re-filing change their own fields of their own row; a
  deletion drops its row alone, and the purges exactly the rows of their network or profile. Rows stay
  filed under their own ids.
\<close>

theorem journal_refines_rows:
  assumes "keyed j" and "op_args_ok c"
  shows "journal_rows (run_op c j) = spec_op (\<lambda>i. \<not> es_contains journal_storage (jl_area j) i) c (journal_rows j) \<and> keyed (run_op c j)"
proof
  show "journal_rows (run_op c j) = spec_op (\<lambda>i. \<not> es_contains journal_storage (jl_area j) i) c (journal_rows j)"
  proof (cases c)
    case (TransitionOp now i p e)
    show ?thesis
    proof (cases "i \<noteq> [] \<and> JobProgressSchema p \<and> error_ok e")
      case True
      with TransitionOp show ?thesis by (simp add: transitionOperation_def spec_transitionLocked)
    next
      case False
      then have "\<not> (i \<noteq> [] \<and> JobProgressSchema p \<and> error_ok e \<and> transition_allowed r p e)" for r by blast
      with TransitionOp False show ?thesis by (auto simp: transitionOperation_def update_row_def split: option.split)
    qed
  next
    case (TransitionIfOp now i ss p e u)
    with assms(2) show ?thesis by (simp add: spec_transitionIf [simplified])
  next
    case (RefileOp now i s ss)
    with assms(2) show ?thesis by (simp add: spec_refile [simplified])
  qed (simp_all add: assms(1) spec_calls [simplified])
  show "keyed (run_op c j)" by (rule run_op_keyed [OF assms])
qed

text \<open>
  C37: after any sequence of calls on an empty journal every readable record is filed under its id,
  carries an error exactly when it failed and a terminal time exactly when it ended, has succeeded
  with a transaction hash exactly when its kind is an on-chain one, and, when failed, names a hash or
  an endpoint only if it failed while submitting and a network answer only beside a hash.
\<close>

theorem journal_invariant:
  assumes "\<forall>c\<in>set cs. op_args_ok c" and "journal_rows (fold run_op cs \<lparr>jl_area = [], jl_events = evs\<rparr>) i = Some r"
  shows "op_id r = i \<and> OperationRecordSchema r
    \<and> (op_error r \<noteq> None) = (op_stage r = Failed) \<and> (op_terminalAt r \<noteq> None) = isTerminal (op_stage r)
    \<and> (\<forall>h. op_progress r = PSucceeded h \<longrightarrow> hasTxHash h = (op_kind r \<noteq> TokenImport))
    \<and> (\<forall>from h u c. op_progress r = PFailed from h u c \<longrightarrow>
        (h \<noteq> None \<or> u \<noteq> None \<longrightarrow> from = Some Submitting) \<and> (c \<noteq> None \<longrightarrow> h \<noteq> None))"
proof -
  have "journal_inv \<lparr>jl_area = [], jl_events = evs\<rparr>"
    by (simp add: journal_inv_def keyed_def loadValidated_def journal_storage_def ps_get_eq)
  from run_ops_inv [OF this assms(1)] assms(2) have "op_id r = i" "record_inv r"
    by (auto simp: journal_inv_def keyed_def)
  with loaded_schema [OF assms(2)] show ?thesis by (auto simp: record_inv_def)
qed

text \<open>
  C19: as long as a row is not deleted, whatever is called on the journal, the row stays the record of
  the same operation, its stage only moves along the job table, an outcome once reached is final
  (error, time and payload, but for the one network answer a failed send may still receive), an
  on-chain operation once submitting is never cancelled, and its transaction hash is never lost or
  replaced.
\<close>

theorem journal_row_history:
  assumes "keyed j" and "\<forall>c\<in>set cs. op_args_ok c" and "row_kept i cs j" and "journal_rows j i = Some r"
  shows "\<exists>r'. journal_rows (fold run_op cs j) i = Some r' \<and> same_operation r r' \<and> stage_reaches (op_stage r) (op_stage r')
    \<and> (isTerminal (op_stage r) \<longrightarrow> fate_kept r r')
    \<and> (op_stage r = Submitting \<longrightarrow> op_stage r' \<noteq> Cancelled)
    \<and> (\<forall>h. op_kind r \<noteq> TokenImport \<and> tx_hash_of (op_progress r) = Some h \<and> h \<noteq> [] \<longrightarrow> tx_hash_of (op_progress r') = Some h)"
proof -
  from run_evolves [OF assms] obtain r' where r': "journal_rows (fold run_op cs j) i = Some r'" "row_evolves r r'" by blast
  have "op_stage r' \<noteq> Cancelled" if "op_stage r = Submitting"
    using r'(2) that stage_path_submitting_tail by (fastforce simp: row_evolves_def stage_reaches_def)
  with r' show ?thesis by (auto simp: row_evolves_def)
qed

text \<open>
  A transition succeeds exactly when the arguments are well formed, the row is there, the job
  table allows the step, an error is given exactly for a failure, and a success respects its kind and
  the submitted hash; it then returns and stores that record, announcing it; every refusal leaves the
  journal and its events untouched.
\<close>

theorem transition_exact:
  "(fst (transitionOperation now i p e j) = Inr r' \<longleftrightarrow>
     (\<exists>r. i \<noteq> [] \<and> JobProgressSchema p \<and> error_ok e \<and> journal_rows j i = Some r
        \<and> transition_allowed r p e \<and> r' = transitioned now r p e))
   \<and> (if \<exists>r. fst (transitionOperation now i p e j) = Inr r
      then jl_events (snd (transitionOperation now i p e j)) = jl_events j @ [OperationUpdated (transitioned now (the (journal_rows j i)) p e)]
        \<and> journal_rows (snd (transitionOperation now i p e j)) = (journal_rows j)(i \<mapsto> transitioned now (the (journal_rows j i)) p e)
      else snd (transitionOperation now i p e j) = j)"
proof (cases "\<exists>r. i \<noteq> [] \<and> JobProgressSchema p \<and> error_ok e \<and> journal_rows j i = Some r \<and> transition_allowed r p e")
  case True
  then obtain r where r: "i \<noteq> []" "JobProgressSchema p" "error_ok e" "journal_rows j i = Some r" "transition_allowed r p e"
    by blast
  then have t: "transitionOperation now i p e j = (Inr (transitioned now r p e), write_row i (transitioned now r p e) j)"
    by (simp add: transitionOperation_def transitionLocked_def transition_checks_allowed [symmetric] Let_def)
  have "OperationRecordSchema (transitioned now r p e)"
    using row_step_schema [OF Row_Transition loaded_schema [OF r(4)]] r by (simp add: transition_checks_allowed)
  then have "journal_rows (write_row i (transitioned now r p e) j) = (journal_rows j)(i \<mapsto> transitioned now r p e)" by simp
  moreover have "jl_events (write_row i (transitioned now r p e) j) = jl_events j @ [OperationUpdated (transitioned now r p e)]"
    by (simp add: write_row_def emit_def)
  ultimately show ?thesis using r by (auto simp: t simp del: rows_write_row)
next
  case False
  then have "\<exists>err. transitionOperation now i p e j = (Inl err, j)"
    by (auto simp: transitionOperation_def transitionLocked_def transition_checks_allowed [symmetric] split: option.split sum.split)
  with False show ?thesis by auto
qed

text \<open>
  Purging a profile removes all of its readable rows and announces each, and also every row whose
  stored text is a JSON object naming that profile but fails the schema; every readable row of other
  profiles is kept, and nothing outside the journal's keys changes.
\<close>

theorem purge_profile_complete:
  assumes "keyed j"
  shows "journal_rows (purgeForProfile p j) =
      (\<lambda>i. case journal_rows j i of None \<Rightarrow> None | Some r \<Rightarrow> if op_profileId r = p then None else Some r)
    \<and> jl_events (purgeForProfile p j) = jl_events j @ map OperationDeleted (filter (\<lambda>r. op_profileId r = p) (loadAllValidated (jl_area j)))
    \<and> (\<forall>i t raw. js_get (jl_area (purgeForProfile p j)) (row_key journal_storage i) = Some (RawString t) \<and> text_parse t = Some raw
         \<longrightarrow> json_profileId raw \<noteq> Some p)
    \<and> (\<forall>k. (\<forall>i. k \<noteq> row_key journal_storage i) \<longrightarrow> js_get (jl_area (purgeForProfile p j)) k = js_get (jl_area j) k)"
proof -
  let ?P = "\<lambda>raw. json_profileId raw = Some p"
  let ?a = "jrows.purge (\<lambda>r. op_profileId r = p) (jl_area j)"
  have d: "distinct (js_keys ?a)" using assms by (simp add: keyed_def jrows.purge_ok)
  have a: "jl_area (purgeForProfile p j) = snd (purgeMalformedRows ?P ?a)"
    by (simp add: purgeForProfile_def Let_def purge_filtered [OF assms])
  have "json_profileId raw \<noteq> Some p"
    if "js_get (jl_area (purgeForProfile p j)) (row_key journal_storage i) = Some (RawString t)" and "text_parse t = Some raw" for i t raw
  proof -
    from that(1) have "\<not> row_matches ?P t" by (auto simp: a purgeMalformed_get [OF d] split: if_splits)
    with that(2) show ?thesis by (cases raw) (auto simp: row_matches_def)
  qed
  moreover have "js_get (jl_area (purgeForProfile p j)) k = js_get (jl_area j) k" if "\<forall>i. k \<noteq> row_key journal_storage i" for k
  proof -
    from that have "js_get ?a k = js_get (jl_area j) k" by (auto simp: jrows.purge_def js_get_dels_rows)
    with that show ?thesis unfolding a purgeMalformed_get [OF d] by simp
  qed
  moreover have "jl_events (purgeForProfile p j) = jl_events j @ map OperationDeleted (filter (\<lambda>r. op_profileId r = p) (loadAllValidated (jl_area j)))"
    by (simp add: purgeForProfile_def Let_def purgeRows_events)
  moreover have "journal_rows (purgeForProfile p j) = (\<lambda>i. case journal_rows j i of None \<Rightarrow> None | Some r \<Rightarrow> if op_profileId r = p then None else Some r)"
    by (rule ext) (rule purgeForProfile_rows [OF assms])
  ultimately show ?thesis by blast
qed

text \<open>
  C24: what can bring back the rows of an erased profile. After the purge of a profile's journal, a
  sequence of any calls leaves no row of that profile readable, unless the sequence has a re-filing to the
  profile, which the code does not fence, or a creation for it whose caller is not wired to the profile
  list, or finds the profile listed and presents no epoch, has no deletion service, or presents the epoch
  that service holds. An epoch captured before the deletion began is never that one, whatever hydrations,
  releases and deletions follow: a creator that took it then and checks it brings nothing back.
\<close>

theorem erased_profile_revival:
  assumes "keyed j" and "\<forall>c\<in>set cs. op_args_ok c"
  shows "(profile_absent p (fold run_op cs (purgeForProfile p j))
      \<or> (\<exists>now i s ss. RefileOp now i s ss \<in> set cs \<and> rs_profileId s = Some p)
      \<or> (\<exists>f now draws v. CreateOp f now draws v \<in> set cs \<and> in_profileId v = p
           \<and> (fn_profiles f = None
              \<or> (\<exists>known. fn_profiles f = Some known \<and> p \<in> set known)
                \<and> (in_profileEpoch v = None \<or> fn_deletion f = None
                   \<or> (\<exists>d. fn_deletion f = Some d \<and> in_profileEpoch v = Some (capture d p))))))
    \<and> (\<forall>ds e. e \<le> capture st p \<longrightarrow> e \<noteq> capture (fold deletion_step ds (snd (beginDeletion p st))) p)"
    (is "(?absent \<or> ?refiled \<or> ?created) \<and> ?stale")
proof -
  have ?stale using stale_epoch_refused by metis
  moreover have "?refiled \<or> ?created" if "c \<in> set cs" "may_revive p c" for c
    using may_reviveD [OF that(2)] that(1) by metis
  moreover have ?absent if none: "\<forall>c\<in>set cs. \<not> may_revive p c"
  proof -
    have "keyed (purgeForProfile p j)" using run_op_keyed [OF assms(1), of "PurgeProfileOp p"] by simp
    moreover have "profile_absent p (purgeForProfile p j)"
      by (auto simp: profile_absent_def purgeForProfile_rows [OF assms(1)] split: option.splits if_splits)
    ultimately show ?thesis using assms(2) none by (blast intro: absent_run)
  qed
  ultimately show ?thesis by blast
qed

text \<open>
  What leaves the journal for a popup is the active profile's alone. A read by id, a listing and
  an event carry only records of the active profile, nothing at all is answered without one, and the
  active profile's own rows are all found.
\<close>

theorem journal_rpc_boundary:
  assumes "distinct (js_keys (jl_area j))"
  shows "(\<forall>i r. invoke_getOperation act i j = Inr (Some r) \<longleftrightarrow>
        i \<noteq> [] \<and> journal_rows j i = Some r \<and> activeProfileId act = Some (op_profileId r))
    \<and> set (invoke_getOperations act flt j) =
        {r. (\<exists>i. journal_rows j i = Some r) \<and> activeProfileId act = Some (op_profileId r) \<and> matches_filter (or_else flt empty_filter) r}
    \<and> (\<forall>e. sendEvent act e \<longrightarrow> activeProfileId act = Some (op_profileId (event_record e)))"
proof -
  have ne: "op_profileId r \<noteq> []" if "journal_rows j i = Some r" for i r
    using loaded_schema [OF that] by (simp add: OperationRecordSchema_def)
  have all: "set (loadAllValidated (jl_area j)) = {r. \<exists>i. journal_rows j i = Some r}"
    using jrows.rows_lookup [OF assms] by (force simp: loadAllValidated_def image_iff)
  let ?A = "activeProfileId act" and ?f = "or_else flt empty_filter"
  have "set (invoke_getOperations act flt j) = {r. (\<exists>i. journal_rows j i = Some r) \<and> ?A = Some (op_profileId r) \<and> matches_filter ?f r}"
  proof (cases "truthy ?A")
    case True
    then obtain p where p: "?A = Some p" "p \<noteq> []" by (auto simp: truthy_def)
    show ?thesis
    proof (cases "of_profileId ?f \<noteq> None \<and> of_profileId ?f \<noteq> ?A")
      case True
      then have "\<not> matches_filter ?f r" if "?A = Some (op_profileId r)" for r
        using that by (auto simp: matches_filter_def matches_opt_def)
      with True show ?thesis by (auto simp: invoke_getOperations_def Let_def)
    next
      case False
      then have "matches_filter (?f\<lparr>of_profileId := ?A\<rparr>) r \<longleftrightarrow> ?A = Some (op_profileId r) \<and> matches_filter ?f r" for r
        using p(1) by (auto simp: matches_filter_def)
      moreover have "invoke_getOperations act flt j = filter (matches_filter (?f\<lparr>of_profileId := ?A\<rparr>)) (loadAllValidated (jl_area j))"
        using False p by (auto simp: invoke_getOperations_def Let_def truthy_def getOperations_def)
      ultimately show ?thesis by (auto simp: all)
    qed
  next
    case False
    then show ?thesis by (auto simp: invoke_getOperations_def Let_def truthy_def dest: ne)
  qed
  moreover have "invoke_getOperation act i j = Inr (Some r) \<longleftrightarrow> i \<noteq> [] \<and> journal_rows j i = Some r \<and> ?A = Some (op_profileId r)" for i r
    by (auto simp: invoke_getOperation_def getOperation_def Let_def truthy_def split: if_splits dest: ne)
  ultimately show ?thesis by (auto simp: sendEvent_def Let_def)
qed

section \<open>Concrete runs\<close>

definition demo_input :: op_input where
  "demo_input = \<lparr>in_kind = Transfer, in_origin = Popup, in_profileId = ''p'', in_sessionId = None, in_profileEpoch = Some 0,
     in_accountAddress = None, in_networkId = None, in_tokenId = None, in_title = None, in_subtitle = None,
     in_amountRaw = None, in_recipientAddress = None, in_contractAddress = None, in_transferType = None, in_initialStage = None\<rparr>"

definition demo_fences :: fences where
  "demo_fences = \<lparr>fn_profiles = Some [''p''], fn_deletion = Some new_deletion_state, fn_networks = None\<rparr>"

definition demo_journal :: journal where
  "demo_journal = \<lparr>jl_area = [], jl_events = []\<rparr>"

definition demo_create :: journal_op where
  "demo_create = CreateOp demo_fences 1 [''a''] demo_input"

definition demo_stored :: journal where
  "demo_stored = run_op demo_create demo_journal"

lemma demo_stored_eq:
  "demo_stored = \<lparr>jl_area = [(''nulo:journal@a'', RawString (Printed (JRow (new_record 1 ''a'' demo_input))))],
     jl_events = [OperationAdded (new_record 1 ''a'' demo_input)]\<rparr>"
  by (simp add: demo_stored_def demo_create_def demo_journal_def createOperation_def createOperationLocked_def
      NewOperationInputSchema_def create_fence_def network_fence_def demo_fences_def isCurrent_epoch_def capture_def
      new_deletion_state_def nextRandomId_def es_contains_def journal_storage_def plain_storage_def row_key_def
      area_get_def put_row_def es_set_def json_stringify_def emit_def js_get_pick demo_input_def new_record_def Let_def)

lemma demo_keyed: "keyed demo_stored"
  using run_op_keyed [of demo_journal demo_create]
  by (simp add: demo_stored_def demo_create_def keyed_def demo_journal_def loadValidated_def journal_storage_def ps_get_eq)

lemma demo_row: "journal_rows demo_stored ''a'' = Some (new_record 1 ''a'' demo_input)"
  by (simp add: demo_stored_eq loadValidated_def journal_storage_def ps_get_eq)
    (simp add: row_key_def plain_storage_def OperationRecordSchema_def new_record_def demo_input_def error_ok_def)

theorem journal_refines_rows_witness:
  "journal_rows (run_op (TransitionIfOp 5 ''a'' [Pending] PSimulating None (Some 1)) demo_stored)
     = (journal_rows demo_stored)(''a'' \<mapsto> moved 5 PSimulating None (new_record 1 ''a'' demo_input))
   \<and> journal_rows (run_op (TransitionIfOp 5 ''a'' [Queued] PSimulating None None) demo_stored) = journal_rows demo_stored"
proof -
  have st: "op_stage (new_record 1 ''a'' demo_input) = Pending" "op_updatedAt (new_record 1 ''a'' demo_input) = 1"
    by (simp_all add: new_record_def demo_input_def)
  then have "transition_allowed (new_record 1 ''a'' demo_input) PSimulating None" by (simp add: transition_allowed_def fsm_simps)
  with journal_refines_rows [OF demo_keyed, of "TransitionIfOp 5 ''a'' [Pending] PSimulating None (Some 1)"]
    journal_refines_rows [OF demo_keyed, of "TransitionIfOp 5 ''a'' [Queued] PSimulating None None"]
  show ?thesis using st by (simp add: update_row_def demo_row error_ok_def)
qed

theorem journal_invariant_witness:
  "op_terminalAt (new_record 1 ''a'' demo_input) = None \<and> op_stage (new_record 1 ''a'' demo_input) = Pending"
proof -
  have "journal_rows (fold run_op [demo_create] \<lparr>jl_area = [], jl_events = []\<rparr>) ''a'' = Some (new_record 1 ''a'' demo_input)"
    using demo_row by (simp add: demo_stored_def demo_journal_def)
  from journal_invariant [OF _ this] show ?thesis by (simp add: demo_create_def) (simp add: new_record_def demo_input_def)
qed

theorem journal_row_history_witness:
  "\<exists>r'. journal_rows (fold run_op [TransitionOp 2 ''a'' PSimulating None] demo_stored) ''a'' = Some r'
     \<and> stage_reaches Pending (op_stage r')"
proof -
  let ?cs = "[TransitionOp 2 ''a'' PSimulating None]"
  have a: "\<forall>c\<in>set ?cs. op_args_ok c" by simp
  have st: "op_stage (new_record 1 ''a'' demo_input) = Pending" by (simp add: new_record_def demo_input_def)
  have "transition_checks (new_record 1 ''a'' demo_input) PSimulating None = Inr ()"
    by (simp add: transition_checks_allowed transition_allowed_def st fsm_simps)
  then have "journal_rows (run_op (TransitionOp 2 ''a'' PSimulating None) demo_stored) ''a'' \<noteq> None"
    using row_step_schema [OF Row_Transition loaded_schema [OF demo_row], of PSimulating None 2]
    by (simp add: transitionOperation_def transitionLocked_def demo_row error_ok_def Let_def)
  with demo_row have k: "row_kept ''a'' ?cs demo_stored" by simp
  from journal_row_history [OF demo_keyed a k demo_row] st show ?thesis by auto
qed

theorem purge_profile_complete_witness:
  "journal_rows (purgeForProfile ''p'' demo_stored) ''a'' = None"
  using purge_profile_complete [OF demo_keyed, of "''p''"] by (simp add: demo_row) (simp add: new_record_def demo_input_def)

theorem erased_profile_revival_witness:
  "profile_absent ''p'' (fold run_op
     [CreateOp (demo_fences\<lparr>fn_deletion := Some (snd (beginDeletion ''p'' new_deletion_state))\<rparr>) 9 [''b''] demo_input]
     (purgeForProfile ''p'' demo_stored))"
proof -
  have "\<forall>c\<in>set [CreateOp (demo_fences\<lparr>fn_deletion := Some (snd (beginDeletion ''p'' new_deletion_state))\<rparr>) 9 [''b''] demo_input]. op_args_ok c"
    by simp
  from erased_profile_revival [OF demo_keyed this, of "''p''" new_deletion_state] show ?thesis
    by (simp add: demo_fences_def demo_input_def) (simp add: capture_def new_deletion_state_def)
qed

theorem journal_rpc_boundary_witness:
  "invoke_getOperation (ActiveProfile (Some ''q'')) ''a'' demo_stored \<noteq> Inr (Some (new_record 1 ''a'' demo_input))
   \<and> invoke_getOperation (ActiveProfile (Some ''p'')) ''a'' demo_stored = Inr (Some (new_record 1 ''a'' demo_input))"
proof -
  have d: "distinct (js_keys (jl_area demo_stored))" using demo_keyed by (simp add: keyed_def)
  have p: "op_profileId (new_record 1 ''a'' demo_input) = ''p''" by (simp add: new_record_def demo_input_def)
  from journal_rpc_boundary [OF d, of "ActiveProfile (Some ''q'')" None] journal_rpc_boundary [OF d, of "ActiveProfile (Some ''p'')" None]
  show ?thesis by (simp add: demo_row p)
qed

end
