(* ===== verification/Journal_Sweeps.thy ===== *)
theory Journal_Sweeps
  imports Operation_Journal
begin

text \<open>
  The two sweeps over the journal: the garbage collector of finished records
  (\<^verbatim>\<open>operation-journal/gc.ts\<close>) and the reaper of stuck ones (\<^verbatim>\<open>operation-journal/reaper.ts\<close>). A sweep
  reads a snapshot and then calls the journal once per record; other calls may run in between, so the
  reaper's loop takes them as an argument. Alarm registration and logging are left out.
\<close>

section \<open>Garbage collection (gc.ts)\<close>

definition DEFAULT_TERMINAL_CAP_PER_SCOPE :: nat where
  "DEFAULT_TERMINAL_CAP_PER_SCOPE = 50"

definition NO_ACCOUNT :: string where
  "NO_ACCOUNT = ''<no-account>''"

definition gc_key :: "op_record \<Rightarrow> string" where
  "gc_key r = op_profileId r @ ''::'' @ or_else (op_accountAddress r) NO_ACCOUNT"

definition terminal_filter :: "bool \<Rightarrow> operation_filter" where
  "terminal_filter b = empty_filter\<lparr>of_isTerminal := Some b\<rparr>"

definition add_to_group :: "op_record \<Rightarrow> (string, op_record list) jsmap \<Rightarrow> (string, op_record list) jsmap" where
  "add_to_group r groups =
     (case js_get groups (gc_key r) of
        Some bucket \<Rightarrow> js_set (gc_key r) (bucket @ [r]) groups
      | None \<Rightarrow> js_set (gc_key r) [r] groups)"

definition gc_groups :: "op_record list \<Rightarrow> (string, op_record list) jsmap" where
  "gc_groups rs = fold add_to_group rs []"

definition newest_first :: "op_record list \<Rightarrow> op_record list" where
  "newest_first rs = sort_key (\<lambda>r. - or_else (op_terminalAt r) 0) rs"

definition gc_victims :: "nat \<Rightarrow> op_record list \<Rightarrow> op_record list" where
  "gc_victims cap bucket =
     (let evictable = filter (\<lambda>r. op_stage r = Succeeded) bucket
      in if length evictable \<le> cap then [] else drop cap (newest_first evictable))"

text \<open>An exception of one deletion is caught and the sweep goes on.\<close>

definition gc_sweep :: "nat \<Rightarrow> journal \<Rightarrow> journal" where
  "gc_sweep cap j =
     (let finished = getOperations (Some (terminal_filter True)) j
      in if finished = [] then j
         else fold (\<lambda>(key, bucket) j. fold (\<lambda>v j. snd (deleteOperation (op_id v) j)) (gc_victims cap bucket) j)
                (gc_groups finished) j)"

section \<open>Reaping (reaper.ts)\<close>

fun STAGE_GRACE_MS :: "job_stage \<Rightarrow> time" where
  "STAGE_GRACE_MS Queued = 10 * 60000"
| "STAGE_GRACE_MS Pending = 2 * 60000"
| "STAGE_GRACE_MS Simulating = 10 * 60000"
| "STAGE_GRACE_MS Proving = 35 * 60000"
| "STAGE_GRACE_MS Submitting = 5 * 60000"
| "STAGE_GRACE_MS _ = 0"

definition shouldSkipRecord :: "op_record \<Rightarrow> time \<Rightarrow> bool \<Rightarrow> time option \<Rightarrow> bool" where
  "shouldSkipRecord r age unconditional bootCutoff =
     (if op_stage r = Succeeded \<or> op_stage r = Failed \<or> op_stage r = Cancelled then True
      else if unconditional \<and> (case bootCutoff of None \<Rightarrow> False | Some c \<Rightarrow> op_createdAt r \<ge> c) then True
      else \<not> unconditional \<and> age < STAGE_GRACE_MS (op_stage r))"

definition classifyReapKind :: "job_stage \<Rightarrow> bool \<Rightarrow> string" where
  "classifyReapKind s unconditional =
     (if s = Proving then (if unconditional then ''sw_restart_post_prove'' else ''stuck_proving'')
      else if s = Queued then ''stuck_queued''
      else ''stale_on_resume'')"

fun stage_name :: "job_stage \<Rightarrow> string" where
  "stage_name Queued = ''queued''"
| "stage_name Pending = ''pending''"
| "stage_name Simulating = ''simulating''"
| "stage_name Proving = ''proving''"
| "stage_name Submitting = ''submitting''"
| "stage_name Succeeded = ''succeeded''"
| "stage_name Failed = ''failed''"
| "stage_name Cancelled = ''cancelled''"

text \<open>The dash and the comparison sign of the message, no Latin-1 characters, are written out in ASCII.\<close>

definition reap_error :: "op_record \<Rightarrow> time \<Rightarrow> bool \<Rightarrow> job_error" where
  "reap_error r age unconditional =
     (let s = op_stage r;
          reason = (if unconditional then ''SW restart with non-terminal record in '' @ stage_name s @ '' - unrecoverable''
                    else stage_name s @ '' stage exceeded grace window ('' @ int_dec age @ ''ms >= '' @ int_dec (STAGE_GRACE_MS s) @ ''ms)'')
      in \<lparr>je_kind = classifyReapKind s unconditional, je_message = ''Job declared lost: '' @ reason, je_normalizedRaw = None\<rparr>)"

text \<open>
  One record of the snapshot; \<open>t\<close> is the clock when the journal writes. An exception of the journal is
  caught.
\<close>

definition reap_one :: "time \<Rightarrow> bool \<Rightarrow> time option \<Rightarrow> time \<Rightarrow> op_record \<Rightarrow> journal \<Rightarrow> journal" where
  "reap_one now unconditional bootCutoff t r j =
     (let age = now - op_updatedAt r
      in if shouldSkipRecord r age unconditional bootCutoff then j
         else snd (transitionIfStage t (op_id r) [op_stage r] (PFailed None None None None)
                (Some (reap_error r age unconditional)) (if unconditional then None else Some (op_updatedAt r)) j))"

text \<open>The loop over the snapshot; before each record other calls may have run.\<close>

fun reap_loop ::
  "time \<Rightarrow> bool \<Rightarrow> time option \<Rightarrow> (string \<Rightarrow> journal_op list \<times> time) \<Rightarrow> op_record list \<Rightarrow> journal \<Rightarrow> journal" where
  "reap_loop now unc bc others [] j = j"
| "reap_loop now unc bc others (r # rs) j =
     reap_loop now unc bc others rs
       (reap_one now unc bc (snd (others (op_id r))) r (fold run_op (fst (others (op_id r))) j))"

definition reap :: "time \<Rightarrow> bool \<Rightarrow> time option \<Rightarrow> (string \<Rightarrow> journal_op list \<times> time) \<Rightarrow> journal \<Rightarrow> journal" where
  "reap now unconditional bootCutoff others j =
     reap_loop now unconditional bootCutoff others (getOperations (Some (terminal_filter False)) j) j"

text \<open>\<^verbatim>\<open>start()\<close>: the boot sweep, with the cutoff the composition root supplied or the current time.\<close>

definition boot_sweep :: "time \<Rightarrow> time option \<Rightarrow> (string \<Rightarrow> journal_op list \<times> time) \<Rightarrow> journal \<Rightarrow> journal" where
  "boot_sweep now cutoff others j = reap now True (Some (or_else cutoff now)) others j"

section \<open>Lemmas: collection\<close>

lemma gc_groups_get_acc:
  "js_get (fold add_to_group rs g) k =
     (if filter (\<lambda>r. gc_key r = k) rs = [] then js_get g k
      else Some (or_else (js_get g k) [] @ filter (\<lambda>r. gc_key r = k) rs))"
proof (induction rs arbitrary: g)
  case (Cons r rs)
  then show ?case by (cases "js_get g (gc_key r)") (auto simp: add_to_group_def js_get_set)
qed simp

lemma gc_groups_get:
  "js_get (gc_groups rs) k = (if filter (\<lambda>r. gc_key r = k) rs = [] then None else Some (filter (\<lambda>r. gc_key r = k) rs))"
  by (simp add: gc_groups_def gc_groups_get_acc)

lemma gc_groups_distinct: "distinct (js_keys (gc_groups rs))"
proof -
  have "distinct (js_keys g) \<Longrightarrow> distinct (js_keys (fold add_to_group rs g))" for g
    by (induction rs arbitrary: g) (auto simp: add_to_group_def distinct_update split: option.split)
  then show ?thesis by (simp add: gc_groups_def)
qed

lemma gc_groups_member:
  "(k, b) \<in> set (gc_groups rs) \<longleftrightarrow> b = filter (\<lambda>r. gc_key r = k) rs \<and> b \<noteq> []"
  using map_of_eq_Some_iff [OF gc_groups_distinct, of rs k b] gc_groups_get [of rs k] by (auto split: if_splits)

text \<open>All the deletions of a sweep, in order.\<close>

definition all_victims :: "nat \<Rightarrow> op_record list \<Rightarrow> op_record list" where
  "all_victims cap rs = concat (map (gc_victims cap \<circ> snd) (gc_groups rs))"

lemma fold_concat_map: "fold (\<lambda>(k, b). fold f (g b)) xs s = fold f (concat (map (g \<circ> snd) xs)) s"
  by (induction xs arbitrary: s) auto

lemma gc_sweep_victims:
  "gc_sweep cap j = fold (\<lambda>v j. snd (deleteOperation (op_id v) j)) (all_victims cap (getOperations (Some (terminal_filter True)) j)) j"
  by (simp add: gc_sweep_def Let_def all_victims_def fold_concat_map gc_groups_def)

lemma gc_victims_eq: "gc_victims cap b = drop cap (newest_first (filter (\<lambda>r. op_stage r = Succeeded) b))"
  by (simp add: gc_victims_def Let_def newest_first_def)

lemma all_victims_member:
  "v \<in> set (all_victims cap rs) \<longleftrightarrow>
     v \<in> set (drop cap (newest_first (filter (\<lambda>r. op_stage r = Succeeded \<and> gc_key r = gc_key v) rs)))"
proof -
  have mem: "gc_key v = k \<and> v \<in> set rs" if "v \<in> set (gc_victims cap (filter (\<lambda>r. gc_key r = k) rs))" for k
    using that set_drop_subset [of cap] by (fastforce simp: gc_victims_eq newest_first_def)
  have "v \<in> set (all_victims cap rs) \<longleftrightarrow> (\<exists>k. v \<in> set (gc_victims cap (filter (\<lambda>r. gc_key r = k) rs)))"
  proof -
    have "v \<in> set (all_victims cap rs) \<longleftrightarrow> (\<exists>k b. (k, b) \<in> set (gc_groups rs) \<and> v \<in> set (gc_victims cap b))"
      by (force simp: all_victims_def)
    moreover have "gc_victims cap [] = []" by (simp add: gc_victims_def)
    ultimately show ?thesis by (auto simp: gc_groups_member) (metis empty_iff list.set(1))
  qed
  also have "\<dots> \<longleftrightarrow> v \<in> set (gc_victims cap (filter (\<lambda>r. gc_key r = gc_key v) rs))" using mem by metis
  finally show ?thesis by (simp add: gc_victims_eq conj_commute)
qed

lemma rows_delete: "journal_rows (snd (deleteOperation i j)) k = (if k = i \<and> i \<noteq> [] then None else journal_rows j k)"
  by (auto simp: deleteOperation_def emit_def load_del split: option.split)

lemma rows_deletes:
  "journal_rows (fold (\<lambda>v j. snd (deleteOperation (op_id v) j)) vs j) k =
     (if k \<noteq> [] \<and> k \<in> op_id ` set vs then None else journal_rows j k)"
  by (induction vs arbitrary: j) (auto simp: rows_delete)

text \<open>The succeeded records of one scope.\<close>

definition succeeded_in :: "journal \<Rightarrow> string \<Rightarrow> op_record set" where
  "succeeded_in j k = {r. (\<exists>i. journal_rows j i = Some r) \<and> op_stage r = Succeeded \<and> gc_key r = k}"

definition scope_list :: "journal \<Rightarrow> string \<Rightarrow> op_record list" where
  "scope_list j k = filter (\<lambda>r. op_stage r = Succeeded \<and> gc_key r = k) (getOperations (Some (terminal_filter True)) j)"

lemma set_loadAll: "keyed j \<Longrightarrow> r \<in> set (loadAllValidated (jl_area j)) \<longleftrightarrow> (\<exists>i. journal_rows j i = Some r)"
proof -
  have "r \<in> snd ` set xs \<longleftrightarrow> (\<exists>i. (i, r) \<in> set xs)" for xs :: "(string \<times> op_record) list" by force
  moreover assume "keyed j"
  ultimately show ?thesis by (simp add: loadAllValidated_def keyed_def jrows.rows_lookup)
qed

lemma distinct_loadAll:
  assumes "keyed j"
  shows "distinct (loadAllValidated (jl_area j)) \<and> inj_on op_id (set (loadAllValidated (jl_area j)))"
proof -
  have "map op_id (filter (\<lambda>_. True) (loadAllValidated (jl_area j))) = map fst (filter ((\<lambda>_. True) \<circ> snd) (loadRows (jl_area j)))"
    by (rule keyed_ids [OF assms])
  moreover have "distinct (map fst (loadRows (jl_area j)))" using assms jrows.rows_distinct by (simp add: keyed_def)
  ultimately have "distinct (map op_id (loadAllValidated (jl_area j)))" by (simp add: comp_def)
  then show ?thesis by (simp add: distinct_map)
qed

lemma terminal_filter_iff [simp]: "matches_filter (terminal_filter b) r \<longleftrightarrow> (op_terminalAt r \<noteq> None) = b"
  by (simp add: matches_filter_def terminal_filter_def empty_filter_def)

lemma scope_list_props:
  assumes "journal_inv j"
  shows "set (scope_list j k) = succeeded_in j k \<and> distinct (scope_list j k)"
proof -
  have k: "keyed j" using assms by (simp add: journal_inv_def)
  have "op_terminalAt r \<noteq> None" if "journal_rows j i = Some r" "op_stage r = Succeeded" for i r
    using that assms by (auto simp: journal_inv_def record_inv_def)
  then show ?thesis using distinct_loadAll [OF k]
    by (auto simp: scope_list_def succeeded_in_def getOperations_def set_loadAll [OF k])
qed

lemma gc_rows:
  assumes "journal_inv j" and "journal_rows j [] = None" and "journal_rows j i = Some r"
  shows "journal_rows (gc_sweep cap j) i =
    (if op_stage r = Succeeded \<and> r \<in> set (drop cap (newest_first (scope_list j (gc_key r)))) then None else Some r)"
proof -
  let ?V = "all_victims cap (getOperations (Some (terminal_filter True)) j)"
  have k: "keyed j" and i: "op_id r = i" using assms by (auto simp: journal_inv_def keyed_def)
  have sub: "v \<in> succeeded_in j (gc_key v)" if "v \<in> set ?V" for v
  proof -
    from that have "v \<in> set (newest_first (scope_list j (gc_key v)))"
      by (auto simp: all_victims_member scope_list_def dest: in_set_dropD)
    then show ?thesis using scope_list_props [OF assms(1)] by (simp add: newest_first_def)
  qed
  have "i \<in> op_id ` set ?V \<longleftrightarrow> r \<in> set ?V"
  proof
    assume "i \<in> op_id ` set ?V"
    then obtain v where v: "v \<in> set ?V" "op_id v = i" by auto
    with sub obtain i' where "journal_rows j i' = Some v" by (auto simp: succeeded_in_def)
    with k v(2) have "journal_rows j i = Some v" by (auto simp: keyed_def)
    with v(1) assms(3) show "r \<in> set ?V" by simp
  qed (use i in auto)
  moreover have "r \<in> set ?V \<longleftrightarrow> op_stage r = Succeeded \<and> r \<in> set (drop cap (newest_first (scope_list j (gc_key r))))"
  proof -
    have "r \<in> set ?V \<longleftrightarrow> r \<in> set (drop cap (newest_first (scope_list j (gc_key r))))"
      by (simp add: all_victims_member scope_list_def)
    moreover have "op_stage r = Succeeded" if "r \<in> set ?V" using sub [OF that] by (simp add: succeeded_in_def)
    ultimately show ?thesis by blast
  qed
  moreover have "i \<noteq> []" using assms(2,3) by auto
  ultimately show ?thesis using assms(3) by (simp add: gc_sweep_victims rows_deletes)
qed

lemma gc_keeps_newest:
  assumes "journal_inv j" and "journal_rows j [] = None"
  shows "succeeded_in (gc_sweep cap j) k = set (take cap (newest_first (scope_list j k)))"
proof -
  let ?S = "newest_first (scope_list j k)"
  have S: "set ?S = succeeded_in j k" "distinct ?S"
    using scope_list_props [OF assms(1)] by (simp_all add: newest_first_def)
  have sub: "journal_rows j i = Some r" if "journal_rows (gc_sweep cap j) i = Some r" for i r
    using that by (simp add: gc_sweep_victims rows_deletes split: if_splits)
  have "succeeded_in (gc_sweep cap j) k = {r \<in> succeeded_in j k. r \<notin> set (drop cap ?S)}"
  proof (rule set_eqI, rule iffI)
    fix r assume "r \<in> succeeded_in (gc_sweep cap j) k"
    then obtain i where i: "journal_rows (gc_sweep cap j) i = Some r" "op_stage r = Succeeded" "gc_key r = k"
      by (auto simp: succeeded_in_def)
    with gc_rows [OF assms sub [OF i(1)], of cap] sub [OF i(1)] show "r \<in> {r \<in> succeeded_in j k. r \<notin> set (drop cap ?S)}"
      by (auto simp: succeeded_in_def split: if_splits)
  next
    fix r assume r: "r \<in> {r \<in> succeeded_in j k. r \<notin> set (drop cap ?S)}"
    then obtain i where i: "journal_rows j i = Some r" "op_stage r = Succeeded" "gc_key r = k"
      by (auto simp: succeeded_in_def)
    with gc_rows [OF assms i(1), of cap] r show "r \<in> succeeded_in (gc_sweep cap j) k"
      by (auto simp: succeeded_in_def)
  qed
  also have "\<dots> = set ?S - set (drop cap ?S)" by (auto simp: S)
  also have "\<dots> = set (take cap ?S)"
    using S(2) append_take_drop_id [of cap ?S] set_append [of "take cap ?S" "drop cap ?S"] set_take_disj_set_drop_if_distinct [of ?S cap cap]
    by auto
  finally show ?thesis .
qed

section \<open>Lemmas: reaping\<close>

abbreviation reaped :: "time \<Rightarrow> bool \<Rightarrow> time \<Rightarrow> op_record \<Rightarrow> op_record" where
  "reaped now unc t r \<equiv> transitioned t r (PFailed None None None None) (Some (reap_error r (now - op_updatedAt r) unc))"

lemma reap_error_ok: "error_ok (Some (reap_error r age unc))"
  by (simp add: error_ok_def reap_error_def JobErrorSchema_def classifyReapKind_def Let_def)

lemma skip_terminal: "isTerminal (op_stage r) \<Longrightarrow> shouldSkipRecord r age unc bc"
  by (auto simp: shouldSkipRecord_def isTerminal_iff)

lemma reap_checks: "\<not> isTerminal (op_stage r) \<Longrightarrow> transition_checks r (PFailed None None None None) (Some e) = Inr ()"
  by (simp add: transition_checks_allowed transition_allowed_def active_can_fail)

lemma reap_one_rows:
  assumes "journal_rows j (op_id r) = Some r"
  shows "journal_rows (reap_one now unc bc t r j) =
    (if shouldSkipRecord r (now - op_updatedAt r) unc bc then journal_rows j else (journal_rows j)(op_id r \<mapsto> reaped now unc t r))"
proof (cases "shouldSkipRecord r (now - op_updatedAt r) unc bc")
  case False
  then have a: "\<not> isTerminal (op_stage r)" using skip_terminal by blast
  have ok: "OperationRecordSchema (reaped now unc t r)"
    using row_step_schema [OF Row_Transition [OF reap_checks [OF a]] loaded_schema [OF assms]] reap_error_ok by simp
  have "snd (transitionIfStage t (op_id r) [op_stage r] (PFailed None None None None)
      (Some (reap_error r (now - op_updatedAt r) unc)) (if unc then None else Some (op_updatedAt r)) j)
    = write_row (op_id r) (reaped now unc t r) j"
    by (simp add: transitionIfStage_def assms transitionLocked_def reap_checks [OF a] Let_def)
  with ok False show ?thesis by (simp add: reap_one_def Let_def)
qed (simp add: reap_one_def Let_def)

lemma reap_loop_rows:
  assumes "distinct (map op_id rs)" and "\<forall>r\<in>set rs. journal_rows j (op_id r) = Some r"
  shows "journal_rows (reap_loop now unc bc (\<lambda>_. ([], t)) rs j) i =
    (case find (\<lambda>r. op_id r = i) rs of
       None \<Rightarrow> journal_rows j i
     | Some r \<Rightarrow> Some (if shouldSkipRecord r (now - op_updatedAt r) unc bc then r else reaped now unc t r))"
  using assms
proof (induction rs arbitrary: j)
  case (Cons r rs)
  let ?j = "reap_one now unc bc t r j"
  have row: "journal_rows j (op_id r) = Some r" using Cons.prems by simp
  have "\<forall>s\<in>set rs. journal_rows ?j (op_id s) = Some s"
    using Cons.prems by (auto simp: reap_one_rows [OF row] image_iff)
  with Cons.IH [of ?j] Cons.prems(1) have ih: "journal_rows (reap_loop now unc bc (\<lambda>_. ([], t)) rs ?j) i =
    (case find (\<lambda>r. op_id r = i) rs of
       None \<Rightarrow> journal_rows ?j i
     | Some r \<Rightarrow> Some (if shouldSkipRecord r (now - op_updatedAt r) unc bc then r else reaped now unc t r))" by simp
  show ?case
  proof (cases "op_id r = i")
    case True
    with Cons.prems(1) have "find (\<lambda>r. op_id r = i) rs = None" by (auto simp: find_None_iff image_iff)
    with True ih row show ?thesis by (auto simp: reap_one_rows [OF row])
  next
    case False
    with ih show ?thesis by (auto simp: reap_one_rows [OF row] split: option.split)
  qed
qed simp

section \<open>Properties\<close>

text \<open>
  A collection sweep deletes nothing but succeeded records, leaves every other row exactly as it
  was, brings each scope (profile and account) down to the cap when it holds more and leaves it alone
  otherwise, and what it deletes in a scope finished no later than what it keeps there.
\<close>

theorem gc_sweep_bounds:
  assumes "journal_inv j" and "journal_rows j [] = None"
  shows "(\<forall>i r. journal_rows (gc_sweep cap j) i = Some r \<longrightarrow> journal_rows j i = Some r)
    \<and> (\<forall>i r. journal_rows j i = Some r \<and> op_stage r \<noteq> Succeeded \<longrightarrow> journal_rows (gc_sweep cap j) i = Some r)
    \<and> (\<forall>k. card (succeeded_in (gc_sweep cap j) k) = min cap (card (succeeded_in j k)))
    \<and> (\<forall>k v q. v \<in> succeeded_in j k \<and> v \<notin> succeeded_in (gc_sweep cap j) k \<and> q \<in> succeeded_in (gc_sweep cap j) k
          \<longrightarrow> or_else (op_terminalAt v) 0 \<le> or_else (op_terminalAt q) 0)"
proof -
  have S: "set (newest_first (scope_list j k)) = succeeded_in j k" "distinct (newest_first (scope_list j k))" for k
    using scope_list_props [OF assms(1)] by (simp_all add: newest_first_def)
  have "card (succeeded_in (gc_sweep cap j) k) = min cap (card (succeeded_in j k))" for k
  proof -
    have "card (succeeded_in j k) = length (newest_first (scope_list j k))"
      using S [of k] distinct_card by metis
    then show ?thesis unfolding gc_keeps_newest [OF assms] using S(2) [of k] by (simp add: distinct_card)
  qed
  moreover have "or_else (op_terminalAt v) 0 \<le> or_else (op_terminalAt q) 0"
    if "v \<in> succeeded_in j k" "v \<notin> set (take cap (newest_first (scope_list j k)))"
      "q \<in> set (take cap (newest_first (scope_list j k)))" for k v q
  proof -
    let ?S = "newest_first (scope_list j k)"
    have "sorted (map (\<lambda>r. - or_else (op_terminalAt r) 0) (take cap ?S @ drop cap ?S))"
      by (simp add: newest_first_def)
    moreover have "v \<in> set (drop cap ?S)"
      using that(1,2) S(1) [of k] set_append [of "take cap ?S" "drop cap ?S"] by auto
    ultimately show ?thesis using that(3) unfolding map_append sorted_append by auto
  qed
  moreover have "\<forall>i r. journal_rows (gc_sweep cap j) i = Some r \<longrightarrow> journal_rows j i = Some r"
    by (simp add: gc_sweep_victims rows_deletes)
  moreover have "journal_rows (gc_sweep cap j) i = Some r" if "journal_rows j i = Some r" and "op_stage r \<noteq> Succeeded" for i r
    using gc_rows [OF assms that(1)] that(2) by simp
  ultimately show ?thesis unfolding gc_keeps_newest [OF assms] by blast
qed

text \<open>
  A reap pass that nothing interrupts fails exactly the records it should: every record that has
  not ended and is due (at boot, created before the cutoff; otherwise idle for its stage's grace
  period) is failed from its stage with the documented error, every other row is as it was. When other
  calls do run in between, a record whose stage moved since the snapshot, or, in a periodic pass, whose
  time stamp moved, is left alone.
\<close>

theorem reaper_exact:
  assumes "journal_inv j"
  shows "journal_rows (reap now unc bc (\<lambda>_. ([], t)) j) =
      (\<lambda>i. map_option (\<lambda>r. if shouldSkipRecord r (now - op_updatedAt r) unc bc then r else reaped now unc t r) (journal_rows j i))
    \<and> (\<forall>r k. (case journal_rows k (op_id r) of
                None \<Rightarrow> True
              | Some cur \<Rightarrow> op_stage cur \<noteq> op_stage r \<or> (\<not> unc \<and> op_updatedAt cur \<noteq> op_updatedAt r))
          \<longrightarrow> reap_one now unc bc t r k = k)"
proof -
  let ?rs = "getOperations (Some (terminal_filter False)) j"
  have k: "keyed j" using assms by (simp add: journal_inv_def)
  have rs: "set ?rs = {r. (\<exists>i. journal_rows j i = Some r) \<and> op_terminalAt r = None}"
    by (auto simp: getOperations_def set_loadAll [OF k])
  then have a: "\<forall>r\<in>set ?rs. journal_rows j (op_id r) = Some r" using k by (auto simp: keyed_def)
  have "distinct (map op_id ?rs)"
    using distinct_loadAll [OF k] by (auto simp: getOperations_def distinct_map intro: inj_on_subset)
  note loop = reap_loop_rows [OF this a, of now unc bc t]
  have "journal_rows (reap now unc bc (\<lambda>_. ([], t)) j) i =
      map_option (\<lambda>r. if shouldSkipRecord r (now - op_updatedAt r) unc bc then r else reaped now unc t r) (journal_rows j i)" for i
  proof (cases "find (\<lambda>r. op_id r = i) ?rs")
    case None
    have "shouldSkipRecord r (now - op_updatedAt r) unc bc" if r: "journal_rows j i = Some r" for r
    proof -
      from r k have "op_id r = i" by (simp add: keyed_def)
      with None have "r \<notin> set ?rs" by (auto simp: find_None_iff)
      with r have "op_terminalAt r \<noteq> None" unfolding rs by auto
      moreover have "record_inv r" using assms r by (simp add: journal_inv_def)
      ultimately show ?thesis by (intro skip_terminal) (simp add: record_inv_def)
    qed
    with None show ?thesis by (cases "journal_rows j i") (simp_all add: reap_def loop)
  next
    case (Some r)
    then have "r \<in> set ?rs" "op_id r = i" by (auto simp: find_Some_iff)
    with a Some show ?thesis by (auto simp: reap_def loop)
  qed
  moreover have "reap_one now unc bc t r m = m"
    if "case journal_rows m (op_id r) of None \<Rightarrow> True
        | Some cur \<Rightarrow> op_stage cur \<noteq> op_stage r \<or> (\<not> unc \<and> op_updatedAt cur \<noteq> op_updatedAt r)" for r m
    using that by (auto simp: reap_one_def Let_def transitionIfStage_def matches_opt_def split: option.splits)
  ultimately show ?thesis by blast
qed

section \<open>Concrete sweeps\<close>

lemma demo_inv: "journal_inv demo_stored"
  using run_op_inv [of demo_journal demo_create]
  by (simp add: demo_stored_def demo_create_def journal_inv_def keyed_def demo_journal_def loadValidated_def journal_storage_def ps_get_eq)

lemma demo_no_empty_id: "journal_rows demo_stored [] = None"
  by (simp add: demo_stored_eq loadValidated_def journal_storage_def ps_get_eq) (simp add: row_key_def plain_storage_def)

theorem gc_sweep_bounds_witness:
  "journal_rows (gc_sweep DEFAULT_TERMINAL_CAP_PER_SCOPE demo_stored) ''a'' = Some (new_record 1 ''a'' demo_input)"
proof -
  have "op_stage (new_record 1 ''a'' demo_input) \<noteq> Succeeded" by (simp add: new_record_def demo_input_def)
  then show ?thesis using gc_sweep_bounds [OF demo_inv demo_no_empty_id] demo_row by blast
qed

theorem reaper_exact_witness:
  "map_option op_stage (journal_rows (reap 50 True (Some 10) (\<lambda>_. ([], 50)) demo_stored) ''a'') = Some Failed
   \<and> map_option op_stage (journal_rows (reap 50 True (Some 1) (\<lambda>_. ([], 50)) demo_stored) ''a'') = Some Pending"
  using reaper_exact [OF demo_inv, of 50 True "Some 10" 50] reaper_exact [OF demo_inv, of 50 True "Some 1" 50]
  by (simp add: demo_row) (simp add: shouldSkipRecord_def new_record_def demo_input_def transitioned_def)

end
