(* ===== verification/Send_Check.thy ===== *)
theory Send_Check
  imports Journal_Sweeps
begin

text \<open>
  The follow-up on failed sends (\<^verbatim>\<open>operation-journal/send-check.ts\<close>, with
  \<^verbatim>\<open>transaction/receipt-status.ts\<close>): which rows are watched, when they are read, what the node's receipt
  means and when an answer is recorded. A read runs in pieces between its awaits; each piece is one
  step of a system in which journal calls, ticks, stops and other reads interleave. What the node and
  the profile fence answer is an argument of the step. Watches are JavaScript objects compared by
  identity, so each carries a fresh reference.
\<close>

section \<open>Receipts (receipt-status.ts)\<close>

datatype aztec_status = APending | ADropped | AProposed | ACheckpointed | AProven | AFinalized | AOtherStatus

datatype aztec_result = ASuccess | AReverted | AOtherResult

datatype tx_status = TxPending | TxDropped | TxProposed | TxCheckpointed | TxProven | TxFinalized

datatype tx_execution_result = ExSuccess | ExAppLogicReverted | ExTeardownReverted | ExBothReverted

fun txStatusFromReceipt :: "aztec_status \<Rightarrow> tx_status option" where
  "txStatusFromReceipt APending = Some TxPending"
| "txStatusFromReceipt ADropped = Some TxDropped"
| "txStatusFromReceipt AProposed = Some TxProposed"
| "txStatusFromReceipt ACheckpointed = Some TxCheckpointed"
| "txStatusFromReceipt AProven = Some TxProven"
| "txStatusFromReceipt AFinalized = Some TxFinalized"
| "txStatusFromReceipt AOtherStatus = None"

fun executionResultFromReceipt :: "aztec_result option \<Rightarrow> tx_execution_result option" where
  "executionResultFromReceipt None = None"
| "executionResultFromReceipt (Some ASuccess) = Some ExSuccess"
| "executionResultFromReceipt (Some AReverted) = Some ExAppLogicReverted"
| "executionResultFromReceipt (Some AOtherResult) = None"

record tx_receipt =
  rc_status :: aztec_status
  rc_executionResult :: "aztec_result option"

definition MINED :: "tx_status list" where
  "MINED = [TxProposed, TxCheckpointed, TxProven, TxFinalized]"

definition verdictOf :: "tx_receipt \<Rightarrow> send_check_outcome option" where
  "verdictOf receipt =
     (case txStatusFromReceipt (rc_status receipt) of
        None \<Rightarrow> None
      | Some status \<Rightarrow>
          if status \<notin> set MINED then None
          else Some (if executionResultFromReceipt (rc_executionResult receipt) = Some ExSuccess then CheckSent else CheckReverted))"

section \<open>Watches\<close>

definition SEND_CHECK_TICK_MS :: time where "SEND_CHECK_TICK_MS = 5000"

definition SEND_CHECK_FAST_WINDOW_MS :: time where "SEND_CHECK_FAST_WINDOW_MS = 2 * 60000"

definition DROPPED_RESURRECTION_WINDOW_MS :: time where "DROPPED_RESURRECTION_WINDOW_MS = 30 * 60000"

definition DROPPED_RECHECK_INTERVAL_MS :: time where "DROPPED_RECHECK_INTERVAL_MS = 15000"

record watch =
  w_id :: string
  w_profileId :: string
  w_txHash :: string
  w_url :: "string option"
  w_terminalAt :: time
  w_nextAt :: time
  w_inFlight :: bool
  w_ref :: nat

record send_check =
  sc_watches :: "(string, watch) jsmap"
  sc_generation :: nat
  sc_fresh :: nat

definition unanswered :: "op_record \<Rightarrow> (string \<times> string option) option" where
  "unanswered r =
     (case op_progress r of
        PFailed _ (Some h) u None \<Rightarrow> if h = [] \<or> \<not> isSendCheckable r then None else Some (h, u)
      | _ \<Rightarrow> None)"

definition nextReadAt :: "time \<Rightarrow> time \<Rightarrow> time" where
  "nextReadAt terminalAt now =
     now + (if now - terminalAt < SEND_CHECK_FAST_WINDOW_MS then SEND_CHECK_TICK_MS else DROPPED_RECHECK_INTERVAL_MS)"

definition sc_watch :: "time \<Rightarrow> op_record \<Rightarrow> send_check \<Rightarrow> send_check" where
  "sc_watch now r sc =
     (case unanswered r of
        None \<Rightarrow> sc
      | Some (h, u) \<Rightarrow>
          if js_has (sc_watches sc) (op_id r) then sc
          else sc\<lparr>sc_watches := js_set (op_id r)
                   \<lparr>w_id = op_id r, w_profileId = op_profileId r, w_txHash = h, w_url = u,
                    w_terminalAt = or_else (op_terminalAt r) now, w_nextAt = now, w_inFlight = False, w_ref = sc_fresh sc\<rparr>
                   (sc_watches sc),
                 sc_fresh := sc_fresh sc + 1\<rparr>)"

definition is_watched :: "send_check \<Rightarrow> watch \<Rightarrow> bool" where
  "is_watched sc w = (map_option w_ref (js_get (sc_watches sc) (w_id w)) = Some (w_ref w))"

definition unwatch :: "watch \<Rightarrow> send_check \<Rightarrow> send_check" where
  "unwatch w sc = (if is_watched sc w then sc\<lparr>sc_watches := js_del (w_id w) (sc_watches sc)\<rparr> else sc)"

text \<open>A write to a field of the watch object, seen through the map when the object is still there.\<close>

definition set_watch :: "watch \<Rightarrow> (watch \<Rightarrow> watch) \<Rightarrow> send_check \<Rightarrow> send_check" where
  "set_watch w f sc =
     (case js_get (sc_watches sc) (w_id w) of
        Some cur \<Rightarrow> if w_ref cur = w_ref w then sc\<lparr>sc_watches := js_set (w_id w) (f cur) (sc_watches sc)\<rparr> else sc
      | None \<Rightarrow> sc)"

definition sc_onDeleted :: "op_record \<Rightarrow> send_check \<Rightarrow> send_check" where
  "sc_onDeleted r sc = sc\<lparr>sc_watches := js_del (op_id r) (sc_watches sc)\<rparr>"

definition sc_stop :: "send_check \<Rightarrow> send_check" where
  "sc_stop sc = sc\<lparr>sc_generation := sc_generation sc + 1, sc_watches := []\<rparr>"

definition failed_filter :: operation_filter where
  "failed_filter = empty_filter\<lparr>of_stage := Some Failed\<rparr>"

text \<open>The tail of \<^verbatim>\<open>start()\<close>, once the failed rows are loaded.\<close>

definition sc_start_load :: "time \<Rightarrow> nat \<Rightarrow> op_record list \<Rightarrow> send_check \<Rightarrow> send_check" where
  "sc_start_load now generation failed sc =
     (if generation \<noteq> sc_generation sc then sc else fold (sc_watch now) failed sc)"

section \<open>Reads\<close>

text \<open>Where a read waits: for the row, for the node, for the receipt, for the journal's write.\<close>

datatype read_phase = AwaitRow | AwaitNode op_record | AwaitReceipt op_record | AwaitWrite op_record send_check_outcome

record reading =
  rd_watch :: watch
  rd_generation :: nat
  rd_now :: time
  rd_phase :: read_phase

definition due :: "string \<Rightarrow> time \<Rightarrow> watch \<Rightarrow> bool" where
  "due profile now w = (\<not> (w_inFlight w \<or> now < w_nextAt w \<or> w_profileId w \<noteq> profile))"

text \<open>The part of a tick after the fence was captured: each due watch starts a read.\<close>

definition sc_tick :: "string \<Rightarrow> time \<Rightarrow> nat \<Rightarrow> send_check \<Rightarrow> send_check \<times> reading list" where
  "sc_tick profile now generation sc =
     (let picked = filter (due profile now) (map snd (sc_watches sc))
      in (fold (\<lambda>w. set_watch w (\<lambda>x. x\<lparr>w_inFlight := True\<rparr>)) picked sc,
          map (\<lambda>w. \<lparr>rd_watch = w, rd_generation = generation, rd_now = now, rd_phase = AwaitRow\<rparr>) picked))"

definition live :: "bool \<Rightarrow> send_check \<Rightarrow> reading \<Rightarrow> bool" where
  "live fenceLive sc rd = (fenceLive \<and> rd_generation rd = sc_generation sc \<and> is_watched sc (rd_watch rd))"

text \<open>The \<^verbatim>\<open>finally\<close> of a read, and its \<^verbatim>\<open>catch\<close>.\<close>

definition finish_read :: "reading \<Rightarrow> send_check \<Rightarrow> send_check" where
  "finish_read rd sc = set_watch (rd_watch rd) (\<lambda>x. x\<lparr>w_inFlight := False\<rparr>) sc"

definition postpone :: "reading \<Rightarrow> send_check \<Rightarrow> send_check" where
  "postpone rd sc = set_watch (rd_watch rd) (\<lambda>x. x\<lparr>w_nextAt := nextReadAt (w_terminalAt x) (rd_now rd)\<rparr>) sc"

definition read_failed :: "reading \<Rightarrow> send_check \<Rightarrow> send_check" where
  "read_failed rd sc = finish_read rd (postpone rd sc)"

text \<open>A step of a read yields the new state and the read's next phase, if it goes on.\<close>

definition decide ::
  "bool \<Rightarrow> reading \<Rightarrow> op_record \<Rightarrow> send_check_outcome option \<Rightarrow> send_check \<Rightarrow> send_check \<times> read_phase option" where
  "decide fenceLive rd r verdict sc =
     (if \<not> live fenceLive sc rd then (finish_read rd sc, None)
      else let w = rd_watch rd;
               isLast = (w_url w = None \<or> rd_now rd - w_terminalAt w \<ge> DROPPED_RESURRECTION_WINDOW_MS)
           in case (if verdict \<noteq> None then verdict else if isLast then Some CheckUnconfirmed else None) of
                None \<Rightarrow> (finish_read rd (postpone rd sc), None)
              | Some check \<Rightarrow> (sc, Some (AwaitWrite r check)))"

definition read_row :: "bool \<Rightarrow> reading \<Rightarrow> op_record option \<Rightarrow> send_check \<Rightarrow> send_check \<times> read_phase option" where
  "read_row fenceLive rd row sc =
     (case row of
        None \<Rightarrow> (finish_read rd (unwatch (rd_watch rd) sc), None)
      | Some r \<Rightarrow>
          if map_option fst (unanswered r) \<noteq> Some (w_txHash (rd_watch rd)) then (finish_read rd (unwatch (rd_watch rd) sc), None)
          else if w_url (rd_watch rd) = None then decide fenceLive rd r None sc
          else if \<not> live fenceLive sc rd then decide fenceLive rd r None sc
          else (sc, Some (AwaitNode r)))"

definition read_node :: "bool \<Rightarrow> reading \<Rightarrow> op_record \<Rightarrow> send_check \<Rightarrow> send_check \<times> read_phase option" where
  "read_node fenceLive rd r sc =
     (if \<not> live fenceLive sc rd then decide fenceLive rd r None sc else (sc, Some (AwaitReceipt r)))"

definition read_receipt :: "bool \<Rightarrow> reading \<Rightarrow> op_record \<Rightarrow> tx_receipt option \<Rightarrow> send_check \<Rightarrow> send_check \<times> read_phase option" where
  "read_receipt fenceLive rd r receipt sc =
     decide fenceLive rd r (case receipt of None \<Rightarrow> None | Some x \<Rightarrow> verdictOf x) sc"

text \<open>
  The write and the tail of \<^verbatim>\<open>record\<close>: on success the row is no longer watched and the account whose
  balances are refreshed is returned.
\<close>

definition read_write ::
  "bool \<Rightarrow> time \<Rightarrow> reading \<Rightarrow> op_record \<Rightarrow> send_check_outcome \<Rightarrow> send_check \<Rightarrow> journal \<Rightarrow> send_check \<times> journal \<times> string option" where
  "read_write fenceLive now rd r check sc j =
     (case setSendCheck now (w_id (rd_watch rd)) (w_txHash (rd_watch rd)) check (live fenceLive sc rd) j of
        (False, j') \<Rightarrow> (finish_read rd sc, j', None)
      | (True, j') \<Rightarrow>
          (finish_read rd (unwatch (rd_watch rd) sc), j',
           if check \<noteq> CheckUnconfirmed \<and> live fenceLive sc rd then op_accountAddress r else None))"

section \<open>The system of reads and journal calls\<close>

record sc_system =
  sy_sc :: send_check
  sy_reads :: "reading list"
  sy_journal :: journal
  sy_listening :: bool
  sy_receipts :: "(nat \<times> string \<times> tx_receipt) list"

text \<open>
  The listeners on the journal. The receipts field records what the nodes answered, for the
  statements only.
\<close>

fun handle_event :: "time \<Rightarrow> journal_event \<Rightarrow> send_check \<Rightarrow> send_check" where
  "handle_event now (OperationUpdated r) sc = sc_watch now r sc"
| "handle_event now (OperationDeleted r) sc = sc_onDeleted r sc"
| "handle_event now (OperationAdded r) sc = sc"

definition new_events :: "journal \<Rightarrow> journal \<Rightarrow> journal_event list" where
  "new_events j j' = drop (length (jl_events j)) (jl_events j')"

fun go_on :: "reading \<Rightarrow> read_phase option \<Rightarrow> reading list" where
  "go_on rd None = []"
| "go_on rd (Some p) = [rd\<lparr>rd_phase := p\<rparr>]"

inductive sc_step :: "sc_system \<Rightarrow> sc_system \<Rightarrow> bool" where
  Sc_Start: "sc_step s (s\<lparr>sy_listening := True\<rparr>)"
| Sc_Load: "sc_step s (s\<lparr>sy_sc := sc_start_load now gen (getOperations (Some failed_filter) (sy_journal s)) (sy_sc s)\<rparr>)"
| Sc_Stop: "sc_step s (s\<lparr>sy_sc := sc_stop (sy_sc s), sy_listening := False\<rparr>)"
| Sc_Journal: "sc_step s (s\<lparr>sy_journal := run_op c (sy_journal s),
    sy_sc := (if sy_listening s then fold (handle_event now) (new_events (sy_journal s) (run_op c (sy_journal s))) (sy_sc s) else sy_sc s)\<rparr>)"
| Sc_Tick: "sc_tick profile now gen (sy_sc s) = (sc', started) \<Longrightarrow> sc_step s (s\<lparr>sy_sc := sc', sy_reads := sy_reads s @ started\<rparr>)"
| Sc_Row: "sy_reads s = pre @ rd # post \<Longrightarrow> rd_phase rd = AwaitRow \<Longrightarrow>
    read_row fl rd (loadValidated (jl_area (sy_journal s)) (w_id (rd_watch rd))) (sy_sc s) = (sc', p) \<Longrightarrow>
    sc_step s (s\<lparr>sy_sc := sc', sy_reads := pre @ go_on rd p @ post\<rparr>)"
| Sc_Node: "sy_reads s = pre @ rd # post \<Longrightarrow> rd_phase rd = AwaitNode r \<Longrightarrow> read_node fl rd r (sy_sc s) = (sc', p) \<Longrightarrow>
    sc_step s (s\<lparr>sy_sc := sc', sy_reads := pre @ go_on rd p @ post\<rparr>)"
| Sc_Receipt: "sy_reads s = pre @ rd # post \<Longrightarrow> rd_phase rd = AwaitReceipt r \<Longrightarrow> w_url (rd_watch rd) = Some url \<Longrightarrow>
    read_receipt fl rd r receipt (sy_sc s) = (sc', p) \<Longrightarrow>
    sc_step s (s\<lparr>sy_sc := sc', sy_reads := pre @ go_on rd p @ post,
      sy_receipts := sy_receipts s @ (case receipt of None \<Rightarrow> [] | Some x \<Rightarrow> [(w_ref (rd_watch rd), url, x)])\<rparr>)"
| Sc_Throw: "sy_reads s = pre @ rd # post \<Longrightarrow> rd_phase rd = AwaitRow \<or> rd_phase rd = AwaitNode r \<Longrightarrow>
    sc_step s (s\<lparr>sy_sc := read_failed rd (sy_sc s), sy_reads := pre @ post\<rparr>)"
| Sc_Write: "sy_reads s = pre @ rd # post \<Longrightarrow> rd_phase rd = AwaitWrite r c \<Longrightarrow>
    read_write fl now rd r c (sy_sc s) (sy_journal s) = (sc', j', refresh) \<Longrightarrow>
    sc_step s (s\<lparr>sy_sc := sc', sy_journal := j', sy_reads := pre @ post\<rparr>)"

inductive_cases sc_stepE: "sc_step s s'"

definition sc_boot :: "journal \<Rightarrow> sc_system" where
  "sc_boot j = \<lparr>sy_sc = \<lparr>sc_watches = [], sc_generation = 0, sc_fresh = 0\<rparr>, sy_reads = [], sy_journal = j,
     sy_listening = False, sy_receipts = []\<rparr>"

section \<open>Invariants\<close>

abbreviation rd_ref :: "reading \<Rightarrow> nat" where
  "rd_ref rd \<equiv> w_ref (rd_watch rd)"

abbreviation watch_at :: "send_check \<Rightarrow> string \<Rightarrow> watch option" where
  "watch_at sc i \<equiv> js_get (sc_watches sc) i"

definition watches_ok :: "send_check \<Rightarrow> bool" where
  "watches_ok sc =
     (distinct (js_keys (sc_watches sc))
      \<and> (\<forall>i w. watch_at sc i = Some w \<longrightarrow> w_id w = i \<and> w_ref w < sc_fresh sc)
      \<and> (\<forall>i w k v. watch_at sc i = Some w \<and> watch_at sc k = Some v \<and> w_ref w = w_ref v \<longrightarrow> i = k))"

text \<open>A watch is marked in flight exactly while one read of it runs.\<close>

definition reads_ok :: "send_check \<Rightarrow> reading list \<Rightarrow> bool" where
  "reads_ok sc rs =
     (distinct (map rd_ref rs) \<and> (\<forall>rd\<in>set rs. rd_ref rd < sc_fresh sc)
      \<and> (\<forall>rd\<in>set rs. \<forall>i w. watch_at sc i = Some w \<and> w_ref w = rd_ref rd \<longrightarrow> w_id (rd_watch rd) = i)
      \<and> (\<forall>i w. watch_at sc i = Some w \<longrightarrow> w_inFlight w = (w_ref w \<in> rd_ref ` set rs)))"

definition justified :: "(nat \<times> string \<times> tx_receipt) list \<Rightarrow> reading \<Rightarrow> send_check_outcome \<Rightarrow> bool" where
  "justified log rd c =
     ((\<exists>url x. w_url (rd_watch rd) = Some url \<and> (rd_ref rd, url, x) \<in> set log \<and> verdictOf x = Some c)
      \<or> (c = CheckUnconfirmed
         \<and> (w_url (rd_watch rd) = None \<or> rd_now rd - w_terminalAt (rd_watch rd) \<ge> DROPPED_RESURRECTION_WINDOW_MS)))"

lemma watches_okD: "watches_ok sc \<Longrightarrow> watch_at sc i = Some w \<Longrightarrow> w_id w = i \<and> w_ref w < sc_fresh sc"
  by (simp add: watches_ok_def)

lemma watches_ok_inj:
  "watches_ok sc \<Longrightarrow> watch_at sc i = Some w \<Longrightarrow> watch_at sc k = Some v \<Longrightarrow> w_ref w = w_ref v \<Longrightarrow> i = k \<and> w = v"
  unfolding watches_ok_def by (metis option.inject)

lemma unanswered_with_check: "unanswered (r\<lparr>op_progress := PFailed f h u (Some c), op_updatedAt := t\<rparr>) = None"
  by (simp add: unanswered_def split: option.split)

lemma watches_ok_watch: "watches_ok sc \<Longrightarrow> watches_ok (sc_watch now r sc)"
  by (force simp: watches_ok_def sc_watch_def js_get_set distinct_update less_Suc_eq split: option.split prod.split if_splits)

lemma reads_ok_watch: "watches_ok sc \<Longrightarrow> reads_ok sc rs \<Longrightarrow> reads_ok (sc_watch now r sc) rs"
  by (force simp: reads_ok_def sc_watch_def js_get_set less_Suc_eq split: option.split prod.split if_splits)

lemma ok_del:
  assumes "watches_ok sc" and "reads_ok sc rs"
  shows "watches_ok (sc\<lparr>sc_watches := js_del i (sc_watches sc)\<rparr>) \<and> reads_ok (sc\<lparr>sc_watches := js_del i (sc_watches sc)\<rparr>) rs"
  using assms by (auto simp: watches_ok_def reads_ok_def js_get_del distinct_delete split: if_splits)

lemma ok_unwatch: "watches_ok sc \<Longrightarrow> reads_ok sc rs \<Longrightarrow> watches_ok (unwatch w sc) \<and> reads_ok (unwatch w sc) rs"
  using ok_del by (simp add: unwatch_def)

text \<open>Writes to fields other than the identifying ones and the flag.\<close>

lemma set_watch_at:
  "watch_at (set_watch w f sc) i =
     (case watch_at sc i of
        None \<Rightarrow> None
      | Some cur \<Rightarrow> Some (if i = w_id w \<and> w_ref cur = w_ref w then f cur else cur))"
  by (auto simp: set_watch_def js_get_set split: option.split)

lemma set_watch_simps [simp]:
  "sc_fresh (set_watch w f sc) = sc_fresh sc" "sc_generation (set_watch w f sc) = sc_generation sc"
  "distinct (js_keys (sc_watches sc)) \<Longrightarrow> distinct (js_keys (sc_watches (set_watch w f sc)))"
  by (simp_all add: set_watch_def distinct_update split: option.split)

lemma watches_ok_set:
  assumes "watches_ok sc" and "\<And>x. w_id (f x) = w_id x \<and> w_ref (f x) = w_ref x"
  shows "watches_ok (set_watch w f sc)"
proof -
  have old: "\<exists>v. watch_at sc i = Some v \<and> w_id v = w_id x \<and> w_ref v = w_ref x" if "watch_at (set_watch w f sc) i = Some x" for i x
    using that assms(2) by (auto simp: set_watch_at split: option.splits if_splits)
  have "i = k" if a: "watch_at (set_watch w f sc) i = Some x" "watch_at (set_watch w f sc) k = Some y" "w_ref x = w_ref y" for i k x y
  proof -
    from old [OF a(1)] old [OF a(2)] a(3) obtain u v where "watch_at sc i = Some u" "watch_at sc k = Some v" "w_ref u = w_ref v" by auto
    with assms(1) show ?thesis by (simp add: watches_ok_def)
  qed
  moreover have "w_id x = i \<and> w_ref x < sc_fresh sc" if "watch_at (set_watch w f sc) i = Some x" for i x
  proof -
    from old [OF that] obtain v where v: "watch_at sc i = Some v" "w_id v = w_id x" "w_ref v = w_ref x" by auto
    from watches_okD [OF assms(1) v(1)] v(2,3) show ?thesis by simp
  qed
  ultimately show ?thesis using assms(1) unfolding watches_ok_def by simp
qed

lemma reads_ok_postpone: "reads_ok sc rs \<Longrightarrow> reads_ok (postpone rd sc) rs"
  unfolding reads_ok_def postpone_def set_watch_at by (auto split: option.splits if_splits)

lemma reads_ok_finish:
  assumes "watches_ok sc" and "reads_ok sc (pre @ rd # post)"
  shows "reads_ok (finish_read rd sc) (pre @ post)"
proof -
  have flag: "w_inFlight w = (w_ref w \<in> rd_ref ` set (pre @ post))"
    if w: "watch_at (finish_read rd sc) i = Some w" for i w
  proof -
    from w obtain v where v: "watch_at sc i = Some v" "w = (if i = w_id (rd_watch rd) \<and> w_ref v = rd_ref rd then v\<lparr>w_inFlight := False\<rparr> else v)"
      by (auto simp: finish_read_def set_watch_at split: option.splits)
    show ?thesis
    proof (cases "w_ref v = rd_ref rd")
      case True
      with assms(2) v(1) have "i = w_id (rd_watch rd)" by (auto simp: reads_ok_def)
      with v True assms(2) show ?thesis by (auto simp: reads_ok_def)
    next
      case False
      with v assms(2) show ?thesis by (auto simp: reads_ok_def)
    qed
  qed
  have "w_id (rd_watch x) = i" if "x \<in> set (pre @ post)" "watch_at (finish_read rd sc) i = Some w" "w_ref w = rd_ref x" for x i w
  proof -
    from that obtain v where "watch_at sc i = Some v" "w_ref v = rd_ref x"
      by (auto simp: finish_read_def set_watch_at split: option.splits if_splits)
    with that(1) assms(2) show ?thesis by (auto simp: reads_ok_def)
  qed
  moreover have "distinct (map rd_ref (pre @ post))" "\<forall>x\<in>set (pre @ post). rd_ref x < sc_fresh (finish_read rd sc)"
    using assms(2) by (auto simp: reads_ok_def finish_read_def)
  ultimately show ?thesis unfolding reads_ok_def using flag by blast
qed

lemma watches_ok_finish: "watches_ok sc \<Longrightarrow> watches_ok (finish_read rd sc)"
  by (simp add: finish_read_def watches_ok_set)

lemma watches_ok_postpone: "watches_ok sc \<Longrightarrow> watches_ok (postpone rd sc)"
  by (simp add: postpone_def watches_ok_set)

lemma reads_ok_phase: "reads_ok sc (pre @ rd # post) \<Longrightarrow> reads_ok sc (pre @ rd\<lparr>rd_phase := p\<rparr> # post)"
  by (simp add: reads_ok_def)

text \<open>What a step of a read may leave behind.\<close>

definition read_ok :: "reading list \<Rightarrow> reading \<Rightarrow> reading list \<Rightarrow> send_check \<times> read_phase option \<Rightarrow> bool" where
  "read_ok pre rd post out = (watches_ok (fst out) \<and> reads_ok (fst out) (pre @ go_on rd (snd out) @ post))"

lemma read_ok_stop:
  "watches_ok sc \<Longrightarrow> reads_ok sc (pre @ rd # post) \<Longrightarrow> read_ok pre rd post (finish_read rd sc, None)"
  by (simp add: read_ok_def watches_ok_finish reads_ok_finish)

lemma read_ok_continue:
  "watches_ok sc \<Longrightarrow> reads_ok sc (pre @ rd # post) \<Longrightarrow> read_ok pre rd post (sc, Some p)"
  by (simp add: read_ok_def reads_ok_phase)

lemma read_ok_decide:
  assumes "watches_ok sc" and "reads_ok sc (pre @ rd # post)"
  shows "read_ok pre rd post (decide fl rd r v sc)"
proof -
  have "read_ok pre rd post (finish_read rd (postpone rd sc), None)"
    using assms by (intro read_ok_stop watches_ok_postpone reads_ok_postpone)
  with read_ok_stop [OF assms] read_ok_continue [OF assms] show ?thesis
    by (simp add: decide_def Let_def split: option.split)
qed

lemma read_ok_row:
  assumes "watches_ok sc" and "reads_ok sc (pre @ rd # post)"
  shows "read_ok pre rd post (read_row fl rd row sc)"
proof -
  have "read_ok pre rd post (finish_read rd (unwatch (rd_watch rd) sc), None)"
    using ok_unwatch [OF assms] by (intro read_ok_stop) auto
  with read_ok_decide [OF assms] read_ok_continue [OF assms] show ?thesis
    by (simp add: read_row_def split: option.split)
qed

section \<open>Ticks\<close>

abbreviation mark :: "watch \<Rightarrow> watch" where
  "mark x \<equiv> x\<lparr>w_inFlight := True\<rparr>"

lemma mark_all_at:
  "watch_at (fold (\<lambda>w. set_watch w mark) ws sc) i =
     (case watch_at sc i of
        None \<Rightarrow> None
      | Some v \<Rightarrow> Some (if \<exists>w\<in>set ws. w_id w = i \<and> w_ref w = w_ref v then mark v else v))"
proof (induction ws arbitrary: sc)
  case (Cons w ws)
  then show ?case by (auto simp: set_watch_at split: option.split)
qed (simp split: option.split)

lemma mark_all_fresh: "sc_fresh (fold (\<lambda>w. set_watch w mark) ws sc) = sc_fresh sc"
  by (induction ws arbitrary: sc) simp_all

lemma mark_all_ok: "watches_ok sc \<Longrightarrow> watches_ok (fold (\<lambda>w. set_watch w mark) ws sc)"
  by (induction ws arbitrary: sc) (simp_all add: watches_ok_set)

lemma watch_values:
  assumes "watches_ok sc"
  shows "w \<in> set (map snd (sc_watches sc)) \<longleftrightarrow> watch_at sc (w_id w) = Some w"
proof -
  have d: "distinct (js_keys (sc_watches sc))" using assms by (simp add: watches_ok_def)
  have "w \<in> set (map snd (sc_watches sc)) \<longleftrightarrow> (\<exists>i. (i, w) \<in> set (sc_watches sc))" by force
  also have "\<dots> \<longleftrightarrow> (\<exists>i. watch_at sc i = Some w)" by (simp add: map_of_eq_Some_iff [OF d])
  also have "\<dots> \<longleftrightarrow> watch_at sc (w_id w) = Some w" using assms unfolding watches_ok_def by blast
  finally show ?thesis .
qed

lemma distinct_refs:
  assumes "watches_ok sc"
  shows "distinct (map w_ref (map snd (sc_watches sc)))"
proof -
  have d: "distinct (js_keys (sc_watches sc))" using assms by (simp add: watches_ok_def)
  have "inj_on (w_ref \<circ> snd) (set (sc_watches sc))"
  proof (rule inj_onI)
    fix p q assume p: "p \<in> set (sc_watches sc)" "q \<in> set (sc_watches sc)" "(w_ref \<circ> snd) p = (w_ref \<circ> snd) q"
    then have "watch_at sc (fst p) = Some (snd p)" "watch_at sc (fst q) = Some (snd q)"
      using map_of_eq_Some_iff [OF d] by auto
    from watches_ok_inj [OF assms this] p(3) show "p = q" by (simp add: prod_eq_iff)
  qed
  moreover have "distinct (sc_watches sc)" using d by (simp add: distinct_map)
  ultimately have "distinct (map (w_ref \<circ> snd) (sc_watches sc))" unfolding distinct_map by simp
  then show ?thesis by simp
qed

text \<open>Starting reads for some idle watches of the map keeps the flags in step with the reads.\<close>

lemma ok_mark_all:
  assumes w: "watches_ok sc" and r: "reads_ok sc rs" and st: "map rd_watch started = ws" and d: "distinct (map w_ref ws)"
    and at: "\<And>x. x \<in> set ws \<Longrightarrow> watch_at sc (w_id x) = Some x" and idle: "\<And>x. x \<in> set ws \<Longrightarrow> \<not> w_inFlight x"
  shows "reads_ok (fold (\<lambda>x. set_watch x mark) ws sc) (rs @ started)"
proof -
  let ?sc = "fold (\<lambda>x. set_watch x mark) ws sc"
  have map_refs: "map rd_ref started = map w_ref ws" unfolding st [symmetric] by simp
  then have refs: "rd_ref ` set started = w_ref ` set ws" by (metis list.set_map)
  have fresh: "w_ref x \<notin> rd_ref ` set rs" if "x \<in> set ws" for x
    using r at [OF that] idle [OF that] by (auto simp: reads_ok_def)
  have same: "x = v" if "x \<in> set ws" "watch_at sc i = Some v" "w_ref x = w_ref v" for x v i
    using watches_ok_inj [OF w at [OF that(1)] that(2,3)] by simp
  have old: "\<exists>v. watch_at sc i = Some v \<and> w_ref v = w_ref x \<and> (w_inFlight x \<longleftrightarrow> w_inFlight v \<or> v \<in> set ws)"
    if x: "watch_at ?sc i = Some x" for i x
  proof -
    from x obtain v where v: "watch_at sc i = Some v" by (cases "watch_at sc i") (simp_all add: mark_all_at)
    have "(\<exists>u\<in>set ws. w_id u = i \<and> w_ref u = w_ref v) \<longleftrightarrow> v \<in> set ws"
      using same [OF _ v] watches_okD [OF w v] by auto
    with x v show ?thesis by (auto simp: mark_all_at split: if_splits)
  qed
  have "w_inFlight x = (w_ref x \<in> rd_ref ` set (rs @ started))" if x: "watch_at ?sc i = Some x" for i x
  proof -
    from old [OF x] obtain v where v: "watch_at sc i = Some v" "w_ref v = w_ref x" "w_inFlight x \<longleftrightarrow> w_inFlight v \<or> v \<in> set ws" by blast
    have "w_inFlight v \<longleftrightarrow> w_ref v \<in> rd_ref ` set rs" using r v(1) by (simp add: reads_ok_def)
    moreover have "v \<in> set ws \<longleftrightarrow> w_ref v \<in> w_ref ` set ws" using same [OF _ v(1)] by auto
    ultimately show ?thesis using v(2,3) refs by (simp add: image_Un)
  qed
  moreover have "w_id (rd_watch rd) = i" if "rd \<in> set (rs @ started)" "watch_at ?sc i = Some x" "w_ref x = rd_ref rd" for rd i x
  proof -
    from old [OF that(2)] that(3) obtain v where v: "watch_at sc i = Some v" "w_ref v = rd_ref rd" by auto
    show ?thesis
    proof (cases "rd \<in> set rs")
      case True
      with v r show ?thesis by (auto simp: reads_ok_def)
    next
      case False
      with that(1) have "rd_watch rd \<in> set ws" unfolding st [symmetric] by simp
      from same [OF this v(1)] v(2) watches_okD [OF w v(1)] show ?thesis by simp
    qed
  qed
  moreover have "distinct (map rd_ref (rs @ started))"
  proof -
    have "rd_ref ` set rs \<inter> w_ref ` set ws = {}" using fresh by (auto simp: disjoint_iff) (metis imageI)
    with r d map_refs show ?thesis by (simp add: reads_ok_def)
  qed
  moreover have "rd_ref rd < sc_fresh ?sc" if "rd \<in> set (rs @ started)" for rd
  proof (cases "rd \<in> set rs")
    case True
    with r show ?thesis by (simp add: reads_ok_def mark_all_fresh)
  next
    case False
    with that have "rd_watch rd \<in> set ws" unfolding st [symmetric] by simp
    from watches_okD [OF w at [OF this]] show ?thesis by (simp add: mark_all_fresh)
  qed
  ultimately show ?thesis unfolding reads_ok_def by blast
qed

lemma ok_tick:
  assumes "watches_ok sc" and "reads_ok sc rs" and "sc_tick profile now gen sc = (sc', started)"
  shows "watches_ok sc' \<and> reads_ok sc' (rs @ started) \<and> (\<forall>rd\<in>set started. rd_phase rd = AwaitRow)"
proof -
  define ws where "ws = filter (due profile now) (map snd (sc_watches sc))"
  have sc': "sc' = fold (\<lambda>w. set_watch w mark) ws sc" and st: "map rd_watch started = ws" "\<forall>rd\<in>set started. rd_phase rd = AwaitRow"
    using assms(3) by (auto simp: sc_tick_def Let_def comp_def ws_def)
  have "distinct (map w_ref ws)" unfolding ws_def by (rule distinct_map_filter [OF distinct_refs [OF assms(1)]])
  moreover have "watch_at sc (w_id x) = Some x" "\<not> w_inFlight x" if "x \<in> set ws" for x
    using that watch_values [OF assms(1), of x] by (auto simp: ws_def due_def)
  ultimately show ?thesis
    using mark_all_ok [OF assms(1), of ws] ok_mark_all [OF assms(1,2) st(1)] st(2) by (simp add: sc')
qed

section \<open>Reachable systems\<close>

definition sc_inv :: "sc_system \<Rightarrow> bool" where
  "sc_inv s =
     (watches_ok (sy_sc s) \<and> reads_ok (sy_sc s) (sy_reads s)
      \<and> (\<forall>rd\<in>set (sy_reads s). case rd_phase rd of
            AwaitReceipt r \<Rightarrow> w_url (rd_watch rd) \<noteq> None
          | AwaitNode r \<Rightarrow> w_url (rd_watch rd) \<noteq> None
          | AwaitWrite r c \<Rightarrow> justified (sy_receipts s) rd c
          | AwaitRow \<Rightarrow> True))"

definition phase_ok :: "(nat \<times> string \<times> tx_receipt) list \<Rightarrow> reading \<Rightarrow> read_phase \<Rightarrow> bool" where
  "phase_ok log rd p =
     (case p of
        AwaitReceipt r \<Rightarrow> w_url (rd_watch rd) \<noteq> None
      | AwaitNode r \<Rightarrow> w_url (rd_watch rd) \<noteq> None
      | AwaitWrite r c \<Rightarrow> justified log rd c
      | AwaitRow \<Rightarrow> True)"

lemma sc_inv_phase:
  "sc_inv s \<longleftrightarrow> watches_ok (sy_sc s) \<and> reads_ok (sy_sc s) (sy_reads s)
     \<and> (\<forall>rd\<in>set (sy_reads s). phase_ok (sy_receipts s) rd (rd_phase rd))"
  by (simp add: sc_inv_def phase_ok_def)

lemma justified_mono: "justified log rd c \<Longrightarrow> justified (log @ more_log) rd c"
  by (auto simp: justified_def)

lemma phase_ok_mono: "phase_ok log rd p \<Longrightarrow> phase_ok (log @ more_log) rd p"
  by (auto simp: phase_ok_def justified_mono split: read_phase.splits)

lemma phase_ok_update [simp]: "phase_ok log (rd\<lparr>rd_phase := q\<rparr>) p = phase_ok log rd p"
  by (simp add: phase_ok_def justified_def split: read_phase.split)

lemma decide_phase:
  assumes "decide fl rd r v sc = (sc', Some p)"
    and "\<And>c. v = Some c \<Longrightarrow> justified log rd c"
  shows "phase_ok log rd p"
  using assms by (auto simp: decide_def Let_def phase_ok_def justified_def split: if_splits option.splits)

lemma row_phase: "read_row fl rd row sc = (sc', Some p) \<Longrightarrow> phase_ok log rd p"
  by (auto simp: read_row_def split: option.splits if_splits dest: decide_phase) (simp add: phase_ok_def)

lemma node_phase: "read_node fl rd r sc = (sc', Some p) \<Longrightarrow> w_url (rd_watch rd) \<noteq> None \<Longrightarrow> phase_ok log rd p"
  by (auto simp: read_node_def split: if_splits dest: decide_phase) (simp add: phase_ok_def)

lemma receipt_phase:
  assumes "read_receipt fl rd r receipt sc = (sc', Some p)" and "w_url (rd_watch rd) = Some url"
  shows "phase_ok (log @ (case receipt of None \<Rightarrow> [] | Some x \<Rightarrow> [(rd_ref rd, url, x)])) rd p"
proof (rule decide_phase)
  show "decide fl rd r (case receipt of None \<Rightarrow> None | Some x \<Rightarrow> verdictOf x) sc = (sc', Some p)"
    using assms(1) by (simp add: read_receipt_def)
  show "justified (log @ (case receipt of None \<Rightarrow> [] | Some x \<Rightarrow> [(rd_ref rd, url, x)])) rd c"
    if "(case receipt of None \<Rightarrow> None | Some x \<Rightarrow> verdictOf x) = Some c" for c
    using that assms(2) by (auto simp: justified_def split: option.splits)
qed

lemma ok_events:
  "watches_ok sc \<Longrightarrow> reads_ok sc rs \<Longrightarrow> watches_ok (fold (handle_event now) es sc) \<and> reads_ok (fold (handle_event now) es sc) rs"
proof (induction es arbitrary: sc)
  case (Cons e es)
  have "watches_ok (handle_event now e sc) \<and> reads_ok (handle_event now e sc) rs"
    using Cons.prems by (cases e) (simp_all add: watches_ok_watch reads_ok_watch sc_onDeleted_def ok_del)
  with Cons.IH show ?case by simp
qed simp

lemma ok_watch_all:
  "watches_ok sc \<Longrightarrow> reads_ok sc rs \<Longrightarrow> watches_ok (fold (sc_watch now) ops sc) \<and> reads_ok (fold (sc_watch now) ops sc) rs"
  by (induction ops arbitrary: sc) (simp_all add: watches_ok_watch reads_ok_watch)

text \<open>A read step keeps the invariant when its state is fine and its next phase is justified.\<close>

lemma sc_inv_read:
  assumes "sc_inv s" and "sy_reads s = pre @ rd # post" and "read_ok pre rd post (sc', p)"
    and "\<And>q. p = Some q \<Longrightarrow> phase_ok (sy_receipts s @ log) rd q"
  shows "sc_inv (s\<lparr>sy_sc := sc', sy_reads := pre @ go_on rd p @ post, sy_receipts := sy_receipts s @ log\<rparr>)"
  using assms by (cases p) (auto simp: sc_inv_phase read_ok_def phase_ok_mono)

lemma sc_inv_boot: "sc_inv (sc_boot j)"
  by (simp add: sc_inv_phase sc_boot_def watches_ok_def reads_ok_def)

lemma sc_step_inv: "sc_step s s' \<Longrightarrow> sc_inv s \<Longrightarrow> sc_inv s'"
proof (induction rule: sc_step.induct)
  case (Sc_Start s)
  then show ?case by (simp add: sc_inv_phase)
next
  case (Sc_Load s now gen)
  then show ?case using ok_watch_all [of "sy_sc s" "sy_reads s"] by (simp add: sc_inv_phase sc_start_load_def)
next
  case (Sc_Stop s)
  then show ?case by (simp add: sc_inv_phase sc_stop_def watches_ok_def reads_ok_def)
next
  case (Sc_Journal s c now)
  then show ?case using ok_events [of "sy_sc s" "sy_reads s"] by (simp add: sc_inv_phase)
next
  case (Sc_Tick profile now gen s sc' started)
  from ok_tick [OF _ _ Sc_Tick(1), of "sy_reads s"] Sc_Tick(2) show ?case
    by (auto simp: sc_inv_phase phase_ok_def)
next
  case (Sc_Row s pre rd post fl sc' p)
  have "read_ok pre rd post (sc', p)"
    using read_ok_row [of "sy_sc s" pre rd post] Sc_Row unfolding sc_inv_phase by metis
  moreover have "phase_ok (sy_receipts s @ []) rd q" if "p = Some q" for q
    using row_phase Sc_Row(3) that by blast
  ultimately show ?case using sc_inv_read [OF Sc_Row(4,1), of sc' p "[]"] by simp
next
  case (Sc_Node s pre rd post r fl sc' p)
  have ok: "watches_ok (sy_sc s)" "reads_ok (sy_sc s) (pre @ rd # post)" "w_url (rd_watch rd) \<noteq> None"
    using Sc_Node by (auto simp: sc_inv_phase phase_ok_def)
  have "read_ok pre rd post (read_node fl rd r (sy_sc s))"
    using read_ok_decide [OF ok(1,2)] read_ok_continue [OF ok(1,2)] by (simp add: read_node_def)
  then have "read_ok pre rd post (sc', p)" using Sc_Node(3) by simp
  moreover have "phase_ok (sy_receipts s @ []) rd q" if "p = Some q" for q
    using node_phase Sc_Node(3) ok(3) that by blast
  ultimately show ?case using sc_inv_read [OF Sc_Node(4,1), of sc' p "[]"] by simp
next
  case (Sc_Receipt s pre rd post r url fl receipt sc' p)
  have ok: "watches_ok (sy_sc s)" "reads_ok (sy_sc s) (pre @ rd # post)"
    using Sc_Receipt by (auto simp: sc_inv_phase)
  have "read_ok pre rd post (sc', p)"
    using read_ok_decide [OF ok] Sc_Receipt(4) by (metis read_receipt_def)
  then show ?case
  proof (rule sc_inv_read [OF Sc_Receipt(5,1)])
    show "phase_ok (sy_receipts s @ (case receipt of None \<Rightarrow> [] | Some x \<Rightarrow> [(rd_ref rd, url, x)])) rd q" if "p = Some q" for q
      using receipt_phase Sc_Receipt(3,4) that by blast
  qed
next
  case (Sc_Throw s pre rd post r)
  then have "read_ok pre rd post (read_failed rd (sy_sc s), None)"
    unfolding read_failed_def by (intro read_ok_stop watches_ok_postpone reads_ok_postpone) (simp_all add: sc_inv_phase)
  from sc_inv_read [OF Sc_Throw(3,1) this, of "[]"] show ?case by simp
next
  case (Sc_Write s pre rd post r c fl now sc' j' refresh)
  then have ok: "watches_ok (sy_sc s)" "reads_ok (sy_sc s) (pre @ rd # post)" by (simp_all add: sc_inv_phase)
  have "sc' = finish_read rd (sy_sc s) \<or> sc' = finish_read rd (unwatch (rd_watch rd) (sy_sc s))"
    using Sc_Write(3) by (auto simp: read_write_def split: prod.splits bool.splits)
  then have "read_ok pre rd post (sc', None)"
    using read_ok_stop [OF ok] read_ok_stop ok_unwatch [OF ok] by blast
  from sc_inv_read [OF Sc_Write(4,1) this, of "[]"] show ?case by (simp add: sc_inv_phase)
qed

lemma sc_reachable_inv: "sc_step\<^sup>*\<^sup>* (sc_boot j) s \<Longrightarrow> sc_inv s"
  by (induction rule: rtranclp_induct) (auto intro: sc_inv_boot sc_step_inv)

section \<open>Properties\<close>

lemma one_live_read:
  assumes "reads_ok sc rs" "rd \<in> set rs" "rd' \<in> set rs" "w_id (rd_watch rd) = w_id (rd_watch rd')" "live fl sc rd" "live fl' sc rd'"
  shows "rd = rd'"
proof -
  from assms(4-6) have "rd_ref rd = rd_ref rd'" by (auto simp: live_def is_watched_def)
  with assms(1-3) show ?thesis by (auto simp: reads_ok_def distinct_map dest: inj_onD)
qed

lemma write_exact:
  assumes "read_write fl now rd r c sc j = (sc', k, refresh)" "k \<noteq> j"
  shows "live fl sc rd \<and> (\<exists>row from u. journal_rows j (w_id (rd_watch rd)) = Some row
      \<and> op_progress row = PFailed from (Some (w_txHash (rd_watch rd))) u None
      \<and> journal_rows k = (journal_rows j)(w_id (rd_watch rd)
          \<mapsto> row\<lparr>op_progress := PFailed from (Some (w_txHash (rd_watch rd))) u (Some c), op_updatedAt := now\<rparr>))"
proof -
  define i h where "i = w_id (rd_watch rd)" and "h = w_txHash (rd_watch rd)"
  from assms(1) have k: "k = snd (setSendCheck now i h c (live fl sc rd) j)"
    by (auto simp: read_write_def i_def h_def split: prod.splits bool.splits)
  with assms(2) obtain row "from" u where row: "journal_rows j i = Some row" "op_progress row = PFailed from (Some h) u None" "live fl sc rd"
    by (auto simp: setSendCheck_def split: option.splits job_progress.splits if_splits)
  with k have "journal_rows k = (journal_rows j)(i \<mapsto> row\<lparr>op_progress := PFailed from (Some h) u (Some c), op_updatedAt := now\<rparr>)"
    using spec_sendCheck [of now i h c "live fl sc rd" j "\<lambda>_. False"] by (simp add: update_row_def with_check_def)
  with row show ?thesis unfolding i_def h_def by blast
qed


text \<open>A failed send, loaded, picked up by a tick and answered by a receipt of the endpoint it names.\<close>

definition demo_failed :: op_record where
  "demo_failed = (new_record 1 ''a'' demo_input)
     \<lparr>op_progress := PFailed (Some Submitting) (Some ''h'') (Some ''u'') None,
      op_error := Some \<lparr>je_kind = ''x'', je_message = [], je_normalizedRaw = None\<rparr>, op_terminalAt := Some 2\<rparr>"

definition demo_watch :: watch where
  "demo_watch = \<lparr>w_id = ''a'', w_profileId = ''p'', w_txHash = ''h'', w_url = Some ''u'', w_terminalAt = 2, w_nextAt = 3,
     w_inFlight = False, w_ref = 0\<rparr>"

definition demo_failed_journal :: journal where
  "demo_failed_journal = \<lparr>jl_area = put_row ''a'' demo_failed [], jl_events = []\<rparr>"

definition demo_reading :: reading where
  "demo_reading = \<lparr>rd_watch = demo_watch, rd_generation = 0, rd_now = 4, rd_phase = AwaitRow\<rparr>"

lemma demo_failed_schema: "OperationRecordSchema demo_failed"
  by (simp add: demo_failed_def OperationRecordSchema_def new_record_def demo_input_def error_ok_def JobErrorSchema_def)

lemma demo_failed_rows: "journal_rows demo_failed_journal ''a'' = Some demo_failed"
  by (simp add: demo_failed_journal_def load_put [OF demo_failed_schema])

lemma demo_failed_list: "getOperations (Some failed_filter) demo_failed_journal = [demo_failed]"
proof -
  have "jl_area demo_failed_journal = [(''nulo:journal@a'', RawString (Printed (JRow demo_failed)))]"
    by (simp add: demo_failed_journal_def put_row_def es_set_def journal_storage_def plain_storage_def row_key_def json_stringify_def)
  then have "loadRows (jl_area demo_failed_journal) = [(''a'', demo_failed)]"
    by (simp add: loadRows_def ps_rows_def es_getAll_def journal_storage_def plain_storage_def scopedRows_def prefixedEntries_def
        area_get_def starts_with_def decodeRow_def requireIdMatch_def row_record_def demo_failed_schema map_filter_simps)
  then show ?thesis
    by (simp add: getOperations_def loadAllValidated_def matches_filter_def failed_filter_def empty_filter_def demo_failed_def)
qed

definition demo_receipt :: tx_receipt where
  "demo_receipt = \<lparr>rc_status = AProposed, rc_executionResult = Some ASuccess\<rparr>"

lemma demo_verdict: "verdictOf demo_receipt = Some CheckSent"
  by (simp add: verdictOf_def demo_receipt_def MINED_def)

lemma demo_unanswered: "unanswered demo_failed = Some (''h'', Some ''u'')"
  by (simp add: unanswered_def demo_failed_def isSendCheckable_def)

lemma demo_failed_fields: "op_id demo_failed = ''a''" "op_profileId demo_failed = ''p''" "op_terminalAt demo_failed = Some 2"
  by (simp_all add: demo_failed_def new_record_def demo_input_def)

lemma demo_reachable:
  "sc_step\<^sup>*\<^sup>* (sc_boot demo_failed_journal)
     ((sc_boot demo_failed_journal)\<lparr>sy_sc := \<lparr>sc_watches = [(''a'', mark demo_watch)], sc_generation = 0, sc_fresh = 1\<rparr>,
        sy_reads := [demo_reading\<lparr>rd_phase := AwaitWrite demo_failed CheckSent\<rparr>], sy_receipts := [(0, ''u'', demo_receipt)]\<rparr>)"
proof -
  let ?b = "sc_boot demo_failed_journal"
  let ?w = "\<lparr>sc_watches = [(''a'', demo_watch)], sc_generation = 0, sc_fresh = 1\<rparr>"
  let ?m = "\<lparr>sc_watches = [(''a'', mark demo_watch)], sc_generation = 0, sc_fresh = 1\<rparr>"
  let ?s = "\<lambda>p. ?b\<lparr>sy_sc := ?m, sy_reads := [demo_reading\<lparr>rd_phase := p\<rparr>]\<rparr>"
  note run = sc_boot_def demo_reading_def demo_watch_def live_def is_watched_def
  have 1: "sc_step ?b (?b\<lparr>sy_sc := ?w\<rparr>)"
    using Sc_Load [of ?b 3 0]
    by (simp add: sc_boot_def demo_failed_list sc_start_load_def sc_watch_def demo_unanswered demo_failed_fields demo_watch_def)
  have 2: "sc_step (?b\<lparr>sy_sc := ?w\<rparr>) (?s AwaitRow)"
    using Sc_Tick [of "''p''" 4 0 "?b\<lparr>sy_sc := ?w\<rparr>" ?m "[demo_reading]"]
    by (simp add: sc_tick_def due_def set_watch_def run)
  have 3: "sc_step (?s AwaitRow) (?s (AwaitNode demo_failed))"
    using Sc_Row [of "?s AwaitRow" "[]" "demo_reading\<lparr>rd_phase := AwaitRow\<rparr>" "[]" True ?m "Some (AwaitNode demo_failed)"]
    by (simp add: demo_failed_rows read_row_def demo_unanswered run)
  have 4: "sc_step (?s (AwaitNode demo_failed)) (?s (AwaitReceipt demo_failed))"
    using Sc_Node [of "?s (AwaitNode demo_failed)" "[]" "demo_reading\<lparr>rd_phase := AwaitNode demo_failed\<rparr>" "[]" demo_failed True ?m
        "Some (AwaitReceipt demo_failed)"]
    by (simp add: read_node_def run)
  have 5: "sc_step (?s (AwaitReceipt demo_failed)) ((?s (AwaitWrite demo_failed CheckSent))\<lparr>sy_receipts := [(0, ''u'', demo_receipt)]\<rparr>)"
    using Sc_Receipt [of "?s (AwaitReceipt demo_failed)" "[]" "demo_reading\<lparr>rd_phase := AwaitReceipt demo_failed\<rparr>" "[]" demo_failed "''u''"
        True "Some demo_receipt" ?m "Some (AwaitWrite demo_failed CheckSent)"]
    by (simp add: read_receipt_def decide_def demo_verdict run)
  from 1 2 3 4 5 show ?thesis by (meson converse_rtranclp_into_rtranclp rtranclp.rtrancl_refl)
qed


end
