(* ===== verification/Js_Value.thy ===== *)
theory Js_Value
  imports Js_Text
begin

text \<open>
  Unvalidated JavaScript values as a wallet message carries them: parsed JSON, plus undefined for an
  absent argument or property. The standard-library operations the authorization code applies to them
  are \<^verbatim>\<open>String(v)\<close>, property access with and without optional chaining, truthiness and the usual
  shape tests.
\<close>

section \<open>Values\<close>

text \<open>A number is given by the text \<^verbatim>\<open>String\<close> prints for it.\<close>

datatype wire =
    WUndef | WNull | WBool bool | WNum string | WStr string | WArr "wire list" | WObj "(string \<times> wire) list"

definition nullish :: "wire \<Rightarrow> bool" where
  "nullish v = (v = WUndef \<or> v = WNull)"

fun falsy :: "wire \<Rightarrow> bool" where
  "falsy WUndef = True"
| "falsy WNull = True"
| "falsy (WBool b) = (\<not> b)"
| "falsy (WNum s) = (s = ''0'' \<or> s = ''NaN'')"
| "falsy (WStr s) = (s = [])"
| "falsy _ = False"

text \<open>
  \<^verbatim>\<open>String(v)\<close>. An object of a JSON text whose own \<^verbatim>\<open>toString\<close> hides the inherited one cannot be
  converted: \<^term>\<open>None\<close> is the type error.
\<close>

fun js_String :: "wire \<Rightarrow> string option" where
  "js_String WUndef = Some ''undefined''"
| "js_String WNull = Some ''null''"
| "js_String (WBool b) = Some (if b then ''true'' else ''false'')"
| "js_String (WNum s) = Some s"
| "js_String (WStr s) = Some s"
| "js_String (WArr vs) =
     (let parts = map (\<lambda>v. if v = WUndef \<or> v = WNull then Some [] else js_String v) vs
      in if None \<in> set parts then None else Some (json_join (map the parts)))"
| "js_String (WObj fs) = (if ''toString'' \<in> set (map fst fs) then None else Some ''[object Object]'')"

section \<open>Properties of objects\<close>

text \<open>\<^verbatim>\<open>v?.k\<close>: the names the code reads are no properties of strings, numbers, booleans and arrays.\<close>

fun opt_get :: "wire \<Rightarrow> string \<Rightarrow> wire" where
  "opt_get (WObj fs) k = (case map_of fs k of None \<Rightarrow> WUndef | Some v \<Rightarrow> v)"
| "opt_get _ _ = WUndef"

text \<open>\<^verbatim>\<open>v.k\<close>, a type error (\<^term>\<open>None\<close>) on undefined and null.\<close>

definition js_prop :: "wire \<Rightarrow> string \<Rightarrow> wire option" where
  "js_prop v k = (if nullish v then None else Some (opt_get v k))"

definition has_key :: "wire \<Rightarrow> string \<Rightarrow> bool" where
  "has_key v k = (case v of WObj fs \<Rightarrow> k \<in> set (map fst fs) | _ \<Rightarrow> False)"

text \<open>\<^verbatim>\<open>typeof v === "object" && v !== null\<close>, and the same without arrays.\<close>

definition is_object :: "wire \<Rightarrow> bool" where
  "is_object v = (case v of WObj _ \<Rightarrow> True | WArr _ \<Rightarrow> True | _ \<Rightarrow> False)"

definition isRecord :: "wire \<Rightarrow> bool" where
  "isRecord v = (case v of WObj _ \<Rightarrow> True | _ \<Rightarrow> False)"

definition is_string :: "wire \<Rightarrow> bool" where
  "is_string v = (case v of WStr _ \<Rightarrow> True | _ \<Rightarrow> False)"

definition arg :: "wire list \<Rightarrow> nat \<Rightarrow> wire" where
  "arg args i = (if i < length args then args ! i else WUndef)"

section \<open>Sets in insertion order\<close>

text \<open>\<^verbatim>\<open>[...new Set(xs)]\<close>: the first occurrence of each element.\<close>

definition js_unique :: "'a list \<Rightarrow> 'a list" where
  "js_unique xs = rev (remdups (rev xs))"

lemma set_js_unique [simp]: "set (js_unique xs) = set xs"
  by (simp add: js_unique_def)

lemma distinct_js_unique [simp]: "distinct (js_unique xs)"
  by (simp add: js_unique_def)

section \<open>Sequencing\<close>

text \<open>\<^verbatim>\<open>const x = e; rest\<close>, where either part may throw.\<close>

fun and_then :: "'e + 'a \<Rightarrow> ('a \<Rightarrow> 'e + 'b) \<Rightarrow> 'e + 'b" where
  "and_then (Inl e) f = Inl e"
| "and_then (Inr x) f = f x"

lemma and_then_Inr: "and_then m f = Inr y \<longleftrightarrow> (\<exists>x. m = Inr x \<and> f x = Inr y)"
  by (cases m) auto

lemma and_then_Inl: "and_then m f = Inl e \<longleftrightarrow> m = Inl e \<or> (\<exists>x. m = Inr x \<and> f x = Inl e)"
  by (cases m) auto

definition require_e :: "bool \<Rightarrow> 'e \<Rightarrow> 'e + unit" where
  "require_e b e = (if b then Inr () else Inl e)"

lemma require_e_Inr [simp]: "require_e b e = Inr u \<longleftrightarrow> b"
  by (simp add: require_e_def)

text \<open>A loop of statements that stops at the first exception.\<close>

fun each_e :: "('a \<Rightarrow> 'e + unit) \<Rightarrow> 'a list \<Rightarrow> 'e + unit" where
  "each_e f [] = Inr ()"
| "each_e f (x # xs) = and_then (f x) (\<lambda>_. each_e f xs)"

lemma each_e_Inr [simp]: "each_e f xs = Inr u \<longleftrightarrow> (\<forall>x\<in>set xs. f x = Inr ())"
  by (induction xs) (auto simp: and_then_Inr)

section \<open>Short-circuit loops over callbacks that may throw\<close>

fun some_e :: "('a \<Rightarrow> 'e + bool) \<Rightarrow> 'a list \<Rightarrow> 'e + bool" where
  "some_e f [] = Inr False"
| "some_e f (x # xs) = (case f x of Inl e \<Rightarrow> Inl e | Inr b \<Rightarrow> if b then Inr True else some_e f xs)"

fun every_e :: "('a \<Rightarrow> 'e + bool) \<Rightarrow> 'a list \<Rightarrow> 'e + bool" where
  "every_e f [] = Inr True"
| "every_e f (x # xs) = (case f x of Inl e \<Rightarrow> Inl e | Inr b \<Rightarrow> if b then every_e f xs else Inr False)"

lemma every_e_True: "every_e f xs = Inr True \<longleftrightarrow> (\<forall>x\<in>set xs. f x = Inr True)"
  by (induction xs) (auto split: sum.splits)

lemma every_e_total:
  assumes "\<forall>x\<in>set xs. \<exists>b. f x = Inr b"
  shows "every_e f xs = Inr (\<forall>x\<in>set xs. f x = Inr True)"
  using assms by (induction xs) (auto split: sum.splits)

lemma some_e_TrueD: "some_e f xs = Inr True \<Longrightarrow> \<exists>x\<in>set xs. f x = Inr True"
  by (induction xs) (auto split: sum.splits if_splits)

lemma some_e_total:
  assumes "\<forall>x\<in>set xs. \<exists>b. f x = Inr b"
  shows "some_e f xs = Inr (\<exists>x\<in>set xs. f x = Inr True)"
  using assms by (induction xs) (auto split: sum.splits)

text \<open>When success of one element means that none throws, the loop is an existential.\<close>

lemma some_e_True:
  assumes "\<And>x. x \<in> set xs \<Longrightarrow> f x = Inr True \<Longrightarrow> \<forall>y\<in>set xs. \<exists>b. f y = Inr b"
  shows "some_e f xs = Inr True \<longleftrightarrow> (\<exists>x\<in>set xs. f x = Inr True)"
proof
  assume "\<exists>x\<in>set xs. f x = Inr True"
  with assms show "some_e f xs = Inr True" using some_e_total [of xs f] by auto
qed (rule some_e_TrueD)

lemma case_option_False: "(case x of None \<Rightarrow> False | Some y \<Rightarrow> P y) \<longleftrightarrow> (\<exists>y. x = Some y \<and> P y)"
  by (cases x) auto

lemma opt_get_nullish [simp]: "nullish v \<Longrightarrow> opt_get v k = WUndef"
  by (auto simp: nullish_def)

end
