(* ===== verification/Capabilities.thy ===== *)
theory Capabilities
  imports Js_Value
begin

text \<open>
  What a dApp may be granted: \<^verbatim>\<open>packages/wallet-bridge/src/capabilities.ts\<close> and \<^verbatim>\<open>field-address.ts\<close>, and the
  part of \<^verbatim>\<open>dispatcher.ts\<close> that reads requested capabilities from the wire and decides whether the
  stored grants already cover them. The modulus of the address field comes from the aztec library and
  is an argument.
\<close>

section \<open>Field addresses (field-address.ts)\<close>

definition hex_val :: "char \<Rightarrow> nat option" where
  "hex_val c =
     (let n = code_of c
      in if 48 \<le> n \<and> n \<le> 57 then Some (n - 48)
         else if 97 \<le> n \<and> n \<le> 102 then Some (n - 87)
         else if 65 \<le> n \<and> n \<le> 70 then Some (n - 55) else None)"

text \<open>\<^verbatim>\<open>BigInt("0x...")\<close> of the digits.\<close>

fun hex_number :: "nat \<Rightarrow> string \<Rightarrow> nat" where
  "hex_number acc [] = acc"
| "hex_number acc (c # cs) = hex_number (acc * 16 + (case hex_val c of None \<Rightarrow> 0 | Some d \<Rightarrow> d)) cs"

definition FIELD_ADDRESS :: "string \<Rightarrow> bool" where
  "FIELD_ADDRESS s = (length s = 66 \<and> take 2 s = ''0x'' \<and> (\<forall>c\<in>set (drop 2 s). hex_val c \<noteq> None))"

definition isFieldAddress :: "nat \<Rightarrow> string \<Rightarrow> bool" where
  "isFieldAddress modulus s = (FIELD_ADDRESS s \<and> hex_number 0 (drop 2 s) < modulus)"

definition fieldAddressKey :: "nat \<Rightarrow> string \<Rightarrow> string option" where
  "fieldAddressKey modulus s = (if isFieldAddress modulus s then Some (js_lower s) else None)"

definition sameFieldAddress :: "nat \<Rightarrow> string \<Rightarrow> string \<Rightarrow> bool" where
  "sameFieldAddress modulus a b =
     (let key = fieldAddressKey modulus a in key \<noteq> None \<and> key = fieldAddressKey modulus b)"

text \<open>The number a field address denotes; two spellings are the same address when they denote the same number.\<close>

definition address_value :: "nat \<Rightarrow> string \<Rightarrow> nat option" where
  "address_value modulus s = (if isFieldAddress modulus s then Some (hex_number 0 (drop 2 s)) else None)"

section \<open>Capabilities\<close>

record scope_pattern =
  sp_contract :: string
  sp_function :: string

datatype scope = AnyScope | Patterns "scope_pattern list"

datatype address_list = AnyAddress | Listed "string list"

datatype capability =
    AccountsCap (canGet: "bool option") (canCreateAuthWit: "bool option") (accountItems: "(string option \<times> string) list option")
  | ContractsCap (contracts: address_list) (canRegister: "bool option") (canGetMetadata: "bool option")
  | ContractClassesCap (classes: address_list) (classMetadata: "bool option")
  | SimulationCap (transactions: "scope option") (utilities: "scope option")
  | TransactionCap (txScope: scope)
  | DataCap (addressBook: "bool option") (privateEvents: "address_list option")
  | UnknownCap string wire

datatype cap_type = TAccounts | TContracts | TContractClasses | TSimulation | TTransaction | TData

fun type_of_cap :: "capability \<Rightarrow> cap_type option" where
  "type_of_cap (AccountsCap _ _ _) = Some TAccounts"
| "type_of_cap (ContractsCap _ _ _) = Some TContracts"
| "type_of_cap (ContractClassesCap _ _) = Some TContractClasses"
| "type_of_cap (SimulationCap _ _) = Some TSimulation"
| "type_of_cap (TransactionCap _) = Some TTransaction"
| "type_of_cap (DataCap _ _) = Some TData"
| "type_of_cap (UnknownCap _ _) = None"

record granted_record =
  gr_capability :: capability
  gr_grantedAt :: time

definition grantsOfType :: "granted_record list \<Rightarrow> cap_type \<Rightarrow> capability list" where
  "grantsOfType grants t = map gr_capability (filter (\<lambda>g. type_of_cap (gr_capability g) = Some t) grants)"

section \<open>Matching a call against a scope (method-scope-checkers.ts)\<close>

definition matchesPattern :: "nat \<Rightarrow> string \<Rightarrow> wire \<Rightarrow> scope_pattern \<Rightarrow> bool" where
  "matchesPattern M contract fn p =
     ((sp_contract p = ''*'' \<or> sameFieldAddress M (sp_contract p) contract)
      \<and> (sp_function p = ''*'' \<or> fn = WStr (sp_function p)))"

definition matchesScope :: "nat \<Rightarrow> string \<Rightarrow> wire \<Rightarrow> scope \<Rightarrow> bool" where
  "matchesScope M contract fn s =
     (if fn = WStr [] then False
      else case s of AnyScope \<Rightarrow> True | Patterns ps \<Rightarrow> list_ex (matchesPattern M contract fn) ps)"

definition inAddressList :: "nat \<Rightarrow> string \<Rightarrow> address_list \<Rightarrow> bool" where
  "inAddressList M address l =
     (case l of AnyAddress \<Rightarrow> True | Listed as \<Rightarrow> list_ex (\<lambda>item. sameFieldAddress M item address) as)"

section \<open>Reading a requested capability (dispatcher.ts)\<close>

text \<open>Every failure is the one malformed-capability exception.\<close>

definition flagOf :: "wire \<Rightarrow> string \<Rightarrow> bool option option" where
  "flagOf cap key = (case opt_get cap key of WUndef \<Rightarrow> Some None | WBool b \<Rightarrow> Some (Some b) | _ \<Rightarrow> None)"

definition field_address_of :: "nat \<Rightarrow> wire \<Rightarrow> string option" where
  "field_address_of M v = (case v of WStr s \<Rightarrow> if isFieldAddress M s then Some s else None | _ \<Rightarrow> None)"

definition patternOf :: "nat \<Rightarrow> wire \<Rightarrow> scope_pattern option" where
  "patternOf M p =
     (if \<not> isRecord p then None
      else case (opt_get p ''contract'', opt_get p ''function'') of
        (WStr c, WStr f) \<Rightarrow>
          if (c = ''*'' \<or> isFieldAddress M c) \<and> f \<noteq> [] then Some \<lparr>sp_contract = c, sp_function = f\<rparr> else None
      | _ \<Rightarrow> None)"

fun all_or_none :: "('a \<Rightarrow> 'b option) \<Rightarrow> 'a list \<Rightarrow> 'b list option" where
  "all_or_none f [] = Some []"
| "all_or_none f (x # xs) =
     (case f x of None \<Rightarrow> None | Some y \<Rightarrow> (case all_or_none f xs of None \<Rightarrow> None | Some ys \<Rightarrow> Some (y # ys)))"

definition scopeOf :: "nat \<Rightarrow> wire \<Rightarrow> scope option" where
  "scopeOf M s =
     (if s = WStr ''*'' then Some AnyScope
      else case s of WArr ps \<Rightarrow> map_option Patterns (all_or_none (patternOf M) ps) | _ \<Rightarrow> None)"

definition scopeHolderOf :: "nat \<Rightarrow> wire \<Rightarrow> scope option" where
  "scopeHolderOf M h = (if \<not> isRecord h then None else scopeOf M (opt_get h ''scope''))"

definition addressListOf :: "nat \<Rightarrow> wire \<Rightarrow> address_list option" where
  "addressListOf M l =
     (if l = WStr ''*'' then Some AnyAddress
      else case l of WArr as \<Rightarrow> map_option Listed (all_or_none (field_address_of M) as) | _ \<Rightarrow> None)"

definition account_entry :: "wire \<Rightarrow> (string option \<times> string) option" where
  "account_entry e =
     (if \<not> isRecord e then None
      else case opt_get e ''item'' of
        WStr i \<Rightarrow> Some (case opt_get e ''alias'' of WStr a \<Rightarrow> Some a | _ \<Rightarrow> None, i)
      | _ \<Rightarrow> None)"

definition accountListOf :: "wire \<Rightarrow> (string option \<times> string) list option" where
  "accountListOf l = (case l of WArr es \<Rightarrow> all_or_none account_entry es | _ \<Rightarrow> None)"

definition optional :: "wire \<Rightarrow> string \<Rightarrow> (wire \<Rightarrow> 'a option) \<Rightarrow> 'a option option" where
  "optional cap key project = (if opt_get cap key = WUndef then Some None else map_option Some (project (opt_get cap key)))"

definition events_holder :: "nat \<Rightarrow> wire \<Rightarrow> address_list option" where
  "events_holder M h = (if \<not> isRecord h then None else addressListOf M (opt_get h ''contracts''))"

definition asks_events :: "address_list option \<Rightarrow> bool" where
  "asks_events e = (case e of None \<Rightarrow> False | Some AnyAddress \<Rightarrow> True | Some (Listed as) \<Rightarrow> as \<noteq> [])"

definition projectData :: "nat \<Rightarrow> wire \<Rightarrow> capability option" where
  "projectData M cap =
     (case flagOf cap ''addressBook'' of
        None \<Rightarrow> None
      | Some ab \<Rightarrow>
          (case optional cap ''privateEvents'' (events_holder M) of
             None \<Rightarrow> None
           | Some ev \<Rightarrow> if ab \<noteq> Some True \<and> \<not> asks_events ev then None else Some (DataCap ab ev)))"

definition project_accounts :: "wire \<Rightarrow> capability option" where
  "project_accounts cap =
     (case (flagOf cap ''canGet'', flagOf cap ''canCreateAuthWit'', optional cap ''accounts'' accountListOf) of
        (Some g, Some c, Some l) \<Rightarrow> Some (AccountsCap g c l)
      | _ \<Rightarrow> None)"

definition project_contracts :: "nat \<Rightarrow> wire \<Rightarrow> capability option" where
  "project_contracts M cap =
     (case (addressListOf M (opt_get cap ''contracts''), flagOf cap ''canRegister'', flagOf cap ''canGetMetadata'') of
        (Some l, Some r, Some m) \<Rightarrow> Some (ContractsCap l r m)
      | _ \<Rightarrow> None)"

definition project_classes :: "nat \<Rightarrow> wire \<Rightarrow> capability option" where
  "project_classes M cap =
     (case (addressListOf M (opt_get cap ''classes''), flagOf cap ''canGetMetadata'') of
        (Some l, Some m) \<Rightarrow> Some (ContractClassesCap l m)
      | _ \<Rightarrow> None)"

definition project_simulation :: "nat \<Rightarrow> wire \<Rightarrow> capability option" where
  "project_simulation M cap =
     (case (optional cap ''transactions'' (scopeHolderOf M), optional cap ''utilities'' (scopeHolderOf M)) of
        (Some t, Some u) \<Rightarrow> Some (SimulationCap t u)
      | _ \<Rightarrow> None)"

definition project_transaction :: "nat \<Rightarrow> wire \<Rightarrow> capability option" where
  "project_transaction M cap = map_option TransactionCap (scopeOf M (opt_get cap ''scope''))"

fun known_type :: "string \<Rightarrow> cap_type option" where
  "known_type s =
     (if s = ''accounts'' then Some TAccounts
      else if s = ''contracts'' then Some TContracts
      else if s = ''contractClasses'' then Some TContractClasses
      else if s = ''simulation'' then Some TSimulation
      else if s = ''transaction'' then Some TTransaction
      else if s = ''data'' then Some TData
      else None)"

definition knownTypeOf :: "wire \<Rightarrow> cap_type option" where
  "knownTypeOf cap = (if \<not> isRecord cap then None else case opt_get cap ''type'' of WStr s \<Rightarrow> known_type s | _ \<Rightarrow> None)"

fun CAPABILITY_PROJECTORS :: "nat \<Rightarrow> cap_type \<Rightarrow> wire \<Rightarrow> capability option" where
  "CAPABILITY_PROJECTORS M TAccounts cap = project_accounts cap"
| "CAPABILITY_PROJECTORS M TContracts cap = project_contracts M cap"
| "CAPABILITY_PROJECTORS M TContractClasses cap = project_classes M cap"
| "CAPABILITY_PROJECTORS M TSimulation cap = project_simulation M cap"
| "CAPABILITY_PROJECTORS M TTransaction cap = project_transaction M cap"
| "CAPABILITY_PROJECTORS M TData cap = projectData M cap"

datatype capability_error = MalformedCapability cap_type | DuplicateCapability cap_type

definition unknown_name :: "wire \<Rightarrow> string" where
  "unknown_name cap = (case opt_get cap ''type'' of WStr s \<Rightarrow> s | _ \<Rightarrow> ''undefined'')"

definition projectKnownCapability :: "nat \<Rightarrow> wire \<Rightarrow> capability_error + capability" where
  "projectKnownCapability M cap =
     (case knownTypeOf cap of
        None \<Rightarrow> Inr (UnknownCap (unknown_name cap) cap)
      | Some t \<Rightarrow> (case CAPABILITY_PROJECTORS M t cap of None \<Rightarrow> Inl (MalformedCapability t) | Some c \<Rightarrow> Inr c))"

fun project_loop :: "nat \<Rightarrow> cap_type list \<Rightarrow> wire list \<Rightarrow> capability_error + capability list" where
  "project_loop M seen [] = Inr []"
| "project_loop M seen (cap # caps) =
     (case projectKnownCapability M cap of
        Inl e \<Rightarrow> Inl e
      | Inr c \<Rightarrow>
          (case type_of_cap c of
             None \<Rightarrow> map_sum id (Cons c) (project_loop M seen caps)
           | Some t \<Rightarrow>
               if t \<in> set seen then Inl (DuplicateCapability t)
               else map_sum id (Cons c) (project_loop M (t # seen) caps)))"

definition projectRequestedCapabilities :: "nat \<Rightarrow> wire list \<Rightarrow> capability_error + capability list" where
  "projectRequestedCapabilities M caps = project_loop M [] caps"

definition grantsNothing :: "capability \<Rightarrow> bool" where
  "grantsNothing c = (case c of ContractsCap _ r m \<Rightarrow> r \<noteq> Some True \<and> m \<noteq> Some True | _ \<Rightarrow> False)"

section \<open>Coverage of a request by stored grants (dispatcher.ts)\<close>

definition has_flag :: "bool option \<Rightarrow> bool" where
  "has_flag f = (f = Some True)"

definition flag_covered :: "nat \<Rightarrow> (capability \<Rightarrow> bool option) \<Rightarrow> capability list \<Rightarrow> capability \<Rightarrow> bool" where
  "flag_covered M flag existing requested =
     (if \<not> has_flag (flag requested) then True
      else case contracts requested of
        AnyAddress \<Rightarrow> list_ex (\<lambda>e. has_flag (flag e) \<and> contracts e = AnyAddress) existing
      | Listed as \<Rightarrow>
          list_all (\<lambda>addr. list_ex (\<lambda>e. has_flag (flag e) \<and> inAddressList M addr (contracts e)) existing) as)"

definition contractsRequestCovered :: "nat \<Rightarrow> capability list \<Rightarrow> capability \<Rightarrow> bool" where
  "contractsRequestCovered M existing requested =
     (flag_covered M canRegister existing requested \<and> flag_covered M canGetMetadata existing requested)"

definition scopeCovers :: "nat \<Rightarrow> scope \<Rightarrow> scope \<Rightarrow> bool" where
  "scopeCovers M existing requested =
     (case existing of
        AnyScope \<Rightarrow> True
      | Patterns eps \<Rightarrow>
          (case requested of
             AnyScope \<Rightarrow> False
           | Patterns rps \<Rightarrow>
               list_all (\<lambda>rp. list_ex (\<lambda>ep.
                   (sp_contract ep = ''*'' \<or> sameFieldAddress M (sp_contract ep) (sp_contract rp))
                   \<and> (sp_function ep = ''*'' \<or> sp_function ep = sp_function rp)) eps) rps))"

definition transactionRequestCovered :: "nat \<Rightarrow> capability list \<Rightarrow> capability \<Rightarrow> bool" where
  "transactionRequestCovered M existing requested = list_ex (\<lambda>e. scopeCovers M (txScope e) (txScope requested)) existing"

definition sub_covered :: "nat \<Rightarrow> (capability \<Rightarrow> scope option) \<Rightarrow> capability list \<Rightarrow> capability \<Rightarrow> bool" where
  "sub_covered M sub existing requested =
     (case sub requested of
        None \<Rightarrow> True
      | Some rs \<Rightarrow> list_ex (\<lambda>e. case sub e of None \<Rightarrow> False | Some es \<Rightarrow> scopeCovers M es rs) existing)"

definition simulationRequestCovered :: "nat \<Rightarrow> capability list \<Rightarrow> capability \<Rightarrow> bool" where
  "simulationRequestCovered M existing requested =
     (sub_covered M transactions existing requested \<and> sub_covered M utilities existing requested)"

definition privateEventsCovered :: "nat \<Rightarrow> capability list \<Rightarrow> address_list option \<Rightarrow> bool" where
  "privateEventsCovered M held requested =
     (case requested of
        None \<Rightarrow> True
      | Some AnyAddress \<Rightarrow> list_ex (\<lambda>h. privateEvents h = Some AnyAddress) held
      | Some (Listed as) \<Rightarrow>
          list_all (\<lambda>addr. list_ex (\<lambda>h. case privateEvents h of None \<Rightarrow> False | Some l \<Rightarrow> inAddressList M addr l) held) as)"

definition dataFieldsCovered :: "nat \<Rightarrow> capability list \<Rightarrow> capability \<Rightarrow> bool \<times> bool" where
  "dataFieldsCovered M held requested =
     (\<not> has_flag (addressBook requested) \<or> list_ex (\<lambda>h. has_flag (addressBook h)) held,
      privateEventsCovered M held (privateEvents requested))"

definition dataRequestCovered :: "nat \<Rightarrow> capability list \<Rightarrow> capability \<Rightarrow> bool" where
  "dataRequestCovered M existing requested = (case dataFieldsCovered M existing requested of (a, p) \<Rightarrow> a \<and> p)"

definition accountsCapsEqual :: "capability \<Rightarrow> capability \<Rightarrow> bool" where
  "accountsCapsEqual a b =
     (has_flag (canGet a) = has_flag (canGet b) \<and> has_flag (canCreateAuthWit a) = has_flag (canCreateAuthWit b))"

definition isCapabilityCovered :: "nat \<Rightarrow> capability \<Rightarrow> granted_record list \<Rightarrow> bool" where
  "isCapabilityCovered M cap grants =
     (case cap of
        AccountsCap _ _ _ \<Rightarrow> (case grantsOfType grants TAccounts of [] \<Rightarrow> False | e # _ \<Rightarrow> accountsCapsEqual e cap)
      | ContractsCap _ _ _ \<Rightarrow> grantsOfType grants TContracts \<noteq> [] \<and> contractsRequestCovered M (grantsOfType grants TContracts) cap
      | TransactionCap _ \<Rightarrow> grantsOfType grants TTransaction \<noteq> [] \<and> transactionRequestCovered M (grantsOfType grants TTransaction) cap
      | SimulationCap _ _ \<Rightarrow> grantsOfType grants TSimulation \<noteq> [] \<and> simulationRequestCovered M (grantsOfType grants TSimulation) cap
      | DataCap _ _ \<Rightarrow> grantsOfType grants TData \<noteq> [] \<and> dataRequestCovered M (grantsOfType grants TData) cap
      | ContractClassesCap _ _ \<Rightarrow> grantsOfType grants TContractClasses \<noteq> []
      | UnknownCap _ _ \<Rightarrow> False)"

section \<open>Addresses compare by value\<close>

lemma code_of_less: "code_of c < 256"
  by (simp add: code_of_def)

lemma code_of_inject [simp]: "code_of a = code_of b \<longleftrightarrow> a = b"
  by (simp add: code_of_def)

lemma hex_val_bound: "hex_val c = Some d \<Longrightarrow> d < 16"
  by (auto simp: hex_val_def Let_def split: if_splits)

lemma hex_val_lower [simp]: "hex_val (js_lower_char c) = hex_val c"
  using code_of_less [of c] by (auto simp: hex_val_def js_lower_char_def Let_def)

lemma lower_code: "code_of (js_lower_char c) =
    (if 65 \<le> code_of c \<and> code_of c \<le> 90 \<or> 192 \<le> code_of c \<and> code_of c \<le> 222 \<and> code_of c \<noteq> 215
     then code_of c + 32 else code_of c)"
  using code_of_less [of c] by (auto simp: js_lower_char_def Let_def)

lemma hex_val_lower_inject:
  assumes "hex_val a = Some d" "hex_val b = Some d"
  shows "js_lower_char a = js_lower_char b"
proof -
  have "code_of (js_lower_char a) = code_of (js_lower_char b)"
    using assms unfolding lower_code
    by (auto simp: hex_val_def Let_def simp del: code_of_inject split: if_splits)
  then show ?thesis by simp
qed

lemma hex_number_inject:
  assumes "length s = length t" "\<forall>c\<in>set s. hex_val c \<noteq> None" "\<forall>c\<in>set t. hex_val c \<noteq> None"
  shows "hex_number a s = hex_number b t \<longleftrightarrow> a = b \<and> map hex_val s = map hex_val t"
  using assms
proof (induction s t arbitrary: a b rule: list_induct2)
  case (Cons x xs y ys)
  then obtain d e where d: "hex_val x = Some d" "hex_val y = Some e" by auto
  from d have "d < 16" "e < 16" by (simp_all add: hex_val_bound)
  then have "a * 16 + d = b * 16 + e \<longleftrightarrow> a = b \<and> d = e" by (cases a b rule: linorder_cases) auto
  with Cons.IH [of "a * 16 + d" "b * 16 + e"] Cons.prems d show ?case by simp
qed simp

lemma lower_eq_iff_hex_eq:
  assumes "length s = length t" "\<forall>c\<in>set s. hex_val c \<noteq> None" "\<forall>c\<in>set t. hex_val c \<noteq> None"
  shows "js_lower s = js_lower t \<longleftrightarrow> map hex_val s = map hex_val t"
  using assms
proof (induction s t rule: list_induct2)
  case (Cons x xs y ys)
  then obtain d e where "hex_val x = Some d" "hex_val y = Some e" by auto
  with hex_val_lower_inject [of x d y] have "js_lower_char x = js_lower_char y \<longleftrightarrow> hex_val x = hex_val y"
    by (metis hex_val_lower)
  with Cons show ?case by (simp add: js_lower_def)
qed (simp add: js_lower_def)

lemma FIELD_ADDRESS_lower:
  assumes "FIELD_ADDRESS a" "FIELD_ADDRESS b"
  shows "js_lower a = js_lower b \<longleftrightarrow> hex_number 0 (drop 2 a) = hex_number 0 (drop 2 b)"
proof -
  have s: "\<And>s. FIELD_ADDRESS s \<Longrightarrow> s = ''0x'' @ drop 2 s" by (metis FIELD_ADDRESS_def append_take_drop_id)
  have "js_lower a = js_lower b \<longleftrightarrow> js_lower (drop 2 a) = js_lower (drop 2 b)"
    using s [OF assms(1)] s [OF assms(2)] unfolding js_lower_def by (metis map_append same_append_eq)
  also have "\<dots> \<longleftrightarrow> hex_number 0 (drop 2 a) = hex_number 0 (drop 2 b)"
    using assms by (simp add: FIELD_ADDRESS_def lower_eq_iff_hex_eq hex_number_inject)
  finally show ?thesis .
qed

lemma sameFieldAddress_value:
  "sameFieldAddress M a b \<longleftrightarrow> address_value M a \<noteq> None \<and> address_value M a = address_value M b"
  using FIELD_ADDRESS_lower [of a b]
  by (auto simp: sameFieldAddress_def fieldAddressKey_def address_value_def isFieldAddress_def Let_def)

lemma sameFieldAddress_trans:
  "sameFieldAddress M a b \<Longrightarrow> sameFieldAddress M b c \<Longrightarrow> sameFieldAddress M a c"
  unfolding sameFieldAddress_value by metis

end
