(* ===== verification/Scope_Checkers.thy ===== *)
theory Scope_Checkers
  imports Capabilities
begin

text \<open>
  The per-method grant checks of \<^verbatim>\<open>packages/wallet-bridge/src/method-scope-checkers.ts\<close>: each reads the
  unvalidated arguments of one wallet method and throws unless a stored grant covers what they name.
  The modulus of the address field is an argument (\<^term>\<open>M\<close>). The locale \<open>grant_check\<close> is the contract the
  single-type checks share; every one of them is an instance.
\<close>

section \<open>Refusals (scope-violation.ts)\<close>

datatype grant_refusal =
    ContractRefused | ClassRefused | TxCallRefused | SimCallRefused | UtilityRefused | EventsRefused
  | AccountRefused | AuthCallRefused | InnerHashRefused | NeedsCanGet | NeedsAddressBook

datatype account_field = ExecScopes | OptsScopes | OptsAdditionalScopes | FilterScopes

text \<open>Everything a dispatched request can be refused with before it is routed.\<close>

datatype malformed = BadExec | BadCalls | BadCall | BadFrom | BadPositional

datatype scope_error =
    ScopeViolation string grant_refusal
  | AccountViolation string account_field
  | RequestedAccountViolation
  | ExecCallsNotArray string
  | CallEntryShape string
  | UtilityCallShape
  | RawMessageHash
  | ClassRegistrationDisabled
  | JsTypeError
  | UnsupportedMethod string
  | InvalidArguments string
  | MalformedRequest string malformed
  | CapabilityNotGranted cap_type

definition string_of :: "wire \<Rightarrow> scope_error + string" where
  "string_of v = (case js_String v of None \<Rightarrow> Inl JsTypeError | Some s \<Rightarrow> Inr s)"

lemma string_of_Inr [simp]: "string_of v = Inr s \<longleftrightarrow> js_String v = Some s"
  by (simp add: string_of_def split: option.splits)

section \<open>Contracts and contract classes\<close>

definition contract_listed :: "nat \<Rightarrow> (capability \<Rightarrow> bool option) \<Rightarrow> string \<Rightarrow> capability \<Rightarrow> bool" where
  "contract_listed M flag address c = (has_flag (flag c) \<and> inAddressList M address (contracts c))"

definition requireContractsGrant ::
  "nat \<Rightarrow> string \<Rightarrow> string \<Rightarrow> (capability \<Rightarrow> bool option) \<Rightarrow> granted_record list \<Rightarrow> scope_error + unit" where
  "requireContractsGrant M meth address flag grants =
     (let caps = grantsOfType grants TContracts
      in if caps = [] then Inr ()
         else require_e (list_ex (contract_listed M flag address) caps) (ScopeViolation meth ContractRefused))"

text \<open>\<^verbatim>\<open>instance?.address ?? instance\<close>.\<close>

definition instance_address :: "wire \<Rightarrow> wire" where
  "instance_address v = (if nullish (opt_get v ''address'') then v else opt_get v ''address'')"

definition checkRegisterContract :: "nat \<Rightarrow> wire list \<Rightarrow> granted_record list \<Rightarrow> scope_error + unit" where
  "checkRegisterContract M args grants =
     and_then (string_of (instance_address (arg args 0))) (\<lambda>a.
       requireContractsGrant M ''registerContract'' a canRegister grants)"

definition checkGetContractMetadata :: "nat \<Rightarrow> wire list \<Rightarrow> granted_record list \<Rightarrow> scope_error + unit" where
  "checkGetContractMetadata M args grants =
     and_then (string_of (arg args 0)) (\<lambda>a. requireContractsGrant M ''getContractMetadata'' a canGetMetadata grants)"

definition checkIsTokenRegistered :: "nat \<Rightarrow> wire list \<Rightarrow> granted_record list \<Rightarrow> scope_error + unit" where
  "checkIsTokenRegistered M args grants =
     and_then (string_of (arg args 0)) (\<lambda>a. requireContractsGrant M ''isTokenRegistered'' a canGetMetadata grants)"

definition class_listed :: "nat \<Rightarrow> string \<Rightarrow> capability \<Rightarrow> bool" where
  "class_listed M i c = (has_flag (classMetadata c) \<and> inAddressList M i (classes c))"

definition checkGetContractClassMetadata :: "nat \<Rightarrow> wire list \<Rightarrow> granted_record list \<Rightarrow> scope_error + unit" where
  "checkGetContractClassMetadata M args grants =
     and_then (string_of (arg args 0)) (\<lambda>i.
       let caps = grantsOfType grants TContractClasses
       in if caps = [] then Inr ()
          else require_e (list_ex (class_listed M i) caps) (ScopeViolation ''getContractClassMetadata'' ClassRefused))"

section \<open>Calls\<close>

text \<open>\<^verbatim>\<open>matchesScope(String(call.to), call.name, scope)\<close> of one entry of \<^verbatim>\<open>exec.calls\<close>.\<close>

definition call_in_scope :: "nat \<Rightarrow> scope \<Rightarrow> wire \<Rightarrow> scope_error + bool" where
  "call_in_scope M s call =
     (case js_prop call ''to'' of
        None \<Rightarrow> Inl JsTypeError
      | Some to \<Rightarrow> and_then (string_of to) (\<lambda>c. Inr (matchesScope M c (opt_get call ''name'') s)))"

definition checkTransactionCalls ::
  "nat \<Rightarrow> string \<Rightarrow> wire list \<Rightarrow> granted_record list \<Rightarrow> scope_error + unit" where
  "checkTransactionCalls M meth args grants =
     (case opt_get (arg args 0) ''calls'' of
        WArr calls \<Rightarrow>
          (let caps = grantsOfType grants TTransaction
           in if calls = [] \<or> caps = [] then Inr ()
              else and_then (some_e (\<lambda>c. every_e (call_in_scope M (txScope c)) calls) caps) (\<lambda>permitted.
                     require_e permitted (ScopeViolation meth TxCallRefused)))
      | _ \<Rightarrow> Inl (ExecCallsNotArray meth))"

definition checkGrantPublicAuthwit :: "nat \<Rightarrow> wire list \<Rightarrow> granted_record list \<Rightarrow> scope_error + unit" where
  "checkGrantPublicAuthwit M args grants =
     and_then (string_of (opt_get (arg args 1) ''contract'')) (\<lambda>contract.
     and_then (string_of (opt_get (arg args 1) ''method'')) (\<lambda>meth.
       let caps = grantsOfType grants TTransaction
       in if caps = [] then Inr ()
          else require_e (list_ex (\<lambda>c. matchesScope M contract (WStr meth) (txScope c)) caps)
                 (ScopeViolation ''grantPublicAuthwit'' TxCallRefused)))"

text \<open>A scope held under \<^verbatim>\<open>simulation.transactions\<close> or \<^verbatim>\<open>simulation.utilities\<close>; an absent one permits nothing.\<close>

definition sub_scope :: "scope option \<Rightarrow> (scope \<Rightarrow> 'e + bool) \<Rightarrow> 'e + bool" where
  "sub_scope s f = (case s of None \<Rightarrow> Inr False | Some sc \<Rightarrow> f sc)"

definition call_entry_ok :: "wire \<Rightarrow> bool" where
  "call_entry_ok call = (is_object call \<and> opt_get call ''to'' \<noteq> WUndef)"

definition checkSimulationTransactions ::
  "nat \<Rightarrow> string \<Rightarrow> wire list \<Rightarrow> granted_record list \<Rightarrow> scope_error + unit" where
  "checkSimulationTransactions M meth args grants =
     (case opt_get (arg args 0) ''calls'' of
        WArr calls \<Rightarrow>
          (let caps = grantsOfType grants TSimulation
           in if calls = [] \<or> caps = [] then Inr ()
              else if \<not> list_all call_entry_ok calls then Inl (CallEntryShape meth)
              else and_then (some_e (\<lambda>c. sub_scope (transactions c) (\<lambda>s. every_e (call_in_scope M s) calls)) caps)
                     (\<lambda>permitted. require_e permitted (ScopeViolation meth SimCallRefused)))
      | _ \<Rightarrow> Inl (ExecCallsNotArray meth))"

definition checkExecuteUtility :: "nat \<Rightarrow> wire list \<Rightarrow> granted_record list \<Rightarrow> scope_error + unit" where
  "checkExecuteUtility M args grants =
     (let call = arg args 0
      in if falsy (opt_get call ''to'') \<or> falsy (opt_get call ''name'') then Inl UtilityCallShape
         else and_then (string_of (opt_get call ''to'')) (\<lambda>contract.
           let caps = grantsOfType grants TSimulation
           in if caps = [] then Inr ()
              else require_e
                     (list_ex (\<lambda>c. case utilities c of None \<Rightarrow> False
                                   | Some s \<Rightarrow> matchesScope M contract (opt_get call ''name'') s) caps)
                     (ScopeViolation ''executeUtility'' UtilityRefused)))"

definition checkSendTx :: "nat \<Rightarrow> wire list \<Rightarrow> granted_record list \<Rightarrow> scope_error + unit" where
  "checkSendTx M = checkTransactionCalls M ''sendTx''"

definition checkSimulateTx :: "nat \<Rightarrow> wire list \<Rightarrow> granted_record list \<Rightarrow> scope_error + unit" where
  "checkSimulateTx M = checkSimulationTransactions M ''simulateTx''"

definition checkProfileTx :: "nat \<Rightarrow> wire list \<Rightarrow> granted_record list \<Rightarrow> scope_error + unit" where
  "checkProfileTx M = checkSimulationTransactions M ''profileTx''"

section \<open>Data\<close>

definition events_listed :: "nat \<Rightarrow> string \<Rightarrow> capability \<Rightarrow> bool" where
  "events_listed M address c = (case privateEvents c of None \<Rightarrow> False | Some l \<Rightarrow> inAddressList M address l)"

definition checkGetPrivateEvents :: "nat \<Rightarrow> wire list \<Rightarrow> granted_record list \<Rightarrow> scope_error + unit" where
  "checkGetPrivateEvents M args grants =
     and_then (string_of (opt_get (arg args 1) ''contractAddress'')) (\<lambda>address.
       let caps = grantsOfType grants TData
       in if caps = [] then Inr ()
          else require_e (list_ex (events_listed M address) caps) (ScopeViolation ''getPrivateEvents'' EventsRefused))"

definition requireAddressBookGrant :: "string \<Rightarrow> granted_record list \<Rightarrow> scope_error + unit" where
  "requireAddressBookGrant meth grants =
     (let caps = grantsOfType grants TData
      in if caps = [] then Inr ()
         else require_e (list_ex (\<lambda>c. addressBook c = Some True) caps) (ScopeViolation meth NeedsAddressBook))"

definition checkGetAddressBook :: "wire list \<Rightarrow> granted_record list \<Rightarrow> scope_error + unit" where
  "checkGetAddressBook args grants = requireAddressBookGrant ''getAddressBook'' grants"

definition checkRegisterSender :: "wire list \<Rightarrow> granted_record list \<Rightarrow> scope_error + unit" where
  "checkRegisterSender args grants = requireAddressBookGrant ''registerSender'' grants"

section \<open>Accounts and authorization witnesses\<close>

definition checkGetAccounts :: "wire list \<Rightarrow> granted_record list \<Rightarrow> scope_error + unit" where
  "checkGetAccounts args grants =
     (let caps = grantsOfType grants TAccounts
      in if caps = [] then Inr ()
         else require_e (list_ex (\<lambda>c. canGet c = Some True) caps) (ScopeViolation ''getAccounts'' NeedsCanGet))"

text \<open>Whether a transaction or simulation.transactions scope is held, and whether one covers the call.\<close>

definition holds_sim_scope :: "capability list \<Rightarrow> bool" where
  "holds_sim_scope = list_ex (\<lambda>c. transactions c \<noteq> None)"

definition callWithinTxOrSimulationScope :: "nat \<Rightarrow> string \<Rightarrow> string \<Rightarrow> granted_record list \<Rightarrow> bool \<times> bool" where
  "callWithinTxOrSimulationScope M contract fn grants =
     (let txCaps = grantsOfType grants TTransaction; simCaps = grantsOfType grants TSimulation
      in if txCaps = [] \<and> \<not> holds_sim_scope simCaps then (False, False)
         else (True,
               list_ex (\<lambda>c. matchesScope M contract (WStr fn) (txScope c)) txCaps
               \<or> list_ex (\<lambda>c. case transactions c of None \<Rightarrow> False
                                | Some s \<Rightarrow> matchesScope M contract (WStr fn) s) simCaps))"

definition isCallIntent :: "wire \<Rightarrow> bool" where
  "isCallIntent x =
     (is_object x \<and> has_key x ''caller'' \<and> has_key x ''call''
      \<and> (let call = opt_get x ''call''
         in is_object call \<and> has_key call ''to'' \<and> has_key call ''name'' \<and> is_string (opt_get call ''name'')))"

definition isIntentInnerHash :: "wire \<Rightarrow> bool" where
  "isIntentInnerHash x = (is_object x \<and> has_key x ''consumer'' \<and> has_key x ''innerHash'')"

text \<open>The text of a value already known to be a string.\<close>

definition text_of :: "wire \<Rightarrow> string" where
  "text_of v = (case v of WStr s \<Rightarrow> s | _ \<Rightarrow> [])"

definition isCreateAuthWitCovered :: "nat \<Rightarrow> wire \<Rightarrow> granted_record list \<Rightarrow> scope_error + bool" where
  "isCreateAuthWitCovered M intent grants =
     (if \<not> isCallIntent intent then Inr False
      else let call = opt_get intent ''call''
           in and_then (string_of (opt_get call ''to'')) (\<lambda>contract.
                Inr (snd (callWithinTxOrSimulationScope M contract (text_of (opt_get call ''name'')) grants))))"

definition authwit_account :: "string \<Rightarrow> capability \<Rightarrow> bool" where
  "authwit_account from c =
     (has_flag (canCreateAuthWit c)
      \<and> (case accountItems c of None \<Rightarrow> True | Some l \<Rightarrow> list_ex (\<lambda>a. snd a = from) l))"

definition checkCreateAuthWit :: "nat \<Rightarrow> wire list \<Rightarrow> granted_record list \<Rightarrow> scope_error + unit" where
  "checkCreateAuthWit M args grants =
     and_then (string_of (arg args 0)) (\<lambda>from.
     let caps = grantsOfType grants TAccounts; intent = arg args 1
     in if caps \<noteq> [] \<and> \<not> list_ex (authwit_account from) caps
        then Inl (ScopeViolation ''createAuthWit'' AccountRefused)
        else if isCallIntent intent then
          (let call = opt_get intent ''call''
           in and_then (string_of (opt_get call ''to'')) (\<lambda>contract.
                let (hasTxCaps, permitted) = callWithinTxOrSimulationScope M contract (text_of (opt_get call ''name'')) grants
                in require_e (\<not> (hasTxCaps \<and> \<not> permitted)) (ScopeViolation ''createAuthWit'' AuthCallRefused)))
        else if isIntentInnerHash intent then
          and_then (string_of (opt_get intent ''consumer'')) (\<lambda>consumer.
            let (hasTxCaps, permitted) = callWithinTxOrSimulationScope M consumer ''*'' grants
            in require_e (\<not> (hasTxCaps \<and> \<not> permitted)) (ScopeViolation ''createAuthWit'' InnerHashRefused))
        else Inl RawMessageHash)"

definition checkRegisterContractClassDisabled :: "wire list \<Rightarrow> granted_record list \<Rightarrow> scope_error + unit" where
  "checkRegisterContractClassDisabled args grants = Inl ClassRegistrationDisabled"

section \<open>Authorizations consent\<close>

definition isAnyContractScope :: "scope \<Rightarrow> bool" where
  "isAnyContractScope s = (case s of AnyScope \<Rightarrow> True | Patterns ps \<Rightarrow> list_ex (\<lambda>p. sp_contract p = ''*'') ps)"

definition reaches_any_contract :: "capability \<Rightarrow> bool" where
  "reaches_any_contract c =
     (case c of
        TransactionCap s \<Rightarrow> isAnyContractScope s
      | SimulationCap (Some s) _ \<Rightarrow> isAnyContractScope s
      | _ \<Rightarrow> False)"

definition coversAnyContract :: "capability list \<Rightarrow> bool" where
  "coversAnyContract caps = list_ex reaches_any_contract caps"

definition readConsent :: "wire \<Rightarrow> bool option" where
  "readConsent v = (case v of WObj [(k, WBool b)] \<Rightarrow> if k = ''broad'' then Some b else None | _ \<Rightarrow> None)"

definition authorizationsEffective :: "wire \<Rightarrow> capability list \<Rightarrow> bool" where
  "authorizationsEffective consent caps =
     (case readConsent consent of None \<Rightarrow> False | Some broad \<Rightarrow> broad \<or> \<not> coversAnyContract caps)"

text \<open>The type text of a capability, absent when a page sent none.\<close>

fun type_name :: "cap_type \<Rightarrow> string" where
  "type_name TAccounts = ''accounts''"
| "type_name TContracts = ''contracts''"
| "type_name TContractClasses = ''contractClasses''"
| "type_name TSimulation = ''simulation''"
| "type_name TTransaction = ''transaction''"
| "type_name TData = ''data''"

definition typeOf :: "capability \<Rightarrow> string option" where
  "typeOf c =
     (case c of
        UnknownCap _ w \<Rightarrow> (if isRecord w \<and> is_string (opt_get w ''type'') then Some (text_of (opt_get w ''type'')) else None)
      | _ \<Rightarrow> map_option type_name (type_of_cap c))"

definition effectiveGrants :: "capability list \<Rightarrow> capability list \<Rightarrow> capability list" where
  "effectiveGrants existing delta = filter (\<lambda>c. typeOf c \<notin> set (map typeOf delta)) existing @ delta"

section \<open>What a grant means\<close>

text \<open>
  The declarative reading of a grant, in terms of the numbers addresses denote: which contracts a list
  names, which calls a scope admits, and which requests one capability permits.
\<close>

definition same_address :: "nat \<Rightarrow> string \<Rightarrow> string \<Rightarrow> bool" where
  "same_address M a b \<longleftrightarrow> (\<exists>v. address_value M a = Some v \<and> address_value M b = Some v)"

definition names_address :: "nat \<Rightarrow> address_list \<Rightarrow> string \<Rightarrow> bool" where
  "names_address M l a \<longleftrightarrow> l = AnyAddress \<or> (\<exists>as x. l = Listed as \<and> x \<in> set as \<and> same_address M x a)"

definition admits :: "nat \<Rightarrow> scope \<Rightarrow> string \<Rightarrow> wire \<Rightarrow> bool" where
  "admits M s target fn \<longleftrightarrow> fn \<noteq> WStr [] \<and>
     (s = AnyScope \<or> (\<exists>ps p. s = Patterns ps \<and> p \<in> set ps
        \<and> (sp_contract p = ''*'' \<or> same_address M (sp_contract p) target)
        \<and> (sp_function p = ''*'' \<or> fn = WStr (sp_function p))))"

definition admits_call :: "nat \<Rightarrow> scope \<Rightarrow> wire \<Rightarrow> bool" where
  "admits_call M s call \<longleftrightarrow> \<not> nullish call \<and> (\<exists>a. js_String (opt_get call ''to'') = Some a \<and> admits M s a (opt_get call ''name''))"

lemma sameFieldAddress_same: "sameFieldAddress M a b = same_address M a b"
  unfolding sameFieldAddress_value same_address_def by (cases "address_value M a") auto

lemma inAddressList_names: "inAddressList M a l = names_address M l a"
  by (cases l) (auto simp: inAddressList_def names_address_def sameFieldAddress_same list_ex_iff)

lemma matchesScope_admits: "matchesScope M a fn s = admits M s a fn"
  by (cases s) (auto simp: matchesScope_def admits_def matchesPattern_def sameFieldAddress_same list_ex_iff)

lemma call_in_scope_True: "call_in_scope M s call = Inr True \<longleftrightarrow> admits_call M s call"
  by (auto simp: call_in_scope_def admits_call_def js_prop_def and_then_Inr matchesScope_admits)

lemmas scope_meaning = inAddressList_names matchesScope_admits call_in_scope_True

definition calls_of :: "wire list \<Rightarrow> wire list option" where
  "calls_of args = (case opt_get (arg args 0) ''calls'' of WArr calls \<Rightarrow> Some calls | _ \<Rightarrow> None)"

inductive permits :: "nat \<Rightarrow> capability \<Rightarrow> string \<Rightarrow> wire list \<Rightarrow> bool" for M where
  registerContract:
    "js_String (instance_address (arg args 0)) = Some a \<Longrightarrow> r = Some True \<Longrightarrow> names_address M l a
     \<Longrightarrow> permits M (ContractsCap l r m) ''registerContract'' args"
| contractMetadata:
    "js_String (arg args 0) = Some a \<Longrightarrow> m = Some True \<Longrightarrow> names_address M l a
     \<Longrightarrow> meth = ''getContractMetadata'' \<or> meth = ''isTokenRegistered''
     \<Longrightarrow> permits M (ContractsCap l r m) meth args"
| classMetadata:
    "js_String (arg args 0) = Some a \<Longrightarrow> m = Some True \<Longrightarrow> names_address M l a
     \<Longrightarrow> permits M (ContractClassesCap l m) ''getContractClassMetadata'' args"
| sendTx:
    "calls_of args = Some calls \<Longrightarrow> \<forall>call\<in>set calls. admits_call M s call
     \<Longrightarrow> permits M (TransactionCap s) ''sendTx'' args"
| grantPublicAuthwit:
    "js_String (opt_get (arg args 1) ''contract'') = Some a \<Longrightarrow> js_String (opt_get (arg args 1) ''method'') = Some f
     \<Longrightarrow> admits M s a (WStr f) \<Longrightarrow> permits M (TransactionCap s) ''grantPublicAuthwit'' args"
| simulateNothing:
    "calls_of args = Some [] \<Longrightarrow> meth = ''simulateTx'' \<or> meth = ''profileTx'' \<Longrightarrow> permits M (SimulationCap t u) meth args"
| simulate:
    "calls_of args = Some calls \<Longrightarrow> \<forall>call\<in>set calls. call_entry_ok call \<and> admits_call M s call
     \<Longrightarrow> meth = ''simulateTx'' \<or> meth = ''profileTx'' \<Longrightarrow> permits M (SimulationCap (Some s) u) meth args"
| executeUtility:
    "\<not> falsy (opt_get (arg args 0) ''to'') \<Longrightarrow> \<not> falsy (opt_get (arg args 0) ''name'')
     \<Longrightarrow> js_String (opt_get (arg args 0) ''to'') = Some a \<Longrightarrow> admits M s a (opt_get (arg args 0) ''name'')
     \<Longrightarrow> permits M (SimulationCap t (Some s)) ''executeUtility'' args"
| getPrivateEvents:
    "js_String (opt_get (arg args 1) ''contractAddress'') = Some a \<Longrightarrow> names_address M l a
     \<Longrightarrow> permits M (DataCap b (Some l)) ''getPrivateEvents'' args"
| addressBook:
    "meth = ''getAddressBook'' \<or> meth = ''registerSender'' \<Longrightarrow> permits M (DataCap (Some True) e) meth args"
| getAccounts: "permits M (AccountsCap (Some True) w l) ''getAccounts'' args"

inductive_simps permits_registerContract: "permits M c ''registerContract'' args"
inductive_simps permits_getContractMetadata: "permits M c ''getContractMetadata'' args"
inductive_simps permits_isTokenRegistered: "permits M c ''isTokenRegistered'' args"
inductive_simps permits_getContractClassMetadata: "permits M c ''getContractClassMetadata'' args"
inductive_simps permits_sendTx: "permits M c ''sendTx'' args"
inductive_simps permits_grantPublicAuthwit: "permits M c ''grantPublicAuthwit'' args"
inductive_simps permits_simulateTx: "permits M c ''simulateTx'' args"
inductive_simps permits_profileTx: "permits M c ''profileTx'' args"
inductive_simps permits_executeUtility: "permits M c ''executeUtility'' args"
inductive_simps permits_getPrivateEvents: "permits M c ''getPrivateEvents'' args"
inductive_simps permits_getAddressBook: "permits M c ''getAddressBook'' args"
inductive_simps permits_registerSender: "permits M c ''registerSender'' args"
inductive_simps permits_getAccounts: "permits M c ''getAccounts'' args"

section \<open>The contract of a grant check\<close>

text \<open>
  A check of one capability type passes exactly when one stored grant of that type permits the request.
  From this alone follow that further grants never take a permission away, and that a stored set of
  grants which permits whatever a requested capability permits answers every request that capability
  would.
\<close>

locale grant_check =
  fixes check :: "wire list \<Rightarrow> granted_record list \<Rightarrow> scope_error + unit"
    and required :: cap_type
    and allows :: "capability \<Rightarrow> wire list \<Rightarrow> bool"
  assumes check_exact: "grantsOfType grants required \<noteq> []
    \<Longrightarrow> check args grants = Inr () \<longleftrightarrow> (\<exists>c\<in>set (grantsOfType grants required). allows c args)"
    and allows_type: "allows c args \<Longrightarrow> type_of_cap c = Some required"
begin

lemma check_iff_grant:
  assumes "\<exists>g\<in>set grants. type_of_cap (gr_capability g) = Some required"
  shows "check args grants = Inr () \<longleftrightarrow> (\<exists>g\<in>set grants. allows (gr_capability g) args)"
proof -
  have "grantsOfType grants required \<noteq> []"
    using assms by (auto simp: grantsOfType_def filter_empty_conv)
  then show ?thesis
    using allows_type by (auto simp: check_exact grantsOfType_def)
qed

lemma check_mono:
  assumes "set grants \<subseteq> set grants'" "grantsOfType grants required \<noteq> []" "check args grants = Inr ()"
  shows "check args grants' = Inr ()"
proof -
  have sub: "set (grantsOfType grants required) \<subseteq> set (grantsOfType grants' required)"
    using assms(1) by (auto simp: grantsOfType_def)
  then have "grantsOfType grants' required \<noteq> []" using assms(2) by auto
  with assms sub show ?thesis by (auto simp: check_exact)
qed

lemma check_covered:
  assumes "type_of_cap c = Some required" "grantsOfType existing required \<noteq> []"
    and "\<And>as. allows c as \<Longrightarrow> \<exists>e\<in>set (grantsOfType existing required). allows e as"
    and "check args [\<lparr>gr_capability = c, gr_grantedAt = t\<rparr>] = Inr ()"
  shows "check args existing = Inr ()"
proof -
  have one: "grantsOfType [\<lparr>gr_capability = c, gr_grantedAt = t\<rparr>] required = [c]"
    using assms(1) by (simp add: grantsOfType_def)
  then have "allows c args" using assms(4) check_exact [of "[\<lparr>gr_capability = c, gr_grantedAt = t\<rparr>]" args] by simp
  with assms(2,3) show ?thesis by (simp add: check_exact)
qed

end

section \<open>Every single-type check is an instance\<close>

lemma grantsOfType_type: "c \<in> set (grantsOfType gs t) \<Longrightarrow> type_of_cap c = Some t"
  by (auto simp: grantsOfType_def)

lemma type_of_cap_shape:
  "type_of_cap c = Some TAccounts \<longleftrightarrow> (\<exists>g w l. c = AccountsCap g w l)"
  "type_of_cap c = Some TContracts \<longleftrightarrow> (\<exists>l r m. c = ContractsCap l r m)"
  "type_of_cap c = Some TContractClasses \<longleftrightarrow> (\<exists>l m. c = ContractClassesCap l m)"
  "type_of_cap c = Some TSimulation \<longleftrightarrow> (\<exists>t u. c = SimulationCap t u)"
  "type_of_cap c = Some TTransaction \<longleftrightarrow> (\<exists>s. c = TransactionCap s)"
  "type_of_cap c = Some TData \<longleftrightarrow> (\<exists>b e. c = DataCap b e)"
  by (cases c; simp)+

text \<open>Which requests a grant permits, by the fields the checks read.\<close>

lemma permits_via:
  "type_of_cap c = Some TContracts \<Longrightarrow> permits M c ''registerContract'' args
     \<longleftrightarrow> (\<exists>a. js_String (instance_address (arg args 0)) = Some a \<and> canRegister c = Some True \<and> names_address M (contracts c) a)"
  "type_of_cap c = Some TContracts \<Longrightarrow> permits M c ''getContractMetadata'' args
     \<longleftrightarrow> (\<exists>a. js_String (arg args 0) = Some a \<and> canGetMetadata c = Some True \<and> names_address M (contracts c) a)"
  "type_of_cap c = Some TContracts \<Longrightarrow> permits M c ''isTokenRegistered'' args
     \<longleftrightarrow> (\<exists>a. js_String (arg args 0) = Some a \<and> canGetMetadata c = Some True \<and> names_address M (contracts c) a)"
  "type_of_cap c = Some TContractClasses \<Longrightarrow> permits M c ''getContractClassMetadata'' args
     \<longleftrightarrow> (\<exists>a. js_String (arg args 0) = Some a \<and> classMetadata c = Some True \<and> names_address M (classes c) a)"
  "type_of_cap c = Some TTransaction \<Longrightarrow> permits M c ''sendTx'' args
     \<longleftrightarrow> (\<exists>calls. calls_of args = Some calls \<and> (\<forall>call\<in>set calls. admits_call M (txScope c) call))"
  "type_of_cap c = Some TTransaction \<Longrightarrow> permits M c ''grantPublicAuthwit'' args
     \<longleftrightarrow> (\<exists>a f. js_String (opt_get (arg args 1) ''contract'') = Some a \<and> js_String (opt_get (arg args 1) ''method'') = Some f
              \<and> admits M (txScope c) a (WStr f))"
  "type_of_cap c = Some TSimulation \<Longrightarrow> permits M c ''simulateTx'' args
     \<longleftrightarrow> calls_of args = Some [] \<or> (\<exists>calls s. calls_of args = Some calls \<and> transactions c = Some s
              \<and> (\<forall>call\<in>set calls. call_entry_ok call \<and> admits_call M s call))"
  "type_of_cap c = Some TSimulation \<Longrightarrow> permits M c ''profileTx'' args
     \<longleftrightarrow> calls_of args = Some [] \<or> (\<exists>calls s. calls_of args = Some calls \<and> transactions c = Some s
              \<and> (\<forall>call\<in>set calls. call_entry_ok call \<and> admits_call M s call))"
  "type_of_cap c = Some TSimulation \<Longrightarrow> permits M c ''executeUtility'' args
     \<longleftrightarrow> \<not> falsy (opt_get (arg args 0) ''to'') \<and> \<not> falsy (opt_get (arg args 0) ''name'')
         \<and> (\<exists>a s. js_String (opt_get (arg args 0) ''to'') = Some a \<and> utilities c = Some s
                \<and> admits M s a (opt_get (arg args 0) ''name''))"
  "type_of_cap c = Some TData \<Longrightarrow> permits M c ''getPrivateEvents'' args
     \<longleftrightarrow> (\<exists>a l. js_String (opt_get (arg args 1) ''contractAddress'') = Some a \<and> privateEvents c = Some l \<and> names_address M l a)"
  "type_of_cap c = Some TData \<Longrightarrow> permits M c ''getAddressBook'' args \<longleftrightarrow> addressBook c = Some True"
  "type_of_cap c = Some TData \<Longrightarrow> permits M c ''registerSender'' args \<longleftrightarrow> addressBook c = Some True"
  "type_of_cap c = Some TAccounts \<Longrightarrow> permits M c ''getAccounts'' args \<longleftrightarrow> canGet c = Some True"
  by (cases c; auto simp: permits_registerContract permits_getContractMetadata permits_isTokenRegistered
      permits_getContractClassMetadata permits_sendTx permits_grantPublicAuthwit permits_simulateTx permits_profileTx
      permits_executeUtility permits_getPrivateEvents permits_getAddressBook permits_registerSender permits_getAccounts)+

lemma bex_permits:
  assumes "\<And>c. type_of_cap c = Some t \<Longrightarrow> P c \<longleftrightarrow> Q c"
  shows "(\<exists>c\<in>set (grantsOfType gs t). P c) \<longleftrightarrow> (\<exists>c\<in>set (grantsOfType gs t). Q c)"
  using assms grantsOfType_type by blast

lemmas granted_via_1 = bex_permits [OF permits_via(1)]
lemmas granted_via_2 = bex_permits [OF permits_via(2)]
lemmas granted_via_3 = bex_permits [OF permits_via(3)]
lemmas granted_via_4 = bex_permits [OF permits_via(4)]
lemmas granted_via_5 = bex_permits [OF permits_via(5)]
lemmas granted_via_6 = bex_permits [OF permits_via(6)]
lemmas granted_via_7 = bex_permits [OF permits_via(7)]
lemmas granted_via_8 = bex_permits [OF permits_via(8)]
lemmas granted_via_9 = bex_permits [OF permits_via(9)]
lemmas granted_via_10 = bex_permits [OF permits_via(10)]
lemmas granted_via_11 = bex_permits [OF permits_via(11)]
lemmas granted_via_12 = bex_permits [OF permits_via(12)]
lemmas granted_via_13 = bex_permits [OF permits_via(13)]

lemma requireContractsGrant_exact:
  assumes "grantsOfType grants TContracts \<noteq> []"
  shows "requireContractsGrant M meth a flag grants = Inr ()
    \<longleftrightarrow> (\<exists>c\<in>set (grantsOfType grants TContracts). flag c = Some True \<and> names_address M (contracts c) a)"
  using assms by (simp add: requireContractsGrant_def list_ex_iff contract_listed_def has_flag_def scope_meaning)

interpretation register_contract: grant_check "checkRegisterContract M" TContracts
    "\<lambda>c. permits M c ''registerContract''" for M
proof
  fix grants args assume "grantsOfType grants TContracts \<noteq> []"
  then show "checkRegisterContract M args grants = Inr ()
      \<longleftrightarrow> (\<exists>c\<in>set (grantsOfType grants TContracts). permits M c ''registerContract'' args)"
    by (auto simp: checkRegisterContract_def and_then_Inr requireContractsGrant_exact granted_via_1)
next
  fix c args assume "permits M c ''registerContract'' args"
  then show "type_of_cap c = Some TContracts" by (auto simp: permits_registerContract)
qed

interpretation contract_metadata: grant_check "checkGetContractMetadata M" TContracts
    "\<lambda>c. permits M c ''getContractMetadata''" for M
proof
  fix grants args assume "grantsOfType grants TContracts \<noteq> []"
  then show "checkGetContractMetadata M args grants = Inr ()
      \<longleftrightarrow> (\<exists>c\<in>set (grantsOfType grants TContracts). permits M c ''getContractMetadata'' args)"
    by (auto simp: checkGetContractMetadata_def and_then_Inr requireContractsGrant_exact granted_via_2)
next
  fix c args assume "permits M c ''getContractMetadata'' args"
  then show "type_of_cap c = Some TContracts" by (auto simp: permits_getContractMetadata)
qed

interpretation token_registered: grant_check "checkIsTokenRegistered M" TContracts
    "\<lambda>c. permits M c ''isTokenRegistered''" for M
proof
  fix grants args assume "grantsOfType grants TContracts \<noteq> []"
  then show "checkIsTokenRegistered M args grants = Inr ()
      \<longleftrightarrow> (\<exists>c\<in>set (grantsOfType grants TContracts). permits M c ''isTokenRegistered'' args)"
    by (auto simp: checkIsTokenRegistered_def and_then_Inr requireContractsGrant_exact granted_via_3)
next
  fix c args assume "permits M c ''isTokenRegistered'' args"
  then show "type_of_cap c = Some TContracts" by (auto simp: permits_isTokenRegistered)
qed

interpretation class_metadata: grant_check "checkGetContractClassMetadata M" TContractClasses
    "\<lambda>c. permits M c ''getContractClassMetadata''" for M
proof
  fix grants args assume "grantsOfType grants TContractClasses \<noteq> []"
  then show "checkGetContractClassMetadata M args grants = Inr ()
      \<longleftrightarrow> (\<exists>c\<in>set (grantsOfType grants TContractClasses). permits M c ''getContractClassMetadata'' args)"
    by (auto simp: checkGetContractClassMetadata_def and_then_Inr list_ex_iff class_listed_def has_flag_def
        scope_meaning granted_via_4)
next
  fix c args assume "permits M c ''getContractClassMetadata'' args"
  then show "type_of_cap c = Some TContractClasses" by (auto simp: permits_getContractClassMetadata)
qed

interpretation public_authwit: grant_check "checkGrantPublicAuthwit M" TTransaction
    "\<lambda>c. permits M c ''grantPublicAuthwit''" for M
proof
  fix grants args assume "grantsOfType grants TTransaction \<noteq> []"
  then show "checkGrantPublicAuthwit M args grants = Inr ()
      \<longleftrightarrow> (\<exists>c\<in>set (grantsOfType grants TTransaction). permits M c ''grantPublicAuthwit'' args)"
    by (auto simp: checkGrantPublicAuthwit_def and_then_Inr list_ex_iff scope_meaning granted_via_6)
next
  fix c args assume "permits M c ''grantPublicAuthwit'' args"
  then show "type_of_cap c = Some TTransaction" by (auto simp: permits_grantPublicAuthwit)
qed

interpretation private_events: grant_check "checkGetPrivateEvents M" TData
    "\<lambda>c. permits M c ''getPrivateEvents''" for M
proof
  fix grants args assume "grantsOfType grants TData \<noteq> []"
  then show "checkGetPrivateEvents M args grants = Inr ()
      \<longleftrightarrow> (\<exists>c\<in>set (grantsOfType grants TData). permits M c ''getPrivateEvents'' args)"
    by (auto simp: checkGetPrivateEvents_def and_then_Inr list_ex_iff events_listed_def scope_meaning
        granted_via_10 case_option_False)
next
  fix c args assume "permits M c ''getPrivateEvents'' args"
  then show "type_of_cap c = Some TData" by (auto simp: permits_getPrivateEvents)
qed

interpretation address_book: grant_check checkGetAddressBook TData "\<lambda>c. permits M c ''getAddressBook''" for M
proof
  fix grants args assume "grantsOfType grants TData \<noteq> []"
  then show "checkGetAddressBook args grants = Inr ()
      \<longleftrightarrow> (\<exists>c\<in>set (grantsOfType grants TData). permits M c ''getAddressBook'' args)"
    by (auto simp: checkGetAddressBook_def requireAddressBookGrant_def list_ex_iff granted_via_11)
next
  fix c args assume "permits M c ''getAddressBook'' args"
  then show "type_of_cap c = Some TData" by (auto simp: permits_getAddressBook)
qed

interpretation register_sender: grant_check checkRegisterSender TData "\<lambda>c. permits M c ''registerSender''" for M
proof
  fix grants args assume "grantsOfType grants TData \<noteq> []"
  then show "checkRegisterSender args grants = Inr ()
      \<longleftrightarrow> (\<exists>c\<in>set (grantsOfType grants TData). permits M c ''registerSender'' args)"
    by (auto simp: checkRegisterSender_def requireAddressBookGrant_def list_ex_iff granted_via_12)
next
  fix c args assume "permits M c ''registerSender'' args"
  then show "type_of_cap c = Some TData" by (auto simp: permits_registerSender)
qed

interpretation get_accounts: grant_check checkGetAccounts TAccounts "\<lambda>c. permits M c ''getAccounts''" for M
proof
  fix grants args assume "grantsOfType grants TAccounts \<noteq> []"
  then show "checkGetAccounts args grants = Inr ()
      \<longleftrightarrow> (\<exists>c\<in>set (grantsOfType grants TAccounts). permits M c ''getAccounts'' args)"
    by (auto simp: checkGetAccounts_def list_ex_iff granted_via_13)
next
  fix c args assume "permits M c ''getAccounts'' args"
  then show "type_of_cap c = Some TAccounts" by (auto simp: permits_getAccounts)
qed

interpretation execute_utility: grant_check "checkExecuteUtility M" TSimulation
    "\<lambda>c. permits M c ''executeUtility''" for M
proof
  fix grants args assume "grantsOfType grants TSimulation \<noteq> []"
  then show "checkExecuteUtility M args grants = Inr ()
      \<longleftrightarrow> (\<exists>c\<in>set (grantsOfType grants TSimulation). permits M c ''executeUtility'' args)"
    by (auto simp: checkExecuteUtility_def and_then_Inr list_ex_iff scope_meaning granted_via_9 Let_def
        case_option_False)
next
  fix c args assume "permits M c ''executeUtility'' args"
  then show "type_of_cap c = Some TSimulation" by (auto simp: permits_executeUtility)
qed

text \<open>A call some scope admits can be read under every scope, so the order of the grants does not matter.\<close>

lemma call_in_scope_total: "admits_call M s call \<Longrightarrow> \<exists>b. call_in_scope M s' call = Inr b"
  by (auto simp: admits_call_def call_in_scope_def js_prop_def string_of_def)

lemma every_call_total:
  assumes "\<forall>call\<in>set calls. admits_call M s call"
  shows "\<exists>b. every_e (call_in_scope M s') calls = Inr b"
  using assms call_in_scope_total by (metis every_e_total)

lemma checkTransactionCalls_exact:
  assumes "grantsOfType grants TTransaction \<noteq> []"
  shows "checkTransactionCalls M meth args grants = Inr ()
    \<longleftrightarrow> (\<exists>c\<in>set (grantsOfType grants TTransaction). \<exists>calls. calls_of args = Some calls \<and> (\<forall>call\<in>set calls. admits_call M (txScope c) call))"
proof (cases "calls_of args")
  case None
  then show ?thesis by (auto simp: calls_of_def checkTransactionCalls_def split: wire.splits)
next
  case (Some calls)
  then have calls: "opt_get (arg args 0) ''calls'' = WArr calls" by (auto simp: calls_of_def split: wire.splits)
  let ?f = "\<lambda>c. every_e (call_in_scope M (txScope c)) calls"
  have "some_e ?f (grantsOfType grants TTransaction) = Inr True
      \<longleftrightarrow> (\<exists>c\<in>set (grantsOfType grants TTransaction). ?f c = Inr True)"
    by (rule some_e_True) (metis call_in_scope_True every_e_True every_call_total)
  with assms Some calls show ?thesis
    by (auto simp: checkTransactionCalls_def Let_def and_then_Inr every_e_True call_in_scope_True neq_Nil_conv)
qed

lemma checkSimulationTransactions_exact:
  assumes "grantsOfType grants TSimulation \<noteq> []"
  shows "checkSimulationTransactions M meth args grants = Inr ()
    \<longleftrightarrow> (\<exists>c\<in>set (grantsOfType grants TSimulation). calls_of args = Some [] \<or>
          (\<exists>calls s. calls_of args = Some calls \<and> transactions c = Some s
              \<and> (\<forall>call\<in>set calls. call_entry_ok call \<and> admits_call M s call)))"
proof (cases "calls_of args")
  case None
  then show ?thesis by (auto simp: calls_of_def checkSimulationTransactions_def split: wire.splits)
next
  case (Some calls)
  then have calls: "opt_get (arg args 0) ''calls'' = WArr calls" by (auto simp: calls_of_def split: wire.splits)
  let ?f = "\<lambda>c. sub_scope (transactions c) (\<lambda>s. every_e (call_in_scope M s) calls)"
  have f: "?f c = Inr True \<longleftrightarrow> (\<exists>s. transactions c = Some s \<and> (\<forall>call\<in>set calls. admits_call M s call))" for c
    by (cases "transactions c") (simp_all add: sub_scope_def every_e_True call_in_scope_True)
  have tot: "\<exists>b. ?f c' = Inr b" if "?f c = Inr True" for c c'
  proof -
    from that f obtain s where "\<forall>call\<in>set calls. admits_call M s call" by blast
    then show ?thesis by (cases "transactions c'") (auto simp: sub_scope_def every_call_total)
  qed
  have "some_e ?f (grantsOfType grants TSimulation) = Inr True
      \<longleftrightarrow> (\<exists>c\<in>set (grantsOfType grants TSimulation). ?f c = Inr True)"
    by (rule some_e_True) (use tot in blast)
  with assms Some calls f show ?thesis
    by (auto simp: checkSimulationTransactions_def Let_def and_then_Inr list_all_iff neq_Nil_conv)
qed

interpretation send_tx: grant_check "checkSendTx M" TTransaction "\<lambda>c. permits M c ''sendTx''" for M
  by unfold_locales (simp_all add: checkSendTx_def checkTransactionCalls_exact granted_via_5, auto simp: permits_sendTx)

interpretation simulate_tx: grant_check "checkSimulateTx M" TSimulation "\<lambda>c. permits M c ''simulateTx''" for M
  by unfold_locales (simp_all add: checkSimulateTx_def checkSimulationTransactions_exact granted_via_7, auto simp: permits_simulateTx)

interpretation profile_tx: grant_check "checkProfileTx M" TSimulation "\<lambda>c. permits M c ''profileTx''" for M
  by unfold_locales (simp_all add: checkProfileTx_def checkSimulationTransactions_exact granted_via_8, auto simp: permits_profileTx)

section \<open>Authorization witnesses\<close>

text \<open>The scopes that may authorize a call on the user's behalf: transaction and simulation.transactions.\<close>

fun call_scope_of :: "capability \<Rightarrow> scope option" where
  "call_scope_of (TransactionCap s) = Some s"
| "call_scope_of (SimulationCap t u) = t"
| "call_scope_of _ = None"

definition call_scopes :: "granted_record list \<Rightarrow> scope set" where
  "call_scopes grants = {s. \<exists>g\<in>set grants. call_scope_of (gr_capability g) = Some s}"

lemma call_scope_of_Some:
  "call_scope_of c = Some s \<longleftrightarrow> type_of_cap c = Some TTransaction \<and> txScope c = s
     \<or> type_of_cap c = Some TSimulation \<and> transactions c = Some s"
  by (cases c) auto

lemma in_grantsOfType: "c \<in> set (grantsOfType gs t) \<longleftrightarrow> (\<exists>g\<in>set gs. gr_capability g = c \<and> type_of_cap c = Some t)"
  by (auto simp: grantsOfType_def)

lemma call_scopes_via:
  "s \<in> call_scopes grants \<longleftrightarrow> (\<exists>c\<in>set (grantsOfType grants TTransaction). txScope c = s)
     \<or> (\<exists>c\<in>set (grantsOfType grants TSimulation). transactions c = Some s)"
  unfolding call_scopes_def call_scope_of_Some Bex_def in_grantsOfType mem_Collect_eq by blast

lemma callWithin_exact:
  "callWithinTxOrSimulationScope M contract fn grants
     = (call_scopes grants \<noteq> {}, \<exists>s\<in>call_scopes grants. admits M s contract (WStr fn))"
proof -
  have held: "(grantsOfType grants TTransaction = [] \<and> \<not> holds_sim_scope (grantsOfType grants TSimulation)) \<longleftrightarrow> call_scopes grants = {}"
    unfolding set_eq_iff call_scopes_via holds_sim_scope_def list_ex_iff
    by (cases "grantsOfType grants TTransaction") (auto, metis not_Some_eq)
  show ?thesis
  proof (cases "call_scopes grants = {}")
    case True
    with held show ?thesis by (simp add: callWithinTxOrSimulationScope_def)
  next
    case False
    have "(\<exists>s\<in>call_scopes grants. admits M s contract (WStr fn))
      \<longleftrightarrow> (\<exists>c\<in>set (grantsOfType grants TTransaction). admits M (txScope c) contract (WStr fn))
          \<or> (\<exists>c\<in>set (grantsOfType grants TSimulation). \<exists>s. transactions c = Some s \<and> admits M s contract (WStr fn))"
      unfolding Bex_def call_scopes_via by blast
    with False held show ?thesis
      by (auto simp: callWithinTxOrSimulationScope_def Let_def list_ex_iff case_option_False matchesScope_admits)
  qed
qed

text \<open>What an intent asks to authorize: the target and the function, any function for an inner hash.\<close>

inductive intent_target :: "wire \<Rightarrow> string \<Rightarrow> string \<Rightarrow> bool" where
  "isCallIntent x \<Longrightarrow> opt_get x ''call'' = call \<Longrightarrow> js_String (opt_get call ''to'') = Some a \<Longrightarrow> opt_get call ''name'' = WStr fn
   \<Longrightarrow> intent_target x a fn"
| "\<not> isCallIntent x \<Longrightarrow> isIntentInnerHash x \<Longrightarrow> js_String (opt_get x ''consumer'') = Some a \<Longrightarrow> intent_target x a ''*''"

definition authwit_permitted :: "nat \<Rightarrow> granted_record list \<Rightarrow> wire list \<Rightarrow> bool" where
  "authwit_permitted M grants args \<longleftrightarrow>
     (\<exists>from c a fn. js_String (arg args 0) = Some from
        \<and> c \<in> set (grantsOfType grants TAccounts) \<and> canCreateAuthWit c = Some True
        \<and> (\<forall>l. accountItems c = Some l \<longrightarrow> from \<in> snd ` set l)
        \<and> intent_target (arg args 1) a fn
        \<and> (call_scopes grants = {} \<or> (\<exists>s\<in>call_scopes grants. admits M s a (WStr fn))))"

lemma authwit_account_iff:
  "authwit_account from c \<longleftrightarrow> canCreateAuthWit c = Some True \<and> (\<forall>l. accountItems c = Some l \<longrightarrow> from \<in> snd ` set l)"
  by (auto simp: authwit_account_def has_flag_def list_ex_iff split: option.splits)

lemma isCallIntent_name: "isCallIntent x \<Longrightarrow> \<exists>fn. opt_get (opt_get x ''call'') ''name'' = WStr fn"
  by (auto simp: isCallIntent_def is_string_def Let_def split: wire.splits)

lemma checkCreateAuthWit_exact:
  assumes "grantsOfType grants TAccounts \<noteq> []"
  shows "checkCreateAuthWit M args grants = Inr () \<longleftrightarrow> authwit_permitted M grants args"
proof -
  let ?x = "arg args 1"
  have target: "(\<exists>a fn. intent_target ?x a fn \<and> P a fn) \<longleftrightarrow>
      (if isCallIntent ?x then \<exists>a. js_String (opt_get (opt_get ?x ''call'') ''to'') = Some a
           \<and> P a (text_of (opt_get (opt_get ?x ''call'') ''name''))
       else isIntentInnerHash ?x \<and> (\<exists>a. js_String (opt_get ?x ''consumer'') = Some a \<and> P a ''*''))" for P
    using isCallIntent_name [of ?x] by (auto simp: intent_target.simps text_of_def)
  define ok where "ok a fn \<longleftrightarrow> call_scopes grants = {} \<or> (\<exists>s\<in>call_scopes grants. admits M s a (WStr fn))" for a fn
  have within: "(fst (callWithinTxOrSimulationScope M a fn grants) \<longrightarrow> snd (callWithinTxOrSimulationScope M a fn grants)) \<longleftrightarrow> ok a fn" for a fn
    by (auto simp: callWithin_exact ok_def)
  have "checkCreateAuthWit M args grants = Inr () \<longleftrightarrow>
      (\<exists>from. js_String (arg args 0) = Some from \<and> (\<exists>c\<in>set (grantsOfType grants TAccounts). authwit_account from c)
         \<and> (\<exists>a fn. intent_target ?x a fn \<and> ok a fn))"
    unfolding target checkCreateAuthWit_def and_then_Inr string_of_Inr Let_def case_prod_beta list_ex_iff
    using assms by (auto simp: and_then_Inr within)
  then show ?thesis
    unfolding authwit_permitted_def authwit_account_iff ok_def by blast
qed

end
