(* ===== verification/Js_Number.thy ===== *)
theory Js_Number
  imports Js_Text
begin

text \<open>
  \<^verbatim>\<open>Number(text)\<close> as ECMAScript defines it for strings: white space is trimmed, the empty text is zero, the
  prefixes 0x, 0o and 0b are read in their base, and a decimal literal denotes a rational that is
  rounded to the nearest IEEE double, ties to even. A double is kept as sign, significand and exponent
  of two; zero has one representation.
\<close>

section \<open>Doubles\<close>

datatype double = NaN | Infinite bool | Double (negative: bool) (significand: nat) (exponent: int)

fun bit_length :: "nat \<Rightarrow> nat" where
  "bit_length n = (if n = 0 then 0 else Suc (bit_length (n div 2)))"

declare bit_length.simps [simp del]

text \<open>The quotient a / (b * 2^e), rounded half to even.\<close>

definition round_quotient :: "nat \<Rightarrow> nat \<Rightarrow> nat" where
  "round_quotient n d =
     (let q = n div d; r = n mod d
      in if 2 * r < d then q else if d < 2 * r then q + 1 else if even q then q else q + 1)"

definition scaled :: "nat \<Rightarrow> nat \<Rightarrow> int \<Rightarrow> nat \<times> nat" where
  "scaled a b e = (if 0 \<le> e then (a, b * 2 ^ nat e) else (a * 2 ^ nat (- e), b))"

definition double_exponent :: "nat \<Rightarrow> nat \<Rightarrow> int" where
  "double_exponent a b =
     (let e = int (bit_length a) - int (bit_length b) - 53;
          (n, d) = scaled a b e;
          e' = (if d * 2 ^ 53 \<le> n then e + 1 else e)
      in max e' (- 1074))"

definition to_double :: "bool \<Rightarrow> nat \<Rightarrow> nat \<Rightarrow> double" where
  "to_double neg a b =
     (if a = 0 then Double False 0 0
      else let e = double_exponent a b; (n, d) = scaled a b e; m = round_quotient n d
           in if m = 0 then Double False 0 0
              else if 971 < e \<or> (e = 971 \<and> 2 ^ 53 \<le> m) then Infinite neg
              else Double neg m e)"

definition isFinite :: "double \<Rightarrow> bool" where
  "isFinite x = (case x of Double _ _ _ \<Rightarrow> True | _ \<Rightarrow> False)"

definition isInteger :: "double \<Rightarrow> bool" where
  "isInteger x = (case x of Double _ m e \<Rightarrow> 0 \<le> e \<or> 2 ^ nat (- e) dvd m | _ \<Rightarrow> False)"

definition integer_value :: "double \<Rightarrow> int" where
  "integer_value x =
     (case x of
        Double neg m e \<Rightarrow> (if neg then -1 else 1) * int (if 0 \<le> e then m * 2 ^ nat e else m div 2 ^ nat (- e))
      | _ \<Rightarrow> 0)"

section \<open>Numeric text\<close>

definition digit_in :: "nat \<Rightarrow> char \<Rightarrow> nat option" where
  "digit_in base c =
     (let n = code_of c;
          d = (if 48 \<le> n \<and> n \<le> 57 then n - 48
               else if 97 \<le> n \<and> n \<le> 102 then n - 87
               else if 65 \<le> n \<and> n \<le> 70 then n - 55 else 99)
      in if d < base then Some d else None)"

definition is_digit :: "char \<Rightarrow> bool" where
  "is_digit c = (digit_in 10 c \<noteq> None)"

fun read_digits :: "nat \<Rightarrow> nat \<Rightarrow> string \<Rightarrow> nat option" where
  "read_digits base acc [] = Some acc"
| "read_digits base acc (c # cs) = (case digit_in base c of None \<Rightarrow> None | Some d \<Rightarrow> read_digits base (acc * base + d) cs)"

definition read_exponent :: "string \<Rightarrow> int option" where
  "read_exponent cs =
     (case cs of
        [] \<Rightarrow> Some 0
      | c # r \<Rightarrow>
          if c \<noteq> CHR ''e'' \<and> c \<noteq> CHR ''E'' then None
          else let neg = (r \<noteq> [] \<and> hd r = CHR ''-'');
                   ds = (if r \<noteq> [] \<and> (hd r = CHR ''-'' \<or> hd r = CHR ''+'') then tl r else r)
               in if ds = [] then None
                  else map_option (\<lambda>k. if neg then - int k else int k) (read_digits 10 0 ds))"

text \<open>An unsigned decimal literal: the digits without the point, and the power of ten they are scaled by.\<close>

definition read_decimal :: "string \<Rightarrow> (nat \<times> int) option" where
  "read_decimal cs =
     (let ip = takeWhile is_digit cs; r = dropWhile is_digit cs;
          frac = (r \<noteq> [] \<and> hd r = CHR ''.'');
          fp = (if frac then takeWhile is_digit (tl r) else []);
          r' = (if frac then dropWhile is_digit (tl r) else r)
      in if ip @ fp = [] then None
         else case (read_digits 10 0 (ip @ fp), read_exponent r') of
                (Some m, Some k) \<Rightarrow> Some (m, k - int (length fp))
              | _ \<Rightarrow> None)"

definition decimal_double :: "bool \<Rightarrow> string \<Rightarrow> double" where
  "decimal_double neg cs =
     (if cs = ''Infinity'' then Infinite neg
      else case read_decimal cs of
             None \<Rightarrow> NaN
           | Some (m, k) \<Rightarrow> if 0 \<le> k then to_double neg (m * 10 ^ nat k) 1 else to_double neg m (10 ^ nat (- k)))"

definition based_double :: "nat \<Rightarrow> string \<Rightarrow> double" where
  "based_double base ds =
     (if ds = [] then NaN else case read_digits base 0 ds of None \<Rightarrow> NaN | Some n \<Rightarrow> to_double False n 1)"

definition js_Number :: "string \<Rightarrow> double" where
  "js_Number text =
     (let s = js_trim text; prefix = take 2 s
      in if s = [] then Double False 0 0
         else if prefix = ''0x'' \<or> prefix = ''0X'' then based_double 16 (drop 2 s)
         else if prefix = ''0o'' \<or> prefix = ''0O'' then based_double 8 (drop 2 s)
         else if prefix = ''0b'' \<or> prefix = ''0B'' then based_double 2 (drop 2 s)
         else if hd s = CHR ''-'' then decimal_double True (tl s)
         else if hd s = CHR ''+'' then decimal_double False (tl s)
         else decimal_double False s)"

section \<open>Integers up to 2^53 are read exactly\<close>

lemma bit_length_0 [simp]: "bit_length 0 = 0"
  by (simp add: bit_length.simps)

lemma bit_length_bounds: "0 < n \<Longrightarrow> 0 < bit_length n \<and> 2 ^ (bit_length n - 1) \<le> n \<and> n < 2 ^ bit_length n"
proof (induction n rule: bit_length.induct)
  case (1 n)
  show ?case
  proof (cases "n div 2 = 0")
    case True
    with 1 have "n = 1" by linarith
    then show ?thesis by (simp add: bit_length.simps)
  next
    case False
    with 1 have ih: "0 < bit_length (n div 2)" "2 ^ (bit_length (n div 2) - 1) \<le> n div 2" "n div 2 < 2 ^ bit_length (n div 2)"
      by simp_all
    have len: "bit_length n = Suc (bit_length (n div 2))" using 1 by (simp add: bit_length.simps)
    obtain k where k: "bit_length (n div 2) = Suc k" using ih(1) gr0_implies_Suc by blast
    from ih(2,3) show ?thesis unfolding len k by simp linarith
  qed
qed

lemma bit_length_1 [simp]: "bit_length (Suc 0) = 1"
  by (simp add: bit_length.simps)

lemma bit_length_le: "n < 2 ^ k \<Longrightarrow> bit_length n \<le> k"
proof (cases "n = 0")
  case False
  assume n: "n < 2 ^ k"
  from False bit_length_bounds [of n] have "2 ^ (bit_length n - 1) \<le> n" "0 < bit_length n" by auto
  with n have "(2::nat) ^ (bit_length n - 1) < 2 ^ k" by linarith
  then have "bit_length n - 1 < k" by simp
  with \<open>0 < bit_length n\<close> show ?thesis by linarith
qed simp

lemma round_quotient_exact [simp]: "0 < d \<Longrightarrow> round_quotient (n * d) d = n"
  by (simp add: round_quotient_def)

lemma double_exponent_nat:
  assumes "0 < n" "n < 2 ^ 53"
  shows "double_exponent n 1 = int (bit_length n) - 53"
proof -
  have len: "0 < bit_length n" "bit_length n \<le> 53" "2 ^ (bit_length n - 1) \<le> n"
    using bit_length_bounds [OF assms(1)] bit_length_le [OF assms(2)] by auto
  have neg: "int (bit_length n) - 1 - 53 < 0" and e: "nat (- (int (bit_length n) - 1 - 53)) = 54 - bit_length n"
    using len by simp_all
  have "(2::nat) ^ 53 = 2 ^ (bit_length n - 1) * 2 ^ (54 - bit_length n)"
    using len by (simp flip: power_add)
  also have "\<dots> \<le> n * 2 ^ (54 - bit_length n)" using len(3) by (rule mult_le_mono1)
  finally have "(2::nat) ^ 53 \<le> n * 2 ^ (54 - bit_length n)" .
  with neg e len show ?thesis by (simp add: double_exponent_def scaled_def)
qed

lemma to_double_nat:
  assumes "n < 2 ^ 53"
  shows "isInteger (to_double neg n 1) \<and> isFinite (to_double neg n 1)
         \<and> integer_value (to_double neg n 1) = (if neg then - int n else int n)"
proof (cases "n = 0")
  case True
  then show ?thesis by (simp add: to_double_def isInteger_def isFinite_def integer_value_def)
next
  case False
  then have len: "bit_length n \<le> 53" and e: "double_exponent n 1 = int (bit_length n) - 53"
    using bit_length_le [OF assms] double_exponent_nat assms by auto
  define k where "k = 53 - bit_length n"
  have ek: "double_exponent n 1 = - int k" using e len by (simp add: k_def)
  have "to_double neg n 1 = Double neg (n * 2 ^ k) (- int k)"
  proof (cases "k = 0")
    case True
    with ek False show ?thesis
      using round_quotient_exact [of 1 n] by (simp add: to_double_def scaled_def)
  next
    case k: False
    with ek False show ?thesis
      using round_quotient_exact [of 1 "n * 2 ^ k"] by (simp add: to_double_def scaled_def)
  qed
  then show ?thesis by (auto simp: isInteger_def isFinite_def integer_value_def)
qed

section \<open>Decimal text is read back\<close>

lemma is_digit_code: "is_digit c \<longleftrightarrow> 48 \<le> code_of c \<and> code_of c \<le> 57"
  by (auto simp: is_digit_def digit_in_def Let_def split: if_splits)

lemma digit_in_10: "is_digit c \<Longrightarrow> digit_in 10 c = Some (code_of c - 48)"
  by (auto simp: is_digit_code digit_in_def Let_def)

lemma read_digits_10: "list_all is_digit ds \<Longrightarrow> read_digits 10 acc ds = Some (dec_value acc ds)"
  by (induction ds arbitrary: acc) (auto simp: digit_in_10)

lemma read_decimal_digits:
  assumes "list_all is_digit ds" "ds \<noteq> []"
  shows "read_decimal ds = Some (dec_value 0 ds, 0)"
proof -
  have all: "takeWhile is_digit ds = ds" "dropWhile is_digit ds = []"
    using assms(1) by (auto simp: list_all_iff takeWhile_eq_all_conv dropWhile_eq_Nil_conv)
  show ?thesis unfolding read_decimal_def Let_def all using assms by (simp add: read_digits_10 read_exponent_def)
qed

lemma nat_dec_all_digits: "list_all is_digit (nat_dec n)"
  by (auto simp: list_all_iff is_digit_code dest: nat_dec_digits)

lemma decimal_double_nat: "decimal_double neg (nat_dec n) = to_double neg n 1"
proof -
  have "nat_dec n \<noteq> ''Infinity''"
  proof
    assume "nat_dec n = ''Infinity''"
    then have "is_digit CHR ''I''" using nat_dec_all_digits [of n] by simp
    then show False by (simp add: is_digit_code code_of_def)
  qed
  then show ?thesis
    by (simp add: decimal_double_def read_decimal_digits nat_dec_all_digits nat_dec_value)
qed

lemma js_trim_id: "s \<noteq> [] \<Longrightarrow> \<not> js_ws (hd s) \<Longrightarrow> \<not> js_ws (last s) \<Longrightarrow> js_trim s = s"
  by (cases s) (auto simp: js_trim_def hd_rev [symmetric] dropWhile_eq_self_iff)

lemma digit_not_ws: "is_digit c \<Longrightarrow> \<not> js_ws c"
  by (auto simp: is_digit_code js_ws_def)

lemma nat_dec_first: "is_digit (hd (nat_dec n))" "is_digit (last (nat_dec n))"
  using nat_dec_all_digits [of n] by (simp_all add: list_all_iff)

lemma second_not_letter:
  assumes "list_all is_digit (tl s)" "x \<in> {CHR ''x'', CHR ''X'', CHR ''o'', CHR ''O'', CHR ''b'', CHR ''B''}"
  shows "take 2 s \<noteq> [c, x]"
proof
  assume "take 2 s = [c, x]"
  then obtain r where "s = c # x # r" by (cases s; cases "tl s") (auto simp: numeral_2_eq_2)
  with assms show False by (auto simp: is_digit_code code_of_def)
qed

lemma js_Number_signed:
  assumes "list_all is_digit (tl s)" "s \<noteq> []" "is_digit (last s)" "\<not> js_ws (hd s)"
  shows "js_Number s = (if hd s = CHR ''-'' then decimal_double True (tl s)
           else if hd s = CHR ''+'' then decimal_double False (tl s) else decimal_double False s)"
  using assms second_not_letter [OF assms(1)] by (simp add: js_Number_def js_trim_id digit_not_ws Let_def)

lemma js_Number_int:
  assumes "\<bar>i\<bar> < 2 ^ 53"
  shows "js_Number (int_dec i) = to_double (i < 0) (nat \<bar>i\<bar>) 1"
proof (cases "i < 0")
  case True
  have "js_Number (CHR ''-'' # nat_dec (nat (- i))) = decimal_double True (nat_dec (nat (- i)))"
    using js_Number_signed [of "CHR ''-'' # nat_dec (nat (- i))"] nat_dec_all_digits nat_dec_first
    by (simp add: js_ws_def code_of_def)
  with True show ?thesis by (simp add: int_dec_def decimal_double_nat)
next
  case False
  let ?s = "nat_dec (nat i)"
  have "list_all is_digit (tl ?s)" using nat_dec_all_digits [of "nat i"] by (cases ?s) simp_all
  moreover have "hd ?s \<noteq> CHR ''-''" "hd ?s \<noteq> CHR ''+''"
    using nat_dec_first(1) [of "nat i"] by (auto simp: is_digit_code code_of_def)
  ultimately have "js_Number ?s = decimal_double False ?s"
    using js_Number_signed [of ?s] nat_dec_first [of "nat i"] by (simp add: digit_not_ws)
  with False show ?thesis by (simp add: int_dec_def decimal_double_nat)
qed

lemma js_Number_int_dec:
  assumes "\<bar>i\<bar> \<le> MAX_SAFE_INTEGER"
  shows "isFinite (js_Number (int_dec i)) \<and> isInteger (js_Number (int_dec i)) \<and> integer_value (js_Number (int_dec i)) = i"
proof -
  have b: "\<bar>i\<bar> < 2 ^ 53" using assms by (simp add: MAX_SAFE_INTEGER_def)
  then have "nat \<bar>i\<bar> < 2 ^ 53" by (simp add: nat_less_iff)
  from to_double_nat [OF this, of "i < 0"] js_Number_int [OF b] show ?thesis by auto
qed

end
