(* ===== verification/Caip.thy ===== *)
theory Caip
  imports Js_Number
begin

text \<open>
  CAIP-2 chain and CAIP-10 account identifiers: \<^verbatim>\<open>packages/wallet-bridge/src/caip.ts\<close> and the chain parser of
  \<^verbatim>\<open>apps/extension/src/wallet/utils/caip.ts\<close>. A chain id is an integral number.
\<close>

definition AZTEC_NAMESPACE :: string where
  "AZTEC_NAMESPACE = ''aztec''"

definition formatCaipChain :: "int \<Rightarrow> string" where
  "formatCaipChain chainId = AZTEC_NAMESPACE @ '':'' @ int_dec chainId"

definition formatCaipAccount :: "int \<Rightarrow> string \<Rightarrow> string" where
  "formatCaipAccount chainId address = AZTEC_NAMESPACE @ '':'' @ int_dec chainId @ '':'' @ address"

text \<open>\<^verbatim>\<open>text.split(":")\<close>.\<close>

fun split_on :: "char \<Rightarrow> string \<Rightarrow> string list" where
  "split_on c [] = [[]]"
| "split_on c (x # xs) =
     (if x = c then [] # split_on c xs
      else case split_on c xs of [] \<Rightarrow> [[x]] | p # ps \<Rightarrow> (x # p) # ps)"

datatype caip_error = InvalidIdentifier string | InvalidChainId string | MissingAddress string

definition parse_chain_id :: "string \<Rightarrow> string \<Rightarrow> caip_error + int" where
  "parse_chain_id caip part =
     (if part = [] then Inl (InvalidChainId caip)
      else let n = js_Number part
           in if \<not> isFinite n \<or> \<not> isInteger n then Inl (InvalidChainId caip) else Inr (integer_value n))"

definition parseCaipAccount :: "string \<Rightarrow> caip_error + int \<times> string" where
  "parseCaipAccount caip =
     (case split_on CHR '':'' caip of
        [ns, chain, address] \<Rightarrow>
          if ns \<noteq> AZTEC_NAMESPACE then Inl (InvalidIdentifier caip)
          else (case parse_chain_id caip chain of
                  Inl e \<Rightarrow> Inl e
                | Inr chainId \<Rightarrow> if address = [] then Inl (MissingAddress caip) else Inr (chainId, address))
      | _ \<Rightarrow> Inl (InvalidIdentifier caip))"

definition parseCaipChain :: "string \<Rightarrow> caip_error + int" where
  "parseCaipChain caip =
     (case split_on CHR '':'' caip of
        [ns, chain] \<Rightarrow> if ns \<noteq> AZTEC_NAMESPACE then Inl (InvalidIdentifier caip) else parse_chain_id caip chain
      | _ \<Rightarrow> Inl (InvalidIdentifier caip))"

definition resolveNetworkByChainId :: "('n list) \<Rightarrow> 'n option" where
  "resolveNetworkByChainId networks = (case networks of [] \<Rightarrow> None | n # _ \<Rightarrow> Some n)"

section \<open>Splitting\<close>

lemma split_on_nonempty [simp]: "split_on c s \<noteq> []"
  by (induction s) (auto split: list.splits)

lemma split_on_none: "c \<notin> set s \<Longrightarrow> split_on c s = [s]"
  by (induction s) auto

lemma split_on_append: "c \<notin> set p \<Longrightarrow> split_on c (p @ c # s) = p # split_on c s"
  by (induction p) auto

lemma int_dec_no_colon: "CHR '':'' \<notin> set (int_dec i)"
  by (auto simp: int_dec_def code_of_def dest!: nat_dec_digits)

lemma int_dec_nonempty [simp]: "int_dec i \<noteq> []"
  by (simp add: int_dec_def)

lemma namespace_no_colon: "CHR '':'' \<notin> set AZTEC_NAMESPACE"
  by (simp add: AZTEC_NAMESPACE_def)

lemma split_formatCaipAccount:
  "split_on CHR '':'' (formatCaipAccount n a) = AZTEC_NAMESPACE # int_dec n # split_on CHR '':'' a"
  by (simp add: formatCaipAccount_def split_on_append int_dec_no_colon namespace_no_colon)

lemma parse_chain_id_int_dec: "\<bar>n\<bar> \<le> MAX_SAFE_INTEGER \<Longrightarrow> parse_chain_id caip (int_dec n) = Inr n"
  using js_Number_int_dec [of n] by (simp add: parse_chain_id_def)

section \<open>Round trips\<close>

lemma parse_format_account:
  assumes "\<bar>n\<bar> \<le> MAX_SAFE_INTEGER" "a \<noteq> []" "CHR '':'' \<notin> set a"
  shows "parseCaipAccount (formatCaipAccount n a) = Inr (n, a)"
  using assms by (simp add: parseCaipAccount_def split_formatCaipAccount split_on_none parse_chain_id_int_dec)

lemma parse_format_chain:
  assumes "\<bar>n\<bar> \<le> MAX_SAFE_INTEGER"
  shows "parseCaipChain (formatCaipChain n) = Inr n"
  using assms
  by (simp add: parseCaipChain_def formatCaipChain_def split_on_append split_on_none int_dec_no_colon namespace_no_colon
      parse_chain_id_int_dec)

lemma formatCaipAccount_inject:
  assumes "formatCaipAccount n a = formatCaipAccount m b"
  shows "n = m \<and> a = b"
proof -
  have "split_on CHR '':'' (formatCaipAccount n a) = split_on CHR '':'' (formatCaipAccount m b)" using assms by simp
  then have "n = m" by (simp add: split_formatCaipAccount)
  with assms show ?thesis by (simp add: formatCaipAccount_def)
qed

end
