(* ===== verification/Method_Registry.thy ===== *)
theory Method_Registry
  imports Scope_Checkers Caip
begin

text \<open>
  The table of wallet methods and the guard ladder every dispatched request climbs:
  \<^verbatim>\<open>method-descriptors.ts\<close>, \<^verbatim>\<open>capability-map.ts\<close>, \<^verbatim>\<open>scope-enforcement.ts\<close> and, of \<^verbatim>\<open>dispatcher.ts\<close>, the argument
  shape guard, \<^verbatim>\<open>enforceCapability\<close> and \<^verbatim>\<open>enforceMethodAndScope\<close>. The exempt reason of a descriptor is kept as a flag;
  its notes are left out.
\<close>

section \<open>Descriptors\<close>

datatype dapp_operation_kind =
    Aztec_getChainInfo | Aztec_getContractClassMetadata | Aztec_getContractMetadata | Aztec_getPrivateEvents
  | Aztec_registerSender | Aztec_getAddressBook | Aztec_registerContract
  | Aztec_simulateTx | Aztec_executeUtility | Aztec_profileTx | Aztec_createAuthWit

datatype method_routing = NetworkOperation dapp_operation_kind | AccountOperation dapp_operation_kind | Handler

type_synonym scope_check = "nat \<Rightarrow> wire list \<Rightarrow> granted_record list \<Rightarrow> scope_error + unit"

record method_descriptor =
  md_capability :: "cap_type option"
  md_exempt :: bool
  md_routing :: method_routing
  md_scopeCheck :: "scope_check option"
  md_argSchema :: "(wire list \<Rightarrow> bool) option"

section \<open>Argument guards\<close>

definition argsRequestCapabilities :: "wire list \<Rightarrow> bool" where
  "argsRequestCapabilities args =
     (let manifest = arg args 0
      in if nullish manifest then True
         else if \<not> isRecord manifest then False
         else let caps = opt_get manifest ''capabilities''
              in if nullish caps then True
                 else case caps of WArr cs \<Rightarrow> list_all (\<lambda>c. \<not> nullish c) cs | _ \<Rightarrow> False)"

definition is_array :: "wire \<Rightarrow> bool" where
  "is_array v = (case v of WArr _ \<Rightarrow> True | _ \<Rightarrow> False)"

definition argsBatch :: "wire list \<Rightarrow> bool" where
  "argsBatch args =
     (case arg args 0 of
        WArr legs \<Rightarrow> list_all (\<lambda>leg. isRecord leg \<and> is_string (opt_get leg ''name'') \<and> is_array (opt_get leg ''args'')) legs
      | _ \<Rightarrow> False)"

definition argsCreateAuthWit :: "wire list \<Rightarrow> bool" where
  "argsCreateAuthWit args = (2 \<le> length args)"

definition argsOneRequired :: "wire list \<Rightarrow> bool" where
  "argsOneRequired args = (1 \<le> length args)"

definition argsTwoRequired :: "wire list \<Rightarrow> bool" where
  "argsTwoRequired args = (2 \<le> length args)"

section \<open>The registry\<close>

definition exempt_row :: "method_routing \<Rightarrow> (wire list \<Rightarrow> bool) option \<Rightarrow> method_descriptor" where
  "exempt_row r s = \<lparr>md_capability = None, md_exempt = True, md_routing = r, md_scopeCheck = None, md_argSchema = s\<rparr>"

definition granted_row ::
  "cap_type \<Rightarrow> method_routing \<Rightarrow> scope_check option \<Rightarrow> (wire list \<Rightarrow> bool) option \<Rightarrow> method_descriptor" where
  "granted_row c r k s = \<lparr>md_capability = Some c, md_exempt = False, md_routing = r, md_scopeCheck = k, md_argSchema = s\<rparr>"

definition METHOD_REGISTRY :: "(string, method_descriptor) jsmap" where
  "METHOD_REGISTRY =
    [(''getChainInfo'', exempt_row (NetworkOperation Aztec_getChainInfo) None),
     (''requestCapabilities'', exempt_row Handler (Some argsRequestCapabilities)),
     (''batch'', exempt_row Handler (Some argsBatch)),
     (''getWalletFeatures'', exempt_row Handler None),
     (''createAuthWit'', granted_row TAccounts Handler (Some checkCreateAuthWit) (Some argsCreateAuthWit)),
     (''registerToken'', granted_row TAccounts Handler None (Some argsTwoRequired)),
     (''getAccounts'', granted_row TAccounts Handler (Some (\<lambda>M. checkGetAccounts)) None),
     (''isTokenRegistered'', granted_row TContracts Handler (Some checkIsTokenRegistered) (Some argsOneRequired)),
     (''registerContract'', granted_row TContracts (NetworkOperation Aztec_registerContract) (Some checkRegisterContract) (Some argsOneRequired)),
     (''getContractMetadata'', granted_row TContracts (NetworkOperation Aztec_getContractMetadata) (Some checkGetContractMetadata) (Some argsOneRequired)),
     (''getContractClassMetadata'', granted_row TContractClasses (NetworkOperation Aztec_getContractClassMetadata) (Some checkGetContractClassMetadata) (Some argsOneRequired)),
     (''registerContractClass'', granted_row TContractClasses Handler (Some (\<lambda>M. checkRegisterContractClassDisabled)) None),
     (''simulateTx'', granted_row TSimulation (AccountOperation Aztec_simulateTx) (Some checkSimulateTx) None),
     (''executeUtility'', granted_row TSimulation (AccountOperation Aztec_executeUtility) (Some checkExecuteUtility) None),
     (''profileTx'', granted_row TSimulation (AccountOperation Aztec_profileTx) (Some checkProfileTx) None),
     (''sendTx'', granted_row TTransaction Handler (Some checkSendTx) None),
     (''grantPublicAuthwit'', granted_row TTransaction Handler (Some checkGrantPublicAuthwit) (Some argsTwoRequired)),
     (''getPrivateEvents'', granted_row TData (NetworkOperation Aztec_getPrivateEvents) (Some checkGetPrivateEvents) (Some argsTwoRequired)),
     (''getAddressBook'', granted_row TData (NetworkOperation Aztec_getAddressBook) (Some (\<lambda>M. checkGetAddressBook)) None),
     (''registerSender'', granted_row TData (NetworkOperation Aztec_registerSender) (Some (\<lambda>M. checkRegisterSender)) (Some argsOneRequired))]"

section \<open>Derived tables\<close>

definition deriveRecord :: "(string, method_descriptor) jsmap \<Rightarrow> (method_descriptor \<Rightarrow> 'v option) \<Rightarrow> (string, 'v) jsmap" where
  "deriveRecord registry project = List.map_filter (\<lambda>(m, d). map_option (Pair m) (project d)) registry"

definition deriveSet :: "(string, method_descriptor) jsmap \<Rightarrow> (string \<Rightarrow> method_descriptor \<Rightarrow> 'v option) \<Rightarrow> 'v list" where
  "deriveSet registry project = remdups (List.map_filter (\<lambda>(m, d). project m d) registry)"

definition deriveCapabilityMap :: "(string, method_descriptor) jsmap \<Rightarrow> (string, cap_type) jsmap" where
  "deriveCapabilityMap registry = deriveRecord registry md_capability"

definition deriveExemptSet :: "(string, method_descriptor) jsmap \<Rightarrow> string list" where
  "deriveExemptSet registry = deriveSet registry (\<lambda>m d. if md_exempt d then Some m else None)"

definition routing_kind :: "method_routing \<Rightarrow> dapp_operation_kind option" where
  "routing_kind r = (case r of NetworkOperation k \<Rightarrow> Some k | AccountOperation k \<Rightarrow> Some k | Handler \<Rightarrow> None)"

definition deriveMethodToKind :: "(string, method_descriptor) jsmap \<Rightarrow> (string, dapp_operation_kind) jsmap" where
  "deriveMethodToKind registry = deriveRecord registry (\<lambda>d. routing_kind (md_routing d))"

definition deriveNetworkOnlyKinds :: "(string, method_descriptor) jsmap \<Rightarrow> dapp_operation_kind list" where
  "deriveNetworkOnlyKinds registry =
     deriveSet registry (\<lambda>m d. case md_routing d of NetworkOperation k \<Rightarrow> Some k | _ \<Rightarrow> None)"

definition deriveAccountKinds :: "(string, method_descriptor) jsmap \<Rightarrow> dapp_operation_kind list" where
  "deriveAccountKinds registry =
     deriveSet registry (\<lambda>m d. case md_routing d of AccountOperation k \<Rightarrow> Some k | _ \<Rightarrow> None)"

definition deriveScopeCheckerMap :: "(string, method_descriptor) jsmap \<Rightarrow> (string, scope_check) jsmap" where
  "deriveScopeCheckerMap registry = deriveRecord registry md_scopeCheck"

definition assertKnownMethod :: "string \<Rightarrow> scope_error + unit" where
  "assertKnownMethod name = require_e (js_has METHOD_REGISTRY name) (UnsupportedMethod name)"

definition METHOD_CAPABILITY_MAP :: "(string, cap_type) jsmap" where
  "METHOD_CAPABILITY_MAP = deriveCapabilityMap METHOD_REGISTRY"

definition EXEMPT_METHODS :: "string list" where
  "EXEMPT_METHODS = deriveExemptSet METHOD_REGISTRY"

definition METHOD_TO_KIND :: "(string, dapp_operation_kind) jsmap" where
  "METHOD_TO_KIND = deriveMethodToKind METHOD_REGISTRY"

definition NETWORK_ONLY_KINDS :: "dapp_operation_kind list" where
  "NETWORK_ONLY_KINDS = deriveNetworkOnlyKinds METHOD_REGISTRY"

definition ACCOUNT_KINDS :: "dapp_operation_kind list" where
  "ACCOUNT_KINDS = deriveAccountKinds METHOD_REGISTRY"

definition METHOD_SCOPE_CHECKER :: "(string, scope_check) jsmap" where
  "METHOD_SCOPE_CHECKER = deriveScopeCheckerMap METHOD_REGISTRY"

definition getRequiredCapability :: "string \<Rightarrow> cap_type option" where
  "getRequiredCapability name = js_get METHOD_CAPABILITY_MAP name"

definition isCapabilityExempt :: "string \<Rightarrow> bool" where
  "isCapabilityExempt name = (name \<in> set EXEMPT_METHODS)"

section \<open>Sessions\<close>

text \<open>
  A stored dApp session. Absent grants, rejections and aliases are empty lists, as every reader takes
  them; a rejected type is kept as the value it was requested with; the consent is the stored value, or
  undefined.
\<close>

record dapp_session =
  ds_id :: string
  ds_profileId :: string
  ds_chainId :: string
  ds_url :: "string option"
  ds_permissions :: "(string list \<times> string list) list"
  ds_accounts :: "string list"
  ds_confirmationLevel :: nat
  ds_expiry :: time
  ds_verificationHash :: "string option"
  ds_trusted :: "bool option"
  ds_aliases :: "(string, string) jsmap"
  ds_grants :: "granted_record list"
  ds_rejections :: "(wire \<times> time) list"
  ds_consent :: wire

definition blank_session :: "string \<Rightarrow> string \<Rightarrow> string \<Rightarrow> string option \<Rightarrow> (string list \<times> string list) list \<Rightarrow> string list \<Rightarrow> nat \<Rightarrow> time \<Rightarrow> dapp_session" where
  "blank_session i profileId chainId url permissions accounts level expiry =
     \<lparr>ds_id = i, ds_profileId = profileId, ds_chainId = chainId, ds_url = url, ds_permissions = permissions, ds_accounts = accounts,
      ds_confirmationLevel = level, ds_expiry = expiry, ds_verificationHash = None, ds_trusted = None, ds_aliases = [],
      ds_grants = [], ds_rejections = [], ds_consent = WUndef\<rparr>"

definition sessionAccountsOf :: "dapp_session \<Rightarrow> string list" where
  "sessionAccountsOf s =
     concat (map (\<lambda>e. case parseCaipAccount e of Inl _ \<Rightarrow> [e] | Inr (_, address) \<Rightarrow> [e, address]) (ds_accounts s))"

section \<open>Scope enforcement\<close>

definition validateAccountScopes :: "wire \<Rightarrow> string list \<Rightarrow> string \<Rightarrow> account_field \<Rightarrow> scope_error + unit" where
  "validateAccountScopes scopeField accounts meth field =
     (case scopeField of
        WArr entries \<Rightarrow>
          each_e (\<lambda>e. and_then (string_of e) (\<lambda>a. require_e (a \<in> set accounts) (AccountViolation meth field))) entries
      | _ \<Rightarrow> Inr ())"

definition enforceScope :: "nat \<Rightarrow> string \<Rightarrow> wire list \<Rightarrow> granted_record list \<Rightarrow> scope_error + unit" where
  "enforceScope M name args grants =
     (case js_get METHOD_SCOPE_CHECKER name of None \<Rightarrow> Inr () | Some checker \<Rightarrow> checker M args grants)"

definition enforceScopeWithSession ::
  "nat \<Rightarrow> string \<Rightarrow> wire list \<Rightarrow> granted_record list \<Rightarrow> string list \<Rightarrow> scope_error + unit" where
  "enforceScopeWithSession M name args grants accounts =
     and_then (enforceScope M name args grants) (\<lambda>_.
     and_then (validateAccountScopes (opt_get (arg args 0) ''scopes'') accounts name ExecScopes) (\<lambda>_.
     and_then (validateAccountScopes (opt_get (arg args 1) ''scopes'') accounts name OptsScopes) (\<lambda>_.
     and_then (validateAccountScopes (opt_get (arg args 1) ''additionalScopes'') accounts name OptsAdditionalScopes) (\<lambda>_.
       if name = ''getPrivateEvents''
       then validateAccountScopes (opt_get (arg args 1) ''scopes'') accounts name FilterScopes
       else Inr ()))))"

section \<open>The ladder\<close>

definition assertCall :: "string \<Rightarrow> wire \<Rightarrow> scope_error + unit" where
  "assertCall name c =
     require_e (is_object c \<and> opt_get c ''to'' \<noteq> WUndef \<and> is_string (opt_get c ''name'')) (MalformedRequest name BadCall)"

definition assertExecCalls :: "string \<Rightarrow> wire \<Rightarrow> scope_error + unit" where
  "assertExecCalls name exec =
     (if \<not> is_object exec then Inl (MalformedRequest name BadExec)
      else case opt_get exec ''calls'' of
             WArr calls \<Rightarrow> each_e (assertCall name) calls
           | _ \<Rightarrow> Inl (MalformedRequest name BadCalls))"

definition assertAuthRelevantArgShape :: "string \<Rightarrow> wire list \<Rightarrow> scope_error + unit" where
  "assertAuthRelevantArgShape name args =
     (if name = ''sendTx'' \<or> name = ''profileTx'' then assertExecCalls name (arg args 0)
      else if name = ''executeUtility'' then assertCall name (arg args 0)
      else if name = ''createAuthWit'' then require_e (\<not> nullish (arg args 0)) (MalformedRequest name BadFrom)
      else if name = ''registerToken'' then
        require_e (\<not> nullish (arg args 0) \<and> \<not> nullish (arg args 1)) (MalformedRequest name BadPositional)
      else Inr ())"

definition enforceCapability :: "string \<Rightarrow> dapp_session option \<Rightarrow> scope_error + granted_record list" where
  "enforceCapability name session =
     (if isCapabilityExempt name then Inr []
      else case getRequiredCapability name of
        None \<Rightarrow> Inr []
      | Some requiredType \<Rightarrow>
          (case session of
             None \<Rightarrow> Inl (CapabilityNotGranted requiredType)
           | Some s \<Rightarrow>
               if list_ex (\<lambda>g. type_of_cap (gr_capability g) = Some requiredType) (ds_grants s)
               then Inr (ds_grants s) else Inl (CapabilityNotGranted requiredType)))"

definition enforceMethodAndScope ::
  "nat \<Rightarrow> string \<Rightarrow> wire list \<Rightarrow> dapp_session option \<Rightarrow> scope_error + (string \<times> granted_record list)" where
  "enforceMethodAndScope M name args session =
     and_then (assertKnownMethod name) (\<lambda>_.
     and_then (case js_get METHOD_REGISTRY name of
                 Some d \<Rightarrow> (case md_argSchema d of
                             None \<Rightarrow> Inr ()
                           | Some schema \<Rightarrow> require_e (schema args) (InvalidArguments name))
               | None \<Rightarrow> Inr ()) (\<lambda>_.
     and_then (assertAuthRelevantArgShape name args) (\<lambda>_.
     and_then (enforceCapability name session) (\<lambda>grants.
     and_then (if grants = [] then Inr ()
               else case session of
                      Some s \<Rightarrow> enforceScopeWithSession M name args grants (sessionAccountsOf s)
                    | None \<Rightarrow> enforceScope M name args grants) (\<lambda>_.
       Inr (name, grants))))))"

section \<open>Table lookups\<close>

lemma distinct_registry: "distinct (js_keys METHOD_REGISTRY)"
  by (simp add: METHOD_REGISTRY_def)

lemma js_get_deriveRecord:
  "distinct (js_keys reg) \<Longrightarrow> js_get (deriveRecord reg p) m = Option.bind (js_get reg m) p"
proof (induction reg)
  case (Cons r reg)
  obtain k d where r: "r = (k, d)" by (cases r)
  have "js_get reg k = None" using Cons.prems r by (simp add: map_of_eq_None_iff)
  with Cons r show ?case by (cases "p d") (auto simp: deriveRecord_def map_filter_simps)
qed (simp add: deriveRecord_def map_filter_simps)

lemma in_deriveExemptSet:
  "distinct (js_keys reg) \<Longrightarrow> m \<in> set (deriveExemptSet reg) \<longleftrightarrow> (\<exists>d. js_get reg m = Some d \<and> md_exempt d)"
  by (auto simp: deriveExemptSet_def deriveSet_def set_map_filter_iff map_of_eq_Some_iff split: if_splits) force

lemma isCapabilityExempt_row:
  "isCapabilityExempt m \<longleftrightarrow> (\<exists>d. js_get METHOD_REGISTRY m = Some d \<and> md_exempt d)"
  by (simp add: isCapabilityExempt_def EXEMPT_METHODS_def in_deriveExemptSet distinct_registry)

lemma getRequiredCapability_row: "getRequiredCapability m = Option.bind (js_get METHOD_REGISTRY m) md_capability"
  by (simp add: getRequiredCapability_def METHOD_CAPABILITY_MAP_def deriveCapabilityMap_def js_get_deriveRecord distinct_registry)

lemma scopeChecker_row: "js_get METHOD_SCOPE_CHECKER m = Option.bind (js_get METHOD_REGISTRY m) md_scopeCheck"
  by (simp add: METHOD_SCOPE_CHECKER_def deriveScopeCheckerMap_def js_get_deriveRecord distinct_registry)

section \<open>The ladder, row by row\<close>

definition schema_ok :: "(wire list \<Rightarrow> bool) option \<Rightarrow> wire list \<Rightarrow> bool" where
  "schema_ok sch args \<longleftrightarrow> (\<forall>p. sch = Some p \<longrightarrow> p args)"

definition session_account :: "dapp_session \<Rightarrow> string \<Rightarrow> bool" where
  "session_account s a \<longleftrightarrow> a \<in> set (ds_accounts s) \<or> (\<exists>caip\<in>set (ds_accounts s). \<exists>n. parseCaipAccount caip = Inr (n, a))"

text \<open>Every account list a request carries names session accounts only.\<close>

definition names_session_accounts :: "dapp_session \<Rightarrow> wire \<Rightarrow> bool" where
  "names_session_accounts s v \<longleftrightarrow>
     (\<forall>entries. v = WArr entries \<longrightarrow> (\<forall>e\<in>set entries. \<exists>a. js_String e = Some a \<and> session_account s a))"

definition accounts_within :: "dapp_session \<Rightarrow> wire list \<Rightarrow> bool" where
  "accounts_within s args \<longleftrightarrow>
     names_session_accounts s (opt_get (arg args 0) ''scopes'')
     \<and> names_session_accounts s (opt_get (arg args 1) ''scopes'')
     \<and> names_session_accounts s (opt_get (arg args 1) ''additionalScopes'')"

lemma sessionAccountsOf_iff: "a \<in> set (sessionAccountsOf s) \<longleftrightarrow> session_account s a"
proof -
  define f where "f e = (case parseCaipAccount e of Inl _ \<Rightarrow> [e] | Inr (_, address) \<Rightarrow> [e, address])" for e
  have f: "a \<in> set (f e) \<longleftrightarrow> a = e \<or> (\<exists>n. parseCaipAccount e = Inr (n, a))" for e
    unfolding f_def by (cases "parseCaipAccount e") auto
  have "sessionAccountsOf s = concat (map f (ds_accounts s))"
    unfolding sessionAccountsOf_def f_def ..
  then have "a \<in> set (sessionAccountsOf s) \<longleftrightarrow> (\<exists>e\<in>set (ds_accounts s). a \<in> set (f e))" by simp
  then show ?thesis unfolding f session_account_def by metis
qed

lemma validateAccountScopes_Inr:
  "validateAccountScopes v (sessionAccountsOf s) m f = Inr u \<longleftrightarrow> names_session_accounts s v"
  by (auto simp: validateAccountScopes_def names_session_accounts_def and_then_Inr sessionAccountsOf_iff split: wire.splits)

lemma enforceScopeWithSession_Inr:
  "enforceScopeWithSession M m args grants (sessionAccountsOf s) = Inr u
     \<longleftrightarrow> enforceScope M m args grants = Inr () \<and> accounts_within s args"
  unfolding enforceScopeWithSession_def and_then_Inr validateAccountScopes_Inr accounts_within_def
  by (auto simp: validateAccountScopes_Inr)

lemma ladder_exempt:
  assumes "js_get METHOD_REGISTRY name = Some (exempt_row r sch)"
  shows "enforceMethodAndScope M name args session = Inr (m, grants)
    \<longleftrightarrow> m = name \<and> grants = [] \<and> schema_ok sch args \<and> assertAuthRelevantArgShape name args = Inr ()"
  using assms
  by (auto simp: enforceMethodAndScope_def assertKnownMethod_def and_then_Inr enforceCapability_def
      isCapabilityExempt_row exempt_row_def schema_ok_def split: option.splits)

lemma enforceCapability_row:
  assumes "js_get METHOD_REGISTRY name = Some (granted_row t r chk sch)"
  shows "enforceCapability name session = Inr grants
    \<longleftrightarrow> (\<exists>s. session = Some s \<and> grants = ds_grants s \<and> (\<exists>g\<in>set grants. type_of_cap (gr_capability g) = Some t))"
  using assms
  by (auto simp: enforceCapability_def isCapabilityExempt_row getRequiredCapability_row granted_row_def list_ex_iff
      split: option.splits)

lemma ladder_granted:
  assumes row: "js_get METHOD_REGISTRY name = Some (granted_row t r chk sch)"
  shows "enforceMethodAndScope M name args session = Inr (m, grants)
    \<longleftrightarrow> m = name \<and> schema_ok sch args \<and> assertAuthRelevantArgShape name args = Inr ()
        \<and> (\<exists>s. session = Some s \<and> grants = ds_grants s \<and> (\<exists>g\<in>set grants. type_of_cap (gr_capability g) = Some t)
               \<and> (\<forall>k. chk = Some k \<longrightarrow> k M args grants = Inr ()) \<and> accounts_within s args)"
proof -
  have scope: "enforceScope M name args grants = Inr () \<longleftrightarrow> (\<forall>k. chk = Some k \<longrightarrow> k M args grants = Inr ())" for grants
    using row by (auto simp: enforceScope_def scopeChecker_row granted_row_def split: option.splits)
  have guard: "(case js_get METHOD_REGISTRY name of None \<Rightarrow> Inr () | Some d \<Rightarrow> (case md_argSchema d of
       None \<Rightarrow> Inr () | Some schema \<Rightarrow> require_e (schema args) (InvalidArguments name))) = Inr u \<longleftrightarrow> schema_ok sch args" for u
    using row by (auto simp: schema_ok_def granted_row_def split: option.splits)
  have known: "assertKnownMethod name = Inr u" for u using row by (simp add: assertKnownMethod_def)
  show ?thesis
    unfolding enforceMethodAndScope_def and_then_Inr guard known enforceCapability_row [OF row]
    by (cases session) (auto simp: known scope enforceScopeWithSession_Inr split: if_splits)
qed

lemma ladder_checked:
  assumes row: "js_get METHOD_REGISTRY name = Some (granted_row t r (Some k) sch)"
    and check: "grant_check (k M) t (\<lambda>c. permits M c name)"
  shows "enforceMethodAndScope M name args session = Inr (m, grants)
    \<longleftrightarrow> m = name \<and> schema_ok sch args \<and> assertAuthRelevantArgShape name args = Inr ()
        \<and> (\<exists>s g. session = Some s \<and> grants = ds_grants s \<and> g \<in> set (ds_grants s)
               \<and> permits M (gr_capability g) name args \<and> accounts_within s args)"
  unfolding ladder_granted [OF row]
  using grant_check.check_iff_grant [OF check, of "ds_grants _" args] grant_check.allows_type [OF check]
  by auto blast+

section \<open>The rows\<close>

lemma registry_rows:
  "js_get METHOD_REGISTRY ''getChainInfo'' = Some (exempt_row (NetworkOperation Aztec_getChainInfo) None)"
  "js_get METHOD_REGISTRY ''requestCapabilities'' = Some (exempt_row Handler (Some argsRequestCapabilities))"
  "js_get METHOD_REGISTRY ''batch'' = Some (exempt_row Handler (Some argsBatch))"
  "js_get METHOD_REGISTRY ''getWalletFeatures'' = Some (exempt_row Handler None)"
  "js_get METHOD_REGISTRY ''createAuthWit'' = Some (granted_row TAccounts Handler (Some checkCreateAuthWit) (Some argsCreateAuthWit))"
  "js_get METHOD_REGISTRY ''registerToken'' = Some (granted_row TAccounts Handler None (Some argsTwoRequired))"
  "js_get METHOD_REGISTRY ''getAccounts'' = Some (granted_row TAccounts Handler (Some (\<lambda>M. checkGetAccounts)) None)"
  "js_get METHOD_REGISTRY ''isTokenRegistered'' = Some (granted_row TContracts Handler (Some checkIsTokenRegistered) (Some argsOneRequired))"
  "js_get METHOD_REGISTRY ''registerContract'' = Some (granted_row TContracts (NetworkOperation Aztec_registerContract) (Some checkRegisterContract) (Some argsOneRequired))"
  "js_get METHOD_REGISTRY ''getContractMetadata'' = Some (granted_row TContracts (NetworkOperation Aztec_getContractMetadata) (Some checkGetContractMetadata) (Some argsOneRequired))"
  "js_get METHOD_REGISTRY ''getContractClassMetadata'' = Some (granted_row TContractClasses (NetworkOperation Aztec_getContractClassMetadata) (Some checkGetContractClassMetadata) (Some argsOneRequired))"
  "js_get METHOD_REGISTRY ''registerContractClass'' = Some (granted_row TContractClasses Handler (Some (\<lambda>M. checkRegisterContractClassDisabled)) None)"
  "js_get METHOD_REGISTRY ''simulateTx'' = Some (granted_row TSimulation (AccountOperation Aztec_simulateTx) (Some checkSimulateTx) None)"
  "js_get METHOD_REGISTRY ''executeUtility'' = Some (granted_row TSimulation (AccountOperation Aztec_executeUtility) (Some checkExecuteUtility) None)"
  "js_get METHOD_REGISTRY ''profileTx'' = Some (granted_row TSimulation (AccountOperation Aztec_profileTx) (Some checkProfileTx) None)"
  "js_get METHOD_REGISTRY ''sendTx'' = Some (granted_row TTransaction Handler (Some checkSendTx) None)"
  "js_get METHOD_REGISTRY ''grantPublicAuthwit'' = Some (granted_row TTransaction Handler (Some checkGrantPublicAuthwit) (Some argsTwoRequired))"
  "js_get METHOD_REGISTRY ''getPrivateEvents'' = Some (granted_row TData (NetworkOperation Aztec_getPrivateEvents) (Some checkGetPrivateEvents) (Some argsTwoRequired))"
  "js_get METHOD_REGISTRY ''getAddressBook'' = Some (granted_row TData (NetworkOperation Aztec_getAddressBook) (Some (\<lambda>M. checkGetAddressBook)) None)"
  "js_get METHOD_REGISTRY ''registerSender'' = Some (granted_row TData (NetworkOperation Aztec_registerSender) (Some (\<lambda>M. checkRegisterSender)) (Some argsOneRequired))"
  by (simp_all add: METHOD_REGISTRY_def)

section \<open>What a request needs\<close>

text \<open>
  The requests that reach their handler, stated without the tables and the order of the checks: the four
  open methods, the requests one stored grant permits, an authorization witness, and a token import. All
  but the open ones need the session, and every account list they carry names session accounts.
\<close>

definition named_call :: "wire \<Rightarrow> bool" where
  "named_call c \<longleftrightarrow> is_object c \<and> opt_get c ''to'' \<noteq> WUndef \<and> is_string (opt_get c ''name'')"

definition min_args :: "string \<Rightarrow> nat" where
  "min_args name =
     (if name \<in> {''isTokenRegistered'', ''registerContract'', ''getContractMetadata'', ''getContractClassMetadata'', ''registerSender''} then 1
      else if name \<in> {''grantPublicAuthwit'', ''getPrivateEvents''} then 2 else 0)"

definition well_shaped :: "string \<Rightarrow> wire list \<Rightarrow> bool" where
  "well_shaped name args \<longleftrightarrow> min_args name \<le> length args
     \<and> (name \<in> {''sendTx'', ''profileTx''} \<longrightarrow> (\<exists>calls. calls_of args = Some calls \<and> (\<forall>call\<in>set calls. named_call call)))
     \<and> (name = ''executeUtility'' \<longrightarrow> named_call (arg args 0))"

inductive authorized :: "nat \<Rightarrow> dapp_session option \<Rightarrow> string \<Rightarrow> wire list \<Rightarrow> granted_record list \<Rightarrow> bool" for M session where
  open_method: "name \<in> {''getChainInfo'', ''getWalletFeatures''} \<Longrightarrow> authorized M session name args []"
| negotiation: "argsRequestCapabilities args \<Longrightarrow> authorized M session ''requestCapabilities'' args []"
| batch: "argsBatch args \<Longrightarrow> authorized M session ''batch'' args []"
| by_grant: "session = Some s \<Longrightarrow> g \<in> set (ds_grants s) \<Longrightarrow> permits M (gr_capability g) name args \<Longrightarrow> well_shaped name args
    \<Longrightarrow> accounts_within s args \<Longrightarrow> authorized M session name args (ds_grants s)"
| authwit: "session = Some s \<Longrightarrow> authwit_permitted M (ds_grants s) args \<Longrightarrow> \<not> nullish (arg args 0) \<Longrightarrow> 2 \<le> length args
    \<Longrightarrow> accounts_within s args \<Longrightarrow> authorized M session ''createAuthWit'' args (ds_grants s)"
| token: "session = Some s \<Longrightarrow> g \<in> set (ds_grants s) \<Longrightarrow> type_of_cap (gr_capability g) = Some TAccounts
    \<Longrightarrow> \<not> nullish (arg args 0) \<Longrightarrow> \<not> nullish (arg args 1) \<Longrightarrow> accounts_within s args
    \<Longrightarrow> authorized M session ''registerToken'' args (ds_grants s)"

lemma permits_names:
  "permits M c name args \<Longrightarrow> name \<in> {''registerContract'', ''getContractMetadata'', ''isTokenRegistered'',
     ''getContractClassMetadata'', ''sendTx'', ''grantPublicAuthwit'', ''simulateTx'', ''profileTx'', ''executeUtility'',
     ''getPrivateEvents'', ''getAddressBook'', ''registerSender'', ''getAccounts''}"
  by (induction rule: permits.induct) auto

lemma authorized_known: "authorized M session name args grants \<Longrightarrow> js_has METHOD_REGISTRY name"
proof (induction rule: authorized.induct)
  case (by_grant s g name args)
  then show ?case using permits_names [OF by_grant(3)] by (auto simp: registry_rows)
qed (auto simp: registry_rows)

definition grant_methods :: "string list" where
  "grant_methods = [''registerContract'', ''getContractMetadata'', ''isTokenRegistered'', ''getContractClassMetadata'', ''sendTx'',
     ''grantPublicAuthwit'', ''simulateTx'', ''profileTx'', ''executeUtility'', ''getPrivateEvents'', ''getAddressBook'',
     ''registerSender'', ''getAccounts'']"

lemma authorized_by_grant:
  assumes "name \<in> set grant_methods"
  shows "authorized M session name args grants
    \<longleftrightarrow> (\<exists>s g. session = Some s \<and> grants = ds_grants s \<and> g \<in> set (ds_grants s) \<and> permits M (gr_capability g) name args
           \<and> well_shaped name args \<and> accounts_within s args)" (is "_ \<longleftrightarrow> ?R")
proof
  assume "authorized M session name args grants"
  then show ?R using assms by cases (auto simp: grant_methods_def)
next
  assume ?R
  then show "authorized M session name args grants" by (auto intro: authorized.by_grant)
qed

lemma assertCall_named: "assertCall name c = Inr () \<longleftrightarrow> named_call c"
  by (simp add: assertCall_def named_call_def)

lemma assertExecCalls_named:
  "assertExecCalls name (arg args 0) = Inr () \<longleftrightarrow> (\<exists>calls. calls_of args = Some calls \<and> (\<forall>call\<in>set calls. named_call call))"
  by (cases "arg args 0") (auto simp: assertExecCalls_def is_object_def calls_of_def assertCall_named split: wire.splits)

lemma shape_plain:
  assumes "name \<notin> {''sendTx'', ''profileTx'', ''executeUtility'', ''createAuthWit'', ''registerToken''}"
  shows "assertAuthRelevantArgShape name args = Inr ()" "well_shaped name args \<longleftrightarrow> min_args name \<le> length args"
  using assms by (auto simp: assertAuthRelevantArgShape_def well_shaped_def)

lemma schema_ok_simps [simp]: "schema_ok None args" "schema_ok (Some p) args \<longleftrightarrow> p args"
  by (simp_all add: schema_ok_def)

lemmas schema_simps = argsOneRequired_def argsTwoRequired_def min_args_def grant_methods_def

lemmas shape_called = assertAuthRelevantArgShape_def assertExecCalls_named assertCall_named well_shaped_def schema_simps

lemma ladder_grant_row:
  assumes row: "js_get METHOD_REGISTRY name = Some (granted_row t r (Some k) sch)"
    and check: "grant_check (k M) t (\<lambda>c. permits M c name)"
    and shape: "schema_ok sch args \<and> assertAuthRelevantArgShape name args = Inr () \<longleftrightarrow> well_shaped name args"
    and name: "name \<in> set grant_methods"
  shows "enforceMethodAndScope M name args session = Inr (m, grants) \<longleftrightarrow> m = name \<and> authorized M session name args grants"
  using ladder_checked [OF row check, of args session m grants] shape
  unfolding authorized_by_grant [OF name] by blast

lemma ladder_grant_method:
  assumes "name \<in> set grant_methods"
  shows "enforceMethodAndScope M name args session = Inr (m, grants) \<longleftrightarrow> m = name \<and> authorized M session name args grants"
proof -
  from assms have "name = ''registerContract'' \<or> name = ''getContractMetadata'' \<or> name = ''isTokenRegistered''
    \<or> name = ''getContractClassMetadata'' \<or> name = ''sendTx'' \<or> name = ''grantPublicAuthwit''
    \<or> name = ''simulateTx'' \<or> name = ''profileTx'' \<or> name = ''executeUtility''
    \<or> name = ''getPrivateEvents'' \<or> name = ''getAddressBook'' \<or> name = ''registerSender''
    \<or> name = ''getAccounts''"
    by (simp add: grant_methods_def)
  then show ?thesis
  proof (elim disjE)
    assume n: "name = ''registerContract''"
    show ?thesis unfolding n
      by (rule ladder_grant_row [OF registry_rows(9) register_contract.grant_check_axioms])
        (simp_all add: shape_plain schema_simps)
  next
    assume n: "name = ''getContractMetadata''"
    show ?thesis unfolding n
      by (rule ladder_grant_row [OF registry_rows(10) contract_metadata.grant_check_axioms])
        (simp_all add: shape_plain schema_simps)
  next
    assume n: "name = ''isTokenRegistered''"
    show ?thesis unfolding n
      by (rule ladder_grant_row [OF registry_rows(8) token_registered.grant_check_axioms])
        (simp_all add: shape_plain schema_simps)
  next
    assume n: "name = ''getContractClassMetadata''"
    show ?thesis unfolding n
      by (rule ladder_grant_row [OF registry_rows(11) class_metadata.grant_check_axioms])
        (simp_all add: shape_plain schema_simps)
  next
    assume n: "name = ''sendTx''"
    show ?thesis unfolding n
      by (rule ladder_grant_row [OF registry_rows(16) send_tx.grant_check_axioms])
        (simp_all add: shape_called)
  next
    assume n: "name = ''grantPublicAuthwit''"
    show ?thesis unfolding n
      by (rule ladder_grant_row [OF registry_rows(17) public_authwit.grant_check_axioms])
        (simp_all add: shape_plain schema_simps)
  next
    assume n: "name = ''simulateTx''"
    show ?thesis unfolding n
      by (rule ladder_grant_row [OF registry_rows(13) simulate_tx.grant_check_axioms])
        (simp_all add: shape_plain schema_simps)
  next
    assume n: "name = ''profileTx''"
    show ?thesis unfolding n
      by (rule ladder_grant_row [OF registry_rows(15) profile_tx.grant_check_axioms])
        (simp_all add: shape_called)
  next
    assume n: "name = ''executeUtility''"
    show ?thesis unfolding n
      by (rule ladder_grant_row [OF registry_rows(14) execute_utility.grant_check_axioms])
        (simp_all add: shape_called)
  next
    assume n: "name = ''getPrivateEvents''"
    show ?thesis unfolding n
      by (rule ladder_grant_row [OF registry_rows(18) private_events.grant_check_axioms])
        (simp_all add: shape_plain schema_simps)
  next
    assume n: "name = ''getAddressBook''"
    show ?thesis unfolding n
      by (rule ladder_grant_row [OF registry_rows(19) address_book.grant_check_axioms])
        (simp_all add: shape_plain schema_simps)
  next
    assume n: "name = ''registerSender''"
    show ?thesis unfolding n
      by (rule ladder_grant_row [OF registry_rows(20) register_sender.grant_check_axioms])
        (simp_all add: shape_plain schema_simps)
  next
    assume n: "name = ''getAccounts''"
    show ?thesis unfolding n
      by (rule ladder_grant_row [OF registry_rows(7) get_accounts.grant_check_axioms])
        (simp_all add: shape_plain schema_simps)
  qed
qed

inductive_simps authorized_getChainInfo: "authorized M session ''getChainInfo'' args grants"
inductive_simps authorized_getWalletFeatures: "authorized M session ''getWalletFeatures'' args grants"
inductive_simps authorized_requestCapabilities: "authorized M session ''requestCapabilities'' args grants"
inductive_simps authorized_batch: "authorized M session ''batch'' args grants"
inductive_simps authorized_createAuthWit: "authorized M session ''createAuthWit'' args grants"
inductive_simps authorized_registerToken: "authorized M session ''registerToken'' args grants"
inductive_simps authorized_registerContractClass: "authorized M session ''registerContractClass'' args grants"

lemma no_permit:
  "\<not> permits M c ''getChainInfo'' args" "\<not> permits M c ''getWalletFeatures'' args"
  "\<not> permits M c ''requestCapabilities'' args" "\<not> permits M c ''batch'' args" "\<not> permits M c ''createAuthWit'' args"
  "\<not> permits M c ''registerToken'' args" "\<not> permits M c ''registerContractClass'' args"
  by (auto dest: permits_names)

lemma ladder_open:
  assumes "name \<in> {''getChainInfo'', ''getWalletFeatures'', ''requestCapabilities'', ''batch''}"
  shows "enforceMethodAndScope M name args session = Inr (m, grants) \<longleftrightarrow> m = name \<and> authorized M session name args grants"
  using assms ladder_exempt [OF registry_rows(1)] ladder_exempt [OF registry_rows(2)] ladder_exempt [OF registry_rows(3)]
    ladder_exempt [OF registry_rows(4)]
  by (auto simp: authorized_getChainInfo authorized_getWalletFeatures authorized_requestCapabilities authorized_batch
      no_permit shape_plain)

lemma ladder_createAuthWit:
  "enforceMethodAndScope M ''createAuthWit'' args session = Inr (m, grants)
     \<longleftrightarrow> m = ''createAuthWit'' \<and> authorized M session ''createAuthWit'' args grants"
proof -
  have held: "(\<exists>g\<in>set gs. type_of_cap (gr_capability g) = Some TAccounts) \<and> checkCreateAuthWit M args gs = Inr ()
      \<longleftrightarrow> authwit_permitted M gs args" for gs
  proof -
    have "(\<exists>g\<in>set gs. type_of_cap (gr_capability g) = Some TAccounts) \<longleftrightarrow> grantsOfType gs TAccounts \<noteq> []"
      by (auto simp: grantsOfType_def filter_empty_conv)
    moreover have "authwit_permitted M gs args \<Longrightarrow> grantsOfType gs TAccounts \<noteq> []"
      by (auto simp: authwit_permitted_def)
    ultimately show ?thesis using checkCreateAuthWit_exact [of gs M args] by blast
  qed
  show ?thesis
    unfolding ladder_granted [OF registry_rows(5)] authorized_createAuthWit
    using held by (auto simp: no_permit assertAuthRelevantArgShape_def argsCreateAuthWit_def)
qed

lemma ladder_registerToken:
  "enforceMethodAndScope M ''registerToken'' args session = Inr (m, grants)
     \<longleftrightarrow> m = ''registerToken'' \<and> authorized M session ''registerToken'' args grants"
proof -
  have "\<not> nullish (arg args 1) \<Longrightarrow> 2 \<le> length args" by (auto simp: arg_def nullish_def split: if_splits)
  then show ?thesis
    unfolding ladder_granted [OF registry_rows(6)] authorized_registerToken
    by (auto simp: no_permit assertAuthRelevantArgShape_def argsTwoRequired_def)
qed

lemma ladder_registerContractClass:
  "enforceMethodAndScope M ''registerContractClass'' args session = Inr (m, grants)
     \<longleftrightarrow> m = ''registerContractClass'' \<and> authorized M session ''registerContractClass'' args grants"
  unfolding ladder_granted [OF registry_rows(12)] authorized_registerContractClass
  by (simp add: no_permit checkRegisterContractClassDisabled_def)

lemma registry_names:
  "js_has METHOD_REGISTRY name \<longleftrightarrow> name \<in> set grant_methods
     \<union> {''getChainInfo'', ''getWalletFeatures'', ''requestCapabilities'', ''batch'', ''createAuthWit'', ''registerToken'', ''registerContractClass''}"
proof -
  have "set (js_keys METHOD_REGISTRY) = set grant_methods
     \<union> {''getChainInfo'', ''getWalletFeatures'', ''requestCapabilities'', ''batch'', ''createAuthWit'', ''registerToken'', ''registerContractClass''}"
    unfolding METHOD_REGISTRY_def grant_methods_def by (simp add: insert_commute)
  then show ?thesis unfolding js_has_iff_key by simp
qed

lemma ladder_exact:
  "enforceMethodAndScope M name args session = Inr (m, grants) \<longleftrightarrow> m = name \<and> authorized M session name args grants"
proof (cases "js_has METHOD_REGISTRY name")
  case False
  then have "\<not> authorized M session name args grants" using authorized_known by blast
  with False show ?thesis by (simp add: enforceMethodAndScope_def and_then_Inr assertKnownMethod_def)
next
  case True
  then have "name \<in> set grant_methods \<or> name \<in> {''getChainInfo'', ''getWalletFeatures'', ''requestCapabilities'', ''batch''}
      \<or> name = ''createAuthWit'' \<or> name = ''registerToken'' \<or> name = ''registerContractClass''"
    unfolding registry_names Un_iff insert_iff empty_iff by argo
  then show ?thesis
  proof (elim disjE)
    assume "name \<in> set grant_methods"
    then show ?thesis by (rule ladder_grant_method)
  next
    assume "name \<in> {''getChainInfo'', ''getWalletFeatures'', ''requestCapabilities'', ''batch''}"
    then show ?thesis by (rule ladder_open)
  qed (simp_all only: ladder_createAuthWit ladder_registerToken ladder_registerContractClass)
qed

text \<open>
  C6. The guard ladder is exact: a dispatched request passes it if and only if it is authorized by the
  declarative rules, and the grants handed on are those of the session. In particular an unknown method,
  a request without a session, a call outside every granted scope and an account list naming a foreign
  account never reach a handler.
\<close>

theorem dispatch_guard_exact:
  "enforceMethodAndScope M name args session = Inr (m, grants) \<longleftrightarrow> m = name \<and> authorized M session name args grants"
  by (rule ladder_exact)

end
