(* ===== verification/Capability_Coverage.thy ===== *)
theory Capability_Coverage
  imports Method_Registry
begin

text \<open>
  When a request for capabilities opens no window: the coverage test of \<^verbatim>\<open>dispatcher.ts\<close>
  (\<^verbatim>\<open>isCapabilityCovered\<close>) against what the guard ladder later enforces.
\<close>

section \<open>Covering scopes and lists\<close>

lemma same_address_trans: "same_address M a b \<Longrightarrow> same_address M b c \<Longrightarrow> same_address M a c"
  by (auto simp: same_address_def)

lemma names_address_same: "names_address M l a \<Longrightarrow> same_address M a b \<Longrightarrow> names_address M l b"
  unfolding names_address_def using same_address_trans by blast

lemma scopeCovers_admits:
  assumes "scopeCovers M existing requested" "admits M requested a fn"
  shows "admits M existing a fn"
proof (cases existing)
  case AnyScope
  with assms show ?thesis by (simp add: admits_def)
next
  case (Patterns eps)
  with assms obtain rps rp where r: "requested = Patterns rps" "rp \<in> set rps" "fn \<noteq> WStr []"
      "sp_contract rp = ''*'' \<or> same_address M (sp_contract rp) a" "sp_function rp = ''*'' \<or> fn = WStr (sp_function rp)"
    by (auto simp: admits_def scopeCovers_def)
  from assms(1) Patterns r(1,2) obtain ep where e: "ep \<in> set eps"
      "sp_contract ep = ''*'' \<or> same_address M (sp_contract ep) (sp_contract rp)"
      "sp_function ep = ''*'' \<or> sp_function ep = sp_function rp"
    by (auto simp: scopeCovers_def list_all_iff list_ex_iff sameFieldAddress_same)
  have star: "\<not> same_address M x ''*''" for x
    by (simp add: same_address_def address_value_def isFieldAddress_def FIELD_ADDRESS_def)
  have "sp_contract ep = ''*'' \<or> same_address M (sp_contract ep) a"
    using e(2) r(4) star same_address_trans by auto
  moreover have "sp_function ep = ''*'' \<or> fn = WStr (sp_function ep)" using e(3) r(5) by auto
  ultimately show ?thesis using Patterns e(1) r(3) by (auto simp: admits_def)
qed

lemma scopeCovers_call: "scopeCovers M existing requested \<Longrightarrow> admits_call M requested call \<Longrightarrow> admits_call M existing call"
  unfolding admits_call_def using scopeCovers_admits by blast

lemma flag_covered_names:
  assumes "flag_covered M flag existing requested" "flag requested = Some True" "names_address M (contracts requested) a"
  shows "\<exists>e\<in>set existing. flag e = Some True \<and> names_address M (contracts e) a"
proof (cases "contracts requested")
  case AnyAddress
  with assms show ?thesis by (auto simp: flag_covered_def has_flag_def list_ex_iff names_address_def)
next
  case (Listed as)
  with assms(3) obtain x where x: "x \<in> set as" "same_address M x a" by (auto simp: names_address_def)
  with assms(1,2) Listed obtain e where "e \<in> set existing" "flag e = Some True" "names_address M (contracts e) x"
    by (auto simp: flag_covered_def has_flag_def list_all_iff list_ex_iff inAddressList_names)
  with x(2) show ?thesis using names_address_same by blast
qed

lemma privateEventsCovered_names:
  assumes "privateEventsCovered M held (Some l)" "names_address M l a"
  shows "\<exists>h\<in>set held. \<exists>l'. privateEvents h = Some l' \<and> names_address M l' a"
proof (cases l)
  case AnyAddress
  with assms show ?thesis by (auto simp: privateEventsCovered_def list_ex_iff names_address_def)
next
  case (Listed as)
  with assms(2) obtain x where x: "x \<in> set as" "same_address M x a" by (auto simp: names_address_def)
  with assms(1) Listed obtain h l' where "h \<in> set held" "privateEvents h = Some l'" "names_address M l' x"
    by (auto simp: privateEventsCovered_def list_all_iff list_ex_iff inAddressList_names case_option_False)
  with x(2) show ?thesis using names_address_same by blast
qed

section \<open>A covered capability adds no permission\<close>

lemma grant_in_type: "e \<in> set (grantsOfType grants t) \<Longrightarrow> type_of_cap e = Some t \<and> (\<exists>g\<in>set grants. gr_capability g = e)"
  by (auto simp: in_grantsOfType)

lemma type_capE:
  "type_of_cap e = Some TContracts \<Longrightarrow> e = ContractsCap (contracts e) (canRegister e) (canGetMetadata e)"
  "type_of_cap e = Some TTransaction \<Longrightarrow> e = TransactionCap (txScope e)"
  "type_of_cap e = Some TSimulation \<Longrightarrow> e = SimulationCap (transactions e) (utilities e)"
  "type_of_cap e = Some TData \<Longrightarrow> e = DataCap (addressBook e) (privateEvents e)"
  "type_of_cap e = Some TAccounts \<Longrightarrow> e = AccountsCap (canGet e) (canCreateAuthWit e) (accountItems e)"
  by (cases e; simp)+

lemma covered_contracts:
  assumes "isCapabilityCovered M (ContractsCap l r m) grants"
  shows "r = Some True \<Longrightarrow> names_address M l a
      \<Longrightarrow> \<exists>g\<in>set grants. \<exists>l' m'. gr_capability g = ContractsCap l' (Some True) m' \<and> names_address M l' a"
    and "m = Some True \<Longrightarrow> names_address M l a
      \<Longrightarrow> \<exists>g\<in>set grants. \<exists>l' r'. gr_capability g = ContractsCap l' r' (Some True) \<and> names_address M l' a"
proof -
  have c: "contractsRequestCovered M (grantsOfType grants TContracts) (ContractsCap l r m)"
    using assms by (simp add: isCapabilityCovered_def)
  show "\<exists>g\<in>set grants. \<exists>l' m'. gr_capability g = ContractsCap l' (Some True) m' \<and> names_address M l' a"
    if "r = Some True" "names_address M l a"
    using c that flag_covered_names [of M canRegister "grantsOfType grants TContracts" "ContractsCap l r m" a]
    by (simp add: contractsRequestCovered_def) (metis grant_in_type type_capE(1))
  show "\<exists>g\<in>set grants. \<exists>l' r'. gr_capability g = ContractsCap l' r' (Some True) \<and> names_address M l' a"
    if "m = Some True" "names_address M l a"
    using c that flag_covered_names [of M canGetMetadata "grantsOfType grants TContracts" "ContractsCap l r m" a]
    by (simp add: contractsRequestCovered_def) (metis grant_in_type type_capE(1))
qed

lemma covered_transaction:
  assumes "isCapabilityCovered M (TransactionCap s) grants"
  shows "\<exists>g\<in>set grants. \<exists>s'. gr_capability g = TransactionCap s' \<and> scopeCovers M s' s"
  using assms
  by (simp add: isCapabilityCovered_def transactionRequestCovered_def list_ex_iff) (metis grant_in_type type_capE(2))

lemma covered_simulation:
  assumes "isCapabilityCovered M (SimulationCap t u) grants"
  shows "\<exists>g\<in>set grants. \<exists>t' u'. gr_capability g = SimulationCap t' u'"
    and "t = Some s \<Longrightarrow> \<exists>g\<in>set grants. \<exists>s' u'. gr_capability g = SimulationCap (Some s') u' \<and> scopeCovers M s' s"
    and "u = Some s \<Longrightarrow> \<exists>g\<in>set grants. \<exists>s' t'. gr_capability g = SimulationCap t' (Some s') \<and> scopeCovers M s' s"
proof -
  have c: "grantsOfType grants TSimulation \<noteq> []" "sub_covered M transactions (grantsOfType grants TSimulation) (SimulationCap t u)"
      "sub_covered M utilities (grantsOfType grants TSimulation) (SimulationCap t u)"
    using assms by (simp_all add: isCapabilityCovered_def simulationRequestCovered_def)
  show "\<exists>g\<in>set grants. \<exists>t' u'. gr_capability g = SimulationCap t' u'"
    using c(1) grant_in_type type_capE(3) by (metis list.set_intros(1) neq_Nil_conv)
  show "\<exists>g\<in>set grants. \<exists>s' u'. gr_capability g = SimulationCap (Some s') u' \<and> scopeCovers M s' s" if "t = Some s"
    using c(2) that by (simp add: sub_covered_def list_ex_iff case_option_False) (metis grant_in_type type_capE(3))
  show "\<exists>g\<in>set grants. \<exists>s' t'. gr_capability g = SimulationCap t' (Some s') \<and> scopeCovers M s' s" if "u = Some s"
    using c(3) that by (simp add: sub_covered_def list_ex_iff case_option_False) (metis grant_in_type type_capE(3))
qed

lemma covered_data:
  assumes "isCapabilityCovered M (DataCap b e) grants"
  shows "b = Some True \<Longrightarrow> \<exists>g\<in>set grants. \<exists>e'. gr_capability g = DataCap (Some True) e'"
    and "e = Some l \<Longrightarrow> names_address M l a
      \<Longrightarrow> \<exists>g\<in>set grants. \<exists>b' l'. gr_capability g = DataCap b' (Some l') \<and> names_address M l' a"
proof -
  have c: "\<not> has_flag b \<or> list_ex (\<lambda>h. has_flag (addressBook h)) (grantsOfType grants TData)"
      "privateEventsCovered M (grantsOfType grants TData) e"
    using assms by (simp_all add: isCapabilityCovered_def dataRequestCovered_def dataFieldsCovered_def)
  show "\<exists>g\<in>set grants. \<exists>e'. gr_capability g = DataCap (Some True) e'" if "b = Some True"
    using c(1) that by (simp add: has_flag_def list_ex_iff) (metis grant_in_type type_capE(4))
  show "\<exists>g\<in>set grants. \<exists>b' l'. gr_capability g = DataCap b' (Some l') \<and> names_address M l' a"
    if "e = Some l" "names_address M l a"
    using privateEventsCovered_names [of M "grantsOfType grants TData" l a] c(2) that
    by (metis grant_in_type type_capE(4))
qed

lemma covered_accounts:
  assumes "isCapabilityCovered M (AccountsCap (Some True) w l) grants"
  shows "\<exists>g\<in>set grants. \<exists>w' l'. gr_capability g = AccountsCap (Some True) w' l'"
proof -
  obtain e where "e \<in> set (grantsOfType grants TAccounts)" "canGet e = Some True"
    using assms by (auto simp: isCapabilityCovered_def accountsCapsEqual_def has_flag_def split: list.splits)
  then show ?thesis by (metis grant_in_type type_capE(5))
qed

lemma covered_permits:
  assumes cov: "isCapabilityCovered M cap grants" and "permits M cap name args" and "name \<noteq> ''getContractClassMetadata''"
  shows "\<exists>g\<in>set grants. permits M (gr_capability g) name args"
  using assms(2)
proof cases
  case (registerContract a r l m)
  with cov covered_contracts(1) [of M l r m grants a] show ?thesis by (metis permits.registerContract)
next
  case (contractMetadata a m l r)
  with cov covered_contracts(2) [of M l r m grants a] show ?thesis by (metis permits.contractMetadata)
next
  case (sendTx calls s)
  with cov covered_transaction [of M s grants] obtain g s' where g: "g \<in> set grants" "gr_capability g = TransactionCap s'" "scopeCovers M s' s"
    by blast
  with sendTx have "\<forall>call\<in>set calls. admits_call M s' call" by (simp add: scopeCovers_call)
  with g sendTx have "permits M (gr_capability g) name args" by (simp add: permits.sendTx)
  with g(1) show ?thesis ..
next
  case (grantPublicAuthwit a f s)
  with cov covered_transaction [of M s grants] obtain g s' where g: "g \<in> set grants" "gr_capability g = TransactionCap s'" "scopeCovers M s' s"
    by blast
  with grantPublicAuthwit scopeCovers_admits have "permits M (gr_capability g) name args" by (simp add: permits.grantPublicAuthwit)
  with g(1) show ?thesis ..
next
  case (simulateNothing t u)
  with cov covered_simulation(1) [of M t u grants] show ?thesis by (metis permits.simulateNothing)
next
  case (simulate calls s u)
  with cov covered_simulation(2) [of M "Some s" u grants s]
  obtain g s' u' where g: "g \<in> set grants" "gr_capability g = SimulationCap (Some s') u'" "scopeCovers M s' s" by blast
  with simulate have "\<forall>call\<in>set calls. call_entry_ok call \<and> admits_call M s' call" by (simp add: scopeCovers_call)
  with g simulate have "permits M (gr_capability g) name args" by (simp add: permits.simulate)
  with g(1) show ?thesis ..
next
  case (executeUtility a s t)
  with cov covered_simulation(3) [of M t "Some s" grants s]
  obtain g s' t' where g: "g \<in> set grants" "gr_capability g = SimulationCap t' (Some s')" "scopeCovers M s' s" by blast
  with executeUtility scopeCovers_admits have "permits M (gr_capability g) name args" by (simp add: permits.executeUtility)
  with g(1) show ?thesis ..
next
  case (getPrivateEvents a l b)
  with cov covered_data(2) [of M b "Some l" grants l a] show ?thesis by (metis permits.getPrivateEvents)
next
  case (addressBook e)
  with cov covered_data(1) [of M "Some True" e grants] show ?thesis by (metis permits.addressBook)
next
  case (getAccounts w l)
  with cov covered_accounts [of M w l grants] show ?thesis by (metis permits.getAccounts)
qed (use assms(3) in simp)

definition holding :: "dapp_session \<Rightarrow> capability \<Rightarrow> time \<Rightarrow> dapp_session" where
  "holding s cap t = s\<lparr>ds_grants := [\<lparr>gr_capability = cap, gr_grantedAt = t\<rparr>]\<rparr>"

lemma accounts_within_holding [simp]: "accounts_within (holding s cap t) args = accounts_within s args"
  by (simp add: accounts_within_def names_session_accounts_def session_account_def holding_def)

lemma ds_grants_holding [simp]: "ds_grants (holding s cap t) = [\<lparr>gr_capability = cap, gr_grantedAt = t\<rparr>]"
  by (simp add: holding_def)

lemma covered_authorized:
  assumes "authorized M (Some (holding s cap t)) name args gs" "isCapabilityCovered M cap (ds_grants s)"
    and "name \<notin> {''createAuthWit'', ''getContractClassMetadata''}"
  shows "\<exists>gs'. authorized M (Some s) name args gs'"
  using assms(1)
proof cases
  case (by_grant s' g)
  then have "permits M cap name args" and "accounts_within s args" by auto
  moreover from covered_permits [OF assms(2) \<open>permits M cap name args\<close>] assms(3)
  obtain g' where "g' \<in> set (ds_grants s)" "permits M (gr_capability g') name args" by blast
  ultimately show ?thesis using by_grant authorized.by_grant by blast
next
  case (token s' g)
  then have "type_of_cap cap = Some TAccounts" and acc: "accounts_within s args" by auto
  with assms(2) obtain e where "e \<in> set (grantsOfType (ds_grants s) TAccounts)"
    by (cases cap) (auto simp: isCapabilityCovered_def split: list.splits)
  then obtain g' where "g' \<in> set (ds_grants s)" "type_of_cap (gr_capability g') = Some TAccounts"
    using grant_in_type by blast
  with token acc show ?thesis using authorized.token by blast
next
  case open_method
  then show ?thesis using authorized.open_method by blast
next
  case negotiation
  then show ?thesis using authorized.negotiation by blast
next
  case batch
  then show ?thesis using authorized.batch by blast
qed (use assms(3) in simp)

lemma covered_authwit:
  assumes "isCapabilityCovered M cap grants" "authwit_permitted M [\<lparr>gr_capability = cap, gr_grantedAt = t\<rparr>] args"
  shows "\<exists>g\<in>set grants. type_of_cap (gr_capability g) = Some TAccounts \<and> canCreateAuthWit (gr_capability g) = Some True"
proof -
  from assms(2) have "type_of_cap cap = Some TAccounts" "canCreateAuthWit cap = Some True"
    by (auto simp: authwit_permitted_def dest!: grant_in_type)
  with assms(1) obtain e where "e \<in> set (grantsOfType grants TAccounts)" "canCreateAuthWit e = Some True"
    by (cases cap) (auto simp: isCapabilityCovered_def accountsCapsEqual_def has_flag_def split: list.splits)
  then show ?thesis using grant_in_type by blast
qed

lemma covered_classes:
  assumes "isCapabilityCovered M cap grants" "permits M cap ''getContractClassMetadata'' args"
  shows "\<exists>g\<in>set grants. type_of_cap (gr_capability g) = Some TContractClasses"
proof -
  from assms(2) obtain l m where "cap = ContractClassesCap l m" by cases simp_all
  with assms(1) obtain e where "e \<in> set (grantsOfType grants TContractClasses)"
    by (cases "grantsOfType grants TContractClasses") (auto simp: isCapabilityCovered_def)
  then show ?thesis using grant_in_type by blast
qed

text \<open>
  C23. A capability request that the stored grants cover opens no window. For every method but two that is
  right to the letter: whatever the guard ladder would let through for a session holding just the requested
  capability, it lets through for the session as stored. The two exceptions are createAuthWit, for which
  coverage compares the flag that allows authorization witnesses but neither the account list nor the call
  scopes, and getContractClassMetadata, for which it compares the type alone: for these the session as
  stored is only known to hold a grant of the same type, with the flag for createAuthWit, and may refuse the call.
\<close>

theorem covered_request_suffices:
  assumes "isCapabilityCovered M cap (ds_grants s)"
    and "enforceMethodAndScope M name args (Some (holding s cap t)) = Inr (name, gs)"
  shows "(\<exists>gs'. enforceMethodAndScope M name args (Some s) = Inr (name, gs'))
    \<or> name = ''createAuthWit''
      \<and> (\<exists>g\<in>set (ds_grants s). type_of_cap (gr_capability g) = Some TAccounts \<and> canCreateAuthWit (gr_capability g) = Some True)
    \<or> name = ''getContractClassMetadata'' \<and> (\<exists>g\<in>set (ds_grants s). type_of_cap (gr_capability g) = Some TContractClasses)"
proof -
  from assms(2) have auth: "authorized M (Some (holding s cap t)) name args gs" by (simp add: ladder_exact)
  consider "name \<notin> {''createAuthWit'', ''getContractClassMetadata''}" | "name = ''createAuthWit''" | "name = ''getContractClassMetadata''" by blast
  then show ?thesis
  proof cases
    case 1
    from covered_authorized [OF auth assms(1) this] show ?thesis unfolding ladder_exact by blast
  next
    case 2
    with auth have "authwit_permitted M [\<lparr>gr_capability = cap, gr_grantedAt = t\<rparr>] args"
      by (auto simp: authorized_createAuthWit no_permit)
    with 2 covered_authwit [OF assms(1)] show ?thesis by blast
  next
    case 3
    with auth have "permits M cap ''getContractClassMetadata'' args" by cases auto
    with 3 covered_classes [OF assms(1)] show ?thesis by blast
  qed
qed

definition demo_call_args :: "wire list" where
  "demo_call_args = [WObj [(''calls'', WArr [WObj [(''to'', WStr ''c''), (''name'', WStr ''f'')]])]]"

definition demo_session :: dapp_session where
  "demo_session = (blank_session ''s'' ''p'' ''1'' None [] [] 0 0)\<lparr>ds_grants := [\<lparr>gr_capability = TransactionCap AnyScope, gr_grantedAt = 0\<rparr>]\<rparr>"

definition demo_cap :: capability where
  "demo_cap = TransactionCap (Patterns [\<lparr>sp_contract = ''*'', sp_function = ''f''\<rparr>])"

lemma demo_call: "calls_of demo_call_args = Some [WObj [(''to'', WStr ''c''), (''name'', WStr ''f'')]]"
  by (simp add: calls_of_def demo_call_args_def arg_def)

lemma demo_admitted: "enforceMethodAndScope 0 ''sendTx'' demo_call_args (Some (holding demo_session demo_cap 0))
    = Inr (''sendTx'', [\<lparr>gr_capability = demo_cap, gr_grantedAt = 0\<rparr>])"
proof -
  let ?s = "holding demo_session demo_cap 0"
  have "permits 0 demo_cap ''sendTx'' demo_call_args"
    unfolding demo_cap_def using demo_call
    by (rule permits.sendTx) (simp add: admits_call_def admits_def nullish_def)
  moreover have "well_shaped ''sendTx'' demo_call_args"
    by (simp add: well_shaped_def min_args_def demo_call named_call_def is_object_def is_string_def)
  moreover have "accounts_within ?s demo_call_args"
    by (simp add: accounts_within_def names_session_accounts_def demo_call_args_def arg_def)
  ultimately have "authorized 0 (Some ?s) ''sendTx'' demo_call_args (ds_grants ?s)"
    by (intro authorized.by_grant [OF refl, where g = "\<lparr>gr_capability = demo_cap, gr_grantedAt = 0\<rparr>"]) simp_all
  then show ?thesis by (simp add: ladder_exact)
qed

theorem covered_request_suffices_witness:
  "\<exists>gs'. enforceMethodAndScope 0 ''sendTx'' demo_call_args (Some demo_session) = Inr (''sendTx'', gs')"
proof -
  have "isCapabilityCovered 0 demo_cap (ds_grants demo_session)"
    by (simp add: isCapabilityCovered_def demo_cap_def demo_session_def grantsOfType_def transactionRequestCovered_def scopeCovers_def)
  from covered_request_suffices [OF this demo_admitted] show ?thesis by simp
qed

end
