(* ===== verification/Capability_Wire.thy ===== *)
theory Capability_Wire
  imports Capabilities
begin

text \<open>
  The stored form of a projected capability: the object literals \<^verbatim>\<open>CAPABILITY_PROJECTORS\<close> of
  \<^verbatim>\<open>packages/wallet-bridge/src/dispatcher.ts\<close> build, field by field, and what reading them back gives.
\<close>

section \<open>Object literals\<close>

definition flag_field :: "string \<Rightarrow> bool option \<Rightarrow> (string \<times> wire) list" where
  "flag_field key f = (case f of None \<Rightarrow> [] | Some b \<Rightarrow> [(key, WBool b)])"

definition optional_field :: "string \<Rightarrow> ('a \<Rightarrow> wire) \<Rightarrow> 'a option \<Rightarrow> (string \<times> wire) list" where
  "optional_field key print v = (case v of None \<Rightarrow> [] | Some x \<Rightarrow> [(key, print x)])"

definition wire_of_pattern :: "scope_pattern \<Rightarrow> wire" where
  "wire_of_pattern p = WObj [(''contract'', WStr (sp_contract p)), (''function'', WStr (sp_function p))]"

definition wire_of_scope :: "scope \<Rightarrow> wire" where
  "wire_of_scope s = (case s of AnyScope \<Rightarrow> WStr ''*'' | Patterns ps \<Rightarrow> WArr (map wire_of_pattern ps))"

definition wire_of_holder :: "scope \<Rightarrow> wire" where
  "wire_of_holder s = WObj [(''scope'', wire_of_scope s)]"

definition wire_of_list :: "address_list \<Rightarrow> wire" where
  "wire_of_list l = (case l of AnyAddress \<Rightarrow> WStr ''*'' | Listed as \<Rightarrow> WArr (map WStr as))"

definition wire_of_account :: "string option \<times> string \<Rightarrow> wire" where
  "wire_of_account e = WObj (optional_field ''alias'' WStr (fst e) @ [(''item'', WStr (snd e))])"

definition wire_of_events :: "address_list \<Rightarrow> wire" where
  "wire_of_events l = WObj [(''contracts'', wire_of_list l)]"

fun wire_of_cap :: "capability \<Rightarrow> wire" where
  "wire_of_cap (AccountsCap g w l) =
     WObj ((''type'', WStr ''accounts'') # flag_field ''canGet'' g @ flag_field ''canCreateAuthWit'' w
           @ optional_field ''accounts'' (\<lambda>es. WArr (map wire_of_account es)) l)"
| "wire_of_cap (ContractsCap l r m) =
     WObj ((''type'', WStr ''contracts'') # (''contracts'', wire_of_list l) # flag_field ''canRegister'' r @ flag_field ''canGetMetadata'' m)"
| "wire_of_cap (ContractClassesCap l m) =
     WObj ((''type'', WStr ''contractClasses'') # (''classes'', wire_of_list l) # flag_field ''canGetMetadata'' m)"
| "wire_of_cap (SimulationCap t u) =
     WObj ((''type'', WStr ''simulation'') # optional_field ''transactions'' wire_of_holder t @ optional_field ''utilities'' wire_of_holder u)"
| "wire_of_cap (TransactionCap s) = WObj [(''type'', WStr ''transaction''), (''scope'', wire_of_scope s)]"
| "wire_of_cap (DataCap b e) =
     WObj ((''type'', WStr ''data'') # flag_field ''addressBook'' b @ optional_field ''privateEvents'' wire_of_events e)"
| "wire_of_cap (UnknownCap n w) = w"

section \<open>Well-formed capabilities\<close>

text \<open>What projection guarantees of the values enforcement reads.\<close>

definition wf_pattern :: "nat \<Rightarrow> scope_pattern \<Rightarrow> bool" where
  "wf_pattern M p \<longleftrightarrow> (sp_contract p = ''*'' \<or> isFieldAddress M (sp_contract p)) \<and> sp_function p \<noteq> []"

definition wf_scope :: "nat \<Rightarrow> scope \<Rightarrow> bool" where
  "wf_scope M s \<longleftrightarrow> (\<forall>ps. s = Patterns ps \<longrightarrow> (\<forall>p\<in>set ps. wf_pattern M p))"

definition wf_list :: "nat \<Rightarrow> address_list \<Rightarrow> bool" where
  "wf_list M l \<longleftrightarrow> (\<forall>as. l = Listed as \<longrightarrow> (\<forall>a\<in>set as. isFieldAddress M a))"

fun wf_capability :: "nat \<Rightarrow> capability \<Rightarrow> bool" where
  "wf_capability M (AccountsCap g w l) = True"
| "wf_capability M (ContractsCap l r m) = wf_list M l"
| "wf_capability M (ContractClassesCap l m) = wf_list M l"
| "wf_capability M (SimulationCap t u) = (pred_option (wf_scope M) t \<and> pred_option (wf_scope M) u)"
| "wf_capability M (TransactionCap s) = wf_scope M s"
| "wf_capability M (DataCap b e) = (pred_option (wf_list M) e \<and> (b = Some True \<or> asks_events e))"
| "wf_capability M (UnknownCap n w) = (knownTypeOf w = None \<and> n = unknown_name w)"

section \<open>Projection yields well-formed capabilities\<close>

lemma all_or_none_wf:
  assumes "all_or_none f xs = Some ys" "\<And>x y. f x = Some y \<Longrightarrow> P y"
  shows "\<forall>y\<in>set ys. P y"
  using assms(1)
proof (induction xs arbitrary: ys)
  case (Cons x xs)
  then show ?case using assms(2) by (auto split: option.splits)
qed simp

lemma all_or_none_map: "(\<And>x. x \<in> set xs \<Longrightarrow> f (g x) = Some x) \<Longrightarrow> all_or_none f (map g xs) = Some xs"
  by (induction xs) auto

lemma patternOf_wf: "patternOf M w = Some p \<Longrightarrow> wf_pattern M p"
  by (auto simp: patternOf_def wf_pattern_def split: wire.splits if_splits)

lemma scopeOf_wf: "scopeOf M w = Some s \<Longrightarrow> wf_scope M s"
  by (auto simp: scopeOf_def wf_scope_def dest: all_or_none_wf [of "patternOf M", OF _ patternOf_wf] split: if_splits wire.splits)

lemma scopeHolderOf_wf: "scopeHolderOf M w = Some s \<Longrightarrow> wf_scope M s"
  by (auto simp: scopeHolderOf_def scopeOf_wf split: if_splits)

lemma field_address_of_wf: "field_address_of M x = Some y \<Longrightarrow> isFieldAddress M y"
  by (auto simp: field_address_of_def split: wire.splits if_splits)

lemma addressListOf_wf: "addressListOf M w = Some l \<Longrightarrow> wf_list M l"
  by (auto simp: addressListOf_def wf_list_def dest: all_or_none_wf [of "field_address_of M", OF _ field_address_of_wf]
      split: if_splits wire.splits)

lemma events_holder_wf: "events_holder M w = Some l \<Longrightarrow> wf_list M l"
  by (auto simp: events_holder_def addressListOf_wf split: if_splits)

lemma optional_wf: "optional cap k f = Some v \<Longrightarrow> (\<And>w x. f w = Some x \<Longrightarrow> P x) \<Longrightarrow> pred_option P v"
  by (auto simp: optional_def split: if_splits)

lemma optional_holder_wf: "optional cap k (scopeHolderOf M) = Some v \<Longrightarrow> pred_option (wf_scope M) v"
  by (rule optional_wf [OF _ scopeHolderOf_wf])

lemma optional_events_wf: "optional cap k (events_holder M) = Some v \<Longrightarrow> pred_option (wf_list M) v"
  by (rule optional_wf [OF _ events_holder_wf])

lemma project_wf: "CAPABILITY_PROJECTORS M t w = Some c \<Longrightarrow> wf_capability M c \<and> type_of_cap c = Some t"
  by (cases t)
    (auto simp: project_accounts_def project_contracts_def project_classes_def project_simulation_def project_transaction_def
      projectData_def addressListOf_wf scopeOf_wf optional_holder_wf optional_events_wf split: option.splits if_splits)

section \<open>Reading the stored form back\<close>

lemma flag_field_keys: "map_of (flag_field k f) k' = (if k' = k then map_option WBool f else None)"
  by (auto simp: flag_field_def split: option.splits)

lemma optional_field_keys: "map_of (optional_field k p f) k' = (if k' = k then map_option p f else None)"
  by (auto simp: optional_field_def split: option.splits)

lemmas field_keys = flag_field_keys optional_field_keys map_add_def

lemma flagOf_field: "opt_get w k = (case f of None \<Rightarrow> WUndef | Some b \<Rightarrow> WBool b) \<Longrightarrow> flagOf w k = Some f"
  by (auto simp: flagOf_def split: option.splits)

lemma optional_printed:
  assumes "opt_get w k = (case v of None \<Rightarrow> WUndef | Some x \<Rightarrow> print x)"
    and "\<And>x. v = Some x \<Longrightarrow> print x \<noteq> WUndef \<and> project (print x) = Some x"
  shows "optional w k project = Some v"
  using assms by (cases v) (auto simp: optional_def)

lemma patternOf_printed: "wf_pattern M p \<Longrightarrow> patternOf M (wire_of_pattern p) = Some p"
  by (simp add: patternOf_def wire_of_pattern_def isRecord_def wf_pattern_def)

lemma scopeOf_printed: "wf_scope M s \<Longrightarrow> scopeOf M (wire_of_scope s) = Some s"
  by (cases s) (auto simp: scopeOf_def wire_of_scope_def wf_scope_def patternOf_printed intro: all_or_none_map)

lemma scopeHolderOf_printed: "wf_scope M s \<Longrightarrow> scopeHolderOf M (wire_of_holder s) = Some s"
  by (simp add: scopeHolderOf_def wire_of_holder_def isRecord_def scopeOf_printed)

lemma addressListOf_printed: "wf_list M l \<Longrightarrow> addressListOf M (wire_of_list l) = Some l"
  by (cases l) (auto simp: addressListOf_def wire_of_list_def wf_list_def field_address_of_def intro: all_or_none_map)

lemma events_printed: "wf_list M l \<Longrightarrow> events_holder M (wire_of_events l) = Some l"
  by (simp add: events_holder_def wire_of_events_def isRecord_def addressListOf_printed)

lemma account_printed: "account_entry (wire_of_account e) = Some e"
  by (cases e) (auto simp: account_entry_def wire_of_account_def isRecord_def field_keys split: option.splits)

lemma accounts_printed: "accountListOf (WArr (map wire_of_account es)) = Some es"
  by (simp add: accountListOf_def all_or_none_map account_printed)

lemma printed_defined [simp]: "wire_of_holder s \<noteq> WUndef" "wire_of_events l \<noteq> WUndef"
  by (simp_all add: wire_of_holder_def wire_of_events_def)

lemma knownTypeOf_printed: "type_of_cap c = Some t \<Longrightarrow> knownTypeOf (wire_of_cap c) = Some t"
  by (cases c) (auto simp: knownTypeOf_def isRecord_def)

lemma project_printed:
  assumes "type_of_cap c = Some t" "wf_capability M c"
  shows "CAPABILITY_PROJECTORS M t (wire_of_cap c) = Some c"
proof (cases c)
  case (AccountsCap g w l)
  have "flagOf (wire_of_cap c) ''canGet'' = Some g" "flagOf (wire_of_cap c) ''canCreateAuthWit'' = Some w"
    unfolding AccountsCap by (rule flagOf_field; auto simp: field_keys split: option.splits)+
  moreover have "optional (wire_of_cap c) ''accounts'' accountListOf = Some l"
    unfolding AccountsCap
    by (rule optional_printed [where print = "\<lambda>es. WArr (map wire_of_account es)"]) (auto simp: field_keys accounts_printed split: option.splits)
  ultimately show ?thesis using AccountsCap assms by (auto simp: project_accounts_def)
next
  case (ContractsCap l r m)
  have "flagOf (wire_of_cap c) ''canRegister'' = Some r" "flagOf (wire_of_cap c) ''canGetMetadata'' = Some m"
    unfolding ContractsCap by (rule flagOf_field; auto simp: field_keys split: option.splits)+
  moreover have "addressListOf M (opt_get (wire_of_cap c) ''contracts'') = Some l"
    using ContractsCap assms(2) by (simp add: addressListOf_printed)
  ultimately show ?thesis using ContractsCap assms by (auto simp: project_contracts_def)
next
  case (ContractClassesCap l m)
  have "flagOf (wire_of_cap c) ''canGetMetadata'' = Some m"
    unfolding ContractClassesCap by (rule flagOf_field; auto simp: field_keys split: option.splits)
  moreover have "addressListOf M (opt_get (wire_of_cap c) ''classes'') = Some l"
    using ContractClassesCap assms(2) by (simp add: addressListOf_printed)
  ultimately show ?thesis using ContractClassesCap assms by (auto simp: project_classes_def)
next
  case (SimulationCap s u)
  have "optional (wire_of_cap c) ''transactions'' (scopeHolderOf M) = Some s"
      "optional (wire_of_cap c) ''utilities'' (scopeHolderOf M) = Some u"
    using assms(2) unfolding SimulationCap
    by (intro optional_printed [where print = wire_of_holder]; auto simp: field_keys scopeHolderOf_printed split: option.splits)+
  then show ?thesis using SimulationCap assms by (auto simp: project_simulation_def)
next
  case (TransactionCap s)
  then show ?thesis using assms by (auto simp: project_transaction_def scopeOf_printed)
next
  case (DataCap b e)
  have "flagOf (wire_of_cap c) ''addressBook'' = Some b"
    unfolding DataCap by (rule flagOf_field; auto simp: field_keys split: option.splits)
  moreover have "optional (wire_of_cap c) ''privateEvents'' (events_holder M) = Some e"
    using assms(2) unfolding DataCap
    by (intro optional_printed [where print = wire_of_events]; auto simp: field_keys events_printed split: option.splits)
  ultimately show ?thesis using DataCap assms by (auto simp: projectData_def)
qed (use assms in auto)

section \<open>Round trip\<close>

lemma projectKnown_wf: "projectKnownCapability M w = Inr c \<Longrightarrow> wf_capability M c"
  by (auto simp: projectKnownCapability_def dest: project_wf split: option.splits)

lemma projectKnown_printed: "wf_capability M c \<Longrightarrow> projectKnownCapability M (wire_of_cap c) = Inr c"
proof (cases "type_of_cap c")
  case None
  moreover assume "wf_capability M c"
  ultimately show ?thesis by (cases c) (auto simp: projectKnownCapability_def)
next
  case (Some t)
  moreover assume "wf_capability M c"
  ultimately show ?thesis by (simp add: projectKnownCapability_def knownTypeOf_printed project_printed)
qed

text \<open>At most one capability of each known type survives, and the order is the request's.\<close>

definition known_types :: "capability list \<Rightarrow> cap_type list" where
  "known_types cs = List.map_filter type_of_cap cs"

lemma project_loop_result:
  assumes "project_loop M seen ws = Inr cs"
  shows "list_all2 (\<lambda>w c. projectKnownCapability M w = Inr c) ws cs \<and> distinct (known_types cs) \<and> set (known_types cs) \<inter> set seen = {}"
  using assms
proof (induction ws arbitrary: seen cs)
  case (Cons w ws)
  then obtain c where c: "projectKnownCapability M w = Inr c" by (auto split: sum.splits)
  show ?case
  proof (cases "type_of_cap c")
    case None
    with Cons.prems c obtain cs' where "cs = c # cs'" "project_loop M seen ws = Inr cs'"
      by (cases "project_loop M seen ws") auto
    with Cons.IH None c show ?thesis by (simp add: known_types_def map_filter_simps)
  next
    case (Some t)
    with Cons.prems c obtain cs' where "cs = c # cs'" "project_loop M (t # seen) ws = Inr cs'" "t \<notin> set seen"
      by (cases "project_loop M (t # seen) ws") (auto split: if_splits)
    with Cons.IH [of "t # seen" cs'] Some c show ?thesis by (auto simp: known_types_def map_filter_simps)
  qed
qed (simp add: known_types_def map_filter_simps)

lemma project_loop_printed:
  assumes "\<forall>c\<in>set cs. wf_capability M c" "distinct (known_types cs)" "set (known_types cs) \<inter> set seen = {}"
  shows "project_loop M seen (map wire_of_cap cs) = Inr cs"
  using assms
proof (induction cs arbitrary: seen)
  case (Cons c cs)
  then show ?case
    by (cases "type_of_cap c") (auto simp: projectKnown_printed known_types_def map_filter_simps)
qed simp

lemma projected_wf:
  assumes "projectRequestedCapabilities M ws = Inr cs"
  shows "\<forall>c\<in>set cs. wf_capability M c"
  using project_loop_result [OF assms [unfolded projectRequestedCapabilities_def]] projectKnown_wf
  by (fastforce simp: list_all2_conv_all_nth in_set_conv_nth)


definition demo_manifest :: "wire list" where
  "demo_manifest =
     [WObj [(''type'', WStr ''transaction''), (''extra'', WNull),
            (''scope'', WArr [WObj [(''contract'', WStr ''*''), (''function'', WStr ''f'')]])],
      WObj [(''type'', WStr ''wild'')]]"


end
