(* ===== verification/Negotiation.thy ===== *)
theory Negotiation
  imports Method_Registry Capability_Wire
begin

text \<open>
  Capability negotiation: from a manifest and the stored session to the delta the window shows
  (\<^verbatim>\<open>computeCapabilityDelta\<close>, \<^verbatim>\<open>planAccountsWidening\<close>), from the window's unvalidated answer to one decision
  (\<^verbatim>\<open>mergeGrantsAndRejections\<close> and its helpers, all of \<^verbatim>\<open>packages/wallet-bridge/src/dispatcher.ts\<close>), and the atomic
  merge of that decision into the latest row (\<^verbatim>\<open>applyCapabilityDecision\<close> of
  \<^verbatim>\<open>apps/extension/src/wallet/services/dapp-session/service.ts\<close>). A capability's type is the value its
  \<^verbatim>\<open>type\<close> field holds, since unknown capabilities carry whatever the page sent. Two capabilities have the
  same JSON text when their stored forms are equal.
\<close>

section \<open>Plans\<close>

definition type_field :: "wire \<Rightarrow> wire" where
  "type_field w = opt_get w ''type''"

definition cap_field :: "capability \<Rightarrow> wire" where
  "cap_field c = type_field (wire_of_cap c)"

abbreviation accounts_type :: wire where
  "accounts_type \<equiv> WStr ''accounts''"

record capability_plan =
  cp_existingGrants :: "granted_record list"
  cp_grantedTypes :: "wire list"
  cp_rejectedTypes :: "wire list"
  cp_delta :: "capability list"
  cp_existingCaps :: "capability list"
  cp_sessionAccounts :: "string list"
  cp_availableAccounts :: "(string \<times> int) list"
  cp_widening :: "(string list \<times> bool) option"

definition ungrantedAccounts :: "string list \<Rightarrow> string list \<Rightarrow> string list" where
  "ungrantedAccounts profileAddresses sessionAddresses =
     (let held = map js_lower sessionAddresses in filter (\<lambda>a. js_lower a \<notin> set held) profileAddresses)"

definition in_delta :: "nat \<Rightarrow> granted_record list \<Rightarrow> wire list \<Rightarrow> wire list \<Rightarrow> capability \<Rightarrow> bool" where
  "in_delta M existing grantedTypes rejectedTypes cap =
     (case type_of_cap cap of
        None \<Rightarrow> cap_field cap \<in> set rejectedTypes \<or> cap_field cap \<notin> set grantedTypes
      | Some t \<Rightarrow>
          if t = TContractClasses \<and> cap_field cap \<in> set rejectedTypes then True
          else \<not> isCapabilityCovered M cap existing)"

definition computeCapabilityDelta :: "nat \<Rightarrow> capability list \<Rightarrow> dapp_session \<Rightarrow> capability_plan" where
  "computeCapabilityDelta M requested s =
     (let existing = ds_grants s;
          grantedTypes = js_unique (map (\<lambda>g. cap_field (gr_capability g)) existing);
          rejectedTypes = js_unique (map fst (ds_rejections s))
      in \<lparr>cp_existingGrants = existing, cp_grantedTypes = grantedTypes, cp_rejectedTypes = rejectedTypes,
          cp_delta = filter (in_delta M existing grantedTypes rejectedTypes) requested,
          cp_existingCaps = map gr_capability (filter (\<lambda>g. cap_field (gr_capability g) \<notin> set rejectedTypes) existing),
          cp_sessionAccounts = sessionAccountsOf s, cp_availableAccounts = [], cp_widening = None\<rparr>)"

definition delta_has_accounts :: "capability_plan \<Rightarrow> bool" where
  "delta_has_accounts plan = list_ex (\<lambda>c. cap_field c = accounts_type) (cp_delta plan)"

definition planAccountsWidening :: "capability_plan \<Rightarrow> capability \<Rightarrow> string list \<Rightarrow> string list \<Rightarrow> capability_plan" where
  "planAccountsWidening plan requested held ungranted =
     (case grantsOfType (cp_existingGrants plan) TAccounts of
        [] \<Rightarrow> plan
      | stored # _ \<Rightarrow>
          (let membershipOnly = accountsCapsEqual stored requested;
               plan1 = (if membershipOnly \<and> ungranted \<noteq> [] \<and> \<not> delta_has_accounts plan
                        then plan\<lparr>cp_delta := cp_delta plan @ [requested]\<rparr> else plan)
           in if delta_has_accounts plan1 then plan1\<lparr>cp_widening := Some (held, membershipOnly)\<rparr> else plan1))"

definition reRequestedTypes :: "capability_plan \<Rightarrow> wire list" where
  "reRequestedTypes plan = filter (\<lambda>t. t \<in> set (cp_rejectedTypes plan)) (map cap_field (cp_delta plan))"

section \<open>The window's answer\<close>

record capability_result =
  cr_granted :: "wire list"
  cr_selectedAccounts :: "string list"
  cr_accountAliases :: "(string, string) jsmap"
  cr_authorizations :: wire

record capability_decision =
  cd_addAccounts :: "string list"
  cd_aliasPatch :: "(string, string) jsmap"
  cd_grantRecords :: "granted_record list"
  cd_replaceTypes :: "wire list"
  cd_approvedTypes :: "wire list"
  cd_rejectedTypes :: "wire list"
  cd_requiresGrant :: "wire list"
  cd_authorizations :: "wire option"

definition ensureAccountsGrant :: "capability_result \<Rightarrow> capability list \<Rightarrow> wire list" where
  "ensureAccountsGrant result delta =
     (let granted = cr_granted result
      in if cr_selectedAccounts result \<noteq> [] \<and> \<not> list_ex (\<lambda>w. type_field w = accounts_type) granted
         then (case find (\<lambda>c. cap_field c = accounts_type) delta of None \<Rightarrow> granted | Some c \<Rightarrow> granted @ [wire_of_cap c])
         else granted)"

definition offered_accounts :: "capability_plan \<Rightarrow> (string, string) jsmap" where
  "offered_accounts plan =
     fold (\<lambda>(address, chainId). js_set (js_lower (formatCaipAccount chainId address)) (formatCaipAccount chainId address))
       (cp_availableAccounts plan) []"

definition accountsAdditions :: "capability_result \<Rightarrow> capability_plan \<Rightarrow> string list \<times> (string, string) jsmap" where
  "accountsAdditions result plan =
     (if cr_selectedAccounts result = [] then ([], [])
      else let offered = offered_accounts plan;
               held = map js_lower (cp_sessionAccounts plan);
               addAccounts = js_unique (filter (\<lambda>c. js_lower c \<notin> set held)
                 (List.map_filter (\<lambda>c. js_get offered (js_lower c)) (cr_selectedAccounts result)));
               accepted = fold (\<lambda>c. js_set (js_lower c) c) addAccounts [];
               aliasPatch = fold (\<lambda>(caip, alias) acc.
                 case js_get accepted (js_lower caip) of None \<Rightarrow> acc | Some canonical \<Rightarrow> js_set canonical alias acc)
                 (cr_accountAliases result) []
           in (addAccounts, aliasPatch))"

text \<open>Projects each answer of one type; the first malformed one is the exception.\<close>

fun project_all :: "nat \<Rightarrow> wire list \<Rightarrow> capability_error + capability list" where
  "project_all M [] = Inr []"
| "project_all M (w # ws) = and_then (projectKnownCapability M w) (\<lambda>c. and_then (project_all M ws) (\<lambda>cs. Inr (c # cs)))"

definition last_opt :: "'a list \<Rightarrow> 'a option" where
  "last_opt xs = (if xs = [] then None else Some (last xs))"

definition replacementFor :: "nat \<Rightarrow> wire list \<Rightarrow> capability_plan \<Rightarrow> wire \<Rightarrow> capability_error + capability option" where
  "replacementFor M popupResults plan t =
     (let stored = find (\<lambda>g. cap_field (gr_capability g) = t) (cp_existingGrants plan)
      in and_then (project_all M (filter (\<lambda>w. type_field w = t) popupResults)) (\<lambda>candidates.
           let changed = filter (\<lambda>c. case stored of None \<Rightarrow> True | Some g \<Rightarrow> wire_of_cap c \<noteq> wire_of_cap (gr_capability g)) candidates
           in Inr (case last_opt changed of Some c \<Rightarrow> Some c | None \<Rightarrow> last_opt candidates)))"

fun echoed_grants :: "nat \<Rightarrow> capability_plan \<Rightarrow> wire list \<Rightarrow> time \<Rightarrow> wire list \<Rightarrow> capability_error + granted_record list" where
  "echoed_grants M plan approved now [] = Inr []"
| "echoed_grants M plan approved now (w # ws) =
     (if type_field w \<in> set approved then echoed_grants M plan approved now ws
      else if type_field w \<notin> set (cp_grantedTypes plan) \<or> type_field w \<in> set (cp_rejectedTypes plan)
      then and_then (projectKnownCapability M w) (\<lambda>c.
             and_then (echoed_grants M plan approved now ws) (\<lambda>gs. Inr (\<lparr>gr_capability = c, gr_grantedAt = now\<rparr> # gs)))
      else echoed_grants M plan approved now ws)"

fun replacement_grants :: "nat \<Rightarrow> wire list \<Rightarrow> capability_plan \<Rightarrow> time \<Rightarrow> wire list \<Rightarrow> capability_error + granted_record list" where
  "replacement_grants M popupResults plan now [] = Inr []"
| "replacement_grants M popupResults plan now (t # ts) =
     and_then (replacementFor M popupResults plan t) (\<lambda>r.
       let c = (case r of Some c \<Rightarrow> Some c | None \<Rightarrow> find (\<lambda>c. cap_field c = t) (cp_delta plan))
       in and_then (replacement_grants M popupResults plan now ts) (\<lambda>gs.
            Inr (case c of None \<Rightarrow> gs | Some c \<Rightarrow> \<lparr>gr_capability = c, gr_grantedAt = now\<rparr> # gs)))"

definition collectNewGrants ::
  "nat \<Rightarrow> wire list \<Rightarrow> capability_plan \<Rightarrow> wire list \<Rightarrow> time \<Rightarrow> capability_error + granted_record list" where
  "collectNewGrants M popupResults plan deltaApprovedTypes now =
     and_then (echoed_grants M plan deltaApprovedTypes now popupResults) (\<lambda>echoed.
     and_then (replacement_grants M popupResults plan now deltaApprovedTypes) (\<lambda>replaced. Inr (echoed @ replaced)))"

definition requiredGrants :: "capability_result \<Rightarrow> capability_plan \<Rightarrow> wire list \<Rightarrow> wire list" where
  "requiredGrants result plan deltaApprovedTypes =
     (let widening = cp_widening plan \<noteq> None \<and> accounts_type \<in> set deltaApprovedTypes;
          consentOnHeldAccounts = cr_authorizations result = WBool True \<and> \<not> delta_has_accounts plan
      in if widening \<or> consentOnHeldAccounts then [accounts_type] else [])"

definition consent_value :: "bool \<Rightarrow> wire" where
  "consent_value broad = WObj [(''broad'', WBool broad)]"

definition consentDecision :: "capability_result \<Rightarrow> capability_plan \<Rightarrow> granted_record list \<Rightarrow> wire option" where
  "consentDecision result plan grantRecords =
     (if cr_authorizations result = WBool False then Some WNull
      else if cr_authorizations result \<noteq> WBool True then None
      else let after = effectiveGrants (map gr_capability (cp_existingGrants plan)) (map gr_capability grantRecords)
           in Some (consent_value (coversAnyContract after)))"

definition approvedTypesOf :: "capability_result \<Rightarrow> capability_plan \<Rightarrow> wire list" where
  "approvedTypesOf result plan = map type_field (ensureAccountsGrant result (cp_delta plan))"

definition deltaApprovedTypesOf :: "capability_result \<Rightarrow> capability_plan \<Rightarrow> wire list" where
  "deltaApprovedTypesOf result plan =
     js_unique (filter (\<lambda>t. t \<in> set (approvedTypesOf result plan)) (map cap_field (cp_delta plan)))"

definition keepAccountsGrant :: "capability_result \<Rightarrow> capability_plan \<Rightarrow> bool" where
  "keepAccountsGrant result plan =
     ((case cp_widening plan of Some (_, membershipOnly) \<Rightarrow> membershipOnly | None \<Rightarrow> False)
      \<and> accounts_type \<in> set (deltaApprovedTypesOf result plan))"

definition mergeGrantsAndRejections ::
  "nat \<Rightarrow> time \<Rightarrow> capability_result \<Rightarrow> capability_plan \<Rightarrow> capability_error + capability_decision" where
  "mergeGrantsAndRejections M now result plan =
     and_then (collectNewGrants M (ensureAccountsGrant result (cp_delta plan)) plan (deltaApprovedTypesOf result plan) now) (\<lambda>collected.
       let newGrants = filter (\<lambda>g. \<not> (keepAccountsGrant result plan \<and> cap_field (gr_capability g) = accounts_type)) collected
       in Inr \<lparr>cd_addAccounts = fst (accountsAdditions result plan),
               cd_aliasPatch = snd (accountsAdditions result plan),
               cd_grantRecords = newGrants,
               cd_replaceTypes =
                 filter (\<lambda>t. \<not> (keepAccountsGrant result plan \<and> t = accounts_type)) (deltaApprovedTypesOf result plan),
               cd_approvedTypes = deltaApprovedTypesOf result plan,
               cd_rejectedTypes = filter (\<lambda>t. t \<notin> set (approvedTypesOf result plan)) (map cap_field (cp_delta plan)),
               cd_requiresGrant = requiredGrants result plan (deltaApprovedTypesOf result plan),
               cd_authorizations = consentDecision result plan newGrants\<rparr>)"

section \<open>The session writer\<close>

datatype decision_error = RevokedGrant wire | MalformedConsent

definition holdsCanCreateAuthWit :: "dapp_session \<Rightarrow> bool" where
  "holdsCanCreateAuthWit s =
     list_ex (\<lambda>g. type_of_cap (gr_capability g) = Some TAccounts \<and> canCreateAuthWit (gr_capability g) = Some True) (ds_grants s)"

definition dropConsentWithoutAuthWit :: "dapp_session \<Rightarrow> dapp_session" where
  "dropConsentWithoutAuthWit s = (if holdsCanCreateAuthWit s then s else s\<lparr>ds_consent := WUndef\<rparr>)"

definition consentAfter :: "wire \<Rightarrow> wire option \<Rightarrow> decision_error + wire" where
  "consentAfter current decided =
     (case decided of
        None \<Rightarrow> Inr current
      | Some d \<Rightarrow>
          if d = WNull then Inr WUndef
          else (case readConsent d of None \<Rightarrow> Inl MalformedConsent | Some broad \<Rightarrow> Inr (consent_value broad)))"

definition merged_grants :: "dapp_session \<Rightarrow> capability_decision \<Rightarrow> granted_record list" where
  "merged_grants s d = filter (\<lambda>g. cap_field (gr_capability g) \<notin> set (cd_replaceTypes d)) (ds_grants s) @ cd_grantRecords d"

definition merged_rejections :: "time \<Rightarrow> dapp_session \<Rightarrow> capability_decision \<Rightarrow> (wire \<times> time) list" where
  "merged_rejections now s d =
     filter (\<lambda>r. fst r \<notin> set (cd_approvedTypes d) \<union> set (cd_rejectedTypes d)) (ds_rejections s)
     @ map (\<lambda>t. (t, now)) (cd_rejectedTypes d)"

definition decided_session :: "time \<Rightarrow> dapp_session \<Rightarrow> capability_decision \<Rightarrow> wire \<Rightarrow> dapp_session" where
  "decided_session now s d consent =
     s\<lparr>ds_accounts := (if cd_addAccounts d = [] then ds_accounts s else js_unique (ds_accounts s @ cd_addAccounts d)),
       ds_aliases := (if cd_aliasPatch d = [] then ds_aliases s else js_sets (cd_aliasPatch d) (ds_aliases s)),
       ds_grants := merged_grants s d,
       ds_rejections := merged_rejections now s d,
       ds_consent := consent\<rparr>"

definition applyCapabilityDecision :: "time \<Rightarrow> dapp_session \<Rightarrow> capability_decision \<Rightarrow> decision_error + dapp_session" where
  "applyCapabilityDecision now s d =
     (case find (\<lambda>t. t \<notin> set (map (\<lambda>g. cap_field (gr_capability g)) (ds_grants s))) (cd_requiresGrant d) of
        Some revoked \<Rightarrow> Inl (RevokedGrant revoked)
      | None \<Rightarrow>
          and_then (consentAfter (ds_consent s) (cd_authorizations d)) (\<lambda>consent.
            Inr (dropConsentWithoutAuthWit (decided_session now s d consent))))"

section \<open>One request for capabilities\<close>

text \<open>
  \<^verbatim>\<open>handleRequestCapabilities\<close> up to the answer: the manifest's capabilities are projected, the plan is computed
  against the session read at dispatch entry, and unless nothing is left to ask, the window's answer is
  merged into the row as it is then, which other windows may have changed. The profile's accounts, the
  session's own on the chain and those the picker offers come from the account service.
\<close>

definition plan_request :: "nat \<Rightarrow> capability list \<Rightarrow> dapp_session \<Rightarrow> string list \<Rightarrow> string list \<Rightarrow> capability_plan" where
  "plan_request M requested s profileAddresses held =
     (let plan = computeCapabilityDelta M (filter (\<lambda>c. \<not> grantsNothing c) requested) s
      in case find (\<lambda>c. type_of_cap c = Some TAccounts) requested of
           Some r \<Rightarrow> if grantsOfType (cp_existingGrants plan) TAccounts \<noteq> []
                     then planAccountsWidening plan r held (ungrantedAccounts profileAddresses held) else plan
         | None \<Rightarrow> plan)"

datatype negotiation_error = BadCapability capability_error | BadDecision decision_error

definition offer_accounts :: "(string \<times> int) list \<Rightarrow> capability_plan \<Rightarrow> capability_plan" where
  "offer_accounts available plan = plan\<lparr>cp_availableAccounts := (if delta_has_accounts plan then available else [])\<rparr>"

definition decide_request ::
  "nat \<Rightarrow> time \<Rightarrow> capability_plan \<Rightarrow> capability_result \<Rightarrow> dapp_session \<Rightarrow> negotiation_error + dapp_session" where
  "decide_request M now plan result latest =
     (case mergeGrantsAndRejections M now result plan of
        Inl e \<Rightarrow> Inl (BadCapability e)
      | Inr d \<Rightarrow> map_sum BadDecision id (applyCapabilityDecision now latest d))"

section \<open>Types of projected capabilities\<close>

lemma cap_field_known: "type_of_cap c = Some t \<Longrightarrow> cap_field c = WStr (type_name t)"
  by (cases c) (auto simp: cap_field_def type_field_def)

lemma knownTypeOf_field: "knownTypeOf w = Some t \<Longrightarrow> type_field w = WStr (type_name t)"
  by (auto simp: knownTypeOf_def type_field_def split: if_splits wire.splits)

lemma projected_field: "projectKnownCapability M w = Inr c \<Longrightarrow> cap_field c = type_field w"
proof (cases "knownTypeOf w")
  case None
  moreover assume "projectKnownCapability M w = Inr c"
  ultimately show ?thesis by (auto simp: projectKnownCapability_def cap_field_def)
next
  case (Some t)
  moreover assume "projectKnownCapability M w = Inr c"
  ultimately have "type_of_cap c = Some t"
    by (auto simp: projectKnownCapability_def dest: project_wf split: option.splits)
  with Some show ?thesis by (simp add: cap_field_known knownTypeOf_field)
qed

lemma project_all_member:
  "project_all M ws = Inr cs \<Longrightarrow> c \<in> set cs \<Longrightarrow> \<exists>w\<in>set ws. projectKnownCapability M w = Inr c"
  by (induction ws arbitrary: cs) (auto simp: and_then_Inr)

lemma last_opt_member: "last_opt xs = Some x \<Longrightarrow> x \<in> set xs"
  by (auto simp: last_opt_def split: if_splits)

section \<open>What the merge stores\<close>

text \<open>The window answers with capabilities it was shown: the delta and the held ones that were not rejected.\<close>

definition answers_shown :: "capability_result \<Rightarrow> capability_plan \<Rightarrow> bool" where
  "answers_shown result plan \<longleftrightarrow>
     (\<forall>w\<in>set (cr_granted result). type_field w \<in> cap_field ` set (cp_delta plan) \<union> cap_field ` set (cp_existingCaps plan))"

definition plan_types_ok :: "capability_plan \<Rightarrow> bool" where
  "plan_types_ok plan \<longleftrightarrow>
     (\<forall>c\<in>set (cp_existingCaps plan). cap_field c \<in> set (cp_grantedTypes plan) \<and> cap_field c \<notin> set (cp_rejectedTypes plan))"

lemma plan_request_types_ok: "plan_types_ok (plan_request M requested s pa held)"
proof -
  have base: "plan_types_ok (computeCapabilityDelta M r s)" for r
    by (auto simp: plan_types_ok_def computeCapabilityDelta_def Let_def)
  have wide: "plan_types_ok plan \<Longrightarrow> plan_types_ok (planAccountsWidening plan r h u)" for plan r h u
    by (auto simp: plan_types_ok_def planAccountsWidening_def Let_def split: list.splits)
  show ?thesis unfolding plan_request_def Let_def
    by (auto intro: base wide split: option.splits)
qed

lemma find_SomeD: "find P xs = Some x \<Longrightarrow> x \<in> set xs \<and> P x"
  by (auto simp: find_Some_iff)

text \<open>
  What the window said yes to. A capability is approved by an answer of its own type that validates to it, or, when
  accounts were picked and no answer speaks of accounts, by being the accounts capability of the request.
\<close>

definition window_approved :: "nat \<Rightarrow> capability_result \<Rightarrow> capability list \<Rightarrow> capability \<Rightarrow> bool" where
  "window_approved M result requested c \<longleftrightarrow>
     (\<exists>w\<in>set (cr_granted result). type_field w = cap_field c \<and> projectKnownCapability M w = Inr c)
     \<or> cr_selectedAccounts result \<noteq> [] \<and> (\<forall>w\<in>set (cr_granted result). type_field w \<noteq> accounts_type)
       \<and> c \<in> set requested \<and> cap_field c = accounts_type"

definition type_approved :: "capability_result \<Rightarrow> wire \<Rightarrow> bool" where
  "type_approved result t \<longleftrightarrow>
     (\<exists>w\<in>set (cr_granted result). type_field w = t) \<or> cr_selectedAccounts result \<noteq> [] \<and> t = accounts_type"

lemma ensureAccountsGrant_cases:
  assumes "w \<in> set (ensureAccountsGrant result delta)"
  shows "w \<in> set (cr_granted result)
    \<or> cr_selectedAccounts result \<noteq> [] \<and> (\<forall>v\<in>set (cr_granted result). type_field v \<noteq> accounts_type)
      \<and> (\<exists>c\<in>set delta. cap_field c = accounts_type \<and> w = wire_of_cap c)"
  using assms
  by (auto simp: ensureAccountsGrant_def Let_def list_ex_iff dest: find_SomeD split: if_splits option.splits)

lemma approvedTypes_asked:
  assumes "c \<in> set (cp_delta plan)"
  shows "cap_field c \<in> set (approvedTypesOf result plan) \<longleftrightarrow> type_approved result (cap_field c)"
proof
  assume "cap_field c \<in> set (approvedTypesOf result plan)"
  then show "type_approved result (cap_field c)"
    by (auto simp: approvedTypesOf_def type_approved_def cap_field_def dest!: ensureAccountsGrant_cases)
next
  have answered: "w \<in> set (cr_granted result) \<Longrightarrow> type_field w \<in> set (approvedTypesOf result plan)" for w
    by (auto simp: approvedTypesOf_def ensureAccountsGrant_def Let_def split: option.splits)
  assume "type_approved result (cap_field c)"
  then consider w where "w \<in> set (cr_granted result)" "type_field w = cap_field c"
    | "cr_selectedAccounts result \<noteq> []" "cap_field c = accounts_type" "\<forall>w\<in>set (cr_granted result). type_field w \<noteq> accounts_type"
    unfolding type_approved_def by metis
  then show "cap_field c \<in> set (approvedTypesOf result plan)"
  proof cases
    case 1
    with answered [of w] show ?thesis by simp
  next
    case 2
    then obtain c' where c': "find (\<lambda>c. cap_field c = accounts_type) (cp_delta plan) = Some c'"
      using find_None_iff [of "\<lambda>c. cap_field c = accounts_type" "cp_delta plan"] assms by fastforce
    from find_SomeD [OF c'] have "type_field (wire_of_cap c') = accounts_type" by (simp add: cap_field_def)
    with 2 c' show ?thesis by (auto simp: approvedTypesOf_def ensureAccountsGrant_def Let_def list_ex_iff)
  qed
qed

lemma echoed_grants_member:
  assumes "echoed_grants M plan approved now ws = Inr gs" "g \<in> set gs"
  shows "gr_grantedAt g = now \<and> (\<exists>w\<in>set ws. projectKnownCapability M w = Inr (gr_capability g) \<and> type_field w \<notin> set approved
      \<and> (type_field w \<notin> set (cp_grantedTypes plan) \<or> type_field w \<in> set (cp_rejectedTypes plan)))"
  using assms by (induction ws arbitrary: gs) (fastforce simp: and_then_Inr split: if_splits)+

lemma replacementFor_member:
  assumes "replacementFor M ws plan t = Inr (Some c)"
  shows "\<exists>w\<in>set ws. type_field w = t \<and> projectKnownCapability M w = Inr c"
proof -
  from assms obtain cs where cs: "project_all M (filter (\<lambda>w. type_field w = t) ws) = Inr cs"
    by (auto simp: replacementFor_def Let_def and_then_Inr)
  with assms have "c \<in> set cs"
    by (auto simp: replacementFor_def Let_def dest!: last_opt_member split: option.splits)
  with project_all_member [OF cs] show ?thesis by auto
qed

lemma replacementFor_answered:
  assumes "replacementFor M ws plan t = Inr r" "w \<in> set ws" "type_field w = t"
  shows "r \<noteq> None"
proof -
  have len: "project_all M vs = Inr cs \<Longrightarrow> length cs = length vs" for vs cs
    by (induction vs arbitrary: cs) (auto simp: and_then_Inr)
  from assms(1) obtain cs where cs: "project_all M (filter (\<lambda>w. type_field w = t) ws) = Inr cs"
      "r = None \<Longrightarrow> last_opt cs = None"
    unfolding replacementFor_def Let_def and_then_Inr by (metis (no_types, lifting) option.case_eq_if option.distinct(1) sum.inject(2))
  from len [OF cs(1)] assms(2,3) have "cs \<noteq> []" by (auto simp: filter_empty_conv)
  with cs(2) show ?thesis by (auto simp: last_opt_def)
qed

text \<open>Every type asked for has an answer among \<^verbatim>\<open>ws\<close>, so the fallback to the requested capability is never taken.\<close>

lemma replacement_grants_step:
  assumes "replacement_grants M ws plan now (t # ts) = Inr gs" "\<exists>w\<in>set ws. type_field w = t"
  obtains c gs' where "replacementFor M ws plan t = Inr (Some c)" "replacement_grants M ws plan now ts = Inr gs'"
    "gs = \<lparr>gr_capability = c, gr_grantedAt = now\<rparr> # gs'"
proof -
  from assms(1) obtain r where r: "replacementFor M ws plan t = Inr r" by (auto simp: and_then_Inr)
  with replacementFor_answered [OF r] assms(2) obtain c where "r = Some c" by auto
  with that r assms(1) show ?thesis by (auto simp: and_then_Inr)
qed

lemma replacement_grants_member:
  assumes "replacement_grants M ws plan now ts = Inr gs" "\<forall>t\<in>set ts. \<exists>w\<in>set ws. type_field w = t" "g \<in> set gs"
  shows "gr_grantedAt g = now \<and> (\<exists>w\<in>set ws. type_field w \<in> set ts \<and> projectKnownCapability M w = Inr (gr_capability g))"
  using assms
proof (induction ts arbitrary: gs)
  case (Cons t ts)
  from replacement_grants_step [OF Cons.prems(1)] Cons.prems(2) obtain c gs' where
    "replacementFor M ws plan t = Inr (Some c)" "replacement_grants M ws plan now ts = Inr gs'" "gs = \<lparr>gr_capability = c, gr_grantedAt = now\<rparr> # gs'"
    by (metis list.set_intros(1))
  with Cons.IH [of gs'] Cons.prems(2,3) replacementFor_member [of M ws plan t c] show ?case by auto
qed simp

lemma replacement_grants_present:
  assumes "replacement_grants M ws plan now ts = Inr gs" "\<forall>t\<in>set ts. \<exists>w\<in>set ws. type_field w = t" "t \<in> set ts"
  shows "\<exists>g\<in>set gs. cap_field (gr_capability g) = t"
  using assms
proof (induction ts arbitrary: gs)
  case (Cons u us)
  from replacement_grants_step [OF Cons.prems(1)] Cons.prems(2) obtain c gs' where
    c: "replacementFor M ws plan u = Inr (Some c)" "replacement_grants M ws plan now us = Inr gs'" "gs = \<lparr>gr_capability = c, gr_grantedAt = now\<rparr> # gs'"
    by (metis list.set_intros(1))
  from replacementFor_member [OF c(1)] projected_field have "cap_field c = u" by blast
  with Cons.IH [OF c(2)] Cons.prems(2,3) c(3) show ?case by auto
qed simp

lemma set_deltaApproved: "set (deltaApprovedTypesOf result plan) = cap_field ` set (cp_delta plan) \<inter> set (approvedTypesOf result plan)"
  by (auto simp: deltaApprovedTypesOf_def)

lemma merge_fields:
  assumes "mergeGrantsAndRejections M now result plan = Inr d"
  shows "\<exists>collected. collectNewGrants M (ensureAccountsGrant result (cp_delta plan)) plan (deltaApprovedTypesOf result plan) now = Inr collected
      \<and> set (cd_grantRecords d) = {g \<in> set collected. \<not> (keepAccountsGrant result plan \<and> cap_field (gr_capability g) = accounts_type)}"
    and "set (cd_replaceTypes d) \<subseteq> set (deltaApprovedTypesOf result plan)"
    and "cd_addAccounts d = fst (accountsAdditions result plan)"
    and "cd_authorizations d = consentDecision result plan (cd_grantRecords d)"
    and "keepAccountsGrant result plan \<Longrightarrow> accounts_type \<notin> set (cd_replaceTypes d) \<and> accounts_type \<in> set (cd_requiresGrant d)"
    and "set (cd_approvedTypes d) = set (deltaApprovedTypesOf result plan)"
    and "set (cd_rejectedTypes d) = cap_field ` set (cp_delta plan) - set (approvedTypesOf result plan)"
  using assms by (auto simp: mergeGrantsAndRejections_def and_then_Inr Let_def keepAccountsGrant_def requiredGrants_def split: option.splits)

text \<open>The grants a decision carries: each replaces an approved type of the delta, or echoes a type that is not in it.\<close>

lemma merge_collected:
  assumes merge: "mergeGrantsAndRejections M now result plan = Inr d"
  obtains echoed replaced where
    "echoed_grants M plan (deltaApprovedTypesOf result plan) now (ensureAccountsGrant result (cp_delta plan)) = Inr echoed"
    "replacement_grants M (ensureAccountsGrant result (cp_delta plan)) plan now (deltaApprovedTypesOf result plan) = Inr replaced"
    "set (cd_grantRecords d)
       = {g \<in> set echoed \<union> set replaced. \<not> (keepAccountsGrant result plan \<and> cap_field (gr_capability g) = accounts_type)}"
  using merge_fields(1) [OF merge] by (auto simp: collectNewGrants_def and_then_Inr)

lemma deltaApproved_answered:
  "\<forall>t\<in>set (deltaApprovedTypesOf result plan). \<exists>w\<in>set (ensureAccountsGrant result (cp_delta plan)). type_field w = t"
  by (auto simp: set_deltaApproved approvedTypesOf_def)

lemma answer_approves:
  assumes "w \<in> set (ensureAccountsGrant result (cp_delta plan))" "projectKnownCapability M w = Inr c"
    and "\<forall>c\<in>set (cp_delta plan). wf_capability M c" "set (cp_delta plan) \<subseteq> set requested"
  shows "window_approved M result requested c"
  using ensureAccountsGrant_cases [OF assms(1)]
proof
  assume "w \<in> set (cr_granted result)"
  with projected_field [OF assms(2)] assms(2) show ?thesis by (auto simp: window_approved_def)
next
  assume a: "cr_selectedAccounts result \<noteq> [] \<and> (\<forall>v\<in>set (cr_granted result). type_field v \<noteq> accounts_type)
      \<and> (\<exists>c\<in>set (cp_delta plan). cap_field c = accounts_type \<and> w = wire_of_cap c)"
  then obtain c' where c': "c' \<in> set (cp_delta plan)" "cap_field c' = accounts_type" "w = wire_of_cap c'" by blast
  with assms(2,3) have "c = c'" by (simp add: projectKnown_printed)
  with a c' assms(4) show ?thesis by (auto simp: window_approved_def)
qed

lemma merge_grants_approved:
  assumes merge: "mergeGrantsAndRejections M now result plan = Inr d" and g: "g \<in> set (cd_grantRecords d)"
    and wf: "\<forall>c\<in>set (cp_delta plan). wf_capability M c" and delta: "set (cp_delta plan) \<subseteq> set requested"
  shows "gr_grantedAt g = now \<and> window_approved M result requested (gr_capability g)
    \<and> (cap_field (gr_capability g) \<in> cap_field ` set (cp_delta plan)
       \<or> cap_field (gr_capability g) \<notin> set (cp_grantedTypes plan) \<or> cap_field (gr_capability g) \<in> set (cp_rejectedTypes plan))"
proof -
  obtain echoed replaced where
    e: "echoed_grants M plan (deltaApprovedTypesOf result plan) now (ensureAccountsGrant result (cp_delta plan)) = Inr echoed" and
    r: "replacement_grants M (ensureAccountsGrant result (cp_delta plan)) plan now (deltaApprovedTypesOf result plan) = Inr replaced" and
    s: "set (cd_grantRecords d)
       = {g \<in> set echoed \<union> set replaced. \<not> (keepAccountsGrant result plan \<and> cap_field (gr_capability g) = accounts_type)}"
    by (rule merge_collected [OF merge])
  from g s consider "g \<in> set echoed" | "g \<in> set replaced" by auto
  then show ?thesis
  proof cases
    case 1
    from echoed_grants_member [OF e 1] obtain w where w: "gr_grantedAt g = now" "w \<in> set (ensureAccountsGrant result (cp_delta plan))"
        "projectKnownCapability M w = Inr (gr_capability g)"
        "type_field w \<notin> set (cp_grantedTypes plan) \<or> type_field w \<in> set (cp_rejectedTypes plan)" by blast
    with answer_approves [OF w(2,3) wf delta] projected_field [OF w(3)] show ?thesis by simp
  next
    case 2
    from replacement_grants_member [OF r deltaApproved_answered 2] obtain w where w: "gr_grantedAt g = now"
        "w \<in> set (ensureAccountsGrant result (cp_delta plan))" "type_field w \<in> set (deltaApprovedTypesOf result plan)"
        "projectKnownCapability M w = Inr (gr_capability g)" by blast
    with answer_approves [OF w(2,4) wf delta] projected_field [OF w(4)] show ?thesis by (auto simp: set_deltaApproved)
  qed
qed

text \<open>A window that answers only with what it was shown adds only types that were asked.\<close>

lemma shown_asked:
  assumes "answers_shown result plan" "plan_types_ok plan" "set (cp_delta plan) \<subseteq> set requested" "window_approved M result requested c"
    and "cap_field c \<in> cap_field ` set (cp_delta plan) \<or> cap_field c \<notin> set (cp_grantedTypes plan) \<or> cap_field c \<in> set (cp_rejectedTypes plan)"
  shows "cap_field c \<in> cap_field ` set requested"
proof -
  from assms(4) consider w where "w \<in> set (cr_granted result)" "type_field w = cap_field c" | "c \<in> set requested"
    by (auto simp: window_approved_def)
  then show ?thesis
  proof cases
    case 1
    with bspec [OF assms(1) [unfolded answers_shown_def], of w]
    have "cap_field c \<in> cap_field ` set (cp_delta plan) \<union> cap_field ` set (cp_existingCaps plan)" by simp
    with assms(2,3,5) show ?thesis by (auto simp: plan_types_ok_def)
  qed simp
qed

section \<open>Accounts and aliases\<close>

lemma offered_lookup:
  assumes "js_get (fold (\<lambda>(address, chainId). js_set (js_lower (formatCaipAccount chainId address)) (formatCaipAccount chainId address)) xs m) k = Some v"
  shows "(\<exists>(address, chainId)\<in>set xs. v = formatCaipAccount chainId address \<and> k = js_lower v) \<or> js_get m k = Some v"
  using assms by (induction xs arbitrary: m) (fastforce simp: map_simps split: if_splits)+

lemma offered_accounts_lookup:
  "js_get (offered_accounts plan) k = Some v
     \<Longrightarrow> (\<exists>(address, chainId)\<in>set (cp_availableAccounts plan). v = formatCaipAccount chainId address) \<and> k = js_lower v"
  using offered_lookup [of "cp_availableAccounts plan" "[]" k v] by (auto simp: offered_accounts_def)

lemma accountsAdditions_offered:
  assumes "a \<in> set (fst (accountsAdditions result plan))"
  shows "(\<exists>(address, chainId)\<in>set (cp_availableAccounts plan). a = formatCaipAccount chainId address)
    \<and> js_lower a \<in> js_lower ` set (cr_selectedAccounts result) \<and> js_lower a \<notin> js_lower ` set (cp_sessionAccounts plan)"
proof -
  from assms obtain sel where sel: "sel \<in> set (cr_selectedAccounts result)" "js_get (offered_accounts plan) (js_lower sel) = Some a"
      "js_lower a \<notin> js_lower ` set (cp_sessionAccounts plan)"
    by (auto simp: accountsAdditions_def Let_def set_map_filter_iff split: if_splits)
  from offered_accounts_lookup [OF sel(2)] sel(1,3) show ?thesis by (metis image_eqI)
qed

section \<open>The decision in force\<close>

lemma plan_request_delta: "set (cp_delta (plan_request M requested s pa held)) \<subseteq> set requested"
proof -
  have base: "set (cp_delta (computeCapabilityDelta M r s)) \<subseteq> set r" for r
    by (auto simp: computeCapabilityDelta_def Let_def)
  have wide: "set (cp_delta (planAccountsWidening plan r h u)) \<subseteq> insert r (set (cp_delta plan))" for plan r h u
    by (auto simp: planAccountsWidening_def Let_def split: list.splits)
  show ?thesis
  proof (cases "find (\<lambda>c. type_of_cap c = Some TAccounts) requested")
    case None
    then show ?thesis using base [of "filter (\<lambda>c. \<not> grantsNothing c) requested"] by (auto simp: plan_request_def Let_def)
  next
    case (Some r)
    then have "r \<in> set requested" by (auto dest: find_SomeD)
    with Some show ?thesis
      using base [of "filter (\<lambda>c. \<not> grantsNothing c) requested"]
        wide [of "computeCapabilityDelta M (filter (\<lambda>c. \<not> grantsNothing c) requested) s" r held "ungrantedAccounts pa held"]
      by (auto simp: plan_request_def Let_def)
  qed
qed

lemma offer_fields [simp]:
  "cp_delta (offer_accounts av plan) = cp_delta plan" "cp_existingCaps (offer_accounts av plan) = cp_existingCaps plan"
  "cp_grantedTypes (offer_accounts av plan) = cp_grantedTypes plan" "cp_rejectedTypes (offer_accounts av plan) = cp_rejectedTypes plan"
  "set (cp_availableAccounts (offer_accounts av plan)) \<subseteq> set av"
  by (auto simp: offer_accounts_def)

lemma drop_consent_fields [simp]:
  "ds_grants (dropConsentWithoutAuthWit s) = ds_grants s" "ds_accounts (dropConsentWithoutAuthWit s) = ds_accounts s"
  "holdsCanCreateAuthWit (dropConsentWithoutAuthWit s) = holdsCanCreateAuthWit s"
  by (simp_all add: dropConsentWithoutAuthWit_def holdsCanCreateAuthWit_def)

lemma drop_consent_kept:
  "ds_consent (dropConsentWithoutAuthWit s) \<noteq> WUndef \<Longrightarrow> holdsCanCreateAuthWit s \<and> ds_consent (dropConsentWithoutAuthWit s) = ds_consent s"
  by (auto simp: dropConsentWithoutAuthWit_def split: if_splits)

lemma apply_fields:
  assumes "applyCapabilityDecision now s d = Inr s'"
  shows "ds_grants s' = merged_grants s d"
    and "set (ds_accounts s') = set (ds_accounts s) \<union> set (cd_addAccounts d)"
    and "ds_consent s' \<noteq> WUndef \<Longrightarrow> holdsCanCreateAuthWit s' \<and> consentAfter (ds_consent s) (cd_authorizations d) = Inr (ds_consent s')"
proof -
  obtain consent where c: "consentAfter (ds_consent s) (cd_authorizations d) = Inr consent"
      "s' = dropConsentWithoutAuthWit (decided_session now s d consent)"
    using assms by (auto simp: applyCapabilityDecision_def and_then_Inr split: option.splits)
  show "ds_grants s' = merged_grants s d" by (simp add: c decided_session_def)
  show "set (ds_accounts s') = set (ds_accounts s) \<union> set (cd_addAccounts d)" by (simp add: c decided_session_def)
  show "holdsCanCreateAuthWit s' \<and> consentAfter (ds_consent s) (cd_authorizations d) = Inr (ds_consent s')"
    if "ds_consent s' \<noteq> WUndef"
  proof -
    have x: "ds_consent (decided_session now s d consent) = consent" by (simp add: decided_session_def)
    have "holdsCanCreateAuthWit (decided_session now s d consent) \<and> ds_consent s' = consent"
      using drop_consent_kept [of "decided_session now s d consent"] that unfolding c(2) x by simp
    with c show ?thesis by simp
  qed
qed

lemma consentAfter_set:
  assumes "consentAfter current (consentDecision result plan gs) = Inr v" "v \<noteq> WUndef"
  shows "v = current \<and> cr_authorizations result \<noteq> WBool False
    \<or> cr_authorizations result = WBool True
      \<and> v = consent_value (coversAnyContract (effectiveGrants (map gr_capability (cp_existingGrants plan)) (map gr_capability gs)))"
  using assms
  by (auto simp: consentAfter_def consentDecision_def consent_value_def readConsent_def Let_def split: if_splits)

lemma applied_requires:
  "applyCapabilityDecision now s d = Inr s' \<Longrightarrow> t \<in> set (cd_requiresGrant d) \<Longrightarrow> \<exists>g\<in>set (ds_grants s). cap_field (gr_capability g) = t"
  by (auto simp: applyCapabilityDecision_def find_None_iff split: option.splits)

lemma applied_rejections:
  "applyCapabilityDecision now s d = Inr s' \<Longrightarrow> ds_rejections s' = merged_rejections now s d"
  by (auto simp: applyCapabilityDecision_def and_then_Inr decided_session_def dropConsentWithoutAuthWit_def split: option.splits)

text \<open>Every approved type of the delta is held afterwards and no longer rejected; every other one is rejected and gains nothing.\<close>

lemma decided_type_held:
  assumes merge: "mergeGrantsAndRejections M now result plan = Inr d" and app: "applyCapabilityDecision now latest d = Inr after"
    and t: "t \<in> set (deltaApprovedTypesOf result plan)"
  shows "\<exists>g\<in>set (ds_grants after). cap_field (gr_capability g) = t"
proof (cases "keepAccountsGrant result plan \<and> t = accounts_type")
  case True
  with merge_fields(5) [OF merge] applied_requires [OF app] show ?thesis
    unfolding apply_fields(1) [OF app] merged_grants_def by fastforce
next
  case False
  obtain echoed replaced where
    r: "replacement_grants M (ensureAccountsGrant result (cp_delta plan)) plan now (deltaApprovedTypesOf result plan) = Inr replaced" and
    s: "set (cd_grantRecords d)
       = {g \<in> set echoed \<union> set replaced. \<not> (keepAccountsGrant result plan \<and> cap_field (gr_capability g) = accounts_type)}"
    by (rule merge_collected [OF merge])
  from replacement_grants_present [OF r deltaApproved_answered t] obtain g where "g \<in> set replaced" "cap_field (gr_capability g) = t" by blast
  with False s show ?thesis unfolding apply_fields(1) [OF app] merged_grants_def by auto
qed

lemma decided_rejections:
  assumes merge: "mergeGrantsAndRejections M now result plan = Inr d" and app: "applyCapabilityDecision now latest d = Inr after"
    and c: "c \<in> set (cp_delta plan)"
  shows "cap_field c \<in> fst ` set (ds_rejections after) \<longleftrightarrow> \<not> type_approved result (cap_field c)"
proof -
  have "cap_field c \<in> set (cd_approvedTypes d) \<union> set (cd_rejectedTypes d)"
    using c unfolding merge_fields(6,7) [OF merge] set_deltaApproved by auto
  then have "cap_field c \<in> fst ` set (ds_rejections after) \<longleftrightarrow> cap_field c \<in> set (cd_rejectedTypes d)"
    unfolding applied_rejections [OF app] merged_rejections_def by (force simp: image_iff)
  with c approvedTypes_asked [OF c, of result] show ?thesis unfolding merge_fields(7) [OF merge] by auto
qed

lemma plan_request_stored:
  "set (cp_grantedTypes (plan_request M requested s pa held)) = (\<lambda>g. cap_field (gr_capability g)) ` set (ds_grants s)"
  "set (cp_rejectedTypes (plan_request M requested s pa held)) = fst ` set (ds_rejections s)"
  by (auto simp: plan_request_def computeCapabilityDelta_def planAccountsWidening_def Let_def split: option.splits list.splits)

text \<open>
  C8. A capability decision follows the window's answer, whatever that answer is and whatever another window
  did to the row in the meantime. A new grant was approved: an answer of its own type validates to it, or it
  is the accounts capability of the request and accounts were picked with no answer about accounts; its type
  was asked for, or else it is an echo of a type the session did not hold when the request was planned or had
  rejected, which a window that answers only with types it was shown never sends. For every capability put to
  the user: if its type was approved the row afterwards holds a grant of the type and no rejection of it; if it
  was refused, no grant of that type is added and the rejection is on record. A grant disappears only when its
  type was requested and approved anew. The session keeps its accounts, and an added one was offered by the
  wallet and picked in the window. A consent to sign without asking is left only beside a grant that allows
  authorization witnesses, and only if it was there before or the window's switch was on.
\<close>

theorem negotiation_sound:
  assumes req: "projectRequestedCapabilities M ws = Inr requested"
    and plan: "plan = offer_accounts available (plan_request M requested s profileAddresses held)"
    and dec: "decide_request M now plan result latest = Inr after"
  shows "(\<forall>g\<in>set (ds_grants after). g \<in> set (ds_grants latest)
            \<or> gr_grantedAt g = now \<and> window_approved M result requested (gr_capability g)
              \<and> (cap_field (gr_capability g) \<in> cap_field ` set requested
                 \<or> \<not> answers_shown result plan
                   \<and> (cap_field (gr_capability g) \<notin> (\<lambda>g. cap_field (gr_capability g)) ` set (ds_grants s)
                      \<or> cap_field (gr_capability g) \<in> fst ` set (ds_rejections s))))
    \<and> (\<forall>c\<in>set (cp_delta plan).
          if type_approved result (cap_field c)
          then (\<exists>g\<in>set (ds_grants after). cap_field (gr_capability g) = cap_field c) \<and> cap_field c \<notin> fst ` set (ds_rejections after)
          else (\<forall>g\<in>set (ds_grants after). cap_field (gr_capability g) = cap_field c \<longrightarrow> g \<in> set (ds_grants latest))
            \<and> cap_field c \<in> fst ` set (ds_rejections after))
    \<and> (\<forall>g\<in>set (ds_grants latest). g \<in> set (ds_grants after)
            \<or> cap_field (gr_capability g) \<in> cap_field ` set requested \<and> type_approved result (cap_field (gr_capability g)))
    \<and> set (ds_accounts latest) \<subseteq> set (ds_accounts after)
    \<and> (\<forall>a\<in>set (ds_accounts after) - set (ds_accounts latest).
          (\<exists>(address, chainId)\<in>set available. a = formatCaipAccount chainId address)
          \<and> js_lower a \<in> js_lower ` set (cr_selectedAccounts result))
    \<and> (ds_consent after \<noteq> WUndef \<longrightarrow> holdsCanCreateAuthWit after
          \<and> (ds_consent after = ds_consent latest \<or> cr_authorizations result = WBool True))"
    (is "?new \<and> ?asked \<and> ?kept \<and> _ \<and> ?accounts \<and> ?consent")
proof -
  obtain d where d: "mergeGrantsAndRejections M now result plan = Inr d" "applyCapabilityDecision now latest d = Inr after"
    using dec by (auto simp: decide_request_def split: sum.splits) (metis map_sum.simps sum.exhaust sum.inject(2) sum.simps(4) id_apply)
  have delta: "set (cp_delta plan) \<subseteq> set requested" and types: "plan_types_ok plan"
    using plan_request_delta plan_request_types_ok by (auto simp: plan plan_types_ok_def)
  have wf: "\<forall>c\<in>set (cp_delta plan). wf_capability M c" using projected_wf [OF req] delta by blast
  note f = apply_fields [OF d(2)]
  have stored: "set (cp_grantedTypes plan) = (\<lambda>g. cap_field (gr_capability g)) ` set (ds_grants s)"
      "set (cp_rejectedTypes plan) = fst ` set (ds_rejections s)"
    by (simp_all add: plan plan_request_stored)
  have fresh: "gr_grantedAt g = now \<and> window_approved M result requested (gr_capability g)
      \<and> (cap_field (gr_capability g) \<in> cap_field ` set (cp_delta plan)
         \<or> cap_field (gr_capability g) \<notin> set (cp_grantedTypes plan) \<or> cap_field (gr_capability g) \<in> set (cp_rejectedTypes plan))"
    if "g \<in> set (ds_grants after)" "g \<notin> set (ds_grants latest)" for g
    using merge_grants_approved [OF d(1) _ wf delta, of g] that f(1) by (auto simp: merged_grants_def)
  have ?new
  proof
    fix g assume "g \<in> set (ds_grants after)"
    with fresh [of g] show "g \<in> set (ds_grants latest)
        \<or> gr_grantedAt g = now \<and> window_approved M result requested (gr_capability g)
          \<and> (cap_field (gr_capability g) \<in> cap_field ` set requested
             \<or> \<not> answers_shown result plan
               \<and> (cap_field (gr_capability g) \<notin> (\<lambda>g. cap_field (gr_capability g)) ` set (ds_grants s)
                  \<or> cap_field (gr_capability g) \<in> fst ` set (ds_rejections s)))"
      using shown_asked [OF _ types delta, of result M "gr_capability g"] image_mono [OF delta, of cap_field] unfolding stored by blast
  qed
  moreover have ?asked
  proof
    fix c assume c: "c \<in> set (cp_delta plan)"
    have held: "\<exists>g\<in>set (ds_grants after). cap_field (gr_capability g) = cap_field c" if "type_approved result (cap_field c)"
      using decided_type_held [OF d] that c approvedTypes_asked [OF c] by (auto simp: set_deltaApproved)
    have none: "g \<in> set (ds_grants latest)"
      if "\<not> type_approved result (cap_field c)" "g \<in> set (ds_grants after)" "cap_field (gr_capability g) = cap_field c" for g
      using fresh [OF that(2)] that(1,3) by (auto simp: window_approved_def type_approved_def)
    show "if type_approved result (cap_field c)
          then (\<exists>g\<in>set (ds_grants after). cap_field (gr_capability g) = cap_field c) \<and> cap_field c \<notin> fst ` set (ds_rejections after)
          else (\<forall>g\<in>set (ds_grants after). cap_field (gr_capability g) = cap_field c \<longrightarrow> g \<in> set (ds_grants latest))
            \<and> cap_field c \<in> fst ` set (ds_rejections after)"
      using held none decided_rejections [OF d c] by simp
  qed
  moreover have ?kept
  proof
    fix g assume g: "g \<in> set (ds_grants latest)"
    have "\<exists>c\<in>set (cp_delta plan). cap_field c = cap_field (gr_capability g) \<and> type_approved result (cap_field c)"
      if "g \<notin> set (ds_grants after)"
      using that g f(1) merge_fields(2) [OF d(1)] approvedTypes_asked
      by (force simp: merged_grants_def set_deltaApproved)
    with delta show "g \<in> set (ds_grants after)
        \<or> cap_field (gr_capability g) \<in> cap_field ` set requested \<and> type_approved result (cap_field (gr_capability g))"
      by (metis image_eqI subsetD)
  qed
  moreover have ?accounts
  proof
    fix a assume "a \<in> set (ds_accounts after) - set (ds_accounts latest)"
    with f(2) merge_fields(3) [OF d(1)] have "a \<in> set (fst (accountsAdditions result plan))" by auto
    from accountsAdditions_offered [OF this] show "(\<exists>(address, chainId)\<in>set available. a = formatCaipAccount chainId address)
        \<and> js_lower a \<in> js_lower ` set (cr_selectedAccounts result)"
      using offer_fields(5) [of available] unfolding plan by blast
  qed
  moreover have ?consent
    using f(3) consentAfter_set [of "ds_consent latest" result plan "cd_grantRecords d" "ds_consent after"]
    unfolding merge_fields(4) [OF d(1)] by blast
  ultimately show ?thesis using f(2) by blast
qed

definition demo_row :: dapp_session where
  "demo_row = blank_session ''s'' ''p'' ''1'' None [] [] 0 0"

definition demo_request :: "wire list" where
  "demo_request = [WObj [(''type'', WStr ''transaction''), (''scope'', WStr ''*'')]]"

definition demo_answer :: capability_result where
  "demo_answer = \<lparr>cr_granted = demo_request, cr_selectedAccounts = [], cr_accountAliases = [], cr_authorizations = WUndef\<rparr>"

definition demo_plan :: capability_plan where
  "demo_plan = offer_accounts [] (plan_request 0 [TransactionCap AnyScope] demo_row [] [])"

definition demo_after :: dapp_session where
  "demo_after = demo_row\<lparr>ds_grants := [\<lparr>gr_capability = TransactionCap AnyScope, gr_grantedAt = 7\<rparr>]\<rparr>"

lemma demo_projected: "projectRequestedCapabilities 0 demo_request = Inr [TransactionCap AnyScope]"
  by (simp add: projectRequestedCapabilities_def demo_request_def projectKnownCapability_def knownTypeOf_def isRecord_def
      project_transaction_def scopeOf_def)

lemma demo_plan_fields:
  "cp_delta demo_plan = [TransactionCap AnyScope]" "cp_existingGrants demo_plan = []" "cp_existingCaps demo_plan = []"
  "cp_grantedTypes demo_plan = []" "cp_rejectedTypes demo_plan = []" "cp_widening demo_plan = None" "cp_availableAccounts demo_plan = []"
  by (simp_all add: demo_plan_def offer_accounts_def plan_request_def computeCapabilityDelta_def grantsNothing_def demo_row_def
      blank_session_def in_delta_def isCapabilityCovered_def grantsOfType_def js_unique_def delta_has_accounts_def cap_field_def type_field_def)

lemma demo_shown: "answers_shown demo_answer demo_plan"
  by (simp add: answers_shown_def demo_answer_def demo_request_def demo_plan_fields cap_field_def type_field_def)

lemma demo_collected:
  "collectNewGrants 0 demo_request demo_plan [WStr ''transaction''] 7 = Inr [\<lparr>gr_capability = TransactionCap AnyScope, gr_grantedAt = 7\<rparr>]"
  by (simp add: collectNewGrants_def demo_request_def type_field_def replacementFor_def demo_plan_fields projectKnownCapability_def
      knownTypeOf_def isRecord_def project_transaction_def scopeOf_def last_opt_def Let_def)

lemma demo_decided: "decide_request 0 7 demo_plan demo_answer demo_row = Inr demo_after"
proof -
  have ws: "ensureAccountsGrant demo_answer delta = demo_request" for delta
    by (simp add: ensureAccountsGrant_def demo_answer_def)
  have "deltaApprovedTypesOf demo_answer demo_plan = [WStr ''transaction'']"
    by (simp add: deltaApprovedTypesOf_def approvedTypesOf_def ws demo_plan_fields cap_field_def type_field_def demo_request_def js_unique_def)
  then have "mergeGrantsAndRejections 0 7 demo_answer demo_plan = Inr \<lparr>cd_addAccounts = [], cd_aliasPatch = [],
      cd_grantRecords = [\<lparr>gr_capability = TransactionCap AnyScope, gr_grantedAt = 7\<rparr>], cd_replaceTypes = [WStr ''transaction''],
      cd_approvedTypes = [WStr ''transaction''], cd_rejectedTypes = [], cd_requiresGrant = [], cd_authorizations = None\<rparr>"
    by (simp add: mergeGrantsAndRejections_def ws demo_collected [unfolded demo_request_def] keepAccountsGrant_def demo_plan_fields accountsAdditions_def demo_answer_def
        approvedTypesOf_def demo_request_def cap_field_def type_field_def requiredGrants_def consentDecision_def ws [unfolded demo_answer_def demo_request_def])
  then show ?thesis
    by (simp add: decide_request_def applyCapabilityDecision_def consentAfter_def decided_session_def merged_grants_def merged_rejections_def
        dropConsentWithoutAuthWit_def holdsCanCreateAuthWit_def demo_row_def demo_after_def blank_session_def)
qed

theorem negotiation_sound_witness:
  "decide_request 0 7 demo_plan demo_answer demo_row = Inr demo_after
    \<and> window_approved 0 demo_answer [TransactionCap AnyScope] (TransactionCap AnyScope)
    \<and> cap_field (TransactionCap AnyScope) \<in> cap_field ` set [TransactionCap AnyScope]"
proof -
  have g: "\<lparr>gr_capability = TransactionCap AnyScope, gr_grantedAt = 7\<rparr> \<in> set (ds_grants demo_after)"
      "\<lparr>gr_capability = TransactionCap AnyScope, gr_grantedAt = 7\<rparr> \<notin> set (ds_grants demo_row)"
    by (simp_all add: demo_after_def demo_row_def blank_session_def)
  from bspec [OF conjunct1 [OF negotiation_sound [OF demo_projected demo_plan_def demo_decided]] g(1)] g(2) demo_shown demo_decided
  show ?thesis by simp
qed

end
