(* ===== verification/Dispatch.thy ===== *)
theory Dispatch
  imports Method_Registry Profile_Deletion
begin

text \<open>
  The dispatcher of \<^verbatim>\<open>packages/wallet-bridge/src/dispatcher.ts\<close> after the guard ladder: which account a request
  acts as (\<^verbatim>\<open>account-resolution.ts\<close>), the operation it builds or the request it hands to the confirmation
  window, the silent path of createAuthWit, and batches, whose legs are dispatched again. One dispatch
  reads its surroundings once: the stored session, the networks and accounts of the profile, and how the
  action it starts ends; a run reads the numbered environments in order.
\<close>

section \<open>Surroundings\<close>

record account_ref =
  ar_address :: string
  ar_name :: string

record session_context =
  cx_chainId :: int
  cx_profileId :: string
  cx_origin :: string
  cx_sessionId :: string
  cx_fence :: "execution_fence option"

datatype operation_result = OkResult | CancelledResult "string option" | FailedResult string "string option" | SkippedResult

record dispatch_env =
  de_session :: "dapp_session option"
  de_networks :: "string list"
  de_accounts :: "account_ref list"
  de_tokenRegistry :: bool
  de_result :: operation_result

section \<open>Actions\<close>

datatype operation =
    GetChainInfoOp string
  | GetContractClassMetadataOp string wire
  | GetContractMetadataOp string wire
  | GetPrivateEventsOp string wire wire
  | RegisterSenderOp string wire wire
  | GetAddressBookOp string
  | RegisterContractOp string wire wire wire
  | SimulateTxOp string string wire wire
  | ExecuteUtilityOp string string wire wire
  | ProfileTxOp string string wire wire
  | CreateAuthWitOp string string wire

datatype interaction =
    AztecSendTxRequest string wire wire bool
  | AztecCreateAuthWitRequest string wire
  | RegisterTokenRequest string string
  | PublicAuthwitRequest string wire wire wire wire

datatype action =
    Execute operation "execution_fence option"
  | Interact string interaction
  | ReadTokenRegistry string
  | AnswerAccounts "(string \<times> string) list"
  | AnswerFeatures
  | Negotiate "wire list"

datatype dispatch_error =
    Refused scope_error
  | NoDappSession
  | ChainNotSupported
  | NoProfileAccounts
  | NoAuthorizedAccounts
  | NoSessionAccounts
  | FenceRequired
  | PopupInBatch string
  | RegistryUnavailable
  | AccountIdentifier caip_error
  | JobCancelled "string option"
  | WalletFailure string string
  | PlainFailure string
  | Skipped

definition unwrapOperationResult :: "operation_result \<Rightarrow> dispatch_error option" where
  "unwrapOperationResult r =
     (case r of
        OkResult \<Rightarrow> None
      | CancelledResult jobId \<Rightarrow> Some (JobCancelled jobId)
      | FailedResult message (Some code) \<Rightarrow> if code = [] then Some (PlainFailure message) else Some (WalletFailure code message)
      | FailedResult message None \<Rightarrow> Some (PlainFailure message)
      | SkippedResult \<Rightarrow> Some Skipped)"

section \<open>Which account a request acts as\<close>

datatype account_resolution = Resolved account_ref | NotAuthorized | NoSessionAccount

definition resolveAuthorizedSessionAccount :: "account_ref list \<Rightarrow> string list \<Rightarrow> string option \<Rightarrow> account_resolution" where
  "resolveAuthorizedSessionAccount walletAccounts sessionAddresses requestedFrom =
     (case requestedFrom of
        Some from \<Rightarrow>
          (case find (\<lambda>a. ar_address a = from \<and> ar_address a \<in> set sessionAddresses) walletAccounts of
             Some a \<Rightarrow> Resolved a | None \<Rightarrow> NotAuthorized)
      | None \<Rightarrow>
          (case find (\<lambda>a. ar_address a \<in> set sessionAddresses) walletAccounts of
             Some a \<Rightarrow> Resolved a | None \<Rightarrow> NoSessionAccount))"

definition NO_FROM :: wire where
  "NO_FROM = WStr ''NO_FROM''"

definition isNoFromRequest :: "wire \<Rightarrow> bool" where
  "isNoFromRequest from = (from = NO_FROM)"

text \<open>\<^verbatim>\<open>rawOpts\<close> is the options argument, an empty object when it is absent.\<close>

definition requestedFromOf :: "wire \<Rightarrow> scope_error + string option" where
  "requestedFromOf rawOpts =
     (let from = opt_get rawOpts ''from''
      in if isNoFromRequest from \<or> nullish from then Inr None else and_then (string_of from) (\<lambda>s. Inr (Some s)))"

fun parse_addresses :: "string list \<Rightarrow> caip_error + string list" where
  "parse_addresses [] = Inr []"
| "parse_addresses (c # cs) = and_then (parseCaipAccount c) (\<lambda>(_, a). and_then (parse_addresses cs) (\<lambda>as. Inr (a # as)))"

definition starts_with_text :: "string \<Rightarrow> string \<Rightarrow> bool" where
  "starts_with_text pre s = (take (length pre) s = pre)"

definition getSessionAccountAddresses :: "dapp_session \<Rightarrow> int \<Rightarrow> caip_error + string list" where
  "getSessionAccountAddresses s chainId =
     parse_addresses (filter (starts_with_text (formatCaipChain chainId @ '':'')) (ds_accounts s))"

definition resolveNetwork :: "dispatch_env \<Rightarrow> dispatch_error + string" where
  "resolveNetwork e = (case de_networks e of [] \<Rightarrow> Inl ChainNotSupported | n # _ \<Rightarrow> Inr n)"

definition resolveNetworkAndAccount ::
  "session_context \<Rightarrow> dispatch_env \<Rightarrow> string option \<Rightarrow> dispatch_error + (string \<times> account_ref)" where
  "resolveNetworkAndAccount ctx e requestedFrom =
     and_then (resolveNetwork e) (\<lambda>network.
       if de_accounts e = [] then Inl NoProfileAccounts
       else case de_session e of
              Some s \<Rightarrow>
                if ds_accounts s \<noteq> [] then
                  and_then (map_sum AccountIdentifier id (getSessionAccountAddresses s (cx_chainId ctx))) (\<lambda>sessionAddresses.
                    case resolveAuthorizedSessionAccount (de_accounts e) sessionAddresses requestedFrom of
                      Resolved a \<Rightarrow> Inr (network, a)
                    | NotAuthorized \<Rightarrow> Inl (Refused RequestedAccountViolation)
                    | NoSessionAccount \<Rightarrow> Inl NoAuthorizedAccounts)
                else Inl NoSessionAccounts
            | None \<Rightarrow> Inl NoSessionAccounts)"

section \<open>Handlers\<close>

definition refuse :: "scope_error + 'a \<Rightarrow> dispatch_error + 'a" where
  "refuse r = map_sum Refused id r"

definition requireSession :: "dispatch_env \<Rightarrow> dispatch_error + dapp_session" where
  "requireSession e = (case de_session e of None \<Rightarrow> Inl NoDappSession | Some s \<Rightarrow> Inr s)"

text \<open>\<^verbatim>\<open>{ ...v, from }\<close>.\<close>

definition indexed_fields :: "wire list \<Rightarrow> (string \<times> wire) list" where
  "indexed_fields vs = zip (map nat_dec [0..<length vs]) vs"

definition spread_fields :: "wire \<Rightarrow> (string \<times> wire) list" where
  "spread_fields v =
     (case v of WObj fs \<Rightarrow> fs | WArr vs \<Rightarrow> indexed_fields vs | WStr s \<Rightarrow> indexed_fields (map (\<lambda>c. WStr [c]) s) | _ \<Rightarrow> [])"

definition with_from :: "wire \<Rightarrow> string \<Rightarrow> wire" where
  "with_from opts a = WObj (js_set ''from'' (WStr a) (spread_fields opts))"

definition rawOpts :: "wire list \<Rightarrow> wire" where
  "rawOpts args = (if nullish (arg args 1) then WObj [] else arg args 1)"

definition handleSendTx :: "session_context \<Rightarrow> dispatch_env \<Rightarrow> wire list \<Rightarrow> dispatch_error + action" where
  "handleSendTx ctx e args =
     (let opts = rawOpts args; isNoFrom = isNoFromRequest (opt_get opts ''from'')
      in and_then (refuse (requestedFromOf opts)) (\<lambda>requestedFrom.
         and_then (resolveNetworkAndAccount ctx e requestedFrom) (\<lambda>(_, account).
         and_then (requireSession e) (\<lambda>s.
           Inr (Interact (ds_id s)
             (AztecSendTxRequest (formatCaipAccount (cx_chainId ctx) (ar_address account)) (arg args 0)
               (if isNoFrom then opts else with_from opts (ar_address account)) isNoFrom))))))"

definition handleCreateAuthWit ::
  "nat \<Rightarrow> session_context \<Rightarrow> dispatch_env \<Rightarrow> wire list \<Rightarrow> granted_record list \<Rightarrow> dispatch_error + action" where
  "handleCreateAuthWit M ctx e args grants =
     and_then (requireSession e) (\<lambda>s.
     and_then (refuse (string_of (arg args 0))) (\<lambda>requestedFrom.
     and_then (resolveNetworkAndAccount ctx e (Some requestedFrom)) (\<lambda>(network, account).
     and_then (refuse (isCreateAuthWitCovered M (arg args 1) grants)) (\<lambda>covered.
       if covered \<and> authorizationsEffective (ds_consent s) (map gr_capability grants)
       then (case cx_fence ctx of
               Some f \<Rightarrow>
                 if ef_profileId f = cx_profileId ctx
                 then Inr (Execute (CreateAuthWitOp network (ar_address account) (arg args 1)) (Some f))
                 else Inl FenceRequired
             | None \<Rightarrow> Inl FenceRequired)
       else Inr (Interact (ds_id s)
                  (AztecCreateAuthWitRequest (formatCaipAccount (cx_chainId ctx) (ar_address account)) (arg args 1)))))))"

definition handleRegisterToken :: "session_context \<Rightarrow> dispatch_env \<Rightarrow> wire list \<Rightarrow> dispatch_error + action" where
  "handleRegisterToken ctx e args =
     and_then (requireSession e) (\<lambda>s.
     and_then (refuse (string_of (arg args 0))) (\<lambda>requestedAccount.
     and_then (resolveNetworkAndAccount ctx e (Some requestedAccount)) (\<lambda>(_, account).
     and_then (refuse (string_of (arg args 1))) (\<lambda>tokenAddress.
       Inr (Interact (ds_id s) (RegisterTokenRequest (formatCaipAccount (cx_chainId ctx) (ar_address account)) tokenAddress))))))"

definition handleGrantPublicAuthwit :: "session_context \<Rightarrow> dispatch_env \<Rightarrow> wire list \<Rightarrow> dispatch_error + action" where
  "handleGrantPublicAuthwit ctx e args =
     and_then (requireSession e) (\<lambda>s.
     and_then (refuse (string_of (arg args 0))) (\<lambda>requestedAccount.
     and_then (resolveNetworkAndAccount ctx e (Some requestedAccount)) (\<lambda>(_, account).
       if nullish (arg args 1) then Inl (Refused JsTypeError)
       else let content = arg args 1
            in Inr (Interact (ds_id s)
                 (PublicAuthwitRequest (formatCaipAccount (cx_chainId ctx) (ar_address account))
                   (opt_get content ''caller'') (opt_get content ''contract'') (opt_get content ''method'') (opt_get content ''args''))))))"

definition projectSessionAccounts :: "account_ref list \<Rightarrow> string list \<Rightarrow> int \<Rightarrow> (string, string) jsmap \<Rightarrow> (string \<times> string) list" where
  "projectSessionAccounts allAccounts sessionAddresses chainId aliases =
     map (\<lambda>a. ((case js_get aliases (formatCaipAccount chainId (ar_address a)) of Some n \<Rightarrow> n | None \<Rightarrow> ar_name a), ar_address a))
       (filter (\<lambda>a. ar_address a \<in> set sessionAddresses) allAccounts)"

definition handleGetAccounts :: "session_context \<Rightarrow> dispatch_env \<Rightarrow> dispatch_error + action" where
  "handleGetAccounts ctx e =
     and_then (requireSession e) (\<lambda>s.
       if ds_accounts s \<noteq> [] then
         and_then (resolveNetwork e) (\<lambda>_.
         and_then (map_sum AccountIdentifier id (getSessionAccountAddresses s (cx_chainId ctx))) (\<lambda>addresses.
           Inr (AnswerAccounts (projectSessionAccounts (de_accounts e) addresses (cx_chainId ctx) (ds_aliases s)))))
       else if list_ex (\<lambda>g. type_of_cap (gr_capability g) = Some TAccounts) (ds_grants s) then Inr (AnswerAccounts [])
       else Inl (Refused (CapabilityNotGranted TAccounts)))"

section \<open>Operations\<close>

definition FROM_ADDRESSED_KINDS :: "dapp_operation_kind list" where
  "FROM_ADDRESSED_KINDS = [Aztec_simulateTx, Aztec_profileTx]"

definition buildNetworkOperation :: "dapp_operation_kind \<Rightarrow> wire list \<Rightarrow> string \<Rightarrow> operation option" where
  "buildNetworkOperation kind args networkId =
     (case kind of
        Aztec_getChainInfo \<Rightarrow> Some (GetChainInfoOp networkId)
      | Aztec_getContractClassMetadata \<Rightarrow> Some (GetContractClassMetadataOp networkId (arg args 0))
      | Aztec_getContractMetadata \<Rightarrow> Some (GetContractMetadataOp networkId (arg args 0))
      | Aztec_getPrivateEvents \<Rightarrow> Some (GetPrivateEventsOp networkId (arg args 0) (arg args 1))
      | Aztec_registerSender \<Rightarrow> Some (RegisterSenderOp networkId (arg args 0) (arg args 1))
      | Aztec_getAddressBook \<Rightarrow> Some (GetAddressBookOp networkId)
      | Aztec_registerContract \<Rightarrow> Some (RegisterContractOp networkId (arg args 0) (arg args 1) (arg args 2))
      | _ \<Rightarrow> None)"

definition buildAccountOperation :: "dapp_operation_kind \<Rightarrow> wire list \<Rightarrow> string \<Rightarrow> string \<Rightarrow> operation option" where
  "buildAccountOperation kind args networkId accountAddress =
     (case kind of
        Aztec_simulateTx \<Rightarrow> Some (SimulateTxOp networkId accountAddress (arg args 0) (with_from (arg args 1) accountAddress))
      | Aztec_executeUtility \<Rightarrow> Some (ExecuteUtilityOp networkId accountAddress (arg args 0) (with_from (arg args 1) accountAddress))
      | Aztec_profileTx \<Rightarrow> Some (ProfileTxOp networkId accountAddress (arg args 0) (with_from (arg args 1) accountAddress))
      | Aztec_createAuthWit \<Rightarrow> Some (CreateAuthWitOp networkId accountAddress (arg args 1))
      | _ \<Rightarrow> None)"

definition built :: "operation option \<Rightarrow> dispatch_error + action" where
  "built op = (case op of None \<Rightarrow> Inl (Refused JsTypeError) | Some op \<Rightarrow> Inr (Execute op None))"

definition buildOperation :: "dapp_operation_kind \<Rightarrow> session_context \<Rightarrow> dispatch_env \<Rightarrow> wire list \<Rightarrow> dispatch_error + action" where
  "buildOperation kind ctx e args =
     (if kind \<in> set NETWORK_ONLY_KINDS then
        and_then (resolveNetwork e) (\<lambda>network. built (buildNetworkOperation kind args network))
      else if kind \<in> set ACCOUNT_KINDS then
        and_then (if kind \<in> set FROM_ADDRESSED_KINDS then refuse (requestedFromOf (rawOpts args)) else Inr None) (\<lambda>requestedFrom.
        and_then (resolveNetworkAndAccount ctx e requestedFrom) (\<lambda>(network, account).
          built (buildAccountOperation kind args network (ar_address account))))
      else built None)"

definition routeMethod ::
  "nat \<Rightarrow> session_context \<Rightarrow> dispatch_env \<Rightarrow> string \<Rightarrow> wire list \<Rightarrow> granted_record list \<Rightarrow> dispatch_error + action" where
  "routeMethod M ctx e name args grants =
     (if name = ''requestCapabilities'' then
        and_then (requireSession e) (\<lambda>_.
          Inr (Negotiate (case opt_get (arg args 0) ''capabilities'' of WArr cs \<Rightarrow> cs | _ \<Rightarrow> [])))
      else if name = ''getAccounts'' then handleGetAccounts ctx e
      else if name = ''getWalletFeatures'' then Inr AnswerFeatures
      else if name = ''isTokenRegistered'' then
        (if de_tokenRegistry e then and_then (refuse (string_of (arg args 0))) (\<lambda>a. Inr (ReadTokenRegistry a))
         else Inl RegistryUnavailable)
      else if name = ''sendTx'' then handleSendTx ctx e args
      else if name = ''registerToken'' then handleRegisterToken ctx e args
      else if name = ''grantPublicAuthwit'' then handleGrantPublicAuthwit ctx e args
      else if name = ''createAuthWit'' then handleCreateAuthWit M ctx e args grants
      else case js_get METHOD_TO_KIND name of
             None \<Rightarrow> Inl (Refused (UnsupportedMethod name))
           | Some kind \<Rightarrow> buildOperation kind ctx e args)"

section \<open>Runs\<close>

text \<open>What a run does: the actions it starts, each with the dispatch it belongs to, how it ends, and the next environment.\<close>

record started =
  sd_env :: nat
  sd_name :: string
  sd_args :: "wire list"
  sd_action :: action

type_synonym dispatch_run = "started list \<times> dispatch_error option \<times> nat"

definition leg_name :: "wire \<Rightarrow> string" where
  "leg_name leg = (case opt_get leg ''name'' of WStr s \<Rightarrow> s | _ \<Rightarrow> [])"

definition leg_args :: "wire \<Rightarrow> wire list" where
  "leg_args leg = (case opt_get leg ''args'' of WArr as \<Rightarrow> as | _ \<Rightarrow> [])"

definition legs_of :: "wire list \<Rightarrow> wire list" where
  "legs_of args = (case arg args 0 of WArr legs \<Rightarrow> legs | _ \<Rightarrow> [])"

definition popup_leg :: "wire \<Rightarrow> bool" where
  "popup_leg leg = (leg_name leg = ''sendTx'' \<or> leg_name leg = ''registerToken'')"

lemma size_map_of: "map_of fs k = Some v \<Longrightarrow> size v < size (WObj fs)"
proof -
  assume "map_of fs k = Some v"
  then have "(k, v) \<in> set fs" by (rule map_of_SomeD)
  then show ?thesis by (induction fs) auto
qed

lemma size_leg_args: "size_list size (leg_args leg) < size_list size (leg # legs)"
proof (cases leg)
  case (WObj fs)
  show ?thesis
  proof (cases "map_of fs ''args''")
    case (Some v)
    with size_map_of [OF Some] WObj show ?thesis by (cases v) (auto simp: leg_args_def)
  qed (auto simp: WObj leg_args_def)
qed (auto simp: leg_args_def)

lemma size_legs_of: "legs_of args \<noteq> [] \<Longrightarrow> size_list size (legs_of args) < size_list size args"
  by (cases args) (auto simp: legs_of_def arg_def split: wire.splits if_splits)

function dispatch :: "nat \<Rightarrow> session_context \<Rightarrow> (nat \<Rightarrow> dispatch_env) \<Rightarrow> nat \<Rightarrow> string \<Rightarrow> wire list \<Rightarrow> dispatch_run"
    and handleBatch :: "nat \<Rightarrow> session_context \<Rightarrow> (nat \<Rightarrow> dispatch_env) \<Rightarrow> nat \<Rightarrow> wire list \<Rightarrow> dispatch_run" where
  "dispatch M ctx envs k name args =
     (case enforceMethodAndScope M name args (de_session (envs k)) of
        Inl err \<Rightarrow> ([], Some (Refused err), Suc k)
      | Inr (m, grants) \<Rightarrow>
          if m = ''batch'' then
            (case find popup_leg (legs_of args) of
               Some leg \<Rightarrow> ([], Some (PopupInBatch (leg_name leg)), Suc k)
             | None \<Rightarrow> if legs_of args = [] then ([], None, Suc k) else handleBatch M ctx envs (Suc k) (legs_of args))
          else
            (case routeMethod M ctx (envs k) m args grants of
               Inl err \<Rightarrow> ([], Some err, Suc k)
             | Inr a \<Rightarrow> ([\<lparr>sd_env = k, sd_name = m, sd_args = args, sd_action = a\<rparr>], unwrapOperationResult (de_result (envs k)), Suc k)))"
| "handleBatch M ctx envs k [] = ([], None, k)"
| "handleBatch M ctx envs k (leg # legs) =
     (case dispatch M ctx envs k (leg_name leg) (leg_args leg) of
        (done1, Some err, k') \<Rightarrow> (done1, Some err, k')
      | (done1, None, k') \<Rightarrow> (case handleBatch M ctx envs k' legs of (done2, r, k'') \<Rightarrow> (done1 @ done2, r, k'')))"
  by pat_completeness auto
termination
  by (relation "measure (case_sum (\<lambda>(M, ctx, envs, k, name, args). size_list size args) (\<lambda>(M, ctx, envs, k, legs). size_list size legs))")
    (auto simp: size_legs_of intro: le_less_trans [OF _ size_leg_args] size_leg_args [simplified])

declare dispatch.simps [simp del]

section \<open>The resolved account belongs to the session\<close>

lemma split_on_single: "split_on c s = [x] \<Longrightarrow> x = s"
proof (induction s arbitrary: x)
  case (Cons a s)
  then show ?case by (auto split: if_splits list.splits)
qed simp

lemma parse_prefixed:
  assumes "starts_with_text (formatCaipChain n @ '':'') caip" "parseCaipAccount caip = Inr (m, a)"
  shows "caip = formatCaipAccount n a"
proof -
  let ?pre = "formatCaipChain n @ '':''"
  from assms(1) obtain rest where rest: "caip = ?pre @ rest"
    unfolding starts_with_text_def by (metis append_take_drop_id)
  then have c: "caip = formatCaipAccount n rest" by (simp add: formatCaipAccount_def formatCaipChain_def)
  from assms(2) have "split_on CHR '':'' rest = [a]"
    unfolding c parseCaipAccount_def split_formatCaipAccount by (auto split: list.splits sum.splits if_splits)
  then have "a = rest" by (rule split_on_single)
  with c show ?thesis by simp
qed

lemma parse_addresses_member: "parse_addresses cs = Inr as \<Longrightarrow> a \<in> set as \<Longrightarrow> \<exists>c\<in>set cs. \<exists>n. parseCaipAccount c = Inr (n, a)"
  by (induction cs arbitrary: as) (fastforce simp: and_then_Inr split: prod.splits)+

lemma session_addresses_member:
  assumes "getSessionAccountAddresses s n = Inr as" "a \<in> set as"
  shows "formatCaipAccount n a \<in> set (ds_accounts s)"
proof -
  from parse_addresses_member [OF assms [unfolded getSessionAccountAddresses_def]]
  obtain c m where "c \<in> set (ds_accounts s)" "starts_with_text (formatCaipChain n @ '':'') c" "parseCaipAccount c = Inr (m, a)" by auto
  with parse_prefixed [of n c m a] show ?thesis by simp
qed

lemma resolve_member:
  assumes "resolveAuthorizedSessionAccount accts addrs rf = Resolved a"
  shows "a \<in> set accts \<and> ar_address a \<in> set addrs \<and> (\<forall>f. rf = Some f \<longrightarrow> ar_address a = f)"
proof -
  have "find P xs = Some x \<Longrightarrow> x \<in> set xs \<and> P x" for P and xs :: "account_ref list" and x by (auto simp: find_Some_iff)
  with assms show ?thesis by (fastforce simp: resolveAuthorizedSessionAccount_def split: option.splits)
qed

text \<open>The account a resolution may return: one of the wallet's, granted to the session on its chain, and the named one.\<close>

definition acts_as :: "session_context \<Rightarrow> dispatch_env \<Rightarrow> string option \<Rightarrow> string \<Rightarrow> bool" where
  "acts_as ctx e named a \<longleftrightarrow>
     (\<exists>s. de_session e = Some s \<and> formatCaipAccount (cx_chainId ctx) a \<in> set (ds_accounts s))
     \<and> a \<in> ar_address ` set (de_accounts e) \<and> (\<forall>f. named = Some f \<longrightarrow> a = f)"

lemma map_sum_Inr [simp]: "map_sum f id r = Inr x \<longleftrightarrow> r = Inr x"
  by (cases r) auto

text \<open>The network an operation runs on: the first of the profile's networks on the chain of the session.\<close>

definition first_network :: "dispatch_env \<Rightarrow> string \<Rightarrow> bool" where
  "first_network e net \<longleftrightarrow> (\<exists>rest. de_networks e = net # rest)"

lemma resolveNetwork_Inr [simp]: "resolveNetwork e = Inr net \<longleftrightarrow> first_network e net"
  by (auto simp: resolveNetwork_def first_network_def split: list.splits)

lemma resolveNetworkAndAccount_network: "resolveNetworkAndAccount ctx e rf = Inr (n, a) \<Longrightarrow> first_network e n"
  by (auto simp: resolveNetworkAndAccount_def and_then_Inr split: if_splits option.splits account_resolution.splits) (metis account_resolution.exhaust)

lemma resolveNetworkAndAccount_acts:
  assumes "resolveNetworkAndAccount ctx e rf = Inr (n, a)"
  shows "acts_as ctx e rf (ar_address a)"
proof -
  obtain s where s0: "de_session e = Some s"
    using assms by (cases "de_session e") (auto simp: resolveNetworkAndAccount_def and_then_Inr split: if_splits)
  then obtain x as where s: "de_session e = Some s" "getSessionAccountAddresses s (cx_chainId ctx) = Inr as"
      "(case resolveAuthorizedSessionAccount (de_accounts e) as rf of Resolved a \<Rightarrow> Inr (x, a)
        | NotAuthorized \<Rightarrow> Inl (Refused RequestedAccountViolation) | NoSessionAccount \<Rightarrow> Inl NoAuthorizedAccounts) = Inr (n, a)"
    using assms by (auto simp: resolveNetworkAndAccount_def and_then_Inr split: if_splits)
  then have s3: "resolveAuthorizedSessionAccount (de_accounts e) as rf = Resolved a"
    by (cases "resolveAuthorizedSessionAccount (de_accounts e) as rf") auto
  with resolve_member [OF s3] session_addresses_member [OF s(2)] s(1) show ?thesis by (auto simp: acts_as_def)
qed

section \<open>What an action may do\<close>

text \<open>The account a request names: the first argument, or \<^verbatim>\<open>opts.from\<close> unless it is absent or the no-from sentinel.\<close>

definition named_account :: "string \<Rightarrow> wire list \<Rightarrow> string option" where
  "named_account name args =
     (if name \<in> {''createAuthWit'', ''registerToken'', ''grantPublicAuthwit''} then js_String (arg args 0)
      else if name \<in> {''sendTx'', ''simulateTx'', ''profileTx''} then
        (let from = opt_get (arg args 1) ''from'' in if from = NO_FROM \<or> nullish from then None else js_String from)
      else None)"

text \<open>The options a transaction is shown with: as sent when it asks for no sender, else with the resolved sender.\<close>

definition options_or_empty :: "wire list \<Rightarrow> wire" where
  "options_or_empty args = (if arg args 1 \<in> {WUndef, WNull} then WObj [] else arg args 1)"

text \<open>When an authorization witness needs no window: a call intent inside a granted scope, under a consent in force.\<close>

definition silently_signed :: "nat \<Rightarrow> dapp_session \<Rightarrow> wire \<Rightarrow> bool" where
  "silently_signed M s x \<longleftrightarrow> isCallIntent x
     \<and> (\<exists>target fn sc. intent_target x target fn \<and> sc \<in> call_scopes (ds_grants s) \<and> admits M sc target (WStr fn))
     \<and> (\<exists>broad. readConsent (ds_consent s) = Some broad \<and> (broad \<or> \<not> coversAnyContract (map gr_capability (ds_grants s))))"

text \<open>The accounts a session is answered: the wallet's own, in its order, that the session holds on its chain, each
  under the session's alias or else its own name.\<close>

definition shown_accounts :: "session_context \<Rightarrow> dispatch_env \<Rightarrow> dapp_session \<Rightarrow> (string \<times> string) list" where
  "shown_accounts ctx e s =
     map (\<lambda>r. ((case js_get (ds_aliases s) (formatCaipAccount (cx_chainId ctx) (ar_address r)) of Some n \<Rightarrow> n | None \<Rightarrow> ar_name r), ar_address r))
       (filter (\<lambda>r. formatCaipAccount (cx_chainId ctx) (ar_address r) \<in> set (ds_accounts s)) (de_accounts e))"

text \<open>
  What the wallet may do for a request, method by method: the one operation of that method on the
  arguments sent, the one window it opens, or the one answer it gives. No rule mentions the routing tables.
\<close>

inductive action_ok :: "nat \<Rightarrow> session_context \<Rightarrow> dispatch_env \<Rightarrow> string \<Rightarrow> wire list \<Rightarrow> action \<Rightarrow> bool" for M ctx e where
  chain_info: "first_network e net \<Longrightarrow> action_ok M ctx e ''getChainInfo'' args (Execute (GetChainInfoOp net) None)"
| class_metadata: "first_network e net
    \<Longrightarrow> action_ok M ctx e ''getContractClassMetadata'' args (Execute (GetContractClassMetadataOp net (arg args 0)) None)"
| contract_metadata: "first_network e net
    \<Longrightarrow> action_ok M ctx e ''getContractMetadata'' args (Execute (GetContractMetadataOp net (arg args 0)) None)"
| private_events: "first_network e net
    \<Longrightarrow> action_ok M ctx e ''getPrivateEvents'' args (Execute (GetPrivateEventsOp net (arg args 0) (arg args 1)) None)"
| register_sender: "first_network e net
    \<Longrightarrow> action_ok M ctx e ''registerSender'' args (Execute (RegisterSenderOp net (arg args 0) (arg args 1)) None)"
| address_book: "first_network e net \<Longrightarrow> action_ok M ctx e ''getAddressBook'' args (Execute (GetAddressBookOp net) None)"
| register_contract: "first_network e net
    \<Longrightarrow> action_ok M ctx e ''registerContract'' args (Execute (RegisterContractOp net (arg args 0) (arg args 1) (arg args 2)) None)"
| simulate: "first_network e net \<Longrightarrow> acts_as ctx e (named_account ''simulateTx'' args) a
    \<Longrightarrow> action_ok M ctx e ''simulateTx'' args (Execute (SimulateTxOp net a (arg args 0) (with_from (arg args 1) a)) None)"
| utility: "first_network e net \<Longrightarrow> acts_as ctx e (named_account ''executeUtility'' args) a
    \<Longrightarrow> action_ok M ctx e ''executeUtility'' args (Execute (ExecuteUtilityOp net a (arg args 0) (with_from (arg args 1) a)) None)"
| profile: "first_network e net \<Longrightarrow> acts_as ctx e (named_account ''profileTx'' args) a
    \<Longrightarrow> action_ok M ctx e ''profileTx'' args (Execute (ProfileTxOp net a (arg args 0) (with_from (arg args 1) a)) None)"
| silent: "first_network e net \<Longrightarrow> acts_as ctx e (named_account ''createAuthWit'' args) a \<Longrightarrow> de_session e = Some s
    \<Longrightarrow> silently_signed M s (arg args 1) \<Longrightarrow> cx_fence ctx = Some f \<Longrightarrow> ef_profileId f = cx_profileId ctx
    \<Longrightarrow> action_ok M ctx e ''createAuthWit'' args (Execute (CreateAuthWitOp net a (arg args 1)) (Some f))"
| ask_authwit: "acts_as ctx e (named_account ''createAuthWit'' args) a \<Longrightarrow> de_session e = Some s \<Longrightarrow> \<not> silently_signed M s (arg args 1)
    \<Longrightarrow> action_ok M ctx e ''createAuthWit'' args
          (Interact (ds_id s) (AztecCreateAuthWitRequest (formatCaipAccount (cx_chainId ctx) a) (arg args 1)))"
| ask_send: "acts_as ctx e (named_account ''sendTx'' args) a \<Longrightarrow> de_session e = Some s \<Longrightarrow> opts = options_or_empty args
    \<Longrightarrow> noFrom \<longleftrightarrow> opt_get opts ''from'' = NO_FROM
    \<Longrightarrow> action_ok M ctx e ''sendTx'' args
          (Interact (ds_id s) (AztecSendTxRequest (formatCaipAccount (cx_chainId ctx) a) (arg args 0) (if noFrom then opts else with_from opts a) noFrom))"
| ask_token: "acts_as ctx e (named_account ''registerToken'' args) a \<Longrightarrow> de_session e = Some s \<Longrightarrow> js_String (arg args 1) = Some tok
    \<Longrightarrow> action_ok M ctx e ''registerToken'' args (Interact (ds_id s) (RegisterTokenRequest (formatCaipAccount (cx_chainId ctx) a) tok))"
| ask_public: "acts_as ctx e (named_account ''grantPublicAuthwit'' args) a \<Longrightarrow> de_session e = Some s
    \<Longrightarrow> action_ok M ctx e ''grantPublicAuthwit'' args
          (Interact (ds_id s) (PublicAuthwitRequest (formatCaipAccount (cx_chainId ctx) a) (opt_get (arg args 1) ''caller'')
            (opt_get (arg args 1) ''contract'') (opt_get (arg args 1) ''method'') (opt_get (arg args 1) ''args'')))"
| registry: "js_String (arg args 0) = Some t \<Longrightarrow> action_ok M ctx e ''isTokenRegistered'' args (ReadTokenRegistry t)"
| accounts: "de_session e = Some s \<Longrightarrow> action_ok M ctx e ''getAccounts'' args (AnswerAccounts (shown_accounts ctx e s))"
| features: "action_ok M ctx e ''getWalletFeatures'' args AnswerFeatures"
| negotiate: "de_session e \<noteq> None \<Longrightarrow> opt_get (arg args 0) ''capabilities'' = WArr cs \<Longrightarrow> action_ok M ctx e ''requestCapabilities'' args (Negotiate cs)"
| negotiate_nothing: "de_session e \<noteq> None \<Longrightarrow> \<forall>cs. opt_get (arg args 0) ''capabilities'' \<noteq> WArr cs
    \<Longrightarrow> action_ok M ctx e ''requestCapabilities'' args (Negotiate [])"

lemma refuse_Inr [simp]: "refuse r = Inr x \<longleftrightarrow> r = Inr x"
  by (cases r) (simp_all add: refuse_def)

lemma requireSession_Inr [simp]: "requireSession e = Inr s \<longleftrightarrow> de_session e = Some s"
  by (auto simp: requireSession_def split: option.splits)

lemma requestedFromOf_Inr:
  assumes "requestedFromOf (rawOpts args) = Inr rf" "name \<in> {''sendTx'', ''simulateTx'', ''profileTx''}"
  shows "rf = named_account name args"
proof -
  define fr where "fr = opt_get (arg args 1) ''from''"
  have "opt_get (rawOpts args) ''from'' = fr" by (simp add: rawOpts_def fr_def)
  moreover have "named_account name args = (if fr = NO_FROM \<or> nullish fr then None else js_String fr)"
    using assms(2) unfolding named_account_def fr_def Let_def by (elim insertE emptyE) simp_all
  ultimately show ?thesis
    using assms(1) by (auto simp: requestedFromOf_def isNoFromRequest_def and_then_Inr split: if_splits)
qed

section \<open>Every handler keeps to it\<close>

lemma rawOpts_options: "rawOpts args = options_or_empty args"
  by (auto simp: rawOpts_def options_or_empty_def nullish_def)

lemma handleSendTx_ok:
  assumes "handleSendTx ctx e args = Inr a"
  shows "action_ok M ctx e ''sendTx'' args a"
proof -
  from assms obtain rf n acc s where h: "requestedFromOf (rawOpts args) = Inr rf" "resolveNetworkAndAccount ctx e rf = Inr (n, acc)"
      "de_session e = Some s" "a = Interact (ds_id s) (AztecSendTxRequest (formatCaipAccount (cx_chainId ctx) (ar_address acc)) (arg args 0)
        (if isNoFromRequest (opt_get (rawOpts args) ''from'') then rawOpts args else with_from (rawOpts args) (ar_address acc))
        (isNoFromRequest (opt_get (rawOpts args) ''from'')))"
    by (auto simp: handleSendTx_def Let_def and_then_Inr)
  have "acts_as ctx e (named_account ''sendTx'' args) (ar_address acc)"
    using resolveNetworkAndAccount_acts [OF h(2)] requestedFromOf_Inr [OF h(1), of "''sendTx''"] by simp
  from action_ok.ask_send [OF this h(3) refl refl] show ?thesis unfolding h(4) isNoFromRequest_def rawOpts_options .
qed

lemma named_first: "name \<in> {''createAuthWit'', ''registerToken'', ''grantPublicAuthwit''} \<Longrightarrow> named_account name args = js_String (arg args 0)"
  unfolding named_account_def by (elim insertE emptyE) simp_all

lemma handleRegisterToken_ok:
  assumes "handleRegisterToken ctx e args = Inr a"
  shows "action_ok M ctx e ''registerToken'' args a"
proof -
  from assms obtain s f n acc tok where h: "de_session e = Some s" "js_String (arg args 0) = Some f"
      "resolveNetworkAndAccount ctx e (Some f) = Inr (n, acc)"
      "js_String (arg args 1) = Some tok"
      "a = Interact (ds_id s) (RegisterTokenRequest (formatCaipAccount (cx_chainId ctx) (ar_address acc)) tok)"
    by (auto simp: handleRegisterToken_def and_then_Inr)
  have "acts_as ctx e (named_account ''registerToken'' args) (ar_address acc)"
    using resolveNetworkAndAccount_acts [OF h(3)] h(2) by (simp add: named_first)
  from action_ok.ask_token [OF this h(1,4)] show ?thesis unfolding h(5) .
qed

lemma handleGrantPublicAuthwit_ok:
  assumes "handleGrantPublicAuthwit ctx e args = Inr a"
  shows "action_ok M ctx e ''grantPublicAuthwit'' args a"
proof -
  from assms obtain s f n acc where h: "de_session e = Some s" "js_String (arg args 0) = Some f"
      "resolveNetworkAndAccount ctx e (Some f) = Inr (n, acc)"
      "a = Interact (ds_id s) (PublicAuthwitRequest (formatCaipAccount (cx_chainId ctx) (ar_address acc)) (opt_get (arg args 1) ''caller'')
        (opt_get (arg args 1) ''contract'') (opt_get (arg args 1) ''method'') (opt_get (arg args 1) ''args''))"
    unfolding handleGrantPublicAuthwit_def Let_def by (clarsimp simp: and_then_Inr split: if_split_asm)
  have "acts_as ctx e (named_account ''grantPublicAuthwit'' args) (ar_address acc)"
    using resolveNetworkAndAccount_acts [OF h(3)] h(2) by (simp add: named_first)
  from action_ok.ask_public [OF this h(1)] show ?thesis unfolding h(4) .
qed

lemma covered_iff:
  assumes "isCreateAuthWitCovered M x grants = Inr cov"
  shows "cov \<longleftrightarrow> isCallIntent x \<and> (\<exists>target fn sc. intent_target x target fn \<and> sc \<in> call_scopes grants \<and> admits M sc target (WStr fn))"
proof (cases "isCallIntent x")
  case True
  let ?call = "opt_get x ''call''"
  from isCallIntent_name [OF True] obtain fn where fn: "opt_get ?call ''name'' = WStr fn" by blast
  from assms True obtain a where a: "js_String (opt_get ?call ''to'') = Some a"
      "cov = snd (callWithinTxOrSimulationScope M a (text_of (opt_get ?call ''name'')) grants)"
    by (auto simp: isCreateAuthWitCovered_def Let_def and_then_Inr split: if_splits)
  then have "cov \<longleftrightarrow> (\<exists>sc\<in>call_scopes grants. admits M sc a (WStr fn))" unfolding fn text_of_def callWithin_exact by auto
  moreover have "intent_target x b g \<longleftrightarrow> b = a \<and> g = fn" for b g
    using True fn a(1) by (auto simp: intent_target.simps)
  ultimately show ?thesis using True by (simp add: Bex_def)
qed (use assms in \<open>auto simp: isCreateAuthWitCovered_def Let_def and_then_Inr split: if_splits\<close>)

lemma handleCreateAuthWit_ok:
  assumes "handleCreateAuthWit M ctx e args (ds_grants s) = Inr a" "de_session e = Some s"
  shows "action_ok M ctx e ''createAuthWit'' args a"
proof -
  define eff where "eff = authorizationsEffective (ds_consent s) (map gr_capability (ds_grants s))"
  from assms obtain f n acc cov where h: "js_String (arg args 0) = Some f" "resolveNetworkAndAccount ctx e (Some f) = Inr (n, acc)"
      "isCreateAuthWitCovered M (arg args 1) (ds_grants s) = Inr cov"
      "(if cov \<and> eff then (case cx_fence ctx of
          Some f \<Rightarrow> if ef_profileId f = cx_profileId ctx then Inr (Execute (CreateAuthWitOp n (ar_address acc) (arg args 1)) (Some f)) else Inl FenceRequired
        | None \<Rightarrow> Inl FenceRequired)
        else Inr (Interact (ds_id s) (AztecCreateAuthWitRequest (formatCaipAccount (cx_chainId ctx) (ar_address acc)) (arg args 1)))) = Inr a"
    by (auto simp: handleCreateAuthWit_def and_then_Inr eff_def)
  have acts: "acts_as ctx e (named_account ''createAuthWit'' args) (ar_address acc)"
    using resolveNetworkAndAccount_acts [OF h(2)] h(1) by (simp add: named_first)
  have eff: "eff \<longleftrightarrow> (\<exists>broad. readConsent (ds_consent s) = Some broad \<and> (broad \<or> \<not> coversAnyContract (map gr_capability (ds_grants s))))"
    by (auto simp: eff_def authorizationsEffective_def split: option.splits)
  have silent: "cov \<and> eff \<longleftrightarrow> silently_signed M s (arg args 1)"
    unfolding silently_signed_def covered_iff [OF h(3)] eff by blast
  show ?thesis
  proof (cases "cov \<and> eff")
    case True
    with h(4) obtain fence where f: "cx_fence ctx = Some fence" "ef_profileId fence = cx_profileId ctx"
        "a = Execute (CreateAuthWitOp n (ar_address acc) (arg args 1)) (Some fence)"
      by (auto split: option.splits if_splits)
    from action_ok.silent [OF resolveNetworkAndAccount_network [OF h(2)] acts assms(2) _ f(1,2)] True show ?thesis unfolding silent f(3) .
  next
    case False
    then have "a = Interact (ds_id s) (AztecCreateAuthWitRequest (formatCaipAccount (cx_chainId ctx) (ar_address acc)) (arg args 1))"
      using h(4) by auto
    with action_ok.ask_authwit [OF acts assms(2)] False show ?thesis unfolding silent by simp
  qed
qed

lemma session_addresses_exact:
  assumes "getSessionAccountAddresses s n = Inr as"
  shows "a \<in> set as \<longleftrightarrow> formatCaipAccount n a \<in> set (ds_accounts s)"
proof
  let ?P = "starts_with_text (formatCaipChain n @ '':'')"
  have pre: "?P (formatCaipAccount n a)" by (simp add: starts_with_text_def formatCaipAccount_def formatCaipChain_def)
  have parsed: "parse_addresses cs = Inr bs \<Longrightarrow> c \<in> set cs \<Longrightarrow> \<exists>m b. parseCaipAccount c = Inr (m, b) \<and> b \<in> set bs" for cs bs c
    by (induction cs arbitrary: bs) (fastforce simp: and_then_Inr split: prod.splits)+
  assume "formatCaipAccount n a \<in> set (ds_accounts s)"
  then have "formatCaipAccount n a \<in> set (filter ?P (ds_accounts s))" using pre by simp
  from parsed [OF assms [unfolded getSessionAccountAddresses_def] this] obtain m b where
    b: "parseCaipAccount (formatCaipAccount n a) = Inr (m, b)" "b \<in> set as" by blast
  from parse_prefixed [OF pre b(1)] have "a = b" by (simp add: formatCaipAccount_def)
  with b(2) show "a \<in> set as" by simp
qed (rule session_addresses_member [OF assms])

lemma handleGetAccounts_ok:
  assumes "handleGetAccounts ctx e = Inr a"
  shows "action_ok M ctx e ''getAccounts'' args a"
proof -
  obtain s where s: "de_session e = Some s" using assms by (auto simp: handleGetAccounts_def and_then_Inr)
  have "a = AnswerAccounts (shown_accounts ctx e s)"
  proof (cases "ds_accounts s = []")
    case True
    with assms s show ?thesis by (auto simp: handleGetAccounts_def and_then_Inr shown_accounts_def split: if_splits)
  next
    case False
    with assms s obtain addrs where h: "getSessionAccountAddresses s (cx_chainId ctx) = Inr addrs"
        "a = AnswerAccounts (projectSessionAccounts (de_accounts e) addrs (cx_chainId ctx) (ds_aliases s))"
      by (auto simp: handleGetAccounts_def and_then_Inr)
    then show ?thesis by (simp add: projectSessionAccounts_def shown_accounts_def session_addresses_exact [OF h(1)])
  qed
  with action_ok.accounts [OF s] show ?thesis by simp
qed

lemma method_kinds:
  "METHOD_TO_KIND =
     [(''getChainInfo'', Aztec_getChainInfo), (''registerContract'', Aztec_registerContract),
      (''getContractMetadata'', Aztec_getContractMetadata), (''getContractClassMetadata'', Aztec_getContractClassMetadata),
      (''simulateTx'', Aztec_simulateTx), (''executeUtility'', Aztec_executeUtility), (''profileTx'', Aztec_profileTx),
      (''getPrivateEvents'', Aztec_getPrivateEvents), (''getAddressBook'', Aztec_getAddressBook),
      (''registerSender'', Aztec_registerSender)]"
  by (simp add: METHOD_TO_KIND_def deriveMethodToKind_def deriveRecord_def METHOD_REGISTRY_def map_filter_simps routing_kind_def
      exempt_row_def granted_row_def)

lemma account_kinds: "set ACCOUNT_KINDS = {Aztec_simulateTx, Aztec_executeUtility, Aztec_profileTx}"
  by (auto simp: ACCOUNT_KINDS_def deriveAccountKinds_def deriveSet_def METHOD_REGISTRY_def map_filter_simps exempt_row_def granted_row_def)

lemma account_kind_name:
  assumes "js_get METHOD_TO_KIND name = Some kind" "kind \<in> set ACCOUNT_KINDS"
  shows "kind = Aztec_simulateTx \<and> name = ''simulateTx'' \<or> kind = Aztec_profileTx \<and> name = ''profileTx''
    \<or> kind = Aztec_executeUtility \<and> name = ''executeUtility''"
  using map_of_SomeD [OF assms(1)] assms(2) unfolding method_kinds account_kinds by auto

lemma network_kinds: "set NETWORK_ONLY_KINDS =
  {Aztec_getChainInfo, Aztec_registerContract, Aztec_getContractMetadata, Aztec_getContractClassMetadata, Aztec_getPrivateEvents,
   Aztec_getAddressBook, Aztec_registerSender}"
  by (auto simp: NETWORK_ONLY_KINDS_def deriveNetworkOnlyKinds_def deriveSet_def METHOD_REGISTRY_def map_filter_simps exempt_row_def granted_row_def)

lemma network_operation_ok:
  assumes "js_get METHOD_TO_KIND name = Some kind" "kind \<in> set NETWORK_ONLY_KINDS"
    and "buildNetworkOperation kind args net = Some op" "first_network e net"
  shows "action_ok M ctx e name args (Execute op None)"
  using map_of_SomeD [OF assms(1)] assms(2-4) unfolding method_kinds network_kinds
  by (auto simp: buildNetworkOperation_def simp del: One_nat_def intro: action_ok.intros)

lemma account_operation_ok:
  assumes "js_get METHOD_TO_KIND name = Some kind" "kind \<in> set ACCOUNT_KINDS"
    and "buildAccountOperation kind args net a = Some op" "first_network e net" "acts_as ctx e (named_account name args) a"
  shows "action_ok M ctx e name args (Execute op None)"
  using account_kind_name [OF assms(1,2)] assms(3-5) by (auto simp: buildAccountOperation_def simp del: One_nat_def intro: action_ok.intros)

lemma buildOperation_ok:
  assumes "buildOperation kind ctx e args = Inr a" and kind: "js_get METHOD_TO_KIND name = Some kind"
  shows "action_ok M ctx e name args a"
proof (cases "kind \<in> set NETWORK_ONLY_KINDS")
  case True
  with assms(1) obtain net op where "first_network e net" "buildNetworkOperation kind args net = Some op" "a = Execute op None"
    by (auto simp: buildOperation_def and_then_Inr built_def split: option.splits)
  with network_operation_ok [OF kind True] show ?thesis by simp
next
  case False
  then have acc: "kind \<in> set ACCOUNT_KINDS" using assms(1) by (auto simp: buildOperation_def built_def split: if_splits)
  with False assms(1) obtain rf net acct op where h: "(if kind \<in> set FROM_ADDRESSED_KINDS then refuse (requestedFromOf (rawOpts args)) else Inr None) = Inr rf"
      "resolveNetworkAndAccount ctx e rf = Inr (net, acct)" "buildAccountOperation kind args net (ar_address acct) = Some op" "a = Execute op None"
    by (auto simp: buildOperation_def and_then_Inr built_def split: option.splits)
  from account_kind_name [OF kind acc] have "rf = named_account name args"
  proof (elim disjE conjE)
    assume "kind = Aztec_simulateTx" "name = ''simulateTx''"
    with h(1) requestedFromOf_Inr [of args rf "''simulateTx''"] show ?thesis by (simp add: FROM_ADDRESSED_KINDS_def)
  next
    assume "kind = Aztec_profileTx" "name = ''profileTx''"
    with h(1) requestedFromOf_Inr [of args rf "''profileTx''"] show ?thesis by (simp add: FROM_ADDRESSED_KINDS_def)
  next
    assume "kind = Aztec_executeUtility" "name = ''executeUtility''"
    with h(1) show ?thesis by (simp add: FROM_ADDRESSED_KINDS_def named_account_def)
  qed
  with account_operation_ok [OF kind acc h(3) resolveNetworkAndAccount_network [OF h(2)]] resolveNetworkAndAccount_acts [OF h(2)]
  show ?thesis unfolding h(4) by simp
qed

lemma routeMethod_ok:
  assumes "routeMethod M ctx e name args grants = Inr a" and "name = ''createAuthWit'' \<Longrightarrow> \<exists>s. de_session e = Some s \<and> grants = ds_grants s"
  shows "action_ok M ctx e name args a"
proof -
  note r = assms(1) [unfolded routeMethod_def]
  consider "name = ''requestCapabilities''" | "name = ''getAccounts''" | "name = ''getWalletFeatures''" | "name = ''isTokenRegistered''"
    | "name = ''sendTx''" | "name = ''registerToken''" | "name = ''grantPublicAuthwit''" | "name = ''createAuthWit''"
    | kind where "js_get METHOD_TO_KIND name = Some kind" "buildOperation kind ctx e args = Inr a"
    using r by (cases "js_get METHOD_TO_KIND name") (simp_all split: if_split_asm)
  then show ?thesis
  proof cases
    case 1
    with r show ?thesis by (auto simp: and_then_Inr intro: action_ok.negotiate action_ok.negotiate_nothing split: wire.splits)
  next
    case 2
    with r show ?thesis by (auto intro: handleGetAccounts_ok)
  next
    case 3
    with r show ?thesis by (auto intro: action_ok.features)
  next
    case 4
    with r show ?thesis by (auto simp: and_then_Inr intro: action_ok.registry split: if_splits)
  next
    case 5
    with r show ?thesis by (auto intro: handleSendTx_ok)
  next
    case 6
    with r show ?thesis by (auto intro: handleRegisterToken_ok)
  next
    case 7
    with r show ?thesis by (auto intro: handleGrantPublicAuthwit_ok)
  next
    case 8
    with r assms(2) show ?thesis by (auto intro: handleCreateAuthWit_ok)
  next
    case 9
    then show ?thesis by (auto intro: buildOperation_ok)
  qed
qed

section \<open>Runs\<close>

definition started_ok :: "nat \<Rightarrow> session_context \<Rightarrow> (nat \<Rightarrow> dispatch_env) \<Rightarrow> started \<Rightarrow> bool" where
  "started_ok M ctx envs d \<longleftrightarrow>
     (\<exists>grants. authorized M (de_session (envs (sd_env d))) (sd_name d) (sd_args d) grants)
     \<and> action_ok M ctx (envs (sd_env d)) (sd_name d) (sd_args d) (sd_action d)"

definition popup_only :: "started \<Rightarrow> bool" where
  "popup_only d \<longleftrightarrow> sd_name d = ''sendTx'' \<or> sd_name d = ''registerToken''"

lemma authorized_createAuthWit_grants:
  "authorized M session ''createAuthWit'' args grants \<Longrightarrow> \<exists>s. session = Some s \<and> grants = ds_grants s"
  by (auto simp: authorized_createAuthWit)

lemma dispatch_single:
  assumes "enforceMethodAndScope M name args (de_session (envs k)) = Inr (m, grants)" "routeMethod M ctx (envs k) m args grants = Inr a"
  shows "m = name \<and> started_ok M ctx envs \<lparr>sd_env = k, sd_name = m, sd_args = args, sd_action = a\<rparr>"
proof -
  from assms(1) have g: "m = name" "authorized M (de_session (envs k)) name args grants" by (simp_all add: ladder_exact)
  then have "action_ok M ctx (envs k) name args a"
    using assms(2) routeMethod_ok authorized_createAuthWit_grants by blast
  with g show ?thesis by (auto simp: started_ok_def)
qed

lemma runs_ok:
  "\<forall>d\<in>set (fst (dispatch M ctx envs k name args)). started_ok M ctx envs d \<and> (popup_only d \<longrightarrow> sd_name d = name \<and> name \<noteq> ''batch'')"
  "list_all (\<lambda>l. \<not> popup_leg l) legs \<Longrightarrow> \<forall>d\<in>set (fst (handleBatch M ctx envs k legs)). started_ok M ctx envs d \<and> \<not> popup_only d"
proof (induction M ctx envs k name args and M ctx envs k legs rule: dispatch_handleBatch.induct)
  case (1 M ctx envs k name args)
  show ?case
  proof (cases "enforceMethodAndScope M name args (de_session (envs k))")
    case (Inl err)
    then show ?thesis by (simp add: dispatch.simps)
  next
    case (Inr mg)
    obtain m grants where mg: "mg = (m, grants)" by (cases mg)
    note guard = Inr [unfolded mg]
    show ?thesis
    proof (cases "m = ''batch''")
      case True
      show ?thesis
      proof (cases "find popup_leg (legs_of args) = None \<and> legs_of args \<noteq> []")
        case nested: True
        then have "list_all (\<lambda>l. \<not> popup_leg l) (legs_of args)" by (simp add: find_None_iff list_all_iff)
        with "1.IH" [OF Inr mg [symmetric] True] nested
        have "\<forall>d\<in>set (fst (handleBatch M ctx envs (Suc k) (legs_of args))). started_ok M ctx envs d \<and> \<not> popup_only d" by simp
        moreover have "dispatch M ctx envs k name args = handleBatch M ctx envs (Suc k) (legs_of args)"
          using guard True nested by (simp add: dispatch.simps)
        ultimately show ?thesis by simp
      next
        case False
        then show ?thesis using guard True by (auto simp: dispatch.simps split: option.splits)
      qed
    next
      case False
      then show ?thesis
        using guard dispatch_single [of M name args envs k m grants ctx]
        by (auto simp: dispatch.simps [of M ctx envs k name args] split: sum.splits)
    qed
  qed
next
  case (2 M ctx envs k)
  then show ?case by simp
next
  case (3 M ctx envs k leg legs)
  obtain d1 r k' where d: "dispatch M ctx envs k (leg_name leg) (leg_args leg) = (d1, r, k')" by (metis prod_cases3)
  have first: "\<forall>d\<in>set d1. started_ok M ctx envs d \<and> \<not> popup_only d"
    using "3.IH"(1) "3.prems" d by (auto simp: popup_leg_def popup_only_def)
  show ?case
  proof (cases r)
    case (Some err)
    with d first show ?thesis by (simp add: handleBatch.simps)
  next
    case None
    obtain d2 r2 k2 where d2: "handleBatch M ctx envs k' legs = (d2, r2, k2)" by (metis prod_cases3)
    from "3.IH"(2) [OF d [symmetric] _ None] "3.prems" d2 have "\<forall>d\<in>set d2. started_ok M ctx envs d \<and> \<not> popup_only d" by simp
    with d d2 None first show ?thesis by (auto simp: handleBatch.simps)
  qed
qed


definition demo_ctx :: session_context where
  "demo_ctx = \<lparr>cx_chainId = 1, cx_profileId = ''p'', cx_origin = ''o'', cx_sessionId = ''w'', cx_fence = None\<rparr>"

definition demo_env :: dispatch_env where
  "demo_env = \<lparr>de_session = Some ((blank_session ''s'' ''p'' ''1'' None [] [] 0 0)
       \<lparr>ds_accounts := [formatCaipAccount 1 ''a''], ds_grants := [\<lparr>gr_capability = TransactionCap AnyScope, gr_grantedAt = 0\<rparr>]\<rparr>),
     de_networks = [''n''], de_accounts = [\<lparr>ar_address = ''a'', ar_name = ''A''\<rparr>],
     de_tokenRegistry = True, de_result = OkResult\<rparr>"

definition demo_batch :: "wire list" where
  "demo_batch = [WArr [WObj [(''name'', WStr ''getChainInfo''), (''args'', WArr [])]]]"

lemma demo_batch_run: "dispatch 0 demo_ctx (\<lambda>_. demo_env) 0 ''batch'' demo_batch
  = ([\<lparr>sd_env = 1, sd_name = ''getChainInfo'', sd_args = [], sd_action = Execute (GetChainInfoOp ''n'') None\<rparr>], None, 2)"
  by code_simp


end
