(* ===== verification/Execution_Mutex.thy ===== *)
theory Execution_Mutex
  imports Prelude
begin

text \<open>
  The per-lane execution mutex of \<^verbatim>\<open>execution/execution-mutex.ts\<close>. A call of \<^verbatim>\<open>acquire\<close> is numbered; its
  promise \<^verbatim>\<open>mine\<close> is resolved exactly when the call is \<open>Released\<close>, so the chain of tails is a chain of
  call numbers. The synchronous prefix of \<^verbatim>\<open>acquire\<close>, the settling of the prior promise, an abort
  and a release are single steps, taken in any order by the relation \<open>em_step\<close>.
\<close>

section \<open>State\<close>

record acquire_caps =
  ca_originKey :: string
  ca_maxOriginDepth :: int
  ca_maxLaneDepth :: int

datatype mutex_error = ExecutionMutexAbortError string | ExecutionMutexCapacityError string

datatype acquire_phase = AwaitsPrior | Holds | Aborted | Released

record acquire_call =
  ac_key :: string
  ac_prior :: "nat option"
  ac_caps :: "acquire_caps option"
  ac_signal :: bool
  ac_phase :: acquire_phase

record execution_mutex =
  em_tails :: "(string, nat) jsmap"
  em_laneDepth :: "(string, int) jsmap"
  em_originDepth :: "(string, int) jsmap"
  em_calls :: "acquire_call list"

definition new_mutex :: execution_mutex where
  "new_mutex = \<lparr>em_tails = [], em_laneDepth = [], em_originDepth = [], em_calls = []\<rparr>"

section \<open>Operations\<close>

definition originDepthKey :: "string \<Rightarrow> acquire_caps \<Rightarrow> string" where
  "originDepthKey key caps = key @ ''|'' @ ca_originKey caps"

definition at_capacity :: "string \<Rightarrow> acquire_caps \<Rightarrow> execution_mutex \<Rightarrow> bool" where
  "at_capacity key caps m \<longleftrightarrow>
     or_else (js_get (em_laneDepth m) key) 0 \<ge> ca_maxLaneDepth caps
     \<or> or_else (js_get (em_originDepth m) (originDepthKey key caps)) 0 \<ge> ca_maxOriginDepth caps"

definition depth_up :: "string \<Rightarrow> (string, int) jsmap \<Rightarrow> (string, int) jsmap" where
  "depth_up k d = js_set k (or_else (js_get d k) 0 + 1) d"

definition depth_down :: "string \<Rightarrow> (string, int) jsmap \<Rightarrow> (string, int) jsmap" where
  "depth_down k d = (let n = or_else (js_get d k) 1 - 1 in if n \<le> 0 then js_del k d else js_set k n d)"

definition enqueue_call :: "string \<Rightarrow> bool \<Rightarrow> acquire_caps option \<Rightarrow> execution_mutex \<Rightarrow> execution_mutex" where
  "enqueue_call key signal caps m =
     m\<lparr>em_tails := js_set key (length (em_calls m)) (em_tails m),
       em_calls := em_calls m @ [\<lparr>ac_key = key, ac_prior = js_get (em_tails m) key, ac_caps = caps,
         ac_signal = signal, ac_phase = AwaitsPrior\<rparr>]\<rparr>"

text \<open>The synchronous prefix of \<^verbatim>\<open>acquire\<close>; \<open>signal\<close> says whether a signal was given and had already fired.\<close>

definition acquire :: "string \<Rightarrow> bool option \<Rightarrow> acquire_caps option \<Rightarrow> execution_mutex \<Rightarrow> mutex_error + execution_mutex" where
  "acquire key signal caps m =
     (if signal = Some True then Inl (ExecutionMutexAbortError key)
      else case caps of
             None \<Rightarrow> Inr (enqueue_call key (signal \<noteq> None) None m)
           | Some c \<Rightarrow>
               if at_capacity key c m then Inl (ExecutionMutexCapacityError key)
               else Inr (enqueue_call key (signal \<noteq> None) (Some c)
                      (m\<lparr>em_laneDepth := depth_up key (em_laneDepth m),
                         em_originDepth := depth_up (originDepthKey key c) (em_originDepth m)\<rparr>)))"

definition set_phase :: "nat \<Rightarrow> acquire_phase \<Rightarrow> execution_mutex \<Rightarrow> execution_mutex" where
  "set_phase t p m = m\<lparr>em_calls := (em_calls m)[t := (em_calls m ! t)\<lparr>ac_phase := p\<rparr>]\<rparr>"

definition release_call :: "nat \<Rightarrow> execution_mutex \<Rightarrow> execution_mutex" where
  "release_call t m =
     (let c = em_calls m ! t; key = ac_key c
      in if ac_phase c = Released then m
         else let m' = (if js_get (em_tails m) key = Some t then m\<lparr>em_tails := js_del key (em_tails m)\<rparr> else m);
                  m'' = (case ac_caps c of
                           None \<Rightarrow> m'
                         | Some caps \<Rightarrow> m'\<lparr>em_laneDepth := depth_down key (em_laneDepth m'),
                                          em_originDepth := depth_down (originDepthKey key caps) (em_originDepth m')\<rparr>)
              in set_phase t Released m'')"

definition prior_settled :: "execution_mutex \<Rightarrow> nat \<Rightarrow> bool" where
  "prior_settled m t =
     (case ac_prior (em_calls m ! t) of None \<Rightarrow> True | Some p \<Rightarrow> ac_phase (em_calls m ! p) = Released)"

definition isLocked :: "execution_mutex \<Rightarrow> string \<Rightarrow> bool" where
  "isLocked m key = js_has (em_tails m) key"

section \<open>Steps\<close>

text \<open>
  \<open>C\<close> says which acquires the callers make. \<open>unwound\<close> is the release that an aborted waiter chains to
  the promise it waited for; \<open>released\<close> may be called again by a caller that already released.
\<close>

inductive em_step :: "(string \<Rightarrow> acquire_caps option \<Rightarrow> bool) \<Rightarrow> execution_mutex \<Rightarrow> execution_mutex \<Rightarrow> bool" for C where
  acquired: "C key caps \<Longrightarrow> acquire key signal caps m = Inr m' \<Longrightarrow> em_step C m m'"
| aborted: "t < length (em_calls m) \<Longrightarrow> ac_phase (em_calls m ! t) = AwaitsPrior \<Longrightarrow> ac_signal (em_calls m ! t)
    \<Longrightarrow> em_step C m (set_phase t Aborted m)"
| granted: "t < length (em_calls m) \<Longrightarrow> ac_phase (em_calls m ! t) = AwaitsPrior \<Longrightarrow> prior_settled m t
    \<Longrightarrow> em_step C m (set_phase t Holds m)"
| unwound: "t < length (em_calls m) \<Longrightarrow> ac_phase (em_calls m ! t) = Aborted \<Longrightarrow> prior_settled m t
    \<Longrightarrow> em_step C m (release_call t m)"
| released: "t < length (em_calls m) \<Longrightarrow> ac_phase (em_calls m ! t) \<in> {Holds, Released} \<Longrightarrow> em_step C m (release_call t m)"

inductive em_reachable :: "(string \<Rightarrow> acquire_caps option \<Rightarrow> bool) \<Rightarrow> execution_mutex \<Rightarrow> bool" for C where
  start: "em_reachable C new_mutex"
| step: "em_reachable C m \<Longrightarrow> em_step C m m' \<Longrightarrow> em_reachable C m'"

inductive_cases em_stepE: "em_step C m m'"

section \<open>Chain invariant\<close>

abbreviation em_key :: "execution_mutex \<Rightarrow> nat \<Rightarrow> string" where
  "em_key m t \<equiv> ac_key (em_calls m ! t)"

abbreviation em_phase :: "execution_mutex \<Rightarrow> nat \<Rightarrow> acquire_phase" where
  "em_phase m t \<equiv> ac_phase (em_calls m ! t)"

abbreviation em_size :: "execution_mutex \<Rightarrow> nat" where
  "em_size m \<equiv> length (em_calls m)"

definition behind_released :: "execution_mutex \<Rightarrow> nat \<Rightarrow> bool" where
  "behind_released m t \<longleftrightarrow> (\<forall>s<t. em_key m s = em_key m t \<longrightarrow> em_phase m s = Released)"

definition link_ok :: "execution_mutex \<Rightarrow> nat \<Rightarrow> bool" where
  "link_ok m t \<longleftrightarrow>
     (case ac_prior (em_calls m ! t) of
        None \<Rightarrow> behind_released m t
      | Some p \<Rightarrow> p < t \<and> em_key m p = em_key m t \<and> (\<forall>s. p < s \<longrightarrow> s < t \<longrightarrow> em_key m s \<noteq> em_key m t))"

definition tail_ok :: "execution_mutex \<Rightarrow> string \<Rightarrow> bool" where
  "tail_ok m k \<longleftrightarrow>
     (case js_get (em_tails m) k of
        None \<Rightarrow> (\<forall>s<em_size m. em_key m s = k \<longrightarrow> em_phase m s = Released)
      | Some t \<Rightarrow> t < em_size m \<and> em_key m t = k \<and> em_phase m t \<noteq> Released
          \<and> (\<forall>s. t < s \<longrightarrow> s < em_size m \<longrightarrow> em_key m s \<noteq> k))"

definition chain_inv :: "execution_mutex \<Rightarrow> bool" where
  "chain_inv m \<longleftrightarrow>
     (\<forall>t<em_size m. (em_phase m t = Holds \<or> em_phase m t = Released \<longrightarrow> behind_released m t) \<and> link_ok m t)
     \<and> (\<forall>k. tail_ok m k)"

lemma chain_invD:
  assumes "chain_inv m" "t < em_size m"
  shows "em_phase m t = Holds \<or> em_phase m t = Released \<Longrightarrow> behind_released m t" and "link_ok m t" and "tail_ok m k"
  using assms by (auto simp: chain_inv_def)

lemma behind_releasedD: "behind_released m t \<Longrightarrow> s < t \<Longrightarrow> em_key m s = em_key m t \<Longrightarrow> em_phase m s = Released"
  by (simp add: behind_released_def)

text \<open>A settled prior means that every earlier call of the key has released.\<close>

lemma settled_behind:
  assumes inv: "chain_inv m" and t: "t < em_size m" and settled: "prior_settled m t"
  shows "behind_released m t"
proof (cases "ac_prior (em_calls m ! t)")
  case None
  with chain_invD(2) [OF inv t] show ?thesis by (simp add: link_ok_def)
next
  case (Some p)
  with chain_invD(2) [OF inv t] settled
  have p: "p < t" "em_key m p = em_key m t" "\<forall>s. p < s \<longrightarrow> s < t \<longrightarrow> em_key m s \<noteq> em_key m t" "em_phase m p = Released"
    by (auto simp: link_ok_def prior_settled_def)
  have "behind_released m p" using chain_invD(1) [OF inv] p t by simp
  with p show ?thesis unfolding behind_released_def by (metis linorder_neqE_nat)
qed

lemma set_phase_fields [simp]:
  "em_size (set_phase t p m) = em_size m" "em_tails (set_phase t p m) = em_tails m"
  "em_laneDepth (set_phase t p m) = em_laneDepth m" "em_originDepth (set_phase t p m) = em_originDepth m"
  by (simp_all add: set_phase_def)

lemma set_phase_call:
  assumes "t < em_size m"
  shows "em_key (set_phase t p m) s = em_key m s" "ac_prior (em_calls (set_phase t p m) ! s) = ac_prior (em_calls m ! s)"
    "ac_caps (em_calls (set_phase t p m) ! s) = ac_caps (em_calls m ! s)"
    "em_phase (set_phase t p m) s = (if s = t then p else em_phase m s)"
  using assms by (cases "s = t"; simp add: set_phase_def)+

definition call_moved :: "nat \<Rightarrow> acquire_phase \<Rightarrow> execution_mutex \<Rightarrow> execution_mutex \<Rightarrow> bool" where
  "call_moved t p m m' \<longleftrightarrow>
     em_size m' = em_size m \<and> (\<forall>s. em_key m' s = em_key m s \<and> ac_prior (em_calls m' ! s) = ac_prior (em_calls m ! s)
       \<and> ac_caps (em_calls m' ! s) = ac_caps (em_calls m ! s)
       \<and> em_phase m' s = (if s = t then p else em_phase m s))"

lemma call_moved_set_phase: "t < em_size m \<Longrightarrow> call_moved t p m (set_phase t p m)"
  by (simp add: call_moved_def set_phase_call)

lemma call_moved_behind:
  assumes "call_moved t p m m'" "em_phase m t \<noteq> Released \<or> p = Released" "behind_released m s"
  shows "behind_released m' s"
  using assms by (auto simp: call_moved_def behind_released_def)

lemma call_moved_link:
  assumes "call_moved t p m m'" "em_phase m t \<noteq> Released \<or> p = Released" "link_ok m s"
  shows "link_ok m' s"
  using assms call_moved_behind [OF assms(1,2)] by (auto simp: link_ok_def call_moved_def split: option.splits)

lemma call_moved_chain:
  assumes "chain_inv m" "call_moved t p m m'" "t < em_size m" "em_phase m t \<noteq> Released \<or> p = Released"
    and "p = Holds \<or> p = Released \<Longrightarrow> behind_released m t" and "\<And>k. tail_ok m' k"
  shows "chain_inv m'"
  unfolding chain_inv_def
proof (intro conjI allI impI)
  fix s assume s: "s < em_size m'" and ph: "em_phase m' s = Holds \<or> em_phase m' s = Released"
  have "behind_released m s"
    using assms(1,2,3,5) s ph chain_invD(1) [OF assms(1), of s] by (cases "s = t") (auto simp: call_moved_def)
  then show "behind_released m' s" using call_moved_behind assms(2,4) by blast
next
  fix s assume "s < em_size m'"
  with assms(2) have "s < em_size m" by (simp add: call_moved_def)
  then show "link_ok m' s" using call_moved_link [OF assms(2,4)] chain_invD(2) [OF assms(1)] by blast
qed (rule assms(6))

lemma call_moved_tail:
  assumes "call_moved t p m m'" "em_tails m' = em_tails m" "em_phase m t \<noteq> Released" "p \<noteq> Released" "tail_ok m k"
  shows "tail_ok m' k"
  using assms by (auto simp: tail_ok_def call_moved_def split: option.splits)

lemma release_call_moved:
  assumes "t < em_size m" "em_phase m t \<noteq> Released"
  shows "call_moved t Released m (release_call t m)"
    and "em_tails (release_call t m) = (if js_get (em_tails m) (em_key m t) = Some t then js_del (em_key m t) (em_tails m) else em_tails m)"
proof -
  define m' where "m' = (if js_get (em_tails m) (em_key m t) = Some t then m\<lparr>em_tails := js_del (em_key m t) (em_tails m)\<rparr> else m)"
  define m'' where "m'' = (case ac_caps (em_calls m ! t) of None \<Rightarrow> m'
    | Some caps \<Rightarrow> m'\<lparr>em_laneDepth := depth_down (em_key m t) (em_laneDepth m'),
        em_originDepth := depth_down (originDepthKey (em_key m t) caps) (em_originDepth m')\<rparr>)"
  have r: "release_call t m = set_phase t Released m''"
    unfolding release_call_def Let_def m''_def m'_def using assms(2) by (simp only: if_False)
  have c: "em_calls m'' = em_calls m" "em_tails m'' = em_tails m'"
    by (auto simp: m'_def m''_def split: option.split)
  show "call_moved t Released m (release_call t m)"
    using call_moved_set_phase [of t m'' Released] assms(1) unfolding r by (simp add: call_moved_def c)
  show "em_tails (release_call t m) = (if js_get (em_tails m) (em_key m t) = Some t then js_del (em_key m t) (em_tails m) else em_tails m)"
    by (simp add: r c m'_def)
qed

lemma release_tail:
  assumes inv: "chain_inv m" and t: "t < em_size m" "em_phase m t \<noteq> Released" and behind: "behind_released m t"
  shows "tail_ok (release_call t m) k"
proof -
  note mv = release_call_moved [OF t]
  have tk: "tail_ok m k" using inv by (simp add: chain_inv_def)
  show ?thesis
  proof (cases "k = em_key m t \<and> js_get (em_tails m) k = Some t")
    case True
    then have at: "js_get (em_tails m) k = Some t" by blast
    from tk [unfolded tail_ok_def at] have last: "\<forall>s. t < s \<longrightarrow> s < em_size m \<longrightarrow> em_key m s \<noteq> k" by simp
    have "em_phase m s = Released \<or> s = t" if "s < em_size m" "em_key m s = k" for s
      using that last behind True by (metis behind_releasedD linorder_neqE_nat)
    with mv True show ?thesis by (auto simp: tail_ok_def call_moved_def js_get_del)
  next
    case False
    then have "js_get (em_tails (release_call t m)) k = js_get (em_tails m) k" using mv(2) by (auto simp: js_get_del)
    moreover have "js_get (em_tails m) k \<noteq> Some t" using False tk by (auto simp: tail_ok_def)
    moreover have "em_key m t \<noteq> k" if "js_get (em_tails m) k = None" using tk that t by (auto simp: tail_ok_def)
    ultimately show ?thesis using tk mv(1) by (auto simp: tail_ok_def call_moved_def split: option.splits)
  qed
qed

lemma release_chain:
  assumes inv: "chain_inv m" and t: "t < em_size m" and behind: "behind_released m t"
  shows "chain_inv (release_call t m)"
proof (cases "em_phase m t = Released")
  case True
  then show ?thesis using inv by (simp add: release_call_def Let_def)
next
  case False
  show ?thesis
    by (rule call_moved_chain [OF inv release_call_moved(1) [OF t False] t])
      (use behind release_tail [OF inv t False behind] in simp_all)
qed

lemma enqueue_call_fields:
  "em_size (enqueue_call key sg caps m) = Suc (em_size m)"
  "s < em_size m \<Longrightarrow> em_calls (enqueue_call key sg caps m) ! s = em_calls m ! s"
  "em_calls (enqueue_call key sg caps m) ! em_size m
     = \<lparr>ac_key = key, ac_prior = js_get (em_tails m) key, ac_caps = caps, ac_signal = sg, ac_phase = AwaitsPrior\<rparr>"
  "em_tails (enqueue_call key sg caps m) = js_set key (em_size m) (em_tails m)"
  by (simp_all add: enqueue_call_def nth_append)

lemma enqueue_behind:
  "s < em_size m \<Longrightarrow> behind_released (enqueue_call key sg caps m) s = behind_released m s"
  by (simp add: behind_released_def enqueue_call_fields)

lemma enqueue_link: "s < em_size m \<Longrightarrow> link_ok (enqueue_call key sg caps m) s = link_ok m s"
  by (cases "ac_prior (em_calls m ! s)") (auto simp: link_ok_def enqueue_behind enqueue_call_fields)

lemma enqueue_link_new:
  assumes "tail_ok m key"
  shows "link_ok (enqueue_call key sg caps m) (em_size m)"
  using assms
  by (cases "js_get (em_tails m) key") (auto simp: link_ok_def tail_ok_def enqueue_call_fields behind_released_def)

lemma enqueue_tail:
  assumes "tail_ok m k"
  shows "tail_ok (enqueue_call key sg caps m) k"
proof (cases "k = key")
  case True
  then show ?thesis by (auto simp: tail_ok_def enqueue_call_fields js_get_set)
next
  case False
  with assms show ?thesis
    by (cases "js_get (em_tails m) k") (auto simp: tail_ok_def enqueue_call_fields js_get_set less_Suc_eq)
qed

lemma enqueue_chain:
  assumes "chain_inv m"
  shows "chain_inv (enqueue_call key sg caps m)"
  unfolding chain_inv_def
proof (intro conjI allI impI)
  fix s assume s: "s < em_size (enqueue_call key sg caps m)"
    and ph: "em_phase (enqueue_call key sg caps m) s = Holds \<or> em_phase (enqueue_call key sg caps m) s = Released"
  have "s \<noteq> em_size m" using ph by (auto simp: enqueue_call_fields)
  with s have s': "s < em_size m" by (simp add: enqueue_call_fields)
  with ph chain_invD(1) [OF assms s'] show "behind_released (enqueue_call key sg caps m) s"
    by (simp add: enqueue_behind enqueue_call_fields)
next
  fix s assume "s < em_size (enqueue_call key sg caps m)"
  then consider "s < em_size m" | "s = em_size m" by (auto simp: enqueue_call_fields less_Suc_eq)
  then show "link_ok (enqueue_call key sg caps m) s"
    by cases (use assms enqueue_link enqueue_link_new in \<open>auto simp: chain_inv_def\<close>)
next
  fix k show "tail_ok (enqueue_call key sg caps m) k" using assms by (simp add: chain_inv_def enqueue_tail)
qed

lemma chain_inv_depth:
  "chain_inv (m\<lparr>em_laneDepth := a, em_originDepth := b\<rparr>) = chain_inv m"
proof -
  have b: "behind_released (m\<lparr>em_laneDepth := a, em_originDepth := b\<rparr>) t = behind_released m t" for t
    by (simp add: behind_released_def)
  have l: "link_ok (m\<lparr>em_laneDepth := a, em_originDepth := b\<rparr>) t = link_ok m t" for t
    by (cases "ac_prior (em_calls m ! t)") (simp_all add: link_ok_def b)
  have "tail_ok (m\<lparr>em_laneDepth := a, em_originDepth := b\<rparr>) k = tail_ok m k" for k
    by (cases "js_get (em_tails m) k") (simp_all add: tail_ok_def)
  then show ?thesis by (simp add: chain_inv_def b l)
qed

lemma acquire_cases:
  assumes "acquire key signal caps m = Inr m'"
  obtains (free) "caps = None" "m' = enqueue_call key (signal \<noteq> None) None m"
  | (capped) c where "caps = Some c" "\<not> at_capacity key c m"
      "m' = enqueue_call key (signal \<noteq> None) (Some c) (m\<lparr>em_laneDepth := depth_up key (em_laneDepth m),
              em_originDepth := depth_up (originDepthKey key c) (em_originDepth m)\<rparr>)"
  using assms by (cases caps) (auto simp: acquire_def split: if_splits)

lemma acquire_calls:
  "acquire key signal caps m = Inr m' \<Longrightarrow>
     em_calls m' = em_calls m @ [\<lparr>ac_key = key, ac_prior = js_get (em_tails m) key, ac_caps = caps, ac_signal = signal \<noteq> None, ac_phase = AwaitsPrior\<rparr>]"
  by (erule acquire_cases) (simp_all add: enqueue_call_def)

lemma chain_inv_step:
  assumes "em_step C m m'" "chain_inv m"
  shows "chain_inv m'"
  using assms(1)
proof cases
  case (acquired key caps signal)
  from acquired(2) show ?thesis
  proof (cases rule: acquire_cases)
    case free
    then show ?thesis using enqueue_chain [OF assms(2)] by simp
  next
    case (capped c)
    show ?thesis unfolding capped(3) by (rule enqueue_chain) (simp add: chain_inv_depth assms(2))
  qed
next
  case (aborted t)
  have mv: "call_moved t Aborted m m'" unfolding aborted(1) by (rule call_moved_set_phase [OF aborted(2)])
  show ?thesis
  proof (rule call_moved_chain [OF assms(2) mv aborted(2)])
    show "tail_ok m' k" for k
      using call_moved_tail [OF mv] aborted chain_invD(3) [OF assms(2) aborted(2)] by simp
  qed (use aborted in simp_all)
next
  case (granted t)
  have mv: "call_moved t Holds m m'" unfolding granted(1) by (rule call_moved_set_phase [OF granted(2)])
  show ?thesis
  proof (rule call_moved_chain [OF assms(2) mv granted(2)])
    show "tail_ok m' k" for k
      using call_moved_tail [OF mv] granted chain_invD(3) [OF assms(2) granted(2)] by simp
    show "behind_released m t" by (rule settled_behind [OF assms(2) granted(2,4)])
  qed (use granted in simp_all)
next
  case (unwound t)
  show ?thesis
    unfolding unwound(1) by (rule release_chain [OF assms(2) unwound(2) settled_behind [OF assms(2) unwound(2,4)]])
next
  case (released t)
  have "behind_released m t" using chain_invD(1) [OF assms(2) released(2)] released(3) by blast
  then show ?thesis unfolding released(1) by (rule release_chain [OF assms(2) released(2)])
qed

lemma chain_inv_reachable: "em_reachable C m \<Longrightarrow> chain_inv m"
proof (induction rule: em_reachable.induct)
  case start
  show ?case by (simp add: chain_inv_def new_mutex_def tail_ok_def)
qed (rule chain_inv_step)

section \<open>Depth counters\<close>

definition lane_calls :: "execution_mutex \<Rightarrow> string \<Rightarrow> nat set" where
  "lane_calls m k = {t. t < em_size m \<and> em_phase m t \<noteq> Released \<and> ac_caps (em_calls m ! t) \<noteq> None \<and> em_key m t = k}"

definition depth_calls :: "execution_mutex \<Rightarrow> string \<Rightarrow> nat set" where
  "depth_calls m dk = {t. t < em_size m \<and> em_phase m t \<noteq> Released
     \<and> (\<exists>c. ac_caps (em_calls m ! t) = Some c \<and> originDepthKey (em_key m t) c = dk)}"

definition counts :: "(string, int) jsmap \<Rightarrow> (string \<Rightarrow> nat) \<Rightarrow> bool" where
  "counts d f \<longleftrightarrow> (\<forall>k. js_get d k = (if f k = 0 then None else Some (int (f k))))"

definition depth_inv :: "execution_mutex \<Rightarrow> bool" where
  "depth_inv m \<longleftrightarrow> counts (em_laneDepth m) (\<lambda>k. card (lane_calls m k)) \<and> counts (em_originDepth m) (\<lambda>k. card (depth_calls m k))"

lemma counts_depth: "counts d f \<Longrightarrow> or_else (js_get d k) 0 = int (f k)"
  by (simp add: counts_def)

lemma counts_up: "counts d f \<Longrightarrow> counts (depth_up k d) (f(k := Suc (f k)))"
  by (simp add: counts_def depth_up_def js_get_set)

lemma counts_down:
  assumes "counts d f" "0 < f k"
  shows "counts (depth_down k d) (f(k := f k - 1))"
  using assms by (auto simp: counts_def depth_down_def Let_def js_get_set js_get_del)

lemma finite_calls [simp]: "finite (lane_calls m k)" "finite (depth_calls m k)"
  by (simp_all add: lane_calls_def depth_calls_def)

lemma enqueue_lane_calls:
  "lane_calls (enqueue_call key sg caps m) k = (if caps \<noteq> None \<and> k = key then insert (em_size m) (lane_calls m k) else lane_calls m k)"
  by (auto simp: lane_calls_def enqueue_call_fields less_Suc_eq)

lemma enqueue_depth_calls:
  "depth_calls (enqueue_call key sg caps m) dk
     = (if (\<exists>c. caps = Some c \<and> originDepthKey key c = dk) then insert (em_size m) (depth_calls m dk) else depth_calls m dk)"
  by (auto simp: depth_calls_def enqueue_call_fields less_Suc_eq)

lemma fresh_call [simp]: "em_size m \<notin> lane_calls m k" "em_size m \<notin> depth_calls m k"
  by (simp_all add: lane_calls_def depth_calls_def)

lemma calls_depth_fields [simp]:
  "lane_calls (m\<lparr>em_laneDepth := a, em_originDepth := b\<rparr>) k = lane_calls m k"
  "depth_calls (m\<lparr>em_laneDepth := a, em_originDepth := b\<rparr>) k = depth_calls m k"
  by (simp_all add: lane_calls_def depth_calls_def)

lemma enqueue_depths [simp]:
  "em_laneDepth (enqueue_call key sg caps m) = em_laneDepth m" "em_originDepth (enqueue_call key sg caps m) = em_originDepth m"
  by (simp_all add: enqueue_call_def)

lemma acquire_depth:
  assumes "acquire key signal caps m = Inr m'" "depth_inv m"
  shows "depth_inv m'"
  using assms(1)
proof (cases rule: acquire_cases)
  case free
  then show ?thesis using assms(2) by (simp add: depth_inv_def enqueue_lane_calls enqueue_depth_calls)
next
  case (capped c)
  have "(\<lambda>k. card (lane_calls m' k)) = (\<lambda>k. card (lane_calls m k))(key := Suc (card (lane_calls m key)))"
    unfolding capped(3) by (auto simp: enqueue_lane_calls fun_eq_iff)
  moreover have "(\<lambda>k. card (depth_calls m' k))
      = (\<lambda>k. card (depth_calls m k))(originDepthKey key c := Suc (card (depth_calls m (originDepthKey key c))))"
    unfolding capped(3) by (auto simp: enqueue_depth_calls fun_eq_iff)
  ultimately show ?thesis
    using assms(2) counts_up [of "em_laneDepth m" "\<lambda>k. card (lane_calls m k)"] counts_up [of "em_originDepth m" "\<lambda>k. card (depth_calls m k)"]
    by (simp add: depth_inv_def capped(3))
qed

lemma release_depths:
  assumes "em_phase m t \<noteq> Released"
  shows "em_laneDepth (release_call t m) = (if ac_caps (em_calls m ! t) = None then em_laneDepth m else depth_down (em_key m t) (em_laneDepth m))"
    and "em_originDepth (release_call t m) = (case ac_caps (em_calls m ! t) of None \<Rightarrow> em_originDepth m
           | Some c \<Rightarrow> depth_down (originDepthKey (em_key m t) c) (em_originDepth m))"
  using assms by (auto simp: release_call_def Let_def split: option.splits)

lemma moved_calls:
  assumes "call_moved t p m m'"
  shows "lane_calls m' k = (if p = Released then lane_calls m k - {t} else if em_phase m t = Released then lane_calls m' k else lane_calls m k)"
    and "depth_calls m' k = (if p = Released then depth_calls m k - {t} else if em_phase m t = Released then depth_calls m' k else depth_calls m k)"
  using assms by (auto simp: call_moved_def lane_calls_def depth_calls_def)

lemma release_depth:
  assumes t: "t < em_size m" and inv: "depth_inv m"
  shows "depth_inv (release_call t m)"
proof (cases "em_phase m t = Released")
  case True
  then show ?thesis using inv by (simp add: release_call_def Let_def)
next
  case live: False
  note mv = moved_calls [OF release_call_moved(1) [OF t live]]
  show ?thesis
  proof (cases "ac_caps (em_calls m ! t)")
    case None
    then have "t \<notin> lane_calls m k" "t \<notin> depth_calls m k" for k by (simp_all add: lane_calls_def depth_calls_def)
    with None inv show ?thesis by (simp add: depth_inv_def mv release_depths [OF live])
  next
    case (Some c)
    let ?k = "em_key m t" and ?d = "originDepthKey (em_key m t) c"
    have mem: "t \<in> lane_calls m k \<longleftrightarrow> k = ?k" "t \<in> depth_calls m k \<longleftrightarrow> k = ?d" for k
      using t live Some by (auto simp: lane_calls_def depth_calls_def)
    have "(\<lambda>k. card (lane_calls m k - {t})) = (\<lambda>k. card (lane_calls m k))(?k := card (lane_calls m ?k) - 1)"
      using mem(1) by (auto simp: fun_eq_iff)
    moreover have "(\<lambda>k. card (depth_calls m k - {t})) = (\<lambda>k. card (depth_calls m k))(?d := card (depth_calls m ?d) - 1)"
      using mem(2) by (auto simp: fun_eq_iff)
    moreover have "0 < card (lane_calls m ?k)" "0 < card (depth_calls m ?d)" using mem by (auto simp: card_gt_0_iff)
    ultimately show ?thesis
      using inv Some counts_down [of "em_laneDepth m" "\<lambda>k. card (lane_calls m k)" ?k]
        counts_down [of "em_originDepth m" "\<lambda>k. card (depth_calls m k)" ?d]
      by (simp add: depth_inv_def mv release_depths [OF live])
  qed
qed

lemma set_phase_depth:
  assumes "t < em_size m" "em_phase m t \<noteq> Released" "p \<noteq> Released" "depth_inv m"
  shows "depth_inv (set_phase t p m)"
  using assms moved_calls [OF call_moved_set_phase [OF assms(1), of p]] by (simp add: depth_inv_def)

lemma depth_inv_reachable: "em_reachable C m \<Longrightarrow> depth_inv m"
proof (induction rule: em_reachable.induct)
  case start
  show ?case by (simp add: depth_inv_def counts_def new_mutex_def lane_calls_def depth_calls_def)
next
  case (step m m')
  from step(2) show ?case
    by cases (use step.IH acquire_depth set_phase_depth release_depth in auto)
qed

section \<open>Caps of the execution lane\<close>

definition EXECUTION_ORIGIN_CAP :: int where "EXECUTION_ORIGIN_CAP = 8"

definition EXECUTION_LANE_CAP :: int where "EXECUTION_LANE_CAP = 32"

definition lane_caps :: "string option \<Rightarrow> acquire_caps" where
  "lane_caps originKey = \<lparr>ca_originKey = or_else originKey ''__no_origin__'',
     ca_maxOriginDepth = EXECUTION_ORIGIN_CAP, ca_maxLaneDepth = EXECUTION_LANE_CAP\<rparr>"

text \<open>The acquires of the lane: a lane key and a browser origin do not contain the separator.\<close>

definition no_bar :: "string \<Rightarrow> bool" where
  "no_bar s \<longleftrightarrow> CHR ''|'' \<notin> set s"

definition lane_acquire :: "string \<Rightarrow> acquire_caps option \<Rightarrow> bool" where
  "lane_acquire key caps \<longleftrightarrow> no_bar key \<and> (\<exists>originKey. no_bar (or_else originKey []) \<and> caps = Some (lane_caps originKey))"

definition origin_calls :: "execution_mutex \<Rightarrow> string \<Rightarrow> string \<Rightarrow> nat set" where
  "origin_calls m k origin = {t \<in> lane_calls m k. \<exists>c. ac_caps (em_calls m ! t) = Some c \<and> ca_originKey c = origin}"

definition lane_made :: "execution_mutex \<Rightarrow> bool" where
  "lane_made m \<longleftrightarrow> (\<forall>t<em_size m. lane_acquire (em_key m t) (ac_caps (em_calls m ! t)))"

lemma originDepthKey_inject:
  assumes "no_bar k" "no_bar k'" "originDepthKey k c = originDepthKey k' c'"
  shows "k = k' \<and> ca_originKey c = ca_originKey c'"
proof -
  have "takeWhile (\<lambda>x. x \<noteq> CHR ''|'') (originDepthKey k c) = k" "takeWhile (\<lambda>x. x \<noteq> CHR ''|'') (originDepthKey k' c') = k'"
    using assms(1,2) by (auto simp: originDepthKey_def no_bar_def takeWhile_append2 takeWhile_tail)
  with assms(3) have "k = k'" by simp
  with assms(3) show ?thesis by (simp add: originDepthKey_def)
qed

text \<open>Every step appends a call, moves one unreleased call, or is a repeated release.\<close>

lemma em_step_shapes:
  assumes "em_step C m m'"
  obtains (appended) key caps signal where "C key caps" "acquire key signal caps m = Inr m'"
  | (moved) t p where "call_moved t p m m'" "em_phase m t \<noteq> Released"
  | (same) "m' = m"
  using assms
proof cases
  case (aborted t)
  then show ?thesis using that(2) [of t Aborted] call_moved_set_phase [of t m Aborted] by simp
next
  case (granted t)
  then show ?thesis using that(2) [of t Holds] call_moved_set_phase [of t m Holds] by simp
next
  case (unwound t)
  then show ?thesis using that(2) [of t Released] release_call_moved(1) [of t m] by simp
next
  case (released t)
  show ?thesis
  proof (cases "em_phase m t = Released")
    case True
    then show ?thesis using that(3) released by (simp add: release_call_def Let_def)
  next
    case False
    then show ?thesis using that(2) [of t Released] released release_call_moved(1) [of t m] by simp
  qed
qed (use that(1) in blast)

lemma lane_made_reachable: "em_reachable lane_acquire m \<Longrightarrow> lane_made m"
proof (induction rule: em_reachable.induct)
  case start
  show ?case by (simp add: lane_made_def new_mutex_def)
next
  case (step m m')
  from step(2) show ?case
  proof (cases rule: em_step_shapes)
    case (appended key caps signal)
    then show ?thesis
      using step.IH by (auto simp: lane_made_def acquire_calls [OF appended(2)] nth_append less_Suc_eq)
  qed (use step.IH in \<open>simp_all add: lane_made_def call_moved_def\<close>)
qed

lemma origin_depth_calls:
  assumes "lane_made m" "no_bar k"
  shows "depth_calls m (originDepthKey k c) = origin_calls m k (ca_originKey c)"
proof (intro set_eqI iffI)
  fix t assume "t \<in> depth_calls m (originDepthKey k c)"
  then obtain c' where t: "t < em_size m" "em_phase m t \<noteq> Released" "ac_caps (em_calls m ! t) = Some c'"
      "originDepthKey (em_key m t) c' = originDepthKey k c"
    by (auto simp: depth_calls_def)
  have "no_bar (em_key m t)" using assms(1) t(1) by (simp add: lane_made_def lane_acquire_def)
  from originDepthKey_inject [OF this assms(2) t(4)] t show "t \<in> origin_calls m k (ca_originKey c)"
    by (simp add: origin_calls_def lane_calls_def)
qed (auto simp: origin_calls_def lane_calls_def depth_calls_def originDepthKey_def)

lemma acquired_calls_grow:
  assumes "acquire key signal (Some c) m = Inr m'"
  shows "lane_calls m' k \<subseteq> (if k = key then insert (em_size m) (lane_calls m k) else lane_calls m k)"
    and "origin_calls m' k origin
      \<subseteq> (if k = key \<and> origin = ca_originKey c then insert (em_size m) (origin_calls m k origin) else origin_calls m k origin)"
  by (auto simp: lane_calls_def origin_calls_def acquire_calls [OF assms] nth_append less_Suc_eq split: if_splits)

lemma moved_calls_shrink:
  assumes "call_moved t p m m'" "em_phase m t \<noteq> Released \<or> p = Released"
  shows "lane_calls m' k \<subseteq> lane_calls m k" "origin_calls m' k origin \<subseteq> origin_calls m k origin"
  using assms by (auto simp: lane_calls_def origin_calls_def call_moved_def split: if_splits)

definition within_caps :: "execution_mutex \<Rightarrow> bool" where
  "within_caps m \<longleftrightarrow> (\<forall>k. int (card (lane_calls m k)) \<le> EXECUTION_LANE_CAP)
     \<and> (\<forall>k origin. int (card (origin_calls m k origin)) \<le> EXECUTION_ORIGIN_CAP)"

lemma finite_origin_calls [simp]: "finite (origin_calls m k origin)"
  by (simp add: origin_calls_def)

lemma at_capacity_exact:
  assumes "depth_inv m" "lane_made m" "no_bar k"
  shows "at_capacity k c m \<longleftrightarrow> ca_maxLaneDepth c \<le> int (card (lane_calls m k))
    \<or> ca_maxOriginDepth c \<le> int (card (origin_calls m k (ca_originKey c)))"
proof -
  have "or_else (js_get (em_laneDepth m) k) 0 = int (card (lane_calls m k))"
    using assms(1) counts_depth [of "em_laneDepth m" "\<lambda>k. card (lane_calls m k)" k] by (simp add: depth_inv_def)
  moreover have "or_else (js_get (em_originDepth m) (originDepthKey k c)) 0 = int (card (origin_calls m k (ca_originKey c)))"
    using assms(1) counts_depth [of "em_originDepth m" "\<lambda>k. card (depth_calls m k)" "originDepthKey k c"]
    by (simp add: depth_inv_def origin_depth_calls [OF assms(2,3)])
  ultimately show ?thesis by (simp add: at_capacity_def)
qed

lemma within_caps_mono:
  assumes "within_caps m" "\<And>k. lane_calls m' k \<subseteq> lane_calls m k" "\<And>k origin. origin_calls m' k origin \<subseteq> origin_calls m k origin"
  shows "within_caps m'"
  unfolding within_caps_def
proof (intro conjI allI)
  fix k origin
  have "card (lane_calls m' k) \<le> card (lane_calls m k)" "card (origin_calls m' k origin) \<le> card (origin_calls m k origin)"
    using assms(2,3) by (simp_all add: card_mono)
  then show "int (card (lane_calls m' k)) \<le> EXECUTION_LANE_CAP" "int (card (origin_calls m' k origin)) \<le> EXECUTION_ORIGIN_CAP"
    using assms(1) unfolding within_caps_def by (meson of_nat_mono order_trans)+
qed

lemma card_insert_bound: "finite B \<Longrightarrow> A \<subseteq> insert x B \<Longrightarrow> int (card B) < n \<Longrightarrow> int (card A) \<le> n"
  using card_mono [of "insert x B" A] card_insert_le_m1 [of "Suc (card B)" B x] by simp

lemma within_caps_acquire:
  assumes "within_caps m" "depth_inv m" "lane_made m" "lane_acquire key caps" "acquire key signal caps m = Inr m'"
  shows "within_caps m'"
proof -
  from assms(4) obtain o' where o: "no_bar key" "caps = Some (lane_caps o')" by (auto simp: lane_acquire_def)
  let ?c = "lane_caps o'"
  from assms(5) o(2) have "\<not> at_capacity key ?c m" by (auto simp: acquire_def split: if_splits)
  with at_capacity_exact [OF assms(2,3) o(1), of ?c]
  have low: "int (card (lane_calls m key)) < EXECUTION_LANE_CAP" "int (card (origin_calls m key (ca_originKey ?c))) < EXECUTION_ORIGIN_CAP"
    by (simp_all add: lane_caps_def)
  note grow = acquired_calls_grow [OF assms(5) [unfolded o(2)]]
  show ?thesis
    unfolding within_caps_def
  proof (intro conjI allI)
    fix k origin
    show "int (card (lane_calls m' k)) \<le> EXECUTION_LANE_CAP"
    proof (cases "k = key")
      case True
      then show ?thesis using card_insert_bound [OF finite_calls(1) _ low(1)] grow(1) [of k] by simp
    next
      case False
      then have "card (lane_calls m' k) \<le> card (lane_calls m k)" using grow(1) [of k] by (simp add: card_mono)
      then show ?thesis using assms(1) unfolding within_caps_def by (meson of_nat_mono order_trans)
    qed
    show "int (card (origin_calls m' k origin)) \<le> EXECUTION_ORIGIN_CAP"
    proof (cases "k = key \<and> origin = ca_originKey ?c")
      case True
      then show ?thesis using card_insert_bound [OF finite_origin_calls _ low(2)] grow(2) [of k origin] by simp
    next
      case False
      then have "card (origin_calls m' k origin) \<le> card (origin_calls m k origin)"
        using grow(2) [of k origin] by (simp only: if_False card_mono finite_origin_calls)
      then show ?thesis using assms(1) unfolding within_caps_def by (meson of_nat_mono order_trans)
    qed
  qed
qed

lemma within_caps_reachable: "em_reachable lane_acquire m \<Longrightarrow> within_caps m"
proof (induction rule: em_reachable.induct)
  case start
  show ?case by (simp add: within_caps_def new_mutex_def lane_calls_def origin_calls_def EXECUTION_LANE_CAP_def EXECUTION_ORIGIN_CAP_def)
next
  case (step m m')
  from step(2) show ?case
  proof (cases rule: em_step_shapes)
    case (appended key caps signal)
    then show ?thesis
      using within_caps_acquire [OF step.IH depth_inv_reachable [OF step(1)] lane_made_reachable [OF step(1)]] by blast
  next
    case (moved t p)
    then have kept: "em_phase m t \<noteq> Released \<or> p = Released" by simp
    show ?thesis by (rule within_caps_mono [OF step.IH moved_calls_shrink [OF moved(1) kept]])
  qed (use step.IH in simp)
qed

section \<open>Progress\<close>

text \<open>What the runtime and the holders do by themselves: no new call arrives and no signal fires.\<close>

inductive em_settle :: "execution_mutex \<Rightarrow> execution_mutex \<Rightarrow> bool" where
  grant: "t < em_size m \<Longrightarrow> em_phase m t = AwaitsPrior \<Longrightarrow> prior_settled m t \<Longrightarrow> em_settle m (set_phase t Holds m)"
| unwind: "t < em_size m \<Longrightarrow> em_phase m t = Aborted \<Longrightarrow> prior_settled m t \<Longrightarrow> em_settle m (release_call t m)"
| leave: "t < em_size m \<Longrightarrow> em_phase m t = Holds \<Longrightarrow> em_settle m (release_call t m)"

lemma em_settle_step: "em_settle m m' \<Longrightarrow> em_step C m m'"
  by (erule em_settle.cases) (auto intro: em_step.intros)

lemma behind_settled:
  assumes "chain_inv m" "t < em_size m" "behind_released m t"
  shows "prior_settled m t"
  using chain_invD(2) [OF assms(1,2)] assms(3)
  by (auto simp: link_ok_def prior_settled_def behind_released_def split: option.splits)

lemma earliest_unreleased:
  assumes "t < em_size m" "em_phase m t \<noteq> Released"
  obtains s where "s \<le> t" "em_key m s = em_key m t" "em_phase m s \<noteq> Released" "behind_released m s"
proof -
  let ?P = "\<lambda>s. em_key m s = em_key m t \<and> em_phase m s \<noteq> Released"
  define u where "u = (LEAST s. ?P s)"
  have u: "?P u" unfolding u_def by (rule LeastI [of ?P t]) (simp add: assms)
  have le: "u \<le> t" unfolding u_def by (rule Least_le) (simp add: assms)
  have "\<not> ?P s" if "s < u" for s using not_less_Least that unfolding u_def by blast
  with u have "behind_released m u" by (simp add: behind_released_def)
  with u le show ?thesis using that by blast
qed

lemma call_moved_trans: "call_moved s p m m1 \<Longrightarrow> call_moved s q m1 m2 \<Longrightarrow> call_moved s q m m2"
  by (simp add: call_moved_def)

lemma first_leaves:
  assumes "chain_inv m" "s < em_size m" "em_phase m s \<noteq> Released" "behind_released m s"
  shows "\<exists>m'. em_settle\<^sup>*\<^sup>* m m' \<and> call_moved s Released m m'"
proof -
  note settled = behind_settled [OF assms(1,2,4)]
  show ?thesis
  proof (cases "em_phase m s")
    case AwaitsPrior
    let ?m1 = "set_phase s Holds m"
    have g: "em_settle m ?m1" by (rule em_settle.grant [OF assms(2) AwaitsPrior settled])
    have h: "em_phase ?m1 s = Holds" "s < em_size ?m1" using assms(2) by (simp_all add: set_phase_call)
    have "em_settle ?m1 (release_call s ?m1)" by (rule em_settle.leave [OF h(2,1)])
    with g have "em_settle\<^sup>*\<^sup>* m (release_call s ?m1)" by (meson converse_rtranclp_into_rtranclp r_into_rtranclp)
    moreover have "call_moved s Released m (release_call s ?m1)"
      using call_moved_trans [OF call_moved_set_phase [OF assms(2)] release_call_moved(1) [OF h(2)]] h(1) by simp
    ultimately show ?thesis by blast
  next
    case Holds
    from em_settle.leave [OF assms(2) Holds] release_call_moved(1) [OF assms(2,3)] show ?thesis by blast
  next
    case Aborted
    from em_settle.unwind [OF assms(2) Aborted settled] release_call_moved(1) [OF assms(2,3)] show ?thesis by blast
  qed (use assms(3) in simp)
qed

definition ahead :: "execution_mutex \<Rightarrow> nat \<Rightarrow> nat set" where
  "ahead m t = {s. s < t \<and> em_key m s = em_key m t \<and> em_phase m s \<noteq> Released}"

lemma finite_ahead [simp]: "finite (ahead m t)"
  by (simp add: ahead_def)

lemma chain_inv_settles: "em_settle\<^sup>*\<^sup>* m m' \<Longrightarrow> chain_inv m \<Longrightarrow> chain_inv m'"
  by (induction rule: rtranclp_induct) (use em_settle_step chain_inv_step in blast)+

lemma waiter_served:
  assumes "chain_inv m" "t < em_size m" "em_phase m t = AwaitsPrior"
  shows "\<exists>m'. em_settle\<^sup>*\<^sup>* m m' \<and> em_phase m' t = Holds"
  using assms
proof (induction "card (ahead m t)" arbitrary: m rule: less_induct)
  case less
  obtain s where s: "s \<le> t" "em_key m s = em_key m t" "em_phase m s \<noteq> Released" "behind_released m s"
    using earliest_unreleased [OF less.prems(2)] less.prems(3) by auto
  show ?case
  proof (cases "s = t")
    case True
    with s less.prems have "em_settle m (set_phase t Holds m)" by (intro em_settle.grant behind_settled) auto
    moreover have "em_phase (set_phase t Holds m) t = Holds" using less.prems(2) by (simp add: set_phase_call)
    ultimately show ?thesis by blast
  next
    case False
    with s(1) less.prems(2) have lt: "s < t" "s < em_size m" by simp_all
    obtain m1 where m1: "em_settle\<^sup>*\<^sup>* m m1" "call_moved s Released m m1"
      using first_leaves [OF less.prems(1) lt(2) s(3,4)] by blast
    have a: "ahead m1 t = ahead m t - {s}" using m1(2) by (auto simp: ahead_def call_moved_def)
    have "s \<in> ahead m t" using lt s by (simp add: ahead_def)
    then have "card (ahead m1 t) < card (ahead m t)" unfolding a by (intro psubset_card_mono) auto
    from less.hyps [OF this chain_inv_settles [OF m1(1) less.prems(1)]] m1(2) less.prems lt
    obtain m' where "em_settle\<^sup>*\<^sup>* m1 m'" "em_phase m' t = Holds" by (auto simp: call_moved_def)
    with m1(1) show ?thesis by (meson rtranclp_trans)
  qed
qed

lemma reaches_bound: "(x::nat) \<le> n \<Longrightarrow> n \<le> x \<longleftrightarrow> x = n"
  by auto

section \<open>Properties\<close>

text \<open>
  C22. Whatever acquires, aborts and releases happen, in any order: one call at most holds a key, and it
  holds it only after every earlier acquire of the key has released or been unwound, so grants are in
  arrival order; a key reads as locked exactly while some call of it is unreleased.
\<close>

theorem execution_mutex_exclusive:
  assumes "em_reachable C m"
  shows "(\<forall>t<em_size m. em_phase m t = Holds \<longrightarrow>
        (\<forall>s<em_size m. em_key m s = em_key m t \<longrightarrow> (s < t \<longrightarrow> em_phase m s = Released) \<and> (em_phase m s = Holds \<longrightarrow> s = t)))
    \<and> (\<forall>k. isLocked m k \<longleftrightarrow> (\<exists>t<em_size m. em_key m t = k \<and> em_phase m t \<noteq> Released))"
proof (intro conjI allI impI)
  note inv = chain_inv_reachable [OF assms]
  fix t s assume t: "t < em_size m" "em_phase m t = Holds" and s: "s < em_size m" "em_key m s = em_key m t"
  show "em_phase m s = Released" if "s < t" using chain_invD(1) [OF inv t(1)] t(2) that s(2) behind_releasedD by blast
  show "s = t" if "em_phase m s = Holds"
  proof (rule ccontr)
    assume "s \<noteq> t"
    then consider "s < t" | "t < s" by linarith
    then show False
      by cases (use that t s behind_releasedD chain_invD(1) [OF inv t(1)] chain_invD(1) [OF inv s(1)] in force)+
  qed
next
  fix k
  have "tail_ok m k" using chain_inv_reachable [OF assms] by (simp add: chain_inv_def)
  then show "isLocked m k \<longleftrightarrow> (\<exists>t<em_size m. em_key m t = k \<and> em_phase m t \<noteq> Released)"
    by (auto simp: tail_ok_def isLocked_def split: option.splits)
qed

definition demo_mutex :: execution_mutex where
  "demo_mutex = enqueue_call ''l'' True (Some (lane_caps None))
     (new_mutex\<lparr>em_laneDepth := [(''l'', 1)], em_originDepth := [(''l|__no_origin__'', 1)]\<rparr>)"

lemma demo_mutex_reachable: "em_reachable lane_acquire demo_mutex"
proof (rule em_reachable.step [OF em_reachable.start])
  have "acquire ''l'' (Some False) (Some (lane_caps None)) new_mutex = Inr demo_mutex"
    by (simp add: acquire_def at_capacity_def new_mutex_def lane_caps_def EXECUTION_LANE_CAP_def EXECUTION_ORIGIN_CAP_def
        demo_mutex_def depth_up_def originDepthKey_def)
  moreover have "lane_acquire ''l'' (Some (lane_caps None))" by (auto simp: lane_acquire_def no_bar_def intro: exI [of _ None])
  ultimately show "em_step lane_acquire new_mutex demo_mutex" by (rule em_step.acquired [rotated])
qed

theorem execution_mutex_exclusive_witness: "isLocked demo_mutex ''l''"
  using execution_mutex_exclusive [OF demo_mutex_reachable]
  by (simp add: demo_mutex_def enqueue_call_def new_mutex_def)

text \<open>
  C33. No waiter is stranded, aborted neighbours included: from every reachable state, the settling of
  promises and the releases of the holders alone lead to a state in which a given waiter holds its key.
\<close>

theorem execution_mutex_progress:
  assumes "em_reachable C m" "t < em_size m" "em_phase m t = AwaitsPrior"
  shows "\<exists>m'. em_settle\<^sup>*\<^sup>* m m' \<and> em_phase m' t = Holds"
  by (rule waiter_served [OF chain_inv_reachable [OF assms(1)] assms(2,3)])

theorem execution_mutex_progress_witness: "\<exists>m'. em_settle\<^sup>*\<^sup>* demo_mutex m' \<and> em_phase m' 0 = Holds"
  using execution_mutex_progress [OF demo_mutex_reachable, of 0]
  by (simp add: demo_mutex_def enqueue_call_def new_mutex_def)

text \<open>
  The backpressure caps of the execution lane are exact: a lane never has more than 32 unreleased
  calls and an origin never more than 8 in a lane, and an acquire is refused for capacity exactly when its
  lane or its origin has reached the limit.
\<close>

theorem execution_mutex_caps:
  assumes "em_reachable lane_acquire m" "no_bar k" "signal \<noteq> Some True"
  shows "card (lane_calls m k) \<le> 32 \<and> card (origin_calls m k origin) \<le> 8
    \<and> (acquire k signal (Some (lane_caps originKey)) m = Inl (ExecutionMutexCapacityError k)
        \<longleftrightarrow> card (lane_calls m k) = 32 \<or> card (origin_calls m k (or_else originKey ''__no_origin__'')) = 8)"
proof -
  note w = within_caps_reachable [OF assms(1), unfolded within_caps_def EXECUTION_LANE_CAP_def EXECUTION_ORIGIN_CAP_def]
  have b: "card (lane_calls m k) \<le> 32" "card (origin_calls m k origin') \<le> 8" for origin' using w by simp_all
  have "at_capacity k (lane_caps originKey) m
      \<longleftrightarrow> card (lane_calls m k) \<ge> 32 \<or> card (origin_calls m k (or_else originKey ''__no_origin__'')) \<ge> 8"
    using at_capacity_exact [OF depth_inv_reachable [OF assms(1)] lane_made_reachable [OF assms(1)] assms(2), of "lane_caps originKey"]
    by (simp add: lane_caps_def EXECUTION_LANE_CAP_def EXECUTION_ORIGIN_CAP_def)
  then have "acquire k signal (Some (lane_caps originKey)) m = Inl (ExecutionMutexCapacityError k)
      \<longleftrightarrow> card (lane_calls m k) \<ge> 32 \<or> card (origin_calls m k (or_else originKey ''__no_origin__'')) \<ge> 8"
    using assms(3) by (simp add: acquire_def)
  moreover have "card (lane_calls m k) \<ge> 32 \<longleftrightarrow> card (lane_calls m k) = 32"
      "card (origin_calls m k (or_else originKey ''__no_origin__'')) \<ge> 8 \<longleftrightarrow> card (origin_calls m k (or_else originKey ''__no_origin__'')) = 8"
    by (rule reaches_bound, rule b)+
  ultimately show ?thesis using b by blast
qed

theorem execution_mutex_caps_witness: "card (lane_calls demo_mutex ''l'') \<le> 32 \<and> card (origin_calls demo_mutex ''l'' ''o'') \<le> 8"
  using execution_mutex_caps [OF demo_mutex_reachable, of "''l''" None "''o''"] by (simp add: no_bar_def)

end
