(* ===== verification/Canonical_Row.thy ===== *)
theory Canonical_Row
  imports Js_Value
begin

text \<open>
  The canonical encoding that session rows are signed over: \<^verbatim>\<open>dapp-session/integrity.ts\<close>,
  \<^verbatim>\<open>stableStringify\<close> and \<^verbatim>\<open>canonicalizeDappSession\<close>. Two JSON values have the same encoding exactly when
  they are the same value: objects with the same properties, whatever their order, arrays in order.
\<close>

section \<open>Sorted properties\<close>

text \<open>The order of \<^verbatim>\<open>Array.prototype.sort\<close> on strings: code unit by code unit.\<close>

fun text_le :: "string \<Rightarrow> string \<Rightarrow> bool" where
  "text_le [] t = True"
| "text_le (c # s) [] = False"
| "text_le (c # s) (d # t) = (code_of c < code_of d \<or> c = d \<and> text_le s t)"

fun insert_field :: "string \<times> 'a \<Rightarrow> (string \<times> 'a) list \<Rightarrow> (string \<times> 'a) list" where
  "insert_field f [] = [f]"
| "insert_field f (g # gs) = (if text_le (fst f) (fst g) then f # g # gs else g # insert_field f gs)"

definition sort_fields :: "(string \<times> 'a) list \<Rightarrow> (string \<times> 'a) list" where
  "sort_fields fs = foldr insert_field fs []"

lemma set_insert_field [simp]: "set (insert_field f gs) = insert f (set gs)"
  by (induction gs) auto

lemma set_sort_fields [simp]: "set (sort_fields fs) = set fs"
  by (induction fs) (auto simp: sort_fields_def)

section \<open>Encoding\<close>

text \<open>\<^verbatim>\<open>Number.isFinite\<close> on the printed text of a number.\<close>

definition finite_text :: "string \<Rightarrow> bool" where
  "finite_text s \<longleftrightarrow> s \<noteq> ''NaN'' \<and> s \<noteq> ''Infinity'' \<and> s \<noteq> ''-Infinity''"

definition defined_fields :: "(string \<times> wire) list \<Rightarrow> (string \<times> wire) list" where
  "defined_fields fs = filter (\<lambda>(k, v). v \<noteq> WUndef) fs"

fun collect :: "'a option list \<Rightarrow> 'a list option" where
  "collect [] = Some []"
| "collect (x # xs) = (case x of None \<Rightarrow> None | Some y \<Rightarrow> map_option ((#) y) (collect xs))"

text \<open>
  \<^term>\<open>None\<close> is the exception on a number that is not finite. An undefined element of an array joins as
  the empty text, and an undefined value at the top encodes to no bytes.
\<close>

function stableStringify :: "wire \<Rightarrow> string option" where
  "stableStringify WUndef = Some []"
| "stableStringify WNull = Some ''null''"
| "stableStringify (WBool b) = Some (if b then ''true'' else ''false'')"
| "stableStringify (WNum s) = (if finite_text s then Some s else None)"
| "stableStringify (WStr s) = Some (json_string s)"
| "stableStringify (WArr vs) = map_option json_array (collect (map stableStringify vs))"
| "stableStringify (WObj fs) =
     map_option (\<lambda>parts. CHR ''{'' # json_join parts @ ''}'')
       (collect (map (\<lambda>(k, v). map_option (\<lambda>t. json_string k @ CHR '':'' # t) (stableStringify v)) (sort_fields (defined_fields fs))))"
  by pat_completeness auto
termination
proof (relation "measure size")
  fix fs :: "(string \<times> wire) list" and f k v
  assume "f \<in> set (sort_fields (defined_fields fs))" "(k, v) = f"
  then have "(k, v) \<in> set fs" by (auto simp: defined_fields_def)
  then have "size_prod (\<lambda>_. 0) size (k, v) < Suc (size_list (size_prod (\<lambda>_. 0) size) fs)"
    by (simp add: size_list_estimation' less_Suc_eq_le)
  then show "(v, WObj fs) \<in> measure size" by simp
qed (auto simp: less_Suc_eq_le size_list_estimation')

text \<open>\<^verbatim>\<open>TextEncoder\<close> on code units up to 255.\<close>

definition utf8_char :: "char \<Rightarrow> nat list" where
  "utf8_char c = (let n = code_of c in if n < 128 then [n] else [192 + n div 64, 128 + n mod 64])"

definition utf8 :: "string \<Rightarrow> nat list" where
  "utf8 s = concat (map utf8_char s)"

definition canonicalizeDappSession :: "wire \<Rightarrow> nat list option" where
  "canonicalizeDappSession row = map_option utf8 (stableStringify row)"

section \<open>Values\<close>

text \<open>A value as \<^verbatim>\<open>JSON.parse\<close> yields it, with properties that may have been set to undefined since.\<close>

definition num_char :: "char \<Rightarrow> bool" where
  "num_char c \<longleftrightarrow> c \<in> set ''0123456789+-.e''"

definition number_text :: "string \<Rightarrow> bool" where
  "number_text s \<longleftrightarrow> s \<noteq> [] \<and> list_all num_char s"

fun json_value :: "wire \<Rightarrow> bool" where
  "json_value WUndef = True"
| "json_value WNull = True"
| "json_value (WBool b) = True"
| "json_value (WNum s) = number_text s"
| "json_value (WStr s) = True"
| "json_value (WArr vs) = (list_all json_value vs \<and> WUndef \<notin> set vs)"
| "json_value (WObj fs) = (list_all (\<lambda>(k, v). json_value v) fs \<and> distinct (map fst fs))"

definition field :: "(string \<times> wire) list \<Rightarrow> string \<Rightarrow> wire" where
  "field fs k = (case map_of fs k of None \<Rightarrow> WUndef | Some v \<Rightarrow> v)"

inductive same_value :: "wire \<Rightarrow> wire \<Rightarrow> bool" where
  atom: "same_value v v"
| array: "list_all2 same_value vs ws \<Longrightarrow> same_value (WArr vs) (WArr ws)"
| object: "(\<forall>k. same_value (field fs k) (field gs k)) \<Longrightarrow> same_value (WObj fs) (WObj gs)"

section \<open>Sorting is canonical\<close>

lemma text_le_refl [simp]: "text_le s s"
  by (induction s) auto

lemma text_le_antisym: "text_le s t \<Longrightarrow> text_le t s \<Longrightarrow> s = t"
  by (induction s t rule: text_le.induct) (auto elim: text_le.elims)

lemma text_le_total: "text_le s t \<or> text_le t s"
proof (induction s t rule: text_le.induct)
  case (3 c s d t)
  then show ?case by (cases "code_of c" "code_of d" rule: linorder_cases) (auto dest: arg_cong [where f = char_of])
qed simp_all

lemma text_le_trans: "text_le s t \<Longrightarrow> text_le t u \<Longrightarrow> text_le s u"
proof (induction s t arbitrary: u rule: text_le.induct)
  case (3 c s d t)
  then show ?case by (cases u) auto
qed simp_all

definition before :: "string \<times> 'a \<Rightarrow> string \<times> 'b \<Rightarrow> bool" where
  "before f g \<longleftrightarrow> text_le (fst f) (fst g)"

lemma sorted_insert_field: "sorted_wrt before gs \<Longrightarrow> sorted_wrt before (insert_field f gs)"
proof (induction gs)
  case (Cons g gs)
  then show ?case
    using text_le_trans [of "fst f" "fst g"] text_le_total [of "fst f" "fst g"] by (auto simp: before_def)
qed simp

lemma sorted_sort_fields: "sorted_wrt before (sort_fields fs)"
  by (induction fs) (simp_all add: sort_fields_def sorted_insert_field)

lemma distinct_insert_field: "distinct (map fst (insert_field f gs)) \<longleftrightarrow> distinct (map fst (f # gs))"
  by (induction gs) auto

lemma distinct_sort_fields: "distinct (map fst (sort_fields fs)) \<longleftrightarrow> distinct (map fst fs)"
proof (induction fs)
  case (Cons f fs)
  have "fst ` set (sort_fields fs) = fst ` set fs" by simp
  with Cons show ?case by (simp add: sort_fields_def distinct_insert_field)
qed (simp add: sort_fields_def)

lemma sorted_keys_unique:
  "sorted_wrt text_le ks \<Longrightarrow> sorted_wrt text_le ls \<Longrightarrow> distinct ks \<Longrightarrow> distinct ls \<Longrightarrow> set ks = set ls \<Longrightarrow> ks = ls"
proof (induction ks arbitrary: ls)
  case (Cons k ks)
  from Cons.prems(5) obtain l ls' where ls: "ls = l # ls'" by (cases ls) auto
  have "k = l"
  proof (rule ccontr)
    assume "k \<noteq> l"
    with Cons.prems(5) ls have "k \<in> set ls'" "l \<in> set ks" by (metis insert_iff list.set(2) list.set_intros(1) set_ConsD)+
    with Cons.prems(1,2) ls text_le_antisym \<open>k \<noteq> l\<close> show False by auto
  qed
  moreover have "set ks = set ls'" using Cons.prems(3-5) ls \<open>k = l\<close> by (simp add: insert_ident)
  ultimately show ?case using Cons ls by simp
qed simp

lemma map_of_sort_fields: "distinct (map fst fs) \<Longrightarrow> map_of (sort_fields fs) k = map_of fs k"
  using map_of_inject_set [of "sort_fields fs" fs] by (simp add: distinct_sort_fields)

lemma defined_distinct: "distinct (map fst fs) \<Longrightarrow> distinct (map fst (defined_fields fs))"
  by (simp add: defined_fields_def distinct_map_filter)

lemma field_sorted:
  assumes "distinct (map fst fs)"
  shows "field (sort_fields (defined_fields fs)) k = field fs k"
proof -
  have "map_of (defined_fields fs) k = (case map_of fs k of Some v \<Rightarrow> if v = WUndef then None else Some v | None \<Rightarrow> None)"
    using js_get_filter [OF assms, of "\<lambda>(k, v). v \<noteq> WUndef" k] by (auto simp: defined_fields_def split: option.splits)
  then show ?thesis
    using map_of_sort_fields [OF defined_distinct [OF assms], of k] by (auto simp: field_def split: option.splits)
qed

section \<open>Unique readability\<close>

definition stops :: "string \<Rightarrow> bool" where
  "stops r \<longleftrightarrow> r = [] \<or> hd r \<in> set '',]}''"

lemma collect_Some: "collect xs = Some ys \<longleftrightarrow> xs = map Some ys"
  by (induction xs arbitrary: ys) (auto split: option.splits)

lemma json_join_Cons: "json_join (x # xs) = x @ concat (map ((#) CHR '','') xs)"
  by (induction xs arbitrary: x) simp_all

lemma stops_tail: "c \<in> set '']}'' \<Longrightarrow> stops (concat (map ((#) CHR '','') ps) @ c # r)"
  by (cases ps) (auto simp: stops_def)

definition reads :: "('a \<Rightarrow> string option) \<Rightarrow> ('a \<Rightarrow> 'a \<Rightarrow> bool) \<Rightarrow> 'a \<Rightarrow> 'a \<Rightarrow> bool" where
  "reads f P x y \<longleftrightarrow> (\<forall>s t r r'. f x = Some s \<longrightarrow> f y = Some t \<longrightarrow> s @ r = t @ r' \<longrightarrow> stops r \<longrightarrow> stops r' \<longrightarrow> P x y \<and> r = r')"

lemma readsD: "reads f P x y \<Longrightarrow> f x = Some s \<Longrightarrow> f y = Some t \<Longrightarrow> s @ r = t @ r' \<Longrightarrow> stops r \<Longrightarrow> stops r' \<Longrightarrow> P x y \<and> r = r'"
  by (simp add: reads_def)

lemma tail_read:
  assumes each: "\<forall>x\<in>set xs. \<forall>y\<in>set ys. reads f P x y"
    and "map f xs = map Some ps" "map f ys = map Some qs" "c \<in> set '']}''"
    and "concat (map ((#) CHR '','') ps) @ c # r = concat (map ((#) CHR '','') qs) @ c # r'"
  shows "list_all2 P xs ys \<and> r = r'"
  using assms
proof (induction xs arbitrary: ys ps qs)
  case Nil
  then have "qs = []" by (cases qs) auto
  with Nil show ?case by simp
next
  case (Cons x xs)
  from Cons.prems(2) obtain p ps' where ps: "ps = p # ps'" "f x = Some p" "map f xs = map Some ps'" by (cases ps) auto
  from Cons.prems(4,5) ps obtain q qs' where qs: "qs = q # qs'" by (cases qs) auto
  with Cons.prems(3) obtain y ys' where ys: "ys = y # ys'" "f y = Some q" "map f ys' = map Some qs'" by (cases ys) auto
  let ?r = "concat (map ((#) CHR '','') ps') @ c # r" and ?r' = "concat (map ((#) CHR '','') qs') @ c # r'"
  have "p @ ?r = q @ ?r'" using Cons.prems(5) ps qs by simp
  with Cons.prems(1) readsD [of f P x y p q ?r ?r'] ps(2) ys(2) stops_tail [OF Cons.prems(4)] ys
  have xy: "P x y" "?r = ?r'" by simp_all
  have "list_all2 P xs ys' \<and> r = r'"
    by (rule Cons.IH [OF _ ps(3) ys(3) Cons.prems(4) xy(2)]) (use Cons.prems(1) ys in simp)
  with xy ys show ?case by simp
qed

lemma join_read:
  assumes each: "\<forall>x\<in>set xs. \<forall>y\<in>set ys. reads f P x y"
    and start: "\<And>x s. x \<in> set xs \<union> set ys \<Longrightarrow> f x = Some s \<Longrightarrow> s \<noteq> [] \<and> hd s \<notin> set '']}''"
    and ps: "map f xs = map Some ps" and qs: "map f ys = map Some qs" and c: "c \<in> set '']}''"
    and eq: "json_join ps @ c # r = json_join qs @ c # r'"
  shows "list_all2 P xs ys \<and> r = r'"
proof (cases xs)
  case Nil
  have "ys = []"
  proof (cases ys)
    case (Cons y ys')
    with qs obtain q qs' where "qs = q # qs'" "f y = Some q" by (cases qs) auto
    with start [of y q] Cons Nil ps eq c show ?thesis by (cases q) (auto simp: json_join_Cons)
  qed
  with Nil ps qs eq show ?thesis by simp
next
  case (Cons x xs')
  with ps obtain p ps' where p: "ps = p # ps'" "f x = Some p" by (cases ps) auto
  have "ys \<noteq> []"
  proof
    assume "ys = []"
    with start [of x p] Cons p qs eq c show False by (cases p) (auto simp: json_join_Cons)
  qed
  then have "qs \<noteq> []" using qs by auto
  then have "concat (map ((#) CHR '','') ps) @ c # r = concat (map ((#) CHR '','') qs) @ c # r'"
    using eq p by (cases qs) (simp_all add: json_join_Cons)
  from tail_read [OF each ps qs c this] show ?thesis by blast
qed

text \<open>The first character of an encoding tells the kind of the value.\<close>

fun lead_ok :: "wire \<Rightarrow> char \<Rightarrow> bool" where
  "lead_ok WUndef c = False"
| "lead_ok WNull c = (c = CHR ''n'')"
| "lead_ok (WBool b) c = (c = (if b then CHR ''t'' else CHR ''f''))"
| "lead_ok (WNum s) c = num_char c"
| "lead_ok (WStr s) c = (c = CHR 0x22)"
| "lead_ok (WArr vs) c = (c = CHR ''['')"
| "lead_ok (WObj fs) c = (c = CHR ''{'')"

lemma not_num_char:
  "\<not> num_char CHR ''n''" "\<not> num_char CHR ''t''" "\<not> num_char CHR ''f''" "\<not> num_char CHR 0x22" "\<not> num_char CHR ''[''"
  "\<not> num_char CHR ''{''" "\<not> num_char CHR '',''" "\<not> num_char CHR '']''" "\<not> num_char CHR ''}''"
  by (simp_all add: num_char_def)

lemma stable_lead:
  assumes "stableStringify v = Some s" "json_value v" "v \<noteq> WUndef"
  shows "\<exists>c s'. s = c # s' \<and> lead_ok v c"
proof (cases v)
  case (WNum n)
  with assms show ?thesis by (cases n) (auto simp: number_text_def split: if_splits)
next
  case (WArr vs)
  with assms show ?thesis by (auto simp: json_array_def)
next
  case (WObj fs)
  with assms(1) show ?thesis by (simp only: stableStringify.simps) auto
qed (use assms in \<open>auto simp: json_string_def split: if_splits\<close>)

lemma lead_not_closing: "lead_ok v c \<Longrightarrow> c \<notin> set '',]}''"
  by (cases v) (auto simp: not_num_char split: if_splits)

lemma same_lead:
  assumes "stableStringify v = Some s" "json_value v" "v \<noteq> WUndef" "stableStringify w = Some t" "json_value w" "w \<noteq> WUndef"
    and "s @ r = t @ r'"
  shows "\<exists>c. lead_ok v c \<and> lead_ok w c"
  using stable_lead [OF assms(1-3)] stable_lead [OF assms(4-6)] assms(7) by auto

lemma number_read:
  assumes "number_text s" "number_text t" "s @ r = t @ r'" "stops r" "stops r'"
  shows "s = t \<and> r = r'"
proof -
  have "takeWhile num_char (s @ r) = s" if "number_text s" "stops r" for s r
  proof -
    from that(2) have "takeWhile num_char r = []" by (cases r) (auto simp: stops_def not_num_char)
    with that(1) show ?thesis by (simp add: number_text_def list_all_iff takeWhile_append)
  qed
  with assms have "s = t" by metis
  with assms(3) show ?thesis by simp
qed

definition field_text :: "string \<times> wire \<Rightarrow> string option" where
  "field_text = (\<lambda>(k, v). map_option (\<lambda>t. json_string k @ CHR '':'' # t) (stableStringify v))"

definition same_field :: "string \<times> wire \<Rightarrow> string \<times> wire \<Rightarrow> bool" where
  "same_field f g \<longleftrightarrow> fst f = fst g \<and> same_value (snd f) (snd g)"

lemma stable_WObj:
  "stableStringify (WObj fs) = Some s \<longleftrightarrow>
     (\<exists>ps. map field_text (sort_fields (defined_fields fs)) = map Some ps \<and> s = CHR ''{'' # json_join ps @ ''}'')"
  by (auto simp: field_text_def collect_Some)

lemma stable_WArr: "stableStringify (WArr vs) = Some s \<longleftrightarrow> (\<exists>ps. map stableStringify vs = map Some ps \<and> s = json_array ps)"
  by (auto simp: collect_Some)

lemma field_reads:
  assumes "reads stableStringify same_value v w"
  shows "reads field_text same_field (k, v) (l, w)"
  unfolding reads_def
proof (intro allI impI)
  fix s t r r'
  assume "field_text (k, v) = Some s" "field_text (l, w) = Some t" and eq: "s @ r = t @ r'" and st: "stops r" "stops r'"
  then obtain a b where ab: "stableStringify v = Some a" "stableStringify w = Some b"
      "s = json_string k @ CHR '':'' # a" "t = json_string l @ CHR '':'' # b"
    by (auto simp: field_text_def)
  with eq have "json_string k @ CHR '':'' # a @ r = json_string l @ CHR '':'' # b @ r'" by simp
  from json_string_append_inj [OF this] have "k = l" "a @ r = b @ r'" by simp_all
  with readsD [OF assms ab(1,2) _ st] show "same_field (k, v) (l, w) \<and> r = r'" by (simp add: same_field_def)
qed

lemma sorted_member:
  "(k, v) \<in> set (sort_fields (defined_fields fs)) \<Longrightarrow> json_value (WObj fs) \<Longrightarrow> (k, v) \<in> set fs \<and> json_value v \<and> v \<noteq> WUndef"
  by (auto simp: defined_fields_def list_all_iff)

lemma same_fields_object:
  assumes "list_all2 same_field (sort_fields (defined_fields fs)) (sort_fields (defined_fields gs))"
    "distinct (map fst fs)" "distinct (map fst gs)"
  shows "same_value (WObj fs) (WObj gs)"
proof (rule same_value.object, rule allI)
  fix k
  have "list_all2 same_field xs ys \<Longrightarrow> same_value (field xs k) (field ys k)" for xs ys
    by (induction xs ys rule: list_all2_induct) (auto simp: field_def same_field_def intro: same_value.atom)
  from this [OF assms(1)] show "same_value (field fs k) (field gs k)" using assms(2,3) by (simp add: field_sorted)
qed

lemma array_reads:
  assumes "\<forall>x\<in>set vs. \<forall>y\<in>set ws. reads stableStringify same_value x y" "json_value (WArr vs)" "json_value (WArr ws)"
  shows "reads stableStringify same_value (WArr vs) (WArr ws)"
  unfolding reads_def
proof (intro allI impI)
  fix s t r r'
  assume "stableStringify (WArr vs) = Some s" "stableStringify (WArr ws) = Some t" "s @ r = t @ r'"
  then obtain ps qs where p: "map stableStringify vs = map Some ps" "map stableStringify ws = map Some qs"
      "json_join ps @ CHR '']'' # r = json_join qs @ CHR '']'' # r'"
    unfolding stable_WArr by (auto simp: json_array_def)
  have "s \<noteq> [] \<and> hd s \<notin> set '']}''" if "x \<in> set vs \<union> set ws" "stableStringify x = Some s" for x s
  proof -
    have "json_value x" "x \<noteq> WUndef" using that(1) assms(2,3) by (auto simp: list_all_iff)
    from stable_lead [OF that(2) this] lead_not_closing show ?thesis by fastforce
  qed
  from join_read [OF assms(1) this p(1,2) _ p(3)] show "same_value (WArr vs) (WArr ws) \<and> r = r'"
    by (auto intro: same_value.array)
qed

lemma object_reads:
  assumes "\<forall>x\<in>set (sort_fields (defined_fields fs)). \<forall>y\<in>set (sort_fields (defined_fields gs)). reads field_text same_field x y"
    "json_value (WObj fs)" "json_value (WObj gs)"
  shows "reads stableStringify same_value (WObj fs) (WObj gs)"
  unfolding reads_def
proof (intro allI impI)
  fix s t r r'
  assume "stableStringify (WObj fs) = Some s" "stableStringify (WObj gs) = Some t" "s @ r = t @ r'"
  then obtain ps qs where p: "map field_text (sort_fields (defined_fields fs)) = map Some ps"
      "map field_text (sort_fields (defined_fields gs)) = map Some qs" "json_join ps @ CHR ''}'' # r = json_join qs @ CHR ''}'' # r'"
    unfolding stable_WObj by auto
  have "s \<noteq> [] \<and> hd s \<notin> set '']}''" if "field_text x = Some s" for x s
    using that by (cases x) (auto simp: field_text_def json_string_def)
  from join_read [OF assms(1) this p(1,2) _ p(3)] assms(2,3) show "same_value (WObj fs) (WObj gs) \<and> r = r'"
    using same_fields_object by auto
qed

lemma lead_kind:
  assumes "lead_ok v c" "lead_ok w c"
  shows "(\<exists>s t. v = WNum s \<and> w = WNum t) \<or> (\<exists>s t. v = WStr s \<and> w = WStr t) \<or> (\<exists>vs ws. v = WArr vs \<and> w = WArr ws)
    \<or> (\<exists>fs gs. v = WObj fs \<and> w = WObj gs) \<or> (v = w \<and> (v = WNull \<or> (\<exists>b. v = WBool b)))"
  using assms by (cases v; cases w) (auto simp: not_num_char split: if_splits)

lemma size_element: "x \<in> set vs \<Longrightarrow> size x < size (WArr vs)"
  by (simp add: less_Suc_eq_le size_list_estimation')

lemma size_field: "(k, v) \<in> set fs \<Longrightarrow> size v < size (WObj fs)"
proof -
  assume "(k, v) \<in> set fs"
  then have "size_prod (\<lambda>_. 0) size (k, v) < Suc (size_list (size_prod (\<lambda>_. 0) size) fs)"
    by (simp add: size_list_estimation' less_Suc_eq_le)
  then show ?thesis by simp
qed

lemma stable_reads:
  "json_value v \<Longrightarrow> v \<noteq> WUndef \<Longrightarrow> json_value w \<Longrightarrow> w \<noteq> WUndef \<Longrightarrow> reads stableStringify same_value v w"
proof (induction v arbitrary: w rule: measure_induct_rule [of size])
  case (less v)
  have "same_value v w \<and> r = r'"
    if st: "stableStringify v = Some s" "stableStringify w = Some t" and eq: "s @ r = t @ r'" and stop: "stops r" "stops r'" for s t r r'
  proof -
    obtain c where "lead_ok v c" "lead_ok w c" using same_lead [OF st(1) less.prems(1,2) st(2) less.prems(3,4) eq] by blast
    from lead_kind [OF this] show ?thesis
    proof (elim disjE exE conjE)
      fix a b assume "v = WNum a" "w = WNum b"
      with less.prems st number_read [OF _ _ eq stop] show ?thesis by (auto split: if_splits intro: same_value.atom)
    next
      fix a b assume "v = WStr a" "w = WStr b"
      with st eq json_string_append_inj [of a r b r'] show ?thesis by (auto intro: same_value.atom)
    next
      fix vs ws assume vw: "v = WArr vs" "w = WArr ws"
      have "\<forall>x\<in>set vs. \<forall>y\<in>set ws. reads stableStringify same_value x y"
      proof (intro ballI)
        fix x y assume xy: "x \<in> set vs" "y \<in> set ws"
        have "json_value x" "x \<noteq> WUndef" "json_value y" "y \<noteq> WUndef"
          using less.prems xy unfolding vw by (auto simp: list_all_iff)
        then show "reads stableStringify same_value x y"
          by (rule less.IH [rotated]) (use size_element [OF xy(1)] vw in simp)
      qed
      from array_reads [OF this] less.prems have "reads stableStringify same_value v w" unfolding vw by blast
      from readsD [OF this st eq stop] show ?thesis .
    next
      fix fs gs assume vw: "v = WObj fs" "w = WObj gs"
      have "reads field_text same_field x y" if "x \<in> set (sort_fields (defined_fields fs))" "y \<in> set (sort_fields (defined_fields gs))" for x y
      proof -
        obtain k a l b where xy: "x = (k, a)" "y = (l, b)" by (cases x, cases y)
        from sorted_member [of k a fs] sorted_member [of l b gs] that less.prems
        have m: "(k, a) \<in> set fs" "json_value a" "a \<noteq> WUndef" "json_value b" "b \<noteq> WUndef" unfolding xy vw by blast+
        show ?thesis unfolding xy
          by (rule field_reads, rule less.IH) (use size_field [OF m(1)] m vw in simp_all)
      qed
      then have "\<forall>x\<in>set (sort_fields (defined_fields fs)). \<forall>y\<in>set (sort_fields (defined_fields gs)). reads field_text same_field x y"
        by blast
      from object_reads [OF this] less.prems have "reads stableStringify same_value v w" unfolding vw by blast
      from readsD [OF this st eq stop] show ?thesis .
    next
      assume "v = w"
      with st eq show ?thesis by (auto intro: same_value.atom)
    next
      fix b assume "v = w"
      with st eq show ?thesis by (auto intro: same_value.atom)
    qed
  qed
  then show ?case unfolding reads_def by blast
qed

section \<open>Equal values have equal encodings\<close>

inductive_cases same_value_WUndefE: "same_value WUndef w"
inductive_cases same_value_to_WUndefE: "same_value v WUndef"

lemma same_value_undef: "same_value v w \<Longrightarrow> v = WUndef \<longleftrightarrow> w = WUndef"
  by (auto elim: same_value_WUndefE same_value_to_WUndefE)

lemma defined_keys: "distinct (map fst fs) \<Longrightarrow> set (map fst (sort_fields (defined_fields fs))) = {k. field fs k \<noteq> WUndef}"
proof -
  assume d: "distinct (map fst fs)"
  let ?gs = "sort_fields (defined_fields fs)"
  have "k \<in> set (map fst ?gs) \<longleftrightarrow> field fs k \<noteq> WUndef" for k
  proof -
    have "WUndef \<notin> snd ` set ?gs" by (auto simp: defined_fields_def)
    then have "field ?gs k \<noteq> WUndef \<longleftrightarrow> map_of ?gs k \<noteq> None"
      by (auto simp: field_def split: option.splits dest!: map_of_SomeD) (metis image_eqI snd_conv)
    then show ?thesis using field_sorted [OF d, of k] by (simp only: js_has_iff_key)
  qed
  then show ?thesis by blast
qed

lemma sorted_field_list:
  assumes "distinct (map fst fs)"
  shows "sort_fields (defined_fields fs) = map (\<lambda>k. (k, field fs k)) (map fst (sort_fields (defined_fields fs)))"
proof -
  let ?gs = "sort_fields (defined_fields fs)"
  have d: "distinct (map fst ?gs)" using assms by (simp add: distinct_sort_fields defined_distinct)
  have "g = (fst g, field fs (fst g))" if "g \<in> set ?gs" for g
  proof -
    from that d have "map_of ?gs (fst g) = Some (snd g)" by (simp add: map_of_eq_Some_iff)
    then have "field ?gs (fst g) = snd g" by (simp add: field_def)
    then show ?thesis using field_sorted [OF assms, of "fst g"] by simp
  qed
  then have "map (\<lambda>g. (fst g, field fs (fst g))) ?gs = ?gs" by (intro map_idI) metis
  then show ?thesis by (simp add: o_def)
qed

lemma json_field: "json_value (WObj fs) \<Longrightarrow> json_value (field fs k)"
  by (auto simp: field_def list_all_iff dest: map_of_SomeD split: option.splits)

lemma same_encoding: "same_value v w \<Longrightarrow> json_value v \<Longrightarrow> json_value w \<Longrightarrow> stableStringify v = stableStringify w"
proof (induction rule: same_value.induct)
  case (array vs ws)
  then have "map stableStringify vs = map stableStringify ws"
    by (induction vs ws rule: list_all2_induct) auto
  then show ?case by simp
next
  case (object fs gs)
  have d: "distinct (map fst fs)" "distinct (map fst gs)" using object.prems by simp_all
  let ?ks = "map fst (sort_fields (defined_fields fs))" and ?ls = "map fst (sort_fields (defined_fields gs))"
  have "field fs k \<noteq> WUndef \<longleftrightarrow> field gs k \<noteq> WUndef" for k using object.IH same_value_undef by blast
  then have "set ?ks = set ?ls" using d by (simp only: defined_keys)
  moreover have "sorted_wrt text_le ?ks" "sorted_wrt text_le ?ls"
    using sorted_sort_fields by (simp_all add: sorted_wrt_map before_def [abs_def])
  ultimately have keys: "?ks = ?ls" using sorted_keys_unique d by (simp add: distinct_sort_fields defined_distinct)
  have "field_text (k, field fs k) = field_text (k, field gs k)" for k
    using object json_field by (simp add: field_text_def)
  then have "map field_text (sort_fields (defined_fields fs)) = map field_text (sort_fields (defined_fields gs))"
    by (subst sorted_field_list [OF d(1)], subst sorted_field_list [OF d(2)]) (simp add: keys o_def)
  then show ?case by (simp add: field_text_def)
qed simp

lemma encoding_exact:
  assumes "json_value v" "json_value w" "stableStringify v = Some s" "stableStringify w = Some t"
  shows "s = t \<longleftrightarrow> same_value v w"
proof
  assume "same_value v w"
  from same_encoding [OF this assms(1,2)] assms(3,4) show "s = t" by simp
next
  assume "s = t"
  show "same_value v w"
  proof (cases "v = WUndef \<or> w = WUndef")
    case True
    with stable_lead assms \<open>s = t\<close> have "v = w" by fastforce
    then show ?thesis by (simp add: same_value.atom)
  next
    case False
    with readsD [OF stable_reads assms(3,4), of "[]" "[]"] assms(1,2) \<open>s = t\<close> show ?thesis by (simp add: stops_def)
  qed
qed

section \<open>Bytes\<close>

lemma utf8_char_inj:
  assumes "utf8_char c @ r = utf8_char d @ r'"
  shows "c = d \<and> r = r'"
proof -
  have "code_of c < 256" "code_of d < 256" by (simp_all add: code_of_def)
  with assms have "code_of c = code_of d \<and> r = r'"
    by (auto simp: utf8_char_def Let_def split: if_splits) (metis div_mult_mod_eq)+
  then show ?thesis using char_of_code_of by metis
qed

lemma utf8_inject [simp]: "utf8 s = utf8 t \<longleftrightarrow> s = t"
proof (induction s arbitrary: t)
  case Nil
  show ?case by (cases t) (auto simp: utf8_def utf8_char_def Let_def)
next
  case (Cons c s)
  show ?case
  proof (cases t)
    case (Cons d u)
    with Cons.IH utf8_char_inj [of c "utf8 s" d "utf8 u"] show ?thesis by (auto simp: utf8_def)
  qed (auto simp: utf8_def utf8_char_def Let_def)
qed

end
