(* ===== verification/Session_Store.thy ===== *)
theory Session_Store
  imports Canonical_Row Entity_Storage
begin

text \<open>
  The integrity layer of the dApp session rows: \<^verbatim>\<open>signDappSession\<close> and \<^verbatim>\<open>verifyDappSession\<close> of
  \<^verbatim>\<open>dapp-session/integrity.ts\<close> and the wrapper of \<^verbatim>\<open>dapp-session/mac-storage.ts\<close> over an entity storage.
  Rows are JSON objects; the schema codec, the platform's HMAC and base64 and the key provider are
  parameters. A key that cannot be derived (locked profile) is \<^term>\<open>None\<close>.
\<close>

section \<open>Rows\<close>

definition obj_fields :: "wire \<Rightarrow> (string \<times> wire) list" where
  "obj_fields v = (case v of WObj fs \<Rightarrow> fs | _ \<Rightarrow> [])"

text \<open>\<^verbatim>\<open>const { mac, ...signable } = row\<close> and \<^verbatim>\<open>{ ...signable, mac }\<close>.\<close>

definition signable_of :: "wire \<Rightarrow> wire" where
  "signable_of row = WObj (filter (\<lambda>(k, v). k \<noteq> ''mac'') (obj_fields row))"

definition with_mac :: "wire \<Rightarrow> string \<Rightarrow> wire" where
  "with_mac signable mac = WObj (obj_fields signable @ [(''mac'', WStr mac)])"

text \<open>A property the schema makes a string.\<close>

definition text_field :: "wire \<Rightarrow> string \<Rightarrow> string" where
  "text_field row k = (case opt_get row k of WStr s \<Rightarrow> s | _ \<Rightarrow> [])"

section \<open>Signing\<close>

record 'k row_crypto =
  rc_sign :: "'k \<Rightarrow> nat list \<Rightarrow> nat list"
  rc_verify :: "'k \<Rightarrow> nat list \<Rightarrow> nat list \<Rightarrow> bool"
  rc_toBase64 :: "nat list \<Rightarrow> string"
  rc_fromBase64 :: "string \<Rightarrow> nat list"

definition signDappSession :: "'k row_crypto \<Rightarrow> 'k \<Rightarrow> wire \<Rightarrow> string option" where
  "signDappSession C key row = map_option (\<lambda>d. rc_toBase64 C (rc_sign C key d)) (canonicalizeDappSession row)"

definition verifyDappSession :: "'k row_crypto \<Rightarrow> 'k \<Rightarrow> wire \<Rightarrow> string \<Rightarrow> bool" where
  "verifyDappSession C key row mac =
     (let macBytes = rc_fromBase64 C mac
      in macBytes \<noteq> [] \<and> (case canonicalizeDappSession row of None \<Rightarrow> False | Some d \<Rightarrow> rc_verify C key macBytes d))"

section \<open>The wrapped store\<close>

record 'k mac_store =
  ms_crypto :: "'k row_crypto"
  ms_codec :: "wire \<Rightarrow> wire option"

definition ms_inner :: "'k mac_store \<Rightarrow> wire entity_storage" where
  "ms_inner M = plain_storage ''nulo:core:dappSessions'' (ms_codec M)"

type_synonym 'k key_provider = "string \<Rightarrow> 'k option"

datatype mac_error = KeyUnavailable | NotCanonical

definition ms_set :: "'k mac_store \<Rightarrow> 'k key_provider \<Rightarrow> string \<Rightarrow> wire \<Rightarrow> wire area \<Rightarrow> mac_error + wire area" where
  "ms_set M keyFor i session a =
     (case keyFor (text_field session ''profileId'') of
        None \<Rightarrow> Inl KeyUnavailable
      | Some key \<Rightarrow>
          let signable = signable_of session
          in case signDappSession (ms_crypto M) key signable of
               None \<Rightarrow> Inl NotCanonical
             | Some mac \<Rightarrow> Inr (es_set (ms_inner M) i (with_mac signable mac) a))"

definition drop_row :: "'k mac_store \<Rightarrow> wire \<Rightarrow> wire area \<Rightarrow> wire area" where
  "drop_row M row a = es_delete (ms_inner M) (text_field row ''id'') a"

definition verifyOrDrop :: "'k mac_store \<Rightarrow> 'k key_provider \<Rightarrow> wire \<Rightarrow> wire area \<Rightarrow> wire option \<times> wire area" where
  "verifyOrDrop M keyFor row a =
     (if falsy (opt_get row ''mac'') then (None, drop_row M row a)
      else case keyFor (text_field row ''profileId'') of
             None \<Rightarrow> (None, a)
           | Some key \<Rightarrow>
               if verifyDappSession (ms_crypto M) key (signable_of row) (text_field row ''mac'') then (Some row, a)
               else (None, drop_row M row a))"

definition ms_get :: "'k mac_store \<Rightarrow> 'k key_provider \<Rightarrow> string \<Rightarrow> wire area \<Rightarrow> wire option \<times> wire area" where
  "ms_get M keyFor i a = (case ps_get (ms_inner M) a i of None \<Rightarrow> (None, a) | Some row \<Rightarrow> verifyOrDrop M keyFor row a)"

fun verify_rows :: "'k mac_store \<Rightarrow> 'k key_provider \<Rightarrow> wire list \<Rightarrow> wire area \<Rightarrow> wire list \<times> wire area" where
  "verify_rows M keyFor [] a = ([], a)"
| "verify_rows M keyFor (row # rows) a =
     (let (r, a') = verifyOrDrop M keyFor row a; (out, a'') = verify_rows M keyFor rows a'
      in (case r of None \<Rightarrow> out | Some v \<Rightarrow> v # out, a''))"

definition ms_getValues :: "'k mac_store \<Rightarrow> 'k key_provider \<Rightarrow> wire area \<Rightarrow> wire list \<times> wire area" where
  "ms_getValues M keyFor a = verify_rows M keyFor (map snd (ps_rows (ms_inner M) a)) a"

definition ms_contains :: "'k mac_store \<Rightarrow> 'k key_provider \<Rightarrow> string \<Rightarrow> wire area \<Rightarrow> bool \<times> wire area" where
  "ms_contains M keyFor i a = (case ms_get M keyFor i a of (r, a') \<Rightarrow> (r \<noteq> None, a'))"

definition ms_delete :: "'k mac_store \<Rightarrow> string \<Rightarrow> wire area \<Rightarrow> wire area" where
  "ms_delete M i a = es_delete (ms_inner M) i a"

definition rowsForProfile :: "'k mac_store \<Rightarrow> string \<Rightarrow> wire area \<Rightarrow> (string \<times> wire) list" where
  "rowsForProfile M profileId a =
     filter (\<lambda>(i, r). is_object r \<and> opt_get r ''profileId'' = WStr profileId) (es_rawEntries (ms_inner M) a)"

section \<open>Histories\<close>

text \<open>
  The wallet's calls interleaved with a storage that anybody may rewrite. \<open>hs_signed\<close> collects what the
  wallet signed. A rewritten storage may hold any rows under any keys; what it cannot hold is a tag that verifies, under
  the key of some profile, for bytes the wallet never signed.
\<close>

record history =
  hs_area :: "wire area"
  hs_signed :: "wire list"

definition signed_bytes :: "wire list \<Rightarrow> nat list \<Rightarrow> bool" where
  "signed_bytes log d \<longleftrightarrow> (\<exists>s\<in>set log. canonicalizeDappSession s = Some d)"

definition tag_ok :: "'k row_crypto \<Rightarrow> (string \<Rightarrow> 'k) \<Rightarrow> wire list \<Rightarrow> string \<Rightarrow> bool" where
  "tag_ok C keyOf log tag \<longleftrightarrow> (\<forall>p d. rc_verify C (keyOf p) (rc_fromBase64 C tag) d \<longrightarrow> signed_bytes log d)"

definition no_forgery :: "'k mac_store \<Rightarrow> (string \<Rightarrow> 'k) \<Rightarrow> wire list \<Rightarrow> wire area \<Rightarrow> bool" where
  "no_forgery M keyOf log a \<longleftrightarrow> distinct (js_keys a) \<and>
     (\<forall>i row. ps_get (ms_inner M) a i = Some row \<longrightarrow> tag_ok (ms_crypto M) keyOf log (text_field row ''mac''))"

definition keys_of :: "(string \<Rightarrow> 'k) \<Rightarrow> 'k key_provider \<Rightarrow> bool" where
  "keys_of keyOf keyFor \<longleftrightarrow> (\<forall>p key. keyFor p = Some key \<longrightarrow> key = keyOf p)"

inductive hs_step :: "'k mac_store \<Rightarrow> (string \<Rightarrow> 'k) \<Rightarrow> history \<Rightarrow> history \<Rightarrow> bool" for M keyOf where
  stored: "keys_of keyOf keyFor \<Longrightarrow> json_value session \<Longrightarrow> ms_set M keyFor i session (hs_area h) = Inr a
    \<Longrightarrow> hs_step M keyOf h \<lparr>hs_area = a, hs_signed = hs_signed h @ [signable_of session]\<rparr>"
| fetched: "ms_get M keyFor i (hs_area h) = (r, a) \<Longrightarrow> hs_step M keyOf h (h\<lparr>hs_area := a\<rparr>)"
| listed: "ms_getValues M keyFor (hs_area h) = (rs, a) \<Longrightarrow> hs_step M keyOf h (h\<lparr>hs_area := a\<rparr>)"
| removed: "hs_step M keyOf h (h\<lparr>hs_area := ms_delete M i (hs_area h)\<rparr>)"
| tampered: "no_forgery M keyOf (hs_signed h) a \<Longrightarrow> hs_step M keyOf h (h\<lparr>hs_area := a\<rparr>)"

inductive hs_reachable :: "'k mac_store \<Rightarrow> (string \<Rightarrow> 'k) \<Rightarrow> history \<Rightarrow> bool" for M keyOf where
  start: "hs_reachable M keyOf \<lparr>hs_area = [], hs_signed = []\<rparr>"
| step: "hs_reachable M keyOf h \<Longrightarrow> hs_step M keyOf h h' \<Longrightarrow> hs_reachable M keyOf h'"

text \<open>What the layer relies on: the platform's HMAC and base64, and a schema that keeps the tag of a row.\<close>

definition ideal_mac :: "'k row_crypto \<Rightarrow> bool" where
  "ideal_mac C \<longleftrightarrow> (\<forall>b. rc_fromBase64 C (rc_toBase64 C b) = b) \<and> (\<forall>k t d. rc_verify C k t d \<longleftrightarrow> t = rc_sign C k d)
     \<and> (\<forall>k d k' d'. rc_sign C k d = rc_sign C k' d' \<longrightarrow> d = d')"

definition keeps_tag :: "(wire \<Rightarrow> wire option) \<Rightarrow> bool" where
  "keeps_tag codec \<longleftrightarrow> (\<forall>w r. codec w = Some r \<longrightarrow> json_value r \<and> opt_get r ''mac'' = opt_get w ''mac'')"

section \<open>Authenticity\<close>

lemma json_signable: "json_value v \<Longrightarrow> json_value (signable_of v)"
  by (cases v) (auto simp: signable_of_def obj_fields_def list_all_iff distinct_map_filter)

lemma signable_no_mac: "opt_get (with_mac (signable_of v) mac) ''mac'' = WStr mac"
proof -
  have "map_of (filter (\<lambda>(k, v). k \<noteq> ''mac'') fs @ [(''mac'', WStr mac)]) ''mac'' = Some (WStr mac)" for fs
    by (induction fs) auto
  then show ?thesis by (simp add: with_mac_def signable_of_def obj_fields_def)
qed

lemma ps_get_set:
  "ps_get (ms_inner M) (es_set (ms_inner M) i row a) j = (if j = i then ms_codec M row else ps_get (ms_inner M) a j)"
  by (simp add: ms_inner_def ps_get_eq es_set_def js_get_set json_stringify_def)

lemma ps_get_delete: "ps_get (ms_inner M) (es_delete (ms_inner M) i a) j = (if j = i then None else ps_get (ms_inner M) a j)"
  by (simp add: ms_inner_def ps_get_eq es_delete_def js_get_del)

lemma no_forgery_shrink:
  "no_forgery M keyOf log a \<Longrightarrow> distinct (js_keys a') \<Longrightarrow> (\<And>i row. ps_get (ms_inner M) a' i = Some row \<Longrightarrow> ps_get (ms_inner M) a i = Some row)
     \<Longrightarrow> no_forgery M keyOf log a'"
  by (auto simp: no_forgery_def)

lemma no_forgery_delete: "no_forgery M keyOf log a \<Longrightarrow> no_forgery M keyOf log (es_delete (ms_inner M) i a)"
proof (rule no_forgery_shrink)
  assume "no_forgery M keyOf log a"
  then show "distinct (js_keys (es_delete (ms_inner M) i a))" by (simp add: no_forgery_def es_delete_def distinct_delete)
qed (simp_all add: ps_get_delete split: if_splits)

lemma tag_ok_mono: "tag_ok C keyOf log tag \<Longrightarrow> tag_ok C keyOf (log @ rest) tag"
  by (auto simp: tag_ok_def signed_bytes_def)

lemma no_forgery_verify: "no_forgery M keyOf log a \<Longrightarrow> verifyOrDrop M keyFor row a = (r, a') \<Longrightarrow> no_forgery M keyOf log a'"
  by (auto simp: verifyOrDrop_def drop_row_def no_forgery_delete split: if_splits option.splits)

lemma no_forgery_rows: "no_forgery M keyOf log a \<Longrightarrow> verify_rows M keyFor rows a = (out, a') \<Longrightarrow> no_forgery M keyOf log a'"
proof (induction rows arbitrary: a out a')
  case (Cons row rows)
  obtain r a1 where v: "verifyOrDrop M keyFor row a = (r, a1)" by force
  obtain out' a2 where w: "verify_rows M keyFor rows a1 = (out', a2)" by force
  from Cons.IH [OF no_forgery_verify [OF Cons.prems(1) v] w] Cons.prems(2) v w show ?case by simp
qed simp

lemma no_forgery_set:
  assumes laws: "ideal_mac (ms_crypto M)" "keeps_tag (ms_codec M)" and inv: "no_forgery M keyOf log a" and keys: "keys_of keyOf keyFor"
    and set: "ms_set M keyFor i session a = Inr a'"
  shows "no_forgery M keyOf (log @ [signable_of session]) a'"
proof -
  obtain key d where kd: "keyFor (text_field session ''profileId'') = Some key" "canonicalizeDappSession (signable_of session) = Some d"
      "a' = es_set (ms_inner M) i (with_mac (signable_of session) (rc_toBase64 (ms_crypto M) (rc_sign (ms_crypto M) key d))) a"
    using set by (auto simp: ms_set_def signDappSession_def Let_def split: option.splits)
  let ?tag = "rc_toBase64 (ms_crypto M) (rc_sign (ms_crypto M) key d)"
  have tag: "tag_ok (ms_crypto M) keyOf (log @ [signable_of session]) ?tag"
    using laws(1) kd(2) by (auto simp: tag_ok_def ideal_mac_def signed_bytes_def)
  have "tag_ok (ms_crypto M) keyOf (log @ [signable_of session]) (text_field row ''mac'')"
    if "ps_get (ms_inner M) a' j = Some row" for j row
  proof (cases "j = i")
    case True
    with that have "ms_codec M (with_mac (signable_of session) ?tag) = Some row" by (simp add: kd(3) ps_get_set)
    with laws(2) have "text_field row ''mac'' = ?tag" by (simp add: keeps_tag_def signable_no_mac text_field_def)
    with tag show ?thesis by simp
  next
    case False
    with that inv show ?thesis by (simp add: kd(3) ps_get_set no_forgery_def tag_ok_mono)
  qed
  moreover have "distinct (js_keys a')" using inv by (simp add: kd(3) no_forgery_def es_set_def distinct_update)
  ultimately show ?thesis by (simp add: no_forgery_def)
qed

lemma history_inv:
  assumes "hs_reachable M keyOf h" "ideal_mac (ms_crypto M)" "keeps_tag (ms_codec M)"
  shows "no_forgery M keyOf (hs_signed h) (hs_area h) \<and> list_all json_value (hs_signed h)"
  using assms(1)
proof induction
  case start
  show ?case by (simp add: no_forgery_def ms_inner_def ps_get_eq)
next
  case (step h h')
  from step(2) step.IH show ?case
  proof cases
    case (stored keyFor session i a)
    from step.IH no_forgery_set [OF assms(2,3) _ stored(2,4)] have "no_forgery M keyOf (hs_signed h @ [signable_of session]) a" by blast
    then show ?thesis using step.IH stored json_signable by simp
  next
    case (fetched keyFor i r a)
    then show ?thesis using step.IH no_forgery_verify by (auto simp: ms_get_def split: option.splits)
  next
    case (listed keyFor rs a)
    then show ?thesis using step.IH no_forgery_rows by (auto simp: ms_getValues_def)
  next
    case (removed i)
    then show ?thesis using step.IH by (simp add: ms_delete_def no_forgery_delete)
  qed simp
qed

lemma verified_row:
  assumes laws: "ideal_mac (ms_crypto M)" "keeps_tag (ms_codec M)" and h: "hs_reachable M keyOf h" and keys: "keys_of keyOf keyFor"
    and row: "ps_get (ms_inner M) (hs_area h) i = Some row" and v: "verifyOrDrop M keyFor row a = (Some r, a')"
  shows "r = row \<and> (\<exists>s\<in>set (hs_signed h). same_value (signable_of row) s)"
proof -
  note inv = history_inv [OF h laws]
  from v obtain key d where kd: "r = row" "keyFor (text_field row ''profileId'') = Some key"
      "canonicalizeDappSession (signable_of row) = Some d" "rc_verify (ms_crypto M) key (rc_fromBase64 (ms_crypto M) (text_field row ''mac'')) d"
    by (auto simp: verifyOrDrop_def verifyDappSession_def Let_def split: if_splits option.splits)
  have "key = keyOf (text_field row ''profileId'')" using keys kd(2) by (simp add: keys_of_def)
  with inv row kd(4) have "signed_bytes (hs_signed h) d" by (auto simp: no_forgery_def tag_ok_def)
  then obtain s where s: "s \<in> set (hs_signed h)" "canonicalizeDappSession s = Some d" by (auto simp: signed_bytes_def)
  obtain j where "ms_codec M j = Some row" using row by (auto simp: ms_inner_def ps_get_eq split: option.splits)
  then have "json_value (signable_of row)" using laws(2) json_signable by (auto simp: keeps_tag_def)
  moreover have "json_value s" using inv s(1) by (auto simp: list_all_iff)
  moreover obtain x y where "stableStringify (signable_of row) = Some x" "stableStringify s = Some y" "x = y"
    using kd(3) s(2) by (auto simp: canonicalizeDappSession_def)
  ultimately have "same_value (signable_of row) s" using encoding_exact by blast
  with s kd(1) show ?thesis by blast
qed

lemma verify_rows_member:
  "verify_rows M keyFor rows a = (out, a') \<Longrightarrow> r \<in> set out \<Longrightarrow> \<exists>row\<in>set rows. \<exists>b b'. verifyOrDrop M keyFor row b = (Some r, b')"
proof (induction rows arbitrary: a out a')
  case (Cons row rows)
  obtain x a1 where v: "verifyOrDrop M keyFor row a = (x, a1)" by force
  obtain out' a2 where w: "verify_rows M keyFor rows a1 = (out', a2)" by force
  from Cons.prems v w have "x = Some r \<or> r \<in> set out'" by (auto split: option.splits)
  then show ?case using v Cons.IH [OF w] by auto
qed simp

lemma ps_rows_get:
  assumes "distinct (js_keys a)" "row \<in> snd ` set (ps_rows (ms_inner M) a)"
  shows "\<exists>i. ps_get (ms_inner M) a i = Some row"
proof -
  obtain i where "(i, row) \<in> set (ps_rows (ms_inner M) a)" using assms(2) by force
  then have "es_get (\<lambda>_. IdOther) (ms_inner M) a i = Inr (Some row)"
    using es_getAll_get [OF assms(1) ps_rows_getAll, of "''nulo:core:dappSessions''" "ms_codec M"] by (simp add: ms_inner_def)
  then have "ps_get (ms_inner M) a i = Some row" by (simp add: ps_get_def)
  then show ?thesis by blast
qed

text \<open>
  C30. The canonical form that rows are signed over says everything about a row and nothing else: two JSON
  values have the same bytes exactly when they are the same value, whatever the order of their properties
  and whether an absent property is missing or undefined.
\<close>

theorem canonical_row_exact:
  assumes "json_value v" "json_value w" "canonicalizeDappSession v = Some a" "canonicalizeDappSession w = Some b"
  shows "a = b \<longleftrightarrow> same_value v w"
  using assms encoding_exact [OF assms(1,2)] by (auto simp: canonicalizeDappSession_def)

text \<open>
  C9. A session row is never believed unless the wallet wrote it: over any sequence of wallet calls and
  rewrites of the storage by others, whatever a lookup or a listing returns has, apart from its tag, exactly
  the contents of a row the wallet signed. The HMAC is taken as unforgeable, the schema as keeping the tag.
\<close>

theorem session_rows_authentic:
  assumes laws: "ideal_mac (ms_crypto M)" "keeps_tag (ms_codec M)" and h: "hs_reachable M keyOf h" and keys: "keys_of keyOf keyFor"
    and row: "fst (ms_get M keyFor i (hs_area h)) = Some row \<or> row \<in> set (fst (ms_getValues M keyFor (hs_area h)))"
  shows "\<exists>s\<in>set (hs_signed h). same_value (signable_of row) s"
  using row
proof
  assume "fst (ms_get M keyFor i (hs_area h)) = Some row"
  then obtain r a' where "ps_get (ms_inner M) (hs_area h) i = Some r" "verifyOrDrop M keyFor r (hs_area h) = (Some row, a')"
    by (cases "ps_get (ms_inner M) (hs_area h) i") (simp_all add: ms_get_def, metis prod.collapse)
  from verified_row [OF laws h keys this] show ?thesis by blast
next
  assume "row \<in> set (fst (ms_getValues M keyFor (hs_area h)))"
  moreover obtain out a' where vr: "verify_rows M keyFor (map snd (ps_rows (ms_inner M) (hs_area h))) (hs_area h) = (out, a')" by force
  ultimately have "row \<in> set out" by (simp add: ms_getValues_def)
  from verify_rows_member [OF vr this]
  obtain r b b' where r: "r \<in> snd ` set (ps_rows (ms_inner M) (hs_area h))" "verifyOrDrop M keyFor r b = (Some row, b')" by auto
  have "distinct (js_keys (hs_area h))" using history_inv [OF h laws] by (simp add: no_forgery_def)
  from ps_rows_get [OF this r(1)] verified_row [OF laws h keys _ r(2)] show ?thesis by blast
qed

lemma text_field_with_mac: "k \<noteq> ''mac'' \<Longrightarrow> text_field (with_mac (signable_of v) mac) k = text_field v k"
proof -
  assume k: "k \<noteq> ''mac''"
  have "map_of (filter (\<lambda>(k, v). k \<noteq> ''mac'') fs @ [(''mac'', WStr mac)]) k = map_of fs k" for fs :: "(string \<times> wire) list"
    using k by (induction fs) auto
  with k show ?thesis by (cases v) (auto simp: text_field_def with_mac_def signable_of_def obj_fields_def)
qed

lemma signable_with_mac [simp]: "signable_of (with_mac (signable_of v) mac) = signable_of v"
  by (simp add: signable_of_def with_mac_def obj_fields_def)

text \<open>What was written is read back.\<close>

lemma ms_get_set:
  assumes "ideal_mac (ms_crypto M)" "keyFor (text_field session ''profileId'') = Some key"
    and "canonicalizeDappSession (signable_of session) = Some d" "rc_sign (ms_crypto M) key d \<noteq> []"
    and "mac = rc_toBase64 (ms_crypto M) (rc_sign (ms_crypto M) key d)" "mac \<noteq> []"
    and "ms_codec M (with_mac (signable_of session) mac) = Some (with_mac (signable_of session) mac)"
  shows "ms_set M keyFor i session a = Inr (es_set (ms_inner M) i (with_mac (signable_of session) mac) a)"
    and "ms_get M keyFor i (es_set (ms_inner M) i (with_mac (signable_of session) mac) a)
      = (Some (with_mac (signable_of session) mac), es_set (ms_inner M) i (with_mac (signable_of session) mac) a)"
proof -
  show "ms_set M keyFor i session a = Inr (es_set (ms_inner M) i (with_mac (signable_of session) mac) a)"
    using assms by (simp add: ms_set_def signDappSession_def)
  have t: "text_field (with_mac (signable_of session) mac) ''mac'' = mac" by (simp add: text_field_def signable_no_mac)
  have "rc_fromBase64 (ms_crypto M) mac = rc_sign (ms_crypto M) key d" "rc_verify (ms_crypto M) key (rc_sign (ms_crypto M) key d) d"
    using assms(1,5) by (auto simp: ideal_mac_def)
  then have "verifyDappSession (ms_crypto M) key (signable_of session) mac"
    using assms(3,4) by (simp add: verifyDappSession_def)
  then show "ms_get M keyFor i (es_set (ms_inner M) i (with_mac (signable_of session) mac) a)
      = (Some (with_mac (signable_of session) mac), es_set (ms_inner M) i (with_mac (signable_of session) mac) a)"
    using assms(2,6,7) by (simp add: ms_get_def ps_get_set verifyOrDrop_def signable_no_mac text_field_with_mac t)
qed

section \<open>A concrete instance\<close>

fun demo_text :: "nat list \<Rightarrow> string" where
  "demo_text [] = []"
| "demo_text (n # ns) = replicate n CHR ''a'' @ CHR ''b'' # demo_text ns"

fun demo_bytes :: "nat \<Rightarrow> string \<Rightarrow> nat list" where
  "demo_bytes n [] = []"
| "demo_bytes n (c # s) = (if c = CHR ''b'' then n # demo_bytes 0 s else demo_bytes (Suc n) s)"

lemma demo_bytes_run: "demo_bytes m (replicate n CHR ''a'' @ s) = demo_bytes (m + n) s"
  by (induction n arbitrary: m) simp_all

lemma demo_bytes_text: "demo_bytes 0 (demo_text b) = b"
  by (induction b) (simp_all add: demo_bytes_run)

definition demo_store :: "nat mac_store" where
  "demo_store = \<lparr>ms_crypto = \<lparr>rc_sign = (\<lambda>k d. k # d), rc_verify = (\<lambda>k t d. t = k # d), rc_toBase64 = demo_text, rc_fromBase64 = demo_bytes 0\<rparr>,
     ms_codec = (\<lambda>w. if json_value w then Some w else None)\<rparr>"

definition demo_session_row :: wire where
  "demo_session_row = WObj [(''profileId'', WStr ''p''), (''id'', WStr ''s'')]"

lemma demo_laws: "ideal_mac (ms_crypto demo_store)" "keeps_tag (ms_codec demo_store)"
  by (auto simp: ideal_mac_def keeps_tag_def demo_store_def demo_bytes_text split: if_splits)

lemma demo_canonical: "\<exists>d. canonicalizeDappSession (signable_of demo_session_row) = Some d"
  by (simp add: canonicalizeDappSession_def signable_of_def obj_fields_def demo_session_row_def defined_fields_def sort_fields_def)

definition demo_mac :: string where
  "demo_mac = demo_text (5 # the (canonicalizeDappSession (signable_of demo_session_row)))"

definition demo_history :: history where
  "demo_history = \<lparr>hs_area = es_set (ms_inner demo_store) ''s'' (with_mac (signable_of demo_session_row) demo_mac) [],
     hs_signed = [signable_of demo_session_row]\<rparr>"

lemma demo_calls:
  "ms_set demo_store (\<lambda>_. Some 5) ''s'' demo_session_row [] = Inr (hs_area demo_history)"
  "fst (ms_get demo_store (\<lambda>_. Some 5) ''s'' (hs_area demo_history)) = Some (with_mac (signable_of demo_session_row) demo_mac)"
proof -
  obtain d where d: "canonicalizeDappSession (signable_of demo_session_row) = Some d" using demo_canonical by blast
  have m: "demo_mac = rc_toBase64 (ms_crypto demo_store) (rc_sign (ms_crypto demo_store) 5 d)" "demo_mac \<noteq> []"
    by (simp_all add: demo_mac_def demo_store_def d)
  have c: "ms_codec demo_store (with_mac (signable_of demo_session_row) demo_mac) = Some (with_mac (signable_of demo_session_row) demo_mac)"
    by (simp add: demo_store_def with_mac_def signable_of_def obj_fields_def demo_session_row_def)
  have n: "rc_sign (ms_crypto demo_store) 5 d \<noteq> []" by (simp add: demo_store_def)
  note g = ms_get_set [of demo_store "\<lambda>_. Some 5", OF demo_laws(1) refl d n m c]
  show "ms_set demo_store (\<lambda>_. Some 5) ''s'' demo_session_row [] = Inr (hs_area demo_history)"
    using g(1) by (simp add: demo_history_def)
  show "fst (ms_get demo_store (\<lambda>_. Some 5) ''s'' (hs_area demo_history)) = Some (with_mac (signable_of demo_session_row) demo_mac)"
    using g(2) by (simp add: demo_history_def)
qed

lemma demo_keys: "keys_of (\<lambda>_. 5) (\<lambda>_. Some (5::nat))"
  by (simp add: keys_of_def)

lemma demo_history_reachable: "hs_reachable demo_store (\<lambda>_. 5) demo_history"
proof (rule hs_reachable.step [OF hs_reachable.start])
  show "hs_step demo_store (\<lambda>_. 5) \<lparr>hs_area = [], hs_signed = []\<rparr> demo_history"
    using hs_step.stored [where h = "\<lparr>hs_area = [], hs_signed = []\<rparr>" and M = demo_store and keyOf = "\<lambda>_. 5", OF demo_keys, of demo_session_row "''s''"]
      demo_calls(1)
    by (simp add: demo_history_def demo_session_row_def)
qed

theorem session_rows_authentic_witness:
  "fst (ms_get demo_store (\<lambda>_. Some 5) ''s'' (hs_area demo_history)) = Some (with_mac (signable_of demo_session_row) demo_mac)
    \<and> (\<exists>s\<in>set (hs_signed demo_history). same_value (signable_of (with_mac (signable_of demo_session_row) demo_mac)) s)"
  using demo_calls(2) session_rows_authentic [OF demo_laws demo_history_reachable demo_keys, of "''s''"] by blast

theorem canonical_row_exact_witness:
  "same_value (WObj [(''a'', WNum ''1''), (''b'', WNull)]) (WObj [(''b'', WNull), (''c'', WUndef), (''a'', WNum ''1'')])"
proof -
  let ?v = "WObj [(''a'', WNum ''1''), (''b'', WNull)]" and ?w = "WObj [(''b'', WNull), (''c'', WUndef), (''a'', WNum ''1'')]"
  have "json_value ?v" "json_value ?w" by (simp_all add: number_text_def num_char_def)
  moreover obtain a where "canonicalizeDappSession ?v = Some a" "canonicalizeDappSession ?w = Some a"
    by (simp add: canonicalizeDappSession_def defined_fields_def sort_fields_def finite_text_def code_of_def)
  ultimately show ?thesis using canonical_row_exact [of ?v ?w a a] by simp
qed

end
