(* ===== verification/Journal_History.thy ===== *)
theory Journal_History
  imports Operation_Journal
begin

text \<open>
  What the events of the operation journal tell of a row. The events a call emits are related to the
  change it makes to the rows, and the stages announced for an id since it was last added are shown to
  lie on one path of the job table: so an operation announced as submitting was not announced as
  cancelled before, and never is afterwards.
\<close>

section \<open>Events and rows\<close>

text \<open>The events of one call, beside the change it makes to the map of readable rows.\<close>

inductive event_effect :: "(string \<Rightarrow> op_record option) \<Rightarrow> journal_event list \<Rightarrow> (string \<Rightarrow> op_record option) \<Rightarrow> bool" where
  Event_None: "(\<And>i r'. m' i = Some r' \<Longrightarrow> \<exists>r. m i = Some r \<and> op_stage r' = op_stage r) \<Longrightarrow> event_effect m [] m'"
| Event_Added: "m i = None \<Longrightarrow> op_id r = i \<Longrightarrow> event_effect m [OperationAdded r] (m(i \<mapsto> r))"
| Event_Updated: "m i = Some r \<Longrightarrow> op_id r' = i \<Longrightarrow> row_step r r' \<Longrightarrow> event_effect m [OperationUpdated r'] (m(i \<mapsto> r'))"
| Event_Deleted: "event_effect m (map OperationDeleted rs) (m |` K)"

inductive_cases event_effectE: "event_effect m es m'"

definition emits :: "journal \<Rightarrow> journal \<Rightarrow> bool" where
  "emits j j' \<longleftrightarrow> (\<exists>es. jl_events j' = jl_events j @ es \<and> event_effect (journal_rows j) es (journal_rows j'))"

lemma emits_same [simp]: "emits j j"
  unfolding emits_def by (intro exI [of _ "[]"]) (auto intro: Event_None)

lemma emits_write:
  assumes "keyed j" "journal_rows j i = Some r" "row_step r r'"
  shows "emits j (write_row i r' j)"
proof -
  have "op_id r' = i" using assms row_step_id by (auto simp: keyed_def)
  moreover have "OperationRecordSchema r'" using row_step_schema [OF assms(3) loaded_schema [OF assms(2)]] .
  ultimately have "event_effect (journal_rows j) [OperationUpdated r'] (journal_rows (write_row i r' j))"
    using assms by (simp add: Event_Updated)
  then show ?thesis unfolding emits_def by (intro exI conjI) (auto simp: write_row_def emit_def)
qed

lemma emits_transitionLocked:
  "keyed j \<Longrightarrow> JobProgressSchema p \<Longrightarrow> error_ok e \<Longrightarrow> emits j (snd (transitionLocked now i p e j))"
  by (auto simp: transitionLocked_def Let_def intro: emits_write Row_Transition split: option.split sum.split)

lemma emits_create: "emits j (snd (createOperation f now draws v j))"
proof (cases "NewOperationInputSchema v \<and> create_fence f v = None \<and> network_fence f v = None")
  case True
  show ?thesis
  proof (cases "nextRandomId (es_contains journal_storage (jl_area j)) draws")
    case (Some i)
    let ?r = "new_record now i v"
    have "journal_rows j i = None"
      using Some randomIdNotIn_Some by (auto simp: nextRandomId_def intro!: es_contains_load)
    then have "event_effect (journal_rows j) [OperationAdded ?r] ((journal_rows j)(i \<mapsto> ?r))"
      by (rule Event_Added) (simp add: new_record_def)
    moreover have "op_id ?r = i" by (simp add: new_record_def)
    ultimately show ?thesis using True Some
      by (simp add: emits_def createOperation_def createOperationLocked_def Let_def emit_def load_put new_record_schema)
  qed (use True in \<open>simp add: createOperation_def createOperationLocked_def\<close>)
qed (auto simp: createOperation_def createOperationLocked_def split: option.split)

lemma emits_sendCheck: "keyed j \<Longrightarrow> emits j (snd (setSendCheck now i h c live j))"
  by (cases "journal_rows j i")
    (auto simp: setSendCheck_def with_check_def intro!: emits_write Row_Check split: job_progress.split)

lemma emits_backend: "keyed j \<Longrightarrow> emits j (snd (updateProvingBackend now i b j))"
  by (cases "journal_rows j i") (auto simp: updateProvingBackend_def intro!: emits_write Row_Backend split: job_progress.split)

lemma emits_meta: "keyed j \<Longrightarrow> emits j (snd (setOperationMeta now i t s j))"
proof (cases "journal_rows j i")
  case (Some r)
  assume "keyed j"
  from emits_write [OF this Some Row_Meta [where t = "if t \<noteq> None then t else op_title r"
        and s = "if s \<noteq> None then s else op_subtitle r" and now = now]] Some
  show ?thesis by (simp add: setOperationMeta_def Let_def)
qed (simp add: setOperationMeta_def)

lemma emits_refile:
  "keyed j \<Longrightarrow> rs_profileId s \<noteq> Some [] \<Longrightarrow> emits j (snd (refileOperationScope now i s ss j))"
  by (auto simp: refileOperationScope_def Let_def intro: emits_write Row_Refile split: option.split)

lemma emits_touch: "emits j (touchOperation now i j)"
proof (cases "journal_rows j i")
  case (Some r)
  show ?thesis
  proof (cases "isTerminal (op_stage r)")
    case False
    from row_step_schema [OF Row_Touch [OF False] loaded_schema [OF Some]] Some False
    have "journal_rows (touchOperation now i j) = (journal_rows j)(i \<mapsto> r\<lparr>op_updatedAt := now\<rparr>)"
      and "jl_events (touchOperation now i j) = jl_events j"
      by (simp_all add: touchOperation_def load_put)
    then show ?thesis unfolding emits_def
      by (intro exI [of _ "[]"]) (auto intro!: Event_None simp: Some split: if_splits)
  qed (use Some in \<open>simp add: touchOperation_def\<close>)
qed (simp add: touchOperation_def)

lemma emits_drop:
  assumes "jl_events j' = jl_events j @ map OperationDeleted rs"
    and "\<And>i. journal_rows j' i = journal_rows j i \<or> journal_rows j' i = None"
  shows "emits j j'"
proof -
  have "journal_rows j' i = (journal_rows j |` {i. journal_rows j' i \<noteq> None}) i" for i
    using assms(2) [of i] by (auto simp: restrict_map_def)
  then have "journal_rows j' = journal_rows j |` {i. journal_rows j' i \<noteq> None}" by (rule ext)
  with Event_Deleted [of "journal_rows j" rs "{i. journal_rows j' i \<noteq> None}"] assms(1) show ?thesis
    by (auto simp: emits_def)
qed

lemma emits_delete: "emits j (snd (deleteOperation i j))"
proof (cases "i = [] \<or> journal_rows j i = None")
  case False
  then obtain r where r: "i \<noteq> []" "journal_rows j i = Some r" by auto
  then show ?thesis by (intro emits_drop [of _ _ "[r]"]) (auto simp: deleteOperation_def emit_def load_del)
qed (auto simp: deleteOperation_def)

lemma emits_purges: "keyed j \<Longrightarrow> emits j (clearChainState n j)" "keyed j \<Longrightarrow> emits j (purgeForProfile p j)"
proof -
  assume k: "keyed j"
  show "emits j (clearChainState n j)"
    unfolding clearChainState_def
    by (rule emits_drop [OF purgeRows_events])
      (use k in \<open>auto simp: purge_filtered jrows.purge_lookup keyed_def split: option.split\<close>)
  have "jl_events (purgeForProfile p j)
      = jl_events j @ map OperationDeleted (filter (\<lambda>r. op_profileId r = p) (loadAllValidated (jl_area j)))"
    by (simp add: purgeForProfile_def Let_def purgeRows_events)
  then show "emits j (purgeForProfile p j)"
    by (rule emits_drop) (auto simp: purgeForProfile_rows [OF k] split: option.split)
qed

lemma run_op_emits:
  assumes "keyed j" and "op_args_ok c"
  shows "emits j (run_op c j)"
proof (cases c)
  case (TransitionIfOp now i ss p e u)
  with assms snd_transitionIfStage [of now i ss p e u j] show ?thesis by (auto simp: emits_transitionLocked)
qed (use assms in \<open>simp_all add: emits_create transitionOperation_def emits_transitionLocked emits_sendCheck emits_meta
      emits_backend emits_touch emits_refile emits_delete emits_purges\<close>)

section \<open>The life of an id\<close>

text \<open>The stages announced for an id since it was last added.\<close>

fun life_event :: "string \<Rightarrow> job_stage list \<Rightarrow> journal_event \<Rightarrow> job_stage list" where
  "life_event i stages (OperationAdded r) = (if op_id r = i then [] else stages)"
| "life_event i stages (OperationUpdated r) = (if op_id r = i then stages @ [op_stage r] else stages)"
| "life_event i stages (OperationDeleted r) = stages"

definition life :: "string \<Rightarrow> journal_event list \<Rightarrow> job_stage list" where
  "life i evs = foldl (life_event i) [] evs"

definition history_ok :: "journal \<Rightarrow> bool" where
  "history_ok j \<longleftrightarrow> (\<forall>i. sorted_wrt stage_reaches (life i (jl_events j))
     \<and> (\<forall>r. journal_rows j i = Some r \<longrightarrow> (\<forall>s\<in>set (life i (jl_events j)). stage_reaches s (op_stage r))))"

lemma life_deleted [simp]: "foldl (life_event i) stages (map OperationDeleted rs) = stages"
  by (induction rs) simp_all

lemma row_step_reaches: "row_step r r' \<Longrightarrow> stage_reaches (op_stage r) (op_stage r')"
  using row_step_evolves by (simp add: row_evolves_def)

lemma history_ok_emits:
  assumes "history_ok j" and "emits j j'"
  shows "history_ok j'"
proof -
  from assms(2) obtain es where es: "jl_events j' = jl_events j @ es" "event_effect (journal_rows j) es (journal_rows j')"
    by (auto simp: emits_def)
  have l: "life i (jl_events j') = foldl (life_event i) (life i (jl_events j)) es" for i by (simp add: life_def es(1))
  from es(2) show ?thesis
  proof cases
    case Event_None
    then show ?thesis using assms(1) unfolding history_ok_def l by fastforce
  next
    case (Event_Added i r)
    then show ?thesis using assms(1) unfolding history_ok_def l by (auto split: if_splits)
  next
    case (Event_Updated i r r')
    from Event_Updated(3) have "\<forall>s\<in>set (life i (jl_events j)). stage_reaches s (op_stage r)"
      using assms(1) by (simp add: history_ok_def)
    with row_step_reaches [OF Event_Updated(5)] have "\<forall>s\<in>set (life i (jl_events j)). stage_reaches s (op_stage r')"
      using stage_reaches_trans by blast
    then show ?thesis using assms(1) Event_Updated(1,2,4) unfolding history_ok_def l
      by (auto simp: sorted_wrt_append split: if_splits)
  next
    case (Event_Deleted rs K)
    then show ?thesis using assms(1) unfolding history_ok_def l by (auto simp: restrict_map_def split: if_splits)
  qed
qed

lemma history_ok_start: "jl_events j = [] \<Longrightarrow> history_ok j"
  by (simp add: history_ok_def life_def)

text \<open>An id is not reused when nothing was announced for it before it was added.\<close>

definition about :: "string \<Rightarrow> journal_event \<Rightarrow> bool" where
  "about i e \<longleftrightarrow> op_id (event_record e) = i"

fun adds :: "string \<Rightarrow> journal_event \<Rightarrow> bool" where
  "adds i (OperationAdded r) = (op_id r = i)"
| "adds i _ = False"

fun id_reused :: "string \<Rightarrow> journal_event list \<Rightarrow> bool" where
  "id_reused i [] = False"
| "id_reused i (e # es) = ((about i e \<and> list_ex (adds i) es) \<or> id_reused i es)"

lemma list_ex_adds [simp]: "list_ex (adds i) es \<longleftrightarrow> (\<exists>r. OperationAdded r \<in> set es \<and> op_id r = i)"
proof (induction es)
  case (Cons e es)
  then show ?case by (cases e) auto
qed simp

lemma life_keeps:
  assumes "\<not> (\<exists>r. OperationAdded r \<in> set es \<and> op_id r = i)"
  shows "set (foldl (life_event i) st es) = set st \<union> {op_stage r | r. OperationUpdated r \<in> set es \<and> op_id r = i}"
  using assms
proof (induction es arbitrary: st)
  case (Cons e es)
  have "\<not> (\<exists>r. OperationAdded r \<in> set es \<and> op_id r = i)" using Cons.prems by auto
  note h = Cons.IH [OF this, of "life_event i st e"]
  show ?case
  proof (cases e)
    case (OperationAdded r)
    with Cons.prems have "op_id r \<noteq> i" by auto
    with OperationAdded h show ?thesis by auto
  next
    case (OperationUpdated r)
    with h show ?thesis by auto
  qed (use h in auto)
qed simp

text \<open>For an id that is not reused, everything ever announced belongs to its one life.\<close>

lemma life_complete:
  "\<not> id_reused i es \<Longrightarrow> OperationUpdated r \<in> set es \<Longrightarrow> op_id r = i \<Longrightarrow> op_stage r \<in> set (life i es)"
proof -
  have "\<not> id_reused i es \<Longrightarrow> OperationUpdated r \<in> set es \<Longrightarrow> op_id r = i \<Longrightarrow> op_stage r \<in> set (foldl (life_event i) st es)" for st
  proof (induction es arbitrary: st)
    case (Cons e es)
    show ?case
    proof (cases "e = OperationUpdated r")
      case True
      with Cons.prems have "\<not> (\<exists>r. OperationAdded r \<in> set es \<and> op_id r = i)" by (auto simp: about_def)
      from life_keeps [OF this, of "life_event i st e"] True Cons.prems(3) show ?thesis by simp
    qed (use Cons in simp)
  qed simp
  then show "\<not> id_reused i es \<Longrightarrow> OperationUpdated r \<in> set es \<Longrightarrow> op_id r = i \<Longrightarrow> op_stage r \<in> set (life i es)"
    by (simp add: life_def)
qed

lemma sorted_wrt_pair: "sorted_wrt R xs \<Longrightarrow> x \<in> set xs \<Longrightarrow> y \<in> set xs \<Longrightarrow> R x y \<or> R y x \<or> x = y"
  by (induction xs) auto

lemma submitting_never_cancelled:
  assumes "history_ok j" "\<not> id_reused i (jl_events j)"
    and "OperationUpdated r \<in> set (jl_events j)" "op_id r = i" "op_stage r = Submitting"
    and "OperationUpdated r' \<in> set (jl_events j)" "op_id r' = i"
  shows "op_stage r' \<noteq> Cancelled"
proof
  assume c: "op_stage r' = Cancelled"
  from life_complete [OF assms(2,3,4)] life_complete [OF assms(2,6,7)]
  have "Submitting \<in> set (life i (jl_events j))" "Cancelled \<in> set (life i (jl_events j))" by (simp_all add: assms(5) c)
  then have "stage_reaches Submitting Cancelled \<or> stage_reaches Cancelled Submitting"
    using assms(1) sorted_wrt_pair [of stage_reaches "life i (jl_events j)" Submitting Cancelled] by (auto simp: history_ok_def)
  moreover have "\<not> stage_reaches Submitting Cancelled"
    using stage_path_submitting_tail by (fastforce simp: stage_reaches_def)
  ultimately show False using stage_reaches_terminal [of Cancelled Submitting] by simp
qed

end
