(* ===== verification/Execution_Lane.thy ===== *)
theory Execution_Lane
  imports Journal_History Execution_Mutex
begin

text \<open>
  The execution lane of \<^verbatim>\<open>execution/execution-lane.ts\<close> with the title picker of
  \<^verbatim>\<open>utils/primary-method.ts\<close> and the error envelope of \<^verbatim>\<open>wallet-core/jobs/error.ts\<close>: the registry of
  abort controllers, the waiters vouched for by the heartbeat, the record a send is filed under and
  the lane's journal writes, each as a function of the lane's or the journal's state. Controllers are
  numbered objects. The interleaving of the callers is the subject of the theory of the send pipeline.
\<close>

section \<open>Errors (jobs/error.ts)\<close>

text \<open>
  A thrown value as the envelope sees it: its message, unless reading it throws, and its JSON, unless
  it has none. The first character of the suffix stands for the one-character ellipsis.
\<close>

record thrown =
  th_message :: "string option"
  th_json :: "string option"

definition TRUNCATED_SUFFIX :: string where
  "TRUNCATED_SUFFIX = CHR 0x85 # ''[truncated]''"

definition trySerialize :: "string option \<Rightarrow> string option" where
  "trySerialize json =
     (case json of
        None \<Rightarrow> None
      | Some t \<Rightarrow> if length t \<le> NORMALIZED_RAW_MAX_CHARS then Some t
                  else Some (take (NORMALIZED_RAW_MAX_CHARS - length TRUNCATED_SUFFIX) t @ TRUNCATED_SUFFIX))"

definition normalizeError :: "thrown \<Rightarrow> string \<Rightarrow> job_error" where
  "normalizeError raw kind =
     (case th_message raw of
        None \<Rightarrow> \<lparr>je_kind = kind, je_message = ''<unrenderable error>'', je_normalizedRaw = None\<rparr>
      | Some m \<Rightarrow> \<lparr>je_kind = kind, je_message = m, je_normalizedRaw = trySerialize (th_json raw)\<rparr>)"

lemma normalizeError_schema: "kind \<noteq> [] \<Longrightarrow> error_ok (Some (normalizeError raw kind))"
  by (auto simp: error_ok_def JobErrorSchema_def normalizeError_def trySerialize_def NORMALIZED_RAW_MAX_CHARS_def
      TRUNCATED_SUFFIX_def split: option.split)

lemma normalizeError_kind [simp]: "je_kind (normalizeError raw kind) = kind"
  by (simp add: normalizeError_def split: option.split)

section \<open>Titles (primary-method.ts)\<close>

definition FEE_METHODS :: "string list" where
  "FEE_METHODS = [''sponsor_unconditionally'', ''fee_entrypoint_private'', ''fee_entrypoint_public'', ''pay_fee'',
     ''set_authorized'', ''claim_and_end_setup'', ''mint_and_pay_fee'']"

record method_carrier =
  mc_method :: "string option"
  mc_name :: "string option"

definition methodOf :: "method_carrier \<Rightarrow> string option" where
  "methodOf c = (if mc_method c \<noteq> None then mc_method c else mc_name c)"

definition fee_infra :: "string list \<Rightarrow> nat \<Rightarrow> bool" where
  "fee_infra named i \<longleftrightarrow>
     named ! i \<in> set FEE_METHODS
     \<or> (named ! i = ''claim'' \<and> Suc i < length named \<and> named ! Suc i = ''mint_and_pay_fee'')"

definition userIndexesOf :: "string list \<Rightarrow> nat list" where
  "userIndexesOf named = filter (\<lambda>i. \<not> fee_infra named i) [0..<length named]"

definition userMethodsOf :: "string list \<Rightarrow> string list" where
  "userMethodsOf named = map (\<lambda>i. named ! i) (userIndexesOf named)"

definition namedPos :: "method_carrier list \<Rightarrow> nat list" where
  "namedPos items = filter (\<lambda>i. methodOf (items ! i) \<noteq> None \<and> methodOf (items ! i) \<noteq> Some []) [0..<length items]"

definition named_of :: "method_carrier list \<Rightarrow> string list" where
  "named_of items = map (\<lambda>i. the (methodOf (items ! i))) (namedPos items)"

definition starts_mint :: "string \<Rightarrow> bool" where
  "starts_mint s \<longleftrightarrow> take 4 s = ''mint''"

definition pickPrimaryIndex :: "method_carrier list option \<Rightarrow> nat option" where
  "pickPrimaryIndex items =
     (case items of
        None \<Rightarrow> None
      | Some cs \<Rightarrow>
          (let named = named_of cs; pos = namedPos cs
           in if named = [] then None
              else (case userIndexesOf named of
                      [] \<Rightarrow> Some (pos ! 0)
                    | [u] \<Rightarrow> Some (pos ! u)
                    | u # second # _ \<Rightarrow> if starts_mint (named ! second) then Some (pos ! second) else Some (pos ! u))))"

definition pickPrimaryMethod :: "method_carrier list option \<Rightarrow> string option" where
  "pickPrimaryMethod items =
     (case pickPrimaryIndex items of None \<Rightarrow> None | Some i \<Rightarrow> methodOf (the items ! i))"

section \<open>The lane's state\<close>

record controller_entry =
  ce_controller :: nat
  ce_serial :: int

record exec_lane =
  el_activeControllers :: "(string, controller_entry) jsmap"
  el_executionMutex :: execution_mutex
  el_executionWaiters :: "string list"
  el_queuedWaiters :: "(string, time) jsmap"
  el_heartbeatTimer :: bool

definition new_lane :: exec_lane where
  "new_lane = \<lparr>el_activeControllers = [], el_executionMutex = new_mutex, el_executionWaiters = [],
     el_queuedWaiters = [], el_heartbeatTimer = False\<rparr>"

definition PRE_SUBMIT_STAGES :: "job_stage list" where
  "PRE_SUBMIT_STAGES = [Queued, Pending, Simulating, Proving]"

definition MAX_QUEUED_WAIT_HEARTBEAT_MS :: time where
  "MAX_QUEUED_WAIT_HEARTBEAT_MS = 90 * 60000"

section \<open>Controllers and waiters\<close>

text \<open>Registration answers whether the authorizing session is the live one.\<close>

definition registerInFlight :: "int option \<Rightarrow> string \<Rightarrow> int \<Rightarrow> nat \<Rightarrow> exec_lane \<Rightarrow> bool \<times> exec_lane" where
  "registerInFlight peekLiveSerial journalId serial controller l =
     (if peekLiveSerial \<noteq> Some serial then (False, l)
      else (True, l\<lparr>el_activeControllers :=
              js_set journalId \<lparr>ce_controller = controller, ce_serial = serial\<rparr> (el_activeControllers l)\<rparr>))"

definition deleteController :: "string \<Rightarrow> exec_lane \<Rightarrow> exec_lane" where
  "deleteController journalId l = l\<lparr>el_activeControllers := js_del journalId (el_activeControllers l)\<rparr>"

definition ensureHeartbeatTimer :: "exec_lane \<Rightarrow> exec_lane" where
  "ensureHeartbeatTimer l = l\<lparr>el_heartbeatTimer := True\<rparr>"

definition maybeStopHeartbeatTimer :: "exec_lane \<Rightarrow> exec_lane" where
  "maybeStopHeartbeatTimer l =
     (if el_executionWaiters l = [] \<and> el_queuedWaiters l = [] then l\<lparr>el_heartbeatTimer := False\<rparr> else l)"

definition beginExecutionWait :: "string \<Rightarrow> exec_lane \<Rightarrow> exec_lane" where
  "beginExecutionWait journalId l =
     ensureHeartbeatTimer (l\<lparr>el_queuedWaiters := js_del journalId (el_queuedWaiters l),
       el_executionWaiters := List.insert journalId (el_executionWaiters l)\<rparr>)"

definition endExecutionWait :: "string \<Rightarrow> exec_lane \<Rightarrow> exec_lane" where
  "endExecutionWait journalId l =
     maybeStopHeartbeatTimer (l\<lparr>el_executionWaiters := removeAll journalId (el_executionWaiters l)\<rparr>)"

definition beginQueuedWait :: "time \<Rightarrow> string \<Rightarrow> exec_lane \<Rightarrow> exec_lane" where
  "beginQueuedWait now journalId l =
     (if journalId \<in> set (el_executionWaiters l) then l
      else ensureHeartbeatTimer (l\<lparr>el_queuedWaiters := js_set journalId now (el_queuedWaiters l)\<rparr>))"

definition endQueuedWait :: "string \<Rightarrow> exec_lane \<Rightarrow> exec_lane" where
  "endQueuedWait journalId l =
     maybeStopHeartbeatTimer (l\<lparr>el_queuedWaiters := js_del journalId (el_queuedWaiters l)\<rparr>)"

text \<open>The controller to fire, if one is registered, and the lane afterwards.\<close>

definition abortCancelled :: "string \<Rightarrow> exec_lane \<Rightarrow> nat list \<times> exec_lane" where
  "abortCancelled jobId l =
     (case js_get (el_activeControllers l) jobId of
        Some inFlight \<Rightarrow> ([ce_controller inFlight], endQueuedWait jobId (deleteController jobId l))
      | None \<Rightarrow> ([], endQueuedWait jobId l))"

section \<open>Records and journal writes\<close>

text \<open>The profile, deletion epoch and network fences of the journal are answered by \<open>f\<close>.\<close>

definition dapp_execute_input :: "execution_fence \<Rightarrow> string \<Rightarrow> string \<Rightarrow> string \<Rightarrow> method_carrier list option \<Rightarrow> op_input" where
  "dapp_execute_input fence networkId accountAddress originName calls =
     \<lparr>in_kind = DappExecute, in_origin = Dapp, in_profileId = ef_profileId fence, in_sessionId = None,
      in_profileEpoch = Some (ef_epoch fence), in_accountAddress = Some accountAddress, in_networkId = Some networkId,
      in_tokenId = None, in_title = Some (or_else (pickPrimaryMethod calls) ''Transaction''), in_subtitle = Some originName,
      in_amountRaw = None, in_recipientAddress = None, in_contractAddress = None, in_transferType = None,
      in_initialStage = None\<rparr>"

definition beginJournal ::
  "fences \<Rightarrow> time \<Rightarrow> string list \<Rightarrow> execution_fence \<Rightarrow> string \<Rightarrow> string \<Rightarrow> string \<Rightarrow> method_carrier list option \<Rightarrow> journal
     \<Rightarrow> string option \<times> journal" where
  "beginJournal f now draws fence networkId accountAddress originName calls j =
     (if ef_profileId fence = [] then (None, j)
      else (case createOperation f now draws (dapp_execute_input fence networkId accountAddress originName calls) j of
              (Inl _, j') \<Rightarrow> (None, j')
            | (Inr r, j') \<Rightarrow> (Some (op_id r), j')))"

definition has_id :: "string option \<Rightarrow> bool" where
  "has_id i \<longleftrightarrow> i \<noteq> None \<and> i \<noteq> Some []"

definition markJournal :: "time \<Rightarrow> string option \<Rightarrow> job_progress \<Rightarrow> job_error option \<Rightarrow> journal \<Rightarrow> journal" where
  "markJournal now journalId progress err j =
     (if \<not> has_id journalId then j else snd (transitionOperation now (the journalId) progress err j))"

datatype commit_error = HasNoRecord | WriteRefused journal_error

definition commitJournal :: "time \<Rightarrow> string option \<Rightarrow> job_progress \<Rightarrow> journal \<Rightarrow> (commit_error + unit) \<times> journal" where
  "commitJournal now journalId progress j =
     (if \<not> has_id journalId then (Inl HasNoRecord, j)
      else (case transitionOperation now (the journalId) progress None j of
              (Inl e, j') \<Rightarrow> (Inl (WriteRefused e), j')
            | (Inr _, j') \<Rightarrow> (Inr (), j')))"

section \<open>Lemmas\<close>

lemma journal_call_mark: "markJournal now i p e j = j \<or> markJournal now i p e j = run_op (TransitionOp now (the i) p e) j"
  by (simp add: markJournal_def)

lemma journal_call_commit:
  "snd (commitJournal now i p j) = j \<or> snd (commitJournal now i p j) = run_op (TransitionOp now (the i) p None) j"
  by (auto simp: commitJournal_def split: prod.split sum.split)

lemma journal_call_begin:
  "snd (beginJournal f now draws fence n a nm calls j) = j
   \<or> snd (beginJournal f now draws fence n a nm calls j) = run_op (CreateOp f now draws (dapp_execute_input fence n a nm calls)) j"
  by (auto simp: beginJournal_def split: prod.split sum.split)

lemma transition_success_event:
  assumes "transitionOperation now i p e j = (Inr r, j')" "keyed j"
  shows "OperationUpdated r \<in> set (jl_events j') \<and> op_id r = i \<and> op_stage r = stage_of p
    \<and> (stage_of p \<noteq> Failed \<longrightarrow> op_progress r = p)"
proof -
  from assms(1) obtain s where s: "journal_rows j i = Some s" "r = transitioned now s p e" "j' = write_row i r j"
    by (auto simp: transitionOperation_def transitionLocked_def Let_def split: if_splits option.splits sum.splits)
  moreover have "op_id s = i" using assms(2) s(1) by (simp add: keyed_def)
  ultimately show ?thesis by (auto simp: write_row_def emit_def transitioned_def)
qed

lemma commit_success_event:
  assumes "commitJournal now i p j = (Inr u, j')" "keyed j"
  shows "\<exists>k r. i = Some k \<and> OperationUpdated r \<in> set (jl_events j') \<and> op_id r = k \<and> op_stage r = stage_of p
    \<and> (stage_of p \<noteq> Failed \<longrightarrow> op_progress r = p)"
proof -
  from assms(1) obtain k r where "i = Some k" "transitionOperation now k p None j = (Inr r, j')"
    by (auto simp: commitJournal_def has_id_def split: if_splits prod.splits sum.splits)
  with transition_success_event [OF this(2) assms(2)] show ?thesis by blast
qed

text \<open>The title is a method of the list, and a fee method only when the list has no other.\<close>

lemma userIndexesOf_iff: "i \<in> set (userIndexesOf named) \<longleftrightarrow> i < length named \<and> \<not> fee_infra named i"
  by (auto simp: userIndexesOf_def)

end
