(* ===== verification/Send_Pipeline.thy ===== *)
theory Send_Pipeline
  imports Execution_Lane
begin

text \<open>
  A dApp send from its slot to its broadcast: slot acquisition (\<^verbatim>\<open>execution-lane.ts\<close>), the claim of the
  queued record (\<^verbatim>\<open>claim-helper.ts\<close>), the slot scaffold and the three send paths
  (\<^verbatim>\<open>dapp-send-executor.ts\<close>), the shared prove-and-send tail (\<^verbatim>\<open>execution-coordinator.ts\<close>) and its failure
  disposition (\<^verbatim>\<open>mark-failed-unless-cancelled.ts\<close>), run beside any number of other sends, cancels, ended-session
  sweeps, heartbeats, session changes and other callers of the journal.

  A send is a thread whose program counter names what runs when it is next scheduled: a synchronous
  stretch of code between two awaits, or one write under the journal's lock. What the clock, the
  network, the prover and the other services answer is an argument of the step.
\<close>

section \<open>Errors\<close>

datatype send_error =
    JobCancelledSentinel string
  | SessionEndedError
  | TooManyPendingError
  | DuplicateInitializationError
  | MutexRefused mutex_error
  | StaleFence fence_error
  | NotRecorded
  | ClaimRefused journal_error
  | CommitRefused commit_error
  | Fault string

fun failureKind :: "send_error \<Rightarrow> string \<Rightarrow> string" where
  "failureKind DuplicateInitializationError fallback = ''duplicate_initialization''"
| "failureKind SessionEndedError fallback = ''session_ended''"
| "failureKind _ fallback = fallback"

section \<open>Jobs and threads\<close>

datatype send_path = SendTransaction | AztecSendTx | NoFromSendTx

datatype fee_kind = FeeEmbedded | FeeOther

record send_job =
  sj_path :: send_path
  sj_networkId :: string
  sj_accountAddress :: string
  sj_originName :: string
  sj_calls :: "method_carrier list option"
  sj_feeSettings :: "fee_kind option"
  sj_from :: "string option"
  sj_noWait :: bool
  sj_queuedJournalId :: "string option"
  sj_originKey :: "string option"
  sj_fence :: execution_fence

datatype send_pc =
    SlotStart | RefusedWrite | AwaitFence | AwaitNetwork | AwaitGrant
  | SlotCatch send_error | SlotFailWrite send_error string | SlotFinally send_error
  | ClaimRead | ClaimRefile | ClaimRefiled refile_outcome | ClaimWrite | ClaimRegister | ClaimRecheck journal_error
  | ClaimCreate | ClaimFresh string | ClaimRefuse string | Claimed string nat
  | ParsePayload | SimulatingWrite | AfterSimulating | AwaitBuild
  | ProvingWrite | AwaitProof | AwaitAuthorization | AwaitTx | CommitWrite string | Committed string "commit_error + unit"
  | AwaitTerms string | AwaitSend string | RecordTx string | SucceededWrite string | AwaitReceipt string
  | RunCatch send_error | RunFinally "send_error + string" | Ended "send_error + string"

record send_thread =
  st_job :: send_job
  st_preController :: "nat option"
  st_call :: "nat option"
  st_journalId :: "string option"
  st_controller :: "nat option"
  st_pc :: send_pc

definition new_thread :: "send_job \<Rightarrow> send_thread" where
  "new_thread job = \<lparr>st_job = job, st_preController = None, st_call = None, st_journalId = None,
     st_controller = None, st_pc = SlotStart\<rparr>"

definition at_pc :: "send_pc \<Rightarrow> send_thread \<Rightarrow> send_thread" where
  "at_pc pc th = th\<lparr>st_pc := pc\<rparr>"

text \<open>An empty id counts as none.\<close>

definition queued_id :: "send_job \<Rightarrow> string option" where
  "queued_id job = (if has_id (sj_queuedJournalId job) then sj_queuedJournalId job else None)"

section \<open>The world\<close>

datatype cancel_pc = CancelRead string | CancelOwner string op_record | CancelWrite string string | CancelAbort string | CancelDone

datatype sweep_pc = SweepNext | SweepWrite string int | SweepAbort string | SweepDone

datatype beat_pc = BeatWaiters "string list" | BeatQueued time "(string, time) jsmap" | BeatDone

datatype cancel_reason = ByOwner string | BySweep int

record broadcast =
  bc_thread :: nat
  bc_journalId :: "string option"
  bc_txHash :: string
  bc_session :: "(int \<times> string) option"
  bc_deletion :: deletion_state

record exec_world =
  ew_lane :: exec_lane
  ew_journal :: journal
  ew_fired :: "nat list"
  ew_nextController :: nat
  ew_session :: "(int \<times> string) option"
  ew_deletion :: deletion_state
  ew_threads :: "send_thread list"
  ew_cancels :: "cancel_pc list"
  ew_sweeps :: "sweep_pc list"
  ew_beats :: "beat_pc list"
  ew_cancelLog :: "(string \<times> cancel_reason) list"
  ew_broadcasts :: "broadcast list"

definition new_world :: "journal \<Rightarrow> deletion_state \<Rightarrow> exec_world" where
  "new_world j d = \<lparr>ew_lane = new_lane, ew_journal = j, ew_fired = [], ew_nextController = 0, ew_session = None,
     ew_deletion = d, ew_threads = [], ew_cancels = [], ew_sweeps = [], ew_beats = [], ew_cancelLog = [], ew_broadcasts = []\<rparr>"

record answers =
  an_ok :: bool
  an_error :: send_error
  an_thrown :: thrown
  an_now :: time
  an_fences :: fences
  an_draws :: "string list"
  an_chainId :: nat
  an_text :: string
  an_url :: "string option"

abbreviation on_lane :: "(exec_lane \<Rightarrow> exec_lane) \<Rightarrow> exec_world \<Rightarrow> exec_world" where
  "on_lane f w \<equiv> w\<lparr>ew_lane := f (ew_lane w)\<rparr>"

abbreviation on_journal :: "(journal \<Rightarrow> journal) \<Rightarrow> exec_world \<Rightarrow> exec_world" where
  "on_journal f w \<equiv> w\<lparr>ew_journal := f (ew_journal w)\<rparr>"

section \<open>The profile service's answers\<close>

definition peekLiveSerial :: "exec_world \<Rightarrow> int option" where
  "peekLiveSerial w = map_option fst (ew_session w)"

definition assertFence :: "exec_world \<Rightarrow> execution_fence \<Rightarrow> send_error + unit" where
  "assertFence w fence =
     (case ew_session w of
        None \<Rightarrow> Inl SessionEndedError
      | Some (serial, profile) \<Rightarrow>
          if serial \<noteq> ef_session fence \<or> profile \<noteq> ef_profileId fence then Inl SessionEndedError
          else (case assertCurrent (ew_deletion w) (ef_profileId fence) (ef_epoch fence) of
                  Inl e \<Rightarrow> Inl (StaleFence e)
                | Inr _ \<Rightarrow> Inr ()))"

definition isFenceLive :: "(int \<times> string) option \<Rightarrow> deletion_state \<Rightarrow> execution_fence \<Rightarrow> bool" where
  "isFenceLive session d fence \<longleftrightarrow>
     session = Some (ef_session fence, ef_profileId fence) \<and> isCurrent_epoch d (ef_profileId fence) (ef_epoch fence)"

definition getActiveProfile :: "exec_world \<Rightarrow> string option" where
  "getActiveProfile w =
     (case ew_session w of
        None \<Rightarrow> None
      | Some (_, profile) \<Rightarrow> if isReserved (ew_deletion w) profile then None else Some profile)"

section \<open>Slot acquisition (execution-lane.ts)\<close>

definition fresh_controller :: "exec_world \<Rightarrow> nat \<times> exec_world" where
  "fresh_controller w = (ew_nextController w, w\<lparr>ew_nextController := Suc (ew_nextController w)\<rparr>)"

definition register :: "string \<Rightarrow> int \<Rightarrow> nat \<Rightarrow> exec_world \<Rightarrow> bool \<times> exec_world" where
  "register journalId serial controller w =
     (let (live, l) = registerInFlight (peekLiveSerial w) journalId serial controller (ew_lane w)
      in (live, w\<lparr>ew_lane := l\<rparr>))"

definition registerWaitingRecord :: "send_thread \<Rightarrow> exec_world \<Rightarrow> send_thread \<times> exec_world" where
  "registerWaitingRecord th w =
     (case queued_id (st_job th) of
        None \<Rightarrow> (at_pc AwaitFence th, w)
      | Some q \<Rightarrow>
          (let (controller, w1) = fresh_controller w;
               (live, w2) = register q (ef_session (sj_fence (st_job th))) controller w1
           in if \<not> live then (at_pc RefusedWrite th, w2)
              else (at_pc AwaitFence (th\<lparr>st_preController := Some controller\<rparr>), on_lane (beginExecutionWait q) w2)))"

definition mutex_key :: "execution_fence \<Rightarrow> nat \<Rightarrow> string" where
  "mutex_key fence chainId = ef_profileId fence @ '':'' @ nat_dec chainId"

definition fired_signal :: "exec_world \<Rightarrow> nat option \<Rightarrow> bool option" where
  "fired_signal w c = map_option (\<lambda>c. c \<in> set (ew_fired w)) c"

definition enter_mutex :: "nat \<Rightarrow> send_thread \<Rightarrow> exec_world \<Rightarrow> send_thread \<times> exec_world" where
  "enter_mutex chainId th w =
     (let job = st_job th; m = el_executionMutex (ew_lane w)
      in case acquire (mutex_key (sj_fence job) chainId) (fired_signal w (st_preController th)) (Some (lane_caps (sj_originKey job))) m of
           Inl e \<Rightarrow> (at_pc (SlotCatch (MutexRefused e)) th, w)
         | Inr m' \<Rightarrow> (at_pc AwaitGrant (th\<lparr>st_call := Some (length (em_calls m))\<rparr>), on_lane (el_executionMutex_update (\<lambda>_. m')) w))"

definition end_wait :: "send_job \<Rightarrow> exec_world \<Rightarrow> exec_world" where
  "end_wait job w = (case queued_id job of None \<Rightarrow> w | Some q \<Rightarrow> on_lane (endExecutionWait q) w)"

definition drop_queued :: "send_job \<Rightarrow> exec_world \<Rightarrow> exec_world" where
  "drop_queued job w = (case queued_id job of None \<Rightarrow> w | Some q \<Rightarrow> on_lane (deleteController q) w)"

definition slot_catch :: "send_error \<Rightarrow> send_thread \<Rightarrow> exec_world \<Rightarrow> send_thread \<times> exec_world" where
  "slot_catch err th w =
     (let w1 = drop_queued (st_job th) w
      in case err of
           MutexRefused (ExecutionMutexCapacityError _) \<Rightarrow> (at_pc (SlotFailWrite TooManyPendingError ''dapp_execute'') th, w1)
         | SessionEndedError \<Rightarrow> (at_pc (SlotFailWrite SessionEndedError ''session_ended'') th, w1)
         | MutexRefused (ExecutionMutexAbortError _) \<Rightarrow>
             (at_pc (SlotFinally (JobCancelledSentinel (or_else (sj_queuedJournalId (st_job th)) []))) th, w1)
         | _ \<Rightarrow> (at_pc (SlotFinally err) th, w1))"

definition await_grant :: "send_thread \<Rightarrow> exec_world \<Rightarrow> (send_thread \<times> exec_world) option" where
  "await_grant th w =
     (case st_call th of
        None \<Rightarrow> None
      | Some t \<Rightarrow>
          (let c = em_calls (el_executionMutex (ew_lane w)) ! t
           in if ac_phase c = Holds then Some (at_pc ClaimRead th, end_wait (st_job th) w)
              else if ac_phase c = Aborted \<or> ac_phase c = Released
                   then Some (at_pc (SlotCatch (MutexRefused (ExecutionMutexAbortError (ac_key c)))) th, w)
              else None))"

section \<open>The claim (claim-helper.ts)\<close>

definition executingScopeMatches :: "op_record \<Rightarrow> send_job \<Rightarrow> bool" where
  "executingScopeMatches r job \<longleftrightarrow>
     op_networkId r = Some (sj_networkId job) \<and> op_accountAddress r = Some (sj_accountAddress job)
     \<and> op_profileId r = ef_profileId (sj_fence job)"

definition pre_claim :: "job_stage \<Rightarrow> bool" where
  "pre_claim s \<longleftrightarrow> s = Queued \<or> s = Pending"

definition register_claimed :: "string \<Rightarrow> nat \<Rightarrow> send_thread \<Rightarrow> exec_world \<Rightarrow> send_thread \<times> exec_world" where
  "register_claimed journalId controller th w =
     (let (live, w1) = register journalId (ef_session (sj_fence (st_job th))) controller w
      in if \<not> live then (at_pc (ClaimRefuse journalId) th, w1) else (at_pc (Claimed journalId controller) th, w1))"

definition claim_register :: "string \<Rightarrow> send_thread \<Rightarrow> exec_world \<Rightarrow> send_thread \<times> exec_world" where
  "claim_register q th w =
     (case st_preController th of
        Some controller \<Rightarrow> register_claimed q controller th w
      | None \<Rightarrow> (let (controller, w1) = fresh_controller w in register_claimed q controller th w1))"

definition claim_stage :: "string \<Rightarrow> op_record \<Rightarrow> send_thread \<Rightarrow> exec_world \<Rightarrow> send_thread \<times> exec_world" where
  "claim_stage q r th w =
     (if \<not> pre_claim (op_stage r) then (at_pc (RunCatch (JobCancelledSentinel q)) th, w)
      else if op_stage r = Queued then (at_pc ClaimWrite th, w)
      else claim_register q th w)"

definition pre_fired :: "send_thread \<Rightarrow> exec_world \<Rightarrow> bool" where
  "pre_fired th w \<longleftrightarrow> fired_signal w (st_preController th) = Some True"

definition create_instead :: "string \<Rightarrow> send_thread \<Rightarrow> exec_world \<Rightarrow> send_thread \<times> exec_world" where
  "create_instead q th w =
     (at_pc ClaimCreate th, if st_preController th \<noteq> None then on_lane (deleteController q) w else w)"

definition read_record :: "answers \<Rightarrow> string \<Rightarrow> journal \<Rightarrow> op_record option" where
  "read_record a q j = (if \<not> an_ok a then None else case getOperation q j of Inl _ \<Rightarrow> None | Inr r \<Rightarrow> r)"

definition claim_read :: "answers \<Rightarrow> send_thread \<Rightarrow> exec_world \<Rightarrow> send_thread \<times> exec_world" where
  "claim_read a th w =
     (case queued_id (st_job th) of
        None \<Rightarrow> (at_pc ClaimCreate th, w)
      | Some q \<Rightarrow>
          (case read_record a q (ew_journal w) of
             None \<Rightarrow> create_instead q th w
           | Some r \<Rightarrow>
               if executingScopeMatches r (st_job th) then claim_stage q r th w
               else if \<not> pre_claim (op_stage r) then (at_pc (RunCatch (JobCancelledSentinel q)) th, w)
               else if pre_fired th w then (at_pc (RunCatch (JobCancelledSentinel q)) th, w)
               else (at_pc ClaimRefile th, w)))"

definition executing_scope :: "send_job \<Rightarrow> refile_scope" where
  "executing_scope job = \<lparr>rs_profileId = Some (ef_profileId (sj_fence job)), rs_networkId = sj_networkId job,
     rs_accountAddress = sj_accountAddress job\<rparr>"

definition claim_refile :: "answers \<Rightarrow> send_thread \<Rightarrow> exec_world \<Rightarrow> send_thread \<times> exec_world" where
  "claim_refile a th w =
     (let q = the (queued_id (st_job th));
          (outcome, j) = refileOperationScope (an_now a) q (executing_scope (st_job th)) [Queued, Pending] (ew_journal w)
      in (at_pc (ClaimRefiled outcome) th, w\<lparr>ew_journal := j\<rparr>))"

definition claim_refiled :: "refile_outcome \<Rightarrow> send_thread \<Rightarrow> exec_world \<Rightarrow> send_thread \<times> exec_world" where
  "claim_refiled outcome th w =
     (let q = the (queued_id (st_job th))
      in case outcome of
           RefileStage _ \<Rightarrow> (at_pc (RunCatch (JobCancelledSentinel q)) th, w)
         | RefileMissing \<Rightarrow> create_instead q th w
         | Refiled r \<Rightarrow>
             if op_stage r = Pending \<and> st_preController th = None then claim_register q th w else claim_stage q r th w)"

definition claim_write :: "answers \<Rightarrow> send_thread \<Rightarrow> exec_world \<Rightarrow> send_thread \<times> exec_world" where
  "claim_write a th w =
     (case transitionOperation (an_now a) (the (queued_id (st_job th))) PPending None (ew_journal w) of
        (Inl e, j) \<Rightarrow> (at_pc (ClaimRecheck e) th, w\<lparr>ew_journal := j\<rparr>)
      | (Inr _, j) \<Rightarrow> (at_pc ClaimRegister th, w\<lparr>ew_journal := j\<rparr>))"

definition disambiguateClaimFailure :: "answers \<Rightarrow> journal_error \<Rightarrow> send_thread \<Rightarrow> exec_world \<Rightarrow> send_thread \<times> exec_world" where
  "disambiguateClaimFailure a e th w =
     (let q = the (queued_id (st_job th))
      in case read_record a q (ew_journal w) of
           Some r \<Rightarrow> if op_stage r \<noteq> Queued then (at_pc (RunCatch (JobCancelledSentinel q)) th, w)
                      else (at_pc (RunCatch (ClaimRefused e)) th, w)
         | None \<Rightarrow> (at_pc (RunCatch (ClaimRefused e)) th, w))"

definition claim_create :: "answers \<Rightarrow> send_thread \<Rightarrow> exec_world \<Rightarrow> send_thread \<times> exec_world" where
  "claim_create a th w =
     (let job = st_job th;
          (i, j) = beginJournal (an_fences a) (an_now a) (an_draws a) (sj_fence job) (sj_networkId job)
                     (sj_accountAddress job) (sj_originName job) (sj_calls job) (ew_journal w)
      in if has_id i then (at_pc (ClaimFresh (the i)) th, w\<lparr>ew_journal := j\<rparr>)
         else (at_pc (RunCatch NotRecorded) th, w\<lparr>ew_journal := j\<rparr>))"

definition register_fresh :: "string \<Rightarrow> send_thread \<Rightarrow> exec_world \<Rightarrow> send_thread \<times> exec_world" where
  "register_fresh journalId th w =
     (let (controller, w1) = fresh_controller w in register_claimed journalId controller th w1)"

definition failed_progress :: job_progress where
  "failed_progress = PFailed None None None None"

definition refuseEndedSession :: "answers \<Rightarrow> string \<Rightarrow> send_thread \<Rightarrow> exec_world \<Rightarrow> send_thread \<times> exec_world" where
  "refuseEndedSession a journalId th w =
     (at_pc (RunCatch SessionEndedError) th,
      on_journal (\<lambda>j. snd (transitionOperation (an_now a) journalId failed_progress
        (Some (normalizeError (an_thrown a) ''session_ended'')) j)) w)"

section \<open>Execution in the slot (dapp-send-executor.ts, execution-coordinator.ts)\<close>

text \<open>What is refused before a slot is asked for.\<close>

definition fee_admitted :: "send_job \<Rightarrow> bool" where
  "fee_admitted job =
     (case sj_path job of NoFromSendTx \<Rightarrow> sj_feeSettings job \<noteq> Some FeeOther | _ \<Rightarrow> sj_feeSettings job \<noteq> None)"

definition cancelled :: "send_thread \<Rightarrow> exec_world \<Rightarrow> bool" where
  "cancelled th w \<longleftrightarrow> fired_signal w (st_controller th) = Some True"

text \<open>\<^verbatim>\<open>checkCancelled\<close>, then on to the next program counter.\<close>

definition unless_cancelled :: "send_pc \<Rightarrow> send_thread \<Rightarrow> exec_world \<Rightarrow> send_thread \<times> exec_world" where
  "unless_cancelled pc th w =
     (if cancelled th w then (at_pc (RunCatch (JobCancelledSentinel (or_else (st_journalId th) []))) th, w)
      else (at_pc pc th, w))"

definition run_claimed :: "string \<Rightarrow> nat \<Rightarrow> send_thread \<Rightarrow> exec_world \<Rightarrow> send_thread \<times> exec_world" where
  "run_claimed journalId controller th w =
     (let th1 = th\<lparr>st_journalId := Some journalId, st_controller := Some controller\<rparr>; job = st_job th
      in unless_cancelled
           (case sj_path job of
              AztecSendTx \<Rightarrow> if sj_from job \<noteq> Some (sj_accountAddress job) then RunCatch (Fault ''Invalid `opts.from`'') else ParsePayload
            | _ \<Rightarrow> SimulatingWrite) th1 w)"

definition mark :: "answers \<Rightarrow> job_progress \<Rightarrow> send_pc \<Rightarrow> send_thread \<Rightarrow> exec_world \<Rightarrow> send_thread \<times> exec_world" where
  "mark a progress pc th w = (at_pc pc th, on_journal (markJournal (an_now a) (st_journalId th) progress None) w)"

definition after_simulating :: "answers \<Rightarrow> send_thread \<Rightarrow> exec_world \<Rightarrow> send_thread \<times> exec_world" where
  "after_simulating a th w =
     (case sj_path (st_job th) of
        NoFromSendTx \<Rightarrow> (at_pc AwaitBuild th, w)
      | SendTransaction \<Rightarrow> unless_cancelled AwaitBuild th w
      | AztecSendTx \<Rightarrow> unless_cancelled (if an_ok a then AwaitBuild else RunCatch (an_error a)) th w)"

definition commit_submitting :: "answers \<Rightarrow> string \<Rightarrow> send_thread \<Rightarrow> exec_world \<Rightarrow> send_thread \<times> exec_world" where
  "commit_submitting a txHash th w =
     (let (r, j) = commitJournal (an_now a) (st_journalId th) (PSubmitting (Some txHash) (an_url a)) (ew_journal w)
      in (at_pc (Committed txHash r) th, w\<lparr>ew_journal := j\<rparr>))"

definition committed :: "string \<Rightarrow> commit_error + unit \<Rightarrow> send_thread \<Rightarrow> exec_world \<Rightarrow> send_thread \<times> exec_world" where
  "committed txHash r th w =
     (case r of
        Inl e \<Rightarrow> unless_cancelled (RunCatch (CommitRefused e)) th w
      | Inr _ \<Rightarrow> unless_cancelled (AwaitTerms txHash) th w)"

text \<open>The tick of \<^verbatim>\<open>sendTxTask\<close> after the terms were confirmed: the fence is asked and the transaction sent.\<close>

definition send_tx :: "string \<Rightarrow> nat \<Rightarrow> send_thread \<Rightarrow> exec_world \<Rightarrow> send_thread \<times> exec_world" where
  "send_tx txHash t th w =
     (if \<not> isFenceLive (ew_session w) (ew_deletion w) (sj_fence (st_job th)) then (at_pc (RunCatch SessionEndedError) th, w)
      else (at_pc (AwaitSend txHash) th, w\<lparr>ew_broadcasts := ew_broadcasts w @
        [\<lparr>bc_thread = t, bc_journalId = st_journalId th, bc_txHash = txHash, bc_session = ew_session w, bc_deletion = ew_deletion w\<rparr>]\<rparr>))"

definition after_success :: "string \<Rightarrow> send_job \<Rightarrow> send_pc" where
  "after_success txHash job =
     (if sj_path job = SendTransaction \<or> sj_noWait job then RunFinally (Inr txHash) else AwaitReceipt txHash)"

definition is_cancel :: "send_error \<Rightarrow> bool" where
  "is_cancel err = (case err of JobCancelledSentinel _ \<Rightarrow> True | _ \<Rightarrow> False)"

definition markFailedUnlessCancelled :: "answers \<Rightarrow> send_error \<Rightarrow> send_thread \<Rightarrow> exec_world \<Rightarrow> send_thread \<times> exec_world" where
  "markFailedUnlessCancelled a err th w =
     (at_pc (RunFinally (Inl err)) th,
      if is_cancel err then w
      else on_journal (markJournal (an_now a) (st_journalId th) failed_progress
             (Some (normalizeError (an_thrown a) (failureKind err ''dapp_execute'')))) w)"

definition run_finally :: "send_error + string \<Rightarrow> send_thread \<Rightarrow> exec_world \<Rightarrow> send_thread \<times> exec_world" where
  "run_finally out th w =
     (let q = queued_id (st_job th);
          l1 = (if has_id (st_journalId th) then deleteController (the (st_journalId th)) (ew_lane w) else ew_lane w);
          l2 = (if q \<noteq> None \<and> q \<noteq> st_journalId th then deleteController (the q) l1 else l1);
          l3 = l2\<lparr>el_executionMutex := release_call (the (st_call th)) (el_executionMutex l2)\<rparr>
      in (at_pc (Ended out) th, w\<lparr>ew_lane := l3\<rparr>))"

text \<open>A dependency that throws ends in the catch arm.\<close>

definition awaited :: "answers \<Rightarrow> send_pc \<Rightarrow> send_thread \<Rightarrow> exec_world \<Rightarrow> send_thread \<times> exec_world" where
  "awaited a pc th w = (at_pc (if an_ok a then pc else RunCatch (an_error a)) th, w)"

definition awaited_check :: "answers \<Rightarrow> send_pc \<Rightarrow> send_thread \<Rightarrow> exec_world \<Rightarrow> send_thread \<times> exec_world" where
  "awaited_check a pc th w = (if an_ok a then unless_cancelled pc th w else (at_pc (RunCatch (an_error a)) th, w))"

section \<open>One step of a send\<close>

definition slot_start :: "send_thread \<Rightarrow> exec_world \<Rightarrow> send_thread \<times> exec_world" where
  "slot_start th w =
     (if \<not> fee_admitted (st_job th) then (at_pc (Ended (Inl (Fault ''feeSettings''))) th, w) else registerWaitingRecord th w)"

definition slot_fail :: "answers \<Rightarrow> string \<Rightarrow> send_pc \<Rightarrow> send_thread \<Rightarrow> exec_world \<Rightarrow> send_thread \<times> exec_world" where
  "slot_fail a kind pc th w =
     (at_pc pc th, on_journal (markJournal (an_now a) (sj_queuedJournalId (st_job th)) failed_progress
        (Some (normalizeError (an_thrown a) kind))) w)"

definition await_fence :: "(send_error \<Rightarrow> send_pc) \<Rightarrow> send_pc \<Rightarrow> send_thread \<Rightarrow> exec_world \<Rightarrow> send_thread \<times> exec_world" where
  "await_fence caught pc th w =
     (case assertFence w (sj_fence (st_job th)) of Inl e \<Rightarrow> (at_pc (caught e) th, w) | Inr _ \<Rightarrow> (at_pc pc th, w))"

fun send_step :: "answers \<Rightarrow> nat \<Rightarrow> send_pc \<Rightarrow> send_thread \<Rightarrow> exec_world \<Rightarrow> (send_thread \<times> exec_world) option" where
  "send_step a t SlotStart th w = Some (slot_start th w)"
| "send_step a t RefusedWrite th w = Some (slot_fail a ''session_ended'' (Ended (Inl SessionEndedError)) th w)"
| "send_step a t AwaitFence th w = Some (await_fence SlotCatch AwaitNetwork th w)"
| "send_step a t AwaitNetwork th w =
     Some (if an_ok a then enter_mutex (an_chainId a) th w else (at_pc (SlotCatch (an_error a)) th, w))"
| "send_step a t AwaitGrant th w = await_grant th w"
| "send_step a t (SlotCatch err) th w = Some (slot_catch err th w)"
| "send_step a t (SlotFailWrite err kind) th w = Some (slot_fail a kind (SlotFinally err) th w)"
| "send_step a t (SlotFinally err) th w = Some (at_pc (Ended (Inl err)) th, end_wait (st_job th) w)"
| "send_step a t ClaimRead th w = Some (claim_read a th w)"
| "send_step a t ClaimRefile th w = Some (claim_refile a th w)"
| "send_step a t (ClaimRefiled outcome) th w = Some (claim_refiled outcome th w)"
| "send_step a t ClaimWrite th w = Some (claim_write a th w)"
| "send_step a t ClaimRegister th w = Some (claim_register (the (queued_id (st_job th))) th w)"
| "send_step a t (ClaimRecheck e) th w = Some (disambiguateClaimFailure a e th w)"
| "send_step a t ClaimCreate th w = Some (claim_create a th w)"
| "send_step a t (ClaimFresh i) th w = Some (register_fresh i th w)"
| "send_step a t (ClaimRefuse i) th w = Some (refuseEndedSession a i th w)"
| "send_step a t (Claimed i c) th w = Some (run_claimed i c th w)"
| "send_step a t ParsePayload th w = Some (awaited a SimulatingWrite th w)"
| "send_step a t SimulatingWrite th w = Some (mark a PSimulating AfterSimulating th w)"
| "send_step a t AfterSimulating th w = Some (after_simulating a th w)"
| "send_step a t AwaitBuild th w = Some (awaited_check a ProvingWrite th w)"
| "send_step a t ProvingWrite th w = Some (mark a (PProving (an_now a) None) AwaitProof th w)"
| "send_step a t AwaitProof th w = Some (awaited_check a AwaitAuthorization th w)"
| "send_step a t AwaitAuthorization th w =
     Some (await_fence RunCatch (if an_ok a then AwaitTx else RunCatch (an_error a)) th w)"
| "send_step a t AwaitTx th w = Some (awaited a (CommitWrite (an_text a)) th w)"
| "send_step a t (CommitWrite h) th w = Some (commit_submitting a h th w)"
| "send_step a t (Committed h r) th w = Some (committed h r th w)"
| "send_step a t (AwaitTerms h) th w = Some (if an_ok a then send_tx h t th w else (at_pc (RunCatch (an_error a)) th, w))"
| "send_step a t (AwaitSend h) th w = Some (awaited a (RecordTx h) th w)"
| "send_step a t (RecordTx h) th w = Some (awaited a (SucceededWrite h) th w)"
| "send_step a t (SucceededWrite h) th w = Some (mark a (PSucceeded (Some h)) (after_success h (st_job th)) th w)"
| "send_step a t (AwaitReceipt h) th w = Some (awaited a (RunFinally (Inr h)) th w)"
| "send_step a t (RunCatch err) th w = Some (markFailedUnlessCancelled a err th w)"
| "send_step a t (RunFinally out) th w = Some (run_finally out th w)"
| "send_step a t (Ended out) th w = None"

section \<open>Cancels, sweeps and heartbeats\<close>

fun cancel_step :: "answers \<Rightarrow> cancel_pc \<Rightarrow> exec_world \<Rightarrow> (cancel_pc \<times> exec_world) option" where
  "cancel_step a (CancelRead i) w =
     Some (case getOperation i (ew_journal w) of Inr (Some r) \<Rightarrow> CancelOwner i r | _ \<Rightarrow> CancelDone, w)"
| "cancel_step a (CancelOwner i r) w =
     Some (case getActiveProfile w of
             Some p \<Rightarrow> if op_profileId r = p then CancelWrite i p else CancelDone
           | None \<Rightarrow> CancelDone, w)"
| "cancel_step a (CancelWrite i p) w =
     Some (case transitionOperation (an_now a) i PCancelled None (ew_journal w) of
             (Inl e, j) \<Rightarrow> (CancelDone, w\<lparr>ew_journal := j\<rparr>)
           | (Inr r, j) \<Rightarrow> (CancelAbort i, w\<lparr>ew_journal := j, ew_cancelLog := ew_cancelLog w @ [(i, ByOwner p)]\<rparr>))"
| "cancel_step a (CancelAbort i) w =
     Some (let (cs, l) = abortCancelled i (ew_lane w) in (CancelDone, w\<lparr>ew_lane := l, ew_fired := ew_fired w @ cs\<rparr>))"
| "cancel_step a CancelDone w = None"

text \<open>
  The sweep of ended sessions: the map's iterator hands out its entries, those added meanwhile
  included; the next one is an argument, \<open>None\<close> the end of the iteration.
\<close>

fun sweep_step :: "answers \<Rightarrow> string option \<Rightarrow> sweep_pc \<Rightarrow> exec_world \<Rightarrow> (sweep_pc \<times> exec_world) option" where
  "sweep_step a nxt SweepNext w =
     (case nxt of
        None \<Rightarrow> Some (SweepDone, w)
      | Some i \<Rightarrow>
          (case js_get (el_activeControllers (ew_lane w)) i of
             None \<Rightarrow> None
           | Some e \<Rightarrow> Some (if Some (ce_serial e) = peekLiveSerial w then SweepNext else SweepWrite i (ce_serial e), w)))"
| "sweep_step a nxt (SweepWrite i serial) w =
     Some (case transitionIfStage (an_now a) i PRE_SUBMIT_STAGES PCancelled None None (ew_journal w) of
             (Inr (Transitioned r), j) \<Rightarrow> (SweepAbort i, w\<lparr>ew_journal := j, ew_cancelLog := ew_cancelLog w @ [(i, BySweep serial)]\<rparr>)
           | (_, j) \<Rightarrow> (SweepNext, w\<lparr>ew_journal := j\<rparr>))"
| "sweep_step a nxt (SweepAbort i) w =
     Some (let (cs, l) = abortCancelled i (ew_lane w) in (SweepNext, w\<lparr>ew_lane := l, ew_fired := ew_fired w @ cs\<rparr>))"
| "sweep_step a nxt SweepDone w = None"

text \<open>A heartbeat reads each collection once, before its first touch.\<close>

fun beat_step :: "answers \<Rightarrow> beat_pc \<Rightarrow> exec_world \<Rightarrow> (beat_pc \<times> exec_world) option" where
  "beat_step a (BeatWaiters (i # is)) w = Some (BeatWaiters is, on_journal (touchOperation (an_now a) i) w)"
| "beat_step a (BeatWaiters []) w = Some (BeatQueued (an_now a) (el_queuedWaiters (ew_lane w)), w)"
| "beat_step a (BeatQueued now ((i, registeredAt) # es)) w =
     Some (BeatQueued now es,
           if now - registeredAt > MAX_QUEUED_WAIT_HEARTBEAT_MS
           then on_lane (\<lambda>l. l\<lparr>el_queuedWaiters := js_del i (el_queuedWaiters l)\<rparr>) w
           else on_journal (touchOperation (an_now a) i) w)"
| "beat_step a (BeatQueued now []) w = Some (BeatDone, on_lane maybeStopHeartbeatTimer w)"
| "beat_step a BeatDone w = None"

section \<open>Steps of the world\<close>

text \<open>
  Beside the threads: the mutex settles its promises, the wallet-sdk handler vouches for queued
  records, sessions open and end, profiles are deleted, and any other caller uses the journal.
\<close>

definition waits_with :: "nat \<Rightarrow> nat \<Rightarrow> exec_world \<Rightarrow> bool" where
  "waits_with t c w \<longleftrightarrow> (\<exists>th\<in>set (ew_threads w). st_call th = Some t \<and> st_preController th = Some c)"

inductive exec_step :: "exec_world \<Rightarrow> exec_world \<Rightarrow> bool" where
  Step_Spawn: "ef_profileId (sj_fence job) \<noteq> [] \<Longrightarrow> exec_step w (w\<lparr>ew_threads := ew_threads w @ [new_thread job]\<rparr>)"
| Step_Send: "t < length (ew_threads w) \<Longrightarrow> send_step a t (st_pc (ew_threads w ! t)) (ew_threads w ! t) w = Some (th, w')
    \<Longrightarrow> exec_step w (w'\<lparr>ew_threads := (ew_threads w')[t := th]\<rparr>)"
| Step_Cancel_Call: "exec_step w (w\<lparr>ew_cancels := ew_cancels w @ [CancelRead i]\<rparr>)"
| Step_Cancel: "k < length (ew_cancels w) \<Longrightarrow> cancel_step a (ew_cancels w ! k) w = Some (pc, w')
    \<Longrightarrow> exec_step w (w'\<lparr>ew_cancels := (ew_cancels w')[k := pc]\<rparr>)"
| Step_Sweep_Call: "exec_step w (w\<lparr>ew_sweeps := ew_sweeps w @ [SweepNext]\<rparr>)"
| Step_Sweep: "k < length (ew_sweeps w) \<Longrightarrow> sweep_step a nxt (ew_sweeps w ! k) w = Some (pc, w')
    \<Longrightarrow> exec_step w (w'\<lparr>ew_sweeps := (ew_sweeps w')[k := pc]\<rparr>)"
| Step_Beat_Timer: "el_heartbeatTimer (ew_lane w)
    \<Longrightarrow> exec_step w (w\<lparr>ew_beats := ew_beats w @ [BeatWaiters (el_executionWaiters (ew_lane w))]\<rparr>)"
| Step_Beat: "k < length (ew_beats w) \<Longrightarrow> beat_step a (ew_beats w ! k) w = Some (pc, w')
    \<Longrightarrow> exec_step w (w'\<lparr>ew_beats := (ew_beats w')[k := pc]\<rparr>)"
| Step_Granted: "t < em_size (el_executionMutex (ew_lane w)) \<Longrightarrow> em_phase (el_executionMutex (ew_lane w)) t = AwaitsPrior
    \<Longrightarrow> prior_settled (el_executionMutex (ew_lane w)) t
    \<Longrightarrow> exec_step w (on_lane (el_executionMutex_update (set_phase t Holds)) w)"
| Step_Aborted: "t < em_size (el_executionMutex (ew_lane w)) \<Longrightarrow> em_phase (el_executionMutex (ew_lane w)) t = AwaitsPrior
    \<Longrightarrow> ac_signal (em_calls (el_executionMutex (ew_lane w)) ! t) \<Longrightarrow> waits_with t c w \<Longrightarrow> c \<in> set (ew_fired w)
    \<Longrightarrow> exec_step w (on_lane (el_executionMutex_update (set_phase t Aborted)) w)"
| Step_Unwound: "t < em_size (el_executionMutex (ew_lane w)) \<Longrightarrow> em_phase (el_executionMutex (ew_lane w)) t = Aborted
    \<Longrightarrow> prior_settled (el_executionMutex (ew_lane w)) t
    \<Longrightarrow> exec_step w (on_lane (el_executionMutex_update (release_call t)) w)"
| Step_Queued: "exec_step w (on_lane (beginQueuedWait now i) w)"
| Step_Unqueued: "exec_step w (on_lane (endQueuedWait i) w)"
| Step_Session: "exec_step w (w\<lparr>ew_session := s\<rparr>)"
| Step_Deletion: "exec_step w (w\<lparr>ew_deletion := d\<rparr>)"
| Step_Journal: "op_args_ok c \<Longrightarrow> exec_step w (on_journal (run_op c) w)"

text \<open>Worlds reached from a service worker's start, with whatever rows the journal then holds.\<close>

inductive exec_reachable :: "exec_world \<Rightarrow> bool" where
  Reach_Start: "keyed j \<Longrightarrow> jl_events j = [] \<Longrightarrow> exec_reachable (new_world j d)"
| Reach_Step: "exec_reachable w \<Longrightarrow> exec_step w w' \<Longrightarrow> exec_reachable w'"

inductive_cases exec_stepE: "exec_step w w'"

end
