(* ===== verification/Send_Safety.thy ===== *)
theory Send_Safety
  imports Send_Pipeline
begin

text \<open>
  Safety of the send pipeline. Each step of the world is first shown to make at most one call on the
  journal and to touch only its own part of the state; the invariants on the journal's history, the
  committed sends, the slots and the fired controllers follow by rule induction over the steps.
\<close>

section \<open>What a step touches\<close>

lemmas slot_defs = slot_start_def registerWaitingRecord_def fresh_controller_def register_def registerInFlight_def
  enter_mutex_def end_wait_def drop_queued_def slot_catch_def await_grant_def slot_fail_def await_fence_def

lemmas claim_defs = register_claimed_def claim_register_def claim_stage_def create_instead_def claim_read_def claim_refile_def
  claim_refiled_def claim_write_def disambiguateClaimFailure_def claim_create_def register_fresh_def refuseEndedSession_def

lemmas run_defs = unless_cancelled_def run_claimed_def mark_def after_simulating_def commit_submitting_def committed_def
  send_tx_def markFailedUnlessCancelled_def run_finally_def awaited_def awaited_check_def

lemmas seg_defs = slot_defs claim_defs run_defs at_pc_def

lemmas seg_splits = option.splits sum.splits prod.splits if_splits mutex_error.splits send_error.splits refile_outcome.splits send_path.splits

definition same_frame :: "exec_world \<Rightarrow> exec_world \<Rightarrow> bool" where
  "same_frame w w' \<longleftrightarrow> ew_fired w' = ew_fired w \<and> ew_session w' = ew_session w \<and> ew_deletion w' = ew_deletion w
     \<and> ew_threads w' = ew_threads w \<and> ew_cancels w' = ew_cancels w \<and> ew_sweeps w' = ew_sweeps w \<and> ew_beats w' = ew_beats w
     \<and> ew_cancelLog w' = ew_cancelLog w \<and> ew_nextController w \<le> ew_nextController w'"

lemma send_step_frame:
  assumes "send_step a t pc th w = Some (th', w')"
  shows "same_frame w w' \<and> st_job th' = st_job th"
  using assms by (cases pc) (auto simp: same_frame_def seg_defs Let_def split: seg_splits)

definition journal_call :: "journal \<Rightarrow> journal \<Rightarrow> bool" where
  "journal_call j j' \<longleftrightarrow> j' = j \<or> (\<exists>c. op_args_ok c \<and> j' = run_op c j)"

lemma journal_call_same [simp]: "journal_call j j"
  by (simp add: journal_call_def)

lemma journal_call_run: "op_args_ok c \<Longrightarrow> journal_call j (run_op c j)"
  by (auto simp: journal_call_def)

lemma journal_call_markJournal [simp]: "journal_call j (markJournal now i p e j)"
  using journal_call_mark [of now i p e j] journal_call_run [of "TransitionOp now (the i) p e" j] by auto

lemma journal_call_transition [simp]: "journal_call j (snd (transitionOperation now i p e j))"
  using journal_call_run [of "TransitionOp now i p e" j] by simp

lemma journal_call_commitJournal [simp]: "journal_call j (snd (commitJournal now i p j))"
  using journal_call_commit [of now i p j] journal_call_run [of "TransitionOp now (the i) p None" j] by auto

lemma journal_call_beginJournal [simp]: "journal_call j (snd (beginJournal f now draws fence n a nm calls j))"
  using journal_call_begin [of f now draws fence n a nm calls j]
    journal_call_run [of "CreateOp f now draws (dapp_execute_input fence n a nm calls)" j] by auto

lemma journal_call_refile [simp]:
  "rs_profileId s \<noteq> Some [] \<Longrightarrow> journal_call j (snd (refileOperationScope now i s ss j))"
  using journal_call_run [of "RefileOp now i s ss" j] by simp

lemma journal_call_touch [simp]: "journal_call j (touchOperation now i j)"
  using journal_call_run [of "TouchOp now i" j] by simp

lemma journal_call_sweep [simp]: "journal_call j (snd (transitionIfStage now i ss PCancelled None None j))"
  using journal_call_run [of "TransitionIfOp now i ss PCancelled None None" j] by (simp add: error_ok_def)

lemma snd_eqI: "p = (x, y) \<Longrightarrow> y = snd p"
  by simp

lemma send_step_journal:
  assumes "send_step a t pc th w = Some (th', w')" and "ef_profileId (sj_fence (st_job th)) \<noteq> []"
  shows "journal_call (ew_journal w) (ew_journal w')"
  using assms
  by (cases pc) (auto simp: seg_defs Let_def executing_scope_def split: seg_splits dest!: snd_eqI)

lemma cancel_step_frame:
  assumes "cancel_step a pc w = Some (pc', w')"
  shows "journal_call (ew_journal w) (ew_journal w') \<and> ew_threads w' = ew_threads w \<and> ew_sweeps w' = ew_sweeps w
    \<and> ew_cancels w' = ew_cancels w \<and> ew_beats w' = ew_beats w \<and> ew_broadcasts w' = ew_broadcasts w
    \<and> ew_nextController w' = ew_nextController w"
  using assms by (cases pc) (auto simp: Let_def split: prod.splits sum.splits dest!: snd_eqI)

lemma sweep_step_frame:
  assumes "sweep_step a nxt pc w = Some (pc', w')"
  shows "journal_call (ew_journal w) (ew_journal w') \<and> ew_threads w' = ew_threads w \<and> ew_sweeps w' = ew_sweeps w
    \<and> ew_cancels w' = ew_cancels w \<and> ew_beats w' = ew_beats w \<and> ew_broadcasts w' = ew_broadcasts w
    \<and> ew_nextController w' = ew_nextController w"
  using assms by (cases pc) (auto simp: Let_def split: prod.splits sum.splits option.splits cas_outcome.splits dest!: snd_eqI)

lemma beat_step_frame:
  assumes "beat_step a pc w = Some (pc', w')"
  shows "journal_call (ew_journal w) (ew_journal w') \<and> ew_threads w' = ew_threads w \<and> ew_sweeps w' = ew_sweeps w
    \<and> ew_cancels w' = ew_cancels w \<and> ew_beats w' = ew_beats w \<and> ew_broadcasts w' = ew_broadcasts w
    \<and> ew_nextController w' = ew_nextController w \<and> ew_fired w' = ew_fired w \<and> ew_cancelLog w' = ew_cancelLog w
    \<and> el_activeControllers (ew_lane w') = el_activeControllers (ew_lane w)
    \<and> el_executionMutex (ew_lane w') = el_executionMutex (ew_lane w)"
  using assms
  by (cases "(a, pc, w)" rule: beat_step.cases) (auto simp: maybeStopHeartbeatTimer_def split: if_splits)

section \<open>The journal stays a history\<close>

definition threads_ok :: "exec_world \<Rightarrow> bool" where
  "threads_ok w \<longleftrightarrow> (\<forall>th\<in>set (ew_threads w). ef_profileId (sj_fence (st_job th)) \<noteq> [])"

definition journal_safe :: "exec_world \<Rightarrow> bool" where
  "journal_safe w \<longleftrightarrow> keyed (ew_journal w) \<and> history_ok (ew_journal w) \<and> threads_ok w"

lemma threads_ok_step:
  assumes "exec_step w w'" and "threads_ok w"
  shows "threads_ok w'"
  using assms(1)
proof cases
  case (Step_Spawn job)
  then show ?thesis using assms(2) by (auto simp: threads_ok_def new_thread_def)
next
  case (Step_Send t a th w1)
  from send_step_frame [OF Step_Send(3)] have f: "ew_threads w1 = ew_threads w" "st_job th = st_job (ew_threads w ! t)"
    by (simp_all add: same_frame_def)
  then have "ef_profileId (sj_fence (st_job th)) \<noteq> []" using assms(2) Step_Send(2) by (simp add: threads_ok_def)
  with f assms(2) Step_Send(1) show ?thesis using set_update_subset_insert [of "ew_threads w" t th] by (auto simp: threads_ok_def)
next
  case (Step_Cancel k a pc w1)
  then show ?thesis using cancel_step_frame [OF Step_Cancel(3)] assms(2) by (simp add: threads_ok_def)
next
  case (Step_Sweep k a nxt pc w1)
  then show ?thesis using sweep_step_frame [OF Step_Sweep(3)] assms(2) by (simp add: threads_ok_def)
next
  case (Step_Beat k a pc w1)
  then show ?thesis using beat_step_frame [OF Step_Beat(3)] assms(2) by (simp add: threads_ok_def)
qed (use assms(2) in \<open>simp_all add: threads_ok_def\<close>)

lemma exec_step_journal:
  assumes "exec_step w w'" and "threads_ok w"
  shows "journal_call (ew_journal w) (ew_journal w')"
  using assms(1)
proof cases
  case (Step_Send t a th w1)
  have "ef_profileId (sj_fence (st_job (ew_threads w ! t))) \<noteq> []" using assms(2) Step_Send(2) by (simp add: threads_ok_def)
  from send_step_journal [OF Step_Send(3) this] show ?thesis by (simp add: Step_Send(1))
next
  case (Step_Cancel k a pc w1)
  then show ?thesis using cancel_step_frame [OF Step_Cancel(3)] by simp
next
  case (Step_Sweep k a nxt pc w1)
  then show ?thesis using sweep_step_frame [OF Step_Sweep(3)] by simp
next
  case (Step_Beat k a pc w1)
  then show ?thesis using beat_step_frame [OF Step_Beat(3)] by simp
qed (simp_all add: journal_call_run)

lemma journal_call_safe: "journal_call j j' \<Longrightarrow> keyed j \<Longrightarrow> history_ok j \<Longrightarrow> keyed j' \<and> history_ok j'"
  using run_op_keyed history_ok_emits run_op_emits by (auto simp: journal_call_def)

lemma journal_call_events: "journal_call j j' \<Longrightarrow> keyed j \<Longrightarrow> set (jl_events j) \<subseteq> set (jl_events j')"
  using run_op_emits by (fastforce simp: journal_call_def emits_def)

lemma journal_safe_reachable: "exec_reachable w \<Longrightarrow> journal_safe w"
proof (induction rule: exec_reachable.induct)
  case (Reach_Start j d)
  then show ?case by (simp add: journal_safe_def new_world_def history_ok_start threads_ok_def)
next
  case (Reach_Step w w')
  then show ?case
    using journal_call_safe [OF exec_step_journal [OF Reach_Step(2)]] threads_ok_step [OF Reach_Step(2)]
    by (simp add: journal_safe_def)
qed

lemma exec_step_events:
  assumes "exec_reachable w" "exec_step w w'"
  shows "set (jl_events (ew_journal w)) \<subseteq> set (jl_events (ew_journal w'))"
  using journal_safe_reachable [OF assms(1)] journal_call_events [OF exec_step_journal [OF assms(2)]]
  by (simp add: journal_safe_def)

section \<open>Committed and broadcast sends\<close>

text \<open>The journal announced the operation as submitting with this hash.\<close>

definition submitted :: "journal_event list \<Rightarrow> string \<Rightarrow> string \<Rightarrow> bool" where
  "submitted evs i h \<longleftrightarrow> (\<exists>r u. OperationUpdated r \<in> set evs \<and> op_id r = i \<and> op_progress r = PSubmitting (Some h) u)"

fun past_commit :: "send_pc \<Rightarrow> string option" where
  "past_commit (Committed h (Inr _)) = Some h"
| "past_commit (AwaitTerms h) = Some h"
| "past_commit (AwaitSend h) = Some h"
| "past_commit (RecordTx h) = Some h"
| "past_commit (SucceededWrite h) = Some h"
| "past_commit (AwaitReceipt h) = Some h"
| "past_commit _ = None"

fun past_send :: "send_pc \<Rightarrow> bool" where
  "past_send (AwaitSend _) = True"
| "past_send (RecordTx _) = True"
| "past_send (SucceededWrite _) = True"
| "past_send (AwaitReceipt _) = True"
| "past_send (RunCatch _) = True"
| "past_send (RunFinally _) = True"
| "past_send (Ended _) = True"
| "past_send _ = False"

lemma past_commit_Committed: "past_commit (Committed h r) = (case r of Inl _ \<Rightarrow> None | Inr _ \<Rightarrow> Some h)"
  by (cases r) simp_all

definition thread_committed :: "journal_event list \<Rightarrow> send_thread \<Rightarrow> bool" where
  "thread_committed evs th \<longleftrightarrow>
     (\<forall>h. past_commit (st_pc th) = Some h \<longrightarrow> (\<exists>i. st_journalId th = Some i \<and> submitted evs i h))"

definition broadcast_ok :: "exec_world \<Rightarrow> broadcast \<Rightarrow> bool" where
  "broadcast_ok w b \<longleftrightarrow> bc_thread b < length (ew_threads w)
     \<and> past_send (st_pc (ew_threads w ! bc_thread b))
     \<and> isFenceLive (bc_session b) (bc_deletion b) (sj_fence (st_job (ew_threads w ! bc_thread b)))
     \<and> (\<exists>i. bc_journalId b = Some i \<and> st_journalId (ew_threads w ! bc_thread b) = Some i
          \<and> submitted (jl_events (ew_journal w)) i (bc_txHash b))"

definition sends_ok :: "exec_world \<Rightarrow> bool" where
  "sends_ok w \<longleftrightarrow> (\<forall>th\<in>set (ew_threads w). thread_committed (jl_events (ew_journal w)) th)
     \<and> (\<forall>b\<in>set (ew_broadcasts w). broadcast_ok w b) \<and> distinct (map bc_thread (ew_broadcasts w))"

lemma submitted_mono: "submitted evs i h \<Longrightarrow> set evs \<subseteq> set evs' \<Longrightarrow> submitted evs' i h"
  by (auto simp: submitted_def)

lemma thread_committed_mono: "thread_committed evs th \<Longrightarrow> set evs \<subseteq> set evs' \<Longrightarrow> thread_committed evs' th"
  using submitted_mono by (fastforce simp: thread_committed_def)

text \<open>A thread gets past the commit only through a commit that succeeded.\<close>

lemma send_step_commit:
  assumes "send_step a t (st_pc th) th w = Some (th', w')" and "past_commit (st_pc th') = Some h"
  shows "st_journalId th' = st_journalId th \<and> (past_commit (st_pc th) = Some h
    \<or> (st_pc th = CommitWrite h \<and> (\<exists>u url. commitJournal (an_now a) (st_journalId th) (PSubmitting (Some h) url) (ew_journal w) = (Inr u, ew_journal w'))))"
  using assms by (cases "st_pc th") (auto simp: seg_defs Let_def after_success_def past_commit_Committed split: seg_splits)

lemma send_step_broadcast:
  assumes "send_step a t (st_pc th) th w = Some (th', w')"
  shows "(past_send (st_pc th) \<longrightarrow> past_send (st_pc th') \<and> st_journalId th' = st_journalId th)
    \<and> (ew_broadcasts w' = ew_broadcasts w
       \<or> (\<exists>h. st_pc th = AwaitTerms h \<and> past_send (st_pc th') \<and> st_journalId th' = st_journalId th
            \<and> isFenceLive (ew_session w) (ew_deletion w) (sj_fence (st_job th))
            \<and> ew_broadcasts w' = ew_broadcasts w @ [\<lparr>bc_thread = t, bc_journalId = st_journalId th, bc_txHash = h,
                 bc_session = ew_session w, bc_deletion = ew_deletion w\<rparr>]))"
  using assms by (cases "st_pc th") (auto simp: seg_defs Let_def after_success_def split: seg_splits)

lemma sends_ok_frame:
  assumes "sends_ok w" "ew_broadcasts w' = ew_broadcasts w" "ew_threads w' = ew_threads w @ ths"
    and "\<And>th. th \<in> set ths \<Longrightarrow> past_commit (st_pc th) = None"
    and ev: "set (jl_events (ew_journal w)) \<subseteq> set (jl_events (ew_journal w'))"
  shows "sends_ok w'"
proof -
  have "broadcast_ok w' b" if "broadcast_ok w b" for b
    using that submitted_mono [OF _ ev] by (auto simp: broadcast_ok_def assms(3) nth_append)
  moreover have "thread_committed (jl_events (ew_journal w')) th" if "th \<in> set (ew_threads w')" for th
    using that assms(1,3,4) thread_committed_mono [OF _ ev] by (auto simp: sends_ok_def thread_committed_def)
  ultimately show ?thesis using assms(1,2) by (simp add: sends_ok_def)
qed

text \<open>Every step but that of a send keeps the threads, adding at most a new one, and sends nothing.\<close>

lemma exec_step_others:
  assumes "exec_step w w'"
  obtains (send) t a th w1 where "t < length (ew_threads w)"
      "send_step a t (st_pc (ew_threads w ! t)) (ew_threads w ! t) w = Some (th, w1)"
      "w' = w1\<lparr>ew_threads := (ew_threads w)[t := th]\<rparr>"
  | (spawn) job where "ef_profileId (sj_fence job) \<noteq> []" "w' = w\<lparr>ew_threads := ew_threads w @ [new_thread job]\<rparr>"
  | (other) "ew_threads w' = ew_threads w" "ew_broadcasts w' = ew_broadcasts w" "ew_nextController w' = ew_nextController w"
  using assms
proof cases
  case (Step_Send t a th w1)
  then show ?thesis using that(1) [OF Step_Send(2,3)] send_step_frame [OF Step_Send(3)] by (simp add: same_frame_def)
next
  case (Step_Cancel k a pc w1)
  then show ?thesis using that(3) cancel_step_frame [OF Step_Cancel(3)] by simp
next
  case (Step_Sweep k a nxt pc w1)
  then show ?thesis using that(3) sweep_step_frame [OF Step_Sweep(3)] by simp
next
  case (Step_Beat k a pc w1)
  then show ?thesis using that(3) beat_step_frame [OF Step_Beat(3)] by simp
next
  case (Step_Spawn job)
  then show ?thesis by (rule that(2) [rotated])
qed (rule that(3); simp)+

lemma sends_ok_send:
  assumes w: "exec_reachable w" "sends_ok w" and t: "t < length (ew_threads w)"
    and step: "send_step a t (st_pc (ew_threads w ! t)) (ew_threads w ! t) w = Some (th, w1)"
    and ev: "set (jl_events (ew_journal w)) \<subseteq> set (jl_events (ew_journal w1))"
  shows "sends_ok (w1\<lparr>ew_threads := (ew_threads w)[t := th]\<rparr>)" (is "sends_ok ?w")
proof -
  let ?T = "ew_threads w ! t" and ?E = "jl_events (ew_journal w1)"
  note B = send_step_broadcast [OF step] and F = send_step_frame [OF step]
  have tt: "thread_committed (jl_events (ew_journal w)) ?T" using w(2) t by (simp add: sends_ok_def)
  have new: "thread_committed ?E th"
    unfolding thread_committed_def
  proof (intro allI impI)
    fix h assume h: "past_commit (st_pc th) = Some h"
    note C = send_step_commit [OF step h]
    show "\<exists>i. st_journalId th = Some i \<and> submitted ?E i h"
    proof (cases "past_commit (st_pc ?T) = Some h")
      case True
      with tt C submitted_mono [OF _ ev] show ?thesis by (auto simp: thread_committed_def)
    next
      case False
      with C obtain u url where "commitJournal (an_now a) (st_journalId ?T) (PSubmitting (Some h) url) (ew_journal w) = (Inr u, ew_journal w1)"
        by blast
      from commit_success_event [OF this] journal_safe_reachable [OF w(1)] C show ?thesis
        by (auto simp: journal_safe_def submitted_def)
    qed
  qed
  have threads: "thread_committed ?E x" if "x \<in> set ((ew_threads w)[t := th])" for x
  proof -
    from that have "x = th \<or> x \<in> set (ew_threads w)" using set_update_subset_insert [of "ew_threads w" t th] by auto
    then show ?thesis using new w(2) thread_committed_mono [OF _ ev] by (auto simp: sends_ok_def)
  qed
  have old: "broadcast_ok ?w b" if "b \<in> set (ew_broadcasts w)" for b
  proof -
    have "broadcast_ok w b" using that w(2) by (simp add: sends_ok_def)
    then obtain i where i: "bc_thread b < length (ew_threads w)" "past_send (st_pc (ew_threads w ! bc_thread b))"
        "isFenceLive (bc_session b) (bc_deletion b) (sj_fence (st_job (ew_threads w ! bc_thread b)))"
        "bc_journalId b = Some i" "st_journalId (ew_threads w ! bc_thread b) = Some i"
        "submitted (jl_events (ew_journal w)) i (bc_txHash b)" unfolding broadcast_ok_def by blast
    show ?thesis
    proof (cases "bc_thread b = t")
      case True
      with i B F submitted_mono [OF i(6) ev] show ?thesis by (simp add: broadcast_ok_def)
    next
      case False
      with i submitted_mono [OF i(6) ev] show ?thesis by (simp add: broadcast_ok_def)
    qed
  qed
  from B consider "ew_broadcasts w1 = ew_broadcasts w"
    | h where "st_pc ?T = AwaitTerms h" "past_send (st_pc th)" "st_journalId th = st_journalId ?T"
        "isFenceLive (ew_session w) (ew_deletion w) (sj_fence (st_job ?T))"
        "ew_broadcasts w1 = ew_broadcasts w @ [\<lparr>bc_thread = t, bc_journalId = st_journalId ?T, bc_txHash = h,
           bc_session = ew_session w, bc_deletion = ew_deletion w\<rparr>]" by blast
  then show ?thesis
  proof cases
    case 1
    with old threads w(2) show ?thesis by (simp add: sends_ok_def)
  next
    case (2 h)
    obtain i where i: "st_journalId ?T = Some i" "submitted (jl_events (ew_journal w)) i h"
      using tt 2(1) by (auto simp: thread_committed_def)
    let ?b = "\<lparr>bc_thread = t, bc_journalId = st_journalId ?T, bc_txHash = h, bc_session = ew_session w, bc_deletion = ew_deletion w\<rparr>"
    have "broadcast_ok ?w ?b"
      using 2 t i(1) F submitted_mono [OF i(2) ev] by (simp add: broadcast_ok_def)
    moreover have "t \<notin> bc_thread ` set (ew_broadcasts w)"
      using w(2) 2(1) by (force simp: sends_ok_def broadcast_ok_def)
    ultimately show ?thesis using old threads w(2) 2(5) by (simp add: sends_ok_def)
  qed
qed

lemma sends_ok_reachable: "exec_reachable w \<Longrightarrow> sends_ok w"
proof (induction rule: exec_reachable.induct)
  case (Reach_Start j d)
  then show ?case by (simp add: sends_ok_def new_world_def)
next
  case (Reach_Step w w')
  note ev = exec_step_events [OF Reach_Step(1,2)]
  from Reach_Step(2) show ?case
  proof (cases rule: exec_step_others)
    case (send t a th w1)
    with sends_ok_send [OF Reach_Step(1) Reach_Step.IH send(1,2)] ev show ?thesis by simp
  next
    case (spawn job)
    with sends_ok_frame [OF Reach_Step.IH _ _ _ ev, of "[new_thread job]"] show ?thesis by (simp add: new_thread_def)
  next
    case other
    with sends_ok_frame [OF Reach_Step.IH _ _ _ ev, of "[]"] show ?thesis by simp
  qed
qed

end
