(* ===== verification/Send_Slots.thy ===== *)
theory Send_Slots
  imports Send_Safety
begin

text \<open>
  Slots, vouching and progress of the send pipeline: who holds the mutex of a lane, what the heartbeat
  vouches for, and why a send ends.
\<close>

section \<open>Threads and their mutex calls\<close>

fun before_call :: "send_pc \<Rightarrow> bool" where
  "before_call SlotStart = True"
| "before_call RefusedWrite = True"
| "before_call AwaitFence = True"
| "before_call AwaitNetwork = True"
| "before_call _ = False"

fun out_of_slot :: "send_pc \<Rightarrow> bool" where
  "out_of_slot (SlotCatch _) = True"
| "out_of_slot (SlotFailWrite _ _) = True"
| "out_of_slot (SlotFinally _) = True"
| "out_of_slot (Ended _) = True"
| "out_of_slot _ = False"

definition in_slot :: "send_pc \<Rightarrow> bool" where
  "in_slot pc \<longleftrightarrow> \<not> before_call pc \<and> \<not> out_of_slot pc \<and> pc \<noteq> AwaitGrant"

abbreviation ew_mutex :: "exec_world \<Rightarrow> execution_mutex" where
  "ew_mutex w \<equiv> el_executionMutex (ew_lane w)"

definition lane_of :: "send_thread \<Rightarrow> execution_mutex \<Rightarrow> nat \<Rightarrow> bool" where
  "lane_of th m t \<longleftrightarrow> t < em_size m \<and> (\<exists>chainId. em_key m t = mutex_key (sj_fence (st_job th)) chainId)"

definition thread_slot :: "execution_mutex \<Rightarrow> send_thread \<Rightarrow> bool" where
  "thread_slot m th \<longleftrightarrow>
     (case st_call th of
        None \<Rightarrow> before_call (st_pc th) \<or> out_of_slot (st_pc th)
      | Some t \<Rightarrow> lane_of th m t \<and> \<not> before_call (st_pc th) \<and> (in_slot (st_pc th) \<longrightarrow> em_phase m t = Holds)
          \<and> (out_of_slot (st_pc th) \<longrightarrow> em_phase m t = Aborted \<or> em_phase m t = Released))"

lemma in_slot_simps [simp]: "\<not> in_slot AwaitGrant" "before_call pc \<Longrightarrow> \<not> in_slot pc" "out_of_slot pc \<Longrightarrow> \<not> in_slot pc"
  by (simp_all add: in_slot_def)

lemma lane_parts [simp]:
  "el_executionMutex (beginExecutionWait i l) = el_executionMutex l" "el_executionMutex (endExecutionWait i l) = el_executionMutex l"
  "el_executionMutex (beginQueuedWait now i l) = el_executionMutex l" "el_executionMutex (endQueuedWait i l) = el_executionMutex l"
  "el_executionMutex (deleteController i l) = el_executionMutex l" "el_executionMutex (snd (abortCancelled i l)) = el_executionMutex l"
  "el_executionMutex (maybeStopHeartbeatTimer l) = el_executionMutex l"
  by (simp_all add: beginExecutionWait_def ensureHeartbeatTimer_def endExecutionWait_def maybeStopHeartbeatTimer_def
      beginQueuedWait_def endQueuedWait_def deleteController_def abortCancelled_def split: option.split)

lemma send_step_inner:
  assumes "send_step a t pc th w = Some (th', w')" and "in_slot pc" and "\<And>out. pc \<noteq> RunFinally out"
  shows "ew_mutex w' = ew_mutex w \<and> st_call th' = st_call th \<and> in_slot (st_pc th')"
  using assms by (cases pc) (auto simp: in_slot_def seg_defs Let_def after_success_def split: seg_splits)

lemma send_step_outer:
  assumes "send_step a t pc th w = Some (th', w')" and "out_of_slot pc"
  shows "ew_mutex w' = ew_mutex w \<and> st_call th' = st_call th \<and> out_of_slot (st_pc th')"
  using assms by (cases pc) (auto simp: slot_defs at_pc_def Let_def split: seg_splits)

text \<open>A step of a thread leaves the mutex alone, acquires, or releases its own call.\<close>

lemma send_step_slot:
  assumes step: "send_step a t (st_pc th) th w = Some (th', w')" and sl: "thread_slot (ew_mutex w) th"
  shows "(ew_mutex w' = ew_mutex w \<and> st_call th' = st_call th \<and> thread_slot (ew_mutex w) th')
    \<or> (\<exists>chainId signal caps. st_call th = None \<and> st_pc th' = AwaitGrant \<and> st_call th' = Some (em_size (ew_mutex w))
         \<and> acquire (mutex_key (sj_fence (st_job th)) chainId) signal caps (ew_mutex w) = Inr (ew_mutex w'))
    \<or> (\<exists>c out. st_call th = Some c \<and> em_phase (ew_mutex w) c = Holds \<and> ew_mutex w' = release_call c (ew_mutex w)
         \<and> st_call th' = Some c \<and> st_pc th' = Ended out)"
proof (cases "st_call th")
  case None
  then show ?thesis using assms
    by (cases "st_pc th"; auto simp: thread_slot_def slot_defs at_pc_def Let_def split: seg_splits; blast)
next
  case (Some c)
  note job = conjunct2 [OF send_step_frame [OF step]]
  have slot: "lane_of th (ew_mutex w) c" "\<not> before_call (st_pc th)" using sl Some by (simp_all add: thread_slot_def)
  have lane: "lane_of th' (ew_mutex w) c" using slot(1) job by (simp add: lane_of_def)
  consider "out_of_slot (st_pc th)" | "st_pc th = AwaitGrant" | out where "st_pc th = RunFinally out"
    | "in_slot (st_pc th)" "\<And>out. st_pc th \<noteq> RunFinally out" using slot(2) by (auto simp: in_slot_def)
  then show ?thesis
  proof cases
    case 1
    from send_step_outer [OF step 1] have "\<not> before_call (st_pc th')" by (cases "st_pc th'") auto
    with send_step_outer [OF step 1] 1 Some sl lane show ?thesis by (simp add: thread_slot_def)
  next
    case 2
    then show ?thesis using step Some lane
      by (auto simp: await_grant_def Let_def thread_slot_def at_pc_def end_wait_def in_slot_def split: if_splits option.splits)
  next
    case (3 out)
    then show ?thesis using step Some sl
      by (auto simp: run_finally_def Let_def at_pc_def thread_slot_def in_slot_def split: if_splits)
  next
    case 4
    from send_step_inner [OF step 4] have "\<not> before_call (st_pc th')" "\<not> out_of_slot (st_pc th')" by (auto simp: in_slot_def)
    with send_step_inner [OF step 4] 4 Some sl lane show ?thesis by (simp add: thread_slot_def)
  qed
qed

section \<open>Slots\<close>

abbreviation any_acquire :: "string \<Rightarrow> acquire_caps option \<Rightarrow> bool" where
  "any_acquire key caps \<equiv> True"

definition calls_owned :: "send_thread list \<Rightarrow> execution_mutex \<Rightarrow> bool" where
  "calls_owned ths m \<longleftrightarrow> (\<forall>i k t. i < length ths \<longrightarrow> k < length ths \<longrightarrow> st_call (ths ! i) = Some t \<longrightarrow> st_call (ths ! k) = Some t \<longrightarrow> i = k)
     \<and> (\<forall>t<em_size m. \<exists>k<length ths. st_call (ths ! k) = Some t)"

definition slots_ok :: "exec_world \<Rightarrow> bool" where
  "slots_ok w \<longleftrightarrow> em_reachable any_acquire (ew_mutex w) \<and> (\<forall>th\<in>set (ew_threads w). thread_slot (ew_mutex w) th)
     \<and> calls_owned (ew_threads w) (ew_mutex w)"

text \<open>A call that moved from a phase that decides nothing, or from \<open>Aborted\<close> to \<open>Released\<close>, keeps every thread's slot.\<close>

lemma thread_slot_moved:
  assumes "call_moved t p m m'" "thread_slot m th"
    and "st_call th \<noteq> Some t \<or> em_phase m t = AwaitsPrior \<or> (em_phase m t = Aborted \<and> p = Released)"
  shows "thread_slot m' th"
proof (cases "st_call th")
  case (Some c)
  have "em_size m' = em_size m" "em_key m' c = em_key m c" "em_phase m' c = (if c = t then p else em_phase m c)"
    using assms(1) by (simp_all add: call_moved_def)
  with Some assms(2,3) show ?thesis by (auto simp: thread_slot_def lane_of_def)
qed (use assms(2) in \<open>simp add: thread_slot_def\<close>)

lemma slots_ok_moved:
  assumes "slots_ok w" "em_step any_acquire (ew_mutex w) m'" "call_moved t p (ew_mutex w) m'"
    and "em_phase (ew_mutex w) t = AwaitsPrior \<or> (em_phase (ew_mutex w) t = Aborted \<and> p = Released)"
    and "ew_mutex w' = m'" "ew_threads w' = ew_threads w"
  shows "slots_ok w'"
proof -
  have "\<forall>th\<in>set (ew_threads w). thread_slot m' th"
    using assms(1,4) thread_slot_moved [OF assms(3)] by (simp add: slots_ok_def)
  moreover have "em_reachable any_acquire m'" using assms(1,2) em_reachable.step by (auto simp: slots_ok_def)
  moreover have "calls_owned (ew_threads w) m'" using assms(1,3) by (simp add: slots_ok_def calls_owned_def call_moved_def)
  ultimately show ?thesis by (simp add: slots_ok_def assms(5,6))
qed

lemma thread_slot_appended:
  assumes "acquire key signal caps m = Inr m'" "thread_slot m th"
  shows "thread_slot m' th"
proof (cases "st_call th")
  case (Some c)
  with assms(2) have "c < em_size m" by (simp add: thread_slot_def lane_of_def)
  then have "em_calls m' ! c = em_calls m ! c" "c < em_size m'" by (simp_all add: acquire_calls [OF assms(1)] nth_append)
  with Some assms(2) show ?thesis by (simp add: thread_slot_def lane_of_def)
qed (use assms(2) in \<open>simp add: thread_slot_def\<close>)

lemma calls_owned_same:
  assumes "calls_owned ths m" "i < length ths" "st_call th = st_call (ths ! i)" "em_size m' = em_size m"
  shows "calls_owned (ths[i := th]) m'"
proof -
  have "st_call (ths[i := th] ! k) = st_call (ths ! k)" for k using assms(2,3) by (cases "k = i") auto
  with assms(1,4) show ?thesis by (simp add: calls_owned_def)
qed

lemma calls_owned_new:
  assumes "calls_owned ths m" "i < length ths" "st_call (ths ! i) = None" "st_call th = Some (em_size m)" "em_size m' = Suc (em_size m)"
    and fresh: "\<And>k c. k < length ths \<Longrightarrow> st_call (ths ! k) = Some c \<Longrightarrow> c < em_size m"
  shows "calls_owned (ths[i := th]) m'"
  unfolding calls_owned_def
proof (intro conjI allI impI)
  fix j k t assume "j < length (ths[i := th])" "k < length (ths[i := th])" "st_call (ths[i := th] ! j) = Some t" "st_call (ths[i := th] ! k) = Some t"
  then show "j = k"
    using assms(1,2,4) fresh [of j] fresh [of k] by (auto simp: calls_owned_def nth_list_update split: if_splits)
next
  fix t assume "t < em_size m'"
  then consider "t = em_size m" | k where "t < em_size m" "k < length ths" "st_call (ths ! k) = Some t"
    using assms(1,5) by (auto simp: calls_owned_def less_Suc_eq)
  then show "\<exists>k<length (ths[i := th]). st_call (ths[i := th] ! k) = Some t"
  proof cases
    case 1
    then show ?thesis using assms(2,4) by (intro exI [of _ i]) simp
  next
    case (2 k)
    then have "k \<noteq> i" using assms(3) by auto
    with 2 show ?thesis by (intro exI [of _ k]) simp
  qed
qed

lemma slots_ok_send:
  assumes w: "slots_ok w" and i: "i < length (ew_threads w)"
    and step: "send_step a i (st_pc (ew_threads w ! i)) (ew_threads w ! i) w = Some (th, w1)"
    and w': "ew_mutex w' = ew_mutex w1" "ew_threads w' = (ew_threads w)[i := th]"
  shows "slots_ok w'"
proof -
  let ?T = "ew_threads w ! i" and ?m = "ew_mutex w"
  have sl: "thread_slot ?m x" if "x \<in> set (ew_threads w)" for x using that w by (simp add: slots_ok_def)
  have own: "calls_owned (ew_threads w) ?m" using w by (simp add: slots_ok_def)
  have job: "st_job th = st_job ?T" using send_step_frame [OF step] by simp
  have sub: "x = th \<or> x \<in> set (ew_threads w)" if "x \<in> set ((ew_threads w)[i := th])" for x
    using that set_update_subset_insert [of "ew_threads w" i th] by auto
  from send_step_slot [OF step sl] i consider
      (same) "ew_mutex w1 = ?m" "st_call th = st_call ?T" "thread_slot ?m th"
    | (enter) chainId signal caps where "st_call ?T = None" "st_pc th = AwaitGrant" "st_call th = Some (em_size ?m)"
        "acquire (mutex_key (sj_fence (st_job ?T)) chainId) signal caps ?m = Inr (ew_mutex w1)"
    | (leave) c out where "st_call ?T = Some c" "em_phase ?m c = Holds" "ew_mutex w1 = release_call c ?m"
        "st_call th = Some c" "st_pc th = Ended out" by auto
  then show ?thesis
  proof cases
    case same
    then show ?thesis using w sl sub calls_owned_same [OF own i same(2)] by (auto simp: slots_ok_def w')
  next
    case enter
    note calls = acquire_calls [OF enter(4)]
    have "thread_slot (ew_mutex w1) th"
      using enter job by (auto simp: thread_slot_def lane_of_def calls)
    moreover have "em_reachable any_acquire (ew_mutex w1)"
      using w enter(4) em_reachable.step em_step.acquired by (fastforce simp: slots_ok_def)
    moreover have "calls_owned ((ew_threads w)[i := th]) (ew_mutex w1)"
      by (rule calls_owned_new [OF own i enter(1,3)])
        (use sl in \<open>fastforce simp: calls thread_slot_def lane_of_def dest: nth_mem\<close>)+
    ultimately show ?thesis using sub sl thread_slot_appended [OF enter(4)] by (auto simp: slots_ok_def w')
  next
    case leave
    have c: "c < em_size ?m" using sl [of ?T] i leave(1) by (auto simp: thread_slot_def lane_of_def)
    have mv: "call_moved c Released ?m (ew_mutex w1)" using release_call_moved(1) [OF c] leave(2,3) by simp
    have "thread_slot (ew_mutex w1) th"
      using sl [of ?T] i leave job mv by (auto simp: thread_slot_def lane_of_def call_moved_def)
    moreover have "em_reachable any_acquire (ew_mutex w1)"
      using w leave(2,3) c em_reachable.step em_step.released [of c ?m any_acquire] by (auto simp: slots_ok_def)
    moreover have "thread_slot (ew_mutex w1) ((ew_threads w)[i := th] ! k)" if "k < length (ew_threads w)" "k \<noteq> i" for k
    proof -
      have "st_call (ew_threads w ! k) \<noteq> Some c" using own i leave(1) that by (auto simp: calls_owned_def)
      with that thread_slot_moved [OF mv sl] show ?thesis by simp
    qed
    ultimately have "\<forall>x\<in>set ((ew_threads w)[i := th]). thread_slot (ew_mutex w1) x"
      using i by (auto simp: all_set_conv_all_nth nth_list_update)
    moreover have "calls_owned ((ew_threads w)[i := th]) (ew_mutex w1)"
      using calls_owned_same [OF own i] leave mv by (simp add: call_moved_def)
    ultimately show ?thesis using \<open>em_reachable any_acquire (ew_mutex w1)\<close> by (simp add: slots_ok_def w')
  qed
qed

lemma mutex_kept:
  "cancel_step a pc w = Some (pc', w') \<Longrightarrow> ew_mutex w' = ew_mutex w"
  "sweep_step a nxt spc w = Some (spc', w') \<Longrightarrow> ew_mutex w' = ew_mutex w"
  by (cases pc; auto simp: Let_def split: prod.splits sum.splits dest!: snd_eqI)
    (cases spc; auto simp: Let_def split: prod.splits sum.splits option.splits cas_outcome.splits dest!: snd_eqI)

lemma slots_ok_same: "slots_ok w \<Longrightarrow> ew_mutex w' = ew_mutex w \<Longrightarrow> ew_threads w' = ew_threads w \<Longrightarrow> slots_ok w'"
  by (simp add: slots_ok_def)

lemma slots_ok_step:
  assumes "exec_step w w'" "slots_ok w"
  shows "slots_ok w'"
  using assms(1)
proof cases
  case (Step_Spawn job)
  have "calls_owned (ew_threads w @ [new_thread job]) (ew_mutex w)"
    using assms(2) by (fastforce simp: slots_ok_def calls_owned_def new_thread_def nth_append less_Suc_eq split: if_splits)
  moreover have "thread_slot (ew_mutex w) (new_thread job)" by (simp add: thread_slot_def new_thread_def)
  ultimately show ?thesis using assms(2) Step_Spawn by (auto simp: slots_ok_def)
next
  case (Step_Send t a th w1)
  have "ew_threads w1 = ew_threads w" using send_step_frame [OF Step_Send(3)] by (simp add: same_frame_def)
  with Step_Send slots_ok_send [OF assms(2) Step_Send(2,3)] show ?thesis by simp
next
  case (Step_Cancel k a pc w1)
  then show ?thesis using cancel_step_frame [OF Step_Cancel(3)] mutex_kept(1) [OF Step_Cancel(3)] slots_ok_same [OF assms(2)] by simp
next
  case (Step_Sweep k a nxt pc w1)
  then show ?thesis using sweep_step_frame [OF Step_Sweep(3)] mutex_kept(2) [OF Step_Sweep(3)] slots_ok_same [OF assms(2)] by simp
next
  case (Step_Beat k a pc w1)
  then show ?thesis using beat_step_frame [OF Step_Beat(3)] slots_ok_same [OF assms(2)] by simp
next
  case (Step_Granted t)
  show ?thesis
    by (rule slots_ok_moved [OF assms(2) _ call_moved_set_phase [OF Step_Granted(2), of Holds]])
      (use Step_Granted in \<open>simp_all add: em_step.granted\<close>)
next
  case (Step_Aborted t c)
  show ?thesis
    by (rule slots_ok_moved [OF assms(2) _ call_moved_set_phase [OF Step_Aborted(2), of Aborted]])
      (use Step_Aborted in \<open>simp_all add: em_step.aborted\<close>)
next
  case (Step_Unwound t)
  show ?thesis
    by (rule slots_ok_moved [OF assms(2) _ release_call_moved(1) [OF Step_Unwound(2)]])
      (use Step_Unwound in \<open>simp_all add: em_step.unwound\<close>)
qed (simp_all add: slots_ok_same [OF assms(2)])

lemma slots_ok_reachable: "exec_reachable w \<Longrightarrow> slots_ok w"
proof (induction rule: exec_reachable.induct)
  case (Reach_Start j d)
  have "em_size new_mutex = 0" by (simp add: new_mutex_def)
  then show ?case by (simp add: slots_ok_def new_world_def new_lane_def em_reachable.start calls_owned_def)
qed (rule slots_ok_step)

end
