(* ===== verification/Send_Cancel.thy ===== *)
theory Send_Cancel
  imports Send_Slots
begin

text \<open>
  Cancellation of sends: a controller is fired only for the operation whose record the journal has
  already taken to cancelled, and never for one that was broadcast.
\<close>

section \<open>Threads and their controllers\<close>

fun unclaimed :: "send_pc \<Rightarrow> bool" where
  "unclaimed SlotStart = True"
| "unclaimed RefusedWrite = True"
| "unclaimed AwaitFence = True"
| "unclaimed AwaitNetwork = True"
| "unclaimed AwaitGrant = True"
| "unclaimed (SlotCatch _) = True"
| "unclaimed (SlotFailWrite _ _) = True"
| "unclaimed (SlotFinally _) = True"
| "unclaimed ClaimRead = True"
| "unclaimed ClaimRefile = True"
| "unclaimed (ClaimRefiled _) = True"
| "unclaimed ClaimWrite = True"
| "unclaimed ClaimRegister = True"
| "unclaimed (ClaimRecheck _) = True"
| "unclaimed ClaimCreate = True"
| "unclaimed (ClaimFresh _) = True"
| "unclaimed (ClaimRefuse _) = True"
| "unclaimed (Claimed _ _) = True"
| "unclaimed _ = False"

fun claimed_as :: "send_pc \<Rightarrow> nat \<Rightarrow> string option" where
  "claimed_as (Claimed i c') c = (if c' = c then Some i else None)"
| "claimed_as _ c = None"

text \<open>The record a thread has registered a controller for.\<close>

definition controller_id :: "send_thread \<Rightarrow> nat \<Rightarrow> string option" where
  "controller_id th c =
     (if st_preController th = Some c then queued_id (st_job th)
      else if st_controller th = Some c then st_journalId th
      else claimed_as (st_pc th) c)"

definition named :: "nat \<Rightarrow> send_thread \<Rightarrow> bool" where
  "named n th \<longleftrightarrow>
     (st_pc th = SlotStart \<longrightarrow> st_preController th = None)
     \<and> (\<forall>c. st_preController th = Some c \<longrightarrow> c < n \<and> queued_id (st_job th) \<noteq> None)
     \<and> (unclaimed (st_pc th) \<longrightarrow> st_controller th = None)
     \<and> (\<forall>c. st_controller th = Some c \<longrightarrow> c < n \<and> st_journalId th \<noteq> None
          \<and> (st_preController th = Some c \<longrightarrow> st_journalId th = queued_id (st_job th)))
     \<and> (\<forall>i c. st_pc th = Claimed i c \<longrightarrow> c < n \<and> (st_preController th = Some c \<longrightarrow> queued_id (st_job th) = Some i))"

lemma namedD:
  assumes "named n th"
  shows "st_pc th = SlotStart \<Longrightarrow> st_preController th = None"
    and "st_preController th = Some c \<Longrightarrow> c < n \<and> queued_id (st_job th) \<noteq> None"
    and "unclaimed (st_pc th) \<Longrightarrow> st_controller th = None"
    and "st_controller th = Some c \<Longrightarrow> c < n \<and> st_journalId th \<noteq> None
      \<and> (st_preController th = Some c \<longrightarrow> st_journalId th = queued_id (st_job th))"
    and "st_pc th = Claimed i c \<Longrightarrow> c < n \<and> (st_preController th = Some c \<longrightarrow> queued_id (st_job th) = Some i)"
  using assms by (auto simp: named_def)

lemma named_mono: "named n th \<Longrightarrow> n \<le> n' \<Longrightarrow> named n' th"
  by (fastforce simp: named_def)

lemma named_bound: "named n th \<Longrightarrow> controller_id th c \<noteq> None \<Longrightarrow> c < n"
  by (cases "st_pc th") (auto simp: named_def controller_id_def split: if_splits)

abbreviation ew_controllers :: "exec_world \<Rightarrow> (string, controller_entry) jsmap" where
  "ew_controllers w \<equiv> el_activeControllers (ew_lane w)"

lemma controllers_parts [simp]:
  "el_activeControllers (beginExecutionWait i l) = el_activeControllers l" "el_activeControllers (endExecutionWait i l) = el_activeControllers l"
  "el_activeControllers (beginQueuedWait now i l) = el_activeControllers l" "el_activeControllers (endQueuedWait i l) = el_activeControllers l"
  "el_activeControllers (deleteController i l) = js_del i (el_activeControllers l)"
  "el_activeControllers (maybeStopHeartbeatTimer l) = el_activeControllers l"
  by (simp_all add: beginExecutionWait_def ensureHeartbeatTimer_def endExecutionWait_def maybeStopHeartbeatTimer_def
      beginQueuedWait_def endQueuedWait_def deleteController_def)

text \<open>A step of a thread uses one new controller at most, and registers it under its own record.\<close>

lemma send_step_pre:
  assumes "send_step a t (st_pc th) th w = Some (th', w')"
  shows "st_preController th' = st_preController th
    \<or> (st_pc th = SlotStart \<and> st_preController th' = Some (ew_nextController w) \<and> ew_nextController w' = Suc (ew_nextController w))"
  using assms by (cases "st_pc th"; auto simp: seg_defs Let_def split: seg_splits)

lemma send_step_claims:
  assumes "send_step a t (st_pc th) th w = Some (th', w')" and "st_pc th' = Claimed i c"
  shows "(st_preController th = Some c \<and> i = the (queued_id (st_job th))) \<or> (c = ew_nextController w \<and> ew_nextController w' = Suc c)"
  using assms by (cases "st_pc th"; auto simp: seg_defs Let_def after_success_def split: seg_splits)

lemma send_step_controller:
  assumes "send_step a t (st_pc th) th w = Some (th', w')"
  shows "(st_controller th' = st_controller th \<and> st_journalId th' = st_journalId th)
    \<or> (\<exists>i c. st_pc th = Claimed i c \<and> st_controller th' = Some c \<and> st_journalId th' = Some i)"
  using assms by (cases "st_pc th"; auto simp: seg_defs Let_def split: seg_splits)

lemma send_step_unclaimed:
  assumes "send_step a t (st_pc th) th w = Some (th', w')"
  shows "st_pc th' \<noteq> SlotStart \<and> (unclaimed (st_pc th') \<longrightarrow> unclaimed (st_pc th) \<and> (\<forall>i c. st_pc th \<noteq> Claimed i c))"
  using assms by (cases "st_pc th"; auto simp: seg_defs Let_def after_success_def split: seg_splits)

lemma send_step_named:
  assumes step: "send_step a t (st_pc th) th w = Some (th', w')" and n: "named (ew_nextController w) th"
  shows "named (ew_nextController w') th'"
proof -
  let ?n = "ew_nextController w" and ?n' = "ew_nextController w'"
  have le: "?n \<le> ?n'" and job: "st_job th' = st_job th" using send_step_frame [OF step] by (simp_all add: same_frame_def)
  note P = send_step_pre [OF step] and U = send_step_unclaimed [OF step] and C = send_step_controller [OF step]
  have pre: "c < ?n' \<and> queued_id (st_job th') \<noteq> None" if c: "st_preController th' = Some c" for c
  proof (cases "st_preController th' = st_preController th")
    case True
    then have "st_preController th = Some c" using c by simp
    from namedD(2) [OF n this] le job show ?thesis by simp
  next
    case False
    with P have s: "st_pc th = SlotStart" "st_preController th' = Some (ew_nextController w)" "?n' = Suc ?n" by auto
    have "queued_id (st_job th) \<noteq> None"
      using False step s(1) by (auto simp: slot_start_def registerWaitingRecord_def at_pc_def split: if_splits option.splits)
    with s c job show ?thesis by simp
  qed
  have unc: "st_controller th' = None" if "unclaimed (st_pc th')" using U C namedD(3) [OF n] that by auto
  have pres: "st_preController th' = st_preController th" if "st_pc th \<noteq> SlotStart" using P that by blast
  have ctl: "c < ?n' \<and> st_journalId th' \<noteq> None \<and> (st_preController th' = Some c \<longrightarrow> st_journalId th' = queued_id (st_job th'))"
    if c: "st_controller th' = Some c" for c
    using C
  proof (elim disjE conjE exE)
    assume same: "st_controller th' = st_controller th" "st_journalId th' = st_journalId th"
    then have c': "st_controller th = Some c" using c by simp
    then have "st_pc th \<noteq> SlotStart" using namedD(3) [OF n] by auto
    from pres [OF this] same namedD(4) [OF n c'] le job show ?thesis by simp
  next
    fix i c' assume cl: "st_pc th = Claimed i c'" "st_controller th' = Some c'" "st_journalId th' = Some i"
    then have "st_preController th' = st_preController th" using pres by simp
    with cl c namedD(5) [OF n cl(1)] le job show ?thesis by simp
  qed
  have claim: "c < ?n' \<and> (st_preController th' = Some c \<longrightarrow> queued_id (st_job th') = Some i)" if c: "st_pc th' = Claimed i c" for i c
    using send_step_claims [OF step c]
  proof (elim disjE conjE)
    assume p: "st_preController th = Some c" "i = the (queued_id (st_job th))"
    with namedD(2) [OF n p(1)] le job show ?thesis by auto
  next
    assume f: "c = ?n" "?n' = Suc c"
    have "st_preController th' \<noteq> Some c"
    proof
      assume "st_preController th' = Some c"
      with P f namedD(2) [OF n, of c] have "st_pc th = SlotStart" by auto
      with step c show False by (auto simp: slot_start_def registerWaitingRecord_def at_pc_def Let_def split: if_splits option.splits prod.splits)
    qed
    with f show ?thesis by simp
  qed
  show ?thesis unfolding named_def using U pre unc ctl claim by blast
qed

lemma send_step_registers:
  assumes "send_step a t (st_pc th) th w = Some (th', w')" and "js_get (ew_controllers w') i = Some e"
  shows "js_get (ew_controllers w) i = Some e \<or> st_pc th' = Claimed i (ce_controller e)
    \<or> (st_preController th' = Some (ce_controller e) \<and> queued_id (st_job th') = Some i)"
  using assms
  by (cases "st_pc th"; auto simp: seg_defs Let_def js_get_set js_get_del split: seg_splits)

lemma send_step_controllers:
  assumes "send_step a t (st_pc th) th w = Some (th', w')" and "named (ew_nextController w) th"
    and "js_get (ew_controllers w') i = Some e"
  shows "js_get (ew_controllers w) i = Some e \<or> controller_id th' (ce_controller e) = Some i"
  using send_step_registers [OF assms(1,3)]
proof (elim disjE conjE)
  assume c: "st_pc th' = Claimed i (ce_controller e)"
  note n = send_step_named [OF assms(1,2)]
  from namedD(3) [OF n] namedD(5) [OF n c] c show ?thesis by (simp add: controller_id_def)
qed (simp_all add: controller_id_def)

lemma send_step_ids:
  assumes step: "send_step a t (st_pc th) th w = Some (th', w')" and n: "named (ew_nextController w) th"
    and i: "controller_id th' c = Some i"
  shows "controller_id th c = Some i \<or> (c = ew_nextController w \<and> ew_nextController w' = Suc c)"
proof -
  have job: "st_job th' = st_job th" using send_step_frame [OF step] by simp
  note n' = send_step_named [OF step n]
  consider (pre) "st_preController th' = Some c" | (ctl) "st_preController th' \<noteq> Some c" "st_controller th' = Some c" "st_journalId th' = Some i"
    | (claim) "st_preController th' \<noteq> Some c" "claimed_as (st_pc th') c = Some i"
    using i unfolding controller_id_def by (auto split: if_splits)
  then show ?thesis
  proof cases
    case pre
    then show ?thesis using send_step_pre [OF step] i job by (auto simp: controller_id_def)
  next
    case ctl
    have old: "st_preController th = st_preController th' \<or> st_pc th = SlotStart" using send_step_pre [OF step] by auto
    from send_step_controller [OF step] show ?thesis
    proof (elim disjE conjE exE)
      assume same: "st_controller th' = st_controller th" "st_journalId th' = st_journalId th"
      then have "st_pc th \<noteq> SlotStart" using ctl namedD(3) [OF n] by auto
      with same ctl old show ?thesis by (simp add: controller_id_def)
    next
      fix i' c' assume cl: "st_pc th = Claimed i' c'" "st_controller th' = Some c'" "st_journalId th' = Some i'"
      then have "st_controller th = None" using namedD(3) [OF n] by simp
      with cl ctl old show ?thesis by (simp add: controller_id_def)
    qed
  next
    case claim
    then have "st_pc th' = Claimed i c" by (cases "st_pc th'") (simp_all split: if_splits)
    from send_step_claims [OF step this] show ?thesis
    proof
      assume "st_preController th = Some c \<and> i = the (queued_id (st_job th))"
      then have p: "st_preController th = Some c" by simp
      then have "st_pc th \<noteq> SlotStart" using namedD(1) [OF n] by auto
      with send_step_pre [OF step] p claim(1) show ?thesis by simp
    qed simp
  qed
qed

section \<open>Fired controllers\<close>

definition logged :: "exec_world \<Rightarrow> string \<Rightarrow> bool" where
  "logged w i \<longleftrightarrow> i \<in> fst ` set (ew_cancelLog w)"

definition agrees :: "send_thread list \<Rightarrow> nat \<Rightarrow> string \<Rightarrow> bool" where
  "agrees ths c i \<longleftrightarrow> (\<forall>th\<in>set ths. controller_id th c \<noteq> None \<longrightarrow> controller_id th c = Some i)"

definition one_user :: "send_thread list \<Rightarrow> bool" where
  "one_user ths \<longleftrightarrow> (\<forall>i k c. i < length ths \<longrightarrow> k < length ths \<longrightarrow> controller_id (ths ! i) c \<noteq> None \<longrightarrow> controller_id (ths ! k) c \<noteq> None \<longrightarrow> i = k)"

definition registry_ok :: "exec_world \<Rightarrow> bool" where
  "registry_ok w \<longleftrightarrow> (\<forall>i e. js_get (ew_controllers w) i = Some e \<longrightarrow> ce_controller e < ew_nextController w \<and> agrees (ew_threads w) (ce_controller e) i)"

definition fired_ok :: "exec_world \<Rightarrow> bool" where
  "fired_ok w \<longleftrightarrow> (\<forall>c\<in>set (ew_fired w). c < ew_nextController w \<and> (\<exists>i. logged w i \<and> agrees (ew_threads w) c i))"

definition aborts_ok :: "exec_world \<Rightarrow> bool" where
  "aborts_ok w \<longleftrightarrow> (\<forall>i. CancelAbort i \<in> set (ew_cancels w) \<or> SweepAbort i \<in> set (ew_sweeps w) \<longrightarrow> logged w i)"

definition cancels_ok :: "exec_world \<Rightarrow> bool" where
  "cancels_ok w \<longleftrightarrow> (\<forall>th\<in>set (ew_threads w). named (ew_nextController w) th) \<and> one_user (ew_threads w)
     \<and> registry_ok w \<and> fired_ok w \<and> aborts_ok w"

lemma fresh_thread [simp]: "named n (new_thread job)" "controller_id (new_thread job) c = None"
  by (simp_all add: named_def new_thread_def controller_id_def)

lemma agrees_update:
  assumes "agrees ths c i" "t < length ths" "\<And>i'. controller_id th c = Some i' \<Longrightarrow> controller_id (ths ! t) c = Some i'"
  shows "agrees (ths[t := th]) c i"
  unfolding agrees_def
proof (intro ballI impI)
  fix x assume x: "x \<in> set (ths[t := th])" "controller_id x c \<noteq> None"
  then consider "x = th" | "x \<in> set ths" using set_update_subset_insert [of ths t th] by auto
  then show "controller_id x c = Some i"
  proof cases
    case 1
    with x(2) obtain i' where "controller_id th c = Some i'" by auto
    with assms(3) [OF this] assms(1,2) 1 show ?thesis by (auto simp: agrees_def)
  qed (use assms(1) x(2) in \<open>simp add: agrees_def\<close>)
qed

lemma one_user_agrees:
  assumes "one_user ths" "t < length ths" "controller_id (ths ! t) c = Some i"
  shows "agrees ths c i"
  unfolding agrees_def
proof (intro ballI impI)
  fix x assume "x \<in> set ths" "controller_id x c \<noteq> None"
  then obtain k where k: "k < length ths" "x = ths ! k" "controller_id (ths ! k) c \<noteq> None" by (auto simp: in_set_conv_nth)
  then have "k = t" using assms unfolding one_user_def by blast
  with k assms(3) show "controller_id x c = Some i" by simp
qed

lemma cancels_ok_send:
  assumes ok: "cancels_ok w" and t: "t < length (ew_threads w)"
    and step: "send_step a t (st_pc (ew_threads w ! t)) (ew_threads w ! t) w = Some (th, w1)"
  shows "cancels_ok (w1\<lparr>ew_threads := (ew_threads w)[t := th]\<rparr>)" (is "cancels_ok ?w")
proof -
  let ?T = "ew_threads w ! t" and ?ths = "ew_threads w" and ?n = "ew_nextController w"
  note F = conjunct1 [OF send_step_frame [OF step], unfolded same_frame_def]
  have nm: "named ?n x" if "x \<in> set ?ths" for x using ok that by (simp add: cancels_ok_def)
  have nT: "named ?n ?T" using nm t by simp
  have user: "one_user ?ths" using ok by (simp add: cancels_ok_def)
  have ids: "controller_id ?T c = Some i \<or> (c = ?n \<and> ew_nextController w1 = Suc c)" if "controller_id th c = Some i" for c i
    using send_step_ids [OF step nT that] .
  have unused: "controller_id x ?n = None" if "x \<in> set ?ths" for x using named_bound [OF nm [OF that], of ?n] by (cases "controller_id x ?n") auto
  have "named (ew_nextController w1) x" if "x \<in> set (?ths[t := th])" for x
    using that set_update_subset_insert [of ?ths t th] send_step_named [OF step nT] named_mono [OF nm] F by auto
  moreover have user': "one_user (?ths[t := th])"
    unfolding one_user_def
  proof (intro allI impI)
    fix i k c
    assume a: "i < length (?ths[t := th])" "k < length (?ths[t := th])"
      "controller_id (?ths[t := th] ! i) c \<noteq> None" "controller_id (?ths[t := th] ! k) c \<noteq> None"
    have old: "controller_id (?ths ! j) c \<noteq> None \<or> (j = t \<and> c = ?n)" if "j < length ?ths" "controller_id (?ths[t := th] ! j) c \<noteq> None" for j
      using that ids t by (cases "j = t") fastforce+
    have "j = t" if "j < length ?ths" "c = ?n" "controller_id (?ths[t := th] ! j) c \<noteq> None" for j
      using that unused [of "?ths ! j"] by (cases "j = t") auto
    with a old [of i] old [of k] user show "i = k" unfolding one_user_def by (metis length_list_update)
  qed
  moreover have "registry_ok ?w"
    unfolding registry_ok_def
  proof (intro allI impI)
    fix i e assume e: "js_get (ew_controllers ?w) i = Some e"
    let ?c = "ce_controller e"
    show "?c < ew_nextController ?w \<and> agrees (ew_threads ?w) ?c i"
    proof (cases "js_get (ew_controllers w) i = Some e")
      case True
      then have r: "?c < ?n" "agrees ?ths ?c i" using ok by (auto simp: cancels_ok_def registry_ok_def)
      have "agrees (?ths[t := th]) ?c i" by (rule agrees_update [OF r(2) t]) (metis ids r(1) less_irrefl)
      with r F show ?thesis by simp
    next
      case False
      with send_step_controllers [OF step nT, of i e] e have new: "controller_id th ?c = Some i" by simp
      have "agrees (?ths[t := th]) ?c i" using one_user_agrees [OF user', of t ?c i] t new by simp
      moreover have "?c < ew_nextController w1" using named_bound [OF send_step_named [OF step nT], of ?c] new by simp
      ultimately show ?thesis by simp
    qed
  qed
  moreover have "fired_ok ?w"
    unfolding fired_ok_def
  proof
    fix c assume "c \<in> set (ew_fired ?w)"
    then have "c \<in> set (ew_fired w)" using F by simp
    then obtain i where i: "c < ?n" "logged w i" "agrees ?ths c i" using ok unfolding cancels_ok_def fired_ok_def by blast
    have "agrees (?ths[t := th]) c i" by (rule agrees_update [OF i(3) t]) (metis ids i(1) less_irrefl)
    with i F show "c < ew_nextController ?w \<and> (\<exists>i. logged ?w i \<and> agrees (ew_threads ?w) c i)" by (auto simp: logged_def)
  qed
  moreover have "aborts_ok ?w" using ok F by (simp add: cancels_ok_def aborts_ok_def logged_def)
  ultimately show ?thesis by (simp add: cancels_ok_def)
qed

text \<open>The steps that are not a send's: what they do to the controllers and the log.\<close>

lemma abort_controllers:
  assumes "abortCancelled i l = (cs, l')"
  shows "\<And>k e. js_get (el_activeControllers l') k = Some e \<Longrightarrow> js_get (el_activeControllers l) k = Some e"
    and "\<And>c. c \<in> set cs \<Longrightarrow> \<exists>e. js_get (el_activeControllers l) i = Some e \<and> ce_controller e = c"
  using assms by (auto simp: abortCancelled_def js_get_del split: option.splits if_splits)

definition log_grows :: "exec_world \<Rightarrow> exec_world \<Rightarrow> bool" where
  "log_grows w w' \<longleftrightarrow> set (ew_cancelLog w) \<subseteq> set (ew_cancelLog w')
     \<and> (\<forall>k e. js_get (ew_controllers w') k = Some e \<longrightarrow> js_get (ew_controllers w) k = Some e)
     \<and> (\<forall>c\<in>set (ew_fired w'). c \<in> set (ew_fired w)
          \<or> (\<exists>i e. logged w i \<and> js_get (ew_controllers w) i = Some e \<and> ce_controller e = c))"

lemma cancels_ok_grows:
  assumes ok: "cancels_ok w" and g: "log_grows w w'" and f: "ew_nextController w' = ew_nextController w" "ew_threads w' = ew_threads w"
    and a: "aborts_ok w'"
  shows "cancels_ok w'"
proof -
  have log: "logged w i \<Longrightarrow> logged w' i" for i using g by (auto simp: log_grows_def logged_def)
  have "registry_ok w'" using ok g f by (fastforce simp: cancels_ok_def registry_ok_def log_grows_def)
  moreover have "fired_ok w'"
    unfolding fired_ok_def
  proof
    fix c assume "c \<in> set (ew_fired w')"
    with g consider "c \<in> set (ew_fired w)" | i e where "logged w i" "js_get (ew_controllers w) i = Some e" "ce_controller e = c"
      unfolding log_grows_def by blast
    then show "c < ew_nextController w' \<and> (\<exists>i. logged w' i \<and> agrees (ew_threads w') c i)"
    proof cases
      case 1
      then show ?thesis using ok log f unfolding cancels_ok_def fired_ok_def by metis
    next
      case (2 i e)
      then show ?thesis using ok log f unfolding cancels_ok_def registry_ok_def by metis
    qed
  qed
  ultimately show ?thesis using ok a f by (simp add: cancels_ok_def)
qed

lemma set_update_cases: "x \<in> set (xs[k := y]) \<Longrightarrow> x = y \<or> x \<in> set xs"
  using set_update_subset_insert [of xs k y] by auto

lemma cancel_step_log:
  assumes "cancel_step a pc w = Some (pc', w')" and "\<And>i. pc = CancelAbort i \<Longrightarrow> logged w i"
  shows "log_grows w w' \<and> (\<forall>i. pc' = CancelAbort i \<longrightarrow> logged w' i)"
proof (cases pc)
  case (CancelAbort i)
  obtain cs l where ab: "abortCancelled i (ew_lane w) = (cs, l)" by force
  with assms CancelAbort abort_controllers [OF ab] show ?thesis by (auto simp: log_grows_def)
qed (use assms(1) in \<open>auto simp: log_grows_def logged_def split: sum.splits prod.splits option.splits if_splits\<close>)

lemma sweep_step_log:
  assumes "sweep_step a nxt pc w = Some (pc', w')" and "\<And>i. pc = SweepAbort i \<Longrightarrow> logged w i"
  shows "log_grows w w' \<and> (\<forall>i. pc' = SweepAbort i \<longrightarrow> logged w' i)"
proof (cases pc)
  case (SweepAbort i)
  obtain cs l where ab: "abortCancelled i (ew_lane w) = (cs, l)" by force
  with assms SweepAbort abort_controllers [OF ab] show ?thesis by (auto simp: log_grows_def)
qed (use assms(1) in \<open>auto simp: log_grows_def logged_def split: sum.splits prod.splits option.splits cas_outcome.splits if_splits\<close>)

lemma log_grows_aborts:
  assumes "aborts_ok w" "log_grows w w'"
    and "\<And>i. CancelAbort i \<in> set (ew_cancels w') \<Longrightarrow> CancelAbort i \<in> set (ew_cancels w) \<or> logged w' i"
    and "\<And>i. SweepAbort i \<in> set (ew_sweeps w') \<Longrightarrow> SweepAbort i \<in> set (ew_sweeps w) \<or> logged w' i"
  shows "aborts_ok w'"
proof -
  have "logged w i \<Longrightarrow> logged w' i" for i using assms(2) by (auto simp: log_grows_def logged_def)
  with assms show ?thesis unfolding aborts_ok_def by blast
qed

lemma log_grows_same:
  "ew_cancelLog w' = ew_cancelLog w \<Longrightarrow> ew_controllers w' = ew_controllers w \<Longrightarrow> ew_fired w' = ew_fired w \<Longrightarrow> log_grows w w'"
  by (simp add: log_grows_def)

lemma cancels_ok_same:
  assumes "cancels_ok w" "ew_cancelLog w' = ew_cancelLog w" "ew_controllers w' = ew_controllers w" "ew_fired w' = ew_fired w"
    and "ew_nextController w' = ew_nextController w" "ew_threads w' = ew_threads w"
    and "\<And>i. CancelAbort i \<in> set (ew_cancels w') \<Longrightarrow> CancelAbort i \<in> set (ew_cancels w)"
    and "\<And>i. SweepAbort i \<in> set (ew_sweeps w') \<Longrightarrow> SweepAbort i \<in> set (ew_sweeps w)"
  shows "cancels_ok w'"
proof -
  have ab: "aborts_ok w" using assms(1) by (simp add: cancels_ok_def)
  note g = log_grows_same [OF assms(2-4)]
  show ?thesis by (rule cancels_ok_grows [OF assms(1) g assms(5,6) log_grows_aborts [OF ab g]]) (use assms(7,8) in auto)
qed

lemma cancels_ok_step:
  assumes "exec_step w w'" "cancels_ok w"
  shows "cancels_ok w'"
proof -
  have ab: "aborts_ok w" using assms(2) by (simp add: cancels_ok_def)
  from assms(1) show ?thesis
  proof cases
    case (Step_Spawn job)
    have "agrees (ew_threads w @ [new_thread job]) c i = agrees (ew_threads w) c i" for c i by (auto simp: agrees_def)
    moreover have "one_user (ew_threads w @ [new_thread job])"
      using assms(2) by (auto simp: cancels_ok_def one_user_def nth_append)
    ultimately show ?thesis using assms(2) Step_Spawn
      by (auto simp: cancels_ok_def registry_ok_def fired_ok_def aborts_ok_def logged_def)
  next
    case (Step_Send t a th w1)
    have "ew_threads w1 = ew_threads w" using send_step_frame [OF Step_Send(3)] by (simp add: same_frame_def)
    with Step_Send(1) cancels_ok_send [OF assms(2) Step_Send(2,3)] show ?thesis by simp
  next
    case (Step_Cancel k a pc w1)
    note F = cancel_step_frame [OF Step_Cancel(3)]
    have "logged w i" if "ew_cancels w ! k = CancelAbort i" for i
      using ab Step_Cancel(2) that nth_mem by (fastforce simp: aborts_ok_def)
    from cancel_step_log [OF Step_Cancel(3) this] have L: "log_grows w w'" "\<And>i. pc = CancelAbort i \<Longrightarrow> logged w' i"
      by (simp_all add: Step_Cancel(1) log_grows_def logged_def)
    show ?thesis
      by (rule cancels_ok_grows [OF assms(2) L(1) _ _ log_grows_aborts [OF ab L(1)]])
        (use Step_Cancel(1) F L(2) in \<open>auto dest!: set_update_cases\<close>)
  next
    case (Step_Sweep k a nxt pc w1)
    note F = sweep_step_frame [OF Step_Sweep(3)]
    have "logged w i" if "ew_sweeps w ! k = SweepAbort i" for i
      using ab Step_Sweep(2) that nth_mem by (fastforce simp: aborts_ok_def)
    from sweep_step_log [OF Step_Sweep(3) this] have L: "log_grows w w'" "\<And>i. pc = SweepAbort i \<Longrightarrow> logged w' i"
      by (simp_all add: Step_Sweep(1) log_grows_def logged_def)
    show ?thesis
      by (rule cancels_ok_grows [OF assms(2) L(1) _ _ log_grows_aborts [OF ab L(1)]])
        (use Step_Sweep(1) F L(2) in \<open>auto dest!: set_update_cases\<close>)
  next
    case (Step_Beat k a pc w1)
    with beat_step_frame [OF Step_Beat(3)] show ?thesis by (intro cancels_ok_same [OF assms(2)]) auto
  qed (rule cancels_ok_same [OF assms(2)]; simp)+
qed

lemma cancels_ok_reachable: "exec_reachable w \<Longrightarrow> cancels_ok w"
proof (induction rule: exec_reachable.induct)
  case (Reach_Start j d)
  then show ?case by (simp add: cancels_ok_def new_world_def one_user_def registry_ok_def new_lane_def fired_ok_def aborts_ok_def)
qed (rule cancels_ok_step)

section \<open>The journal is first\<close>

text \<open>The journal announced the operation as cancelled.\<close>

definition cancel_announced :: "journal_event list \<Rightarrow> string \<Rightarrow> bool" where
  "cancel_announced evs i \<longleftrightarrow> (\<exists>r. OperationUpdated r \<in> set evs \<and> op_id r = i \<and> op_stage r = Cancelled)"

lemma sweep_success_event:
  assumes "transitionIfStage now i ss PCancelled None None j = (Inr (Transitioned r), j')" "keyed j"
  shows "cancel_announced (jl_events j') i"
proof -
  from assms(1) obtain s where s: "journal_rows j i = Some s" "transitionLocked now i PCancelled None j = (Inr r, j')"
    by (auto simp: transitionIfStage_def split: option.splits if_splits prod.splits sum.splits)
  then have "r = transitioned now s PCancelled None" "j' = write_row i r j"
    by (auto simp: transitionLocked_def Let_def split: sum.splits)
  moreover have "op_id s = i" using assms(2) s(1) by (simp add: keyed_def)
  ultimately show ?thesis by (auto simp: cancel_announced_def write_row_def emit_def transitioned_def)
qed

lemma exec_step_log:
  assumes "exec_step w w'" "keyed (ew_journal w)" "x \<in> set (ew_cancelLog w')" "x \<notin> set (ew_cancelLog w)"
  shows "cancel_announced (jl_events (ew_journal w')) (fst x)"
  using assms(1)
proof cases
  case (Step_Send t a th w1)
  then show ?thesis using send_step_frame [OF Step_Send(3)] assms(3,4) by (simp add: same_frame_def)
next
  case (Step_Cancel k a pc w1)
  then show ?thesis using assms(2-4) transition_success_event
    by (cases "ew_cancels w ! k") (fastforce simp: cancel_announced_def Let_def split: sum.splits prod.splits)+
next
  case (Step_Sweep k a nxt pc w1)
  then show ?thesis using assms(2-4) sweep_success_event
    by (cases "ew_sweeps w ! k") (fastforce simp: Let_def split: sum.splits prod.splits option.splits cas_outcome.splits if_splits)+
next
  case (Step_Beat k a pc w1)
  then show ?thesis using beat_step_frame [OF Step_Beat(3)] assms(3,4) by simp
qed (use assms(3,4) in simp_all)

lemma logged_announced: "exec_reachable w \<Longrightarrow> x \<in> set (ew_cancelLog w) \<Longrightarrow> cancel_announced (jl_events (ew_journal w)) (fst x)"
proof (induction rule: exec_reachable.induct)
  case (Reach_Start j d)
  then show ?case by (simp add: new_world_def)
next
  case (Reach_Step w w')
  show ?case
  proof (cases "x \<in> set (ew_cancelLog w)")
    case True
    from Reach_Step.IH [OF this] exec_step_events [OF Reach_Step(1,2)] show ?thesis by (auto simp: cancel_announced_def)
  next
    case False
    with exec_step_log [OF Reach_Step(2) _ Reach_Step.prems] journal_safe_reachable [OF Reach_Step(1)] show ?thesis
      by (simp add: journal_safe_def)
  qed
qed

end
