(* ===== verification/Send_Properties.thy ===== *)
theory Send_Properties
  imports Send_Cancel
begin

text \<open>
  The properties of the send pipeline, over every interleaving of sends, cancels, sweeps, heartbeats,
  session changes and other uses of the journal: what a broadcast implies, who is in a slot, what a
  fired controller implies and whom the heartbeat vouches for.
\<close>

section \<open>Vouching\<close>

text \<open>The program counters between the registration of the waiting record and the end of the wait.\<close>

fun waiting_pc :: "send_pc \<Rightarrow> bool" where
  "waiting_pc AwaitFence = True"
| "waiting_pc AwaitNetwork = True"
| "waiting_pc AwaitGrant = True"
| "waiting_pc (SlotCatch _) = True"
| "waiting_pc (SlotFailWrite _ _) = True"
| "waiting_pc (SlotFinally _) = True"
| "waiting_pc _ = False"

definition waits_for :: "exec_world \<Rightarrow> string \<Rightarrow> bool" where
  "waits_for w i \<longleftrightarrow> (\<exists>th\<in>set (ew_threads w). queued_id (st_job th) = Some i \<and> waiting_pc (st_pc th))"

definition vouching_ok :: "exec_lane \<Rightarrow> bool" where
  "vouching_ok l \<longleftrightarrow> (\<forall>i\<in>set (el_executionWaiters l). \<not> js_has (el_queuedWaiters l) i)
     \<and> (el_executionWaiters l \<noteq> [] \<or> el_queuedWaiters l \<noteq> [] \<longrightarrow> el_heartbeatTimer l)"

lemma js_del_Nil: "js_del k m \<noteq> [] \<Longrightarrow> m \<noteq> []"
  by auto

lemma vouching_ops:
  assumes "vouching_ok l"
  shows "vouching_ok (beginExecutionWait i l)" "vouching_ok (endExecutionWait i l)" "vouching_ok (beginQueuedWait now i l)"
    "vouching_ok (endQueuedWait i l)" "vouching_ok (maybeStopHeartbeatTimer l)"
    "vouching_ok (l\<lparr>el_queuedWaiters := js_del i (el_queuedWaiters l)\<rparr>)"
  using assms
  by (auto simp: vouching_ok_def beginExecutionWait_def ensureHeartbeatTimer_def endExecutionWait_def maybeStopHeartbeatTimer_def
      beginQueuedWait_def endQueuedWait_def js_get_del js_get_set split: if_splits)

lemma vouching_frame:
  "vouching_ok (l\<lparr>el_activeControllers := x\<rparr>) = vouching_ok l" "vouching_ok (l\<lparr>el_executionMutex := m\<rparr>) = vouching_ok l"
  "vouching_ok (el_executionMutex_update f l) = vouching_ok l" "vouching_ok (deleteController i l) = vouching_ok l"
  by (simp_all add: vouching_ok_def deleteController_def)

lemma vouching_abort: "vouching_ok l \<Longrightarrow> abortCancelled i l = (cs, l') \<Longrightarrow> vouching_ok l'"
  by (auto simp: abortCancelled_def vouching_ops vouching_frame split: option.splits)

text \<open>What a send does to the waiters.\<close>

abbreviation ew_waiters :: "exec_world \<Rightarrow> string list" where
  "ew_waiters w \<equiv> el_executionWaiters (ew_lane w)"

lemma waiters_stop [simp]: "el_executionWaiters (maybeStopHeartbeatTimer l) = el_executionWaiters l"
  by (simp add: maybeStopHeartbeatTimer_def)

lemma waiters_parts [simp]:
  "set (el_executionWaiters (beginExecutionWait i l)) = insert i (set (el_executionWaiters l))"
  "set (el_executionWaiters (endExecutionWait i l)) = set (el_executionWaiters l) - {i}"
  "el_executionWaiters (beginQueuedWait now i l) = el_executionWaiters l" "el_executionWaiters (endQueuedWait i l) = el_executionWaiters l"
  "el_executionWaiters (deleteController i l) = el_executionWaiters l"
  by (simp_all add: beginExecutionWait_def ensureHeartbeatTimer_def endExecutionWait_def
      beginQueuedWait_def endQueuedWait_def deleteController_def)

lemma send_step_vouching:
  assumes "send_step a t pc th w = Some (th', w')" "vouching_ok (ew_lane w)"
  shows "vouching_ok (ew_lane w')"
  using assms by (cases pc) (auto simp: seg_defs Let_def vouching_ops vouching_frame split: seg_splits)

lemma send_step_waiters:
  assumes "send_step a t pc th w = Some (th', w')" "i \<in> set (ew_waiters w')"
  shows "(queued_id (st_job th) = Some i \<and> waiting_pc (st_pc th'))
    \<or> (i \<in> set (ew_waiters w) \<and> (queued_id (st_job th) = Some i \<longrightarrow> \<not> waiting_pc pc))"
  using assms by (cases pc) (auto simp: seg_defs Let_def split: seg_splits)

abbreviation pc_of :: "exec_world \<Rightarrow> nat \<Rightarrow> send_pc" where
  "pc_of w t \<equiv> st_pc (ew_threads w ! t)"

section \<open>Reachable lanes\<close>

definition lane_ok :: "exec_world \<Rightarrow> bool" where
  "lane_ok w \<longleftrightarrow> vouching_ok (ew_lane w) \<and> (\<forall>i\<in>set (ew_waiters w). waits_for w i)"

lemma lane_ok_same:
  assumes "lane_ok w" "vouching_ok (ew_lane w')" "set (ew_waiters w') \<subseteq> set (ew_waiters w)" "set (ew_threads w) \<subseteq> set (ew_threads w')"
  shows "lane_ok w'"
  using assms by (fastforce simp: lane_ok_def waits_for_def)

lemma lane_ok_send:
  assumes ok: "lane_ok w" and t: "t < length (ew_threads w)"
    and step: "send_step a t (pc_of w t) (ew_threads w ! t) w = Some (th, w1)"
  shows "lane_ok (w1\<lparr>ew_threads := (ew_threads w)[t := th]\<rparr>)" (is "lane_ok ?w")
proof -
  have "waits_for ?w i" if i: "i \<in> set (ew_waiters ?w)" for i
  proof -
    have job: "st_job th = st_job (ew_threads w ! t)" using send_step_frame [OF step] by simp
    from send_step_waiters [OF step, of i] i consider "queued_id (st_job th) = Some i" "waiting_pc (st_pc th)"
      | "i \<in> set (ew_waiters w)" "queued_id (st_job (ew_threads w ! t)) = Some i \<longrightarrow> \<not> waiting_pc (pc_of w t)" using job by auto
    then show ?thesis
    proof cases
      case 1
      then show ?thesis using set_update_memI [OF t] by (auto simp: waits_for_def)
    next
      case 2
      then have "waits_for w i" using ok by (simp add: lane_ok_def)
      then obtain k where k: "k < length (ew_threads w)" "queued_id (st_job (ew_threads w ! k)) = Some i" "waiting_pc (pc_of w k)"
        unfolding waits_for_def by (metis in_set_conv_nth)
      with 2(2) have "k \<noteq> t" by auto
      with k have "ew_threads w ! k \<in> set ((ew_threads w)[t := th])" by (metis length_list_update nth_list_update_neq nth_mem)
      with k(2,3) show ?thesis unfolding waits_for_def by auto
    qed
  qed
  with ok send_step_vouching [OF step] show ?thesis by (simp add: lane_ok_def)
qed

lemma lane_kept:
  "cancel_step a pc w = Some (pc', w') \<Longrightarrow> vouching_ok (ew_lane w) \<Longrightarrow> vouching_ok (ew_lane w') \<and> ew_waiters w' = ew_waiters w"
  "sweep_step a nxt spc w = Some (spc', w') \<Longrightarrow> vouching_ok (ew_lane w) \<Longrightarrow> vouching_ok (ew_lane w') \<and> ew_waiters w' = ew_waiters w"
proof -
  have ab: "vouching_ok l' \<and> el_executionWaiters l' = el_executionWaiters l"
    if "vouching_ok l" "abortCancelled i l = (cs, l')" for i l cs l'
    using vouching_abort [OF that] that(2) by (auto simp: abortCancelled_def split: option.splits)
  show "cancel_step a pc w = Some (pc', w') \<Longrightarrow> vouching_ok (ew_lane w) \<Longrightarrow> vouching_ok (ew_lane w') \<and> ew_waiters w' = ew_waiters w"
    using ab by (cases pc; force simp: Let_def split: prod.splits sum.splits)
  show "sweep_step a nxt spc w = Some (spc', w') \<Longrightarrow> vouching_ok (ew_lane w) \<Longrightarrow> vouching_ok (ew_lane w') \<and> ew_waiters w' = ew_waiters w"
    using ab by (cases spc; force simp: Let_def split: prod.splits sum.splits option.splits cas_outcome.splits)
qed

lemma beat_lane:
  assumes "beat_step a pc w = Some (pc', w')" "vouching_ok (ew_lane w)"
  shows "vouching_ok (ew_lane w') \<and> ew_waiters w' = ew_waiters w"
  using assms by (cases "(a, pc, w)" rule: beat_step.cases) (auto simp: vouching_ops split: if_splits)

lemma lane_ok_step:
  assumes "exec_step w w'" "lane_ok w"
  shows "lane_ok w'"
proof -
  have v: "vouching_ok (ew_lane w)" using assms(2) by (simp add: lane_ok_def)
  from assms(1) show ?thesis
  proof cases
    case (Step_Send t a th w1)
    have "ew_threads w1 = ew_threads w" using send_step_frame [OF Step_Send(3)] by (simp add: same_frame_def)
    with Step_Send(1) lane_ok_send [OF assms(2) Step_Send(2,3)] show ?thesis by simp
  next
    case (Step_Cancel k a pc w1)
    with lane_kept(1) [OF Step_Cancel(3) v] cancel_step_frame [OF Step_Cancel(3)] show ?thesis
      by (intro lane_ok_same [OF assms(2)]) simp_all
  next
    case (Step_Sweep k a nxt pc w1)
    with lane_kept(2) [OF Step_Sweep(3) v] sweep_step_frame [OF Step_Sweep(3)] show ?thesis
      by (intro lane_ok_same [OF assms(2)]) simp_all
  next
    case (Step_Beat k a pc w1)
    with beat_lane [OF Step_Beat(3) v] beat_step_frame [OF Step_Beat(3)] show ?thesis
      by (intro lane_ok_same [OF assms(2)]) simp_all
  qed (rule lane_ok_same [OF assms(2)]; auto simp: v vouching_ops vouching_frame)+
qed

lemma lane_ok_reachable: "exec_reachable w \<Longrightarrow> lane_ok w"
proof (induction rule: exec_reachable.induct)
  case (Reach_Start j d)
  then show ?case by (simp add: lane_ok_def new_world_def new_lane_def vouching_ok_def)
qed (rule lane_ok_step)

section \<open>Properties\<close>

text \<open>
  C1: a transaction is broadcast only for a session that still stands and an operation the journal
  holds as submitting. In the tick of the broadcast the session, profile and deletion epoch that
  authorized the send were live; before it the journal announced that very operation as submitting
  with that very hash; a send broadcasts once at most; and as long as the operation's id is not given
  to another one, the journal never announces it as cancelled, before or after.
\<close>

theorem send_broadcast_sound:
  assumes "exec_reachable w" and "b \<in> set (ew_broadcasts w)"
  shows "bc_thread b < length (ew_threads w) \<and> distinct (map bc_thread (ew_broadcasts w))
    \<and> isFenceLive (bc_session b) (bc_deletion b) (sj_fence (st_job (ew_threads w ! bc_thread b)))
    \<and> (\<exists>i. bc_journalId b = Some i \<and> st_journalId (ew_threads w ! bc_thread b) = Some i
         \<and> submitted (jl_events (ew_journal w)) i (bc_txHash b)
         \<and> (id_reused i (jl_events (ew_journal w)) \<or> \<not> cancel_announced (jl_events (ew_journal w)) i))"
proof -
  have ok: "broadcast_ok w b" "distinct (map bc_thread (ew_broadcasts w))"
    using sends_ok_reachable [OF assms(1)] assms(2) by (simp_all add: sends_ok_def)
  then obtain i where i: "bc_journalId b = Some i" "st_journalId (ew_threads w ! bc_thread b) = Some i"
      "submitted (jl_events (ew_journal w)) i (bc_txHash b)" by (auto simp: broadcast_ok_def)
  then obtain r u where r: "OperationUpdated r \<in> set (jl_events (ew_journal w))" "op_id r = i" "op_progress r = PSubmitting (Some (bc_txHash b)) u"
    by (auto simp: submitted_def)
  have "\<not> cancel_announced (jl_events (ew_journal w)) i" if "\<not> id_reused i (jl_events (ew_journal w))"
    using submitting_never_cancelled [OF _ that r(1,2)] journal_safe_reachable [OF assms(1)] r(3)
    by (auto simp: cancel_announced_def journal_safe_def)
  with ok i show ?thesis by (auto simp: broadcast_ok_def)
qed

text \<open>
  C2: a controller is fired only after the journal recorded the cancellation of that send's own
  operation; and a send whose controller fired has broadcast nothing, unless the operation's id was
  given to another one.
\<close>

theorem cancel_before_abort:
  assumes "exec_reachable w" and "t < length (ew_threads w)" and "cancelled (ew_threads w ! t) w"
  shows "\<exists>i. st_journalId (ew_threads w ! t) = Some i \<and> i \<in> fst ` set (ew_cancelLog w)
    \<and> cancel_announced (jl_events (ew_journal w)) i
    \<and> (id_reused i (jl_events (ew_journal w)) \<or> t \<notin> bc_thread ` set (ew_broadcasts w))"
proof -
  let ?T = "ew_threads w ! t"
  note ok = cancels_ok_reachable [OF assms(1)]
  from assms(3) obtain c where c: "st_controller ?T = Some c" "c \<in> set (ew_fired w)" by (auto simp: cancelled_def fired_signal_def)
  have n: "named (ew_nextController w) ?T" using ok assms(2) by (simp add: cancels_ok_def)
  from namedD(4) [OF n c(1)] have id: "controller_id ?T c = st_journalId ?T" "st_journalId ?T \<noteq> None"
    using c(1) by (auto simp: controller_id_def)
  from ok c(2) obtain i where i: "logged w i" "agrees (ew_threads w) c i" unfolding cancels_ok_def fired_ok_def by blast
  have ji: "st_journalId ?T = Some i" using i(2) id nth_mem [OF assms(2)] unfolding agrees_def by metis
  obtain reason where "(i, reason) \<in> set (ew_cancelLog w)" using i(1) by (auto simp: logged_def)
  from logged_announced [OF assms(1) this] have ca: "cancel_announced (jl_events (ew_journal w)) i" by simp
  have "t \<notin> bc_thread ` set (ew_broadcasts w)" if nr: "\<not> id_reused i (jl_events (ew_journal w))"
  proof
    assume "t \<in> bc_thread ` set (ew_broadcasts w)"
    then obtain b where b: "b \<in> set (ew_broadcasts w)" "bc_thread b = t" by auto
    have "broadcast_ok w b" using sends_ok_reachable [OF assms(1)] b(1) by (simp add: sends_ok_def)
    with ji b(2) obtain r u where r: "OperationUpdated r \<in> set (jl_events (ew_journal w))" "op_id r = i" "op_stage r = Submitting"
      by (auto simp: broadcast_ok_def submitted_def)
    from submitting_never_cancelled [OF _ nr r] ca journal_safe_reachable [OF assms(1)] show False
      by (auto simp: cancel_announced_def journal_safe_def)
  qed
  with ji i(1) ca show ?thesis by (auto simp: logged_def)
qed

text \<open>
  C3: sends of one profile on one chain execute one at a time. Two sends past the grant and before
  their release never share a lane, a send in its slot holds the lane of its own profile, and no slot
  leaks: a held lane is held by a send that is about to enter its slot or is still in it.
\<close>

theorem send_slots_exclusive:
  assumes "exec_reachable w" and "i < length (ew_threads w)" and "in_slot (pc_of w i)"
  shows "(\<exists>t chainId. st_call (ew_threads w ! i) = Some t \<and> em_key (ew_mutex w) t = mutex_key (sj_fence (st_job (ew_threads w ! i))) chainId
       \<and> (\<forall>k<length (ew_threads w). \<forall>s. in_slot (pc_of w k) \<and> st_call (ew_threads w ! k) = Some s
            \<and> em_key (ew_mutex w) s = em_key (ew_mutex w) t \<longrightarrow> k = i))
    \<and> (\<forall>c<em_size (ew_mutex w). em_phase (ew_mutex w) c = Holds \<longrightarrow>
         (\<exists>k<length (ew_threads w). st_call (ew_threads w ! k) = Some c \<and> (in_slot (pc_of w k) \<or> pc_of w k = AwaitGrant)))"
proof -
  let ?m = "ew_mutex w" and ?ths = "ew_threads w"
  have ok: "em_reachable any_acquire ?m" "calls_owned ?ths ?m" and sl: "\<And>x. x \<in> set ?ths \<Longrightarrow> thread_slot ?m x"
    using slots_ok_reachable [OF assms(1)] by (auto simp: slots_ok_def)
  note ch = chain_inv_reachable [OF ok(1)]
  have held: "\<exists>t. st_call (?ths ! k) = Some t \<and> lane_of (?ths ! k) ?m t \<and> em_phase ?m t = Holds"
    if "k < length ?ths" "in_slot (pc_of w k)" for k
    using sl [of "?ths ! k"] that by (auto simp: thread_slot_def in_slot_def split: option.splits)
  from held [OF assms(2,3)] obtain t where t: "st_call (?ths ! i) = Some t" "lane_of (?ths ! i) ?m t" "em_phase ?m t = Holds" by blast
  have "k = i" if k: "k < length ?ths" "in_slot (pc_of w k)" "st_call (?ths ! k) = Some s" "em_key ?m s = em_key ?m t" for k s
  proof -
    from held [OF k(1,2)] k(3) have s: "lane_of (?ths ! k) ?m s" "em_phase ?m s = Holds" by auto
    have "s = t"
    proof (rule ccontr)
      assume "s \<noteq> t"
      then consider "s < t" | "t < s" by linarith
      then show False
      proof cases
        case 1
        then show False using chain_invD(1) [OF ch, of t] t s k(4) behind_releasedD by (fastforce simp: lane_of_def)
      next
        case 2
        then show False using chain_invD(1) [OF ch, of s] t s k(4) behind_releasedD by (fastforce simp: lane_of_def)
      qed
    qed
    with ok(2) k(1,3) t(1) assms(2) show ?thesis unfolding calls_owned_def by blast
  qed
  moreover have "\<exists>k<length ?ths. st_call (?ths ! k) = Some c \<and> (in_slot (pc_of w k) \<or> pc_of w k = AwaitGrant)"
    if c: "c < em_size ?m" "em_phase ?m c = Holds" for c
  proof -
    from ok(2) c(1) obtain k where k: "k < length ?ths" "st_call (?ths ! k) = Some c" unfolding calls_owned_def by blast
    have "thread_slot ?m (?ths ! k)" using sl k(1) by simp
    with k(2) c(2) have "\<not> before_call (pc_of w k)" "\<not> out_of_slot (pc_of w k)" by (auto simp: thread_slot_def)
    with k show ?thesis by (auto simp: in_slot_def)
  qed
  ultimately show ?thesis using t(1,2) unfolding lane_of_def by blast
qed

text \<open>
  A record is vouched for by one owner at a time, as an execution waiter only while some send
  filed under it is waiting for its slot, and whenever a record is vouched for the heartbeat runs.
\<close>

theorem heartbeat_vouching:
  assumes "exec_reachable w"
  shows "(\<forall>i. i \<in> set (ew_waiters w) \<longrightarrow> \<not> js_has (el_queuedWaiters (ew_lane w)) i \<and> waits_for w i)
    \<and> (ew_waiters w \<noteq> [] \<or> el_queuedWaiters (ew_lane w) \<noteq> [] \<longrightarrow> el_heartbeatTimer (ew_lane w))"
  using lane_ok_reachable [OF assms] by (auto simp: lane_ok_def vouching_ok_def)

section \<open>Concrete runs\<close>

text \<open>A script: the next step of a send, of a cancel, or the grant of a call.\<close>

datatype demo_move = DemoSend nat answers | DemoCancel nat answers | DemoGrant nat

fun demo_step :: "demo_move \<Rightarrow> exec_world \<Rightarrow> exec_world option" where
  "demo_step (DemoSend t a) w =
     (if t < length (ew_threads w)
      then (case send_step a t (st_pc (ew_threads w ! t)) (ew_threads w ! t) w of
              None \<Rightarrow> None
            | Some (th, w') \<Rightarrow> Some (w'\<lparr>ew_threads := (ew_threads w')[t := th]\<rparr>))
      else None)"
| "demo_step (DemoCancel k a) w =
     (if k < length (ew_cancels w)
      then (case cancel_step a (ew_cancels w ! k) w of
              None \<Rightarrow> None
            | Some (pc, w') \<Rightarrow> Some (w'\<lparr>ew_cancels := (ew_cancels w')[k := pc]\<rparr>))
      else None)"
| "demo_step (DemoGrant t) w =
     (let m = el_executionMutex (ew_lane w)
      in if t < length (em_calls m) \<and> ac_phase (em_calls m ! t) = AwaitsPrior \<and> prior_settled m t
         then Some (on_lane (el_executionMutex_update (set_phase t Holds)) w) else None)"

fun demo_script :: "demo_move list \<Rightarrow> exec_world \<Rightarrow> exec_world option" where
  "demo_script [] w = Some w"
| "demo_script (d # ds) w = (case demo_step d w of None \<Rightarrow> None | Some w' \<Rightarrow> demo_script ds w')"

lemma demo_step_reachable: "demo_step d w = Some w' \<Longrightarrow> exec_reachable w \<Longrightarrow> exec_reachable w'"
  by (cases d)
    (auto simp: Let_def split: if_splits option.splits intro: Reach_Step [OF _ Step_Send] Reach_Step [OF _ Step_Cancel] Reach_Step [OF _ Step_Granted])

lemma demo_script_reachable: "demo_script ds w = Some w' \<Longrightarrow> exec_reachable w \<Longrightarrow> exec_reachable w'"
  by (induction ds arbitrary: w) (auto split: option.splits dest: demo_step_reachable)

definition demo_job :: send_job where
  "demo_job = \<lparr>sj_path = SendTransaction, sj_networkId = ''n'', sj_accountAddress = ''a'', sj_originName = ''o'', sj_calls = None,
     sj_feeSettings = Some FeeOther, sj_from = None, sj_noWait = False, sj_queuedJournalId = None, sj_originKey = None,
     sj_fence = \<lparr>ef_profileId = ''p'', ef_epoch = 0, ef_session = 1\<rparr>\<rparr>"

definition demo_answers :: answers where
  "demo_answers = \<lparr>an_ok = True, an_error = NotRecorded, an_thrown = \<lparr>th_message = None, th_json = None\<rparr>, an_now = 5,
     an_fences = \<lparr>fn_profiles = None, fn_deletion = None, fn_networks = None\<rparr>, an_draws = [''i''], an_chainId = 1,
     an_text = ''h'', an_url = None\<rparr>"

definition demo_world :: exec_world where
  "demo_world = (new_world \<lparr>jl_area = [], jl_events = []\<rparr> new_deletion_state)
     \<lparr>ew_session := Some (1, ''p''), ew_threads := [new_thread demo_job], ew_cancels := [CancelRead ''i'']\<rparr>"

lemma demo_world_reachable: "exec_reachable demo_world"
proof -
  have "keyed \<lparr>jl_area = [], jl_events = []\<rparr>" by (simp add: keyed_def loadValidated_def journal_storage_def ps_get_eq)
  then have "exec_reachable (new_world \<lparr>jl_area = [], jl_events = []\<rparr> new_deletion_state)" by (rule Reach_Start) simp
  from Reach_Step [OF this Step_Session [where s = "Some (1, ''p'')"]]
  have s: "exec_reachable ((new_world \<lparr>jl_area = [], jl_events = []\<rparr> new_deletion_state)\<lparr>ew_session := Some (1, ''p'')\<rparr>)" .
  have f: "ef_profileId (sj_fence demo_job) \<noteq> []" by (simp add: demo_job_def)
  from Reach_Step [OF Reach_Step [OF s Step_Spawn [OF f]] Step_Cancel_Call [where i = "''i''"]] show ?thesis
    by (simp add: demo_world_def new_world_def)
qed

definition demo_sends :: "nat \<Rightarrow> demo_move list" where
  "demo_sends n = replicate n (DemoSend 0 demo_answers)"

definition demo_sent :: "demo_move list" where
  "demo_sent = demo_sends 3 @ DemoGrant 0 # demo_sends 17"

definition demo_stopped :: "demo_move list" where
  "demo_stopped = demo_sends 3 @ DemoGrant 0 # demo_sends 10 @ replicate 4 (DemoCancel 0 demo_answers)"

definition demo_final :: exec_world where
  "demo_final = the (demo_script demo_sent demo_world)"

definition demo_halted :: exec_world where
  "demo_halted = the (demo_script demo_stopped demo_world)"

lemma demo_runs: "demo_script demo_sent demo_world = Some demo_final" "demo_script demo_stopped demo_world = Some demo_halted"
proof -
  have "demo_script demo_sent demo_world \<noteq> None" "demo_script demo_stopped demo_world \<noteq> None" by code_simp+
  then show "demo_script demo_sent demo_world = Some demo_final" "demo_script demo_stopped demo_world = Some demo_halted"
    by (simp_all add: demo_final_def demo_halted_def)
qed

lemmas demo_reachable = demo_runs [THEN demo_script_reachable, OF demo_world_reachable]

definition demo_broadcast :: broadcast where
  "demo_broadcast = \<lparr>bc_thread = 0, bc_journalId = Some ''i'', bc_txHash = ''h'', bc_session = Some (1, ''p''), bc_deletion = new_deletion_state\<rparr>"

lemma demo_final_facts:
  "ew_broadcasts demo_final = [demo_broadcast]" "length (ew_threads demo_final) = 1" "in_slot (pc_of demo_final 0)"
  "\<not> id_reused ''i'' (jl_events (ew_journal demo_final))" "em_size (ew_mutex demo_final) = 1" "em_phase (ew_mutex demo_final) 0 = Holds"
  unfolding demo_final_def by code_simp+

lemma demo_halted_facts:
  "length (ew_threads demo_halted) = 1" "cancelled (ew_threads demo_halted ! 0) demo_halted" "st_journalId (ew_threads demo_halted ! 0) = Some ''i''"
  unfolding demo_halted_def by code_simp+

theorem send_broadcast_sound_witness:
  "submitted (jl_events (ew_journal demo_final)) ''i'' ''h'' \<and> \<not> cancel_announced (jl_events (ew_journal demo_final)) ''i''"
  using send_broadcast_sound [OF demo_reachable(1), of demo_broadcast] demo_final_facts(1,4) by (simp add: demo_broadcast_def)

theorem cancel_before_abort_witness:
  "cancel_announced (jl_events (ew_journal demo_halted)) ''i'' \<and> ''i'' \<in> fst ` set (ew_cancelLog demo_halted)"
  using cancel_before_abort [OF demo_reachable(2), of 0] demo_halted_facts by auto

theorem send_slots_exclusive_witness:
  "\<exists>k<length (ew_threads demo_final). st_call (ew_threads demo_final ! k) = Some 0 \<and> (in_slot (pc_of demo_final k) \<or> pc_of demo_final k = AwaitGrant)"
  using send_slots_exclusive [OF demo_reachable(1), of 0] demo_final_facts(2,3,5,6) by simp

theorem heartbeat_vouching_witness: "el_heartbeatTimer (beginQueuedWait 3 ''q'' (ew_lane demo_final))"
proof -
  have "el_queuedWaiters (beginQueuedWait 3 ''q'' (ew_lane demo_final)) \<noteq> []" unfolding demo_final_def by code_simp
  with heartbeat_vouching [OF Reach_Step [OF demo_reachable(1) Step_Queued [where now = 3 and i = "''q''"]]] show ?thesis by simp
qed

end
