(* ===== verification/Session_Manager.thy ===== *)
theory Session_Manager
  imports Prelude
begin

text \<open>
  The unlocked session of \<^verbatim>\<open>profile/session-manager.ts\<close>: opening, closing, refreshing, the change of the
  time-to-live, strict mode, the alarm, the deferred expiry decision and the silent restore. An
  operation is a thread split at its awaits; \<open>sm_artifact\<close> is the holder of the artifact lock and
  \<open>sm_facade\<close> the holder of the profile service's lock, under which every operation but the lazy expiry
  of \<^verbatim>\<open>getActive\<close> runs. A session object is named by its serial. The master secret, the keys and the
  wrapped bearer are opaque; whether a storage or alarm call succeeds is an answer of the environment.
\<close>

section \<open>State\<close>

record session_row =
  sr_profile :: string
  sr_bearer :: "string option"
  sr_passhash :: "string option"
  sr_since :: time
  sr_lockedAt :: "time option"

record active_session =
  as_serial :: nat
  as_session :: session_row
  as_dek :: bool
  as_deferBudgetEnd :: "time option"

text \<open>What a writer of the live row does to it.\<close>

datatype row_change = RefreshRow | DropBearer | DeferRow time time | ApplyTtl time

datatype commit_expectation = AnyState | Expect "time option" nat

text \<open>The operations that queue on the facade lock, and the points an operation can have reached.\<close>

datatype sm_call =
    CallOpen string bool bool bool string | CallLock | CallRefresh | CallTtl time | CallBearer | CallAlarm time

datatype sm_pc =
    NeedFacade sm_call
  | OpenStart string bool bool bool string | OpenWrapped string "string option" bool time | OpenWait session_row bool | OpenSet nat session_row | OpenUndo nat session_row | OpenReadBack nat session_row
  | OpenArm nat session_row | OpenCommit nat
  | CloseStart "nat option" | CloseWait nat | CloseDelete | CloseClear
  | CommitWait nat row_change commit_expectation | CommitSet nat session_row bool | CommitClear "time option" | CommitArm "time option"
  | RefreshStart | RefreshJoin nat | TtlStart time | BearerStart | ScrubRead | ScrubSet session_row
  | AlarmStart time | JoinDecision nat
  | DecideAnswer nat "time option" nat time time
  | SmDone

record sm_thread =
  sm_pc_of :: sm_pc
  sm_decides :: "nat option"

text \<open>A deferral that was written: the deadline it moved, the time-to-live then in force, the new deadline.\<close>

record deferral =
  df_serial :: nat
  df_old :: time
  df_ttl :: time
  df_new :: time

record session_manager =
  sm_active :: "active_session option"
  sm_row :: "session_row option"
  sm_alarm :: "time option"
  sm_sessionTtl :: time
  sm_strict :: bool
  sm_generation :: nat
  sm_lastSerial :: nat
  sm_configRev :: nat
  sm_now :: time
  sm_artifact :: "nat option"
  sm_facade :: "nat option"
  sm_threads :: "sm_thread list"
  sm_faulty :: bool
  sm_overrun :: bool
  sm_deferrals :: "deferral list"

text \<open>
  The last three fields record what happened: whether a storage call failed, whether a session was
  closed while its own open was still storing it, and every deferral with the deadline it moved.
\<close>

definition MAX_EXPIRY_DEFERRAL_MS :: time where
  "MAX_EXPIRY_DEFERRAL_MS = 10 * 60000"

definition EXPIRY_DEFERRAL_STEP_MS :: time where
  "EXPIRY_DEFERRAL_STEP_MS = 60000"

record sm_answer =
  sa_ok :: bool
  sa_landed :: bool
  sa_work :: bool

section \<open>Deadlines\<close>

definition deriveLockedAt :: "time \<Rightarrow> session_row \<Rightarrow> time" where
  "deriveLockedAt ttl r = or_else (sr_lockedAt r) (sr_since r + ttl)"

definition isExpired_session :: "time \<Rightarrow> time \<Rightarrow> session_row \<Rightarrow> bool" where
  "isExpired_session now ttl r \<longleftrightarrow> ttl \<noteq> 0 \<and> deriveLockedAt ttl r \<le> now"

definition deadline :: "time \<Rightarrow> time \<Rightarrow> time option" where
  "deadline since ttl = (if ttl > 0 then Some (since + ttl) else None)"

definition scheduleLockAlarm :: "sm_answer \<Rightarrow> time option \<Rightarrow> session_manager \<Rightarrow> session_manager" where
  "scheduleLockAlarm a lockedAt s =
     (case lockedAt of
        None \<Rightarrow> s
      | Some t \<Rightarrow> if sm_sessionTtl s = 0 \<or> t \<le> sm_now s \<or> \<not> sa_ok a then s else s\<lparr>sm_alarm := Some t\<rparr>)"

definition clearLockAlarm :: "sm_answer \<Rightarrow> session_manager \<Rightarrow> session_manager" where
  "clearLockAlarm a s = (if sa_ok a then s\<lparr>sm_alarm := None\<rparr> else s)"

section \<open>Storage\<close>

text \<open>A rejected write may have landed; a rejected removal has not removed.\<close>

definition store_row :: "sm_answer \<Rightarrow> session_row \<Rightarrow> session_manager \<Rightarrow> bool \<times> session_manager" where
  "store_row a r s =
     (if sa_ok a then (True, s\<lparr>sm_row := Some r\<rparr>)
      else (False, s\<lparr>sm_row := (if sa_landed a then Some r else sm_row s), sm_faulty := True\<rparr>))"

definition remove_row :: "sm_answer \<Rightarrow> session_manager \<Rightarrow> session_manager" where
  "remove_row a s = (if sa_ok a then s\<lparr>sm_row := None\<rparr> else s\<lparr>sm_faulty := True\<rparr>)"

definition hasPersistedSession :: "sm_answer \<Rightarrow> session_manager \<Rightarrow> bool" where
  "hasPersistedSession a s = (if sa_ok a then sm_row s \<noteq> None else True)"

section \<open>Opening\<close>

text \<open>
  Whether a bearer is wrapped is decided before the await of the wrapping; the deadline is derived
  after it, from the time-to-live of that moment.
\<close>

definition persistBearer :: "bool \<Rightarrow> bool \<Rightarrow> bool \<Rightarrow> session_manager \<Rightarrow> bool" where
  "persistBearer isPassword passhash dek s \<longleftrightarrow> passhash \<and> \<not> sm_strict s \<and> isPassword \<and> dek"

definition open_row :: "string \<Rightarrow> string option \<Rightarrow> time \<Rightarrow> session_manager \<Rightarrow> session_row" where
  "open_row profile bearer since s =
     \<lparr>sr_profile = profile, sr_bearer = bearer, sr_passhash = None, sr_since = since,
      sr_lockedAt = deadline since (sm_sessionTtl s)\<rparr>"

definition publish :: "session_row \<Rightarrow> bool \<Rightarrow> session_manager \<Rightarrow> nat \<times> session_manager" where
  "publish r dek s =
     (let serial = Suc (sm_lastSerial s)
      in (serial, s\<lparr>sm_lastSerial := serial, sm_active := Some \<lparr>as_serial = serial, as_session = r, as_dek = dek,
            as_deferBudgetEnd = None\<rparr>\<rparr>))"

section \<open>Closing and committing\<close>

definition active_serial :: "session_manager \<Rightarrow> nat option" where
  "active_serial s = map_option as_serial (sm_active s)"

fun open_section :: "sm_pc \<Rightarrow> bool" where
  "open_section (OpenSet _ _) = True"
| "open_section (OpenUndo _ _) = True"
| "open_section (OpenReadBack _ _) = True"
| "open_section (OpenArm _ _) = True"
| "open_section (OpenCommit _) = True"
| "open_section _ = False"

definition open_running :: "session_manager \<Rightarrow> bool" where
  "open_running s \<longleftrightarrow> (\<exists>th\<in>set (sm_threads s). open_section (sm_pc_of th))"

definition close_head :: "nat option \<Rightarrow> session_manager \<Rightarrow> sm_pc \<times> session_manager" where
  "close_head expected s =
     (if expected \<noteq> None \<and> active_serial s \<noteq> expected then (SmDone, s)
      else (CloseWait (sm_generation s),
            if sm_active s = None then s else s\<lparr>sm_active := None, sm_overrun := sm_overrun s \<or> open_running s\<rparr>))"

definition change_row :: "row_change \<Rightarrow> session_manager \<Rightarrow> active_session \<Rightarrow> active_session" where
  "change_row c s x =
     (case c of
        RefreshRow \<Rightarrow> x\<lparr>as_session := (as_session x)\<lparr>sr_since := sm_now s, sr_lockedAt := deadline (sm_now s) (sm_sessionTtl s)\<rparr>\<rparr>
      | DropBearer \<Rightarrow> x\<lparr>as_session := (as_session x)\<lparr>sr_bearer := None, sr_passhash := None\<rparr>\<rparr>
      | DeferRow budgetEnd lockedAt \<Rightarrow>
          x\<lparr>as_deferBudgetEnd := Some (or_else (as_deferBudgetEnd x) budgetEnd),
            as_session := (as_session x)\<lparr>sr_lockedAt := Some (min lockedAt budgetEnd)\<rparr>\<rparr>
      | ApplyTtl ttl \<Rightarrow>
          x\<lparr>as_session := (as_session x)\<lparr>sr_lockedAt := (if ttl = 0 then None else Some (sr_since (as_session x) + ttl))\<rparr>\<rparr>)"

definition expectation_met :: "commit_expectation \<Rightarrow> active_session \<Rightarrow> session_manager \<Rightarrow> bool" where
  "expectation_met e x s =
     (case e of AnyState \<Rightarrow> True | Expect lockedAt configRev \<Rightarrow> sr_lockedAt (as_session x) = lockedAt \<and> sm_configRev s = configRev)"

definition log_deferral :: "row_change \<Rightarrow> active_session \<Rightarrow> session_manager \<Rightarrow> session_manager" where
  "log_deferral c x s =
     (case c of
        DeferRow budgetEnd lockedAt \<Rightarrow>
          s\<lparr>sm_deferrals := sm_deferrals s @ [\<lparr>df_serial = as_serial x,
              df_old = deriveLockedAt (sm_sessionTtl s) (as_session x), df_ttl = sm_sessionTtl s, df_new = min lockedAt budgetEnd\<rparr>]\<rparr>
      | _ \<Rightarrow> s)"

text \<open>The synchronous head of \<^verbatim>\<open>commitSession\<close>'s section, entered with the artifact lock free.\<close>

definition commit_head :: "nat \<Rightarrow> nat \<Rightarrow> row_change \<Rightarrow> commit_expectation \<Rightarrow> session_manager \<Rightarrow> sm_pc \<times> session_manager" where
  "commit_head k serial c e s =
     (case sm_active s of
        None \<Rightarrow> (SmDone, s)
      | Some x \<Rightarrow>
          if as_serial x \<noteq> serial \<or> \<not> expectation_met e x s then (SmDone, s)
          else (let x' = change_row c s x
                in (CommitSet serial (as_session x') (sr_lockedAt (as_session x') \<noteq> sr_lockedAt (as_session x)),
                    (log_deferral c x s)\<lparr>sm_active := Some x', sm_artifact := Some k\<rparr>)))"

definition apply_ttl :: "active_session \<Rightarrow> time \<Rightarrow> commit_expectation \<Rightarrow> session_manager \<Rightarrow> sm_pc \<times> session_manager" where
  "apply_ttl x ttl e s =
     (if ttl \<noteq> 0 \<and> sr_since (as_session x) + ttl \<le> sm_now s then close_head (Some (as_serial x)) s
      else (CommitWait (as_serial x) (ApplyTtl ttl) e, s))"

section \<open>Reading the session\<close>

text \<open>A pending decision is joined: \<open>getActive_now\<close> is None while the caller has to wait for one.\<close>

definition deciding :: "session_manager \<Rightarrow> nat \<Rightarrow> bool" where
  "deciding s n \<longleftrightarrow> (\<exists>th\<in>set (sm_threads s). sm_decides th = Some n \<and> sm_pc_of th \<noteq> SmDone)"

definition getActive_now :: "session_manager \<Rightarrow> active_session option option" where
  "getActive_now s =
     (case sm_active s of
        None \<Rightarrow> Some None
      | Some x \<Rightarrow>
          if \<not> deciding s (as_serial x) \<and> \<not> isExpired_session (sm_now s) (sm_sessionTtl s) (as_session x) then Some (Some x) else None)"

definition secret_for :: "string \<Rightarrow> active_session option \<Rightarrow> string + nat" where
  "secret_for profileId r =
     (case r of
        Some x \<Rightarrow> if sr_profile (as_session x) = profileId then Inr (as_serial x) else Inl ''Profile locked''
      | None \<Rightarrow> Inl ''Profile locked'')"

definition dek_for :: "string \<Rightarrow> active_session option \<Rightarrow> string + nat option" where
  "dek_for profileId r =
     (case secret_for profileId r of
        Inl e \<Rightarrow> Inl e
      | Inr n \<Rightarrow> Inr (case r of Some x \<Rightarrow> if as_dek x then Some n else None | None \<Rightarrow> None))"

definition isActive_session :: "string \<Rightarrow> session_manager \<Rightarrow> bool" where
  "isActive_session profileId s = (case sm_active s of Some x \<Rightarrow> sr_profile (as_session x) = profileId | None \<Rightarrow> False)"

definition isRecoveryMode :: "string \<Rightarrow> session_manager \<Rightarrow> bool" where
  "isRecoveryMode profileId s =
     (case sm_active s of Some x \<Rightarrow> sr_profile (as_session x) = profileId \<and> \<not> as_dek x | None \<Rightarrow> False)"

section \<open>The expiry decision\<close>

text \<open>What is read before the deferral check is awaited, and how the decision goes on from its answer.\<close>

definition decide_head :: "active_session \<Rightarrow> session_manager \<Rightarrow> sm_pc" where
  "decide_head x s =
     DecideAnswer (as_serial x) (sr_lockedAt (as_session x)) (sm_configRev s)
       (or_else (as_deferBudgetEnd x) (deriveLockedAt (sm_sessionTtl s) (as_session x) + min (sm_sessionTtl s) MAX_EXPIRY_DEFERRAL_MS))
       (min EXPIRY_DEFERRAL_STEP_MS (sm_sessionTtl s))"

definition spawn_decision :: "active_session \<Rightarrow> session_manager \<Rightarrow> session_manager" where
  "spawn_decision x s =
     s\<lparr>sm_threads := sm_threads s @ [\<lparr>sm_pc_of = decide_head x s, sm_decides = Some (as_serial x)\<rparr>]\<rparr>"

definition expireOrDefer :: "active_session \<Rightarrow> session_manager \<Rightarrow> session_manager" where
  "expireOrDefer x s = (if deciding s (as_serial x) then s else spawn_decision x s)"

text \<open>
  Every continuation of a decision whose session is no longer the active one stands down, in
  \<^verbatim>\<open>commitSession\<close> or in \<^verbatim>\<open>close\<close>: the first branch is their common end.
\<close>

definition decideExpiry :: "bool \<Rightarrow> nat \<Rightarrow> time option \<Rightarrow> nat \<Rightarrow> time \<Rightarrow> time \<Rightarrow> session_manager \<Rightarrow> sm_pc \<times> session_manager" where
  "decideExpiry hasWork serial lockedAt configRev budgetEnd step s =
     (case sm_active s of
        None \<Rightarrow> (SmDone, s)
      | Some x \<Rightarrow>
          if as_serial x \<noteq> serial then (SmDone, s)
          else if sr_lockedAt (as_session x) \<noteq> lockedAt then (SmDone, s)
          else if sm_configRev s \<noteq> configRev then apply_ttl x (sm_sessionTtl s) (Expect lockedAt (sm_configRev s)) s
          else if hasWork \<and> sm_now s < budgetEnd
               then (CommitWait serial (DeferRow budgetEnd (sm_now s + step)) (Expect lockedAt configRev), s)
          else close_head (Some serial) s)"

section \<open>Steps\<close>

text \<open>
  \<open>k\<close> is the thread's index; a step that needs a lock is possible only while the lock is free. A
  decision whose write is rejected goes on to close the session; any other writer gives up.
\<close>

definition after_failed_commit :: "nat option \<Rightarrow> sm_pc" where
  "after_failed_commit decides = (case decides of None \<Rightarrow> SmDone | Some serial \<Rightarrow> CloseStart (Some serial))"

definition unlocked :: "session_manager \<Rightarrow> session_manager" where
  "unlocked s = s\<lparr>sm_artifact := None\<rparr>"

fun call_pc :: "sm_call \<Rightarrow> sm_pc" where
  "call_pc (CallOpen profile isPassword passhash dek wrapped) = OpenStart profile isPassword passhash dek wrapped"
| "call_pc CallLock = CloseStart None"
| "call_pc CallRefresh = RefreshStart"
| "call_pc (CallTtl ttl) = TtlStart ttl"
| "call_pc CallBearer = BearerStart"
| "call_pc (CallAlarm scheduledTime) = AlarmStart scheduledTime"

fun sm_step_of :: "sm_answer \<Rightarrow> nat \<Rightarrow> nat option \<Rightarrow> sm_pc \<Rightarrow> session_manager \<Rightarrow> (sm_pc \<times> session_manager) option" where
  "sm_step_of a k d (NeedFacade c) s = (if sm_facade s = None then Some (call_pc c, s\<lparr>sm_facade := Some k\<rparr>) else None)"
| "sm_step_of a k d (OpenStart profile isPassword passhash dek wrapped) s =
     Some (OpenWrapped profile (if persistBearer isPassword passhash dek s then Some wrapped else None) dek (sm_now s), s)"
| "sm_step_of a k d (OpenWrapped profile bearer dek since) s =
     Some (if bearer \<noteq> None \<and> \<not> sa_ok a then SmDone else OpenWait (open_row profile bearer since s) dek, s)"
| "sm_step_of a k d (OpenWait r dek) s =
     (if sm_artifact s \<noteq> None then None
      else let (serial, s1) = publish r dek s in Some (OpenSet serial r, s1\<lparr>sm_artifact := Some k\<rparr>))"
| "sm_step_of a k d (OpenSet serial r) s =
     (case store_row a r s of (True, s1) \<Rightarrow> Some (OpenArm serial r, s1) | (False, s1) \<Rightarrow> Some (OpenUndo serial r, s1))"
| "sm_step_of a k d (OpenUndo serial r) s = Some (OpenReadBack serial r, remove_row a s)"
| "sm_step_of a k d (OpenReadBack serial r) s =
     (if hasPersistedSession a s then Some (SmDone, unlocked (s\<lparr>sm_active := None\<rparr>)) else Some (OpenArm serial r, s))"
| "sm_step_of a k d (OpenArm serial r) s = Some (OpenCommit serial, scheduleLockAlarm a (sr_lockedAt r) s)"
| "sm_step_of a k d (OpenCommit serial) s = Some (SmDone, unlocked (s\<lparr>sm_generation := Suc (sm_generation s)\<rparr>))"
| "sm_step_of a k d (CloseStart expected) s = Some (close_head expected s)"
| "sm_step_of a k d (CloseWait gen) s =
     (if sm_artifact s \<noteq> None then None
      else if sm_generation s \<noteq> gen then Some (SmDone, s)
      else Some (CloseDelete, s\<lparr>sm_artifact := Some k\<rparr>))"
| "sm_step_of a k d CloseDelete s = Some (CloseClear, remove_row a s)"
| "sm_step_of a k d CloseClear s = Some (SmDone, unlocked (clearLockAlarm a s))"
| "sm_step_of a k d (CommitWait serial c e) s = (if sm_artifact s \<noteq> None then None else Some (commit_head k serial c e s))"
| "sm_step_of a k d (CommitSet serial r moved) s =
     (case store_row a r s of
        (True, s1) \<Rightarrow> if moved then Some (CommitClear (sr_lockedAt r), s1) else Some (SmDone, unlocked s1)
      | (False, s1) \<Rightarrow> Some (after_failed_commit d, unlocked s1))"
| "sm_step_of a k d (CommitClear lockedAt) s = Some (CommitArm lockedAt, clearLockAlarm a s)"
| "sm_step_of a k d (CommitArm lockedAt) s = Some (SmDone, unlocked (scheduleLockAlarm a lockedAt s))"
| "sm_step_of a k d RefreshStart s =
     (case sm_active s of
        None \<Rightarrow> Some (SmDone, s)
      | Some x \<Rightarrow>
          (case getActive_now s of
             Some _ \<Rightarrow> Some (CommitWait (as_serial x) RefreshRow AnyState, s)
           | None \<Rightarrow> Some (RefreshJoin (as_serial x), expireOrDefer x s)))"
| "sm_step_of a k d (RefreshJoin serial) s =
     (if deciding s serial then None else Some (if active_serial s = Some serial then RefreshStart else SmDone, s))"
| "sm_step_of a k d (TtlStart ttl) s =
     (case sm_active s of None \<Rightarrow> Some (SmDone, s) | Some x \<Rightarrow> Some (apply_ttl x ttl AnyState s))"
| "sm_step_of a k d BearerStart s =
     (case sm_active s of
        None \<Rightarrow> Some (ScrubRead, s)
      | Some x \<Rightarrow>
          if sr_bearer (as_session x) \<noteq> None \<or> sr_passhash (as_session x) \<noteq> None
          then Some (CommitWait (as_serial x) DropBearer AnyState, s) else Some (SmDone, s))"
| "sm_step_of a k d ScrubRead s =
     (case sm_row s of
        None \<Rightarrow> Some (SmDone, s)
      | Some r \<Rightarrow>
          if sa_ok a \<and> (sr_bearer r \<noteq> None \<or> sr_passhash r \<noteq> None)
          then Some (ScrubSet (r\<lparr>sr_bearer := None, sr_passhash := None\<rparr>), s) else Some (SmDone, s))"
| "sm_step_of a k d (ScrubSet r) s = Some (SmDone, snd (store_row a r s))"
| "sm_step_of a k d (AlarmStart scheduledTime) s =
     (case sm_active s of
        None \<Rightarrow> Some (SmDone, s)
      | Some x \<Rightarrow>
          if scheduledTime \<noteq> deriveLockedAt (sm_sessionTtl s) (as_session x) then Some (SmDone, s)
          else Some (JoinDecision (as_serial x), expireOrDefer x s))"
| "sm_step_of a k d (JoinDecision serial) s = (if deciding s serial then None else Some (SmDone, s))"
| "sm_step_of a k d (DecideAnswer serial lockedAt configRev budgetEnd step) s =
     Some (decideExpiry (sa_work a) serial lockedAt configRev budgetEnd step s)"
| "sm_step_of a k d SmDone s = None"

text \<open>A finished thread gives back the facade lock.\<close>

definition settle :: "nat \<Rightarrow> session_manager \<Rightarrow> session_manager" where
  "settle k s = s\<lparr>sm_facade := (if sm_facade s = Some k then None else sm_facade s)\<rparr>"

definition sm_thread_step :: "sm_answer \<Rightarrow> nat \<Rightarrow> session_manager \<Rightarrow> session_manager option" where
  "sm_thread_step a k s =
     (let th = sm_threads s ! k
      in case sm_step_of a k (sm_decides th) (sm_pc_of th) s of
           None \<Rightarrow> None
         | Some (pc, s1) \<Rightarrow>
             (let s2 = s1\<lparr>sm_threads := (sm_threads s1)[k := th\<lparr>sm_pc_of := pc\<rparr>]\<rparr>
              in Some (if pc = SmDone then settle k s2 else s2)))"

text \<open>Calls of the facade; a new time-to-live and strict mode are seen at once, their writes queue.\<close>

definition call_thread :: "sm_call \<Rightarrow> session_manager \<Rightarrow> session_manager" where
  "call_thread c s = s\<lparr>sm_threads := sm_threads s @ [\<lparr>sm_pc_of = NeedFacade c, sm_decides = None\<rparr>]\<rparr>"

definition set_ttl :: "time \<Rightarrow> session_manager \<Rightarrow> session_manager" where
  "set_ttl ttl s =
     (if sm_sessionTtl s = ttl then s
      else call_thread (CallTtl ttl) (s\<lparr>sm_sessionTtl := ttl, sm_configRev := Suc (sm_configRev s)\<rparr>))"

definition set_strict :: "bool \<Rightarrow> session_manager \<Rightarrow> session_manager" where
  "set_strict v s = (if \<not> sm_strict s \<and> v then call_thread CallBearer (s\<lparr>sm_strict := v\<rparr>) else s\<lparr>sm_strict := v\<rparr>)"

inductive sm_step :: "session_manager \<Rightarrow> session_manager \<Rightarrow> bool" where
  Sm_Thread: "k < length (sm_threads s) \<Longrightarrow> sm_thread_step a k s = Some s' \<Longrightarrow> sm_step s s'"
| Sm_Open: "sm_step s (call_thread (CallOpen profile isPassword passhash dek wrapped) s)"
| Sm_Lock: "sm_step s (call_thread CallLock s)"
| Sm_Refresh: "sm_step s (call_thread CallRefresh s)"
| Sm_Alarm: "sm_alarm s = Some t \<Longrightarrow> t \<le> sm_now s \<Longrightarrow> sm_step s (call_thread (CallAlarm t) (s\<lparr>sm_alarm := None\<rparr>))"
| Sm_Late_Alarm: "sm_step s (call_thread (CallAlarm t) s)"
| Sm_Ttl: "0 \<le> ttl \<Longrightarrow> sm_step s (set_ttl ttl s)"
| Sm_Strict: "sm_step s (set_strict v s)"
| Sm_Lazy: "sm_active s = Some x \<Longrightarrow> getActive_now s = None \<Longrightarrow> sm_step s (expireOrDefer x s)"
| Sm_Clock: "sm_now s \<le> t \<Longrightarrow> sm_step s (s\<lparr>sm_now := t\<rparr>)"

section \<open>Silent restore\<close>

datatype profile_type = PasswordProfile | PasskeyProfile

text \<open>
  What the lookup finds and the wrapped bearer yields: the profile's type, whether the pair unwraps,
  whether the envelope's tag verifies and the secret is in range, and strict mode after the awaits.
\<close>

record restore_answers =
  ra_profile :: "profile_type option"
  ra_unwraps :: bool
  ra_strict_after :: bool
  ra_envelopeIntact :: bool
  ra_inRange :: bool

datatype stored_session = NoSession | Undecodable | Stored session_row

datatype restore_outcome = RestoreSkipped | RestoreClosed | Restored

definition restore_decision :: "restore_answers \<Rightarrow> bool \<Rightarrow> time \<Rightarrow> time \<Rightarrow> stored_session \<Rightarrow> restore_outcome" where
  "restore_decision a strict now ttl st =
     (case st of
        Undecodable \<Rightarrow> RestoreSkipped
      | NoSession \<Rightarrow> RestoreSkipped
      | Stored r \<Rightarrow>
          if isExpired_session now ttl r then RestoreClosed
          else (case ra_profile a of
                  None \<Rightarrow> RestoreClosed
                | Some PasskeyProfile \<Rightarrow> RestoreSkipped
                | Some PasswordProfile \<Rightarrow>
                    if sr_passhash r \<noteq> None \<or> (strict \<and> sr_bearer r \<noteq> None) \<or> sr_bearer r = None then RestoreClosed
                    else if \<not> ra_unwraps a then RestoreClosed
                    else if ra_strict_after a then RestoreClosed
                    else if \<not> ra_envelopeIntact a then RestoreClosed
                    else if \<not> ra_inRange a then RestoreClosed
                    else Restored))"

definition new_manager :: "time \<Rightarrow> bool \<Rightarrow> time \<Rightarrow> session_row option \<Rightarrow> session_manager" where
  "new_manager ttl strict now r =
     \<lparr>sm_active = None, sm_row = r, sm_alarm = None, sm_sessionTtl = ttl, sm_strict = strict, sm_generation = 0, sm_lastSerial = 0,
      sm_configRev = 0, sm_now = now, sm_artifact = None, sm_facade = None, sm_threads = [], sm_faulty = False,
      sm_overrun = False, sm_deferrals = []\<rparr>"

text \<open>The removal comes first: when it is rejected neither the session nor the alarm is touched.\<close>

definition silentClose :: "sm_answer \<Rightarrow> sm_answer \<Rightarrow> session_manager \<Rightarrow> session_manager" where
  "silentClose a b s = (if sa_ok a then clearLockAlarm b ((remove_row a s)\<lparr>sm_active := None\<rparr>) else remove_row a s)"

text \<open>The manager once initialised; \<open>b\<close> answers the removal of a silent close and \<open>c\<close> the alarm.\<close>

definition restore_session :: "restore_answers \<Rightarrow> sm_answer \<Rightarrow> sm_answer \<Rightarrow> time \<Rightarrow> bool \<Rightarrow> time \<Rightarrow> stored_session \<Rightarrow> session_manager" where
  "restore_session a b c ttl strict now st =
     (let s = new_manager ttl strict now (case st of Stored r \<Rightarrow> Some r | _ \<Rightarrow> None)
      in case (restore_decision a strict now ttl st, st) of
           (RestoreClosed, _) \<Rightarrow> silentClose b c s
         | (Restored, Stored r) \<Rightarrow> scheduleLockAlarm c (Some (deriveLockedAt ttl r)) (snd (publish r True s))
         | _ \<Rightarrow> s)"

end
