(* ===== verification/Session_Safety.thy ===== *)
theory Session_Safety
  imports Session_Manager
begin

text \<open>
  Invariants of the session manager's steps: who holds the artifact lock, what one step does to the
  session, the row and the generation, and that a locked manager's row is always about to be removed.
\<close>

section \<open>What the heads leave alone\<close>

lemma alarm_set_frame [simp]:
  "sm_active (scheduleLockAlarm a t s) = sm_active s"
  "sm_row (scheduleLockAlarm a t s) = sm_row s"
  "sm_sessionTtl (scheduleLockAlarm a t s) = sm_sessionTtl s"
  "sm_strict (scheduleLockAlarm a t s) = sm_strict s"
  "sm_generation (scheduleLockAlarm a t s) = sm_generation s"
  "sm_lastSerial (scheduleLockAlarm a t s) = sm_lastSerial s"
  "sm_configRev (scheduleLockAlarm a t s) = sm_configRev s"
  "sm_now (scheduleLockAlarm a t s) = sm_now s"
  "sm_artifact (scheduleLockAlarm a t s) = sm_artifact s"
  "sm_facade (scheduleLockAlarm a t s) = sm_facade s"
  "sm_threads (scheduleLockAlarm a t s) = sm_threads s"
  "sm_faulty (scheduleLockAlarm a t s) = sm_faulty s"
  "sm_overrun (scheduleLockAlarm a t s) = sm_overrun s"
  "sm_deferrals (scheduleLockAlarm a t s) = sm_deferrals s"
  by (simp_all add: scheduleLockAlarm_def split: option.split)

lemma alarm_clear_frame [simp]:
  "sm_active (clearLockAlarm a s) = sm_active s"
  "sm_row (clearLockAlarm a s) = sm_row s"
  "sm_sessionTtl (clearLockAlarm a s) = sm_sessionTtl s"
  "sm_strict (clearLockAlarm a s) = sm_strict s"
  "sm_generation (clearLockAlarm a s) = sm_generation s"
  "sm_lastSerial (clearLockAlarm a s) = sm_lastSerial s"
  "sm_configRev (clearLockAlarm a s) = sm_configRev s"
  "sm_now (clearLockAlarm a s) = sm_now s"
  "sm_artifact (clearLockAlarm a s) = sm_artifact s"
  "sm_facade (clearLockAlarm a s) = sm_facade s"
  "sm_threads (clearLockAlarm a s) = sm_threads s"
  "sm_faulty (clearLockAlarm a s) = sm_faulty s"
  "sm_overrun (clearLockAlarm a s) = sm_overrun s"
  "sm_deferrals (clearLockAlarm a s) = sm_deferrals s"
  by (simp_all add: clearLockAlarm_def)

lemma close_head_frame [simp]:
  "sm_row (snd (close_head e s)) = sm_row s"
  "sm_alarm (snd (close_head e s)) = sm_alarm s"
  "sm_sessionTtl (snd (close_head e s)) = sm_sessionTtl s"
  "sm_strict (snd (close_head e s)) = sm_strict s"
  "sm_generation (snd (close_head e s)) = sm_generation s"
  "sm_lastSerial (snd (close_head e s)) = sm_lastSerial s"
  "sm_configRev (snd (close_head e s)) = sm_configRev s"
  "sm_now (snd (close_head e s)) = sm_now s"
  "sm_artifact (snd (close_head e s)) = sm_artifact s"
  "sm_facade (snd (close_head e s)) = sm_facade s"
  "sm_threads (snd (close_head e s)) = sm_threads s"
  "sm_faulty (snd (close_head e s)) = sm_faulty s"
  "sm_deferrals (snd (close_head e s)) = sm_deferrals s"
  by (simp_all add: close_head_def)

lemma apply_ttl_frame [simp]:
  "sm_row (snd (apply_ttl x t e s)) = sm_row s"
  "sm_alarm (snd (apply_ttl x t e s)) = sm_alarm s"
  "sm_sessionTtl (snd (apply_ttl x t e s)) = sm_sessionTtl s"
  "sm_strict (snd (apply_ttl x t e s)) = sm_strict s"
  "sm_generation (snd (apply_ttl x t e s)) = sm_generation s"
  "sm_lastSerial (snd (apply_ttl x t e s)) = sm_lastSerial s"
  "sm_configRev (snd (apply_ttl x t e s)) = sm_configRev s"
  "sm_now (snd (apply_ttl x t e s)) = sm_now s"
  "sm_artifact (snd (apply_ttl x t e s)) = sm_artifact s"
  "sm_facade (snd (apply_ttl x t e s)) = sm_facade s"
  "sm_threads (snd (apply_ttl x t e s)) = sm_threads s"
  "sm_faulty (snd (apply_ttl x t e s)) = sm_faulty s"
  "sm_deferrals (snd (apply_ttl x t e s)) = sm_deferrals s"
  by (simp_all add: apply_ttl_def)

lemma decide_frame [simp]:
  "sm_row (snd (decideExpiry w n l c b t s)) = sm_row s"
  "sm_alarm (snd (decideExpiry w n l c b t s)) = sm_alarm s"
  "sm_sessionTtl (snd (decideExpiry w n l c b t s)) = sm_sessionTtl s"
  "sm_strict (snd (decideExpiry w n l c b t s)) = sm_strict s"
  "sm_generation (snd (decideExpiry w n l c b t s)) = sm_generation s"
  "sm_lastSerial (snd (decideExpiry w n l c b t s)) = sm_lastSerial s"
  "sm_configRev (snd (decideExpiry w n l c b t s)) = sm_configRev s"
  "sm_now (snd (decideExpiry w n l c b t s)) = sm_now s"
  "sm_artifact (snd (decideExpiry w n l c b t s)) = sm_artifact s"
  "sm_facade (snd (decideExpiry w n l c b t s)) = sm_facade s"
  "sm_threads (snd (decideExpiry w n l c b t s)) = sm_threads s"
  "sm_faulty (snd (decideExpiry w n l c b t s)) = sm_faulty s"
  "sm_deferrals (snd (decideExpiry w n l c b t s)) = sm_deferrals s"
  by (simp_all add: decideExpiry_def split: option.split)

lemma commit_head_frame [simp]:
  "sm_row (snd (commit_head k n c e s)) = sm_row s"
  "sm_alarm (snd (commit_head k n c e s)) = sm_alarm s"
  "sm_sessionTtl (snd (commit_head k n c e s)) = sm_sessionTtl s"
  "sm_strict (snd (commit_head k n c e s)) = sm_strict s"
  "sm_generation (snd (commit_head k n c e s)) = sm_generation s"
  "sm_lastSerial (snd (commit_head k n c e s)) = sm_lastSerial s"
  "sm_configRev (snd (commit_head k n c e s)) = sm_configRev s"
  "sm_now (snd (commit_head k n c e s)) = sm_now s"
  "sm_facade (snd (commit_head k n c e s)) = sm_facade s"
  "sm_threads (snd (commit_head k n c e s)) = sm_threads s"
  "sm_faulty (snd (commit_head k n c e s)) = sm_faulty s"
  "sm_overrun (snd (commit_head k n c e s)) = sm_overrun s"
  by (simp_all add: commit_head_def log_deferral_def Let_def split: option.split row_change.split)

lemma expire_frame [simp]:
  "sm_active (expireOrDefer x s) = sm_active s"
  "sm_row (expireOrDefer x s) = sm_row s"
  "sm_alarm (expireOrDefer x s) = sm_alarm s"
  "sm_sessionTtl (expireOrDefer x s) = sm_sessionTtl s"
  "sm_strict (expireOrDefer x s) = sm_strict s"
  "sm_generation (expireOrDefer x s) = sm_generation s"
  "sm_lastSerial (expireOrDefer x s) = sm_lastSerial s"
  "sm_configRev (expireOrDefer x s) = sm_configRev s"
  "sm_now (expireOrDefer x s) = sm_now s"
  "sm_artifact (expireOrDefer x s) = sm_artifact s"
  "sm_facade (expireOrDefer x s) = sm_facade s"
  "sm_faulty (expireOrDefer x s) = sm_faulty s"
  "sm_overrun (expireOrDefer x s) = sm_overrun s"
  "sm_deferrals (expireOrDefer x s) = sm_deferrals s"
  by (simp_all add: expireOrDefer_def spawn_decision_def)

lemma store_frame [simp]:
  "sm_active (snd (store_row a r s)) = sm_active s"
  "sm_alarm (snd (store_row a r s)) = sm_alarm s"
  "sm_sessionTtl (snd (store_row a r s)) = sm_sessionTtl s"
  "sm_strict (snd (store_row a r s)) = sm_strict s"
  "sm_generation (snd (store_row a r s)) = sm_generation s"
  "sm_lastSerial (snd (store_row a r s)) = sm_lastSerial s"
  "sm_configRev (snd (store_row a r s)) = sm_configRev s"
  "sm_now (snd (store_row a r s)) = sm_now s"
  "sm_artifact (snd (store_row a r s)) = sm_artifact s"
  "sm_facade (snd (store_row a r s)) = sm_facade s"
  "sm_threads (snd (store_row a r s)) = sm_threads s"
  "sm_overrun (snd (store_row a r s)) = sm_overrun s"
  "sm_deferrals (snd (store_row a r s)) = sm_deferrals s"
  by (simp_all add: store_row_def)

lemma remove_frame [simp]:
  "sm_active (remove_row a s) = sm_active s"
  "sm_alarm (remove_row a s) = sm_alarm s"
  "sm_sessionTtl (remove_row a s) = sm_sessionTtl s"
  "sm_strict (remove_row a s) = sm_strict s"
  "sm_generation (remove_row a s) = sm_generation s"
  "sm_lastSerial (remove_row a s) = sm_lastSerial s"
  "sm_configRev (remove_row a s) = sm_configRev s"
  "sm_now (remove_row a s) = sm_now s"
  "sm_artifact (remove_row a s) = sm_artifact s"
  "sm_facade (remove_row a s) = sm_facade s"
  "sm_threads (remove_row a s) = sm_threads s"
  "sm_overrun (remove_row a s) = sm_overrun s"
  "sm_deferrals (remove_row a s) = sm_deferrals s"
  by (simp_all add: remove_row_def)

section \<open>One step\<close>

fun in_section :: "sm_pc \<Rightarrow> bool" where
  "in_section CloseDelete = True"
| "in_section CloseClear = True"
| "in_section (CommitSet _ _ _) = True"
| "in_section (CommitClear _) = True"
| "in_section (CommitArm _) = True"
| "in_section pc = open_section pc"

lemma open_section_in: "open_section pc \<Longrightarrow> in_section pc"
  by (cases pc) auto

lemma heads_outside [simp]:
  "\<not> in_section (fst (close_head e s))"
  "\<not> in_section (fst (apply_ttl x t c s))"
  "\<not> in_section (fst (decideExpiry w n l r b u s))"
  "\<not> in_section (after_failed_commit d)"
  "\<not> in_section (decide_head x s)"
  by (auto simp: close_head_def apply_ttl_def decideExpiry_def after_failed_commit_def decide_head_def split: option.splits)

lemma call_pc_outside [simp]: "\<not> in_section (call_pc c)" "call_pc c \<noteq> SmDone"
  by (cases c; simp)+

lemma commit_head_section:
  assumes "sm_artifact s = None"
  shows "in_section (fst (commit_head k n c e s)) \<Longrightarrow> sm_artifact (snd (commit_head k n c e s)) = Some k"
  by (auto simp: commit_head_def Let_def split: option.splits)

lemma step_artifact:
  assumes "sm_step_of a k d pc s = Some r" "in_section pc \<Longrightarrow> sm_artifact s = Some k"
  shows "in_section (fst r) \<Longrightarrow> sm_artifact (snd r) = Some k"
  using assms
  by (cases pc) (auto simp: publish_def unlocked_def Let_def store_row_def intro!: commit_head_section split: if_splits option.splits)

lemma step_artifact_other:
  assumes "sm_step_of a k d pc s = Some r" "in_section pc \<Longrightarrow> sm_artifact s = Some k" "sm_artifact s = Some j" "j \<noteq> k"
  shows "sm_artifact (snd r) = Some j"
  using assms
  by (cases pc) (auto simp: publish_def unlocked_def Let_def store_row_def split: if_splits option.splits)

text \<open>A step adds at most one thread, an expiry decision of the active session that has none.\<close>

lemma step_threads:
  assumes "sm_step_of a k d pc s = Some r"
  shows "sm_threads (snd r) = sm_threads s
    \<or> (\<exists>x. sm_active s = Some x \<and> \<not> deciding s (as_serial x) \<and> snd r = spawn_decision x s \<and> fst r \<noteq> SmDone \<and> \<not> in_section (fst r)
         \<and> \<not> in_section pc)"
  using assms
  by (cases pc) (auto simp: publish_def unlocked_def Let_def store_row_def expireOrDefer_def split: if_splits option.splits)

text \<open>The same for a thread of the manager: \<open>r\<close> is what its program counter and the state become.\<close>

lemma thread_stepE:
  assumes "sm_thread_step a k s = Some s'"
  obtains r where "sm_step_of a k (sm_decides (sm_threads s ! k)) (sm_pc_of (sm_threads s ! k)) s = Some r"
    "sm_threads s' = (sm_threads (snd r))[k := (sm_threads s ! k)\<lparr>sm_pc_of := fst r\<rparr>]"
    "sm_active s' = sm_active (snd r)" "sm_row s' = sm_row (snd r)" "sm_generation s' = sm_generation (snd r)"
    "sm_lastSerial s' = sm_lastSerial (snd r)" "sm_artifact s' = sm_artifact (snd r)" "sm_faulty s' = sm_faulty (snd r)"
    "sm_overrun s' = sm_overrun (snd r)" "sm_deferrals s' = sm_deferrals (snd r)" "sm_configRev s' = sm_configRev (snd r)"
    "sm_now s' = sm_now (snd r)" "sm_sessionTtl s' = sm_sessionTtl (snd r)"
  using assms
  by (auto simp: sm_thread_step_def Let_def settle_def split: option.splits prod.splits if_splits intro: that)

text \<open>Everything else appends at most one thread and touches neither the session nor its row.\<close>

definition same_session :: "session_manager \<Rightarrow> session_manager \<Rightarrow> bool" where
  "same_session s s' \<longleftrightarrow> sm_active s' = sm_active s \<and> sm_row s' = sm_row s \<and> sm_generation s' = sm_generation s
     \<and> sm_lastSerial s' = sm_lastSerial s \<and> sm_artifact s' = sm_artifact s \<and> sm_faulty s' = sm_faulty s
     \<and> sm_overrun s' = sm_overrun s \<and> sm_deferrals s' = sm_deferrals s"

definition call_added :: "session_manager \<Rightarrow> session_manager \<Rightarrow> bool" where
  "call_added s s' \<longleftrightarrow> (\<exists>c. sm_threads s' = sm_threads s @ [\<lparr>sm_pc_of = NeedFacade c, sm_decides = None\<rparr>])"

lemma sm_step_cases:
  assumes "sm_step s s'"
  obtains (Thread) a k where "k < length (sm_threads s)" "sm_thread_step a k s = Some s'"
  | (Call) "call_added s s'" "same_session s s'" "sm_now s' = sm_now s"
      "sm_configRev s' = sm_configRev s \<and> sm_sessionTtl s' = sm_sessionTtl s \<or> sm_configRev s' = Suc (sm_configRev s)"
  | (Idle) "sm_threads s' = sm_threads s" "same_session s s'" "sm_now s \<le> sm_now s'" "sm_configRev s' = sm_configRev s"
      "sm_sessionTtl s' = sm_sessionTtl s"
  | (Spawn) x where "sm_active s = Some x" "\<not> deciding s (as_serial x)" "s' = spawn_decision x s"
  using assms
proof (cases rule: sm_step.cases)
  case (Sm_Ttl ttl)
  then show thesis
    using Call Idle by (cases "sm_sessionTtl s = ttl") (auto simp: set_ttl_def call_thread_def call_added_def same_session_def)
next
  case (Sm_Strict v)
  then show thesis
    using Call Idle by (cases "\<not> sm_strict s \<and> v") (auto simp: set_strict_def call_thread_def call_added_def same_session_def)
next
  case (Sm_Lazy x)
  then show thesis
    using Spawn Idle by (cases "deciding s (as_serial x)") (auto simp: expireOrDefer_def same_session_def)
qed (auto simp: call_thread_def call_added_def same_session_def intro: Thread Call Idle)

section \<open>The artifact lock\<close>

definition section_held :: "session_manager \<Rightarrow> bool" where
  "section_held s \<longleftrightarrow> (\<forall>k<length (sm_threads s). in_section (sm_pc_of (sm_threads s ! k)) \<longrightarrow> sm_artifact s = Some k)"

lemma section_heldD: "section_held s \<Longrightarrow> k < length (sm_threads s) \<Longrightarrow> in_section (sm_pc_of (sm_threads s ! k)) \<Longrightarrow> sm_artifact s = Some k"
  by (simp add: section_held_def)

lemma section_held_thread:
  assumes h: "section_held s" and k: "k < length (sm_threads s)" and st: "sm_thread_step a k s = Some s'"
  shows "section_held s'"
proof -
  let ?pc = "sm_pc_of (sm_threads s ! k)"
  obtain r where r: "sm_step_of a k (sm_decides (sm_threads s ! k)) ?pc s = Some r"
    and th: "sm_threads s' = (sm_threads (snd r))[k := (sm_threads s ! k)\<lparr>sm_pc_of := fst r\<rparr>]"
    and ar: "sm_artifact s' = sm_artifact (snd r)"
    using st by (rule thread_stepE)
  have own: "in_section ?pc \<Longrightarrow> sm_artifact s = Some k"
    using section_heldD [OF h k] .
  show ?thesis
    unfolding section_held_def
  proof (intro allI impI)
    fix j
    assume j: "j < length (sm_threads s')" and sec: "in_section (sm_pc_of (sm_threads s' ! j))"
    show "sm_artifact s' = Some j"
    proof (cases "j = k")
      case True
      then show ?thesis
        using step_artifact [OF r own] sec j k th ar by auto
    next
      case False
      have "j < length (sm_threads s) \<and> in_section (sm_pc_of (sm_threads s ! j))"
        using step_threads [OF r] j sec False th
        by (auto simp: spawn_decision_def nth_append less_Suc_eq split: if_splits)
      then show ?thesis
        using section_heldD [OF h] step_artifact_other [OF r own] False ar by simp
    qed
  qed
qed

lemma section_held_step:
  assumes "sm_step s s'" "section_held s"
  shows "section_held s'"
  using assms(1)
proof (cases rule: sm_step_cases)
  case (Thread a k)
  then show ?thesis using assms(2) by (simp add: section_held_thread)
next
  case Spawn
  then show ?thesis using assms(2) by (auto simp: section_held_def spawn_decision_def nth_append less_Suc_eq)
qed (use assms(2) in \<open>auto simp: section_held_def call_added_def same_session_def nth_append less_Suc_eq\<close>)

section \<open>The session, its row and its generation\<close>

text \<open>Either the session keeps its serial, or it is closed, published, or dropped by a failed open.\<close>

definition closed_by :: "sm_pc \<Rightarrow> session_manager \<Rightarrow> session_manager \<Rightarrow> bool" where
  "closed_by pc' s s1 \<longleftrightarrow> sm_active s1 = None \<and> pc' = CloseWait (sm_generation s) \<and> sm_overrun s1 = (sm_overrun s \<or> open_running s)"

definition kept_or_closed :: "session_manager \<Rightarrow> sm_pc \<times> session_manager \<Rightarrow> bool" where
  "kept_or_closed s r \<longleftrightarrow>
     closed_by (fst r) s (snd r) \<or> active_serial (snd r) = active_serial s \<and> sm_overrun (snd r) = sm_overrun s"

lemma kept_same [simp]: "sm_active (snd r) = sm_active s \<Longrightarrow> sm_overrun (snd r) = sm_overrun s \<Longrightarrow> kept_or_closed s r"
  by (simp add: kept_or_closed_def active_serial_def)

lemma kept_close_head [simp]: "kept_or_closed s (close_head e s)"
  by (auto simp: close_head_def kept_or_closed_def closed_by_def)

lemma kept_apply_ttl [simp]: "kept_or_closed s (apply_ttl x t e s)"
  by (simp add: apply_ttl_def)

lemma kept_decide [simp]: "kept_or_closed s (decideExpiry w n l c b t s)"
  by (simp add: decideExpiry_def split: option.split)

lemma kept_commit_head [simp]: "kept_or_closed s (commit_head k n c e s)"
  by (auto simp: kept_or_closed_def commit_head_def active_serial_def change_row_def log_deferral_def Let_def
      split: option.split row_change.split)

lemma step_active:
  assumes "sm_step_of a k d pc s = Some r"
  shows "kept_or_closed s r \<and> sm_lastSerial (snd r) = sm_lastSerial s
    \<or> (\<exists>w dek. pc = OpenWait w dek) \<and> sm_artifact s = None \<and> fst r = OpenSet (Suc (sm_lastSerial s)) (case pc of OpenWait w _ \<Rightarrow> w)
        \<and> active_serial (snd r) = Some (Suc (sm_lastSerial s)) \<and> sm_overrun (snd r) = sm_overrun s
        \<and> sm_lastSerial (snd r) = Suc (sm_lastSerial s)
    \<or> (\<exists>n w. pc = OpenReadBack n w) \<and> sm_active (snd r) = None \<and> sm_overrun (snd r) = sm_overrun s \<and> sm_lastSerial (snd r) = sm_lastSerial s"
  using assms
  by (cases pc) (auto simp: publish_def unlocked_def Let_def store_row_def active_serial_def split: if_splits option.splits)

lemma step_generation:
  assumes "sm_step_of a k d pc s = Some r"
  shows "sm_generation (snd r) = sm_generation s \<or> open_section pc \<and> fst r = SmDone"
  using assms by (cases pc) (auto simp: publish_def unlocked_def Let_def store_row_def split: if_splits option.splits)

text \<open>What a program counter is about to write into the row.\<close>

fun writes :: "sm_pc \<Rightarrow> session_row option" where
  "writes (OpenSet _ r) = Some r"
| "writes (CommitSet _ r _) = Some r"
| "writes (ScrubSet r) = Some r"
| "writes _ = None"

lemma step_row:
  assumes "sm_step_of a k d pc s = Some r" "\<not> sm_faulty (snd r)"
  shows "sm_row (snd r) = sm_row s \<and> pc \<noteq> CloseDelete \<or> sm_row (snd r) = None \<or> sm_row (snd r) = writes pc"
  using assms by (cases pc) (auto simp: publish_def unlocked_def Let_def store_row_def remove_row_def split: if_splits option.splits)

lemma step_faulty: "sm_step_of a k d pc s = Some r \<Longrightarrow> sm_faulty s \<Longrightarrow> sm_faulty (snd r)"
  by (cases pc) (auto simp: publish_def unlocked_def Let_def store_row_def remove_row_def split: if_splits option.splits)

lemma step_overrun: "sm_step_of a k d pc s = Some r \<Longrightarrow> sm_overrun s \<Longrightarrow> sm_overrun (snd r)"
  using step_active [of a k d pc s r] by (auto simp: kept_or_closed_def closed_by_def)

section \<open>A locked manager's row\<close>

text \<open>
  While no storage call has failed and no session was closed under its own open: a row that still
  carries a bearer when nobody is active has a close on the way to it.
\<close>

definition carries_bearer :: "session_row option \<Rightarrow> bool" where
  "carries_bearer ro = (case ro of Some r \<Rightarrow> sr_bearer r \<noteq> None | None \<Rightarrow> False)"

definition close_waiting :: "session_manager \<Rightarrow> bool" where
  "close_waiting s \<longleftrightarrow> (\<exists>th\<in>set (sm_threads s). sm_pc_of th = CloseWait (sm_generation s))"

definition closer :: "session_manager \<Rightarrow> bool" where
  "closer s \<longleftrightarrow> close_waiting s \<or> (\<exists>th\<in>set (sm_threads s). sm_pc_of th = CloseDelete)"

fun pc_ok :: "session_manager \<Rightarrow> sm_pc \<Rightarrow> bool" where
  "pc_ok s (OpenUndo _ _) = False"
| "pc_ok s (OpenReadBack _ _) = False"
| "pc_ok s (OpenSet _ _) = (sm_active s \<noteq> None)"
| "pc_ok s (OpenArm _ _) = (sm_active s \<noteq> None)"
| "pc_ok s (OpenCommit _) = (sm_active s \<noteq> None)"
| "pc_ok s (CommitSet _ _ _) = (sm_active s \<noteq> None \<or> close_waiting s)"
| "pc_ok s (ScrubSet r) = (sr_bearer r = None)"
| "pc_ok s _ = True"

definition bearer_safe :: "session_manager \<Rightarrow> bool" where
  "bearer_safe s \<longleftrightarrow> (sm_active s = None \<and> carries_bearer (sm_row s) \<longrightarrow> closer s) \<and> (\<forall>th\<in>set (sm_threads s). pc_ok s (sm_pc_of th))"

lemma pc_ok_open: "pc_ok s pc \<Longrightarrow> open_section pc \<Longrightarrow> sm_active s \<noteq> None"
  by (cases pc) auto

lemma pc_ok_heads [simp]:
  "pc_ok t (fst (close_head e s))" "pc_ok t (fst (apply_ttl x u c s))" "pc_ok t (fst (decideExpiry w n l r b v s))"
  "pc_ok t (after_failed_commit d)" "pc_ok t (decide_head x s)" "pc_ok t (call_pc c1)"
  by (auto simp: close_head_def apply_ttl_def decideExpiry_def after_failed_commit_def decide_head_def split: option.splits
      intro: call_pc.cases [of c1])

lemma pc_ok_commit [simp]: "sm_active t = sm_active (snd (commit_head k n c e s)) \<Longrightarrow> pc_ok t (fst (commit_head k n c e s))"
  by (auto simp: commit_head_def Let_def split: option.splits)

lemma step_pc_ok:
  assumes "sm_step_of a k d pc s = Some r" "pc_ok s pc" "\<not> sm_faulty (snd r)" "sm_active t = sm_active (snd r)"
  shows "pc_ok t (fst r)"
  using assms by (cases pc) (auto simp: publish_def unlocked_def Let_def store_row_def remove_row_def split: if_splits option.splits)

lemma step_closes:
  assumes "sm_step_of a k d pc s = Some r" "pc_ok s pc" "sm_active (snd r) = None"
  shows "closed_by (fst r) s (snd r) \<or> sm_active s = None"
  using step_active [OF assms(1)] assms(2,3) by (auto simp: kept_or_closed_def active_serial_def)

text \<open>The other threads stay, and a waiting close stays with them while no open section ends.\<close>

lemma other_thread:
  assumes "sm_step_of a k d pc s = Some r" "sm_threads s' = (sm_threads (snd r))[k := th']"
    "i < length (sm_threads s)" "i \<noteq> k"
  shows "sm_threads s ! i \<in> set (sm_threads s')"
proof -
  have "i < length (sm_threads (snd r)) \<and> sm_threads (snd r) ! i = sm_threads s ! i"
    using step_threads [OF assms(1)] assms(3) by (auto simp: spawn_decision_def nth_append)
  then have "i < length (sm_threads s') \<and> sm_threads s' ! i = sm_threads s ! i"
    using assms(2,4) by simp
  then show ?thesis
    using nth_mem by metis
qed

lemma own_thread:
  assumes "sm_step_of a k d pc s = Some r" "sm_threads s' = (sm_threads (snd r))[k := th']" "k < length (sm_threads s)"
  shows "th' \<in> set (sm_threads s')"
proof -
  have "k < length (sm_threads (snd r))"
    using step_threads [OF assms(1)] assms(3) by (auto simp: spawn_decision_def)
  then show ?thesis
    using assms(2) by (simp add: set_update_memI)
qed

lemma threads_after:
  assumes "sm_step_of a k d pc s = Some r" "sm_threads s' = (sm_threads (snd r))[k := th']" "th \<in> set (sm_threads s')"
  obtains "th = th'" | i where "i < length (sm_threads s)" "i \<noteq> k" "th = sm_threads s ! i"
  | x where "sm_active s = Some x" "\<not> deciding s (as_serial x)" "snd r = spawn_decision x s" "fst r \<noteq> SmDone"
      "th = \<lparr>sm_pc_of = decide_head x s, sm_decides = Some (as_serial x)\<rparr>"
proof -
  obtain i where i: "i < length (sm_threads (snd r))" "th = sm_threads s' ! i"
    using assms(2,3) by (auto simp: in_set_conv_nth)
  show thesis
  proof (cases "i = k")
    case True
    then show thesis using i assms(2) that(1) by simp
  next
    case False
    then show thesis
      using i assms(2) step_threads [OF assms(1)] that(2,3)
      by (auto simp: spawn_decision_def nth_append less_Suc_eq split: if_splits)
  qed
qed

lemma waiting_stays:
  assumes "sm_step_of a k d pc s = Some r" "sm_threads s' = (sm_threads (snd r))[k := th']" "sm_generation s' = sm_generation s"
    "i < length (sm_threads s)" "i \<noteq> k" "sm_pc_of (sm_threads s ! i) = CloseWait (sm_generation s)"
  shows "close_waiting s'"
  using other_thread [OF assms(1,2,4,5)] assms(3,6) by (auto simp: close_waiting_def)

lemma waiting_under_section:
  assumes st: "sm_step_of a k d (sm_pc_of (sm_threads s ! k)) s = Some r" and h: "section_held s" and k: "k < length (sm_threads s)"
    and th: "sm_threads s' = (sm_threads (snd r))[k := th']" and gen: "sm_generation s' = sm_generation (snd r)"
    and j: "j < length (sm_threads s)" "j \<noteq> k" "in_section (sm_pc_of (sm_threads s ! j))" and w: "close_waiting s"
  shows "close_waiting s'"
proof -
  have art: "sm_artifact s = Some j"
    using section_heldD [OF h j(1,3)] .
  then have "\<not> in_section (sm_pc_of (sm_threads s ! k))"
    using section_heldD [OF h k] j(2) by auto
  then have same: "sm_generation s' = sm_generation s"
    using step_generation [OF st] open_section_in gen by auto
  obtain i where i: "i < length (sm_threads s)" "sm_pc_of (sm_threads s ! i) = CloseWait (sm_generation s)"
    using w by (auto simp: close_waiting_def in_set_conv_nth)
  moreover have "i \<noteq> k"
    using st i(2) art by auto
  ultimately show ?thesis
    using waiting_stays [OF st th same] by blast
qed

lemma closed_by_waiting:
  assumes st: "sm_step_of a k d pc s = Some r" and k: "k < length (sm_threads s)"
    and th: "sm_threads s' = (sm_threads (snd r))[k := th\<lparr>sm_pc_of := fst r\<rparr>]" and gen: "sm_generation s' = sm_generation (snd r)"
    and c: "closed_by (fst r) s (snd r)"
  shows "close_waiting s'"
proof -
  have "sm_generation s' = sm_generation s"
    using step_generation [OF st] c gen by (auto simp: closed_by_def)
  then show ?thesis
    using own_thread [OF st th k] c unfolding close_waiting_def closed_by_def
    by (intro bexI [of _ "th\<lparr>sm_pc_of := fst r\<rparr>"]) simp_all
qed

lemma bearer_row_thread:
  assumes h: "section_held s" and b: "bearer_safe s" and k: "k < length (sm_threads s)" and st: "sm_thread_step a k s = Some s'"
    and ok: "\<not> sm_faulty s'" and locked: "sm_active s' = None" "carries_bearer (sm_row s')"
  shows "closer s'"
proof -
  let ?th = "sm_threads s ! k"
  obtain r where r: "sm_step_of a k (sm_decides ?th) (sm_pc_of ?th) s = Some r"
    and th: "sm_threads s' = (sm_threads (snd r))[k := ?th\<lparr>sm_pc_of := fst r\<rparr>]"
    and f: "sm_active s' = sm_active (snd r)" "sm_row s' = sm_row (snd r)" "sm_generation s' = sm_generation (snd r)"
      "sm_faulty s' = sm_faulty (snd r)"
    using st by (rule thread_stepE)
  have pk: "pc_ok s (sm_pc_of ?th)"
    using b k by (simp add: bearer_safe_def)
  consider "closed_by (fst r) s (snd r)" | "sm_active s = None"
    using step_closes [OF r pk] locked(1) f(1) by auto
  then show ?thesis
  proof cases
    case 1
    then show ?thesis using closed_by_waiting [OF r k th f(3)] by (simp add: closer_def)
  next
    case 2
    then have gen: "sm_generation s' = sm_generation s"
      using step_generation [OF r] pc_ok_open [OF pk] f(3) by auto
    have "\<exists>i<length (sm_threads s). sm_pc_of (sm_threads s ! i) \<in> {CloseWait (sm_generation s), CloseDelete}
           \<and> (i = k \<longrightarrow> sm_pc_of ?th = CloseWait (sm_generation s))"
    proof -
      have "sm_row s' = sm_row s \<and> sm_pc_of ?th \<noteq> CloseDelete \<or> close_waiting s"
        using step_row [OF r] ok f(2,4) pk 2 locked(2) by (cases "sm_pc_of ?th") (auto simp: carries_bearer_def)
      then have "closer s \<and> sm_pc_of ?th \<noteq> CloseDelete \<or> close_waiting s"
        using b 2 locked(2) by (auto simp: bearer_safe_def)
      then show ?thesis
        by (auto simp: closer_def close_waiting_def in_set_conv_nth)
    qed
    then obtain i where i: "i < length (sm_threads s)" "sm_pc_of (sm_threads s ! i) \<in> {CloseWait (sm_generation s), CloseDelete}"
      and own: "i = k \<Longrightarrow> sm_pc_of ?th = CloseWait (sm_generation s)"
      by blast
    show ?thesis
    proof (cases "i = k")
      case True
      then have "fst r = CloseDelete"
        using own r by (auto split: if_splits)
      then show ?thesis using own_thread [OF r th k] unfolding closer_def
        by (intro disjI2 bexI [of _ "?th\<lparr>sm_pc_of := fst r\<rparr>"]) simp_all
    next
      case False
      then show ?thesis
        using other_thread [OF r th i(1) False] i(2) gen by (auto simp: closer_def close_waiting_def)
    qed
  qed
qed

lemma pc_ok_other:
  assumes h: "section_held s" and k: "k < length (sm_threads s)" and ok: "\<not> sm_overrun s'"
    and r: "sm_step_of a k d (sm_pc_of (sm_threads s ! k)) s = Some r" and pk: "pc_ok s (sm_pc_of (sm_threads s ! k))"
    and th: "sm_threads s' = (sm_threads (snd r))[k := (sm_threads s ! k)\<lparr>sm_pc_of := fst r\<rparr>]"
    and f: "sm_active s' = sm_active (snd r)" "sm_generation s' = sm_generation (snd r)" "sm_overrun s' = sm_overrun (snd r)"
    and j: "j < length (sm_threads s)" "j \<noteq> k" and pj: "pc_ok s (sm_pc_of (sm_threads s ! j))"
  shows "pc_ok s' (sm_pc_of (sm_threads s ! j))"
proof -
  let ?pc = "sm_pc_of (sm_threads s ! j)"
  consider "closed_by (fst r) s (snd r)" | "sm_active s' \<noteq> None" | "sm_active s = None"
    using step_closes [OF r pk] f(1) by fastforce
  then show ?thesis
  proof cases
    case 1
    have "open_section ?pc \<Longrightarrow> open_running s"
      using j(1) by (auto simp: open_running_def)
    then have "\<not> open_section ?pc"
      using 1 ok f(3) by (auto simp: closed_by_def)
    then show ?thesis
      using closed_by_waiting [OF r k th f(2) 1] pj by (cases ?pc) auto
  next
    case 2
    then show ?thesis using pj by (cases ?pc) auto
  next
    case 3
    have "in_section ?pc \<Longrightarrow> close_waiting s \<Longrightarrow> close_waiting s'"
      using waiting_under_section [OF r h k th f(2) j] by simp
    then show ?thesis using pj 3 by (cases ?pc) auto
  qed
qed

lemma bearer_safe_thread:
  assumes h: "section_held s" and b: "bearer_safe s" and k: "k < length (sm_threads s)" and st: "sm_thread_step a k s = Some s'"
    and ok: "\<not> sm_faulty s'" "\<not> sm_overrun s'"
  shows "bearer_safe s'"
proof -
  let ?th = "sm_threads s ! k"
  obtain r where r: "sm_step_of a k (sm_decides ?th) (sm_pc_of ?th) s = Some r"
    and th: "sm_threads s' = (sm_threads (snd r))[k := ?th\<lparr>sm_pc_of := fst r\<rparr>]"
    and f: "sm_active s' = sm_active (snd r)" "sm_generation s' = sm_generation (snd r)" "sm_overrun s' = sm_overrun (snd r)"
      "sm_faulty s' = sm_faulty (snd r)"
    using st by (rule thread_stepE)
  have all: "pc_ok s (sm_pc_of (sm_threads s ! i))" if "i < length (sm_threads s)" for i
    using b that by (simp add: bearer_safe_def)
  have "pc_ok s' (sm_pc_of t)" if t: "t \<in> set (sm_threads s')" for t
    using r th t
  proof (cases rule: threads_after)
    case 1
    then show ?thesis using step_pc_ok [OF r all [OF k]] ok(1) f by simp
  next
    case (2 i)
    then show ?thesis using pc_ok_other [OF h k ok(2) r all [OF k] th f(1-3)] all by simp
  qed simp
  then show ?thesis
    using bearer_row_thread [OF h b k st ok(1)] by (simp add: bearer_safe_def)
qed

lemma pc_ok_same: "sm_active s' = sm_active s \<Longrightarrow> (close_waiting s \<Longrightarrow> close_waiting s') \<Longrightarrow> pc_ok s pc \<Longrightarrow> pc_ok s' pc"
  by (cases pc) auto

lemma bearer_safe_more:
  assumes b: "bearer_safe s" and same: "same_session s s'" and th: "set (sm_threads s') = set (sm_threads s) \<union> T"
    and T: "\<And>t. t \<in> T \<Longrightarrow> pc_ok s' (sm_pc_of t)"
  shows "bearer_safe s'"
proof -
  have w: "close_waiting s \<Longrightarrow> close_waiting s'" and c: "closer s \<Longrightarrow> closer s'"
    using same th by (auto simp: closer_def close_waiting_def same_session_def)
  show ?thesis
    unfolding bearer_safe_def
  proof
    show "sm_active s' = None \<and> carries_bearer (sm_row s') \<longrightarrow> closer s'"
      using b same c by (auto simp: bearer_safe_def same_session_def)
    show "\<forall>t\<in>set (sm_threads s'). pc_ok s' (sm_pc_of t)"
      using b same w th T pc_ok_same [of s' s] by (auto simp: bearer_safe_def same_session_def)
  qed
qed

lemma bearer_safe_step:
  assumes "sm_step s s'" "section_held s" "bearer_safe s" "\<not> sm_faulty s'" "\<not> sm_overrun s'"
  shows "bearer_safe s'"
  using assms(1)
proof (cases rule: sm_step_cases)
  case (Thread a k)
  then show ?thesis using assms bearer_safe_thread by blast
next
  case Call
  then obtain c where "sm_threads s' = sm_threads s @ [\<lparr>sm_pc_of = NeedFacade c, sm_decides = None\<rparr>]"
    by (auto simp: call_added_def)
  then show ?thesis using bearer_safe_more [OF assms(3) Call(2), of "{\<lparr>sm_pc_of = NeedFacade c, sm_decides = None\<rparr>}"] by auto
next
  case Idle
  then show ?thesis using bearer_safe_more [OF assms(3) Idle(2), of "{}"] by simp
next
  case (Spawn x)
  have "same_session s s'"
    using Spawn by (simp add: same_session_def spawn_decision_def)
  then show ?thesis
    using bearer_safe_more [OF assms(3), of s' "{\<lparr>sm_pc_of = decide_head x s, sm_decides = Some (as_serial x)\<rparr>}"] Spawn
    by (simp add: spawn_decision_def)
qed

lemma step_faults:
  assumes "sm_step s s'"
  shows "sm_faulty s \<Longrightarrow> sm_faulty s'" "sm_overrun s \<Longrightarrow> sm_overrun s'"
proof -
  have "(sm_faulty s \<longrightarrow> sm_faulty s') \<and> (sm_overrun s \<longrightarrow> sm_overrun s')"
    using assms
  proof (cases rule: sm_step_cases)
    case (Thread a k)
    then show ?thesis
      using step_faulty step_overrun by (elim thread_stepE) auto
  qed (auto simp: same_session_def spawn_decision_def)
  then show "sm_faulty s \<Longrightarrow> sm_faulty s'" "sm_overrun s \<Longrightarrow> sm_overrun s'"
    by auto
qed

lemma bearer_safe_reach:
  assumes "sm_step\<^sup>*\<^sup>* s s'" "section_held s" "bearer_safe s" "\<not> sm_faulty s'" "\<not> sm_overrun s'"
  shows "section_held s' \<and> bearer_safe s'"
  using assms
  by (induction rule: rtranclp_induct) (blast dest: step_faults section_held_step bearer_safe_step)+

end
