(* ===== verification/Session_Deferral.thy ===== *)
theory Session_Deferral
  imports Session_Safety
begin

text \<open>
  How long a session can outlive its deadline. One decision at a time belongs to a session, the end
  of its budget is fixed by the first deferral that is written, and no later one moves past it.
\<close>

section \<open>What a step may do to a session\<close>

text \<open>Every step but a written deferral leaves the budget alone and never turns \<open>since\<close> back.\<close>

definition evolves :: "session_manager \<Rightarrow> session_manager \<Rightarrow> bool" where
  "evolves s s' \<longleftrightarrow> sm_now s \<le> sm_now s' \<and> sm_lastSerial s \<le> sm_lastSerial s'
     \<and> (sm_configRev s' = sm_configRev s \<and> sm_sessionTtl s' = sm_sessionTtl s \<or> sm_configRev s < sm_configRev s')
     \<and> (\<forall>x'. sm_active s' = Some x' \<longrightarrow>
          as_serial x' = Suc (sm_lastSerial s) \<and> sm_lastSerial s' = Suc (sm_lastSerial s) \<and> as_deferBudgetEnd x' = None
          \<or> (\<exists>x. sm_active s = Some x \<and> as_serial x' = as_serial x \<and> as_deferBudgetEnd x' = as_deferBudgetEnd x
               \<and> sr_since (as_session x) \<le> sr_since (as_session x')))"

definition live_ok :: "session_manager \<Rightarrow> bool" where
  "live_ok s \<longleftrightarrow> (\<forall>x. sm_active s = Some x \<longrightarrow> as_serial x \<le> sm_lastSerial s \<and> sr_since (as_session x) \<le> sm_now s)"

definition defers :: "sm_pc \<Rightarrow> bool" where
  "defers pc = (case pc of CommitWait _ (DeferRow _ _) _ \<Rightarrow> True | _ \<Rightarrow> False)"

lemma evolves_same:
  assumes "sm_active s' = sm_active s" "sm_now s \<le> sm_now s'" "sm_lastSerial s' = sm_lastSerial s"
    "sm_configRev s' = sm_configRev s \<and> sm_sessionTtl s' = sm_sessionTtl s \<or> sm_configRev s < sm_configRev s'"
  shows "evolves s s'"
  using assms by (simp add: evolves_def)

lemma evolves_closed:
  assumes "sm_active s' = None" "sm_now s' = sm_now s" "sm_lastSerial s' = sm_lastSerial s" "sm_configRev s' = sm_configRev s"
    "sm_sessionTtl s' = sm_sessionTtl s"
  shows "evolves s s'"
  using assms by (simp add: evolves_def)

lemma evolves_close_head [simp]: "evolves s (snd (close_head e s))"
  by (auto simp: close_head_def intro: evolves_same evolves_closed)

lemma evolves_apply_ttl [simp]: "evolves s (snd (apply_ttl x t e s))"
  by (auto simp: apply_ttl_def intro: evolves_same)

lemma evolves_decide [simp]: "evolves s (snd (decideExpiry w n l c b t s))"
  by (auto simp: decideExpiry_def intro: evolves_same split: option.split)

lemma evolves_commit_head:
  assumes "live_ok s" "\<not> defers (CommitWait n c e)"
  shows "evolves s (snd (commit_head k n c e s))"
  using assms
  by (auto simp: commit_head_def change_row_def log_deferral_def defers_def live_ok_def evolves_def Let_def
      split: option.split row_change.split)

lemma step_evolves:
  assumes "sm_step_of a k d pc s = Some r" "live_ok s" "\<not> defers pc"
  shows "evolves s (snd r)"
  using assms
  by (cases pc) (auto simp: publish_def unlocked_def Let_def store_row_def evolves_same evolves_closed evolves_commit_head
      split: if_splits option.splits, auto simp: evolves_def)

section \<open>The budget a decision carries\<close>

text \<open>\<open>l\<close> and \<open>c\<close> are the deadline and the revision the decision was taken on, \<open>b\<close> the end of its budget.\<close>

definition budget_bound :: "session_manager \<Rightarrow> nat \<Rightarrow> time option \<Rightarrow> nat \<Rightarrow> time \<Rightarrow> bool" where
  "budget_bound s n l c b \<longleftrightarrow> n \<le> sm_lastSerial s \<and> c \<le> sm_configRev s \<and>
     (\<forall>x. sm_active s = Some x \<and> as_serial x = n \<longrightarrow>
        (case as_deferBudgetEnd x of
           Some b0 \<Rightarrow> b = b0
         | None \<Rightarrow> c = sm_configRev s \<longrightarrow>
             b \<le> or_else l (sr_since (as_session x) + sm_sessionTtl s) + min (sm_sessionTtl s) MAX_EXPIRY_DEFERRAL_MS))"

fun pc_bound :: "session_manager \<Rightarrow> nat option \<Rightarrow> sm_pc \<Rightarrow> bool" where
  "pc_bound s d (DecideAnswer n l c b _) = (d = Some n \<and> budget_bound s n l c b)"
| "pc_bound s d (CommitWait n (DeferRow b _) (Expect l c)) = (d = Some n \<and> budget_bound s n l c b)"
| "pc_bound s d (CommitWait _ (DeferRow _ _) AnyState) = False"
| "pc_bound s d (OpenWrapped _ _ _ since) = (since \<le> sm_now s)"
| "pc_bound s d (OpenWait r _) = (sr_since r \<le> sm_now s)"
| "pc_bound s d _ = True"

lemma budget_bound_evolves:
  assumes "evolves s s'" "budget_bound s n l c b"
  shows "budget_bound s' n l c b"
  unfolding budget_bound_def
proof (intro conjI allI impI)
  show "n \<le> sm_lastSerial s'" "c \<le> sm_configRev s'"
    using assms by (auto simp: evolves_def budget_bound_def)
  fix x'
  assume x': "sm_active s' = Some x' \<and> as_serial x' = n"
  then obtain x where x: "sm_active s = Some x" "as_serial x' = as_serial x" "as_deferBudgetEnd x' = as_deferBudgetEnd x"
      "sr_since (as_session x) \<le> sr_since (as_session x')"
    using assms by (auto simp: evolves_def budget_bound_def)
  have rev: "sm_configRev s' = sm_configRev s \<and> sm_sessionTtl s' = sm_sessionTtl s \<or> c \<noteq> sm_configRev s'"
    using assms by (auto simp: evolves_def budget_bound_def)
  show "case as_deferBudgetEnd x' of Some b0 \<Rightarrow> b = b0
        | None \<Rightarrow> c = sm_configRev s' \<longrightarrow>
            b \<le> or_else l (sr_since (as_session x') + sm_sessionTtl s') + min (sm_sessionTtl s') MAX_EXPIRY_DEFERRAL_MS"
    using assms(2) x x' rev by (cases l) (auto simp: budget_bound_def split: option.splits)
qed

lemma pc_bound_evolves: "evolves s s' \<Longrightarrow> pc_bound s d pc \<Longrightarrow> pc_bound s' d pc"
  by (cases "(s, d, pc)" rule: pc_bound.cases) (auto simp: budget_bound_evolves evolves_def)

lemma pc_bound_heads [simp]:
  "pc_bound t d (fst (close_head e s))" "pc_bound t d (fst (apply_ttl x u c s))" "pc_bound t d (fst (commit_head k n rc ce s))"
  "pc_bound t d (after_failed_commit d1)" "pc_bound t d (call_pc c1)"
  by (auto simp: close_head_def apply_ttl_def commit_head_def after_failed_commit_def Let_def split: option.splits
      intro: call_pc.cases [of c1])

lemma pc_bound_decide: "d = Some n \<Longrightarrow> budget_bound s n l c b \<Longrightarrow> pc_bound s d (fst (decideExpiry w n l c b t s))"
  by (auto simp: decideExpiry_def split: option.splits)

lemma step_pc_bound:
  assumes "sm_step_of a k d pc s = Some r" "live_ok s" "pc_bound s d pc"
  shows "pc_bound s d (fst r)"
  using assms
  by (cases pc) (auto simp: publish_def unlocked_def Let_def store_row_def open_row_def pc_bound_decide split: if_splits option.splits)

lemma decide_head_bound:
  assumes "live_ok s" "sm_active s = Some x"
  shows "pc_bound s (Some (as_serial x)) (decide_head x s)"
  using assms by (auto simp: decide_head_def budget_bound_def live_ok_def deriveLockedAt_def or_else_def split: option.splits)

section \<open>One decision per session\<close>

definition decides_now :: "sm_thread \<Rightarrow> nat option" where
  "decides_now th = (if sm_pc_of th = SmDone then None else sm_decides th)"

definition one_decision :: "session_manager \<Rightarrow> bool" where
  "one_decision s \<longleftrightarrow> (\<forall>i<length (sm_threads s). \<forall>j<length (sm_threads s).
     decides_now (sm_threads s ! i) \<noteq> None \<and> decides_now (sm_threads s ! i) = decides_now (sm_threads s ! j) \<longrightarrow> i = j)"

lemma deciding_iff: "deciding s n \<longleftrightarrow> (\<exists>i<length (sm_threads s). decides_now (sm_threads s ! i) = Some n)"
  unfolding deciding_def decides_now_def by (metis in_set_conv_nth option.distinct(1))

lemma one_decision_append:
  assumes "one_decision s" "sm_threads s' = sm_threads s @ [t]" "\<And>n. decides_now t = Some n \<Longrightarrow> \<not> deciding s n"
  shows "one_decision s'"
  unfolding one_decision_def
proof (intro allI impI)
  have fresh: "decides_now (sm_threads s ! i) \<noteq> decides_now t" if "i < length (sm_threads s)" "decides_now t \<noteq> None" for i
    using assms(3) that unfolding deciding_iff by fastforce
  fix i j
  assume "i < length (sm_threads s')" "j < length (sm_threads s')"
    and eq: "decides_now (sm_threads s' ! i) \<noteq> None \<and> decides_now (sm_threads s' ! i) = decides_now (sm_threads s' ! j)"
  then have "i \<le> length (sm_threads s)" "j \<le> length (sm_threads s)"
    using assms(2) by auto
  then consider "i < length (sm_threads s)" "j < length (sm_threads s)" | "i = length (sm_threads s)" "j = length (sm_threads s)"
    | "i < length (sm_threads s)" "j = length (sm_threads s)" | "i = length (sm_threads s)" "j < length (sm_threads s)"
    by linarith
  then show "i = j"
  proof cases
    case 1
    then show ?thesis using assms(1) eq assms(2) unfolding one_decision_def by (metis nth_append)
  next
    case 3
    then show ?thesis using assms(2) eq fresh [of i] by (metis nth_append nth_append_length)
  next
    case 4
    then show ?thesis using assms(2) eq fresh [of j] by (metis nth_append nth_append_length)
  qed simp
qed

lemma one_decision_cong: "sm_threads s' = sm_threads s \<Longrightarrow> one_decision s' = one_decision s"
  by (simp add: one_decision_def)

lemma one_decision_spawn: "one_decision s \<Longrightarrow> \<not> deciding s (as_serial x) \<Longrightarrow> one_decision (spawn_decision x s)"
  by (erule one_decision_append) (auto simp: spawn_decision_def decides_now_def split: if_splits)

lemma one_decision_call: "one_decision s \<Longrightarrow> call_added s s' \<Longrightarrow> one_decision s'"
  unfolding call_added_def by (elim exE, erule one_decision_append) (auto simp: decides_now_def)

lemma one_decision_update:
  assumes "one_decision s" "k < length (sm_threads s)" "sm_threads s' = (sm_threads s)[k := t]"
    "decides_now t = None \<or> decides_now t = decides_now (sm_threads s ! k)"
  shows "one_decision s'"
  using assms by (auto simp: one_decision_def nth_list_update) metis+

lemma one_decision_thread:
  assumes d: "one_decision s" and k: "k < length (sm_threads s)" and st: "sm_thread_step a k s = Some s'"
  shows "one_decision s'"
proof -
  let ?th = "sm_threads s ! k"
  obtain r where r: "sm_step_of a k (sm_decides ?th) (sm_pc_of ?th) s = Some r"
    and th: "sm_threads s' = (sm_threads (snd r))[k := ?th\<lparr>sm_pc_of := fst r\<rparr>]"
    using st by (rule thread_stepE)
  have "sm_pc_of ?th \<noteq> SmDone"
    using r by auto
  then have now: "decides_now (?th\<lparr>sm_pc_of := fst r\<rparr>) = None \<or> decides_now (?th\<lparr>sm_pc_of := fst r\<rparr>) = decides_now ?th"
    by (simp add: decides_now_def)
  have old: "one_decision (snd r)"
    using step_threads [OF r] one_decision_spawn [OF d] one_decision_cong [of "snd r" s] d by auto
  have kept: "k < length (sm_threads (snd r))" "sm_threads (snd r) ! k = ?th"
    using step_threads [OF r] k by (auto simp: spawn_decision_def nth_append)
  show ?thesis
    using one_decision_update [OF old kept(1) th] now kept(2) by simp
qed

lemma one_decision_step:
  assumes "sm_step s s'" "one_decision s"
  shows "one_decision s'"
  using assms(1)
proof (cases rule: sm_step_cases)
  case (Thread a k)
  then show ?thesis using one_decision_thread [OF assms(2)] by blast
next
  case Call
  then show ?thesis using one_decision_call [OF assms(2)] by blast
next
  case Idle
  then show ?thesis using assms(2) one_decision_cong by blast
next
  case (Spawn x)
  then show ?thesis using one_decision_spawn [OF assms(2)] by blast
qed

section \<open>The written deferrals\<close>

text \<open>The latest deadline the first deferral of session \<open>n\<close> allows.\<close>

definition budget_end :: "deferral list \<Rightarrow> nat \<Rightarrow> time option" where
  "budget_end ds n =
     map_option (\<lambda>e. df_old e + min (df_ttl e) MAX_EXPIRY_DEFERRAL_MS) (find (\<lambda>e. df_serial e = n) ds)"

definition log_ok :: "session_manager \<Rightarrow> bool" where
  "log_ok s \<longleftrightarrow> (\<forall>e\<in>set (sm_deferrals s). df_serial e \<le> sm_lastSerial s \<and> df_new e \<le> the (budget_end (sm_deferrals s) (df_serial e)))
     \<and> (\<forall>x. sm_active s = Some x \<longrightarrow>
          rel_option (\<lambda>b0 b. b0 \<le> b) (as_deferBudgetEnd x) (budget_end (sm_deferrals s) (as_serial x)))"

lemma budget_end_none: "budget_end ds n = None \<longleftrightarrow> (\<forall>e\<in>set ds. df_serial e \<noteq> n)"
  by (auto simp: budget_end_def find_None_iff)

lemma find_append: "find P (xs @ ys) = (case find P xs of None \<Rightarrow> find P ys | Some x \<Rightarrow> Some x)"
  by (induction xs) auto

lemma budget_end_snoc:
  "budget_end (ds @ [e]) n = (case budget_end ds n of
     Some b \<Rightarrow> Some b
   | None \<Rightarrow> if df_serial e = n then Some (df_old e + min (df_ttl e) MAX_EXPIRY_DEFERRAL_MS) else None)"
  by (simp add: budget_end_def find_append split: option.split)

lemma log_ok_evolves:
  assumes "log_ok s" "evolves s s'" "sm_deferrals s' = sm_deferrals s" "live_ok s"
  shows "log_ok s'"
  unfolding log_ok_def
proof (intro conjI ballI allI impI)
  fix e assume "e \<in> set (sm_deferrals s')"
  then show "df_serial e \<le> sm_lastSerial s'" "df_new e \<le> the (budget_end (sm_deferrals s') (df_serial e))"
    using assms by (auto simp: log_ok_def evolves_def)
next
  fix x'
  assume x': "sm_active s' = Some x'"
  have "budget_end (sm_deferrals s) (Suc (sm_lastSerial s)) = None"
    using assms(1) unfolding budget_end_none by (auto simp: log_ok_def)
  then show "rel_option (\<le>) (as_deferBudgetEnd x') (budget_end (sm_deferrals s') (as_serial x'))"
    using assms x' by (auto simp: log_ok_def evolves_def)
qed

lemma live_ok_evolves:
  assumes "live_ok s" "evolves s s'" "\<And>x. sm_active s' = Some x \<Longrightarrow> sr_since (as_session x) \<le> sm_now s'"
  shows "live_ok s'"
  using assms by (fastforce simp: live_ok_def evolves_def)

text \<open>A deferral that is written: its session is the active one and stands as the decision found it.\<close>

lemma defer_head:
  assumes st: "sm_step_of a k d pc s = Some r" and df: "defers pc" and pb: "pc_bound s d pc"
  obtains "r = (SmDone, s)"
  | x b t where "sm_active s = Some x" "d = Some (as_serial x)"
      "budget_bound s (as_serial x) (sr_lockedAt (as_session x)) (sm_configRev s) b"
      "snd r = s\<lparr>sm_deferrals := sm_deferrals s @ [\<lparr>df_serial = as_serial x,
         df_old = deriveLockedAt (sm_sessionTtl s) (as_session x), df_ttl = sm_sessionTtl s, df_new = min t b\<rparr>],
         sm_active := Some (change_row (DeferRow b t) s x), sm_artifact := Some k\<rparr>" "\<And>s1. pc_bound s1 d (fst r)"
  using assms
  by (auto simp: defers_def commit_head_def log_deferral_def expectation_met_def Let_def
      split: sm_pc.splits row_change.splits commit_expectation.splits if_splits option.splits)

lemma budget_boundD:
  assumes "budget_bound s (as_serial x) (sr_lockedAt (as_session x)) (sm_configRev s) b" "sm_active s = Some x"
  shows "as_deferBudgetEnd x = Some b0 \<Longrightarrow> b = b0"
    and "as_deferBudgetEnd x = None \<Longrightarrow>
      b \<le> deriveLockedAt (sm_sessionTtl s) (as_session x) + min (sm_sessionTtl s) MAX_EXPIRY_DEFERRAL_MS"
  using assms by (auto simp: budget_bound_def deriveLockedAt_def)

lemma log_ok_defer:
  assumes ok: "log_ok s" "live_ok s" and x: "sm_active s = Some x"
    and b: "budget_bound s (as_serial x) (sr_lockedAt (as_session x)) (sm_configRev s) b"
    and e: "df_serial e = as_serial x" "df_old e = deriveLockedAt (sm_sessionTtl s) (as_session x)" "df_ttl e = sm_sessionTtl s"
      "df_new e \<le> b"
    and s': "sm_active s' = Some (change_row (DeferRow b t) s x)" "sm_deferrals s' = sm_deferrals s @ [e]" "sm_lastSerial s' = sm_lastSerial s"
  shows "log_ok s'"
proof -
  have rel: "rel_option (\<le>) (as_deferBudgetEnd x) (budget_end (sm_deferrals s) (as_serial x))"
    using ok(1) x by (simp add: log_ok_def)
  obtain b1 where b1: "budget_end (sm_deferrals s') (as_serial x) = Some b1" "b \<le> b1" "or_else (as_deferBudgetEnd x) b = b"
    using rel budget_boundD [OF b x] e s'(2)
    by (cases "as_deferBudgetEnd x") (auto simp: budget_end_snoc option_rel_Some1 option_rel_Some2)
  have old: "df_new q \<le> the (budget_end (sm_deferrals s') (df_serial q))" if q: "q \<in> set (sm_deferrals s)" for q
  proof -
    have "budget_end (sm_deferrals s) (df_serial q) \<noteq> None"
      using q budget_end_none by blast
    then show ?thesis
      using ok(1) q s'(2) by (auto simp: log_ok_def budget_end_snoc)
  qed
  show ?thesis
    using ok x e b1 s' old by (auto simp: log_ok_def live_ok_def change_row_def)
qed

section \<open>The invariant\<close>

definition deferral_ok :: "session_manager \<Rightarrow> bool" where
  "deferral_ok s \<longleftrightarrow> live_ok s \<and> one_decision s \<and> log_ok s \<and> (\<forall>th\<in>set (sm_threads s). pc_bound s (sm_decides th) (sm_pc_of th))"

lemma step_live:
  assumes "sm_step_of a k d pc s = Some r" "live_ok s" "pc_bound s d pc"
  shows "live_ok (snd r)"
proof -
  have close: "live_ok (snd (close_head e s))" "live_ok (snd (apply_ttl x u c s))" "live_ok (snd (decideExpiry w n l q b v s))"
    for e x u c w n l q b v
    using assms(2) by (auto simp: close_head_def apply_ttl_def decideExpiry_def live_ok_def split: option.split)
  have commit: "live_ok (snd (commit_head k n c e s))" for n c e
    using assms(2) by (auto simp: commit_head_def change_row_def log_deferral_def live_ok_def Let_def split: option.split row_change.split)
  have frame: "sm_active t = sm_active s \<Longrightarrow> sm_now t = sm_now s \<Longrightarrow> sm_lastSerial t = sm_lastSerial s \<Longrightarrow> live_ok t" for t
    using assms(2) by (simp add: live_ok_def)
  show ?thesis
    using assms(1,3) assms(2)
    by (cases pc) (auto simp: publish_def unlocked_def Let_def store_row_def close commit frame split: if_splits option.splits,
        auto simp: live_ok_def)
qed

lemma step_log_same: "sm_step_of a k d pc s = Some r \<Longrightarrow> \<not> defers pc \<Longrightarrow> sm_deferrals (snd r) = sm_deferrals s"
  by (cases pc) (auto simp: publish_def unlocked_def Let_def store_row_def commit_head_def log_deferral_def defers_def
      split: if_splits option.splits row_change.splits)

lemma pc_bound_other_session:
  assumes "pc_bound s d pc" "d \<noteq> Some (as_serial x) \<or> pc = SmDone" "sm_active s' = Some x'" "as_serial x' = as_serial x"
    "sm_now s' = sm_now s" "sm_lastSerial s' = sm_lastSerial s" "sm_configRev s' = sm_configRev s"
  shows "pc_bound s' d pc"
  using assms by (cases "(s, d, pc)" rule: pc_bound.cases) (auto simp: budget_bound_def)

lemma one_decisionD:
  assumes "one_decision s" "i < length (sm_threads s)" "k < length (sm_threads s)" "i \<noteq> k"
    "sm_decides (sm_threads s ! k) = Some n" "sm_pc_of (sm_threads s ! k) \<noteq> SmDone"
  shows "sm_decides (sm_threads s ! i) \<noteq> Some n \<or> sm_pc_of (sm_threads s ! i) = SmDone"
proof (rule ccontr)
  assume "\<not> ?thesis"
  then have "decides_now (sm_threads s ! i) = Some n" "decides_now (sm_threads s ! k) = Some n"
    using assms by (auto simp: decides_now_def)
  then show False
    using assms unfolding one_decision_def by (metis option.distinct(1))
qed

lemma deferral_ok_defer:
  assumes inv: "deferral_ok s" and k: "k < length (sm_threads s)"
    and r: "sm_step_of a k (sm_decides (sm_threads s ! k)) (sm_pc_of (sm_threads s ! k)) s = Some r"
    and th: "sm_threads s' = (sm_threads (snd r))[k := (sm_threads s ! k)\<lparr>sm_pc_of := fst r\<rparr>]"
    and f: "sm_active s' = sm_active (snd r)" "sm_now s' = sm_now (snd r)" "sm_lastSerial s' = sm_lastSerial (snd r)"
      "sm_configRev s' = sm_configRev (snd r)" "sm_deferrals s' = sm_deferrals (snd r)"
    and df: "defers (sm_pc_of (sm_threads s ! k))" "r \<noteq> (SmDone, s)"
  shows "log_ok s' \<and> (\<forall>t\<in>set (sm_threads s'). pc_bound s' (sm_decides t) (sm_pc_of t))"
proof -
  let ?th = "sm_threads s ! k"
  have live: "live_ok s" and one: "one_decision s" and lg: "log_ok s"
    and pcs: "\<And>i. i < length (sm_threads s) \<Longrightarrow> pc_bound s (sm_decides (sm_threads s ! i)) (sm_pc_of (sm_threads s ! i))"
    using inv by (auto simp: deferral_ok_def)
  obtain x b t where x: "sm_active s = Some x" "sm_decides ?th = Some (as_serial x)"
    and b: "budget_bound s (as_serial x) (sr_lockedAt (as_session x)) (sm_configRev s) b"
    and q: "snd r = s\<lparr>sm_deferrals := sm_deferrals s @ [\<lparr>df_serial = as_serial x,
       df_old = deriveLockedAt (sm_sessionTtl s) (as_session x), df_ttl = sm_sessionTtl s, df_new = min t b\<rparr>],
       sm_active := Some (change_row (DeferRow b t) s x), sm_artifact := Some k\<rparr>"
    and own: "\<And>s1. pc_bound s1 (sm_decides ?th) (fst r)"
    using defer_head [OF r df(1) pcs [OF k]] df(2) by blast
  have "log_ok s'"
    by (rule log_ok_defer [OF lg live x(1) b, of "\<lparr>df_serial = as_serial x,
       df_old = deriveLockedAt (sm_sessionTtl s) (as_session x), df_ttl = sm_sessionTtl s, df_new = min t b\<rparr>" s' t])
      (use f q in simp_all)
  moreover have "pc_bound s' (sm_decides u) (sm_pc_of u)" if u: "u \<in> set (sm_threads s')" for u
    using r th u
  proof (cases rule: threads_after)
    case 1
    then show ?thesis using own by simp
  next
    case (2 i)
    have "sm_pc_of ?th \<noteq> SmDone"
      using r by auto
    then have "sm_decides u \<noteq> Some (as_serial x) \<or> sm_pc_of u = SmDone"
      using one_decisionD [OF one 2(1) k 2(2) x(2)] 2(3) by simp
    then show ?thesis
      using pc_bound_other_session [of s "sm_decides u" "sm_pc_of u" x s' "change_row (DeferRow b t) s x"] pcs [OF 2(1)] 2(3) f q
      by (auto simp: change_row_def)
  next
    case (3 y)
    then show ?thesis using q by (auto simp: spawn_decision_def dest: arg_cong [of _ _ sm_deferrals])
  qed
  ultimately show ?thesis by blast
qed

lemma deferral_ok_thread:
  assumes inv: "deferral_ok s" and k: "k < length (sm_threads s)" and st: "sm_thread_step a k s = Some s'"
  shows "deferral_ok s'"
proof -
  let ?th = "sm_threads s ! k"
  obtain r where r: "sm_step_of a k (sm_decides ?th) (sm_pc_of ?th) s = Some r"
    and th: "sm_threads s' = (sm_threads (snd r))[k := ?th\<lparr>sm_pc_of := fst r\<rparr>]"
    and f: "sm_active s' = sm_active (snd r)" "sm_now s' = sm_now (snd r)" "sm_lastSerial s' = sm_lastSerial (snd r)"
      "sm_configRev s' = sm_configRev (snd r)" "sm_sessionTtl s' = sm_sessionTtl (snd r)"
    and log: "sm_deferrals s' = sm_deferrals (snd r)"
    using st by (rule thread_stepE)
  have live: "live_ok s" and one: "one_decision s" and lg: "log_ok s"
    and pcs: "\<And>i. i < length (sm_threads s) \<Longrightarrow> pc_bound s (sm_decides (sm_threads s ! i)) (sm_pc_of (sm_threads s ! i))"
    using inv by (auto simp: deferral_ok_def)
  have "log_ok s' \<and> (\<forall>t\<in>set (sm_threads s'). pc_bound s' (sm_decides t) (sm_pc_of t))"
  proof (cases "defers (sm_pc_of ?th) \<and> r \<noteq> (SmDone, s)")
    case True
    then show ?thesis using deferral_ok_defer [OF inv k r th f(1-4) log] by simp
  next
    case False
    then have ev: "evolves s s'"
      using step_evolves [OF r live] f evolves_same [of s' s] by (cases "r = (SmDone, s)") (auto simp: evolves_def)
    have "sm_deferrals s' = sm_deferrals s"
      using False step_log_same [OF r] log by auto
    moreover have "pc_bound s' (sm_decides t) (sm_pc_of t)" if t: "t \<in> set (sm_threads s')" for t
      using r th t
    proof (cases rule: threads_after)
      case (3 x)
      then show ?thesis using pc_bound_evolves [OF ev decide_head_bound [OF live]] by simp
    qed (use pc_bound_evolves [OF ev] step_pc_bound [OF r live pcs [OF k]] pcs in auto)
    ultimately show ?thesis
      using log_ok_evolves [OF lg ev _ live] by blast
  qed
  then show ?thesis
    using step_live [OF r live pcs [OF k]] f one_decision_thread [OF one k st] by (simp add: deferral_ok_def live_ok_def)
qed

lemma deferral_ok_more:
  assumes inv: "deferral_ok s" and ev: "evolves s s'" and log: "sm_deferrals s' = sm_deferrals s"
    and one: "one_decision s'" and act: "sm_active s' = sm_active s" and last: "sm_lastSerial s' = sm_lastSerial s"
    and th: "\<And>t. t \<in> set (sm_threads s') \<Longrightarrow> t \<in> set (sm_threads s) \<or> pc_bound s (sm_decides t) (sm_pc_of t)"
  shows "deferral_ok s'"
proof -
  have "live_ok s'"
    using inv ev act last by (fastforce simp: deferral_ok_def live_ok_def evolves_def)
  then show ?thesis
    using inv log_ok_evolves [OF _ ev log] th pc_bound_evolves [OF ev] one by (auto simp: deferral_ok_def)
qed

lemma deferral_ok_step:
  assumes "sm_step s s'" "deferral_ok s"
  shows "deferral_ok s'"
proof -
  have one: "one_decision s'"
    using one_decision_step [OF assms(1)] assms(2) by (simp add: deferral_ok_def)
  show ?thesis
    using assms(1)
  proof (cases rule: sm_step_cases)
    case (Thread a k)
    then show ?thesis using deferral_ok_thread [OF assms(2)] by blast
  next
    case Call
    then show ?thesis
      by (intro deferral_ok_more [OF assms(2) _ _ one] evolves_same) (auto simp: same_session_def call_added_def)
  next
    case Idle
    then show ?thesis
      by (intro deferral_ok_more [OF assms(2) _ _ one] evolves_same) (auto simp: same_session_def)
  next
    case (Spawn x)
    have "live_ok s"
      using assms(2) by (simp add: deferral_ok_def)
    with Spawn show ?thesis
      by (intro deferral_ok_more [OF assms(2) _ _ one] evolves_same) (auto simp: spawn_decision_def decide_head_bound)
  qed
qed

lemma deferral_ok_reach: "sm_step\<^sup>*\<^sup>* s s' \<Longrightarrow> deferral_ok s \<Longrightarrow> deferral_ok s'"
  by (induction rule: rtranclp_induct) (auto intro: deferral_ok_step)

end
