(* ===== verification/Session_Properties.thy ===== *)
theory Session_Properties
  imports Session_Deferral
begin

text \<open>
  What the session manager guarantees from any start: a closed session stays closed, a locked manager
  is about to lose its bearer, and deferrals share one budget.
\<close>

section \<open>Runs\<close>

text \<open>An event names a step, so that a run is a list of them.\<close>

datatype sm_event = RunThread sm_answer nat | RunCall sm_call | RunRead | RunClock time

fun sm_apply :: "sm_event \<Rightarrow> session_manager \<Rightarrow> session_manager option" where
  "sm_apply (RunThread a k) s = (if k < length (sm_threads s) then sm_thread_step a k s else None)"
| "sm_apply (RunCall c) s =
     (case c of CallTtl ttl \<Rightarrow> if 0 \<le> ttl then Some (set_ttl ttl s) else None
      | CallBearer \<Rightarrow> Some (set_strict True s)
      | _ \<Rightarrow> Some (call_thread c s))"
| "sm_apply RunRead s =
     (case sm_active s of Some x \<Rightarrow> if getActive_now s = None then Some (expireOrDefer x s) else None | None \<Rightarrow> None)"
| "sm_apply (RunClock t) s = (if sm_now s \<le> t then Some (s\<lparr>sm_now := t\<rparr>) else None)"

fun sm_run :: "sm_event list \<Rightarrow> session_manager \<Rightarrow> session_manager option" where
  "sm_run [] s = Some s"
| "sm_run (e # es) s = (case sm_apply e s of None \<Rightarrow> None | Some s1 \<Rightarrow> sm_run es s1)"

lemma sm_apply_step: "sm_apply e s = Some s' \<Longrightarrow> sm_step s s'"
  by (cases e) (auto intro: sm_step.intros split: if_splits sm_call.splits option.splits)

lemma sm_run_steps: "sm_run es s = Some s' \<Longrightarrow> sm_step\<^sup>*\<^sup>* s s'"
  by (induction es arbitrary: s)
    (auto split: option.splits dest!: sm_apply_step intro: converse_rtranclp_into_rtranclp)

section \<open>Start states\<close>

lemma restore_quiet [simp]:
  "sm_threads (restore_session a b c ttl strict now st) = []"
  "sm_deferrals (restore_session a b c ttl strict now st) = []"
  "sm_now (restore_session a b c ttl strict now st) = now"
  by (auto simp: restore_session_def silentClose_def new_manager_def publish_def Let_def split: stored_session.split restore_outcome.split)

lemma restore_active:
  "sm_active (restore_session a b c ttl strict now st) =
     (case st of
        Stored r \<Rightarrow> if restore_decision a strict now ttl st = Restored
          then Some \<lparr>as_serial = 1, as_session = r, as_dek = True, as_deferBudgetEnd = None\<rparr> else None
      | _ \<Rightarrow> None)"
  by (auto simp: restore_session_def silentClose_def new_manager_def publish_def Let_def restore_decision_def
      split: stored_session.split restore_outcome.split)

lemma restore_lastSerial:
  "sm_active (restore_session a b c ttl strict now st) \<noteq> None \<Longrightarrow> sm_lastSerial (restore_session a b c ttl strict now st) = 1"
  by (auto simp: restore_session_def silentClose_def new_manager_def publish_def Let_def remove_row_def
      split: stored_session.splits restore_outcome.splits if_splits)

lemma restore_row:
  assumes "\<not> sm_faulty (restore_session a b c ttl strict now st)" "sm_active (restore_session a b c ttl strict now st) = None"
    "\<And>r. st = Stored r \<Longrightarrow> ra_profile a = Some PasskeyProfile \<Longrightarrow> sr_bearer r = None"
  shows "\<not> carries_bearer (sm_row (restore_session a b c ttl strict now st))"
  using assms
  by (auto simp: restore_session_def silentClose_def new_manager_def publish_def Let_def remove_row_def restore_decision_def
      carries_bearer_def split: stored_session.splits if_splits option.splits profile_type.splits)

lemma restore_deferral_ok:
  assumes "\<And>r. st = Stored r \<Longrightarrow> sr_since r \<le> now"
  shows "deferral_ok (restore_session a b c ttl strict now st)"
  using assms restore_lastSerial [of a b c ttl strict now st]
  by (auto simp: deferral_ok_def live_ok_def one_decision_def log_ok_def restore_active budget_end_def split: stored_session.splits if_splits)

lemma restore_bearer_safe:
  assumes "\<not> sm_faulty (restore_session a b c ttl strict now st)"
    "\<And>r. st = Stored r \<Longrightarrow> ra_profile a = Some PasskeyProfile \<Longrightarrow> sr_bearer r = None"
  shows "section_held (restore_session a b c ttl strict now st)" "bearer_safe (restore_session a b c ttl strict now st)"
  using restore_row [OF assms(1)] assms(2) by (auto simp: section_held_def bearer_safe_def)

section \<open>Guarantees\<close>

lemma closed_step:
  assumes "sm_step s s'" "n \<le> sm_lastSerial s" "active_serial s \<noteq> Some n"
  shows "n \<le> sm_lastSerial s' \<and> active_serial s' \<noteq> Some n"
  using assms(1)
proof (cases rule: sm_step_cases)
  case (Thread a k)
  then obtain r d pc where r: "sm_step_of a k d pc s = Some r" "sm_active s' = sm_active (snd r)" "sm_lastSerial s' = sm_lastSerial (snd r)"
    by (elim thread_stepE) blast
  then have "active_serial s' = active_serial (snd r)" "sm_active (snd r) = None \<Longrightarrow> active_serial (snd r) = None"
    by (simp_all add: active_serial_def)
  then show ?thesis
    using step_active [OF r(1)] r(3) assms(2,3) by (auto simp: kept_or_closed_def closed_by_def)
qed (use assms in \<open>auto simp: same_session_def active_serial_def spawn_decision_def\<close>)

text \<open>C25. A serial names one session for the worker's lifetime: once the session it names is closed or
  replaced, no interleaving of opens, refreshes, alarms and deferred writes makes it active again.\<close>

theorem closed_session_final:
  assumes "sm_step\<^sup>*\<^sup>* s s'" "n \<le> sm_lastSerial s" "active_serial s \<noteq> Some n"
  shows "active_serial s' \<noteq> Some n"
proof -
  have "n \<le> sm_lastSerial s' \<and> active_serial s' \<noteq> Some n"
    using assms by (induction rule: rtranclp_induct) (auto dest: closed_step)
  then show ?thesis by simp
qed

text \<open>C4. Whatever was persisted before, however operations interleave: while no storage call has failed
  and no session was closed inside its own open, a locked manager whose row still carries the
  silent-restore bearer has a close on the way that no open has overtaken, so when every operation has
  ended the bearer is gone.\<close>

theorem locked_row_being_removed:
  assumes "sm_step\<^sup>*\<^sup>* (restore_session a b c ttl strict now st) s"
    "\<And>r. st = Stored r \<Longrightarrow> ra_profile a = Some PasskeyProfile \<Longrightarrow> sr_bearer r = None"
    "\<not> sm_faulty s" "\<not> sm_overrun s" "sm_active s = None" "carries_bearer (sm_row s)"
  shows "\<exists>th\<in>set (sm_threads s). sm_pc_of th = CloseWait (sm_generation s) \<or> sm_pc_of th = CloseDelete"
proof -
  let ?s0 = "restore_session a b c ttl strict now st"
  have "\<not> sm_faulty ?s0"
    using assms(1,3) by (induction rule: rtranclp_induct) (auto dest: step_faults)
  then have "bearer_safe s"
    using bearer_safe_reach [OF assms(1) restore_bearer_safe assms(3,4)] assms(2) by blast
  then show ?thesis
    using assms(5,6) by (auto simp: bearer_safe_def closer_def close_waiting_def)
qed

text \<open>C5. An expired session is kept open for approved sends only within one budget: every deferral of a
  session that is ever written sets a deadline of at most the deadline its first deferral moved plus
  the smaller of the time-to-live and ten minutes, whatever refreshes, alarms, lazy reads and
  configuration changes run in between.\<close>

theorem deferral_budget:
  assumes "sm_step\<^sup>*\<^sup>* (restore_session a b c ttl strict now st) s" "\<And>r. st = Stored r \<Longrightarrow> sr_since r \<le> now"
    "e \<in> set (sm_deferrals s)"
  shows "\<exists>f. find (\<lambda>f. df_serial f = df_serial e) (sm_deferrals s) = Some f
    \<and> df_new e \<le> df_old f + min (df_ttl f) MAX_EXPIRY_DEFERRAL_MS"
proof -
  have "log_ok s"
    using deferral_ok_reach [OF assms(1) restore_deferral_ok] assms(2) by (simp add: deferral_ok_def)
  then have "df_new e \<le> the (budget_end (sm_deferrals s) (df_serial e))"
    using assms(3) by (simp add: log_ok_def)
  moreover have "find (\<lambda>f. df_serial f = df_serial e) (sm_deferrals s) \<noteq> None"
    using assms(3) by (auto simp: find_None_iff)
  ultimately show ?thesis
    by (auto simp: budget_end_def)
qed

section \<open>A run\<close>

definition fine :: sm_answer where
  "fine = \<lparr>sa_ok = True, sa_landed = True, sa_work = True\<rparr>"

definition no_answers :: restore_answers where
  "no_answers = \<lparr>ra_profile = None, ra_unwraps = False, ra_strict_after = False, ra_envelopeIntact = False, ra_inRange = False\<rparr>"

definition run_start :: session_manager where
  "run_start = restore_session no_answers fine fine 200000 False 0 NoSession"

text \<open>An unlock, two deferrals of the expired session, and a lock up to the removal of the row.\<close>

definition run_open :: "sm_event list" where
  "run_open = RunCall (CallOpen ''p'' True True True ''t'') # replicate 7 (RunThread fine 0)"

definition run_deferred :: "sm_event list" where
  "run_deferred = run_open @ RunClock 200000 # RunRead # replicate 5 (RunThread fine 1)
     @ RunClock 260000 # RunRead # replicate 5 (RunThread fine 2)"

definition run_locking :: "sm_event list" where
  "run_locking = run_deferred @ RunCall CallLock # replicate 2 (RunThread fine 3)"

definition deferred_state :: session_manager where
  "deferred_state = the (sm_run run_deferred run_start)"

definition locking_state :: session_manager where
  "locking_state = the (sm_run run_locking run_start)"

lemma demo_steps: "sm_step\<^sup>*\<^sup>* run_start deferred_state" "sm_step\<^sup>*\<^sup>* run_start locking_state"
proof -
  have "sm_run run_deferred run_start \<noteq> None" "sm_run run_locking run_start \<noteq> None" by code_simp+
  then show "sm_step\<^sup>*\<^sup>* run_start deferred_state" "sm_step\<^sup>*\<^sup>* run_start locking_state"
    unfolding deferred_state_def locking_state_def by (auto intro: sm_run_steps)
qed

theorem closed_session_final_witness:
  "active_serial locking_state = None \<and> active_serial (the (sm_run (replicate 3 (RunThread fine 3)) locking_state)) \<noteq> Some 1"
proof -
  have "sm_run (replicate 3 (RunThread fine 3)) locking_state \<noteq> None" by code_simp
  then have "sm_step\<^sup>*\<^sup>* locking_state (the (sm_run (replicate 3 (RunThread fine 3)) locking_state))"
    by (auto intro: sm_run_steps)
  moreover have "1 \<le> sm_lastSerial locking_state" "active_serial locking_state \<noteq> Some 1" "active_serial locking_state = None"
    by code_simp+
  ultimately show ?thesis
    using closed_session_final by blast
qed

theorem locked_row_being_removed_witness:
  "carries_bearer (sm_row locking_state) \<and> (\<exists>th\<in>set (sm_threads locking_state). sm_pc_of th = CloseWait (sm_generation locking_state) \<or> sm_pc_of th = CloseDelete)"
proof -
  have f: "\<not> sm_faulty locking_state" "\<not> sm_overrun locking_state" "sm_active locking_state = None" "carries_bearer (sm_row locking_state)"
    by code_simp+
  show ?thesis
    using locked_row_being_removed [OF demo_steps(2) [unfolded run_start_def] _ f] f(4) by simp
qed

theorem deferral_budget_witness:
  "\<exists>e. sm_deferrals deferred_state ! 1 = e \<and> df_new e = 320000 \<and> df_new e \<le> 200000 + min 200000 MAX_EXPIRY_DEFERRAL_MS"
proof -
  have "length (sm_deferrals deferred_state) = 2" by code_simp
  then have "sm_deferrals deferred_state ! 1 \<in> set (sm_deferrals deferred_state)" by simp
  from deferral_budget [OF demo_steps(1) [unfolded run_start_def] _ this]
  obtain f where "find (\<lambda>f. df_serial f = df_serial (sm_deferrals deferred_state ! 1)) (sm_deferrals deferred_state) = Some f"
      "df_new (sm_deferrals deferred_state ! 1) \<le> df_old f + min (df_ttl f) MAX_EXPIRY_DEFERRAL_MS"
    by auto
  moreover have "find (\<lambda>f. df_serial f = df_serial (sm_deferrals deferred_state ! 1)) (sm_deferrals deferred_state)
      = Some \<lparr>df_serial = 1, df_old = 200000, df_ttl = 200000, df_new = 260000\<rparr>"
    "df_new (sm_deferrals deferred_state ! 1) = 320000"
    by code_simp+
  ultimately show ?thesis by simp
qed

text \<open>
  The condition on closes inside an open is needed: a session whose deadline passes while its own
  open stores it is closed under the generation the open is about to raise, the close then takes the
  commit for a successor's and stands down, and the row keeps its bearer with nobody active.
\<close>

definition run_overrun :: "sm_event list" where
  "run_overrun = RunCall (CallOpen ''p'' True True True ''t'') # replicate 5 (RunThread fine 0) @ RunClock 200000 # RunRead
     # RunThread (fine\<lparr>sa_work := False\<rparr>) 1 # replicate 2 (RunThread fine 0) @ [RunThread fine 1]"

lemma overrun_keeps_bearer:
  "\<exists>s. sm_step\<^sup>*\<^sup>* run_start s \<and> \<not> sm_faulty s \<and> sm_active s = None \<and> carries_bearer (sm_row s)
     \<and> list_all (\<lambda>th. sm_pc_of th = SmDone) (sm_threads s)"
proof -
  let ?s = "the (sm_run run_overrun run_start)"
  have "sm_run run_overrun run_start \<noteq> None" by code_simp
  then have "sm_step\<^sup>*\<^sup>* run_start ?s" by (auto intro: sm_run_steps)
  moreover have "\<not> sm_faulty ?s" "sm_active ?s = None" "carries_bearer (sm_row ?s)" "list_all (\<lambda>th. sm_pc_of th = SmDone) (sm_threads ?s)"
    by code_simp+
  ultimately show ?thesis by blast
qed

end
