(* ===== verification/Estimate_Registry.thy ===== *)
theory Estimate_Registry
  imports Prelude
begin

text \<open>
  Admission and cancellation of fee estimates, \<^verbatim>\<open>execution/estimate-cancel-registry.ts\<close>. Every method is
  synchronous, so each is one step on the registry. The last fields record what the methods did to
  the outside: the stashes evicted, the parked promises resolved and rejected and the signals fired.
  An estimate id that is given is not the empty text.
\<close>

section \<open>State\<close>

definition MAX_ACTIVE_ESTIMATES_PER_PROFILE :: nat where
  "MAX_ACTIVE_ESTIMATES_PER_PROFILE = 4"

definition MAX_PENDING_ESTIMATES_PER_PROFILE :: nat where
  "MAX_PENDING_ESTIMATES_PER_PROFILE = 8"

definition ESTIMATE_JOB_TTL_MS :: time where
  "ESTIMATE_JOB_TTL_MS = 15 * 60 * 1000"

definition SETTLED_STASH_TTL_MS :: time where
  "SETTLED_STASH_TTL_MS = 120000"

record active_entry =
  ae_profileId :: string
  ae_flowKey :: string
  ae_aborted :: bool
  ae_startedAt :: time

record pending_entry =
  pe_token :: string
  pe_profileId :: string
  pe_flowKey :: string
  pe_parkedAt :: time

record settled_stash =
  sh_profileId :: string
  sh_estimateId :: string
  sh_settledAt :: time

record registry =
  er_active :: "(string, active_entry) jsmap"
  er_pending :: "(string, pending_entry) jsmap"
  er_settled :: "(string, settled_stash) jsmap"
  er_evicted :: "string list"
  er_resolved :: "string list"
  er_rejected :: "string list"
  er_fired :: "string list"

definition empty_registry :: registry where
  "empty_registry = \<lparr>er_active = [], er_pending = [], er_settled = [], er_evicted = [], er_resolved = [], er_rejected = [], er_fired = []\<rparr>"

section \<open>Helpers\<close>

definition pendingKey :: "string \<Rightarrow> string \<Rightarrow> string" where
  "pendingKey profileId flowKey = profileId @ ''|'' @ flowKey"

definition activeCount :: "string \<Rightarrow> registry \<Rightarrow> nat" where
  "activeCount profileId s = js_count (\<lambda>(t, e). ae_profileId e = profileId) (er_active s)"

definition parkedForProfile :: "string \<Rightarrow> registry \<Rightarrow> nat" where
  "parkedForProfile profileId s = js_count (\<lambda>(k, e). pe_profileId e = profileId) (er_pending s)"

definition assertFreshToken :: "string \<Rightarrow> registry \<Rightarrow> bool" where
  "assertFreshToken token s \<longleftrightarrow> \<not> js_has (er_active s) token \<and> \<not> js_has (er_settled s) token
     \<and> list_all (\<lambda>(k, e). pe_token e \<noteq> token) (er_pending s)"

text \<open>The earliest of the entries with the smallest time, as the scans that keep a strictly smaller one find it.\<close>

fun first_min :: "('a \<Rightarrow> time) \<Rightarrow> 'a list \<Rightarrow> 'a option" where
  "first_min f [] = None"
| "first_min f (x # xs) = (case first_min f xs of None \<Rightarrow> Some x | Some y \<Rightarrow> Some (if f y < f x then y else x))"

definition activate :: "time \<Rightarrow> string \<Rightarrow> string \<Rightarrow> string \<Rightarrow> registry \<Rightarrow> registry" where
  "activate now token profileId flowKey s =
     s\<lparr>er_active := js_set token \<lparr>ae_profileId = profileId, ae_flowKey = flowKey, ae_aborted = False, ae_startedAt = now\<rparr> (er_active s)\<rparr>"

definition abortEntry :: "string \<Rightarrow> active_entry \<Rightarrow> registry \<Rightarrow> registry" where
  "abortEntry token e s =
     (if ae_aborted e then s
      else s\<lparr>er_active := js_set token (e\<lparr>ae_aborted := True\<rparr>) (er_active s), er_fired := er_fired s @ [token]\<rparr>)"

definition oldestActive :: "string \<Rightarrow> string \<Rightarrow> registry \<Rightarrow> (string \<times> active_entry) option" where
  "oldestActive profileId flowKey s =
     first_min (ae_startedAt \<circ> snd)
       (filter (\<lambda>(t, e). ae_profileId e = profileId \<and> ae_flowKey e = flowKey \<and> \<not> ae_aborted e) (er_active s))"

definition findPending :: "string \<Rightarrow> registry \<Rightarrow> (string \<times> pending_entry) option" where
  "findPending token s = find (\<lambda>(k, e). pe_token e = token) (er_pending s)"

definition evictStash :: "string \<Rightarrow> registry \<Rightarrow> registry" where
  "evictStash estimateId s = s\<lparr>er_evicted := er_evicted s @ [estimateId]\<rparr>"

definition reject_parked :: "string list \<Rightarrow> registry \<Rightarrow> registry" where
  "reject_parked tokens s = s\<lparr>er_rejected := er_rejected s @ tokens\<rparr>"

section \<open>Admission\<close>

text \<open>The parked entries that outlived their caller, and then the oldest one that fits.\<close>

definition parked_dead :: "time \<Rightarrow> pending_entry \<Rightarrow> bool" where
  "parked_dead now e \<longleftrightarrow> now - pe_parkedAt e > ESTIMATE_JOB_TTL_MS"

definition reap_parked :: "time \<Rightarrow> registry \<Rightarrow> registry" where
  "reap_parked now s =
     reject_parked (map (pe_token \<circ> snd) (filter (\<lambda>(k, e). parked_dead now e) (er_pending s)))
       (s\<lparr>er_pending := filter (\<lambda>(k, e). \<not> parked_dead now e) (er_pending s)\<rparr>)"

definition oldest_fitting :: "registry \<Rightarrow> (string \<times> pending_entry) option" where
  "oldest_fitting s =
     first_min (pe_parkedAt \<circ> snd)
       (filter (\<lambda>(k, e). activeCount (pe_profileId e) s < MAX_ACTIVE_ESTIMATES_PER_PROFILE) (er_pending s))"

definition admitNext :: "time \<Rightarrow> registry \<Rightarrow> registry" where
  "admitNext now s =
     (let s1 = reap_parked now s
      in case oldest_fitting s1 of
           None \<Rightarrow> s1
         | Some (key, e) \<Rightarrow>
             let s2 = activate now (pe_token e) (pe_profileId e) (pe_flowKey e) (s1\<lparr>er_pending := js_del key (er_pending s1)\<rparr>)
             in s2\<lparr>er_resolved := er_resolved s2 @ [pe_token e]\<rparr>)"

definition runner_dead :: "time \<Rightarrow> active_entry \<Rightarrow> bool" where
  "runner_dead now e \<longleftrightarrow> now - ae_startedAt e > ESTIMATE_JOB_TTL_MS"

definition stash_expired :: "time \<Rightarrow> settled_stash \<Rightarrow> bool" where
  "stash_expired now d \<longleftrightarrow> now - sh_settledAt d > SETTLED_STASH_TTL_MS"

definition reap_active :: "time \<Rightarrow> registry \<Rightarrow> registry" where
  "reap_active now s =
     s\<lparr>er_active := filter (\<lambda>(t, e). \<not> runner_dead now e) (er_active s),
       er_fired := er_fired s @ map fst (filter (\<lambda>(t, e). runner_dead now e \<and> \<not> ae_aborted e) (er_active s))\<rparr>"

definition reap_settled :: "time \<Rightarrow> registry \<Rightarrow> registry" where
  "reap_settled now s =
     s\<lparr>er_settled := filter (\<lambda>(t, d). \<not> stash_expired now d) (er_settled s),
       er_evicted := er_evicted s @ map (sh_estimateId \<circ> snd) (filter (\<lambda>(t, d). stash_expired now d) (er_settled s))\<rparr>"

definition sweep :: "time \<Rightarrow> registry \<Rightarrow> registry" where
  "sweep now s = admitNext now (reap_settled now (reap_active now s))"

datatype admission = Admitted | Parked | DuplicateToken | AtCapacity

definition abort_oldest :: "string \<Rightarrow> string \<Rightarrow> registry \<Rightarrow> registry" where
  "abort_oldest profileId flowKey s =
     (case oldestActive profileId flowKey s of None \<Rightarrow> s | Some (t, e) \<Rightarrow> abortEntry t e s)"

definition park :: "time \<Rightarrow> string \<Rightarrow> string \<Rightarrow> string \<Rightarrow> registry \<Rightarrow> registry" where
  "park now token profileId flowKey s =
     s\<lparr>er_pending := js_set (pendingKey profileId flowKey)
         \<lparr>pe_token = token, pe_profileId = profileId, pe_flowKey = flowKey, pe_parkedAt = now\<rparr> (er_pending s)\<rparr>"

definition admit_estimate :: "time \<Rightarrow> string \<Rightarrow> string \<Rightarrow> string \<Rightarrow> registry \<Rightarrow> admission \<times> registry" where
  "admit_estimate now token profileId flowKey s0 =
     (let s = sweep now s0
      in if \<not> assertFreshToken token s then (DuplicateToken, s)
         else if activeCount profileId s < MAX_ACTIVE_ESTIMATES_PER_PROFILE
              then (Admitted, activate now token profileId flowKey s)
         else (case js_get (er_pending s) (pendingKey profileId flowKey) of
                 None \<Rightarrow>
                   if parkedForProfile profileId s \<ge> MAX_PENDING_ESTIMATES_PER_PROFILE then (AtCapacity, s)
                   else (Parked, park now token profileId flowKey (abort_oldest profileId flowKey s))
               | Some superseded \<Rightarrow>
                   (Parked, park now token profileId flowKey
                      (reject_parked [pe_token superseded] (abort_oldest profileId flowKey s)))))"

section \<open>Settling and cancelling\<close>

definition settle_estimate :: "time \<Rightarrow> string \<Rightarrow> string option \<Rightarrow> registry \<Rightarrow> registry" where
  "settle_estimate now token estimateId s =
     (case js_get (er_active s) token of
        None \<Rightarrow> (case estimateId of None \<Rightarrow> s | Some i \<Rightarrow> evictStash i s)
      | Some e \<Rightarrow>
          let s1 = s\<lparr>er_active := js_del token (er_active s)\<rparr>;
              s2 = (case estimateId of
                      None \<Rightarrow> s1
                    | Some i \<Rightarrow>
                        if ae_aborted e then evictStash i s1
                        else s1\<lparr>er_settled := js_set token \<lparr>sh_profileId = ae_profileId e, sh_estimateId = i, sh_settledAt = now\<rparr> (er_settled s1)\<rparr>)
          in admitNext now s2)"

definition cancel_estimate :: "string \<Rightarrow> string \<Rightarrow> registry \<Rightarrow> registry" where
  "cancel_estimate token activeProfileId s =
     (case findPending token s of
        Some (key, e) \<Rightarrow>
          if pe_profileId e \<noteq> activeProfileId then s
          else reject_parked [token] (s\<lparr>er_pending := js_del key (er_pending s)\<rparr>)
      | None \<Rightarrow>
          (case js_get (er_active s) token of
             Some e \<Rightarrow> if ae_profileId e \<noteq> activeProfileId then s else abortEntry token e s
           | None \<Rightarrow>
               (case js_get (er_settled s) token of
                  None \<Rightarrow> s
                | Some d \<Rightarrow>
                    if sh_profileId d \<noteq> activeProfileId then s
                    else evictStash (sh_estimateId d) (s\<lparr>er_settled := js_del token (er_settled s)\<rparr>))))"

text \<open>The calls of the registry, whose profile ids have no separator in them.\<close>

datatype est_call = AdmitCall time string string string | SettleCall time string "string option" | CancelCall string string

fun est_step :: "est_call \<Rightarrow> registry \<Rightarrow> registry" where
  "est_step (AdmitCall now token profileId flowKey) s = snd (admit_estimate now token profileId flowKey s)"
| "est_step (SettleCall now token estimateId) s = settle_estimate now token estimateId s"
| "est_step (CancelCall token profileId) s = cancel_estimate token profileId s"

definition est_run :: "est_call list \<Rightarrow> registry" where
  "est_run cs = fold est_step cs empty_registry"

fun plain_profile :: "est_call \<Rightarrow> bool" where
  "plain_profile (AdmitCall _ _ profileId _) = (CHR ''|'' \<notin> set profileId)"
| "plain_profile _ = True"

section \<open>The registry's invariant\<close>

lemma first_min_mem: "first_min f xs = Some x \<Longrightarrow> x \<in> set xs"
  by (induction xs arbitrary: x) (auto split: option.splits if_splits)

lemma first_min_none: "first_min f xs = None \<longleftrightarrow> xs = []"
  by (cases xs) (auto split: option.splits)

lemma first_min_le: "first_min f xs = Some x \<Longrightarrow> y \<in> set xs \<Longrightarrow> f x \<le> f y"
  by (induction xs arbitrary: x) (fastforce simp: first_min_none split: option.splits if_splits)+

lemma pendingKey_inj:
  assumes "CHR ''|'' \<notin> set p" "CHR ''|'' \<notin> set q"
  shows "pendingKey p f = pendingKey q g \<longleftrightarrow> p = q \<and> f = g"
proof
  have tw: "CHR ''|'' \<notin> set p \<Longrightarrow> takeWhile ((\<noteq>) CHR ''|'') (p @ CHR ''|'' # f) = p" for p f
    by (induction p) auto
  assume "pendingKey p f = pendingKey q g"
  then have "takeWhile ((\<noteq>) CHR ''|'') (p @ CHR ''|'' # f) = takeWhile ((\<noteq>) CHR ''|'') (q @ CHR ''|'' # g)"
    by (simp add: pendingKey_def)
  then have "p = q" using tw [OF assms(1), of f] tw [OF assms(2), of g] by simp
  then show "p = q \<and> f = g"
    using \<open>pendingKey p f = pendingKey q g\<close> by (simp add: pendingKey_def)
qed simp

text \<open>A token is in one place only, a slot holds one parked caller, and the caps hold.\<close>

definition parked_tokens :: "registry \<Rightarrow> string list" where
  "parked_tokens s = map (pe_token \<circ> snd) (er_pending s)"

definition tokens_ok :: "registry \<Rightarrow> bool" where
  "tokens_ok s \<longleftrightarrow> distinct (js_keys (er_active s)) \<and> distinct (js_keys (er_settled s)) \<and> distinct (parked_tokens s)
     \<and> set (js_keys (er_active s)) \<inter> set (js_keys (er_settled s)) = {}
     \<and> set (parked_tokens s) \<inter> (set (js_keys (er_active s)) \<union> set (js_keys (er_settled s))) = {}"

definition slots_ok :: "registry \<Rightarrow> bool" where
  "slots_ok s \<longleftrightarrow> distinct (js_keys (er_pending s))
     \<and> (\<forall>(k, e)\<in>set (er_pending s). k = pendingKey (pe_profileId e) (pe_flowKey e) \<and> CHR ''|'' \<notin> set (pe_profileId e))"

definition caps_ok :: "registry \<Rightarrow> bool" where
  "caps_ok s \<longleftrightarrow> (\<forall>p. activeCount p s \<le> MAX_ACTIVE_ESTIMATES_PER_PROFILE \<and> parkedForProfile p s \<le> MAX_PENDING_ESTIMATES_PER_PROFILE)"

definition served :: "registry \<Rightarrow> bool" where
  "served s \<longleftrightarrow> (er_pending s \<noteq> [] \<longrightarrow> er_active s \<noteq> [])"

definition reg_ok :: "registry \<Rightarrow> bool" where
  "reg_ok s \<longleftrightarrow> tokens_ok s \<and> slots_ok s \<and> caps_ok s"

lemma tokens_ok_mono:
  assumes "tokens_ok s" "distinct (js_keys (er_active s'))" "distinct (js_keys (er_settled s'))" "distinct (parked_tokens s')"
    "set (js_keys (er_active s')) \<subseteq> set (js_keys (er_active s))" "set (js_keys (er_settled s')) \<subseteq> set (js_keys (er_settled s))"
    "set (parked_tokens s') \<subseteq> set (parked_tokens s)"
  shows "tokens_ok s'"
  using assms unfolding tokens_ok_def by blast

lemma tokens_ok_shrink:
  assumes "tokens_ok s" "er_active s' = filter P (er_active s)" "er_settled s' = filter Q (er_settled s)"
    "er_pending s' = filter R (er_pending s)"
  shows "tokens_ok s'"
  by (rule tokens_ok_mono [OF assms(1)]) (use assms in \<open>auto simp: tokens_ok_def parked_tokens_def distinct_map_filter\<close>)

lemma slots_ok_shrink: "slots_ok s \<Longrightarrow> er_pending s' = filter R (er_pending s) \<Longrightarrow> slots_ok s'"
  by (auto simp: slots_ok_def distinct_map_filter)

lemma caps_ok_shrink:
  "caps_ok s \<Longrightarrow> er_active s' = filter P (er_active s) \<Longrightarrow> er_pending s' = filter R (er_pending s) \<Longrightarrow> caps_ok s'"
  unfolding caps_ok_def activeCount_def parkedForProfile_def by (auto intro: order_trans [OF js_count_filter])

lemma reg_ok_shrink:
  assumes "reg_ok s" "er_active s' = filter P (er_active s)" "er_settled s' = filter Q (er_settled s)"
    "er_pending s' = filter R (er_pending s)"
  shows "reg_ok s'"
  using assms tokens_ok_shrink slots_ok_shrink caps_ok_shrink unfolding reg_ok_def by metis

lemma reg_ok_reap_parked: "reg_ok s \<Longrightarrow> reg_ok (reap_parked now s)"
  by (rule reg_ok_shrink [of s _ "\<lambda>_. True" "\<lambda>_. True"]) (simp_all add: reap_parked_def reject_parked_def)

lemma reg_ok_reap_active: "reg_ok s \<Longrightarrow> reg_ok (reap_active now s)"
  by (rule reg_ok_shrink [of s _ _ "\<lambda>_. True" "\<lambda>_. True"]) (simp_all add: reap_active_def)

lemma reg_ok_reap_settled: "reg_ok s \<Longrightarrow> reg_ok (reap_settled now s)"
  by (rule reg_ok_shrink [of s _ "\<lambda>_. True" _ "\<lambda>_. True"]) (simp_all add: reap_settled_def)

lemma reg_ok_activate:
  assumes "reg_ok s" "\<not> js_has (er_active s) t" "\<not> js_has (er_settled s) t" "t \<notin> set (parked_tokens s)"
    "activeCount p s < MAX_ACTIVE_ESTIMATES_PER_PROFILE"
  shows "reg_ok (activate now t p f s)"
proof -
  have "tokens_ok (activate now t p f s)"
    using assms by (auto simp: reg_ok_def tokens_ok_def activate_def parked_tokens_def js_set_new map_of_eq_None_iff)
  moreover have "caps_ok (activate now t p f s)"
    using assms by (auto simp: reg_ok_def caps_ok_def activate_def activeCount_def parkedForProfile_def js_count_new)
  ultimately show ?thesis
    using assms(1) by (simp add: reg_ok_def slots_ok_def activate_def)
qed

lemma reg_ok_log [simp]: "reg_ok (s\<lparr>er_resolved := r\<rparr>) = reg_ok s" "reg_ok (s\<lparr>er_evicted := e\<rparr>) = reg_ok s"
  "reg_ok (s\<lparr>er_rejected := j\<rparr>) = reg_ok s" "reg_ok (reject_parked ts s) = reg_ok s" "reg_ok (evictStash i s) = reg_ok s"
  by (simp_all add: reg_ok_def tokens_ok_def slots_ok_def caps_ok_def parked_tokens_def activeCount_def parkedForProfile_def
      reject_parked_def evictStash_def)

lemma oldest_fittingD:
  assumes "oldest_fitting s = Some (k, e)"
  shows "(k, e) \<in> set (er_pending s)" "activeCount (pe_profileId e) s < MAX_ACTIVE_ESTIMATES_PER_PROFILE"
  using first_min_mem [OF assms [unfolded oldest_fitting_def]] by auto

lemma parked_tokens_del:
  assumes "slots_ok s" "tokens_ok s" "(k, e) \<in> set (er_pending s)"
  shows "pe_token e \<notin> set (parked_tokens (s\<lparr>er_pending := js_del k (er_pending s)\<rparr>))"
proof
  assume "pe_token e \<in> set (parked_tokens (s\<lparr>er_pending := js_del k (er_pending s)\<rparr>))"
  then obtain k' e' where "(k', e') \<in> set (er_pending s)" "k' \<noteq> k" "pe_token e' = pe_token e"
    by (auto simp: parked_tokens_def set_js_del)
  moreover have "inj_on (pe_token \<circ> snd) (set (er_pending s))"
    using assms(2) by (simp add: tokens_ok_def parked_tokens_def distinct_map)
  ultimately show False
    using inj_onD [of "pe_token \<circ> snd" "set (er_pending s)" "(k', e')" "(k, e)"] assms(3) by simp
qed

lemma reg_ok_unpark:
  assumes "reg_ok s"
  shows "reg_ok (s\<lparr>er_pending := js_del k (er_pending s)\<rparr>)"
  by (rule reg_ok_shrink [OF assms, of _ "\<lambda>_. True" "\<lambda>_. True"]) (simp_all add: AList.delete_eq)

lemma reg_ok_admitNext:
  assumes "reg_ok s"
  shows "reg_ok (admitNext now s)"
proof (cases "oldest_fitting (reap_parked now s)")
  case None
  then show ?thesis using reg_ok_reap_parked [OF assms] by (simp add: admitNext_def)
next
  case (Some q)
  obtain k e where q: "q = (k, e)" by force
  let ?s = "reap_parked now s"
  let ?s1 = "?s\<lparr>er_pending := js_del k (er_pending ?s)\<rparr>"
  have ok: "reg_ok ?s" by (rule reg_ok_reap_parked [OF assms])
  have mem: "(k, e) \<in> set (er_pending ?s)" and fits: "activeCount (pe_profileId e) ?s < MAX_ACTIVE_ESTIMATES_PER_PROFILE"
    using oldest_fittingD Some q by auto
  have "pe_token e \<in> set (parked_tokens ?s)"
    using mem by (force simp: parked_tokens_def)
  then have "\<not> js_has (er_active ?s) (pe_token e)" "\<not> js_has (er_settled ?s) (pe_token e)"
    using ok unfolding reg_ok_def tokens_ok_def js_has_iff_key by blast+
  then have "reg_ok (activate now (pe_token e) (pe_profileId e) (pe_flowKey e) ?s1)"
    using reg_ok_unpark [OF ok] parked_tokens_del [OF _ _ mem] ok fits
    by (intro reg_ok_activate) (auto simp: reg_ok_def activeCount_def)
  then show ?thesis
    using Some q by (simp add: admitNext_def Let_def)
qed

lemma reg_ok_sweep: "reg_ok s \<Longrightarrow> reg_ok (sweep now s)"
  by (simp add: sweep_def reg_ok_admitNext reg_ok_reap_settled reg_ok_reap_active)

lemma reg_ok_abortEntry:
  assumes "reg_ok s" "js_get (er_active s) t = Some e"
  shows "reg_ok (abortEntry t e s)"
proof (cases "ae_aborted e")
  case False
  let ?s = "abortEntry t e s"
  have act: "er_active ?s = js_set t (e\<lparr>ae_aborted := True\<rparr>) (er_active s)" "er_settled ?s = er_settled s" "er_pending ?s = er_pending s"
    using False by (simp_all add: abortEntry_def)
  have "t \<in> set (js_keys (er_active s))"
    using assms(2) js_has_iff_key by fastforce
  then have "set (js_keys (er_active ?s)) = set (js_keys (er_active s))"
    by (simp only: act set_keys_js_set insert_absorb)
  then have "tokens_ok ?s"
    using assms(1) act distinct_js_set [of "er_active s"] unfolding reg_ok_def tokens_ok_def parked_tokens_def by metis
  moreover have "js_count (\<lambda>(t, e). ae_profileId e = p) (er_active ?s) = js_count (\<lambda>(t, e). ae_profileId e = p) (er_active s)" for p
    using js_count_old [OF assms(2), of "\<lambda>(t, e). ae_profileId e = p" "e\<lparr>ae_aborted := True\<rparr>"] act by (auto split: if_splits)
  ultimately show ?thesis
    using assms(1) act by (simp add: reg_ok_def slots_ok_def caps_ok_def activeCount_def parkedForProfile_def)
qed (use assms in \<open>simp add: abortEntry_def\<close>)

lemma oldestActiveD:
  assumes "oldestActive p f s = Some (t, e)" "tokens_ok s"
  shows "js_get (er_active s) t = Some e" "\<not> ae_aborted e" "ae_profileId e = p" "ae_flowKey e = f"
  using first_min_mem [OF assms(1) [unfolded oldestActive_def]] assms(2) by (auto simp: tokens_ok_def js_mem_get)

lemma reg_ok_abort_oldest: "reg_ok s \<Longrightarrow> reg_ok (abort_oldest p f s)"
  using oldestActiveD(1) reg_ok_abortEntry by (force simp: abort_oldest_def reg_ok_def split: option.split)

lemma abort_oldest_frame [simp]:
  "er_pending (abort_oldest p f s) = er_pending s" "er_settled (abort_oldest p f s) = er_settled s"
  "er_evicted (abort_oldest p f s) = er_evicted s" "er_resolved (abort_oldest p f s) = er_resolved s"
  "er_rejected (abort_oldest p f s) = er_rejected s"
  by (simp_all add: abort_oldest_def abortEntry_def split: option.split)

lemma abort_oldest_keys: "tokens_ok s \<Longrightarrow> set (js_keys (er_active (abort_oldest p f s))) = set (js_keys (er_active s))"
proof (cases "oldestActive p f s")
  case (Some q)
  assume ok: "tokens_ok s"
  obtain t e where q: "q = (t, e)" by force
  have "t \<in> set (js_keys (er_active s))"
    using oldestActiveD(1) [of p f s t e] Some q ok js_has_iff_key by fastforce
  moreover have "er_active (abort_oldest p f s) = er_active s \<or> er_active (abort_oldest p f s) = js_set t (e\<lparr>ae_aborted := True\<rparr>) (er_active s)"
    using Some q by (simp add: abort_oldest_def abortEntry_def)
  ultimately show ?thesis by (metis insert_absorb set_keys_js_set)
qed (simp add: abort_oldest_def)

text \<open>Parking replaces the caller of its own slot, so the number of parked callers grows only below the cap.\<close>

lemma reg_ok_park:
  assumes ok: "reg_ok s" and p: "CHR ''|'' \<notin> set p"
    and fresh: "t \<notin> set (js_keys (er_active s))" "t \<notin> set (js_keys (er_settled s))" "t \<notin> set (parked_tokens s)"
    and room: "js_get (er_pending s) (pendingKey p f) = None \<Longrightarrow> parkedForProfile p s < MAX_PENDING_ESTIMATES_PER_PROFILE"
  shows "reg_ok (park now t p f s)"
proof -
  let ?k = "pendingKey p f" and ?e = "\<lparr>pe_token = t, pe_profileId = p, pe_flowKey = f, pe_parkedAt = now\<rparr>"
  let ?s = "park now t p f s"
  have slots: "slots_ok s" and toks: "tokens_ok s" and caps: "caps_ok s"
    using ok by (auto simp: reg_ok_def)
  have d: "distinct (js_keys (er_pending s))"
    using slots by (simp add: slots_ok_def)
  have pend: "er_pending ?s = js_set ?k ?e (er_pending s)"
    by (simp add: park_def)
  have mem: "set (er_pending ?s) = insert (?k, ?e) {(k, e) \<in> set (er_pending s). k \<noteq> ?k}"
    using set_js_set [OF d] pend by simp
  have "slots_ok ?s"
    using slots p mem distinct_js_set [OF d] pend by (auto simp: slots_ok_def)
  moreover have "distinct (parked_tokens ?s)"
  proof -
    let ?old = "{(k, e) \<in> set (er_pending s). k \<noteq> ?k}"
    have "inj_on (pe_token \<circ> snd) (set (er_pending s))"
      using toks by (simp add: tokens_ok_def parked_tokens_def distinct_map)
    then have "inj_on (pe_token \<circ> snd) ?old"
      by (rule inj_on_subset) auto
    moreover have "t \<notin> (pe_token \<circ> snd) ` ?old"
      using fresh(3) by (force simp: parked_tokens_def)
    moreover have "?old - {(?k, ?e)} = ?old"
      by auto
    ultimately have "inj_on (pe_token \<circ> snd) (set (er_pending ?s))"
      unfolding mem inj_on_insert by (simp only: comp_apply snd_conv pending_entry.simps simp_thms)
    moreover have "distinct (er_pending ?s)"
      using distinct_js_set [OF d] pend by (metis distinct_map)
    ultimately show ?thesis
      by (simp add: parked_tokens_def distinct_map)
  qed
  then have "tokens_ok ?s"
    using toks fresh mem by (auto simp: tokens_ok_def parked_tokens_def park_def)
  moreover have "parkedForProfile q ?s \<le> MAX_PENDING_ESTIMATES_PER_PROFILE" for q
  proof (cases "js_get (er_pending s) ?k")
    case None
    then show ?thesis
      using room caps js_count_new [of "er_pending s" ?k "\<lambda>(k, e). pe_profileId e = q" ?e] pend
      by (auto simp: parkedForProfile_def caps_ok_def)
  next
    case (Some e)
    have "?k = pendingKey (pe_profileId e) (pe_flowKey e) \<and> CHR ''|'' \<notin> set (pe_profileId e)"
      using slots js_get_mem [OF Some] by (auto simp: slots_ok_def)
    then have "pe_profileId e = p"
      using pendingKey_inj p by metis
    then show ?thesis
      using js_count_old [OF Some, of "\<lambda>(k, e). pe_profileId e = q" ?e] caps pend
      by (auto simp: parkedForProfile_def caps_ok_def split: if_splits)
  qed
  ultimately show ?thesis
    using caps by (simp add: reg_ok_def caps_ok_def activeCount_def park_def)
qed

lemma parked_tokens_abort [simp]: "parked_tokens (abort_oldest p f s) = parked_tokens s" "parked_tokens (reject_parked ts s) = parked_tokens s"
  by (simp_all add: parked_tokens_def reject_parked_def)

lemma freshD:
  assumes "assertFreshToken t s"
  shows "t \<notin> set (js_keys (er_active s))" "t \<notin> set (js_keys (er_settled s))" "t \<notin> set (parked_tokens s)"
  using assms unfolding assertFreshToken_def js_has_iff_key by (auto simp: parked_tokens_def list_all_iff)

lemma reg_ok_admit:
  assumes "reg_ok s0" "CHR ''|'' \<notin> set p"
  shows "reg_ok (snd (admit_estimate now t p f s0))"
proof -
  let ?s = "sweep now s0" and ?a = "abort_oldest p f (sweep now s0)"
  have ok: "reg_ok ?s" "reg_ok ?a"
    using assms(1) reg_ok_sweep reg_ok_abort_oldest by auto
  have keys: "set (js_keys (er_active ?a)) = set (js_keys (er_active ?s))"
    using ok(1) abort_oldest_keys by (simp add: reg_ok_def)
  have park: "reg_ok (park now t p f (reject_parked ts ?a))"
    if "assertFreshToken t ?s" "js_get (er_pending ?s) (pendingKey p f) = None \<Longrightarrow> parkedForProfile p ?s < MAX_PENDING_ESTIMATES_PER_PROFILE" for ts
    using freshD [OF that(1)] that(2) ok(2) keys assms(2)
    by (intro reg_ok_park) (simp_all add: reject_parked_def parkedForProfile_def parked_tokens_def del: set_map)
  have act: "reg_ok (activate now t p f ?s)" if "assertFreshToken t ?s" "activeCount p ?s < MAX_ACTIVE_ESTIMATES_PER_PROFILE"
    using reg_ok_activate [OF ok(1) _ _ _ that(2)] freshD [OF that(1)] that(1) by (simp add: assertFreshToken_def del: set_map)
  have none: "reject_parked [] ?a = ?a"
    by (simp add: reject_parked_def)
  show ?thesis
    using ok(1) act park [of "[]", unfolded none] park
    by (auto simp: admit_estimate_def Let_def split: option.split)
qed

lemma reg_ok_settle:
  assumes "reg_ok s"
  shows "reg_ok (settle_estimate now t i s)"
proof (cases "js_get (er_active s) t")
  case None
  then show ?thesis using assms by (simp add: settle_estimate_def split: option.split)
next
  case (Some e)
  let ?s = "s\<lparr>er_active := js_del t (er_active s)\<rparr>"
  have ok: "reg_ok ?s"
    by (rule reg_ok_shrink [OF assms, of _ _ "\<lambda>_. True" "\<lambda>_. True"]) (simp_all add: AList.delete_eq)
  have mem: "t \<in> set (js_keys (er_active s))"
    using Some js_has_iff_key by fastforce
  have keep: "reg_ok (?s\<lparr>er_settled := js_set t d (er_settled ?s)\<rparr>)" for d
  proof -
    have toks: "tokens_ok s" "tokens_ok ?s" using assms ok by (auto simp: reg_ok_def)
    have "t \<notin> set (js_keys (er_settled s))" "t \<notin> set (parked_tokens s)" "t \<notin> set (js_keys (er_active ?s))"
      using toks(1) mem unfolding tokens_ok_def by (blast, blast, simp del: set_map)
    then have "tokens_ok (?s\<lparr>er_settled := js_set t d (er_settled ?s)\<rparr>)"
      using toks(2) unfolding tokens_ok_def parked_tokens_def
      by (simp add: distinct_update del: set_map)
    then show ?thesis
      using ok by (simp add: reg_ok_def slots_ok_def caps_ok_def activeCount_def parkedForProfile_def)
  qed
  show ?thesis
    using Some ok keep by (auto simp: settle_estimate_def Let_def intro!: reg_ok_admitNext split: option.split)
qed

lemma reg_ok_cancel:
  assumes "reg_ok s"
  shows "reg_ok (cancel_estimate t p s)"
proof -
  have "reg_ok (s\<lparr>er_settled := js_del t (er_settled s)\<rparr>)"
    by (rule reg_ok_shrink [OF assms, of _ "\<lambda>_. True" _ "\<lambda>_. True"]) (simp_all add: AList.delete_eq)
  then show ?thesis
    using assms reg_ok_unpark [OF assms] reg_ok_abortEntry [OF assms]
    by (auto simp: cancel_estimate_def split: option.split)
qed

lemma reg_ok_step: "reg_ok s \<Longrightarrow> plain_profile c \<Longrightarrow> reg_ok (est_step c s)"
  by (cases c) (simp_all add: reg_ok_admit reg_ok_settle reg_ok_cancel)

lemma reg_ok_empty: "reg_ok empty_registry"
  by (simp add: reg_ok_def tokens_ok_def slots_ok_def caps_ok_def parked_tokens_def activeCount_def parkedForProfile_def
      empty_registry_def js_count_def)

lemma est_run_snoc: "est_run (cs @ [c]) = est_step c (est_run cs)"
  by (simp add: est_run_def)

lemma est_run_induct:
  assumes "list_all plain_profile cs" "P empty_registry"
    and "\<And>c s. plain_profile c \<Longrightarrow> reg_ok s \<Longrightarrow> P s \<Longrightarrow> P (est_step c s)"
  shows "reg_ok (est_run cs) \<and> P (est_run cs)"
  using assms(1)
proof (induction cs rule: rev_induct)
  case Nil
  then show ?case using assms(2) reg_ok_empty by (simp add: est_run_def)
next
  case (snoc c cs)
  then show ?case using assms(3) reg_ok_step by (simp add: est_run_snoc)
qed

section \<open>Stashes and parked callers\<close>

text \<open>A stash is held while it is evicted or filed, unchanged, under the token it was settled with.\<close>

definition stash_held :: "string \<Rightarrow> settled_stash \<Rightarrow> registry \<Rightarrow> bool" where
  "stash_held t d s \<longleftrightarrow> sh_estimateId d \<in> set (er_evicted s) \<or> (t, d) \<in> set (er_settled s)"

lemma admitNext_frame [simp]:
  "er_settled (admitNext now s) = er_settled s" "er_evicted (admitNext now s) = er_evicted s"
  by (simp_all add: admitNext_def Let_def reap_parked_def reject_parked_def activate_def split: option.split prod.split)

lemma sweep_stashes:
  "er_settled (sweep now s) = filter (\<lambda>(t, d). \<not> stash_expired now d) (er_settled s)"
  "er_evicted (sweep now s) = er_evicted s @ map (sh_estimateId \<circ> snd) (filter (\<lambda>(t, d). stash_expired now d) (er_settled s))"
  by (simp_all add: sweep_def reap_settled_def reap_active_def)

lemma admit_stashes:
  "er_settled (snd (admit_estimate now t p f s)) = er_settled (sweep now s)"
  "er_evicted (snd (admit_estimate now t p f s)) = er_evicted (sweep now s)"
  by (simp_all add: admit_estimate_def Let_def activate_def park_def reject_parked_def split: option.split)

lemma held_admit: "stash_held u d s \<Longrightarrow> stash_held u d (snd (admit_estimate now t p f s))"
  unfolding stash_held_def admit_stashes sweep_stashes by force

lemma abortEntry_stashes [simp]: "er_settled (abortEntry t e s) = er_settled s" "er_evicted (abortEntry t e s) = er_evicted s"
  by (simp_all add: abortEntry_def)

lemma held_cancel:
  assumes "tokens_ok s" "stash_held u d s"
  shows "stash_held u d (cancel_estimate t p s)"
proof -
  have "stash_held u d (evictStash (sh_estimateId x) (s\<lparr>er_settled := js_del t (er_settled s)\<rparr>))" if x: "js_get (er_settled s) t = Some x" for x
  proof -
    have "d = x" if "(t, d) \<in> set (er_settled s)"
      using assms(1) that x js_mem_get [of "er_settled s" t d] by (simp add: tokens_ok_def)
    then show ?thesis
      using assms(2) by (auto simp: stash_held_def evictStash_def set_js_del)
  qed
  then show ?thesis
    using assms(2) by (auto simp: cancel_estimate_def stash_held_def reject_parked_def split: option.split)
qed

lemma settle_stashes:
  "er_evicted (settle_estimate now t i s) = er_evicted s @ (case i of None \<Rightarrow> [] | Some x \<Rightarrow>
     (case js_get (er_active s) t of None \<Rightarrow> [x] | Some e \<Rightarrow> if ae_aborted e then [x] else []))"
  "er_settled (settle_estimate now t i s) = (case i of None \<Rightarrow> er_settled s | Some x \<Rightarrow>
     (case js_get (er_active s) t of None \<Rightarrow> er_settled s | Some e \<Rightarrow> if ae_aborted e then er_settled s
      else js_set t \<lparr>sh_profileId = ae_profileId e, sh_estimateId = x, sh_settledAt = now\<rparr> (er_settled s)))"
  by (auto simp: settle_estimate_def evictStash_def Let_def split: option.split)

lemma active_not_settled: "tokens_ok s \<Longrightarrow> js_get (er_active s) t = Some e \<Longrightarrow> \<not> js_has (er_settled s) t"
  unfolding tokens_ok_def using js_has_iff_key [of "er_active s" t] js_has_iff_key [of "er_settled s" t] by blast

lemma held_settle:
  assumes "tokens_ok s" "stash_held u d s"
  shows "stash_held u d (settle_estimate now t x s)"
  using assms active_not_settled [OF assms(1), of t]
  by (cases "js_get (er_active s) t"; cases x) (auto simp: stash_held_def settle_stashes js_set_new)

lemma held_step: "reg_ok s \<Longrightarrow> stash_held u d s \<Longrightarrow> stash_held u d (est_step c s)"
  by (cases c) (simp_all add: held_admit held_settle held_cancel reg_ok_def)

lemma held_run: "reg_ok s \<Longrightarrow> list_all plain_profile cs \<Longrightarrow> stash_held u d s \<Longrightarrow> stash_held u d (fold est_step cs s)"
  by (induction cs arbitrary: s) (simp_all add: held_step reg_ok_step)

text \<open>Whose estimate a token is: the profile it was admitted for.\<close>

definition owned :: "(string \<times> string) set \<Rightarrow> registry \<Rightarrow> bool" where
  "owned A s \<longleftrightarrow> (\<forall>(t, e)\<in>set (er_active s). (t, ae_profileId e) \<in> A) \<and> (\<forall>(k, e)\<in>set (er_pending s). (pe_token e, pe_profileId e) \<in> A)"

lemma set_js_set_sub: "set (js_set k v m) \<subseteq> insert (k, v) (set m)"
  by (induction m) (auto split: if_splits)

lemma owned_activate: "owned A s \<Longrightarrow> (t, p) \<in> A \<Longrightarrow> owned A (activate now t p f s)"
  using set_js_set_sub by (fastforce simp: owned_def activate_def)

lemma owned_park: "owned A s \<Longrightarrow> (t, p) \<in> A \<Longrightarrow> owned A (park now t p f s)"
  using set_js_set_sub by (fastforce simp: owned_def park_def)

lemma owned_reap: "owned A s \<Longrightarrow> owned A (reap_parked now s)" "owned A s \<Longrightarrow> owned A (reap_active now s)" "owned A s \<Longrightarrow> owned A (reap_settled now s)"
  by (auto simp: owned_def reap_parked_def reap_active_def reap_settled_def reject_parked_def)

lemma owned_logs [simp]: "owned A (s\<lparr>er_resolved := r\<rparr>) = owned A s" "owned A (reject_parked ts s) = owned A s"
  "owned A (evictStash i s) = owned A s" "owned A (s\<lparr>er_settled := m\<rparr>) = owned A s"
  by (simp_all add: owned_def reject_parked_def evictStash_def)

lemma owned_del: "owned A s \<Longrightarrow> owned A (s\<lparr>er_pending := js_del k (er_pending s)\<rparr>)" "owned A s \<Longrightarrow> owned A (s\<lparr>er_active := js_del k (er_active s)\<rparr>)"
  by (auto simp: owned_def set_js_del)

lemma owned_admitNext: "owned A s \<Longrightarrow> owned A (admitNext now s)"
proof (cases "oldest_fitting (reap_parked now s)")
  case (Some q)
  assume o: "owned A s"
  obtain k e where q: "q = (k, e)" by force
  have "(pe_token e, pe_profileId e) \<in> A"
    using owned_reap(1) [OF o, of now] oldest_fittingD(1) [of "reap_parked now s" k e] Some q by (auto simp: owned_def)
  with Some q owned_activate [OF owned_del(1) [OF owned_reap(1) [OF o]]] show ?thesis by (simp add: admitNext_def Let_def)
qed (simp add: admitNext_def owned_reap)

lemma owned_abort:
  assumes "owned A s" "js_get (er_active s) t = Some e"
  shows "owned A (abortEntry t e s)"
proof -
  have "(t, ae_profileId e) \<in> A" using assms js_get_mem [OF assms(2)] by (auto simp: owned_def)
  with assms(1) set_js_set_sub [of t "e\<lparr>ae_aborted := True\<rparr>" "er_active s"] show ?thesis by (fastforce simp: abortEntry_def owned_def)
qed

lemma owned_abort_oldest: "tokens_ok s \<Longrightarrow> owned A s \<Longrightarrow> owned A (abort_oldest p f s)"
  using oldestActiveD(1) owned_abort by (fastforce simp: abort_oldest_def split: option.split)

fun admitted_as :: "est_call \<Rightarrow> (string \<times> string) set" where
  "admitted_as (AdmitCall _ token profileId _) = {(token, profileId)}"
| "admitted_as _ = {}"

lemma owned_step:
  assumes "reg_ok s" "owned A s"
  shows "owned (A \<union> admitted_as c) (est_step c s)"
proof (cases c)
  case (AdmitCall now t p f)
  have "owned (A \<union> {(t, p)}) (sweep now s)" "tokens_ok (sweep now s)"
    using assms reg_ok_sweep [OF assms(1), of now]
    by (auto simp: sweep_def reg_ok_def intro!: owned_admitNext owned_reap) (auto simp: owned_def)
  with owned_abort_oldest [OF this(2,1)] show ?thesis
    by (auto simp: AdmitCall admit_estimate_def Let_def intro!: owned_activate owned_park split: option.split)
next
  case (SettleCall now t i)
  with assms(2) show ?thesis
    by (auto simp: settle_estimate_def Let_def intro!: owned_admitNext owned_del split: option.split)
next
  case (CancelCall t p)
  with assms(2) show ?thesis
    by (auto simp: cancel_estimate_def intro!: owned_abort owned_del split: option.split)
qed

lemma owned_run:
  assumes "list_all plain_profile cs"
  shows "reg_ok (est_run cs) \<and> owned (\<Union> (admitted_as ` set cs)) (est_run cs)"
  using assms
proof (induction cs rule: rev_induct)
  case (snoc c cs)
  then have ih: "reg_ok (est_run cs)" "owned (\<Union> (admitted_as ` set cs)) (est_run cs)" by simp_all
  have "\<Union> (admitted_as ` set (cs @ [c])) = \<Union> (admitted_as ` set cs) \<union> admitted_as c" by auto
  with owned_step [OF ih, of c] reg_ok_step [OF ih(1), of c] snoc.prems show ?case by (simp add: est_run_snoc)
next
  case Nil
  have "owned {} empty_registry" by (simp add: owned_def empty_registry_def)
  then show ?case using reg_ok_empty by (simp add: est_run_def)
qed

lemma cancel_evicts:
  assumes "tokens_ok s" "(t, d) \<in> set (er_settled s)"
  shows "sh_estimateId d \<in> set (er_evicted (cancel_estimate t (sh_profileId d) s))"
proof -
  have at: "js_get (er_settled s) t = Some d" using assms by (simp add: tokens_ok_def js_mem_get)
  then have key: "t \<in> set (js_keys (er_settled s))" using js_has_iff_key by fastforce
  then have "t \<notin> set (js_keys (er_active s))" "t \<notin> set (parked_tokens s)" using assms(1) unfolding tokens_ok_def by blast+
  moreover have "findPending t s = None" if "t \<notin> set (parked_tokens s)"
    unfolding findPending_def find_None_iff using that by (force simp: parked_tokens_def)
  ultimately have "js_get (er_active s) t = None" "findPending t s = None"
    using js_has_iff_key [of "er_active s" t] by blast+
  with at show ?thesis by (simp add: cancel_estimate_def evictStash_def)
qed

lemma evicted_step: "set (er_evicted s) \<subseteq> set (er_evicted (est_step c s))"
  by (cases c) (auto simp: admit_stashes sweep_stashes settle_stashes cancel_estimate_def reject_parked_def evictStash_def split: option.split)

lemma evicted_run: "i \<in> set (er_evicted s) \<Longrightarrow> i \<in> set (er_evicted (fold est_step cs s))"
  by (induction cs arbitrary: s) (use evicted_step in auto)

text \<open>While somebody is parked, somebody runs; and a job that settles serves or drops a parked one.\<close>

lemma count_nil: "js_count P [] = 0"
  by (simp add: js_count_def)

lemma served_admitNext: "served (admitNext now s)"
proof (cases "oldest_fitting (reap_parked now s)")
  case None
  have "er_pending (reap_parked now s) = [] \<or> er_active (reap_parked now s) \<noteq> []"
    using None unfolding oldest_fitting_def first_min_none
    by (cases "er_pending (reap_parked now s)") (auto simp: filter_empty_conv activeCount_def count_nil MAX_ACTIVE_ESTIMATES_PER_PROFILE_def)
  then show ?thesis
    using None by (auto simp: served_def admitNext_def)
next
  case (Some q)
  then show ?thesis
    by (cases "er_active s") (auto simp: served_def admitNext_def activate_def Let_def reap_parked_def reject_parked_def split: prod.split)
qed

lemma served_step:
  assumes "reg_ok s" "served s"
  shows "served (est_step c s)"
proof (cases c)
  case (AdmitCall now t p f)
  have sw: "served (sweep now s)" "reg_ok (sweep now s)"
    by (simp_all add: sweep_def served_admitNext reg_ok_admitNext reg_ok_reap_settled reg_ok_reap_active assms)
  have "er_active (sweep now s) \<noteq> []" if "\<not> activeCount p (sweep now s) < MAX_ACTIVE_ESTIMATES_PER_PROFILE"
    using that by (auto simp: activeCount_def count_nil MAX_ACTIVE_ESTIMATES_PER_PROFILE_def)
  moreover have "er_active (abort_oldest p f s1) \<noteq> []" if "er_active s1 \<noteq> []" for s1
    using that by (cases "er_active s1") (auto simp: abort_oldest_def abortEntry_def split: option.split prod.split)
  moreover have "js_set t e m \<noteq> []" for e :: active_entry and m
    by (cases m) (auto split: prod.split)
  ultimately show ?thesis
    using AdmitCall sw(1)
    by (auto simp: admit_estimate_def Let_def served_def activate_def park_def reject_parked_def split: option.split)
next
  case (SettleCall now t i)
  then show ?thesis
    using assms(2) served_admitNext by (auto simp: settle_estimate_def served_def evictStash_def Let_def split: option.split)
next
  case (CancelCall t p)
  have "js_del k (er_pending s) \<noteq> [] \<Longrightarrow> er_active s \<noteq> []" for k
    using assms(2) by (auto simp: served_def AList.delete_eq)
  moreover have "js_set t e (er_active s) \<noteq> []" for e
    by (cases "er_active s") (auto split: prod.split)
  ultimately show ?thesis
    using assms(2) CancelCall by (auto simp: cancel_estimate_def served_def reject_parked_def abortEntry_def evictStash_def split: option.split)
qed

definition parked_answered :: "string \<Rightarrow> registry \<Rightarrow> bool" where
  "parked_answered t s \<longleftrightarrow> t \<in> set (parked_tokens s) \<or> t \<in> set (er_resolved s) \<or> t \<in> set (er_rejected s)"

lemma admitNext_answers:
  assumes "parked_answered t s" "slots_ok s"
  shows "parked_answered t (admitNext now s)"
proof -
  have d: "distinct (js_keys (er_pending (reap_parked now s)))"
    using assms(2) by (simp add: slots_ok_def reap_parked_def reject_parked_def distinct_map_filter)
  have r: "parked_answered t (reap_parked now s)"
    using assms(1) by (auto simp: parked_answered_def reap_parked_def reject_parked_def parked_tokens_def)
  show ?thesis
  proof (cases "oldest_fitting (reap_parked now s)")
    case None
    then show ?thesis using r by (simp add: admitNext_def)
  next
    case (Some q)
    obtain k e where q: "q = (k, e)" by force
    have "(k, e) \<in> set (er_pending (reap_parked now s))"
      using oldest_fittingD Some q by auto
    then have "e' = e" if "(k, e') \<in> set (er_pending (reap_parked now s))" for e'
      using js_mem_get [OF d, of k e] js_mem_get [OF d, of k e'] that by simp
    then show ?thesis
      using r Some q by (auto simp: admitNext_def activate_def Let_def parked_answered_def parked_tokens_def set_js_del)
  qed
qed

lemma admitNext_size: "length (er_active (admitNext now s)) + length (er_pending (admitNext now s)) \<le> length (er_active s) + length (er_pending s)"
proof (cases "oldest_fitting (reap_parked now s)")
  case None
  then show ?thesis by (simp add: admitNext_def reap_parked_def reject_parked_def)
next
  case (Some q)
  obtain k e where q: "q = (k, e)" by force
  let ?m = "er_pending (reap_parked now s)"
  have "(k, e) \<in> set ?m"
    using oldest_fittingD Some q by auto
  then have "length (js_del k ?m) < length ?m"
    unfolding AList.delete_eq by (intro length_filter_less [of "(k, e)"]) auto
  moreover have "length ?m \<le> length (er_pending s)"
    by (simp add: reap_parked_def reject_parked_def)
  moreover have "length (js_set t x m) \<le> Suc (length m)" for t and x :: active_entry and m
    by (induction m) (auto split: prod.split)
  then have "length (er_active (admitNext now s)) \<le> Suc (length (er_active s))"
    using Some q by (simp add: admitNext_def activate_def Let_def reap_parked_def reject_parked_def)
  moreover have "er_pending (admitNext now s) = js_del k ?m"
    using Some q by (simp add: admitNext_def activate_def Let_def)
  ultimately show ?thesis
    by simp
qed

text \<open>Settling the running jobs one after the other, whatever they came to.\<close>

fun settle_all :: "time \<Rightarrow> string list \<Rightarrow> registry \<Rightarrow> registry" where
  "settle_all now [] s = s"
| "settle_all now (t # ts) s = settle_all now ts (settle_estimate now t None s)"

lemma settle_none: "js_get (er_active s) t \<noteq> None \<Longrightarrow> settle_estimate now t None s = admitNext now (s\<lparr>er_active := js_del t (er_active s)\<rparr>)"
  by (auto simp: settle_estimate_def Let_def)

lemma settle_size:
  assumes "js_get (er_active s) t \<noteq> None"
  shows "length (er_active (settle_estimate now t None s)) + length (er_pending (settle_estimate now t None s))
    < length (er_active s) + length (er_pending s)"
proof -
  obtain e where "(t, e) \<in> set (er_active s)"
    using assms js_get_mem by fastforce
  then have "length (js_del t (er_active s)) < length (er_active s)"
    unfolding AList.delete_eq by (intro length_filter_less [of "(t, e)"]) auto
  then show ?thesis
    using admitNext_size [of now "s\<lparr>er_active := js_del t (er_active s)\<rparr>"] settle_none [OF assms, of now] by simp
qed

lemma settle_drains:
  assumes "reg_ok s" "served s"
  shows "\<exists>ts. length ts \<le> length (er_active s) + length (er_pending s) \<and> er_pending (settle_all now ts s) = []
    \<and> (\<forall>t\<in>set (parked_tokens s). t \<in> set (er_resolved (settle_all now ts s)) \<or> t \<in> set (er_rejected (settle_all now ts s)))"
proof -
  have "\<exists>ts. length ts \<le> length (er_active s) + length (er_pending s) \<and> er_pending (settle_all now ts s) = []
    \<and> (\<forall>t. parked_answered t s \<longrightarrow> parked_answered t (settle_all now ts s))"
    using assms
  proof (induction "length (er_active s) + length (er_pending s)" arbitrary: s rule: less_induct)
    case less
    show ?case
    proof (cases "er_pending s = []")
      case True
      then show ?thesis by (intro exI [of _ "[]"]) simp
    next
      case False
      then obtain t e m where act: "er_active s = (t, e) # m"
        using less.prems(2) by (cases "er_active s") (auto simp: served_def)
      let ?s = "settle_estimate now t None s"
      have has: "js_get (er_active s) t \<noteq> None" using act by simp
      have "served ?s"
        using settle_none [OF has] served_admitNext by simp
      moreover have "reg_ok ?s"
        using less.prems(1) by (rule reg_ok_settle)
      ultimately obtain ts where ts: "length ts \<le> length (er_active ?s) + length (er_pending ?s)" "er_pending (settle_all now ts ?s) = []"
          "\<forall>t. parked_answered t ?s \<longrightarrow> parked_answered t (settle_all now ts ?s)"
        using less.hyps [OF settle_size [OF has]] by blast
      have "parked_answered u ?s" if "parked_answered u s" for u
      proof -
        have "parked_answered u (s\<lparr>er_active := js_del t (er_active s)\<rparr>)" "slots_ok (s\<lparr>er_active := js_del t (er_active s)\<rparr>)"
          using that less.prems(1) by (simp_all add: parked_answered_def parked_tokens_def reg_ok_def slots_ok_def)
        then show ?thesis
          using admitNext_answers settle_none [OF has, of now] by simp
      qed
      then show ?thesis
        using ts settle_size [OF has, of now] by (intro exI [of _ "t # ts"]) auto
    qed
  qed
  then obtain ts where ts: "length ts \<le> length (er_active s) + length (er_pending s)" "er_pending (settle_all now ts s) = []"
      "\<forall>t. parked_answered t s \<longrightarrow> parked_answered t (settle_all now ts s)"
    by blast
  have "parked_tokens (settle_all now ts s) = []"
    using ts(2) by (simp add: parked_tokens_def)
  then have "t \<in> set (er_resolved (settle_all now ts s)) \<or> t \<in> set (er_rejected (settle_all now ts s))" if "t \<in> set (parked_tokens s)" for t
    using ts(3) that by (simp add: parked_answered_def)
  then show ?thesis
    using ts(1,2) by blast
qed

section \<open>Properties\<close>

text \<open>C28. Whatever the order of admissions, settlements and cancels: a profile never has more than four
  running and eight parked estimates, a slot holds one parked caller, and no token is running, parked
  and settled at once.\<close>

theorem estimate_caps:
  assumes "list_all plain_profile cs"
  shows "activeCount p (est_run cs) \<le> 4 \<and> parkedForProfile p (est_run cs) \<le> 8
    \<and> distinct (js_keys (er_active (est_run cs)) @ js_keys (er_settled (est_run cs)) @ parked_tokens (est_run cs))
    \<and> distinct (map (\<lambda>(k, e). (pe_profileId e, pe_flowKey e)) (er_pending (est_run cs)))"
proof -
  let ?s = "est_run cs"
  have ok: "reg_ok ?s"
    using est_run_induct [OF assms, of "\<lambda>_. True"] by simp
  have "inj_on (\<lambda>(k, e). (pe_profileId e, pe_flowKey e)) (set (er_pending ?s))"
  proof (rule inj_onI, clarify)
    fix k e k' e' assume m: "(k, e) \<in> set (er_pending ?s)" "(k', e') \<in> set (er_pending ?s)"
      and "pe_profileId e = pe_profileId e'" "pe_flowKey e = pe_flowKey e'"
    moreover have "a = pendingKey (pe_profileId b) (pe_flowKey b)" if "(a, b) \<in> set (er_pending ?s)" for a b
      using ok that by (auto simp: reg_ok_def slots_ok_def)
    ultimately have "k = k'"
      by metis
    moreover have "distinct (js_keys (er_pending ?s))"
      using ok by (simp add: reg_ok_def slots_ok_def)
    ultimately show "k = k' \<and> e = e'"
      using m js_mem_get [of "er_pending ?s" k e] js_mem_get [of "er_pending ?s" k e'] by simp
  qed
  moreover have "distinct (er_pending ?s)"
    using ok by (metis distinct_map reg_ok_def slots_ok_def)
  ultimately have "distinct (map (\<lambda>(k, e). (pe_profileId e, pe_flowKey e)) (er_pending ?s))"
    by (simp add: distinct_map)
  moreover have "distinct (js_keys (er_active ?s) @ js_keys (er_settled ?s) @ parked_tokens ?s)"
    using ok unfolding reg_ok_def tokens_ok_def distinct_append set_append by blast
  ultimately show ?thesis
    using ok by (simp add: reg_ok_def caps_ok_def MAX_ACTIVE_ESTIMATES_PER_PROFILE_def MAX_PENDING_ESTIMATES_PER_PROFILE_def)
qed

text \<open>C27. No signed request is stranded. When a runner settles a token with a stash, the stash is from then on
  either evicted or filed under that very token, with the id and the time it was reported with and the profile
  the token was admitted for, however the settlement raced cancels, reaping and later calls; and while it is
  filed, a cancel of that token under that profile evicts it. If the token was not running when it settled, or
  its signal had been fired, the stash is evicted.\<close>

theorem estimate_stash_kept:
  assumes "list_all plain_profile cs" "cs = pre @ SettleCall now t (Some i) # post"
  shows "(i \<in> set (er_evicted (est_run cs))
      \<or> (\<exists>d n f. js_get (er_settled (est_run cs)) t = Some d \<and> sh_estimateId d = i \<and> sh_settledAt d = now
           \<and> AdmitCall n t (sh_profileId d) f \<in> set pre
           \<and> i \<in> set (er_evicted (cancel_estimate t (sh_profileId d) (est_run cs)))))
    \<and> ((\<forall>e. js_get (er_active (est_run pre)) t = Some e \<longrightarrow> ae_aborted e) \<longrightarrow> i \<in> set (er_evicted (est_run cs)))"
proof -
  let ?s = "est_run pre" and ?s1 = "settle_estimate now t (Some i) (est_run pre)"
  have plain: "list_all plain_profile pre" "list_all plain_profile post" using assms by simp_all
  have ok: "reg_ok ?s" "owned (\<Union> (admitted_as ` set pre)) ?s" using owned_run [OF plain(1)] by simp_all
  have run: "est_run cs = fold est_step post ?s1" using assms(2) by (simp add: est_run_def)
  have toks: "tokens_ok (est_run cs)" using owned_run [OF assms(1)] by (simp add: reg_ok_def)
  show ?thesis
  proof (cases "\<forall>e. js_get (er_active ?s) t = Some e \<longrightarrow> ae_aborted e")
    case True
    then have "i \<in> set (er_evicted ?s1)" by (auto simp: settle_stashes split: option.split)
    then show ?thesis unfolding run using evicted_run by blast
  next
    case False
    then obtain e where e: "js_get (er_active ?s) t = Some e" "\<not> ae_aborted e" by blast
    define d where "d = \<lparr>sh_profileId = ae_profileId e, sh_estimateId = i, sh_settledAt = now\<rparr>"
    have fields: "sh_profileId d = ae_profileId e" "sh_estimateId d = i" "sh_settledAt d = now" by (simp_all add: d_def)
    have "stash_held t d ?s1"
      using e active_not_settled [OF _ e(1)] ok(1) by (simp add: stash_held_def settle_stashes js_set_new reg_ok_def d_def)
    from held_run [OF reg_ok_settle [OF ok(1)] plain(2) this]
    have filed: "i \<in> set (er_evicted (est_run cs)) \<or> (t, d) \<in> set (er_settled (est_run cs))"
      unfolding run stash_held_def fields .
    have "(t, ae_profileId e) \<in> \<Union> (admitted_as ` set pre)" using ok(2) js_get_mem [OF e(1)] by (auto simp: owned_def)
    then obtain c where c: "c \<in> set pre" "(t, ae_profileId e) \<in> admitted_as c" by blast
    from c(2) obtain n f where "c = AdmitCall n t (ae_profileId e) f" by (cases c) auto
    with c(1) have "\<exists>n f. AdmitCall n t (sh_profileId d) f \<in> set pre" unfolding fields by blast
    moreover have "(t, d) \<in> set (er_settled (est_run cs)) \<Longrightarrow> js_get (er_settled (est_run cs)) t = Some d"
      using toks by (simp add: tokens_ok_def js_mem_get)
    moreover have "(t, d) \<in> set (er_settled (est_run cs)) \<Longrightarrow> i \<in> set (er_evicted (cancel_estimate t (sh_profileId d) (est_run cs)))"
      using cancel_evicts [OF toks, of t d] unfolding fields .
    ultimately show ?thesis using filed fields(2,3) False by blast
  qed
qed

text \<open>C29. No parked caller is forgotten: in every state that calls lead to, settling running jobs, at most as
  many as are running and parked, empties the parking places and answers everyone who was in them.\<close>

theorem estimate_parked_answered:
  assumes "list_all plain_profile cs"
  shows "\<exists>ts. length ts \<le> length (er_active (est_run cs)) + length (er_pending (est_run cs))
    \<and> er_pending (settle_all now ts (est_run cs)) = []
    \<and> set (parked_tokens (est_run cs)) \<subseteq> set (er_resolved (settle_all now ts (est_run cs))) \<union> set (er_rejected (settle_all now ts (est_run cs)))"
proof -
  have "served empty_registry"
    by (simp add: served_def empty_registry_def)
  then have "reg_ok (est_run cs) \<and> served (est_run cs)"
    using est_run_induct [OF assms, of served] served_step by blast
  then show ?thesis
    using settle_drains [of "est_run cs" now] by blast
qed

section \<open>A run\<close>

text \<open>Five estimates of one profile, the fifth parked, its predecessor settled with a stash.\<close>

definition demo_calls :: "est_call list" where
  "demo_calls = map (\<lambda>i. AdmitCall 0 [i] ''p'' [i]) ''abcde'' @ [CancelCall ''b'' ''p'', SettleCall 1 ''b'' (Some ''x''), SettleCall 2 ''a'' (Some ''y'')]"

theorem estimate_caps_witness: "activeCount ''p'' (est_run demo_calls) = 3 \<and> activeCount ''p'' (est_run demo_calls) \<le> 4"
proof -
  have "list_all plain_profile demo_calls" "activeCount ''p'' (est_run demo_calls) = 3" by code_simp+
  then show ?thesis using estimate_caps by blast
qed

theorem estimate_stash_kept_witness:
  "\<exists>d. js_get (er_settled (est_run demo_calls)) ''a'' = Some d \<and> sh_estimateId d = ''y'' \<and> sh_settledAt d = 2
     \<and> ''y'' \<in> set (er_evicted (cancel_estimate ''a'' (sh_profileId d) (est_run demo_calls)))"
proof -
  have "list_all plain_profile demo_calls" "''y'' \<notin> set (er_evicted (est_run demo_calls))" by code_simp+
  moreover have "demo_calls = (map (\<lambda>i. AdmitCall 0 [i] ''p'' [i]) ''abcde'' @ [CancelCall ''b'' ''p'', SettleCall 1 ''b'' (Some ''x'')])
      @ SettleCall 2 ''a'' (Some ''y'') # []" by (simp add: demo_calls_def)
  ultimately show ?thesis using estimate_stash_kept [of demo_calls _ 2 "''a''" "''y''" "[]"] by blast
qed

theorem estimate_parked_answered_witness:
  "parked_tokens (est_run (take 5 demo_calls)) = [''e''] \<and>
   (\<exists>ts. length ts \<le> 5 \<and> er_pending (settle_all 3 ts (est_run (take 5 demo_calls))) = [])"
proof -
  have "list_all plain_profile (take 5 demo_calls)" "parked_tokens (est_run (take 5 demo_calls)) = [''e'']"
    "length (er_active (est_run (take 5 demo_calls))) + length (er_pending (est_run (take 5 demo_calls))) = 5" by code_simp+
  then show ?thesis using estimate_parked_answered [of "take 5 demo_calls" 3] by auto
qed

end
