(* ===== verification/Fingerprint.thy ===== *)
theory Fingerprint
  imports Canonical_Row
begin

text \<open>
  The identity of a dApp operation, \<^verbatim>\<open>execution/operation-fingerprint.ts\<close> and \<^verbatim>\<open>fingerprintFeeSettings\<close>
  of \<^verbatim>\<open>execution/transfer-estimate-reuse.ts\<close>. The text decides whether a request that was signed for an
  estimate may be sent for a confirmed operation, so it has to tell apart every two operations that
  would be built differently. A number is given by the text \<^verbatim>\<open>String\<close> prints for it, so the two zeros are one.
\<close>

section \<open>Values of arguments\<close>

text \<open>The last constructor is everything the encoder refuses: functions, symbols, instances of classes.\<close>

datatype js_arg =
    AUndef | ANull | ABool bool | ANum string | AInt int | AStr string | AArr "js_arg list" | AObj "(string \<times> js_arg) list" | AOther

definition MAX_VALUE_DEPTH :: nat where
  "MAX_VALUE_DEPTH = 6"

definition js_join :: "char \<Rightarrow> string list \<Rightarrow> string" where
  "js_join sep parts = (case parts of [] \<Rightarrow> [] | p # ps \<Rightarrow> p @ concat (map ((#) sep) ps))"

definition counted :: "char \<Rightarrow> char \<Rightarrow> char \<Rightarrow> string list \<Rightarrow> string" where
  "counted opening sep closing parts = nat_dec (length parts) @ opening # js_join sep parts @ [closing]"

definition str :: "string \<Rightarrow> string" where
  "str value = CHR ''s'' # nat_dec (length value) @ CHR '':'' # value"

definition optStr :: "string option \<Rightarrow> string" where
  "optStr value = (case value of None \<Rightarrow> ''u'' | Some s \<Rightarrow> str s)"

definition encodeStringArray :: "string list \<Rightarrow> string" where
  "encodeStringArray values = CHR ''a'' # counted CHR ''['' CHR '','' CHR '']'' (map str values)"

function encodeValue :: "js_arg \<Rightarrow> nat \<Rightarrow> string option" where
  "encodeValue value depth =
     (if depth > MAX_VALUE_DEPTH then None
      else case value of
        ANull \<Rightarrow> Some ''z''
      | AUndef \<Rightarrow> Some ''u''
      | AStr s \<Rightarrow> Some (str s)
      | ANum n \<Rightarrow> if finite_text n then Some (CHR ''n'' # n) else None
      | AInt i \<Rightarrow> Some (CHR ''i'' # int_dec i)
      | ABool b \<Rightarrow> Some (if b then ''t'' else ''f'')
      | AArr items \<Rightarrow>
          map_option (\<lambda>parts. CHR ''a'' # counted CHR ''['' CHR '','' CHR '']'' parts)
            (collect (map (\<lambda>item. encodeValue item (depth + 1)) items))
      | AObj fields \<Rightarrow>
          map_option (\<lambda>parts. CHR ''o'' # counted CHR ''{'' CHR '','' CHR ''}'' parts)
            (collect (map (\<lambda>(key, v). map_option (\<lambda>enc. str key @ CHR ''='' # enc) (encodeValue v (depth + 1))) (sort_fields fields)))
      | AOther \<Rightarrow> None)"
  by pat_completeness auto
termination
proof (relation "measure (size \<circ> fst)")
  fix x :: js_arg and depth :: nat and fields f key v
  assume "x = AObj fields" "f \<in> set (sort_fields fields)" "(key, v) = f"
  then have "(key, v) \<in> set fields" "x = AObj fields" by auto
  then have "size_prod (\<lambda>_. 0) size (key, v) < Suc (size_list (size_prod (\<lambda>_. 0) size) fields)"
    by (simp add: size_list_estimation' less_Suc_eq_le)
  then show "((v, depth + 1), x, depth) \<in> measure (size \<circ> fst)" using \<open>x = AObj fields\<close> by simp
qed (auto simp: less_Suc_eq_le size_list_estimation')

declare encodeValue.simps [simp del]

section \<open>Actions\<close>

record call_payload =
  cp_contract :: string
  cp_method :: string
  cp_args :: "js_arg list"
  cp_hideSender :: "bool option"

record encoded_call_payload =
  ep_to :: string
  ep_selector :: string
  ep_args :: "string list"
  ep_hideMsgSender :: "bool option"
  ep_name :: "string option"
  ep_type :: "string option"
  ep_isStatic :: "bool option"
  ep_returnType :: "js_arg option"

datatype authwit_content =
    CallContent string call_payload
  | EncodedCallContent string encoded_call_payload
  | IntentContent string "string list"
  | MessageHashContent string

datatype action =
    AddCapsule string string "string list" "string option"
  | AddExtraArgs "string list"
  | AddPrivateAuthwit authwit_content "string list option"
  | AddPublicAuthwit authwit_content
  | CallAction call_payload
  | EncodedCallAction encoded_call_payload

text \<open>\<^verbatim>\<open>${flag ?? false}\<close>\<close>

definition flag_text :: "bool option \<Rightarrow> string" where
  "flag_text flag = (if or_else flag False then ''true'' else ''false'')"

definition bar :: "string list \<Rightarrow> string" where
  "bar parts = js_join CHR ''|'' parts"

definition encodeAuthwitContent :: "authwit_content \<Rightarrow> string option" where
  "encodeAuthwitContent content =
     (case content of
        CallContent caller p \<Rightarrow>
          map_option (\<lambda>args. ''call('' @ bar [str caller, str (cp_contract p), str (cp_method p), args, flag_text (cp_hideSender p)] @ '')'')
            (encodeValue (AArr (cp_args p)) 0)
      | EncodedCallContent caller p \<Rightarrow>
          Some (''enc('' @ bar [str caller, str (ep_to p), str (ep_selector p), optStr (ep_name p), encodeStringArray (ep_args p), flag_text (ep_hideMsgSender p)] @ '')'')
      | IntentContent consumer intent \<Rightarrow> Some (''intent('' @ bar [str consumer, encodeStringArray intent] @ '')'')
      | MessageHashContent messageHash \<Rightarrow> Some (''hash('' @ str messageHash @ '')''))"

definition encodeAction :: "action \<Rightarrow> string option" where
  "encodeAction action =
     (case action of
        AddCapsule contract storageSlot capsule scope \<Rightarrow>
          Some (''capsule('' @ bar [str contract, str storageSlot, encodeStringArray capsule, optStr scope] @ '')'')
      | AddExtraArgs args \<Rightarrow> Some (''extra('' @ encodeStringArray args @ '')'')
      | AddPrivateAuthwit content authwit \<Rightarrow>
          map_option (\<lambda>enc. ''add_private_authwit('' @ bar [enc, case authwit of None \<Rightarrow> [] | Some w \<Rightarrow> encodeStringArray w] @ '')'')
            (encodeAuthwitContent content)
      | AddPublicAuthwit content \<Rightarrow>
          map_option (\<lambda>enc. ''add_public_authwit('' @ bar [enc, []] @ '')'') (encodeAuthwitContent content)
      | CallAction p \<Rightarrow>
          map_option (\<lambda>args. ''call('' @ bar [str (cp_contract p), str (cp_method p), args, flag_text (cp_hideSender p)] @ '')'')
            (encodeValue (AArr (cp_args p)) 0)
      | EncodedCallAction p \<Rightarrow>
          Some (''enc('' @ bar [str (ep_to p), str (ep_selector p), optStr (ep_name p), encodeStringArray (ep_args p), flag_text (ep_hideMsgSender p), flag_text (ep_isStatic p)] @ '')''))"

section \<open>Fees\<close>

datatype embedded_payment = EmbeddedFjwc | EmbeddedFpc

text \<open>Gas amounts and fees are the texts they print to; \<^verbatim>\<open>requestedPayment\<close> has the one value \<^verbatim>\<open>fj\<close>.\<close>

record fee_options =
  fo_embeddedFeePayment :: "embedded_payment option"
  fo_requestedPayment :: bool
  fo_gasLimits :: "(string \<times> string) option"
  fo_teardownGasLimits :: "(string \<times> string) option"
  fo_maxFeesPerGas :: "(string \<times> string) option"
  fo_maxPriorityFeesPerGas :: "(string \<times> string) option"
  fo_gasPadding :: "string option"

definition pair_text :: "(string \<times> string) option \<Rightarrow> string" where
  "pair_text p = (case p of None \<Rightarrow> ''-'' | Some (da, l2) \<Rightarrow> da @ CHR '':'' # l2)"

definition encodeFeeOptions :: "fee_options option \<Rightarrow> string" where
  "encodeFeeOptions fee =
     (case fee of
        None \<Rightarrow> ''none''
      | Some f \<Rightarrow>
          bar [case fo_embeddedFeePayment f of None \<Rightarrow> ''-'' | Some EmbeddedFjwc \<Rightarrow> ''fjwc'' | Some EmbeddedFpc \<Rightarrow> ''fpc'',
               if fo_requestedPayment f then ''fj'' else ''-'',
               pair_text (fo_gasLimits f), pair_text (fo_teardownGasLimits f),
               pair_text (fo_maxFeesPerGas f), pair_text (fo_maxPriorityFeesPerGas f),
               or_else (fo_gasPadding f) ''-''])"

datatype payment_method = PayFj | PayFjwc string string string | PayFpc string | PayEmbedded

datatype priority_level = PriorityNormal | PriorityFast | PriorityUrgent

record fee_settings =
  fs_paymentMethod :: payment_method
  fs_priorityLevel :: "priority_level option"

fun level_text :: "priority_level option \<Rightarrow> string" where
  "level_text None = ''default''"
| "level_text (Some PriorityNormal) = ''normal''"
| "level_text (Some PriorityFast) = ''fast''"
| "level_text (Some PriorityUrgent) = ''urgent''"

definition colon :: "string list \<Rightarrow> string" where
  "colon parts = js_join CHR '':'' parts"

definition fingerprintFeeSettings :: "fee_settings \<Rightarrow> string" where
  "fingerprintFeeSettings fs =
     (case fs_paymentMethod fs of
        PayFj \<Rightarrow> ''fj''
      | PayFjwc claimAmount claimSecret messageLeafIndex \<Rightarrow> colon [''fjwc'', claimAmount, claimSecret, messageLeafIndex]
      | PayFpc fpcId \<Rightarrow> colon [''fpc'', fpcId]
      | PayEmbedded \<Rightarrow> ''embedded'')
     @ CHR ''|'' # level_text (fs_priorityLevel fs)"

section \<open>Operations\<close>

record operation_input =
  oi_networkId :: string
  oi_accountAddress :: string
  oi_executionMode :: string
  oi_from :: string
  oi_actions :: "action list"
  oi_fee :: "fee_options option"
  oi_feeSettings :: fee_settings

definition fingerprintOperation :: "operation_input \<Rightarrow> string option" where
  "fingerprintOperation input =
     map_option (\<lambda>parts.
       js_join CHR ''&''
         [''net='' @ str (oi_networkId input), ''acct='' @ str (oi_accountAddress input), ''mode='' @ str (oi_executionMode input),
          ''from='' @ str (oi_from input), ''fee='' @ str (encodeFeeOptions (oi_fee input)),
          ''fs='' @ str (fingerprintFeeSettings (oi_feeSettings input)),
          ''actions='' @ counted CHR ''['' CHR '';'' CHR '']'' parts])
       (collect (map encodeAction (oi_actions input)))"

text \<open>
  The identity of an operation without a sender. The four values of \<^verbatim>\<open>jsonEnc\<close> are given as
  \<^verbatim>\<open>JSON.parse(JSON.stringify(v))\<close> returns them, undefined for an absent one; the arguments of a call,
  its addresses and the scopes by their \<^verbatim>\<open>toString\<close>.
\<close>

record no_from_call =
  nc_to :: "string option"
  nc_selector :: "string option"
  nc_name :: "string option"
  nc_args :: "string list option"
  nc_isStatic :: "bool option"
  nc_hideMsgSender :: "bool option"

record no_from_input =
  ni_networkId :: string
  ni_accountAddress :: string
  ni_from :: string
  ni_calls :: "no_from_call list"
  ni_authWitnesses :: js_arg
  ni_capsules :: js_arg
  ni_extraHashedArgs :: js_arg
  ni_gasSettings :: js_arg
  ni_additionalScopes :: "string list"

definition strs :: "string list option \<Rightarrow> string" where
  "strs values = encodeStringArray (or_else values [])"

definition encode_no_from_call :: "no_from_call \<Rightarrow> string" where
  "encode_no_from_call c =
     ''call('' @ bar [optStr (nc_to c), optStr (nc_selector c), optStr (nc_name c), strs (nc_args c), flag_text (nc_hideMsgSender c), flag_text (nc_isStatic c)] @ '')''"

definition sorted_texts :: "string list \<Rightarrow> string list" where
  "sorted_texts xs = map fst (sort_fields (map (\<lambda>s. (s, ())) (js_unique xs)))"

definition jsonEnc :: "js_arg \<Rightarrow> string option" where
  "jsonEnc value = encodeValue value 0"

definition fingerprintNoFromInputs :: "no_from_input \<Rightarrow> string option" where
  "fingerprintNoFromInputs input =
     (case (jsonEnc (ni_gasSettings input), jsonEnc (ni_authWitnesses input), jsonEnc (ni_capsules input), jsonEnc (ni_extraHashedArgs input)) of
        (Some gas, Some authwits, Some capsules, Some extras) \<Rightarrow>
          Some (js_join CHR ''&''
            [''net='' @ str (ni_networkId input), ''acct='' @ str (ni_accountAddress input), ''mode=default_entrypoint'',
             ''from='' @ str (ni_from input), ''gas='' @ gas,
             ''calls='' @ counted CHR ''['' CHR '';'' CHR '']'' (map encode_no_from_call (ni_calls input)),
             ''authwits='' @ authwits, ''capsules='' @ capsules, ''extras='' @ extras,
             ''scopes='' @ encodeStringArray (sorted_texts (ni_additionalScopes input))])
      | _ \<Rightarrow> None)"

section \<open>Unique readability\<close>

text \<open>
  A code is read back when a text that starts with an encoding, and goes on with a character that is
  not part of a number, determines what was encoded and where it ends. Lists inherit this.
\<close>

definition ends :: "string \<Rightarrow> bool" where
  "ends r \<longleftrightarrow> r = [] \<or> \<not> num_char (hd r)"

lemma ends_Cons [simp]: "ends (c # r) \<longleftrightarrow> \<not> num_char c" "ends []"
  by (simp_all add: ends_def)

lemma js_join_simps [simp]:
  "js_join sep [] = []" "js_join sep [p] = p" "js_join sep (p # q # ps) = p @ sep # js_join sep (q # ps)"
  by (simp_all add: js_join_def)

lemma num_char_digit: "48 \<le> code_of c \<Longrightarrow> code_of c \<le> 57 \<Longrightarrow> num_char c"
proof -
  assume "48 \<le> code_of c" "code_of c \<le> 57"
  then have "code_of c \<in> {48, 49, 50, 51, 52, 53, 54, 55, 56, 57}" by simp arith
  then show "num_char c" by (auto simp: num_char_def char_of_def bit_0 dest!: code_of_eq)
qed

lemma count_read [simp]:
  "\<not> num_char c \<Longrightarrow> nat_dec n @ c # r = nat_dec m @ c # r' \<longleftrightarrow> n = m \<and> r = r'"
  using nat_dec_append_inj [of n c r m r'] num_char_digit [of c] by auto

lemma separator [simp]:
  "\<not> num_char CHR '':''" "\<not> num_char CHR ''|''" "\<not> num_char CHR ''=''" "\<not> num_char CHR '';''" "\<not> num_char CHR ''&''"
  "\<not> num_char CHR '')''" "\<not> num_char CHR '',''" "\<not> num_char CHR ''[''" "\<not> num_char CHR '']''" "\<not> num_char CHR ''{''" "\<not> num_char CHR ''}''"
  by (simp_all add: num_char_def)

lemma str_read [simp]: "str a @ r = str b @ r' \<longleftrightarrow> a = b \<and> r = r'"
  by (auto simp: str_def)

locale text_code =
  fixes enc :: "'a \<Rightarrow> string option" and view :: "'a \<Rightarrow> 'b" and ok :: "'a \<Rightarrow> bool"
  assumes unique: "ok x \<Longrightarrow> ok y \<Longrightarrow> enc x = Some s \<Longrightarrow> enc y = Some t \<Longrightarrow> s @ r = t @ r' \<Longrightarrow> ends r \<Longrightarrow> ends r' \<Longrightarrow> view x = view y \<and> r = r'"
begin

lemma parts_unique:
  assumes "length ps = length qs" "map enc xs = map Some ps" "map enc ys = map Some qs" "list_all ok xs" "list_all ok ys"
    and "js_join sep ps @ r = js_join sep qs @ r'" "\<not> num_char sep" "ends r" "ends r'"
  shows "map view xs = map view ys \<and> r = r'"
  using assms
proof (induction ps qs arbitrary: xs ys rule: list_induct2)
  case (Cons p ps q qs)
  then obtain x xs' y ys' where xy: "xs = x # xs'" "ys = y # ys'" "enc x = Some p" "enc y = Some q"
      "map enc xs' = map Some ps" "map enc ys' = map Some qs" "ok x" "ok y" "list_all ok xs'" "list_all ok ys'"
    by (cases xs; cases ys) auto
  show ?case
  proof (cases ps)
    case Nil
    with Cons.hyps xy have "xs' = []" "ys' = []" "qs = []" by auto
    with Nil Cons.prems xy unique [OF xy(7,8,3,4)] show ?thesis by auto
  next
    case (Cons p2 ps2)
    then obtain q2 qs2 where q2: "qs = q2 # qs2" using Cons.hyps by (cases qs) auto
    with Cons.prems \<open>ps = p2 # ps2\<close> have eq: "p @ sep # js_join sep ps @ r = q @ sep # js_join sep qs @ r'" by simp
    from unique [OF xy(7,8,3,4) eq] Cons.prems have "view x = view y" "js_join sep ps @ r = js_join sep qs @ r'" by simp_all
    with Cons.IH [OF xy(5,6,9,10)] Cons.prems xy show ?thesis by simp
  qed
qed auto

lemma counted_unique:
  assumes "map enc xs = map Some ps" "map enc ys = map Some qs" "list_all ok xs" "list_all ok ys"
    and "counted opening sep closing ps @ r = counted opening sep closing qs @ r'"
    and "\<not> num_char opening" "\<not> num_char sep" "\<not> num_char closing"
  shows "map view xs = map view ys \<and> r = r'"
proof -
  from assms have eq: "length ps = length qs" "js_join sep ps @ closing # r = js_join sep qs @ closing # r'"
    by (simp_all add: counted_def)
  from parts_unique [OF eq(1) assms(1-4) eq(2)] assms show ?thesis by simp
qed

lemma keyed: "text_code (\<lambda>(k, v). map_option (\<lambda>e. str k @ CHR ''='' # e) (enc v)) (map_prod id view) (\<lambda>(k, v). ok v)"
proof
  fix x y :: "string \<times> 'a" and s t r r'
  assume ok: "case x of (k, v) \<Rightarrow> ok v" "case y of (k, v) \<Rightarrow> ok v"
    and e: "(case x of (k, v) \<Rightarrow> map_option (\<lambda>e. str k @ CHR ''='' # e) (enc v)) = Some s"
      "(case y of (k, v) \<Rightarrow> map_option (\<lambda>e. str k @ CHR ''='' # e) (enc v)) = Some t"
    and eq: "s @ r = t @ r'" and ends: "ends r" "ends r'"
  obtain k v l w where xy: "x = (k, v)" "y = (l, w)" by (cases x; cases y)
  with e obtain a b where ab: "enc v = Some a" "enc w = Some b" "s = str k @ CHR ''='' # a" "t = str l @ CHR ''='' # b" by auto
  with eq have "k = l \<and> a @ r = b @ r'" by simp
  with unique [OF _ _ ab(1,2) _ ends] ok xy show "map_prod id view x = map_prod id view y \<and> r = r'" by simp
qed

end

section \<open>Values are identified up to the order of properties\<close>

primrec canon :: "js_arg \<Rightarrow> js_arg" where
  "canon AUndef = AUndef"
| "canon ANull = ANull"
| "canon (ABool b) = ABool b"
| "canon (ANum n) = ANum n"
| "canon (AInt i) = AInt i"
| "canon (AStr s) = AStr s"
| "canon (AArr vs) = AArr (map canon vs)"
| "canon (AObj fs) = AObj (sort_fields (map (map_prod id canon) fs))"
| "canon AOther = AOther"

text \<open>What a JavaScript value satisfies: a finite number prints as a number, an object has a property once.\<close>

fun arg_ok :: "js_arg \<Rightarrow> bool" where
  "arg_ok (ANum n) = (finite_text n \<longrightarrow> number_text n)"
| "arg_ok (AArr vs) = list_all arg_ok vs"
| "arg_ok (AObj fs) = (list_all (\<lambda>(k, v). arg_ok v) fs \<and> distinct (map fst fs))"
| "arg_ok _ = True"

lemma insert_field_map: "insert_field (map_prod id f x) (map (map_prod id f) gs) = map (map_prod id f) (insert_field x gs)"
  by (induction gs) auto

lemma sort_fields_map: "sort_fields (map (map_prod id f) fs) = map (map_prod id f) (sort_fields fs)"
  by (induction fs) (simp_all add: sort_fields_def insert_field_map [unfolded id_def])

lemma sort_fields_sorted: "sorted_wrt before fs \<Longrightarrow> sort_fields fs = fs"
proof (induction fs)
  case (Cons f fs)
  then have "sort_fields fs = fs" by simp
  moreover have "insert_field f fs = f # fs" using Cons.prems by (cases fs) (auto simp: before_def)
  ultimately show ?case by (simp add: sort_fields_def)
qed (simp add: sort_fields_def)

lemma sort_fields_idem [simp]: "sort_fields (sort_fields fs) = sort_fields fs"
  by (rule sort_fields_sorted [OF sorted_sort_fields])

lemma sort_fields_ext:
  assumes "distinct (map fst fs)" "distinct (map fst gs)" "\<And>k. map_of fs k = map_of gs k"
  shows "sort_fields fs = sort_fields gs"
proof -
  have keys: "sorted_wrt text_le (map fst (sort_fields hs))" for hs :: "(string \<times> 'a) list"
    using sorted_sort_fields [of hs] by (simp add: sorted_wrt_map before_def [abs_def])
  have rebuild: "map (\<lambda>k. (k, the (map_of hs k))) (map fst (sort_fields hs)) = sort_fields hs" if "distinct (map fst hs)" for hs :: "(string \<times> 'a) list"
    using that by (auto intro!: map_idI)
  have maps: "map_of fs = map_of gs" using assms(3) by blast
  with map_of_inject_set [OF assms(1,2)] have same: "set fs = set gs" by simp
  then have "set (map fst (sort_fields fs)) = set (map fst (sort_fields gs))" by simp
  then have "map fst (sort_fields fs) = map fst (sort_fields gs)"
    by (intro sorted_keys_unique keys) (use assms(1,2) in \<open>simp_all add: distinct_sort_fields\<close>)
  with rebuild [OF assms(1)] rebuild [OF assms(2)] maps show ?thesis by metis
qed

text \<open>Two objects have one canonical form exactly when every property has.\<close>

lemma canon_object:
  assumes "distinct (map fst fs)" "distinct (map fst gs)"
  shows "canon (AObj fs) = canon (AObj gs) \<longleftrightarrow> (\<forall>k. map_option canon (map_of fs k) = map_option canon (map_of gs k))"
proof -
  have m: "map_of (map (map_prod id canon) hs) k = map_option canon (map_of hs k)" for hs k
    by (induction hs) auto
  have d: "distinct (map fst (map (map_prod id canon) hs)) \<longleftrightarrow> distinct (map fst hs)" for hs :: "(string \<times> js_arg) list"
    by (simp add: comp_def)
  show ?thesis
  proof
    assume "canon (AObj fs) = canon (AObj gs)"
    then show "\<forall>k. map_option canon (map_of fs k) = map_option canon (map_of gs k)"
      using map_of_sort_fields [of "map (map_prod id canon) fs"] map_of_sort_fields [of "map (map_prod id canon) gs"] assms
      by (metis d m canon.simps(8) js_arg.inject(6))
  next
    assume "\<forall>k. map_option canon (map_of fs k) = map_option canon (map_of gs k)"
    then show "canon (AObj fs) = canon (AObj gs)"
      using sort_fields_ext [of "map (map_prod id canon) fs" "map (map_prod id canon) gs"] assms by (simp add: d m)
  qed
qed

lemma numeral_read:
  assumes "list_all num_char s" "list_all num_char t" "s @ r = t @ r'" "ends r" "ends r'"
  shows "s = t \<and> r = r'"
proof -
  have "takeWhile num_char (s @ r) = s" if "list_all num_char s" "ends r" for s r
    using that by (cases r) (simp_all add: list_all_iff takeWhile_append)
  with assms have "s = t" by metis
  with assms(3) show ?thesis by simp
qed

lemma int_dec_num: "list_all num_char (int_dec i)"
proof -
  have "list_all num_char (nat_dec n)" for n
    using nat_dec_digits num_char_digit by (auto simp: list_all_iff)
  then show ?thesis by (auto simp: int_dec_def num_char_def)
qed

definition encode_field :: "nat \<Rightarrow> string \<times> js_arg \<Rightarrow> string option" where
  "encode_field d = (\<lambda>(k, v). map_option (\<lambda>e. str k @ CHR ''='' # e) (encodeValue v d))"

lemma encode_simps [simp]:
  "encodeValue ANull d = Some s \<longleftrightarrow> d \<le> MAX_VALUE_DEPTH \<and> s = ''z''"
  "encodeValue AUndef d = Some s \<longleftrightarrow> d \<le> MAX_VALUE_DEPTH \<and> s = ''u''"
  "encodeValue (AStr x) d = Some s \<longleftrightarrow> d \<le> MAX_VALUE_DEPTH \<and> s = str x"
  "encodeValue (ANum n) d = Some s \<longleftrightarrow> d \<le> MAX_VALUE_DEPTH \<and> finite_text n \<and> s = CHR ''n'' # n"
  "encodeValue (AInt i) d = Some s \<longleftrightarrow> d \<le> MAX_VALUE_DEPTH \<and> s = CHR ''i'' # int_dec i"
  "encodeValue (ABool b) d = Some s \<longleftrightarrow> d \<le> MAX_VALUE_DEPTH \<and> s = (if b then ''t'' else ''f'')"
  "encodeValue AOther d = None"
  by (subst encodeValue.simps; auto)+

lemma encode_array:
  "encodeValue (AArr vs) d = Some s \<longleftrightarrow>
     d \<le> MAX_VALUE_DEPTH \<and> (\<exists>ps. map (\<lambda>v. encodeValue v (Suc d)) vs = map Some ps \<and> s = CHR ''a'' # counted CHR ''['' CHR '','' CHR '']'' ps)"
  by (subst encodeValue.simps) (auto simp: collect_Some)

lemma encode_object:
  "encodeValue (AObj fs) d = Some s \<longleftrightarrow>
     d \<le> MAX_VALUE_DEPTH \<and> (\<exists>ps. map (encode_field (Suc d)) (sort_fields fs) = map Some ps \<and> s = CHR ''o'' # counted CHR ''{'' CHR '','' CHR ''}'' ps)"
  by (subst encodeValue.simps) (auto simp: collect_Some encode_field_def)

fun arg_tag :: "js_arg \<Rightarrow> char" where
  "arg_tag AUndef = CHR ''u''"
| "arg_tag ANull = CHR ''z''"
| "arg_tag (ABool b) = (if b then CHR ''t'' else CHR ''f'')"
| "arg_tag (ANum n) = CHR ''n''"
| "arg_tag (AInt i) = CHR ''i''"
| "arg_tag (AStr s) = CHR ''s''"
| "arg_tag (AArr vs) = CHR ''a''"
| "arg_tag (AObj fs) = CHR ''o''"
| "arg_tag AOther = CHR ''x''"

lemma encode_tag: "encodeValue v d = Some s \<Longrightarrow> \<exists>s'. s = arg_tag v # s' \<and> v \<noteq> AOther"
  by (cases v) (auto simp: encode_array encode_object str_def)

lemma arg_size_element: "x \<in> set vs \<Longrightarrow> size x < size (AArr vs)"
  by (simp add: less_Suc_eq_le size_list_estimation')

lemma arg_size_field: "(k, v) \<in> set fs \<Longrightarrow> size v < size (AObj fs)"
proof -
  assume "(k, v) \<in> set fs"
  then have "size_prod (\<lambda>_. 0) size (k, v) < Suc (size_list (size_prod (\<lambda>_. 0) size) fs)"
    by (simp add: size_list_estimation' less_Suc_eq_le)
  then show ?thesis by simp
qed

lemma array_unique:
  assumes "text_code (\<lambda>v. encodeValue v (Suc d)) canon ok" "list_all ok vs" "list_all ok ws"
    and "encodeValue (AArr vs) d = Some s" "encodeValue (AArr ws) d = Some t" "s @ r = t @ r'"
  shows "canon (AArr vs) = canon (AArr ws) \<and> r = r'"
proof -
  from assms(4-6) obtain ps qs where p: "map (\<lambda>v. encodeValue v (Suc d)) vs = map Some ps" "map (\<lambda>v. encodeValue v (Suc d)) ws = map Some qs"
      "counted CHR ''['' CHR '','' CHR '']'' ps @ r = counted CHR ''['' CHR '','' CHR '']'' qs @ r'"
    by (auto simp: encode_array)
  from text_code.counted_unique [OF assms(1) p(1,2) assms(2,3) p(3)] show ?thesis by simp
qed

lemma object_unique:
  assumes "text_code (\<lambda>v. encodeValue v (Suc d)) canon ok" "list_all (\<lambda>(k, v). ok v) fs" "list_all (\<lambda>(k, v). ok v) gs"
    and "encodeValue (AObj fs) d = Some s" "encodeValue (AObj gs) d = Some t" "s @ r = t @ r'"
  shows "canon (AObj fs) = canon (AObj gs) \<and> r = r'"
proof -
  from assms(4-6) obtain ps qs where p: "map (encode_field (Suc d)) (sort_fields fs) = map Some ps" "map (encode_field (Suc d)) (sort_fields gs) = map Some qs"
      "counted CHR ''{'' CHR '','' CHR ''}'' ps @ r = counted CHR ''{'' CHR '','' CHR ''}'' qs @ r'"
    by (auto simp: encode_object)
  have ok: "list_all (\<lambda>(k, v). ok v) (sort_fields fs)" "list_all (\<lambda>(k, v). ok v) (sort_fields gs)"
    using assms(2,3) by (simp_all add: list_all_iff)
  have "text_code (encode_field (Suc d)) (map_prod id canon) (\<lambda>(k, v). ok v)"
    unfolding encode_field_def by (rule text_code.keyed [OF assms(1)])
  from text_code.counted_unique [OF this p(1,2) ok p(3)] show ?thesis by (simp add: sort_fields_map)
qed

lemma value_unique_below:
  "size v < n \<Longrightarrow> size w < n \<Longrightarrow> arg_ok v \<Longrightarrow> arg_ok w \<Longrightarrow> encodeValue v d = Some s \<Longrightarrow> encodeValue w d = Some t
     \<Longrightarrow> s @ r = t @ r' \<Longrightarrow> ends r \<Longrightarrow> ends r' \<Longrightarrow> canon v = canon w \<and> r = r'"
proof (induction n arbitrary: v w d s t r r')
  case (Suc n)
  have code: "text_code (\<lambda>v. encodeValue v (Suc d)) canon (\<lambda>x. arg_ok x \<and> size x < n)"
    by (rule text_code.intro) (use Suc.IH in blast)
  from encode_tag [OF Suc.prems(5)] encode_tag [OF Suc.prems(6)] Suc.prems(7)
  have tag: "arg_tag v = arg_tag w" "v \<noteq> AOther" by auto
  show ?case
  proof (cases v)
    case (AArr vs)
    with tag obtain ws where w: "w = AArr ws" by (cases w) (auto split: if_splits)
    have "list_all (\<lambda>x. arg_ok x \<and> size x < n) vs" "list_all (\<lambda>x. arg_ok x \<and> size x < n) ws"
      using Suc.prems(1-4) AArr w arg_size_element by (fastforce simp: list_all_iff)+
    from array_unique [OF code this] Suc.prems AArr w show ?thesis by blast
  next
    case (AObj fs)
    with tag obtain gs where w: "w = AObj gs" by (cases w) (auto split: if_splits)
    have "list_all (\<lambda>(k, x). arg_ok x \<and> size x < n) fs" "list_all (\<lambda>(k, x). arg_ok x \<and> size x < n) gs"
      using Suc.prems(1-4) AObj w arg_size_field by (fastforce simp: list_all_iff)+
    from object_unique [OF code this] Suc.prems AObj w show ?thesis by blast
  next
    case (ANum a)
    with tag obtain b where w: "w = ANum b" by (cases w) (auto split: if_splits)
    with ANum Suc.prems numeral_read [of a b r r'] show ?thesis by (simp add: number_text_def)
  next
    case (AInt i)
    with tag obtain j where w: "w = AInt j" by (cases w) (auto split: if_splits)
    with AInt Suc.prems numeral_read [OF int_dec_num int_dec_num, of i r j r'] show ?thesis by simp
  qed (use tag Suc.prems in \<open>cases w; auto split: if_splits\<close>)+
qed simp

interpretation value_code: text_code "\<lambda>v. encodeValue v d" canon arg_ok for d
proof
  fix x y s t r r'
  assume a: "arg_ok x" "arg_ok y" "encodeValue x d = Some s" "encodeValue y d = Some t" "s @ r = t @ r'" "ends r" "ends r'"
  show "canon x = canon y \<and> r = r'"
    by (rule value_unique_below [of x "Suc (size x + size y)", OF _ _ a]) linarith+
qed

lemma encode_canon: "encodeValue (canon v) d = encodeValue v d"
proof (induction v arbitrary: d)
  case (AArr vs)
  then show ?case by (simp add: encodeValue.simps [of "AArr _"] comp_def cong: map_cong)
next
  case (AObj fs)
  have sorted: "sort_fields (map (map_prod id canon) fs) = map (map_prod id canon) (sort_fields fs)" by (rule sort_fields_map)
  have again: "sort_fields (map (map_prod id canon) (sort_fields fs)) = map (map_prod id canon) (sort_fields fs)"
    using sort_fields_map [of canon "sort_fields fs"] by simp
  have field: "encode_field e (map_prod id canon f) = encode_field e f" if "f \<in> set fs" for e f
    using AObj [of f "snd f" e] that by (cases f) (simp add: encode_field_def)
  have "map (encode_field (Suc d)) (map (map_prod id canon) (sort_fields fs)) = map (encode_field (Suc d)) (sort_fields fs)"
    by (simp add: field)
  then have "encodeValue (canon (AObj fs)) d = Some s \<longleftrightarrow> encodeValue (AObj fs) d = Some s" for s
    unfolding canon.simps encode_object sorted again by (simp only:)
  then show ?case by (metis not_Some_eq)
qed simp_all

section \<open>What an action is bound to\<close>

text \<open>
  The fingerprint reads an absent flag as false and leaves out what the builder takes from the
  contract's interface and not from the request.
\<close>

definition bound_call :: "call_payload \<Rightarrow> call_payload" where
  "bound_call p = p\<lparr>cp_args := map canon (cp_args p), cp_hideSender := Some (or_else (cp_hideSender p) False)\<rparr>"

definition bound_encoded :: "encoded_call_payload \<Rightarrow> encoded_call_payload" where
  "bound_encoded p =
     p\<lparr>ep_hideMsgSender := Some (or_else (ep_hideMsgSender p) False), ep_isStatic := Some (or_else (ep_isStatic p) False),
       ep_type := None, ep_returnType := None\<rparr>"

fun bound_content :: "authwit_content \<Rightarrow> authwit_content" where
  "bound_content (CallContent caller p) = CallContent caller (bound_call p)"
| "bound_content (EncodedCallContent caller p) = EncodedCallContent caller ((bound_encoded p)\<lparr>ep_isStatic := None\<rparr>)"
| "bound_content c = c"

fun bound_action :: "action \<Rightarrow> action" where
  "bound_action (AddPrivateAuthwit content authwit) = AddPrivateAuthwit (bound_content content) authwit"
| "bound_action (AddPublicAuthwit content) = AddPublicAuthwit (bound_content content)"
| "bound_action (CallAction p) = CallAction (bound_call p)"
| "bound_action (EncodedCallAction p) = EncodedCallAction (bound_encoded p)"
| "bound_action a = a"

fun content_ok :: "authwit_content \<Rightarrow> bool" where
  "content_ok (CallContent caller p) = list_all arg_ok (cp_args p)"
| "content_ok _ = True"

fun action_ok :: "action \<Rightarrow> bool" where
  "action_ok (AddPrivateAuthwit content authwit) = content_ok content"
| "action_ok (AddPublicAuthwit content) = content_ok content"
| "action_ok (CallAction p) = list_all arg_ok (cp_args p)"
| "action_ok _ = True"

interpretation str_code: text_code "\<lambda>s. Some (str s)" id "\<lambda>_. True"
  by unfold_locales auto

lemma strings_read [simp]: "encodeStringArray xs @ r = encodeStringArray ys @ r' \<longleftrightarrow> xs = ys \<and> r = r'"
proof
  assume "encodeStringArray xs @ r = encodeStringArray ys @ r'"
  then have "counted CHR ''['' CHR '','' CHR '']'' (map str xs) @ r = counted CHR ''['' CHR '','' CHR '']'' (map str ys) @ r'"
    by (simp add: encodeStringArray_def)
  from str_code.counted_unique [OF _ _ _ _ this, of xs ys] show "xs = ys \<and> r = r'" by (simp add: list_all_iff)
qed simp

lemma optStr_read [simp]: "optStr a @ r = optStr b @ r' \<longleftrightarrow> a = b \<and> r = r'"
proof -
  have "str x @ q \<noteq> CHR ''u'' # q'" "CHR ''u'' # q' \<noteq> str x @ q" for x q q' by (simp_all add: str_def)
  then show ?thesis by (cases a; cases b) (simp_all add: optStr_def)
qed

lemma flag_read [simp]: "flag_text a @ r = flag_text b @ r' \<longleftrightarrow> or_else a False = or_else b False \<and> r = r'"
  by (simp add: flag_text_def)

lemma args_read:
  assumes "encodeValue (AArr a) 0 = Some s" "encodeValue (AArr b) 0 = Some t" "list_all arg_ok a" "list_all arg_ok b"
  shows "s @ CHR ''|'' # r = t @ CHR ''|'' # r' \<longleftrightarrow> map canon a = map canon b \<and> r = r'"
proof
  assume "s @ CHR ''|'' # r = t @ CHR ''|'' # r'"
  from value_code.unique [OF _ _ assms(1,2) this] assms(3,4) show "map canon a = map canon b \<and> r = r'" by simp
next
  assume eq: "map canon a = map canon b \<and> r = r'"
  then have "encodeValue (AArr a) 0 = encodeValue (AArr b) 0"
    using encode_canon [of "AArr a" 0] encode_canon [of "AArr b" 0] by simp
  with assms eq show "s @ CHR ''|'' # r = t @ CHR ''|'' # r'" by simp
qed

lemma bound_call_eq:
  "bound_call p = bound_call q \<longleftrightarrow> cp_contract p = cp_contract q \<and> cp_method p = cp_method q \<and> map canon (cp_args p) = map canon (cp_args q)
     \<and> or_else (cp_hideSender p) False = or_else (cp_hideSender q) False"
  by (cases p; cases q) (simp add: bound_call_def)

lemma bound_encoded_eq:
  "bound_encoded p = bound_encoded q \<longleftrightarrow> ep_to p = ep_to q \<and> ep_selector p = ep_selector q \<and> ep_name p = ep_name q \<and> ep_args p = ep_args q
     \<and> or_else (ep_hideMsgSender p) False = or_else (ep_hideMsgSender q) False \<and> or_else (ep_isStatic p) False = or_else (ep_isStatic q) False"
  by (cases p; cases q) (auto simp: bound_encoded_def)

lemma bound_encoded_content_eq:
  "(bound_encoded p)\<lparr>ep_isStatic := None\<rparr> = (bound_encoded q)\<lparr>ep_isStatic := None\<rparr> \<longleftrightarrow>
     ep_to p = ep_to q \<and> ep_selector p = ep_selector q \<and> ep_name p = ep_name q \<and> ep_args p = ep_args q
     \<and> or_else (ep_hideMsgSender p) False = or_else (ep_hideMsgSender q) False"
  by (cases p; cases q) (auto simp: bound_encoded_def)

lemmas bound_eqs = bound_call_eq bound_encoded_eq bound_encoded_content_eq

text \<open>An encoding read to its end says what was encoded, and nothing more.\<close>

lemma encode_bound_args [simp]: "encodeValue (AArr (map canon args)) 0 = encodeValue (AArr args) 0"
  using encode_canon [of "AArr args" 0] by simp

lemma flag_bound [simp]: "flag_text (Some (or_else f False)) = flag_text f"
  by (simp add: flag_text_def)

lemma encode_bound_content: "encodeAuthwitContent (bound_content c) = encodeAuthwitContent c"
  by (cases c) (simp_all add: encodeAuthwitContent_def bound_call_def bound_encoded_def)

lemma encode_bound_action: "encodeAction (bound_action a) = encodeAction a"
  by (cases a) (simp_all add: encodeAction_def encode_bound_content bound_call_def bound_encoded_def)

lemma content_read:
  assumes "content_ok c" "content_ok c'" "encodeAuthwitContent c = Some s" "encodeAuthwitContent c' = Some t"
  shows "s @ r = t @ r' \<longleftrightarrow> bound_content c = bound_content c' \<and> r = r'"
proof
  assume "s @ r = t @ r'"
  with assms show "bound_content c = bound_content c' \<and> r = r'"
    by (cases c; cases c') (auto simp: encodeAuthwitContent_def bar_def args_read bound_eqs)
next
  assume eq: "bound_content c = bound_content c' \<and> r = r'"
  with assms encode_bound_content [of c] encode_bound_content [of c'] show "s @ r = t @ r'" by simp
qed

lemma witness_read:
  "(case w of None \<Rightarrow> [] | Some x \<Rightarrow> encodeStringArray x) @ CHR '')'' # r = (case w' of None \<Rightarrow> [] | Some x \<Rightarrow> encodeStringArray x) @ CHR '')'' # r'
     \<longleftrightarrow> w = w' \<and> r = r'"
proof -
  have "encodeStringArray x @ q \<noteq> CHR '')'' # q'" "CHR '')'' # q' \<noteq> encodeStringArray x @ q" for x q q'
    by (simp_all add: encodeStringArray_def)
  then show ?thesis by (cases w; cases w') simp_all
qed

lemma action_unique:
  assumes "action_ok a" "action_ok b" "encodeAction a = Some s" "encodeAction b = Some t" "s @ r = t @ r'"
  shows "bound_action a = bound_action b \<and> r = r'"
  using assms
  by (cases a; cases b) (auto simp: encodeAction_def bar_def args_read content_read witness_read bound_eqs)

interpretation action_code: text_code encodeAction bound_action action_ok
  by unfold_locales (rule action_unique)

section \<open>Fees\<close>

text \<open>The fee fields are joined as they are: their texts must not contain the separators.\<close>

definition plain :: "string \<Rightarrow> bool" where
  "plain s \<longleftrightarrow> CHR ''|'' \<notin> set s \<and> CHR '':'' \<notin> set s"

definition pair_ok :: "(string \<times> string) option \<Rightarrow> bool" where
  "pair_ok p = (case p of None \<Rightarrow> True | Some (da, l2) \<Rightarrow> plain da \<and> plain l2)"

definition fee_ok :: "fee_options \<Rightarrow> bool" where
  "fee_ok f \<longleftrightarrow> pair_ok (fo_gasLimits f) \<and> pair_ok (fo_teardownGasLimits f) \<and> pair_ok (fo_maxFeesPerGas f)
     \<and> pair_ok (fo_maxPriorityFeesPerGas f) \<and> (case fo_gasPadding f of None \<Rightarrow> True | Some p \<Rightarrow> plain p \<and> p \<noteq> ''-'')"

definition settings_ok :: "fee_settings \<Rightarrow> bool" where
  "settings_ok fs = (case fs_paymentMethod fs of PayFjwc a b c \<Rightarrow> plain a \<and> plain b \<and> plain c | _ \<Rightarrow> True)"

lemma sep_split: "c \<notin> set x \<Longrightarrow> c \<notin> set y \<Longrightarrow> x @ c # r = y @ c # r' \<longleftrightarrow> x = y \<and> r = r'"
proof (induction x arbitrary: y)
  case Nil
  then show ?case by (cases y) auto
next
  case (Cons a x)
  then show ?case by (cases y) auto
qed

lemmas bar_split = sep_split [where c = "CHR ''|''"]

lemma colon_split: "plain x \<Longrightarrow> plain y \<Longrightarrow> x @ CHR '':'' # r = y @ CHR '':'' # r' \<longleftrightarrow> x = y \<and> r = r'"
  by (rule sep_split) (simp_all add: plain_def)

lemma pair_bar: "pair_ok p \<Longrightarrow> CHR ''|'' \<notin> set (pair_text p)"
  by (auto simp: pair_ok_def pair_text_def plain_def split: option.splits)

lemma pair_text_inj: "pair_ok p \<Longrightarrow> pair_ok q \<Longrightarrow> pair_text p = pair_text q \<longleftrightarrow> p = q"
proof -
  have "a @ CHR '':'' # b \<noteq> ''-''" for a b :: string by (cases a) auto
  moreover have "''-'' \<noteq> a @ CHR '':'' # b" for a b :: string by (cases a) auto
  ultimately show "pair_ok p \<Longrightarrow> pair_ok q \<Longrightarrow> ?thesis"
    by (auto simp: pair_ok_def pair_text_def colon_split split: option.splits)
qed

lemma encodeFeeOptions_inj:
  assumes "case_option True fee_ok f" "case_option True fee_ok g"
  shows "encodeFeeOptions f = encodeFeeOptions g \<longleftrightarrow> f = g"
proof -
  have none: "encodeFeeOptions (Some h) \<noteq> ''none''" for h
  proof -
    have "CHR ''|'' \<in> set (encodeFeeOptions (Some h))" by (simp add: encodeFeeOptions_def bar_def)
    moreover have "CHR ''|'' \<notin> set ''none''" by simp
    ultimately show ?thesis by metis
  qed
  have pad: "or_else a ''-'' = or_else b ''-'' \<longleftrightarrow> a = b" if "case_option True (\<lambda>p. plain p \<and> p \<noteq> ''-'') a" "case_option True (\<lambda>p. plain p \<and> p \<noteq> ''-'') b" for a b
    using that by (cases a; cases b) auto
  show ?thesis
  proof (cases f)
    case None
    then show ?thesis using none by (cases g) (auto simp: encodeFeeOptions_def [of None] dest: sym)
  next
    case (Some f')
    show ?thesis
    proof (cases g)
      case None
      with Some show ?thesis using none by (simp add: encodeFeeOptions_def [of None])
    next
      case (Some g')
      with \<open>f = Some f'\<close> assms show ?thesis
        by (cases f'; cases g')
          (auto simp: encodeFeeOptions_def bar_def fee_ok_def bar_split pair_bar pair_text_inj pad split: option.splits embedded_payment.splits)
    qed
  qed
qed

lemma level_text_inj: "level_text a = level_text b \<longleftrightarrow> a = b"
  by (cases a rule: level_text.cases; cases b rule: level_text.cases) simp_all

lemma level_bar: "CHR ''|'' \<notin> set (level_text a)"
  by (cases a rule: level_text.cases) simp_all

lemma last_bar:
  assumes "CHR ''|'' \<notin> set r" "CHR ''|'' \<notin> set r'" "x @ CHR ''|'' # r = y @ CHR ''|'' # r'"
  shows "x = y \<and> r = r'"
proof -
  from assms(3) have "rev r @ CHR ''|'' # rev x = rev r' @ CHR ''|'' # rev y"
    by (metis append.assoc append_Cons append_Nil rev.simps(2) rev_append)
  with bar_split [of "rev r" "rev r'"] assms(1,2) show ?thesis by simp
qed

lemma fingerprintFeeSettings_inj:
  assumes "settings_ok a" "settings_ok b"
  shows "fingerprintFeeSettings a = fingerprintFeeSettings b \<longleftrightarrow> a = b"
proof
  assume "fingerprintFeeSettings a = fingerprintFeeSettings b"
  from last_bar [OF level_bar level_bar this [unfolded fingerprintFeeSettings_def]] assms show "a = b"
    by (cases a; cases b) (auto simp: level_text_inj settings_ok_def colon_def colon_split split: payment_method.splits)
qed simp

section \<open>Operations\<close>

definition operation_ok :: "operation_input \<Rightarrow> bool" where
  "operation_ok i \<longleftrightarrow> list_all action_ok (oi_actions i) \<and> (case oi_fee i of None \<Rightarrow> True | Some f \<Rightarrow> fee_ok f) \<and> settings_ok (oi_feeSettings i)"

definition bound_operation :: "operation_input \<Rightarrow> operation_input" where
  "bound_operation i = i\<lparr>oi_actions := map bound_action (oi_actions i)\<rparr>"

lemma fingerprint_bound: "fingerprintOperation (bound_operation i) = fingerprintOperation i"
proof -
  have "map encodeAction (map bound_action as) = map encodeAction as" for as by (simp add: encode_bound_action)
  then show ?thesis by (simp add: fingerprintOperation_def bound_operation_def del: map_map)
qed

lemma fingerprint_unique:
  assumes ok: "operation_ok i" "operation_ok j" and f: "fingerprintOperation i = Some f" "fingerprintOperation j = Some f"
  shows "bound_operation i = bound_operation j"
proof -
  from f obtain ps qs where p: "map encodeAction (oi_actions i) = map Some ps" "map encodeAction (oi_actions j) = map Some qs"
    by (auto simp: fingerprintOperation_def collect_Some)
  have act: "list_all action_ok (oi_actions i)" "list_all action_ok (oi_actions j)" using ok by (simp_all add: operation_ok_def)
  from f p have "oi_networkId i = oi_networkId j" "oi_accountAddress i = oi_accountAddress j" "oi_executionMode i = oi_executionMode j"
      "oi_from i = oi_from j" "encodeFeeOptions (oi_fee i) = encodeFeeOptions (oi_fee j)"
      "fingerprintFeeSettings (oi_feeSettings i) = fingerprintFeeSettings (oi_feeSettings j)"
    and acts: "counted CHR ''['' CHR '';'' CHR '']'' ps = counted CHR ''['' CHR '';'' CHR '']'' qs"
    by (auto simp: fingerprintOperation_def collect_Some)
  moreover from action_code.counted_unique [OF p act, of "CHR ''[''" "CHR '';''" "CHR '']''" "[]" "[]"] acts
  have "map bound_action (oi_actions i) = map bound_action (oi_actions j)" by simp
  ultimately show ?thesis
    using ok encodeFeeOptions_inj [of "oi_fee i" "oi_fee j"] fingerprintFeeSettings_inj [of "oi_feeSettings i" "oi_feeSettings j"]
    by (cases i; cases j) (simp add: operation_ok_def bound_operation_def)
qed

section \<open>Operations without a sender\<close>

definition bound_no_from_call :: "no_from_call \<Rightarrow> no_from_call" where
  "bound_no_from_call c =
     c\<lparr>nc_args := Some (or_else (nc_args c) []), nc_isStatic := Some (or_else (nc_isStatic c) False),
       nc_hideMsgSender := Some (or_else (nc_hideMsgSender c) False)\<rparr>"

definition bound_no_from :: "no_from_input \<Rightarrow> no_from_input" where
  "bound_no_from i =
     i\<lparr>ni_calls := map bound_no_from_call (ni_calls i), ni_authWitnesses := canon (ni_authWitnesses i), ni_capsules := canon (ni_capsules i),
       ni_extraHashedArgs := canon (ni_extraHashedArgs i), ni_gasSettings := canon (ni_gasSettings i),
       ni_additionalScopes := sorted_texts (ni_additionalScopes i)\<rparr>"

definition no_from_ok :: "no_from_input \<Rightarrow> bool" where
  "no_from_ok i \<longleftrightarrow> arg_ok (ni_gasSettings i) \<and> arg_ok (ni_authWitnesses i) \<and> arg_ok (ni_capsules i) \<and> arg_ok (ni_extraHashedArgs i)"

text \<open>The scopes are bound as a set.\<close>

lemma set_sorted_texts [simp]: "set (sorted_texts zs) = set zs"
  by (simp add: sorted_texts_def image_image)

lemma sorted_texts_eq: "sorted_texts xs = sorted_texts ys \<longleftrightarrow> set xs = set ys"
proof
  assume "sorted_texts xs = sorted_texts ys"
  then show "set xs = set ys" using set_sorted_texts by metis
next
  let ?f = "\<lambda>zs. map (\<lambda>s. (s, ())) (js_unique zs)"
  have d: "distinct (map fst (?f zs))" for zs :: "string list" by (simp add: comp_def)
  have m: "map_of (?f zs) k = (if k \<in> set zs then Some () else None)" for zs and k :: string
  proof -
    have "map_of (map (\<lambda>s. (s, ())) ws) k = (if k \<in> set ws then Some () else None)" for ws by (induction ws) auto
    then show ?thesis by simp
  qed
  assume "set xs = set ys"
  then have "map_of (?f xs) k = map_of (?f ys) k" for k by (simp only: m)
  from sort_fields_ext [OF d d this] show "sorted_texts xs = sorted_texts ys" by (simp add: sorted_texts_def)
qed

interpretation no_from_call_code: text_code "\<lambda>c. Some (encode_no_from_call c)" bound_no_from_call "\<lambda>_. True"
proof
  fix x y s t r r'
  assume "Some (encode_no_from_call x) = Some s" "Some (encode_no_from_call y) = Some t" "s @ r = t @ r'"
  then show "bound_no_from_call x = bound_no_from_call y \<and> r = r'"
    by (cases x; cases y) (auto simp: encode_no_from_call_def bar_def strs_def bound_no_from_call_def)
qed

lemma encode_bound_no_from_call: "encode_no_from_call (bound_no_from_call c) = encode_no_from_call c"
  by (simp add: encode_no_from_call_def bound_no_from_call_def strs_def)

lemma no_from_bound: "fingerprintNoFromInputs (bound_no_from i) = fingerprintNoFromInputs i"
proof -
  have "sorted_texts (sorted_texts xs) = sorted_texts xs" for xs
    by (subst sorted_texts_eq) simp
  moreover have "map encode_no_from_call (map bound_no_from_call cs) = map encode_no_from_call cs" for cs
    by (simp add: encode_bound_no_from_call)
  ultimately show ?thesis
    by (simp add: fingerprintNoFromInputs_def bound_no_from_def jsonEnc_def encode_canon split: option.split del: map_map)
qed

lemma value_read:
  assumes "encodeValue v 0 = Some s" "encodeValue w 0 = Some t" "arg_ok v" "arg_ok w" "s @ CHR ''&'' # r = t @ CHR ''&'' # r'"
  shows "canon v = canon w \<and> r = r'"
  using value_code.unique [OF assms(3,4,1,2,5)] by simp

lemma no_from_unique:
  assumes ok: "no_from_ok i" "no_from_ok j" and f: "fingerprintNoFromInputs i = Some f" "fingerprintNoFromInputs j = Some f"
  shows "bound_no_from i = bound_no_from j"
proof -
  from f(1) obtain g a c e where i: "encodeValue (ni_gasSettings i) 0 = Some g" "encodeValue (ni_authWitnesses i) 0 = Some a"
      "encodeValue (ni_capsules i) 0 = Some c" "encodeValue (ni_extraHashedArgs i) 0 = Some e"
    by (auto simp: fingerprintNoFromInputs_def jsonEnc_def split: option.splits)
  from f(2) obtain g' a' c' e' where j: "encodeValue (ni_gasSettings j) 0 = Some g'" "encodeValue (ni_authWitnesses j) 0 = Some a'"
      "encodeValue (ni_capsules j) 0 = Some c'" "encodeValue (ni_extraHashedArgs j) 0 = Some e'"
    by (auto simp: fingerprintNoFromInputs_def jsonEnc_def split: option.splits)
  let ?calls = "\<lambda>n. counted CHR ''['' CHR '';'' CHR '']'' (map encode_no_from_call (ni_calls n))"
  let ?rest = "\<lambda>n a c e. ''authwits='' @ a @ CHR ''&'' # ''capsules='' @ c @ CHR ''&'' # ''extras='' @ e @ CHR ''&'' # ''scopes='' @ encodeStringArray (sorted_texts (ni_additionalScopes n))"
  from f i j have ids: "ni_networkId i = ni_networkId j" "ni_accountAddress i = ni_accountAddress j" "ni_from i = ni_from j"
    and "g @ CHR ''&'' # ''calls='' @ ?calls i @ CHR ''&'' # ?rest i a c e = g' @ CHR ''&'' # ''calls='' @ ?calls j @ CHR ''&'' # ?rest j a' c' e'"
    by (auto simp: fingerprintNoFromInputs_def jsonEnc_def)
  from value_read [OF i(1) j(1) _ _ this(4)] ok have gas: "canon (ni_gasSettings i) = canon (ni_gasSettings j)"
    and calls: "?calls i @ CHR ''&'' # ?rest i a c e = ?calls j @ CHR ''&'' # ?rest j a' c' e'" by (auto simp: no_from_ok_def)
  from no_from_call_code.counted_unique [OF _ _ _ _ calls, of "ni_calls i" "ni_calls j"]
  have nc: "map bound_no_from_call (ni_calls i) = map bound_no_from_call (ni_calls j)"
    and aut: "a @ CHR ''&'' # ''capsules='' @ c @ CHR ''&'' # ''extras='' @ e @ CHR ''&'' # ''scopes='' @ encodeStringArray (sorted_texts (ni_additionalScopes i))
       = a' @ CHR ''&'' # ''capsules='' @ c' @ CHR ''&'' # ''extras='' @ e' @ CHR ''&'' # ''scopes='' @ encodeStringArray (sorted_texts (ni_additionalScopes j))"
    by (simp_all add: list_all_iff)
  from value_read [OF i(2) j(2) _ _ aut] ok have wit: "canon (ni_authWitnesses i) = canon (ni_authWitnesses j)"
    and cap: "c @ CHR ''&'' # ''extras='' @ e @ CHR ''&'' # ''scopes='' @ encodeStringArray (sorted_texts (ni_additionalScopes i))
       = c' @ CHR ''&'' # ''extras='' @ e' @ CHR ''&'' # ''scopes='' @ encodeStringArray (sorted_texts (ni_additionalScopes j))"
    by (auto simp: no_from_ok_def)
  from value_read [OF i(3) j(3) _ _ cap] ok have cps: "canon (ni_capsules i) = canon (ni_capsules j)"
    and ext: "e @ CHR ''&'' # ''scopes='' @ encodeStringArray (sorted_texts (ni_additionalScopes i))
       = e' @ CHR ''&'' # ''scopes='' @ encodeStringArray (sorted_texts (ni_additionalScopes j))"
    by (auto simp: no_from_ok_def)
  from value_read [OF i(4) j(4) _ _ ext] ok have ex: "canon (ni_extraHashedArgs i) = canon (ni_extraHashedArgs j)"
    and sc: "encodeStringArray (sorted_texts (ni_additionalScopes i)) = encodeStringArray (sorted_texts (ni_additionalScopes j))"
    by (auto simp: no_from_ok_def)
  from sc strings_read [of _ "[]" _ "[]"] have "sorted_texts (ni_additionalScopes i) = sorted_texts (ni_additionalScopes j)" by simp
  with ids gas nc wit cps ex show ?thesis by (cases i; cases j) (simp add: bound_no_from_def)
qed

section \<open>Identity\<close>

text \<open>
  C16. Two operations have the same fingerprint exactly when they agree in the network, the account,
  the execution mode, the sender, the fee options, the fee settings and the sequence of actions, with
  every field of every action: the arguments as values, whatever the order of their properties, and an
  absent flag read as false. The fee fields are joined without their lengths, so they must be free
  of the separators.
\<close>

theorem fingerprint_exact:
  assumes "operation_ok i" "operation_ok j" "fingerprintOperation i = Some f"
  shows "fingerprintOperation j = Some f \<longleftrightarrow> bound_operation i = bound_operation j"
proof
  assume "fingerprintOperation j = Some f"
  with fingerprint_unique [OF assms] show "bound_operation i = bound_operation j" .
next
  assume "bound_operation i = bound_operation j"
  with assms(3) fingerprint_bound [of i] fingerprint_bound [of j] show "fingerprintOperation j = Some f" by simp
qed

definition demo_operation :: "js_arg \<Rightarrow> bool option \<Rightarrow> operation_input" where
  "demo_operation v hide =
     \<lparr>oi_networkId = ''net'', oi_accountAddress = ''0x1'', oi_executionMode = ''standard'', oi_from = ''0x1'',
      oi_actions = [CallAction \<lparr>cp_contract = ''0x2'', cp_method = ''m'', cp_args = [v], cp_hideSender = hide\<rparr>],
      oi_fee = None, oi_feeSettings = \<lparr>fs_paymentMethod = PayFj, fs_priorityLevel = None\<rparr>\<rparr>"

theorem fingerprint_exact_witness:
  "let i = demo_operation (AObj [(''b'', AInt 7), (''a'', ANull)]) None;
       j = demo_operation (AObj [(''a'', ANull), (''b'', AInt 7)]) (Some False);
       k = demo_operation (AObj [(''a'', ANull), (''b'', AStr ''7'')]) None
   in fingerprintOperation i \<noteq> None \<and> fingerprintOperation j = fingerprintOperation i \<and> fingerprintOperation k \<noteq> fingerprintOperation i"
proof -
  let ?i = "demo_operation (AObj [(''b'', AInt 7), (''a'', ANull)]) None"
  let ?j = "demo_operation (AObj [(''a'', ANull), (''b'', AInt 7)]) (Some False)"
  let ?k = "demo_operation (AObj [(''a'', ANull), (''b'', AStr ''7'')]) None"
  have ok: "operation_ok ?i" "operation_ok ?j" "operation_ok ?k"
    by (simp_all add: operation_ok_def demo_operation_def settings_ok_def)
  have "\<exists>f. fingerprintOperation ?i = Some f"
    by (simp add: fingerprintOperation_def demo_operation_def encodeAction_def encodeValue.simps MAX_VALUE_DEPTH_def sort_fields_def)
  then obtain f where f: "fingerprintOperation ?i = Some f" by blast
  have "bound_operation ?i = bound_operation ?j" "bound_operation ?i \<noteq> bound_operation ?k"
    by (simp_all add: bound_operation_def demo_operation_def bound_call_def sort_fields_def code_of_def)
  with fingerprint_exact [OF ok(1,2) f] fingerprint_exact [OF ok(1,3) f] f show ?thesis by auto
qed

text \<open>The same for the identity of an operation without a sender.\<close>

theorem no_from_exact:
  assumes "no_from_ok i" "no_from_ok j" "fingerprintNoFromInputs i = Some f"
  shows "fingerprintNoFromInputs j = Some f \<longleftrightarrow> bound_no_from i = bound_no_from j"
proof
  assume "fingerprintNoFromInputs j = Some f"
  with no_from_unique [OF assms] show "bound_no_from i = bound_no_from j" .
next
  assume "bound_no_from i = bound_no_from j"
  with assms(3) no_from_bound [of i] no_from_bound [of j] show "fingerprintNoFromInputs j = Some f" by simp
qed

text \<open>
  The guard on the fee fields is needed: priority fees that contain the separator are told apart by no
  fingerprint, although the rest of the operation is encoded with lengths.
\<close>

definition fee_split :: "string \<Rightarrow> string \<Rightarrow> fee_options" where
  "fee_split da l2 =
     \<lparr>fo_embeddedFeePayment = None, fo_requestedPayment = False, fo_gasLimits = None, fo_teardownGasLimits = None,
      fo_maxFeesPerGas = None, fo_maxPriorityFeesPerGas = Some (da, l2), fo_gasPadding = None\<rparr>"

theorem fee_fields_collide:
  "fingerprintOperation ((demo_operation ANull None)\<lparr>oi_fee := Some (fee_split ''1:2'' ''3'')\<rparr>)
     = fingerprintOperation ((demo_operation ANull None)\<lparr>oi_fee := Some (fee_split ''1'' ''2:3'')\<rparr>)"
  by (simp add: fingerprintOperation_def demo_operation_def encodeFeeOptions_def fee_split_def pair_text_def)

end
