(* ===== verification/Ttl_Cache.thy ===== *)
theory Ttl_Cache
  imports Js_Value
begin

text \<open>
  The store behind every estimate that waits for its confirmation, \<^verbatim>\<open>execution/estimate-reuse-shared.ts\<close>:
  an entry is read once, and a timer of its own drops it after its time to live. The clock of a call is
  an argument; the timers of the store are part of its state.
\<close>

section \<open>The store\<close>

record 'e ttl_cache =
  tc_cache :: "(string, 'e) jsmap"
  tc_timers :: "(time \<times> string) list"

definition empty_cache :: "'e ttl_cache" where
  "empty_cache = \<lparr>tc_cache = [], tc_timers = []\<rparr>"

definition evictStale :: "('e \<Rightarrow> time) \<Rightarrow> time \<Rightarrow> time \<Rightarrow> 'e ttl_cache \<Rightarrow> 'e ttl_cache" where
  "evictStale builtAt ttlMs now c = c\<lparr>tc_cache := filter (\<lambda>(k, entry). \<not> now - builtAt entry > ttlMs) (tc_cache c)\<rparr>"

definition cache_stash :: "('e \<Rightarrow> time) \<Rightarrow> time \<Rightarrow> time \<Rightarrow> string \<Rightarrow> 'e \<Rightarrow> 'e ttl_cache \<Rightarrow> 'e ttl_cache" where
  "cache_stash builtAt ttlMs now i entry c =
     (let c1 = evictStale builtAt ttlMs now (c\<lparr>tc_cache := js_set i entry (tc_cache c)\<rparr>)
      in c1\<lparr>tc_timers := tc_timers c1 @ [(now + (ttlMs + 1), i)]\<rparr>)"

definition cache_evict :: "string \<Rightarrow> 'e ttl_cache \<Rightarrow> 'e ttl_cache" where
  "cache_evict i c = c\<lparr>tc_cache := js_del i (tc_cache c)\<rparr>"

definition cache_consume :: "string \<Rightarrow> 'e ttl_cache \<Rightarrow> 'e option \<times> 'e ttl_cache" where
  "cache_consume i c = (js_get (tc_cache c) i, cache_evict i c)"

text \<open>The timers that are due at a time run their callbacks, which delete their ids.\<close>

definition cache_fire :: "time \<Rightarrow> 'e ttl_cache \<Rightarrow> 'e ttl_cache" where
  "cache_fire now c =
     \<lparr>tc_cache = js_dels (map snd (filter (\<lambda>(due, i). due \<le> now) (tc_timers c))) (tc_cache c),
      tc_timers = filter (\<lambda>(due, i). \<not> due \<le> now) (tc_timers c)\<rparr>"

text \<open>\<^verbatim>\<open>pendingHashesChanged\<close>: the two sets differ.\<close>

definition pendingHashesChanged :: "string list \<Rightarrow> string list \<Rightarrow> bool" where
  "pendingHashesChanged current cached =
     (let currentSet = js_unique current; cachedSet = js_unique cached
      in length currentSet \<noteq> length cachedSet \<or> list_ex (\<lambda>h. h \<notin> set cachedSet) currentSet)"

lemma pendingHashesChanged_iff: "pendingHashesChanged current cached \<longleftrightarrow> set current \<noteq> set cached"
proof -
  have card: "length (js_unique xs) = card (set xs)" for xs :: "string list"
    using distinct_card [OF distinct_js_unique, of xs] by simp
  have "card (set current) \<noteq> card (set cached) \<or> \<not> set current \<subseteq> set cached \<longleftrightarrow> set current \<noteq> set cached"
    using card_subset_eq [OF List.finite_set, of "set current" cached] by (metis order_refl)
  then show ?thesis by (auto simp: pendingHashesChanged_def Let_def card list_ex_iff)
qed

section \<open>What a client relies on\<close>

text \<open>
  An entry is returned by one take only, and what is held was put there. With one put of an id there
  is at most one successful take of it, whatever is dropped and expires in between.
\<close>

locale one_shot_store =
  fixes wf :: "'s \<Rightarrow> bool" and look :: "'s \<Rightarrow> string \<Rightarrow> 'e option" and put :: "time \<Rightarrow> string \<Rightarrow> 'e \<Rightarrow> 's \<Rightarrow> 's"
    and pop :: "string \<Rightarrow> 's \<Rightarrow> 'e option \<times> 's" and evict :: "string \<Rightarrow> 's \<Rightarrow> 's" and fire :: "time \<Rightarrow> 's \<Rightarrow> 's"
  assumes pop_result: "fst (pop i s) = look s i"
    and look_pop: "look (snd (pop i s)) j = (if j = i then None else look s j)"
    and look_evict: "look (evict i s) j = (if j = i then None else look s j)"
    and look_put: "wf s \<Longrightarrow> look (put now i e s) j = Some x \<Longrightarrow> if j = i then x = e else look s j = Some x"
    and look_fire: "look (fire now s) j = Some x \<Longrightarrow> look s j = Some x"
    and wf_pop: "wf s \<Longrightarrow> wf (snd (pop i s))" and wf_evict: "wf s \<Longrightarrow> wf (evict i s)"
    and wf_put: "wf s \<Longrightarrow> wf (put now i e s)" and wf_fire: "wf s \<Longrightarrow> wf (fire now s)"
begin

definition held :: "'s \<Rightarrow> string \<Rightarrow> nat" where
  "held s i = (if look s i = None then 0 else 1)"

lemma held_pop: "held (snd (pop i s)) j + (if j = i \<and> fst (pop i s) \<noteq> None then 1 else 0) = held s j"
  by (simp add: held_def look_pop pop_result)

lemma held_put: "wf s \<Longrightarrow> held (put now i e s) j \<le> held s j + (if j = i then 1 else 0)"
  using look_put [of s now i e j] by (fastforce simp: held_def split: if_splits)

lemma held_evict: "held (evict i s) j \<le> held s j"
  by (simp add: held_def look_evict)

lemma held_fire: "held (fire now s) j \<le> held s j"
  using look_fire [of now s j] by (fastforce simp: held_def)

text \<open>What holds of every entry a client has put holds of every entry it finds.\<close>

definition every :: "(string \<Rightarrow> 'e \<Rightarrow> bool) \<Rightarrow> 's \<Rightarrow> bool" where
  "every P s \<longleftrightarrow> (\<forall>i x. look s i = Some x \<longrightarrow> P i x)"

lemma every_put: "wf s \<Longrightarrow> every P s \<Longrightarrow> P i e \<Longrightarrow> every P (put now i e s)"
  unfolding every_def using look_put [of s now i e] by (metis (full_types))

lemma every_pop: "every P s \<Longrightarrow> every P (snd (pop i s))"
  by (simp add: every_def look_pop)

lemma every_evict: "every P s \<Longrightarrow> every P (evict i s)"
  by (simp add: every_def look_evict)

lemma every_fire: "every P s \<Longrightarrow> every P (fire now s)"
  using look_fire [of now s] by (auto simp: every_def)

lemma every_popD: "every P s \<Longrightarrow> fst (pop i s) = Some x \<Longrightarrow> P i x"
  by (simp add: every_def pop_result)

lemma every_mono: "every P s \<Longrightarrow> (\<And>i x. P i x \<Longrightarrow> Q i x) \<Longrightarrow> every Q s"
  by (simp add: every_def)

end

section \<open>The laws of the store\<close>

definition cache_wf :: "'e ttl_cache \<Rightarrow> bool" where
  "cache_wf c \<longleftrightarrow> distinct (js_keys (tc_cache c))"

definition cache_get :: "'e ttl_cache \<Rightarrow> string \<Rightarrow> 'e option" where
  "cache_get c i = js_get (tc_cache c) i"

lemma get_stash:
  assumes "cache_wf c"
  shows "cache_get (cache_stash builtAt ttlMs now i e c) j =
    (case if j = i then Some e else cache_get c j of None \<Rightarrow> None | Some x \<Rightarrow> if now - builtAt x > ttlMs then None else Some x)"
proof -
  have "distinct (js_keys (js_set i e (tc_cache c)))" using assms unfolding cache_wf_def by blast
  from js_get_filter [OF this, of "\<lambda>(k, entry). \<not> now - builtAt entry > ttlMs" j]
  show ?thesis by (auto simp: cache_get_def cache_stash_def evictStale_def Let_def map_simps split: option.splits if_splits)
qed

interpretation ttl: one_shot_store cache_wf cache_get "cache_stash builtAt ttlMs" cache_consume cache_evict cache_fire for builtAt ttlMs
proof
  fix c :: "'a ttl_cache" and i e now
  assume "cache_wf c"
  then show "cache_wf (cache_stash builtAt ttlMs now i e c)"
    by (auto simp: cache_wf_def cache_stash_def evictStale_def Let_def intro: distinct_filter_keys)
next
  fix c :: "'a ttl_cache" and i e j x now
  assume "cache_wf c" "cache_get (cache_stash builtAt ttlMs now i e c) j = Some x"
  then show "if j = i then x = e else cache_get c j = Some x" by (auto simp: get_stash split: option.splits if_splits)
qed (auto simp: cache_get_def cache_consume_def cache_evict_def cache_fire_def cache_wf_def map_simps split: if_splits)

section \<open>Retention\<close>

text \<open>Every entry has a timer that drops it, no later than its time to live after it was stashed.\<close>

definition timed :: "time \<Rightarrow> 'e ttl_cache \<Rightarrow> bool" where
  "timed until c \<longleftrightarrow> (\<forall>i x. cache_get c i = Some x \<longrightarrow> (\<exists>due. (due, i) \<in> set (tc_timers c) \<and> due \<le> until))"

datatype 'e store_call = StoreStash time string 'e | StoreConsume string | StoreEvict string | StoreFire time

fun store_step :: "('e \<Rightarrow> time) \<Rightarrow> time \<Rightarrow> 'e store_call \<Rightarrow> 'e ttl_cache \<Rightarrow> 'e ttl_cache" where
  "store_step builtAt ttlMs (StoreStash now i e) c = cache_stash builtAt ttlMs now i e c"
| "store_step builtAt ttlMs (StoreConsume i) c = snd (cache_consume i c)"
| "store_step builtAt ttlMs (StoreEvict i) c = cache_evict i c"
| "store_step builtAt ttlMs (StoreFire now) c = cache_fire now c"

definition store_run :: "('e \<Rightarrow> time) \<Rightarrow> time \<Rightarrow> 'e store_call list \<Rightarrow> 'e ttl_cache" where
  "store_run builtAt ttlMs cs = fold (store_step builtAt ttlMs) cs empty_cache"

text \<open>The calls of a store up to a time.\<close>

fun stashed_by :: "time \<Rightarrow> 'e store_call \<Rightarrow> bool" where
  "stashed_by t (StoreStash now i e) = (now \<le> t)"
| "stashed_by t _ = True"

lemma timed_step:
  assumes "cache_wf c" "timed (t + (ttlMs + 1)) c" "stashed_by t k"
  shows "timed (t + (ttlMs + 1)) (store_step builtAt ttlMs k c)"
proof (cases k)
  case (StoreStash now i e)
  have "tc_timers (cache_stash builtAt ttlMs now i e c) = tc_timers c @ [(now + (ttlMs + 1), i)]"
    by (simp add: cache_stash_def evictStale_def Let_def)
  with StoreStash assms show ?thesis by (fastforce simp: timed_def get_stash split: option.splits if_splits)
next
  case (StoreFire now)
  then show ?thesis
    using assms(2) by (fastforce simp: timed_def cache_fire_def cache_get_def map_simps image_iff split: if_splits)
qed (use assms in \<open>auto simp: timed_def cache_consume_def cache_evict_def cache_get_def map_simps\<close>)

theorem cache_retention:
  assumes "list_all (stashed_by t) cs" "t + (ttlMs + 1) \<le> now"
  shows "tc_cache (cache_fire now (store_run builtAt ttlMs cs)) = []"
proof -
  have wf: "cache_wf (store_step builtAt ttlMs k c)" if "cache_wf c" for k and c :: "'a ttl_cache"
    using that by (cases k) (auto intro: ttl.wf_put ttl.wf_pop ttl.wf_evict ttl.wf_fire)
  have "cache_wf (store_run builtAt ttlMs cs) \<and> timed (t + (ttlMs + 1)) (store_run builtAt ttlMs cs)"
    using assms(1)
  proof (induction cs rule: rev_induct)
    case Nil
    then show ?case by (simp add: store_run_def empty_cache_def cache_wf_def timed_def cache_get_def)
  next
    case (snoc k cs)
    then show ?case using wf timed_step by (auto simp: store_run_def)
  qed
  then have none: "cache_get (cache_fire now (store_run builtAt ttlMs cs)) i = None" for i
    using assms(2) by (fastforce simp: timed_def cache_fire_def cache_get_def map_simps image_iff split: option.splits)
  then show ?thesis by (simp add: cache_get_def map_of_eq_None_iff) (metis list.set_intros(1) image_eqI neq_Nil_conv equals0D none)
qed

end
