(* ===== verification/Estimate_Reuse.thy ===== *)
theory Estimate_Reuse
  imports Fingerprint Ttl_Cache
begin

text \<open>
  Reusing on confirmation what was built and signed for an estimate: the transfer cache
  (\<^verbatim>\<open>execution/transfer-estimate-reuse.ts\<close>), the operation cache (\<^verbatim>\<open>execution/operation-estimate-reuse.ts\<close>),
  the fee basis (\<^verbatim>\<open>predictedWorstMinFees\<close>), the previews (\<^verbatim>\<open>execution/preview-snapshots.ts\<close>) and their use by
  \<^verbatim>\<open>dapp-send-executor.ts\<close>. What a call asks its dependencies is a record of their answers, each read at
  the point where the code awaits it; what a build carries beyond the checked fields is a type parameter.
\<close>

section \<open>Fee basis\<close>

type_synonym fees = "int \<times> int"

record node_error =
  ne_code :: "int option"
  ne_message :: string

text \<open>A node: its prediction, \<^term>\<open>None\<close> without that method, and its current fees.\<close>

record min_fee_node =
  mn_predicted :: "(node_error + fees list) option"
  mn_current :: "node_error + fees"

fun contains_text :: "string \<Rightarrow> string \<Rightarrow> bool" where
  "contains_text [] t \<longleftrightarrow> t = []"
| "contains_text (c # s) t \<longleftrightarrow> take (length t) (c # s) = t \<or> contains_text s t"

definition method_missing :: "node_error \<Rightarrow> bool" where
  "method_missing e \<longleftrightarrow> ne_code e = Some (-32601) \<or> contains_text (js_lower (ne_message e)) ''method not found''"

definition worst_of :: "fees \<Rightarrow> fees \<Rightarrow> fees" where
  "worst_of f w = (if fst f > fst w then fst f else fst w, if snd f > snd w then snd f else snd w)"

definition predictedWorstMinFees :: "min_fee_node \<Rightarrow> node_error + fees" where
  "predictedWorstMinFees node =
     (case mn_predicted node of
        None \<Rightarrow> mn_current node
      | Some (Inl e) \<Rightarrow> if method_missing e then mn_current node else Inl e
      | Some (Inr []) \<Rightarrow> mn_current node
      | Some (Inr (first # rest)) \<Rightarrow> Inr (fold worst_of (first # rest) first))"

definition fingerprintBaseFee :: "fees \<Rightarrow> string" where
  "fingerprintBaseFee basis = int_dec (fst basis) @ CHR '':'' # int_dec (snd basis)"

fun PRIORITY_MULTIPLIERS :: "priority_level \<Rightarrow> 'm :: numeral" where
  "PRIORITY_MULTIPLIERS PriorityNormal = 2"
| "PRIORITY_MULTIPLIERS PriorityFast = 3"
| "PRIORITY_MULTIPLIERS PriorityUrgent = 5"

text \<open>\<^verbatim>\<open>GasFees.mul\<close> is the library's, and the default multiplier is set when the wallet is built.\<close>

record 'm fee_rules =
  fr_mul :: "fees \<Rightarrow> 'm \<Rightarrow> fees"
  fr_default :: 'm

definition multiplier_of :: "('m :: numeral) fee_rules \<Rightarrow> priority_level option \<Rightarrow> 'm" where
  "multiplier_of rules level = (case level of None \<Rightarrow> fr_default rules | Some l \<Rightarrow> PRIORITY_MULTIPLIERS l)"

section \<open>Dependencies\<close>

definition ESTIMATE_REUSE_TTL_MS :: time where
  "ESTIMATE_REUSE_TTL_MS = 120000"

record endpoint =
  en_id :: string
  en_rpcUrl :: string

record network =
  nw_chainId :: int
  nw_primaryEndpointId :: string
  nw_endpoints :: "endpoint list"

datatype fpc_type = DefaultSponsoredFpc | PrivateFpc

record fpc_info =
  fi_id :: string
  fi_type :: fpc_type
  fi_address :: string
  fi_chainId :: int
  fi_isProtocol :: "bool option"

record fpc_identity =
  fx_id :: string
  fx_type :: fpc_type
  fx_address :: string
  fx_chainId :: int
  fx_isProtocol :: bool

record 'm reuse_deps =
  rd_now :: time
  rd_getNetwork :: "string \<Rightarrow> string + network"
  rd_getNode :: "int \<Rightarrow> string + min_fee_node"
  rd_getLiveChainIdentity :: "network \<Rightarrow> string + int \<times> int"
  rd_getFpcInfo :: "string \<Rightarrow> string + fpc_info"
  rd_getPendingForAccount :: "string \<Rightarrow> string list"
  rd_rules :: "'m fee_rules"

text \<open>\<^verbatim>\<open>network.endpoints.find((e) => e.id === network.primaryEndpointId)\<close>\<close>

definition primary_of :: "network \<Rightarrow> endpoint option" where
  "primary_of n = find (\<lambda>e. en_id e = nw_primaryEndpointId n) (nw_endpoints n)"

text \<open>
  What \<^verbatim>\<open>tryConsume\<close> does: it returns the entry, or undefined with the reason it logs, or it throws because
  the session ended or because a dependency did.
\<close>

datatype 'e reuse_outcome = Hit 'e | Miss string | SessionEnded | Escaped string

section \<open>Transfers\<close>

datatype transfer_type = TransferPrivate | TransferPrivateToPublic | TransferPublic | TransferPublicToPrivate

record transfer_request =
  tr_networkId :: string
  tr_accountAddress :: string
  tr_tokenId :: int
  tr_transferType :: transfer_type
  tr_recipientAddress :: string
  tr_amount :: int
  tr_feeSettings :: fee_settings

record 'b transfer_entry =
  te_networkId :: string
  te_accountAddress :: string
  te_tokenId :: int
  te_transferType :: transfer_type
  te_recipientAddress :: string
  te_amount :: int
  te_feeSettingsHash :: string
  te_profileId :: string
  te_baseFeeFingerprint :: string
  te_primaryEndpointId :: string
  te_primaryEndpointUrl :: string
  te_pendingHashes :: "string list"
  te_built :: 'b
  te_builtAt :: time

definition transfer_drift :: "transfer_request \<Rightarrow> 'b transfer_entry \<Rightarrow> bool" where
  "transfer_drift inputs entry \<longleftrightarrow>
     te_networkId entry \<noteq> tr_networkId inputs \<or> te_accountAddress entry \<noteq> tr_accountAddress inputs
     \<or> te_tokenId entry \<noteq> tr_tokenId inputs \<or> te_transferType entry \<noteq> tr_transferType inputs
     \<or> te_recipientAddress entry \<noteq> tr_recipientAddress inputs \<or> te_amount entry \<noteq> tr_amount inputs
     \<or> te_feeSettingsHash entry \<noteq> fingerprintFeeSettings (tr_feeSettings inputs)"

definition transfer_pending :: "'m reuse_deps \<Rightarrow> transfer_request \<Rightarrow> 'b transfer_entry \<Rightarrow> 'b transfer_entry reuse_outcome" where
  "transfer_pending deps inputs entry =
     (if pendingHashesChanged (rd_getPendingForAccount deps (tr_accountAddress inputs)) (te_pendingHashes entry)
      then Miss ''pending tx set changed''
      else Hit entry)"

definition transfer_base_fee ::
    "('m :: numeral) reuse_deps \<Rightarrow> transfer_request \<Rightarrow> min_fee_node \<Rightarrow> 'b transfer_entry \<Rightarrow> 'b transfer_entry reuse_outcome" where
  "transfer_base_fee deps inputs node entry =
     (case predictedWorstMinFees node of
        Inl e \<Rightarrow> Miss (''base fee fetch failed: '' @ ne_message e)
      | Inr basis \<Rightarrow>
          if fingerprintBaseFee (fr_mul (rd_rules deps) basis (multiplier_of (rd_rules deps) (fs_priorityLevel (tr_feeSettings inputs)))) \<noteq> te_baseFeeFingerprint entry
          then Miss ''base fee changed''
          else transfer_pending deps inputs entry)"

definition transfer_ladder ::
    "('m :: numeral) reuse_deps \<Rightarrow> transfer_request \<Rightarrow> string \<Rightarrow> 'b transfer_entry \<Rightarrow> 'b transfer_entry reuse_outcome" where
  "transfer_ladder deps inputs fenceProfileId entry =
     (if rd_now deps - te_builtAt entry > ESTIMATE_REUSE_TTL_MS then Miss ''stale (TTL)''
      else if transfer_drift inputs entry then Miss ''input drift''
      else if te_profileId entry \<noteq> fenceProfileId then SessionEnded
      else case rd_getNetwork deps (tr_networkId inputs) of
        Inl e \<Rightarrow> Escaped e
      | Inr network \<Rightarrow>
          (case primary_of network of
             None \<Rightarrow> Miss ''no primary endpoint''
           | Some primary \<Rightarrow>
               if en_id primary \<noteq> te_primaryEndpointId entry \<or> en_rpcUrl primary \<noteq> te_primaryEndpointUrl entry
               then Miss ''primary endpoint changed''
               else case rd_getNode deps (nw_chainId network) of
                      Inl e \<Rightarrow> Escaped e
                    | Inr node \<Rightarrow> transfer_base_fee deps inputs node entry))"

definition tryConsume_transfer ::
    "('m :: numeral) reuse_deps \<Rightarrow> string \<Rightarrow> transfer_request \<Rightarrow> string \<Rightarrow> 'b transfer_entry ttl_cache \<Rightarrow> 'b transfer_entry reuse_outcome \<times> 'b transfer_entry ttl_cache" where
  "tryConsume_transfer deps estimateId inputs fenceProfileId cache =
     (case cache_consume estimateId cache of
        (None, c) \<Rightarrow> (Miss [], c)
      | (Some entry, c) \<Rightarrow> (transfer_ladder deps inputs fenceProfileId entry, c))"

text \<open>
  The stash at the end of \<^verbatim>\<open>estimateFee\<close>: only fee juice and sponsored fees are reusable, and any failure
  on the way leaves the cache alone.
\<close>

definition stashTransferEstimate ::
    "'m reuse_deps \<Rightarrow> string + string option \<Rightarrow> transfer_request \<Rightarrow> network \<Rightarrow> fees \<Rightarrow> 'b \<Rightarrow> 'b transfer_entry option" where
  "stashTransferEstimate deps activeProfile req network builtFees rest =
     (if \<not> (case fs_paymentMethod (tr_feeSettings req) of PayFj \<Rightarrow> True | PayFpc _ \<Rightarrow> True | _ \<Rightarrow> False) then None
      else case (primary_of network, activeProfile) of
        (Some primary, Inr (Some profileId)) \<Rightarrow>
          Some \<lparr>te_networkId = tr_networkId req, te_accountAddress = tr_accountAddress req, te_tokenId = tr_tokenId req,
                te_transferType = tr_transferType req, te_recipientAddress = tr_recipientAddress req, te_amount = tr_amount req,
                te_feeSettingsHash = fingerprintFeeSettings (tr_feeSettings req), te_profileId = profileId,
                te_baseFeeFingerprint = fingerprintBaseFee builtFees,
                te_primaryEndpointId = en_id primary, te_primaryEndpointUrl = en_rpcUrl primary,
                te_pendingHashes = rd_getPendingForAccount deps (tr_accountAddress req), te_built = rest, te_builtAt = rd_now deps\<rparr>
      | _ \<Rightarrow> None)"

section \<open>Operations\<close>

record 'b operation_entry =
  oe_fingerprint :: string
  oe_accountAddress :: string
  oe_networkId :: string
  oe_feeSettings :: fee_settings
  oe_profileId :: string
  oe_baseFeeFingerprint :: string
  oe_primaryEndpointId :: string
  oe_primaryEndpointUrl :: string
  oe_pendingHashes :: "string list"
  oe_chainIdentity :: "int \<times> int"
  oe_fpcIdentity :: "fpc_identity option"
  oe_built :: 'b
  oe_discoveredHashes :: "string list"
  oe_builtAt :: time

definition fpcIdentityDrift :: "'m reuse_deps \<Rightarrow> fpc_identity \<Rightarrow> string option" where
  "fpcIdentityDrift deps snap =
     (case rd_getFpcInfo deps (fx_id snap) of
        Inl e \<Rightarrow> Some (''fpc row unavailable: '' @ e)
      | Inr fresh \<Rightarrow>
          if fi_type fresh \<noteq> fx_type snap \<or> fi_address fresh \<noteq> fx_address snap \<or> fi_chainId fresh \<noteq> fx_chainId snap
             \<or> or_else (fi_isProtocol fresh) False \<noteq> fx_isProtocol snap
          then Some ''fpc identity drift'' else None)"

definition operation_base_fee ::
    "('m :: numeral) reuse_deps \<Rightarrow> network \<Rightarrow> 'b operation_entry \<Rightarrow> 'b operation_entry reuse_outcome" where
  "operation_base_fee deps network entry =
     (case rd_getNode deps (nw_chainId network) of
        Inl e \<Rightarrow> Escaped e
      | Inr node \<Rightarrow>
          (case predictedWorstMinFees node of
             Inl e \<Rightarrow> Escaped (ne_message e)
           | Inr basis \<Rightarrow>
               if fingerprintBaseFee (fr_mul (rd_rules deps) basis (multiplier_of (rd_rules deps) (fs_priorityLevel (oe_feeSettings entry)))) \<noteq> oe_baseFeeFingerprint entry
               then Miss ''base fee drift''
               else Hit entry))"

definition operation_chain ::
    "('m :: numeral) reuse_deps \<Rightarrow> network \<Rightarrow> 'b operation_entry \<Rightarrow> 'b operation_entry reuse_outcome" where
  "operation_chain deps network entry =
     (case rd_getLiveChainIdentity deps network of
        Inl e \<Rightarrow> Miss (''chain identity drift: '' @ e)
      | Inr live \<Rightarrow>
          if fst live \<noteq> fst (oe_chainIdentity entry) \<or> snd live \<noteq> snd (oe_chainIdentity entry)
          then Miss ''chain identity drift (exact pair mismatch)''
          else case Option.bind (oe_fpcIdentity entry) (fpcIdentityDrift deps) of
                 Some reason \<Rightarrow> Miss reason
               | None \<Rightarrow> operation_base_fee deps network entry)"

definition operation_ladder ::
    "('m :: numeral) reuse_deps \<Rightarrow> operation_input \<Rightarrow> string \<Rightarrow> 'b operation_entry \<Rightarrow> 'b operation_entry reuse_outcome" where
  "operation_ladder deps input fenceProfileId entry =
     (if rd_now deps - oe_builtAt entry > ESTIMATE_REUSE_TTL_MS then Miss ''entry expired''
      else if fingerprintOperation input \<noteq> Some (oe_fingerprint entry) then Miss ''operation fingerprint drift''
      else if oe_profileId entry \<noteq> fenceProfileId then SessionEnded
      else case rd_getNetwork deps (oe_networkId entry) of
        Inl e \<Rightarrow> Escaped e
      | Inr network \<Rightarrow>
          if (case primary_of network of None \<Rightarrow> True
              | Some primary \<Rightarrow> en_id primary \<noteq> oe_primaryEndpointId entry \<or> en_rpcUrl primary \<noteq> oe_primaryEndpointUrl entry)
          then Miss ''primary endpoint changed''
          else if pendingHashesChanged (rd_getPendingForAccount deps (oe_accountAddress entry)) (oe_pendingHashes entry)
          then Miss ''pending tx set changed''
          else operation_chain deps network entry)"

definition tryConsume_operation ::
    "('m :: numeral) reuse_deps \<Rightarrow> string \<Rightarrow> operation_input \<Rightarrow> string \<Rightarrow> 'b operation_entry ttl_cache \<Rightarrow> 'b operation_entry reuse_outcome \<times> 'b operation_entry ttl_cache" where
  "tryConsume_operation deps estimateId input fenceProfileId cache =
     (case cache_consume estimateId cache of
        (None, c) \<Rightarrow> (Miss [], c)
      | (Some entry, c) \<Rightarrow> (operation_ladder deps input fenceProfileId entry, c))"

text \<open>The stash of an estimate that may be reused. Any failure on the way leaves the cache alone.\<close>

record 'b built_operation =
  bo_network :: network
  bo_chainIdentity :: "int \<times> int"
  bo_maxFeesPerGas :: fees
  bo_rest :: 'b

definition reuse_eligible :: "bool \<Rightarrow> operation_input \<Rightarrow> bool" where
  "reuse_eligible sendTx identity \<longleftrightarrow> sendTx \<and> oi_executionMode identity \<noteq> ''default_entrypoint''
     \<and> (case oi_fee identity of None \<Rightarrow> True | Some f \<Rightarrow> fo_embeddedFeePayment f = None \<and> fo_maxFeesPerGas f = None)
     \<and> (case fs_paymentMethod (oi_feeSettings identity) of PayFj \<Rightarrow> True | PayFpc _ \<Rightarrow> True | _ \<Rightarrow> False)"

definition resolve_fpc :: "'m reuse_deps \<Rightarrow> fee_settings \<Rightarrow> string + fpc_identity option" where
  "resolve_fpc deps settings =
     (case fs_paymentMethod settings of
        PayFpc fpcId \<Rightarrow>
          and_then (rd_getFpcInfo deps fpcId) (\<lambda>info.
            Inr (Some \<lparr>fx_id = fi_id info, fx_type = fi_type info, fx_address = fi_address info, fx_chainId = fi_chainId info,
                       fx_isProtocol = or_else (fi_isProtocol info) False\<rparr>))
      | _ \<Rightarrow> Inr None)"

definition stashOperationEstimate ::
    "'m reuse_deps \<Rightarrow> bool \<Rightarrow> string + string option \<Rightarrow> operation_input \<Rightarrow> 'b built_operation \<Rightarrow> string list \<Rightarrow> 'b operation_entry option" where
  "stashOperationEstimate deps sendTx activeProfile identity built discoveredHashes =
     (if \<not> reuse_eligible sendTx identity then None
      else case (fingerprintOperation identity, primary_of (bo_network built), activeProfile, resolve_fpc deps (oi_feeSettings identity)) of
        (Some fingerprint, Some primary, Inr (Some profileId), Inr fpcIdentity) \<Rightarrow>
          Some \<lparr>oe_fingerprint = fingerprint, oe_accountAddress = oi_accountAddress identity, oe_networkId = oi_networkId identity,
                oe_feeSettings = oi_feeSettings identity, oe_profileId = profileId,
                oe_baseFeeFingerprint = fingerprintBaseFee (bo_maxFeesPerGas built),
                oe_primaryEndpointId = en_id primary, oe_primaryEndpointUrl = en_rpcUrl primary,
                oe_pendingHashes = rd_getPendingForAccount deps (oi_accountAddress identity),
                oe_chainIdentity = bo_chainIdentity built, oe_fpcIdentity = fpcIdentity, oe_built = bo_rest built,
                oe_discoveredHashes = discoveredHashes, oe_builtAt = rd_now deps\<rparr>
      | _ \<Rightarrow> None)"

section \<open>Previews\<close>

record preview_snapshot =
  ps_interactionId :: string
  ps_index :: int
  ps_fingerprint :: "string option"
  ps_discoveredHashes :: "string list"
  ps_builtAt :: time

datatype preview_lookup = Found preview_snapshot | MissingPreview | ForeignPreview

datatype preview_error = AuthwitsChanged | EstimateIncomplete | PreviewForeign

definition given_id :: "string option \<Rightarrow> string option" where
  "given_id i = (case i of Some (c # s) \<Rightarrow> i | _ \<Rightarrow> None)"

definition take_preview ::
    "time \<Rightarrow> string option \<Rightarrow> string \<Rightarrow> int \<Rightarrow> string option \<Rightarrow> preview_snapshot ttl_cache \<Rightarrow> preview_lookup \<times> preview_snapshot ttl_cache" where
  "take_preview now previewId interactionId index fingerprint cache =
     (case given_id previewId of
        None \<Rightarrow> (MissingPreview, cache)
      | Some i \<Rightarrow>
          (case cache_consume i cache of
             (None, c) \<Rightarrow> (MissingPreview, c)
           | (Some snapshot, c) \<Rightarrow>
               if now - ps_builtAt snapshot > ESTIMATE_REUSE_TTL_MS then (MissingPreview, c)
               else if ps_interactionId snapshot \<noteq> interactionId \<or> ps_index snapshot \<noteq> index
                 \<or> \<not> (ps_fingerprint snapshot = None \<or> fingerprint = None \<or> ps_fingerprint snapshot = fingerprint)
               then (ForeignPreview, c)
               else (Found snapshot, c)))"

definition assertWithinPreview :: "preview_lookup \<Rightarrow> string list \<Rightarrow> preview_error + unit" where
  "assertWithinPreview lookup recomputedHashes =
     (case lookup of
        ForeignPreview \<Rightarrow> Inl PreviewForeign
      | MissingPreview \<Rightarrow> require_e (recomputedHashes = []) EstimateIncomplete
      | Found snapshot \<Rightarrow> each_e (\<lambda>hash. require_e (hash \<in> set (ps_discoveredHashes snapshot)) AuthwitsChanged) recomputedHashes)"

section \<open>Confirmation\<close>

record approval_envelope =
  ap_interactionId :: string
  ap_index :: int
  ap_estimateId :: "string option"
  ap_previewId :: "string option"

definition assertEstimateBinding :: "approval_envelope \<Rightarrow> preview_error + unit" where
  "assertEstimateBinding approval = require_e (ap_estimateId approval = None \<or> ap_previewId approval = ap_estimateId approval) PreviewForeign"

text \<open>
  The caches of the execution service, with a log of the entries reused, and what they were checked
  against, and of the authorizations each approval confirmed.
\<close>

record ('b, 'm) estimate_caches =
  ec_transfer :: "'b transfer_entry ttl_cache"
  ec_operation :: "'b operation_entry ttl_cache"
  ec_preview :: "preview_snapshot ttl_cache"
  ec_used :: "(string \<times> operation_input \<times> string \<times> 'm reuse_deps \<times> 'b operation_entry) list"
  ec_signed :: "(approval_envelope \<times> string list) list"

definition empty_caches :: "('b, 'm) estimate_caches" where
  "empty_caches = \<lparr>ec_transfer = empty_cache, ec_operation = empty_cache, ec_preview = empty_cache, ec_used = [], ec_signed = []\<rparr>"

definition snapshot_of :: "time \<Rightarrow> string \<times> int \<Rightarrow> string option \<Rightarrow> string list \<Rightarrow> preview_snapshot" where
  "snapshot_of now preview fingerprint discoveredHashes =
     \<lparr>ps_interactionId = fst preview, ps_index = snd preview, ps_fingerprint = fingerprint,
      ps_discoveredHashes = discoveredHashes, ps_builtAt = now\<rparr>"

definition writePreview :: "time \<Rightarrow> string \<Rightarrow> string \<times> int \<Rightarrow> string option \<Rightarrow> string list \<Rightarrow> ('b, 'm) estimate_caches \<Rightarrow> ('b, 'm) estimate_caches" where
  "writePreview now previewId preview fingerprint discoveredHashes c =
     c\<lparr>ec_preview := cache_stash ps_builtAt ESTIMATE_REUSE_TTL_MS now previewId (snapshot_of now preview fingerprint discoveredHashes) (ec_preview c)\<rparr>"

text \<open>The end of \<^verbatim>\<open>estimateOperationFee\<close>, with the two ids \<^verbatim>\<open>crypto.randomUUID\<close> would return.\<close>

definition estimate_stashed ::
    "'m reuse_deps \<Rightarrow> string \<Rightarrow> string \<Rightarrow> bool \<Rightarrow> string + string option \<Rightarrow> operation_input \<Rightarrow> 'b built_operation \<Rightarrow> string list \<Rightarrow> (string \<times> int) option
       \<Rightarrow> ('b, 'm) estimate_caches \<Rightarrow> ('b, 'm) estimate_caches" where
  "estimate_stashed deps uuid uuid' sendTx activeProfile identity built discoveredHashes preview c =
     (let entry = stashOperationEstimate deps sendTx activeProfile identity built discoveredHashes;
          c1 = (case entry of
                  None \<Rightarrow> c
                | Some e \<Rightarrow> c\<lparr>ec_operation := cache_stash oe_builtAt ESTIMATE_REUSE_TTL_MS (rd_now deps) uuid e (ec_operation c)\<rparr>);
          previewId = (case entry of None \<Rightarrow> uuid' | Some _ \<Rightarrow> uuid)
      in case preview of
           Some p \<Rightarrow> if sendTx then writePreview (rd_now deps) previewId p (fingerprintOperation identity) discoveredHashes c1 else c1
         | None \<Rightarrow> c1)"

definition evict_everywhere :: "string \<Rightarrow> ('b, 'm) estimate_caches \<Rightarrow> ('b, 'm) estimate_caches" where
  "evict_everywhere estimateId c =
     c\<lparr>ec_transfer := cache_evict estimateId (ec_transfer c), ec_operation := cache_evict estimateId (ec_operation c),
       ec_preview := cache_evict estimateId (ec_preview c)\<rparr>"

datatype confirm_error = PreviewRefused preview_error | ConfirmSessionEnded | ConfirmFailed string

text \<open>
  \<^verbatim>\<open>resolveStandardBuild\<close>. The live handles are looked up again for a reused entry; a fresh build runs
  without discovery when the request pays its own fee and with it otherwise.
\<close>

definition resolveStandardBuild ::
    "('m :: numeral) reuse_deps \<Rightarrow> operation_input \<Rightarrow> string option \<Rightarrow> string \<Rightarrow> string + unit \<Rightarrow> string + 'b \<Rightarrow> string + 'b \<times> string list
       \<Rightarrow> ('b, 'm) estimate_caches \<Rightarrow> (confirm_error + 'b \<times> string list) \<times> ('b, 'm) estimate_caches" where
  "resolveStandardBuild deps identity estimateId fenceProfileId handles validated discovering c =
     (let fresh = (if (case oi_fee identity of None \<Rightarrow> False | Some f \<Rightarrow> fo_embeddedFeePayment f \<noteq> None)
                   then map_sum ConfirmFailed (\<lambda>b. (b, [])) validated
                   else map_sum ConfirmFailed id discovering)
      in case given_id estimateId of
           None \<Rightarrow> (fresh, c)
         | Some i \<Rightarrow>
             (case tryConsume_operation deps i identity fenceProfileId (ec_operation c) of
                (Hit e, oc) \<Rightarrow>
                  (map_sum ConfirmFailed (\<lambda>_. (oe_built e, oe_discoveredHashes e)) handles,
                   c\<lparr>ec_operation := oc, ec_used := (i, identity, fenceProfileId, deps, e) # ec_used c\<rparr>)
              | (Miss reason, oc) \<Rightarrow> (fresh, c\<lparr>ec_operation := oc\<rparr>)
              | (SessionEnded, oc) \<Rightarrow> (Inl ConfirmSessionEnded, c\<lparr>ec_operation := oc\<rparr>)
              | (Escaped e, oc) \<Rightarrow> (Inl (ConfirmFailed e), c\<lparr>ec_operation := oc\<rparr>)))"

text \<open>The guarded part of \<^verbatim>\<open>executeAztecSendTx\<close>; a silent execution has no envelope and is not held to a preview.\<close>

definition confirm_standard ::
    "('m :: numeral) reuse_deps \<Rightarrow> approval_envelope option \<Rightarrow> operation_input \<Rightarrow> string \<Rightarrow> string + unit \<Rightarrow> string + 'b \<Rightarrow> string + 'b \<times> string list
       \<Rightarrow> ('b, 'm) estimate_caches \<Rightarrow> (confirm_error + 'b \<times> string list) \<times> ('b, 'm) estimate_caches" where
  "confirm_standard deps approval identity fenceProfileId handles validated discovering c =
     (case approval of
        None \<Rightarrow> resolveStandardBuild deps identity None fenceProfileId handles validated discovering c
      | Some a \<Rightarrow>
          (case assertEstimateBinding a of
             Inl e \<Rightarrow> (Inl (PreviewRefused e), c)
           | Inr _ \<Rightarrow>
               (case take_preview (rd_now deps) (ap_previewId a) (ap_interactionId a) (ap_index a) (fingerprintOperation identity) (ec_preview c) of
                  (ForeignPreview, pc) \<Rightarrow> (Inl (PreviewRefused PreviewForeign), c\<lparr>ec_preview := pc\<rparr>)
                | (lookup, pc) \<Rightarrow>
                    (let reuseId = (case lookup of Found _ \<Rightarrow> ap_estimateId a | _ \<Rightarrow> None)
                     in case resolveStandardBuild deps identity reuseId fenceProfileId handles validated discovering (c\<lparr>ec_preview := pc\<rparr>) of
                          (Inl e, c1) \<Rightarrow> (Inl e, c1)
                        | (Inr (b, hashes), c1) \<Rightarrow>
                            (case assertWithinPreview lookup hashes of
                               Inl e \<Rightarrow> (Inl (PreviewRefused e), c1)
                             | Inr _ \<Rightarrow> (Inr (b, hashes), c1\<lparr>ec_signed := (a, hashes) # ec_signed c1\<rparr>))))))"

text \<open>\<^verbatim>\<open>enforcePreview\<close>, which the path without a sender runs before it signs.\<close>

definition enforcePreview ::
    "time \<Rightarrow> approval_envelope option \<Rightarrow> string option \<Rightarrow> string list \<Rightarrow> ('b, 'm) estimate_caches \<Rightarrow> (preview_error + unit) \<times> ('b, 'm) estimate_caches" where
  "enforcePreview now approval fingerprint recomputedHashes c =
     (case approval of
        None \<Rightarrow> (Inr (), c)
      | Some a \<Rightarrow>
          (case assertEstimateBinding a of
             Inl e \<Rightarrow> (Inl e, c)
           | Inr _ \<Rightarrow>
               (case take_preview now (ap_previewId a) (ap_interactionId a) (ap_index a) fingerprint (ec_preview c) of
                  (lookup, pc) \<Rightarrow>
                    (case assertWithinPreview lookup recomputedHashes of
                       Inl e \<Rightarrow> (Inl e, c\<lparr>ec_preview := pc\<rparr>)
                     | Inr _ \<Rightarrow> (Inr (), c\<lparr>ec_preview := pc, ec_signed := (a, recomputedHashes) # ec_signed c\<rparr>)))))"

section \<open>Runs\<close>

datatype ('b, 'm) reuse_call =
    Estimated "'m reuse_deps" string string bool "string + string option" operation_input "'b built_operation" "string list" "(string \<times> int) option"
  | PreviewedNoFrom time string "string \<times> int" "string option" "string list"
  | ConfirmedStandard "'m reuse_deps" "approval_envelope option" operation_input string "string + unit" "string + 'b" "string + 'b \<times> string list"
  | ConfirmedNoFrom time "approval_envelope option" "string option" "string list"
  | TransferEstimated "'m reuse_deps" string "string + string option" transfer_request network fees 'b
  | TransferConfirmed "'m reuse_deps" string transfer_request string
  | EstimateEvicted string
  | TimersFired time

fun reuse_step :: "('b, 'm :: numeral) reuse_call \<Rightarrow> ('b, 'm) estimate_caches \<Rightarrow> ('b, 'm) estimate_caches" where
  "reuse_step (Estimated deps uuid uuid' sendTx activeProfile identity built hashes preview) c =
     estimate_stashed deps uuid uuid' sendTx activeProfile identity built hashes preview c"
| "reuse_step (PreviewedNoFrom now uuid preview fingerprint hashes) c = writePreview now uuid preview fingerprint hashes c"
| "reuse_step (ConfirmedStandard deps approval identity fence handles validated discovering) c =
     snd (confirm_standard deps approval identity fence handles validated discovering c)"
| "reuse_step (ConfirmedNoFrom now approval fingerprint hashes) c = snd (enforcePreview now approval fingerprint hashes c)"
| "reuse_step (TransferEstimated deps uuid activeProfile req network builtFees rest) c =
     (case stashTransferEstimate deps activeProfile req network builtFees rest of
        None \<Rightarrow> c
      | Some e \<Rightarrow> c\<lparr>ec_transfer := cache_stash te_builtAt ESTIMATE_REUSE_TTL_MS (rd_now deps) uuid e (ec_transfer c)\<rparr>)"
| "reuse_step (TransferConfirmed deps i inputs fence) c = c\<lparr>ec_transfer := snd (tryConsume_transfer deps i inputs fence (ec_transfer c))\<rparr>"
| "reuse_step (EstimateEvicted i) c = evict_everywhere i c"
| "reuse_step (TimersFired now) c =
     c\<lparr>ec_transfer := cache_fire now (ec_transfer c), ec_operation := cache_fire now (ec_operation c), ec_preview := cache_fire now (ec_preview c)\<rparr>"

definition reuse_run :: "('b, 'm :: numeral) reuse_call list \<Rightarrow> ('b, 'm) estimate_caches" where
  "reuse_run cs = fold reuse_step cs empty_caches"

section \<open>Fees\<close>

lemma worst_of_fold:
  "fst (fold worst_of fs w) = Max (insert (fst w) (fst ` set fs)) \<and> snd (fold worst_of fs w) = Max (insert (snd w) (snd ` set fs))"
proof (induction fs arbitrary: w)
  case (Cons f fs)
  have m: "Max (insert (fst (worst_of f w)) A) = Max (insert (fst w) (insert (fst f) A))"
    "Max (insert (snd (worst_of f w)) A) = Max (insert (snd w) (insert (snd f) A))" if "finite A" for A
    using that by (cases "A = {}"; auto simp: worst_of_def max_def)+
  from Cons.IH [of "worst_of f w"] show ?case by (simp add: m)
qed simp

text \<open>The basis is an upper bound of every predicted slot in each component, and each is attained.\<close>

lemma predictedWorst_bounds:
  assumes "mn_predicted node = Some (Inr ps)" "ps \<noteq> []"
  shows "predictedWorstMinFees node = Inr (Max (fst ` set ps), Max (snd ` set ps))"
proof -
  from assms(2) obtain f fs where ps: "ps = f # fs" by (cases ps) auto
  have "fold worst_of (f # fs) f = (Max (fst ` set ps), Max (snd ` set ps))"
    using worst_of_fold [of "f # fs" f] by (simp add: ps prod_eq_iff)
  with assms ps show ?thesis by (simp add: predictedWorstMinFees_def)
qed

lemma baseFee_inj [simp]: "fingerprintBaseFee a = fingerprintBaseFee b \<longleftrightarrow> a = b"
proof -
  have "CHR '':'' \<notin> set (int_dec i)" for i using int_dec_num [of i] separator(1) by (auto simp: list_all_iff)
  then show ?thesis by (simp add: fingerprintBaseFee_def sep_split prod_eq_iff)
qed

lemma settings_exact:
  assumes "case fs_paymentMethod a of PayFj \<Rightarrow> True | PayFpc _ \<Rightarrow> True | _ \<Rightarrow> False"
  shows "fingerprintFeeSettings a = fingerprintFeeSettings b \<longleftrightarrow> a = b"
proof
  assume "fingerprintFeeSettings a = fingerprintFeeSettings b"
  from last_bar [OF level_bar level_bar this [unfolded fingerprintFeeSettings_def]] assms show "a = b"
    by (cases a; cases b) (auto simp: level_text_inj colon_def split: payment_method.splits)
qed simp

section \<open>The ladders\<close>

lemma transfer_ladder_hit:
  "transfer_ladder deps inputs fence e = Hit x \<longleftrightarrow> x = e \<and> rd_now deps - te_builtAt e \<le> ESTIMATE_REUSE_TTL_MS \<and> \<not> transfer_drift inputs e
     \<and> te_profileId e = fence
     \<and> (\<exists>n p node basis. rd_getNetwork deps (tr_networkId inputs) = Inr n \<and> primary_of n = Some p
          \<and> en_id p = te_primaryEndpointId e \<and> en_rpcUrl p = te_primaryEndpointUrl e
          \<and> rd_getNode deps (nw_chainId n) = Inr node \<and> predictedWorstMinFees node = Inr basis
          \<and> fingerprintBaseFee (fr_mul (rd_rules deps) basis (multiplier_of (rd_rules deps) (fs_priorityLevel (tr_feeSettings inputs)))) = te_baseFeeFingerprint e)
     \<and> set (rd_getPendingForAccount deps (tr_accountAddress inputs)) = set (te_pendingHashes e)"
  by (auto simp: transfer_ladder_def transfer_base_fee_def transfer_pending_def pendingHashesChanged_iff split: sum.splits option.splits if_splits)

lemma fpc_no_drift:
  "fpcIdentityDrift deps snap = None \<longleftrightarrow>
     (\<exists>info. rd_getFpcInfo deps (fx_id snap) = Inr info \<and> fi_type info = fx_type snap \<and> fi_address info = fx_address snap
        \<and> fi_chainId info = fx_chainId snap \<and> or_else (fi_isProtocol info) False = fx_isProtocol snap)"
  by (auto simp: fpcIdentityDrift_def split: sum.splits)

lemma operation_ladder_hit:
  "operation_ladder deps input fence e = Hit x \<longleftrightarrow> x = e \<and> rd_now deps - oe_builtAt e \<le> ESTIMATE_REUSE_TTL_MS
     \<and> fingerprintOperation input = Some (oe_fingerprint e) \<and> oe_profileId e = fence
     \<and> (\<exists>n p node basis. rd_getNetwork deps (oe_networkId e) = Inr n \<and> primary_of n = Some p
          \<and> en_id p = oe_primaryEndpointId e \<and> en_rpcUrl p = oe_primaryEndpointUrl e
          \<and> rd_getLiveChainIdentity deps n = Inr (oe_chainIdentity e)
          \<and> rd_getNode deps (nw_chainId n) = Inr node \<and> predictedWorstMinFees node = Inr basis
          \<and> fingerprintBaseFee (fr_mul (rd_rules deps) basis (multiplier_of (rd_rules deps) (fs_priorityLevel (oe_feeSettings e)))) = oe_baseFeeFingerprint e)
     \<and> set (rd_getPendingForAccount deps (oe_accountAddress e)) = set (oe_pendingHashes e)
     \<and> (\<forall>snap. oe_fpcIdentity e = Some snap \<longrightarrow> fpcIdentityDrift deps snap = None)"
  by (auto simp: operation_ladder_def operation_chain_def operation_base_fee_def pendingHashesChanged_iff prod_eq_iff
      split: sum.splits option.splits if_splits bind_splits)

section \<open>Transfers\<close>

text \<open>
  C17. A stashed transfer is handed out exactly when the confirmed request is the estimated one in every
  field, the profile that was active when the finished estimate was stashed is the one confirming, no more
  than two minutes have passed, the primary endpoint has the same id and address as at the stash, a build
  would finalize now the fees of the built request, and the account has the same pending transactions as at
  the stash. The profile is read at the stash and not when the estimate began: after a switch in between,
  the entry is handed to the profile that became active. Whatever the outcome, the id is spent and no other is.
\<close>

theorem transfer_reuse_exact:
  assumes "cache_get cache i = Some e" "stashTransferEstimate deps0 active req network builtFees rest = Some e"
  shows "(fst (tryConsume_transfer deps i inputs fence cache) = Hit x \<longleftrightarrow>
      x = e \<and> inputs = req \<and> active = Inr (Some fence) \<and> rd_now deps - rd_now deps0 \<le> 120000
      \<and> (\<exists>n p p0 node basis. rd_getNetwork deps (tr_networkId req) = Inr n \<and> primary_of n = Some p \<and> primary_of network = Some p0
           \<and> en_id p = en_id p0 \<and> en_rpcUrl p = en_rpcUrl p0 \<and> rd_getNode deps (nw_chainId n) = Inr node \<and> predictedWorstMinFees node = Inr basis
           \<and> fr_mul (rd_rules deps) basis (multiplier_of (rd_rules deps) (fs_priorityLevel (tr_feeSettings req))) = builtFees)
      \<and> set (rd_getPendingForAccount deps (tr_accountAddress req)) = set (rd_getPendingForAccount deps0 (tr_accountAddress req)))
    \<and> cache_get (snd (tryConsume_transfer deps i inputs fence cache)) j = (if j = i then None else cache_get cache j)"
proof -
  have consumed: "tryConsume_transfer deps i inputs fence cache = (transfer_ladder deps inputs fence e, snd (cache_consume i cache))"
    using assms(1) by (simp add: tryConsume_transfer_def cache_consume_def cache_get_def)
  then have spent: "cache_get (snd (tryConsume_transfer deps i inputs fence cache)) j = (if j = i then None else cache_get cache j)"
    by (simp add: ttl.look_pop)
  from assms(2) obtain p0 where e: "primary_of network = Some p0" "active = Inr (Some (te_profileId e))"
      "te_builtAt e = rd_now deps0" "te_primaryEndpointId e = en_id p0" "te_primaryEndpointUrl e = en_rpcUrl p0"
      "te_baseFeeFingerprint e = fingerprintBaseFee builtFees" "te_pendingHashes e = rd_getPendingForAccount deps0 (tr_accountAddress req)"
    by (auto simp: stashTransferEstimate_def split: if_splits option.splits sum.splits)
  have drift: "\<not> transfer_drift inputs e \<longleftrightarrow> inputs = req"
    using assms(2) settings_exact [of "tr_feeSettings req" "tr_feeSettings inputs"]
    by (cases inputs; cases req) (auto simp: transfer_drift_def stashTransferEstimate_def split: if_splits option.splits sum.splits)
  show ?thesis
    unfolding spent [THEN eqTrueI] consumed fst_conv transfer_ladder_hit drift using e spent by (auto simp: ESTIMATE_REUSE_TTL_MS_def consumed)
qed

section \<open>Histories\<close>

text \<open>What a call stashed under which id.\<close>

fun minted_by :: "('b, 'm) reuse_call \<Rightarrow> (string \<times> 'b operation_entry) option" where
  "minted_by (Estimated deps uuid uuid' sendTx activeProfile identity built hashes preview) =
     map_option (Pair uuid) (stashOperationEstimate deps sendTx activeProfile identity built hashes)"
| "minted_by _ = None"

fun shown_by :: "('b, 'm) reuse_call \<Rightarrow> (string \<times> preview_snapshot) option" where
  "shown_by (Estimated deps uuid uuid' sendTx activeProfile identity built hashes preview) =
     (case preview of
        Some p \<Rightarrow>
          if sendTx
          then Some (case stashOperationEstimate deps sendTx activeProfile identity built hashes of None \<Rightarrow> uuid' | Some _ \<Rightarrow> uuid,
                     snapshot_of (rd_now deps) p (fingerprintOperation identity) hashes)
          else None
      | None \<Rightarrow> None)"
| "shown_by (PreviewedNoFrom now uuid preview fingerprint hashes) = Some (uuid, snapshot_of now preview fingerprint hashes)"
| "shown_by _ = None"

definition times_under :: "(('b, 'm) reuse_call \<Rightarrow> (string \<times> 'e) option) \<Rightarrow> string \<Rightarrow> ('b, 'm) reuse_call list \<Rightarrow> nat" where
  "times_under f i cs = length (filter (\<lambda>k. map_option fst (f k) = Some i) cs)"

definition uses :: "string \<Rightarrow> ('b, 'm) estimate_caches \<Rightarrow> nat" where
  "uses i c = length (filter (\<lambda>(j, _). j = i) (ec_used c))"

definition approvals :: "string \<Rightarrow> ('b, 'm) estimate_caches \<Rightarrow> nat" where
  "approvals i c = length (filter (\<lambda>(a, hs). ap_previewId a = Some i \<and> hs \<noteq> []) (ec_signed c))"

text \<open>The effect of each call on the operation cache.\<close>

inductive op_effect :: "('b, 'm :: numeral) reuse_call \<Rightarrow> ('b, 'm) estimate_caches \<Rightarrow> ('b, 'm) estimate_caches \<Rightarrow> bool" where
  idle: "ec_operation c' = ec_operation c \<Longrightarrow> ec_used c' = ec_used c \<Longrightarrow> minted_by k = None \<Longrightarrow> op_effect k c c'"
| mint: "minted_by k = Some (i, e) \<Longrightarrow> ec_operation c' = cache_stash oe_builtAt ESTIMATE_REUSE_TTL_MS now i e (ec_operation c)
     \<Longrightarrow> ec_used c' = ec_used c \<Longrightarrow> op_effect k c c'"
| pop: "ec_operation c' = snd (cache_consume i (ec_operation c)) \<Longrightarrow> ec_used c' = ec_used c \<Longrightarrow> minted_by k = None \<Longrightarrow> op_effect k c c'"
| use: "fst (cache_consume i (ec_operation c)) = Some e \<Longrightarrow> ec_operation c' = snd (cache_consume i (ec_operation c))
     \<Longrightarrow> operation_ladder deps input fence e = Hit e \<Longrightarrow> ec_used c' = (i, input, fence, deps, e) # ec_used c \<Longrightarrow> minted_by k = None \<Longrightarrow> op_effect k c c'"
| fired: "ec_operation c' = cache_fire now (ec_operation c) \<Longrightarrow> ec_used c' = ec_used c \<Longrightarrow> minted_by k = None \<Longrightarrow> op_effect k c c'"

lemma ladder_hit_self: "operation_ladder deps input fence e = Hit x \<Longrightarrow> x = e"
  by (simp only: operation_ladder_hit)

lemma resolve_effect:
  assumes "snd (resolveStandardBuild deps identity eid fence handles validated discovering c) = c'" "minted_by k = None"
  shows "op_effect k c c' \<and> ec_preview c' = ec_preview c \<and> ec_signed c' = ec_signed c"
proof (cases "given_id eid")
  case None
  with assms show ?thesis by (auto simp: resolveStandardBuild_def intro: op_effect.idle)
next
  case (Some i)
  show ?thesis
  proof (cases "cache_get (ec_operation c) i")
    case None
    then have "tryConsume_operation deps i identity fence (ec_operation c) = (Miss [], snd (cache_consume i (ec_operation c)))"
      by (simp add: tryConsume_operation_def cache_consume_def cache_get_def)
    with Some assms show ?thesis by (auto simp: resolveStandardBuild_def intro: op_effect.pop [of _ i])
  next
    case (Some e)
    then have t: "tryConsume_operation deps i identity fence (ec_operation c)
        = (operation_ladder deps identity fence e, snd (cache_consume i (ec_operation c)))"
      and pop: "fst (cache_consume i (ec_operation c)) = Some e"
      by (simp_all add: tryConsume_operation_def cache_consume_def cache_get_def)
    show ?thesis
    proof (cases "operation_ladder deps identity fence e")
      case (Hit x)
      with ladder_hit_self have "operation_ladder deps identity fence e = Hit e" by blast
      with \<open>given_id eid = Some i\<close> assms t pop show ?thesis
        by (auto simp: resolveStandardBuild_def intro: op_effect.use [of i c e _ deps identity fence])
    qed (use \<open>given_id eid = Some i\<close> assms t in \<open>auto simp: resolveStandardBuild_def intro: op_effect.pop [of _ i]\<close>)
  qed
qed

text \<open>The effect of each call on the previews.\<close>

definition matches_approval :: "approval_envelope \<Rightarrow> preview_snapshot \<Rightarrow> bool" where
  "matches_approval a s \<longleftrightarrow> ps_interactionId s = ap_interactionId a \<and> ps_index s = ap_index a"

inductive pv_effect :: "('b, 'm) reuse_call \<Rightarrow> ('b, 'm) estimate_caches \<Rightarrow> ('b, 'm) estimate_caches \<Rightarrow> bool" where
  idle: "ec_preview c' = ec_preview c \<Longrightarrow> ec_signed c' = ec_signed c \<Longrightarrow> shown_by k = None \<Longrightarrow> pv_effect k c c'"
| shown: "shown_by k = Some (i, s) \<Longrightarrow> ec_preview c' = cache_stash ps_builtAt ESTIMATE_REUSE_TTL_MS now i s (ec_preview c)
     \<Longrightarrow> ec_signed c' = ec_signed c \<Longrightarrow> pv_effect k c c'"
| pop: "ec_preview c' = snd (cache_consume i (ec_preview c)) \<Longrightarrow> ec_signed c' = ec_signed c \<Longrightarrow> shown_by k = None \<Longrightarrow> pv_effect k c c'"
| bare: "ec_preview c' = ec_preview c \<or> ec_preview c' = snd (cache_consume i (ec_preview c)) \<Longrightarrow> ec_signed c' = (a, []) # ec_signed c
     \<Longrightarrow> shown_by k = None \<Longrightarrow> pv_effect k c c'"
| sign: "fst (cache_consume i (ec_preview c)) = Some s \<Longrightarrow> ec_preview c' = snd (cache_consume i (ec_preview c))
     \<Longrightarrow> ap_previewId a = Some i \<Longrightarrow> matches_approval a s \<Longrightarrow> set hs \<subseteq> set (ps_discoveredHashes s)
     \<Longrightarrow> ec_signed c' = (a, hs) # ec_signed c \<Longrightarrow> shown_by k = None \<Longrightarrow> pv_effect k c c'"
| fired: "ec_preview c' = cache_fire now (ec_preview c) \<Longrightarrow> ec_signed c' = ec_signed c \<Longrightarrow> shown_by k = None \<Longrightarrow> pv_effect k c c'"

lemma given_id_Some: "given_id i = Some j \<Longrightarrow> i = Some j"
  by (auto simp: given_id_def split: option.splits list.splits)

lemma take_preview_cases:
  obtains (none) "take_preview now pid x n fp c = (MissingPreview, c)"
  | (missing) i where "take_preview now pid x n fp c = (MissingPreview, snd (cache_consume i c))"
  | (foreign) i where "take_preview now pid x n fp c = (ForeignPreview, snd (cache_consume i c))"
  | (found) i s where "take_preview now pid x n fp c = (Found s, snd (cache_consume i c))" "pid = Some i" "fst (cache_consume i c) = Some s"
      "ps_interactionId s = x" "ps_index s = n"
proof (cases "given_id pid")
  case None
  with none show ?thesis by (simp add: take_preview_def)
next
  case (Some i)
  obtain r c' where p: "cache_consume i c = (r, c')" by (cases "cache_consume i c")
  show ?thesis
  proof (cases r)
    case None
    with Some p missing [of i] show ?thesis by (simp add: take_preview_def)
  next
    case (Some s)
    with \<open>given_id pid = Some i\<close> p missing [of i] foreign [of i] found [of s i] given_id_Some [of pid i] show ?thesis
      by (cases "now - ps_builtAt s > ESTIMATE_REUSE_TTL_MS";
          cases "ps_interactionId s \<noteq> x \<or> ps_index s \<noteq> n \<or> \<not> (ps_fingerprint s = None \<or> fp = None \<or> ps_fingerprint s = fp)")
        (simp_all add: take_preview_def)
  qed
qed

lemma within_found: "assertWithinPreview (Found s) hs = Inr u \<longleftrightarrow> set hs \<subseteq> set (ps_discoveredHashes s)"
  by (auto simp: assertWithinPreview_def)

lemma within_missing: "assertWithinPreview MissingPreview hs = Inr u \<longleftrightarrow> hs = []"
  by (simp add: assertWithinPreview_def)

lemma within_foreign: "assertWithinPreview ForeignPreview hs = Inl PreviewForeign"
  by (simp add: assertWithinPreview_def)

lemma enforce_effect:
  assumes "snd (enforcePreview now approval fp hs c) = c'" "minted_by k = None" "shown_by k = None"
  shows "op_effect k c c' \<and> pv_effect k c c'"
proof (cases approval)
  case None
  with assms show ?thesis by (auto simp: enforcePreview_def intro: op_effect.idle pv_effect.idle)
next
  case (Some a)
  have op: "op_effect k c c'"
    using assms Some by (auto simp: enforcePreview_def intro!: op_effect.idle split: sum.splits prod.splits)
  have "pv_effect k c c'"
  proof (cases "assertEstimateBinding a")
    case (Inl e)
    with assms Some show ?thesis by (auto simp: enforcePreview_def intro: pv_effect.idle)
  next
    case (Inr u)
    show ?thesis
    proof (cases rule: take_preview_cases [of now "ap_previewId a" "ap_interactionId a" "ap_index a" fp "ec_preview c"])
      case none
      with assms Some Inr show ?thesis
        by (auto simp: enforcePreview_def within_missing split: sum.splits intro: pv_effect.idle pv_effect.bare)
    next
      case (missing i)
      with assms Some Inr show ?thesis
        by (auto simp: enforcePreview_def within_missing split: sum.splits intro: pv_effect.pop [of _ i] pv_effect.bare [of _ _ i])
    next
      case (foreign i)
      with assms Some Inr show ?thesis by (auto simp: enforcePreview_def within_foreign intro: pv_effect.pop [of _ i])
    next
      case (found i s)
      with assms Some Inr show ?thesis
        by (auto simp: enforcePreview_def within_found matches_approval_def split: sum.splits intro: pv_effect.pop [of _ i] pv_effect.sign [of i _ s _ a])
    qed
  qed
  with op show ?thesis by blast
qed

text \<open>A confirmation either stops at its preview, or resolves a build and holds it to the preview.\<close>

lemma confirm_outcome:
  assumes "snd (confirm_standard deps (Some a) identity fence handles validated discovering c) = c'" "assertEstimateBinding a = Inr u"
    and "take_preview (rd_now deps) (ap_previewId a) (ap_interactionId a) (ap_index a) (fingerprintOperation identity) (ec_preview c) = (lookup, pc)"
  shows "lookup = ForeignPreview \<and> c' = c\<lparr>ec_preview := pc\<rparr>
    \<or> lookup \<noteq> ForeignPreview \<and> (\<exists>rid c1. snd (resolveStandardBuild deps identity rid fence handles validated discovering (c\<lparr>ec_preview := pc\<rparr>)) = c1
        \<and> (c' = c1 \<or> (\<exists>hs. assertWithinPreview lookup hs = Inr () \<and> c' = c1\<lparr>ec_signed := (a, hs) # ec_signed c1\<rparr>)))"
proof (cases "lookup = ForeignPreview")
  case True
  with assms show ?thesis by (auto simp: confirm_standard_def)
next
  case False
  define rid where "rid = (case lookup of Found _ \<Rightarrow> ap_estimateId a | _ \<Rightarrow> None)"
  obtain res c1 where "resolveStandardBuild deps identity rid fence handles validated discovering (c\<lparr>ec_preview := pc\<rparr>) = (res, c1)"
    by fastforce
  with assms False have "c' = c1 \<or> (\<exists>hs. assertWithinPreview lookup hs = Inr () \<and> c' = c1\<lparr>ec_signed := (a, hs) # ec_signed c1\<rparr>)"
    and "snd (resolveStandardBuild deps identity rid fence handles validated discovering (c\<lparr>ec_preview := pc\<rparr>)) = c1"
    by (auto simp: confirm_standard_def Let_def rid_def split: preview_lookup.splits sum.splits prod.splits)
  with False show ?thesis by blast
qed

lemma op_effect_frame:
  "op_effect k c c1 \<Longrightarrow> ec_operation c0 = ec_operation c \<Longrightarrow> ec_used c0 = ec_used c \<Longrightarrow> ec_operation c2 = ec_operation c1 \<Longrightarrow> ec_used c2 = ec_used c1
     \<Longrightarrow> op_effect k c0 c2"
  by (erule op_effect.cases) (auto intro: op_effect.intros)

lemma confirm_effect:
  assumes "snd (confirm_standard deps approval identity fence handles validated discovering c) = c'" "minted_by k = None" "shown_by k = None"
  shows "op_effect k c c' \<and> pv_effect k c c'"
proof (cases "\<exists>a u. approval = Some a \<and> assertEstimateBinding a = Inr u")
  case False
  then have "approval = None \<or> c' = c"
    using assms(1) by (cases approval) (auto simp: confirm_standard_def split: sum.splits)
  then show ?thesis
  proof
    assume "approval = None"
    with assms(1) have "snd (resolveStandardBuild deps identity None fence handles validated discovering c) = c'" by (simp add: confirm_standard_def)
    from resolve_effect [OF this assms(2)] assms(3) show ?thesis by (auto intro: pv_effect.idle)
  qed (use assms in \<open>auto intro: op_effect.idle pv_effect.idle\<close>)
next
  case True
  then obtain a u where a: "approval = Some a" "assertEstimateBinding a = Inr u" by blast
  let ?take = "take_preview (rd_now deps) (ap_previewId a) (ap_interactionId a) (ap_index a) (fingerprintOperation identity) (ec_preview c)"
  obtain lookup pc where tp: "?take = (lookup, pc)" by fastforce
  from confirm_outcome [OF assms(1) [unfolded a(1)] a(2) tp]
  consider "lookup = ForeignPreview" "c' = c\<lparr>ec_preview := pc\<rparr>"
    | rid c1 where "lookup \<noteq> ForeignPreview" "snd (resolveStandardBuild deps identity rid fence handles validated discovering (c\<lparr>ec_preview := pc\<rparr>)) = c1"
        "c' = c1 \<or> (\<exists>hs. assertWithinPreview lookup hs = Inr () \<and> c' = c1\<lparr>ec_signed := (a, hs) # ec_signed c1\<rparr>)" by blast
  then show ?thesis
  proof cases
    case 1
    with tp assms(2,3) show ?thesis
      by (cases rule: take_preview_cases [of "rd_now deps" "ap_previewId a" "ap_interactionId a" "ap_index a" "fingerprintOperation identity" "ec_preview c"])
        (auto intro: op_effect.idle pv_effect.pop)
  next
    case 2
    from resolve_effect [OF 2(2) assms(2)]
    have eff: "op_effect k (c\<lparr>ec_preview := pc\<rparr>) c1" "ec_preview c1 = pc" "ec_signed c1 = ec_signed c" by simp_all
    from eff(1) 2(3) have "op_effect k c c'" by (auto elim!: op_effect_frame)
    moreover have "pv_effect k c c'"
      using 2 tp eff assms(3)
      by (cases rule: take_preview_cases [of "rd_now deps" "ap_previewId a" "ap_interactionId a" "ap_index a" "fingerprintOperation identity" "ec_preview c"])
        (auto simp: within_missing within_found matches_approval_def intro: pv_effect.idle pv_effect.pop pv_effect.bare pv_effect.sign)
    ultimately show ?thesis by blast
  qed
qed

lemma estimate_effect:
  assumes "k = Estimated deps uuid uuid' sendTx active identity built hs preview"
  shows "op_effect k c (reuse_step k c) \<and> pv_effect k c (reuse_step k c)"
proof -
  have op: "op_effect k c (reuse_step k c)"
  proof (cases "stashOperationEstimate deps sendTx active identity built hs")
    case None
    then show ?thesis by (intro op_effect.idle) (auto simp: assms estimate_stashed_def writePreview_def Let_def split: option.splits)
  next
    case (Some e)
    then show ?thesis
      by (intro op_effect.mint [of _ uuid e _ "rd_now deps"]) (auto simp: assms estimate_stashed_def writePreview_def Let_def split: option.splits)
  qed
  have "pv_effect k c (reuse_step k c)"
  proof (cases "shown_by k")
    case None
    then show ?thesis
      by (intro pv_effect.idle) (auto simp: assms estimate_stashed_def writePreview_def Let_def split: option.splits if_splits)
  next
    case (Some p)
    then show ?thesis
      by (cases p, intro pv_effect.shown [of _ "fst p" "snd p" _ "rd_now deps"])
        (auto simp: assms estimate_stashed_def writePreview_def Let_def split: option.splits if_splits)
  qed
  with op show ?thesis by blast
qed

lemma step_effect: "op_effect k c (reuse_step k c) \<and> pv_effect k c (reuse_step k c)"
proof (cases k)
  case (Estimated deps uuid uuid' sendTx active identity built hs preview)
  then show ?thesis by (rule estimate_effect)
next
  case (PreviewedNoFrom now uuid preview fp hs)
  then show ?thesis
    by (auto simp: writePreview_def intro: op_effect.idle pv_effect.shown [where now = now])
next
  case (ConfirmedStandard deps approval identity fence handles validated discovering)
  then show ?thesis using confirm_effect [OF refl, of k] by simp
next
  case (ConfirmedNoFrom now approval fp hs)
  then show ?thesis using enforce_effect [OF refl, of k] by simp
next
  case (EstimateEvicted i)
  then show ?thesis
    by (auto simp: evict_everywhere_def cache_consume_def intro!: op_effect.pop [of _ i] pv_effect.pop [of _ i])
next
  case (TimersFired now)
  then show ?thesis by (auto intro: op_effect.fired pv_effect.fired)
qed (auto intro: op_effect.idle pv_effect.idle split: option.splits)

section \<open>What every history guarantees\<close>

text \<open>
  The books of a cache: what it holds was stashed by a call, and the entries of an id that are held or were
  counted as taken are no more than the calls that stashed under it.
\<close>

definition ledger :: "(('b, 'm) reuse_call \<Rightarrow> (string \<times> 'e) option) \<Rightarrow> ('b, 'm) reuse_call list \<Rightarrow> 'e ttl_cache \<Rightarrow> (string \<Rightarrow> nat) \<Rightarrow> bool" where
  "ledger f cs c n \<longleftrightarrow> cache_wf c \<and> ttl.every (\<lambda>i e. Some (i, e) \<in> f ` set cs) c \<and> (\<forall>i. ttl.held c i + n i \<le> times_under f i cs)"

lemma times_under_snoc:
  "times_under f i (cs @ [k]) = times_under f i cs + (if map_option fst (f k) = Some i then 1 else 0)"
  by (simp add: times_under_def)

lemma every_more:
  "ttl.every (\<lambda>i e. Some (i, e) \<in> f ` set cs) c \<Longrightarrow> ttl.every (\<lambda>i e. Some (i, e) \<in> f ` set (cs @ [k])) c"
  by (erule ttl.every_mono) auto

lemma ledgerD:
  assumes "ledger f cs c n"
  shows "cache_wf c" "ttl.every (\<lambda>i e. Some (i, e) \<in> f ` set cs) c" "ttl.held c i + n i \<le> times_under f i cs"
  using assms by (simp_all add: ledger_def)

lemma ledger_shrink:
  assumes "ledger f cs c n" "cache_wf c'" "ttl.every (\<lambda>i e. Some (i, e) \<in> f ` set cs) c'" "\<And>i. ttl.held c' i + n' i \<le> ttl.held c i + n i"
  shows "ledger f (cs @ [k]) c' n'"
proof -
  have "ttl.held c' i + n' i \<le> times_under f i (cs @ [k])" for i
    using assms(4) [of i] ledgerD(3) [OF assms(1), of i] by (simp add: times_under_snoc)
  with assms(2) every_more [OF assms(3)] show ?thesis by (simp only: ledger_def) blast
qed

lemma ledger_idle: "ledger f cs c n \<Longrightarrow> ledger f (cs @ [k]) c n"
  by (rule ledger_shrink [of f cs c n]) (assumption | rule order_refl | erule ledgerD)+

lemma ledger_put:
  assumes "ledger f cs c n" "f k = Some (i, e)"
  shows "ledger f (cs @ [k]) (cache_stash builtAt ttlMs now i e c) n"
proof -
  note old = ledgerD [OF assms(1)]
  have "ttl.held (cache_stash builtAt ttlMs now i e c) j + n j \<le> times_under f j (cs @ [k])" for j
    using ttl.held_put [OF old(1), of builtAt ttlMs now i e j] old(3) [of j] assms(2) by (simp add: times_under_snoc split: if_splits)
  moreover have "Some (i, e) \<in> f ` set (cs @ [k])" using assms(2) by (simp add: image_iff)
  ultimately show ?thesis
    using ttl.every_put [OF old(1) every_more [OF old(2)]] ttl.wf_put [OF old(1)] by (simp only: ledger_def) blast
qed

lemma ledger_pop:
  assumes "ledger f cs c n"
  shows "ledger f (cs @ [k]) (snd (cache_consume i c)) n"
proof (rule ledger_shrink [OF assms])
  show "ttl.held (snd (cache_consume i c)) j + n j \<le> ttl.held c j + n j" for j
    using ttl.held_pop [of i c j] by linarith
qed (simp_all only: ledgerD [OF assms] ttl.wf_pop ttl.every_pop)

lemma ledger_take:
  assumes "ledger f cs c n" "fst (cache_consume i c) = Some e"
  shows "ledger f (cs @ [k]) (snd (cache_consume i c)) (n(i := n i + 1))" and "Some (i, e) \<in> f ` set cs"
proof -
  show "ledger f (cs @ [k]) (snd (cache_consume i c)) (n(i := n i + 1))"
  proof (rule ledger_shrink [OF assms(1)])
    show "ttl.held (snd (cache_consume i c)) j + (n(i := n i + 1)) j \<le> ttl.held c j + n j" for j
      using ttl.held_pop [of i c j] assms(2) by (simp split: if_splits)
  qed (simp_all only: ledgerD [OF assms(1)] ttl.wf_pop ttl.every_pop)
  show "Some (i, e) \<in> f ` set cs"
    by (rule ttl.every_popD [OF ledgerD(2) [OF assms(1)] assms(2)])
qed

lemma ledger_fire:
  assumes "ledger f cs c n"
  shows "ledger f (cs @ [k]) (cache_fire now c) n"
proof (rule ledger_shrink [OF assms])
  show "ttl.held (cache_fire now c) j + n j \<le> ttl.held c j + n j" for j
    using ttl.held_fire [of now c j] by linarith
qed (simp_all only: ledgerD [OF assms] ttl.wf_fire ttl.every_fire)

lemma ledger_empty: "ledger f [] empty_cache (\<lambda>_. 0)"
  by (simp add: ledger_def cache_wf_def empty_cache_def ttl.every_def ttl.held_def cache_get_def)

definition reuse_inv :: "('b, 'm :: numeral) reuse_call list \<Rightarrow> ('b, 'm) estimate_caches \<Rightarrow> bool" where
  "reuse_inv cs c \<longleftrightarrow> ledger minted_by cs (ec_operation c) (\<lambda>i. uses i c)
     \<and> (\<forall>(i, input, fence, deps, e)\<in>set (ec_used c). Some (i, e) \<in> minted_by ` set cs \<and> operation_ladder deps input fence e = Hit e)"

definition approval_shown :: "('b, 'm) reuse_call list \<Rightarrow> approval_envelope \<Rightarrow> string list \<Rightarrow> bool" where
  "approval_shown cs a hs \<longleftrightarrow> hs = [] \<or> (\<exists>i s. ap_previewId a = Some i \<and> Some (i, s) \<in> shown_by ` set cs
     \<and> matches_approval a s \<and> set hs \<subseteq> set (ps_discoveredHashes s))"

definition signed_inv :: "('b, 'm) reuse_call list \<Rightarrow> ('b, 'm) estimate_caches \<Rightarrow> bool" where
  "signed_inv cs c \<longleftrightarrow> (\<exists>n. ledger shown_by cs (ec_preview c) n \<and> (\<forall>i. approvals i c \<le> n i))
     \<and> (\<forall>(a, hs)\<in>set (ec_signed c). approval_shown cs a hs)"

lemma uses_simps: "ec_used c' = ec_used c \<Longrightarrow> uses i c' = uses i c"
  "ec_used c' = (j, rest) # ec_used c \<Longrightarrow> uses i c' = (if j = i then 1 else 0) + uses i c"
  by (simp_all add: uses_def)

lemma approvals_simps: "ec_signed c' = ec_signed c \<Longrightarrow> approvals i c' = approvals i c"
  "ec_signed c' = (a, hs) # ec_signed c \<Longrightarrow> approvals i c' = (if ap_previewId a = Some i \<and> hs \<noteq> [] then 1 else 0) + approvals i c"
  by (simp_all add: approvals_def)

lemma reuse_inv_step:
  assumes "op_effect k c c'" "reuse_inv cs c"
  shows "reuse_inv (cs @ [k]) c'"
proof -
  have books: "ledger minted_by cs (ec_operation c) (\<lambda>i. uses i c)"
    and log: "\<And>i input fence deps e. (i, input, fence, deps, e) \<in> set (ec_used c)
        \<Longrightarrow> Some (i, e) \<in> minted_by ` set (cs @ [k]) \<and> operation_ladder deps input fence e = Hit e"
    using assms(2) by (auto simp: reuse_inv_def)
  have same: "reuse_inv (cs @ [k]) c'" if "ec_used c' = ec_used c" "ledger minted_by (cs @ [k]) (ec_operation c') (\<lambda>i. uses i c)"
  proof -
    have "uses i c' = uses i c" for i by (rule uses_simps(1) [OF that(1)])
    with that log show ?thesis unfolding reuse_inv_def by fastforce
  qed
  from assms(1) show ?thesis
  proof cases
    case idle
    with ledger_idle [OF books, of k] same show ?thesis by simp
  next
    case (mint i e now)
    with ledger_put [where builtAt = oe_builtAt, OF books mint(1)] same show ?thesis by simp
  next
    case (pop i)
    with ledger_pop [OF books, of k i] same show ?thesis by simp
  next
    case (use i e deps input fence)
    have "(\<lambda>j. uses j c') = (\<lambda>j. uses j c)(i := uses i c + 1)" by (rule ext) (simp add: uses_simps(2) [OF use(4)])
    with ledger_take(1) [OF books use(1), of k] use(2) have "ledger minted_by (cs @ [k]) (ec_operation c') (\<lambda>j. uses j c')" by simp
    moreover have "Some (i, e) \<in> minted_by ` set (cs @ [k])" using ledger_take(2) [OF books use(1)] by auto
    ultimately show ?thesis using use(3,4) log unfolding reuse_inv_def by fastforce
  next
    case (fired now)
    with ledger_fire [OF books, of k now] same show ?thesis by simp
  qed
qed

lemma signed_inv_step:
  assumes "pv_effect k c c'" "signed_inv cs c"
  shows "signed_inv (cs @ [k]) c'"
proof -
  obtain n where books: "ledger shown_by cs (ec_preview c) n" and n: "\<And>i. approvals i c \<le> n i"
    using assms(2) by (auto simp: signed_inv_def)
  have log: "\<And>a hs. (a, hs) \<in> set (ec_signed c) \<Longrightarrow> approval_shown (cs @ [k]) a hs"
    using assms(2) by (fastforce simp: signed_inv_def approval_shown_def)
  have same: "signed_inv (cs @ [k]) c'" if "ec_signed c' = ec_signed c \<or> ec_signed c' = (a, []) # ec_signed c" "ledger shown_by (cs @ [k]) (ec_preview c') n" for a
  proof -
    have "approvals i c' \<le> n i" for i using that(1) approvals_simps(1) [of c' c i] approvals_simps(2) [of c' a "[]" c i] n [of i] by fastforce
    with that log show ?thesis unfolding signed_inv_def by (fastforce simp: approval_shown_def)
  qed
  from assms(1) show ?thesis
  proof cases
    case idle
    with ledger_idle [OF books, of k] same show ?thesis by simp
  next
    case (shown i s now)
    with ledger_put [where builtAt = ps_builtAt, OF books shown(1)] same show ?thesis by simp
  next
    case (pop i)
    with ledger_pop [OF books, of k i] same show ?thesis by simp
  next
    case (bare i a)
    then have "ledger shown_by (cs @ [k]) (ec_preview c') n"
      using ledger_pop [OF books, of k i] ledger_idle [OF books, of k] by auto
    with bare(2) same show ?thesis by blast
  next
    case (sign i s a hs)
    have "approvals j c' \<le> (n(i := n i + 1)) j" for j using n [of j] sign(3) by (auto simp: approvals_simps(2) [OF sign(6)])
    moreover have "ledger shown_by (cs @ [k]) (ec_preview c') (n(i := n i + 1))" using ledger_take(1) [OF books sign(1), of k] sign(2) by simp
    moreover have "approval_shown (cs @ [k]) a hs"
      using ledger_take(2) [OF books sign(1)] sign(3-5) unfolding approval_shown_def by fastforce
    ultimately show ?thesis using sign(6) log unfolding signed_inv_def by fastforce
  next
    case (fired now)
    with ledger_fire [OF books, of k now] same show ?thesis by simp
  qed
qed

lemma run_inv: "reuse_inv cs (reuse_run cs) \<and> signed_inv cs (reuse_run cs)"
proof (induction cs rule: rev_induct)
  case Nil
  show ?case
    using ledger_empty [of minted_by] ledger_empty [of shown_by]
    by (auto simp: reuse_inv_def signed_inv_def reuse_run_def empty_caches_def uses_def approvals_def intro!: exI [of _ "\<lambda>_. 0"])
next
  case (snoc k cs)
  then show ?case
    using reuse_inv_step [of k "reuse_run cs"] signed_inv_step [of k "reuse_run cs"] step_effect [of k "reuse_run cs"]
    by (simp add: reuse_run_def)
qed

text \<open>What a build depends on is the same for the two calls.\<close>

definition world_kept :: "'m reuse_deps \<Rightarrow> ('m :: numeral) reuse_deps \<Rightarrow> operation_input \<Rightarrow> 'b built_operation \<Rightarrow> bool" where
  "world_kept deps0 deps identity built \<longleftrightarrow>
     (\<exists>p0 n p node basis. primary_of (bo_network built) = Some p0
        \<and> rd_getNetwork deps (oi_networkId identity) = Inr n \<and> primary_of n = Some p \<and> en_id p = en_id p0 \<and> en_rpcUrl p = en_rpcUrl p0
        \<and> rd_getLiveChainIdentity deps n = Inr (bo_chainIdentity built)
        \<and> rd_getNode deps (nw_chainId n) = Inr node \<and> predictedWorstMinFees node = Inr basis
        \<and> fr_mul (rd_rules deps) basis (multiplier_of (rd_rules deps) (fs_priorityLevel (oi_feeSettings identity))) = bo_maxFeesPerGas built)
     \<and> set (rd_getPendingForAccount deps (oi_accountAddress identity)) = set (rd_getPendingForAccount deps0 (oi_accountAddress identity))
     \<and> (\<forall>snap. resolve_fpc deps0 (oi_feeSettings identity) = Inr (Some snap) \<longrightarrow> fpcIdentityDrift deps snap = None)"

lemma stashed_hit:
  assumes "stashOperationEstimate deps0 sendTx active identity built hs = Some e" "operation_ladder deps input fence e = Hit e"
  shows "active = Inr (Some fence) \<and> fingerprintOperation identity = fingerprintOperation input \<and> fingerprintOperation input \<noteq> None
    \<and> rd_now deps - rd_now deps0 \<le> 120000 \<and> world_kept deps0 deps identity built"
proof -
  from assms(1) obtain p0 fpc where f: "fingerprintOperation identity = Some (oe_fingerprint e)" "primary_of (bo_network built) = Some p0"
      "active = Inr (Some (oe_profileId e))" "resolve_fpc deps0 (oi_feeSettings identity) = Inr fpc" "oe_fpcIdentity e = fpc"
      "oe_accountAddress e = oi_accountAddress identity" "oe_networkId e = oi_networkId identity" "oe_feeSettings e = oi_feeSettings identity"
      "oe_baseFeeFingerprint e = fingerprintBaseFee (bo_maxFeesPerGas built)" "oe_primaryEndpointId e = en_id p0"
      "oe_primaryEndpointUrl e = en_rpcUrl p0" "oe_pendingHashes e = rd_getPendingForAccount deps0 (oi_accountAddress identity)"
      "oe_chainIdentity e = bo_chainIdentity built" "oe_builtAt e = rd_now deps0"
    by (auto simp: stashOperationEstimate_def split: if_splits option.splits sum.splits)
  from assms(2) [unfolded operation_ladder_hit] f show ?thesis
    unfolding world_kept_def by (auto simp: ESTIMATE_REUSE_TTL_MS_def)
qed

text \<open>
  C15. Every request that was reused had been built by an estimate that ran under that id, for an
  operation the confirmed one cannot be told from, and was stashed under the profile that confirmed it no more
  than two minutes before. At the moment of the reuse the primary endpoint, the exact chain identity, the fees a
  build would finalize, the account's pending transactions and the row of a sponsor were what they were for the
  estimate. An id is reused at most as often as it was stashed, so an id that is drawn once at most once.
\<close>

theorem operation_reuse_sound:
  assumes "(i, input, fence, deps, e) \<in> set (ec_used (reuse_run cs))"
  shows "uses i (reuse_run cs) \<le> times_under minted_by i cs
    \<and> (\<exists>deps0 uuid' sendTx identity built hs preview.
        Estimated deps0 i uuid' sendTx (Inr (Some fence)) identity built hs preview \<in> set cs
      \<and> stashOperationEstimate deps0 sendTx (Inr (Some fence)) identity built hs = Some e
      \<and> (operation_ok identity \<and> operation_ok input \<longrightarrow> bound_operation identity = bound_operation input)
      \<and> rd_now deps - rd_now deps0 \<le> 120000 \<and> world_kept deps0 deps identity built)"
proof -
  from run_inv [of cs] have inv: "reuse_inv cs (reuse_run cs)" by simp
  then have once: "uses i (reuse_run cs) \<le> times_under minted_by i cs"
    using ledgerD(3) [of minted_by cs "ec_operation (reuse_run cs)" "\<lambda>i. uses i (reuse_run cs)" i] by (simp add: reuse_inv_def)
  from inv assms have "Some (i, e) \<in> minted_by ` set cs" and hit: "operation_ladder deps input fence e = Hit e"
    by (auto simp: reuse_inv_def)
  from this(1) obtain k where k: "k \<in> set cs" "minted_by k = Some (i, e)" by auto
  from k(2) obtain deps0 uuid' sendTx active identity built hs preview
    where est: "k = Estimated deps0 i uuid' sendTx active identity built hs preview"
      and st: "stashOperationEstimate deps0 sendTx active identity built hs = Some e"
    by (cases k) auto
  note h = stashed_hit [OF st hit]
  have "bound_operation identity = bound_operation input" if "operation_ok identity" "operation_ok input"
    using fingerprint_unique [OF that] h by auto
  with h k(1) est st once show ?thesis by blast
qed

text \<open>
  C14. Whatever an approval from the popup let the wallet sign had been shown: the private authorizations
  of the build, reused or fresh, are among those that an estimate or a preview listed under the preview id of
  that approval, for the same interaction and the same operation of it. Each listing licenses at most one
  approval that signs anything.
\<close>

theorem approval_signs_shown:
  assumes "(a, hs) \<in> set (ec_signed (reuse_run cs))" "hs \<noteq> []"
  shows "\<exists>i k s. ap_previewId a = Some i \<and> k \<in> set cs \<and> shown_by k = Some (i, s)
    \<and> ps_interactionId s = ap_interactionId a \<and> ps_index s = ap_index a \<and> set hs \<subseteq> set (ps_discoveredHashes s)
    \<and> approvals i (reuse_run cs) \<le> times_under shown_by i cs"
proof -
  from run_inv [of cs] have inv: "signed_inv cs (reuse_run cs)" by simp
  then obtain n where n: "ledger shown_by cs (ec_preview (reuse_run cs)) n" "\<And>i. approvals i (reuse_run cs) \<le> n i"
    by (auto simp: signed_inv_def)
  have "approvals i (reuse_run cs) \<le> times_under shown_by i cs" for i
    using n(2) [of i] ledgerD(3) [OF n(1), of i] by linarith
  moreover have "approval_shown cs a hs" using inv assms(1) by (auto simp: signed_inv_def)
  then obtain i s where "ap_previewId a = Some i" "Some (i, s) \<in> shown_by ` set cs" "matches_approval a s" "set hs \<subseteq> set (ps_discoveredHashes s)"
    using assms(2) by (auto simp: approval_shown_def)
  ultimately show ?thesis unfolding matches_approval_def by (metis (mono_tags, lifting) imageE)
qed

text \<open>
  An error of the fee prediction is a miss for a transfer, which is then rebuilt; for an operation it ends the
  confirmation.
\<close>

theorem fee_error_escapes:
  assumes "rd_getNode deps (nw_chainId n) = Inr node" "predictedWorstMinFees node = Inl err"
  shows "operation_base_fee deps n e = Escaped (ne_message err)
    \<and> transfer_base_fee deps inputs node e' = Miss (''base fee fetch failed: '' @ ne_message err)"
  using assms by (simp add: operation_base_fee_def transfer_base_fee_def)

text \<open>Once the registry has evicted an estimate, its request is not reused unless it is stashed again.\<close>

lemma op_effect_books:
  assumes "op_effect k c c'" "cache_wf (ec_operation c)"
  shows "cache_wf (ec_operation c') \<and> uses i c \<le> uses i c'
    \<and> ttl.held (ec_operation c') i + uses i c' \<le> ttl.held (ec_operation c) i + uses i c + (if map_option fst (minted_by k) = Some i then 1 else 0)"
  using assms(1)
proof cases
  case idle
  with assms(2) uses_simps(1) [OF idle(2), of i] show ?thesis by simp
next
  case (mint j e now)
  with ttl.wf_put [OF assms(2)] ttl.held_put [OF assms(2), of oe_builtAt ESTIMATE_REUSE_TTL_MS now j e i] uses_simps(1) [OF mint(3), of i]
  show ?thesis by (simp split: if_splits)
next
  case (pop j)
  with ttl.wf_pop [OF assms(2)] ttl.held_pop [of j "ec_operation c" i] uses_simps(1) [OF pop(2), of i] show ?thesis by simp
next
  case (use j e deps input fence)
  with ttl.wf_pop [OF assms(2)] ttl.held_pop [of j "ec_operation c" i] uses_simps(2) [OF use(4), of i] show ?thesis by (auto split: if_splits)
next
  case (fired now)
  with ttl.wf_fire [OF assms(2)] ttl.held_fire [of now "ec_operation c" i] uses_simps(1) [OF fired(2), of i] show ?thesis by simp
qed

lemma run_books:
  "cache_wf (ec_operation c) \<Longrightarrow> uses i c \<le> uses i (fold reuse_step cs c)
     \<and> ttl.held (ec_operation (fold reuse_step cs c)) i + uses i (fold reuse_step cs c)
         \<le> ttl.held (ec_operation c) i + uses i c + times_under minted_by i cs"
proof (induction cs arbitrary: c)
  case (Cons k cs)
  from op_effect_books [OF conjunct1 [OF step_effect] Cons.prems, of k i] Cons.IH [of "reuse_step k c"] show ?case
    by (auto simp: times_under_def)
qed (simp add: times_under_def)

theorem evicted_not_reused:
  assumes "times_under minted_by i post = 0"
  shows "uses i (reuse_run (pre @ EstimateEvicted i # post)) = uses i (reuse_run pre)"
proof -
  let ?c = "evict_everywhere i (reuse_run pre)"
  have "cache_wf (ec_operation (reuse_run pre))" using run_inv [of pre] by (simp add: reuse_inv_def ledger_def)
  then have wf: "cache_wf (ec_operation ?c)" by (simp add: evict_everywhere_def ttl.wf_evict)
  have "ttl.held (ec_operation ?c) i = 0" by (simp add: evict_everywhere_def ttl.held_def ttl.look_evict)
  with run_books [OF wf, of i post] assms have "uses i (fold reuse_step post ?c) = uses i ?c" by simp
  moreover have "uses i ?c = uses i (reuse_run pre)" by (simp add: evict_everywhere_def uses_def)
  ultimately show ?thesis by (simp add: reuse_run_def)
qed

section \<open>Instances\<close>

definition demo_network :: network where
  "demo_network = \<lparr>nw_chainId = 1, nw_primaryEndpointId = ''e'', nw_endpoints = [\<lparr>en_id = ''e'', en_rpcUrl = ''u''\<rparr>]\<rparr>"

definition demo_deps :: "time \<Rightarrow> int reuse_deps" where
  "demo_deps now =
     \<lparr>rd_now = now, rd_getNetwork = (\<lambda>_. Inr demo_network),
      rd_getNode = (\<lambda>_. Inr \<lparr>mn_predicted = Some (Inr [(1, 2), (3, 1)]), mn_current = Inr (0, 0)\<rparr>),
      rd_getLiveChainIdentity = (\<lambda>_. Inr (1, 4)), rd_getFpcInfo = (\<lambda>_. Inl ''Invalid id''), rd_getPendingForAccount = (\<lambda>_. [''t'']),
      rd_rules = \<lparr>fr_mul = (\<lambda>f m. (fst f * m, snd f * m)), fr_default = 2\<rparr>\<rparr>"

definition demo_built :: "nat built_operation" where
  "demo_built = \<lparr>bo_network = demo_network, bo_chainIdentity = (1, 4), bo_maxFeesPerGas = (6, 4), bo_rest = 9\<rparr>"

definition demo_approval :: approval_envelope where
  "demo_approval = \<lparr>ap_interactionId = ''x'', ap_index = 0, ap_estimateId = Some ''a'', ap_previewId = Some ''a''\<rparr>"

definition demo_history :: "(nat, int) reuse_call list" where
  "demo_history =
     [Estimated (demo_deps 0) ''a'' ''b'' True (Inr (Some ''p'')) (demo_operation ANull None) demo_built [''h''] (Some (''x'', 0)),
      ConfirmedStandard (demo_deps 5) (Some demo_approval) (demo_operation ANull None) ''p'' (Inr ()) (Inl []) (Inl [])]"

lemmas demo_defs = demo_history_def demo_approval_def demo_built_def demo_deps_def demo_network_def

lemma demo_print: "\<exists>f. fingerprintOperation (demo_operation ANull None) = Some f"
  by (simp add: fingerprintOperation_def demo_operation_def encodeAction_def encodeValue.simps MAX_VALUE_DEPTH_def)

lemma demo_minted:
  "\<exists>e. stashOperationEstimate (demo_deps 0) True (Inr (Some ''p'')) (demo_operation ANull None) demo_built [''h''] = Some e
     \<and> operation_ladder (demo_deps 5) (demo_operation ANull None) ''p'' e = Hit e \<and> oe_discoveredHashes e = [''h''] \<and> oe_builtAt e = 0"
proof -
  obtain f where f: "fingerprintOperation (demo_operation ANull None) = Some f" using demo_print by blast
  have op: "oi_executionMode (demo_operation ANull None) = ''standard''" "oi_fee (demo_operation ANull None) = None"
    "oi_feeSettings (demo_operation ANull None) = \<lparr>fs_paymentMethod = PayFj, fs_priorityLevel = None\<rparr>" by (simp_all add: demo_operation_def)
  show ?thesis
    by (simp add: stashOperationEstimate_def reuse_eligible_def f op primary_of_def demo_defs resolve_fpc_def operation_ladder_hit
        ESTIMATE_REUSE_TTL_MS_def predictedWorstMinFees_def worst_of_def multiplier_of_def)
qed

lemma demo_run:
  "\<exists>e. ec_used (reuse_run demo_history) = [(''a'', demo_operation ANull None, ''p'', demo_deps 5, e)]
     \<and> ec_signed (reuse_run demo_history) = [(demo_approval, [''h''])]"
proof -
  obtain e where st: "stashOperationEstimate (demo_deps 0) True (Inr (Some ''p'')) (demo_operation ANull None) demo_built [''h''] = Some e"
    and hit: "operation_ladder (demo_deps 5) (demo_operation ANull None) ''p'' e = Hit e" and e: "oe_discoveredHashes e = [''h'']" "oe_builtAt e = 0"
    using demo_minted by blast
  have fee: "oi_fee (demo_operation ANull None) = None" by (simp add: demo_operation_def)
  have now: "rd_now (demo_deps t) = t" for t by (simp add: demo_deps_def)
  have "ec_used (reuse_run demo_history) = [(''a'', demo_operation ANull None, ''p'', demo_deps 5, e)]"
    "ec_signed (reuse_run demo_history) = [(demo_approval, [''h''])]"
    by (simp_all add: reuse_run_def demo_history_def estimate_stashed_def st writePreview_def snapshot_of_def empty_caches_def empty_cache_def
        cache_stash_def evictStale_def e now ESTIMATE_REUSE_TTL_MS_def confirm_standard_def assertEstimateBinding_def demo_approval_def
        require_e_def take_preview_def given_id_def cache_consume_def cache_evict_def resolveStandardBuild_def tryConsume_operation_def hit
        assertWithinPreview_def fee Let_def)
  then show ?thesis by blast
qed

theorem operation_reuse_sound_witness:
  "uses ''a'' (reuse_run demo_history) = 1 \<and> times_under minted_by ''a'' demo_history = 1 \<and> uses ''a'' (reuse_run demo_history) \<le> 1"
proof -
  obtain e where run: "ec_used (reuse_run demo_history) = [(''a'', demo_operation ANull None, ''p'', demo_deps 5, e)]" using demo_run by blast
  then have "(''a'', demo_operation ANull None, ''p'', demo_deps 5, e) \<in> set (ec_used (reuse_run demo_history))" by simp
  from operation_reuse_sound [OF this] have "uses ''a'' (reuse_run demo_history) \<le> times_under minted_by ''a'' demo_history" by blast
  moreover have "times_under minted_by ''a'' demo_history = 1"
    using demo_minted by (auto simp: times_under_def demo_history_def)
  ultimately show ?thesis using run by (simp add: uses_def)
qed

theorem approval_signs_shown_witness:
  "(demo_approval, [''h'']) \<in> set (ec_signed (reuse_run demo_history))
   \<and> (\<exists>k\<in>set demo_history. \<exists>s. shown_by k = Some (''a'', s) \<and> ''h'' \<in> set (ps_discoveredHashes s))"
proof -
  have signed: "(demo_approval, [''h'']) \<in> set (ec_signed (reuse_run demo_history))" using demo_run by auto
  from approval_signs_shown [OF this] have "\<exists>k\<in>set demo_history. \<exists>s. shown_by k = Some (''a'', s) \<and> ''h'' \<in> set (ps_discoveredHashes s)"
    by (auto simp: demo_approval_def)
  with signed show ?thesis by blast
qed

definition demo_transfer :: transfer_request where
  "demo_transfer =
     \<lparr>tr_networkId = ''n'', tr_accountAddress = ''0x1'', tr_tokenId = 3, tr_transferType = TransferPrivate, tr_recipientAddress = ''0x2'',
      tr_amount = 50, tr_feeSettings = \<lparr>fs_paymentMethod = PayFj, fs_priorityLevel = Some PriorityFast\<rparr>\<rparr>"

theorem transfer_reuse_exact_witness:
  "\<exists>e. let cache = cache_stash te_builtAt ESTIMATE_REUSE_TTL_MS 0 ''a'' e empty_cache
       in stashTransferEstimate (demo_deps 0) (Inr (Some ''p'')) demo_transfer demo_network (9, 6) (7 :: nat) = Some e
        \<and> fst (tryConsume_transfer (demo_deps 5) ''a'' demo_transfer ''p'' cache) = Hit e
        \<and> fst (tryConsume_transfer (demo_deps 5) ''a'' (demo_transfer\<lparr>tr_amount := 51\<rparr>) ''p'' cache) \<noteq> Hit e"
proof -
  obtain e where st: "stashTransferEstimate (demo_deps 0) (Inr (Some ''p'')) demo_transfer demo_network (9, 6) (7 :: nat) = Some e" and now: "te_builtAt e = 0"
    by (simp add: stashTransferEstimate_def demo_transfer_def demo_network_def primary_of_def demo_deps_def)
  let ?c = "cache_stash te_builtAt ESTIMATE_REUSE_TTL_MS 0 ''a'' e empty_cache"
  have "cache_wf (empty_cache :: nat transfer_entry ttl_cache)" by (simp add: cache_wf_def empty_cache_def)
  then have held: "cache_get ?c ''a'' = Some e" by (simp add: get_stash now ESTIMATE_REUSE_TTL_MS_def)
  have "fst (tryConsume_transfer (demo_deps 5) ''a'' demo_transfer ''p'' ?c) = Hit e"
    using transfer_reuse_exact [OF held st, of "demo_deps 5" demo_transfer "''p''" e]
    by (auto simp: demo_deps_def demo_network_def primary_of_def predictedWorstMinFees_def worst_of_def multiplier_of_def demo_transfer_def)
  moreover have "demo_transfer\<lparr>tr_amount := 51\<rparr> \<noteq> demo_transfer" by (simp add: demo_transfer_def)
  with transfer_reuse_exact [OF held st, of "demo_deps 5" "demo_transfer\<lparr>tr_amount := 51\<rparr>" "''p''" e]
  have "fst (tryConsume_transfer (demo_deps 5) ''a'' (demo_transfer\<lparr>tr_amount := 51\<rparr>) ''p'' ?c) \<noteq> Hit e" by blast
  ultimately show ?thesis using st by (auto simp: Let_def)
qed

end
