(* ===== verification/Amount.thy ===== *)
theory Amount
  imports Js_Number
begin

text \<open>
  Amounts as text, \<^verbatim>\<open>utils/amount.ts\<close> and \<^verbatim>\<open>restingAmount\<close> of \<^verbatim>\<open>components/composite/send/amount-field.ts\<close>:
  what a typed text reads as, base units to text and back, the cut to a width. Units and decimals are
  integers; the regular expressions are written out as the scans they denote. Of the spaces that group
  digits the two below 256 exist here.
\<close>

section \<open>Text helpers\<close>

datatype amount_error = InvalidDecimals | EmptyAmount | NonNumeric | TooManyDecimals

definition padEnd :: "nat \<Rightarrow> string \<Rightarrow> string" where
  "padEnd n s = s @ replicate (n - length s) CHR ''0''"

definition padStart :: "nat \<Rightarrow> string \<Rightarrow> string" where
  "padStart n s = replicate (n - length s) CHR ''0'' @ s"

text \<open>\<^verbatim>\<open>/^\d*\.?\d*$/\<close>\<close>

definition plain_form :: "string \<Rightarrow> bool" where
  "plain_form t =
     (case dropWhile is_digit t of
        [] \<Rightarrow> True
      | c # r \<Rightarrow> c = CHR ''.'' \<and> list_all is_digit r)"

definition strip_zeros :: "string \<Rightarrow> string" where
  "strip_zeros s = (let r = dropWhile (\<lambda>c. c = CHR ''0'') s in if r = [] then (if s = [] then [] else ''0'') else r)"

section \<open>Base units from text\<close>

definition parseAmountToBaseUnits :: "string \<Rightarrow> int \<Rightarrow> amount_error + nat" where
  "parseAmountToBaseUnits value decimals =
     (if decimals < 0 then Inl InvalidDecimals
      else if value = [] \<or> value = ''.'' then Inl EmptyAmount
      else if \<not> plain_form value then Inl NonNumeric
      else
        (let intPart = takeWhile (\<lambda>c. c \<noteq> CHR ''.'') value;
             fracPart = drop 1 (dropWhile (\<lambda>c. c \<noteq> CHR ''.'') value)
         in if int (length fracPart) > decimals then Inl TooManyDecimals
            else Inr (dec_value 0 (strip_zeros ((if intPart = [] then ''0'' else intPart) @ padEnd (nat decimals) fracPart)))))"

definition isValidAmount :: "string \<Rightarrow> bool" where
  "isValidAmount value = (case parseAmountToBaseUnits value 18 of Inl _ \<Rightarrow> False | Inr units \<Rightarrow> units > 0)"

definition clampDecimals :: "string \<Rightarrow> int \<Rightarrow> string" where
  "clampDecimals value maxDecimals =
     (if maxDecimals < 0 \<or> CHR ''.'' \<notin> set value then value
      else
        (let dotIdx = length (takeWhile (\<lambda>c. c \<noteq> CHR ''.'') value)
         in if maxDecimals = 0 then take dotIdx value
            else take (dotIdx + 1 + nat maxDecimals) value))"

section \<open>Text from base units\<close>

record format_opts =
  fo_maxDecimals :: "nat option"
  fo_minDecimals :: nat
  fo_trim :: "bool option"
  fo_decimalSep :: string
  fo_thousandsSep :: string

text \<open>\<^verbatim>\<open>/\B(?=(\d{3})+(?!\d))/g\<close>: a separator before every whole number of groups, but not in front.\<close>

fun grouped_tail :: "string \<Rightarrow> string \<Rightarrow> string" where
  "grouped_tail sep [] = []"
| "grouped_tail sep (c # cs) = (if Suc (length cs) mod 3 = 0 then sep else []) @ c # grouped_tail sep cs"

fun group_digits :: "string \<Rightarrow> string \<Rightarrow> string" where
  "group_digits sep [] = []"
| "group_digits sep (c # cs) = c # grouped_tail sep cs"

text \<open>The loop that drops zeros at the end, down to the smallest number of decimals.\<close>

fun trim_zeros :: "nat \<Rightarrow> string \<Rightarrow> string" where
  "trim_zeros n s = (if length s > n \<and> s \<noteq> [] \<and> last s = CHR ''0'' then trim_zeros n (butlast s) else s)"

declare trim_zeros.simps [simp del]

definition frac_text :: "format_opts \<Rightarrow> nat \<Rightarrow> nat \<Rightarrow> string" where
  "frac_text opts decimals u =
     (let f0 = (if decimals = 0 then [] else padStart decimals (nat_dec (u mod 10 ^ decimals)));
          f1 = (case fo_maxDecimals opts of None \<Rightarrow> f0 | Some m \<Rightarrow> take m f0);
          f2 = padEnd (fo_minDecimals opts) f1
      in if or_else (fo_trim opts) (fo_minDecimals opts = 0) then trim_zeros (fo_minDecimals opts) f2 else f2)"

definition formatBaseUnits :: "int option \<Rightarrow> int \<Rightarrow> format_opts \<Rightarrow> amount_error + string" where
  "formatBaseUnits units decimals opts =
     (if decimals < 0 then Inl InvalidDecimals
      else (case units of
              None \<Rightarrow> Inr ''0''
            | Some v \<Rightarrow>
                (let u = nat \<bar>v\<bar>;
                     whole = nat_dec (u div 10 ^ nat decimals);
                     frac = frac_text opts (nat decimals) u
                 in Inr ((if v < 0 then ''-'' else []) @ (if fo_thousandsSep opts = [] then whole else group_digits (fo_thousandsSep opts) whole)
                      @ (if frac = [] then [] else fo_decimalSep opts @ frac)))))"

section \<open>Reading a typed text\<close>

datatype amount_read = Reads string | Ambiguous | Unreadable

definition group_space :: "char \<Rightarrow> bool" where
  "group_space c = (code_of c = 32 \<or> code_of c = 160)"

text \<open>The groups \<^verbatim>\<open>(?:,\d{3})+\<close> at the front of a text: how many, and the rest.\<close>

fun take_groups :: "(char \<Rightarrow> bool) \<Rightarrow> string \<Rightarrow> nat \<times> string" where
  "take_groups sep (c # x # y # z # r) =
     (if sep c \<and> is_digit x \<and> is_digit y \<and> is_digit z
      then (let (n, r') = take_groups sep r in (Suc n, r'))
      else (0, c # x # y # z # r))"
| "take_groups sep t = (0, t)"

definition grouped_form :: "bool \<Rightarrow> (char \<Rightarrow> bool) \<Rightarrow> (char \<Rightarrow> bool) \<Rightarrow> string \<Rightarrow> bool" where
  "grouped_form lead sep point t =
     (let head = takeWhile is_digit t; (n, r) = take_groups sep (dropWhile is_digit t)
      in head \<noteq> [] \<and> length head \<le> 3 \<and> (lead \<longrightarrow> hd head \<noteq> CHR ''0'') \<and> n \<ge> 1
         \<and> (case r of [] \<Rightarrow> True | c # ds \<Rightarrow> point c \<and> list_all is_digit ds))"

text \<open>\<^verbatim>\<open>/^[1-9]\d{0,2},\d{3}$/\<close>: one group and nothing after it.\<close>

definition two_readings :: "string \<Rightarrow> bool" where
  "two_readings t \<longleftrightarrow> grouped_form True (\<lambda>c. c = CHR '','') (\<lambda>c. False) t
     \<and> fst (take_groups (\<lambda>c. c = CHR '','') (dropWhile is_digit t)) = 1"

definition remove_char :: "char \<Rightarrow> string \<Rightarrow> string" where
  "remove_char x = filter (\<lambda>c. c \<noteq> x)"

text \<open>\<^verbatim>\<open>replace(",", ".")\<close> replaces the first comma.\<close>

fun comma_to_point :: "string \<Rightarrow> string" where
  "comma_to_point [] = []"
| "comma_to_point (c # cs) = (if c = CHR '','' then CHR ''.'' # cs else c # comma_to_point cs)"

definition comma_decimal :: "string \<Rightarrow> bool" where
  "comma_decimal t = (case dropWhile is_digit t of [] \<Rightarrow> False | c # r \<Rightarrow> c = CHR '','' \<and> list_all is_digit r)"

definition readAmountText :: "string \<Rightarrow> string option \<Rightarrow> bool \<Rightarrow> amount_read" where
  "readAmountText txt rested dollar =
     (let t0 = js_trim txt;
          t = (if dollar \<and> t0 \<noteq> [] \<and> hd t0 = CHR ''$'' then tl t0 else t0)
      in if \<not> list_ex is_digit t then Unreadable
         else if Some txt = rested \<and> grouped_form False (\<lambda>c. c = CHR '','') (\<lambda>c. c = CHR ''.'') t then Reads (remove_char CHR '','' t)
         else if plain_form t then Reads t
         else if two_readings t then Ambiguous
         else if grouped_form True (\<lambda>c. c = CHR '','') (\<lambda>c. c = CHR ''.'') t then Reads (remove_char CHR '','' t)
         else if grouped_form True (\<lambda>c. c = CHR ''.'') (\<lambda>c. c = CHR '','') t then Reads (comma_to_point (remove_char CHR ''.'' t))
         else if grouped_form True group_space (\<lambda>c. c = CHR ''.'' \<or> c = CHR '','') t then Reads (comma_to_point (filter (\<lambda>c. \<not> group_space c) t))
         else if comma_decimal t then Reads (comma_to_point t)
         else Unreadable)"

definition resting_opts :: format_opts where
  "resting_opts = \<lparr>fo_maxDecimals = None, fo_minDecimals = 0, fo_trim = None, fo_decimalSep = ''.'', fo_thousandsSep = '',''\<rparr>"

definition restingAmount :: "string \<Rightarrow> int \<Rightarrow> string" where
  "restingAmount value decimals =
     (case parseAmountToBaseUnits (js_trim value) decimals of
        Inl _ \<Rightarrow> value
      | Inr u \<Rightarrow> (case formatBaseUnits (Some (int u)) decimals resting_opts of Inl _ \<Rightarrow> value | Inr s \<Rightarrow> s))"

section \<open>The cut to a width\<close>

definition COMPACT_SUFFIXES :: string where
  "COMPACT_SUFFIXES = ''KMBT''"

fun pick_tier :: "nat \<Rightarrow> nat \<Rightarrow> nat" where
  "pick_tier whole (Suc (Suc n)) = (if whole < 1000 ^ Suc (Suc n) then pick_tier whole (Suc n) else Suc (Suc n))"
| "pick_tier whole n = n"

text \<open>The first part of \<^verbatim>\<open>split(sep)\<close>.\<close>

fun before :: "string \<Rightarrow> string \<Rightarrow> string" where
  "before sep [] = []"
| "before sep (c # cs) = (if sep = [] then [c] else if take (length sep) (c # cs) = sep then [] else c # before sep cs)"

definition compactCut :: "string \<Rightarrow> nat \<Rightarrow> nat \<Rightarrow> nat \<Rightarrow> string \<Rightarrow> string" where
  "compactCut fullValue units decimals len decimalSep =
     (if length (before decimalSep fullValue) \<le> len
      then (let cut = take len fullValue
            in if drop (length cut - length decimalSep) cut = decimalSep then take (length cut - length decimalSep) cut else cut)
      else
        (let whole = units div 10 ^ decimals
         in if whole \<ge> 1000 ^ 5 then ''>999T''
            else
              (let tier = pick_tier whole 4;
                   head = nat_dec (whole div 1000 ^ tier);
                   places = min 2 (len - length head - 2);
                   frac = trim_zeros 0 (take places (padStart (3 * tier) (nat_dec (whole mod 1000 ^ tier))))
               in head @ (if frac = [] then [] else decimalSep @ frac) @ [COMPACT_SUFFIXES ! (tier - 1)])))"

record locale_seps =
  ls_decimal :: string
  ls_thousands :: string

definition locale_opts :: "locale_seps \<Rightarrow> format_opts" where
  "locale_opts loc = \<lparr>fo_maxDecimals = None, fo_minDecimals = 0, fo_trim = None, fo_decimalSep = ls_decimal loc, fo_thousandsSep = ls_thousands loc\<rparr>"

text \<open>The shown value and whether it is less than the full one; a missing or zero length shows all of it.\<close>

definition balanceFormatted :: "locale_seps \<Rightarrow> nat option \<Rightarrow> nat \<Rightarrow> nat option \<Rightarrow> bool \<Rightarrow> string \<times> bool" where
  "balanceFormatted loc units decimals len compact =
     (case units of
        None \<Rightarrow> (''0'', False)
      | Some u \<Rightarrow>
          if u = 0 then (''0'', False)
          else
            (let fullValue = (case formatBaseUnits (Some (int u)) (int decimals) (locale_opts loc) of Inr s \<Rightarrow> s | Inl _ \<Rightarrow> [])
             in case len of
                  None \<Rightarrow> (fullValue, False)
                | Some n \<Rightarrow>
                    if n = 0 then (fullValue, False)
                    else if n > 2 \<and> n - 2 < decimals \<and> u < 10 ^ (decimals - (n - 2))
                         then (''<0'' @ ls_decimal loc @ replicate (n - 3) CHR ''0'' @ ''1'', True)
                    else if length fullValue > n
                         then (if compact then compactCut fullValue u decimals n (ls_decimal loc) else take n fullValue, True)
                    else (fullValue, False)))"

section \<open>Decimal values\<close>

lemma dec_value_acc: "dec_value acc cs = acc * 10 ^ length cs + dec_value 0 cs"
proof (induction cs arbitrary: acc)
  case (Cons c cs)
  show ?case
    using Cons [of "acc * 10 + (code_of c - 48)"] Cons [of "code_of c - 48"] by (simp add: algebra_simps)
qed simp

lemma dec_value_append: "dec_value 0 (xs @ ys) = dec_value 0 xs * 10 ^ length ys + dec_value 0 ys"
proof -
  have "dec_value acc (xs @ ys) = dec_value (dec_value acc xs) ys" for acc
    by (induction xs arbitrary: acc) auto
  then show ?thesis by (simp add: dec_value_acc [of "dec_value 0 xs"])
qed

lemma code_zero [simp]: "code_of CHR ''0'' = 48"
  by (simp add: code_of_def)

lemma dec_value_zeros [simp]: "dec_value 0 (replicate n CHR ''0'') = 0"
  by (induction n) auto

lemma dec_value_zeros_front [simp]: "dec_value 0 (replicate n CHR ''0'' @ s) = dec_value 0 s"
  by (simp add: dec_value_append)

lemma dec_value_strip [simp]: "dec_value 0 (strip_zeros s) = dec_value 0 s"
proof -
  have eq: "dec_value 0 (dropWhile (\<lambda>c. c = CHR ''0'') s) = dec_value 0 s"
    by (induction s) auto
  show ?thesis
  proof (cases "dropWhile (\<lambda>c. c = CHR ''0'') s = []")
    case True
    have "dec_value 0 s = 0" using eq unfolding True by simp
    then show ?thesis unfolding strip_zeros_def Let_def True by simp
  next
    case False
    then show ?thesis unfolding strip_zeros_def Let_def using eq by (simp only: if_False)
  qed
qed

lemma dec_value_bound: "list_all is_digit s \<Longrightarrow> dec_value 0 s < 10 ^ length s"
proof (induction s rule: rev_induct)
  case (snoc c s)
  then have "code_of c - 48 < 10"
    by (auto simp: is_digit_code)
  then show ?case
    using snoc by (simp add: dec_value_snoc)
qed simp

lemma nat_dec_length: "m < 10 ^ d \<Longrightarrow> 0 < d \<Longrightarrow> length (nat_dec m) \<le> d"
proof (induction d arbitrary: m)
  case (Suc d)
  show ?case
  proof (cases "m < 10")
    case True
    then show ?thesis by (subst nat_dec.simps) simp
  next
    case False
    then have "0 < d" using Suc.prems by (cases d) auto
    moreover have "m div 10 < 10 ^ d" using Suc.prems by (simp add: less_mult_imp_div_less mult.commute)
    ultimately have "length (nat_dec (m div 10)) \<le> d" using Suc.IH by blast
    then show ?thesis using False by (subst nat_dec.simps) simp
  qed
qed simp

lemma trim_zeros_pad: "trim_zeros n s @ replicate (length s - length (trim_zeros n s)) CHR ''0'' = s"
proof (induction n s rule: trim_zeros.induct)
  case (1 n s)
  show ?case
  proof (cases "length s > n \<and> s \<noteq> [] \<and> last s = CHR ''0''")
    case True
    then have ih: "trim_zeros n (butlast s) @ replicate (length (butlast s) - length (trim_zeros n (butlast s))) CHR ''0'' = butlast s"
      using 1 by blast
    then have "length (trim_zeros n (butlast s)) \<le> length (butlast s)"
      by (metis length_append le_add1)
    then have "length s - length (trim_zeros n (butlast s)) = Suc (length (butlast s) - length (trim_zeros n (butlast s)))"
      using True by (cases s) auto
    then have "trim_zeros n (butlast s) @ replicate (length s - length (trim_zeros n (butlast s))) CHR ''0'' = butlast s @ [last s]"
      using ih True by (simp add: replicate_append_same [symmetric] del: append_butlast_last_id)
    then have "trim_zeros n (butlast s) @ replicate (length s - length (trim_zeros n (butlast s))) CHR ''0'' = s"
      using True append_butlast_last_id by metis
    then show ?thesis
      using True by (subst (1 2) trim_zeros.simps) simp
  next
    case False
    then show ?thesis by (subst (1 2) trim_zeros.simps) auto
  qed
qed

lemma trim_zeros_length: "length (trim_zeros n s) \<le> length s"
  using arg_cong [OF trim_zeros_pad [of n s], of length] by simp

lemma padEnd_trim: "length s = d \<Longrightarrow> padEnd d (trim_zeros n s) = s"
  using trim_zeros_pad [of n s] by (simp add: padEnd_def)

lemma trim_zeros_digits: "list_all is_digit s \<Longrightarrow> list_all is_digit (trim_zeros n s)"
  using trim_zeros_pad [of n s] by (metis list_all_append)

section \<open>Parsing\<close>

lemma point_no_digit [simp]: "\<not> is_digit CHR ''.''" "\<not> is_digit CHR '',''" "\<not> is_digit CHR ''$''" "\<not> is_digit CHR ''-''"
  by (simp_all add: is_digit_code code_of_def)

lemma is_digit_zero [simp]: "is_digit CHR ''0''"
  by (simp add: is_digit_code code_of_def)

lemma digit_not_point: "is_digit c \<Longrightarrow> c \<noteq> CHR ''.'' \<and> c \<noteq> CHR '','' \<and> c \<noteq> CHR ''$'' \<and> \<not> group_space c"
  by (auto simp: is_digit_code code_of_def group_space_def)

lemma takeWhile_digits: "list_all is_digit i \<Longrightarrow> takeWhile is_digit (i @ c # r) = (if is_digit c then i @ c # takeWhile is_digit r else i)"
  by (induction i) auto

lemma dropWhile_digits: "list_all is_digit i \<Longrightarrow> \<not> is_digit c \<Longrightarrow> dropWhile is_digit (i @ c # r) = c # r"
  by (induction i) auto

lemma dropWhile_all: "list_all P i \<Longrightarrow> dropWhile P i = []"
  by (induction i) auto

lemma takeWhile_all: "list_all P i \<Longrightarrow> takeWhile P i = i"
  by (induction i) auto

lemma plain_formE:
  assumes "plain_form t"
  obtains (whole) "list_all is_digit t" | (point) i f where "t = i @ CHR ''.'' # f" "list_all is_digit i" "list_all is_digit f"
proof (cases "dropWhile is_digit t")
  case Nil
  then have "list_all is_digit t" by (simp add: list_all_iff dropWhile_eq_Nil_conv)
  then show thesis by (rule whole)
next
  case (Cons c r)
  have "t = takeWhile is_digit t @ c # r"
    using takeWhile_dropWhile_id [of is_digit t] Cons by simp
  moreover have "list_all is_digit (takeWhile is_digit t)"
    by (auto simp: list_all_iff dest: set_takeWhileD)
  ultimately show thesis using point assms Cons by (simp add: plain_form_def)
qed

lemma plain_whole [simp]: "list_all is_digit i \<Longrightarrow> plain_form i"
  by (simp add: plain_form_def dropWhile_all)

lemma plain_point [simp]: "list_all is_digit i \<Longrightarrow> list_all is_digit f \<Longrightarrow> plain_form (i @ CHR ''.'' # f)"
  by (simp add: plain_form_def dropWhile_digits)

lemma split_point:
  assumes "list_all is_digit i"
  shows "takeWhile (\<lambda>c. c \<noteq> CHR ''.'') (i @ CHR ''.'' # f) = i" "dropWhile (\<lambda>c. c \<noteq> CHR ''.'') (i @ CHR ''.'' # f) = CHR ''.'' # f"
    "takeWhile (\<lambda>c. c \<noteq> CHR ''.'') i = i" "dropWhile (\<lambda>c. c \<noteq> CHR ''.'') i = []"
  using assms by (induction i) (auto dest: digit_not_point)

lemma dec_value_int_part: "dec_value 0 ((if i = [] then ''0'' else i) @ f) = dec_value 0 (i @ f)"
  by simp

lemma parse_point:
  assumes "list_all is_digit i" "list_all is_digit f" "i \<noteq> [] \<or> f \<noteq> []" "int (length f) \<le> d"
  shows "parseAmountToBaseUnits (i @ CHR ''.'' # f) d = Inr (dec_value 0 (i @ padEnd (nat d) f))"
proof -
  have "i @ CHR ''.'' # f \<noteq> ''.''"
    using assms(3) by (cases i) auto
  then show ?thesis
    using assms by (simp add: parseAmountToBaseUnits_def split_point Let_def dec_value_int_part)
qed

lemma parse_whole:
  assumes "list_all is_digit i" "i \<noteq> []" "0 \<le> d"
  shows "parseAmountToBaseUnits i d = Inr (dec_value 0 i * 10 ^ nat d)"
proof -
  have "i \<noteq> ''.''"
    using assms(1) by auto
  then show ?thesis
    using assms by (simp add: parseAmountToBaseUnits_def split_point Let_def padEnd_def dec_value_append)
qed

section \<open>Formatting\<close>

definition plain_opts :: "nat option \<Rightarrow> format_opts" where
  "plain_opts m = \<lparr>fo_maxDecimals = m, fo_minDecimals = 0, fo_trim = None, fo_decimalSep = ''.'', fo_thousandsSep = []\<rparr>"

definition cut_of :: "nat option \<Rightarrow> nat \<Rightarrow> nat" where
  "cut_of m d = (case m of None \<Rightarrow> 0 | Some k \<Rightarrow> d - k)"

lemma padStart_digits: "list_all is_digit s \<Longrightarrow> list_all is_digit (padStart d s)"
  by (auto simp: padStart_def list_all_iff)

lemma frac_digits:
  assumes "0 < d"
  shows "length (padStart d (nat_dec (u mod 10 ^ d))) = d" "list_all is_digit (padStart d (nat_dec (u mod 10 ^ d)))"
    "dec_value 0 (padStart d (nat_dec (u mod 10 ^ d))) = u mod 10 ^ d"
  using nat_dec_length [of "u mod 10 ^ d" d] assms
  by (simp_all add: padStart_def nat_dec_value nat_dec_all_digits list_all_iff [of _ "replicate _ _"])

lemma dec_value_cut:
  assumes "list_all is_digit f" "length f = d" "k \<le> d"
  shows "dec_value 0 (take k f @ replicate (d - k) CHR ''0'') = dec_value 0 f div 10 ^ (d - k) * 10 ^ (d - k)"
proof -
  have "dec_value 0 f = dec_value 0 (take k f) * 10 ^ (d - k) + dec_value 0 (drop k f)"
    using dec_value_append [of "take k f" "drop k f"] assms(2) by simp
  moreover have "dec_value 0 (drop k f) < 10 ^ (d - k)"
    using dec_value_bound [of "drop k f"] assms by (auto simp: list_all_iff dest: in_set_dropD)
  ultimately show ?thesis
    by (simp add: dec_value_append)
qed

lemma frac_text_plain:
  assumes "0 < d"
  shows "list_all is_digit (frac_text (plain_opts m) d u)" "length (frac_text (plain_opts m) d u) \<le> d"
    "dec_value 0 (padEnd d (frac_text (plain_opts m) d u)) = u mod 10 ^ d div 10 ^ cut_of m d * 10 ^ cut_of m d"
proof -
  let ?f = "padStart d (nat_dec (u mod 10 ^ d))"
  let ?g = "case m of None \<Rightarrow> ?f | Some k \<Rightarrow> take k ?f"
  have ft: "frac_text (plain_opts m) d u = trim_zeros 0 ?g"
    using assms by (simp add: frac_text_def plain_opts_def padEnd_def Let_def)
  have g: "list_all is_digit ?g" "length ?g \<le> d"
    using frac_digits [OF assms, of u] by (auto simp: list_all_iff dest: in_set_takeD split: option.split)
  have pad: "padEnd d ?g = take (d - cut_of m d) ?f @ replicate (cut_of m d) CHR ''0''"
  proof (cases m)
    case (Some k)
    then show ?thesis
      using frac_digits(1) [OF assms, of u] by (cases "k \<le> d") (simp_all add: cut_of_def padEnd_def)
  qed (use frac_digits(1) [OF assms, of u] in \<open>simp add: cut_of_def padEnd_def\<close>)
  have "padEnd d (trim_zeros 0 ?g) = padEnd d ?g"
  proof -
    let ?t = "trim_zeros 0 ?g"
    have "replicate (d - length ?t) CHR ''0'' = replicate (length ?g - length ?t) CHR ''0'' @ replicate (d - length ?g) CHR ''0''"
      using g(2) trim_zeros_length [of 0 ?g] by (simp add: replicate_add [symmetric])
    then show ?thesis
      using trim_zeros_pad [of 0 ?g] unfolding padEnd_def by (metis append.assoc)
  qed
  then show "dec_value 0 (padEnd d (frac_text (plain_opts m) d u)) = u mod 10 ^ d div 10 ^ cut_of m d * 10 ^ cut_of m d"
    using ft pad dec_value_cut [of ?f d "d - cut_of m d"] frac_digits [OF assms, of u]
    by (simp add: cut_of_def split: option.splits)
  show "list_all is_digit (frac_text (plain_opts m) d u)" "length (frac_text (plain_opts m) d u) \<le> d"
    using ft g(1,2) trim_zeros_digits trim_zeros_length [of 0 ?g] by auto
qed

lemma mod_cut:
  assumes "k \<le> d"
  shows "u mod (10 ^ d) div 10 ^ k * 10 ^ k + u div 10 ^ d * 10 ^ d = u div 10 ^ k * (10 ^ k :: nat)"
proof -
  obtain e where d: "d = k + e" using le_Suc_ex [OF assms] by blast
  have cut: "u mod (10 ^ k * 10 ^ e) div 10 ^ k = u div 10 ^ k mod 10 ^ e"
    unfolding mod_mult2_eq by simp
  have "u div (10 ^ k * 10 ^ e) * 10 ^ e + u div 10 ^ k mod 10 ^ e = u div 10 ^ k"
    unfolding div_mult2_eq by (rule div_mult_mod_eq)
  then have "(u div (10 ^ k * 10 ^ e) * 10 ^ e + u div 10 ^ k mod 10 ^ e) * 10 ^ k = u div 10 ^ k * 10 ^ k"
    by (rule arg_cong)
  then show ?thesis
    unfolding d power_add cut by (simp only: add_mult_distrib mult.assoc mult.commute [of "10 ^ e" "10 ^ k"] add.commute)
qed

lemma nat_abs_int [simp]: "nat \<bar>int u\<bar> = u"
  by simp

lemma format_plain:
  assumes "0 \<le> d"
  shows "formatBaseUnits (Some (int u)) d (plain_opts m) = Inr (nat_dec (u div 10 ^ nat d)
    @ (if frac_text (plain_opts m) (nat d) u = [] then [] else CHR ''.'' # frac_text (plain_opts m) (nat d) u))"
  using assms by (simp add: formatBaseUnits_def plain_opts_def Let_def)

lemma format_plain_parse:
  assumes "0 \<le> d"
  shows "parseAmountToBaseUnits (nat_dec (u div 10 ^ nat d)
    @ (if frac_text (plain_opts m) (nat d) u = [] then [] else CHR ''.'' # frac_text (plain_opts m) (nat d) u)) d
    = Inr (u div 10 ^ cut_of m (nat d) * 10 ^ cut_of m (nat d))"
proof (cases "nat d = 0")
  case True
  then have "frac_text (plain_opts m) (nat d) u = []" "cut_of m (nat d) = 0"
    by (simp_all add: frac_text_def plain_opts_def padEnd_def trim_zeros.simps cut_of_def split: option.split)
  then show ?thesis
    using True assms by (simp add: parse_whole nat_dec_all_digits nat_dec_value)
next
  case False
  let ?f = "frac_text (plain_opts m) (nat d) u" and ?i = "nat_dec (u div 10 ^ nat d)" and ?k = "cut_of m (nat d)"
  have f: "list_all is_digit ?f" "length ?f \<le> nat d"
    and v: "dec_value 0 (padEnd (nat d) ?f) = u mod 10 ^ nat d div 10 ^ ?k * 10 ^ ?k"
    using frac_text_plain [of "nat d" m u] False by auto
  have "?k \<le> nat d"
    by (simp add: cut_of_def split: option.split)
  then have val: "u div 10 ^ nat d * 10 ^ nat d + dec_value 0 (padEnd (nat d) ?f) = u div 10 ^ ?k * 10 ^ ?k"
    using mod_cut [of ?k "nat d" u] v by simp
  have len: "length (padEnd (nat d) ?f) = nat d"
    using f(2) by (simp add: padEnd_def)
  show ?thesis
  proof (cases "?f = []")
    case True
    then have "dec_value 0 (padEnd (nat d) ?f) = 0" by (simp add: padEnd_def)
    then show ?thesis
      using True val assms by (simp add: parse_whole nat_dec_all_digits nat_dec_value)
  next
    case False
    have "int (length ?f) \<le> d"
      using f(2) assms by (simp add: le_nat_iff)
    then show ?thesis
      using parse_point [OF nat_dec_all_digits f(1), of "u div 10 ^ nat d" d] False val len
      by (simp add: dec_value_append nat_dec_value)
  qed
qed

section \<open>Grouping\<close>

lemma remove_group: "list_all is_digit ds \<Longrightarrow> remove_char CHR '','' (grouped_tail '','' ds) = ds"
  by (induction ds) (auto simp: remove_char_def dest: digit_not_point)

lemma remove_group_digits: "list_all is_digit ds \<Longrightarrow> remove_char CHR '','' (group_digits '','' ds) = ds"
  using remove_group by (cases ds) (auto simp: remove_char_def dest: digit_not_point)

lemma take_groups_none: "(case r of [] \<Rightarrow> True | c # _ \<Rightarrow> \<not> sep c) \<Longrightarrow> take_groups sep r = (0, r)"
  by (cases "(sep, r)" rule: take_groups.cases) auto

lemma take_groups_tail:
  assumes "list_all is_digit ds" "length ds = 3 * k" "case r of [] \<Rightarrow> True | c # _ \<Rightarrow> c \<noteq> CHR '',''"
  shows "take_groups (\<lambda>c. c = CHR '','') (grouped_tail '','' ds @ r) = (k, r)"
  using assms
proof (induction k arbitrary: ds)
  case 0
  then show ?case by (simp add: take_groups_none)
next
  case (Suc k)
  obtain x y z ds' where ds: "ds = x # y # z # ds'"
    using Suc.prems(2) by (cases ds; cases "tl ds"; cases "tl (tl ds)") auto
  have len: "length ds' = 3 * k" using Suc.prems(2) ds by simp
  have "grouped_tail '','' ds = CHR '','' # x # y # z # grouped_tail '','' ds'"
    using len by (simp add: ds mod_Suc)
  then show ?case
    using Suc.IH [of ds'] Suc.prems ds len by simp
qed

lemma group_digits_split:
  assumes "ds \<noteq> []"
  obtains h ds' k where "ds = h @ ds'" "h \<noteq> []" "length h \<le> 3" "length ds' = 3 * k" "group_digits sep ds = h @ grouped_tail sep ds'"
proof -
  define n where "n = Suc ((length ds - 1) mod 3)"
  define h ds' where "h = take n ds" and "ds' = drop n ds"
  have "length ds = n + 3 * ((length ds - 1) div 3)"
    using assms mod_mult_div_eq [of "length ds - 1" 3] by (cases ds) (auto simp: n_def)
  then have len: "length ds' = 3 * ((length ds - 1) div 3)" "length h = n"
    unfolding h_def ds'_def by auto
  have n: "1 \<le> n" "n \<le> 3"
    by (simp_all add: n_def less_Suc_eq_le [symmetric])
  have tail: "grouped_tail sep (g @ ds') = g @ grouped_tail sep ds'" if "length g \<le> 2" for g
    using that len(1) by (cases g; cases "tl g") (auto simp: mod_Suc)
  have "ds = h @ ds'" by (simp add: h_def ds'_def)
  moreover obtain c g where h: "h = c # g" using len(2) n by (cases h) auto
  ultimately have "group_digits sep ds = h @ grouped_tail sep ds'"
    using tail [of g] len(2) n by simp
  then show thesis
    using that [OF \<open>ds = h @ ds'\<close>] h len n by simp
qed

lemma resting_reads:
  assumes "list_all is_digit w" "w \<noteq> []" "list_all is_digit f"
  defines "p \<equiv> w @ (if f = [] then [] else CHR ''.'' # f)" and "t \<equiv> group_digits '','' w @ (if f = [] then [] else CHR ''.'' # f)"
  shows "t = p \<or> grouped_form False (\<lambda>c. c = CHR '','') (\<lambda>c. c = CHR ''.'') t"
    and "remove_char CHR '','' t = p"
proof -
  let ?r = "if f = [] then [] else CHR ''.'' # f"
  show "remove_char CHR '','' t = p"
    using remove_group_digits [OF assms(1)] assms(3) unfolding t_def p_def
    by (auto simp: remove_char_def filter_id_conv list_all_iff dest: digit_not_point)
  obtain h ds' k where w: "w = h @ ds'" "h \<noteq> []" "length h \<le> 3" "length ds' = 3 * k" "group_digits '','' w = h @ grouped_tail '','' ds'"
    using group_digits_split [OF assms(2)] by blast
  show "t = p \<or> grouped_form False (\<lambda>c. c = CHR '','') (\<lambda>c. c = CHR ''.'') t"
  proof (cases k)
    case 0
    then show ?thesis using w by (simp add: t_def p_def)
  next
    case (Suc j)
    have dg: "list_all is_digit h" "list_all is_digit ds'" using assms(1) w(1) by auto
    obtain x y where "ds' = x # y" using w(4) Suc by (cases ds') auto
    then obtain g where g: "grouped_tail '','' ds' @ ?r = CHR '','' # g"
      using w(4) by auto
    have "take_groups (\<lambda>c. c = CHR '','') (grouped_tail '','' ds' @ ?r) = (k, ?r)"
      by (rule take_groups_tail [OF dg(2) w(4)]) simp
    moreover have "t = h @ CHR '','' # g"
      using w(5) g by (simp add: t_def)
    ultimately show ?thesis
      using Suc w(2,3) dg(1) assms(3) g by (auto simp: grouped_form_def takeWhile_digits dropWhile_digits)
  qed
qed


lemma js_trim_no_ws: "list_all (\<lambda>c. \<not> js_ws c) s \<Longrightarrow> js_trim s = s"
  by (cases "s = []") (auto simp: js_trim_id list_all_iff, simp add: js_trim_def)

lemma grouped_tail_chars: "set (grouped_tail sep ds) \<subseteq> set sep \<union> set ds"
  by (induction ds) auto

lemma group_digits_chars: "set (group_digits sep ds) \<subseteq> set sep \<union> set ds"
  using grouped_tail_chars [of sep] by (cases ds) auto

lemma sep_no_ws [simp]: "\<not> js_ws CHR '',''" "\<not> js_ws CHR ''.''"
  by (simp_all add: js_ws_def code_of_def)

lemma frac_resting: "frac_text resting_opts d u = frac_text (plain_opts None) d u"
  by (simp add: frac_text_def resting_opts_def plain_opts_def)

lemma frac_text_digits: "list_all is_digit (frac_text (plain_opts m) d u)"
  using frac_text_plain(1) [of d m u]
  by (cases d) (auto simp: frac_text_def plain_opts_def padEnd_def trim_zeros.simps split: option.splits)

lemma format_resting:
  assumes "0 \<le> d"
  shows "formatBaseUnits (Some (int u)) d resting_opts = Inr (group_digits '','' (nat_dec (u div 10 ^ nat d))
    @ (if frac_text (plain_opts None) (nat d) u = [] then [] else CHR ''.'' # frac_text (plain_opts None) (nat d) u))"
proof -
  have "fo_thousandsSep resting_opts = '',''" "fo_decimalSep resting_opts = ''.''"
    by (simp_all add: resting_opts_def)
  then show ?thesis
    using assms by (simp add: formatBaseUnits_def frac_resting Let_def)
qed

lemma comma_not_plain: "CHR '','' \<in> set t \<Longrightarrow> \<not> plain_form t"
  by (auto elim!: plain_formE simp: list_all_iff dest!: bspec [where x = "CHR '',''"])

lemma comma_or_plain: "CHR '','' \<notin> set t \<Longrightarrow> remove_char CHR '','' t = t"
  by (auto simp: remove_char_def filter_id_conv)

lemma resting_text:
  assumes "0 \<le> d" and t: "formatBaseUnits (Some (int u)) d resting_opts = Inr t"
  shows "js_trim t = t" "restingAmount t d = t"
    "\<exists>p. readAmountText t (Some t) False = Reads p \<and> parseAmountToBaseUnits p d = Inr u"
proof -
  let ?w = "nat_dec (u div 10 ^ nat d)" and ?f = "frac_text (plain_opts None) (nat d) u"
  define r where "r = (if ?f = [] then [] else CHR ''.'' # ?f)"
  have tr: "t = group_digits '','' ?w @ r"
    using t format_resting [OF assms(1)] by (simp add: r_def)
  have parse: "parseAmountToBaseUnits (?w @ r) d = Inr u"
    using format_plain_parse [OF assms(1), of u None] by (simp add: cut_of_def r_def)
  have read: "t = ?w @ r \<or> grouped_form False (\<lambda>c. c = CHR '','') (\<lambda>c. c = CHR ''.'') t" "remove_char CHR '','' t = ?w @ r"
    using resting_reads [of ?w ?f] frac_text_digits nat_dec_all_digits unfolding tr r_def by auto
  have dr: "list_all is_digit ?w" "list_all (\<lambda>c. is_digit c \<or> c = CHR ''.'') r"
    using nat_dec_all_digits frac_text_digits [of None "nat d" u] by (auto simp: r_def list_all_iff)
  then have chars: "\<forall>c\<in>set t. is_digit c \<or> c = CHR '','' \<or> c = CHR ''.''"
    using group_digits_chars [of "'',''" ?w] by (auto simp: tr list_all_iff)
  then show trim: "js_trim t = t"
    by (intro js_trim_no_ws) (auto simp: list_all_iff dest: digit_not_ws)
  have plain: "plain_form (?w @ r)"
    using dr(1) frac_text_digits by (simp add: r_def)
  show "restingAmount t d = t"
  proof (cases "CHR '','' \<in> set t")
    case True
    have "t \<noteq> []" "t \<noteq> ''.''" using True by auto
    then show ?thesis
      using comma_not_plain [OF True] assms(1) by (simp add: restingAmount_def trim parseAmountToBaseUnits_def)
  next
    case False
    then have "t = ?w @ r" using read(2) comma_or_plain by simp
    then have "parseAmountToBaseUnits t d = Inr u" using parse by simp
    then show ?thesis using t by (simp add: restingAmount_def trim)
  qed
  have "list_ex is_digit t"
  proof -
    have "hd ?w \<in> set (remove_char CHR '','' t)" using read(2) by simp
    then have "hd ?w \<in> set t" by (simp add: remove_char_def)
    then show ?thesis using nat_dec_first(1) by (auto simp: list_ex_iff)
  qed
  then have "readAmountText t (Some t) False = Reads (?w @ r)"
    using read plain by (auto simp: readAmountText_def trim Let_def)
  then show "\<exists>p. readAmountText t (Some t) False = Reads p \<and> parseAmountToBaseUnits p d = Inr u"
    using parse by blast
qed

section \<open>What a typed text reads as\<close>

lemma take_groups_split: "take_groups sep t = (n, r) \<Longrightarrow> \<exists>gs. t = gs @ r \<and> list_all (\<lambda>c. sep c \<or> is_digit c) gs"
proof (induction sep t arbitrary: n rule: take_groups.induct)
  case (1 sep c x y z t)
  show ?case
  proof (cases "sep c \<and> is_digit x \<and> is_digit y \<and> is_digit z")
    case True
    then obtain m where "take_groups sep t = (m, r)"
      using "1.prems" by (auto split: prod.splits)
    then obtain gs where "t = gs @ r" "list_all (\<lambda>c. sep c \<or> is_digit c) gs"
      using "1.IH" True by blast
    then show ?thesis
      using True by (intro exI [of _ "c # x # y # z # gs"]) simp
  next
    case False
    then have "r = c # x # y # z # t" using "1.prems" by auto
    then show ?thesis by simp
  qed
qed auto

lemma grouped_clean:
  assumes "grouped_form lead sep point t" "\<And>c. sep c \<Longrightarrow> \<not> is_digit c" "\<And>c. point c \<Longrightarrow> \<not> sep c"
  obtains i r where "filter (\<lambda>c. \<not> sep c) t = i @ r" "list_all is_digit i" "r = [] \<or> (\<exists>c ds. r = c # ds \<and> point c \<and> list_all is_digit ds)"
proof -
  obtain n r where g: "take_groups sep (dropWhile is_digit t) = (n, r)" by fastforce
  have r: "r = [] \<or> (\<exists>c ds. r = c # ds \<and> point c \<and> list_all is_digit ds)"
    using assms(1) g by (cases r) (auto simp: grouped_form_def Let_def)
  obtain gs where gs: "dropWhile is_digit t = gs @ r" "list_all (\<lambda>c. sep c \<or> is_digit c) gs"
    using take_groups_split [OF g] by blast
  define i where "i = takeWhile is_digit t @ filter (\<lambda>c. \<not> sep c) gs"
  have keep: "filter (\<lambda>c. \<not> sep c) ds = ds" if "list_all is_digit ds" for ds
    using that assms(2) by (induction ds) auto
  have "list_all is_digit (takeWhile is_digit t)"
    by (auto simp: list_all_iff dest: set_takeWhileD)
  then have "filter (\<lambda>c. \<not> sep c) (takeWhile is_digit t) = takeWhile is_digit t" "filter (\<lambda>c. \<not> sep c) r = r"
    using r assms(3) keep by auto
  moreover have "t = takeWhile is_digit t @ gs @ r"
    using gs(1) takeWhile_dropWhile_id [of is_digit t] by simp
  ultimately have "filter (\<lambda>c. \<not> sep c) t = i @ r"
    unfolding i_def by (metis filter_append append.assoc)
  moreover have "list_all is_digit i"
    using gs(2) by (auto simp: i_def list_all_iff dest: set_takeWhileD)
  ultimately show thesis using r that by blast
qed

lemma comma_to_point_digits: "list_all is_digit i \<Longrightarrow> comma_to_point (i @ r) = i @ comma_to_point r"
  by (induction i) auto

lemma comma_to_point_none: "list_all is_digit i \<Longrightarrow> comma_to_point i = i"
  by (induction i) auto

lemma filter_comma_to_point [simp]: "filter is_digit (comma_to_point t) = filter is_digit t"
  by (induction t rule: comma_to_point.induct) auto

lemma filter_digit_sep: "(\<And>c. sep c \<Longrightarrow> \<not> is_digit c) \<Longrightarrow> filter is_digit (filter (\<lambda>c. \<not> sep c) t) = filter is_digit t"
  by (induction t) auto

lemma filter_digit_trim [simp]: "filter is_digit (js_trim t) = filter is_digit t"
proof -
  have drop: "filter is_digit (dropWhile js_ws s) = filter is_digit s" for s
    by (induction s) (auto dest: digit_not_ws)
  show ?thesis
    unfolding js_trim_def rev_filter [symmetric] drop by (simp add: drop rev_filter)
qed

lemma grouped_reads:
  assumes "grouped_form lead sep point t" "\<And>c. sep c \<Longrightarrow> \<not> is_digit c" "\<And>c. point c \<Longrightarrow> \<not> sep c \<and> (c = CHR ''.'' \<or> c = CHR '','')"
  shows "plain_form (comma_to_point (filter (\<lambda>c. \<not> sep c) t)) \<and> filter is_digit (comma_to_point (filter (\<lambda>c. \<not> sep c) t)) = filter is_digit t"
proof -
  obtain i r where ir: "filter (\<lambda>c. \<not> sep c) t = i @ r" "list_all is_digit i" "r = [] \<or> (\<exists>c ds. r = c # ds \<and> point c \<and> list_all is_digit ds)"
    using grouped_clean [OF assms(1,2)] assms(3) by blast
  have "plain_form (comma_to_point (i @ r))"
    using ir(3)
  proof (elim disjE exE conjE)
    fix c ds assume "r = c # ds" "point c" "list_all is_digit ds"
    then show ?thesis
      using assms(3) [of c] ir(2) by (auto simp: comma_to_point_digits comma_to_point_none)
  qed (use ir(2) in \<open>simp add: comma_to_point_none\<close>)
  moreover have "filter is_digit (i @ r) = filter is_digit t"
    unfolding ir(1) [symmetric] by (rule filter_digit_sep) (rule assms(2))
  ultimately show ?thesis
    using ir(1) by simp
qed

lemma grouped_point_reads:
  assumes "grouped_form lead (\<lambda>c. c = CHR '','') (\<lambda>c. c = CHR ''.'') t"
  shows "plain_form (remove_char CHR '','' t) \<and> filter is_digit (remove_char CHR '','' t) = filter is_digit t"
proof -
  obtain i r where ir: "filter (\<lambda>c. \<not> c = CHR '','') t = i @ r" "list_all is_digit i" "r = [] \<or> (\<exists>c ds. r = c # ds \<and> c = CHR ''.'' \<and> list_all is_digit ds)"
    by (rule grouped_clean [OF assms]) auto
  then show ?thesis
    using filter_digit_sep [of "\<lambda>c. c = CHR '',''" t] by (auto simp: remove_char_def)
qed

lemma comma_decimal_reads:
  assumes "comma_decimal t"
  shows "plain_form (comma_to_point t)"
proof -
  obtain r where r: "dropWhile is_digit t = CHR '','' # r" "list_all is_digit r"
    using assms by (auto simp: comma_decimal_def split: list.splits)
  have "t = takeWhile is_digit t @ CHR '','' # r" "list_all is_digit (takeWhile is_digit t)"
    using takeWhile_dropWhile_id [of is_digit t] r(1) by (auto simp: list_all_iff dest: set_takeWhileD)
  then show ?thesis
    using r(2) by (metis comma_to_point_digits comma_to_point.simps(2) plain_point)
qed

lemma read_amount_plain:
  assumes "readAmountText txt rested dollar = Reads p"
  shows "plain_form p \<and> filter is_digit p = filter is_digit txt \<and> filter is_digit p \<noteq> []"
proof -
  define t0 where "t0 = js_trim txt"
  define t where "t = (if dollar \<and> t0 \<noteq> [] \<and> hd t0 = CHR ''$'' then tl t0 else t0)"
  have "filter is_digit t = filter is_digit t0"
    unfolding t_def by (cases t0) auto
  then have digits: "filter is_digit t = filter is_digit txt"
    by (simp add: t0_def)
  have read: "readAmountText txt rested dollar =
      (if \<not> list_ex is_digit t then Unreadable
       else if Some txt = rested \<and> grouped_form False (\<lambda>c. c = CHR '','') (\<lambda>c. c = CHR ''.'') t then Reads (remove_char CHR '','' t)
       else if plain_form t then Reads t
       else if two_readings t then Ambiguous
       else if grouped_form True (\<lambda>c. c = CHR '','') (\<lambda>c. c = CHR ''.'') t then Reads (remove_char CHR '','' t)
       else if grouped_form True (\<lambda>c. c = CHR ''.'') (\<lambda>c. c = CHR '','') t then Reads (comma_to_point (remove_char CHR ''.'' t))
       else if grouped_form True group_space (\<lambda>c. c = CHR ''.'' \<or> c = CHR '','') t then Reads (comma_to_point (filter (\<lambda>c. \<not> group_space c) t))
       else if comma_decimal t then Reads (comma_to_point t)
       else Unreadable)"
    unfolding readAmountText_def t_def t0_def Let_def ..
  have point: "plain_form (comma_to_point (remove_char CHR ''.'' t)) \<and> filter is_digit (comma_to_point (remove_char CHR ''.'' t)) = filter is_digit t"
    if "grouped_form True (\<lambda>c. c = CHR ''.'') (\<lambda>c. c = CHR '','') t"
    using grouped_reads [OF that] by (simp add: remove_char_def)
  have space: "plain_form (comma_to_point (filter (\<lambda>c. \<not> group_space c) t)) \<and> filter is_digit (comma_to_point (filter (\<lambda>c. \<not> group_space c) t)) = filter is_digit t"
    if "grouped_form True group_space (\<lambda>c. c = CHR ''.'' \<or> c = CHR '','') t"
    by (rule grouped_reads [OF that]) (auto dest: digit_not_point simp: group_space_def code_of_def)
  have "plain_form p \<and> filter is_digit p = filter is_digit t" "list_ex is_digit t"
    using assms grouped_point_reads [of _ t] point space comma_decimal_reads [of t]
    unfolding read by (auto split: if_splits)
  moreover have "filter is_digit t \<noteq> []"
    using \<open>list_ex is_digit t\<close> by (auto simp: filter_empty_conv list_ex_iff)
  ultimately show ?thesis
    using digits by simp
qed

section \<open>Width\<close>

lemma pick_tier_bounds:
  "1 \<le> n \<Longrightarrow> whole < 1000 ^ Suc n \<Longrightarrow> 1 \<le> pick_tier whole n \<and> pick_tier whole n \<le> n \<and> whole < 1000 ^ Suc (pick_tier whole n)"
proof (induction whole n rule: pick_tier.induct)
  case (1 whole n)
  then show ?case by (cases "whole < 1000 ^ Suc (Suc n)") auto
qed auto

lemma compact_head:
  assumes "whole < 1000 ^ 5"
  shows "length (nat_dec (whole div 1000 ^ pick_tier whole 4)) \<le> 3"
proof -
  have "whole < 1000 ^ Suc (pick_tier whole 4)"
    using pick_tier_bounds [of 4 whole] assms by simp
  then have "whole div 1000 ^ pick_tier whole 4 < 10 ^ 3"
    by (simp add: less_mult_imp_div_less mult.commute)
  then show ?thesis by (rule nat_dec_length) simp
qed

lemma compact_length:
  assumes "5 \<le> n" "length sep = 1"
  shows "length (compactCut full u d n sep) \<le> n"
proof (cases "length (before sep full) \<le> n \<or> u div 10 ^ d \<ge> 1000 ^ 5")
  case True
  then show ?thesis using assms(1) by (auto simp: compactCut_def Let_def)
next
  case False
  let ?w = "u div 10 ^ d" and ?k = "pick_tier (u div 10 ^ d) 4"
  define h where "h = nat_dec (?w div 1000 ^ ?k)"
  define f where "f = trim_zeros 0 (take (min 2 (n - length h - 2)) (padStart (3 * ?k) (nat_dec (?w mod 1000 ^ ?k))))"
  have h: "length h \<le> 3" using compact_head False by (simp add: h_def)
  have "length f \<le> min 2 (n - length h - 2)"
    unfolding f_def by (rule le_trans [OF trim_zeros_length]) (simp only: length_take min.cobounded2)
  then have "length (h @ (if f = [] then [] else sep @ f) @ [x]) \<le> n" for x
    using h assms by auto
  moreover have "compactCut full u d n sep = h @ (if f = [] then [] else sep @ f) @ [COMPACT_SUFFIXES ! (?k - 1)]"
    using False by (simp add: compactCut_def Let_def h_def f_def)
  ultimately show ?thesis by metis
qed

section \<open>The properties\<close>

text \<open>
  An amount written with a point, no grouping and at most m decimals is readable and never shows
  more than is held: reading it back gives the units with the digits past m dropped, and all of them
  when no limit is given.
\<close>

theorem amount_format_truncates:
  assumes "0 \<le> d"
  shows "\<exists>s. formatBaseUnits (Some (int u)) d (plain_opts m) = Inr s
    \<and> parseAmountToBaseUnits s d = Inr (u div 10 ^ cut_of m (nat d) * 10 ^ cut_of m (nat d))"
  using format_plain [OF assms] format_plain_parse [OF assms] by blast

lemma amount_format_truncates_witness:
  "\<exists>s. formatBaseUnits (Some (int 14999999)) 6 (plain_opts (Some 4)) = Inr s \<and> parseAmountToBaseUnits s 6 = Inr 14999900"
  using amount_format_truncates [of 6 14999999 "Some 4"] by (simp add: cut_of_def)

text \<open>
  C32. The resting form of an amount field: bringing it to rest twice changes nothing, and the field
  at rest reads as the very units that were typed.
\<close>

theorem resting_amount_stable:
  assumes "parseAmountToBaseUnits (js_trim value) d = Inr u"
  shows "restingAmount (restingAmount value d) d = restingAmount value d
    \<and> (\<exists>p. readAmountText (restingAmount value d) (Some (restingAmount value d)) False = Reads p
         \<and> parseAmountToBaseUnits p d = Inr u)"
proof -
  have d: "0 \<le> d"
    using assms by (auto simp: parseAmountToBaseUnits_def split: if_splits)
  obtain t where t: "formatBaseUnits (Some (int u)) d resting_opts = Inr t"
    using format_resting [OF d] by blast
  then have "restingAmount value d = t"
    using assms by (simp add: restingAmount_def)
  then show ?thesis
    using resting_text(2,3) [OF d t] by simp
qed

lemma resting_amount_stable_witness:
  "restingAmount (restingAmount '' 01234567.5 '' 6) 6 = restingAmount '' 01234567.5 '' 6
   \<and> (\<exists>p. readAmountText (restingAmount '' 01234567.5 '' 6) (Some (restingAmount '' 01234567.5 '' 6)) False = Reads p
        \<and> parseAmountToBaseUnits p 6 = Inr 1234567500000)"
  by (rule resting_amount_stable)
    (simp add: parseAmountToBaseUnits_def plain_form_def js_trim_def js_ws_def is_digit_code code_of_def padEnd_def strip_zeros_def
      dec_value_acc [of 12345675])

text \<open>
  A text that reads as an amount reads as its own digits in their order, with at most one decimal
  point between them and nothing else: separators are dropped or become that point.
\<close>

theorem read_amount_sound:
  assumes "readAmountText txt rested dollar = Reads p"
  shows "plain_form p \<and> filter is_digit p = filter is_digit txt \<and> filter is_digit p \<noteq> []"
  using assms by (rule read_amount_plain)

lemma read_amount_sound_witness:
  "plain_form ''1234.50'' \<and> filter is_digit ''1234.50'' = filter is_digit ''1.234,50'' \<and> filter is_digit ''1234.50'' \<noteq> []"
proof (rule read_amount_sound)
  show "readAmountText ''1.234,50'' None False = Reads ''1234.50''" by code_simp
qed

text \<open>
  A balance cut to n characters in compact form fits in them, from five on and with separators of
  one character. Only the hint for an amount too small to show is one longer, and it shows just when
  the amount is below its last digit. A value not marked as cut is the full one.
\<close>

theorem balance_width:
  assumes "5 \<le> n" "length (ls_decimal loc) = 1" "0 < u"
    and "balanceFormatted loc (Some u) d (Some n) True = (s, slashed)"
  shows "(length s \<le> n \<or> length s = Suc n \<and> hd s = CHR ''<'' \<and> u * 10 ^ (n - 2) < 10 ^ d)
    \<and> (\<not> slashed \<longrightarrow> formatBaseUnits (Some (int u)) (int d) (locale_opts loc) = Inr s)"
proof -
  obtain full where full: "formatBaseUnits (Some (int u)) (int d) (locale_opts loc) = Inr full"
    by (auto simp: formatBaseUnits_def Let_def)
  have hint: "u * 10 ^ (n - 2) < 10 ^ d" if "n - 2 < d" "u < 10 ^ (d - (n - 2))"
  proof -
    have "(10::nat) ^ d = 10 ^ (d - (n - 2)) * 10 ^ (n - 2)"
      using that(1) by (simp add: power_add [symmetric])
    then show ?thesis using that(2) by simp
  qed
  show ?thesis
    using assms(1,3,4) hint compact_length [OF assms(1,2), of full u d] assms(2)
    by (auto simp: balanceFormatted_def full Let_def split: if_splits)
qed

lemma balance_width_witness:
  "(length ''1.23M'' \<le> 5 \<or> length ''1.23M'' = Suc 5 \<and> hd ''1.23M'' = CHR ''<'' \<and> (1234567::nat) * 10 ^ (5 - 2) < 10 ^ 0)
   \<and> (\<not> True \<longrightarrow> formatBaseUnits (Some (int 1234567)) (int 0) (locale_opts \<lparr>ls_decimal = ''.'', ls_thousands = '',''\<rparr>) = Inr ''1.23M'')"
proof (rule balance_width)
  have dec: "nat_dec 1234567 = ''1234567''" "nat_dec 234567 = ''234567''" "nat_dec 1 = ''1''"
    by (simp_all add: nat_dec.simps char_of_def bit_iff_odd)
  have four: "(4::nat) = Suc (Suc (Suc (Suc 0)))" by simp
  have tier: "pick_tier 1234567 4 = Suc (Suc 0)"
    unfolding four by simp
  have "frac_text (locale_opts \<lparr>ls_decimal = ''.'', ls_thousands = '',''\<rparr>) 0 1234567 = []"
    by (simp add: frac_text_def locale_opts_def padEnd_def trim_zeros.simps)
  then have full: "formatBaseUnits (Some (int 1234567)) (int 0) (locale_opts \<lparr>ls_decimal = ''.'', ls_thousands = '',''\<rparr>) = Inr ''1,234,567''"
    using dec by (simp add: formatBaseUnits_def locale_opts_def)
  have trim: "trim_zeros 0 ''23'' = ''23''"
    by (subst trim_zeros.simps) simp
  have "compactCut ''1,234,567'' 1234567 0 5 ''.'' = ''1.23M''"
    by (simp add: compactCut_def tier dec dec(3) [unfolded One_nat_def] trim padStart_def Let_def COMPACT_SUFFIXES_def)
  with full show "balanceFormatted \<lparr>ls_decimal = ''.'', ls_thousands = '',''\<rparr> (Some 1234567) 0 (Some 5) True = (''1.23M'', True)"
    by (simp add: balanceFormatted_def)
qed simp_all

end
