(* ===== verification/Amount_Field.thy ===== *)
theory Amount_Field
  imports Amount
begin

text \<open>
  The amount field of the send form, \<^verbatim>\<open>components/composite/send/amount-field.ts\<close>, with the two helpers
  of \<^verbatim>\<open>utils/amount.ts\<close> only it uses: what the field's text becomes after one input event, its hint and
  its caret. Texts are sequences of Latin-1 code units.
\<close>

section \<open>Normalizing\<close>

text \<open>\<^verbatim>\<open>/^(0|[1-9]\d*)(\.\d+)?$/\<close>\<close>

definition number_form :: "string \<Rightarrow> bool" where
  "number_form t =
     (let i = takeWhile is_digit t; r = dropWhile is_digit t
      in i \<noteq> [] \<and> (i = ''0'' \<or> hd i \<noteq> CHR ''0'') \<and> (r = [] \<or> hd r = CHR ''.'' \<and> tl r \<noteq> [] \<and> list_all is_digit (tl r)))"

definition purgeNumber :: "string \<Rightarrow> string" where
  "purgeNumber target = (if number_form target then target else filter (\<lambda>c. is_digit c \<or> c = CHR ''.'') target)"

definition double_at_least :: "nat \<Rightarrow> double \<Rightarrow> bool" where
  "double_at_least n x =
     (case x of
        NaN \<Rightarrow> False
      | Infinite neg \<Rightarrow> \<not> neg
      | Double neg m e \<Rightarrow> \<not> neg \<and> (if 0 \<le> e then n \<le> m * 2 ^ nat e else n * 2 ^ nat (- e) \<le> m))"

text \<open>The text that replaces the typed one, if any. A purged text is digits and at most one point, so
  \<^verbatim>\<open>parseFloat\<close> reads all of it.\<close>

definition normalizeAmount :: "string \<Rightarrow> string option" where
  "normalizeAmount target =
     (if target = ''.'' then Some ''0.''
      else if length (filter (\<lambda>c. c = CHR ''.'') target) > 1 then Some (butlast target)
      else if target \<noteq> [] \<and> last target = CHR ''.'' then Some target
      else if target = [] then Some []
      else if length target = 1 \<and> \<not> number_form target then Some []
      else if double_at_least 9999999999999 (decimal_double False (purgeNumber target)) then Some ''9999999999999''
      else None)"

section \<open>Edits\<close>

datatype amount_hint = ClampHint | AmbiguousHint | UnreadableHint

record amount_edit =
  ed_prior :: string
  ed_value :: string
  ed_inputType :: "string option"
  ed_data :: "string option"
  ed_decimals :: "int option"
  ed_rested :: "string option"
  ed_commaPoint :: bool
  ed_hint :: "amount_hint option"
  ed_dollar :: bool

definition isPasteLike :: "string option \<Rightarrow> bool" where
  "isPasteLike inputType =
     (case inputType of None \<Rightarrow> False | Some t \<Rightarrow> take 10 t = ''insertFrom'' \<or> t = ''insertReplacementText'')"

definition amount_char :: "char \<Rightarrow> bool" where
  "amount_char c \<longleftrightarrow> is_digit c \<or> c = CHR ''.'' \<or> c = CHR '',''"

definition clean :: "string \<Rightarrow> string" where
  "clean = filter amount_char"

fun common_prefix :: "string \<Rightarrow> string \<Rightarrow> nat" where
  "common_prefix (x # xs) (y # ys) = (if x = y then Suc (common_prefix xs ys) else 0)"
| "common_prefix _ _ = 0"

text \<open>The first scan runs from the front, the second from the back over what the first left of the shorter text.\<close>

definition splitEdit :: "string \<Rightarrow> string \<Rightarrow> string \<times> string \<times> string" where
  "splitEdit prior value =
     (let start = common_prefix prior value;
          room = min (length prior) (length value) - start;
          fin = min room (common_prefix (rev prior) (rev value));
          cut = length value - fin
      in (take start value, drop start (take cut value), drop cut value))"

definition grouping_point :: "string \<Rightarrow> (string \<times> string) option" where
  "grouping_point head =
     (let i = takeWhile is_digit head; r = dropWhile is_digit head
      in if i \<noteq> [] \<and> length i \<le> 3 \<and> hd i \<noteq> CHR ''0'' \<and> r \<noteq> [] \<and> hd r = CHR ''.''
            \<and> tl r \<noteq> [] \<and> length (tl r) mod 3 = 0 \<and> list_all is_digit (tl r)
         then Some (i, tl r) else None)"

definition placePoint :: "string \<Rightarrow> string \<Rightarrow> string \<Rightarrow> bool \<Rightarrow> bool \<Rightarrow> string \<times> bool" where
  "placePoint head inserted tail typedComma commaPoint =
     (if CHR ''.'' \<notin> set inserted then (head @ inserted @ tail, commaPoint)
      else if CHR ''.'' \<notin> set (head @ tail) then (head @ inserted @ tail, typedComma)
      else (case (if inserted = ''.'' \<and> \<not> typedComma \<and> commaPoint then grouping_point head else None) of
              Some (a, b) \<Rightarrow> (a @ b @ ''.'' @ tail, False)
            | None \<Rightarrow> (head @ remove_char CHR ''.'' inserted @ tail, commaPoint)))"

definition typedText :: "amount_edit \<Rightarrow> string \<times> bool" where
  "typedText edit =
     (let (head0, inserted, tail0) = splitEdit (ed_prior edit) (ed_value edit);
          grouped = (Some (ed_prior edit) = ed_rested edit \<and> CHR '','' \<in> set (ed_prior edit));
          head = (if grouped then remove_char CHR '','' head0 else head0);
          tail = (if grouped then remove_char CHR '','' tail0 else tail0);
          typedComma = (inserted = '','');
          placed = placePoint (clean head) (clean (if typedComma then ''.'' else inserted)) (clean tail) typedComma (ed_commaPoint edit);
          normalized = (if plain_form (fst placed) then normalizeAmount (fst placed) else None)
      in (or_else normalized (fst placed), snd placed))"

definition read_hint :: "amount_read \<Rightarrow> amount_hint option" where
  "read_hint r = (case r of Ambiguous \<Rightarrow> Some AmbiguousHint | Unreadable \<Rightarrow> Some UnreadableHint | Reads _ \<Rightarrow> None)"

definition settle_text :: "string \<Rightarrow> amount_edit \<Rightarrow> bool \<Rightarrow> string \<times> amount_hint option" where
  "settle_text txt edit pasteLike =
     (if txt = [] then (txt, None)
      else let read = readAmountText txt None (ed_dollar edit)
           in case read of
                Reads plain \<Rightarrow>
                  let clamped = (case ed_decimals edit of None \<Rightarrow> plain | Some d \<Rightarrow> clampDecimals plain d)
                  in if clamped = plain then (txt, None) else (clamped, Some ClampHint)
              | _ \<Rightarrow> (txt, if pasteLike \<or> (ed_hint edit \<noteq> None \<and> ed_hint edit \<noteq> Some ClampHint) then read_hint read else None))"

text \<open>The characters after the caret that the text keeps are counted off from the text's end.\<close>

fun caret_back :: "(char \<Rightarrow> bool) \<Rightarrow> string \<Rightarrow> nat \<Rightarrow> nat \<Rightarrow> nat" where
  "caret_back kept txt 0 count = 0"
| "caret_back kept txt (Suc at) count =
     (if count = 0 then Suc at else caret_back kept txt at (if kept (txt ! at) then count - 1 else count))"

definition caretAfter :: "string \<Rightarrow> nat \<Rightarrow> string \<Rightarrow> nat" where
  "caretAfter value caret txt =
     (let kept = (if CHR '','' \<in> set txt then amount_char else (\<lambda>c. is_digit c \<or> c = CHR ''.''))
      in caret_back kept txt (length txt) (length (filter kept (drop caret value))))"

record amount_next =
  nx_text :: string
  nx_commaPoint :: bool
  nx_hint :: "amount_hint option"

definition kept_text :: "amount_edit \<Rightarrow> bool" where
  "kept_text edit \<longleftrightarrow> isPasteLike (ed_inputType edit)
     \<or> ed_prior edit \<noteq> [] \<and> (case readAmountText (ed_prior edit) (ed_rested edit) (ed_dollar edit) of Reads _ \<Rightarrow> False | _ \<Rightarrow> True)"

definition nextAmountText :: "amount_edit \<Rightarrow> amount_next" where
  "nextAmountText edit =
     (let pasteLike = isPasteLike (ed_inputType edit);
          typed = (if kept_text edit then (ed_value edit, False) else typedText edit);
          settled = settle_text (fst typed) edit pasteLike;
          txt = (if \<not> pasteLike \<and> ed_data edit = Some ''0'' \<and> ed_value edit = ''0'' then ''0.'' else fst settled)
      in \<lparr>nx_text = txt, nx_commaPoint = (snd typed \<and> CHR ''.'' \<in> set txt), nx_hint = snd settled\<rparr>)"

section \<open>The clamp\<close>

lemma clamp_plain_point:
  assumes "list_all is_digit i" "0 \<le> d"
  shows "clampDecimals (i @ CHR ''.'' # f) d = (if d = 0 then i else i @ CHR ''.'' # take (nat d) f)"
proof -
  have "take (length i + 1 + nat d) (i @ CHR ''.'' # f) = i @ CHR ''.'' # take (nat d) f" "take (length i) (i @ CHR ''.'' # f) = i"
    by simp_all
  then show ?thesis
    using assms by (simp add: clampDecimals_def split_point del: take_append)
qed

lemma clamp_plain_whole: "list_all is_digit i \<Longrightarrow> clampDecimals i d = i"
  by (auto simp: clampDecimals_def list_all_iff dest: digit_not_point)

lemma clamp_plain:
  assumes "plain_form p" "0 \<le> d"
  shows "plain_form (clampDecimals p d)" "clampDecimals (clampDecimals p d) d = clampDecimals p d"
proof -
  have "plain_form (clampDecimals p d) \<and> clampDecimals (clampDecimals p d) d = clampDecimals p d"
    using assms(1)
  proof (cases rule: plain_formE)
    case whole
    then show ?thesis by (simp add: clamp_plain_whole)
  next
    case (point i f)
    then have "list_all is_digit (take (nat d) f)"
      by (auto simp: list_all_iff dest: in_set_takeD)
    then show ?thesis
      using point assms(2) by (simp add: clamp_plain_point clamp_plain_whole)
  qed
  then show "plain_form (clampDecimals p d)" "clampDecimals (clampDecimals p d) d = clampDecimals p d"
    by simp_all
qed

lemma clamped_parses:
  assumes "plain_form p" "list_ex is_digit p" "0 \<le> d" "clampDecimals p d = p"
  shows "\<exists>u. parseAmountToBaseUnits p d = Inr u"
  using assms(1)
proof (cases rule: plain_formE)
  case whole
  then show ?thesis
    using parse_whole [of p d] assms by (cases p) auto
next
  case (point i f)
  have "i \<noteq> [] \<or> f \<noteq> []" using assms(2) point by auto
  moreover have "int (length f) \<le> d"
  proof -
    have "i @ CHR ''.'' # f = (if d = 0 then i else i @ CHR ''.'' # take (nat d) f)"
      using clamp_plain_point [OF point(2) assms(3), of f] assms(4) point(1) by simp
    then have "d \<noteq> 0" "f = take (nat d) f" by (auto split: if_splits)
    then have "length f = min (length f) (nat d)" by (metis length_take)
    then show ?thesis using assms(3) by (auto simp: le_nat_iff min_def split: if_splits)
  qed
  ultimately show ?thesis
    using parse_point [OF point(2,3)] point(1) by blast
qed

section \<open>What an edit leaves\<close>

lemma plain_chars: "plain_form p \<Longrightarrow> list_all (\<lambda>c. is_digit c \<or> c = CHR ''.'') p"
  by (auto elim!: plain_formE simp: list_all_iff)

lemma dot_no_ws: "is_digit c \<or> c = CHR ''.'' \<Longrightarrow> \<not> js_ws c"
  by (auto dest: digit_not_ws)

lemma read_plain:
  assumes "plain_form t"
  shows "readAmountText t None dollar = (if list_ex is_digit t then Reads t else Unreadable)"
proof -
  have trim: "js_trim t = t"
  proof (rule js_trim_no_ws, unfold list_all_iff, rule ballI)
    fix c assume "c \<in> set t"
    then show "\<not> js_ws c"
      using plain_chars [OF assms] dot_no_ws [of c] unfolding list_all_iff by blast
  qed
  have "hd t \<noteq> CHR ''$''" if "t \<noteq> []"
    using plain_chars [OF assms] that by (cases t) auto
  then show ?thesis
    using assms by (auto simp: readAmountText_def trim Let_def)
qed

lemma settle_clamped:
  assumes "readAmountText (fst (settle_text txt edit paste)) None (ed_dollar edit) = Reads p" "ed_decimals edit = Some d" "0 \<le> d"
  shows "clampDecimals p d = p"
proof (cases "readAmountText txt None (ed_dollar edit)")
  case (Reads q)
  have plain: "plain_form q" using read_amount_plain [OF Reads] by simp
  show ?thesis
  proof (cases "txt = [] \<or> clampDecimals q d = q")
    case True
    then have "fst (settle_text txt edit paste) = txt"
      using Reads assms(2) by (auto simp: settle_text_def)
    then show ?thesis
      using True Reads assms(1) by (auto simp: readAmountText_def js_trim_def)
  next
    case False
    then have "fst (settle_text txt edit paste) = clampDecimals q d"
      using Reads assms(2) by (simp add: settle_text_def Let_def)
    then have "p = clampDecimals q d"
      using assms(1) read_plain [OF clamp_plain(1) [OF plain assms(3)]] by (auto split: if_splits)
    then show ?thesis
      using clamp_plain(2) [OF plain assms(3)] by simp
  qed
qed (use assms(1) in \<open>auto simp: settle_text_def Let_def split: if_splits\<close>)

lemma clean_chars: "list_all amount_char (clean t)"
  by (simp add: clean_def list_all_iff)

lemma grouping_point_chars: "grouping_point head = Some (a, b) \<Longrightarrow> list_all is_digit a \<and> list_all is_digit b"
  by (auto simp: grouping_point_def Let_def list_all_iff split: if_splits dest: set_takeWhileD)

lemma digit_amount_char [simp]: "is_digit c \<Longrightarrow> amount_char c" "amount_char CHR ''.''"
  by (simp_all add: amount_char_def)

lemma placePoint_chars:
  assumes "list_all amount_char h" "list_all amount_char i" "list_all amount_char t"
  shows "list_all amount_char (fst (placePoint h i t tc cp))"
proof -
  have "list_all amount_char (a @ b)" if "grouping_point h = Some (a, b)" for a b
    using grouping_point_chars [OF that] by (auto simp: list_all_iff)
  then show ?thesis
    using assms by (auto simp: placePoint_def remove_char_def list_all_iff split: option.split)
qed

lemma normalizeAmount_chars: "normalizeAmount t = Some u \<Longrightarrow> list_all amount_char t \<Longrightarrow> list_all amount_char u"
  by (auto simp: normalizeAmount_def list_all_iff amount_char_def is_digit_code code_of_def split: if_splits dest: in_set_butlastD)

lemma typedText_chars: "list_all amount_char (fst (typedText edit))"
proof -
  obtain h i t where s: "splitEdit (ed_prior edit) (ed_value edit) = (h, i, t)"
    by (cases "splitEdit (ed_prior edit) (ed_value edit)") auto
  have or: "list_all amount_char (or_else (if b then normalizeAmount x else None) x)" if "list_all amount_char x" for b x
    using that normalizeAmount_chars by (cases "normalizeAmount x") auto
  show ?thesis
    unfolding typedText_def s Let_def prod.case fst_conv
    by (rule or, rule placePoint_chars) (rule clean_chars)+
qed

lemma settle_chars:
  assumes "list_all amount_char txt"
  shows "list_all amount_char (fst (settle_text txt edit paste))"
proof (cases "readAmountText txt None (ed_dollar edit)")
  case (Reads q)
  have "list_all amount_char q"
    using plain_chars [of q] read_amount_plain [OF Reads] by (auto simp: list_all_iff)
  then have "list_all amount_char (clampDecimals q d)" for d
    by (auto simp: clampDecimals_def list_all_iff Let_def dest: in_set_takeD)
  then show ?thesis
    using assms Reads by (auto simp: settle_text_def Let_def split: option.split)
qed (use assms in \<open>simp_all add: settle_text_def\<close>)

text \<open>
  C31. One input event on the amount field. Whatever the edit was, a text that then reads as an amount is an
  amount the token can hold. A keystroke into an empty field or into a text that reads leaves digits, points and
  commas only. A paste, and a keystroke into a text that does not read, is kept instead of cleaned: when the
  new value does not read either it stays to the letter, whatever characters it has (a 0 typed into 12e5 gives 12e50).
\<close>

theorem amount_edit_sound:
  shows "(ed_decimals edit = Some d \<and> 0 \<le> d \<and> readAmountText (nx_text (nextAmountText edit)) None (ed_dollar edit) = Reads p
      \<longrightarrow> (\<exists>u. parseAmountToBaseUnits p d = Inr u))
    \<and> (\<not> isPasteLike (ed_inputType edit)
        \<and> (ed_prior edit = [] \<or> (\<exists>q. readAmountText (ed_prior edit) (ed_rested edit) (ed_dollar edit) = Reads q))
      \<longrightarrow> list_all (\<lambda>c. is_digit c \<or> c \<in> set ''.,'') (nx_text (nextAmountText edit)))
    \<and> (\<not> (\<not> isPasteLike (ed_inputType edit)
           \<and> (ed_prior edit = [] \<or> (\<exists>q. readAmountText (ed_prior edit) (ed_rested edit) (ed_dollar edit) = Reads q)))
        \<and> (\<forall>q. readAmountText (ed_value edit) None (ed_dollar edit) \<noteq> Reads q)
      \<longrightarrow> nx_text (nextAmountText edit) = ed_value edit)"
proof (intro conjI impI)
  let ?typed = "if kept_text edit then (ed_value edit, False) else typedText edit"
  let ?paste = "isPasteLike (ed_inputType edit)"
  have cases: "nx_text (nextAmountText edit) = ''0.'' \<or> nx_text (nextAmountText edit) = fst (settle_text (fst ?typed) edit ?paste)"
    by (simp add: nextAmountText_def Let_def)
  have zero: "plain_form ''0.''" "list_ex is_digit ''0.''"
    by (simp_all add: plain_form_def)
  show "\<exists>u. parseAmountToBaseUnits p d = Inr u"
    if h: "ed_decimals edit = Some d \<and> 0 \<le> d \<and> readAmountText (nx_text (nextAmountText edit)) None (ed_dollar edit) = Reads p"
    using cases
  proof
    assume "nx_text (nextAmountText edit) = ''0.''"
    then have "p = ''0.''" using h read_plain [OF zero(1)] zero(2) by simp
    then show ?thesis
      using h parse_point [of "''0''" "[]" d] by simp
  next
    assume "nx_text (nextAmountText edit) = fst (settle_text (fst ?typed) edit ?paste)"
    then have "clampDecimals p d = p" using settle_clamped h by metis
    moreover have "plain_form p" "list_ex is_digit p"
      using read_amount_plain h by (auto simp: filter_empty_conv list_ex_iff)
    ultimately show ?thesis using clamped_parses h by blast
  qed
  show "list_all (\<lambda>c. is_digit c \<or> c \<in> set ''.,'') (nx_text (nextAmountText edit))"
    if "\<not> isPasteLike (ed_inputType edit)
        \<and> (ed_prior edit = [] \<or> (\<exists>q. readAmountText (ed_prior edit) (ed_rested edit) (ed_dollar edit) = Reads q))"
  proof -
    from that have k: "\<not> kept_text edit" by (auto simp: kept_text_def)
    have "list_all amount_char (nx_text (nextAmountText edit))"
      using cases k settle_chars [OF typedText_chars, of edit edit ?paste] by auto
    then show ?thesis
      by (auto simp: list_all_iff amount_char_def)
  qed
  show "nx_text (nextAmountText edit) = ed_value edit"
    if "\<not> (\<not> isPasteLike (ed_inputType edit)
           \<and> (ed_prior edit = [] \<or> (\<exists>q. readAmountText (ed_prior edit) (ed_rested edit) (ed_dollar edit) = Reads q)))
        \<and> (\<forall>q. readAmountText (ed_value edit) None (ed_dollar edit) \<noteq> Reads q)"
  proof -
    from that have k: "kept_text edit" by (auto simp: kept_text_def split: amount_read.split)
    have "readAmountText ''0'' None (ed_dollar edit) = Reads ''0''" using read_plain [of "''0''"] by (simp add: plain_form_def)
    with that have "ed_value edit \<noteq> ''0''" by auto
    with k that show ?thesis by (cases "readAmountText (ed_value edit) None (ed_dollar edit)") (auto simp: nextAmountText_def settle_text_def Let_def)
  qed
qed

text \<open>Four decimals pasted into the field of a token with three.\<close>

definition demo_edit :: amount_edit where
  "demo_edit = \<lparr>ed_prior = [], ed_value = ''1,234.5678'', ed_inputType = Some ''insertFromPaste'', ed_data = None, ed_decimals = Some 3,
     ed_rested = None, ed_commaPoint = False, ed_hint = None, ed_dollar = False\<rparr>"

theorem amount_edit_sound_witness:
  "nx_text (nextAmountText demo_edit) = ''1234.567'' \<and> (\<exists>u. parseAmountToBaseUnits ''1234.567'' 3 = Inr u)"
proof -
  have "nx_text (nextAmountText demo_edit) = ''1234.567''" "ed_decimals demo_edit = Some 3"
    "readAmountText ''1234.567'' None (ed_dollar demo_edit) = Reads ''1234.567''"
    by code_simp+
  then show ?thesis
    using amount_edit_sound [of demo_edit 3 "''1234.567''"] by simp
qed

end
