(* ===== verification/Verify_Admission.thy ===== *)
theory Verify_Admission
  imports Prelude
begin

text \<open>
  Admission of handshakes that the wallet approves by itself or that open a verify window,
  \<^verbatim>\<open>wallet-sdk/verify-admission.ts\<close>, with the callback \<^verbatim>\<open>approveAdmitted\<close> of
  \<^verbatim>\<open>wallet-sdk/background.ts\<close> that it runs. A reservation is an object: the gate's store holds every one
  made, and its maps refer to them by number.

  A released slot serves the queues at once, and an approval that does not land releases the slot it
  was just given, so the code calls itself: \<^verbatim>\<open>serve\<close>, \<^verbatim>\<open>drain\<close>, the callback, \<^verbatim>\<open>released\<close>, \<^verbatim>\<open>serve\<close>. The
  calls that are not finished are kept as a stack of frames. The clock stands still during one such
  run; the window port answers later, as a call of its own. While the queues are served no origin is
  added, so the names taken at the start of the loop over the origins are those it visits, but for
  the ones deleted meanwhile. What the gate does to the outside is logged.
\<close>

section \<open>State\<close>

definition RECONNECT_TOKENS :: int where
  "RECONNECT_TOKENS = 3"

definition RECONNECT_REFILL_MS :: time where
  "RECONNECT_REFILL_MS = 20000"

definition VERIFY_WINDOWS_PER_ORIGIN :: int where
  "VERIFY_WINDOWS_PER_ORIGIN = 2"

definition VERIFY_WINDOWS_GLOBAL :: int where
  "VERIFY_WINDOWS_GLOBAL = 8"

definition ADMISSION_QUEUE_PER_ORIGIN :: nat where
  "ADMISSION_QUEUE_PER_ORIGIN = 4"

definition RESERVATION_GRACE_MS :: time where
  "RESERVATION_GRACE_MS = 10000"

record admission_request =
  rq_id :: string
  rq_origin :: string
  rq_deadline :: time
  rq_needsWindow :: bool
  rq_consumesToken :: bool

text \<open>The callbacks of a request: an approval, which releases the slot when it does not land, or a promise that is resolved.\<close>

datatype admission_run = Approve | Resolve

datatype reservation_state = Unstarted | Standby | InFlight | Opened | Closing | Released

record reservation =
  wr_id :: string
  wr_origin :: string
  wr_expiresAt :: time
  wr_state :: reservation_state
  wr_cancelled :: bool
  wr_windowId :: "nat option"

record origin_state =
  os_tokens :: int
  os_refilledAt :: time
  os_windows :: int
  os_queue :: "(admission_request \<times> admission_run) list"

datatype gate_effect = Admitted time admission_request | ExpiredQueued string | CloseWindow nat | SlotReleased string

record gate =
  va_origins :: "(string, origin_state) jsmap"
  va_reservations :: "(string, nat) jsmap"
  va_liveWindowIds :: "string set"
  va_recentRemovals :: "nat list"
  va_globalWindows :: int
  va_timer :: "time option"
  va_objs :: "reservation list"
  va_log :: "gate_effect list"

definition empty_gate :: gate where
  "empty_gate = \<lparr>va_origins = [], va_reservations = [], va_liveWindowIds = {}, va_recentRemovals = [], va_globalWindows = 0,
     va_timer = None, va_objs = [], va_log = []\<rparr>"

datatype frame =
    Serve
  | Reclaim "nat list"
  | VisitOrigins
  | Visit "string list"
  | Drain string
  | Tidy string
  | Arm
  | RunEntry admission_request admission_run "nat option"

definition log_effect :: "gate_effect \<Rightarrow> gate \<Rightarrow> gate" where
  "log_effect e g = g\<lparr>va_log := va_log g @ [e]\<rparr>"

section \<open>Budgets\<close>

definition originState :: "time \<Rightarrow> string \<Rightarrow> gate \<Rightarrow> gate" where
  "originState now name g =
     (if js_has (va_origins g) name then g
      else g\<lparr>va_origins := js_set name \<lparr>os_tokens = RECONNECT_TOKENS, os_refilledAt = now, os_windows = 0, os_queue = []\<rparr> (va_origins g)\<rparr>)"

definition with_origin :: "string \<Rightarrow> (origin_state \<Rightarrow> origin_state) \<Rightarrow> gate \<Rightarrow> gate" where
  "with_origin name f g =
     (case js_get (va_origins g) name of None \<Rightarrow> g | Some ori \<Rightarrow> g\<lparr>va_origins := js_set name (f ori) (va_origins g)\<rparr>)"

definition refill :: "time \<Rightarrow> origin_state \<Rightarrow> origin_state" where
  "refill now ori =
     (if os_tokens ori \<ge> RECONNECT_TOKENS then ori\<lparr>os_refilledAt := now\<rparr>
      else
        (let earned = (now - os_refilledAt ori) div RECONNECT_REFILL_MS
         in if earned \<le> 0 then ori
            else
              (let tokens = min RECONNECT_TOKENS (os_tokens ori + earned)
               in ori\<lparr>os_tokens := tokens,
                    os_refilledAt := (if tokens \<ge> RECONNECT_TOKENS then now else os_refilledAt ori + earned * RECONNECT_REFILL_MS)\<rparr>)))"

definition fits :: "gate \<Rightarrow> origin_state \<Rightarrow> admission_request \<Rightarrow> bool" where
  "fits g ori req \<longleftrightarrow> \<not> (rq_consumesToken req \<and> os_tokens ori < 1)
     \<and> \<not> (rq_needsWindow req \<and> (os_windows ori \<ge> VERIFY_WINDOWS_PER_ORIGIN \<or> va_globalWindows g \<ge> VERIFY_WINDOWS_GLOBAL))"

section \<open>The timer\<close>

definition unclaimed :: "reservation \<Rightarrow> bool" where
  "unclaimed r \<longleftrightarrow> wr_state r = Unstarted \<or> wr_state r = Standby"

definition abandoned :: "reservation \<Rightarrow> bool" where
  "abandoned r \<longleftrightarrow> wr_state r = Closing \<or> wr_state r = Released"

definition expiredUnclaimed :: "time \<Rightarrow> reservation \<Rightarrow> bool" where
  "expiredUnclaimed now r \<longleftrightarrow> unclaimed r \<and> now > wr_expiresAt r"

definition origin_wakes :: "origin_state \<Rightarrow> time list" where
  "origin_wakes ori =
     (case os_queue ori of
        [] \<Rightarrow> []
      | q # _ \<Rightarrow> (if os_tokens ori < RECONNECT_TOKENS then [os_refilledAt ori + RECONNECT_REFILL_MS] else []) @ [rq_deadline (fst q) + 1])"

definition wakes :: "gate \<Rightarrow> time list" where
  "wakes g = concat (map (origin_wakes \<circ> snd) (va_origins g))
     @ map (\<lambda>(i, r). wr_expiresAt (va_objs g ! r) + 1) (filter (\<lambda>(i, r). unclaimed (va_objs g ! r)) (va_reservations g))"

definition nextWake :: "gate \<Rightarrow> time option" where
  "nextWake g = (case wakes g of [] \<Rightarrow> None | t # ts \<Rightarrow> Some (fold min ts t))"

text \<open>When the timer is due.\<close>

definition arm :: "time \<Rightarrow> gate \<Rightarrow> gate" where
  "arm now g = g\<lparr>va_timer := map_option (\<lambda>next. now + max 0 (next - now)) (nextWake g)\<rparr>"

section \<open>Reservations\<close>

definition upd_res :: "nat \<Rightarrow> (reservation \<Rightarrow> reservation) \<Rightarrow> gate \<Rightarrow> gate" where
  "upd_res r f g = g\<lparr>va_objs := (va_objs g)[r := f (va_objs g ! r)]\<rparr>"

text \<open>A request's budgets are taken just before its callback is run; the admission is logged here.\<close>

definition consume :: "time \<Rightarrow> string \<Rightarrow> admission_request \<Rightarrow> gate \<Rightarrow> gate \<times> nat option" where
  "consume now name req g =
     (let g1 = with_origin name (\<lambda>ori. if rq_consumesToken req then ori\<lparr>os_tokens := os_tokens ori - 1\<rparr> else ori)
                 (log_effect (Admitted now req) g)
      in if \<not> rq_needsWindow req then (g1, None)
         else
           (let g2 = with_origin name (\<lambda>ori. ori\<lparr>os_windows := os_windows ori + 1\<rparr>) g1;
                r = length (va_objs g2);
                obj = \<lparr>wr_id = rq_id req, wr_origin = rq_origin req, wr_expiresAt = rq_deadline req + RESERVATION_GRACE_MS,
                       wr_state = Unstarted, wr_cancelled = False, wr_windowId = None\<rparr>;
                g3 = g2\<lparr>va_globalWindows := va_globalWindows g2 + 1, va_liveWindowIds := insert (rq_id req) (va_liveWindowIds g2),
                        va_objs := va_objs g2 @ [obj], va_reservations := js_set (rq_id req) r (va_reservations g2)\<rparr>
            in (arm now g3, Some r)))"

text \<open>The methods that may free a slot return the frames still to be run.\<close>

definition released :: "time \<Rightarrow> nat \<Rightarrow> gate \<Rightarrow> gate \<times> frame list" where
  "released now r g =
     (let obj = va_objs g ! r
      in if js_get (va_reservations g) (wr_id obj) \<noteq> Some r then (g, [])
         else
           (let g1 = g\<lparr>va_reservations := js_del (wr_id obj) (va_reservations g), va_liveWindowIds := va_liveWindowIds g - {wr_id obj}\<rparr>;
                g2 = with_origin (wr_origin obj) (\<lambda>ori. ori\<lparr>os_windows := os_windows ori - 1\<rparr>) (originState now (wr_origin obj) g1);
                g3 = g2\<lparr>va_globalWindows := va_globalWindows g2 - 1\<rparr>
            in (log_effect (SlotReleased (wr_id obj)) g3, [Serve])))"

definition finish :: "time \<Rightarrow> nat \<Rightarrow> gate \<Rightarrow> gate \<times> frame list" where
  "finish now r g = released now r (upd_res r (\<lambda>obj. obj\<lparr>wr_state := Released\<rparr>) g)"

definition closeStandby :: "nat \<Rightarrow> gate \<Rightarrow> gate" where
  "closeStandby r g =
     (let g1 = upd_res r (\<lambda>obj. obj\<lparr>wr_state := Closing\<rparr>) g
      in case wr_windowId (va_objs g ! r) of None \<Rightarrow> g1 | Some w \<Rightarrow> log_effect (CloseWindow w) g1)"

definition releaseIfUnstarted :: "time \<Rightarrow> nat \<Rightarrow> gate \<Rightarrow> gate \<times> frame list" where
  "releaseIfUnstarted now r g =
     (case wr_state (va_objs g ! r) of
        Standby \<Rightarrow> (closeStandby r g, [])
      | Unstarted \<Rightarrow> finish now r g
      | _ \<Rightarrow> (g, []))"

text \<open>\<^verbatim>\<open>recentRemovals.delete\<close>, with whether the id was there.\<close>

definition consumeRemoval :: "nat \<Rightarrow> gate \<Rightarrow> bool \<times> gate" where
  "consumeRemoval w g = (w \<in> set (va_recentRemovals g), g\<lparr>va_recentRemovals := filter (\<lambda>x. x \<noteq> w) (va_recentRemovals g)\<rparr>)"

definition attach :: "time \<Rightarrow> nat \<Rightarrow> nat \<Rightarrow> gate \<Rightarrow> bool \<times> gate \<times> frame list" where
  "attach now r w g =
     (if wr_state (va_objs g ! r) \<noteq> Unstarted then (False, g, [])
      else
        (let (gone, g1) = consumeRemoval w (upd_res r (\<lambda>obj. obj\<lparr>wr_windowId := Some w\<rparr>) g)
         in if gone then (False, finish now r g1)
            else (True, upd_res r (\<lambda>obj. obj\<lparr>wr_state := Standby\<rparr>) g1, [])))"

definition claimStandby :: "nat \<Rightarrow> gate \<Rightarrow> nat option \<times> gate" where
  "claimStandby r g =
     (if wr_state (va_objs g ! r) \<noteq> Standby then (None, g)
      else (wr_windowId (va_objs g ! r), upd_res r (\<lambda>obj. obj\<lparr>wr_state := InFlight\<rparr>) g))"

definition markInFlight :: "nat \<Rightarrow> gate \<Rightarrow> bool \<times> gate" where
  "markInFlight r g =
     (if wr_state (va_objs g ! r) \<noteq> Unstarted then (False, g)
      else (True, upd_res r (\<lambda>obj. obj\<lparr>wr_state := InFlight\<rparr>) g))"

text \<open>True for \<^verbatim>\<open>"live"\<close>.\<close>

definition adopt :: "time \<Rightarrow> nat \<Rightarrow> nat \<Rightarrow> gate \<Rightarrow> bool \<times> gate \<times> frame list" where
  "adopt now r w g =
     (if wr_state (va_objs g ! r) \<noteq> InFlight then (False, g, [])
      else
        (let (gone, g1) = consumeRemoval w (upd_res r (\<lambda>obj. obj\<lparr>wr_windowId := Some w\<rparr>) g)
         in if gone then (False, finish now r g1)
            else (\<not> wr_cancelled (va_objs g1 ! r), upd_res r (\<lambda>obj. obj\<lparr>wr_state := Opened\<rparr>) g1, [])))"

definition creationFailed :: "time \<Rightarrow> nat \<Rightarrow> gate \<Rightarrow> gate \<times> frame list" where
  "creationFailed now r g = (if wr_state (va_objs g ! r) = InFlight then finish now r g else (g, []))"

definition cancel_reservation :: "time \<Rightarrow> nat \<Rightarrow> gate \<Rightarrow> gate \<times> frame list" where
  "cancel_reservation now r g =
     (case wr_state (va_objs g ! r) of
        Unstarted \<Rightarrow> finish now r g
      | Standby \<Rightarrow> (closeStandby r g, [])
      | InFlight \<Rightarrow> (upd_res r (\<lambda>obj. obj\<lparr>wr_cancelled := True\<rparr>) g, [])
      | _ \<Rightarrow> (g, []))"

section \<open>Serving the queues\<close>

definition shift_queue :: "string \<Rightarrow> gate \<Rightarrow> gate" where
  "shift_queue name g = with_origin name (\<lambda>ori. ori\<lparr>os_queue := tl (os_queue ori)\<rparr>) g"

text \<open>One turn of the loop of \<^verbatim>\<open>drain\<close>. An origin deleted meanwhile had an empty queue.\<close>

definition drain_turn :: "time \<Rightarrow> string \<Rightarrow> gate \<Rightarrow> gate \<times> frame list" where
  "drain_turn now name g =
     (case js_get (va_origins g) name of
        None \<Rightarrow> (g, [])
      | Some ori \<Rightarrow>
          (case os_queue ori of
             [] \<Rightarrow> (g, [])
           | (req, run) # _ \<Rightarrow>
               if now > rq_deadline req
               then (let g1 = shift_queue name g;
                         g2 = (if rq_needsWindow req then g1\<lparr>va_liveWindowIds := va_liveWindowIds g1 - {rq_id req}\<rparr> else g1)
                     in (log_effect (ExpiredQueued (rq_id req)) g2, [Drain name]))
               else if \<not> fits g ori req then (g, [])
               else (let (g1, r) = consume now name req (shift_queue name g)
                     in (g1, [RunEntry req run r, Drain name]))))"

definition tidy_origin :: "string \<Rightarrow> gate \<Rightarrow> gate" where
  "tidy_origin name g =
     (case js_get (va_origins g) name of
        None \<Rightarrow> g
      | Some ori \<Rightarrow>
          if os_queue ori = [] \<and> os_windows ori = 0 \<and> os_tokens ori \<ge> RECONNECT_TOKENS
          then g\<lparr>va_origins := js_del name (va_origins g)\<rparr> else g)"

text \<open>The callback of an admitted request; \<^verbatim>\<open>lands\<close> tells whether the approval of an id finds its handshake and is in time.\<close>

definition run_entry :: "(string \<Rightarrow> bool) \<Rightarrow> time \<Rightarrow> admission_request \<Rightarrow> admission_run \<Rightarrow> nat option \<Rightarrow> gate \<Rightarrow> gate \<times> frame list" where
  "run_entry lands now req run r g =
     (case (run, r) of
        (Approve, Some r) \<Rightarrow> if lands (rq_id req) then (g, []) else releaseIfUnstarted now r g
      | _ \<Rightarrow> (g, []))"

fun exec_frame :: "(string \<Rightarrow> bool) \<Rightarrow> time \<Rightarrow> frame \<Rightarrow> gate \<Rightarrow> gate \<times> frame list" where
  "exec_frame lands now Serve g = (g, [Reclaim (map snd (va_reservations g)), VisitOrigins, Arm])"
| "exec_frame lands now (Reclaim []) g = (g, [])"
| "exec_frame lands now (Reclaim (r # rs)) g =
     (if expiredUnclaimed now (va_objs g ! r)
      then (let (g1, fs) = releaseIfUnstarted now r g in (g1, fs @ [Reclaim rs]))
      else (g, [Reclaim rs]))"
| "exec_frame lands now VisitOrigins g = (g, [Visit (js_keys (va_origins g))])"
| "exec_frame lands now (Visit []) g = (g, [])"
| "exec_frame lands now (Visit (n # ns)) g =
     (if js_has (va_origins g) n then (with_origin n (refill now) g, [Drain n, Tidy n, Visit ns]) else (g, [Visit ns]))"
| "exec_frame lands now (Drain n) g = drain_turn now n g"
| "exec_frame lands now (Tidy n) g = (tidy_origin n g, [])"
| "exec_frame lands now Arm g = (arm now g, [])"
| "exec_frame lands now (RunEntry req run r) g = run_entry lands now req run r g"

section \<open>The frames run out\<close>

definition queued_total :: "(string, origin_state) jsmap \<Rightarrow> nat" where
  "queued_total m = sum_list (map (length \<circ> os_queue \<circ> snd) m)"

definition gate_weight :: "gate \<Rightarrow> nat" where
  "gate_weight g = 2 * queued_total (va_origins g) + length (va_reservations g)"

fun frame_weight :: "gate \<Rightarrow> frame \<Rightarrow> nat" where
  "frame_weight g Serve = 5 + length (va_reservations g) + 4 * length (va_origins g)"
| "frame_weight g (Reclaim rs) = 1 + length rs"
| "frame_weight g VisitOrigins = 2 + 4 * length (va_origins g)"
| "frame_weight g (Visit ns) = 1 + 4 * length ns"
| "frame_weight g _ = 1"

definition stack_weight :: "gate \<Rightarrow> frame list \<Rightarrow> nat" where
  "stack_weight g fs = sum_list (map (frame_weight g) fs)"

text \<open>What a frame does to the two weights: the gate's falls, or the gate keeps its size and the frame is used up.\<close>

definition lighter :: "frame \<Rightarrow> gate \<Rightarrow> gate \<times> frame list \<Rightarrow> bool" where
  "lighter f g res \<longleftrightarrow> gate_weight (fst res) < gate_weight g
     \<or> gate_weight (fst res) = gate_weight g \<and> length (va_reservations (fst res)) = length (va_reservations g)
       \<and> length (va_origins (fst res)) \<le> length (va_origins g) \<and> stack_weight g (snd res) < frame_weight g f"

lemma queued_total_set:
  assumes "js_get m n = Some ori"
  shows "queued_total (js_set n ori' m) + length (os_queue ori) = queued_total m + length (os_queue ori')"
    "length (js_set n ori' m) = length m"
  by (rule js_split [OF assms], simp add: queued_total_def)+

lemma queued_total_with:
  assumes "\<And>ori. length (os_queue (f ori)) = length (os_queue ori)"
  shows "queued_total (va_origins (with_origin n f g)) = queued_total (va_origins g)"
    "length (va_origins (with_origin n f g)) = length (va_origins g)"
  using assms queued_total_set by (auto simp: with_origin_def split: option.split) (metis add_right_cancel)+

lemma with_origin_frame [simp]:
  "va_reservations (with_origin n f g) = va_reservations g" "va_objs (with_origin n f g) = va_objs g"
  "va_liveWindowIds (with_origin n f g) = va_liveWindowIds g" "va_globalWindows (with_origin n f g) = va_globalWindows g"
  "va_timer (with_origin n f g) = va_timer g" "va_log (with_origin n f g) = va_log g"
  "va_recentRemovals (with_origin n f g) = va_recentRemovals g"
  by (simp_all add: with_origin_def split: option.split)

lemma refill_frame [simp]: "os_queue (refill now ori) = os_queue ori" "os_windows (refill now ori) = os_windows ori"
  by (simp_all add: refill_def Let_def)

lemma arm_frame [simp]:
  "va_origins (arm now g) = va_origins g" "va_reservations (arm now g) = va_reservations g" "va_objs (arm now g) = va_objs g"
  "va_liveWindowIds (arm now g) = va_liveWindowIds g" "va_globalWindows (arm now g) = va_globalWindows g"
  "va_log (arm now g) = va_log g" "va_recentRemovals (arm now g) = va_recentRemovals g"
  by (simp_all add: arm_def)

lemma log_frame [simp]:
  "va_origins (log_effect e g) = va_origins g" "va_reservations (log_effect e g) = va_reservations g" "va_objs (log_effect e g) = va_objs g"
  "va_liveWindowIds (log_effect e g) = va_liveWindowIds g" "va_globalWindows (log_effect e g) = va_globalWindows g"
  "va_timer (log_effect e g) = va_timer g" "va_recentRemovals (log_effect e g) = va_recentRemovals g"
  "va_log (log_effect e g) = va_log g @ [e]"
  by (simp_all add: log_effect_def)

lemma upd_res_frame [simp]:
  "va_origins (upd_res r f g) = va_origins g" "va_reservations (upd_res r f g) = va_reservations g"
  "va_liveWindowIds (upd_res r f g) = va_liveWindowIds g" "va_globalWindows (upd_res r f g) = va_globalWindows g"
  "va_log (upd_res r f g) = va_log g" "va_timer (upd_res r f g) = va_timer g" "va_recentRemovals (upd_res r f g) = va_recentRemovals g"
  by (simp_all add: upd_res_def)

lemma closeStandby_frame [simp]:
  "va_origins (closeStandby r g) = va_origins g" "va_reservations (closeStandby r g) = va_reservations g"
  "va_liveWindowIds (closeStandby r g) = va_liveWindowIds g" "va_globalWindows (closeStandby r g) = va_globalWindows g"
  "va_timer (closeStandby r g) = va_timer g" "va_recentRemovals (closeStandby r g) = va_recentRemovals g"
  by (simp_all add: closeStandby_def Let_def split: option.split)

lemma queued_total_new: "queued_total (js_set n \<lparr>os_tokens = t, os_refilledAt = a, os_windows = w, os_queue = []\<rparr> m) \<le> queued_total m"
proof (cases "js_get m n")
  case None
  then show ?thesis by (simp add: js_set_new queued_total_def)
next
  case (Some ori)
  then show ?thesis using queued_total_set(1) [OF Some] by (metis add_leD1 length_0_conv list.size(3) origin_state.select_convs(4) add_0_right order_refl)
qed

lemma released_lighter: "released now r g = (g', fs) \<Longrightarrow> (g' = g \<and> fs = []) \<or> (gate_weight g' < gate_weight g \<and> fs = [Serve])"
proof -
  assume rel: "released now r g = (g', fs)"
  let ?obj = "va_objs g ! r"
  show ?thesis
  proof (cases "js_get (va_reservations g) (wr_id ?obj) = Some r")
    case True
    then have "length (js_del (wr_id ?obj) (va_reservations g)) < length (va_reservations g)"
      using js_get_mem by (force simp: AList.delete_eq intro: length_filter_less)
    moreover have "va_reservations g' = js_del (wr_id ?obj) (va_reservations g)" "fs = [Serve]"
      using rel True by (auto simp: released_def Let_def originState_def)
    moreover have "queued_total (va_origins g') \<le> queued_total (va_origins g)"
      using rel True by (auto simp: released_def Let_def originState_def queued_total_with queued_total_new)
    ultimately show ?thesis by (simp add: gate_weight_def)
  qed (use rel in \<open>simp add: released_def Let_def\<close>)
qed

lemma finish_lighter:
  assumes "finish now r g = (g', fs)"
  shows "fs = [] \<and> va_origins g' = va_origins g \<and> va_reservations g' = va_reservations g \<or> gate_weight g' < gate_weight g \<and> fs = [Serve]"
  using released_lighter [OF assms [unfolded finish_def]] by (auto simp: gate_weight_def)

lemma releaseIfUnstarted_lighter:
  assumes "releaseIfUnstarted now r g = (g', fs)"
  shows "fs = [] \<and> va_origins g' = va_origins g \<and> va_reservations g' = va_reservations g \<or> gate_weight g' < gate_weight g \<and> fs = [Serve]"
  using assms finish_lighter [of now r g] by (auto simp: releaseIfUnstarted_def split: reservation_state.splits)

lemma same_size: "va_origins g' = va_origins g \<Longrightarrow> va_reservations g' = va_reservations g \<Longrightarrow> gate_weight g' = gate_weight g"
  by (simp add: gate_weight_def)

lemma shift_total:
  assumes "js_get (va_origins g) n = Some ori" "os_queue ori \<noteq> []"
  shows "Suc (queued_total (va_origins (shift_queue n g))) = queued_total (va_origins g)"
  using queued_total_set(1) [OF assms(1), of "ori\<lparr>os_queue := tl (os_queue ori)\<rparr>"] assms
  by (cases "os_queue ori") (simp_all add: shift_queue_def with_origin_def)

lemma shift_frame [simp]:
  "va_reservations (shift_queue n g) = va_reservations g" "va_objs (shift_queue n g) = va_objs g"
  "va_liveWindowIds (shift_queue n g) = va_liveWindowIds g" "va_globalWindows (shift_queue n g) = va_globalWindows g"
  "va_timer (shift_queue n g) = va_timer g" "va_log (shift_queue n g) = va_log g"
  "va_recentRemovals (shift_queue n g) = va_recentRemovals g"
  by (simp_all add: shift_queue_def)

lemma consume_weight:
  shows "queued_total (va_origins (fst (consume now n req g))) = queued_total (va_origins g)"
    "length (va_reservations (fst (consume now n req g))) \<le> Suc (length (va_reservations g))"
proof -
  have "length (js_set i r m) \<le> Suc (length m)" for i and r :: nat and m :: "(string, nat) jsmap"
    by (induction m) (auto split: prod.split)
  then show "length (va_reservations (fst (consume now n req g))) \<le> Suc (length (va_reservations g))"
    by (simp add: consume_def Let_def)
  show "queued_total (va_origins (fst (consume now n req g))) = queued_total (va_origins g)"
    by (simp add: consume_def Let_def queued_total_with)
qed

lemma drain_lighter: "lighter (Drain n) g (drain_turn now n g)"
proof (cases "js_get (va_origins g) n")
  case (Some ori)
  show ?thesis
  proof (cases "os_queue ori")
    case (Cons q qs)
    obtain req run where q: "q = (req, run)" by force
    have s: "Suc (queued_total (va_origins (shift_queue n g))) = queued_total (va_origins g)"
      using shift_total [OF Some] Cons by simp
    show ?thesis
      using Some Cons q s consume_weight [of now n req "shift_queue n g"]
      by (auto simp: drain_turn_def Let_def lighter_def gate_weight_def stack_weight_def split: prod.split)
  qed (use Some in \<open>simp add: drain_turn_def lighter_def stack_weight_def\<close>)
qed (simp add: drain_turn_def lighter_def stack_weight_def)

lemma tidy_frame [simp]:
  "va_reservations (tidy_origin n g) = va_reservations g" "va_objs (tidy_origin n g) = va_objs g"
  "va_liveWindowIds (tidy_origin n g) = va_liveWindowIds g" "va_globalWindows (tidy_origin n g) = va_globalWindows g"
  "va_timer (tidy_origin n g) = va_timer g" "va_log (tidy_origin n g) = va_log g"
  "va_recentRemovals (tidy_origin n g) = va_recentRemovals g"
  by (simp_all add: tidy_origin_def split: option.split)

lemma tidy_lighter: "lighter (Tidy n) g (tidy_origin n g, [])"
proof -
  have "queued_total (filter P m) \<le> queued_total m" for P and m :: "(string, origin_state) jsmap"
    by (induction m) (auto simp: queued_total_def)
  then have "queued_total (va_origins (tidy_origin n g)) \<le> queued_total (va_origins g)"
    "length (va_origins (tidy_origin n g)) \<le> length (va_origins g)"
    by (auto simp: tidy_origin_def AList.delete_eq split: option.split)
  then show ?thesis
    by (auto simp: lighter_def gate_weight_def stack_weight_def)
qed

lemma exec_lighter: "lighter f g (exec_frame lands now f g)"
proof (cases "(lands, now, f, g)" rule: exec_frame.cases)
  case (3 l n r rs g')
  obtain g1 fs where rel: "releaseIfUnstarted now r g = (g1, fs)" by force
  show ?thesis
    using 3 rel releaseIfUnstarted_lighter [OF rel] same_size [of g1 g]
    by (auto simp: lighter_def stack_weight_def)
next
  case (10 l n req run r g')
  have "lighter f g (g1, fs)" if rel: "releaseIfUnstarted now r' g = (g1, fs)" for r' g1 fs
    using releaseIfUnstarted_lighter [OF rel] same_size [of g1 g] 10
    by (auto simp: lighter_def stack_weight_def)
  moreover have "lighter f g (g, [])"
    using 10 by (simp add: lighter_def stack_weight_def)
  ultimately have "lighter f g (run_entry lands now req run r g)"
    by (cases run; cases r; cases "releaseIfUnstarted now (the r) g") (auto simp: run_entry_def)
  then show ?thesis using 10 by simp
qed (auto simp: drain_lighter tidy_lighter, auto simp: lighter_def gate_weight_def stack_weight_def queued_total_with)

lemma frame_weight_size:
  "length (va_reservations g') = length (va_reservations g) \<Longrightarrow> length (va_origins g') \<le> length (va_origins g) \<Longrightarrow> frame_weight g' f \<le> frame_weight g f"
  by (cases f) auto

lemma stack_weight_size:
  "length (va_reservations g') = length (va_reservations g) \<Longrightarrow> length (va_origins g') \<le> length (va_origins g) \<Longrightarrow> stack_weight g' fs \<le> stack_weight g fs"
  by (induction fs) (auto simp: stack_weight_def frame_weight_size add_mono)

function run_frames :: "(string \<Rightarrow> bool) \<Rightarrow> time \<Rightarrow> frame list \<Rightarrow> gate \<Rightarrow> gate" where
  "run_frames lands now [] g = g"
| "run_frames lands now (f # fs) g = (let (g1, fs1) = exec_frame lands now f g in run_frames lands now (fs1 @ fs) g1)"
  by pat_completeness auto

termination
proof (relation "measures [\<lambda>(lands, now, fs, g). gate_weight g, \<lambda>(lands, now, fs, g). stack_weight g fs]")
  fix lands now f fs g res g1 fs1
  assume res: "res = exec_frame lands now f g" "(g1, fs1) = res"
  then have "lighter f g (g1, fs1)" using exec_lighter by metis
  then show "((lands, now, fs1 @ fs, g1), lands, now, f # fs, g)
      \<in> measures [\<lambda>(lands, now, fs, g). gate_weight g, \<lambda>(lands, now, fs, g). stack_weight g fs]"
    using stack_weight_size [of g1 g fs] stack_weight_size [of g1 g fs1] by (auto simp: lighter_def stack_weight_def)
qed simp

section \<open>The gate's calls\<close>

datatype admission_outcome = Now | Queued | Rejected

text \<open>What a call does before the queues are served, and the frames that serve them.\<close>

definition admit_head :: "time \<Rightarrow> admission_request \<Rightarrow> admission_run \<Rightarrow> gate \<Rightarrow> admission_outcome \<times> gate \<times> frame list" where
  "admit_head now req run g0 =
     (if rq_needsWindow req \<and> rq_id req \<in> va_liveWindowIds g0 then (Rejected, g0, [])
      else
        (let g = with_origin (rq_origin req) (refill now) (originState now (rq_origin req) g0);
             ori = the (js_get (va_origins g) (rq_origin req))
         in if fits g ori req then (let (g1, r) = consume now (rq_origin req) req g in (Now, g1, [RunEntry req run r]))
            else if length (os_queue ori) \<ge> ADMISSION_QUEUE_PER_ORIGIN then (Rejected, g, [])
            else
              (let g1 = with_origin (rq_origin req) (\<lambda>ori. ori\<lparr>os_queue := os_queue ori @ [(req, run)]\<rparr>) g;
                   g2 = (if rq_needsWindow req then g1\<lparr>va_liveWindowIds := insert (rq_id req) (va_liveWindowIds g1)\<rparr> else g1)
               in (Queued, arm now g2, []))))"

definition admit :: "(string \<Rightarrow> bool) \<Rightarrow> time \<Rightarrow> admission_request \<Rightarrow> admission_run \<Rightarrow> gate \<Rightarrow> admission_outcome \<times> gate" where
  "admit lands now req run g = (let (res, g1, fs) = admit_head now req run g in (res, run_frames lands now fs g1))"

definition onSessionGone :: "time \<Rightarrow> string \<Rightarrow> gate \<Rightarrow> gate \<times> frame list" where
  "onSessionGone now i g = (case js_get (va_reservations g) i of None \<Rightarrow> (g, []) | Some r \<Rightarrow> cancel_reservation now r g)"

definition buffer_removal :: "nat \<Rightarrow> gate \<Rightarrow> gate" where
  "buffer_removal w g =
     (let ws = (if w \<in> set (va_recentRemovals g) then va_recentRemovals g else va_recentRemovals g @ [w])
      in g\<lparr>va_recentRemovals := (if length ws > 64 then tl ws else ws)\<rparr>)"

text \<open>The first reservation that knows the window and is not released frees its slot.\<close>

definition windowRemoved :: "time \<Rightarrow> nat \<Rightarrow> gate \<Rightarrow> gate \<times> frame list" where
  "windowRemoved now w g =
     (case find (\<lambda>(i, r). wr_state (va_objs g ! r) \<noteq> Released \<and> wr_windowId (va_objs g ! r) = Some w) (va_reservations g) of
        None \<Rightarrow> (buffer_removal w g, [])
      | Some (i, r) \<Rightarrow> finish now r g)"

definition windowsHeld :: "string \<Rightarrow> gate \<Rightarrow> int" where
  "windowsHeld name g = (case js_get (va_origins g) name of None \<Rightarrow> 0 | Some ori \<Rightarrow> os_windows ori)"

definition queued_for :: "string \<Rightarrow> gate \<Rightarrow> nat" where
  "queued_for name g = (case js_get (va_origins g) name of None \<Rightarrow> 0 | Some ori \<Rightarrow> length (os_queue ori))"

text \<open>Everything that happens to the gate: requests, sessions and windows that go, its timer, and the
  methods the session code calls on a reservation it holds.\<close>

datatype gate_call =
    CallAdmit admission_request admission_run
  | CallSessionGone string
  | CallWindowRemoved nat
  | CallTimer
  | CallRelease nat
  | CallAttach nat nat
  | CallClaimStandby nat
  | CallMarkInFlight nat
  | CallAdopt nat nat
  | CallCreationFailed nat

definition holds :: "gate \<Rightarrow> gate_call \<Rightarrow> bool" where
  "holds g c =
     (case c of
        CallRelease r \<Rightarrow> r < length (va_objs g)
      | CallAttach r w \<Rightarrow> r < length (va_objs g)
      | CallClaimStandby r \<Rightarrow> r < length (va_objs g)
      | CallMarkInFlight r \<Rightarrow> r < length (va_objs g)
      | CallAdopt r w \<Rightarrow> r < length (va_objs g)
      | CallCreationFailed r \<Rightarrow> r < length (va_objs g)
      | _ \<Rightarrow> True)"

fun call_head :: "time \<Rightarrow> gate_call \<Rightarrow> gate \<Rightarrow> gate \<times> frame list" where
  "call_head now (CallAdmit req run) g = snd (admit_head now req run g)"
| "call_head now (CallSessionGone i) g = onSessionGone now i g"
| "call_head now (CallWindowRemoved w) g = windowRemoved now w g"
| "call_head now CallTimer g = (case va_timer g of None \<Rightarrow> (g, []) | Some _ \<Rightarrow> (g\<lparr>va_timer := None\<rparr>, [Serve]))"
| "call_head now (CallRelease r) g = releaseIfUnstarted now r g"
| "call_head now (CallAttach r w) g = snd (attach now r w g)"
| "call_head now (CallClaimStandby r) g = (snd (claimStandby r g), [])"
| "call_head now (CallMarkInFlight r) g = (snd (markInFlight r g), [])"
| "call_head now (CallAdopt r w) g = snd (adopt now r w g)"
| "call_head now (CallCreationFailed r) g = creationFailed now r g"

definition gate_step :: "(string \<Rightarrow> bool) \<Rightarrow> time \<Rightarrow> gate_call \<Rightarrow> gate \<Rightarrow> gate" where
  "gate_step lands now c g = (let (g1, fs) = call_head now c g in run_frames lands now fs g1)"

text \<open>The gates that calls lead to, each at a time not before the one before it; a call on a
  reservation is made by code that was given it.\<close>

inductive gate_reach :: "time \<Rightarrow> gate \<Rightarrow> bool" where
  start: "gate_reach now empty_gate"
| call: "gate_reach past g \<Longrightarrow> past \<le> now \<Longrightarrow> holds g c \<Longrightarrow> gate_reach now (gate_step lands now c g)"

section \<open>Invariants of the gate\<close>

text \<open>An invariant of a gate and the frames still to be run, which every frame keeps.\<close>

locale frame_run =
  fixes Q :: "time \<Rightarrow> gate \<Rightarrow> frame list \<Rightarrow> bool"
  assumes frame: "Q now g (f # fs) \<Longrightarrow> Q now (fst (exec_frame lands now f g)) (snd (exec_frame lands now f g) @ fs)"
begin

lemma frames_run: "Q now g fs \<Longrightarrow> Q now (run_frames lands now fs g) []"
proof (induction lands now fs g rule: run_frames.induct)
  case (2 lands now f fs g)
  obtain g1 fs1 where e: "exec_frame lands now f g = (g1, fs1)" by force
  show ?case
    using 2(1) [OF e [symmetric] refl] frame [OF 2(2), of lands] e by simp
qed simp

end

text \<open>When the head of every call establishes it, it holds whenever all is run.\<close>

locale gate_run = frame_run +
  assumes start: "Q now empty_gate []"
    and wait: "Q past g [] \<Longrightarrow> past \<le> now \<Longrightarrow> Q now g []"
    and head: "Q now g [] \<Longrightarrow> holds g c \<Longrightarrow> Q now (fst (call_head now c g)) (snd (call_head now c g))"
begin

lemma reached: "gate_reach now g \<Longrightarrow> Q now g []"
proof (induction rule: gate_reach.induct)
  case (call past g now c lands)
  then have "Q now (fst (call_head now c g)) (snd (call_head now c g))"
    using wait head by blast
  then show ?case
    using frames_run by (cases "call_head now c g") (simp add: gate_step_def)
qed (rule start)

end

text \<open>The common case: an invariant of the gate alone, and one each frame relies on, which the others keep.\<close>

locale gate_invariant =
  fixes P :: "time \<Rightarrow> gate \<Rightarrow> bool" and F :: "time \<Rightarrow> gate \<Rightarrow> frame \<Rightarrow> bool"
  assumes empty_inv: "P now empty_gate"
    and wait_inv: "P past g \<Longrightarrow> past \<le> now \<Longrightarrow> P now g"
    and head_inv: "P now g \<Longrightarrow> holds g c \<Longrightarrow> P now (fst (call_head now c g)) \<and> list_all (F now (fst (call_head now c g))) (snd (call_head now c g))"
    and own: "P now g \<Longrightarrow> F now g f \<Longrightarrow> P now (fst (exec_frame lands now f g))
      \<and> list_all (F now (fst (exec_frame lands now f g))) (snd (exec_frame lands now f g))"
    and others: "P now g \<Longrightarrow> F now g f \<Longrightarrow> F now g h \<Longrightarrow> F now (fst (exec_frame lands now f g)) h"

sublocale gate_invariant \<subseteq> gate_run "\<lambda>now g fs. P now g \<and> list_all (F now g) fs"
proof unfold_locales
  fix now g f fs lands
  assume "P now g \<and> list_all (F now g) (f # fs)"
  then show "P now (fst (exec_frame lands now f g)) \<and> list_all (F now (fst (exec_frame lands now f g))) (snd (exec_frame lands now f g) @ fs)"
    using own [of now g f lands] others [of now g f _ lands] by (auto simp: list_all_iff)
qed (use empty_inv wait_inv head_inv in auto)

end
