(* ===== verification/Admission_Safety.thy ===== *)
theory Admission_Safety
  imports Verify_Admission
begin

text \<open>
  The counters of the admission gate are the reservations it holds, in every gate that calls lead to,
  and a slot is given back only when its window is gone.
\<close>

section \<open>The invariant\<close>

definition window_ids :: "origin_state \<Rightarrow> string list" where
  "window_ids ori = map (rq_id \<circ> fst) (filter (rq_needsWindow \<circ> fst) (os_queue ori))"

definition queued_ids :: "gate \<Rightarrow> string list" where
  "queued_ids g = concat (map (window_ids \<circ> snd) (va_origins g))"

definition slots_of :: "string \<Rightarrow> gate \<Rightarrow> nat" where
  "slots_of n g = js_count (\<lambda>(i, r). wr_origin (va_objs g ! r) = n) (va_reservations g)"

definition origin_ok :: "string \<Rightarrow> origin_state \<Rightarrow> bool" where
  "origin_ok n ori \<longleftrightarrow> 0 \<le> os_tokens ori \<and> os_tokens ori \<le> RECONNECT_TOKENS \<and> os_windows ori \<le> VERIFY_WINDOWS_PER_ORIGIN
     \<and> length (os_queue ori) \<le> ADMISSION_QUEUE_PER_ORIGIN \<and> (\<forall>q\<in>set (os_queue ori). rq_origin (fst q) = n)"

definition origins_ok :: "gate \<Rightarrow> bool" where
  "origins_ok g \<longleftrightarrow> distinct (js_keys (va_origins g)) \<and> (\<forall>n ori. js_get (va_origins g) n = Some ori \<longrightarrow> origin_ok n ori)"

definition ids_ok :: "gate \<Rightarrow> bool" where
  "ids_ok g \<longleftrightarrow> distinct (queued_ids g @ js_keys (va_reservations g))
     \<and> va_liveWindowIds g = set (queued_ids g @ js_keys (va_reservations g))"

definition counts_ok :: "gate \<Rightarrow> bool" where
  "counts_ok g \<longleftrightarrow> (\<forall>n. windowsHeld n g = int (slots_of n g)) \<and> va_globalWindows g = int (length (va_reservations g))
     \<and> va_globalWindows g \<le> VERIFY_WINDOWS_GLOBAL"

definition objs_ok :: "gate \<Rightarrow> bool" where
  "objs_ok g \<longleftrightarrow> (\<forall>i r. js_get (va_reservations g) i = Some r \<longrightarrow> r < length (va_objs g) \<and> wr_id (va_objs g ! r) = i \<and> wr_state (va_objs g ! r) \<noteq> Released)
     \<and> (\<forall>r < length (va_objs g). wr_state (va_objs g ! r) \<noteq> Released \<longrightarrow> js_get (va_reservations g) (wr_id (va_objs g ! r)) = Some r)"

definition gate_ok :: "gate \<Rightarrow> bool" where
  "gate_ok g \<longleftrightarrow> origins_ok g \<and> ids_ok g \<and> counts_ok g \<and> objs_ok g"

lemma gate_okD: "gate_ok g \<Longrightarrow> origins_ok g" "gate_ok g \<Longrightarrow> ids_ok g" "gate_ok g \<Longrightarrow> counts_ok g" "gate_ok g \<Longrightarrow> objs_ok g"
  by (simp_all add: gate_ok_def)

lemma gate_ok_cong:
  assumes "va_origins g' = va_origins g" "va_reservations g' = va_reservations g" "va_liveWindowIds g' = va_liveWindowIds g"
    "va_globalWindows g' = va_globalWindows g" "va_objs g' = va_objs g"
  shows "gate_ok g' = gate_ok g"
  using assms by (simp add: gate_ok_def origins_ok_def ids_ok_def counts_ok_def objs_ok_def queued_ids_def slots_of_def windowsHeld_def)

lemma gate_ok_arm [simp]: "gate_ok (arm now g) = gate_ok g"
  and gate_ok_log [simp]: "gate_ok (log_effect e g) = gate_ok g"
  by (rule gate_ok_cong; simp)+

lemma gate_ok_empty: "gate_ok empty_gate"
  by (simp add: gate_ok_def origins_ok_def ids_ok_def counts_ok_def objs_ok_def queued_ids_def slots_of_def windowsHeld_def
      empty_gate_def js_count_def VERIFY_WINDOWS_GLOBAL_def)

section \<open>Writes of one origin\<close>

lemma origins_ok_set:
  assumes "origins_ok g" "origin_ok n ori"
  shows "origins_ok (g\<lparr>va_origins := js_set n ori (va_origins g)\<rparr>)"
  using assms by (auto simp: origins_ok_def js_get_set distinct_update)

lemma windowsHeld_set: "windowsHeld k (g\<lparr>va_origins := js_set n ori (va_origins g)\<rparr>) = (if k = n then os_windows ori else windowsHeld k g)"
  by (simp add: windowsHeld_def js_get_set)

lemma queued_ids_set:
  assumes "js_get (va_origins g) n = Some ori"
  obtains xs ys where "queued_ids g = xs @ window_ids ori @ ys"
    "\<And>ori'. queued_ids (g\<lparr>va_origins := js_set n ori' (va_origins g)\<rparr>) = xs @ window_ids ori' @ ys"
    "distinct (js_keys (va_origins g)) \<Longrightarrow> queued_ids (g\<lparr>va_origins := js_del n (va_origins g)\<rparr>) = xs @ ys"
proof (rule js_split [OF assms])
  fix xs ys
  assume "va_origins g = xs @ (n, ori) # ys" "\<And>v'. js_set n v' (va_origins g) = xs @ (n, v') # ys"
    "distinct (js_keys (va_origins g)) \<Longrightarrow> js_del n (va_origins g) = xs @ ys"
  then show thesis
    using that [of "concat (map (window_ids \<circ> snd) xs)" "concat (map (window_ids \<circ> snd) ys)"] by (simp add: queued_ids_def)
qed

text \<open>A write that keeps the queue and the windows of an origin.\<close>

lemma gate_ok_origin:
  assumes "gate_ok g" "js_get (va_origins g) n = Some ori" "origin_ok n ori'" "os_windows ori' = os_windows ori" "os_queue ori' = os_queue ori"
  shows "gate_ok (g\<lparr>va_origins := js_set n ori' (va_origins g)\<rparr>)"
proof -
  let ?g = "g\<lparr>va_origins := js_set n ori' (va_origins g)\<rparr>"
  have w: "window_ids ori' = window_ids ori" using assms(5) by (simp add: window_ids_def)
  have q: "queued_ids ?g = queued_ids g"
    by (rule queued_ids_set [OF assms(2)]) (simp add: w)
  have "windowsHeld k ?g = windowsHeld k g" for k
    unfolding windowsHeld_set using assms(2,4) by (simp add: windowsHeld_def)
  then show ?thesis
    using assms(1) origins_ok_set [OF gate_okD(1) [OF assms(1)] assms(3)] q
    by (simp add: gate_ok_def ids_ok_def counts_ok_def objs_ok_def slots_of_def)
qed

lemma refill_ok: "origin_ok n ori \<Longrightarrow> origin_ok n (refill now ori)"
  by (auto simp: origin_ok_def refill_def RECONNECT_TOKENS_def Let_def)

lemma gate_ok_refill: "gate_ok g \<Longrightarrow> gate_ok (with_origin n (refill now) g)"
  using gate_okD(1) refill_ok
  by (auto simp: with_origin_def origins_ok_def split: option.split intro!: gate_ok_origin)

lemma gate_ok_originState: 
  assumes "gate_ok g"
  shows "gate_ok (originState now n g)"
proof (cases "js_get (va_origins g) n")
  case None
  let ?o = "\<lparr>os_tokens = RECONNECT_TOKENS, os_refilledAt = now, os_windows = 0, os_queue = []\<rparr>"
  let ?g = "g\<lparr>va_origins := js_set n ?o (va_origins g)\<rparr>"
  have g: "originState now n g = ?g" using None by (simp add: originState_def)
  have "origin_ok n ?o" by (simp add: origin_ok_def RECONNECT_TOKENS_def VERIFY_WINDOWS_PER_ORIGIN_def)
  then have "origins_ok ?g" using origins_ok_set gate_okD(1) [OF assms] by blast
  moreover have "queued_ids ?g = queued_ids g"
    using None by (simp add: queued_ids_def js_set_new window_ids_def)
  moreover have "windowsHeld k ?g = windowsHeld k g" for k
    unfolding windowsHeld_set using None by (simp add: windowsHeld_def)
  ultimately show ?thesis
    using assms unfolding g by (simp add: gate_ok_def ids_ok_def counts_ok_def objs_ok_def slots_of_def)
qed (simp add: originState_def assms)

section \<open>Taking a slot\<close>

lemma res_range:
  assumes "objs_ok g" "distinct (js_keys (va_reservations g))" "(i, r) \<in> set (va_reservations g)"
  shows "r < length (va_objs g)" "wr_id (va_objs g ! r) = i" "wr_state (va_objs g ! r) \<noteq> Released"
proof -
  have "js_get (va_reservations g) i = Some r" by (rule js_mem_get [OF assms(2,3)])
  then show "r < length (va_objs g)" "wr_id (va_objs g ! r) = i" "wr_state (va_objs g ! r) \<noteq> Released"
    using assms(1) unfolding objs_ok_def by blast+
qed

lemma objs_ok_add:
  assumes ok: "objs_ok g" and none: "js_get (va_reservations g) (wr_id obj) = None" and st: "wr_state obj \<noteq> Released"
    and new: "va_objs g' = va_objs g @ [obj]" "va_reservations g' = js_set (wr_id obj) (length (va_objs g)) (va_reservations g)"
  shows "objs_ok g'"
  unfolding objs_ok_def
proof (intro conjI allI impI)
  have get: "js_get (va_reservations g') i = (if i = wr_id obj then Some (length (va_objs g)) else js_get (va_reservations g) i)" for i
    by (simp add: new js_get_set)
  fix i r assume a: "js_get (va_reservations g') i = Some r"
  have "r < length (va_objs g') \<and> wr_id (va_objs g' ! r) = i \<and> wr_state (va_objs g' ! r) \<noteq> Released"
  proof (cases "i = wr_id obj")
    case True
    then have "r = length (va_objs g)" using a get by simp
    then show ?thesis using new st True by simp
  next
    case False
    then have "js_get (va_reservations g) i = Some r" using a get [of i] by simp
    then have "r < length (va_objs g)" "wr_id (va_objs g ! r) = i" "wr_state (va_objs g ! r) \<noteq> Released"
      using ok by (simp_all add: objs_ok_def)
    then show ?thesis using new(1) by (simp add: nth_append)
  qed
  then show "r < length (va_objs g')" "wr_id (va_objs g' ! r) = i" "wr_state (va_objs g' ! r) \<noteq> Released"
    by simp_all
next
  fix r assume a: "r < length (va_objs g')" "wr_state (va_objs g' ! r) \<noteq> Released"
  show "js_get (va_reservations g') (wr_id (va_objs g' ! r)) = Some r"
  proof (cases "r = length (va_objs g)")
    case False
    then have "va_objs g' ! r = va_objs g ! r" "r < length (va_objs g)" using a(1) new(1) by (simp_all add: nth_append)
    then have "js_get (va_reservations g) (wr_id (va_objs g' ! r)) = Some r"
      using ok a(2) by (simp add: objs_ok_def)
    then show ?thesis using none by (auto simp: new js_get_set)
  qed (use new in \<open>simp add: js_get_set\<close>)
qed

lemma objs_ok_remove:
  assumes ok: "objs_ok g" and r: "r < length (va_objs g)" and get: "js_get (va_reservations g) (wr_id (va_objs g ! r)) = Some r"
    and new: "va_objs g' = (va_objs g)[r := (va_objs g ! r)\<lparr>wr_state := Released\<rparr>]" "va_reservations g' = js_del (wr_id (va_objs g ! r)) (va_reservations g)"
  shows "objs_ok g'"
  unfolding objs_ok_def
proof (intro conjI allI impI)
  have nth: "wr_id (va_objs g' ! k) = wr_id (va_objs g ! k)" "wr_state (va_objs g' ! k) = (if k = r then Released else wr_state (va_objs g ! k))" for k
    using r by (auto simp: new nth_list_update)
  {
    fix i s assume "js_get (va_reservations g') i = Some s"
    then have i: "i \<noteq> wr_id (va_objs g ! r)" "js_get (va_reservations g) i = Some s"
      by (auto simp: new js_get_del split: if_splits)
    then have "s < length (va_objs g)" "wr_id (va_objs g ! s) = i" "wr_state (va_objs g ! s) \<noteq> Released"
      using ok by (simp_all add: objs_ok_def)
    moreover from this i(1) have "s \<noteq> r" by auto
    ultimately show "s < length (va_objs g')" "wr_id (va_objs g' ! s) = i" "wr_state (va_objs g' ! s) \<noteq> Released"
      using nth by (simp_all add: new)
  }
  fix s assume s: "s < length (va_objs g')" "wr_state (va_objs g' ! s) \<noteq> Released"
  have "s \<noteq> r" "wr_state (va_objs g ! s) \<noteq> Released" using s(2) nth(2) [of s] by (auto split: if_splits)
  moreover from this s(1) have g: "js_get (va_reservations g) (wr_id (va_objs g ! s)) = Some s"
    using ok by (simp add: objs_ok_def new)
  ultimately have "wr_id (va_objs g ! s) \<noteq> wr_id (va_objs g ! r)" using get by auto
  then show "js_get (va_reservations g') (wr_id (va_objs g' ! s)) = Some s"
    using g nth(1) by (simp add: new js_get_del)
qed

lemma consume_ok:
  assumes ok: "origins_ok g" "counts_ok g" "objs_ok g" and ori: "js_get (va_origins g) n = Some ori" "fits g ori req" "rq_origin req = n"
    and plain: "\<not> rq_needsWindow req \<Longrightarrow> ids_ok g"
    and window: "rq_needsWindow req \<Longrightarrow> distinct (queued_ids g @ js_keys (va_reservations g)) \<and> rq_id req \<notin> set (queued_ids g @ js_keys (va_reservations g))
      \<and> insert (rq_id req) (va_liveWindowIds g) = insert (rq_id req) (set (queued_ids g @ js_keys (va_reservations g)))"
  shows "gate_ok (fst (consume now n req g))"
proof -
  define o1 where "o1 = (if rq_consumesToken req then ori\<lparr>os_tokens := os_tokens ori - 1\<rparr> else ori)"
  let ?g1 = "g\<lparr>va_origins := js_set n o1 (va_origins g)\<rparr>"
  have o: "origin_ok n ori" using ok(1) ori(1) by (simp add: origins_ok_def)
  have o1: "origin_ok n o1" "os_windows o1 = os_windows ori" "os_queue o1 = os_queue ori"
    using o ori(2) by (auto simp: o1_def origin_ok_def fits_def)
  show ?thesis
  proof (cases "rq_needsWindow req")
    case False
    then have "gate_ok g" using ok plain by (simp add: gate_ok_def)
    then have "gate_ok ?g1" using gate_ok_origin ori(1) o1 by blast
    moreover have "fst (consume now n req g) = log_effect (Admitted now req) ?g1"
      using False ori(1) by (simp add: consume_def with_origin_def o1_def log_effect_def)
    ultimately show ?thesis by simp
  next
    case True
    define o2 where "o2 = o1\<lparr>os_windows := os_windows o1 + 1\<rparr>"
    define obj where "obj = \<lparr>wr_id = rq_id req, wr_origin = rq_origin req, wr_expiresAt = rq_deadline req + RESERVATION_GRACE_MS,
      wr_state = Unstarted, wr_cancelled = False, wr_windowId = None\<rparr>"
    define g3 where "g3 = g\<lparr>va_origins := js_set n o2 (va_origins g), va_globalWindows := va_globalWindows g + 1,
      va_liveWindowIds := insert (rq_id req) (va_liveWindowIds g), va_objs := va_objs g @ [obj],
      va_reservations := js_set (rq_id req) (length (va_objs g)) (va_reservations g)\<rparr>"
    let ?l = "log_effect (Admitted now req)"
    have "with_origin n (\<lambda>ori. if rq_consumesToken req then ori\<lparr>os_tokens := os_tokens ori - 1\<rparr> else ori) (?l g) = ?l ?g1"
      using ori(1) by (simp add: with_origin_def o1_def log_effect_def)
    moreover have "with_origin n (\<lambda>ori. ori\<lparr>os_windows := os_windows ori + 1\<rparr>) (?l ?g1) = ?l (g\<lparr>va_origins := js_set n o2 (va_origins g)\<rparr>)"
      by (simp add: with_origin_def js_get_set o2_def log_effect_def)
    ultimately have c: "fst (consume now n req g) = arm now (?l g3)"
      using True by (simp add: consume_def Let_def g3_def obj_def log_effect_def) (cases g, simp)
    have w: "distinct (queued_ids g @ js_keys (va_reservations g))" "rq_id req \<notin> set (queued_ids g)" "rq_id req \<notin> set (js_keys (va_reservations g))"
      "insert (rq_id req) (va_liveWindowIds g) = insert (rq_id req) (set (queued_ids g @ js_keys (va_reservations g)))"
      using window [OF True] by auto
    have new: "va_reservations g3 = va_reservations g @ [(rq_id req, length (va_objs g))]"
      using w(3) js_has_iff_key [of "va_reservations g" "rq_id req"] unfolding g3_def by (simp add: js_set_new del: set_map)
    have "origin_ok n o2"
      using o1 ori(2) True by (auto simp: o2_def origin_ok_def fits_def)
    then have "origins_ok g3"
      using ok(1) by (auto simp: origins_ok_def g3_def js_get_set distinct_update)
    moreover have q: "queued_ids g3 = queued_ids g"
    proof (rule queued_ids_set [OF ori(1)])
      fix xs ys
      assume "queued_ids g = xs @ window_ids ori @ ys" "\<And>ori'. queued_ids (g\<lparr>va_origins := js_set n ori' (va_origins g)\<rparr>) = xs @ window_ids ori' @ ys"
      moreover have "queued_ids g3 = queued_ids (g\<lparr>va_origins := js_set n o2 (va_origins g)\<rparr>)" "window_ids o2 = window_ids ori"
        using o1(3) by (simp_all add: g3_def queued_ids_def window_ids_def o2_def)
      ultimately show ?thesis by simp
    qed
    then have "ids_ok g3"
      using w new by (auto simp: ids_ok_def g3_def)
    moreover have slots: "slots_of k g3 = slots_of k g + (if k = n then 1 else 0)" for k
    proof -
      have "filter (\<lambda>(i, r). wr_origin ((va_objs g @ [obj]) ! r) = k) (va_reservations g) = filter (\<lambda>(i, r). wr_origin (va_objs g ! r) = k) (va_reservations g)"
        using res_range(1) [OF ok(3)] w(1) by (intro filter_cong) (auto simp: nth_append)
      moreover have "va_objs g3 = va_objs g @ [obj]" "wr_origin obj = n"
        using ori(3) by (simp_all add: g3_def obj_def)
      ultimately show ?thesis
        by (simp add: slots_of_def js_count_def new)
    qed
    have "counts_ok g3"
    proof -
      have held: "windowsHeld k g3 = windowsHeld k g + (if k = n then 1 else 0)" for k
        using ori(1) o1(2) by (simp add: windowsHeld_def g3_def js_get_set o2_def)
      have "va_globalWindows g3 = int (length (va_reservations g3))"
        using ok(2) new by (simp add: counts_ok_def g3_def)
      moreover have "va_globalWindows g3 \<le> VERIFY_WINDOWS_GLOBAL"
        using ori(2) True by (auto simp: fits_def g3_def)
      ultimately show ?thesis
        using ok(2) held slots by (simp add: counts_ok_def)
    qed
    moreover have "objs_ok g3"
    proof (rule objs_ok_add [OF ok(3)])
      show "js_get (va_reservations g) (wr_id obj) = None"
        using w(3) by (simp add: map_of_eq_None_iff obj_def)
    qed (simp_all add: g3_def obj_def)
    ultimately show ?thesis
      unfolding c gate_ok_arm gate_ok_log by (simp add: gate_ok_def)
  qed
qed

lemma consume_objs:
  "length (va_objs g) \<le> length (va_objs (fst (consume now n req g)))"
  "snd (consume now n req g) = Some r \<Longrightarrow> r < length (va_objs (fst (consume now n req g)))"
  by (auto simp: consume_def Let_def)

section \<open>Giving a slot back\<close>

lemma gate_ok_upd:
  assumes "gate_ok g" "r < length (va_objs g)" "wr_state (va_objs g ! r) \<noteq> Released"
    and f: "wr_id (f (va_objs g ! r)) = wr_id (va_objs g ! r)" "wr_origin (f (va_objs g ! r)) = wr_origin (va_objs g ! r)"
      "wr_state (f (va_objs g ! r)) \<noteq> Released"
  shows "gate_ok (upd_res r f g)"
proof -
  have same: "wr_id (va_objs (upd_res r f g) ! k) = wr_id (va_objs g ! k)" "wr_origin (va_objs (upd_res r f g) ! k) = wr_origin (va_objs g ! k)"
    "(wr_state (va_objs (upd_res r f g) ! k) = Released) = (wr_state (va_objs g ! k) = Released)" for k
    using assms(2,3) f by (auto simp: upd_res_def nth_list_update)
  then have "slots_of n (upd_res r f g) = slots_of n g" for n
    by (simp add: slots_of_def)
  moreover have "length (va_objs (upd_res r f g)) = length (va_objs g)"
    by (simp add: upd_res_def)
  ultimately show ?thesis
    using assms(1) same by (simp add: gate_ok_def origins_ok_def ids_ok_def counts_ok_def objs_ok_def queued_ids_def windowsHeld_def)
qed

lemma finish_ok:
  assumes ok: "gate_ok g" and r: "r < length (va_objs g)" "wr_state (va_objs g ! r) \<noteq> Released"
  shows "gate_ok (fst (finish now r g))"
proof -
  define obj n where "obj = va_objs g ! r" and "n = wr_origin obj"
  have get: "js_get (va_reservations g) (wr_id obj) = Some r"
    using gate_okD(4) [OF ok] r by (simp add: objs_ok_def obj_def)
  have dist: "distinct (js_keys (va_reservations g))"
    using gate_okD(2) [OF ok] by (simp add: ids_ok_def)
  have del: "js_count P (js_del (wr_id obj) (va_reservations g)) + (if P (wr_id obj, r) then 1 else 0) = js_count P (va_reservations g)" for P
    by (rule js_count_del [OF dist get])
  then have "slots_of n g \<ge> 1"
    using del [of "\<lambda>(i, r). wr_origin (va_objs g ! r) = n"] by (simp add: slots_of_def n_def obj_def split: if_splits)
  then have "windowsHeld n g \<ge> 1"
    using gate_okD(3) [OF ok] by (simp add: counts_ok_def)
  then obtain ori where ori: "js_get (va_origins g) n = Some ori"
    by (cases "js_get (va_origins g) n") (auto simp: windowsHeld_def)
  define o' where "o' = ori\<lparr>os_windows := os_windows ori - 1\<rparr>"
  define g' where "g' = g\<lparr>va_objs := (va_objs g)[r := obj\<lparr>wr_state := Released\<rparr>], va_reservations := js_del (wr_id obj) (va_reservations g),
    va_liveWindowIds := va_liveWindowIds g - {wr_id obj}, va_origins := js_set n o' (va_origins g), va_globalWindows := va_globalWindows g - 1\<rparr>"
  have fin: "fst (finish now r g) = log_effect (SlotReleased (wr_id obj)) g'"
    using get ori r(1) by (simp add: finish_def released_def upd_res_def originState_def with_origin_def Let_def obj_def [symmetric] g'_def o'_def n_def)
  have nth: "wr_id (va_objs g' ! k) = wr_id (va_objs g ! k)" "wr_origin (va_objs g' ! k) = wr_origin (va_objs g ! k)"
    "wr_state (va_objs g' ! k) = (if k = r then Released else wr_state (va_objs g ! k))" for k
    using r(1) by (auto simp: g'_def nth_list_update obj_def)
  have "origin_ok n o'"
    using gate_okD(1) [OF ok] ori by (fastforce simp: origins_ok_def origin_ok_def o'_def)
  then have "origins_ok g'"
    using gate_okD(1) [OF ok] by (auto simp: origins_ok_def g'_def js_get_set distinct_update)
  moreover have "queued_ids g' = queued_ids g"
  proof (rule queued_ids_set [OF ori])
    fix xs ys
    assume "queued_ids g = xs @ window_ids ori @ ys" "\<And>ori'. queued_ids (g\<lparr>va_origins := js_set n ori' (va_origins g)\<rparr>) = xs @ window_ids ori' @ ys"
    moreover have "queued_ids g' = queued_ids (g\<lparr>va_origins := js_set n o' (va_origins g)\<rparr>)" "window_ids o' = window_ids ori"
      by (simp_all add: g'_def queued_ids_def window_ids_def o'_def)
    ultimately show ?thesis by simp
  qed
  then have "ids_ok g'"
    using gate_okD(2) [OF ok] get js_get_mem [OF get] by (force simp: ids_ok_def g'_def keys_js_del)
  moreover have "counts_ok g'"
  proof -
    have slots: "int (slots_of k g') = int (slots_of k g) - (if k = n then 1 else 0)" for k
      using del [of "\<lambda>(i, r). wr_origin (va_objs g ! r) = k"] nth(2) by (auto simp: slots_of_def g'_def n_def obj_def)
    have held: "windowsHeld k g' = windowsHeld k g - (if k = n then 1 else 0)" for k
      using ori by (simp add: windowsHeld_def g'_def js_get_set o'_def)
    have "int (length (va_reservations g')) = int (length (va_reservations g)) - 1"
      using del [of "\<lambda>_. True"] by (simp add: js_count_def g'_def)
    moreover have "va_globalWindows g' = va_globalWindows g - 1"
      by (simp add: g'_def)
    ultimately show ?thesis
      using gate_okD(3) [OF ok] unfolding counts_ok_def slots held by auto
  qed
  moreover have "objs_ok g'"
    by (rule objs_ok_remove [OF gate_okD(4) [OF ok] r(1)]) (use get in \<open>simp_all add: g'_def obj_def\<close>)
  ultimately show ?thesis
    unfolding fin gate_ok_log by (simp add: gate_ok_def)
qed

lemma objs_frame [simp]:
  "length (va_objs (upd_res r f g)) = length (va_objs g)" "length (va_objs (closeStandby r g)) = length (va_objs g)"
  "va_objs (originState now n g) = va_objs g" "va_objs (fst (released now r g)) = va_objs g"
  by (auto simp: upd_res_def closeStandby_def originState_def released_def Let_def split: option.split)

lemma finish_objs [simp]: "length (va_objs (fst (finish now r g))) = length (va_objs g)"
  by (simp add: finish_def)

lemma releaseIfUnstarted_objs [simp]: "length (va_objs (fst (releaseIfUnstarted now r g))) = length (va_objs g)"
  by (simp add: releaseIfUnstarted_def split: reservation_state.split)

lemma gate_ok_close:
  assumes "gate_ok g" "r < length (va_objs g)" "wr_state (va_objs g ! r) \<noteq> Released"
  shows "gate_ok (closeStandby r g)"
  using gate_ok_upd [OF assms, of "\<lambda>obj. obj\<lparr>wr_state := Closing\<rparr>"] by (simp add: closeStandby_def Let_def split: option.split)

lemma releaseIfUnstarted_ok:
  assumes "gate_ok g" "r < length (va_objs g)"
  shows "gate_ok (fst (releaseIfUnstarted now r g))"
  using assms finish_ok [OF assms] gate_ok_close [OF assms] by (simp add: releaseIfUnstarted_def split: reservation_state.split)

lemma frames_of_finish: "snd (finish now r g) = [] \<or> snd (finish now r g) = [Serve]"
  by (simp add: finish_def released_def Let_def)

lemma frames_of_release: "snd (releaseIfUnstarted now r g) = [] \<or> snd (releaseIfUnstarted now r g) = [Serve]"
  using frames_of_finish by (simp add: releaseIfUnstarted_def split: reservation_state.split)

section \<open>The queues\<close>

lemma shift_ok:
  assumes "origins_ok g"
  shows "origins_ok (shift_queue n g)"
proof (cases "js_get (va_origins g) n")
  case (Some ori)
  then have "origin_ok n ori" using assms by (simp add: origins_ok_def)
  then have "origin_ok n (ori\<lparr>os_queue := tl (os_queue ori)\<rparr>)"
    by (cases "os_queue ori") (auto simp: origin_ok_def)
  then show ?thesis using origins_ok_set [OF assms] Some by (simp add: shift_queue_def with_origin_def)
qed (simp add: shift_queue_def with_origin_def assms)

lemma shift_same:
  "slots_of k (shift_queue n g) = slots_of k g" "windowsHeld k (shift_queue n g) = windowsHeld k g"
  "counts_ok (shift_queue n g) = counts_ok g" "objs_ok (shift_queue n g) = objs_ok g"
proof -
  show s: "slots_of k (shift_queue n g) = slots_of k g" for k
    by (simp add: slots_of_def)
  show h: "windowsHeld k (shift_queue n g) = windowsHeld k g" for k
    by (auto simp: windowsHeld_def shift_queue_def with_origin_def js_get_set split: option.split)
  show "counts_ok (shift_queue n g) = counts_ok g" "objs_ok (shift_queue n g) = objs_ok g"
    by (simp_all add: counts_ok_def objs_ok_def s h)
qed

lemma shift_ids:
  assumes "js_get (va_origins g) n = Some ori" "os_queue ori = (req, run) # qs"
  obtains xs ys where "queued_ids g = xs @ (if rq_needsWindow req then [rq_id req] else []) @ ys" "queued_ids (shift_queue n g) = xs @ ys"
proof (rule queued_ids_set [OF assms(1)])
  fix xs ys
  assume a: "queued_ids g = xs @ window_ids ori @ ys" "\<And>ori'. queued_ids (g\<lparr>va_origins := js_set n ori' (va_origins g)\<rparr>) = xs @ window_ids ori' @ ys"
  let ?ws = "window_ids (ori\<lparr>os_queue := qs\<rparr>)"
  have "window_ids ori = (if rq_needsWindow req then [rq_id req] else []) @ ?ws"
    using assms(2) by (simp add: window_ids_def)
  moreover have "queued_ids (shift_queue n g) = xs @ ?ws @ ys"
    using a(2) [of "ori\<lparr>os_queue := qs\<rparr>"] assms by (simp add: shift_queue_def with_origin_def)
  ultimately show thesis using that [of xs "?ws @ ys"] a(1) by simp
qed

lemma drain_ok:
  assumes ok: "gate_ok g"
  shows "gate_ok (fst (drain_turn now n g))"
proof (cases "js_get (va_origins g) n")
  case (Some ori)
  show ?thesis
  proof (cases "os_queue ori")
    case (Cons q qs)
    obtain req run where q: "q = (req, run)" by force
    let ?s = "shift_queue n g"
    obtain xs ys where ids: "queued_ids g = xs @ (if rq_needsWindow req then [rq_id req] else []) @ ys" "queued_ids ?s = xs @ ys"
      using shift_ids [OF Some] Cons q by metis
    have parts: "origins_ok ?s" "counts_ok ?s" "objs_ok ?s"
      using ok shift_ok by (simp_all add: gate_ok_def shift_same)
    have live: "distinct (queued_ids g @ js_keys (va_reservations g))" "va_liveWindowIds g = set (queued_ids g @ js_keys (va_reservations g))"
      using gate_okD(2) [OF ok] by (simp_all add: ids_ok_def)
    have expired: "gate_ok (if rq_needsWindow req then ?s\<lparr>va_liveWindowIds := va_liveWindowIds ?s - {rq_id req}\<rparr> else ?s)" (is "gate_ok ?e")
    proof -
      have "queued_ids ?e = xs @ ys" using ids(2) by (simp add: queued_ids_def)
      then have "ids_ok ?e" using live ids(1) unfolding ids_ok_def by auto
      moreover have "origins_ok ?e" "counts_ok ?e" "objs_ok ?e"
        using parts by (auto simp: origins_ok_def counts_ok_def objs_ok_def slots_of_def windowsHeld_def)
      ultimately show ?thesis by (simp add: gate_ok_def)
    qed
    have admitted: "gate_ok (fst (consume now n req ?s))" if "fits g ori req"
    proof -
      have o: "js_get (va_origins ?s) n = Some (ori\<lparr>os_queue := qs\<rparr>)"
        using Some Cons q by (simp add: shift_queue_def with_origin_def js_get_set)
      have "origin_ok n ori" using gate_okD(1) [OF ok] Some by (simp add: origins_ok_def)
      then have "rq_origin req = n" using Cons q by (simp add: origin_ok_def)
      moreover have "fits ?s (ori\<lparr>os_queue := qs\<rparr>) req" using that by (simp add: fits_def)
      moreover have "ids_ok ?s" if "\<not> rq_needsWindow req"
        using live ids that by (simp add: ids_ok_def)
      ultimately show ?thesis
        using live ids by (intro consume_ok [OF parts o]) auto
    qed
    show ?thesis
      using Some Cons q ok expired admitted by (simp add: drain_turn_def Let_def split: prod.split) (metis fst_conv)
  qed (use ok Some in \<open>simp add: drain_turn_def\<close>)
qed (simp add: drain_turn_def ok)

lemma drain_objs: "length (va_objs g) \<le> length (va_objs (fst (drain_turn now n g)))"
  "RunEntry req run (Some r) \<in> set (snd (drain_turn now n g)) \<Longrightarrow> r < length (va_objs (fst (drain_turn now n g)))"
  "Reclaim rs \<notin> set (snd (drain_turn now n g))"
  using consume_objs [where g = "shift_queue n g" and now = now and n = n]
  by (auto simp: drain_turn_def Let_def split: option.splits list.splits prod.splits if_splits) (metis fst_conv snd_conv)+

lemma tidy_ok:
  assumes "gate_ok g"
  shows "gate_ok (tidy_origin n g)"
proof (cases "js_get (va_origins g) n")
  case (Some ori)
  show ?thesis
  proof (cases "os_queue ori = [] \<and> os_windows ori = 0 \<and> os_tokens ori \<ge> RECONNECT_TOKENS")
    case True
    let ?g = "g\<lparr>va_origins := js_del n (va_origins g)\<rparr>"
    have d: "distinct (js_keys (va_origins g))" using gate_okD(1) [OF assms] by (simp add: origins_ok_def)
    have "queued_ids ?g = queued_ids g"
    proof (rule queued_ids_set [OF Some])
      fix xs ys assume "queued_ids g = xs @ window_ids ori @ ys" "distinct (js_keys (va_origins g)) \<Longrightarrow> queued_ids ?g = xs @ ys"
      then show ?thesis using True d by (simp add: window_ids_def)
    qed
    moreover have "windowsHeld k ?g = windowsHeld k g" for k
      using Some True by (simp add: windowsHeld_def js_get_del)
    moreover have "origins_ok ?g"
      using gate_okD(1) [OF assms] by (auto simp: origins_ok_def js_get_del distinct_delete split: if_splits)
    ultimately have "gate_ok ?g"
      using assms by (simp add: gate_ok_def ids_ok_def counts_ok_def objs_ok_def slots_of_def)
    then show ?thesis using Some True by (simp add: tidy_origin_def)
  qed (use Some assms in \<open>auto simp: tidy_origin_def\<close>)
qed (simp add: tidy_origin_def assms)

section \<open>Frames\<close>

fun frame_ok :: "gate \<Rightarrow> frame \<Rightarrow> bool" where
  "frame_ok g (Reclaim rs) = list_all (\<lambda>r. r < length (va_objs g)) rs"
| "frame_ok g (RunEntry req run r) = (case r of None \<Rightarrow> True | Some r \<Rightarrow> r < length (va_objs g))"
| "frame_ok g _ = True"

lemma frame_ok_mono: "length (va_objs g) \<le> length (va_objs g') \<Longrightarrow> frame_ok g f \<Longrightarrow> frame_ok g' f"
  by (cases f) (auto simp: list_all_iff split: option.splits)

lemma exec_objs: "length (va_objs g) \<le> length (va_objs (fst (exec_frame lands now f g)))"
proof (cases "(lands, now, f, g)" rule: exec_frame.cases)
  case (3 l t r rs g')
  then show ?thesis by (simp add: split_def Let_def)
next
  case (10 l t req run r g')
  then show ?thesis by (simp add: run_entry_def split: admission_run.split option.split)
qed (auto simp: drain_objs)

lemma exec_ok:
  assumes "gate_ok g" "frame_ok g f"
  shows "gate_ok (fst (exec_frame lands now f g)) \<and> list_all (frame_ok (fst (exec_frame lands now f g))) (snd (exec_frame lands now f g))"
proof (cases "(lands, now, f, g)" rule: exec_frame.cases)
  case (1 l t g')
  have "r < length (va_objs g)" if "(i, r) \<in> set (va_reservations g)" for i r
    using res_range(1) [OF gate_okD(4) [OF assms(1)] _ that] gate_okD(2) [OF assms(1)] by (simp add: ids_ok_def)
  then show ?thesis using 1 assms by (auto simp: list_all_iff)
next
  case (3 l t r rs g')
  then show ?thesis
    using assms releaseIfUnstarted_ok frames_of_release [of now r g] by (auto simp: split_def Let_def list_all_iff)
next
  case (6 l t n ns g')
  then show ?thesis using assms gate_ok_refill by auto
next
  case (7 l t n g')
  have "frame_ok (fst (drain_turn now n g)) h" if "h \<in> set (snd (drain_turn now n g))" for h
    using drain_objs(2,3) that by (cases h) (auto split: option.split)
  then show ?thesis using 7 assms drain_ok by (simp add: list_all_iff)
next
  case (10 l t req run r g')
  have "gate_ok (fst (releaseIfUnstarted now r' g)) \<and> list_all (frame_ok g'') (snd (releaseIfUnstarted now r' g))"
    if "r = Some r'" for r' g''
    using that 10 assms releaseIfUnstarted_ok [OF assms(1), of r'] frames_of_release [of now r' g] by auto
  then show ?thesis
    using 10 assms(1) by (auto simp: run_entry_def split: admission_run.split option.split)
qed (use assms in \<open>auto simp: tidy_ok\<close>)

section \<open>Calls\<close>

lemma gate_ok_removals [simp]: "gate_ok (g\<lparr>va_recentRemovals := ws\<rparr>) = gate_ok g" "gate_ok (g\<lparr>va_timer := t\<rparr>) = gate_ok g"
  by (rule gate_ok_cong; simp)+

lemma frame_ok_serve: "fs = [] \<or> fs = [Serve] \<Longrightarrow> list_all (frame_ok g) fs"
  by auto

lemma admit_head_eq:
  assumes "\<not> (rq_needsWindow req \<and> rq_id req \<in> va_liveWindowIds g0)"
    and g: "g = with_origin (rq_origin req) (refill now) (originState now (rq_origin req) g0)"
    and ori: "js_get (va_origins g) (rq_origin req) = Some ori"
  shows "admit_head now req run g0 =
    (if fits g ori req then (Now, fst (consume now (rq_origin req) req g), [RunEntry req run (snd (consume now (rq_origin req) req g))])
     else if length (os_queue ori) \<ge> ADMISSION_QUEUE_PER_ORIGIN then (Rejected, g, [])
     else (Queued, arm now (g\<lparr>va_origins := js_set (rq_origin req) (ori\<lparr>os_queue := os_queue ori @ [(req, run)]\<rparr>) (va_origins g),
       va_liveWindowIds := (if rq_needsWindow req then insert (rq_id req) (va_liveWindowIds g) else va_liveWindowIds g)\<rparr>), []))"
proof -
  have "with_origin (rq_origin req) (\<lambda>ori. ori\<lparr>os_queue := os_queue ori @ [(req, run)]\<rparr>) g
    = g\<lparr>va_origins := js_set (rq_origin req) (ori\<lparr>os_queue := os_queue ori @ [(req, run)]\<rparr>) (va_origins g)\<rparr>"
    by (simp add: with_origin_def ori)
  then show ?thesis
    unfolding admit_head_def g [symmetric] Let_def if_not_P [OF assms(1)] by (simp add: ori split_def)
qed

lemma admit_head_ok:
  assumes "gate_ok g0"
  shows "gate_ok (fst (snd (admit_head now req run g0)))
    \<and> list_all (frame_ok (fst (snd (admit_head now req run g0)))) (snd (snd (admit_head now req run g0)))"
proof (cases "rq_needsWindow req \<and> rq_id req \<in> va_liveWindowIds g0")
  case False
  let ?n = "rq_origin req"
  define g where "g = with_origin ?n (refill now) (originState now ?n g0)"
  have ok: "gate_ok g" unfolding g_def by (intro gate_ok_refill gate_ok_originState assms)
  obtain ori where ori: "js_get (va_origins g) ?n = Some ori"
    by (cases "js_get (va_origins (originState now ?n g0)) ?n") (auto simp: g_def with_origin_def js_get_set originState_def split: if_splits)
  have live: "va_liveWindowIds g = va_liveWindowIds g0" by (simp add: g_def originState_def)
  have fresh: "rq_id req \<notin> set (queued_ids g @ js_keys (va_reservations g))" if "rq_needsWindow req"
    using gate_okD(2) [OF ok] False that live by (auto simp: ids_ok_def)
  show ?thesis
  proof (cases "fits g ori req")
    case True
    have "gate_ok (fst (consume now ?n req g))"
      using gate_okD [OF ok] ori True fresh by (intro consume_ok) (auto simp: ids_ok_def)
    moreover have "frame_ok (fst (consume now ?n req g)) (RunEntry req run (snd (consume now ?n req g)))"
      using consume_objs(2) by (auto split: option.split)
    moreover have "admit_head now req run g0 = (Now, fst (consume now ?n req g), [RunEntry req run (snd (consume now ?n req g))])"
      using admit_head_eq [OF False g_def ori] True by simp
    ultimately show ?thesis by simp
  next
    case no: False
    show ?thesis
    proof (cases "length (os_queue ori) \<ge> ADMISSION_QUEUE_PER_ORIGIN")
      case True
      then show ?thesis
        using admit_head_eq [OF False g_def ori] no ok by simp
    next
      case room: False
      define o' where "o' = ori\<lparr>os_queue := os_queue ori @ [(req, run)]\<rparr>"
      define g2 where "g2 = g\<lparr>va_origins := js_set ?n o' (va_origins g),
        va_liveWindowIds := (if rq_needsWindow req then insert (rq_id req) (va_liveWindowIds g) else va_liveWindowIds g)\<rparr>"
      have "admit_head now req run g0 = (Queued, arm now g2, [])"
        using admit_head_eq [OF False g_def ori] no room by (simp add: g2_def o'_def)
      moreover have "origin_ok ?n o'"
        using gate_okD(1) [OF ok] ori room by (auto simp: origins_ok_def origin_ok_def o'_def)
      then have "origins_ok g2"
        using gate_okD(1) [OF ok] by (auto simp: origins_ok_def g2_def js_get_set distinct_update)
      moreover have "ids_ok g2"
      proof (rule queued_ids_set [OF ori])
        fix xs ys
        assume a: "queued_ids g = xs @ window_ids ori @ ys" "\<And>ori'. queued_ids (g\<lparr>va_origins := js_set ?n ori' (va_origins g)\<rparr>) = xs @ window_ids ori' @ ys"
        have "queued_ids g2 = xs @ window_ids o' @ ys"
          using a(2) [of o'] by (simp add: queued_ids_def g2_def)
        moreover have "window_ids o' = window_ids ori @ (if rq_needsWindow req then [rq_id req] else [])"
          by (simp add: o'_def window_ids_def)
        ultimately show "ids_ok g2"
          using gate_okD(2) [OF ok] a(1) fresh unfolding ids_ok_def by (auto simp: g2_def)
      qed
      moreover have "counts_ok g2" "objs_ok g2"
      proof -
        have "windowsHeld k g2 = windowsHeld k g" for k
          using ori by (simp add: windowsHeld_def g2_def js_get_set o'_def)
        then show "counts_ok g2" "objs_ok g2"
          using gate_okD(3,4) [OF ok] by (simp_all add: counts_ok_def objs_ok_def g2_def slots_of_def)
      qed
      ultimately show ?thesis by (simp add: gate_ok_def [of g2])
    qed
  qed
qed (simp add: admit_head_def assms)

lemma attach_ok:
  assumes "gate_ok g" "r < length (va_objs g)"
  shows "gate_ok (fst (snd (attach now r w g))) \<and> list_all (frame_ok g') (snd (snd (attach now r w g)))"
proof (cases "wr_state (va_objs g ! r) = Unstarted")
  case True
  have "gate_ok (upd_res r (\<lambda>obj. obj\<lparr>wr_windowId := Some w\<rparr>) g)"
    using assms True by (intro gate_ok_upd) auto
  then have g: "gate_ok ((upd_res r (\<lambda>obj. obj\<lparr>wr_windowId := Some w\<rparr>) g)\<lparr>va_recentRemovals := ws\<rparr>)" for ws
    by simp
  show ?thesis
    using assms True finish_ok [OF g] gate_ok_upd [OF g, where r = r and f = "\<lambda>obj. obj\<lparr>wr_state := Standby\<rparr>"] frame_ok_serve [OF frames_of_finish]
    by (auto simp: attach_def consumeRemoval_def upd_res_def)
qed (simp add: attach_def assms)

lemma adopt_ok:
  assumes "gate_ok g" "r < length (va_objs g)"
  shows "gate_ok (fst (snd (adopt now r w g))) \<and> list_all (frame_ok g') (snd (snd (adopt now r w g)))"
proof (cases "wr_state (va_objs g ! r) = InFlight")
  case True
  have "gate_ok (upd_res r (\<lambda>obj. obj\<lparr>wr_windowId := Some w\<rparr>) g)"
    using assms True by (intro gate_ok_upd) auto
  then have g: "gate_ok ((upd_res r (\<lambda>obj. obj\<lparr>wr_windowId := Some w\<rparr>) g)\<lparr>va_recentRemovals := ws\<rparr>)" for ws
    by simp
  show ?thesis
    using assms True finish_ok [OF g] gate_ok_upd [OF g, where r = r and f = "\<lambda>obj. obj\<lparr>wr_state := Opened\<rparr>"] frame_ok_serve [OF frames_of_finish]
    by (auto simp: adopt_def consumeRemoval_def upd_res_def)
qed (simp add: adopt_def assms)

lemma cancel_ok:
  assumes "gate_ok g" "r < length (va_objs g)"
  shows "gate_ok (fst (cancel_reservation now r g)) \<and> list_all (frame_ok g') (snd (cancel_reservation now r g))"
  using assms finish_ok [OF assms] gate_ok_close [OF assms] gate_ok_upd [OF assms, of "\<lambda>obj. obj\<lparr>wr_cancelled := True\<rparr>"] frame_ok_serve [OF frames_of_finish]
  by (auto simp: cancel_reservation_def split: reservation_state.split)

lemma find_mem: "find P xs = Some x \<Longrightarrow> x \<in> set xs \<and> P x"
  by (induction xs) (auto split: if_splits)

lemma call_head_ok:
  assumes ok: "gate_ok g" and h: "holds g c"
  shows "gate_ok (fst (call_head now c g)) \<and> list_all (frame_ok (fst (call_head now c g))) (snd (call_head now c g))"
proof (cases c)
  case (CallAdmit req run)
  then show ?thesis using admit_head_ok [OF ok] by simp
next
  case (CallSessionGone i)
  show ?thesis
  proof (cases "js_get (va_reservations g) i")
    case (Some r)
    then have "r < length (va_objs g)" using gate_okD(4) [OF ok] by (simp add: objs_ok_def)
    then show ?thesis using CallSessionGone Some cancel_ok [OF ok] by (simp add: onSessionGone_def)
  qed (use CallSessionGone ok in \<open>simp add: onSessionGone_def\<close>)
next
  case (CallWindowRemoved w)
  show ?thesis
  proof (cases "find (\<lambda>(i, r). wr_state (va_objs g ! r) \<noteq> Released \<and> wr_windowId (va_objs g ! r) = Some w) (va_reservations g)")
    case (Some p)
    obtain i r where p: "p = (i, r)" by force
    have "(i, r) \<in> set (va_reservations g)" "wr_state (va_objs g ! r) \<noteq> Released"
      using find_mem [OF Some] p by auto
    moreover from this have "r < length (va_objs g)"
      using res_range(1) [OF gate_okD(4) [OF ok]] gate_okD(2) [OF ok] by (simp add: ids_ok_def)
    ultimately show ?thesis
      using CallWindowRemoved Some p finish_ok [OF ok] frame_ok_serve [OF frames_of_finish] by (simp add: windowRemoved_def)
  qed (use CallWindowRemoved ok in \<open>simp add: windowRemoved_def buffer_removal_def Let_def\<close>)
next
  case (CallRelease r)
  then show ?thesis using releaseIfUnstarted_ok [OF ok] h frame_ok_serve [OF frames_of_release] by (simp add: holds_def)
next
  case (CallAttach r w)
  then show ?thesis using attach_ok [OF ok] h by (simp add: holds_def)
next
  case (CallAdopt r w)
  then show ?thesis using adopt_ok [OF ok] h by (simp add: holds_def)
next
  case (CallCreationFailed r)
  then show ?thesis using finish_ok [OF ok] ok h frame_ok_serve [OF frames_of_finish] by (simp add: holds_def creationFailed_def)
next
  case (CallClaimStandby r)
  then show ?thesis using gate_ok_upd [OF ok, of r "\<lambda>obj. obj\<lparr>wr_state := InFlight\<rparr>"] ok h by (simp add: holds_def claimStandby_def)
next
  case (CallMarkInFlight r)
  then show ?thesis using gate_ok_upd [OF ok, of r "\<lambda>obj. obj\<lparr>wr_state := InFlight\<rparr>"] ok h by (simp add: holds_def markInFlight_def)
qed (use ok in \<open>simp split: option.split\<close>)

interpretation counted: gate_invariant "\<lambda>now g. gate_ok g" "\<lambda>now g f. frame_ok g f"
proof unfold_locales
  fix now g f h lands
  assume "frame_ok g h"
  then show "frame_ok (fst (exec_frame lands now f g)) h" using frame_ok_mono exec_objs by blast
qed (use gate_ok_empty call_head_ok exec_ok in auto)

section \<open>Slots and windows\<close>

lemma slots_objs:
  assumes "gate_ok g"
  shows "card {r. r < length (va_objs g) \<and> wr_state (va_objs g ! r) \<noteq> Released \<and> P (wr_origin (va_objs g ! r))}
    = js_count (\<lambda>(i, r). P (wr_origin (va_objs g ! r))) (va_reservations g)"
proof -
  let ?m = "filter (\<lambda>(i, r). P (wr_origin (va_objs g ! r))) (va_reservations g)"
  have d: "distinct (js_keys (va_reservations g))" using gate_okD(2) [OF assms] by (simp add: ids_ok_def)
  note range = res_range [OF gate_okD(4) [OF assms] d]
  have get: "(wr_id (va_objs g ! r), r) \<in> set (va_reservations g)" if "r < length (va_objs g)" "wr_state (va_objs g ! r) \<noteq> Released" for r
    by (rule js_get_mem) (use gate_okD(4) [OF assms] that in \<open>simp add: objs_ok_def\<close>)
  have "{r. r < length (va_objs g) \<and> wr_state (va_objs g ! r) \<noteq> Released \<and> P (wr_origin (va_objs g ! r))} = snd ` set ?m"
  proof (intro set_eqI iffI)
    fix r assume "r \<in> {r. r < length (va_objs g) \<and> wr_state (va_objs g ! r) \<noteq> Released \<and> P (wr_origin (va_objs g ! r))}"
    then have "(wr_id (va_objs g ! r), r) \<in> set ?m" using get by simp
    then show "r \<in> snd ` set ?m" by force
  next
    fix r assume "r \<in> snd ` set ?m"
    then obtain i where "(i, r) \<in> set (va_reservations g)" "P (wr_origin (va_objs g ! r))" by auto
    then show "r \<in> {r. r < length (va_objs g) \<and> wr_state (va_objs g ! r) \<noteq> Released \<and> P (wr_origin (va_objs g ! r))}"
      using range(1,3) by blast
  qed
  moreover have "inj_on snd (set ?m)"
  proof (rule inj_onI)
    fix p q assume "p \<in> set ?m" "q \<in> set ?m" "snd p = snd q"
    then have "(fst p, snd p) \<in> set (va_reservations g)" "(fst q, snd p) \<in> set (va_reservations g)" by auto
    then have "fst p = fst q" using range(2) by metis
    then show "p = q" using \<open>snd p = snd q\<close> by (rule prod_eqI)
  qed
  moreover have "distinct ?m" using d by (simp add: distinct_map)
  ultimately show ?thesis
    by (simp only: js_count_def card_image distinct_card)
qed

text \<open>A slot whose window was asked for or exists: only calls that name it or its window change that.\<close>

definition busy :: "nat \<Rightarrow> gate \<Rightarrow> bool" where
  "busy r g \<longleftrightarrow> r < length (va_objs g) \<and> wr_state (va_objs g ! r) \<in> {Standby, InFlight, Opened, Closing}"

lemma finish_state: "va_objs (fst (finish now k g)) = (va_objs g)[k := (va_objs g ! k)\<lparr>wr_state := Released\<rparr>]"
  by (simp add: finish_def) (simp add: upd_res_def)

lemma close_state: "va_objs (closeStandby k g) = (va_objs g)[k := (va_objs g ! k)\<lparr>wr_state := Closing\<rparr>]"
  by (simp add: closeStandby_def Let_def upd_res_def split: option.split)

lemma release_busy: "busy r g \<Longrightarrow> busy r (fst (releaseIfUnstarted now k g))"
  by (cases "k = r") (auto simp: busy_def releaseIfUnstarted_def finish_state close_state split: reservation_state.split)

lemma cancel_busy: "busy r g \<Longrightarrow> busy r (fst (cancel_reservation now k g))"
  by (cases "k = r") (auto simp: busy_def cancel_reservation_def finish_state close_state upd_res_def split: reservation_state.split)

lemma consume_state: "r < length (va_objs g) \<Longrightarrow> va_objs (fst (consume now n req g)) ! r = va_objs g ! r"
  by (simp add: consume_def Let_def nth_append)

lemma drain_state: "r < length (va_objs g) \<Longrightarrow> va_objs (fst (drain_turn now n g)) ! r = va_objs g ! r"
  using consume_state [of r "shift_queue n g" now n]
  by (auto simp: drain_turn_def Let_def split: option.split list.split prod.split) (metis fst_conv)+

lemma busy_cong: "va_objs g' = va_objs g \<Longrightarrow> busy r g' = busy r g"
  by (simp add: busy_def)

lemma exec_busy: "busy r g \<Longrightarrow> busy r (fst (exec_frame lands now f g))"
proof (cases "(lands, now, f, g)" rule: exec_frame.cases)
  case (3 l t k rs g')
  assume "busy r g"
  then show ?thesis using 3 release_busy by (simp add: split_def Let_def)
next
  case (7 l t n g')
  assume "busy r g"
  then show ?thesis
    using 7 drain_state [of r g now n] drain_objs(1) [of g now n] by (auto simp: busy_def)
next
  case (10 l t req run k g')
  assume "busy r g"
  then show ?thesis
    using 10 release_busy by (simp add: run_entry_def split: admission_run.split option.split)
qed (auto simp: busy_def)

lemma run_busy: "busy r g \<Longrightarrow> busy r (run_frames lands now fs g)"
proof (induction lands now fs g rule: run_frames.induct)
  case (2 lands now f fs g)
  obtain g1 fs1 where e: "exec_frame lands now f g = (g1, fs1)" by force
  then have "busy r g1" using exec_busy [OF 2(2), of lands now f] by simp
  then show ?case using 2(1) [OF e [symmetric] refl] e by simp
qed simp

text \<open>The ways a call frees a slot by itself.\<close>

definition frees :: "gate \<Rightarrow> gate_call \<Rightarrow> nat \<Rightarrow> bool" where
  "frees g c r \<longleftrightarrow> wr_state (va_objs g ! r) = Unstarted
     \<or> wr_state (va_objs g ! r) = InFlight \<and> (c = CallCreationFailed r \<or> (\<exists>w\<in>set (va_recentRemovals g). c = CallAdopt r w))
     \<or> (\<exists>w. wr_windowId (va_objs g ! r) = Some w \<and> c = CallWindowRemoved w)"

lemma admit_state: "r < length (va_objs g) \<Longrightarrow> va_objs (fst (snd (admit_head now req run g))) ! r = va_objs g ! r"
proof (cases "rq_needsWindow req \<and> rq_id req \<in> va_liveWindowIds g")
  case False
  assume r: "r < length (va_objs g)"
  define g1 where "g1 = with_origin (rq_origin req) (refill now) (originState now (rq_origin req) g)"
  have g1: "va_objs g1 = va_objs g" by (simp add: g1_def)
  obtain ori where ori: "js_get (va_origins g1) (rq_origin req) = Some ori"
    by (cases "js_get (va_origins (originState now (rq_origin req) g)) (rq_origin req)")
      (auto simp: g1_def with_origin_def js_get_set originState_def split: if_splits)
  show ?thesis
    using admit_head_eq [OF False g1_def ori, of run] consume_state [of r g1] r g1 by simp
qed (simp add: admit_head_def)

lemma head_busy:
  assumes ok: "gate_ok g" "holds g c" and b: "busy r g" "\<not> frees g c r"
  shows "busy r (fst (call_head now c g))"
proof (cases c)
  case (CallAdmit req run)
  have len: "length (va_objs g) \<le> length (va_objs (fst (snd (admit_head now req run g))))"
    using consume_objs(1) [of "with_origin (rq_origin req) (refill now) (originState now (rq_origin req) g)" now "rq_origin req" req]
    by (simp add: admit_head_def Let_def split_def)
  show ?thesis using CallAdmit b(1) admit_state [of r g now req run] len by (auto simp: busy_def)
next
  case (CallSessionGone i)
  then show ?thesis
    using b(1) cancel_busy by (simp add: onSessionGone_def split: option.split)
next
  case (CallWindowRemoved w)
  show ?thesis
  proof (cases "find (\<lambda>(i, r). wr_state (va_objs g ! r) \<noteq> Released \<and> wr_windowId (va_objs g ! r) = Some w) (va_reservations g)")
    case (Some p)
    obtain i k where p: "p = (i, k)" by force
    have "k \<noteq> r" using find_mem [OF Some] p b(2) CallWindowRemoved by (auto simp: frees_def)
    then show ?thesis using CallWindowRemoved Some p b(1) by (simp add: busy_def windowRemoved_def finish_state)
  qed (use CallWindowRemoved b(1) in \<open>simp add: busy_def windowRemoved_def buffer_removal_def Let_def\<close>)
next
  case CallTimer
  then show ?thesis using b(1) by (simp add: busy_def split: option.split)
next
  case (CallRelease k)
  then show ?thesis using b(1) release_busy by simp
next
  case (CallAttach k w)
  then show ?thesis
    using b(1) by (cases "k = r") (auto simp: busy_def attach_def consumeRemoval_def finish_state upd_res_def)
next
  case (CallAdopt k w)
  then show ?thesis
    using b by (cases "k = r") (auto simp: busy_def adopt_def consumeRemoval_def finish_state upd_res_def frees_def)
next
  case (CallCreationFailed k)
  then show ?thesis using b by (cases "k = r") (auto simp: busy_def creationFailed_def finish_state frees_def)
next
  case (CallClaimStandby k)
  then show ?thesis using b(1) by (cases "k = r") (auto simp: busy_def claimStandby_def upd_res_def)
next
  case (CallMarkInFlight k)
  then show ?thesis using b(1) by (cases "k = r") (auto simp: busy_def markInFlight_def upd_res_def)
qed

section \<open>Properties\<close>

text \<open>
  C10. In every gate reached, however re-entrantly its queues were served: the verify windows that are
  reserved, being created or open are at most two of one origin and eight in all, the counters are
  exactly their numbers, and at most four handshakes of an origin wait.
\<close>

theorem admission_caps:
  assumes "gate_reach now g"
  shows "card {r. r < length (va_objs g) \<and> wr_state (va_objs g ! r) \<noteq> Released \<and> wr_origin (va_objs g ! r) = n} \<le> 2
    \<and> card {r. r < length (va_objs g) \<and> wr_state (va_objs g ! r) \<noteq> Released} \<le> 8
    \<and> windowsHeld n g = int (card {r. r < length (va_objs g) \<and> wr_state (va_objs g ! r) \<noteq> Released \<and> wr_origin (va_objs g ! r) = n})
    \<and> va_globalWindows g = int (card {r. r < length (va_objs g) \<and> wr_state (va_objs g ! r) \<noteq> Released})
    \<and> queued_for n g \<le> 4"
proof -
  have ok: "gate_ok g" using counted.reached [OF assms] by simp
  have one: "card {r. r < length (va_objs g) \<and> wr_state (va_objs g ! r) \<noteq> Released \<and> wr_origin (va_objs g ! r) = n} = slots_of n g"
    using slots_objs [OF ok, of "\<lambda>x. x = n"] by (simp add: slots_of_def)
  have all: "card {r. r < length (va_objs g) \<and> wr_state (va_objs g ! r) \<noteq> Released} = length (va_reservations g)"
    using slots_objs [OF ok, of "\<lambda>_. True"] by (simp add: js_count_def)
  have counts: "windowsHeld n g = int (slots_of n g)" "va_globalWindows g = int (length (va_reservations g))" "va_globalWindows g \<le> 8"
    using gate_okD(3) [OF ok] by (simp_all add: counts_ok_def VERIFY_WINDOWS_GLOBAL_def)
  have "windowsHeld n g \<le> 2 \<and> queued_for n g \<le> 4"
    using gate_okD(1) [OF ok]
    by (auto simp: windowsHeld_def queued_for_def origins_ok_def origin_ok_def VERIFY_WINDOWS_PER_ORIGIN_def ADMISSION_QUEUE_PER_ORIGIN_def split: option.split)
  then show ?thesis
    unfolding one all using counts by simp
qed

text \<open>
  C11. A slot follows its window: once a window was asked for or attached, the slot is given back only
  by the call that reports this window removed, by the failure of its creation, or by adopting a
  window whose removal was reported before.
\<close>

theorem slot_follows_window:
  assumes "gate_reach past g" "holds g c" "r < length (va_objs g)" "wr_state (va_objs g ! r) \<noteq> Released"
    and "wr_state (va_objs (gate_step lands now c g) ! r) = Released"
  shows "wr_state (va_objs g ! r) = Unstarted
    \<or> wr_state (va_objs g ! r) = InFlight \<and> (c = CallCreationFailed r \<or> (\<exists>w\<in>set (va_recentRemovals g). c = CallAdopt r w))
    \<or> (\<exists>w. wr_windowId (va_objs g ! r) = Some w \<and> c = CallWindowRemoved w)"
proof -
  have ok: "gate_ok g" using counted.reached [OF assms(1)] by simp
  have "frees g c r"
  proof (rule ccontr)
    assume no: "\<not> frees g c r"
    then have "busy r g" using assms(3,4) by (cases "wr_state (va_objs g ! r)") (auto simp: busy_def frees_def)
    then have "busy r (fst (call_head now c g))" using head_busy ok assms(2) no by blast
    then have "busy r (gate_step lands now c g)"
      using run_busy by (simp add: gate_step_def split_def Let_def)
    then show False using assms(5) by (simp add: busy_def)
  qed
  then show ?thesis by (simp add: frees_def)
qed

section \<open>A run\<close>

text \<open>Three handshakes of one origin: two are admitted, the third waits for a window.\<close>

definition demo_req :: "string \<Rightarrow> admission_request" where
  "demo_req i = \<lparr>rq_id = i, rq_origin = ''o'', rq_deadline = 1000, rq_needsWindow = True, rq_consumesToken = True\<rparr>"

definition demo_gate :: gate where
  "demo_gate = gate_step (\<lambda>_. True) 5 (CallAdmit (demo_req ''c'') Approve) (gate_step (\<lambda>_. True) 3 (CallAdmit (demo_req ''b'') Approve)
     (gate_step (\<lambda>_. True) 0 (CallAdmit (demo_req ''a'') Approve) empty_gate))"

text \<open>The first one's window opens.\<close>

definition demo_opened :: gate where
  "demo_opened = gate_step (\<lambda>_. True) 7 (CallAdopt 0 42) (gate_step (\<lambda>_. True) 6 (CallMarkInFlight 0) demo_gate)"

lemma demo_reach: "gate_reach 5 demo_gate"
proof -
  have a: "gate_reach 0 empty_gate" by (rule gate_reach.start)
  show ?thesis
    unfolding demo_gate_def
    by (rule gate_reach.call [OF gate_reach.call [OF gate_reach.call [OF a]]]) (simp_all add: holds_def)
qed

lemma demo_opened_reach: "gate_reach 7 demo_opened"
proof -
  have h: "0 < length (va_objs demo_gate)" "0 < length (va_objs (gate_step (\<lambda>_. True) 6 (CallMarkInFlight 0) demo_gate))" by code_simp+
  show ?thesis
    unfolding demo_opened_def
    by (rule gate_reach.call [OF gate_reach.call [OF demo_reach]]) (use h in \<open>simp_all add: holds_def\<close>)
qed

theorem admission_caps_witness:
  "windowsHeld ''o'' demo_gate = 2 \<and> queued_for ''o'' demo_gate = 1
   \<and> card {r. r < length (va_objs demo_gate) \<and> wr_state (va_objs demo_gate ! r) \<noteq> Released \<and> wr_origin (va_objs demo_gate ! r) = ''o''} \<le> 2"
proof -
  have "windowsHeld ''o'' demo_gate = 2" "queued_for ''o'' demo_gate = 1" by code_simp+
  then show ?thesis using admission_caps [OF demo_reach, of "''o''"] by blast
qed

theorem slot_follows_window_witness:
  "wr_state (va_objs (gate_step (\<lambda>_. True) 8 (CallWindowRemoved 42) demo_opened) ! 0) = Released
   \<and> (wr_state (va_objs demo_opened ! 0) = Unstarted
      \<or> wr_state (va_objs demo_opened ! 0) = InFlight \<and> (CallWindowRemoved 42 = CallCreationFailed 0 \<or> (\<exists>w\<in>set (va_recentRemovals demo_opened). CallWindowRemoved 42 = CallAdopt 0 w))
      \<or> (\<exists>w. wr_windowId (va_objs demo_opened ! 0) = Some w \<and> CallWindowRemoved 42 = CallWindowRemoved w))"
proof -
  have h: "0 < length (va_objs demo_opened)" "wr_state (va_objs demo_opened ! 0) \<noteq> Released"
    "wr_state (va_objs (gate_step (\<lambda>_. True) 8 (CallWindowRemoved 42) demo_opened) ! 0) = Released"
    by code_simp+
  have "holds demo_opened (CallWindowRemoved 42)" by (simp add: holds_def)
  then show ?thesis using slot_follows_window [OF demo_opened_reach _ h] h(3) by blast
qed

end
