(* ===== verification/Admission_Rate.thy ===== *)
theory Admission_Rate
  imports Admission_Safety
begin

text \<open>
  How fast an origin is admitted, and that nobody who waits is forgotten: the token bucket of the
  admission gate over time, and its timer.
\<close>

section \<open>Credit\<close>

text \<open>What the tokens of an origin are worth in milliseconds, with the time since the last refill.\<close>

definition credit :: "time \<Rightarrow> origin_state \<Rightarrow> int" where
  "credit now ori = min 60000 (20000 * os_tokens ori + max 0 (now - os_refilledAt ori))"

definition credit_of :: "string \<Rightarrow> time \<Rightarrow> gate \<Rightarrow> int" where
  "credit_of n now g = (case js_get (va_origins g) n of None \<Rightarrow> 60000 | Some ori \<Rightarrow> credit now ori)"

definition refreshed :: "time \<Rightarrow> origin_state \<Rightarrow> bool" where
  "refreshed now ori \<longleftrightarrow> (if os_tokens ori \<ge> 3 then os_refilledAt ori = now else now - os_refilledAt ori < 20000)"

definition refreshed_in :: "time \<Rightarrow> gate \<Rightarrow> string \<Rightarrow> bool" where
  "refreshed_in now g n \<longleftrightarrow> (case js_get (va_origins g) n of None \<Rightarrow> True | Some ori \<Rightarrow> refreshed now ori)"

text \<open>The admissions of an origin that cost a token, between two times.\<close>

fun spends_between :: "string \<Rightarrow> time \<Rightarrow> time \<Rightarrow> gate_effect \<Rightarrow> bool" where
  "spends_between n a b (Admitted t req) \<longleftrightarrow> rq_origin req = n \<and> rq_consumesToken req \<and> a \<le> t \<and> t \<le> b"
| "spends_between n a b _ \<longleftrightarrow> False"

definition spent :: "string \<Rightarrow> time \<Rightarrow> time \<Rightarrow> gate \<Rightarrow> int" where
  "spent n a b g = int (length (filter (spends_between n a b) (va_log g)))"

definition rate_ok :: "time \<Rightarrow> gate \<Rightarrow> bool" where
  "rate_ok now g \<longleftrightarrow> (\<forall>t req. Admitted t req \<in> set (va_log g) \<longrightarrow> t \<le> now)
     \<and> (\<forall>n a. a \<le> now \<longrightarrow> 20000 * spent n a now g + credit_of n now g \<le> 60000 + (now - a))
     \<and> (\<forall>n a b. a \<le> b \<longrightarrow> b \<le> now \<longrightarrow> 20000 * spent n a b g \<le> 60000 + (b - a))"

lemma rateI:
  assumes "\<And>t req. Admitted t req \<in> set (va_log g) \<Longrightarrow> t \<le> now"
    "\<And>n a. a \<le> now \<Longrightarrow> 20000 * spent n a now g + credit_of n now g \<le> 60000 + (now - a)"
    "\<And>n a b. a \<le> b \<Longrightarrow> b \<le> now \<Longrightarrow> 20000 * spent n a b g \<le> 60000 + (b - a)"
  shows "rate_ok now g"
  using assms by (simp add: rate_ok_def)

lemma rateD:
  assumes "rate_ok now g"
  shows "Admitted t req \<in> set (va_log g) \<Longrightarrow> t \<le> now"
    "a \<le> now \<Longrightarrow> 20000 * spent n a now g + credit_of n now g \<le> 60000 + (now - a)"
    "a \<le> b \<Longrightarrow> b \<le> now \<Longrightarrow> 20000 * spent n a b g \<le> 60000 + (b - a)"
  using assms unfolding rate_ok_def by blast+

lemma credit_range: "0 \<le> os_tokens ori \<Longrightarrow> 0 \<le> credit now ori \<and> credit now ori \<le> 60000"
  by (simp add: credit_def)

lemma credit_refill: "os_tokens ori \<le> 3 \<Longrightarrow> credit now (refill now ori) = credit now ori"
proof (cases "os_tokens ori \<ge> 3")
  case False
  define x q where "x = now - os_refilledAt ori" and "q = x div 20000"
  have x: "20000 * q \<le> x" "x < 20000 * q + 20000" unfolding q_def by linarith+
  show ?thesis
  proof (cases "q \<le> 0")
    case True
    then show ?thesis using False by (simp add: refill_def RECONNECT_TOKENS_def RECONNECT_REFILL_MS_def x_def q_def)
  next
    case pos: False
    have r: "refill now ori = ori\<lparr>os_tokens := min 3 (os_tokens ori + q),
        os_refilledAt := (if 3 \<le> min 3 (os_tokens ori + q) then now else os_refilledAt ori + q * 20000)\<rparr>"
      using False pos by (simp add: refill_def RECONNECT_TOKENS_def RECONNECT_REFILL_MS_def Let_def x_def q_def)
    have m: "max 0 x = x" "max 0 (now - (os_refilledAt ori + q * 20000)) = x - 20000 * q"
      using x pos by (simp_all add: x_def)
    show ?thesis
    proof (cases "3 \<le> os_tokens ori + q")
      case True
      then show ?thesis unfolding r using x m(1) by (simp add: credit_def x_def [symmetric])
    next
      case less: False
      then have "credit now (refill now ori) = min 60000 (20000 * (os_tokens ori + q) + max 0 (now - (os_refilledAt ori + q * 20000)))"
        unfolding r by (simp add: credit_def)
      then show ?thesis unfolding m(2) using m(1) by (simp add: credit_def x_def [symmetric])
    qed
  qed
qed (simp add: refill_def RECONNECT_TOKENS_def credit_def)

lemma refill_refreshed: "refreshed now (refill now ori)"
proof (cases "os_tokens ori \<ge> 3")
  case False
  define x where "x = now - os_refilledAt ori"
  have x: "x = 20000 * (x div 20000) + x mod 20000" "0 \<le> x mod 20000" "x mod 20000 < 20000"
    by simp_all
  have "now - (os_refilledAt ori + x div 20000 * 20000) < 20000" using x(1,3) unfolding x_def by linarith
  moreover have "x < 20000" if "x div 20000 \<le> 0" using x that by linarith
  ultimately show ?thesis
    using False by (auto simp: refreshed_def refill_def RECONNECT_TOKENS_def RECONNECT_REFILL_MS_def Let_def x_def [symmetric])
qed (simp add: refill_def RECONNECT_TOKENS_def refreshed_def)

lemma credit_spend:
  assumes "refreshed now ori" "1 \<le> os_tokens ori" "os_tokens ori \<le> 3"
  shows "credit now (ori\<lparr>os_tokens := os_tokens ori - 1\<rparr>) + 20000 = credit now ori" "refreshed now (ori\<lparr>os_tokens := os_tokens ori - 1\<rparr>)"
  using assms by (auto simp: credit_def refreshed_def min_def max_def split: if_splits)

lemma credit_wait: "past \<le> now \<Longrightarrow> credit_of n now g \<le> credit_of n past g + (now - past)"
  by (auto simp: credit_of_def credit_def min_def max_def split: option.split)

lemma credit_of_range: "origins_ok g \<Longrightarrow> 0 \<le> credit_of n now g \<and> credit_of n now g \<le> 60000"
  using credit_range by (auto simp: credit_of_def origins_ok_def origin_ok_def split: option.split)

section \<open>Keeping the rate\<close>

lemma spent_later:
  assumes "\<forall>t req. Admitted t req \<in> set (va_log g) \<longrightarrow> t \<le> now" "now \<le> b"
  shows "spent n a b g = spent n a now g"
proof -
  have "spends_between n a b e = spends_between n a now e" if "e \<in> set (va_log g)" for e
    using assms that by (cases e) force+
  then show ?thesis unfolding spent_def by (simp cong: filter_cong)
qed

lemma spent_none: "b < a \<Longrightarrow> spent n a b g = 0"
proof -
  assume "b < a"
  then have "\<not> spends_between n a b e" for e by (cases e) auto
  then show ?thesis by (simp add: spent_def)
qed

lemma rate_wait:
  assumes "rate_ok past g" "origins_ok g" "past \<le> now"
  shows "rate_ok now g"
proof (rule rateI)
  have times: "\<forall>t req. Admitted t req \<in> set (va_log g) \<longrightarrow> t \<le> past" using rateD(1) [OF assms(1)] by blast
  show "t \<le> now" if "Admitted t req \<in> set (va_log g)" for t req
    using rateD(1) [OF assms(1) that] assms(3) by simp
  show "20000 * spent n a b g \<le> 60000 + (b - a)" if "a \<le> b" "b \<le> now" for n a b
  proof (cases "b \<le> past")
    case False
    then have "spent n a b g = spent n a past g" using spent_later [OF times, of b] by simp
    then show ?thesis
      using rateD(2) [OF assms(1), of a n] spent_none [of past a n g] credit_of_range [OF assms(2), of n past] False that by (cases "a \<le> past") auto
  qed (use rateD(3) [OF assms(1)] that in simp)
  show "20000 * spent n a now g + credit_of n now g \<le> 60000 + (now - a)" if "a \<le> now" for n a
    using spent_later [OF times assms(3), of n a] rateD(2) [OF assms(1), of a n] spent_none [of past a n g]
      credit_wait [OF assms(3), of n g] credit_of_range [OF assms(2), of n now] that by (cases "a \<le> past") auto
qed

text \<open>A step that admits nobody and gives no credit.\<close>

lemma rate_ok_mono:
  assumes "rate_ok now g" "\<And>n. credit_of n now g' \<le> credit_of n now g" "\<And>n a b. spent n a b g' = spent n a b g"
    "\<And>t req. Admitted t req \<in> set (va_log g') \<Longrightarrow> Admitted t req \<in> set (va_log g)"
  shows "rate_ok now g'"
proof (rule rateI)
  show "20000 * spent n a now g' + credit_of n now g' \<le> 60000 + (now - a)" if "a \<le> now" for n a
    using rateD(2) [OF assms(1) that, of n] assms(2) [of n] assms(3) [of n a now] by simp
  show "t \<le> now" if "Admitted t req \<in> set (va_log g')" for t req
    using rateD(1) [OF assms(1)] assms(4) that by blast
qed (use rateD(3) [OF assms(1)] assms(3) in simp)

text \<open>An admission: its token was there.\<close>

lemma rate_ok_admit:
  assumes rate: "rate_ok now g" "origins_ok g'"
    and log: "va_log g' = va_log g @ [Admitted now req]"
    and cred: "\<And>n. credit_of n now g' + (if n = rq_origin req \<and> rq_consumesToken req then 20000 else 0) = credit_of n now g"
  shows "rate_ok now g'"
proof (rule rateI)
  have s: "spent n a b g' = spent n a b g + (if n = rq_origin req \<and> rq_consumesToken req \<and> a \<le> now \<and> now \<le> b then 1 else 0)" for n a b
    using log by (auto simp: spent_def)
  show own: "20000 * spent n a now g' + credit_of n now g' \<le> 60000 + (now - a)" if "a \<le> now" for n a
    using rateD(2) [OF rate(1) that, of n] s [of n a now] cred [of n] that by (auto split: if_splits)
  show "20000 * spent n a b g' \<le> 60000 + (b - a)" if "a \<le> b" "b \<le> now" for n a b
  proof (cases "b = now")
    case True
    then show ?thesis using own [of a n] credit_of_range [OF rate(2), of n now] that by simp
  next
    case False
    then show ?thesis using s [of n a b] rateD(3) [OF rate(1) that, of n] that by simp
  qed
  show "t \<le> now" if "Admitted t r \<in> set (va_log g')" for t r
    using that log rateD(1) [OF rate(1)] by auto
qed

section \<open>Frames and calls\<close>

text \<open>The parts of the gate the rate depends on.\<close>

definition buckets :: "gate \<Rightarrow> string \<Rightarrow> (int \<times> time) option" where
  "buckets g n = map_option (\<lambda>ori. (os_tokens ori, os_refilledAt ori)) (js_get (va_origins g) n)"

lemma credit_of_buckets: "credit_of n now g = (case buckets g n of None \<Rightarrow> 60000 | Some (k, a) \<Rightarrow> min 60000 (20000 * k + max 0 (now - a)))"
  by (simp add: credit_of_def credit_def buckets_def split: option.split)

lemma refreshed_buckets:
  "refreshed_in now g n \<longleftrightarrow> (case buckets g n of None \<Rightarrow> True | Some (k, a) \<Rightarrow> if k \<ge> 3 then a = now else now - a < 20000)"
  by (simp add: refreshed_in_def refreshed_def buckets_def split: option.split)

definition quiet :: "gate_effect \<Rightarrow> bool" where
  "quiet e \<longleftrightarrow> (\<forall>t req. e \<noteq> Admitted t req)"

definition quiet_log :: "gate \<Rightarrow> gate \<Rightarrow> bool" where
  "quiet_log g g' \<longleftrightarrow> (\<exists>es. va_log g' = va_log g @ es \<and> list_all quiet es)"

lemma quiet_log_refl [simp]: "va_log g' = va_log g \<Longrightarrow> quiet_log g g'"
  by (simp add: quiet_log_def)

lemma quiet_log_one: "va_log g' = va_log g @ [e] \<Longrightarrow> quiet e \<Longrightarrow> quiet_log g g'"
  by (simp add: quiet_log_def)

lemma quiet_rate:
  assumes "rate_ok now g" "quiet_log g g'" "\<And>n. credit_of n now g' \<le> credit_of n now g"
  shows "rate_ok now g'"
proof -
  obtain es where es: "va_log g' = va_log g @ es" "list_all quiet es" using assms(2) by (auto simp: quiet_log_def)
  have "\<not> spends_between n a b e" if "quiet e" for n a b e
    using that by (cases e) (auto simp: quiet_def)
  then have "filter (spends_between n a b) es = []" for n a b
    using es(2) by (auto simp: list_all_iff filter_empty_conv)
  then have "spent n a b g' = spent n a b g" for n a b by (simp add: spent_def es(1))
  moreover have "Admitted t req \<in> set (va_log g)" if "Admitted t req \<in> set (va_log g')" for t req
    using that es by (auto simp: list_all_iff quiet_def)
  ultimately show ?thesis using rate_ok_mono assms(1,3) by blast
qed

text \<open>Freeing a slot may bring a bucket that is full.\<close>

definition buckets_kept :: "time \<Rightarrow> gate \<Rightarrow> gate \<Rightarrow> bool" where
  "buckets_kept now g g' \<longleftrightarrow> quiet_log g g' \<and> (\<forall>n. buckets g' n = buckets g n \<or> buckets g n = None \<and> buckets g' n = Some (3, now))"

text \<open>A step that admits nobody, gives no credit and leaves a refilled bucket refilled.\<close>

definition calm :: "time \<Rightarrow> gate \<Rightarrow> gate \<Rightarrow> bool" where
  "calm now g g' \<longleftrightarrow> quiet_log g g' \<and> (\<forall>n. credit_of n now g' \<le> credit_of n now g) \<and> (\<forall>n. refreshed_in now g n \<longrightarrow> refreshed_in now g' n)"

lemma calm_rate: "rate_ok now g \<Longrightarrow> calm now g g' \<Longrightarrow> rate_ok now g'"
  using quiet_rate by (auto simp: calm_def)

lemma kept_calm:
  assumes "buckets_kept now g g'"
  shows "calm now g g'"
proof -
  have "credit_of n now g' \<le> credit_of n now g \<and> (refreshed_in now g n \<longrightarrow> refreshed_in now g' n)" for n
  proof (cases "buckets g' n = buckets g n")
    case True
    then show ?thesis by (simp only: credit_of_buckets refreshed_buckets) simp
  next
    case False
    then have "buckets g n = None" "buckets g' n = Some (3, now)" using assms by (auto simp: buckets_kept_def)
    then show ?thesis by (simp add: credit_of_buckets refreshed_buckets)
  qed
  then show ?thesis using assms by (simp add: calm_def buckets_kept_def)
qed

lemma kept_refl: "va_origins g' = va_origins g \<Longrightarrow> quiet_log g g' \<Longrightarrow> buckets_kept now g g'"
  by (simp add: buckets_kept_def buckets_def)

lemma buckets_with:
  assumes "\<And>ori. os_tokens (f ori) = os_tokens ori \<and> os_refilledAt (f ori) = os_refilledAt ori"
  shows "buckets (with_origin k f g) n = buckets g n"
  using assms by (auto simp: with_origin_def buckets_def js_get_set split: option.split)

lemma originState_kept: "buckets_kept now g (originState now k g)"
  by (auto simp: buckets_kept_def originState_def buckets_def js_get_set RECONNECT_TOKENS_def)

lemma finish_kept: "buckets_kept now g (fst (finish now r g))"
proof -
  let ?obj = "va_objs (upd_res r (\<lambda>obj. obj\<lparr>wr_state := Released\<rparr>) g) ! r"
  have b: "buckets (fst (finish now r g)) n = buckets g n \<or> buckets (fst (finish now r g)) n = buckets (originState now (wr_origin ?obj) g) n" for n
    using buckets_with [of "\<lambda>ori. ori\<lparr>os_windows := os_windows ori - 1\<rparr>"]
    by (auto simp: finish_def released_def Let_def buckets_def with_origin_def js_get_set originState_def upd_res_def)
  have "quiet_log g (fst (finish now r g))"
    by (auto simp: finish_def released_def Let_def quiet_log_def quiet_def upd_res_def originState_def)
  then show ?thesis
    using b originState_kept [of now g "wr_origin ?obj"] unfolding buckets_kept_def by metis
qed

lemma close_kept: "buckets_kept now g (closeStandby r g)"
  by (rule kept_refl) (auto simp: quiet_log_def quiet_def closeStandby_def Let_def split: option.split)

lemma release_kept: "buckets_kept now g (fst (releaseIfUnstarted now r g))"
  using finish_kept close_kept kept_refl by (simp add: releaseIfUnstarted_def split: reservation_state.split)

lemma tidy_calm:
  assumes "gate_ok g"
  shows "calm now g (tidy_origin k g)"
proof (cases "js_get (va_origins g) k")
  case (Some ori)
  show ?thesis
  proof (cases "os_queue ori = [] \<and> os_windows ori = 0 \<and> os_tokens ori \<ge> RECONNECT_TOKENS")
    case True
    then have "tidy_origin k g = g\<lparr>va_origins := js_del k (va_origins g)\<rparr>" using Some by (simp add: tidy_origin_def)
    then show ?thesis
      using Some True by (auto simp: calm_def credit_of_def credit_def refreshed_in_def js_get_del RECONNECT_TOKENS_def split: option.split)
  next
    case False
    then have "tidy_origin k g = g" using Some by (auto simp: tidy_origin_def)
    then show ?thesis by (simp add: calm_def)
  qed
qed (simp add: tidy_origin_def calm_def)

lemma refill_calm:
  assumes "gate_ok g"
  shows "calm now g (with_origin k (refill now) g)" "refreshed_in now (with_origin k (refill now) g) k"
proof -
  have "credit now (refill now ori) = credit now ori" if "js_get (va_origins g) k = Some ori" for ori
    using gate_okD(1) [OF assms] that by (intro credit_refill) (simp add: origins_ok_def origin_ok_def RECONNECT_TOKENS_def)
  then show "calm now g (with_origin k (refill now) g)"
    by (auto simp: calm_def with_origin_def credit_of_def refreshed_in_def js_get_set refill_refreshed split: option.split)
  show "refreshed_in now (with_origin k (refill now) g) k"
    by (auto simp: with_origin_def refreshed_in_def js_get_set refill_refreshed split: option.split)
qed

lemma consume_buckets:
  assumes "js_get (va_origins g) n = Some ori"
  shows "buckets (fst (consume now n req g)) k = (if k = n \<and> rq_consumesToken req then Some (os_tokens ori - 1, os_refilledAt ori) else buckets g k)"
    "va_log (fst (consume now n req g)) = va_log g @ [Admitted now req]"
  using assms by (auto simp: consume_def Let_def buckets_def with_origin_def js_get_set)

lemma consume_rate:
  assumes ok: "gate_ok g'" "g' = fst (consume now n req g)" and ori: "js_get (va_origins g) n = Some ori" "origin_ok n ori" "fits g ori req" "rq_origin req = n"
    and rate: "rate_ok now g" "refreshed_in now g n"
  shows "rate_ok now g' \<and> (\<forall>k. refreshed_in now g k \<longrightarrow> refreshed_in now g' k)"
proof -
  note b = consume_buckets [OF ori(1), of now req, folded ok(2)]
  have own: "buckets g n = Some (os_tokens ori, os_refilledAt ori)" using ori(1) by (simp add: buckets_def)
  have "refreshed now ori" using rate(2) ori(1) by (simp add: refreshed_in_def)
  then have sp: "credit now (ori\<lparr>os_tokens := os_tokens ori - 1\<rparr>) + 20000 = credit now ori" "refreshed now (ori\<lparr>os_tokens := os_tokens ori - 1\<rparr>)"
    if "rq_consumesToken req"
    using that ori(2,3) credit_spend [of now ori] by (simp_all add: fits_def origin_ok_def RECONNECT_TOKENS_def)
  have c: "credit_of k now g' + (if k = rq_origin req \<and> rq_consumesToken req then 20000 else 0) = credit_of k now g" for k
    using b(1) [of k] own sp(1) ori(4) by (auto simp: credit_of_buckets credit_def)
  have "rate_ok now g'"
    by (rule rate_ok_admit [OF rate(1) gate_okD(1) [OF ok(1)] b(2) c])
  moreover have "refreshed_in now g' k" if "refreshed_in now g k" for k
    using b(1) [of k] own sp(2) that by (auto simp: refreshed_buckets refreshed_def)
  ultimately show ?thesis by blast
qed

lemma shift_calm: "calm now g (shift_queue n g)" "buckets (shift_queue n g) = buckets g"
proof -
  show "buckets (shift_queue n g) = buckets g"
    by (rule ext) (simp add: shift_queue_def buckets_with)
  then show "calm now g (shift_queue n g)"
    by (intro kept_calm) (simp add: buckets_kept_def)
qed

fun frame_fresh :: "time \<Rightarrow> gate \<Rightarrow> frame \<Rightarrow> bool" where
  "frame_fresh now g (Drain n) = refreshed_in now g n"
| "frame_fresh now g _ = True"

lemma drain_rate:
  assumes ok: "gate_ok g" and rate: "rate_ok now g" "refreshed_in now g n"
  shows "rate_ok now (fst (drain_turn now n g)) \<and> (\<forall>k. refreshed_in now g k \<longrightarrow> refreshed_in now (fst (drain_turn now n g)) k)"
proof (cases "js_get (va_origins g) n")
  case (Some ori)
  show ?thesis
  proof (cases "os_queue ori")
    case (Cons q qs)
    obtain req run where q: "q = (req, run)" by force
    let ?s = "shift_queue n g" and ?d = "fst (drain_turn now n g)"
    have same: "credit_of k now ?s = credit_of k now g" "refreshed_in now ?s k = refreshed_in now g k" for k
      by (simp_all add: credit_of_buckets refreshed_buckets shift_calm(2))
    consider (expired) "now > rq_deadline req" | (stop) "\<not> now > rq_deadline req" "\<not> fits g ori req" | (go) "\<not> now > rq_deadline req" "fits g ori req"
      by blast
    then show ?thesis
    proof cases
      case expired
      then have "va_origins ?d = va_origins ?s" "va_log ?d = va_log g @ [ExpiredQueued (rq_id req)]"
        using Some Cons q by (simp_all add: drain_turn_def Let_def)
      then have "buckets ?d = buckets g" "quiet_log g ?d"
        using shift_calm(2) [of n g] by (auto simp: buckets_def quiet_log_def quiet_def fun_eq_iff)
      then have "calm now g ?d" by (intro kept_calm) (simp add: buckets_kept_def)
      then show ?thesis using calm_rate [OF rate(1)] by (simp add: calm_def)
    next
      case stop
      then have "?d = g" using Some Cons q by (simp add: drain_turn_def)
      then show ?thesis using rate by simp
    next
      case go
      have d: "?d = fst (consume now n req ?s)"
        using Some Cons q go by (simp add: drain_turn_def Let_def split_def)
      let ?o = "ori\<lparr>os_queue := qs\<rparr>"
      have o: "js_get (va_origins ?s) n = Some ?o" "origin_ok n ori"
        using Some Cons q gate_okD(1) [OF ok] by (simp_all add: shift_queue_def with_origin_def js_get_set origins_ok_def)
      moreover from this have "origin_ok n ?o" "rq_origin req = n" using Cons q by (simp_all add: origin_ok_def)
      moreover have "fits ?s ?o req" using go by (simp add: fits_def)
      moreover have "rate_ok now ?s" using calm_rate [OF rate(1) shift_calm(1)] .
      ultimately have "rate_ok now ?d \<and> (\<forall>k. refreshed_in now ?s k \<longrightarrow> refreshed_in now ?d k)"
        using drain_ok [OF ok, of now n] rate(2) same(2) by (intro consume_rate [OF _ d]) auto
      then show ?thesis using same(2) by simp
    qed
  qed (use Some rate in \<open>simp add: drain_turn_def\<close>)
qed (simp add: drain_turn_def rate)

lemma exec_rate:
  assumes "gate_ok g" "rate_ok now g" "frame_fresh now g f"
  shows "rate_ok now (fst (exec_frame lands now f g)) \<and> (\<forall>k. refreshed_in now g k \<longrightarrow> refreshed_in now (fst (exec_frame lands now f g)) k)
    \<and> list_all (frame_fresh now (fst (exec_frame lands now f g))) (snd (exec_frame lands now f g))"
proof -
  have calm: ?thesis if "calm now g (fst (exec_frame lands now f g))" "list_all (frame_fresh now (fst (exec_frame lands now f g))) (snd (exec_frame lands now f g))"
    using calm_rate [OF assms(2) that(1)] that by (simp add: calm_def)
  have arm: "calm now g (arm now g)" "calm now g g"
    by (intro kept_calm kept_refl; simp)+
  show ?thesis
  proof (cases "(lands, now, f, g)" rule: exec_frame.cases)
    case (3 l t r rs g')
    then show ?thesis
      using calm kept_calm [OF release_kept, of now g r] frames_of_release [of now r g] arm(2) by (auto simp: split_def Let_def)
  next
    case (6 l t n ns g')
    then show ?thesis using calm refill_calm [OF assms(1), of now n] arm(2) by auto
  next
    case (7 l t n g')
    have "list_all (frame_fresh now h) (snd (drain_turn now n g))" if "refreshed_in now h n" for h
      using that by (auto simp: drain_turn_def Let_def split: option.split list.split prod.split)
    then show ?thesis using 7 assms drain_rate [OF assms(1,2), of n] by auto
  next
    case (10 l t req run r g')
    have "list_all (frame_fresh now h) (snd (releaseIfUnstarted now r' g))" for h r'
      using frames_of_release [of now r' g] by auto
    then show ?thesis
      using 10 calm arm(2) kept_calm [OF release_kept] by (auto simp: run_entry_def split: admission_run.splits option.splits)
  qed (use calm arm tidy_calm [OF assms(1)] in auto)
qed

lemma calm_trans: "calm now g g1 \<Longrightarrow> calm now g1 g2 \<Longrightarrow> calm now g g2"
proof -
  assume a: "calm now g g1" "calm now g1 g2"
  then obtain es1 es2 where "va_log g1 = va_log g @ es1" "va_log g2 = va_log g1 @ es2" "list_all quiet es1" "list_all quiet es2"
    by (auto simp: calm_def quiet_log_def)
  then have "quiet_log g g2" unfolding quiet_log_def by (intro exI [of _ "es1 @ es2"]) simp
  moreover have "credit_of n now g2 \<le> credit_of n now g" for n
    using a order_trans unfolding calm_def by blast
  ultimately show ?thesis using a by (simp add: calm_def)
qed

lemma fresh_serve: "fs = [] \<or> fs = [Serve] \<Longrightarrow> list_all (frame_fresh now g) fs"
  by auto

lemma admit_rate:
  assumes ok: "gate_ok g0" "rate_ok now g0"
  shows "rate_ok now (fst (snd (admit_head now req run g0))) \<and> list_all (frame_fresh now g') (snd (snd (admit_head now req run g0)))"
proof (cases "rq_needsWindow req \<and> rq_id req \<in> va_liveWindowIds g0")
  case False
  let ?n = "rq_origin req"
  define g where "g = with_origin ?n (refill now) (originState now ?n g0)"
  have gok: "gate_ok (originState now ?n g0)" by (rule gate_ok_originState [OF ok(1)])
  have g: "gate_ok g" "rate_ok now g" "refreshed_in now g ?n"
    using gate_ok_refill [OF gok] calm_rate [OF ok(2) calm_trans [OF kept_calm [OF originState_kept] refill_calm(1) [OF gok]]] refill_calm(2) [OF gok]
    by (simp_all add: g_def)
  obtain ori where ori: "js_get (va_origins g) ?n = Some ori"
    by (cases "js_get (va_origins (originState now ?n g0)) ?n") (auto simp: g_def with_origin_def js_get_set originState_def split: if_splits)
  note eq = admit_head_eq [OF False g_def ori, of run]
  have o: "origin_ok ?n ori" using gate_okD(1) [OF g(1)] ori by (simp add: origins_ok_def)
  show ?thesis
  proof (cases "fits g ori req")
    case True
    then have "gate_ok (fst (consume now ?n req g))" using admit_head_ok [OF ok(1), of now req run] eq by simp
    then have "rate_ok now (fst (consume now ?n req g))"
      using consume_rate [OF _ refl ori o True refl g(2,3)] by blast
    then show ?thesis using eq True by simp
  next
    case no: False
    let ?q = "arm now (g\<lparr>va_origins := js_set ?n (ori\<lparr>os_queue := os_queue ori @ [(req, run)]\<rparr>) (va_origins g),
       va_liveWindowIds := (if rq_needsWindow req then insert (rq_id req) (va_liveWindowIds g) else va_liveWindowIds g)\<rparr>)"
    have "buckets_kept now g ?q" using ori by (auto simp: buckets_kept_def buckets_def js_get_set)
    then have "rate_ok now ?q" using calm_rate [OF g(2) kept_calm] by blast
    then show ?thesis using eq no g(2) by simp
  qed
qed (simp add: admit_head_def ok)

lemma call_head_rate:
  assumes ok: "gate_ok g" "rate_ok now g"
  shows "rate_ok now (fst (call_head now c g)) \<and> list_all (frame_fresh now g') (snd (call_head now c g))"
proof (cases "\<exists>req run. c = CallAdmit req run")
  case False
  have same: "calm now g h" if "va_origins h = va_origins g" "va_log h = va_log g" for h
    using that by (intro kept_calm kept_refl) simp_all
  have fin: "calm now g (fst (finish now r h))" if "va_origins h = va_origins g" "va_log h = va_log g" for h r
    by (rule calm_trans [OF same [OF that] kept_calm [OF finish_kept]])
  have "calm now g (fst (call_head now c g)) \<and> (snd (call_head now c g) = [] \<or> snd (call_head now c g) = [Serve])"
    using False same fin kept_calm [OF close_kept] kept_calm [OF release_kept] frames_of_finish frames_of_release
    by (cases c) (auto simp: onSessionGone_def cancel_reservation_def windowRemoved_def buffer_removal_def Let_def attach_def adopt_def
        claimStandby_def markInFlight_def creationFailed_def consumeRemoval_def split: option.split reservation_state.split)
  then show ?thesis using calm_rate [OF ok(2)] fresh_serve by blast
qed (use admit_rate [OF ok] in auto)

interpretation rated: gate_invariant "\<lambda>now g. gate_ok g \<and> rate_ok now g" "\<lambda>now g f. frame_ok g f \<and> frame_fresh now g f"
proof unfold_locales
  show "gate_ok empty_gate \<and> rate_ok now empty_gate" for now
    using gate_ok_empty by (auto simp: rate_ok_def spent_def credit_of_def empty_gate_def)
next
  fix past now g assume "gate_ok g \<and> rate_ok past g" "past \<le> now"
  then show "gate_ok g \<and> rate_ok now g" using rate_wait gate_okD(1) by blast
next
  fix now g c assume "gate_ok g \<and> rate_ok now g" "holds g c"
  then show "(gate_ok (fst (call_head now c g)) \<and> rate_ok now (fst (call_head now c g)))
      \<and> list_all (\<lambda>f. frame_ok (fst (call_head now c g)) f \<and> frame_fresh now (fst (call_head now c g)) f) (snd (call_head now c g))"
    using call_head_ok [of g c now] call_head_rate [of g now c] by (simp add: list_all_iff)
next
  fix now g f lands assume "gate_ok g \<and> rate_ok now g" "frame_ok g f \<and> frame_fresh now g f"
  then show "(gate_ok (fst (exec_frame lands now f g)) \<and> rate_ok now (fst (exec_frame lands now f g)))
      \<and> list_all (\<lambda>h. frame_ok (fst (exec_frame lands now f g)) h \<and> frame_fresh now (fst (exec_frame lands now f g)) h) (snd (exec_frame lands now f g))"
    using exec_ok [of g f lands now] exec_rate [of g now f lands] by (simp add: list_all_iff)
next
  fix now g f h lands assume "gate_ok g \<and> rate_ok now g" "frame_ok g f \<and> frame_fresh now g f" "frame_ok g h \<and> frame_fresh now g h"
  then show "frame_ok (fst (exec_frame lands now f g)) h \<and> frame_fresh now (fst (exec_frame lands now f g)) h"
    using frame_ok_mono [OF exec_objs] exec_rate [of g now f lands] by (intro conjI, blast) (cases h; simp)
qed

section \<open>The timer\<close>

text \<open>When somebody who waits has to be looked at: the first of a queue and an unclaimed slot.\<close>

definition head_due :: "gate \<Rightarrow> string \<Rightarrow> time option" where
  "head_due g n =
     (case js_get (va_origins g) n of
        None \<Rightarrow> None
      | Some ori \<Rightarrow> (case os_queue ori of [] \<Rightarrow> None | q # _ \<Rightarrow> Some (rq_deadline (fst q) + 1)))"

definition slot_due :: "gate \<Rightarrow> string \<Rightarrow> time option" where
  "slot_due g i =
     (case js_get (va_reservations g) i of
        None \<Rightarrow> None
      | Some r \<Rightarrow> if unclaimed (va_objs g ! r) then Some (wr_expiresAt (va_objs g ! r) + 1) else None)"

definition due :: "gate \<Rightarrow> time \<Rightarrow> bool" where
  "due g t \<longleftrightarrow> (\<exists>n. head_due g n = Some t) \<or> (\<exists>i. slot_due g i = Some t)"

definition timer_ok :: "time \<Rightarrow> gate \<Rightarrow> bool" where
  "timer_ok now g \<longleftrightarrow> (\<forall>t. due g t \<longrightarrow> (\<exists>w. va_timer g = Some w \<and> w \<le> max now t))"

lemma head_due_cong: "va_origins g' = va_origins g \<Longrightarrow> head_due g' n = head_due g n"
  by (simp add: head_due_def)

lemma slot_due_cong: "va_reservations g' = va_reservations g \<Longrightarrow> va_objs g' = va_objs g \<Longrightarrow> slot_due g' i = slot_due g i"
  by (simp add: slot_due_def split: option.split)

lemma due_frame [simp]:
  "head_due (arm now g) = head_due g" "slot_due (arm now g) = slot_due g" "head_due (log_effect e g) = head_due g" "slot_due (log_effect e g) = slot_due g"
  "head_due (g\<lparr>va_recentRemovals := ws\<rparr>) = head_due g" "slot_due (g\<lparr>va_recentRemovals := ws\<rparr>) = slot_due g" "slot_due (with_origin n f g) = slot_due g"
  "head_due (upd_res r h g) = head_due g"
  by (rule ext, (rule head_due_cong slot_due_cong; simp))+

lemma fold_min_le: "fold min ts t \<le> (t :: int) \<and> (\<forall>u\<in>set ts. fold min ts t \<le> u)"
proof (induction ts arbitrary: t)
  case (Cons u ts)
  then have "fold min ts (min u t) \<le> min u t" "\<forall>v\<in>set ts. fold min ts (min u t) \<le> v" by blast+
  then show ?case by simp
qed simp

lemma nextWake_le:
  assumes "t \<in> set (wakes g)"
  obtains w where "nextWake g = Some w" "w \<le> t"
proof (cases "wakes g")
  case (Cons a ts)
  have "fold min ts a \<le> t" using fold_min_le [of ts a] assms Cons by auto
  then show thesis using that [of "fold min ts a"] Cons by (simp add: nextWake_def)
qed (use assms in simp)

lemma due_wakes:
  assumes "due g t"
  shows "t \<in> set (wakes g)"
  using assms unfolding due_def
proof (elim disjE exE)
  fix n assume "head_due g n = Some t"
  then obtain ori q qs where "js_get (va_origins g) n = Some ori" "os_queue ori = q # qs" "t = rq_deadline (fst q) + 1"
    by (auto simp: head_due_def split: option.splits list.splits)
  moreover from this have "(n, ori) \<in> set (va_origins g)" using js_get_mem by metis
  ultimately show ?thesis
    unfolding wakes_def by (cases q) (auto simp: origin_wakes_def intro!: bexI [of _ "(n, ori)"])
next
  fix i assume "slot_due g i = Some t"
  then obtain r where "js_get (va_reservations g) i = Some r" "unclaimed (va_objs g ! r)" "t = wr_expiresAt (va_objs g ! r) + 1"
    by (auto simp: slot_due_def split: option.splits if_splits)
  moreover from this have "(i, r) \<in> set (va_reservations g)" using js_get_mem by metis
  ultimately show ?thesis
    unfolding wakes_def by (auto intro!: image_eqI [of _ _ "(i, r)"])
qed

lemma arm_timer: "timer_ok now (arm now g)"
proof -
  have "due (arm now g) t = due g t" for t by (simp add: due_def)
  moreover have "\<exists>w. va_timer (arm now g) = Some w \<and> w \<le> max now t" if d: "due g t" for t
  proof -
    obtain w where "nextWake g = Some w" "w \<le> t" using nextWake_le [OF due_wakes [OF d]] .
    then show ?thesis by (simp add: arm_def)
  qed
  ultimately show ?thesis by (simp add: timer_ok_def)
qed

lemma timer_ok_mono:
  assumes "timer_ok now g" "va_timer g' = va_timer g" "\<And>n. head_due g' n = None \<or> head_due g' n = head_due g n"
    "\<And>i. slot_due g' i = None \<or> slot_due g' i = slot_due g i"
  shows "timer_ok now g'"
proof -
  have "due g t" if "due g' t" for t
    using that assms(3,4) unfolding due_def by (metis option.distinct(1))
  then show ?thesis using assms(1,2) by (simp add: timer_ok_def)
qed

text \<open>A frame that still arms the timer, and the loops, which one always follows.\<close>

definition arms :: "frame list \<Rightarrow> bool" where
  "arms fs \<longleftrightarrow> Serve \<in> set fs \<or> Arm \<in> set fs"

fun in_serve :: "frame \<Rightarrow> bool" where
  "in_serve (Reclaim _) = True" | "in_serve VisitOrigins = True" | "in_serve (Visit _) = True"
| "in_serve (Drain _) = True" | "in_serve (Tidy _) = True" | "in_serve _ = False"

fun nested :: "frame list \<Rightarrow> bool" where
  "nested [] = True"
| "nested (f # fs) = ((in_serve f \<longrightarrow> arms fs) \<and> nested fs)"

definition timed :: "time \<Rightarrow> gate \<Rightarrow> frame list \<Rightarrow> bool" where
  "timed now g fs \<longleftrightarrow> gate_ok g \<and> list_all (frame_ok g) fs \<and> nested fs \<and> (timer_ok now g \<or> arms fs)"

lemma nested_append: "nested fs \<Longrightarrow> arms fs \<Longrightarrow> nested (xs @ fs)"
  by (induction xs) (auto simp: arms_def)

lemma arms_append [simp]: "arms (xs @ ys) \<longleftrightarrow> arms xs \<or> arms ys"
  by (auto simp: arms_def)

lemma upd_timer:
  assumes "timer_ok now g" "\<And>obj. unclaimed (f obj) \<Longrightarrow> unclaimed obj" "\<And>obj. wr_expiresAt (f obj) = wr_expiresAt obj"
  shows "timer_ok now (upd_res r f g)"
proof (rule timer_ok_mono [OF assms(1)])
  have "va_objs (upd_res r f g) ! k = f (va_objs g ! k) \<or> va_objs (upd_res r f g) ! k = va_objs g ! k" for k
    by (cases "r < length (va_objs g)") (auto simp: upd_res_def nth_list_update list_update_beyond not_less)
  then have "\<not> unclaimed (va_objs (upd_res r f g) ! k) \<or> unclaimed (va_objs g ! k)" "wr_expiresAt (va_objs (upd_res r f g) ! k) = wr_expiresAt (va_objs g ! k)" for k
    using assms(2,3) by metis+
  then show "slot_due (upd_res r f g) i = None \<or> slot_due (upd_res r f g) i = slot_due g i" for i
    by (auto simp: slot_due_def split: option.split)
qed simp_all

lemma finish_timer: "snd (finish now r g) = [Serve] \<or> (timer_ok now g \<longrightarrow> timer_ok now (fst (finish now r g)))"
  using upd_timer [of now g "\<lambda>obj. obj\<lparr>wr_state := Released\<rparr>" r] by (auto simp: finish_def released_def Let_def unclaimed_def)

lemma timer_ok_log [simp]: "timer_ok now (log_effect e g) = timer_ok now g"
  by (simp add: timer_ok_def due_def)

lemma close_timer: "timer_ok now g \<Longrightarrow> timer_ok now (closeStandby r g)"
  using upd_timer [of now g "\<lambda>obj. obj\<lparr>wr_state := Closing\<rparr>" r] by (simp add: closeStandby_def Let_def unclaimed_def split: option.split)

lemma release_timer: "snd (releaseIfUnstarted now r g) = [Serve] \<or> (timer_ok now g \<longrightarrow> timer_ok now (fst (releaseIfUnstarted now r g)))"
  using finish_timer close_timer by (simp add: releaseIfUnstarted_def split: reservation_state.split)

lemma timed_frame:
  assumes "timed now g (f # fs)"
  shows "timed now (fst (exec_frame lands now f g)) (snd (exec_frame lands now f g) @ fs)"
proof -
  let ?g = "fst (exec_frame lands now f g)" and ?new = "snd (exec_frame lands now f g)"
  have base: "gate_ok ?g" "list_all (frame_ok ?g) (?new @ fs)" "nested fs" "in_serve f \<Longrightarrow> arms fs"
    using assms exec_ok [of g f lands now] frame_ok_mono [OF exec_objs] by (auto simp: timed_def list_all_iff)
  have "nested (?new @ fs) \<and> (timer_ok now ?g \<or> arms (?new @ fs))"
  proof (cases "in_serve f")
    case True
    then show ?thesis using nested_append base by simp
  next
    case False
    then consider (serve) "f = Serve" | (arm) "f = Arm" | (run) req run r where "f = RunEntry req run r"
      by (cases f) auto
    then show ?thesis
    proof cases
      case serve
      then show ?thesis using base(3) by (simp add: arms_def)
    next
      case arm
      then show ?thesis using base(3) arm_timer by simp
    next
      case run
      have t: "timer_ok now g \<or> arms fs" using assms run by (auto simp: timed_def arms_def)
      have rel: "nested (snd (releaseIfUnstarted now k g) @ fs)
          \<and> (timer_ok now (fst (releaseIfUnstarted now k g)) \<or> arms (snd (releaseIfUnstarted now k g) @ fs))" for k
        using frames_of_release [of now k g] release_timer [of now k g] t base(3) by (auto simp: arms_def)
      show ?thesis
        using run rel t base(3) by (auto simp: run_entry_def split: admission_run.split option.split)
    qed
  qed
  then show ?thesis using base by (simp add: timed_def)
qed

lemma timed_serve: "fs = [] \<or> fs = [Serve] \<Longrightarrow> nested fs"
  by auto

lemma admit_timer:
  assumes "timer_ok now g0"
  shows "timer_ok now (fst (snd (admit_head now req run g0)))"
proof (cases "rq_needsWindow req \<and> rq_id req \<in> va_liveWindowIds g0")
  case False
  let ?n = "rq_origin req"
  define g where "g = with_origin ?n (refill now) (originState now ?n g0)"
  obtain ori where ori: "js_get (va_origins g) ?n = Some ori"
    by (cases "js_get (va_origins (originState now ?n g0)) ?n") (auto simp: g_def with_origin_def js_get_set originState_def split: if_splits)
  have h: "head_due g n = None \<or> head_due g n = head_due g0 n" for n
    by (auto simp: head_due_def g_def with_origin_def originState_def js_get_set split: option.split list.split)
  have "slot_due g i = slot_due g0 i" for i
    unfolding g_def by (rule slot_due_cong) (simp_all add: originState_def)
  then have g: "timer_ok now g"
    using h by (intro timer_ok_mono [OF assms]) (simp_all add: g_def originState_def)
  have "timer_ok now (fst (consume now ?n req g))"
  proof (cases "rq_needsWindow req")
    case True
    then show ?thesis by (simp add: consume_def Let_def arm_timer)
  next
    case plain: False
    then have "fst (consume now ?n req g) = with_origin ?n (\<lambda>ori. if rq_consumesToken req then ori\<lparr>os_tokens := os_tokens ori - 1\<rparr> else ori)
        (log_effect (Admitted now req) g)"
      by (simp add: consume_def)
    moreover have "head_due (with_origin ?n (\<lambda>ori. if b then ori\<lparr>os_tokens := os_tokens ori - 1\<rparr> else ori) (log_effect e g)) n = head_due g n" for b e n
      by (auto simp: head_due_def with_origin_def js_get_set split: option.split list.split)
    ultimately show ?thesis by (intro timer_ok_mono [OF g]) simp_all
  qed
  then show ?thesis
    using admit_head_eq [OF False g_def ori, of run] g arm_timer by simp
qed (simp add: admit_head_def assms)

lemma timed_head:
  assumes ok: "gate_ok g" "timer_ok now g" "holds g c"
  shows "timed now (fst (call_head now c g)) (snd (call_head now c g))"
proof -
  let ?g = "fst (call_head now c g)" and ?fs = "snd (call_head now c g)"
  have fin: "nested (snd (finish now r h)) \<and> (timer_ok now (fst (finish now r h)) \<or> arms (snd (finish now r h)))" if "timer_ok now h" for r h
    using finish_timer [of now r h] frames_of_finish [of now r h] that by (auto simp: arms_def)
  have removal: "timer_ok now (h\<lparr>va_recentRemovals := ws\<rparr>) = timer_ok now h" for h ws
    by (simp add: timer_ok_def due_def)
  note upd = upd_timer [OF ok(2)]
  have "nested ?fs \<and> (timer_ok now ?g \<or> arms ?fs)"
  proof (cases c)
    case (CallAdmit req run)
    have "nested (snd (snd (admit_head now req run g)))"
      by (simp add: admit_head_def Let_def split_def)
    then show ?thesis using CallAdmit admit_timer [OF ok(2)] by simp
  next
    case (CallSessionGone i)
    have "timer_ok now (upd_res r (\<lambda>obj. obj\<lparr>wr_cancelled := True\<rparr>) g)" for r
      by (rule upd) (simp_all add: unclaimed_def)
    then show ?thesis
      using CallSessionGone ok(2) fin [OF ok(2)] close_timer
      by (auto simp: onSessionGone_def cancel_reservation_def split: option.split reservation_state.split)
  next
    case (CallWindowRemoved w)
    then show ?thesis
      using fin [OF ok(2)] ok(2) removal by (auto simp: windowRemoved_def buffer_removal_def Let_def split: option.split)
  next
    case CallTimer
    then show ?thesis using ok(2) by (auto simp: arms_def split: option.split)
  next
    case (CallRelease r)
    then show ?thesis using release_timer [of now r g] frames_of_release [of now r g] ok(2) by (auto simp: arms_def)
  next
    case (CallAttach r w)
    have u: "timer_ok now ((upd_res r (\<lambda>obj. obj\<lparr>wr_windowId := Some w\<rparr>) g)\<lparr>va_recentRemovals := ws\<rparr>)" for ws
      unfolding removal by (rule upd) (simp_all add: unclaimed_def)
    show ?thesis
    proof (cases "wr_state (va_objs g ! r) = Unstarted")
      case True
      let ?h = "(upd_res r (\<lambda>obj. obj\<lparr>wr_windowId := Some w\<rparr>) g)\<lparr>va_recentRemovals := filter (\<lambda>x. x \<noteq> w) (va_recentRemovals g)\<rparr>"
      have "timer_ok now (upd_res r (\<lambda>obj. obj\<lparr>wr_state := Standby\<rparr>) ?h)"
      proof (rule timer_ok_mono [OF u])
        have "slot_due (upd_res r (\<lambda>obj. obj\<lparr>wr_state := Standby\<rparr>) ?h) i = slot_due ?h i" for i
          using True ok(3) CallAttach by (auto simp: holds_def slot_due_def upd_res_def nth_list_update unclaimed_def split: option.split)
        then show "slot_due (upd_res r (\<lambda>obj. obj\<lparr>wr_state := Standby\<rparr>) ?h) i = None \<or> slot_due (upd_res r (\<lambda>obj. obj\<lparr>wr_state := Standby\<rparr>) ?h) i = slot_due ?h i" for i
          by simp
      qed simp_all
      then show ?thesis using CallAttach True fin [OF u] by (auto simp: attach_def consumeRemoval_def)
    qed (use CallAttach ok(2) in \<open>simp add: attach_def\<close>)
  next
    case (CallAdopt r w)
    have u: "timer_ok now ((upd_res r (\<lambda>obj. obj\<lparr>wr_windowId := Some w\<rparr>) g)\<lparr>va_recentRemovals := ws\<rparr>)" for ws
      unfolding removal by (rule upd) (simp_all add: unclaimed_def)
    then have "timer_ok now (upd_res r (\<lambda>obj. obj\<lparr>wr_state := Opened\<rparr>) ((upd_res r (\<lambda>obj. obj\<lparr>wr_windowId := Some w\<rparr>) g)\<lparr>va_recentRemovals := ws\<rparr>))" for ws
      by (rule upd_timer) (simp_all add: unclaimed_def)
    then show ?thesis using CallAdopt fin [OF u] ok(2) by (auto simp: adopt_def consumeRemoval_def)
  next
    case (CallClaimStandby r)
    have "timer_ok now (upd_res r (\<lambda>obj. obj\<lparr>wr_state := InFlight\<rparr>) g)" by (rule upd) (simp_all add: unclaimed_def)
    then show ?thesis using CallClaimStandby ok(2) by (simp add: claimStandby_def)
  next
    case (CallMarkInFlight r)
    have "timer_ok now (upd_res r (\<lambda>obj. obj\<lparr>wr_state := InFlight\<rparr>) g)" by (rule upd) (simp_all add: unclaimed_def)
    then show ?thesis using CallMarkInFlight ok(2) by (simp add: markInFlight_def)
  next
    case (CallCreationFailed r)
    then show ?thesis using fin [OF ok(2)] ok(2) by (simp add: creationFailed_def)
  qed
  then show ?thesis using call_head_ok [OF ok(1,3)] by (simp add: timed_def)
qed

interpretation watched: gate_run timed
proof unfold_locales
  show "timed now empty_gate []" for now
    using gate_ok_empty by (simp add: timed_def timer_ok_def due_def head_due_def slot_due_def empty_gate_def)
  show "timed now g []" if "timed past g []" "past \<le> now" for past now g
    using that by (fastforce simp: timed_def timer_ok_def arms_def)
  show "timed now (fst (call_head now c g)) (snd (call_head now c g))" if "timed now g []" "holds g c" for now g c
    using that timed_head by (simp add: timed_def arms_def)
qed (rule timed_frame)

section \<open>Overdue heads\<close>

text \<open>A handshake at the head of its queue past its deadline is still to be visited.\<close>

definition visited :: "frame list \<Rightarrow> string \<Rightarrow> bool" where
  "visited fs n \<longleftrightarrow> Serve \<in> set fs \<or> VisitOrigins \<in> set fs \<or> Drain n \<in> set fs \<or> (\<exists>ns. Visit ns \<in> set fs \<and> n \<in> set ns)"

definition overdue_visited :: "time \<Rightarrow> gate \<Rightarrow> frame list \<Rightarrow> bool" where
  "overdue_visited now g fs \<longleftrightarrow> (\<forall>n t. head_due g n = Some t \<longrightarrow> t \<le> now \<longrightarrow> visited fs n)"

lemma originState_head: "head_due (originState now k g) n = head_due g n"
  by (auto simp: head_due_def originState_def js_get_set)

lemma with_head: "(\<And>ori. os_queue (f ori) = os_queue ori) \<Longrightarrow> head_due (with_origin k f g) n = head_due g n"
  by (auto simp: head_due_def with_origin_def js_get_set split: option.split list.split)

lemma finish_head: "head_due (fst (finish now r g)) n = head_due g n"
proof -
  define u where "u = upd_res r (\<lambda>obj. obj\<lparr>wr_state := Released\<rparr>) g"
  define w where "w = with_origin (wr_origin (va_objs u ! r)) (\<lambda>ori. ori\<lparr>os_windows := os_windows ori - 1\<rparr>) (originState now (wr_origin (va_objs u ! r)) u)"
  have w: "head_due w n = head_due g n"
    unfolding w_def by (subst with_head) (simp_all add: originState_head u_def)
  have "va_origins (fst (finish now r g)) = va_origins u \<or> va_origins (fst (finish now r g)) = va_origins w"
    by (auto simp: finish_def released_def Let_def originState_def with_origin_def u_def w_def split: option.split)
  then show ?thesis
  proof
    assume "va_origins (fst (finish now r g)) = va_origins u"
    then show ?thesis using head_due_cong [of "fst (finish now r g)" u n] by (simp add: u_def)
  next
    assume "va_origins (fst (finish now r g)) = va_origins w"
    then show ?thesis using head_due_cong [of "fst (finish now r g)" w n] w by simp
  qed
qed

lemma release_head: "head_due (fst (releaseIfUnstarted now r g)) n = head_due g n"
  using finish_head head_due_cong [of "closeStandby r g" g] by (simp add: releaseIfUnstarted_def split: reservation_state.split)

lemma drain_head: "k \<noteq> n \<Longrightarrow> head_due (fst (drain_turn now n g)) k = head_due g k"
proof -
  assume k: "k \<noteq> n"
  have "js_get (va_origins (with_origin n f h)) k = js_get (va_origins h) k" for f h
    using k by (simp add: with_origin_def js_get_set split: option.split)
  then have "js_get (va_origins (fst (drain_turn now n g))) k = js_get (va_origins g) k"
    by (auto simp: drain_turn_def shift_queue_def consume_def Let_def split: option.split list.split prod.split)
  then show ?thesis by (simp add: head_due_def)
qed

lemma drain_visits:
  assumes "head_due (fst (drain_turn now n g)) n = Some t" "t \<le> now"
  shows "Drain n \<in> set (snd (drain_turn now n g))"
proof (rule ccontr)
  assume "Drain n \<notin> set (snd (drain_turn now n g))"
  then have "fst (drain_turn now n g) = g \<and> (case js_get (va_origins g) n of None \<Rightarrow> True | Some ori \<Rightarrow> (case os_queue ori of [] \<Rightarrow> True | q # _ \<Rightarrow> now \<le> rq_deadline (fst q)))"
    by (auto simp: drain_turn_def Let_def split: option.splits list.splits prod.splits if_splits)
  then show False using assms by (auto simp: head_due_def split: option.splits list.splits)
qed

lemma overdue_frame:
  assumes "overdue_visited now g (f # fs)"
  shows "overdue_visited now (fst (exec_frame lands now f g)) (snd (exec_frame lands now f g) @ fs)"
  unfolding overdue_visited_def
proof (intro allI impI)
  fix n t
  assume h: "head_due (fst (exec_frame lands now f g)) n = Some t" "t \<le> now"
  have old: "visited (f # fs) n" if "head_due g n = Some t"
    using assms that h(2) by (simp add: overdue_visited_def)
  show "visited (snd (exec_frame lands now f g) @ fs) n"
  proof (cases "(lands, now, f, g)" rule: exec_frame.cases)
    case (3 l u r rs g')
    then have "head_due g n = Some t" using h(1) release_head by (auto simp: split_def Let_def split: if_splits)
    then show ?thesis using old 3 by (auto simp: visited_def)
  next
    case (4 l u g')
    then have d: "head_due g n = Some t" using h(1) by simp
    then have "n \<in> set (js_keys (va_origins g))"
      unfolding js_has_iff_key [symmetric] by (simp add: head_due_def split: option.splits)
    then show ?thesis using 4 unfolding visited_def by (simp del: set_map) blast
  next
    case (6 l u k ks g')
    then have d: "head_due g n = Some t" using h(1) with_head [of "refill now" k g n] by (auto split: if_splits)
    then have "n = k \<Longrightarrow> js_has (va_origins g) k" by (cases "js_get (va_origins g) k") (auto simp: head_due_def)
    then show ?thesis using old [OF d] 6 by (auto simp: visited_def)
  next
    case (7 l u k g')
    show ?thesis
    proof (cases "n = k")
      case True
      then show ?thesis using drain_visits [of now k g t] h 7 by (auto simp: visited_def)
    next
      case False
      then have "head_due g n = Some t" using h(1) 7 drain_head by simp
      then show ?thesis using old False 7 by (auto simp: visited_def)
    qed
  next
    case (8 l u k g')
    have "head_due g n = Some t"
      using h(1) 8 by (auto simp: head_due_def tidy_origin_def js_get_del split: option.splits if_splits)
    then show ?thesis using old 8 by (auto simp: visited_def)
  next
    case (10 l u req run r g')
    then have "head_due g n = Some t" using h(1) release_head by (auto simp: run_entry_def split: admission_run.splits option.splits if_splits)
    then show ?thesis using old 10 by (auto simp: visited_def)
  qed (use h(1) old in \<open>auto simp: visited_def\<close>)
qed

interpretation served: frame_run overdue_visited
  by unfold_locales (rule overdue_frame)

section \<open>Properties\<close>

text \<open>
  C12. Within any span of time the handshakes of an origin that cost a token number at most three and
  one more for every twenty seconds of it, whatever else is called and however the clock stood
  when the origin was last seen.
\<close>

theorem admission_rate:
  assumes "gate_reach now g" "a \<le> b"
  shows "int (length (filter (spends_between n a b) (va_log g))) \<le> 3 + (b - a) div 20000"
proof -
  have ok: "gate_ok g" "rate_ok now g" using rated.reached [OF assms(1)] by auto
  have "20000 * spent n a b g \<le> 60000 + (b - a)"
    using rateD(3) [OF rate_wait [OF ok(2) gate_okD(1) [OF ok(1)], of "max now b"], of a b n] assms(2) by simp
  then show ?thesis
    unfolding spent_def by linarith
qed

text \<open>
  C13. Nobody waits unwatched: whenever a handshake is at the head of a queue or a slot is unclaimed,
  the timer is set, no later than the deadline of either; and when it fires, no head that is past
  its deadline is left.
\<close>

theorem admission_watched:
  assumes "gate_reach now g"
  shows "(due g t \<longrightarrow> (\<exists>w. va_timer g = Some w \<and> w \<le> max now t))
    \<and> (va_timer g \<noteq> None \<and> head_due (gate_step lands later CallTimer g) n = Some u \<longrightarrow> later < u)"
proof (intro conjI impI)
  show "\<exists>w. va_timer g = Some w \<and> w \<le> max now t" if "due g t"
    using watched.reached [OF assms] that by (simp add: timed_def timer_ok_def arms_def)
  assume a: "va_timer g \<noteq> None \<and> head_due (gate_step lands later CallTimer g) n = Some u"
  have "overdue_visited later (run_frames lands later [Serve] h) []" for h
    by (rule served.frames_run) (simp add: overdue_visited_def visited_def)
  from this [of "g\<lparr>va_timer := None\<rparr>"] show "later < u"
    using a by (auto simp: gate_step_def overdue_visited_def visited_def not_le simp del: run_frames.simps)
qed

theorem admission_rate_witness:
  "int (length (filter (spends_between ''o'' 0 5) (va_log demo_gate))) = 2
   \<and> int (length (filter (spends_between ''o'' 0 5) (va_log demo_gate))) \<le> 3 + (5 - 0) div 20000"
proof -
  have "int (length (filter (spends_between ''o'' 0 5) (va_log demo_gate))) = 2" by code_simp
  then show ?thesis using admission_rate [OF demo_reach, of 0 5 "''o''"] by simp
qed

theorem admission_watched_witness:
  "(\<exists>w. va_timer demo_gate = Some w \<and> w \<le> 1001)
   \<and> head_due (gate_step (\<lambda>_. True) 500 CallTimer demo_gate) ''o'' = Some 1001 \<and> 500 < (1001 :: int)"
proof -
  have h: "head_due demo_gate ''o'' = Some 1001" "va_timer demo_gate \<noteq> None"
    "head_due (gate_step (\<lambda>_. True) 500 CallTimer demo_gate) ''o'' = Some 1001"
    by code_simp+
  then have "due demo_gate 1001" by (auto simp: due_def)
  then show ?thesis
    using admission_watched [OF demo_reach, of 1001 "\<lambda>_. True" 500 "''o''" 1001] h by simp
qed

text \<open>The queue is first in, first out among those in it: a newcomer at the moment a token is back takes it
  before the one who waits.\<close>

definition demo_plain :: "string \<Rightarrow> admission_request" where
  "demo_plain i = \<lparr>rq_id = i, rq_origin = ''o'', rq_deadline = 60000, rq_needsWindow = False, rq_consumesToken = True\<rparr>"

definition demo_waiting :: gate where
  "demo_waiting = fold (\<lambda>i. gate_step (\<lambda>_. True) 0 (CallAdmit (demo_plain [i]) Approve)) ''abcd'' empty_gate"

lemma newcomer_overtakes:
  "queued_for ''o'' demo_waiting = 1 \<and> fst (admit (\<lambda>_. True) 20000 (demo_plain ''e'') Approve demo_waiting) = Now
   \<and> queued_for ''o'' (snd (admit (\<lambda>_. True) 20000 (demo_plain ''e'') Approve demo_waiting)) = 1"
  by code_simp

end
