(* ===== verification/Spec2Isabelle.thy ===== *)
theory Spec2Isabelle
  imports Prelude Job_Fsm Lock Rw_Guard Key_Queue Topology Js_Text Activity_Causal Entity_Storage Migrator
    Id_Allocators Profile_Deletion Journal_Model Operation_Journal Journal_Sweeps Send_Check
    Js_Value Capabilities
    Scope_Checkers Js_Number Caip Method_Registry Capability_Coverage Capability_Wire Negotiation Dispatch
    Execution_Mutex Canonical_Row Session_Store Send_Properties Session_Properties
    Estimate_Registry Fingerprint Ttl_Cache Estimate_Reuse Amount Amount_Field Verify_Admission Admission_Safety
    Admission_Rate
begin

text \<open>
  \<^bold>\<open>The Nulo wallet: a verification development.\<close>

  Nulo is a browser-extension wallet for the Aztec network, written in TypeScript. A page talks to the
  extension's background worker, which decides what the page may do, runs transactions and keeps its
  state in the browser's storage. The parts modelled here are the ones that decide, serialise and
  persist. Paths below are under \<^verbatim>\<open>src/\<close>; WB is \<^verbatim>\<open>packages/wallet-bridge/src\<close>, WC is
  \<^verbatim>\<open>packages/wallet-core/src\<close>, SV is \<^verbatim>\<open>apps/extension/src/wallet/services\<close>.

  \<^bold>\<open>How the parts interact.\<close> A request of a page is climbed through the guard ladder of the dispatcher
  (method table, capability, argument shape, scope and account checks), read against the page's stored
  session. Accepted requests become an operation, a question to the user, or a batch of further requests.
  A session row is only believed when its tag verifies; its grants change only through a negotiated
  decision. Transactions wait for a lane of the execution mutex, are bound to the session that authorized
  them and are recorded in the operation journal, whose rows follow the job state machine and are swept, reaped and purged; the send check settles what
  became of a failed submission. Before any of this a page's handshake passes the admission gate, which bounds how often a remembered
  page is approved and how many verify windows are open. Fee estimates have a registry of their own; what an estimate built and
  signed waits in a single-shot store for the confirmation, which reuses it only for the same operation in an
  unchanged world and signs only authorizations that were shown. The session manager holds the unlocked session and
  keeps it open past its deadline while approved sends finish. Deletion of a profile is fenced by epochs. The activity feed merges
  events and snapshots of the journal by a causal reducer. Everything is stored by the entity storage, whose
  layout the migration engine moves forward at start-up, and services start in dependency order. Locks,
  the read/write guard and the keyed queue serialise all of this.

  \<^bold>\<open>Theories.\<close>
  \<^item> \<open>Prelude\<close>, \<open>Js_Text\<close>, \<open>Js_Number\<close>, \<open>Js_Value\<close>: the JavaScript library the code uses: insertion-ordered maps,
    trimming, case, decimal printing, JSON strings, \<^verbatim>\<open>Number(text)\<close>, unvalidated values, exceptions as a sum.
    Characters are code units up to 255; timestamps and counters are unbounded integers unless a theorem says otherwise.
  \<^item> \<open>Job_Fsm\<close> (WC \<^verbatim>\<open>jobs\<close>): stages, transition table, \<^verbatim>\<open>assertCanTransition\<close>. Paths only move forward and end.
  \<^item> \<open>Lock\<close>, \<open>Rw_Guard\<close>, \<open>Key_Queue\<close> (WC \<^verbatim>\<open>utils/lock.ts, keyed-lock.ts, rw-guard.ts, queue.ts\<close>): every callback is one
    atomic step, runs are arbitrary interleavings. Mutual exclusion, first-in first-out order, ownership, no lost
    wake-ups, no starvation; the queue refines a list.
  \<^item> \<open>Topology\<close> (WC \<^verbatim>\<open>base\<close>): the start-up planner is the layering of the dependency graph, its errors are truthful,
    and a service starts once and after its dependencies.
  \<^item> \<open>Activity_Causal\<close> (WC \<^verbatim>\<open>activity\<close>): mutations, snapshots and resets of one feed. The state does not depend on
    the order of delivery; retired incarnations never land; a snapshot decides exactly up to its coverage.
  \<^item> \<open>Entity_Storage\<close>, \<open>Id_Allocators\<close>, \<open>Migrator\<close> (WC \<^verbatim>\<open>storage\<close>, WC \<^verbatim>\<open>migration\<close>, SV \<^verbatim>\<open>id-allocators.ts\<close>): rows over a
    storage area as a keyed store, free ids, and the migration engine run against a store whose every write may
    fail: the content is at all times that of a whole number of migrations, each way a boot can end fixes content, version marker
    and attempts, and boots whose writes land reach the newest version.
  \<^item> \<open>Profile_Deletion\<close> (SV \<^verbatim>\<open>profile/profile-deletion-state.ts\<close>): epochs captured before a deletion are never accepted again.
  \<^item> \<open>Journal_Model\<close>, \<open>Operation_Journal\<close>, \<open>Journal_Sweeps\<close>, \<open>Send_Check\<close> (SV \<^verbatim>\<open>operation-journal\<close>): every call does to the
    map from ids to records exactly what its own specification (\<open>spec_op\<close>) says; record invariants; a row's history; purges, and which
    calls alone can bring a row of an erased profile back; what leaves for a popup; the sweeps; and the reads of the send check, split
    at their awaits and interleaved with everything else: one live read per row, and what each answer rests on.
  \<^item> \<open>Capabilities\<close>, \<open>Scope_Checkers\<close>, \<open>Method_Registry\<close>, \<open>Capability_Coverage\<close>, \<open>Capability_Wire\<close>, \<open>Negotiation\<close>, \<open>Caip\<close>, \<open>Dispatch\<close> (WB,
    SV \<^verbatim>\<open>dapp-session/service.ts\<close>): what a page may be granted, the guard ladder and its declarative meaning
    (\<open>authorized\<close>), coverage of a repeated request and its two exceptions, the stored form of capabilities, the decision a window's answer
    leads to (a refused type gains nothing), account identifiers, and for each method the actions its dispatch starts.
  \<^item> \<open>Canonical_Row\<close>, \<open>Session_Store\<close> (SV \<^verbatim>\<open>dapp-session/integrity.ts, mac-storage.ts\<close>): the canonical encoding of a row is
    exact, and a row that is returned was signed by the wallet, whatever others do to the storage.
  \<^item> \<open>Execution_Mutex\<close> (SV \<^verbatim>\<open>execution/execution-mutex.ts\<close>): the promise chain of a lane with aborts and caps: exclusion in
    arrival order, no stranded waiter, exact caps.
  \<^item> \<open>Journal_History\<close>: what a run of journal calls emits, and that an operation announced as submitting is never
    announced as cancelled.
  \<^item> \<open>Execution_Lane\<close>, \<open>Send_Pipeline\<close> (SV \<^verbatim>\<open>execution/execution-lane.ts, claim-helper.ts, dapp-send-executor.ts,
    execution-coordinator.ts, mark-failed-unless-cancelled.ts\<close>): the controllers, waiters and records of the lane, and a
    send from its slot to its broadcast as threads split at their awaits, beside cancels, the ended-session sweep,
    the heartbeat, session changes, deletions and every other journal call. Building, simulating, proving and
    the node are answers of the environment.
  \<^item> \<open>Send_Safety\<close>, \<open>Send_Slots\<close>, \<open>Send_Cancel\<close>, \<open>Send_Properties\<close>: nothing is broadcast without a live session and an announced
    submission, at most once, and never beside a cancellation; slots are exclusive and released; a controller is
    fired only after the journal took the cancellation; the heartbeat vouches for waiting sends.
  \<^item> \<open>Session_Manager\<close> (SV \<^verbatim>\<open>profile/session-manager.ts\<close>): the unlocked session: open, close, refresh, time-to-live and strict
    mode changes, the alarm, deferred expiry and silent restore, interleaved under the artifact and facade locks.
  \<^item> \<open>Session_Safety\<close>, \<open>Session_Deferral\<close>, \<open>Session_Properties\<close>: a locked manager's bearer is being removed, deferrals share
    one budget, a closed session never returns.
  \<^item> \<open>Estimate_Registry\<close> (SV \<^verbatim>\<open>execution/estimate-cancel-registry.ts\<close>): fee estimates of a profile: the caps hold, a stashed
    request is filed under its own token until it is evicted, and every parked caller is answered.
  \<^item> \<open>Fingerprint\<close> (SV \<^verbatim>\<open>execution/operation-fingerprint.ts\<close>): the identity of an operation as a text; equal exactly when the operations
    agree in what a build reads of them, by unique readability of each encoder (locale \<open>text_code\<close>, interpreted for strings, values, actions and calls).
  \<^item> \<open>Ttl_Cache\<close> (SV \<^verbatim>\<open>execution/estimate-reuse-shared.ts\<close>): the store an entry is read from once (locale \<open>one_shot_store\<close>, interpreted
    on its definitions) and that is empty again a time to live after the last stash.
  \<^item> \<open>Estimate_Reuse\<close> (SV \<^verbatim>\<open>execution/transfer-estimate-reuse.ts, operation-estimate-reuse.ts, preview-snapshots.ts\<close>, the stash and
    confirmation of \<^verbatim>\<open>dapp-send-executor.ts\<close> and \<^verbatim>\<open>transfer-executor.ts\<close>, \<^verbatim>\<open>packages/aztec-runtime/src/fee-juice.ts\<close>): the two ladders are exact
    (the profile compared is the one active when the stash is made), each stash is used at most once and never after its eviction, and an approval signs only what was shown.
  \<^item> \<open>Verify_Admission\<close>, \<open>Admission_Safety\<close>, \<open>Admission_Rate\<close> (SV \<^verbatim>\<open>wallet-sdk/verify-admission.ts\<close>): the admission gate, whose methods
    call each other back, as a stack of frames with a termination proof; its counters are its slots, a slot
    follows its window, the token bucket bounds the rate in every span of time, and the timer watches whoever waits.
  \<^item> \<open>Amount\<close>, \<open>Amount_Field\<close> (\<^verbatim>\<open>apps/extension/src/utils/amount.ts\<close>, \<^verbatim>\<open>components/composite/send/amount-field.ts\<close>): amounts as
    text: parsing and printing are inverse up to the cut, a field at rest reads as what was typed, a read text is
    its own digits, an edit leaves an amount the token can hold or a text
    kept as it was typed, a compact balance fits its width.

  \<^bold>\<open>Bounds and parameters.\<close> No definition needs fuel: loops are structural, or have a termination proof
  (the planner by unresolved services, batches by the size of their arguments, the canonical encoding and the fingerprint's values by the
  size of the value, the admission gate by its queues, its reservations and the frames left). Code outside the repository is a parameter with its documented laws as hypotheses:
  the HMAC and base64 of the platform, schema codecs, the node's receipts and fees, the library's multiplication of fees, what a popup answers, how an
  operation ends, the clock, the fate of each storage write and of each timer. A rejected storage call of the migration engine is taken to have had no
  effect, a message tag to be unforgeable (\<open>ideal_mac\<close>).

  \<^bold>\<open>Not modelled.\<close> User interface, message transport and its envelopes, key derivation and encryption, the Aztec
  runtime (PXE) and contract artifacts, the node and price clients, network configuration, token seeding and
  balance reading, incoming-transfer scanning, backup formats, generated word lists: pure input/output,
  cryptography or calls into libraries that are not part of the repository. Of the dispatcher the
  enrichment of the answer shown to a page is left out; log lines are left out everywhere.
\<close>

end
